(* ===== verification/Prelude.thy ===== *)
theory Prelude
  imports Main "HOL-Library.Word" "HOL-Library.List_Lexorder"
begin

text \<open>
  Shared vocabulary of the development: bytes and machine integers, big-endian byte strings,
  Rust's checked arithmetic, and the state-and-result computations in which every component that
  touches a Store transaction is written.

  \<^item> \<open>bytes\<close> is a Rust \<^verbatim>\<open>[u8]\<close>; \<^theory_text>\<open>HOL-Library.List_Lexorder\<close> orders it lexicographically, which
    is Rust's \<^verbatim>\<open>Ord\<close> for slices.
  \<^item> \<open>be_of_nat n v\<close> is \<^verbatim>\<open>to_be_bytes\<close> at width \<open>n\<close>, \<open>nat_of_be\<close> its inverse; both directions of
    the round trip and the order isomorphism are proved here once for every codec.
  \<^item> \<open>('s, 'e, 'a) sem\<close> is a computation that reads and changes a state and returns either an error
    or a value. The state survives an error, which is what Rust's interior mutability
    (\<^verbatim>\<open>Cell<bool>\<close> poison flags) gives. \<open>wp\<close> is its weakest precondition with a
    postcondition for the normal and one for the error exit; the rules are collected in
    \<open>wp_intros\<close>.
\<close>

section \<open>Machine integers and bytes\<close>

type_synonym byte = "8 word"
type_synonym bytes = "byte list"
type_synonym u32 = "32 word"
type_synonym u64 = "64 word"

text \<open>An \<^verbatim>\<open>i64\<close> is a 64-bit word read in two's complement by \<^term>\<open>sint\<close>.\<close>

type_synonym i64 = "64 word"

definition u64_max :: nat where
  "u64_max = 2 ^ 64 - 1"

text \<open>The targets of the program are 64-bit, so \<^verbatim>\<open>usize\<close> has the range of \<^verbatim>\<open>u64\<close>.\<close>

definition usize_max :: nat where
  "usize_max = 2 ^ 64 - 1"

definition checked_add_u64 :: "u64 \<Rightarrow> u64 \<Rightarrow> u64 option" where
  "checked_add_u64 a b = (if unat a + unat b < 2 ^ 64 then Some (a + b) else None)"

definition checked_sub_u64 :: "u64 \<Rightarrow> u64 \<Rightarrow> u64 option" where
  "checked_sub_u64 a b = (if b \<le> a then Some (a - b) else None)"

definition checked_mul_u64 :: "u64 \<Rightarrow> u64 \<Rightarrow> u64 option" where
  "checked_mul_u64 a b = (if unat a * unat b < 2 ^ 64 then Some (a * b) else None)"

text \<open>\<^verbatim>\<open>i64::unsigned_abs\<close>: defined for \<^verbatim>\<open>i64::MIN\<close> too, whose absolute value is \<open>2 ^ 63\<close>.\<close>

definition unsigned_abs :: "i64 \<Rightarrow> u64" where
  "unsigned_abs d = (if 0 \<le> sint d then d else - d)"

definition checked_add_usize :: "nat \<Rightarrow> nat \<Rightarrow> nat option" where
  "checked_add_usize a b = (if a + b \<le> usize_max then Some (a + b) else None)"

lemma unat_u64_less [simp]: "unat (w :: u64) < 2 ^ 64"
  using unsigned_less [of w] by simp

lemma unat_u32_less [simp]: "unat (w :: u32) < 2 ^ 32"
  using unsigned_less [of w] by simp

lemma unat_byte_less [simp]: "unat (b :: byte) < 256"
  using unsigned_less [of b] by simp

lemma checked_add_u64_Some:
  "checked_add_u64 a b = Some c \<longleftrightarrow> unat c = unat a + unat b"
proof -
  have "unat (a + b) = (unat a + unat b) mod 2 ^ 64"
    by (simp add: unat_word_ariths)
  then show ?thesis
    using unat_u64_less [of c]
    by (auto simp: checked_add_u64_def word_unat_eq_iff simp del: unat_u64_less)
qed

lemma checked_add_u64_None:
  "checked_add_u64 a b = None \<longleftrightarrow> 2 ^ 64 \<le> unat a + unat b"
  by (auto simp: checked_add_u64_def)

lemma checked_sub_u64_Some:
  "checked_sub_u64 a b = Some c \<longleftrightarrow> unat a = unat b + unat c"
proof
  assume "checked_sub_u64 a b = Some c"
  then have "b \<le> a" "c = a - b"
    by (auto simp: checked_sub_u64_def split: if_splits)
  then show "unat a = unat b + unat c"
    by (simp add: unat_sub word_le_nat_alt)
next
  assume eq: "unat a = unat b + unat c"
  then have le: "b \<le> a"
    by (simp add: word_le_nat_alt)
  with eq have "unat (a - b) = unat c"
    by (simp add: unat_sub)
  then have "a - b = c"
    by (simp add: word_unat_eq_iff)
  with le show "checked_sub_u64 a b = Some c"
    by (simp add: checked_sub_u64_def)
qed

lemma checked_sub_u64_None:
  "checked_sub_u64 a b = None \<longleftrightarrow> unat a < unat b"
  by (simp add: checked_sub_u64_def word_le_nat_alt not_le)

lemma checked_mul_u64_Some:
  "checked_mul_u64 a b = Some c \<longleftrightarrow> unat c = unat a * unat b"
proof -
  have "unat (a * b) = (unat a * unat b) mod 2 ^ 64"
    by (simp add: unat_word_ariths)
  then show ?thesis
    using unat_u64_less [of c]
    by (auto simp: checked_mul_u64_def word_unat_eq_iff simp del: unat_u64_less)
qed

lemma sint_u64_range: "- (2 ^ 63) \<le> sint (d :: i64)" "sint (d :: i64) < 2 ^ 63"
  using sint_greater_eq [of d] sint_less [of d] by simp_all

lemma uint_sint_mod: "uint (d :: i64) = sint d mod 2 ^ 64"
  by (simp add: uint_sint take_bit_eq_mod)

lemma sint_u64_unat:
  "sint (d :: i64) = (if unat d < 2 ^ 63 then int (unat d) else int (unat d) - 2 ^ 64)"
proof -
  note range = sint_u64_range [of d]
  have "int (unat d) = (if 0 \<le> sint d then sint d else sint d + 2 ^ 64)"
  proof (cases "0 \<le> sint d")
    case True
    with range show ?thesis by (simp add: uint_sint_mod)
  next
    case False
    have "sint d mod 2 ^ 64 = (sint d + 2 ^ 64) mod 2 ^ 64" by simp
    also have "\<dots> = sint d + 2 ^ 64"
      using range False by (intro mod_pos_pos_trivial) simp_all
    finally show ?thesis using False by (simp add: uint_sint_mod)
  qed
  moreover have "unat d < 2 ^ 63 \<longleftrightarrow> int (unat d) < 2 ^ 63"
    by (metis of_nat_less_iff of_nat_numeral of_nat_power)
  ultimately show ?thesis
    using range by (cases "0 \<le> sint d") (simp_all only: if_True if_False, simp_all)
qed

lemma unat_unsigned_abs: "int (unat (unsigned_abs d)) = \<bar>sint d\<bar>"
proof -
  note range = sint_u64_range [of d]
  have pos: "uint d = sint d" if "0 \<le> sint d"
    using range that by (simp add: uint_sint_mod)
  have neg: "uint (- d) = - sint d" if "sint d < 0"
  proof -
    have "uint (- d) = (- uint d) mod 2 ^ 64"
      by (simp add: uint_word_ariths)
    also have "\<dots> = (- sint d) mod 2 ^ 64"
      by (simp add: uint_sint_mod mod_minus_eq)
    also have "\<dots> = - sint d"
      using range that by simp
    finally show ?thesis .
  qed
  show ?thesis
    using pos neg by (cases "0 \<le> sint d") (simp_all add: unsigned_abs_def)
qed

section \<open>Big-endian byte strings\<close>

text \<open>\<^verbatim>\<open>to_be_bytes\<close> and \<^verbatim>\<open>from_be_bytes\<close> of the standard library, for every width at once.\<close>

fun be_of_nat :: "nat \<Rightarrow> nat \<Rightarrow> bytes" where
  "be_of_nat 0 v = []"
| "be_of_nat (Suc n) v = be_of_nat n (v div 256) @ [word_of_nat (v mod 256)]"

definition nat_of_be :: "bytes \<Rightarrow> nat" where
  "nat_of_be bs = foldl (\<lambda>acc b. acc * 256 + unat b) 0 bs"

definition u32_to_be :: "u32 \<Rightarrow> bytes" where
  "u32_to_be w = be_of_nat 4 (unat w)"

definition u64_to_be :: "u64 \<Rightarrow> bytes" where
  "u64_to_be w = be_of_nat 8 (unat w)"

text \<open>The decoders are applied to arrays of the right width only.\<close>

definition u32_from_be :: "bytes \<Rightarrow> u32" where
  "u32_from_be bs = word_of_nat (nat_of_be bs)"

definition u64_from_be :: "bytes \<Rightarrow> u64" where
  "u64_from_be bs = word_of_nat (nat_of_be bs)"

lemma length_be_of_nat [simp]: "length (be_of_nat n v) = n"
  by (induction n arbitrary: v) auto

lemma nat_of_be_Nil [simp]: "nat_of_be [] = 0"
  by (simp add: nat_of_be_def)

lemma nat_of_be_snoc [simp]: "nat_of_be (bs @ [b]) = nat_of_be bs * 256 + unat b"
  by (simp add: nat_of_be_def)

lemma nat_of_be_Cons: "nat_of_be (b # bs) = unat b * 256 ^ length bs + nat_of_be bs"
proof (induction bs rule: rev_induct)
  case Nil
  show ?case by (simp add: nat_of_be_def)
next
  case (snoc c cs)
  have "nat_of_be (b # cs @ [c]) = nat_of_be (b # cs) * 256 + unat c"
    using nat_of_be_snoc [of "b # cs" c] by simp
  with snoc show ?case by (simp add: algebra_simps)
qed

lemma nat_of_be_less: "nat_of_be bs < 256 ^ length bs"
proof (induction bs rule: rev_induct)
  case Nil
  show ?case by simp
next
  case (snoc b bs)
  then have "nat_of_be bs + 1 \<le> 256 ^ length bs" by simp
  then have "(nat_of_be bs + 1) * 256 \<le> 256 ^ length bs * 256" by (rule mult_le_mono1)
  then show ?case
    using unat_byte_less [of b] by (simp del: unat_byte_less)
qed

lemma nat_of_be_be_of_nat: "nat_of_be (be_of_nat n v) = v mod 256 ^ n"
proof (induction n arbitrary: v)
  case 0
  show ?case by simp
next
  case (Suc n)
  have "unat (word_of_nat (v mod 256) :: byte) = v mod 256"
    by (simp add: unat_of_nat)
  with Suc show ?case
    by (simp add: mod_mult2_eq mult.commute)
qed

lemma be_of_nat_nat_of_be: "be_of_nat (length bs) (nat_of_be bs) = bs"
proof (induction bs rule: rev_induct)
  case Nil
  show ?case by simp
next
  case (snoc b bs)
  then show ?case by (simp add: word_unat_eq_iff unat_of_nat)
qed

lemma nat_of_be_less_iff:
  assumes "length xs = length ys"
  shows "nat_of_be xs < nat_of_be ys \<longleftrightarrow> xs < ys"
  using assms
proof (induction xs ys rule: list_induct2)
  case Nil
  show ?case by simp
next
  case (Cons x xs y ys)
  let ?p = "256 ^ length ys :: nat"
  have low: "nat_of_be xs < ?p" "nat_of_be ys < ?p"
    using nat_of_be_less [of xs] nat_of_be_less [of ys] Cons.hyps by simp_all
  have step: "a * ?p + i < b * ?p + j" if "a < b" "i < ?p" for a b i j :: nat
  proof -
    have "(a + 1) * ?p \<le> b * ?p" using that by (intro mult_le_mono1) simp
    with that show ?thesis by simp
  qed
  consider "unat x < unat y" | "unat x = unat y" | "unat y < unat x" by linarith
  then show ?case
  proof cases
    case 1
    with step [OF 1 low(1)] Cons.hyps show ?thesis
      by (simp add: nat_of_be_Cons word_less_nat_alt)
  next
    case 2
    with Cons show ?thesis
      by (simp add: nat_of_be_Cons word_unat_eq_iff word_less_nat_alt)
  next
    case 3
    with step [OF 3 low(2), of "nat_of_be xs"] Cons.hyps show ?thesis
      by (auto simp: nat_of_be_Cons word_less_nat_alt word_unat_eq_iff)
  qed
qed

lemma be_of_nat_less_iff:
  assumes "v < 256 ^ n" "w < 256 ^ n"
  shows "be_of_nat n v < be_of_nat n w \<longleftrightarrow> v < w"
  using nat_of_be_less_iff [of "be_of_nat n v" "be_of_nat n w"] assms
  by (simp add: nat_of_be_be_of_nat)

lemma length_u32_to_be [simp]: "length (u32_to_be w) = 4"
  by (simp add: u32_to_be_def)

lemma length_u64_to_be [simp]: "length (u64_to_be w) = 8"
  by (simp add: u64_to_be_def)

lemma u32_from_to_be [simp]: "u32_from_be (u32_to_be w) = w"
  using unat_u32_less [of w]
  by (simp add: u32_from_be_def u32_to_be_def nat_of_be_be_of_nat del: unat_u32_less)

lemma u64_from_to_be [simp]: "u64_from_be (u64_to_be w) = w"
  using unat_u64_less [of w]
  by (simp add: u64_from_be_def u64_to_be_def nat_of_be_be_of_nat del: unat_u64_less)

lemma u32_to_from_be: "length bs = 4 \<Longrightarrow> u32_to_be (u32_from_be bs) = bs"
  using nat_of_be_less [of bs] be_of_nat_nat_of_be [of bs]
  by (simp add: u32_from_be_def u32_to_be_def unat_of_nat)

lemma u64_to_from_be: "length bs = 8 \<Longrightarrow> u64_to_be (u64_from_be bs) = bs"
  using nat_of_be_less [of bs] be_of_nat_nat_of_be [of bs]
  by (simp add: u64_from_be_def u64_to_be_def unat_of_nat)

lemma u32_to_be_inject [simp]: "u32_to_be v = u32_to_be w \<longleftrightarrow> v = w"
  by (metis u32_from_to_be)

lemma u64_to_be_inject [simp]: "u64_to_be v = u64_to_be w \<longleftrightarrow> v = w"
  by (metis u64_from_to_be)

lemma u32_to_be_less_iff: "u32_to_be v < u32_to_be w \<longleftrightarrow> v < w"
  using unat_u32_less [of v] unat_u32_less [of w]
  by (simp add: u32_to_be_def be_of_nat_less_iff word_less_nat_alt del: unat_u32_less)

lemma u64_to_be_less_iff: "u64_to_be v < u64_to_be w \<longleftrightarrow> v < w"
  using unat_u64_less [of v] unat_u64_less [of w]
  by (simp add: u64_to_be_def be_of_nat_less_iff word_less_nat_alt del: unat_u64_less)

section \<open>Computations with state and errors\<close>

type_synonym ('s, 'e, 'a) sem = "'s \<Rightarrow> ('e + 'a) \<times> 's"

definition sem_return :: "'a \<Rightarrow> ('s, 'e, 'a) sem" where
  "sem_return a s = (Inr a, s)"

definition sem_throw :: "'e \<Rightarrow> ('s, 'e, 'a) sem" where
  "sem_throw e s = (Inl e, s)"

text \<open>Sequencing with Rust's \<^verbatim>\<open>?\<close>: an error ends the computation, keeping the state it left.\<close>

definition sem_bind :: "('s, 'e, 'a) sem \<Rightarrow> ('a \<Rightarrow> ('s, 'e, 'b) sem) \<Rightarrow> ('s, 'e, 'b) sem" where
  "sem_bind m f s = (case m s of (Inl e, s') \<Rightarrow> (Inl e, s') | (Inr a, s') \<Rightarrow> f a s')"

text \<open>A pure \<^verbatim>\<open>Result\<close> used in a computation, and a \<^verbatim>\<open>match\<close> on the whole result of one.\<close>

definition sem_lift :: "'e + 'a \<Rightarrow> ('s, 'e, 'a) sem" where
  "sem_lift r s = (r, s)"

definition sem_try :: "('s, 'e, 'a) sem \<Rightarrow> ('e + 'a \<Rightarrow> ('s, 'f, 'b) sem) \<Rightarrow> ('s, 'f, 'b) sem" where
  "sem_try m h s = (case m s of (r, s') \<Rightarrow> h r s')"

lemma sem_lift_simps: "sem_lift (Inl e) = sem_throw e" "sem_lift (Inr a) = sem_return a"
  by (auto simp: sem_lift_def sem_throw_def sem_return_def)

definition wp ::
  "('s, 'e, 'a) sem \<Rightarrow> ('a \<Rightarrow> 's \<Rightarrow> bool) \<Rightarrow> ('e \<Rightarrow> 's \<Rightarrow> bool) \<Rightarrow> 's \<Rightarrow> bool" where
  "wp m Q R s = (case m s of (Inr a, s') \<Rightarrow> Q a s' | (Inl e, s') \<Rightarrow> R e s')"

named_theorems wp_intros \<open>weakest-precondition rules of the operations, used as introduction rules\<close>

lemma wp_return [simp]: "wp (sem_return a) Q R s = Q a s"
  by (simp add: wp_def sem_return_def)

lemma wp_return_fun: "wp (sem_return a) Q R = Q a"
  by (rule ext) simp

lemma wp_throw [simp]: "wp (sem_throw e) Q R s = R e s"
  by (simp add: wp_def sem_throw_def)

lemma wp_bind [simp]: "wp (sem_bind m f) Q R s = wp m (\<lambda>a. wp (f a) Q R) R s"
  by (simp add: wp_def sem_bind_def split: prod.split sum.split)

lemma wp_try [simp]:
  "wp (sem_try m h) Q R s = wp m (\<lambda>a. wp (h (Inr a)) Q R) (\<lambda>e. wp (h (Inl e)) Q R) s"
  by (simp add: wp_def sem_try_def split: prod.split sum.split)

lemma wp_lift [simp]:
  "wp (sem_lift r) Q R s = (case r of Inl e \<Rightarrow> R e s | Inr a \<Rightarrow> Q a s)"
  by (simp add: wp_def sem_lift_def split: sum.split)

lemma wp_if: "wp (if c then m else n) Q R s = (if c then wp m Q R s else wp n Q R s)"
  by simp

lemma wp_mono:
  assumes "wp m Q R s" and "\<And>a t. Q a t \<Longrightarrow> Q' a t" and "\<And>e t. R e t \<Longrightarrow> R' e t"
  shows "wp m Q' R' s"
  using assms by (auto simp: wp_def split: prod.splits sum.splits)

lemma wp_conj:
  "wp m (\<lambda>a t. Q a t \<and> Q' a t) (\<lambda>e t. R e t \<and> R' e t) s \<longleftrightarrow> wp m Q R s \<and> wp m Q' R' s"
  by (auto simp: wp_def split: prod.splits sum.splits)

lemma wp_result:
  assumes "wp m Q R s"
  shows "m s = (Inr a, t) \<Longrightarrow> Q a t" and "m s = (Inl e, t) \<Longrightarrow> R e t"
  using assms by (auto simp: wp_def)

lemma wp_cases:
  assumes "wp m Q R s"
  obtains (ok) a t where "m s = (Inr a, t)" "Q a t" | (err) e t where "m s = (Inl e, t)" "R e t"
  using assms by (auto simp: wp_def split: prod.splits sum.splits)

lemma wp_from_result: "wp m Q R s \<longleftrightarrow> (\<exists>a t. m s = (Inr a, t) \<and> Q a t) \<or> (\<exists>e t. m s = (Inl e, t) \<and> R e t)"
  by (auto simp: wp_def split: prod.splits sum.splits)

lemma sem_bind_Inr:
  "sem_bind m f s = (Inr b, u) \<longleftrightarrow> (\<exists>a t. m s = (Inr a, t) \<and> f a t = (Inr b, u))"
  by (auto simp: sem_bind_def split: prod.splits sum.splits)

lemma sem_bind_assoc: "sem_bind (sem_bind m f) g = sem_bind m (\<lambda>a. sem_bind (f a) g)"
  by (rule ext) (simp add: sem_bind_def split: prod.split sum.split)

end
