(* ===== verification/Store_Codec.thy ===== *)
theory Store_Codec
  imports Prelude
begin

text \<open>
  The durable key and value codecs of \<^verbatim>\<open>crates/store/src/codec.rs\<close>.

  The traits \<^verbatim>\<open>StoreValue\<close> and \<^verbatim>\<open>StoreKey\<close> are records of an encoder and a decoder, so that a
  collection receives the codec of its type parameter as an argument. The contract the trait
  documentation states is the locale \<open>store_value_contract\<close> (decoding an encoding gives the
  value back) and \<open>store_key_contract\<close> (canonical, round trip, and byte order equal to the key
  order); every implementation of the file interprets it. \<open>valid\<close> is the set of values of the
  Rust type among those of the HOL type: a \<^verbatim>\<open>String\<close> is a valid UTF-8 byte string, a
  \<^verbatim>\<open>NonZeroU64\<close> is not zero.
\<close>

unbundle bit_operations_syntax

section \<open>The two traits\<close>

datatype codec_error = CodecError string

record 'a store_value =
  encode_value :: "'a \<Rightarrow> codec_error + bytes"
  decode_value :: "bytes \<Rightarrow> codec_error + 'a"

record 'k store_key =
  encode_key :: "'k \<Rightarrow> codec_error + bytes"
  decode_key :: "bytes \<Rightarrow> codec_error + 'k"

section \<open>Implementations\<close>

definition vec_value :: "bytes store_value" where
  "vec_value = \<lparr>encode_value = (\<lambda>v. Inr v), decode_value = (\<lambda>bs. Inr bs)\<rparr>"

definition vec_key :: "bytes store_key" where
  "vec_key = \<lparr>encode_key = (\<lambda>v. Inr v), decode_key = (\<lambda>bs. Inr bs)\<rparr>"

text \<open>\<^verbatim>\<open>String::from_utf8\<close> accepts exactly the well-formed UTF-8 byte sequences.\<close>

definition utf8_cont :: "byte \<Rightarrow> bool" where
  "utf8_cont b \<longleftrightarrow> 0x80 \<le> b \<and> b \<le> 0xBF"

fun utf8_valid :: "bytes \<Rightarrow> bool" where
  "utf8_valid [] = True"
| "utf8_valid (a # r) =
     (if a < 0x80 then utf8_valid r
      else (case r of
        [] \<Rightarrow> False
      | b # r2 \<Rightarrow>
          (if 0xC2 \<le> a \<and> a \<le> 0xDF then utf8_cont b \<and> utf8_valid r2
           else (case r2 of
             [] \<Rightarrow> False
           | c # r3 \<Rightarrow>
               (if a = 0xE0 then 0xA0 \<le> b \<and> b \<le> 0xBF \<and> utf8_cont c \<and> utf8_valid r3
                else if a = 0xED then 0x80 \<le> b \<and> b \<le> 0x9F \<and> utf8_cont c \<and> utf8_valid r3
                else if 0xE1 \<le> a \<and> a \<le> 0xEF then utf8_cont b \<and> utf8_cont c \<and> utf8_valid r3
                else (case r3 of
                  [] \<Rightarrow> False
                | d # r4 \<Rightarrow>
                    (if a = 0xF0 then 0x90 \<le> b \<and> b \<le> 0xBF
                     else if a = 0xF4 then 0x80 \<le> b \<and> b \<le> 0x8F
                     else 0xF1 \<le> a \<and> a \<le> 0xF3 \<and> utf8_cont b)
                    \<and> utf8_cont c \<and> utf8_cont d \<and> utf8_valid r4))))))"

definition string_value :: "bytes store_value" where
  "string_value =
     \<lparr>encode_value = (\<lambda>v. Inr v),
      decode_value = (\<lambda>bs. if utf8_valid bs then Inr bs else Inl (CodecError ''invalid UTF-8 value''))\<rparr>"

definition string_key :: "bytes store_key" where
  "string_key =
     \<lparr>encode_key = (\<lambda>v. Inr v),
      decode_key = (\<lambda>bs. if utf8_valid bs then Inr bs else Inl (CodecError ''invalid UTF-8 key''))\<rparr>"

definition u32_value :: "u32 store_value" where
  "u32_value =
     \<lparr>encode_value = (\<lambda>w. Inr (u32_to_be w)),
      decode_value = (\<lambda>bs. if length bs = 4 then Inr (u32_from_be bs)
                           else Inl (CodecError ''invalid u32 value length''))\<rparr>"

definition u32_key :: "u32 store_key" where
  "u32_key =
     \<lparr>encode_key = (\<lambda>w. Inr (u32_to_be w)),
      decode_key = (\<lambda>bs. if length bs = 4 then Inr (u32_from_be bs)
                         else Inl (CodecError ''invalid u32 key length''))\<rparr>"

definition u64_value :: "u64 store_value" where
  "u64_value =
     \<lparr>encode_value = (\<lambda>w. Inr (u64_to_be w)),
      decode_value = (\<lambda>bs. if length bs = 8 then Inr (u64_from_be bs)
                           else Inl (CodecError ''invalid u64 value length''))\<rparr>"

definition u64_key :: "u64 store_key" where
  "u64_key =
     \<lparr>encode_key = (\<lambda>w. Inr (u64_to_be w)),
      decode_key = (\<lambda>bs. if length bs = 8 then Inr (u64_from_be bs)
                         else Inl (CodecError ''invalid u64 key length''))\<rparr>"

definition i64_value :: "i64 store_value" where
  "i64_value =
     \<lparr>encode_value = (\<lambda>w. Inr (u64_to_be w)),
      decode_value = (\<lambda>bs. if length bs = 8 then Inr (u64_from_be bs)
                           else Inl (CodecError ''invalid i64 value length''))\<rparr>"

text \<open>The sign bit of the first byte is flipped, so that byte order is signed order.\<close>

fun flip_sign :: "bytes \<Rightarrow> bytes" where
  "flip_sign [] = []"
| "flip_sign (b # bs) = (b XOR 0x80) # bs"

definition i64_key :: "i64 store_key" where
  "i64_key =
     \<lparr>encode_key = (\<lambda>w. Inr (flip_sign (u64_to_be w))),
      decode_key = (\<lambda>bs. if length bs = 8 then Inr (u64_from_be (flip_sign bs))
                         else Inl (CodecError ''invalid i64 key length''))\<rparr>"

definition bool_value :: "bool store_value" where
  "bool_value =
     \<lparr>encode_value = (\<lambda>v. Inr [if v then 1 else 0]),
      decode_value = (\<lambda>bs. if bs = [0] then Inr False else if bs = [1] then Inr True
                           else Inl (CodecError ''invalid bool encoding''))\<rparr>"

definition unit_value :: "unit store_value" where
  "unit_value =
     \<lparr>encode_value = (\<lambda>v. Inr []),
      decode_value = (\<lambda>bs. if bs = [] then Inr () else Inl (CodecError ''invalid unit encoding''))\<rparr>"

text \<open>\<^verbatim>\<open>NonZeroU64\<close>: the encoder of \<^verbatim>\<open>u64\<close>, whose decoder also refuses zero.\<close>

definition nonzero_value :: "u64 store_value" where
  "nonzero_value =
     \<lparr>encode_value = (\<lambda>w. Inr (u64_to_be w)),
      decode_value = (\<lambda>bs. case decode_value u64_value bs of
                             Inl e \<Rightarrow> Inl e
                           | Inr w \<Rightarrow> if w = 0 then Inl (CodecError ''stored positive weight is zero'')
                                      else Inr w)\<rparr>"

section \<open>The contracts\<close>

locale store_value_contract =
  fixes valid :: "'a \<Rightarrow> bool" and C :: "'a store_value"
  assumes value_total: "valid v \<Longrightarrow> \<exists>bs. encode_value C v = Inr bs"
    and value_roundtrip: "valid v \<Longrightarrow> encode_value C v = Inr bs \<Longrightarrow> decode_value C bs = Inr v"
    and value_decode_valid: "decode_value C bs = Inr v \<Longrightarrow> valid v"
begin

lemma value_inject:
  assumes "valid v" "valid w" "encode_value C v = Inr bs" "encode_value C w = Inr bs"
  shows "v = w"
  using assms value_roundtrip by (metis sum.inject(2))

end

locale store_key_contract =
  fixes valid :: "'k \<Rightarrow> bool" and lt :: "'k \<Rightarrow> 'k \<Rightarrow> bool" and C :: "'k store_key"
  assumes key_total: "valid k \<Longrightarrow> \<exists>bs. encode_key C k = Inr bs"
    and key_roundtrip: "valid k \<Longrightarrow> encode_key C k = Inr bs \<Longrightarrow> decode_key C bs = Inr k"
    and key_canonical: "decode_key C bs = Inr k \<Longrightarrow> valid k \<and> encode_key C k = Inr bs"
    and key_order: "valid k \<Longrightarrow> valid l \<Longrightarrow> encode_key C k = Inr bs \<Longrightarrow> encode_key C l = Inr cs
      \<Longrightarrow> bs < cs \<longleftrightarrow> lt k l"
begin

lemma key_inject:
  assumes "valid k" "valid l" "encode_key C k = Inr bs" "encode_key C l = Inr bs"
  shows "k = l"
  using assms key_roundtrip by (metis sum.inject(2))

text \<open>The key order is a strict linear order on the valid keys: byte order transports it.\<close>

lemma key_lt_linear:
  assumes "valid k" "valid l"
  shows "lt k l \<or> k = l \<or> lt l k" and "lt k l \<Longrightarrow> \<not> lt l k"
proof -
  obtain bs cs where enc: "encode_key C k = Inr bs" "encode_key C l = Inr cs"
    using assms key_total by blast
  consider "bs < cs" | "bs = cs" | "cs < bs" by fastforce
  then show "lt k l \<or> k = l \<or> lt l k"
    using assms enc key_order key_inject by cases blast+
  show "lt k l \<Longrightarrow> \<not> lt l k"
    using assms enc key_order by (metis order_less_asym)
qed

end

interpretation vec_v: store_value_contract "\<lambda>_. True" vec_value
  by unfold_locales (auto simp: vec_value_def)

interpretation string_v: store_value_contract utf8_valid string_value
  by unfold_locales (auto simp: string_value_def split: if_splits)

interpretation u32_v: store_value_contract "\<lambda>_. True" u32_value
  by unfold_locales (auto simp: u32_value_def)

interpretation u64_v: store_value_contract "\<lambda>_. True" u64_value
  by unfold_locales (auto simp: u64_value_def)

interpretation i64_v: store_value_contract "\<lambda>_. True" i64_value
  by unfold_locales (auto simp: i64_value_def)

interpretation bool_v: store_value_contract "\<lambda>_. True" bool_value
  by unfold_locales (auto simp: bool_value_def)

interpretation unit_v: store_value_contract "\<lambda>_. True" unit_value
  by unfold_locales (auto simp: unit_value_def)

interpretation nonzero_v: store_value_contract "\<lambda>w. w \<noteq> 0" nonzero_value
  by unfold_locales (auto simp: nonzero_value_def u64_value_def split: if_splits)

interpretation vec_k: store_key_contract "\<lambda>_. True" "(<)" vec_key
  by unfold_locales (auto simp: vec_key_def)

interpretation string_k: store_key_contract utf8_valid "(<)" string_key
  by unfold_locales (auto simp: string_key_def split: if_splits)

interpretation u32_k: store_key_contract "\<lambda>_. True" "(<)" u32_key
  by unfold_locales
    (auto simp: u32_key_def u32_to_from_be u32_to_be_less_iff split: if_splits)

interpretation u64_k: store_key_contract "\<lambda>_. True" "(<)" u64_key
  by unfold_locales
    (auto simp: u64_key_def u64_to_from_be u64_to_be_less_iff split: if_splits)

subsection \<open>Signed keys\<close>

lemma length_flip_sign [simp]: "length (flip_sign bs) = length bs"
  by (cases bs) auto

lemma flip_sign_flip_sign [simp]: "flip_sign (flip_sign bs) = bs"
  by (cases bs) (auto simp: xor.assoc)

lemma unat_xor_128:
  "unat (b XOR 0x80 :: byte) = (if unat b < 128 then unat b + 128 else unat b - 128)"
proof -
  have "\<forall>n < 256. unat ((word_of_nat n :: byte) XOR 0x80) = (if n < 128 then n + 128 else n - 128)"
    by code_simp
  from this [rule_format, of "unat b"] show ?thesis
    by simp
qed

text \<open>The flipped encoding reads as the signed value shifted into the naturals.\<close>

lemma nat_of_be_flip_sign:
  "int (nat_of_be (flip_sign (u64_to_be w))) = sint w + 2 ^ 63"
proof -
  have "length (u64_to_be w) = Suc 7"
    by simp
  then obtain b bs where w: "u64_to_be w = b # bs" and len: "length bs = 7"
    unfolding length_Suc_conv by blast
  have "nat_of_be (u64_to_be w) = unat w"
    using unat_u64_less [of w] by (simp add: u64_to_be_def nat_of_be_be_of_nat del: unat_u64_less)
  then have val: "unat w = unat b * 256 ^ 7 + nat_of_be bs"
    by (simp add: w len nat_of_be_Cons)
  have low: "nat_of_be bs < 256 ^ 7"
    using nat_of_be_less [of bs] len by simp
  have half: "unat w < 2 ^ 63 \<longleftrightarrow> unat b < 128"
    using val low by auto
  show ?thesis
    using val len half
    by (simp add: w nat_of_be_Cons unat_xor_128 sint_u64_unat of_nat_diff split: if_splits)
qed

lemma flip_sign_less_iff:
  "flip_sign (u64_to_be v) < flip_sign (u64_to_be w) \<longleftrightarrow> sint v < sint w"
proof -
  have "flip_sign (u64_to_be v) < flip_sign (u64_to_be w) \<longleftrightarrow>
      int (nat_of_be (flip_sign (u64_to_be v))) < int (nat_of_be (flip_sign (u64_to_be w)))"
    using nat_of_be_less_iff [of "flip_sign (u64_to_be v)" "flip_sign (u64_to_be w)"] by simp
  then show ?thesis
    by (simp add: nat_of_be_flip_sign)
qed

interpretation i64_k: store_key_contract "\<lambda>_. True" "\<lambda>v w. sint v < sint w" i64_key
  by unfold_locales
    (auto simp: i64_key_def u64_to_from_be flip_sign_less_iff split: if_splits)

end
