(* ===== verification/Store_Transaction.thy ===== *)
theory Store_Transaction
  imports Store_Codec
begin

text \<open>
  Store errors, transactions and durability batches: \<^verbatim>\<open>crates/store/src/error.rs\<close>,
  \<^verbatim>\<open>store/mod.rs\<close> and \<^verbatim>\<open>store/transaction.rs\<close>.

  RocksDB is not part of the sources. It is a parameter: \<open>'s engine\<close> holds the operations on the
  view of one transaction or snapshot (of type \<open>'s\<close>), \<open>('d, 's) database\<close> the operations on the
  database itself (of type \<open>'d\<close>). What the code relies on is stated as hypotheses:
  \<open>engine_laws E V\<close> says that \<open>V\<close> gives the contents of a view and that the operations read and
  change those contents as documented whenever they do not report an error; \<open>engine_reliable E\<close>
  says that they report none; \<open>database_laws\<close> relates views, committed and durable contents.

  A transaction carries the poison flag of the source. \<open>poison_ok\<close> is the contract of every
  operation performed inside a transaction: the flag is set afterwards exactly if it was set before
  or the operation reports a hard error. \<open>fault\<close> describes the only way a well-formed structure can fail: a storage error of the
  engine, reported and poisoning.
\<close>

section \<open>Errors\<close>

text \<open>
  The constructors of \<^verbatim>\<open>StoreError\<close>, and \<open>Panicked\<close> for the \<^verbatim>\<open>expect\<close> and \<^verbatim>\<open>unreachable!\<close>
  calls of the code: it is no value of the Rust type, and the theorems show that it is not reached.
\<close>

datatype store_error =
    InvalidName bytes string
  | DataAlreadyExists bytes
  | PathExists bytes
  | StoreNotFound bytes
  | DataNotFound bytes
  | DataKindMismatch bytes string string
  | InvalidStore
  | DataIdExhausted bytes
  | WrongStore
  | InvalidScanLimit
  | ItemTooLarge nat nat
  | MultiplicityUnderflow
  | MultiplicityOverflow
  | QueueSequenceExhausted
  | QueueByteCountExhausted
  | CorruptQueue string
  | Codec codec_error
  | Storage string string
  | TransactionPoisoned
  | Panicked string

definition poisons_transaction :: "store_error \<Rightarrow> bool" where
  "poisons_transaction e = (case e of ItemTooLarge _ _ \<Rightarrow> False | _ \<Rightarrow> True)"

fun is_storage :: "store_error \<Rightarrow> bool" where
  "is_storage (Storage _ _) = True"
| "is_storage _ = False"

section \<open>The storage engine as a parameter\<close>

datatype scan_direction = Ascending | Descending

text \<open>
  \<open>raw_iterator s lower upper dir seek\<close> lists the entries that a raw iterator over the view \<open>s\<close>,
  with the given iterate bounds, visits after \<^verbatim>\<open>seek\<close> and \<^verbatim>\<open>next\<close> (ascending) or \<^verbatim>\<open>seek_for_prev\<close>
  and \<^verbatim>\<open>prev\<close> (descending), and its status once it is no longer valid.
\<close>

record 's engine =
  get_pinned :: "'s \<Rightarrow> bytes \<Rightarrow> string + bytes option"
  put_raw :: "'s \<Rightarrow> bytes \<Rightarrow> bytes \<Rightarrow> string + 's"
  delete_raw :: "'s \<Rightarrow> bytes \<Rightarrow> string + 's"
  raw_iterator :: "'s \<Rightarrow> bytes option \<Rightarrow> bytes option \<Rightarrow> scan_direction \<Rightarrow> bytes
    \<Rightarrow> (bytes \<times> bytes) list \<times> string option"

record ('d, 's) database =
  db_transaction :: "'d \<Rightarrow> bool \<Rightarrow> 's"
  db_snapshot :: "'d \<Rightarrow> 's"
  db_commit :: "'d \<Rightarrow> 's \<Rightarrow> string option \<times> 'd"
  db_flush_wal :: "'d \<Rightarrow> string option \<times> 'd"

text \<open>The keys a bounded iterator may visit, in visiting order.\<close>

definition within_iterate :: "bytes option \<Rightarrow> bytes option \<Rightarrow> scan_direction \<Rightarrow> bytes \<Rightarrow> bytes \<Rightarrow> bool" where
  "within_iterate lower upper dir seek k \<longleftrightarrow>
     (case lower of None \<Rightarrow> True | Some l \<Rightarrow> l \<le> k) \<and>
     (case upper of None \<Rightarrow> True | Some u \<Rightarrow> k < u) \<and>
     (case dir of Ascending \<Rightarrow> seek \<le> k | Descending \<Rightarrow> k \<le> seek)"

definition ordered_keys :: "scan_direction \<Rightarrow> bytes set \<Rightarrow> bytes list" where
  "ordered_keys dir K = (case dir of Ascending \<Rightarrow> sorted_list_of_set K
                                   | Descending \<Rightarrow> rev (sorted_list_of_set K))"

definition entries_of :: "(bytes \<rightharpoonup> bytes) \<Rightarrow> bytes list \<Rightarrow> (bytes \<times> bytes) list" where
  "entries_of m ks = map (\<lambda>k. (k, the (m k))) ks"

definition visited :: "(bytes \<rightharpoonup> bytes) \<Rightarrow> bytes option \<Rightarrow> bytes option \<Rightarrow> scan_direction \<Rightarrow> bytes
    \<Rightarrow> (bytes \<times> bytes) list" where
  "visited m lower upper dir seek =
     entries_of m (ordered_keys dir {k \<in> dom m. within_iterate lower upper dir seek k})"

definition engine_laws :: "'s engine \<Rightarrow> ('s \<Rightarrow> (bytes \<rightharpoonup> bytes)) \<Rightarrow> bool" where
  "engine_laws E V \<longleftrightarrow>
     (\<forall>s. finite (dom (V s))) \<and>
     (\<forall>s k v. get_pinned E s k = Inr v \<longrightarrow> v = V s k) \<and>
     (\<forall>s k v s'. put_raw E s k v = Inr s' \<longrightarrow> V s' = (V s)(k \<mapsto> v)) \<and>
     (\<forall>s k s'. delete_raw E s k = Inr s' \<longrightarrow> V s' = (V s)(k := None)) \<and>
     (\<forall>s l u d k xs st. raw_iterator E s l u d k = (xs, st) \<longrightarrow>
        (\<exists>ys. visited (V s) l u d k = xs @ ys \<and> (st = None \<longrightarrow> ys = [])))"

definition engine_reliable :: "'s engine \<Rightarrow> bool" where
  "engine_reliable E \<longleftrightarrow>
     (\<forall>s k m. get_pinned E s k \<noteq> Inl m) \<and> (\<forall>s k v m. put_raw E s k v \<noteq> Inl m) \<and>
     (\<forall>s k m. delete_raw E s k \<noteq> Inl m) \<and> (\<forall>s l u d k. snd (raw_iterator E s l u d k) = None)"

text \<open>
  \<open>committed d\<close> is what a new snapshot sees, \<open>durable d\<close> what reopening after a crash finds. A
  commit that reports an error may or may not have taken effect; a successful one with
  \<open>synced\<close> options is durable, and so is everything committed before a successful WAL flush.
\<close>

definition database_laws ::
  "('d, 's) database \<Rightarrow> ('s \<Rightarrow> (bytes \<rightharpoonup> bytes)) \<Rightarrow> ('s \<Rightarrow> bool) \<Rightarrow>
   ('d \<Rightarrow> (bytes \<rightharpoonup> bytes)) \<Rightarrow> ('d \<Rightarrow> (bytes \<rightharpoonup> bytes)) \<Rightarrow> bool" where
  "database_laws D V synced committed durable \<longleftrightarrow>
     (\<forall>d b. V (db_transaction D d b) = committed d \<and> (synced (db_transaction D d b) \<longleftrightarrow> b)) \<and>
     (\<forall>d. V (db_snapshot D d) = committed d) \<and>
     (\<forall>d s e d'. db_commit D d s = (e, d') \<longrightarrow>
        (e = None \<longrightarrow> committed d' = V s \<and> (synced s \<longrightarrow> durable d' = committed d')) \<and>
        (e \<noteq> None \<longrightarrow> committed d' = V s \<or> committed d' = committed d)) \<and>
     (\<forall>d e d'. db_flush_wal D d = (e, d') \<longrightarrow>
        committed d' = committed d \<and> (e = None \<longrightarrow> durable d' = committed d'))"

section \<open>Transactions\<close>

record 's transaction =
  inner :: 's
  store_token :: u64
  poisoned :: bool
  has_writes :: bool

record 's read_transaction =
  rt_snapshot :: 's
  rt_store_token :: u64
  rt_poisoned :: bool

record data_handle =
  handle_token :: u64
  data_id :: u32

text \<open>\<^verbatim>\<open>TransactionRef\<close>: the transaction that backs a read.\<close>

datatype 's transaction_ref = Read "'s read_transaction" | Write "'s transaction"

type_synonym ('s, 'a) write_op = "('s transaction, store_error, 'a) sem"
type_synonym ('s, 'a) read_op = "('s transaction_ref, store_error, 'a) sem"

fun ref_view :: "'s transaction_ref \<Rightarrow> 's" where
  "ref_view (Read t) = rt_snapshot t"
| "ref_view (Write t) = inner t"

fun ref_poisoned :: "'s transaction_ref \<Rightarrow> bool" where
  "ref_poisoned (Read t) = rt_poisoned t"
| "ref_poisoned (Write t) = poisoned t"

fun ref_token :: "'s transaction_ref \<Rightarrow> u64" where
  "ref_token (Read t) = rt_store_token t"
| "ref_token (Write t) = store_token t"

fun ref_poison :: "'s transaction_ref \<Rightarrow> 's transaction_ref" where
  "ref_poison (Read t) = Read (t\<lparr>rt_poisoned := True\<rparr>)"
| "ref_poison (Write t) = Write (t\<lparr>poisoned := True\<rparr>)"

definition ref_ensure_healthy :: "('s, unit) read_op" where
  "ref_ensure_healthy r = (if ref_poisoned r then (Inl TransactionPoisoned, r) else (Inr (), r))"

definition ref_ensure_access :: "data_handle \<Rightarrow> ('s, unit) read_op" where
  "ref_ensure_access h =
     sem_bind ref_ensure_healthy (\<lambda>_ r.
       if handle_token h \<noteq> ref_token r then (Inl WrongStore, ref_poison r) else (Inr (), r))"

definition ref_record_result :: "store_error + 'a \<Rightarrow> ('s, 'a) read_op" where
  "ref_record_result res r =
     (case res of Inl e \<Rightarrow> (Inl e, if poisons_transaction e then ref_poison r else r)
                | Inr a \<Rightarrow> (Inr a, r))"

text \<open>
  \<^verbatim>\<open>poison_on_error\<close> is polymorphic in the error; every use of it in the collections is followed
  by the conversion of a codec error into a store error, or has a store error already.
\<close>

definition ref_poison_on_error :: "('e \<Rightarrow> store_error) \<Rightarrow> 'e + 'a \<Rightarrow> ('s, 'a) read_op" where
  "ref_poison_on_error conv res r =
     (case res of Inl e \<Rightarrow> (Inl (conv e), ref_poison r) | Inr a \<Rightarrow> (Inr a, r))"

text \<open>\<^verbatim>\<open>DataAccess::as_read\<close>: a read performed inside a write transaction.\<close>

definition as_read :: "('s, 'a) read_op \<Rightarrow> ('s, 'a) write_op" where
  "as_read m t = (case m (Write t) of (res, Write t') \<Rightarrow> (res, t') | (res, Read _) \<Rightarrow> (res, t))"

definition ensure_healthy :: "('s, unit) write_op" where
  "ensure_healthy t = (if poisoned t then (Inl TransactionPoisoned, t) else (Inr (), t))"

definition record_result :: "store_error + 'a \<Rightarrow> ('s, 'a) write_op" where
  "record_result res t =
     (case res of Inl e \<Rightarrow> (Inl e, if poisons_transaction e then t\<lparr>poisoned := True\<rparr> else t)
                | Inr a \<Rightarrow> (Inr a, t))"

definition record_write_result :: "store_error + 's \<Rightarrow> ('s, unit) write_op" where
  "record_write_result res t =
     (case record_result res t of
        (Inl e, t') \<Rightarrow> (Inl e, t')
      | (Inr s, t') \<Rightarrow> (Inr (), t'\<lparr>inner := s, has_writes := True\<rparr>))"

section \<open>Beginning and committing\<close>

definition begin_write_transaction :: "('d, 's) database \<Rightarrow> 'd \<Rightarrow> bool \<Rightarrow> 's" where
  "begin_write_transaction D d sync = db_transaction D d sync"

text \<open>\<^verbatim>\<open>Transactions\<close> and \<^verbatim>\<open>ReadTransactions\<close> hold the database and the Store token.\<close>

definition transactions_begin :: "('d, 's) database \<Rightarrow> u64 \<Rightarrow> 'd \<Rightarrow> 's transaction" where
  "transactions_begin D token d =
     \<lparr>inner = begin_write_transaction D d True, store_token = token, poisoned = False, has_writes = False\<rparr>"

definition begin_read_transaction :: "('d, 's) database \<Rightarrow> u64 \<Rightarrow> 'd \<Rightarrow> 's read_transaction" where
  "begin_read_transaction D token d =
     \<lparr>rt_snapshot = db_snapshot D d, rt_store_token = token, rt_poisoned = False\<rparr>"

definition commit_transaction :: "('d, 's) database \<Rightarrow> 's \<Rightarrow> ('d, store_error, unit) sem" where
  "commit_transaction D s d =
     (case db_commit D d s of
        (None, d') \<Rightarrow> (Inr (), d')
      | (Some m, d') \<Rightarrow> (Inl (Storage ''commit transaction'' m), d'))"

definition transaction_commit :: "('d, 's) database \<Rightarrow> 's transaction \<Rightarrow> ('d, store_error, unit) sem" where
  "transaction_commit D t =
     (if poisoned t then sem_throw TransactionPoisoned
      else if \<not> has_writes t then sem_return ()
      else commit_transaction D (inner t))"

section \<open>Durability batches\<close>

record 'd durability_batch =
  batch_database :: 'd
  pending :: bool

definition durability_batch :: "'d \<Rightarrow> 'd durability_batch" where
  "durability_batch d = \<lparr>batch_database = d, pending = False\<rparr>"

definition batch_begin :: "('d, 's) database \<Rightarrow> u64 \<Rightarrow> 'd durability_batch \<Rightarrow> 's transaction" where
  "batch_begin D token b =
     \<lparr>inner = begin_write_transaction D (batch_database b) False, store_token = token,
      poisoned = False, has_writes = False\<rparr>"

text \<open>The barrier is armed before the commit, whose error can have an uncertain outcome.\<close>

definition batched_commit ::
  "('d, 's) database \<Rightarrow> 's transaction \<Rightarrow> ('d durability_batch, store_error, unit) sem" where
  "batched_commit D t b =
     (let b1 = b\<lparr>pending := pending b \<or> has_writes t\<rparr> in
      case transaction_commit D t (batch_database b1) of (res, d') \<Rightarrow> (res, b1\<lparr>batch_database := d'\<rparr>))"

definition batch_sync :: "('d, 's) database \<Rightarrow> ('d durability_batch, store_error, unit) sem" where
  "batch_sync D b =
     (if \<not> pending b then (Inr (), b)
      else (case db_flush_wal D (batch_database b) of
        (Some m, d') \<Rightarrow> (Inl (Storage ''synchronize durability batch'' m), b\<lparr>batch_database := d'\<rparr>)
      | (None, d') \<Rightarrow> (Inr (), b\<lparr>batch_database := d', pending := False\<rparr>)))"

definition batch_finish :: "('d, 's) database \<Rightarrow> ('d durability_batch, store_error, unit) sem" where
  "batch_finish D = batch_sync D"

section \<open>Poisoning\<close>

text \<open>
  The poisoning contract of an operation, for the flag \<open>pois\<close> of its transaction: afterwards the
  flag is set exactly when it was set before or the operation ended in a hard error.
\<close>

fun hard_error :: "store_error + 'a \<Rightarrow> bool" where
  "hard_error (Inl e) = poisons_transaction e"
| "hard_error (Inr _) = False"

definition poison_ok :: "('t \<Rightarrow> bool) \<Rightarrow> ('t, store_error, 'a) sem \<Rightarrow> bool" where
  "poison_ok pois m \<longleftrightarrow> (\<forall>t. pois (snd (m t)) \<longleftrightarrow> pois t \<or> hard_error (fst (m t)))"

named_theorems poison_intros \<open>operations that respect the poisoning contract\<close>

lemma poison_okD:
  "poison_ok pois m \<Longrightarrow> m t = (r, t') \<Longrightarrow> pois t' \<longleftrightarrow> pois t \<or> hard_error r"
  unfolding poison_ok_def by (metis fst_conv snd_conv)

lemma poison_ok_return [poison_intros]: "poison_ok pois (sem_return a)"
  by (simp add: poison_ok_def sem_return_def)

lemma poison_ok_bind [poison_intros]:
  assumes "poison_ok pois m" and "\<And>a. poison_ok pois (f a)"
  shows "poison_ok pois (sem_bind m f)"
  using assms by (auto simp: poison_ok_def sem_bind_def split: prod.splits sum.splits) (metis fst_conv snd_conv hard_error.simps)+

text \<open>A handler may return the error it was given, or handle a retryable one.\<close>

lemma poison_ok_try [poison_intros]:
  assumes m: "poison_ok pois m" and ok: "\<And>a. poison_ok pois (h (Inr a))"
    and err: "\<And>e. h (Inl e) = sem_throw e \<or> (\<not> poisons_transaction e \<and> poison_ok pois (h (Inl e)))"
  shows "poison_ok pois (sem_try m h)"
  unfolding poison_ok_def
proof
  fix t
  obtain r u where mt: "m t = (r, u)" by fastforce
  have step: "pois u \<longleftrightarrow> pois t \<or> hard_error r"
    using m mt by (rule poison_okD)
  have run: "sem_try m h t = h r u"
    by (simp add: sem_try_def mt)
  show "pois (snd (sem_try m h t)) \<longleftrightarrow> pois t \<or> hard_error (fst (sem_try m h t))"
  proof (cases r)
    case (Inl e)
    with err [of e] step show ?thesis
      by (auto simp: run sem_throw_def poison_ok_def)
  next
    case (Inr a)
    with ok [of a] step show ?thesis
      by (simp add: run poison_ok_def)
  qed
qed

lemma poison_ok_if [poison_intros]:
  "poison_ok pois m \<Longrightarrow> poison_ok pois n \<Longrightarrow> poison_ok pois (if c then m else n)"
  by simp

lemma poison_ok_option [poison_intros]:
  "poison_ok pois m \<Longrightarrow> (\<And>a. poison_ok pois (f a)) \<Longrightarrow>
   poison_ok pois (case x of None \<Rightarrow> m | Some a \<Rightarrow> f a)"
  by (cases x) auto

lemma ref_poisoned_poison [simp]: "ref_poisoned (ref_poison r)"
  by (cases r) auto

lemma ref_view_poison [simp]: "ref_view (ref_poison r) = ref_view r"
  by (cases r) auto

lemma ref_token_poison [simp]: "ref_token (ref_poison r) = ref_token r"
  by (cases r) auto

lemma poison_ok_ref_ensure_healthy [poison_intros]: "poison_ok ref_poisoned ref_ensure_healthy"
  by (auto simp: poison_ok_def ref_ensure_healthy_def poisons_transaction_def)

lemma poison_ok_ref_ensure_access [poison_intros]: "poison_ok ref_poisoned (ref_ensure_access h)"
  unfolding ref_ensure_access_def
  by (intro poison_ok_bind poison_intros)
     (auto simp: poison_ok_def poisons_transaction_def)

lemma poison_ok_ref_record_result [poison_intros]:
  "poison_ok ref_poisoned (\<lambda>r. ref_record_result (res r) r)"
  by (auto simp: poison_ok_def ref_record_result_def split: sum.split)

lemma poison_ok_ref_poison_on_error:
  assumes "\<And>e. res = Inl e \<Longrightarrow> poisons_transaction (conv e)"
  shows "poison_ok ref_poisoned (ref_poison_on_error conv res)"
  using assms by (auto simp: poison_ok_def ref_poison_on_error_def split: sum.split)

lemma poisons_transaction_simps [simp]:
  "poisons_transaction (Codec c)" "poisons_transaction (CorruptQueue m)"
  "poisons_transaction (Storage op m)" "poisons_transaction TransactionPoisoned"
  "poisons_transaction QueueSequenceExhausted" "poisons_transaction QueueByteCountExhausted"
  "poisons_transaction MultiplicityUnderflow" "poisons_transaction MultiplicityOverflow"
  "poisons_transaction WrongStore" "\<not> poisons_transaction (ItemTooLarge n k)"
  by (simp_all add: poisons_transaction_def)

lemma poison_ok_codec [poison_intros]: "poison_ok ref_poisoned (ref_poison_on_error Codec res)"
  by (rule poison_ok_ref_poison_on_error) simp

text \<open>Reads keep the constructor of the reference, so \<^const>\<open>as_read\<close> loses nothing.\<close>

definition keeps_ref :: "('s, 'a) read_op \<Rightarrow> bool" where
  "keeps_ref m \<longleftrightarrow> (\<forall>r. snd (m r) = r \<or> snd (m r) = ref_poison r)"

lemma keeps_ref_return [poison_intros]: "keeps_ref (sem_return a)"
  by (simp add: keeps_ref_def sem_return_def)

lemma ref_poison_poison [simp]: "ref_poison (ref_poison r) = ref_poison r"
  by (cases r) auto

lemma keeps_ref_bind [poison_intros]:
  "keeps_ref m \<Longrightarrow> (\<And>a. keeps_ref (f a)) \<Longrightarrow> keeps_ref (sem_bind m f)"
  by (auto simp: keeps_ref_def sem_bind_def split: prod.splits sum.splits)
     (metis ref_poison_poison snd_conv)+

lemma keeps_ref_try [poison_intros]:
  "keeps_ref m \<Longrightarrow> (\<And>x. keeps_ref (h x)) \<Longrightarrow> keeps_ref (sem_try m h)"
  by (auto simp: keeps_ref_def sem_try_def split: prod.splits sum.splits)
     (metis ref_poison_poison snd_conv)+

lemma keeps_ref_if [poison_intros]:
  "keeps_ref m \<Longrightarrow> keeps_ref n \<Longrightarrow> keeps_ref (if c then m else n)"
  by simp

lemma keeps_ref_option [poison_intros]:
  "keeps_ref m \<Longrightarrow> (\<And>a. keeps_ref (f a)) \<Longrightarrow> keeps_ref (case x of None \<Rightarrow> m | Some a \<Rightarrow> f a)"
  by (cases x) auto

lemma keeps_ref_throw [poison_intros]: "keeps_ref (sem_throw e)"
  by (simp add: keeps_ref_def sem_throw_def)

lemma keeps_ref_ensure_healthy [poison_intros]: "keeps_ref ref_ensure_healthy"
  by (simp add: keeps_ref_def ref_ensure_healthy_def)

lemma keeps_ref_ensure_access [poison_intros]: "keeps_ref (ref_ensure_access h)"
  unfolding ref_ensure_access_def
  by (intro keeps_ref_bind poison_intros) (simp add: keeps_ref_def)

lemma keeps_ref_record_result [poison_intros]: "keeps_ref (\<lambda>r. ref_record_result (res r) r)"
  by (auto simp: keeps_ref_def ref_record_result_def split: sum.split)

lemma keeps_ref_poison_on_error [poison_intros]: "keeps_ref (ref_poison_on_error conv res)"
  by (auto simp: keeps_ref_def ref_poison_on_error_def split: sum.split)

lemma poison_ok_as_read [poison_intros]:
  assumes "poison_ok ref_poisoned m" and "keeps_ref m"
  shows "poison_ok poisoned (as_read m)"
  unfolding poison_ok_def
proof
  fix t
  obtain res r where m: "m (Write t) = (res, r)" by fastforce
  then have "r = Write t \<or> r = ref_poison (Write t)"
    using assms(2) unfolding keeps_ref_def by (metis snd_conv)
  with m poison_okD [OF assms(1) m] show
    "poisoned (snd (as_read m t)) \<longleftrightarrow> poisoned t \<or> hard_error (fst (as_read m t))"
    by (auto simp: as_read_def)
qed

lemma poison_ok_ensure_healthy [poison_intros]: "poison_ok poisoned ensure_healthy"
  by (auto simp: poison_ok_def ensure_healthy_def)

lemma poison_ok_record_result [poison_intros]: "poison_ok poisoned (\<lambda>t. record_result (res t) t)"
  by (auto simp: poison_ok_def record_result_def split: sum.split)

lemma poison_ok_record_write_result [poison_intros]:
  "poison_ok poisoned (\<lambda>t. record_write_result (res t) t)"
  by (auto simp: poison_ok_def record_write_result_def record_result_def split: sum.split)

section \<open>Tracked writes\<close>

text \<open>
  A transaction whose \<^const>\<open>has_writes\<close> flag is off still has the view it began with, so that
  committing it without touching the database loses nothing.
\<close>

definition tracks_writes :: "('s, 'a) write_op \<Rightarrow> bool" where
  "tracks_writes m \<longleftrightarrow>
     (\<forall>t. let t' = snd (m t) in
        (has_writes t \<longrightarrow> has_writes t') \<and> (\<not> has_writes t' \<longrightarrow> inner t' = inner t) \<and>
        store_token t' = store_token t)"

lemma tracks_writes_return [poison_intros]: "tracks_writes (sem_return a)"
  by (simp add: tracks_writes_def sem_return_def)

lemma tracks_writes_throw [poison_intros]: "tracks_writes (sem_throw e)"
  by (simp add: tracks_writes_def sem_throw_def)

lemma tracks_writes_bind [poison_intros]:
  assumes "tracks_writes m" and "\<And>a. tracks_writes (f a)"
  shows "tracks_writes (sem_bind m f)"
  using assms by (auto simp: tracks_writes_def sem_bind_def Let_def split: prod.splits sum.splits)
    (metis snd_conv)+

lemma tracks_writes_try [poison_intros]:
  assumes "tracks_writes m" and "\<And>x. tracks_writes (h x)"
  shows "tracks_writes (sem_try m h)"
  using assms by (auto simp: tracks_writes_def sem_try_def Let_def split: prod.splits sum.splits)
    (metis snd_conv)+

lemma tracks_writes_if [poison_intros]:
  "tracks_writes m \<Longrightarrow> tracks_writes n \<Longrightarrow> tracks_writes (if c then m else n)"
  by simp

lemma tracks_writes_option [poison_intros]:
  "tracks_writes m \<Longrightarrow> (\<And>a. tracks_writes (f a)) \<Longrightarrow>
   tracks_writes (case x of None \<Rightarrow> m | Some a \<Rightarrow> f a)"
  by (cases x) auto

lemma as_read_cases:
  assumes "keeps_ref m"
  shows "snd (as_read m t) = t \<or> snd (as_read m t) = t\<lparr>poisoned := True\<rparr>"
proof -
  obtain res r where m: "m (Write t) = (res, r)" by fastforce
  then have "r = Write t \<or> r = ref_poison (Write t)"
    using assms unfolding keeps_ref_def by (metis snd_conv)
  with m show ?thesis by (auto simp: as_read_def)
qed

lemma tracks_writes_as_read [poison_intros]:
  assumes "keeps_ref m"
  shows "tracks_writes (as_read m)"
  unfolding tracks_writes_def Let_def
proof
  fix t
  show "(has_writes t \<longrightarrow> has_writes (snd (as_read m t))) \<and>
      (\<not> has_writes (snd (as_read m t)) \<longrightarrow> inner (snd (as_read m t)) = inner t) \<and>
      store_token (snd (as_read m t)) = store_token t"
    using as_read_cases [OF assms, of t] by auto
qed

lemma tracks_writes_ensure_healthy [poison_intros]: "tracks_writes ensure_healthy"
  by (simp add: tracks_writes_def ensure_healthy_def)

lemma tracks_writes_record_write_result [poison_intros]:
  "tracks_writes (\<lambda>t. record_write_result (res t) t)"
  by (auto simp: tracks_writes_def record_write_result_def record_result_def split: sum.split)

lemma tracks_writes_record_result [poison_intros]: "tracks_writes (\<lambda>t. record_result (res t) t)"
  by (auto simp: tracks_writes_def record_result_def split: sum.split)

section \<open>Weakest preconditions\<close>

definition write_of :: "'s transaction \<Rightarrow> 's transaction_ref \<Rightarrow> 's transaction" where
  "write_of t r = (case r of Write t' \<Rightarrow> t' | Read _ \<Rightarrow> t)"

lemma write_of_Write [simp]: "write_of t (Write t') = t'"
  by (simp add: write_of_def)

lemma write_of_poison [simp]: "write_of t (ref_poison (Write t')) = t'\<lparr>poisoned := True\<rparr>"
  by simp

lemma wp_as_read [simp]:
  "wp (as_read m) Q R t = wp m (\<lambda>a r. Q a (write_of t r)) (\<lambda>e r. R e (write_of t r)) (Write t)"
  by (simp add: wp_def as_read_def write_of_def split: prod.split sum.split transaction_ref.split)

lemma wp_ref_ensure_healthy [simp]:
  "wp ref_ensure_healthy Q R r = (if ref_poisoned r then R TransactionPoisoned r else Q () r)"
  by (simp add: wp_def ref_ensure_healthy_def)

lemma wp_ensure_healthy [simp]:
  "wp ensure_healthy Q R t = (if poisoned t then R TransactionPoisoned t else Q () t)"
  by (simp add: wp_def ensure_healthy_def)

lemma wp_ref_record_result [simp]:
  "wp (\<lambda>r. ref_record_result (f r) r) Q R r =
     (case f r of Inl e \<Rightarrow> R e (if poisons_transaction e then ref_poison r else r) | Inr a \<Rightarrow> Q a r)"
  by (simp add: wp_def ref_record_result_def split: sum.split)

lemma wp_ref_poison_on_error [simp]:
  "wp (ref_poison_on_error conv res) Q R r =
     (case res of Inl e \<Rightarrow> R (conv e) (ref_poison r) | Inr a \<Rightarrow> Q a r)"
  by (simp add: wp_def ref_poison_on_error_def split: sum.split)

lemma wp_record_result [simp]:
  "wp (\<lambda>t. record_result (f t) t) Q R t =
     (case f t of Inl e \<Rightarrow> R e (if poisons_transaction e then t\<lparr>poisoned := True\<rparr> else t) | Inr a \<Rightarrow> Q a t)"
  by (simp add: wp_def record_result_def split: sum.split)

lemma wp_record_write_result [simp]:
  "wp (\<lambda>t. record_write_result (f t) t) Q R t =
     (case f t of Inl e \<Rightarrow> R e (if poisons_transaction e then t\<lparr>poisoned := True\<rparr> else t)
                | Inr s \<Rightarrow> Q () (t\<lparr>inner := s, has_writes := True\<rparr>))"
  by (simp add: wp_def record_write_result_def record_result_def split: sum.split)

text \<open>The error exit of an operation on a well-formed structure: an engine fault, and nothing else.\<close>

definition fault :: "'s engine \<Rightarrow> store_error \<Rightarrow> 's transaction \<Rightarrow> bool" where
  "fault E e t \<longleftrightarrow> \<not> engine_reliable E \<and> is_storage e \<and> poisoned t"

definition ref_fault :: "'s engine \<Rightarrow> store_error \<Rightarrow> 's transaction_ref \<Rightarrow> bool" where
  "ref_fault E e r \<longleftrightarrow> \<not> engine_reliable E \<and> is_storage e \<and> ref_poisoned r"

lemma reliable_wp:
  assumes "wp m Q (fault E) t" and "engine_reliable E"
  obtains a t' where "m t = (Inr a, t')" and "Q a t'"
  using assms by (auto elim!: wp_cases simp: fault_def)

section \<open>Commit and barriers\<close>

lemma database_commit_ok:
  assumes "database_laws D V synced committed durable" and "db_commit D d s = (None, d')"
  shows "committed d' = V s" and "synced s \<Longrightarrow> durable d' = committed d'"
  using assms unfolding database_laws_def by blast+

lemma database_begin:
  assumes "database_laws D V synced committed durable"
  shows "V (db_transaction D d b) = committed d" and "V (db_snapshot D d) = committed d"
    and "synced (db_transaction D d b) = b"
  using assms unfolding database_laws_def by blast+

lemma database_flush:
  assumes "database_laws D V synced committed durable" and "db_flush_wal D d = (e, d')"
  shows "committed d' = committed d" and "e = None \<Longrightarrow> durable d' = committed d'"
  using assms unfolding database_laws_def by blast+

text \<open>
  A batch keeps this invariant: while no barrier is pending, everything committed is durable.
\<close>

definition batch_inv :: "('d \<Rightarrow> (bytes \<rightharpoonup> bytes)) \<Rightarrow> ('d \<Rightarrow> (bytes \<rightharpoonup> bytes)) \<Rightarrow> 'd durability_batch \<Rightarrow> bool" where
  "batch_inv committed durable b \<longleftrightarrow>
     (\<not> pending b \<longrightarrow> durable (batch_database b) = committed (batch_database b))"

inductive batch_step :: "('d, 's) database \<Rightarrow> 'd durability_batch \<Rightarrow> 'd durability_batch \<Rightarrow> bool"
  for D where
  step_commit: "batched_commit D t b = (res, b') \<Longrightarrow> batch_step D b b'"
| step_sync: "batch_sync D b = (res, b') \<Longrightarrow> batch_step D b b'"

lemma batched_commit_inv:
  assumes inv: "batch_inv committed durable b" and run: "batched_commit D t b = (res, b')"
  shows "batch_inv committed durable b'"
proof (cases "has_writes t")
  case True
  with run have "pending b'"
    by (auto simp: batched_commit_def Let_def split: prod.splits)
  then show ?thesis by (simp add: batch_inv_def)
next
  case False
  then have "batch_database b' = batch_database b \<and> pending b' = pending b"
    using run by (auto simp: batched_commit_def transaction_commit_def sem_throw_def sem_return_def
        split: if_splits)
  with inv show ?thesis by (simp add: batch_inv_def)
qed

lemma batch_sync_inv:
  assumes "database_laws D V synced committed durable" and "batch_inv committed durable b"
    and "batch_sync D b = (res, b')"
  shows "batch_inv committed durable b'"
    and "res = Inr () \<Longrightarrow> durable (batch_database b') = committed (batch_database b')"
  using assms by (auto simp: batch_sync_def batch_inv_def split: if_splits prod.splits option.splits
      dest: database_flush)

lemma batch_steps_inv:
  assumes laws: "database_laws D V synced committed durable"
    and steps: "(batch_step D)\<^sup>*\<^sup>* b b'" and inv: "batch_inv committed durable b"
  shows "batch_inv committed durable b'"
  using steps inv
proof (induction rule: rtranclp_induct)
  case base
  then show ?case .
next
  case (step b1 b2)
  then have "batch_inv committed durable b1" by blast
  with step.hyps(2) show ?case
    by cases (auto intro: batched_commit_inv batch_sync_inv(1) [OF laws])
qed

end
