(* ===== verification/Store_Data.thy ===== *)
theory Store_Data
  imports Store_Transaction
begin

text \<open>
  Namespaced access to the key-value view of a transaction: \<^verbatim>\<open>crates/store/src/store/data.rs\<close>.

  A data object owns the physical keys that start with its five-byte prefix. The definitions follow
  the file: physical keys and the prefix successor, scan bounds, the point reads and writes, the
  emptiness inspection and the bounded scan. \<open>scan_loop\<close> is the \<^verbatim>\<open>while let\<close> loop of
  \<^verbatim>\<open>scan_data\<close> over the entries the raw iterator visits.
\<close>

section \<open>Definitions\<close>

subsection \<open>Physical keys\<close>

definition DATA_DOMAIN :: byte where
  "DATA_DOMAIN = 2"

definition data_prefix :: "u32 \<Rightarrow> bytes" where
  "data_prefix i = DATA_DOMAIN # u32_to_be i"

definition physical_key :: "bytes \<Rightarrow> bytes \<Rightarrow> bytes" where
  "physical_key prefix logical_key = prefix @ logical_key"

text \<open>
  The carry loop of \<^verbatim>\<open>prefix_successor\<close> runs over the reversed bytes; \<open>None\<close> is the
  \<^verbatim>\<open>unreachable!\<close> after the loop.
\<close>

fun successor_rev :: "bytes \<Rightarrow> bytes option" where
  "successor_rev [] = None"
| "successor_rev (b # bs) =
     (if b \<noteq> 0xFF then Some ((b + 1) # bs) else map_option ((#) 0) (successor_rev bs))"

definition prefix_successor :: "bytes \<Rightarrow> bytes option" where
  "prefix_successor prefix = map_option rev (successor_rev (rev prefix))"

fun strip_prefix :: "bytes \<Rightarrow> bytes \<Rightarrow> bytes option" where
  "strip_prefix [] k = Some k"
| "strip_prefix (p # ps) [] = None"
| "strip_prefix (p # ps) (k # ks) = (if p = k then strip_prefix ps ks else None)"

subsection \<open>Scan limits and bounds\<close>

record scan_limit =
  max_items :: nat
  max_bytes :: nat

definition scan_limit_new :: "nat \<Rightarrow> nat \<Rightarrow> store_error + scan_limit" where
  "scan_limit_new items bytes =
     (if items = 0 \<or> bytes = 0 then Inl InvalidScanLimit
      else Inr \<lparr>max_items = items, max_bytes = bytes\<rparr>)"

datatype ordering = Less | Equal | Greater

definition cmp_bytes :: "bytes \<Rightarrow> bytes \<Rightarrow> ordering" where
  "cmp_bytes a b = (if a < b then Less else if a = b then Equal else Greater)"

text \<open>An encoded bound is a key and whether it is inclusive.\<close>

type_synonym encoded_bound = "bytes \<times> bool"

datatype 'k bound = Included 'k | Excluded 'k | Unbounded

fun choose_bound :: "encoded_bound option \<Rightarrow> encoded_bound option \<Rightarrow> ordering \<Rightarrow> encoded_bound option" where
  "choose_bound (Some l) (Some r) preferred =
     (case cmp_bytes (fst l) (fst r) of
        Less \<Rightarrow> Some (if preferred = Less then l else r)
      | Equal \<Rightarrow> Some (fst l, snd l \<and> snd r)
      | Greater \<Rightarrow> Some (if preferred = Greater then l else r))"
| "choose_bound b None preferred = b"
| "choose_bound None b preferred = b"

definition later_bound :: "encoded_bound option \<Rightarrow> encoded_bound option \<Rightarrow> encoded_bound option" where
  "later_bound l r = choose_bound l r Greater"

definition earlier_bound :: "encoded_bound option \<Rightarrow> encoded_bound option \<Rightarrow> encoded_bound option" where
  "earlier_bound l r = choose_bound l r Less"

definition within_lower :: "bytes \<Rightarrow> encoded_bound option \<Rightarrow> bool" where
  "within_lower key lower =
     (case lower of None \<Rightarrow> True
      | Some (l, inclusive) \<Rightarrow>
          (case cmp_bytes key l of Greater \<Rightarrow> True | Equal \<Rightarrow> inclusive | Less \<Rightarrow> False))"

definition within_upper :: "bytes \<Rightarrow> encoded_bound option \<Rightarrow> bool" where
  "within_upper key upper =
     (case upper of None \<Rightarrow> True
      | Some (u, inclusive) \<Rightarrow>
          (case cmp_bytes key u of Less \<Rightarrow> True | Equal \<Rightarrow> inclusive | Greater \<Rightarrow> False))"

fun encoded_bound_of :: "bytes bound \<Rightarrow> encoded_bound option" where
  "encoded_bound_of (Included k) = Some (k, True)"
| "encoded_bound_of (Excluded k) = Some (k, False)"
| "encoded_bound_of Unbounded = None"

subsection \<open>Binding a handle\<close>

text \<open>\<^verbatim>\<open>DataHandle::read\<close> and \<^verbatim>\<open>DataHandle::access\<close>: the bound namespace is its prefix.\<close>

definition bind_read :: "data_handle \<Rightarrow> ('s, bytes) read_op" where
  "bind_read h = sem_bind (ref_ensure_access h) (\<lambda>_. sem_return (data_prefix (data_id h)))"

definition bind_access :: "data_handle \<Rightarrow> ('s, bytes) write_op" where
  "bind_access h = as_read (bind_read h)"

subsection \<open>Point reads and writes\<close>

text \<open>The engine's own error becomes a storage error of the named operation.\<close>

definition storage_result :: "string \<Rightarrow> string + 'a \<Rightarrow> store_error + 'a" where
  "storage_result operation res = (case res of Inl m \<Rightarrow> Inl (Storage operation m) | Inr a \<Rightarrow> Inr a)"

definition ref_value_len :: "'s engine \<Rightarrow> bytes \<Rightarrow> ('s, nat option) read_op" where
  "ref_value_len E key =
     sem_bind ref_ensure_healthy (\<lambda>_ r.
       ref_record_result
         (map_sum id (map_option length)
           (storage_result ''read data length'' (get_pinned E (ref_view r) key))) r)"

definition decode_bounded_value :: "'v store_value \<Rightarrow> bytes option \<Rightarrow> nat \<Rightarrow> store_error + 'v option" where
  "decode_bounded_value C value byte_limit =
     (case value of None \<Rightarrow> Inr None
      | Some v \<Rightarrow>
          if length v > byte_limit then Inl (ItemTooLarge (length v) byte_limit)
          else (case decode_value C v of Inl e \<Rightarrow> Inl (Codec e) | Inr a \<Rightarrow> Inr (Some a)))"

definition ref_get_bounded :: "'s engine \<Rightarrow> 'v store_value \<Rightarrow> bytes \<Rightarrow> nat \<Rightarrow> ('s, 'v option) read_op" where
  "ref_get_bounded E C key byte_limit =
     sem_bind ref_ensure_healthy (\<lambda>_ r.
       ref_record_result
         (case storage_result ''read bounded data'' (get_pinned E (ref_view r) key) of
            Inl e \<Rightarrow> Inl e
          | Inr value \<Rightarrow> decode_bounded_value C value byte_limit) r)"

definition value_len :: "'s engine \<Rightarrow> bytes \<Rightarrow> bytes \<Rightarrow> ('s, nat option) read_op" where
  "value_len E prefix key = ref_value_len E (physical_key prefix key)"

definition contains_key :: "'s engine \<Rightarrow> bytes \<Rightarrow> bytes \<Rightarrow> ('s, bool) read_op" where
  "contains_key E prefix key = sem_bind (value_len E prefix key) (\<lambda>len. sem_return (len \<noteq> None))"

definition get_bounded :: "'s engine \<Rightarrow> 'v store_value \<Rightarrow> bytes \<Rightarrow> bytes \<Rightarrow> nat \<Rightarrow> ('s, 'v option) read_op" where
  "get_bounded E C prefix key byte_limit = ref_get_bounded E C (physical_key prefix key) byte_limit"

definition data_put :: "'s engine \<Rightarrow> bytes \<Rightarrow> bytes \<Rightarrow> bytes \<Rightarrow> ('s, unit) write_op" where
  "data_put E prefix key value =
     sem_bind ensure_healthy (\<lambda>_ t.
       record_write_result
         (storage_result ''write data'' (put_raw E (inner t) (physical_key prefix key) value)) t)"

definition data_erase :: "'s engine \<Rightarrow> bytes \<Rightarrow> bytes \<Rightarrow> ('s, unit) write_op" where
  "data_erase E prefix key =
     sem_bind ensure_healthy (\<lambda>_ t.
       record_write_result
         (storage_result ''delete data'' (delete_raw E (inner t) (physical_key prefix key))) t)"

definition data_delete :: "'s engine \<Rightarrow> bytes \<Rightarrow> bytes \<Rightarrow> ('s, bool) write_op" where
  "data_delete E prefix key =
     sem_bind (as_read (contains_key E prefix key)) (\<lambda>present.
       if \<not> present then sem_return False
       else sem_bind (data_erase E prefix key) (\<lambda>_. sem_return True))"

subsection \<open>Emptiness of a namespace or partition\<close>

definition namespace_is_empty ::
  "'s engine \<Rightarrow> 's \<Rightarrow> bytes \<Rightarrow> bytes \<Rightarrow> bytes option \<Rightarrow> store_error + bool" where
  "namespace_is_empty E s prefix suffix excluded =
     (let seek = (if suffix = [] then prefix else physical_key prefix suffix);
          (it, st) = raw_iterator E s None (prefix_successor prefix) Ascending seek;
          it' = (case (excluded, it) of
                   (Some x, (k, _) # rest) \<Rightarrow> if strip_prefix seek k = Some x then rest else it
                 | _ \<Rightarrow> it)
      in case (it', st) of
           ([], Some m) \<Rightarrow> Inl (Storage ''inspect data namespace'' m)
         | ([], None) \<Rightarrow> Inr True
         | ((k, _) # _, _) \<Rightarrow> Inr (strip_prefix seek k = None))"

definition partition_is_empty :: "'s engine \<Rightarrow> bytes \<Rightarrow> bytes \<Rightarrow> bytes option \<Rightarrow> ('s, bool) read_op" where
  "partition_is_empty E prefix suffix excluded =
     sem_bind ref_ensure_healthy (\<lambda>_ r.
       ref_record_result (namespace_is_empty E (ref_view r) prefix suffix excluded) r)"

definition is_physically_empty :: "'s engine \<Rightarrow> bytes \<Rightarrow> ('s, bool) read_op" where
  "is_physically_empty E prefix = partition_is_empty E prefix [] None"

subsection \<open>Bounded scans\<close>

record ('k, 'v) ordered_map_page =
  page_entries :: "('k \<times> 'v) list"
  continuation :: "'k option"

text \<open>
  The loop state is the entries decoded so far and their encoded bytes. The result also has
  whether the loop stopped at a limit, and the entries the iterator has not passed yet: it is
  still valid, and its status is fine, exactly when there are some.
\<close>

datatype cursor_step = Skip | Halt | Visit bytes

definition classify_key ::
  "bytes \<Rightarrow> scan_direction \<Rightarrow> encoded_bound option \<Rightarrow> encoded_bound option \<Rightarrow> bytes \<Rightarrow> cursor_step" where
  "classify_key prefix dir lower upper pk =
     (case strip_prefix prefix pk of
        None \<Rightarrow> if dir = Descending then Skip else Halt
      | Some key \<Rightarrow>
          if \<not> within_lower key lower then (if dir = Ascending then Skip else Halt)
          else if \<not> within_upper key upper then (if dir = Descending then Skip else Halt)
          else Visit key)"

text \<open>
  One matching entry: the item limit, then the byte limit, then decoding. \<open>Inr None\<close> is the
  \<^verbatim>\<open>limited = true; break\<close> of the loop.
\<close>

definition admit_entry ::
  "'k store_key \<Rightarrow> 'v store_value \<Rightarrow> scan_limit \<Rightarrow> bytes \<Rightarrow> bytes \<Rightarrow> bytes \<Rightarrow> ('k \<times> 'v) list \<Rightarrow> nat
   \<Rightarrow> store_error + (('k \<times> 'v) list \<times> nat) option" where
  "admit_entry CK CV limit sp key value entries bytes =
     (if length entries = max_items limit then Inr None
      else
        (case checked_add_usize (length key) (length value) of
           None \<Rightarrow> Inl (ItemTooLarge usize_max (max_bytes limit))
         | Some item_bytes \<Rightarrow>
             (let next_bytes = checked_add_usize bytes item_bytes in
              if (case next_bytes of None \<Rightarrow> True | Some n \<Rightarrow> n > max_bytes limit) then
                if entries = [] then Inl (ItemTooLarge item_bytes (max_bytes limit)) else Inr None
              else
                (case strip_prefix sp key of
                   None \<Rightarrow> Inl (Panicked ''the encoded scan range admits only this key prefix'')
                 | Some suffix \<Rightarrow>
                     (case decode_key CK suffix of
                        Inl e \<Rightarrow> Inl (Codec e)
                      | Inr k \<Rightarrow>
                          (case decode_value CV value of
                             Inl e \<Rightarrow> Inl (Codec e)
                           | Inr v \<Rightarrow> Inr (Some (entries @ [(k, v)], the next_bytes))))))))"

fun scan_loop ::
  "'k store_key \<Rightarrow> 'v store_value \<Rightarrow> bytes \<Rightarrow> scan_direction \<Rightarrow> encoded_bound option \<Rightarrow> encoded_bound option
   \<Rightarrow> scan_limit \<Rightarrow> bytes \<Rightarrow> (bytes \<times> bytes) list \<Rightarrow> ('k \<times> 'v) list \<Rightarrow> nat
   \<Rightarrow> store_error + ('k \<times> 'v) list \<times> bool \<times> (bytes \<times> bytes) list" where
  "scan_loop CK CV prefix dir lower upper limit sp [] entries bytes = Inr (entries, False, [])"
| "scan_loop CK CV prefix dir lower upper limit sp ((pk, value) # rest) entries bytes =
     (case classify_key prefix dir lower upper pk of
        Skip \<Rightarrow> scan_loop CK CV prefix dir lower upper limit sp rest entries bytes
      | Halt \<Rightarrow> Inr (entries, False, (pk, value) # rest)
      | Visit key \<Rightarrow>
          (case admit_entry CK CV limit sp key value entries bytes of
             Inl e \<Rightarrow> Inl e
           | Inr None \<Rightarrow> Inr (entries, True, (pk, value) # rest)
           | Inr (Some (entries', bytes')) \<Rightarrow>
               scan_loop CK CV prefix dir lower upper limit sp rest entries' bytes'))"

text \<open>After the loop: the iterator's status, then the continuation through the key codec.\<close>

definition finish_scan ::
  "'k store_key \<Rightarrow> ('k \<times> 'v) list \<Rightarrow> bool \<Rightarrow> string option \<Rightarrow> store_error + ('k, 'v) ordered_map_page" where
  "finish_scan CK entries limited status =
     (case status of
        Some m \<Rightarrow> Inl (Storage ''scan data'' m)
      | None \<Rightarrow>
          if limited \<and> entries \<noteq> [] then
            (case encode_key CK (fst (last entries)) of
               Inl e \<Rightarrow> Inl (Codec e)
             | Inr encoded \<Rightarrow>
                 (case decode_key CK encoded of
                    Inl e \<Rightarrow> Inl (Codec e)
                  | Inr k \<Rightarrow> Inr \<lparr>page_entries = entries, continuation = Some k\<rparr>))
          else Inr \<lparr>page_entries = entries, continuation = None\<rparr>)"

definition scan_data ::
  "'s engine \<Rightarrow> 'k store_key \<Rightarrow> 'v store_value \<Rightarrow> 's \<Rightarrow> bytes \<Rightarrow> scan_direction \<Rightarrow> encoded_bound option
   \<Rightarrow> encoded_bound option \<Rightarrow> scan_limit \<Rightarrow> bytes \<Rightarrow> store_error + ('k, 'v) ordered_map_page" where
  "scan_data E CK CV s prefix dir lower upper limit sp =
     (let lower_key = (case lower of None \<Rightarrow> prefix | Some (k, _) \<Rightarrow> physical_key prefix k);
          iterate_upper = (if dir = Ascending then prefix_successor prefix else None);
          seek = (case dir of
                    Ascending \<Rightarrow> lower_key
                  | Descending \<Rightarrow>
                      (case upper of
                         None \<Rightarrow> (case prefix_successor prefix of None \<Rightarrow> [] | Some u \<Rightarrow> u)
                       | Some (k, _) \<Rightarrow> physical_key prefix k));
          (it, st) = raw_iterator E s (Some lower_key) iterate_upper dir seek
      in case scan_loop CK CV prefix dir lower upper limit sp it [] 0 of
           Inl e \<Rightarrow> Inl e
         | Inr (entries, limited, rest) \<Rightarrow>
             finish_scan CK entries limited (if rest = [] then st else None))"

definition scan_key_suffix ::
  "'s engine \<Rightarrow> 'k store_key \<Rightarrow> 'v store_value \<Rightarrow> bytes \<Rightarrow> bytes bound \<Rightarrow> bytes bound \<Rightarrow> scan_direction
   \<Rightarrow> bytes option \<Rightarrow> scan_limit \<Rightarrow> bytes \<Rightarrow> ('s, ('k, 'v) ordered_map_page) read_op" where
  "scan_key_suffix E CK CV prefix range_start range_end dir resume_after limit sp =
     (let declared_lower = encoded_bound_of range_start;
          declared_upper = encoded_bound_of range_end;
          resume = map_option (\<lambda>k. (k, False)) resume_after;
          lower = (case dir of Ascending \<Rightarrow> later_bound declared_lower resume | Descending \<Rightarrow> declared_lower);
          upper = (case dir of Ascending \<Rightarrow> declared_upper | Descending \<Rightarrow> earlier_bound declared_upper resume)
      in sem_bind ref_ensure_healthy (\<lambda>_ r.
           ref_record_result (scan_data E CK CV (ref_view r) prefix dir lower upper limit sp) r))"

definition data_scan ::
  "'s engine \<Rightarrow> 'k store_key \<Rightarrow> 'v store_value \<Rightarrow> bytes \<Rightarrow> bytes bound \<Rightarrow> bytes bound \<Rightarrow> scan_direction
   \<Rightarrow> bytes option \<Rightarrow> scan_limit \<Rightarrow> ('s, ('k, 'v) ordered_map_page) read_op" where
  "data_scan E CK CV prefix range_start range_end dir resume_after limit =
     scan_key_suffix E CK CV prefix range_start range_end dir resume_after limit []"

section \<open>Key order and namespaces\<close>

lemma strip_prefix_Some: "strip_prefix p k = Some s \<longleftrightarrow> k = p @ s"
  by (induction p k rule: strip_prefix.induct) auto

lemma strip_prefix_append [simp]: "strip_prefix p (p @ s) = Some s"
  by (simp add: strip_prefix_Some)

lemma strip_prefix_None: "strip_prefix p k = None \<longleftrightarrow> (\<forall>s. k \<noteq> p @ s)"
  by (metis not_None_eq strip_prefix_Some)

lemma append_less_append_iff [simp]: "(p :: bytes) @ a < p @ b \<longleftrightarrow> a < b"
  by (induction p) auto

lemma append_le_append_iff [simp]: "(p :: bytes) @ a \<le> p @ b \<longleftrightarrow> a \<le> b"
  by (induction p) auto

lemma prefix_le_append [simp]: "(p :: bytes) \<le> p @ s"
  by (induction p) auto

text \<open>A key at or after \<open>p\<close> that does not extend it comes after everything that does.\<close>

lemma beyond_prefix:
  assumes "(p :: bytes) \<le> k" and "strip_prefix p k = None"
  shows "p @ s < k"
  using assms by (induction p k rule: strip_prefix.induct) (auto split: if_splits)

lemma length_data_prefix [simp]: "length (data_prefix i) = 5"
  by (simp add: data_prefix_def)

lemma data_prefix_inject [simp]: "data_prefix i = data_prefix j \<longleftrightarrow> i = j"
  by (simp add: data_prefix_def)

lemma physical_key_inject:
  "physical_key (data_prefix i) a = physical_key (data_prefix j) b \<longleftrightarrow> i = j \<and> a = b"
  by (simp add: physical_key_def)

lemma successor_rev_bound:
  "successor_rev (rev p) = Some u \<Longrightarrow> p @ s < rev u"
proof (induction p arbitrary: u s rule: rev_induct)
  case Nil
  then show ?case by simp
next
  case (snoc b p)
  show ?case
  proof (cases "b = 0xFF")
    case True
    with snoc.prems obtain v where "successor_rev (rev p) = Some v" and u: "u = 0 # v"
      by auto
    with snoc.IH have lt: "p @ (b # s) < rev v" by blast
    have "x < y \<Longrightarrow> x < y @ z" for x y z :: bytes
      by (meson order_less_le_trans prefix_le_append)
    with lt show ?thesis by (simp add: u)
  next
    case False
    then have "unat b \<noteq> 255" by (auto simp: word_unat_eq_iff)
    then have "unat b < 255" using unat_byte_less [of b] by (simp del: unat_byte_less)
    then have "b < b + 1" by (simp add: word_less_nat_alt unat_word_ariths)
    with False snoc.prems show ?thesis by auto
  qed
qed

lemma prefix_successor_bound: "prefix_successor p = Some u \<Longrightarrow> p @ s < u"
  by (auto simp: prefix_successor_def successor_rev_bound)

lemma successor_rev_total: "b \<noteq> 0xFF \<Longrightarrow> b \<in> set bs \<Longrightarrow> \<exists>u. successor_rev bs = Some u"
  by (induction bs) auto

text \<open>The \<^verbatim>\<open>unreachable!\<close> of \<^verbatim>\<open>prefix_successor\<close> is: the domain byte always has a successor.\<close>

lemma prefix_successor_data_prefix: "\<exists>u. prefix_successor (data_prefix i) = Some u"
  using successor_rev_total [of DATA_DOMAIN "rev (data_prefix i)"]
  by (auto simp: prefix_successor_def data_prefix_def DATA_DOMAIN_def)

section \<open>Point operations\<close>

lemma engine_get:
  "engine_laws E V \<Longrightarrow> get_pinned E s k = Inr v \<Longrightarrow> v = V s k"
  by (simp add: engine_laws_def)

lemma engine_put:
  "engine_laws E V \<Longrightarrow> put_raw E s k v = Inr s' \<Longrightarrow> V s' = (V s)(k \<mapsto> v)"
  by (simp add: engine_laws_def)

lemma engine_delete:
  "engine_laws E V \<Longrightarrow> delete_raw E s k = Inr s' \<Longrightarrow> V s' = (V s)(k := None)"
  by (simp add: engine_laws_def)

lemma engine_finite: "engine_laws E V \<Longrightarrow> finite (dom (V s))"
  by (simp add: engine_laws_def)

lemma engine_iterate:
  assumes "engine_laws E V" and "raw_iterator E s l u d k = (xs, st)"
  obtains ys where "visited (V s) l u d k = xs @ ys" and "st = None \<Longrightarrow> ys = []"
  using assms unfolding engine_laws_def by metis

lemma engine_unreliable:
  shows "get_pinned E s k = Inl m \<Longrightarrow> \<not> engine_reliable E"
    and "put_raw E s k v = Inl m \<Longrightarrow> \<not> engine_reliable E"
    and "delete_raw E s k = Inl m \<Longrightarrow> \<not> engine_reliable E"
    and "raw_iterator E s l u d k = (xs, Some m) \<Longrightarrow> \<not> engine_reliable E"
  unfolding engine_reliable_def by (blast, blast, blast) (metis option.discI snd_conv)

lemma wp_value_len [wp_intros]:
  assumes "engine_laws E V" "\<not> ref_poisoned r"
    and "Q (map_option length (V (ref_view r) (p @ k))) r"
    and "\<And>m. \<not> engine_reliable E \<Longrightarrow> R (Storage ''read data length'' m) (ref_poison r)"
  shows "wp (value_len E p k) Q R r"
  using assms
  by (auto simp: value_len_def ref_value_len_def storage_result_def physical_key_def
      split: sum.splits dest: engine_unreliable engine_get [OF assms(1)])

lemma wp_contains_key [wp_intros]:
  assumes "engine_laws E V" "\<not> ref_poisoned r" and "Q (p @ k \<in> dom (V (ref_view r))) r"
    and "\<And>m. \<not> engine_reliable E \<Longrightarrow> R (Storage ''read data length'' m) (ref_poison r)"
  shows "wp (contains_key E p k) Q R r"
  unfolding contains_key_def wp_bind
  by (rule wp_value_len [OF assms(1,2)]) (use assms in \<open>auto simp: dom_def\<close>)

lemma wp_get_bounded [wp_intros]:
  assumes "engine_laws E V" "\<not> ref_poisoned r"
    and "\<And>v. decode_bounded_value C (V (ref_view r) (p @ k)) n = Inr v \<Longrightarrow> Q v r"
    and "\<And>e. decode_bounded_value C (V (ref_view r) (p @ k)) n = Inl e
      \<Longrightarrow> R e (if poisons_transaction e then ref_poison r else r)"
    and "\<And>m. \<not> engine_reliable E \<Longrightarrow> R (Storage ''read bounded data'' m) (ref_poison r)"
  shows "wp (get_bounded E C p k n) Q R r"
  using assms
  by (auto simp: get_bounded_def ref_get_bounded_def storage_result_def physical_key_def
      split: sum.splits dest: engine_unreliable engine_get [OF assms(1)])

lemma wp_data_put [wp_intros]:
  assumes "engine_laws E V" "\<not> poisoned t"
    and "\<And>s. V s = (V (inner t))(p @ k \<mapsto> v) \<Longrightarrow> Q () (t\<lparr>inner := s, has_writes := True\<rparr>)"
    and "\<And>m. \<not> engine_reliable E \<Longrightarrow> R (Storage ''write data'' m) (t\<lparr>poisoned := True\<rparr>)"
  shows "wp (data_put E p k v) Q R t"
  using assms
  by (auto simp: data_put_def storage_result_def physical_key_def 
      split: sum.splits dest: engine_unreliable engine_put [OF assms(1)])

lemma wp_data_erase [wp_intros]:
  assumes "engine_laws E V" "\<not> poisoned t"
    and "\<And>s. V s = (V (inner t))(p @ k := None) \<Longrightarrow> Q () (t\<lparr>inner := s, has_writes := True\<rparr>)"
    and "\<And>m. \<not> engine_reliable E \<Longrightarrow> R (Storage ''delete data'' m) (t\<lparr>poisoned := True\<rparr>)"
  shows "wp (data_erase E p k) Q R t"
  using assms
  by (auto simp: data_erase_def storage_result_def physical_key_def 
      split: sum.splits dest: engine_unreliable engine_delete [OF assms(1)])

lemma wp_data_delete [wp_intros]:
  assumes laws: "engine_laws E V" and healthy: "\<not> poisoned t"
    and absent: "V (inner t) (p @ k) = None \<Longrightarrow> Q False t"
    and present: "\<And>s. V (inner t) (p @ k) \<noteq> None \<Longrightarrow> V s = (V (inner t))(p @ k := None) \<Longrightarrow>
      Q True (t\<lparr>inner := s, has_writes := True\<rparr>)"
    and err: "\<And>op m. \<not> engine_reliable E \<Longrightarrow> R (Storage op m) (t\<lparr>poisoned := True\<rparr>)"
  shows "wp (data_delete E p k) Q R t"
  unfolding data_delete_def wp_bind wp_as_read
  by (rule wp_contains_key [OF laws])
     (use assms in \<open>auto simp: dom_def intro!: wp_data_erase [OF laws]\<close>)

subsection \<open>Poisoning and write tracking\<close>

lemma keeps_ref_value_len [poison_intros]: "keeps_ref (value_len E p k)"
  unfolding value_len_def ref_value_len_def by (intro poison_intros)

lemma keeps_ref_contains_key [poison_intros]: "keeps_ref (contains_key E p k)"
  unfolding contains_key_def by (intro poison_intros)

lemma keeps_ref_get_bounded [poison_intros]: "keeps_ref (get_bounded E C p k n)"
  unfolding get_bounded_def ref_get_bounded_def by (intro poison_intros)

lemma keeps_ref_partition_is_empty [poison_intros]: "keeps_ref (partition_is_empty E p sfx x)"
  unfolding partition_is_empty_def by (intro poison_intros)

lemma keeps_ref_is_physically_empty [poison_intros]: "keeps_ref (is_physically_empty E p)"
  unfolding is_physically_empty_def by (intro poison_intros)

lemma keeps_ref_scan_key_suffix [poison_intros]:
  "keeps_ref (scan_key_suffix E CK CV p a b d res lim sp)"
  unfolding scan_key_suffix_def Let_def by (intro poison_intros)

lemma keeps_ref_data_scan [poison_intros]: "keeps_ref (data_scan E CK CV p a b d res lim)"
  unfolding data_scan_def by (intro poison_intros)

lemma keeps_ref_bind_read [poison_intros]: "keeps_ref (bind_read h)"
  unfolding bind_read_def by (intro poison_intros)

lemma poison_ok_value_len [poison_intros]: "poison_ok ref_poisoned (value_len E p k)"
  unfolding value_len_def ref_value_len_def by (intro poison_intros)

lemma poison_ok_contains_key [poison_intros]: "poison_ok ref_poisoned (contains_key E p k)"
  unfolding contains_key_def by (intro poison_intros)

lemma poison_ok_get_bounded [poison_intros]: "poison_ok ref_poisoned (get_bounded E C p k n)"
  unfolding get_bounded_def ref_get_bounded_def by (intro poison_intros)

lemma poison_ok_partition_is_empty [poison_intros]:
  "poison_ok ref_poisoned (partition_is_empty E p sfx x)"
  unfolding partition_is_empty_def by (intro poison_intros)

lemma poison_ok_is_physically_empty [poison_intros]:
  "poison_ok ref_poisoned (is_physically_empty E p)"
  unfolding is_physically_empty_def by (intro poison_intros)

lemma poison_ok_scan_key_suffix [poison_intros]:
  "poison_ok ref_poisoned (scan_key_suffix E CK CV p a b d res lim sp)"
  unfolding scan_key_suffix_def Let_def by (intro poison_intros)

lemma poison_ok_data_scan [poison_intros]:
  "poison_ok ref_poisoned (data_scan E CK CV p a b d res lim)"
  unfolding data_scan_def by (intro poison_intros)

lemma poison_ok_bind_read [poison_intros]: "poison_ok ref_poisoned (bind_read h)"
  unfolding bind_read_def by (intro poison_intros)

lemma poison_ok_bind_access [poison_intros]: "poison_ok poisoned (bind_access h)"
  unfolding bind_access_def by (intro poison_intros)

lemma poison_ok_data_put [poison_intros]: "poison_ok poisoned (data_put E p k v)"
  unfolding data_put_def by (intro poison_intros)

lemma poison_ok_data_erase [poison_intros]: "poison_ok poisoned (data_erase E p k)"
  unfolding data_erase_def by (intro poison_intros)

lemma poison_ok_data_delete [poison_intros]: "poison_ok poisoned (data_delete E p k)"
  unfolding data_delete_def by (intro poison_intros)

lemma tracks_writes_bind_access [poison_intros]: "tracks_writes (bind_access h)"
  unfolding bind_access_def by (intro poison_intros)

lemma tracks_writes_data_put [poison_intros]: "tracks_writes (data_put E p k v)"
  unfolding data_put_def by (intro poison_intros)

lemma tracks_writes_data_erase [poison_intros]: "tracks_writes (data_erase E p k)"
  unfolding data_erase_def by (intro poison_intros)

lemma tracks_writes_data_delete [poison_intros]: "tracks_writes (data_delete E p k)"
  unfolding data_delete_def by (intro poison_intros)

section \<open>Correctness of bounded scans\<close>

text \<open>
  The reference: the matching entries of a namespace in scan order (\<open>range_entries\<close>), and the
  number of them a page admits (\<open>admit\<close>): as many as fit both the item and the byte limit, in order.
\<close>

definition in_range :: "encoded_bound option \<Rightarrow> encoded_bound option \<Rightarrow> bytes \<Rightarrow> bool" where
  "in_range lower upper k \<longleftrightarrow> within_lower k lower \<and> within_upper k upper"

definition range_entries ::
  "(bytes \<rightharpoonup> bytes) \<Rightarrow> bytes \<Rightarrow> scan_direction \<Rightarrow> encoded_bound option \<Rightarrow> encoded_bound option
   \<Rightarrow> (bytes \<times> bytes) list" where
  "range_entries m p dir lower upper =
     map (\<lambda>k. (k, the (m (p @ k)))) (ordered_keys dir {k. p @ k \<in> dom m \<and> in_range lower upper k})"

fun admit :: "nat \<Rightarrow> nat \<Rightarrow> (bytes \<times> bytes) list \<Rightarrow> nat" where
  "admit 0 b xs = 0"
| "admit (Suc i) b [] = 0"
| "admit (Suc i) b ((k, v) # xs) =
     (if length k + length v \<le> b then Suc (admit i (b - (length k + length v)) xs) else 0)"

lemma admit_le: "admit i b xs \<le> length xs" "admit i b xs \<le> i"
  by (induction i b xs rule: admit.induct) auto

lemma admit_bytes: "(\<Sum>(k, v) \<leftarrow> take (admit i b xs) xs. length k + length v) \<le> b"
  by (induction i b xs rule: admit.induct) auto

text \<open>The loop over matching entries only.\<close>

fun match_of :: "bytes \<Rightarrow> encoded_bound option \<Rightarrow> encoded_bound option \<Rightarrow> bytes \<times> bytes \<Rightarrow> (bytes \<times> bytes) option" where
  "match_of p lower upper (pk, v) =
     (case strip_prefix p pk of None \<Rightarrow> None
      | Some k \<Rightarrow> if in_range lower upper k then Some (k, v) else None)"

abbreviation matches :: "bytes \<Rightarrow> encoded_bound option \<Rightarrow> encoded_bound option \<Rightarrow> (bytes \<times> bytes) list \<Rightarrow> (bytes \<times> bytes) list" where
  "matches p lower upper \<equiv> List.map_filter (match_of p lower upper)"

fun page_loop ::
  "'k store_key \<Rightarrow> 'v store_value \<Rightarrow> scan_limit \<Rightarrow> bytes \<Rightarrow> (bytes \<times> bytes) list \<Rightarrow> ('k \<times> 'v) list \<Rightarrow> nat
   \<Rightarrow> store_error + ('k \<times> 'v) list \<times> bool" where
  "page_loop CK CV limit sp [] entries n = Inr (entries, False)"
| "page_loop CK CV limit sp ((key, value) # rest) entries n =
     (case admit_entry CK CV limit sp key value entries n of
        Inl e \<Rightarrow> Inl e
      | Inr None \<Rightarrow> Inr (entries, True)
      | Inr (Some (entries', n')) \<Rightarrow> page_loop CK CV limit sp rest entries' n')"

text \<open>The entries visited before the loop stops determine its result.\<close>

lemma scan_loop_append_error:
  "scan_loop CK CV p dir lower upper limit sp it es n = Inl e \<Longrightarrow>
   scan_loop CK CV p dir lower upper limit sp (it @ ys) es n = Inl e"
  by (induction it arbitrary: es n) (auto split: option.splits sum.splits cursor_step.splits)

lemma scan_loop_append_stop:
  "scan_loop CK CV p dir lower upper limit sp it es n = Inr (es', lim, rest) \<Longrightarrow> rest \<noteq> [] \<Longrightarrow>
   scan_loop CK CV p dir lower upper limit sp (it @ ys) es n = Inr (es', lim, rest @ ys)"
  by (induction it arbitrary: es n) (auto split: option.splits sum.splits cursor_step.splits)

definition scan_sorted :: "scan_direction \<Rightarrow> bytes list \<Rightarrow> bool" where
  "scan_sorted dir ks = (case dir of Ascending \<Rightarrow> sorted_wrt (<) ks | Descending \<Rightarrow> sorted_wrt (>) ks)"

lemma cmp_bytes_simps [simp]:
  "cmp_bytes a b = Less \<longleftrightarrow> a < b" "cmp_bytes a b = Equal \<longleftrightarrow> a = b" "cmp_bytes a b = Greater \<longleftrightarrow> b < a"
  by (auto simp: cmp_bytes_def)

lemma within_lower_iff:
  "within_lower k lower \<longleftrightarrow> (case lower of None \<Rightarrow> True | Some (l, inc) \<Rightarrow> l < k \<or> (inc \<and> k = l))"
  by (auto simp: within_lower_def cmp_bytes_def split: option.split)

lemma within_upper_iff:
  "within_upper k upper \<longleftrightarrow> (case upper of None \<Rightarrow> True | Some (u, inc) \<Rightarrow> k < u \<or> (inc \<and> k = u))"
  by (auto simp: within_upper_def cmp_bytes_def split: option.split)

lemma within_lower_mono: "within_lower k lower \<Longrightarrow> k \<le> l \<Longrightarrow> within_lower l lower"
  by (auto simp: within_lower_iff split: option.splits)

lemma within_upper_mono: "within_upper k upper \<Longrightarrow> l \<le> k \<Longrightarrow> within_upper l upper"
  by (auto simp: within_upper_iff split: option.splits)

lemma matches_Nil_iff:
  "matches p lower upper xs = [] \<longleftrightarrow> (\<forall>(pk, v) \<in> set xs. \<forall>k. pk = p @ k \<longrightarrow> \<not> in_range lower upper k)"
  by (induction xs) (auto simp: List.map_filter_simps strip_prefix_Some strip_prefix_None split: option.splits)

text \<open>Once the loop stops at a non-matching entry of a sorted list, nothing after it matches.\<close>

lemma sorted_no_later_match:
  assumes sorted: "scan_sorted dir (pk # map fst rest)" and low: "\<forall>k \<in> set (pk # map fst rest). p \<le> k"
    and stop: "classify_key p dir lower upper pk = Halt"
  shows "matches p lower upper rest = []"
  unfolding matches_Nil_iff
proof (clarify)
  fix v k
  assume mem: "(p @ k, v) \<in> set rest" and range: "in_range lower upper k"
  then have elem: "p @ k \<in> set (map fst rest)" by force
  have order: "if dir = Ascending then pk < p @ k else p @ k < pk"
    using sorted elem by (cases dir) (auto simp: scan_sorted_def)
  show False
  proof (cases "strip_prefix p pk")
    case None
    with stop have "dir = Ascending" by (cases dir) (simp_all add: classify_key_def)
    moreover have "p @ k < pk" using None low by (intro beyond_prefix) auto
    ultimately show False using order by simp
  next
    case (Some j)
    then have "pk = p @ j" by (simp add: strip_prefix_Some)
    with order have "if dir = Ascending then j < k else k < j" by (auto split: if_splits)
    with stop Some range show False
      by (cases dir) (auto simp: in_range_def classify_key_def split: if_splits
          dest: within_lower_mono within_upper_mono intro: order_less_imp_le)
  qed
qed

lemma classify_key_match:
  "classify_key p dir lower upper pk = Visit key \<longleftrightarrow> match_of p lower upper (pk, v) = Some (key, v)"
  "classify_key p dir lower upper pk \<in> {Skip, Halt} \<longleftrightarrow> match_of p lower upper (pk, v) = None"
  by (auto simp: classify_key_def in_range_def split: option.splits)

lemma scan_loop_page_loop:
  assumes "scan_sorted dir (map fst it)" and "\<forall>k \<in> set (map fst it). p \<le> k"
  shows "map_sum id (\<lambda>(es, lim, _). (es, lim)) (scan_loop CK CV p dir lower upper limit sp it es n) =
         page_loop CK CV limit sp (matches p lower upper it) es n"
  using assms
proof (induction it arbitrary: es n)
  case Nil
  then show ?case by (simp add: List.map_filter_simps)
next
  case (Cons e rest)
  obtain pk v where e: "e = (pk, v)" by fastforce
  have tl: "scan_sorted dir (map fst rest)" "\<forall>k \<in> set (map fst rest). p \<le> k"
    using Cons.prems by (auto simp: scan_sorted_def split: scan_direction.splits)
  note IH = Cons.IH [OF tl]
  show ?case
  proof (cases "classify_key p dir lower upper pk")
    case Skip
    then have "match_of p lower upper (pk, v) = None"
      using classify_key_match(2) [of p dir lower upper pk v] by blast
    with Skip IH show ?thesis by (simp add: e List.map_filter_simps)
  next
    case Halt
    then have none: "match_of p lower upper (pk, v) = None"
      using classify_key_match(2) [of p dir lower upper pk v] by blast
    have "matches p lower upper rest = []"
      using Cons.prems Halt by (intro sorted_no_later_match [of dir pk]) (auto simp: e)
    with Halt none show ?thesis by (simp add: e List.map_filter_simps)
  next
    case (Visit key)
    then have "match_of p lower upper (pk, v) = Some (key, v)"
      using classify_key_match(1) [of p dir lower upper pk key v] by blast
    with Visit IH show ?thesis
      by (simp add: e List.map_filter_simps split: sum.split option.split)
  qed
qed

subsection \<open>What the iterator visits\<close>

lemma scan_sorted_ordered_keys [simp]: "scan_sorted dir (ordered_keys dir K)"
  by (cases dir) (auto simp: scan_sorted_def ordered_keys_def sorted_wrt_rev strict_sorted_list_of_set)

lemma set_ordered_keys [simp]: "finite K \<Longrightarrow> set (ordered_keys dir K) = K"
  by (cases dir) (auto simp: ordered_keys_def)

lemma scan_sorted_unique:
  assumes "scan_sorted dir xs" "scan_sorted dir ys" "set xs = set ys"
  shows "xs = ys"
proof (cases dir)
  case Ascending
  with assms show ?thesis by (simp add: scan_sorted_def strict_sorted_equal)
next
  case Descending
  with assms have "rev xs = rev ys"
    by (intro strict_sorted_equal) (simp_all add: scan_sorted_def sorted_wrt_rev)
  then show ?thesis by simp
qed

lemma map_fst_entries_of [simp]: "map fst (entries_of m ks) = ks"
  by (simp add: entries_of_def o_def)

lemma matches_entries_of:
  "e \<in> set (matches p lower upper (entries_of m ks)) \<Longrightarrow> snd e = the (m (p @ fst e))"
proof (induction ks)
  case Nil
  then show ?case by (simp add: entries_of_def List.map_filter_simps)
next
  case (Cons pk ks)
  then show ?case
    by (auto simp: entries_of_def List.map_filter_simps strip_prefix_Some split: option.splits if_splits)
qed

lemma map_fst_determines:
  "(\<And>e. e \<in> set xs \<Longrightarrow> snd e = f (fst e)) \<Longrightarrow> xs = map (\<lambda>k. (k, f k)) (map fst xs)"
  by (induction xs) auto

lemma set_matches_entries_of:
  "set (map fst (matches p lower upper (entries_of m ks))) = {k. p @ k \<in> set ks \<and> in_range lower upper k}"
proof (induction ks)
  case Nil
  show ?case by (simp add: entries_of_def List.map_filter_simps)
next
  case (Cons pk ks)
  then show ?case
    by (auto simp: entries_of_def List.map_filter_simps strip_prefix_Some strip_prefix_None split: option.splits)
qed

lemma scan_sorted_matches:
  assumes "scan_sorted dir ks"
  shows "scan_sorted dir (map fst (matches p lower upper (entries_of m ks)))"
  using assms
proof (induction ks)
  case Nil
  show ?case by (simp add: entries_of_def List.map_filter_simps scan_sorted_def split: scan_direction.split)
next
  case (Cons pk ks)
  have tl: "scan_sorted dir ks" using Cons.prems by (simp add: scan_sorted_def split: scan_direction.splits)
  let ?ms = "map fst (matches p lower upper (entries_of m ks))"
  show ?case
  proof (cases "match_of p lower upper (pk, the (m pk))")
    case None
    with Cons.IH [OF tl] show ?thesis by (simp add: entries_of_def List.map_filter_simps)
  next
    case (Some e)
    then obtain k where pk: "pk = p @ k" and e: "e = (k, the (m pk))"
      by (auto simp: strip_prefix_Some split: option.splits if_splits)
    have "\<forall>j \<in> set ?ms. p @ j \<in> set ks" unfolding set_matches_entries_of by blast
    moreover have "\<forall>x \<in> set ks. if dir = Ascending then p @ k < x else x < p @ k"
      using Cons.prems by (cases dir) (simp_all add: scan_sorted_def pk)
    ultimately have "\<forall>j \<in> set ?ms. if dir = Ascending then k < j else j < k"
      by (metis append_less_append_iff)
    with Cons.IH [OF tl] have "scan_sorted dir (k # ?ms)"
      by (cases dir) (simp_all add: scan_sorted_def)
    with Some show ?thesis by (simp add: e entries_of_def List.map_filter_simps)
  qed
qed

lemma matches_visited:
  assumes fin: "finite (dom m)"
    and cover: "\<And>k. p @ k \<in> dom m \<Longrightarrow> in_range lower upper k \<Longrightarrow> within_iterate l u dir seek (p @ k)"
  shows "matches p lower upper (visited m l u dir seek) = range_entries m p dir lower upper"
proof -
  let ?K = "{k \<in> dom m. within_iterate l u dir seek k}"
  let ?R = "{k. p @ k \<in> dom m \<and> in_range lower upper k}"
  have finK: "finite ?K" using fin by simp
  have finR: "finite ?R"
  proof (rule finite_subset)
    show "?R \<subseteq> (\<lambda>k. drop (length p) k) ` dom m" by (auto simp: image_iff) (metis append_eq_conv_conj domI)
    show "finite ((\<lambda>k. drop (length p) k) ` dom m)" using fin by simp
  qed
  have "map fst (matches p lower upper (visited m l u dir seek)) = ordered_keys dir ?R"
  proof (rule scan_sorted_unique)
    show "scan_sorted dir (map fst (matches p lower upper (visited m l u dir seek)))"
      unfolding visited_def by (rule scan_sorted_matches) simp
    show "set (map fst (matches p lower upper (visited m l u dir seek))) = set (ordered_keys dir ?R)"
      unfolding visited_def set_matches_entries_of using finK finR cover by auto
  qed simp
  moreover have "matches p lower upper (visited m l u dir seek) =
      map (\<lambda>k. (k, the (m (p @ k)))) (map fst (matches p lower upper (visited m l u dir seek)))"
    unfolding visited_def by (rule map_fst_determines) (rule matches_entries_of)
  ultimately show ?thesis unfolding range_entries_def by metis
qed

subsection \<open>The page a scan returns\<close>

definition decodes :: "'k store_key \<Rightarrow> 'v store_value \<Rightarrow> bytes \<Rightarrow> bytes \<times> bytes \<Rightarrow> bool" where
  "decodes CK CV sp e \<longleftrightarrow>
     (\<exists>sfx k v. fst e = sp @ sfx \<and> decode_key CK sfx = Inr k \<and> decode_value CV (snd e) = Inr v)"

definition decoded :: "'k store_key \<Rightarrow> 'v store_value \<Rightarrow> bytes \<Rightarrow> bytes \<times> bytes \<Rightarrow> 'k \<times> 'v" where
  "decoded CK CV sp e = (projr (decode_key CK (drop (length sp) (fst e))), projr (decode_value CV (snd e)))"

definition item_size :: "bytes \<times> bytes \<Rightarrow> nat" where
  "item_size e = length (fst e) + length (snd e)"

definition scan_result ::
  "'k store_key \<Rightarrow> 'v store_value \<Rightarrow> bytes \<Rightarrow> scan_limit \<Rightarrow> (bytes \<times> bytes) list
   \<Rightarrow> store_error + ('k, 'v) ordered_map_page" where
  "scan_result CK CV sp limit L =
     (let c = admit (max_items limit) (max_bytes limit) L in
      if c = 0 \<and> L \<noteq> [] then Inl (ItemTooLarge (item_size (hd L)) (max_bytes limit))
      else Inr \<lparr>page_entries = map (decoded CK CV sp) (take c L),
                continuation = (if c < length L then Some (fst (decoded CK CV sp (L ! (c - 1)))) else None)\<rparr>)"

text \<open>The limits are positive, as \<^const>\<open>scan_limit_new\<close> guarantees, and machine sizes.\<close>

definition limit_ok :: "scan_limit \<Rightarrow> bool" where
  "limit_ok limit \<longleftrightarrow> 0 < max_items limit \<and> 0 < max_bytes limit \<and> max_bytes limit \<le> usize_max"

lemma admit_entry_cases:
  assumes "decodes CK CV sp (k, v)" "length k + length v \<le> usize_max"
    "limit_ok limit" "n \<le> max_bytes limit"
  shows "admit_entry CK CV limit sp k v es n =
    (if length es = max_items limit then Inr None
     else if n + (length k + length v) \<le> max_bytes limit
       then Inr (Some (es @ [decoded CK CV sp (k, v)], n + (length k + length v)))
     else if es = [] then Inl (ItemTooLarge (length k + length v) (max_bytes limit)) else Inr None)"
  using assms
  by (auto simp: admit_entry_def checked_add_usize_def decodes_def decoded_def limit_ok_def Let_def)

lemma page_loop_admit:
  assumes "\<forall>e \<in> set ms. decodes CK CV sp e \<and> item_size e \<le> usize_max"
    and "limit_ok limit" and "length es \<le> max_items limit" and "n \<le> max_bytes limit"
  shows "page_loop CK CV limit sp ms es n =
    (let c = admit (max_items limit - length es) (max_bytes limit - n) ms in
     if c = 0 \<and> ms \<noteq> [] \<and> es = [] then Inl (ItemTooLarge (item_size (hd ms)) (max_bytes limit))
     else Inr (es @ map (decoded CK CV sp) (take c ms), c < length ms))"
  using assms
proof (induction ms arbitrary: es n)
  case Nil
  then show ?case by (cases "max_items limit - length es") simp_all
next
  case (Cons e ms)
  obtain k v where e: "e = (k, v)" by fastforce
  let ?size = "length k + length v"
  note entry = admit_entry_cases [of CK CV sp k v limit n es]
  show ?case
  proof (cases "length es = max_items limit")
    case True
    moreover have "es \<noteq> []" using True Cons.prems(2) by (auto simp: limit_ok_def)
    ultimately show ?thesis using entry Cons.prems by (simp add: e item_size_def)
  next
    case room: False
    then obtain i where i: "max_items limit - length es = Suc i"
      using Cons.prems(3) by (metis Suc_diff_Suc le_neq_implies_less)
    show ?thesis
    proof (cases "n + ?size \<le> max_bytes limit")
      case True
      have "page_loop CK CV limit sp ms (es @ [decoded CK CV sp (k, v)]) (n + ?size) =
          (let c = admit (max_items limit - length (es @ [decoded CK CV sp (k, v)]))
                (max_bytes limit - (n + ?size)) ms
           in Inr ((es @ [decoded CK CV sp (k, v)]) @ map (decoded CK CV sp) (take c ms), c < length ms))"
        using Cons.IH [of "es @ [decoded CK CV sp (k, v)]" "n + ?size"] Cons.prems True room
        by (simp add: Let_def)
      moreover have "max_items limit - length (es @ [decoded CK CV sp (k, v)]) = i"
        using i by simp
      ultimately show ?thesis
        using True room entry Cons.prems i
        by (simp add: e item_size_def Let_def le_diff_conv2 add.commute diff_diff_left)
    next
      case False
      then show ?thesis
        using room entry Cons.prems i by (auto simp: e item_size_def Let_def)
    qed
  qed
qed

lemma in_range_entries:
  assumes "finite (dom m)" and "e \<in> set (range_entries m p dir lower upper)"
  shows "m (p @ fst e) = Some (snd e)" and "in_range lower upper (fst e)"
proof -
  have fin: "finite {k. p @ k \<in> dom m \<and> in_range lower upper k}"
  proof (rule finite_subset)
    show "{k. p @ k \<in> dom m \<and> in_range lower upper k} \<subseteq> (\<lambda>k. drop (length p) k) ` dom m"
      by (auto simp: image_iff) (metis append_eq_conv_conj domI)
  qed (use assms(1) in simp)
  with assms(2) show "m (p @ fst e) = Some (snd e)" "in_range lower upper (fst e)"
    by (auto simp: range_entries_def)
qed

lemma finish_scan_page:
  assumes "c \<le> length L" and "\<not> (c = 0 \<and> L \<noteq> [])" and "\<forall>e \<in> set L. decodes CK CV sp e"
    and canonical: "\<And>bs k. decode_key CK bs = Inr k \<Longrightarrow> encode_key CK k = Inr bs"
  shows "finish_scan CK (map (decoded CK CV sp) (take c L)) (c < length L) None =
    Inr \<lparr>page_entries = map (decoded CK CV sp) (take c L),
         continuation = (if c < length L then Some (fst (decoded CK CV sp (L ! (c - 1)))) else None)\<rparr>"
proof (cases "c < length L")
  case True
  with assms(2) have pos: "0 < c" "c - 1 < length L" by auto
  then have last: "last (map (decoded CK CV sp) (take c L)) = decoded CK CV sp (L ! (c - 1))"
    using True by (subst last_conv_nth) auto
  have "decodes CK CV sp (L ! (c - 1))" using assms(3) pos(2) by simp
  then obtain sfx k v where e: "fst (L ! (c - 1)) = sp @ sfx" "decode_key CK sfx = Inr k"
    by (auto simp: decodes_def)
  then have "fst (decoded CK CV sp (L ! (c - 1))) = k" by (simp add: decoded_def)
  with e canonical [OF e(2)] True last pos show ?thesis by (auto simp: finish_scan_def)
next
  case False
  then show ?thesis by (simp add: finish_scan_def)
qed

text \<open>A scan without an engine fault is the loop over the entries of its range.\<close>

lemma scan_data_page_loop:
  assumes laws: "engine_laws E V" and succ: "prefix_successor p = Some u"
  shows "(\<exists>m. \<not> engine_reliable E \<and> scan_data E CK CV s p dir lower upper limit sp = Inl (Storage ''scan data'' m))
    \<or> scan_data E CK CV s p dir lower upper limit sp =
       (case page_loop CK CV limit sp (range_entries (V s) p dir lower upper) [] 0 of
          Inl e \<Rightarrow> Inl e | Inr (es, lim) \<Rightarrow> finish_scan CK es lim None)"
proof -
  define L where "L = range_entries (V s) p dir lower upper"
  define lk where "lk = (case lower of None \<Rightarrow> p | Some (k, _) \<Rightarrow> physical_key p k)"
  define ub where "ub = (if dir = Ascending then prefix_successor p else None)"
  define seek where "seek = (case dir of Ascending \<Rightarrow> lk
    | Descending \<Rightarrow> (case upper of None \<Rightarrow> (case prefix_successor p of None \<Rightarrow> [] | Some u \<Rightarrow> u)
                     | Some (k, _) \<Rightarrow> physical_key p k))"
  obtain it st where it: "raw_iterator E s (Some lk) ub dir seek = (it, st)" by fastforce
  obtain ys where vis: "visited (V s) (Some lk) ub dir seek = it @ ys" and st: "st = None \<Longrightarrow> ys = []"
    by (rule engine_iterate [OF laws it]) blast
  have low: "p \<le> lk" by (auto simp: lk_def physical_key_def split: option.split)
  have cover: "within_iterate (Some lk) ub dir seek (p @ k)" if "in_range lower upper k" for k
    using that prefix_successor_bound [OF succ, of k] succ
    by (auto simp: within_iterate_def in_range_def within_lower_iff within_upper_iff lk_def ub_def seek_def
        physical_key_def less_imp_le split: option.splits scan_direction.splits)
  have fin: "finite (dom (V s))" using laws by (rule engine_finite)
  have sorted: "scan_sorted dir (map fst (it @ ys))" "\<forall>k \<in> set (map fst (it @ ys)). p \<le> k"
    unfolding vis [symmetric]
    using fin low by (auto simp: visited_def within_iterate_def simp del: set_map intro: order_trans)
  have "matches p lower upper (it @ ys) = L"
    unfolding L_def vis [symmetric] using fin cover by (rule matches_visited)
  then have full: "map_sum id (\<lambda>(es, lim, _). (es, lim)) (scan_loop CK CV p dir lower upper limit sp (it @ ys) [] 0)
      = page_loop CK CV limit sp L [] 0"
    using scan_loop_page_loop [OF sorted] by metis
  have run: "scan_data E CK CV s p dir lower upper limit sp =
      (case scan_loop CK CV p dir lower upper limit sp it [] 0 of
         Inl e \<Rightarrow> Inl e
       | Inr (es, lim, rest) \<Rightarrow> finish_scan CK es lim (if rest = [] then st else None))"
    using it unfolding lk_def ub_def seek_def by (simp add: scan_data_def finish_scan_def Let_def)
  show ?thesis
  proof (cases "scan_loop CK CV p dir lower upper limit sp it [] 0")
    case (Inl e)
    from scan_loop_append_error [OF Inl, of ys] have "page_loop CK CV limit sp L [] 0 = Inl e" using full by simp
    then show ?thesis using run Inl by (simp add: L_def)
  next
    case (Inr res)
    obtain es lim rest where res: "res = (es, lim, rest)" by (cases res) auto
    show ?thesis
    proof (cases "rest = [] \<and> st \<noteq> None")
      case True
      then show ?thesis using run Inr res it by (auto simp: finish_scan_def dest: engine_unreliable(4))
    next
      case False
      then have "scan_loop CK CV p dir lower upper limit sp (it @ ys) [] 0 = Inr (es, lim, rest @ ys)"
        using scan_loop_append_stop [of CK CV p dir lower upper limit sp it "[]" 0 es lim rest ys] Inr res st
        by (cases "rest = []") auto
      then have "page_loop CK CV limit sp L [] 0 = Inr (es, lim)" using full by simp
      then show ?thesis using run Inr res False by (auto simp: L_def)
    qed
  qed
qed

theorem scan_data_spec:
  assumes laws: "engine_laws E V" and succ: "prefix_successor p = Some u"
    and limit: "limit_ok limit"
    and items: "\<forall>e \<in> set (range_entries (V s) p dir lower upper).
        decodes CK CV sp e \<and> item_size e \<le> usize_max"
    and canonical: "\<And>bs k. decode_key CK bs = Inr k \<Longrightarrow> encode_key CK k = Inr bs"
  shows "(\<exists>m. \<not> engine_reliable E \<and> scan_data E CK CV s p dir lower upper limit sp = Inl (Storage ''scan data'' m))
    \<or> scan_data E CK CV s p dir lower upper limit sp = scan_result CK CV sp limit (range_entries (V s) p dir lower upper)"
proof -
  let ?L = "range_entries (V s) p dir lower upper" and ?c = "admit (max_items limit) (max_bytes limit) (range_entries (V s) p dir lower upper)"
  have "page_loop CK CV limit sp ?L [] 0 =
      (if ?c = 0 \<and> ?L \<noteq> [] then Inl (ItemTooLarge (item_size (hd ?L)) (max_bytes limit))
       else Inr (map (decoded CK CV sp) (take ?c ?L), ?c < length ?L))"
    using page_loop_admit [of ?L CK CV sp limit "[]" 0] items limit by (simp add: Let_def)
  moreover have "finish_scan CK (map (decoded CK CV sp) (take ?c ?L)) (?c < length ?L) None = scan_result CK CV sp limit ?L"
    if "\<not> (?c = 0 \<and> ?L \<noteq> [])"
    using that items canonical admit_le(1) [of _ _ ?L]
    by (subst finish_scan_page) (auto simp: scan_result_def Let_def)
  ultimately show ?thesis
    using scan_data_page_loop [OF laws succ, of CK CV s dir lower upper limit sp] by (auto simp: scan_result_def Let_def)
qed

text \<open>Whatever the stored bytes are, a scan that succeeds has decoded the entries it returns.\<close>

lemma admit_entry_Some:
  assumes "admit_entry CK CV limit sp k v es n = Inr (Some (es', n'))"
  shows "es' = es @ [decoded CK CV sp (k, v)]" "decodes CK CV sp (k, v)"
  using assms
  by (auto simp: admit_entry_def decoded_def decodes_def strip_prefix_Some Let_def split: if_splits option.splits sum.splits)

lemma page_loop_Inr:
  "page_loop CK CV limit sp ms es n = Inr (es', lim) \<Longrightarrow>
   \<exists>c \<le> length ms. es' = es @ map (decoded CK CV sp) (take c ms) \<and> (\<forall>e \<in> set (take c ms). decodes CK CV sp e) \<and>
     (lim \<longleftrightarrow> c < length ms) \<and> (length es \<le> max_items limit \<longrightarrow> length es' \<le> max_items limit)"
proof (induction ms arbitrary: es n)
  case (Cons e ms)
  obtain k v where e: "e = (k, v)" by fastforce
  show ?case
  proof (cases "admit_entry CK CV limit sp k v es n")
    case (Inr r)
    show ?thesis
    proof (cases r)
      case None
      then show ?thesis using Cons.prems Inr e by (intro exI [of _ 0]) auto
    next
      case (Some q)
      obtain es1 n1 where q: "q = (es1, n1)" by fastforce
      note step = admit_entry_Some [of CK CV limit sp k v es n es1 n1]
      have "length es \<noteq> max_items limit" using Inr Some by (auto simp: admit_entry_def)
      moreover obtain c where "c \<le> length ms" "es' = es1 @ map (decoded CK CV sp) (take c ms)" "\<forall>e \<in> set (take c ms). decodes CK CV sp e"
          "lim \<longleftrightarrow> c < length ms" "length es1 \<le> max_items limit \<longrightarrow> length es' \<le> max_items limit"
        using Cons.IH [of es1 n1] Cons.prems Inr Some q e by auto
      ultimately show ?thesis using step Inr Some q e by (intro exI [of _ "Suc c"]) auto
    qed
  qed (use Cons.prems e in auto)
qed simp

lemma scan_data_Inr:
  assumes laws: "engine_laws E V" "prefix_successor p = Some u" and items: "0 < max_items limit"
    and run: "scan_data E CK CV s p dir lower upper limit sp = Inr page" and L: "L = range_entries (V s) p dir lower upper"
  obtains c where "page_entries page = map (decoded CK CV sp) (take c L)" "\<forall>e \<in> set (take c L). decodes CK CV sp e"
    "continuation page = None \<Longrightarrow> length L \<le> c" "L \<noteq> [] \<Longrightarrow> 0 < c" "length (page_entries page) \<le> max_items limit"
proof -
  obtain es lim where loop: "page_loop CK CV limit sp L [] 0 = Inr (es, lim)" and fin: "finish_scan CK es lim None = Inr page"
    using scan_data_page_loop [OF laws, of CK CV s dir lower upper limit sp] run by (auto simp: L split: sum.splits)
  obtain c where c: "es = map (decoded CK CV sp) (take c L)" "\<forall>e \<in> set (take c L). decodes CK CV sp e" "lim \<longleftrightarrow> c < length L" "c \<le> length L" "length es \<le> max_items limit"
    using page_loop_Inr [OF loop] by auto
  have pos: "0 < c" if "L \<noteq> []"
  proof (rule ccontr)
    assume "\<not> 0 < c"
    with that obtain k v ms where "L = (k, v) # ms" by (cases L) auto
    then show False
      using loop c(1) \<open>\<not> 0 < c\<close> items
      by (auto simp: admit_entry_def Let_def split: if_splits option.splits sum.splits dest!: page_loop_Inr)
  qed
  have entries: "page_entries page = es" "continuation page = None \<Longrightarrow> \<not> lim \<or> es = []"
    using fin by (auto simp: finish_scan_def split: if_splits sum.splits)
  show thesis
  proof (rule that [of c])
    show "length L \<le> c" if "continuation page = None"
      using entries(2) [OF that] c pos by (cases "L = []") auto
  qed (use entries(1) c pos in auto)
qed

subsection \<open>Resuming a scan\<close>

lemma within_later_bound:
  "within_lower j (later_bound lower (Some (k, False))) \<longleftrightarrow> within_lower j lower \<and> k < j"
  by (cases lower) (auto simp: later_bound_def within_lower_iff cmp_bytes_def)

lemma within_earlier_bound:
  "within_upper j (earlier_bound upper (Some (k, False))) \<longleftrightarrow> within_upper j upper \<and> j < k"
  by (cases upper) (auto simp: earlier_bound_def within_upper_iff cmp_bytes_def)

lemma bound_None [simp]: "later_bound b None = b" "earlier_bound b None = b"
  by (cases b; simp add: later_bound_def earlier_bound_def)+

definition resumed_lower :: "scan_direction \<Rightarrow> encoded_bound option \<Rightarrow> bytes option \<Rightarrow> encoded_bound option" where
  "resumed_lower dir lower resume =
     (case dir of Ascending \<Rightarrow> later_bound lower (map_option (\<lambda>k. (k, False)) resume) | Descending \<Rightarrow> lower)"

definition resumed_upper :: "scan_direction \<Rightarrow> encoded_bound option \<Rightarrow> bytes option \<Rightarrow> encoded_bound option" where
  "resumed_upper dir upper resume =
     (case dir of Ascending \<Rightarrow> upper | Descending \<Rightarrow> earlier_bound upper (map_option (\<lambda>k. (k, False)) resume))"

lemma set_drop_conv: "set (drop c ks) = {ks ! i | i. c \<le> i \<and> i < length ks}"
  by (auto simp: in_set_conv_nth) (metis le_iff_add less_diff_conv add.commute nth_drop le_add_diff_inverse)+

lemma scan_sorted_drop:
  assumes "scan_sorted dir ks" and "0 < c" and "c \<le> length ks"
  shows "set (drop c ks) = {j \<in> set ks. if dir = Ascending then ks ! (c - 1) < j else j < ks ! (c - 1)}"
proof -
  have nth: "if dir = Ascending then ks ! a < ks ! b else ks ! b < ks ! a" if "a < b" "b < length ks" for a b
    using assms(1) that by (cases dir) (simp_all add: scan_sorted_def sorted_wrt_iff_nth_less)
  have later: "c \<le> b" if "b < length ks" "if dir = Ascending then ks ! (c - 1) < ks ! b else ks ! b < ks ! (c - 1)" for b
  proof (rule ccontr)
    assume "\<not> c \<le> b"
    then consider "b < c - 1" | "b = c - 1" by linarith
    moreover have "c - 1 < length ks" using assms(2,3) by simp
    ultimately show False using nth [of b "c - 1"] that by cases (auto split: if_splits)
  qed
  show ?thesis
  proof (intro equalityI subsetI)
    fix j
    assume "j \<in> set (drop c ks)"
    then obtain i where "j = ks ! i" "c \<le> i" "i < length ks" by (auto simp: set_drop_conv)
    then show "j \<in> {j \<in> set ks. if dir = Ascending then ks ! (c - 1) < j else j < ks ! (c - 1)}"
      using nth [of "c - 1" i] assms(2) by auto
  next
    fix j
    assume "j \<in> {j \<in> set ks. if dir = Ascending then ks ! (c - 1) < j else j < ks ! (c - 1)}"
    then obtain b where "b < length ks" "j = ks ! b"
      "if dir = Ascending then ks ! (c - 1) < ks ! b else ks ! b < ks ! (c - 1)"
      by (auto simp: in_set_conv_nth)
    then show "j \<in> set (drop c ks)" using later by (auto simp: set_drop_conv)
  qed
qed

text \<open>A scan that resumes after the last key of a page continues exactly behind that page.\<close>

lemma range_entries_resume:
  assumes fin: "finite (dom m)" and L: "L = range_entries m p dir lower upper"
    and c: "0 < c" "c \<le> length L"
  shows "range_entries m p dir (resumed_lower dir lower (Some (fst (L ! (c - 1)))))
      (resumed_upper dir upper (Some (fst (L ! (c - 1))))) = drop c L"
proof -
  let ?K = "{k. p @ k \<in> dom m \<and> in_range lower upper k}"
  let ?ks = "ordered_keys dir ?K"
  let ?k = "?ks ! (c - 1)"
  let ?lo = "resumed_lower dir lower (Some ?k)" and ?up = "resumed_upper dir upper (Some ?k)"
  have finK: "finite ?K"
  proof (rule finite_subset)
    show "?K \<subseteq> (\<lambda>k. drop (length p) k) ` dom m"
      by (auto simp: image_iff) (metis append_eq_conv_conj domI)
  qed (use fin in simp)
  have len: "length L = length ?ks" by (simp add: L range_entries_def)
  have key: "fst (L ! (c - 1)) = ?k" using c by (simp add: L range_entries_def len)
  have "{k. p @ k \<in> dom m \<and> in_range ?lo ?up k} = {k \<in> ?K. if dir = Ascending then ?k < k else k < ?k}"
    by (cases dir) (auto simp: resumed_lower_def resumed_upper_def in_range_def within_later_bound within_earlier_bound)
  also have "\<dots> = set (drop c ?ks)"
    using scan_sorted_drop [of dir ?ks c] c finK by (simp add: len)
  finally have "ordered_keys dir {k. p @ k \<in> dom m \<and> in_range ?lo ?up k} = drop c ?ks"
    by (intro scan_sorted_unique [of dir])
       (auto simp: scan_sorted_def ordered_keys_def sorted_wrt_rev sorted_wrt_drop split: scan_direction.split)
  then show ?thesis unfolding key unfolding L range_entries_def by (simp add: drop_map)
qed

section \<open>Emptiness inspection\<close>

lemma sorted_prefix_first:
  assumes "sorted_wrt (<) (k # ks)" "\<forall>j \<in> set (k # ks). seek \<le> j" "strip_prefix seek k = None"
  shows "\<forall>j \<in> set (k # ks). strip_prefix seek j = None"
proof (rule ballI)
  fix j
  assume j: "j \<in> set (k # ks)"
  show "strip_prefix seek j = None"
  proof (rule ccontr)
    assume "strip_prefix seek j \<noteq> None"
    then obtain r where "j = seek @ r" by (auto simp: strip_prefix_Some)
    moreover have "seek @ r < k" using assms by (intro beyond_prefix) auto
    moreover have "k \<le> j" using assms(1) j by auto
    ultimately show False by simp
  qed
qed

lemma namespace_is_empty_spec:
  assumes laws: "engine_laws E V" and succ: "prefix_successor p = Some u"
  shows "(\<exists>m. \<not> engine_reliable E \<and>
        namespace_is_empty E s p suffix excluded = Inl (Storage ''inspect data namespace'' m))
    \<or> namespace_is_empty E s p suffix excluded =
        Inr (\<forall>k. p @ suffix @ k \<in> dom (V s) \<longrightarrow> excluded = Some k)"
proof -
  define seek where "seek = p @ suffix"
  have seek: "(if suffix = [] then p else physical_key p suffix) = seek"
    by (simp add: seek_def physical_key_def)
  obtain it st where it: "raw_iterator E s None (Some u) Ascending seek = (it, st)" by fastforce
  obtain ys where vis: "visited (V s) None (Some u) Ascending seek = it @ ys" and st: "st = None \<Longrightarrow> ys = []"
    by (rule engine_iterate [OF laws it]) blast
  define ks where "ks = map fst (it @ ys)"
  have ks: "ks = ordered_keys Ascending {k \<in> dom (V s). within_iterate None (Some u) Ascending seek k}"
    unfolding ks_def vis [symmetric] by (simp add: visited_def)
  have sorted: "sorted_wrt (<) ks" using scan_sorted_ordered_keys [of Ascending] ks
    by (simp add: scan_sorted_def)
  have set: "set ks = {k \<in> dom (V s). k < u \<and> seek \<le> k}"
    using engine_finite [OF laws, of s] by (auto simp: ks within_iterate_def)
  have goal: "(\<forall>k. p @ suffix @ k \<in> dom (V s) \<longrightarrow> excluded = Some k) \<longleftrightarrow>
      (\<forall>x \<in> set ks. \<forall>k. strip_prefix seek x = Some k \<longrightarrow> excluded = Some k)"
    using prefix_successor_bound [OF succ] unfolding set
    by (auto simp: strip_prefix_Some seek_def) 
  let ?G = "\<forall>x \<in> set ks. \<forall>k. strip_prefix seek x = Some k \<longrightarrow> excluded = Some k"
  define it' where "it' = (case (excluded, it) of
      (Some x, (k, _) # rest) \<Rightarrow> if strip_prefix seek k = Some x then rest else it | _ \<Rightarrow> it)"
  have run: "namespace_is_empty E s p suffix excluded = (case (it', st) of
      ([], Some m) \<Rightarrow> Inl (Storage ''inspect data namespace'' m)
    | ([], None) \<Rightarrow> Inr True
    | ((k, _) # _, _) \<Rightarrow> Inr (strip_prefix seek k = None))"
    using it by (simp add: namespace_is_empty_def seek succ it'_def Let_def del: split_paired_All)
  have skipped: "it' = it \<and> (\<forall>k v r. it = (k, v) # r \<longrightarrow> strip_prefix seek k = None \<or> strip_prefix seek k \<noteq> excluded) \<or>
      (\<exists>k v x. it = (k, v) # it' \<and> strip_prefix seek k = Some x \<and> excluded = Some x)"
    unfolding it'_def by (cases excluded; cases it) (auto split: prod.splits)
  have empty: "?G" if "it' = []" "st = None"
    using skipped that st by (auto simp: ks_def)
  have first: "?G \<longleftrightarrow> strip_prefix seek k = None" if hd: "it' = (k, v) # r" for k v r
  proof -
    have low: "\<forall>j \<in> set ks. seek \<le> j" unfolding set by blast
    show ?thesis
    proof (cases "it' = it")
      case True
      then have kk: "ks = k # map fst (r @ ys)" using hd by (simp add: ks_def flip: True)
      have "strip_prefix seek k = None \<Longrightarrow> \<forall>j \<in> set ks. strip_prefix seek j = None"
        using sorted_prefix_first [of k "map fst (r @ ys)" seek] sorted low kk by metis
      moreover have "strip_prefix seek k = None \<or> strip_prefix seek k \<noteq> excluded"
        using skipped hd True by auto
      ultimately show ?thesis using kk by (metis list.set_intros(1) option.distinct(1) option.exhaust)
    next
      case False
      then obtain k0 v0 x where it0: "it = (k0, v0) # it'" "strip_prefix seek k0 = Some x" "excluded = Some x"
        using skipped by auto
      then have kk: "ks = k0 # k # map fst (r @ ys)" using hd by (simp add: ks_def)
      have tail: "strip_prefix seek k = None \<Longrightarrow> \<forall>j \<in> set (k # map fst (r @ ys)). strip_prefix seek j = None"
        using sorted_prefix_first [of k "map fst (r @ ys)" seek] sorted low kk by simp
      have "k0 < k" using sorted kk by simp
      then have "strip_prefix seek k \<noteq> Some x" using it0(2) by (auto simp: strip_prefix_Some)
      then show ?thesis using kk it0 tail by (cases "strip_prefix seek k") (auto simp del: set_map)
    qed
  qed
  show ?thesis
  proof (cases it')
    case Nil
    show ?thesis
    proof (cases st)
      case None
      with Nil empty goal run show ?thesis by simp
    next
      case (Some m)
      with Nil run engine_unreliable(4) it show ?thesis by fastforce
    qed
  next
    case (Cons e r)
    then obtain k v where kv: "it' = (k, v) # r" by (cases e) auto
    then have "namespace_is_empty E s p suffix excluded = Inr (strip_prefix seek k = None)"
      using run by (simp split: option.split)
    then show ?thesis using first [OF kv] goal by simp
  qed
qed

lemma wp_partition_is_empty [wp_intros]:
  assumes "engine_laws E V" "prefix_successor p = Some u" "\<not> ref_poisoned r"
    and "Q (\<forall>k. p @ suffix @ k \<in> dom (V (ref_view r)) \<longrightarrow> excluded = Some k) r"
    and "\<And>m. \<not> engine_reliable E \<Longrightarrow> R (Storage ''inspect data namespace'' m) (ref_poison r)"
  shows "wp (partition_is_empty E p suffix excluded) Q R r"
  using namespace_is_empty_spec [OF assms(1,2), of "ref_view r" suffix excluded] assms(3-5)
  by (auto simp: partition_is_empty_def)

lemma wp_is_physically_empty [wp_intros]:
  assumes "engine_laws E V" "prefix_successor p = Some u" "\<not> ref_poisoned r"
    and "Q (\<forall>k. p @ k \<notin> dom (V (ref_view r))) r"
    and "\<And>m. \<not> engine_reliable E \<Longrightarrow> R (Storage ''inspect data namespace'' m) (ref_poison r)"
  shows "wp (is_physically_empty E p) Q R r"
  unfolding is_physically_empty_def
  by (rule wp_partition_is_empty [OF assms(1,2,3)]) (use assms(4,5) in auto)

lemma wp_scan_key_suffix [wp_intros]:
  assumes "engine_laws E V" "prefix_successor p = Some u" "\<not> ref_poisoned r" "limit_ok limit"
    and "L = range_entries (V (ref_view r)) p dir (resumed_lower dir (encoded_bound_of lo) resume)
      (resumed_upper dir (encoded_bound_of up) resume)"
    and "\<forall>e \<in> set L. decodes CK CV sp e \<and> item_size e \<le> usize_max"
    and "\<And>bs k. decode_key CK bs = Inr k \<Longrightarrow> encode_key CK k = Inr bs"
    and "\<And>page. scan_result CK CV sp limit L = Inr page \<Longrightarrow> Q page r"
    and "\<And>n k. scan_result CK CV sp limit L = Inl (ItemTooLarge n k) \<Longrightarrow> R (ItemTooLarge n k) r"
    and "\<And>m. \<not> engine_reliable E \<Longrightarrow> R (Storage ''scan data'' m) (ref_poison r)"
  shows "wp (scan_key_suffix E CK CV p lo up dir resume limit sp) Q R r"
proof -
  let ?l = "resumed_lower dir (encoded_bound_of lo) resume" and ?u = "resumed_upper dir (encoded_bound_of up) resume"
  have "(\<exists>m. \<not> engine_reliable E \<and> scan_data E CK CV (ref_view r) p dir ?l ?u limit sp = Inl (Storage ''scan data'' m))
    \<or> scan_data E CK CV (ref_view r) p dir ?l ?u limit sp = scan_result CK CV sp limit L"
    unfolding assms(5)
    by (rule scan_data_spec [OF assms(1,2,4)]) (use assms(5-7) in auto)
  moreover have "scan_result CK CV sp limit L = Inl e \<Longrightarrow> \<exists>n k. e = ItemTooLarge n k" for e
    by (auto simp: scan_result_def Let_def split: if_splits)
  ultimately consider
    (fault) m where "\<not> engine_reliable E"
      "scan_data E CK CV (ref_view r) p dir ?l ?u limit sp = Inl (Storage ''scan data'' m)"
  | (large) n k where "scan_result CK CV sp limit L = Inl (ItemTooLarge n k)"
      "scan_data E CK CV (ref_view r) p dir ?l ?u limit sp = Inl (ItemTooLarge n k)"
  | (page) page where "scan_result CK CV sp limit L = Inr page"
      "scan_data E CK CV (ref_view r) p dir ?l ?u limit sp = Inr page"
    by (cases "scan_result CK CV sp limit L") fastforce+
  then show ?thesis
    using assms(3,8-10)
    by cases (simp_all add: scan_key_suffix_def resumed_lower_def resumed_upper_def Let_def)
qed

end
