(* ===== verification/Store_Collections.thy ===== *)
theory Store_Collections
  imports Store_Data
begin

text \<open>
  The typed collections of \<^verbatim>\<open>crates/store/src/collections\<close>: \<^verbatim>\<open>cell.rs\<close>, \<^verbatim>\<open>ordered_map.rs\<close>,
  \<^verbatim>\<open>partition.rs\<close> and \<^verbatim>\<open>weight.rs\<close>.

  An access is the prefix of the bound namespace; a partition view is that prefix and the encoded
  partition. Operations take the codecs of the type parameters as arguments. The lemmas state each
  operation against the typed contents of the namespace (\<open>map_view\<close>), show that the partition
  framing preserves the lexicographic order of partition and local key, and that weights behave
  as checked natural numbers.
\<close>

section \<open>Definitions\<close>

subsection \<open>Cells\<close>

definition CELL_KEY :: bytes where
  "CELL_KEY = []"

definition cell_get_bounded :: "'s engine \<Rightarrow> 'v store_value \<Rightarrow> bytes \<Rightarrow> nat \<Rightarrow> ('s, 'v option) read_op" where
  "cell_get_bounded E CV p n = get_bounded E CV p CELL_KEY n"

definition cell_get :: "'s engine \<Rightarrow> 'v store_value \<Rightarrow> bytes \<Rightarrow> ('s, 'v option) read_op" where
  "cell_get E CV p = cell_get_bounded E CV p usize_max"

definition cell_set :: "'s engine \<Rightarrow> 'v store_value \<Rightarrow> bytes \<Rightarrow> 'v \<Rightarrow> ('s, unit) write_op" where
  "cell_set E CV p v =
     sem_bind (as_read (ref_poison_on_error Codec (encode_value CV v))) (\<lambda>encoded.
       data_put E p CELL_KEY encoded)"

definition cell_clear :: "'s engine \<Rightarrow> bytes \<Rightarrow> ('s, bool) write_op" where
  "cell_clear E p = data_delete E p CELL_KEY"

subsection \<open>Ordered maps\<close>

definition map_get_bounded ::
  "'s engine \<Rightarrow> 'k store_key \<Rightarrow> 'v store_value \<Rightarrow> bytes \<Rightarrow> 'k \<Rightarrow> nat \<Rightarrow> ('s, 'v option) read_op" where
  "map_get_bounded E CK CV p k n =
     sem_bind (ref_poison_on_error Codec (encode_key CK k)) (\<lambda>key. get_bounded E CV p key n)"

definition map_get :: "'s engine \<Rightarrow> 'k store_key \<Rightarrow> 'v store_value \<Rightarrow> bytes \<Rightarrow> 'k \<Rightarrow> ('s, 'v option) read_op" where
  "map_get E CK CV p k = map_get_bounded E CK CV p k usize_max"

definition map_put :: "'s engine \<Rightarrow> 'k store_key \<Rightarrow> 'v store_value \<Rightarrow> bytes \<Rightarrow> 'k \<Rightarrow> 'v \<Rightarrow> ('s, unit) write_op" where
  "map_put E CK CV p k v =
     sem_bind (as_read (ref_poison_on_error Codec (encode_key CK k))) (\<lambda>key.
     sem_bind (as_read (ref_poison_on_error Codec (encode_value CV v))) (\<lambda>value.
       data_put E p key value))"

definition map_remove :: "'s engine \<Rightarrow> 'k store_key \<Rightarrow> bytes \<Rightarrow> 'k \<Rightarrow> ('s, bool) write_op" where
  "map_remove E CK p k =
     sem_bind (as_read (ref_poison_on_error Codec (encode_key CK k))) (\<lambda>key. data_delete E p key)"

definition map_erase :: "'s engine \<Rightarrow> 'k store_key \<Rightarrow> bytes \<Rightarrow> 'k \<Rightarrow> ('s, unit) write_op" where
  "map_erase E CK p k =
     sem_bind (as_read (ref_poison_on_error Codec (encode_key CK k))) (\<lambda>key. data_erase E p key)"

fun encode_bound :: "'k store_key \<Rightarrow> 'k bound \<Rightarrow> codec_error + bytes bound" where
  "encode_bound CK (Included k) = map_sum id Included (encode_key CK k)"
| "encode_bound CK (Excluded k) = map_sum id Excluded (encode_key CK k)"
| "encode_bound CK Unbounded = Inr Unbounded"

fun encode_resume :: "'k store_key \<Rightarrow> 'k option \<Rightarrow> codec_error + bytes option" where
  "encode_resume CK None = Inr None"
| "encode_resume CK (Some k) = map_sum id Some (encode_key CK k)"

definition map_scan ::
  "'s engine \<Rightarrow> 'k store_key \<Rightarrow> 'v store_value \<Rightarrow> bytes \<Rightarrow> 'k bound \<Rightarrow> 'k bound \<Rightarrow> scan_direction \<Rightarrow> 'k option
   \<Rightarrow> scan_limit \<Rightarrow> ('s, ('k, 'v) ordered_map_page) read_op" where
  "map_scan E CK CV p range_start range_end dir resume_after limit =
     sem_bind (ref_poison_on_error Codec (encode_bound CK range_start)) (\<lambda>lower.
     sem_bind (ref_poison_on_error Codec (encode_bound CK range_end)) (\<lambda>upper.
     sem_bind (ref_poison_on_error Codec (encode_resume CK resume_after)) (\<lambda>resume.
       data_scan E CK CV p lower upper dir resume limit)))"

subsection \<open>Partition keys\<close>

text \<open>A zero byte of the partition becomes \<open>0 255\<close>; \<open>0 0\<close> ends the partition.\<close>

fun escape_zero :: "bytes \<Rightarrow> bytes" where
  "escape_zero [] = []"
| "escape_zero (b # bs) = b # (if b = 0 then 0xFF # escape_zero bs else escape_zero bs)"

definition partition_prefix :: "'p store_key \<Rightarrow> 'p \<Rightarrow> codec_error + bytes" where
  "partition_prefix CP part =
     (case encode_key CP part of Inl e \<Rightarrow> Inl e | Inr bs \<Rightarrow> Inr (escape_zero bs @ [0, 0]))"

fun split_partition :: "bytes \<Rightarrow> bytes \<Rightarrow> codec_error + bytes \<times> bytes" where
  "split_partition [] part = Inl (CodecError ''partition key has no terminator'')"
| "split_partition (b # bs) part =
     (if b \<noteq> 0 then split_partition bs (part @ [b])
      else (case bs of
              [] \<Rightarrow> Inl (CodecError ''invalid partition key framing'')
            | c # cs \<Rightarrow>
                if c = 0xFF then split_partition cs (part @ [0])
                else if c = 0 then Inr (part, cs)
                else Inl (CodecError ''invalid partition key framing'')))"

definition partition_key :: "'p store_key \<Rightarrow> 'k store_key \<Rightarrow> ('p \<times> 'k) store_key" where
  "partition_key CP CK =
     \<lparr>encode_key = (\<lambda>(part, k).
        case partition_prefix CP part of
          Inl e \<Rightarrow> Inl e
        | Inr prefix \<Rightarrow> map_sum id (\<lambda>bs. prefix @ bs) (encode_key CK k)),
      decode_key = (\<lambda>bytes.
        case split_partition bytes [] of
          Inl e \<Rightarrow> Inl e
        | Inr (part, rest) \<Rightarrow>
            (case decode_key CP part of
               Inl e \<Rightarrow> Inl e
             | Inr p \<Rightarrow> map_sum id (\<lambda>k. (p, k)) (decode_key CK rest)))\<rparr>"

subsection \<open>Partition views\<close>

text \<open>\<open>pp\<close> is the encoded partition prefix inside the namespace \<open>p\<close>.\<close>

definition map_partition :: "'p store_key \<Rightarrow> 'p \<Rightarrow> ('s, bytes) read_op" where
  "map_partition CP part = ref_poison_on_error Codec (partition_prefix CP part)"

definition part_encode_key :: "'k store_key \<Rightarrow> bytes \<Rightarrow> 'k \<Rightarrow> ('s, bytes) read_op" where
  "part_encode_key CK pp k =
     sem_bind (ref_poison_on_error Codec (encode_key CK k)) (\<lambda>key. sem_return (pp @ key))"

definition part_is_empty :: "'s engine \<Rightarrow> bytes \<Rightarrow> bytes \<Rightarrow> ('s, bool) read_op" where
  "part_is_empty E p pp = partition_is_empty E p pp None"

definition part_has_other_key :: "'s engine \<Rightarrow> 'k store_key \<Rightarrow> bytes \<Rightarrow> bytes \<Rightarrow> 'k \<Rightarrow> ('s, bool) read_op" where
  "part_has_other_key E CK p pp k =
     sem_bind (ref_poison_on_error Codec (encode_key CK k)) (\<lambda>key.
     sem_bind (partition_is_empty E p pp (Some key)) (\<lambda>empty. sem_return (\<not> empty)))"

definition part_get_bounded ::
  "'s engine \<Rightarrow> 'k store_key \<Rightarrow> 'v store_value \<Rightarrow> bytes \<Rightarrow> bytes \<Rightarrow> 'k \<Rightarrow> nat \<Rightarrow> ('s, 'v option) read_op" where
  "part_get_bounded E CK CV p pp k n =
     sem_bind (part_encode_key CK pp k) (\<lambda>key. get_bounded E CV p key n)"

definition part_put ::
  "'s engine \<Rightarrow> 'k store_key \<Rightarrow> 'v store_value \<Rightarrow> bytes \<Rightarrow> bytes \<Rightarrow> 'k \<Rightarrow> 'v \<Rightarrow> ('s, unit) write_op" where
  "part_put E CK CV p pp k v =
     sem_bind (as_read (part_encode_key CK pp k)) (\<lambda>key.
     sem_bind (as_read (ref_poison_on_error Codec (encode_value CV v))) (\<lambda>value.
       data_put E p key value))"

definition part_erase :: "'s engine \<Rightarrow> 'k store_key \<Rightarrow> bytes \<Rightarrow> bytes \<Rightarrow> 'k \<Rightarrow> ('s, unit) write_op" where
  "part_erase E CK p pp k =
     sem_bind (as_read (part_encode_key CK pp k)) (\<lambda>key. data_erase E p key)"

text \<open>The end of a partition is its prefix with the last terminator byte raised to one.\<close>

definition scan_partition ::
  "'s engine \<Rightarrow> 'k store_key \<Rightarrow> 'v store_value \<Rightarrow> bytes \<Rightarrow> bytes \<Rightarrow> scan_direction \<Rightarrow> 'k option \<Rightarrow> scan_limit
   \<Rightarrow> ('s, ('k, 'v) ordered_map_page) read_op" where
  "scan_partition E CK CV p pp dir resume_after limit =
     (let upper = butlast pp @ [last pp + 1] in
      sem_bind (case resume_after of
                  None \<Rightarrow> sem_return None
                | Some k \<Rightarrow> sem_bind (part_encode_key CK pp k) (\<lambda>key. sem_return (Some key))) (\<lambda>resume.
        scan_key_suffix E CK CV p (Included pp) (Excluded upper) dir resume limit pp))"

definition part_endpoint ::
  "'s engine \<Rightarrow> 'k store_key \<Rightarrow> 'v store_value \<Rightarrow> bytes \<Rightarrow> bytes \<Rightarrow> scan_direction \<Rightarrow> nat \<Rightarrow> ('s, ('k \<times> 'v) option) read_op" where
  "part_endpoint E CK CV p pp dir n =
     sem_bind (sem_lift (scan_limit_new 1 n)) (\<lambda>limit.
     sem_bind (scan_partition E CK CV p pp dir None limit) (\<lambda>page.
       sem_return (if page_entries page = [] then None else Some (last (page_entries page)))))"

definition part_first_bounded ::
  "'s engine \<Rightarrow> 'k store_key \<Rightarrow> 'v store_value \<Rightarrow> bytes \<Rightarrow> bytes \<Rightarrow> nat \<Rightarrow> ('s, ('k \<times> 'v) option) read_op" where
  "part_first_bounded E CK CV p pp n = part_endpoint E CK CV p pp Ascending n"

definition part_last_bounded ::
  "'s engine \<Rightarrow> 'k store_key \<Rightarrow> 'v store_value \<Rightarrow> bytes \<Rightarrow> bytes \<Rightarrow> nat \<Rightarrow> ('s, ('k \<times> 'v) option) read_op" where
  "part_last_bounded E CK CV p pp n = part_endpoint E CK CV p pp Descending n"

subsection \<open>Weights\<close>

record multiplicity_change =
  before :: u64
  after :: u64

definition checked_weight :: "u64 \<Rightarrow> i64 \<Rightarrow> store_error + u64" where
  "checked_weight bef difference =
     (if 0 \<le> sint difference then
        (case checked_add_u64 bef (unsigned_abs difference) of
           None \<Rightarrow> Inl MultiplicityOverflow | Some w \<Rightarrow> Inr w)
      else
        (case checked_sub_u64 bef (unsigned_abs difference) of
           None \<Rightarrow> Inl MultiplicityUnderflow | Some w \<Rightarrow> Inr w))"

definition read_weight :: "'s engine \<Rightarrow> bytes \<Rightarrow> bytes \<Rightarrow> ('s, u64) read_op" where
  "read_weight E p key =
     sem_try (get_bounded E nonzero_value p key 8) (\<lambda>res.
       case res of
         Inl (ItemTooLarge _ _) \<Rightarrow>
           ref_poison_on_error id (Inl (Codec (CodecError ''positive weight is not eight bytes'')))
       | Inl e \<Rightarrow> sem_throw e
       | Inr value \<Rightarrow> sem_return (case value of None \<Rightarrow> 0 | Some w \<Rightarrow> w))"

definition set_encoded :: "'s engine \<Rightarrow> bytes \<Rightarrow> bytes \<Rightarrow> u64 \<Rightarrow> ('s, unit) write_op" where
  "set_encoded E p key weight =
     (if weight = 0 then data_erase E p key else data_put E p key (u64_to_be weight))"

definition adjust_encoded :: "'s engine \<Rightarrow> bytes \<Rightarrow> bytes \<Rightarrow> i64 \<Rightarrow> ('s, multiplicity_change) write_op" where
  "adjust_encoded E p key difference =
     sem_bind (as_read (read_weight E p key)) (\<lambda>bef.
     sem_bind (as_read (ref_poison_on_error id (checked_weight bef difference))) (\<lambda>aft.
     sem_bind (if bef \<noteq> aft then set_encoded E p key aft else sem_return ()) (\<lambda>_.
       sem_return \<lparr>before = bef, after = aft\<rparr>)))"

definition map_multiplicity :: "'s engine \<Rightarrow> 'k store_key \<Rightarrow> bytes \<Rightarrow> 'k \<Rightarrow> ('s, u64) read_op" where
  "map_multiplicity E CK p k =
     sem_bind (ref_poison_on_error Codec (encode_key CK k)) (\<lambda>key. read_weight E p key)"

definition map_adjust :: "'s engine \<Rightarrow> 'k store_key \<Rightarrow> bytes \<Rightarrow> 'k \<Rightarrow> i64 \<Rightarrow> ('s, multiplicity_change) write_op" where
  "map_adjust E CK p k difference =
     sem_bind (as_read (ref_poison_on_error Codec (encode_key CK k))) (\<lambda>key. adjust_encoded E p key difference)"

definition map_set_multiplicity :: "'s engine \<Rightarrow> 'k store_key \<Rightarrow> bytes \<Rightarrow> 'k \<Rightarrow> u64 \<Rightarrow> ('s, unit) write_op" where
  "map_set_multiplicity E CK p k weight =
     sem_bind (as_read (ref_poison_on_error Codec (encode_key CK k))) (\<lambda>key. set_encoded E p key weight)"

definition part_multiplicity :: "'s engine \<Rightarrow> 'k store_key \<Rightarrow> bytes \<Rightarrow> bytes \<Rightarrow> 'k \<Rightarrow> ('s, u64) read_op" where
  "part_multiplicity E CK p pp k = sem_bind (part_encode_key CK pp k) (\<lambda>key. read_weight E p key)"

definition part_adjust ::
  "'s engine \<Rightarrow> 'k store_key \<Rightarrow> bytes \<Rightarrow> bytes \<Rightarrow> 'k \<Rightarrow> i64 \<Rightarrow> ('s, multiplicity_change) write_op" where
  "part_adjust E CK p pp k difference =
     sem_bind (as_read (part_encode_key CK pp k)) (\<lambda>key. adjust_encoded E p key difference)"

definition part_set_multiplicity ::
  "'s engine \<Rightarrow> 'k store_key \<Rightarrow> bytes \<Rightarrow> bytes \<Rightarrow> 'k \<Rightarrow> u64 \<Rightarrow> ('s, unit) write_op" where
  "part_set_multiplicity E CK p pp k weight =
     sem_bind (as_read (part_encode_key CK pp k)) (\<lambda>key. set_encoded E p key weight)"

section \<open>Partition framing\<close>

text \<open>
  Order of the framed encoding: the terminator \<open>0 0\<close> sorts before an escaped zero \<open>0 255\<close>, so the
  framing of a proper prefix comes first, whatever follows it.
\<close>

lemma split_partition_escape:
  "split_partition (escape_zero bs @ 0 # 0 # rest) part = Inr (part @ bs, rest)"
  by (induction bs arbitrary: part) auto

lemma split_partition_Inr:
  "split_partition bs part = Inr (q, rest) \<Longrightarrow> \<exists>r. q = part @ r \<and> bs = escape_zero r @ 0 # 0 # rest"
proof (induction bs part rule: split_partition.induct)
  case (1 part)
  then show ?case by simp
next
  case (2 b bs part)
  show ?case
  proof (cases "b = 0")
    case False
    with 2 obtain r where "q = (part @ [b]) @ r" "bs = escape_zero r @ 0 # 0 # rest" by auto
    with False show ?thesis by (intro exI [of _ "b # r"]) simp
  next
    case zero: True
    with 2 obtain c cs where bs: "bs = c # cs" by (cases bs) auto
    show ?thesis
    proof (cases "c = 0xFF")
      case True
      with 2 zero bs obtain r where "q = (part @ [0]) @ r" "cs = escape_zero r @ 0 # 0 # rest" by auto
      with True zero bs show ?thesis by (intro exI [of _ "0 # r"]) simp
    next
      case False
      with 2 zero bs show ?thesis by (auto split: if_splits)
    qed
  qed
qed

lemma escape_zero_inject: "escape_zero a = escape_zero b \<longleftrightarrow> a = b"
proof
  assume "escape_zero a = escape_zero b"
  then have "split_partition (escape_zero a @ 0 # 0 # []) [] = split_partition (escape_zero b @ 0 # 0 # []) []"
    by simp
  then show "a = b" by (simp only: split_partition_escape) simp
qed simp

lemma framed_less_iff:
  "escape_zero a @ 0 # 0 # x < escape_zero b @ 0 # 0 # y \<longleftrightarrow> a < b \<or> (a = b \<and> x < (y :: bytes))"
proof (induction a arbitrary: b)
  case Nil
  show ?case
  proof (cases b)
    case (Cons c cs)
    have "(0 :: byte) < c \<or> c = 0" using word_neq_0_conv [of c] by auto
    with Cons show ?thesis by auto
  qed simp
next
  case (Cons a as)
  have "(0 :: byte) < a \<or> a = 0" using word_neq_0_conv [of a] by auto
  with Cons show ?case by (cases b) auto
qed

lemma map_sum_Inr_iff: "map_sum f g s = Inr y \<longleftrightarrow> (\<exists>x. s = Inr x \<and> y = g x)"
  by (cases s) auto

lemma encode_partition_key:
  "encode_key (partition_key CP CK) (part, k) = Inr bs \<longleftrightarrow>
     (\<exists>x y. encode_key CP part = Inr x \<and> encode_key CK k = Inr y \<and> bs = escape_zero x @ 0 # 0 # y)"
  by (cases "encode_key CP part"; cases "encode_key CK k") (auto simp: partition_key_def partition_prefix_def)

lemma decode_partition_key:
  "decode_key (partition_key CP CK) bs = Inr (part, k) \<longleftrightarrow>
     (\<exists>x y. decode_key CP x = Inr part \<and> decode_key CK y = Inr k \<and> bs = escape_zero x @ 0 # 0 # y)"
proof
  assume "decode_key (partition_key CP CK) bs = Inr (part, k)"
  then obtain x y where "split_partition bs [] = Inr (x, y)" "decode_key CP x = Inr part" "decode_key CK y = Inr k"
    by (auto simp: partition_key_def map_sum_Inr_iff split: sum.splits)
  then show "\<exists>x y. decode_key CP x = Inr part \<and> decode_key CK y = Inr k \<and> bs = escape_zero x @ 0 # 0 # y"
    using split_partition_Inr [of bs "[]" x y] by auto
next
  assume "\<exists>x y. decode_key CP x = Inr part \<and> decode_key CK y = Inr k \<and> bs = escape_zero x @ 0 # 0 # y"
  then show "decode_key (partition_key CP CK) bs = Inr (part, k)"
    by (auto simp: partition_key_def split_partition_escape)
qed

text \<open>The contract of the parts gives the contract of the framed pair.\<close>

locale partition_key_contract =
  part: store_key_contract valid_part lt_part CP + loc: store_key_contract valid_local lt_local CK
  for valid_part :: "'p \<Rightarrow> bool" and lt_part and CP :: "'p store_key"
    and valid_local :: "'k \<Rightarrow> bool" and lt_local and CK :: "'k store_key"

sublocale partition_key_contract \<subseteq> pair: store_key_contract
  "\<lambda>(p, k). valid_part p \<and> valid_local k"
  "\<lambda>(p, k) (q, l). lt_part p q \<or> (p = q \<and> lt_local k l)"
  "partition_key CP CK"
proof (unfold_locales, goal_cases)
  case (1 pk)
  then show ?case using part.key_total loc.key_total
    by (cases pk) (fastforce simp: encode_partition_key)
next
  case (2 pk bs)
  then show ?case using part.key_roundtrip loc.key_roundtrip
    by (cases pk) (fastforce simp: encode_partition_key decode_partition_key)
next
  case (3 bs pk)
  then show ?case using part.key_canonical loc.key_canonical
    by (cases pk) (fastforce simp: encode_partition_key decode_partition_key)
next
  case (4 pk ql bs cs)
  obtain p k q l where pk: "pk = (p, k)" "ql = (q, l)" by fastforce
  with 4 obtain x y z w where enc: "encode_key CP p = Inr x" "encode_key CK k = Inr y"
      "encode_key CP q = Inr z" "encode_key CK l = Inr w"
      "bs = escape_zero x @ 0 # 0 # y" "cs = escape_zero z @ 0 # 0 # w"
    by (auto simp: encode_partition_key)
  have "x < z \<longleftrightarrow> lt_part p q" "y < w \<longleftrightarrow> lt_local k l" "x = z \<longleftrightarrow> p = q"
    using 4 pk enc part.key_order loc.key_order part.key_inject by auto
  then show ?case by (simp add: pk enc framed_less_iff)
qed

text \<open>The join indexes of the program use byte strings as partition and as local key.\<close>

interpretation bytes_partition: partition_key_contract "\<lambda>_. True" "(<)" vec_key "\<lambda>_. True" "(<)" vec_key
  by unfold_locales

section \<open>Poisoning and write tracking\<close>

text \<open>
  Every operation respects the transaction contract: it poisons exactly on an error other than the
  capacity errors, and records every write. \<open>part_endpoint\<close> is the exception among the reads:
  a zero byte bound is refused before the transaction is consulted.
\<close>

lemma keeps_ref_cell_get_bounded [poison_intros]: "keeps_ref (cell_get_bounded E CV p n)"
  unfolding cell_get_bounded_def Let_def by (intro poison_intros)

lemma poison_ok_cell_get_bounded [poison_intros]: "poison_ok ref_poisoned (cell_get_bounded E CV p n)"
  unfolding cell_get_bounded_def Let_def by (intro poison_intros)

lemma keeps_ref_cell_get [poison_intros]: "keeps_ref (cell_get E CV p)"
  unfolding cell_get_def Let_def by (intro poison_intros)

lemma poison_ok_cell_get [poison_intros]: "poison_ok ref_poisoned (cell_get E CV p)"
  unfolding cell_get_def Let_def by (intro poison_intros)

lemma keeps_ref_map_get_bounded [poison_intros]: "keeps_ref (map_get_bounded E CK CV p k n)"
  unfolding map_get_bounded_def Let_def by (intro poison_intros)

lemma poison_ok_map_get_bounded [poison_intros]: "poison_ok ref_poisoned (map_get_bounded E CK CV p k n)"
  unfolding map_get_bounded_def Let_def by (intro poison_intros)

lemma keeps_ref_map_get [poison_intros]: "keeps_ref (map_get E CK CV p k)"
  unfolding map_get_def Let_def by (intro poison_intros)

lemma poison_ok_map_get [poison_intros]: "poison_ok ref_poisoned (map_get E CK CV p k)"
  unfolding map_get_def Let_def by (intro poison_intros)

lemma keeps_ref_map_scan [poison_intros]: "keeps_ref (map_scan E CK CV p a b d res lim)"
  unfolding map_scan_def Let_def by (intro poison_intros)

lemma poison_ok_map_scan [poison_intros]: "poison_ok ref_poisoned (map_scan E CK CV p a b d res lim)"
  unfolding map_scan_def Let_def by (intro poison_intros)

lemma keeps_ref_map_partition [poison_intros]: "keeps_ref (map_partition CP part)"
  unfolding map_partition_def Let_def by (intro poison_intros)

lemma poison_ok_map_partition [poison_intros]: "poison_ok ref_poisoned (map_partition CP part)"
  unfolding map_partition_def Let_def by (intro poison_intros)

lemma keeps_ref_part_encode_key [poison_intros]: "keeps_ref (part_encode_key CK pp k)"
  unfolding part_encode_key_def Let_def by (intro poison_intros)

lemma poison_ok_part_encode_key [poison_intros]: "poison_ok ref_poisoned (part_encode_key CK pp k)"
  unfolding part_encode_key_def Let_def by (intro poison_intros)

lemma keeps_ref_part_is_empty [poison_intros]: "keeps_ref (part_is_empty E p pp)"
  unfolding part_is_empty_def Let_def by (intro poison_intros)

lemma poison_ok_part_is_empty [poison_intros]: "poison_ok ref_poisoned (part_is_empty E p pp)"
  unfolding part_is_empty_def Let_def by (intro poison_intros)

lemma keeps_ref_part_has_other_key [poison_intros]: "keeps_ref (part_has_other_key E CK p pp k)"
  unfolding part_has_other_key_def Let_def by (intro poison_intros)

lemma poison_ok_part_has_other_key [poison_intros]: "poison_ok ref_poisoned (part_has_other_key E CK p pp k)"
  unfolding part_has_other_key_def Let_def by (intro poison_intros)

lemma keeps_ref_part_get_bounded [poison_intros]: "keeps_ref (part_get_bounded E CK CV p pp k n)"
  unfolding part_get_bounded_def Let_def by (intro poison_intros)

lemma poison_ok_part_get_bounded [poison_intros]: "poison_ok ref_poisoned (part_get_bounded E CK CV p pp k n)"
  unfolding part_get_bounded_def Let_def by (intro poison_intros)

lemma keeps_ref_scan_partition [poison_intros]: "keeps_ref (scan_partition E CK CV p pp d res lim)"
  unfolding scan_partition_def Let_def by (intro poison_intros)

lemma poison_ok_scan_partition [poison_intros]: "poison_ok ref_poisoned (scan_partition E CK CV p pp d res lim)"
  unfolding scan_partition_def Let_def by (intro poison_intros)

lemma keeps_ref_read_weight [poison_intros]: "keeps_ref (read_weight E p k)"
  unfolding read_weight_def
  by (intro poison_intros) (auto split: sum.splits store_error.splits intro!: poison_intros)

lemma poison_ok_read_weight [poison_intros]: "poison_ok ref_poisoned (read_weight E p k)"
  unfolding read_weight_def
proof (rule poison_ok_try, goal_cases)
  case (3 e)
  show ?case by (cases e) (auto intro!: poison_intros poison_ok_ref_poison_on_error)
qed (auto intro!: poison_intros)

lemma keeps_ref_map_multiplicity [poison_intros]: "keeps_ref (map_multiplicity E CK p k)"
  unfolding map_multiplicity_def Let_def by (intro poison_intros)

lemma poison_ok_map_multiplicity [poison_intros]: "poison_ok ref_poisoned (map_multiplicity E CK p k)"
  unfolding map_multiplicity_def Let_def by (intro poison_intros)

lemma keeps_ref_part_multiplicity [poison_intros]: "keeps_ref (part_multiplicity E CK p pp k)"
  unfolding part_multiplicity_def Let_def by (intro poison_intros)

lemma poison_ok_part_multiplicity [poison_intros]: "poison_ok ref_poisoned (part_multiplicity E CK p pp k)"
  unfolding part_multiplicity_def Let_def by (intro poison_intros)

lemma poison_ok_cell_set [poison_intros]: "poison_ok poisoned (cell_set E CV p v)"
  unfolding cell_set_def by (intro poison_intros)

lemma tracks_writes_cell_set [poison_intros]: "tracks_writes (cell_set E CV p v)"
  unfolding cell_set_def by (intro poison_intros)

lemma poison_ok_cell_clear [poison_intros]: "poison_ok poisoned (cell_clear E p)"
  unfolding cell_clear_def by (intro poison_intros)

lemma tracks_writes_cell_clear [poison_intros]: "tracks_writes (cell_clear E p)"
  unfolding cell_clear_def by (intro poison_intros)

lemma poison_ok_map_put [poison_intros]: "poison_ok poisoned (map_put E CK CV p k v)"
  unfolding map_put_def by (intro poison_intros)

lemma tracks_writes_map_put [poison_intros]: "tracks_writes (map_put E CK CV p k v)"
  unfolding map_put_def by (intro poison_intros)

lemma poison_ok_map_remove [poison_intros]: "poison_ok poisoned (map_remove E CK p k)"
  unfolding map_remove_def by (intro poison_intros)

lemma tracks_writes_map_remove [poison_intros]: "tracks_writes (map_remove E CK p k)"
  unfolding map_remove_def by (intro poison_intros)

lemma poison_ok_map_erase [poison_intros]: "poison_ok poisoned (map_erase E CK p k)"
  unfolding map_erase_def by (intro poison_intros)

lemma tracks_writes_map_erase [poison_intros]: "tracks_writes (map_erase E CK p k)"
  unfolding map_erase_def by (intro poison_intros)

lemma poison_ok_part_put [poison_intros]: "poison_ok poisoned (part_put E CK CV p pp k v)"
  unfolding part_put_def by (intro poison_intros)

lemma tracks_writes_part_put [poison_intros]: "tracks_writes (part_put E CK CV p pp k v)"
  unfolding part_put_def by (intro poison_intros)

lemma poison_ok_part_erase [poison_intros]: "poison_ok poisoned (part_erase E CK p pp k)"
  unfolding part_erase_def by (intro poison_intros)

lemma tracks_writes_part_erase [poison_intros]: "tracks_writes (part_erase E CK p pp k)"
  unfolding part_erase_def by (intro poison_intros)

lemma poison_ok_set_encoded [poison_intros]: "poison_ok poisoned (set_encoded E p k w)"
  unfolding set_encoded_def by (intro poison_intros)

lemma tracks_writes_set_encoded [poison_intros]: "tracks_writes (set_encoded E p k w)"
  unfolding set_encoded_def by (intro poison_intros)

lemma poison_ok_checked_weight [poison_intros]:
  "poison_ok ref_poisoned (ref_poison_on_error id (checked_weight w d))"
  by (rule poison_ok_ref_poison_on_error) (auto simp: checked_weight_def split: if_splits option.splits)

lemma poison_ok_adjust_encoded [poison_intros]: "poison_ok poisoned (adjust_encoded E p k d)"
  unfolding adjust_encoded_def by (intro poison_intros)

lemma tracks_writes_adjust_encoded [poison_intros]: "tracks_writes (adjust_encoded E p k d)"
  unfolding adjust_encoded_def by (intro poison_intros)

lemma poison_ok_map_adjust [poison_intros]: "poison_ok poisoned (map_adjust E CK p k d)"
  unfolding map_adjust_def by (intro poison_intros)

lemma tracks_writes_map_adjust [poison_intros]: "tracks_writes (map_adjust E CK p k d)"
  unfolding map_adjust_def by (intro poison_intros)

lemma poison_ok_map_set_multiplicity [poison_intros]: "poison_ok poisoned (map_set_multiplicity E CK p k w)"
  unfolding map_set_multiplicity_def by (intro poison_intros)

lemma tracks_writes_map_set_multiplicity [poison_intros]: "tracks_writes (map_set_multiplicity E CK p k w)"
  unfolding map_set_multiplicity_def by (intro poison_intros)

lemma poison_ok_part_adjust [poison_intros]: "poison_ok poisoned (part_adjust E CK p pp k d)"
  unfolding part_adjust_def by (intro poison_intros)

lemma tracks_writes_part_adjust [poison_intros]: "tracks_writes (part_adjust E CK p pp k d)"
  unfolding part_adjust_def by (intro poison_intros)

lemma poison_ok_part_set_multiplicity [poison_intros]: "poison_ok poisoned (part_set_multiplicity E CK p pp k w)"
  unfolding part_set_multiplicity_def by (intro poison_intros)

lemma tracks_writes_part_set_multiplicity [poison_intros]: "tracks_writes (part_set_multiplicity E CK p pp k w)"
  unfolding part_set_multiplicity_def by (intro poison_intros)

section \<open>Typed reads and writes\<close>

text \<open>
  Weakest preconditions of the map operations for keys and values that encode, against the raw
  contents of the namespace. The only failures left are engine faults and, for a read, the
  byte bound and a stored value that does not decode.
\<close>

lemma wp_map_get_bounded [wp_intros]:
  assumes "engine_laws E V" "\<not> ref_poisoned r" "encode_key CK k = Inr key"
    and "\<And>v. decode_bounded_value CV (V (ref_view r) (p @ key)) n = Inr v \<Longrightarrow> Q v r"
    and "\<And>e. decode_bounded_value CV (V (ref_view r) (p @ key)) n = Inl e
      \<Longrightarrow> R e (if poisons_transaction e then ref_poison r else r)"
    and "\<And>m. \<not> engine_reliable E \<Longrightarrow> R (Storage ''read bounded data'' m) (ref_poison r)"
  shows "wp (map_get_bounded E CK CV p k n) Q R r"
  unfolding map_get_bounded_def wp_bind by (simp add: assms(3)) (rule wp_get_bounded; fact assms)

lemma wp_map_put [wp_intros]:
  assumes "engine_laws E V" "\<not> poisoned t" "encode_key CK k = Inr key" "encode_value CV v = Inr bs"
    and "\<And>s. V s = (V (inner t))(p @ key \<mapsto> bs) \<Longrightarrow> Q () (t\<lparr>inner := s, has_writes := True\<rparr>)"
    and "\<And>m. \<not> engine_reliable E \<Longrightarrow> R (Storage ''write data'' m) (t\<lparr>poisoned := True\<rparr>)"
  shows "wp (map_put E CK CV p k v) Q R t"
  using assms wp_data_put [OF assms(1,2)] by (simp add: map_put_def)

lemma wp_map_erase [wp_intros]:
  assumes "engine_laws E V" "\<not> poisoned t" "encode_key CK k = Inr key"
    and "\<And>s. V s = (V (inner t))(p @ key := None) \<Longrightarrow> Q () (t\<lparr>inner := s, has_writes := True\<rparr>)"
    and "\<And>m. \<not> engine_reliable E \<Longrightarrow> R (Storage ''delete data'' m) (t\<lparr>poisoned := True\<rparr>)"
  shows "wp (map_erase E CK p k) Q R t"
  using assms wp_data_erase [OF assms(1,2)] by (simp add: map_erase_def)

lemma wp_map_remove [wp_intros]:
  assumes "engine_laws E V" "\<not> poisoned t" "encode_key CK k = Inr key"
    and "V (inner t) (p @ key) = None \<Longrightarrow> Q False t"
    and "\<And>s. V (inner t) (p @ key) \<noteq> None \<Longrightarrow> V s = (V (inner t))(p @ key := None) \<Longrightarrow>
      Q True (t\<lparr>inner := s, has_writes := True\<rparr>)"
    and "\<And>op m. \<not> engine_reliable E \<Longrightarrow> R (Storage op m) (t\<lparr>poisoned := True\<rparr>)"
  shows "wp (map_remove E CK p k) Q R t"
  using assms wp_data_delete [OF assms(1,2)] by (simp add: map_remove_def)

section \<open>Weights\<close>

text \<open>The weight a stored value stands for; a value that is not a positive weight is corrupt.\<close>

definition stored_weight :: "bytes option \<Rightarrow> u64 option" where
  "stored_weight stored = (case stored of None \<Rightarrow> Some 0
     | Some bs \<Rightarrow> if length bs = 8 \<and> u64_from_be bs \<noteq> 0 then Some (u64_from_be bs) else None)"

definition weight_bytes :: "u64 \<Rightarrow> bytes option" where
  "weight_bytes w = (if w = 0 then None else Some (u64_to_be w))"

lemma stored_weight_bytes [simp]: "stored_weight (weight_bytes w) = Some w"
  by (simp add: stored_weight_def weight_bytes_def)

lemma stored_weight_Some_iff: "stored_weight stored = Some w \<longleftrightarrow> stored = weight_bytes w"
  by (auto simp: stored_weight_def weight_bytes_def u64_to_from_be split: option.splits if_splits)

text \<open>\<open>checked_weight\<close> is integer addition, refused exactly when the sum is not a \<^verbatim>\<open>u64\<close>.\<close>

lemma checked_weight_split:
  obtains (ok) a where "checked_weight w d = Inr a" "int (unat a) = int (unat w) + sint d"
  | (over) "checked_weight w d = Inl MultiplicityOverflow" "2 ^ 64 \<le> int (unat w) + sint d"
  | (under) "checked_weight w d = Inl MultiplicityUnderflow" "int (unat w) + sint d < 0"
proof (cases "0 \<le> sint d")
  case True
  then have abs: "int (unat (unsigned_abs d)) = sint d" by (simp add: unat_unsigned_abs del: of_nat_unat)
  show thesis
  proof (cases "checked_add_u64 w (unsigned_abs d)")
    case None
    then have "2 ^ 64 \<le> unat w + unat (unsigned_abs d)" by (simp add: checked_add_u64_None)
    with True abs None show thesis
      by (intro over) (simp_all add: checked_weight_def del: of_nat_unat)
  next
    case (Some a)
    then have "unat a = unat w + unat (unsigned_abs d)" by (simp add: checked_add_u64_Some)
    with True abs Some show thesis
      by (intro ok [of a]) (simp_all add: checked_weight_def del: of_nat_unat)
  qed
next
  case False
  then have abs: "int (unat (unsigned_abs d)) = - sint d" by (simp add: unat_unsigned_abs del: of_nat_unat)
  show thesis
  proof (cases "checked_sub_u64 w (unsigned_abs d)")
    case None
    then have "unat w < unat (unsigned_abs d)" by (simp add: checked_sub_u64_None)
    with False abs None show thesis
      by (intro under) (simp_all add: checked_weight_def del: of_nat_unat)
  next
    case (Some a)
    then have "unat w = unat (unsigned_abs d) + unat a" by (simp add: checked_sub_u64_Some)
    with False abs Some show thesis
      by (intro ok [of a]) (simp_all add: checked_weight_def del: of_nat_unat)
  qed
qed

lemma wp_read_weight [wp_intros]:
  assumes "engine_laws E V" "\<not> ref_poisoned r"
    and "\<And>w. stored_weight (V (ref_view r) (p @ k)) = Some w \<Longrightarrow> Q w r"
    and "\<And>c. stored_weight (V (ref_view r) (p @ k)) = None \<Longrightarrow> R (Codec c) (ref_poison r)"
    and "\<And>m. \<not> engine_reliable E \<Longrightarrow> R (Storage ''read bounded data'' m) (ref_poison r)"
  shows "wp (read_weight E p k) Q R r"
  unfolding read_weight_def wp_try
  by (rule wp_get_bounded [OF assms(1,2)])
    (use assms(3-5) in \<open>auto simp: decode_bounded_value_def nonzero_value_def u64_value_def stored_weight_def
      split: option.splits if_splits sum.splits\<close>)

lemma wp_set_encoded [wp_intros]:
  assumes "engine_laws E V" "\<not> poisoned t"
    and "\<And>s. V s = (V (inner t))(p @ k := weight_bytes w) \<Longrightarrow> Q () (t\<lparr>inner := s, has_writes := True\<rparr>)"
    and "\<And>op m. \<not> engine_reliable E \<Longrightarrow> R (Storage op m) (t\<lparr>poisoned := True\<rparr>)"
  shows "wp (set_encoded E p k w) Q R t"
  unfolding set_encoded_def
  by (cases "w = 0")
    (auto intro!: wp_data_erase [OF assms(1,2)] wp_data_put [OF assms(1,2)] assms(3,4) simp: weight_bytes_def)

lemma wp_adjust_encoded [wp_intros]:
  assumes laws: "engine_laws E V" and healthy: "\<not> poisoned t"
    and stored: "stored_weight (V (inner t) (p @ k)) = Some w"
    and ok: "\<And>a s. int (unat a) = int (unat w) + sint d \<Longrightarrow> V s = (V (inner t))(p @ k := weight_bytes a) \<Longrightarrow>
      Q \<lparr>before = w, after = a\<rparr> (t\<lparr>inner := s, has_writes := has_writes t \<or> w \<noteq> a\<rparr>)"
    and over: "2 ^ 64 \<le> int (unat w) + sint d \<Longrightarrow> R MultiplicityOverflow (t\<lparr>poisoned := True\<rparr>)"
    and under: "int (unat w) + sint d < 0 \<Longrightarrow> R MultiplicityUnderflow (t\<lparr>poisoned := True\<rparr>)"
    and err: "\<And>op m. \<not> engine_reliable E \<Longrightarrow> R (Storage op m) (t\<lparr>poisoned := True\<rparr>)"
  shows "wp (adjust_encoded E p k d) Q R t"
proof (cases rule: checked_weight_split [of w d])
  case (ok a)
  have same: "(V (inner t))(p @ k := weight_bytes w) = V (inner t)"
    using stored by (simp add: stored_weight_Some_iff fun_upd_idem)
  have "wp (if w \<noteq> a then set_encoded E p k a else sem_return ())
      (\<lambda>_. wp (sem_return \<lparr>before = w, after = a\<rparr>) Q R) R t"
    using assms(4) [of a] ok(2) err healthy same
    by (cases "w = a") (force intro!: wp_set_encoded [OF laws])+
  then show ?thesis
    using ok err healthy stored
    by (auto simp: adjust_encoded_def intro!: wp_read_weight [OF laws])
next
  case over
  then show ?thesis
    using assms(5) err healthy stored
    by (auto simp: adjust_encoded_def intro!: wp_read_weight [OF laws])
next
  case under
  then show ?thesis
    using assms(6) err healthy stored
    by (auto simp: adjust_encoded_def intro!: wp_read_weight [OF laws])
qed

lemma wp_map_adjust [wp_intros]:
  assumes "engine_laws E V" "\<not> poisoned t" "encode_key CK k = Inr key"
    and "stored_weight (V (inner t) (p @ key)) = Some w"
    and "\<And>a s. int (unat a) = int (unat w) + sint d \<Longrightarrow> V s = (V (inner t))(p @ key := weight_bytes a) \<Longrightarrow>
      Q \<lparr>before = w, after = a\<rparr> (t\<lparr>inner := s, has_writes := has_writes t \<or> w \<noteq> a\<rparr>)"
    and "2 ^ 64 \<le> int (unat w) + sint d \<Longrightarrow> R MultiplicityOverflow (t\<lparr>poisoned := True\<rparr>)"
    and "int (unat w) + sint d < 0 \<Longrightarrow> R MultiplicityUnderflow (t\<lparr>poisoned := True\<rparr>)"
    and "\<And>op m. \<not> engine_reliable E \<Longrightarrow> R (Storage op m) (t\<lparr>poisoned := True\<rparr>)"
  shows "wp (map_adjust E CK p k d) Q R t"
  using wp_adjust_encoded [OF assms(1,2,4), of d Q R] assms(3,5-8)
  by (simp add: map_adjust_def)

lemma wp_map_multiplicity [wp_intros]:
  assumes "engine_laws E V" "\<not> ref_poisoned r" "encode_key CK k = Inr key"
    and "\<And>w. stored_weight (V (ref_view r) (p @ key)) = Some w \<Longrightarrow> Q w r"
    and "\<And>c. stored_weight (V (ref_view r) (p @ key)) = None \<Longrightarrow> R (Codec c) (ref_poison r)"
    and "\<And>m. \<not> engine_reliable E \<Longrightarrow> R (Storage ''read bounded data'' m) (ref_poison r)"
  shows "wp (map_multiplicity E CK p k) Q R r"
  using wp_read_weight [OF assms(1,2), of p key Q R] assms(3-6)
  by (simp add: map_multiplicity_def)

text \<open>
  A weighted map as a bag of keys: the multiplicity of a key, and the namespaces all of whose
  values are weights. A sequence of adjustments adds up, as long as no partial sum leaves the range
  of a \<^verbatim>\<open>u64\<close>.
\<close>

definition weights_ok :: "(bytes \<rightharpoonup> bytes) \<Rightarrow> bytes \<Rightarrow> bool" where
  "weights_ok m p \<longleftrightarrow> (\<forall>k. stored_weight (m (p @ k)) \<noteq> None)"

definition multiplicity_of :: "'k store_key \<Rightarrow> (bytes \<rightharpoonup> bytes) \<Rightarrow> bytes \<Rightarrow> 'k \<Rightarrow> int" where
  "multiplicity_of CK m p k = int (unat (the (stored_weight (m (p @ projr (encode_key CK k))))))"

fun adjust_all :: "'s engine \<Rightarrow> 'k store_key \<Rightarrow> bytes \<Rightarrow> ('k \<times> i64) list \<Rightarrow> ('s, unit) write_op" where
  "adjust_all E CK p [] = sem_return ()"
| "adjust_all E CK p ((k, d) # rest) = sem_bind (map_adjust E CK p k d) (\<lambda>_. adjust_all E CK p rest)"

definition net_change :: "('k \<times> i64) list \<Rightarrow> 'k \<Rightarrow> int" where
  "net_change cs k = (\<Sum>(l, d) \<leftarrow> cs. if l = k then sint d else 0)"

lemma net_change_simps [simp]:
  "net_change [] k = 0"
  "net_change ((l, d) # cs) k = (if l = k then sint d else 0) + net_change cs k"
  by (simp_all add: net_change_def)

context store_key_contract
begin

lemma multiplicity_of_upd:
  assumes "valid k" "valid l" "encode_key C k = Inr key"
  shows "multiplicity_of C (m(p @ key := weight_bytes a)) p l =
    (if l = k then int (unat a) else multiplicity_of C m p l)"
proof -
  obtain lkey where l: "encode_key C l = Inr lkey" using assms(2) key_total by blast
  have "lkey = key \<longleftrightarrow> l = k" using key_inject [OF assms(2,1)] l assms(3) by auto
  then show ?thesis by (simp add: multiplicity_of_def l)
qed

lemma wp_adjust_all:
  assumes "engine_laws E V" "\<not> poisoned t" "weights_ok (V (inner t)) p"
    and "\<forall>(k, d) \<in> set cs. valid k"
    and "\<forall>k n. valid k \<longrightarrow> 0 \<le> multiplicity_of C (V (inner t)) p k + net_change (take n cs) k \<and>
      multiplicity_of C (V (inner t)) p k + net_change (take n cs) k < 2 ^ 64"
  shows "wp (adjust_all E C p cs)
    (\<lambda>_ t'. weights_ok (V (inner t')) p \<and>
       (\<forall>k. valid k \<longrightarrow> multiplicity_of C (V (inner t')) p k = multiplicity_of C (V (inner t)) p k + net_change cs k))
    (fault E) t"
  using assms(2-)
proof (induction cs arbitrary: t)
  case Nil
  then show ?case by simp
next
  case (Cons c cs)
  obtain k d where c: "c = (k, d)" by fastforce
  with Cons.prems have vk: "valid k" and vcs: "\<forall>(k, d) \<in> set cs. valid k" by auto
  from vk obtain key where key: "encode_key C k = Inr key" using key_total by blast
  from Cons.prems(2) obtain w where w: "stored_weight (V (inner t) (p @ key)) = Some w"
    by (auto simp: weights_ok_def)
  have mult: "multiplicity_of C (V (inner t)) p k = int (unat w)"
    by (simp add: multiplicity_of_def key w)
  have range: "0 \<le> int (unat w) + sint d" "int (unat w) + sint d < 2 ^ 64"
    using Cons.prems(4) [rule_format, OF vk, of "Suc 0"] by (simp_all add: c mult)
  show ?case
    unfolding c adjust_all.simps wp_bind
  proof (rule wp_map_adjust [OF assms(1) Cons.prems(1) key w])
    fix a s
    assume a: "int (unat a) = int (unat w) + sint d" and s: "V s = (V (inner t))(p @ key := weight_bytes a)"
    let ?t = "t\<lparr>inner := s, has_writes := has_writes t \<or> w \<noteq> a\<rparr>"
    have upd: "multiplicity_of C (V s) p l = multiplicity_of C (V (inner t)) p l + (if k = l then sint d else 0)"
      if "valid l" for l
      using multiplicity_of_upd [OF vk that key] mult a by (simp add: s)
    have "wp (adjust_all E C p cs) (\<lambda>_ t'. weights_ok (V (inner t')) p \<and>
       (\<forall>l. valid l \<longrightarrow> multiplicity_of C (V (inner t')) p l = multiplicity_of C (V (inner ?t)) p l + net_change cs l))
      (fault E) ?t"
    proof (rule Cons.IH)
      have "\<forall>l n. valid l \<longrightarrow> 0 \<le> multiplicity_of C (V s) p l + net_change (take n cs) l \<and>
          multiplicity_of C (V s) p l + net_change (take n cs) l < 2 ^ 64"
      proof (intro allI impI)
        fix l n
        assume "valid l"
        then show "0 \<le> multiplicity_of C (V s) p l + net_change (take n cs) l \<and>
          multiplicity_of C (V s) p l + net_change (take n cs) l < 2 ^ 64"
          using Cons.prems(4) [rule_format, of l "Suc n"] by (simp add: upd c add.assoc)
      qed
      then show "\<forall>l n. valid l \<longrightarrow> 0 \<le> multiplicity_of C (V (inner ?t)) p l + net_change (take n cs) l \<and>
          multiplicity_of C (V (inner ?t)) p l + net_change (take n cs) l < 2 ^ 64"
        by simp
    qed (use Cons.prems vcs in \<open>simp_all add: s weights_ok_def\<close>)
    then show "wp (adjust_all E C p cs) (\<lambda>_ t'. weights_ok (V (inner t')) p \<and>
       (\<forall>l. valid l \<longrightarrow> multiplicity_of C (V (inner t')) p l = multiplicity_of C (V (inner t)) p l + net_change ((k, d) # cs) l))
      (fault E) ?t"
      by (rule wp_mono) (auto simp: upd)
  qed (use range in \<open>auto simp: fault_def\<close>)
qed

end

section \<open>Scanning one partition\<close>

text \<open>
  The bounds of a partition scan select exactly the keys that start with the partition prefix,
  because the prefix ends with a zero byte; the scan is a scan of the namespace the prefix
  selects.
\<close>

lemma word_less_inc_iff: "(c :: byte) \<noteq> 0xFF \<Longrightarrow> x < c + 1 \<longleftrightarrow> x \<le> c"
proof -
  assume "c \<noteq> 0xFF"
  then have "unat (c + 1) = Suc (unat c)"
    using unat_byte_less [of c] by (simp add: unat_word_ariths word_unat_eq_iff mod_less del: unat_byte_less)
  then show ?thesis by (simp add: word_less_nat_alt word_le_nat_alt less_Suc_eq_le)
qed

lemma between_successor:
  assumes "c \<noteq> 0xFF" "q @ [c] \<le> k" "k < q @ [c + 1 :: byte]"
  shows "\<exists>s. k = q @ [c] @ s"
  using assms
proof (induction q arbitrary: k)
  case Nil
  then show ?case by (cases k) (auto simp: word_less_inc_iff)
next
  case (Cons a q)
  then show ?case by (cases k) auto
qed

lemma below_successor: "(c :: byte) \<noteq> 0xFF \<Longrightarrow> q @ c # s < q @ [c + 1]"
  by (simp add: word_less_inc_iff)

lemma in_partition_iff:
  assumes "pp \<noteq> []" "last pp = 0"
  shows "in_range (Some (pp, True)) (Some (butlast pp @ [last pp + 1], False)) k \<longleftrightarrow> (\<exists>s. k = pp @ s)"
proof -
  obtain q where q: "pp = q @ [0]" using assms append_butlast_last_id [OF assms(1)] by metis
  show ?thesis
    using between_successor [of 0 q k] below_successor [of 0 q]
    by (auto simp: q in_range_def within_lower_iff within_upper_iff less_imp_le less_le)
qed

lemma ordered_keys_map:
  assumes "finite K"
  shows "ordered_keys dir ((@) pp ` K) = map ((@) pp) (ordered_keys dir K)"
proof (rule scan_sorted_unique [of dir])
  show "scan_sorted dir (map ((@) pp) (ordered_keys dir K))"
    using scan_sorted_ordered_keys [of dir K]
    by (cases dir) (simp_all add: scan_sorted_def sorted_wrt_map)
qed (use assms in auto)

lemma within_no_bound: "within_lower k None" "within_upper k None"
  by (simp_all add: within_lower_def within_upper_def)

definition framed :: "bytes \<Rightarrow> bytes \<times> bytes \<Rightarrow> bytes \<times> bytes" where
  "framed pp e = (pp @ fst e, snd e)"

lemma range_entries_partition:
  assumes "finite (dom m)" "pp \<noteq> []" "last pp = 0"
  shows "range_entries m p dir
      (resumed_lower dir (Some (pp, True)) (map_option ((@) pp) res))
      (resumed_upper dir (Some (butlast pp @ [last pp + 1], False)) (map_option ((@) pp) res))
    = map (framed pp) (range_entries m (p @ pp) dir (resumed_lower dir None res) (resumed_upper dir None res))"
proof -
  let ?lo = "resumed_lower dir (Some (pp, True)) (map_option ((@) pp) res)"
  let ?up = "resumed_upper dir (Some (butlast pp @ [last pp + 1], False)) (map_option ((@) pp) res)"
  let ?K = "{k. (p @ pp) @ k \<in> dom m \<and> in_range (resumed_lower dir None res) (resumed_upper dir None res) k}"
  have "in_range ?lo ?up k \<longleftrightarrow>
      (\<exists>s. k = pp @ s \<and> in_range (resumed_lower dir None res) (resumed_upper dir None res) s)" for k
    using in_partition_iff [OF assms(2,3), of k]
    by (cases dir; cases res)
      (auto simp: resumed_lower_def resumed_upper_def in_range_def within_later_bound within_earlier_bound
        within_no_bound)
  then have "{k. p @ k \<in> dom m \<and> in_range ?lo ?up k} = (@) pp ` ?K" by auto
  moreover have "finite ?K"
  proof (rule finite_subset)
    show "?K \<subseteq> (\<lambda>k. drop (length (p @ pp)) k) ` dom m"
      by (auto simp: image_iff) (metis append_eq_conv_conj append.assoc domI length_append)
  qed (use assms(1) in simp)
  ultimately show ?thesis
    by (simp add: range_entries_def ordered_keys_map framed_def)
qed

lemma decoded_framed: "decoded CK CV pp (framed pp e) = decoded CK CV [] e"
  by (simp add: decoded_def framed_def)

lemma decodes_framed: "decodes CK CV pp (framed pp e) \<longleftrightarrow> decodes CK CV [] e"
  by (simp add: decodes_def framed_def)

lemma wp_scan_partition [wp_intros]:
  assumes laws: "engine_laws E V" and succ: "prefix_successor p = Some u" and healthy: "\<not> ref_poisoned r"
    and limit: "limit_ok limit" and pp: "pp \<noteq> []" "last pp = 0"
    and resume: "resume_after = None \<and> res = None \<or>
      (\<exists>k key. resume_after = Some k \<and> encode_key CK k = Inr key \<and> res = Some key)"
    and L: "L = map (framed pp) (range_entries (V (ref_view r)) (p @ pp) dir
      (resumed_lower dir None res) (resumed_upper dir None res))"
    and items: "\<forall>e \<in> set L. decodes CK CV pp e \<and> item_size e \<le> usize_max"
    and canonical: "\<And>bs k. decode_key CK bs = Inr k \<Longrightarrow> encode_key CK k = Inr bs"
    and page: "\<And>page. scan_result CK CV pp limit L = Inr page \<Longrightarrow> Q page r"
    and large: "\<And>n k. scan_result CK CV pp limit L = Inl (ItemTooLarge n k) \<Longrightarrow> R (ItemTooLarge n k) r"
    and err: "\<And>m. \<not> engine_reliable E \<Longrightarrow> R (Storage ''scan data'' m) (ref_poison r)"
  shows "wp (scan_partition E CK CV p pp dir resume_after limit) Q R r"
proof -
  have "wp (scan_key_suffix E CK CV p (Included pp) (Excluded (butlast pp @ [last pp + 1])) dir
      (map_option ((@) pp) res) limit pp) Q R r"
  proof (rule wp_scan_key_suffix [OF laws succ healthy limit])
    show "L = range_entries (V (ref_view r)) p dir
        (resumed_lower dir (encoded_bound_of (Included pp)) (map_option ((@) pp) res))
        (resumed_upper dir (encoded_bound_of (Excluded (butlast pp @ [last pp + 1]))) (map_option ((@) pp) res))"
      by (simp add: L range_entries_partition [OF engine_finite [OF laws] pp])
  qed (fact items canonical page large err)+
  then show ?thesis
    using resume by (auto simp: scan_partition_def part_encode_key_def)
qed

lemma admit_one: "admit 1 n (e # es) = (if item_size e \<le> n then 1 else 0)"
  by (cases e) (simp add: item_size_def)

lemma wp_part_endpoint [wp_intros]:
  assumes laws: "engine_laws E V" and succ: "prefix_successor p = Some u" and healthy: "\<not> ref_poisoned r"
    and n: "0 < n" "n \<le> usize_max" and pp: "pp \<noteq> []" "last pp = 0"
    and L: "L = range_entries (V (ref_view r)) (p @ pp) dir None None"
    and items: "\<forall>e \<in> set L. decodes CK CV [] e \<and> length pp + item_size e \<le> usize_max"
    and canonical: "\<And>bs k. decode_key CK bs = Inr k \<Longrightarrow> encode_key CK k = Inr bs"
    and none: "L = [] \<Longrightarrow> Q None r"
    and some: "\<And>e es. L = e # es \<Longrightarrow> length pp + item_size e \<le> n \<Longrightarrow> Q (Some (decoded CK CV [] e)) r"
    and large: "\<And>e es. L = e # es \<Longrightarrow> n < length pp + item_size e \<Longrightarrow>
      R (ItemTooLarge (length pp + item_size e) n) r"
    and err: "\<And>m. \<not> engine_reliable E \<Longrightarrow> R (Storage ''scan data'' m) (ref_poison r)"
  shows "wp (part_endpoint E CK CV p pp dir n) Q R r"
proof -
  define lim where "lim = \<lparr>max_items = Suc 0, max_bytes = n\<rparr>"
  have size: "item_size (framed pp e) = length pp + item_size e" for e
    by (simp add: item_size_def framed_def)
  have bounds: "resumed_lower dir None None = None" "resumed_upper dir None None = None"
    by (cases dir; simp add: resumed_lower_def resumed_upper_def)+
  have page: "scan_result CK CV pp lim (map (framed pp) L) =
     (case L of [] \<Rightarrow> Inr \<lparr>page_entries = [], continuation = None\<rparr>
      | e # es \<Rightarrow> if n < length pp + item_size e then Inl (ItemTooLarge (length pp + item_size e) n)
          else Inr \<lparr>page_entries = [decoded CK CV [] e],
                    continuation = if es = [] then None else Some (fst (decoded CK CV [] e))\<rparr>)"
    by (cases L) (auto simp: lim_def scan_result_def Let_def admit_one [simplified] size decoded_framed)
  have "wp (scan_partition E CK CV p pp dir None lim)
      (\<lambda>page. wp (sem_return (if page_entries page = [] then None else Some (last (page_entries page)))) Q R) R r"
  proof (rule wp_scan_partition [OF laws succ healthy _ pp, where res = None and L = "map (framed pp) L"])
    show "limit_ok lim" using n by (simp add: lim_def limit_ok_def)
    show "\<forall>e \<in> set (map (framed pp) L). decodes CK CV pp e \<and> item_size e \<le> usize_max"
      using items by (auto simp: decodes_framed size)
    show "wp (sem_return (if page_entries page = [] then None else Some (last (page_entries page)))) Q R r"
      if "scan_result CK CV pp lim (map (framed pp) L) = Inr page" for page
      using that [unfolded page] none some by (cases L) (auto split: if_splits)
    show "R (ItemTooLarge m k) r"
      if "scan_result CK CV pp lim (map (framed pp) L) = Inl (ItemTooLarge m k)" for m k
      using that [unfolded page] large by (cases L) (auto split: if_splits)
  qed (use L bounds canonical err in auto)
  then show ?thesis
    using n by (simp add: part_endpoint_def scan_limit_new_def lim_def)
qed

section \<open>Paging\<close>

text \<open>
  A client that scans a range page by page, passing the continuation of each page to the next scan,
  sees every entry of the range exactly once and in order. The fuel bounds the number of pages;
  one more than the number of entries is enough.
\<close>

fun scan_all ::
  "'s engine \<Rightarrow> 'k store_key \<Rightarrow> 'v store_value \<Rightarrow> bytes \<Rightarrow> 'k bound \<Rightarrow> 'k bound \<Rightarrow> scan_direction \<Rightarrow> scan_limit
   \<Rightarrow> nat \<Rightarrow> 'k option \<Rightarrow> ('s, ('k \<times> 'v) list option) read_op" where
  "scan_all E CK CV p lo up dir limit 0 resume = sem_return None"
| "scan_all E CK CV p lo up dir limit (Suc n) resume =
     sem_bind (map_scan E CK CV p lo up dir resume limit) (\<lambda>page.
       case continuation page of
         None \<Rightarrow> sem_return (Some (page_entries page))
       | Some k \<Rightarrow>
           sem_bind (scan_all E CK CV p lo up dir limit n (Some k)) (\<lambda>rest.
             sem_return (map_option ((@) (page_entries page)) rest)))"

lemma admit_pos: "0 < i \<Longrightarrow> item_size e \<le> b \<Longrightarrow> 0 < admit i b (e # es)"
  by (cases i; cases e) (auto simp: item_size_def)

lemma scan_result_page:
  assumes "limit_ok limit" and "\<forall>e \<in> set L. item_size e \<le> max_bytes limit"
  obtains c where "c \<le> length L" "L \<noteq> [] \<Longrightarrow> 0 < c"
    "scan_result CK CV sp limit L = Inr \<lparr>page_entries = map (decoded CK CV sp) (take c L),
       continuation = (if c < length L then Some (fst (decoded CK CV sp (L ! (c - 1)))) else None)\<rparr>"
proof -
  let ?c = "admit (max_items limit) (max_bytes limit) L"
  have "0 < ?c" if "L \<noteq> []"
    using that assms by (cases L) (auto simp: limit_ok_def intro!: admit_pos)
  then have "(?c = 0 \<and> L \<noteq> []) = False" by auto
  then show thesis
    using that [of ?c, OF admit_le(1) \<open>L \<noteq> [] \<Longrightarrow> 0 < ?c\<close>]
    by (simp only: scan_result_def Let_def if_False simp_thms)
qed

lemma decodes_key:
  assumes "decodes CK CV [] e" and "\<And>bs k. decode_key CK bs = Inr k \<Longrightarrow> encode_key CK k = Inr bs"
  shows "encode_key CK (fst (decoded CK CV [] e)) = Inr (fst e)"
  using assms by (auto simp: decodes_def decoded_def)

text \<open>One page of the scan whose previous pages covered the first \<open>c\<close> entries.\<close>

lemma map_scan_page:
  assumes laws: "engine_laws E V" and reliable: "engine_reliable E" and succ: "prefix_successor p = Some u"
    and healthy: "\<not> ref_poisoned r" and limit: "limit_ok limit"
    and lo: "encode_bound CK lo = Inr lo'" and up: "encode_bound CK up = Inr up'"
    and L: "L = range_entries (V (ref_view r)) p dir (encoded_bound_of lo') (encoded_bound_of up')"
    and items: "\<forall>e \<in> set L. decodes CK CV [] e \<and> item_size e \<le> max_bytes limit"
    and canonical: "\<And>bs k. decode_key CK bs = Inr k \<Longrightarrow> encode_key CK k = Inr bs"
    and c: "c \<le> length L"
    and resume: "resume = None \<and> c = 0 \<or> 0 < c \<and> resume = Some (fst (decoded CK CV [] (L ! (c - 1))))"
  obtains c' where "c' \<le> length (drop c L)" "drop c L \<noteq> [] \<Longrightarrow> 0 < c'"
    "map_scan E CK CV p lo up dir resume limit r = (Inr \<lparr>page_entries = map (decoded CK CV []) (take c' (drop c L)),
       continuation = (if c' < length (drop c L) then Some (fst (decoded CK CV [] (drop c L ! (c' - 1)))) else None)\<rparr>, r)"
proof -
  obtain key where key: "encode_resume CK resume = Inr key"
      and rest: "range_entries (V (ref_view r)) p dir (resumed_lower dir (encoded_bound_of lo') key)
        (resumed_upper dir (encoded_bound_of up') key) = drop c L"
  proof (cases resume)
    case None
    then show thesis
      using that [of None] resume by (cases dir) (auto simp: L resumed_lower_def resumed_upper_def)
  next
    case (Some k)
    then have pos: "0 < c" "k = fst (decoded CK CV [] (L ! (c - 1)))" using resume by auto
    then have "encode_key CK k = Inr (fst (L ! (c - 1)))"
      using items canonical c by (auto intro!: decodes_key)
    then show thesis
      using that [of "Some (fst (L ! (c - 1)))"] Some
        range_entries_resume [OF engine_finite [OF laws] L pos(1) c] by simp
  qed
  have part: "\<forall>e \<in> set (drop c L). decodes CK CV [] e \<and> item_size e \<le> max_bytes limit"
    using items by (auto dest: in_set_dropD)
  obtain c' where c': "c' \<le> length (drop c L)" "drop c L \<noteq> [] \<Longrightarrow> 0 < c'"
    and page: "scan_result CK CV [] limit (drop c L) = Inr \<lparr>page_entries = map (decoded CK CV []) (take c' (drop c L)),
       continuation = (if c' < length (drop c L) then Some (fst (decoded CK CV [] (drop c L ! (c' - 1)))) else None)\<rparr>"
    using part by (rule_tac scan_result_page [OF limit, of "drop c L" CK CV "[]"]) auto
  have "wp (scan_key_suffix E CK CV p lo' up' dir key limit [])
      (\<lambda>pg r'. scan_result CK CV [] limit (drop c L) = Inr pg \<and> r' = r) (\<lambda>_ _. False) r"
    by (rule wp_scan_key_suffix [OF laws succ healthy limit rest [symmetric] _ canonical])
      (use part limit reliable page in \<open>auto simp: limit_ok_def\<close>)
  then have "scan_key_suffix E CK CV p lo' up' dir key limit [] r = (scan_result CK CV [] limit (drop c L), r)"
    by (auto elim!: wp_cases)
  then show thesis
    using that [OF c'] page lo up key
    by (simp add: map_scan_def data_scan_def sem_bind_def ref_poison_on_error_def)
qed

lemma scan_all_complete:
  assumes "engine_laws E V" "engine_reliable E" "prefix_successor p = Some u" "\<not> ref_poisoned r" "limit_ok limit"
    and "encode_bound CK lo = Inr lo'" "encode_bound CK up = Inr up'"
    and "L = range_entries (V (ref_view r)) p dir (encoded_bound_of lo') (encoded_bound_of up')"
    and "\<forall>e \<in> set L. decodes CK CV [] e \<and> item_size e \<le> max_bytes limit"
    and "\<And>bs k. decode_key CK bs = Inr k \<Longrightarrow> encode_key CK k = Inr bs"
    and "length L - c < n" "c \<le> length L"
    and "resume = None \<and> c = 0 \<or> 0 < c \<and> resume = Some (fst (decoded CK CV [] (L ! (c - 1))))"
  shows "scan_all E CK CV p lo up dir limit n resume r = (Inr (Some (map (decoded CK CV []) (drop c L))), r)"
  using assms(11-)
proof (induction n arbitrary: c resume)
  case (Suc n)
  obtain c' where c': "c' \<le> length (drop c L)" "drop c L \<noteq> [] \<Longrightarrow> 0 < c'"
    and scan: "map_scan E CK CV p lo up dir resume limit r = (Inr \<lparr>page_entries = map (decoded CK CV []) (take c' (drop c L)),
       continuation = (if c' < length (drop c L) then Some (fst (decoded CK CV [] (drop c L ! (c' - 1)))) else None)\<rparr>, r)"
    by (rule map_scan_page [OF assms(1-10) Suc.prems(2,3)]) (assumption, rule that)
  show ?case
  proof (cases "c' < length (drop c L)")
    case True
    then have pos: "0 < c'" using c' by fastforce
    then have nth: "drop c L ! (c' - 1) = L ! (c + c' - 1)" using True by simp
    have "scan_all E CK CV p lo up dir limit n (Some (fst (decoded CK CV [] (L ! (c + c' - 1))))) r =
        (Inr (Some (map (decoded CK CV []) (drop (c + c') L))), r)"
      using True pos Suc.prems(1) by (intro Suc.IH) auto
    moreover have "take c' (drop c L) @ drop (c + c') L = drop c L"
      by (metis add.commute append_take_drop_id drop_drop)
    ultimately show ?thesis
      using True nth by (simp add: scan sem_bind_def sem_return_def map_append [symmetric] del: map_append)
  next
    case False
    then show ?thesis using c' by (simp add: scan sem_bind_def sem_return_def)
  qed
qed simp

end
