(* ===== verification/Store_Queue.thy ===== *)
theory Store_Queue
  imports Store_Collections
begin

text \<open>
  The persistent FIFO queue of \<^verbatim>\<open>crates/store/src/collections/queue.rs\<close>.

  A queue keeps one metadata entry under the empty key and one entry per value under its
  eight-byte sequence number. \<open>queue_rep\<close> relates a namespace to the list of encoded values it
  holds; the operations are shown to refine the list operations (append, head and tail, drop) with
  exact byte accounting, and to leave every other namespace alone. The locale \<open>fifo_queue\<close> states
  this contract for the clients of a queue.
\<close>

section \<open>Definitions\<close>

definition METADATA_KEY :: bytes where
  "METADATA_KEY = []"

definition METADATA_BYTES :: nat where
  "METADATA_BYTES = 3 * 8"

definition SEQUENCE_BYTES :: u64 where
  "SEQUENCE_BYTES = 8"

record metadata =
  head :: u64
  tail :: u64
  queued_bytes :: u64

definition metadata_EMPTY :: metadata where
  "metadata_EMPTY = \<lparr>head = 0, tail = 0, queued_bytes = 0\<rparr>"

definition metadata_is_empty :: "metadata \<Rightarrow> bool" where
  "metadata_is_empty m \<longleftrightarrow> head m = tail m"

definition metadata_is_valid :: "metadata \<Rightarrow> bool" where
  "metadata_is_valid m =
     (case checked_sub_u64 (tail m) (head m) of
        None \<Rightarrow> False
      | Some len \<Rightarrow>
          if len = 0 then False
          else (case checked_mul_u64 len SEQUENCE_BYTES of
                  None \<Rightarrow> False
                | Some minimum \<Rightarrow> queued_bytes m \<ge> minimum))"

definition encoded_item_bytes :: "nat \<Rightarrow> store_error + u64" where
  "encoded_item_bytes encoded_len =
     (if encoded_len \<le> u64_max then
        (case checked_add_u64 (of_nat encoded_len) SEQUENCE_BYTES of
           None \<Rightarrow> Inl QueueByteCountExhausted | Some n \<Rightarrow> Inr n)
      else Inl QueueByteCountExhausted)"

definition encode_sequence :: "u64 \<Rightarrow> bytes" where
  "encode_sequence s = u64_to_be s"

definition encode_metadata :: "metadata \<Rightarrow> bytes" where
  "encode_metadata m = u64_to_be (head m) @ u64_to_be (tail m) @ u64_to_be (queued_bytes m)"

definition decode_metadata :: "bytes \<Rightarrow> metadata option" where
  "decode_metadata encoded =
     (if length encoded = METADATA_BYTES then
        (let m = \<lparr>head = u64_from_be (take 8 encoded), tail = u64_from_be (take 8 (drop 8 encoded)),
                  queued_bytes = u64_from_be (drop 16 encoded)\<rparr>
         in if metadata_is_valid m then Some m else None)
      else None)"

definition read_metadata :: "'s engine \<Rightarrow> bytes \<Rightarrow> ('s, metadata) read_op" where
  "read_metadata E p =
     sem_bind
       (sem_try (get_bounded E vec_value p METADATA_KEY METADATA_BYTES) (\<lambda>res.
          case res of
            Inl (ItemTooLarge _ _) \<Rightarrow>
              (\<lambda>r. ref_record_result (Inl (CorruptQueue ''queue metadata exceeds its fixed width'')) r)
          | _ \<Rightarrow> sem_lift res))
       (\<lambda>encoded.
          case encoded of
            None \<Rightarrow>
              sem_bind (is_physically_empty E p) (\<lambda>empty.
                if empty then sem_return metadata_EMPTY
                else (\<lambda>r. ref_record_result (Inl (CorruptQueue ''entries exist without queue metadata'')) r))
          | Some bs \<Rightarrow>
              (\<lambda>r. ref_record_result
                (case decode_metadata bs of
                   None \<Rightarrow> Inl (CorruptQueue ''invalid queue metadata'') | Some m \<Rightarrow> Inr m) r))"

definition read_front :: "'s engine \<Rightarrow> 'v store_value \<Rightarrow> bytes \<Rightarrow> metadata \<Rightarrow> nat \<Rightarrow> ('s, 'v \<times> u64) read_op" where
  "read_front E CV p m max_value_bytes =
     sem_bind (get_bounded E vec_value p (encode_sequence (head m)) max_value_bytes) (\<lambda>front.
       case front of
         None \<Rightarrow> (\<lambda>r. ref_record_result (Inl (CorruptQueue ''the front entry is missing'')) r)
       | Some encoded \<Rightarrow>
           sem_bind (\<lambda>r. ref_record_result (encoded_item_bytes (length encoded)) r) (\<lambda>item_bytes.
           sem_bind (\<lambda>r. ref_record_result
               (case checked_sub_u64 (queued_bytes m) item_bytes of
                  None \<Rightarrow> Inl (CorruptQueue ''queued-byte metadata is smaller than the front entry'')
                | Some n \<Rightarrow> Inr n) r) (\<lambda>remaining.
           sem_bind (ref_poison_on_error Codec (decode_value CV encoded)) (\<lambda>v.
             sem_return (v, remaining)))))"

definition front_bounded :: "'s engine \<Rightarrow> 'v store_value \<Rightarrow> bytes \<Rightarrow> nat \<Rightarrow> ('s, 'v option) read_op" where
  "front_bounded E CV p max_value_bytes =
     sem_bind (read_metadata E p) (\<lambda>m.
       if metadata_is_empty m then sem_return None
       else sem_bind (read_front E CV p m max_value_bytes) (\<lambda>(v, _). sem_return (Some v)))"

definition queue_is_empty :: "'s engine \<Rightarrow> bytes \<Rightarrow> ('s, bool) read_op" where
  "queue_is_empty E p = sem_bind (read_metadata E p) (\<lambda>m. sem_return (metadata_is_empty m))"

definition queue_queued_bytes :: "'s engine \<Rightarrow> bytes \<Rightarrow> ('s, u64) read_op" where
  "queue_queued_bytes E p = sem_bind (read_metadata E p) (\<lambda>m. sem_return (queued_bytes m))"

definition queue_fail :: "store_error \<Rightarrow> ('s, 'a) write_op" where
  "queue_fail e = as_read (\<lambda>r. ref_record_result (Inl e) r)"

definition write_metadata :: "'s engine \<Rightarrow> bytes \<Rightarrow> metadata \<Rightarrow> ('s, unit) write_op" where
  "write_metadata E p m =
     (if \<not> metadata_is_valid m then queue_fail (CorruptQueue ''an update would write invalid queue metadata'')
      else data_put E p METADATA_KEY (encode_metadata m))"

definition try_push :: "'s engine \<Rightarrow> 'v store_value \<Rightarrow> bytes \<Rightarrow> 'v \<Rightarrow> u64 \<Rightarrow> ('s, bool) write_op" where
  "try_push E CV p v capacity =
     sem_bind (as_read (read_metadata E p)) (\<lambda>m.
     let was_empty = metadata_is_empty m in
     sem_bind (if was_empty then sem_return True
               else as_read (contains_key E p (encode_sequence (tail m - 1)))) (\<lambda>before_tail.
     if \<not> before_tail then queue_fail (CorruptQueue ''the entry before the tail is missing'')
     else
       sem_bind (as_read (ref_poison_on_error Codec (encode_value CV v))) (\<lambda>encoded.
       case encoded_item_bytes (length encoded) of
         Inl e \<Rightarrow> queue_fail e
       | Inr item_bytes \<Rightarrow>
           if queued_bytes m \<ge> capacity \<or> item_bytes > capacity - queued_bytes m then sem_return False
           else (case checked_add_u64 (tail m) 1 of
             None \<Rightarrow> queue_fail QueueSequenceExhausted
           | Some tail' \<Rightarrow>
               sem_bind (if was_empty then sem_return False
                         else as_read (contains_key E p (encode_sequence (tail m)))) (\<lambda>collision.
               if collision then queue_fail (CorruptQueue ''an entry already exists at the next sequence number'')
               else (case checked_add_u64 (queued_bytes m) item_bytes of
                 None \<Rightarrow> queue_fail QueueByteCountExhausted
               | Some queued' \<Rightarrow>
                   sem_bind (data_put E p (encode_sequence (tail m)) encoded) (\<lambda>_.
                   sem_bind (write_metadata E p \<lparr>head = head m, tail = tail', queued_bytes = queued'\<rparr>) (\<lambda>_.
                     sem_return True))))))))"

definition finish_front_removal :: "'s engine \<Rightarrow> bytes \<Rightarrow> u64 \<Rightarrow> u64 \<Rightarrow> u64 \<Rightarrow> ('s, bool) write_op" where
  "finish_front_removal E p hd' tl' remaining =
     (if hd' = tl' then
        (if remaining \<noteq> 0 then queue_fail (CorruptQueue ''an empty queue has a non-zero byte count'')
         else
           sem_bind (data_erase E p METADATA_KEY) (\<lambda>_.
           sem_bind (as_read (is_physically_empty E p)) (\<lambda>empty.
             if \<not> empty then queue_fail (CorruptQueue ''entries exist outside the queued range'')
             else sem_return True)))
      else
        sem_bind (as_read (contains_key E p (encode_sequence hd'))) (\<lambda>present.
          if \<not> present then queue_fail (CorruptQueue ''the next front entry is missing'')
          else sem_bind (write_metadata E p \<lparr>head = hd', tail = tl', queued_bytes = remaining\<rparr>) (\<lambda>_.
            sem_return False)))"

definition pop_front_bounded :: "'s engine \<Rightarrow> 'v store_value \<Rightarrow> bytes \<Rightarrow> nat \<Rightarrow> ('s, ('v \<times> bool) option) write_op" where
  "pop_front_bounded E CV p max_value_bytes =
     sem_bind (as_read (read_metadata E p)) (\<lambda>m.
       if metadata_is_empty m then sem_return None
       else
         sem_bind (as_read (read_front E CV p m max_value_bytes)) (\<lambda>(v, remaining).
         sem_bind (data_erase E p (encode_sequence (head m))) (\<lambda>_.
         sem_bind (finish_front_removal E p (head m + 1) (tail m) remaining) (\<lambda>empty_after.
           sem_return (Some (v, empty_after))))))"

definition pop_front :: "'s engine \<Rightarrow> 'v store_value \<Rightarrow> bytes \<Rightarrow> ('s, ('v \<times> bool) option) write_op" where
  "pop_front E CV p = pop_front_bounded E CV p usize_max"

text \<open>The loop of \<^verbatim>\<open>discard_front\<close>; it returns the new head and byte count.\<close>

fun discard_loop :: "'s engine \<Rightarrow> bytes \<Rightarrow> u64 \<Rightarrow> nat \<Rightarrow> u64 \<Rightarrow> u64 \<Rightarrow> ('s, u64 \<times> u64) write_op" where
  "discard_loop E p tl' 0 hd' remaining = sem_return (hd', remaining)"
| "discard_loop E p tl' (Suc n) hd' remaining =
     (if hd' = tl' then sem_return (hd', remaining)
      else
        sem_bind (as_read (value_len E p (encode_sequence hd'))) (\<lambda>len.
          case len of
            None \<Rightarrow> queue_fail (CorruptQueue ''a queued entry is missing'')
          | Some len \<Rightarrow>
              (case encoded_item_bytes len of
                 Inl e \<Rightarrow> queue_fail e
               | Inr item_bytes \<Rightarrow>
                   (case checked_sub_u64 remaining item_bytes of
                      None \<Rightarrow> queue_fail (CorruptQueue ''queued-byte metadata is smaller than its entries'')
                    | Some remaining' \<Rightarrow>
                        sem_bind (data_erase E p (encode_sequence hd')) (\<lambda>_.
                          discard_loop E p tl' n (hd' + 1) remaining')))))"

definition discard_front :: "'s engine \<Rightarrow> bytes \<Rightarrow> nat \<Rightarrow> ('s, bool) write_op" where
  "discard_front E p max_entries =
     sem_bind (as_read (read_metadata E p)) (\<lambda>m.
       if metadata_is_empty m then sem_return True
       else
         sem_bind (discard_loop E p (tail m) max_entries (head m) (queued_bytes m)) (\<lambda>(hd', remaining).
           if hd' = head m then sem_return False
           else finish_front_removal E p hd' (tail m) remaining))"

section \<open>Poisoning and write tracking\<close>

lemma keeps_ref_lift [poison_intros]: "keeps_ref (sem_lift res)"
  by (simp add: keeps_ref_def sem_lift_def)

lemma keeps_ref_read_metadata [poison_intros]: "keeps_ref (read_metadata E p)"
  unfolding read_metadata_def
  by (intro poison_intros) (auto split: sum.splits store_error.splits intro!: poison_intros)

lemma poison_ok_read_metadata [poison_intros]: "poison_ok ref_poisoned (read_metadata E p)"
  unfolding read_metadata_def
proof (rule poison_ok_bind, rule poison_ok_try, goal_cases)
  case (3 e)
  show ?case by (cases e) (auto simp: sem_lift_simps intro!: poison_intros)
next
  case (2 a)
  show ?case by (simp add: sem_lift_simps poison_ok_return)
qed (auto intro!: poison_intros)

lemma keeps_ref_prod [poison_intros]: "(\<And>a b. keeps_ref (f a b)) \<Longrightarrow> keeps_ref (case x of (a, b) \<Rightarrow> f a b)"
  by (cases x) simp

lemma poison_ok_prod [poison_intros]:
  "(\<And>a b. poison_ok pois (f a b)) \<Longrightarrow> poison_ok pois (case x of (a, b) \<Rightarrow> f a b)"
  by (cases x) simp

lemma poison_ok_sum [poison_intros]:
  "(\<And>e. poison_ok pois (f e)) \<Longrightarrow> (\<And>a. poison_ok pois (g a)) \<Longrightarrow>
   poison_ok pois (case x of Inl e \<Rightarrow> f e | Inr a \<Rightarrow> g a)"
  by (cases x) simp_all

lemma tracks_writes_prod [poison_intros]:
  "(\<And>a b. tracks_writes (f a b)) \<Longrightarrow> tracks_writes (case x of (a, b) \<Rightarrow> f a b)"
  by (cases x) simp

lemma tracks_writes_sum [poison_intros]:
  "(\<And>e. tracks_writes (f e)) \<Longrightarrow> (\<And>a. tracks_writes (g a)) \<Longrightarrow>
   tracks_writes (case x of Inl e \<Rightarrow> f e | Inr a \<Rightarrow> g a)"
  by (cases x) simp_all

lemma keeps_ref_read_front [poison_intros]: "keeps_ref (read_front E CV p m n)"
  unfolding read_front_def by (intro poison_intros)

lemma poison_ok_read_front [poison_intros]: "poison_ok ref_poisoned (read_front E CV p m n)"
  unfolding read_front_def by (intro poison_intros)

lemma keeps_ref_front_bounded [poison_intros]: "keeps_ref (front_bounded E CV p n)"
  unfolding front_bounded_def by (intro poison_intros)

lemma poison_ok_front_bounded [poison_intros]: "poison_ok ref_poisoned (front_bounded E CV p n)"
  unfolding front_bounded_def by (intro poison_intros)

lemma keeps_ref_queue_is_empty [poison_intros]: "keeps_ref (queue_is_empty E p)"
  unfolding queue_is_empty_def by (intro poison_intros)

lemma poison_ok_queue_is_empty [poison_intros]: "poison_ok ref_poisoned (queue_is_empty E p)"
  unfolding queue_is_empty_def by (intro poison_intros)

lemma keeps_ref_queue_queued_bytes [poison_intros]: "keeps_ref (queue_queued_bytes E p)"
  unfolding queue_queued_bytes_def by (intro poison_intros)

lemma poison_ok_queue_queued_bytes [poison_intros]: "poison_ok ref_poisoned (queue_queued_bytes E p)"
  unfolding queue_queued_bytes_def by (intro poison_intros)

lemma poison_ok_queue_fail [poison_intros]: "poison_ok poisoned (queue_fail e)"
  unfolding queue_fail_def Let_def by (intro poison_intros)

lemma tracks_writes_queue_fail [poison_intros]: "tracks_writes (queue_fail e)"
  unfolding queue_fail_def Let_def by (intro poison_intros)

lemma poison_ok_write_metadata [poison_intros]: "poison_ok poisoned (write_metadata E p m)"
  unfolding write_metadata_def Let_def by (intro poison_intros)

lemma tracks_writes_write_metadata [poison_intros]: "tracks_writes (write_metadata E p m)"
  unfolding write_metadata_def Let_def by (intro poison_intros)

lemma poison_ok_try_push [poison_intros]: "poison_ok poisoned (try_push E CV p v c)"
  unfolding try_push_def Let_def by (intro poison_intros)

lemma tracks_writes_try_push [poison_intros]: "tracks_writes (try_push E CV p v c)"
  unfolding try_push_def Let_def by (intro poison_intros)

lemma poison_ok_finish_front_removal [poison_intros]: "poison_ok poisoned (finish_front_removal E p a b c)"
  unfolding finish_front_removal_def Let_def by (intro poison_intros)

lemma tracks_writes_finish_front_removal [poison_intros]: "tracks_writes (finish_front_removal E p a b c)"
  unfolding finish_front_removal_def Let_def by (intro poison_intros)

lemma poison_ok_pop_front_bounded [poison_intros]: "poison_ok poisoned (pop_front_bounded E CV p n)"
  unfolding pop_front_bounded_def Let_def by (intro poison_intros)

lemma tracks_writes_pop_front_bounded [poison_intros]: "tracks_writes (pop_front_bounded E CV p n)"
  unfolding pop_front_bounded_def Let_def by (intro poison_intros)

lemma poison_ok_pop_front [poison_intros]: "poison_ok poisoned (pop_front E CV p)"
  unfolding pop_front_def Let_def by (intro poison_intros)

lemma tracks_writes_pop_front [poison_intros]: "tracks_writes (pop_front E CV p)"
  unfolding pop_front_def Let_def by (intro poison_intros)

lemma poison_ok_discard_loop [poison_intros]: "poison_ok poisoned (discard_loop E p a n b c)"
  by (induction n arbitrary: b c) (auto intro!: poison_intros)

lemma tracks_writes_discard_loop [poison_intros]: "tracks_writes (discard_loop E p a n b c)"
  by (induction n arbitrary: b c) (auto intro!: poison_intros)

lemma poison_ok_discard_front [poison_intros]: "poison_ok poisoned (discard_front E p n)"
  unfolding discard_front_def Let_def by (intro poison_intros)

lemma tracks_writes_discard_front [poison_intros]: "tracks_writes (discard_front E p n)"
  unfolding discard_front_def Let_def by (intro poison_intros)

section \<open>The represented list\<close>

text \<open>
  \<open>queue_at m p h vs\<close>: the namespace \<open>p\<close> of \<open>m\<close> is a queue whose front has sequence number \<open>h\<close> and
  whose encoded values are \<open>vs\<close>. \<open>outside p m m'\<close>: nothing but the namespace \<open>p\<close> changed.
\<close>

definition namespace :: "(bytes \<rightharpoonup> bytes) \<Rightarrow> bytes \<Rightarrow> (bytes \<rightharpoonup> bytes)" where
  "namespace m p = (\<lambda>k. m (p @ k))"

definition outside :: "bytes \<Rightarrow> (bytes \<rightharpoonup> bytes) \<Rightarrow> (bytes \<rightharpoonup> bytes) \<Rightarrow> bool" where
  "outside p m m' \<longleftrightarrow> (\<forall>k. (\<forall>s. k \<noteq> p @ s) \<longrightarrow> m' k = m k)"

definition total_bytes :: "bytes list \<Rightarrow> nat" where
  "total_bytes vs = (\<Sum>v \<leftarrow> vs. length v + 8)"

definition meta_of :: "nat \<Rightarrow> bytes list \<Rightarrow> metadata" where
  "meta_of h vs = \<lparr>head = of_nat h, tail = of_nat (h + length vs), queued_bytes = of_nat (total_bytes vs)\<rparr>"

definition entry_cells :: "nat \<Rightarrow> bytes list \<Rightarrow> (bytes \<rightharpoonup> bytes)" where
  "entry_cells h vs k =
     (if length k = 8 \<and> h \<le> nat_of_be k \<and> nat_of_be k < h + length vs then Some (vs ! (nat_of_be k - h)) else None)"

definition queue_cells :: "nat \<Rightarrow> bytes list \<Rightarrow> (bytes \<rightharpoonup> bytes)" where
  "queue_cells h vs = (entry_cells h vs)([] := if vs = [] then None else Some (encode_metadata (meta_of h vs)))"

definition queue_fits :: "nat \<Rightarrow> bytes list \<Rightarrow> bool" where
  "queue_fits h vs \<longleftrightarrow> h + length vs < 2 ^ 64 \<and> total_bytes vs < 2 ^ 64"

definition queue_at :: "(bytes \<rightharpoonup> bytes) \<Rightarrow> bytes \<Rightarrow> nat \<Rightarrow> bytes list \<Rightarrow> bool" where
  "queue_at m p h vs \<longleftrightarrow> namespace m p = queue_cells h vs \<and> queue_fits h vs \<and> (vs = [] \<longrightarrow> h = 0)"

definition queue_rep :: "(bytes \<rightharpoonup> bytes) \<Rightarrow> bytes \<Rightarrow> bytes list \<Rightarrow> bool" where
  "queue_rep m p vs \<longleftrightarrow> (\<exists>h. queue_at m p h vs)"

lemma namespace_upd [simp]: "namespace (m(p @ k := x)) p = (namespace m p)(k := x)"
  by (auto simp: namespace_def)

lemma namespace_upd_Nil [simp]: "namespace (m(p := x)) p = (namespace m p)([] := x)"
  using namespace_upd [of m p "[]"] by simp

lemma namespace_app: "namespace m p k = m (p @ k)"
  by (simp add: namespace_def)

lemma outside_refl [simp]: "outside p m m"
  by (simp add: outside_def)

lemma outside_upd [simp]: "outside p m (m'(p @ k := x)) \<longleftrightarrow> outside p m m'"
  by (auto simp: outside_def)

lemma outside_trans: "outside p m m' \<Longrightarrow> outside p m' m'' \<Longrightarrow> outside p m m''"
  by (simp add: outside_def)

lemma outside_upd_Nil [simp]: "outside p m (m'(p := x)) \<longleftrightarrow> outside p m m'"
  using outside_upd [of p m m' "[]"] by simp

lemma total_bytes_simps [simp]:
  "total_bytes [] = 0" "total_bytes (v # vs) = length v + 8 + total_bytes vs"
  "total_bytes (vs @ ws) = total_bytes vs + total_bytes ws"
  by (simp_all add: total_bytes_def)

lemma total_bytes_ge: "length vs * 8 \<le> total_bytes vs"
  by (induction vs) auto

lemma unat_of_nat_u64: "n < 2 ^ 64 \<Longrightarrow> unat (of_nat n :: u64) = n"
  by (simp add: unat_of_nat)

lemma sequence_code [simp]:
  "length (encode_sequence w) = 8" "nat_of_be (encode_sequence w) = unat w" "encode_sequence w \<noteq> []"
proof -
  show "length (encode_sequence w) = 8" by (simp add: encode_sequence_def)
  then show "encode_sequence w \<noteq> []" by force
  show "nat_of_be (encode_sequence w) = unat w"
    using unat_u64_less [of w] by (simp add: encode_sequence_def u64_to_be_def nat_of_be_be_of_nat del: unat_u64_less)
qed

lemma sequence_key_iff: "length k = 8 \<Longrightarrow> k = encode_sequence w \<longleftrightarrow> nat_of_be k = unat w"
proof -
  assume "length k = 8"
  then have k: "encode_sequence (u64_from_be k) = k" by (simp add: encode_sequence_def u64_to_from_be)
  have "k = encode_sequence w \<longleftrightarrow> u64_from_be k = w"
    using k by (metis encode_sequence_def u64_from_to_be)
  also have "\<dots> \<longleftrightarrow> nat_of_be k = unat w"
    using sequence_code(2) [of "u64_from_be k"] k by (simp add: word_unat_eq_iff)
  finally show ?thesis .
qed

lemma length_encode_metadata [simp]: "length (encode_metadata m) = METADATA_BYTES"
  by (simp add: encode_metadata_def METADATA_BYTES_def)

lemma decode_encode_metadata: "metadata_is_valid m \<Longrightarrow> decode_metadata (encode_metadata m) = Some m"
  by (cases m) (simp add: decode_metadata_def encode_metadata_def METADATA_BYTES_def Let_def)

lemma decode_metadata_canonical:
  assumes "decode_metadata bs = Some m"
  shows "encode_metadata m = bs" and "metadata_is_valid m"
proof -
  have len: "length bs = 24" using assms by (auto simp: decode_metadata_def METADATA_BYTES_def split: if_splits)
  have m: "m = \<lparr>head = u64_from_be (take 8 bs), tail = u64_from_be (take 8 (drop 8 bs)),
      queued_bytes = u64_from_be (drop 16 bs)\<rparr>" and valid: "metadata_is_valid m"
    using assms by (auto simp: decode_metadata_def Let_def split: if_splits)
  have "take 8 bs @ take 8 (drop 8 bs) @ drop 16 bs = bs"
    using append_take_drop_id [of 8 bs] append_take_drop_id [of 8 "drop 8 bs"] by simp
  then show "encode_metadata m = bs"
    using len by (simp add: m encode_metadata_def u64_to_from_be)
  show "metadata_is_valid m" by (rule valid)
qed

lemma metadata_is_valid_bounds:
  assumes "metadata_is_valid m"
  shows "unat (head m) < unat (tail m)" and "8 * (unat (tail m) - unat (head m)) \<le> unat (queued_bytes m)"
proof -
  obtain len least where sub: "checked_sub_u64 (tail m) (head m) = Some len" and "len \<noteq> 0"
      and mul: "checked_mul_u64 len SEQUENCE_BYTES = Some least" and le: "least \<le> queued_bytes m"
    using assms by (auto simp: metadata_is_valid_def split: option.splits if_splits)
  have "unat (tail m) = unat (head m) + unat len" using sub by (simp only: checked_sub_u64_Some)
  moreover have "unat len \<noteq> 0" using \<open>len \<noteq> 0\<close> by (simp add: unat_eq_zero)
  moreover have "unat least = unat len * 8" using mul by (simp add: checked_mul_u64_Some SEQUENCE_BYTES_def)
  moreover have "unat least \<le> unat (queued_bytes m)" using le by (simp add: word_le_nat_alt)
  ultimately show "unat (head m) < unat (tail m)" "8 * (unat (tail m) - unat (head m)) \<le> unat (queued_bytes m)"
    by simp_all
qed

lemma meta_of_valid: "queue_fits h vs \<Longrightarrow> vs \<noteq> [] \<Longrightarrow> metadata_is_valid (meta_of h vs)"
proof -
  assume fits: "queue_fits h vs" and "vs \<noteq> []"
  then have len: "0 < length vs" "h + length vs < 2 ^ 64" "total_bytes vs < 2 ^ 64"
    by (simp_all add: queue_fits_def)
  have min: "length vs * 8 < 2 ^ 64" using total_bytes_ge [of vs] len by linarith
  have sub: "checked_sub_u64 (of_nat (h + length vs)) (of_nat h) = Some (of_nat (length vs))"
    unfolding checked_sub_u64_Some using len by (simp only: unat_of_nat_u64)
  have mul: "checked_mul_u64 (of_nat (length vs)) SEQUENCE_BYTES = Some (of_nat (length vs * 8))"
    unfolding checked_mul_u64_Some SEQUENCE_BYTES_def using len min by (simp only: unat_of_nat_u64) simp
  have "(of_nat (length vs * 8) :: u64) \<le> of_nat (total_bytes vs)"
    using len min total_bytes_ge [of vs] by (simp only: word_le_nat_alt unat_of_nat_u64)
  moreover have "(of_nat (length vs) :: u64) \<noteq> 0"
    using len by (metis add_lessD1 add.commute neq0_conv unat_0 unat_of_nat_u64)
  ultimately show ?thesis
    unfolding metadata_is_valid_def meta_of_def metadata.simps sub by (simp only: mul option.case if_False)
qed

lemma encoded_item_bytes_ok: "n + 8 < 2 ^ 64 \<Longrightarrow> encoded_item_bytes n = Inr (of_nat (n + 8))"
proof -
  assume n: "n + 8 < 2 ^ 64"
  then have "checked_add_u64 (of_nat n) SEQUENCE_BYTES = Some (of_nat (n + 8))"
    unfolding checked_add_u64_Some SEQUENCE_BYTES_def by (simp only: unat_of_nat_u64 add_lessD1) simp
  with n show ?thesis by (simp add: encoded_item_bytes_def u64_max_def)
qed

lemma entry_cells_sequence:
  "entry_cells h vs (encode_sequence w) =
     (if h \<le> unat w \<and> unat w < h + length vs then Some (vs ! (unat w - h)) else None)"
  by (simp add: entry_cells_def)

lemma entry_cells_Nil [simp]: "entry_cells h [] = Map.empty" "entry_cells h vs [] = None"
  by (auto simp: entry_cells_def)

lemma entry_cells_push:
  assumes "h + length vs < 2 ^ 64"
  shows "(entry_cells h vs)(encode_sequence (of_nat (h + length vs)) \<mapsto> v) = entry_cells h (vs @ [v])"
proof
  fix k
  have "k = encode_sequence (of_nat (h + length vs)) \<longleftrightarrow> length k = 8 \<and> nat_of_be k = h + length vs"
    using sequence_key_iff [of k "of_nat (h + length vs)"] assms
    by (metis sequence_code(1) unat_of_nat_u64)
  then show "((entry_cells h vs)(encode_sequence (of_nat (h + length vs)) \<mapsto> v)) k = entry_cells h (vs @ [v]) k"
    by (auto simp: entry_cells_def nth_append)
qed

lemma entry_cells_pop:
  assumes "h < 2 ^ 64"
  shows "(entry_cells h (v # vs))(encode_sequence (of_nat h) := None) = entry_cells (Suc h) vs"
proof
  fix k
  have "k = encode_sequence (of_nat h) \<longleftrightarrow> length k = 8 \<and> nat_of_be k = h"
    using sequence_key_iff [of k "of_nat h"] assms by (metis sequence_code(1) unat_of_nat_u64)
  then show "((entry_cells h (v # vs))(encode_sequence (of_nat h) := None)) k = entry_cells (Suc h) vs k"
    by (auto simp: entry_cells_def nth_Cons')
qed

text \<open>The same under a metadata entry, which has another key.\<close>

lemma entry_cells_pop_meta:
  "h < 2 ^ 64 \<Longrightarrow> (entry_cells h (v # vs))([] := x, encode_sequence (of_nat h) := None) = (entry_cells (Suc h) vs)([] := x)"
  using entry_cells_pop [of h v vs] by (metis fun_upd_twist sequence_code(3))

lemma entry_cells_push_meta:
  "h + length vs < 2 ^ 64 \<Longrightarrow> (entry_cells h vs)([] := x, encode_sequence (of_nat (h + length vs)) \<mapsto> v, [] := y) =
     (entry_cells h (vs @ [v]))([] := y)"
  using entry_cells_push [of h vs v] by (metis fun_upd_twist fun_upd_upd sequence_code(3))

section \<open>Refinement\<close>

lemma wp_queue_fail [simp]:
  "wp (queue_fail e) Q R t = R e (if poisons_transaction e then t\<lparr>poisoned := True\<rparr> else t)"
  by (simp add: queue_fail_def)

lemma decode_bounded_vec:
  "decode_bounded_value vec_value stored n = (case stored of None \<Rightarrow> Inr None
     | Some v \<Rightarrow> if length v > n then Inl (ItemTooLarge (length v) n) else Inr (Some v))"
  by (simp add: decode_bounded_value_def vec_value_def split: option.split)

lemma queue_cells_simps:
  "queue_cells h vs [] = (if vs = [] then None else Some (encode_metadata (meta_of h vs)))"
  "queue_cells h vs (encode_sequence w) = entry_cells h vs (encode_sequence w)"
  "queue_cells h [] = Map.empty"
  by (simp_all add: queue_cells_def)

lemma meta_of_Nil: "meta_of 0 [] = metadata_EMPTY"
  by (simp add: meta_of_def metadata_EMPTY_def)

lemma meta_of_is_empty: "queue_fits h vs \<Longrightarrow> metadata_is_empty (meta_of h vs) \<longleftrightarrow> vs = []"
proof -
  assume "queue_fits h vs"
  then have "unat (of_nat h :: u64) = h" "unat (of_nat (h + length vs) :: u64) = h + length vs"
    by (auto simp only: queue_fits_def intro!: unat_of_nat_u64)
  then show ?thesis
    by (auto simp: metadata_is_empty_def meta_of_def word_unat_eq_iff)
qed

lemma wp_read_metadata [wp_intros]:
  assumes laws: "engine_laws E V" and succ: "prefix_successor p = Some u" and healthy: "\<not> ref_poisoned r"
    and rep: "queue_at (V (ref_view r)) p h vs"
    and Q: "Q (meta_of h vs) r"
    and R: "\<And>op m. \<not> engine_reliable E \<Longrightarrow> R (Storage op m) (ref_poison r)"
  shows "wp (read_metadata E p) Q R r"
proof -
  have cells: "V (ref_view r) (p @ k) = queue_cells h vs k" for k
    using rep by (simp add: queue_at_def namespace_app [symmetric])
  have cell0: "V (ref_view r) p = (if vs = [] then None else Some (encode_metadata (meta_of h vs)))"
    using cells [of "[]"] by (simp add: queue_cells_simps)
  show ?thesis
  proof (cases "vs = []")
    case True
    have "wp (is_physically_empty E p) (\<lambda>empty. wp (if empty then sem_return metadata_EMPTY
        else (\<lambda>r. ref_record_result (Inl (CorruptQueue ''entries exist without queue metadata'')) r)) Q R) R r"
      by (rule wp_is_physically_empty [OF laws succ healthy])
        (use True Q R rep in \<open>auto simp: cells queue_cells_simps meta_of_Nil queue_at_def\<close>)
    with True show ?thesis
      using R
      by (auto simp: read_metadata_def METADATA_KEY_def cell0 decode_bounded_vec
          intro!: wp_get_bounded [OF laws healthy])
  next
    case False
    have "decode_metadata (encode_metadata (meta_of h vs)) = Some (meta_of h vs)"
      using rep False by (intro decode_encode_metadata meta_of_valid) (simp_all add: queue_at_def)
    with False show ?thesis
      using Q R
      by (auto simp: read_metadata_def METADATA_KEY_def cell0 decode_bounded_vec
          intro!: wp_get_bounded [OF laws healthy])
  qed
qed

lemma queue_front:
  assumes "queue_at m p h (v # vs)"
  shows "m (p @ encode_sequence (of_nat h)) = Some v" "h < 2 ^ 64"
    "length v + 8 < 2 ^ 64" "total_bytes vs < 2 ^ 64" "length v + 8 + total_bytes vs < 2 ^ 64"
proof -
  show *: "h < 2 ^ 64" using assms by (simp add: queue_at_def queue_fits_def)
  have "m (p @ encode_sequence (of_nat h)) = entry_cells h (v # vs) (encode_sequence (of_nat h))"
    using assms by (simp add: queue_at_def queue_cells_simps namespace_app [symmetric])
  with * show "m (p @ encode_sequence (of_nat h)) = Some v"
    by (simp add: entry_cells_sequence unat_of_nat_u64)
qed (use assms in \<open>simp_all add: queue_at_def queue_fits_def\<close>)

lemma wp_read_front [wp_intros]:
  assumes laws: "engine_laws E V" and healthy: "\<not> ref_poisoned r"
    and rep: "queue_at (V (ref_view r)) p h (v # vs)"
    and ok: "\<And>x. length v \<le> n \<Longrightarrow> decode_value CV v = Inr x \<Longrightarrow> Q (x, of_nat (total_bytes vs)) r"
    and large: "n < length v \<Longrightarrow> R (ItemTooLarge (length v) n) r"
    and undecodable: "\<And>c. length v \<le> n \<Longrightarrow> decode_value CV v = Inl c \<Longrightarrow> R (Codec c) (ref_poison r)"
    and err: "\<And>op m. \<not> engine_reliable E \<Longrightarrow> R (Storage op m) (ref_poison r)"
  shows "wp (read_front E CV p (meta_of h (v # vs)) n) Q R r"
proof -
  note front = queue_front [OF rep]
  have hd': "head (meta_of h (v # vs)) = of_nat h" by (simp add: meta_of_def)
  have "queued_bytes (meta_of h (v # vs)) = of_nat (length v + 8 + total_bytes vs)" by (simp add: meta_of_def)
  then have sub: "checked_sub_u64 (queued_bytes (meta_of h (v # vs))) (of_nat (length v + 8))
      = Some (of_nat (total_bytes vs))"
    unfolding checked_sub_u64_Some using front(3-5) by (simp only: unat_of_nat_u64)
  show ?thesis
    unfolding read_front_def wp_bind hd'
    by (rule wp_get_bounded [OF laws healthy])
      (use ok large undecodable err in \<open>auto simp: front(1) decode_bounded_vec encoded_item_bytes_ok [OF front(3)] sub
        simp del: of_nat_add split: sum.split if_splits\<close>)
qed

lemma wp_write_metadata [wp_intros]:
  assumes "engine_laws E V" "\<not> poisoned t" "queue_fits h vs" "vs \<noteq> []" "m = meta_of h vs"
    and "\<And>s. V s = (V (inner t))(p @ [] \<mapsto> encode_metadata (meta_of h vs)) \<Longrightarrow>
      Q () (t\<lparr>inner := s, has_writes := True\<rparr>)"
    and "\<And>m. \<not> engine_reliable E \<Longrightarrow> R (Storage ''write data'' m) (t\<lparr>poisoned := True\<rparr>)"
  shows "wp (write_metadata E p m) Q R t"
  unfolding write_metadata_def METADATA_KEY_def using assms meta_of_valid [OF assms(3,4)]
  by (auto intro!: wp_data_put [OF assms(1,2)])

text \<open>
  The removal of front entries ends with the metadata of the remaining entries; until then the old
  metadata \<open>old\<close> is still stored.
\<close>

lemma wp_finish_front_removal [wp_intros]:
  assumes laws: "engine_laws E V" and succ: "prefix_successor p = Some u" and healthy: "\<not> poisoned t"
    and cells: "namespace (V (inner t)) p = (entry_cells h vs)([] \<mapsto> old)" and fits: "queue_fits h vs"
    and Q: "\<And>t'. queue_rep (V (inner t')) p vs \<Longrightarrow> outside p (V (inner t)) (V (inner t')) \<Longrightarrow>
      \<not> poisoned t' \<Longrightarrow> Q (vs = []) t'"
    and R: "\<And>e t'. fault E e t' \<Longrightarrow> R e t'"
  shows "wp (finish_front_removal E p (of_nat h) (of_nat (h + length vs)) (of_nat (total_bytes vs))) Q R t"
proof (cases "vs = []")
  case True
  have "wp (finish_front_removal E p (of_nat h) (of_nat h) 0) Q R t"
    unfolding finish_front_removal_def METADATA_KEY_def simp_thms if_True if_False wp_bind
  proof (rule wp_data_erase [OF laws healthy])
    fix s
    assume s: "V s = (V (inner t))(p @ [] := None)"
    have ns: "namespace (V s) p = Map.empty" using cells True by (simp add: s)
    then have none: "V s (p @ k) = None" for k by (metis namespace_app)
    have fin: "Q (vs = []) (t\<lparr>inner := s, has_writes := True\<rparr>)"
      using True healthy
      by (intro Q) (simp_all add: queue_rep_def queue_at_def queue_cells_simps queue_fits_def ns, simp add: s)
    show "wp (as_read (is_physically_empty E p)) (\<lambda>empty. wp (if \<not> empty then
        queue_fail (CorruptQueue ''entries exist outside the queued range'') else sem_return True) Q R) R
      (t\<lparr>inner := s, has_writes := True\<rparr>)"
      unfolding wp_as_read
      by (rule wp_is_physically_empty [OF laws succ])
        (use healthy none True fin in \<open>auto simp: fault_def dom_def intro!: R\<close>)
  qed (auto intro!: R simp: fault_def)
  with True show ?thesis by simp
next
  case False
  have neq: "(of_nat h :: u64) \<noteq> of_nat (h + length vs)"
    using fits False unat_of_nat_u64 [of h] unat_of_nat_u64 [of "h + length vs"]
    by (auto simp: queue_fits_def simp del: of_nat_add dest: arg_cong [of _ _ unat])
  have "entry_cells h vs (encode_sequence (of_nat h)) \<noteq> None"
    using fits False by (simp add: entry_cells_sequence unat_of_nat_u64 queue_fits_def)
  then have next_front: "p @ encode_sequence (of_nat h) \<in> dom (V (inner t))"
    using fun_cong [OF cells, of "encode_sequence (of_nat h)"] by (auto simp: namespace_app)
  have wr: "wp (write_metadata E p \<lparr>head = of_nat h, tail = of_nat (h + length vs),
      queued_bytes = of_nat (total_bytes vs)\<rparr>) (\<lambda>_. wp (sem_return False) Q R) R t"
  proof (rule wp_write_metadata [OF laws healthy fits False])
    fix s
    assume s: "V s = (V (inner t))(p @ [] \<mapsto> encode_metadata (meta_of h vs))"
    have "Q (vs = []) (t\<lparr>inner := s, has_writes := True\<rparr>)"
      using False cells fits healthy s
      by (intro Q) (auto simp: queue_rep_def queue_at_def queue_cells_def)
    with False show "wp (sem_return False) Q R (t\<lparr>inner := s, has_writes := True\<rparr>)" by simp
  qed (auto simp: meta_of_def fault_def intro!: R)
  show ?thesis
    unfolding finish_front_removal_def wp_bind wp_as_read
    using neq next_front healthy wr
    by (auto simp: fault_def simp del: of_nat_add intro!: wp_contains_key [OF laws] R)
qed

lemma wp_pop_front_bounded [wp_intros]:
  assumes laws: "engine_laws E V" and succ: "prefix_successor p = Some u" and healthy: "\<not> poisoned t"
    and rep: "queue_rep (V (inner t)) p vs"
    and none: "vs = [] \<Longrightarrow> Q None t"
    and some: "\<And>v ws x t'. vs = v # ws \<Longrightarrow> length v \<le> n \<Longrightarrow> decode_value CV v = Inr x \<Longrightarrow>
      queue_rep (V (inner t')) p ws \<Longrightarrow> outside p (V (inner t)) (V (inner t')) \<Longrightarrow> \<not> poisoned t' \<Longrightarrow>
      Q (Some (x, ws = [])) t'"
    and large: "\<And>v ws. vs = v # ws \<Longrightarrow> n < length v \<Longrightarrow> R (ItemTooLarge (length v) n) t"
    and undecodable: "\<And>v ws c. vs = v # ws \<Longrightarrow> length v \<le> n \<Longrightarrow> decode_value CV v = Inl c \<Longrightarrow>
      R (Codec c) (t\<lparr>poisoned := True\<rparr>)"
    and err: "\<And>e t'. fault E e t' \<Longrightarrow> R e t'"
  shows "wp (pop_front_bounded E CV p n) Q R t"
proof -
  obtain h where at: "queue_at (V (inner t)) p h vs" using rep by (auto simp: queue_rep_def)
  then have empty: "metadata_is_empty (meta_of h vs) \<longleftrightarrow> vs = []"
    by (simp add: queue_at_def meta_of_is_empty)
  have pop: "wp (as_read (read_front E CV p (meta_of h vs) n)) (\<lambda>a. wp (case a of (v, remaining) \<Rightarrow>
        sem_bind (data_erase E p (encode_sequence (head (meta_of h vs)))) (\<lambda>_.
        sem_bind (finish_front_removal E p (head (meta_of h vs) + 1) (tail (meta_of h vs)) remaining) (\<lambda>empty_after.
          sem_return (Some (v, empty_after))))) Q R) R t" if "vs = v # ws" for v ws
    unfolding wp_as_read \<open>vs = v # ws\<close>
  proof (rule wp_read_front [OF laws _ at [folded ref_view.simps(2), unfolded \<open>vs = v # ws\<close>]])
    fix x
    assume fits: "length v \<le> n" and dec: "decode_value CV v = Inr x"
    have meta: "head (meta_of h (v # ws)) = of_nat h" "(of_nat h :: u64) + 1 = of_nat (Suc h)"
      "tail (meta_of h (v # ws)) = of_nat (Suc h + length ws)"
      by (simp_all add: meta_of_def)
    show "wp (case (x, word_of_nat (total_bytes ws)) of (v', remaining) \<Rightarrow>
        sem_bind (data_erase E p (encode_sequence (head (meta_of h (v # ws))))) (\<lambda>_.
        sem_bind (finish_front_removal E p (head (meta_of h (v # ws)) + 1) (tail (meta_of h (v # ws))) remaining)
          (\<lambda>empty_after. sem_return (Some (v', empty_after))))) Q R (write_of t (Write t))"
      unfolding prod.case wp_bind write_of_Write meta
    proof (rule wp_data_erase [OF laws healthy])
      fix s
      assume s: "V s = (V (inner t))(p @ encode_sequence (of_nat h) := None)"
      let ?t = "t\<lparr>inner := s, has_writes := True\<rparr>"
      have cells: "namespace (V (inner ?t)) p = (entry_cells (Suc h) ws)([] \<mapsto> encode_metadata (meta_of h (v # ws)))"
        using at queue_front(2) [OF at [unfolded \<open>vs = v # ws\<close>]] \<open>vs = v # ws\<close>
        by (simp add: s queue_at_def queue_cells_def entry_cells_pop_meta)
      have out: "outside p (V (inner t)) (V s)" by (simp add: s)
      show "wp (finish_front_removal E p (of_nat (Suc h)) (of_nat (Suc h + length ws)) (of_nat (total_bytes ws)))
          (\<lambda>a. wp (sem_return (Some (x, a))) Q R) R ?t"
        by (rule wp_finish_front_removal [OF laws succ _ cells])
          (use at healthy fits dec \<open>vs = v # ws\<close> in
            \<open>auto simp: queue_at_def queue_fits_def intro!: some err outside_trans [OF out]\<close>)
    qed (auto intro!: err simp: fault_def)
  qed (use healthy large undecodable err \<open>vs = v # ws\<close> in \<open>auto simp: fault_def\<close>)
  show ?thesis
    unfolding pop_front_bounded_def wp_bind wp_as_read
  proof (rule wp_read_metadata [OF laws succ _ at [folded ref_view.simps(2)]], goal_cases)
    case 2
    show ?case
    proof (cases vs)
      case Nil
      then show ?thesis using none empty by simp
    next
      case (Cons v ws)
      with empty show ?thesis using pop [OF Cons] by (simp only: wp_bind write_of_Write if_False simp_thms list.distinct)
    qed
  qed (use healthy err in \<open>auto simp: fault_def\<close>)
qed

subsection \<open>Pushing\<close>

lemma meta_of_unat:
  assumes "queue_fits h vs"
  shows "unat (head (meta_of h vs)) = h" "unat (tail (meta_of h vs)) = h + length vs"
    "unat (queued_bytes (meta_of h vs)) = total_bytes vs"
proof -
  have "h < 2 ^ 64" "h + length vs < 2 ^ 64" "total_bytes vs < 2 ^ 64"
    using assms by (simp_all add: queue_fits_def)
  then show "unat (head (meta_of h vs)) = h" "unat (tail (meta_of h vs)) = h + length vs"
    "unat (queued_bytes (meta_of h vs)) = total_bytes vs"
    by (simp_all only: meta_of_def metadata.simps unat_of_nat_u64)
qed

lemma queue_entry:
  "queue_at m p h vs \<Longrightarrow> m (p @ encode_sequence w) =
     (if h \<le> unat w \<and> unat w < h + length vs then Some (vs ! (unat w - h)) else None)"
  by (simp add: queue_at_def queue_cells_simps entry_cells_sequence namespace_app [symmetric])

lemma queue_at_unique:
  assumes "queue_at m p h vs" "queue_at m p h' vs"
  shows "h = h'"
proof (cases "vs = []")
  case False
  have "queue_cells h vs [] = queue_cells h' vs []" using assms by (simp add: queue_at_def)
  then have "u64_to_be (head (meta_of h vs)) = u64_to_be (head (meta_of h' vs))"
    using False by (simp add: queue_cells_simps encode_metadata_def)
  then have "unat (head (meta_of h vs)) = unat (head (meta_of h' vs))" by (simp only: u64_to_be_inject)
  moreover have "queue_fits h vs" "queue_fits h' vs" using assms by (simp_all add: queue_at_def)
  ultimately show ?thesis by (simp only: meta_of_unat(1))
qed (use assms in \<open>simp add: queue_at_def\<close>)

lemma before_tail:
  assumes at: "queue_at m p h vs" and "vs \<noteq> []"
  shows "p @ encode_sequence (tail (meta_of h vs) - 1) \<in> dom m"
proof -
  have len: "0 < length vs" "queue_fits h vs" using assms by (simp_all add: queue_at_def)
  then have "1 \<le> h + length vs" by linarith
  then have "unat (tail (meta_of h vs) - 1) = h + length vs - 1"
    using meta_of_unat(2) [OF len(2)] by (subst unat_sub) (simp_all add: word_le_nat_alt)
  with len have "h \<le> unat (tail (meta_of h vs) - 1)" "unat (tail (meta_of h vs) - 1) < h + length vs"
    by linarith+
  then show ?thesis by (simp add: domIff queue_entry [OF at])
qed

lemma behind_tail: "queue_at m p h vs \<Longrightarrow> p @ encode_sequence (tail (meta_of h vs)) \<notin> dom m"
  using queue_entry [of m p h vs "tail (meta_of h vs)"] meta_of_unat(2) [of h vs]
  by (simp add: domIff queue_at_def)

lemma push_admission:
  assumes "queue_fits h vs" "0 < n" "n < 2 ^ 64"
  shows "queued_bytes (meta_of h vs) \<ge> capacity \<or> of_nat n > capacity - queued_bytes (meta_of h vs) \<longleftrightarrow>
    unat capacity < total_bytes vs + n"
proof (cases "capacity \<le> queued_bytes (meta_of h vs)")
  case True
  then have "unat capacity \<le> total_bytes vs" by (simp add: word_le_nat_alt meta_of_unat [OF assms(1)])
  with True assms(2) show ?thesis by auto
next
  case False
  then have "unat (capacity - queued_bytes (meta_of h vs)) = unat capacity - total_bytes vs"
    using meta_of_unat(3) [OF assms(1)] by (subst unat_sub) (simp_all add: word_le_nat_alt)
  moreover have "total_bytes vs < unat capacity"
    using False by (simp add: word_le_nat_alt meta_of_unat [OF assms(1)])
  ultimately show ?thesis
    using False unat_of_nat_u64 [OF assms(3)] by (auto simp: word_less_nat_alt)
qed

lemma meta_of_push:
  assumes "queue_fits h vs" "length v + 8 < 2 ^ 64"
    and "checked_add_u64 (tail (meta_of h vs)) 1 = Some tail'"
    and "checked_add_u64 (queued_bytes (meta_of h vs)) (of_nat (length v + 8)) = Some queued'"
  shows "\<lparr>head = head (meta_of h vs), tail = tail', queued_bytes = queued'\<rparr> = meta_of h (vs @ [v])"
    and "queue_fits h (vs @ [v])"
proof -
  have "unat tail' = Suc (h + length vs)" "unat queued' = total_bytes vs + (length v + 8)"
    using assms(3,4) meta_of_unat [OF assms(1)] unat_of_nat_u64 [OF assms(2)]
    by (simp_all add: checked_add_u64_Some del: of_nat_add)
  moreover have "tail' = of_nat (unat tail')" "queued' = of_nat (unat queued')" by simp_all
  ultimately show "\<lparr>head = head (meta_of h vs), tail = tail', queued_bytes = queued'\<rparr> = meta_of h (vs @ [v])"
    "queue_fits h (vs @ [v])"
    using unat_u64_less [of tail'] unat_u64_less [of queued']
    by (simp_all add: meta_of_def queue_fits_def del: unat_u64_less)
qed

lemma wp_push_store:
  assumes laws: "engine_laws E V" and healthy: "\<not> poisoned t" and at: "queue_at (V (inner t)) p h vs"
    and m: "m = meta_of h vs" and meta: "m' = meta_of h (vs @ [v])" and fits: "queue_fits h (vs @ [v])"
    and Q: "\<And>t'. queue_rep (V (inner t')) p (vs @ [v]) \<Longrightarrow> outside p (V (inner t)) (V (inner t')) \<Longrightarrow>
      \<not> poisoned t' \<Longrightarrow> Q t'"
    and err: "\<And>e t'. fault E e t' \<Longrightarrow> R e t'"
  shows "wp (data_put E p (encode_sequence (tail m)) v) (\<lambda>_. wp (write_metadata E p m') (\<lambda>_. Q) R) R t"
proof (rule wp_data_put [OF laws healthy])
  fix s
  assume s: "V s = (V (inner t))(p @ encode_sequence (tail m) \<mapsto> v)"
  let ?t = "t\<lparr>inner := s, has_writes := True\<rparr>"
  show "wp (write_metadata E p m') (\<lambda>_. Q) R ?t"
  proof (rule wp_write_metadata [OF laws _ fits _ meta])
    fix s'
    assume "V s' = (V (inner ?t))(p @ [] \<mapsto> encode_metadata (meta_of h (vs @ [v])))"
    then have s': "V s' = (V (inner t))(p @ encode_sequence (tail m) \<mapsto> v, p @ [] \<mapsto> encode_metadata (meta_of h (vs @ [v])))"
      by (simp add: s)
    have "h + length vs < 2 ^ 64" using at by (simp add: queue_at_def queue_fits_def)
    then have "namespace (V s') p = queue_cells h (vs @ [v])"
      using at entry_cells_push_meta [of h vs]
      by (simp only: s' namespace_upd) (simp add: queue_at_def queue_cells_def m meta_of_def)
    moreover have "outside p (V (inner t)) (V s')" by (simp only: s' outside_upd outside_refl)
    ultimately show "Q (?t\<lparr>inner := s', has_writes := True\<rparr>)"
      using healthy fits by (auto intro!: Q simp: queue_rep_def queue_at_def)
  qed (use healthy in \<open>auto simp: fault_def intro!: err\<close>)
qed (auto simp: fault_def intro!: err)

lemma wp_try_push [wp_intros]:
  assumes laws: "engine_laws E V" and succ: "prefix_successor p = Some u" and healthy: "\<not> poisoned t"
    and rep: "queue_rep (V (inner t)) p vs"
    and enc: "encode_value CV x = Inr v" and size: "length v + 8 < 2 ^ 64"
    and full: "unat capacity < total_bytes vs + (length v + 8) \<Longrightarrow> Q False t"
    and pushed: "\<And>t'. total_bytes vs + (length v + 8) \<le> unat capacity \<Longrightarrow>
      queue_rep (V (inner t')) p (vs @ [v]) \<Longrightarrow> outside p (V (inner t)) (V (inner t')) \<Longrightarrow> \<not> poisoned t' \<Longrightarrow>
      Q True t'"
    and exhausted: "\<And>h. queue_at (V (inner t)) p h vs \<Longrightarrow> h + length vs = 2 ^ 64 - 1 \<Longrightarrow>
      R QueueSequenceExhausted (t\<lparr>poisoned := True\<rparr>)"
    and err: "\<And>e t'. fault E e t' \<Longrightarrow> R e t'"
  shows "wp (try_push E CV p x capacity) Q R t"
proof -
  obtain h where at: "queue_at (V (inner t)) p h vs" using rep by (auto simp: queue_rep_def)
  define m where "m = meta_of h vs"
  have fits: "queue_fits h vs" using at by (simp add: queue_at_def)
  note empty = meta_of_is_empty [OF fits, folded m_def]
    and before = before_tail [OF at, folded m_def] and behind = behind_tail [OF at, folded m_def]
    and store = wp_push_store [OF laws healthy at m_def]
    and meta = meta_of_push [OF fits size, folded m_def]
  have admit: "queued_bytes m \<ge> capacity \<or> of_nat (length v + 8) > capacity - queued_bytes m \<longleftrightarrow>
      unat capacity < total_bytes vs + (length v + 8)"
    unfolding m_def by (rule push_admission [OF fits _ size]) simp
  have accounted: "\<exists>queued'. checked_add_u64 (queued_bytes m) (of_nat (length v + 8)) = Some queued'"
    if "total_bytes vs + (length v + 8) \<le> unat capacity"
  proof (rule ccontr)
    assume "\<not> ?thesis"
    then have "2 ^ 64 \<le> total_bytes vs + (length v + 8)"
      using meta_of_unat(3) [OF fits] unat_of_nat_u64 [OF size]
      by (simp add: m_def checked_add_u64_None del: of_nat_add)
    with that unat_u64_less [of capacity] show False by linarith
  qed
  have sequence: "h + length vs = 2 ^ 64 - 1" if "checked_add_u64 (tail m) 1 = None"
    using that meta_of_unat(2) [OF fits] fits by (simp add: m_def checked_add_u64_None queue_fits_def)
  show ?thesis
    unfolding try_push_def wp_bind wp_as_read
  proof (rule wp_read_metadata [OF laws succ _ at [folded ref_view.simps(2)], folded m_def], goal_cases)
    case 2
    have push: "wp (data_put E p (encode_sequence (tail m)) v) (\<lambda>_. wp (sem_bind (write_metadata E p
        \<lparr>head = head m, tail = tail', queued_bytes = queued'\<rparr>) (\<lambda>_. sem_return True)) Q R) R t"
      if "total_bytes vs + (length v + 8) \<le> unat capacity" "checked_add_u64 (tail m) 1 = Some tail'"
        "checked_add_u64 (queued_bytes m) (of_nat (length v + 8)) = Some queued'" for tail' queued'
      by (rule wp_mono [OF store [OF meta [OF that(2,3)], where Q = "Q True" and R = R]])
        (use that(1) pushed err in \<open>auto simp: wp_return_fun\<close>)
    show ?case
      using healthy enc before behind full exhausted [OF at] sequence accounted push err
      by (auto simp: Let_def empty encoded_item_bytes_ok [OF size] admit fault_def simp del: of_nat_add
          split: option.split intro!: wp_contains_key [OF laws])
  qed (use healthy err in \<open>auto simp: fault_def\<close>)
qed

subsection \<open>Discarding\<close>

lemma of_nat_u64_eq_iff: "a < 2 ^ 64 \<Longrightarrow> b < 2 ^ 64 \<Longrightarrow> (of_nat a :: u64) = of_nat b \<longleftrightarrow> a = b"
  by (metis unat_of_nat_u64)

lemma wp_discard_loop:
  assumes "engine_laws E V" and "\<not> poisoned t"
    and "namespace (V (inner t)) p = (entry_cells h vs)([] \<mapsto> old)" and "queue_fits h vs"
    and "\<And>t'. namespace (V (inner t')) p = (entry_cells (h + min n (length vs)) (drop n vs))([] \<mapsto> old) \<Longrightarrow>
      outside p (V (inner t)) (V (inner t')) \<Longrightarrow> \<not> poisoned t' \<Longrightarrow>
      Q (of_nat (h + min n (length vs)), of_nat (total_bytes (drop n vs))) t'"
    and "\<And>e t'. fault E e t' \<Longrightarrow> R e t'"
  shows "wp (discard_loop E p (of_nat (h + length vs)) n (of_nat h) (of_nat (total_bytes vs))) Q R t"
  using assms(2-5)
proof (induction n arbitrary: h vs t)
  case 0
  then show ?case by simp
next
  case (Suc n)
  show ?case
  proof (cases vs)
    case Nil
    then show ?thesis using Suc.prems by simp
  next
    case (Cons v ws)
    have bounds: "h < 2 ^ 64" "h + length vs < 2 ^ 64" "length v + 8 < 2 ^ 64" "total_bytes ws < 2 ^ 64"
      "total_bytes vs < 2 ^ 64" "queue_fits (Suc h) ws"
      using Suc.prems(3) Cons by (simp_all add: queue_fits_def)
    have stored: "V (inner t) (p @ encode_sequence (of_nat h)) = Some v"
      using fun_cong [OF Suc.prems(2), of "encode_sequence (of_nat h)"] bounds Cons
      by (simp add: namespace_app entry_cells_sequence unat_of_nat_u64)
    have sub: "checked_sub_u64 (of_nat (total_bytes vs)) (of_nat (length v + 8)) = Some (of_nat (total_bytes ws))"
      unfolding checked_sub_u64_Some using bounds(3-5) Cons
      by (simp only: unat_of_nat_u64) simp
    have rest: "wp (discard_loop E p (of_nat (h + length vs)) n (of_nat h + 1) (of_nat (total_bytes ws))) Q R
        (t\<lparr>inner := s, has_writes := True\<rparr>)"
      if s: "V s = (V (inner t))(p @ encode_sequence (of_nat h) := None)" for s
    proof -
      let ?t = "t\<lparr>inner := s, has_writes := True\<rparr>"
      have out: "outside p (V (inner t)) (V s)" by (simp add: s)
      have "wp (discard_loop E p (of_nat (Suc h + length ws)) n (of_nat (Suc h)) (of_nat (total_bytes ws))) Q R ?t"
      proof (rule Suc.IH)
        have "namespace (V s) p = (namespace (V (inner t)) p)(encode_sequence (of_nat h) := None)"
          by (simp only: s namespace_upd)
        also have "\<dots> = (entry_cells (Suc h) ws)([] \<mapsto> old)"
          by (simp only: Suc.prems(2) Cons entry_cells_pop_meta [OF bounds(1)])
        finally show "namespace (V (inner ?t)) p = (entry_cells (Suc h) ws)([] \<mapsto> old)" by simp
      qed (use Suc.prems(1,4) Cons bounds(6) in \<open>auto intro: outside_trans [OF out]\<close>)
      then show ?thesis using Cons by (simp add: add.commute)
    qed
    have "(of_nat h :: u64) \<noteq> of_nat (h + length vs)"
      using bounds Cons of_nat_u64_eq_iff [of h "h + length vs"] by simp
    then show ?thesis
      using Suc.prems(1) stored sub rest assms(6)
      by (auto simp: encoded_item_bytes_ok [OF bounds(3)] fault_def simp del: of_nat_add
          intro!: wp_value_len [OF assms(1)] wp_data_erase [OF assms(1)])
  qed
qed

lemma wp_discard_front [wp_intros]:
  assumes laws: "engine_laws E V" and succ: "prefix_successor p = Some u" and healthy: "\<not> poisoned t"
    and rep: "queue_rep (V (inner t)) p vs"
    and Q: "\<And>t'. queue_rep (V (inner t')) p (drop n vs) \<Longrightarrow> outside p (V (inner t)) (V (inner t')) \<Longrightarrow>
      \<not> poisoned t' \<Longrightarrow> Q (drop n vs = []) t'"
    and R: "\<And>e t'. fault E e t' \<Longrightarrow> R e t'"
  shows "wp (discard_front E p n) Q R t"
proof -
  obtain h where at: "queue_at (V (inner t)) p h vs" using rep by (auto simp: queue_rep_def)
  then have fits: "queue_fits h vs" by (simp add: queue_at_def)
  have meta: "head (meta_of h vs) = of_nat h" "tail (meta_of h vs) = of_nat (h + length vs)"
    "queued_bytes (meta_of h vs) = of_nat (total_bytes vs)" by (simp_all add: meta_of_def)
  have loop: "wp (discard_loop E p (of_nat (h + length vs)) n (of_nat h) (of_nat (total_bytes vs)))
      (\<lambda>a. wp (case a of (hd', remaining) \<Rightarrow> if hd' = of_nat h then sem_return False
         else finish_front_removal E p hd' (of_nat (h + length vs)) remaining) Q R) R t" if "vs \<noteq> []"
  proof (rule wp_discard_loop [OF laws healthy _ fits])
    show "namespace (V (inner t)) p = (entry_cells h vs)([] \<mapsto> encode_metadata (meta_of h vs))"
      using at that by (simp add: queue_at_def queue_cells_def)
    fix t' :: "'a transaction"
    let ?h = "h + min n (length vs)"
    assume cells: "namespace (V (inner t')) p = (entry_cells ?h (drop n vs))([] \<mapsto> encode_metadata (meta_of h vs))"
      and out: "outside p (V (inner t)) (V (inner t'))" and healthy': "\<not> poisoned t'"
    have tot: "total_bytes (drop n vs) \<le> total_bytes vs"
      using total_bytes_simps(3) [of "take n vs" "drop n vs"] by simp
    then have fits': "queue_fits ?h (drop n vs)" using fits by (auto simp: queue_fits_def)
    have same: "(of_nat ?h :: u64) = of_nat h \<longleftrightarrow> n = 0"
    proof -
      have "?h < 2 ^ 64" "h < 2 ^ 64" using fits unfolding queue_fits_def by linarith+
      then show ?thesis using that of_nat_u64_eq_iff [of ?h h] by (simp add: min_def del: of_nat_add)
    qed
    have end': "h + length vs = ?h + length (drop n vs)" by simp
    show "wp (case (of_nat ?h, of_nat (total_bytes (drop n vs))) of (hd', remaining) \<Rightarrow>
        if hd' = of_nat h then sem_return False
        else finish_front_removal E p hd' (of_nat (h + length vs)) remaining) Q R t'"
    proof (cases "n = 0")
      case True
      have "Q (drop n vs = []) t'"
        using cells at that True out healthy'
        by (intro Q) (auto simp: queue_rep_def queue_at_def queue_cells_def)
      with True that show ?thesis by (simp add: same)
    next
      case False
      have "wp (finish_front_removal E p (of_nat ?h) (of_nat (?h + length (drop n vs)))
          (of_nat (total_bytes (drop n vs)))) Q R t'"
        by (rule wp_finish_front_removal [OF laws succ healthy' cells fits'])
          (erule (2) Q [OF _ outside_trans [OF out]], erule R)
      then show ?thesis by (simp only: prod.case same False if_False end' [symmetric])
    qed
  qed (fact R)
  show ?thesis
    unfolding discard_front_def wp_bind wp_as_read
    by (rule wp_read_metadata [OF laws succ _ at [folded ref_view.simps(2)]])
      (use healthy R loop [folded meta] Q [of t] rep in \<open>auto simp: meta_of_is_empty [OF fits] fault_def\<close>)
qed

subsection \<open>Reading\<close>

lemma wp_front_bounded [wp_intros]:
  assumes laws: "engine_laws E V" and succ: "prefix_successor p = Some u" and healthy: "\<not> ref_poisoned r"
    and rep: "queue_rep (V (ref_view r)) p vs"
    and none: "vs = [] \<Longrightarrow> Q None r"
    and some: "\<And>v ws x. vs = v # ws \<Longrightarrow> length v \<le> n \<Longrightarrow> decode_value CV v = Inr x \<Longrightarrow> Q (Some x) r"
    and large: "\<And>v ws. vs = v # ws \<Longrightarrow> n < length v \<Longrightarrow> R (ItemTooLarge (length v) n) r"
    and undecodable: "\<And>v ws c. vs = v # ws \<Longrightarrow> length v \<le> n \<Longrightarrow> decode_value CV v = Inl c \<Longrightarrow>
      R (Codec c) (ref_poison r)"
    and err: "\<And>op m. \<not> engine_reliable E \<Longrightarrow> R (Storage op m) (ref_poison r)"
  shows "wp (front_bounded E CV p n) Q R r"
proof -
  obtain h where at: "queue_at (V (ref_view r)) p h vs" using rep by (auto simp: queue_rep_def)
  then have empty: "metadata_is_empty (meta_of h vs) \<longleftrightarrow> vs = []"
    by (simp add: queue_at_def meta_of_is_empty)
  have front: "wp (read_front E CV p (meta_of h vs) n) (\<lambda>a. wp (case a of (x, _) \<Rightarrow> sem_return (Some x)) Q R) R r"
    if "vs = v # ws" for v ws
    unfolding \<open>vs = v # ws\<close>
    by (rule wp_read_front [OF laws healthy at [unfolded that]]) (use some large undecodable err that in auto)
  show ?thesis
    unfolding front_bounded_def wp_bind
    by (rule wp_read_metadata [OF laws succ healthy at])
      (use none empty front in \<open>cases vs; auto\<close>, use err in auto)
qed

lemma wp_queue_is_empty [wp_intros]:
  assumes "engine_laws E V" "prefix_successor p = Some u" "\<not> ref_poisoned r" "queue_rep (V (ref_view r)) p vs"
    and "Q (vs = []) r" and "\<And>op m. \<not> engine_reliable E \<Longrightarrow> R (Storage op m) (ref_poison r)"
  shows "wp (queue_is_empty E p) Q R r"
proof -
  obtain h where at: "queue_at (V (ref_view r)) p h vs" using assms(4) by (auto simp: queue_rep_def)
  then have "metadata_is_empty (meta_of h vs) \<longleftrightarrow> vs = []" by (simp add: queue_at_def meta_of_is_empty)
  then show ?thesis
    unfolding queue_is_empty_def wp_bind by (intro wp_read_metadata [OF assms(1-3) at]) (use assms(5,6) in auto)
qed

lemma wp_queue_queued_bytes [wp_intros]:
  assumes "engine_laws E V" "prefix_successor p = Some u" "\<not> ref_poisoned r" "queue_rep (V (ref_view r)) p vs"
    and "Q (of_nat (total_bytes vs)) r" and "\<And>op m. \<not> engine_reliable E \<Longrightarrow> R (Storage op m) (ref_poison r)"
  shows "wp (queue_queued_bytes E p) Q R r"
proof -
  obtain h where at: "queue_at (V (ref_view r)) p h vs" using assms(4) by (auto simp: queue_rep_def)
  show ?thesis
    unfolding queue_queued_bytes_def wp_bind
    by (intro wp_read_metadata [OF assms(1-3) at]) (use assms(5,6) in \<open>auto simp: meta_of_def\<close>)
qed

section \<open>The queue contract\<close>

text \<open>
  What a client of a queue relies on, in terms of the list of values: a push is admitted exactly if
  the costs fit the capacity and appends, a pop removes the first value and tells whether it was the
  last. \<open>failed\<close> is the error exit, after which the transaction is poisoned.
\<close>

locale fifo_queue =
  fixes ready :: "'t \<Rightarrow> bool" and contents :: "'t \<Rightarrow> 'v list \<Rightarrow> bool"
    and pushable :: "'v \<Rightarrow> bool" and cost :: "'v \<Rightarrow> nat"
    and push :: "'v \<Rightarrow> u64 \<Rightarrow> ('t, 'e, bool) sem" and pop :: "('t, 'e, ('v \<times> bool) option) sem"
    and failed :: "'e \<Rightarrow> 't \<Rightarrow> bool"
  assumes push_law: "ready t \<Longrightarrow> contents t xs \<Longrightarrow> pushable x \<Longrightarrow>
      wp (push x capacity) (\<lambda>admitted t'. ready t' \<and>
        (admitted \<longleftrightarrow> sum_list (map cost xs) + cost x \<le> unat capacity) \<and>
        contents t' (if admitted then xs @ [x] else xs)) failed t"
    and pop_law: "ready t \<Longrightarrow> contents t xs \<Longrightarrow>
      wp pop (\<lambda>res t'. ready t' \<and> contents t' (List.tl xs) \<and>
        res = (case xs of [] \<Rightarrow> None | x # ys \<Rightarrow> Some (x, ys = []))) failed t"

text \<open>Clients that push a list of values, and that pop a number of them.\<close>

fun push_all :: "('v \<Rightarrow> u64 \<Rightarrow> ('t, 'e, bool) sem) \<Rightarrow> u64 \<Rightarrow> 'v list \<Rightarrow> ('t, 'e, bool) sem" where
  "push_all push capacity [] = sem_return True"
| "push_all push capacity (x # xs) =
     sem_bind (push x capacity) (\<lambda>admitted. if admitted then push_all push capacity xs else sem_return False)"

fun pop_all :: "('t, 'e, ('v \<times> bool) option) sem \<Rightarrow> nat \<Rightarrow> ('t, 'e, 'v list) sem" where
  "pop_all pop 0 = sem_return []"
| "pop_all pop (Suc n) =
     sem_bind pop (\<lambda>res. case res of None \<Rightarrow> sem_return []
       | Some (x, _) \<Rightarrow> sem_bind (pop_all pop n) (\<lambda>xs. sem_return (x # xs)))"

context fifo_queue
begin

lemma wp_push_all:
  assumes "ready t" "contents t ys" "\<forall>x \<in> set xs. pushable x"
    and "sum_list (map cost (ys @ xs)) \<le> unat capacity"
  shows "wp (push_all push capacity xs) (\<lambda>admitted t'. admitted \<and> ready t' \<and> contents t' (ys @ xs)) failed t"
  using assms
proof (induction xs arbitrary: t ys)
  case (Cons x xs)
  show ?case
    unfolding push_all.simps wp_bind
    by (rule wp_mono [OF push_law [OF Cons.prems(1,2)]])
      (use Cons.prems(3,4) Cons.IH [of _ "ys @ [x]"] in auto)
qed simp

lemma wp_pop_all:
  assumes "ready t" "contents t xs"
  shows "wp (pop_all pop n) (\<lambda>ys t'. ys = take n xs \<and> ready t' \<and> contents t' (drop n xs)) failed t"
  using assms
proof (induction n arbitrary: t xs)
  case (Suc n)
  show ?case
    unfolding pop_all.simps wp_bind
  proof (rule wp_mono [OF pop_law [OF Suc.prems]], goal_cases)
    case (1 res t')
    show ?case
    proof (cases xs)
      case (Cons x ys)
      then have "wp (pop_all pop n) (\<lambda>zs t'. zs = take n ys \<and> ready t' \<and> contents t' (drop n ys)) failed t'"
        using 1 by (intro Suc.IH) auto
      with 1 Cons show ?thesis by (auto elim: wp_mono)
    qed (use 1 in simp)
  qed
qed simp

text \<open>Values come out in the order in which they went in.\<close>

lemma fifo_order:
  assumes "ready t" "contents t []" "\<forall>x \<in> set xs. pushable x" "sum_list (map cost xs) \<le> unat capacity"
  shows "wp (sem_bind (push_all push capacity xs) (\<lambda>_. pop_all pop (length xs)))
    (\<lambda>ys t'. ys = xs \<and> ready t' \<and> contents t' []) failed t"
  unfolding wp_bind
proof (rule wp_mono [OF wp_push_all [OF assms(1,2,3)]], goal_cases)
  case (2 admitted t')
  then show ?case using wp_pop_all [of t' xs "length xs"] by (auto elim: wp_mono)
qed (use assms(4) in auto)

end

text \<open>The store's queue provides the contract, for values whose codec round trips.\<close>

definition queue_value_ok :: "'v store_value \<Rightarrow> 'v \<Rightarrow> bytes \<Rightarrow> bool" where
  "queue_value_ok CV x v \<longleftrightarrow> encode_value CV x = Inr v \<and> decode_value CV v = Inr x"

definition queue_values :: "'v store_value \<Rightarrow> (bytes \<rightharpoonup> bytes) \<Rightarrow> bytes \<Rightarrow> 'v list \<Rightarrow> bool" where
  "queue_values CV m p xs \<longleftrightarrow> (\<exists>vs. queue_rep m p vs \<and> list_all2 (queue_value_ok CV) xs vs)"

definition queue_cost :: "'v store_value \<Rightarrow> 'v \<Rightarrow> nat" where
  "queue_cost CV x = length (projr (encode_value CV x)) + 8"

definition queue_failed :: "'s engine \<Rightarrow> store_error \<Rightarrow> 's transaction \<Rightarrow> bool" where
  "queue_failed E e t \<longleftrightarrow> fault E e t \<or> e = QueueSequenceExhausted \<and> poisoned t"

definition queue_ready :: "'s engine \<Rightarrow> ('s \<Rightarrow> (bytes \<rightharpoonup> bytes)) \<Rightarrow> bytes \<Rightarrow> 's transaction \<Rightarrow> bool" where
  "queue_ready E V p t \<longleftrightarrow> engine_laws E V \<and> prefix_successor p \<noteq> None \<and> \<not> poisoned t"

lemma total_bytes_cost:
  "list_all2 (queue_value_ok CV) xs vs \<Longrightarrow> total_bytes vs = sum_list (map (queue_cost CV) xs)"
  by (induction rule: list_all2_induct) (auto simp: queue_cost_def queue_value_ok_def)

interpretation store_queue: fifo_queue "queue_ready E V p" "\<lambda>t. queue_values CV (V (inner t)) p"
  "\<lambda>x. (\<exists>v. queue_value_ok CV x v) \<and> queue_cost CV x < 2 ^ 64" "queue_cost CV"
  "try_push E CV p" "pop_front E CV p" "queue_failed E"
  for E V p CV
proof (unfold_locales, goal_cases)
  case (1 t xs x capacity)
  then obtain u vs v where ready: "engine_laws E V" "prefix_successor p = Some u" "\<not> poisoned t"
      and vs: "queue_rep (V (inner t)) p vs" "list_all2 (queue_value_ok CV) xs vs" and v: "queue_value_ok CV x v"
    by (auto simp: queue_ready_def queue_values_def)
  have cost: "length v + 8 = queue_cost CV x" "encode_value CV x = Inr v"
    using v by (simp_all add: queue_cost_def queue_value_ok_def)
  have rep: "queue_values CV m p (xs @ [x])" if "queue_rep m p (vs @ [v])" for m
    unfolding queue_values_def using that vs(2) v by (intro exI [of _ "vs @ [v]"]) (simp add: list_all2_appendI)
  show ?case
    by (rule wp_try_push [OF ready vs(1) cost(2)])
      (use 1 ready total_bytes_cost [OF vs(2)] cost(1) rep in
        \<open>auto simp: queue_ready_def queue_failed_def poisons_transaction_def\<close>)
next
  case (2 t xs)
  then obtain u vs where ready: "engine_laws E V" "prefix_successor p = Some u" "\<not> poisoned t"
      and vs: "queue_rep (V (inner t)) p vs" "list_all2 (queue_value_ok CV) xs vs"
    by (auto simp: queue_ready_def queue_values_def)
  have small: "length v \<le> usize_max" if "vs = v # ws" for v ws
    using vs(1) that by (auto simp: queue_rep_def queue_at_def queue_fits_def usize_max_def)
  show ?case
    unfolding pop_front_def
    by (rule wp_pop_front_bounded [OF ready vs(1)])
      (use 2 vs ready small in \<open>auto simp: queue_ready_def queue_failed_def queue_values_def queue_value_ok_def
        list_all2_Cons2 not_less\<close>)
qed

end
