(* ===== verification/Store_Catalog.thy ===== *)
theory Store_Catalog
  imports Store_Collections
begin

text \<open>
  The catalog of a Store: \<^verbatim>\<open>crates/store/src/store/database.rs\<close>, the setup half of
  \<^verbatim>\<open>transaction.rs\<close> and \<^verbatim>\<open>data_class.rs\<close>.

  A draft (\<^verbatim>\<open>StoreSetup\<close>) allocates namespace identifiers in memory; \<open>setup_commit\<close> publishes the
  marker, the catalog and the initial data in one transaction; \<open>store_open\<close> reads the catalog
  back. Directories and the opening of RocksDB are parameters: \<open>inspect\<close> answers \<^verbatim>\<open>fs::metadata\<close>,
  \<open>create_dir\<close> answers \<^verbatim>\<open>fs::create_dir\<close>, \<open>open_db\<close> answers \<^verbatim>\<open>Database::open\<close>. A name is the byte
  string of a Rust \<^verbatim>\<open>str\<close>. The catalog is a \<^verbatim>\<open>BTreeMap\<close>: an association list in strictly
  ascending order of its keys.
\<close>

section \<open>Definitions\<close>

subsection \<open>Names and bindings\<close>

datatype data_kind = Cell_Kind | OrderedMap_Kind | Queue_Kind

fun kind_tag :: "data_kind \<Rightarrow> byte" where
  "kind_tag Cell_Kind = 1"
| "kind_tag OrderedMap_Kind = 2"
| "kind_tag Queue_Kind = 6"

fun kind_name :: "data_kind \<Rightarrow> string" where
  "kind_name Cell_Kind = ''cell''"
| "kind_name OrderedMap_Kind = ''ordered map''"
| "kind_name Queue_Kind = ''queue''"

definition kind_decode :: "byte \<Rightarrow> data_kind option" where
  "kind_decode tag =
     (if tag = 1 then Some Cell_Kind else if tag = 2 then Some OrderedMap_Kind
      else if tag = 6 then Some Queue_Kind else None)"

definition STORE_MARKER_KEY :: bytes where
  "STORE_MARKER_KEY = [0]"

definition STORE_MARKER :: bytes where
  "STORE_MARKER = map (\<lambda>c. of_nat (of_char c)) ''dogpaddle.store.rocks.v1'' @ [0]"

definition CATALOG_DOMAIN :: byte where
  "CATALOG_DOMAIN = 1"

definition MAX_NAME_BYTES :: nat where
  "MAX_NAME_BYTES = 255"

type_synonym catalog = "(bytes \<times> u32 \<times> data_kind) list"

definition validate_name :: "bytes \<Rightarrow> store_error + unit" where
  "validate_name name =
     (if name = [] then Inl (InvalidName name ''name must not be empty'')
      else if length name > MAX_NAME_BYTES then Inl (InvalidName name ''name is too long'')
      else if 0 \<in> set name then Inl (InvalidName name ''name must not contain NUL'')
      else Inr ())"

definition catalog_key :: "bytes \<Rightarrow> bytes" where
  "catalog_key name = CATALOG_DOMAIN # name"

definition encode_binding :: "u32 \<Rightarrow> data_kind \<Rightarrow> bytes" where
  "encode_binding i kind = kind_tag kind # u32_to_be i"

fun decode_binding :: "bytes \<Rightarrow> store_error + u32 \<times> data_kind" where
  "decode_binding [tag, a, b, c, d] =
     (case kind_decode tag of
        None \<Rightarrow> Inl InvalidStore
      | Some kind \<Rightarrow> Inr (u32_from_be [a, b, c, d], kind))"
| "decode_binding _ = Inl InvalidStore"

text \<open>\<^verbatim>\<open>BTreeMap::insert\<close>.\<close>

fun btree_insert :: "bytes \<Rightarrow> 'a \<Rightarrow> (bytes \<times> 'a) list \<Rightarrow> (bytes \<times> 'a) list" where
  "btree_insert k v [] = [(k, v)]"
| "btree_insert k v ((l, w) # rest) =
     (if k < l then (k, v) # (l, w) # rest
      else if k = l then (k, v) # rest
      else (l, w) # btree_insert k v rest)"

subsection \<open>Drafts and stores\<close>

record store_setup =
  setup_token :: u64
  setup_catalog :: catalog

record 'd store =
  store_database :: 'd
  store_tok :: u64
  store_catalog :: catalog

text \<open>The process-wide token counter: \<open>fresh_token\<close> returns its value and increments it.\<close>

definition fresh_token :: "u64 \<Rightarrow> u64 \<times> u64" where
  "fresh_token next = (next, next + 1)"

definition store_setup_new :: "u64 \<Rightarrow> store_setup \<times> u64" where
  "store_setup_new next =
     (case fresh_token next of (token, next') \<Rightarrow> (\<lparr>setup_token = token, setup_catalog = []\<rparr>, next'))"

definition create_data :: "data_kind \<Rightarrow> bytes \<Rightarrow> (store_setup, store_error, data_handle) sem" where
  "create_data kind name setup =
     (case validate_name name of
        Inl e \<Rightarrow> (Inl e, setup)
      | Inr _ \<Rightarrow>
          if map_of (setup_catalog setup) name \<noteq> None then (Inl (DataAlreadyExists name), setup)
          else if length (setup_catalog setup) \<ge> 2 ^ 32 then (Inl (DataIdExhausted name), setup)
          else
            (let i = of_nat (length (setup_catalog setup)) in
             (Inr \<lparr>handle_token = setup_token setup, data_id = i\<rparr>,
              setup\<lparr>setup_catalog := btree_insert name (i, kind) (setup_catalog setup)\<rparr>)))"

definition open_data :: "data_kind \<Rightarrow> bytes \<Rightarrow> 'd store \<Rightarrow> store_error + data_handle" where
  "open_data expected name store =
     (case validate_name name of
        Inl e \<Rightarrow> Inl e
      | Inr _ \<Rightarrow>
          (case map_of (store_catalog store) name of
             None \<Rightarrow> Inl (DataNotFound name)
           | Some (i, actual) \<Rightarrow>
               if actual \<noteq> expected then Inl (DataKindMismatch name (kind_name expected) (kind_name actual))
               else Inr \<lparr>handle_token = store_tok store, data_id = i\<rparr>))"

subsection \<open>Scopes\<close>

datatype 'd scope_mode = Declare store_setup | Existing "'d store"

record 'd data_scope =
  scope_mode :: "'d scope_mode"
  scope_prefix :: "bytes option"

definition SLASH :: byte where
  "SLASH = 0x2F"

definition scoped :: "bytes \<Rightarrow> 'd data_scope \<Rightarrow> 'd data_scope" where
  "scoped prefix scope =
     scope\<lparr>scope_prefix := Some (case scope_prefix scope of None \<Rightarrow> prefix
                                  | Some parent \<Rightarrow> parent @ SLASH # prefix)\<rparr>"

definition scope_data :: "data_kind \<Rightarrow> bytes \<Rightarrow> ('d data_scope, store_error, data_handle) sem" where
  "scope_data kind name scope =
     (let full = (case scope_prefix scope of None \<Rightarrow> name | Some prefix \<Rightarrow> prefix @ SLASH # name) in
      case scope_mode scope of
        Declare setup \<Rightarrow>
          (case create_data kind full setup of (res, setup') \<Rightarrow> (res, scope\<lparr>scope_mode := Declare setup'\<rparr>))
      | Existing store \<Rightarrow> (open_data kind full store, scope))"

subsection \<open>Publishing and opening\<close>

datatype create_result = Created | DirExists | CreateFailed string

datatype path_state = PathDirectory | PathOther | PathMissing | PathError string

definition validate_store_path :: "bytes \<Rightarrow> path_state \<Rightarrow> store_error + unit" where
  "validate_store_path path st =
     (case st of
        PathDirectory \<Rightarrow> Inr ()
      | PathOther \<Rightarrow> Inl (StoreNotFound path)
      | PathMissing \<Rightarrow> Inl (StoreNotFound path)
      | PathError m \<Rightarrow> Inl (Storage ''inspect store directory'' m))"

definition open_database :: "(bytes \<Rightarrow> bool \<Rightarrow> string + 'd) \<Rightarrow> bytes \<Rightarrow> bool \<Rightarrow> store_error + 'd" where
  "open_database open_db path create = storage_result ''open RocksDB'' (open_db path create)"

text \<open>The raw writes of the setup transaction; the engine state is the staged transaction.\<close>

fun stage_catalog :: "'s engine \<Rightarrow> catalog \<Rightarrow> 's \<Rightarrow> store_error + 's" where
  "stage_catalog E [] s = Inr s"
| "stage_catalog E ((name, i, kind) # rest) s =
     (case storage_result ''stage data catalog'' (put_raw E s (catalog_key name) (encode_binding i kind)) of
        Inl e \<Rightarrow> Inl e
      | Inr s' \<Rightarrow> stage_catalog E rest s')"

text \<open>
  The result and the database left behind, if one was created: the transaction is dropped, and so
  rolled back, on every error before the commit.
\<close>

definition setup_commit ::
  "'s engine \<Rightarrow> ('d, 's) database \<Rightarrow> create_result \<Rightarrow> (bytes \<Rightarrow> bool \<Rightarrow> string + 'd) \<Rightarrow> bytes \<Rightarrow>
   ('s, unit) write_op \<Rightarrow> store_setup \<Rightarrow> (store_error + u64) \<times> 'd option" where
  "setup_commit E D create_dir open_db path initialize setup =
     (case create_dir of
        DirExists \<Rightarrow> (Inl (PathExists path), None)
      | CreateFailed m \<Rightarrow> (Inl (Storage ''create store directory'' m), None)
      | Created \<Rightarrow>
          (case open_database open_db path True of
             Inl e \<Rightarrow> (Inl e, None)
           | Inr d \<Rightarrow>
               (case storage_result ''stage store marker''
                       (put_raw E (begin_write_transaction D d True) STORE_MARKER_KEY STORE_MARKER) of
                  Inl e \<Rightarrow> (Inl e, Some d)
                | Inr s \<Rightarrow>
                    (case stage_catalog E (setup_catalog setup) s of
                       Inl e \<Rightarrow> (Inl e, Some d)
                     | Inr s' \<Rightarrow>
                         (case initialize \<lparr>inner = s', store_token = setup_token setup,
                                           poisoned = False, has_writes = True\<rparr> of
                            (Inl e, _) \<Rightarrow> (Inl e, Some d)
                          | (Inr _, t) \<Rightarrow>
                              (case transaction_commit D t d of
                                 (Inl e, d') \<Rightarrow> (Inl e, Some d')
                               | (Inr _, d') \<Rightarrow> (Inr (setup_token setup), Some d')))))))"

text \<open>The loop over the catalog iterator; \<open>ids\<close> are the identifiers seen so far.\<close>

fun catalog_loop :: "(bytes \<times> bytes) list \<Rightarrow> u32 list \<Rightarrow> catalog \<Rightarrow> store_error + catalog" where
  "catalog_loop [] ids cat = Inr cat"
| "catalog_loop ((key, value) # rest) ids cat =
     (case strip_prefix [CATALOG_DOMAIN] key of
        None \<Rightarrow> Inl (Panicked ''the catalog iterator is bounded to its key domain'')
      | Some name \<Rightarrow>
          if \<not> utf8_valid name then Inl InvalidStore
          else (case validate_name name of
            Inl _ \<Rightarrow> Inl InvalidStore
          | Inr _ \<Rightarrow>
              (case decode_binding value of
                 Inl e \<Rightarrow> Inl e
               | Inr (i, kind) \<Rightarrow>
                   if i \<in> set ids then Inl InvalidStore
                   else catalog_loop rest (i # ids) (btree_insert name (i, kind) cat))))"

definition read_catalog :: "'s engine \<Rightarrow> 's \<Rightarrow> store_error + catalog" where
  "read_catalog E snapshot =
     (case raw_iterator E snapshot None (Some [CATALOG_DOMAIN + 1]) Ascending [CATALOG_DOMAIN] of
        (items, status) \<Rightarrow>
          (case catalog_loop items [] [] of
             Inl e \<Rightarrow> Inl e
           | Inr cat \<Rightarrow>
               (case status of None \<Rightarrow> Inr cat | Some m \<Rightarrow> Inl (Storage ''read data catalog'' m))))"

definition store_open ::
  "'s engine \<Rightarrow> ('d, 's) database \<Rightarrow> (bytes \<Rightarrow> path_state) \<Rightarrow> (bytes \<Rightarrow> bool \<Rightarrow> string + 'd) \<Rightarrow> bytes \<Rightarrow> u64
   \<Rightarrow> (store_error + 'd store) \<times> u64" where
  "store_open E D inspect open_db path next =
     (case validate_store_path path (inspect path) of
        Inl e \<Rightarrow> (Inl e, next)
      | Inr _ \<Rightarrow>
          (case open_database open_db path False of
             Inl e \<Rightarrow> (Inl e, next)
           | Inr d \<Rightarrow>
               (let snapshot = db_snapshot D d in
                case storage_result ''read store marker'' (get_pinned E snapshot STORE_MARKER_KEY) of
                  Inl e \<Rightarrow> (Inl e, next)
                | Inr None \<Rightarrow> (Inl InvalidStore, next)
                | Inr (Some marker) \<Rightarrow>
                    if marker \<noteq> STORE_MARKER then (Inl InvalidStore, next)
                    else (case read_catalog E snapshot of
                      Inl e \<Rightarrow> (Inl e, next)
                    | Inr cat \<Rightarrow>
                        (case fresh_token next of (token, next') \<Rightarrow>
                           (Inr \<lparr>store_database = d, store_tok = token, store_catalog = cat\<rparr>, next'))))))"

section \<open>The catalog invariant\<close>

text \<open>
  A catalog has strictly ascending valid names and no identifier twice; in a draft the identifiers
  are also smaller than the number of entries, which is why the next one is fresh.
\<close>

definition name_ok :: "bytes \<Rightarrow> bool" where
  "name_ok name \<longleftrightarrow> validate_name name = Inr () \<and> utf8_valid name"

definition catalog_ok :: "catalog \<Rightarrow> bool" where
  "catalog_ok cat \<longleftrightarrow> sorted_wrt (<) (map fst cat) \<and> distinct (map (fst \<circ> snd) cat) \<and> (\<forall>n \<in> fst ` set cat. name_ok n)"

definition setup_ok :: "store_setup \<Rightarrow> bool" where
  "setup_ok setup \<longleftrightarrow> catalog_ok (setup_catalog setup) \<and>
     (\<forall>(n, i, k) \<in> set (setup_catalog setup). unat i < length (setup_catalog setup)) \<and>
     length (setup_catalog setup) \<le> 2 ^ 32"

lemma kind_decode_tag [simp]: "kind_decode (kind_tag kind) = Some kind"
  by (cases kind) (simp_all add: kind_decode_def)

lemma kind_decode_Some: "kind_decode tag = Some kind \<Longrightarrow> tag = kind_tag kind"
  by (auto simp: kind_decode_def split: if_splits)

lemma decode_encode_binding: "decode_binding (encode_binding i kind) = Inr (i, kind)"
proof -
  have "length (u32_to_be i) = Suc (Suc (Suc (Suc 0)))" by simp
  then obtain a b c d where be: "u32_to_be i = [a, b, c, d]"
    unfolding length_Suc_conv by auto
  then have "u32_from_be [a, b, c, d] = i" using u32_from_to_be [of i] by simp
  then show ?thesis by (simp add: encode_binding_def be)
qed

lemma encode_decode_binding:
  assumes "decode_binding bs = Inr (i, kind)"
  shows "encode_binding i kind = bs"
proof (cases bs rule: decode_binding.cases)
  case (1 tag a b c d)
  with assms have "kind_decode tag = Some kind" "i = u32_from_be [a, b, c, d]"
    by (auto split: option.splits)
  with 1 show ?thesis
    using u32_to_from_be [of "[a, b, c, d]"] by (auto simp: encode_binding_def dest: kind_decode_Some)
qed (use assms in auto)

lemma set_btree_insert:
  "k \<notin> fst ` set xs \<Longrightarrow> set (btree_insert k v xs) = insert (k, v) (set xs)"
  by (induction k v xs rule: btree_insert.induct) auto

lemma length_btree_insert: "k \<notin> fst ` set xs \<Longrightarrow> length (btree_insert k v xs) = Suc (length xs)"
  by (induction k v xs rule: btree_insert.induct) auto

lemma keys_btree_insert: "fst ` set (btree_insert k v xs) = insert k (fst ` set xs)"
  by (induction k v xs rule: btree_insert.induct) auto

lemma sorted_btree_insert:
  "sorted_wrt (<) (map fst xs) \<Longrightarrow> sorted_wrt (<) (map fst (btree_insert k v xs))"
proof (induction k v xs rule: btree_insert.induct)
  case (2 k v l w rest)
  have keys: "fst ` set (btree_insert k v rest) = insert k (fst ` set rest)" by (rule keys_btree_insert)
  have "\<forall>j \<in> set (map fst (btree_insert k v rest)). l < j" if "l < k"
    using 2 that keys by (auto simp del: set_map simp: set_map [symmetric]) 
  with 2 show ?case by auto
qed simp

lemma map_of_btree_insert:
  "sorted_wrt (<) (map fst xs) \<Longrightarrow> map_of (btree_insert k v xs) = (map_of xs)(k \<mapsto> v)"
  by (induction k v xs rule: btree_insert.induct) (auto simp: fun_eq_iff)

lemma distinct_ids_btree_insert:
  "k \<notin> fst ` set xs \<Longrightarrow> distinct (map (fst \<circ> snd) xs) \<Longrightarrow> i \<notin> (fst \<circ> snd) ` set xs \<Longrightarrow>
   distinct (map (fst \<circ> snd) (btree_insert k (i, kd) xs))"
proof (induction k "(i, kd)" xs rule: btree_insert.induct)
  case (2 k l w rest)
  then show ?case by (auto simp: set_btree_insert)
qed simp

lemma create_data_ok:
  assumes ok: "setup_ok setup" and utf8: "utf8_valid name"
    and run: "create_data kind name setup = (Inr h, setup')"
  shows "setup_ok setup'" and "map_of (setup_catalog setup') = (map_of (setup_catalog setup))(name \<mapsto> (data_id h, kind))"
    and "data_id h \<notin> (fst \<circ> snd) ` set (setup_catalog setup)"
    and "handle_token h = setup_token setup" and "setup_token setup' = setup_token setup"
proof -
  let ?cat = "setup_catalog setup" and ?i = "of_nat (length (setup_catalog setup)) :: u32"
  have name: "validate_name name = Inr ()" and new: "map_of ?cat name = None" and len: "length ?cat < 2 ^ 32"
      and h: "h = \<lparr>handle_token = setup_token setup, data_id = ?i\<rparr>"
      and setup': "setup' = setup\<lparr>setup_catalog := btree_insert name (?i, kind) ?cat\<rparr>"
    using run by (cases "map_of ?cat name"; force simp: create_data_def Let_def split: sum.splits if_splits)+
  have fresh: "name \<notin> fst ` set ?cat" using new by (simp add: map_of_eq_None_iff)
  have i: "unat ?i = length ?cat" using len by (simp add: unat_of_nat)
  show unused: "data_id h \<notin> (fst \<circ> snd) ` set ?cat"
    using ok i by (force simp: h setup_ok_def)
  show "map_of (setup_catalog setup') = (map_of ?cat)(name \<mapsto> (data_id h, kind))"
    using ok by (simp add: h setup' map_of_btree_insert setup_ok_def catalog_ok_def)
  show "setup_ok setup'"
    using ok len i unused
    by (auto simp: h setup' setup_ok_def catalog_ok_def sorted_btree_insert set_btree_insert [OF fresh]
        length_btree_insert [OF fresh] distinct_ids_btree_insert [OF fresh] name_ok_def name utf8 less_SucI)
qed (use run in \<open>auto simp: create_data_def Let_def split: sum.splits if_splits\<close>)

section \<open>Publishing and reading back\<close>

definition binding_entry :: "bytes \<times> u32 \<times> data_kind \<Rightarrow> bytes \<times> bytes" where
  "binding_entry e = (catalog_key (fst e), encode_binding (fst (snd e)) (snd (snd e)))"

definition published :: "(bytes \<rightharpoonup> bytes) \<Rightarrow> catalog \<Rightarrow> bool" where
  "published m cat \<longleftrightarrow> m STORE_MARKER_KEY = Some STORE_MARKER \<and>
     (\<forall>name. m (catalog_key name) = map_option (\<lambda>(i, kind). encode_binding i kind) (map_of cat name))"

lemma btree_insert_last: "\<forall>l \<in> fst ` set xs. l < k \<Longrightarrow> btree_insert k v xs = xs @ [(k, v)]"
  by (induction k v xs rule: btree_insert.induct) (auto simp: order_less_not_sym)

lemma catalog_loop_entries:
  assumes "sorted_wrt (<) (map fst (acc @ xs))" "distinct (map (fst \<circ> snd) xs)"
    and "set ids \<inter> (fst \<circ> snd) ` set xs = {}" "\<forall>n \<in> fst ` set xs. name_ok n"
  shows "catalog_loop (map binding_entry xs) ids acc = Inr (acc @ xs)"
  using assms
proof (induction xs arbitrary: ids acc)
  case (Cons e xs)
  obtain n i k where e: "e = (n, i, k)" by (metis prod_cases3)
  have "btree_insert n (i, k) acc = acc @ [(n, i, k)]"
    using Cons.prems(1) by (intro btree_insert_last) (auto simp: e sorted_wrt_append)
  moreover have "catalog_loop (map binding_entry xs) (i # ids) (acc @ [(n, i, k)]) = Inr ((acc @ [(n, i, k)]) @ xs)"
    using Cons.prems by (intro Cons.IH) (auto simp: e)
  moreover have "binding_entry e = (CATALOG_DOMAIN # n, encode_binding i k)"
    by (simp add: e binding_entry_def catalog_key_def)
  ultimately show ?case
    using Cons.prems by (auto simp: e name_ok_def decode_encode_binding)
qed simp

lemma catalog_range: "[CATALOG_DOMAIN] \<le> k \<and> k < [CATALOG_DOMAIN + 1] \<longleftrightarrow> (\<exists>name. k = catalog_key name)"
  using between_successor [of CATALOG_DOMAIN "[]" k] below_successor [of CATALOG_DOMAIN "[]"]
  by (auto simp: CATALOG_DOMAIN_def catalog_key_def)

lemma visited_catalog:
  assumes pub: "published m cat" and ok: "catalog_ok cat"
  shows "visited m None (Some [CATALOG_DOMAIN + 1]) Ascending [CATALOG_DOMAIN] = map binding_entry cat"
proof -
  let ?K = "{k \<in> dom m. within_iterate None (Some [CATALOG_DOMAIN + 1]) Ascending [CATALOG_DOMAIN] k}"
  have sorted: "sorted_wrt (<) (map fst cat)" and dist: "distinct (map fst cat)"
    using ok strict_sorted_iff [of "map fst cat"] by (simp_all add: catalog_ok_def)
  have in_dom: "catalog_key n \<in> dom m \<longleftrightarrow> n \<in> fst ` set cat" for n
    using pub map_of_eq_None_iff [of cat n] by (simp add: published_def domIff)
  have "?K = {k \<in> dom m. \<exists>name. k = catalog_key name}"
    using catalog_range by (simp add: within_iterate_def conj_commute)
  also have "\<dots> = catalog_key ` fst ` set cat" using in_dom by blast
  finally have "?K = set (map (fst \<circ> binding_entry) cat)"
    by (simp add: binding_entry_def image_image)
  moreover have "sorted_wrt (<) (map (fst \<circ> binding_entry) cat)"
    using sorted by (simp add: sorted_wrt_map binding_entry_def catalog_key_def)
  ultimately have "ordered_keys Ascending ?K = map (fst \<circ> binding_entry) cat"
    by (intro scan_sorted_unique [of Ascending] scan_sorted_ordered_keys) (simp_all add: scan_sorted_def)
  moreover have "the (m (fst (binding_entry e))) = snd (binding_entry e)" if "e \<in> set cat" for e
    using pub dist that by (cases e) (force simp: published_def binding_entry_def)
  ultimately show ?thesis
    by (simp add: visited_def entries_of_def)
qed

lemma read_catalog_published:
  assumes laws: "engine_laws E V" and pub: "published (V s) cat" and ok: "catalog_ok cat"
  shows "read_catalog E s = Inr cat \<or>
    \<not> engine_reliable E \<and> (\<exists>m. read_catalog E s = Inl (Storage ''read data catalog'' m))"
proof -
  obtain xs st where it: "raw_iterator E s None (Some [CATALOG_DOMAIN + 1]) Ascending [CATALOG_DOMAIN] = (xs, st)"
    by fastforce
  obtain ys where vis: "map binding_entry cat = xs @ ys" and st: "st = None \<Longrightarrow> ys = []"
    using engine_iterate [OF laws it] visited_catalog [OF pub ok] by metis
  have xs: "xs = map binding_entry (take (length xs) cat)"
    using arg_cong [OF vis, of "take (length xs)"] by (simp add: take_map)
  have "catalog_loop xs [] [] = Inr (take (length xs) cat)"
    by (subst xs, subst catalog_loop_entries)
      (use ok in \<open>auto simp: catalog_ok_def sorted_wrt_take take_map [symmetric] dest: in_set_takeD\<close>)
  moreover have "take (length xs) cat = cat" if "st = None"
    using st [OF that] vis by (metis append_Nil2 length_map take_all order_refl)
  ultimately show ?thesis
    using it by (cases st) (auto simp: read_catalog_def dest: engine_unreliable(4))
qed

lemma stage_catalog_view:
  assumes "engine_laws E V" "stage_catalog E cat s = Inr s'" "distinct (map fst cat)"
  shows "(\<forall>name. V s' (catalog_key name) = (case map_of cat name of None \<Rightarrow> V s (catalog_key name)
      | Some (i, kind) \<Rightarrow> Some (encode_binding i kind))) \<and>
    (\<forall>k. (\<forall>name. k \<noteq> catalog_key name) \<longrightarrow> V s' k = V s k)"
  using assms(2,3)
proof (induction cat arbitrary: s)
  case (Cons e cat)
  obtain n i kd where e: "e = (n, i, kd)" by (metis prod_cases3)
  with Cons.prems obtain s1 where put: "put_raw E s (catalog_key n) (encode_binding i kd) = Inr s1"
      and rest: "stage_catalog E cat s1 = Inr s'"
    by (auto simp: storage_result_def split: sum.splits)
  have "map_of cat n = None" using Cons.prems(2) by (simp add: e map_of_eq_None_iff)
  then show ?case
    using Cons.IH [OF rest] Cons.prems(2) engine_put [OF assms(1) put]
    by (auto simp: e catalog_key_def split: option.splits)
qed simp

text \<open>An initializer that works through typed handles writes into data namespaces only.\<close>

definition initializes_data :: "('s \<Rightarrow> (bytes \<rightharpoonup> bytes)) \<Rightarrow> ('s, unit) write_op \<Rightarrow> bool" where
  "initializes_data V f \<longleftrightarrow> (\<forall>t res t'. f t = (res, t') \<longrightarrow>
     (has_writes t \<longrightarrow> has_writes t') \<and>
     (\<forall>k. (\<forall>r. k \<noteq> DATA_DOMAIN # r) \<longrightarrow> V (inner t') k = V (inner t) k))"

lemma setup_commit_published:
  assumes laws: "engine_laws E V" and db: "database_laws D V synced committed durable"
    and new: "open_db path True = Inr d" "committed d = Map.empty" and ok: "catalog_ok (setup_catalog setup)"
    and init: "initializes_data V f"
    and run: "setup_commit E D Created open_db path f setup = (Inr token, Some d')"
  shows "published (committed d') (setup_catalog setup)" and "token = setup_token setup"
proof -
  let ?cat = "setup_catalog setup"
  obtain s s' t where marker: "put_raw E (begin_write_transaction D d True) STORE_MARKER_KEY STORE_MARKER = Inr s"
      and staged: "stage_catalog E ?cat s = Inr s'"
      and f: "f \<lparr>inner = s', store_token = setup_token setup, poisoned = False, has_writes = True\<rparr> = (Inr (), t)"
      and commit: "transaction_commit D t d = (Inr (), d')"
    using run new(1)
    by (auto simp: setup_commit_def open_database_def storage_result_def split: sum.splits prod.splits)
  have dist: "distinct (map fst ?cat)"
    using ok strict_sorted_iff [of "map fst ?cat"] by (simp add: catalog_ok_def)
  have keep: "V (inner t) k = V s' k" if "\<And>r. k \<noteq> DATA_DOMAIN # r" for k
    using init f that unfolding initializes_data_def by (metis transaction.select_convs(1))
  have wr: "has_writes t"
    using init f unfolding initializes_data_def by (metis transaction.select_convs(4))
  have comm: "committed d' = V (inner t)"
    using commit wr database_commit_ok(1) [OF db]
    by (auto simp: transaction_commit_def commit_transaction_def sem_throw_def split: if_splits prod.splits option.splits)
  have V0: "V s = [STORE_MARKER_KEY \<mapsto> STORE_MARKER]"
    using engine_put [OF laws marker] database_begin(1) [OF db] new(2) by (simp add: begin_write_transaction_def)
  note stage = stage_catalog_view [OF laws staged dist]
  have cells: "V (inner t) (catalog_key n) = V s' (catalog_key n)" for n
    by (rule keep) (simp add: catalog_key_def DATA_DOMAIN_def CATALOG_DOMAIN_def)
  have "V (inner t) STORE_MARKER_KEY = V s' STORE_MARKER_KEY"
    by (rule keep) (simp add: STORE_MARKER_KEY_def DATA_DOMAIN_def)
  moreover have "V s' STORE_MARKER_KEY = V s STORE_MARKER_KEY"
    using stage by (simp add: catalog_key_def STORE_MARKER_KEY_def CATALOG_DOMAIN_def)
  moreover have "V s (catalog_key n) = None" for n
    by (simp add: V0 catalog_key_def STORE_MARKER_KEY_def CATALOG_DOMAIN_def)
  ultimately show "published (committed d') ?cat"
    using stage cells by (auto simp: published_def comm V0 split: option.split)
  show "token = setup_token setup"
    using run by (auto simp: setup_commit_def split: sum.splits prod.splits)
qed

lemma store_open_published:
  assumes "engine_laws E V" "engine_reliable E" "database_laws D V synced committed durable"
    and "inspect path = PathDirectory" "open_db path False = Inr d"
    and "published (committed d) cat" "catalog_ok cat"
  shows "store_open E D inspect open_db path tok =
    (Inr \<lparr>store_database = d, store_tok = tok, store_catalog = cat\<rparr>, tok + 1)"
proof -
  have view: "V (db_snapshot D d) = committed d" by (rule database_begin(2) [OF assms(3)])
  obtain v where get: "get_pinned E (db_snapshot D d) STORE_MARKER_KEY = Inr v"
    using assms(2) unfolding engine_reliable_def by (metis sum.exhaust)
  then have "v = Some STORE_MARKER"
    using engine_get [OF assms(1)] assms(6) view by (metis published_def)
  moreover have "read_catalog E (db_snapshot D d) = Inr cat"
    using read_catalog_published [OF assms(1), of "db_snapshot D d" cat] assms(2,6,7) by (simp add: view)
  ultimately show ?thesis
    using assms(4,5) get
    by (simp add: store_open_def validate_store_path_def open_database_def storage_result_def fresh_token_def Let_def)
qed

lemma store_open_unpublished:
  assumes "engine_laws E V" "engine_reliable E" "database_laws D V synced committed durable"
    and "inspect path = PathDirectory" "open_db path False = Inr d" "committed d = Map.empty"
  shows "store_open E D inspect open_db path tok = (Inl InvalidStore, tok)"
proof -
  have view: "V (db_snapshot D d) = committed d" by (rule database_begin(2) [OF assms(3)])
  obtain v where get: "get_pinned E (db_snapshot D d) STORE_MARKER_KEY = Inr v"
    using assms(2) unfolding engine_reliable_def by (metis sum.exhaust)
  then have "v = None" using engine_get [OF assms(1) get] assms(6) view by simp
  then show ?thesis
    using assms(4,5) get
    by (simp add: store_open_def validate_store_path_def open_database_def storage_result_def Let_def)
qed

end
