(* ===== verification/Memory_Engine.thy ===== *)
theory Memory_Engine
  imports Store_Queue Store_Catalog "HOL-Library.AList"
begin

text \<open>
  An in-memory instance of the storage-engine parameter: association lists that never fail. It
  satisfies every hypothesis the development makes about RocksDB, so those hypotheses are
  consistent, and it is the concrete engine of the witnesses. It models no file of the repository.
\<close>

type_synonym mem_view = "(bytes \<times> bytes) list \<times> bool"

definition mem_contents :: "mem_view \<Rightarrow> (bytes \<rightharpoonup> bytes)" where
  "mem_contents s = map_of (fst s)"

definition mem_engine :: "mem_view engine" where
  "mem_engine =
     \<lparr>get_pinned = (\<lambda>s k. Inr (map_of (fst s) k)),
      put_raw = (\<lambda>s k v. Inr (AList.update k v (fst s), snd s)),
      delete_raw = (\<lambda>s k. Inr (AList.delete k (fst s), snd s)),
      raw_iterator = (\<lambda>s l u d k.
        (entries_of (map_of (fst s)) (ordered_keys d (set (filter (within_iterate l u d k) (map fst (fst s))))), None))\<rparr>"

record mem_database =
  mem_committed :: "(bytes \<times> bytes) list"
  mem_durable :: "(bytes \<times> bytes) list"

definition mem_db :: "(mem_database, mem_view) database" where
  "mem_db =
     \<lparr>db_transaction = (\<lambda>d sync. (mem_committed d, sync)),
      db_snapshot = (\<lambda>d. (mem_committed d, False)),
      db_commit = (\<lambda>d s. (None, \<lparr>mem_committed = fst s, mem_durable = (if snd s then fst s else mem_durable d)\<rparr>)),
      db_flush_wal = (\<lambda>d. (None, d\<lparr>mem_durable := mem_committed d\<rparr>))\<rparr>"

lemma mem_engine_laws: "engine_laws mem_engine mem_contents"
proof -
  have "{k \<in> dom (map_of xs). P k} = set (filter P (map fst xs))" for P and xs :: "(bytes \<times> bytes) list"
    by (auto simp: dom_map_of_conv_image_fst)
  then show ?thesis
    by (simp add: engine_laws_def mem_engine_def mem_contents_def visited_def finite_dom_map_of update_conv' delete_conv')
qed

lemma mem_engine_reliable: "engine_reliable mem_engine"
  by (simp add: engine_reliable_def mem_engine_def)

lemma mem_db_laws:
  "database_laws mem_db mem_contents snd (\<lambda>d. map_of (mem_committed d)) (\<lambda>d. map_of (mem_durable d))"
  by (auto simp: database_laws_def mem_db_def mem_contents_def)

end
