(* ===== verification/Store_Properties.thy ===== *)
theory Store_Properties
  imports Memory_Engine
begin

text \<open>
  The properties of the Store: what a client of \<^verbatim>\<open>crates/store\<close> may rely on, stated over the
  definitions of the component theories, each with a run on the in-memory engine where it has
  hypotheses.
\<close>

section \<open>Transactions and durability\<close>

text \<open>C1: after any sequence of batched commits (successful or not) and barriers, a batch that
  finishes without an error has made everything committed durable.\<close>

theorem batch_finish_durable:
  assumes "database_laws D V synced committed durable" and "durable d = committed d"
    and "(batch_step D)\<^sup>*\<^sup>* (durability_batch d) b" and "batch_finish D b = (Inr (), b')"
  shows "durable (batch_database b') = committed (batch_database b')"
proof -
  have "batch_inv committed durable (durability_batch d)"
    using assms(2) by (simp add: batch_inv_def durability_batch_def)
  with assms(1,3) have "batch_inv committed durable b" by (rule batch_steps_inv)
  then show ?thesis using batch_sync_inv(2) [OF assms(1)] assms(4) by (simp add: batch_finish_def)
qed

theorem batch_finish_durable_witness:
  "let d = \<lparr>mem_committed = [], mem_durable = []\<rparr>;
       t = snd (data_put mem_engine [2] [7] [9] (batch_begin mem_db 1 (durability_batch d)));
       b = snd (batched_commit mem_db t (durability_batch d))
   in mem_durable (batch_database b) = [] \<and>
      map_of (mem_durable (batch_database (snd (batch_finish mem_db b)))) =
        map_of (mem_committed (batch_database (snd (batch_finish mem_db b)))) \<and>
      mem_committed (batch_database b) = [([2, 7], [9])]"
proof -
  define d where "d = \<lparr>mem_committed = [], mem_durable = []\<rparr>"
  define t where "t = snd (data_put mem_engine [2] [7] [9] (batch_begin mem_db 1 (durability_batch d)))"
  define b where "b = snd (batched_commit mem_db t (durability_batch d))"
  have t: "t = \<lparr>inner = ([([2, 7], [9])], False), store_token = 1, poisoned = False, has_writes = True\<rparr>"
    unfolding t_def d_def by code_simp
  have b: "b = \<lparr>batch_database = \<lparr>mem_committed = [([2, 7], [9])], mem_durable = []\<rparr>, pending = True\<rparr>"
    unfolding b_def t d_def by code_simp
  have "batch_step mem_db (durability_batch d) b"
    unfolding b_def by (rule step_commit) (rule prod.collapse [symmetric])
  then have steps: "(batch_step mem_db)\<^sup>*\<^sup>* (durability_batch d) b" by blast
  have fin: "batch_finish mem_db b = (Inr (), snd (batch_finish mem_db b))"
    unfolding b by code_simp
  have "map_of (mem_durable (batch_database (snd (batch_finish mem_db b)))) =
        map_of (mem_committed (batch_database (snd (batch_finish mem_db b))))"
    by (rule batch_finish_durable [OF mem_db_laws _ steps fin]) (simp add: d_def)
  then show ?thesis by (simp add: Let_def d_def [symmetric] t_def [symmetric] b_def [symmetric] b)
qed

lemma hard_error_rolls_back:
  assumes "poison_ok poisoned m" "m t = (Inl e, t')" "poisons_transaction e"
  shows "transaction_commit D t' d = (Inl TransactionPoisoned, d)"
  using poison_okD [OF assms(1,2)] assms(3) by (simp add: transaction_commit_def sem_throw_def)

text \<open>C2: an error other than a capacity error of any mutating operation of the collections (cell, ordered map,
  map partition, multiplicity map and queue) poisons the transaction, so that its commit is refused and leaves the database as
  it was: earlier writes of the same transaction are rolled back too.\<close>

theorem collection_errors_roll_back:
  assumes "poisons_transaction e"
    and "cell_set E CV p x t = (Inl e, t') \<or> cell_clear E p t = (Inl e, t') \<or>
      map_put E CK CV p k x t = (Inl e, t') \<or> map_remove E CK p k t = (Inl e, t') \<or> map_erase E CK p k t = (Inl e, t') \<or>
      part_put E CK CV p pp k x t = (Inl e, t') \<or> part_erase E CK p pp k t = (Inl e, t') \<or>
      map_adjust E CK p k diff t = (Inl e, t') \<or> map_set_multiplicity E CK p k weight t = (Inl e, t') \<or>
      part_adjust E CK p pp k diff t = (Inl e, t') \<or> part_set_multiplicity E CK p pp k weight t = (Inl e, t') \<or>
      try_push E CV p x capacity t = (Inl e, t') \<or> pop_front E CV p t = (Inl e, t') \<or>
      pop_front_bounded E CV p n t = (Inl e, t') \<or> discard_front E p n t = (Inl e, t')"
  shows "transaction_commit D t' d = (Inl TransactionPoisoned, d)"
  using assms(2)
  by (elim disjE) (erule hard_error_rolls_back [rotated], rule assms(1), intro poison_intros)+

theorem collection_errors_roll_back_witness:
  "let t = \<lparr>inner = ([([2, 1], u64_to_be 3)], True), store_token = 1, poisoned = False, has_writes = True\<rparr>;
       d = \<lparr>mem_committed = [], mem_durable = []\<rparr>
   in map_adjust mem_engine vec_key [2] [1] (- 4) t = (Inl MultiplicityUnderflow, t\<lparr>poisoned := True\<rparr>) \<and>
      transaction_commit mem_db (t\<lparr>poisoned := True\<rparr>) d = (Inl TransactionPoisoned, d)"
proof -
  let ?t = "\<lparr>inner = ([([2, 1], u64_to_be 3)], True), store_token = 1, poisoned = False, has_writes = True\<rparr>"
  have run: "map_adjust mem_engine vec_key [2] [1] (- 4) ?t = (Inl MultiplicityUnderflow, ?t\<lparr>poisoned := True\<rparr>)"
    by code_simp
  show ?thesis
    unfolding Let_def
    using run collection_errors_roll_back [where e = MultiplicityUnderflow and E = mem_engine and CK = vec_key and p = "[2]" and
        k = "[1]" and diff = "- 4" and t = ?t and t' = "?t\<lparr>poisoned := True\<rparr>" and D = mem_db and
        d = "\<lparr>mem_committed = [], mem_durable = []\<rparr>"]
    by simp
qed

section \<open>Keys and namespaces\<close>

text \<open>The \<^verbatim>\<open>i64\<close> key codec is total, decodes back, and its byte order is the signed order.\<close>

theorem i64_key_order:
  "\<exists>bs cs. encode_key i64_key v = Inr bs \<and> encode_key i64_key w = Inr cs \<and>
     decode_key i64_key bs = Inr v \<and> (bs < cs \<longleftrightarrow> sint v < sint w)"
  using i64_k.key_total i64_k.key_roundtrip i64_k.key_order by blast

text \<open>The physical keys of two data objects of one store never coincide, and inside one
  namespace the physical order is the logical order.\<close>

theorem namespaces_disjoint:
  "(physical_key (data_prefix i) k = physical_key (data_prefix j) l \<longleftrightarrow> i = j \<and> k = l) \<and>
   (physical_key (data_prefix i) k < physical_key (data_prefix i) l \<longleftrightarrow> k < l)"
  by (simp add: physical_key_inject) (simp add: physical_key_def)

text \<open>The framing of a partition key decodes back, and orders entries by partition first and by
  local key second, whatever bytes (zeros included) the partition holds.\<close>

theorem partition_key_order:
  "\<exists>bs cs. encode_key (partition_key vec_key vec_key) (p, k) = Inr bs \<and>
     encode_key (partition_key vec_key vec_key) (q, l) = Inr cs \<and>
     decode_key (partition_key vec_key vec_key) bs = Inr (p, k) \<and>
     (bs < cs \<longleftrightarrow> p < q \<or> p = q \<and> k < l)"
  using bytes_partition.pair.key_total [of "(p, k)"] bytes_partition.pair.key_total [of "(q, l)"]
    bytes_partition.pair.key_roundtrip [of "(p, k)"] bytes_partition.pair.key_order [of "(p, k)" "(q, l)"]
  by auto

section \<open>Scans\<close>

text \<open>C3: scanning a range page by page and passing each continuation on returns, on a reliable
  engine, every entry of the range exactly once and in scan order, whatever the page limits, as long
  as each single entry fits the byte limit; the pages end.\<close>

theorem scan_pages_cover_range:
  assumes "engine_laws E V" "engine_reliable E" "prefix_successor p = Some u" "\<not> ref_poisoned r" "limit_ok limit"
    and "encode_bound CK lo = Inr lo'" "encode_bound CK up = Inr up'"
    and "\<And>bs k. decode_key CK bs = Inr k \<Longrightarrow> encode_key CK k = Inr bs"
    and "L = range_entries (V (ref_view r)) p dir (encoded_bound_of lo') (encoded_bound_of up')"
    and "\<forall>e \<in> set L. decodes CK CV [] e \<and> item_size e \<le> max_bytes limit"
  shows "scan_all E CK CV p lo up dir limit (Suc (length L)) None r = (Inr (Some (map (decoded CK CV []) L)), r)"
  using scan_all_complete [OF assms(1-7,9,10) _, of 0 "Suc (length L)" None] assms(8) by auto

theorem scan_pages_cover_range_witness:
  "let s = ([([2, 3], [30]), ([2, 1], [10]), ([2, 2], [20]), ([3, 1], [99])], True);
       r = Write \<lparr>inner = s, store_token = 1, poisoned = False, has_writes = False\<rparr>
   in scan_all mem_engine vec_key vec_value [2] Unbounded (Excluded [3]) Descending
        \<lparr>max_items = 1, max_bytes = 8\<rparr> 3 None r = (Inr (Some [([2], [20]), ([1], [10])]), r)"
proof -
  let ?s = "([([2, 3], [30]), ([2, 1], [10]), ([2, 2], [20]), ([3, 1], [99])], True) :: mem_view"
  let ?r = "Write \<lparr>inner = ?s, store_token = 1, poisoned = False, has_writes = False\<rparr>"
  let ?L = "[([2], [20]), ([1], [10])] :: (bytes \<times> bytes) list"
  have "{k. [2] @ k \<in> dom (mem_contents ?s) \<and> in_range None (Some ([3], False)) k} = {[1], [2]}"
    by (auto simp: mem_contents_def in_range_def within_lower_def within_upper_def cmp_bytes_def split: if_splits)
  then have L: "?L = range_entries (mem_contents (ref_view ?r)) [2] Descending (encoded_bound_of Unbounded)
      (encoded_bound_of (Excluded [3]))"
    by (simp add: range_entries_def ordered_keys_def mem_contents_def)
  let ?lim = "\<lparr>max_items = 1, max_bytes = 8\<rparr>"
  have succ: "prefix_successor [2] = Some [3]" by code_simp
  have lim: "limit_ok ?lim" by (simp add: limit_ok_def usize_max_def)
  have "scan_all mem_engine vec_key vec_value [2] Unbounded (Excluded [3]) Descending ?lim (Suc (length ?L)) None ?r =
      (Inr (Some (map (decoded vec_key vec_value []) ?L)), ?r)"
    by (rule scan_pages_cover_range [OF mem_engine_laws mem_engine_reliable succ _ lim _ _ _ L])
      (simp_all add: vec_key_def vec_value_def decodes_def item_size_def)
  moreover have "Suc (length ?L) = 3" "map (decoded vec_key vec_value []) ?L = ?L"
    by (simp_all add: decoded_def vec_key_def vec_value_def)
  ultimately show ?thesis by (simp only: Let_def)
qed

text \<open>A partition scan returns a page of exactly the entries of its partition, in order, decoded
  with the partition prefix removed, and a continuation exactly if entries are left.\<close>

theorem scan_partition_page:
  assumes "engine_laws E V" "engine_reliable E" "prefix_successor p = Some u" "\<not> ref_poisoned r" "limit_ok limit"
    and "partition_prefix vec_key part = Inr pp"
    and "L = range_entries (V (ref_view r)) (p @ pp) dir None None"
    and "\<forall>e \<in> set L. length pp + item_size e \<le> max_bytes limit"
  shows "\<exists>c. c \<le> length L \<and> (L \<noteq> [] \<longrightarrow> 0 < c) \<and>
    scan_partition E vec_key vec_value p pp dir None limit r =
      (Inr \<lparr>page_entries = take c L, continuation = (if c < length L then Some (fst (L ! (c - 1))) else None)\<rparr>, r)"
proof -
  have pp: "pp \<noteq> []" "last pp = 0"
    using assms(6) by (auto simp: partition_prefix_def vec_key_def)
  have bounds: "resumed_lower dir None None = None" "resumed_upper dir None None = None"
    by (cases dir; simp add: resumed_lower_def resumed_upper_def)+
  let ?M = "map (framed pp) L"
  have size: "item_size (framed pp e) = length pp + item_size e" for e by (simp add: item_size_def framed_def)
  have dec: "decoded vec_key vec_value [] e = e" "decodes vec_key vec_value [] e" for e
    by (auto simp: decoded_def decodes_def vec_key_def vec_value_def)
  obtain c where c: "c \<le> length ?M" "?M \<noteq> [] \<Longrightarrow> 0 < c"
    and page: "scan_result vec_key vec_value pp limit ?M =
      Inr \<lparr>page_entries = map (decoded vec_key vec_value pp) (take c ?M),
        continuation = (if c < length ?M then Some (fst (decoded vec_key vec_value pp (?M ! (c - 1)))) else None)\<rparr>"
    using assms(8) by (rule_tac scan_result_page [OF assms(5), of ?M vec_key vec_value pp]) (auto simp: size)
  have "wp (scan_partition E vec_key vec_value p pp dir None limit)
      (\<lambda>pg r'. scan_result vec_key vec_value pp limit ?M = Inr pg \<and> r' = r) (\<lambda>_ _. False) r"
    by (rule wp_scan_partition [OF assms(1,3,4,5) pp, where res = None and L = ?M])
      (use assms(2,5,7,8) page in \<open>auto simp: bounds dec decodes_framed size limit_ok_def dest: vec_k.key_canonical\<close>)
  then have run: "scan_partition E vec_key vec_value p pp dir None limit r = (scan_result vec_key vec_value pp limit ?M, r)"
    by (auto elim!: wp_cases)
  have "map (decoded vec_key vec_value pp) (take c ?M) = take c L"
    by (simp add: take_map o_def decoded_framed dec)
  moreover have "decoded vec_key vec_value pp (?M ! (c - 1)) = L ! (c - 1)" if "c < length L"
    using that by (simp add: decoded_framed dec)
  ultimately show ?thesis using c run page by (intro exI [of _ c]) auto
qed

theorem scan_partition_page_witness:
  "let s = ([([2, 5, 0, 0, 1], [10]), ([2, 5, 0, 255, 0, 0, 1], [11]), ([2, 5, 0, 0, 2], [12])], True) :: mem_view;
       r = Write \<lparr>inner = s, store_token = 1, poisoned = False, has_writes = False\<rparr>;
       L = [([1], [10]), ([2], [12])] :: (bytes \<times> bytes) list
   in range_entries (mem_contents s) [2, 5, 0, 0] Ascending None None = L \<and>
      (\<exists>c. c \<le> length L \<and> (L \<noteq> [] \<longrightarrow> 0 < c) \<and>
        scan_partition mem_engine vec_key vec_value [2] [5, 0, 0] Ascending None \<lparr>max_items = 1, max_bytes = 8\<rparr> r =
          (Inr \<lparr>page_entries = take c L, continuation = (if c < length L then Some (fst (L ! (c - 1))) else None)\<rparr>, r))"
proof -
  let ?s = "([([2, 5, 0, 0, 1], [10]), ([2, 5, 0, 255, 0, 0, 1], [11]), ([2, 5, 0, 0, 2], [12])], True) :: mem_view"
  let ?r = "Write \<lparr>inner = ?s, store_token = 1, poisoned = False, has_writes = False\<rparr>"
  let ?L = "[([1], [10]), ([2], [12])] :: (bytes \<times> bytes) list"
  let ?lim = "\<lparr>max_items = 1, max_bytes = 8\<rparr>"
  have "{k. [2, 5, 0, 0] @ k \<in> dom (mem_contents ?s) \<and> in_range None None k} = {[1], [2]}"
    by (auto simp: mem_contents_def in_range_def within_lower_def within_upper_def split: if_splits)
  then have L: "range_entries (mem_contents ?s) [2, 5, 0, 0] Ascending None None = ?L"
    by (simp add: range_entries_def ordered_keys_def mem_contents_def)
  have succ: "prefix_successor [2] = Some [3]" by code_simp
  have lim: "limit_ok ?lim" by (simp add: limit_ok_def usize_max_def)
  have pp: "partition_prefix vec_key [5] = Inr [5, 0, 0]" by (simp add: partition_prefix_def vec_key_def)
  have "\<exists>c. c \<le> length ?L \<and> (?L \<noteq> [] \<longrightarrow> 0 < c) \<and>
    scan_partition mem_engine vec_key vec_value [2] [5, 0, 0] Ascending None ?lim ?r =
      (Inr \<lparr>page_entries = take c ?L, continuation = (if c < length ?L then Some (fst (?L ! (c - 1))) else None)\<rparr>, ?r)"
    by (rule scan_partition_page [OF mem_engine_laws mem_engine_reliable succ _ lim pp])
      (simp_all add: L item_size_def)
  with L show ?thesis by (simp only: Let_def) 
qed

section \<open>Weights\<close>

text \<open>C4: on a reliable engine, a sequence of weight adjustments whose partial sums stay in the range of
  a \<^verbatim>\<open>u64\<close> succeeds and changes the multiplicity of every key by the sum of its differences.\<close>

theorem adjustments_add_up:
  assumes "engine_laws E V" "engine_reliable E" "\<not> poisoned t" "weights_ok (V (inner t)) p"
    and "\<forall>k n. 0 \<le> multiplicity_of vec_key (V (inner t)) p k + net_change (take n cs) k \<and>
      multiplicity_of vec_key (V (inner t)) p k + net_change (take n cs) k < 2 ^ 64"
  shows "\<exists>t'. adjust_all E vec_key p cs t = (Inr (), t') \<and> weights_ok (V (inner t')) p \<and>
    (\<forall>k. multiplicity_of vec_key (V (inner t')) p k = multiplicity_of vec_key (V (inner t)) p k + net_change cs k)"
  using vec_k.wp_adjust_all [OF assms(1,3,4), of cs] assms(2,5)
  by (auto elim!: reliable_wp [OF _ assms(2)])

theorem adjustments_add_up_witness:
  "let t = \<lparr>inner = ([], True), store_token = 1, poisoned = False, has_writes = False\<rparr> :: mem_view transaction;
       cs = [([7], 5), ([8], 1), ([7], - 2)]
   in \<exists>t'. adjust_all mem_engine vec_key [2] cs t = (Inr (), t') \<and> weights_ok (mem_contents (inner t')) [2] \<and>
        (\<forall>k. multiplicity_of vec_key (mem_contents (inner t')) [2] k =
           multiplicity_of vec_key (mem_contents (inner t)) [2] k + net_change cs k)"
proof -
  let ?t = "\<lparr>inner = ([], True), store_token = 1, poisoned = False, has_writes = False\<rparr> :: mem_view transaction"
  let ?cs = "[([7], 5), ([8], 1), ([7], - 2)] :: (bytes \<times> i64) list"
  have m: "multiplicity_of vec_key (mem_contents ([], b)) [2] k = 0" for k b
    by (simp add: multiplicity_of_def mem_contents_def stored_weight_def)
  have w: "weights_ok (mem_contents (inner ?t)) [2]"
    by (simp add: weights_ok_def mem_contents_def stored_weight_def)
  have "0 \<le> net_change (take n ?cs) k \<and> net_change (take n ?cs) k < 2 ^ 64" for n k
    by (cases "n \<le> 2") (auto simp: le_Suc_eq numeral_2_eq_2 take_Cons' split: if_splits)
  then show ?thesis
    unfolding Let_def
    using adjustments_add_up [OF mem_engine_laws mem_engine_reliable _ w, of ?cs] by (simp add: m)
qed

text \<open>C5: adjusting a weight by a signed difference is exact integer arithmetic on every branch: the
  change reports the weight before and after; a sum that is no \<^verbatim>\<open>u64\<close> is refused as an overflow or
  underflow and poisons the transaction.\<close>

theorem adjust_exact:
  assumes "engine_laws E V" "engine_reliable E" "\<not> poisoned t"
    and "stored_weight (V (inner t) (p @ k)) = Some w" and "z = int (unat w) + sint diff"
  shows "(if z < 0 then map_adjust E vec_key p k diff t = (Inl MultiplicityUnderflow, t\<lparr>poisoned := True\<rparr>)
    else if 2 ^ 64 \<le> z then map_adjust E vec_key p k diff t = (Inl MultiplicityOverflow, t\<lparr>poisoned := True\<rparr>)
    else \<exists>a t'. map_adjust E vec_key p k diff t = (Inr \<lparr>before = w, after = a\<rparr>, t') \<and> int (unat a) = z \<and>
      V (inner t') = (V (inner t))(p @ k := weight_bytes a) \<and> (has_writes t' \<longleftrightarrow> has_writes t \<or> w \<noteq> a))"
proof -
  have key: "encode_key vec_key k = Inr k" by (simp add: vec_key_def)
  have "wp (map_adjust E vec_key p k diff)
      (\<lambda>c t'. 0 \<le> z \<and> z < 2 ^ 64 \<and> (\<exists>a. c = \<lparr>before = w, after = a\<rparr> \<and> int (unat a) = z \<and>
        V (inner t') = (V (inner t))(p @ k := weight_bytes a) \<and> (has_writes t' \<longleftrightarrow> has_writes t \<or> w \<noteq> a)))
      (\<lambda>e t'. t' = t\<lparr>poisoned := True\<rparr> \<and> (e = MultiplicityOverflow \<and> 2 ^ 64 \<le> z \<or> e = MultiplicityUnderflow \<and> z < 0)) t"
  proof (rule wp_map_adjust [OF assms(1,3) key assms(4)], goal_cases)
    case (1 a s)
    then have "z = int (unat a)" using assms(5) by simp
    with 1 unat_u64_less [of a] show ?case by (auto simp del: of_nat_unat unat_u64_less)
  qed (use assms(2,5) in auto)
  then show ?thesis by (elim wp_cases) auto
qed

theorem adjust_exact_witness:
  "let t = \<lparr>inner = ([([2, 1], u64_to_be 3)], True), store_token = 1, poisoned = False, has_writes = False\<rparr> :: mem_view transaction
   in \<exists>a t'. map_adjust mem_engine vec_key [2] [1] (- 3) t = (Inr \<lparr>before = 3, after = a\<rparr>, t') \<and> int (unat a) = 0 \<and>
      mem_contents (inner t') = (mem_contents (inner t))([2, 1] := weight_bytes a) \<and> (has_writes t' \<longleftrightarrow> 3 \<noteq> a)"
proof -
  let ?t = "\<lparr>inner = ([([2, 1], u64_to_be 3)], True), store_token = 1, poisoned = False, has_writes = False\<rparr> :: mem_view transaction"
  have "stored_weight (mem_contents (inner ?t) ([2] @ [1])) = Some 3"
    by (simp add: mem_contents_def stored_weight_def)
  from adjust_exact [OF mem_engine_laws mem_engine_reliable _ this, of 0 "- 3"]
  show ?thesis by (simp add: Let_def)
qed

section \<open>Queues\<close>

text \<open>C6: values pushed into an empty queue come out in the order in which they went in, and leave
  the queue empty; the only failures are an engine fault and the exhaustion of sequence numbers,
  and both poison the transaction.\<close>

theorem queue_fifo:
  assumes "engine_laws E V" "prefix_successor p \<noteq> None" "\<not> poisoned t" "queue_values CV (V (inner t)) p []"
    and "\<forall>x \<in> set xs. (\<exists>v. queue_value_ok CV x v) \<and> queue_cost CV x < 2 ^ 64"
    and "sum_list (map (queue_cost CV) xs) \<le> unat capacity"
  shows "wp (sem_bind (push_all (try_push E CV p) capacity xs) (\<lambda>_. pop_all (pop_front E CV p) (length xs)))
    (\<lambda>ys t'. ys = xs \<and> \<not> poisoned t' \<and> queue_values CV (V (inner t')) p []) (queue_failed E) t"
  by (rule wp_mono [OF store_queue.fifo_order [where E = E and V = V and CV = CV]])
    (use assms in \<open>auto simp: queue_ready_def\<close>)

theorem queue_fifo_witness:
  "let t = \<lparr>inner = ([], True), store_token = 1, poisoned = False, has_writes = False\<rparr> :: mem_view transaction;
       xs = [[1, 2], [], [3]] :: bytes list
   in wp (sem_bind (push_all (try_push mem_engine vec_value [2]) 100 xs) (\<lambda>_. pop_all (pop_front mem_engine vec_value [2]) 3))
        (\<lambda>ys t'. ys = xs \<and> \<not> poisoned t' \<and> queue_values vec_value (mem_contents (inner t')) [2] [])
        (queue_failed mem_engine) t"
proof -
  let ?t = "\<lparr>inner = ([], True), store_token = 1, poisoned = False, has_writes = False\<rparr> :: mem_view transaction"
  let ?xs = "[[1, 2], [], [3]] :: bytes list"
  have succ: "prefix_successor [2] \<noteq> None" by code_simp
  have empty: "queue_values vec_value (mem_contents (inner ?t)) [2] []"
    by (simp add: queue_values_def queue_rep_def queue_at_def queue_cells_simps queue_fits_def mem_contents_def
        namespace_def fun_eq_iff)
  have ok: "\<forall>x \<in> set ?xs. (\<exists>v. queue_value_ok vec_value x v) \<and> queue_cost vec_value x < 2 ^ 64"
    "sum_list (map (queue_cost vec_value) ?xs) \<le> unat (100 :: u64)"
    by (simp_all add: queue_value_ok_def queue_cost_def vec_value_def)
  have "length ?xs = 3" by simp
  then show ?thesis
    using queue_fifo [OF mem_engine_laws succ _ empty ok] by (simp only: Let_def transaction.select_convs simp_thms)
qed

text \<open>C7: a push is admitted exactly if the stored bytes, counting eight per value, fit the capacity;
  an admitted push appends and touches no other namespace, a refused one changes nothing.\<close>

theorem try_push_capacity:
  assumes "engine_laws E V" "engine_reliable E" "prefix_successor p = Some u" "\<not> poisoned t"
    and "queue_at (V (inner t)) p h vs" "h + length vs < 2 ^ 64 - 1" "length v + 8 < 2 ^ 64"
  shows "if total_bytes vs + (length v + 8) \<le> unat capacity
    then \<exists>t'. try_push E vec_value p v capacity t = (Inr True, t') \<and> queue_rep (V (inner t')) p (vs @ [v]) \<and>
      outside p (V (inner t)) (V (inner t')) \<and> \<not> poisoned t'
    else try_push E vec_value p v capacity t = (Inr False, t)"
proof -
  have "queue_rep (V (inner t)) p vs" using assms(5) by (auto simp: queue_rep_def)
  then have "wp (try_push E vec_value p v capacity)
      (\<lambda>admitted t'. (admitted \<longleftrightarrow> total_bytes vs + (length v + 8) \<le> unat capacity) \<and>
        (if admitted then queue_rep (V (inner t')) p (vs @ [v]) \<and> outside p (V (inner t)) (V (inner t')) \<and> \<not> poisoned t'
         else t' = t)) (fault E) t"
  proof (rule wp_try_push [OF assms(1,3,4)], goal_cases)
    case (5 h')
    then show ?case using queue_at_unique [OF assms(5) 5(1)] assms(6) by simp
  qed (use assms(7) in \<open>auto simp: vec_value_def\<close>)
  then show ?thesis
    by (rule reliable_wp [OF _ assms(2)]) (auto split: if_splits)
qed

theorem try_push_capacity_witness:
  "let t = \<lparr>inner = ([], True), store_token = 1, poisoned = False, has_writes = False\<rparr> :: mem_view transaction
   in (\<exists>t'. try_push mem_engine vec_value [2] [4, 4] 10 t = (Inr True, t') \<and>
         queue_rep (mem_contents (inner t')) [2] [[4, 4]] \<and>
         outside [2] (mem_contents (inner t)) (mem_contents (inner t')) \<and> \<not> poisoned t') \<and>
      try_push mem_engine vec_value [2] [4, 4] 9 t = (Inr False, t)"
proof -
  let ?t = "\<lparr>inner = ([], True), store_token = 1, poisoned = False, has_writes = False\<rparr> :: mem_view transaction"
  have succ: "prefix_successor [2] = Some [3]" by code_simp
  have empty: "queue_at (mem_contents (inner ?t)) [2] 0 []"
    by (simp add: queue_at_def queue_cells_simps queue_fits_def mem_contents_def namespace_def fun_eq_iff)
  show ?thesis
    using try_push_capacity [OF mem_engine_laws mem_engine_reliable succ _ empty, of "[4, 4]" 10]
      try_push_capacity [OF mem_engine_laws mem_engine_reliable succ _ empty, of "[4, 4]" 9]
    by (simp add: Let_def)
qed

text \<open>A queue with one value on the in-memory engine.\<close>

definition mem_start :: "mem_view transaction" where
  "mem_start = \<lparr>inner = ([], True), store_token = 1, poisoned = False, has_writes = False\<rparr>"

definition mem_one_value :: "mem_view transaction" where
  "mem_one_value = snd (try_push mem_engine vec_value [2] [4, 4] 10 mem_start)"

lemma mem_successor: "prefix_successor [2] = Some [3]"
  by code_simp

lemma mem_one_value_queue: "queue_rep (mem_contents (inner mem_one_value)) [2] [[4, 4]]" "\<not> poisoned mem_one_value"
proof -
  have empty: "queue_rep (mem_contents (inner mem_start)) [2] []"
    by (simp add: mem_start_def queue_rep_def queue_at_def queue_cells_simps queue_fits_def mem_contents_def
        namespace_def fun_eq_iff)
  have "wp (try_push mem_engine vec_value [2] [4, 4] 10)
      (\<lambda>_ t'. queue_rep (mem_contents (inner t')) [2] [[4, 4]] \<and> \<not> poisoned t') (\<lambda>_ _. False) mem_start"
    by (rule wp_try_push [OF mem_engine_laws mem_successor _ empty, where v = "[4, 4]"])
      (use mem_engine_reliable in \<open>auto simp: vec_value_def fault_def queue_at_def mem_start_def\<close>)
  then show "queue_rep (mem_contents (inner mem_one_value)) [2] [[4, 4]]" "\<not> poisoned mem_one_value"
    by (auto simp: mem_one_value_def elim!: wp_cases)
qed

text \<open>popping with a byte bound removes the front and reports whether the queue is empty
  afterwards; a front that exceeds the bound is reported without changing or poisoning anything.\<close>

theorem pop_front_bounded_refines:
  assumes "engine_laws E V" "engine_reliable E" "prefix_successor p = Some u" "\<not> poisoned t"
    and "queue_rep (V (inner t)) p vs"
  shows "case vs of
      [] \<Rightarrow> pop_front_bounded E vec_value p n t = (Inr None, t)
    | v # ws \<Rightarrow>
        if length v \<le> n
        then \<exists>t'. pop_front_bounded E vec_value p n t = (Inr (Some (v, ws = [])), t') \<and>
          queue_rep (V (inner t')) p ws \<and> outside p (V (inner t)) (V (inner t')) \<and> \<not> poisoned t'
        else pop_front_bounded E vec_value p n t = (Inl (ItemTooLarge (length v) n), t)"
proof -
  have "wp (pop_front_bounded E vec_value p n)
      (\<lambda>res t'. case vs of [] \<Rightarrow> res = None \<and> t' = t
         | v # ws \<Rightarrow> length v \<le> n \<and> res = Some (v, ws = []) \<and> queue_rep (V (inner t')) p ws \<and>
             outside p (V (inner t)) (V (inner t')) \<and> \<not> poisoned t')
      (\<lambda>e t'. \<exists>v ws. vs = v # ws \<and> n < length v \<and> e = ItemTooLarge (length v) n \<and> t' = t) t"
    by (rule wp_pop_front_bounded [OF assms(1,3,4,5)]) (use assms(2) in \<open>auto simp: vec_value_def fault_def\<close>)
  then show ?thesis by (elim wp_cases) (auto split: list.splits)
qed

theorem pop_front_bounded_refines_witness:
  "pop_front_bounded mem_engine vec_value [2] 1 mem_one_value = (Inl (ItemTooLarge 2 1), mem_one_value) \<and>
   (\<exists>t'. pop_front_bounded mem_engine vec_value [2] 2 mem_one_value = (Inr (Some ([4, 4], True)), t') \<and>
      queue_rep (mem_contents (inner t')) [2] [] \<and>
      outside [2] (mem_contents (inner mem_one_value)) (mem_contents (inner t')) \<and> \<not> poisoned t')"
  using pop_front_bounded_refines [OF mem_engine_laws mem_engine_reliable mem_successor mem_one_value_queue(2,1), of 1]
    pop_front_bounded_refines [OF mem_engine_laws mem_engine_reliable mem_successor mem_one_value_queue(2,1), of 2]
  by simp

text \<open>discarding up to \<open>n\<close> entries without decoding them leaves the queue without its first \<open>n\<close>
  values, with the metadata of the rest, and reports whether it is empty.\<close>

theorem discard_front_refines:
  assumes "engine_laws E V" "engine_reliable E" "prefix_successor p = Some u" "\<not> poisoned t"
    and "queue_rep (V (inner t)) p vs"
  shows "\<exists>t'. discard_front E p n t = (Inr (drop n vs = []), t') \<and> queue_rep (V (inner t')) p (drop n vs) \<and>
    outside p (V (inner t)) (V (inner t')) \<and> \<not> poisoned t'"
proof -
  have "wp (discard_front E p n) (\<lambda>res t'. res = (drop n vs = []) \<and> queue_rep (V (inner t')) p (drop n vs) \<and>
      outside p (V (inner t)) (V (inner t')) \<and> \<not> poisoned t') (fault E) t"
    by (rule wp_discard_front [OF assms(1,3,4,5)]) auto
  then show ?thesis by (rule reliable_wp [OF _ assms(2)]) auto
qed

theorem discard_front_refines_witness:
  "\<exists>t'. discard_front mem_engine [2] 3 mem_one_value = (Inr True, t') \<and> queue_rep (mem_contents (inner t')) [2] [] \<and>
     outside [2] (mem_contents (inner mem_one_value)) (mem_contents (inner t')) \<and> \<not> poisoned t'"
  using discard_front_refines [OF mem_engine_laws mem_engine_reliable mem_successor mem_one_value_queue(2,1), of 3]
  by simp

text \<open>Valid queue metadata decodes back from its 24 bytes, and whatever decodes is valid metadata:
  a non-empty queue whose byte count covers its sequence keys.\<close>

theorem queue_metadata_roundtrip:
  "(metadata_is_valid m \<longleftrightarrow> decode_metadata (encode_metadata m) = Some m) \<and>
   (decode_metadata bs = Some m \<longrightarrow> encode_metadata m = bs \<and> unat (head m) < unat (tail m) \<and>
     8 * (unat (tail m) - unat (head m)) \<le> unat (queued_bytes m))"
proof (intro conjI)
  show "metadata_is_valid m \<longleftrightarrow> decode_metadata (encode_metadata m) = Some m"
    by (auto simp: decode_encode_metadata) (auto simp: decode_metadata_def Let_def split: if_splits)
  show "decode_metadata bs = Some m \<longrightarrow> encode_metadata m = bs \<and> unat (head m) < unat (tail m) \<and>
     8 * (unat (tail m) - unat (head m)) \<le> unat (queued_bytes m)"
    using decode_metadata_canonical [of bs m] metadata_is_valid_bounds [of m] by auto
qed

theorem queue_metadata_roundtrip_witness:
  "let m = \<lparr>head = 3, tail = 5, queued_bytes = 20\<rparr>
   in decode_metadata (encode_metadata m) = Some m \<and>
      unat (head m) < unat (tail m) \<and> 8 * (unat (tail m) - unat (head m)) \<le> unat (queued_bytes m)"
proof -
  let ?m = "\<lparr>head = 3, tail = 5, queued_bytes = 20\<rparr>"
  have "metadata_is_valid ?m"
    by (simp add: metadata_is_valid_def checked_sub_u64_def checked_mul_u64_def SEQUENCE_BYTES_def)
  then show ?thesis using queue_metadata_roundtrip [of ?m "encode_metadata ?m"] by (simp add: Let_def)
qed

section \<open>The catalog\<close>

text \<open>declaring a data object in a well-formed draft keeps it well formed, binds the name, and
  hands out an identifier no other object of the draft has; a failing declaration changes nothing.\<close>

theorem create_data_fresh:
  assumes "setup_ok setup" "utf8_valid name" "create_data kind name setup = (res, setup')"
  shows "case res of
      Inl e \<Rightarrow> setup' = setup
    | Inr h \<Rightarrow> setup_ok setup' \<and> map_of (setup_catalog setup') = (map_of (setup_catalog setup))(name \<mapsto> (data_id h, kind)) \<and>
        name \<notin> fst ` set (setup_catalog setup) \<and> data_id h \<notin> (fst \<circ> snd) ` set (setup_catalog setup)"
proof (cases res)
  case (Inl e)
  then show ?thesis using assms(3) by (auto simp: create_data_def Let_def split: sum.splits if_splits)
next
  case (Inr h)
  have "map_of (setup_catalog setup) name = None"
    using assms(3) Inr by (cases "map_of (setup_catalog setup) name"; force simp: create_data_def split: sum.splits if_splits)
  then show ?thesis
    using create_data_ok [OF assms(1,2) assms(3) [unfolded Inr]] Inr by (simp add: map_of_eq_None_iff)
qed

theorem create_data_fresh_witness:
  "let setup = \<lparr>setup_token = 1, setup_catalog = [([97], 0, Cell_Kind)]\<rparr>
   in case create_data Queue_Kind [98] setup of
        (Inl e, setup') \<Rightarrow> False
      | (Inr h, setup') \<Rightarrow> setup_ok setup' \<and>
          map_of (setup_catalog setup') = (map_of (setup_catalog setup))([98] \<mapsto> (data_id h, Queue_Kind)) \<and>
          [98] \<notin> fst ` set (setup_catalog setup) \<and> data_id h \<notin> (fst \<circ> snd) ` set (setup_catalog setup)"
proof -
  let ?draft = "\<lparr>setup_token = 1, setup_catalog = [([97], 0, Cell_Kind)]\<rparr>"
  let ?h = "\<lparr>handle_token = 1, data_id = 1\<rparr>"
  let ?draft' = "\<lparr>setup_token = 1, setup_catalog = [([97], 0, Cell_Kind), ([98], 1, Queue_Kind)]\<rparr>"
  have ok: "setup_ok ?draft"
    by (simp add: setup_ok_def catalog_ok_def name_ok_def validate_name_def MAX_NAME_BYTES_def)
  have run: "create_data Queue_Kind [98] ?draft = (Inr ?h, ?draft')"
    by (simp add: create_data_def validate_name_def MAX_NAME_BYTES_def)
  from create_data_fresh [OF ok _ run] run show ?thesis by (simp add: Let_def)
qed

lemma stage_catalog_synced:
  assumes "\<And>s k v s'. put_raw E s k v = Inr s' \<Longrightarrow> synced s' = synced s"
  shows "stage_catalog E cat s = Inr s' \<Longrightarrow> synced s' = synced s"
proof (induction cat arbitrary: s)
  case (Cons e cat)
  then show ?case by (cases e) (auto simp: storage_result_def split: sum.splits dest!: assms)
qed simp

text \<open>The setup transaction asks for a synchronous commit, so that a successful one is durable.\<close>

lemma setup_commit_durable:
  assumes db: "database_laws D V synced committed durable" and new: "open_db path True = Inr d" and init: "initializes_data V f"
    and sync: "\<And>s k v s'. put_raw E s k v = Inr s' \<Longrightarrow> synced s' = synced s" "\<And>t. synced (inner (snd (f t))) = synced (inner t)"
    and run: "setup_commit E D Created open_db path f setup = (Inr token, Some d')"
  shows "durable d' = committed d'"
proof -
  let ?t0 = "\<lambda>s'. \<lparr>inner = s', store_token = setup_token setup, poisoned = False, has_writes = True\<rparr>"
  obtain s s' t where marker: "put_raw E (begin_write_transaction D d True) STORE_MARKER_KEY STORE_MARKER = Inr s"
      and staged: "stage_catalog E (setup_catalog setup) s = Inr s'" and f: "f (?t0 s') = (Inr (), t)"
      and commit: "transaction_commit D t d = (Inr (), d')"
    using run new by (auto simp: setup_commit_def open_database_def storage_result_def split: sum.splits prod.splits)
  have "synced s'"
    using stage_catalog_synced [where synced = synced, OF _ staged] sync(1) marker database_begin(3) [OF db]
    by (metis begin_write_transaction_def)
  then have "synced (inner t)" using sync(2) [of "?t0 s'"] f by simp
  moreover have "has_writes t" using init f unfolding initializes_data_def by (metis transaction.select_convs(4))
  ultimately show ?thesis
    using commit database_commit_ok(2) [OF db]
    by (auto simp: transaction_commit_def commit_transaction_def sem_throw_def split: if_splits prod.splits option.splits)
qed

text \<open>C8: after a successful setup commit, a store reopened on what a crash leaves, the durable contents, has exactly the
  drafted catalog, so every declared object is found under its identifier and kind. The commit is durable because its transaction
  was begun with the synchronous option, which writing does not change.\<close>

theorem reopen_after_setup:
  assumes "engine_laws E V" "engine_reliable E" "database_laws D V synced committed durable"
    and "open_db path True = Inr d" "committed d = Map.empty" "setup_ok setup" "initializes_data V f"
    and "\<And>s k v s'. put_raw E s k v = Inr s' \<Longrightarrow> synced s' = synced s" "\<And>t. synced (inner (snd (f t))) = synced (inner t)"
    and "setup_commit E D Created open_db path f setup = (Inr token, Some d')"
    and "inspect path = PathDirectory" "reopen_db path False = Inr d''" "committed d'' = durable d'"
  shows "store_open E D inspect reopen_db path next_token =
    (Inr \<lparr>store_database = d'', store_tok = next_token, store_catalog = setup_catalog setup\<rparr>, next_token + 1)"
proof -
  have ok: "catalog_ok (setup_catalog setup)" using assms(6) by (simp add: setup_ok_def)
  have "durable d' = committed d'" by (rule setup_commit_durable [OF assms(3,4,7,8,9,10)])
  then have "published (committed d'') (setup_catalog setup)"
    using setup_commit_published(1) [OF assms(1,3,4,5) ok assms(7,10)] assms(13) by simp
  then show ?thesis
    by (rule store_open_published [where inspect = inspect and open_db = reopen_db, OF assms(1,2,3,11,12) _ ok])
qed

theorem reopen_after_setup_witness:
  "let setup = \<lparr>setup_token = 1, setup_catalog = [([97], 0, Cell_Kind)]\<rparr>;
       d = \<lparr>mem_committed = [], mem_durable = []\<rparr>;
       d' = \<lparr>mem_committed = [([0], STORE_MARKER), ([1, 97], [1, 0, 0, 0, 0])],
             mem_durable = [([0], STORE_MARKER), ([1, 97], [1, 0, 0, 0, 0])]\<rparr>
   in setup_commit mem_engine mem_db Created (\<lambda>_ _. Inr d) [47] (sem_return ()) setup = (Inr 1, Some d') \<and>
      store_open mem_engine mem_db (\<lambda>_. PathDirectory) (\<lambda>_ _. Inr d') [47] 5 =
        (Inr \<lparr>store_database = d', store_tok = 5, store_catalog = setup_catalog setup\<rparr>, 6)"
proof -
  let ?draft = "\<lparr>setup_token = 1, setup_catalog = [([97], 0, Cell_Kind)]\<rparr>"
  let ?d = "\<lparr>mem_committed = [], mem_durable = []\<rparr>"
  let ?d' = "\<lparr>mem_committed = [([0], STORE_MARKER), ([1, 97], [1, 0, 0, 0, 0])],
             mem_durable = [([0], STORE_MARKER), ([1, 97], [1, 0, 0, 0, 0])]\<rparr>"
  have ok: "setup_ok ?draft"
    by (simp add: setup_ok_def catalog_ok_def name_ok_def validate_name_def MAX_NAME_BYTES_def)
  have init: "initializes_data mem_contents (sem_return ())"
    by (simp add: initializes_data_def sem_return_def)
  have be: "u32_to_be 0 = [0, 0, 0, 0]" by code_simp
  have run: "setup_commit mem_engine mem_db Created (\<lambda>_ _. Inr ?d) [47] (sem_return ()) ?draft = (Inr 1, Some ?d')"
    by (simp add: setup_commit_def open_database_def storage_result_def mem_engine_def mem_db_def begin_write_transaction_def
        catalog_key_def encode_binding_def be STORE_MARKER_KEY_def CATALOG_DOMAIN_def sem_return_def
        transaction_commit_def commit_transaction_def)
  have "store_open mem_engine mem_db (\<lambda>_. PathDirectory) (\<lambda>_ _. Inr ?d') [47] 5 =
        (Inr \<lparr>store_database = ?d', store_tok = 5, store_catalog = setup_catalog ?draft\<rparr>, 5 + 1)"
    by (rule reopen_after_setup [where path = "[47]" and d = ?d,
          OF mem_engine_laws mem_engine_reliable mem_db_laws _ _ ok init _ _ run]) (auto simp: mem_engine_def sem_return_def)
  with run show ?thesis by (simp add: Let_def)
qed

text \<open>C9: a setup that fails before its commit reaches the engine (while staging, in the initializer,
  or on a poisoned transaction) publishes nothing: the path it leaves behind is refused by \<^verbatim>\<open>Store::open\<close>.\<close>

theorem failed_setup_rejected:
  assumes "engine_laws E V" "engine_reliable E" "database_laws D V synced committed durable"
    and "open_db path True = Inr d" "committed d = Map.empty"
    and "setup_commit E D Created open_db path f setup = (Inl e, Some d')" "\<And>m. e \<noteq> Storage ''commit transaction'' m"
    and "inspect path = PathDirectory" "reopen_db path False = Inr d'"
  shows "store_open E D inspect reopen_db path next_token = (Inl InvalidStore, next_token)"
proof -
  have "d' = d"
    using assms(4,6,7)
    by (auto simp: setup_commit_def open_database_def storage_result_def transaction_commit_def commit_transaction_def
        sem_throw_def sem_return_def split: sum.splits prod.splits if_splits option.splits)
  then show ?thesis
    by (intro store_open_unpublished [where inspect = inspect and open_db = reopen_db, OF assms(1,2,3,8,9)])
      (simp add: assms(5))
qed

theorem failed_setup_rejected_witness:
  "let setup = \<lparr>setup_token = 1, setup_catalog = []\<rparr>; d = \<lparr>mem_committed = [], mem_durable = []\<rparr>
   in setup_commit mem_engine mem_db Created (\<lambda>_ _. Inr d) [47] (sem_throw MultiplicityOverflow) setup =
        (Inl MultiplicityOverflow, Some d) \<and>
      store_open mem_engine mem_db (\<lambda>_. PathDirectory) (\<lambda>_ _. Inr d) [47] 5 = (Inl InvalidStore, 5)"
proof -
  let ?draft = "\<lparr>setup_token = 1, setup_catalog = []\<rparr>"
  let ?d = "\<lparr>mem_committed = [], mem_durable = []\<rparr>"
  have run: "setup_commit mem_engine mem_db Created (\<lambda>_ _. Inr ?d) [47] (sem_throw MultiplicityOverflow) ?draft =
        (Inl MultiplicityOverflow, Some ?d)"
    by (simp add: setup_commit_def open_database_def storage_result_def mem_engine_def sem_throw_def)
  have "store_open mem_engine mem_db (\<lambda>_. PathDirectory) (\<lambda>_ _. Inr ?d) [47] 5 = (Inl InvalidStore, 5)"
    by (rule failed_setup_rejected [where path = "[47]" and d = ?d,
          OF mem_engine_laws mem_engine_reliable mem_db_laws _ _ run]) simp_all
  with run show ?thesis by (simp add: Let_def)
qed

end
