(* ===== verification/Change_Schema.thy ===== *)
theory Change_Schema
  imports Prelude "HOL-Library.Char_ord"
begin

text \<open>
  Logical record schemas: \<^verbatim>\<open>crates/change/src/schema.rs\<close>.

  \<open>data_type\<close> and \<open>field\<close> are Arrow's types as the code matches on them; the payload of a type that is rejected
  whatever it holds is left out. A \<^verbatim>\<open>HashMap\<close> of metadata is an association list, in whose order the code has no
  interest. \<open>validate_schema\<close> threads its budget through the fields; the theorems show that it accepts exactly the
  schemas described by \<open>schema_ok\<close>, which has no budget, and that it does not panic.
\<close>

section \<open>Arrow types\<close>

datatype time_unit = Second | Millisecond | Microsecond | Nanosecond

datatype data_type =
    Null | Boolean
  | Int8 | Int16 | Int32 | Int64 | UInt8 | UInt16 | UInt32 | UInt64
  | Float16 | Float32 | Float64
  | Timestamp time_unit "string option"
  | Date32 | Date64 | Time32 | Time64 | Duration | Interval
  | Binary | FixedSizeBinary | LargeBinary | BinaryView
  | Utf8 | LargeUtf8 | Utf8View
  | List_Type field | ListView | FixedSizeList | LargeList | LargeListView
  | Struct_Type "field list"
  | Union_Type | Dictionary | Decimal32 | Decimal64 | Decimal128 nat int | Decimal256 | Map_Type | RunEndEncoded
and field = Field (field_name: string) (field_type: data_type) (nullable: bool) (field_metadata: "(string \<times> string) list")

record schema =
  schema_fields :: "field list"
  schema_metadata :: "(string \<times> string) list"

section \<open>Definitions\<close>

definition MAX_NESTING_DEPTH :: nat where
  "MAX_NESTING_DEPTH = 60"

definition MAX_SCHEMA_FIELDS :: nat where
  "MAX_SCHEMA_FIELDS = 16384"

definition MAX_SCHEMA_METADATA_ENTRIES :: nat where
  "MAX_SCHEMA_METADATA_ENTRIES = 49152"

definition MAX_SCHEMA_TEXT_BYTES :: nat where
  "MAX_SCHEMA_TEXT_BYTES = 8 * 1024 * 1024"

definition RESERVED_FIELD_PREFIX :: string where
  "RESERVED_FIELD_PREFIX = ''$dogpaddle.''"

definition RESERVED_METADATA_PREFIX :: string where
  "RESERVED_METADATA_PREFIX = ''dogpaddle.''"

datatype data_type_layout =
    NullLayout | Bitmap | FixedWidth nat | VariableWidth | ListLayout field | StructLayout "field list"

fun classify :: "data_type \<Rightarrow> data_type_layout option" where
  "classify Null = Some NullLayout"
| "classify Boolean = Some Bitmap"
| "classify Int8 = Some (FixedWidth 1)"
| "classify UInt8 = Some (FixedWidth 1)"
| "classify Int16 = Some (FixedWidth 2)"
| "classify UInt16 = Some (FixedWidth 2)"
| "classify Int32 = Some (FixedWidth 4)"
| "classify UInt32 = Some (FixedWidth 4)"
| "classify Float32 = Some (FixedWidth 4)"
| "classify Date32 = Some (FixedWidth 4)"
| "classify Int64 = Some (FixedWidth 8)"
| "classify UInt64 = Some (FixedWidth 8)"
| "classify Float64 = Some (FixedWidth 8)"
| "classify (Timestamp _ _) = Some (FixedWidth 8)"
| "classify (Decimal128 _ _) = Some (FixedWidth 16)"
| "classify Utf8 = Some VariableWidth"
| "classify Binary = Some VariableWidth"
| "classify (List_Type child) = Some (ListLayout child)"
| "classify (Struct_Type children) = Some (StructLayout children)"
| "classify _ = None"

record schema_budget =
  budget_fields :: nat
  metadata_entries :: nat
  text_bytes :: nat

datatype schema_error =
    TooManyFields nat
  | TooManyMetadataEntries string nat
  | TooManyTextBytes string nat
  | DuplicateField string string
  | ReservedFieldName string string
  | ReservedMetadataKey string string
  | UnsupportedType string string
  | InvalidDecimal128 string nat int
  | EmptyTimestampTimezone string
  | NestingTooDeep nat
  | SchemaPanic string

type_synonym 'a schema_check = "(schema_budget, schema_error, 'a) sem"

fun join_path :: "string list \<Rightarrow> string" where
  "join_path [] = []"
| "join_path [x] = x"
| "join_path (x # xs) = x @ ''.'' @ join_path xs"

definition owner :: "string list \<Rightarrow> string" where
  "owner path = (if path = [] then ''schema'' else join_path path)"

definition charge_text :: "nat \<Rightarrow> string list \<Rightarrow> unit schema_check" where
  "charge_text n path b =
     (case checked_add_usize (text_bytes b) n of
        None \<Rightarrow> (Inl (TooManyTextBytes (owner path) MAX_SCHEMA_TEXT_BYTES), b)
      | Some amount \<Rightarrow>
          if amount \<le> MAX_SCHEMA_TEXT_BYTES then (Inr (), b\<lparr>text_bytes := amount\<rparr>)
          else (Inl (TooManyTextBytes (owner path) MAX_SCHEMA_TEXT_BYTES), b))"

fun charge_metadata :: "(string \<times> string) list \<Rightarrow> string list \<Rightarrow> unit schema_check" where
  "charge_metadata [] path = sem_return ()"
| "charge_metadata ((key, v) # rest) path =
     sem_bind (charge_text (length key) path) (\<lambda>_.
     sem_bind (charge_text (length v) path) (\<lambda>_.
     charge_metadata rest path))"

definition starts_with :: "string \<Rightarrow> string \<Rightarrow> bool" where
  "starts_with s p \<longleftrightarrow> take (length p) s = p"

definition validate_metadata :: "(string \<times> string) list \<Rightarrow> string list \<Rightarrow> unit schema_check" where
  "validate_metadata metadata path =
     sem_bind (\<lambda>b. case checked_add_usize (metadata_entries b) (length metadata) of
        None \<Rightarrow> (Inl (TooManyMetadataEntries (owner path) MAX_SCHEMA_METADATA_ENTRIES), b)
      | Some entries \<Rightarrow>
          if entries \<le> MAX_SCHEMA_METADATA_ENTRIES then (Inr (), b\<lparr>metadata_entries := entries\<rparr>)
          else (Inl (TooManyMetadataEntries (owner path) MAX_SCHEMA_METADATA_ENTRIES), b)) (\<lambda>_.
     sem_bind (charge_metadata metadata path) (\<lambda>_.
     case sort (filter (\<lambda>key. starts_with key RESERVED_METADATA_PREFIX) (map fst metadata)) of
       [] \<Rightarrow> sem_return ()
     | key # _ \<Rightarrow> sem_throw (ReservedMetadataKey (owner path) key)))"

definition valid_decimal128_parameters :: "nat \<Rightarrow> int \<Rightarrow> bool" where
  "valid_decimal128_parameters precision scale \<longleftrightarrow> precision > 0 \<and> precision \<le> 38 \<and> (scale \<le> 0 \<or> scale \<le> int precision)"

definition enter_container :: "nat \<Rightarrow> schema_error + nat" where
  "enter_container depth =
     (case checked_add_usize depth 1 of
        None \<Rightarrow> Inl (NestingTooDeep MAX_NESTING_DEPTH)
      | Some nested \<Rightarrow> if nested > MAX_NESTING_DEPTH then Inl (NestingTooDeep MAX_NESTING_DEPTH) else Inr nested)"

fun unsupported_type_name :: "data_type \<Rightarrow> schema_error + string" where
  "unsupported_type_name Float16 = Inr ''Float16''"
| "unsupported_type_name Date64 = Inr ''Date64''"
| "unsupported_type_name Time32 = Inr ''Time32''"
| "unsupported_type_name Time64 = Inr ''Time64''"
| "unsupported_type_name Duration = Inr ''Duration''"
| "unsupported_type_name Interval = Inr ''Interval''"
| "unsupported_type_name FixedSizeBinary = Inr ''FixedSizeBinary''"
| "unsupported_type_name LargeBinary = Inr ''LargeBinary''"
| "unsupported_type_name BinaryView = Inr ''BinaryView''"
| "unsupported_type_name LargeUtf8 = Inr ''LargeUtf8''"
| "unsupported_type_name Utf8View = Inr ''Utf8View''"
| "unsupported_type_name ListView = Inr ''ListView''"
| "unsupported_type_name FixedSizeList = Inr ''FixedSizeList''"
| "unsupported_type_name LargeList = Inr ''LargeList''"
| "unsupported_type_name LargeListView = Inr ''LargeListView''"
| "unsupported_type_name Union_Type = Inr ''Union''"
| "unsupported_type_name Dictionary = Inr ''Dictionary''"
| "unsupported_type_name Decimal32 = Inr ''Decimal32''"
| "unsupported_type_name Decimal64 = Inr ''Decimal64''"
| "unsupported_type_name Decimal256 = Inr ''Decimal256''"
| "unsupported_type_name Map_Type = Inr ''Map''"
| "unsupported_type_name RunEndEncoded = Inr ''RunEndEncoded''"
| "unsupported_type_name _ = Inl (SchemaPanic ''supported Arrow types have a DataTypeLayout'')"

definition count_field :: "unit schema_check" where
  "count_field b =
     (case checked_add_usize (budget_fields b) 1 of
        None \<Rightarrow> (Inl (TooManyFields MAX_SCHEMA_FIELDS), b)
      | Some count \<Rightarrow>
          if count \<le> MAX_SCHEMA_FIELDS then (Inr (), b\<lparr>budget_fields := count\<rparr>)
          else (Inl (TooManyFields MAX_SCHEMA_FIELDS), b))"

definition room_for_fields :: "nat \<Rightarrow> unit schema_check" where
  "room_for_fields n b =
     (case checked_add_usize (budget_fields b) n of
        None \<Rightarrow> (Inl (TooManyFields MAX_SCHEMA_FIELDS), b)
      | Some count \<Rightarrow> if count > MAX_SCHEMA_FIELDS then (Inl (TooManyFields MAX_SCHEMA_FIELDS), b) else (Inr (), b))"

text \<open>The checks of a field before its children.\<close>

definition check_field :: "field \<Rightarrow> string list \<Rightarrow> unit schema_check" where
  "check_field f path =
     sem_bind count_field (\<lambda>_.
     sem_bind (charge_text (length (field_name f)) path) (\<lambda>_.
     if starts_with (field_name f) RESERVED_FIELD_PREFIX then sem_throw (ReservedFieldName (join_path path) (field_name f))
     else
       sem_bind (validate_metadata (field_metadata f) path) (\<lambda>_.
       case field_type f of
         Decimal128 precision scale \<Rightarrow>
           if valid_decimal128_parameters precision scale then sem_return ()
           else sem_throw (InvalidDecimal128 (join_path path) precision scale)
       | Timestamp _ (Some timezone) \<Rightarrow>
           sem_bind (charge_text (length timezone) path) (\<lambda>_.
           if timezone = [] then sem_throw (EmptyTimestampTimezone (join_path path)) else sem_return ())
       | _ \<Rightarrow> sem_return ())))"

fun validate_field :: "field \<Rightarrow> string list \<Rightarrow> nat \<Rightarrow> unit schema_check"
  and validate_each :: "field list \<Rightarrow> string list \<Rightarrow> string list \<Rightarrow> nat \<Rightarrow> unit schema_check" where
  "validate_field (Field nm ty nl md) path depth =
     sem_bind (check_field (Field nm ty nl md) path) (\<lambda>_.
     case ty of
       List_Type child \<Rightarrow>
         (case enter_container depth of
            Inl e \<Rightarrow> sem_throw e
          | Inr nested \<Rightarrow> validate_field child (path @ [field_name child]) nested)
     | Struct_Type children \<Rightarrow>
         (case enter_container depth of
            Inl e \<Rightarrow> sem_throw e
          | Inr nested \<Rightarrow>
              sem_bind (room_for_fields (length children)) (\<lambda>_. validate_each children [] path nested))
     | _ \<Rightarrow>
         (case classify ty of
            Some _ \<Rightarrow> sem_return ()
          | None \<Rightarrow>
              (case unsupported_type_name ty of
                 Inl e \<Rightarrow> sem_throw e
               | Inr kind \<Rightarrow> sem_throw (UnsupportedType (join_path path) kind))))"
| "validate_each [] names path depth = sem_return ()"
| "validate_each (f # fs) names path depth =
     (if field_name f \<in> set names then sem_throw (DuplicateField (join_path path) (field_name f))
      else
        sem_bind (validate_field f (path @ [field_name f]) depth) (\<lambda>_.
        validate_each fs (field_name f # names) path depth))"

definition validate_fields :: "field list \<Rightarrow> string list \<Rightarrow> nat \<Rightarrow> unit schema_check" where
  "validate_fields fs path depth =
     sem_bind (room_for_fields (length fs)) (\<lambda>_. validate_each fs [] path depth)"

definition validate_schema :: "schema \<Rightarrow> schema_error + unit" where
  "validate_schema s =
     fst (sem_bind (validate_metadata (schema_metadata s) []) (\<lambda>_. validate_fields (schema_fields s) [] 0)
       \<lparr>budget_fields = 0, metadata_entries = 0, text_bytes = 0\<rparr>)"

section \<open>What is accepted\<close>

definition metadata_ok :: "(string \<times> string) list \<Rightarrow> bool" where
  "metadata_ok md \<longleftrightarrow> (\<forall>(key, v) \<in> set md. \<not> starts_with key RESERVED_METADATA_PREFIX)"

definition metadata_text :: "(string \<times> string) list \<Rightarrow> nat" where
  "metadata_text md = (\<Sum>(key, v) \<leftarrow> md. length key + length v)"

text \<open>A type that is no container, without regard to budgets.\<close>

fun plain_type_ok :: "data_type \<Rightarrow> bool" where
  "plain_type_ok (Decimal128 precision scale) \<longleftrightarrow> valid_decimal128_parameters precision scale"
| "plain_type_ok (Timestamp _ zone) \<longleftrightarrow> zone \<noteq> Some []"
| "plain_type_ok ty \<longleftrightarrow> classify ty \<noteq> None"

fun zone_text :: "data_type \<Rightarrow> nat" where
  "zone_text (Timestamp _ (Some zone)) = length zone"
| "zone_text _ = 0"

text \<open>Well-formed fields below \<open>depth\<close> containers, and their number, metadata entries and text.\<close>

fun field_ok :: "nat \<Rightarrow> field \<Rightarrow> bool" and fields_ok :: "nat \<Rightarrow> field list \<Rightarrow> bool" where
  "field_ok depth (Field nm ty nl md) \<longleftrightarrow>
     \<not> starts_with nm RESERVED_FIELD_PREFIX \<and> metadata_ok md \<and>
     (case ty of
        List_Type child \<Rightarrow> depth < MAX_NESTING_DEPTH \<and> field_ok (Suc depth) child
      | Struct_Type children \<Rightarrow>
          depth < MAX_NESTING_DEPTH \<and> distinct (map field_name children) \<and> fields_ok (Suc depth) children
      | _ \<Rightarrow> plain_type_ok ty)"
| "fields_ok depth [] \<longleftrightarrow> True"
| "fields_ok depth (f # fs) \<longleftrightarrow> field_ok depth f \<and> fields_ok depth fs"

fun field_cost :: "field \<Rightarrow> schema_budget" and fields_cost :: "field list \<Rightarrow> schema_budget" where
  "field_cost (Field nm ty nl md) =
     (let c = (case ty of List_Type child \<Rightarrow> field_cost child | Struct_Type children \<Rightarrow> fields_cost children
        | _ \<Rightarrow> \<lparr>budget_fields = 0, metadata_entries = 0, text_bytes = zone_text ty\<rparr>)
      in \<lparr>budget_fields = Suc (budget_fields c), metadata_entries = length md + metadata_entries c,
          text_bytes = length nm + metadata_text md + text_bytes c\<rparr>)"
| "fields_cost [] = \<lparr>budget_fields = 0, metadata_entries = 0, text_bytes = 0\<rparr>"
| "fields_cost (f # fs) =
     \<lparr>budget_fields = budget_fields (field_cost f) + budget_fields (fields_cost fs),
      metadata_entries = metadata_entries (field_cost f) + metadata_entries (fields_cost fs),
      text_bytes = text_bytes (field_cost f) + text_bytes (fields_cost fs)\<rparr>"

definition schema_ok :: "schema \<Rightarrow> bool" where
  "schema_ok s \<longleftrightarrow>
     metadata_ok (schema_metadata s) \<and> distinct (map field_name (schema_fields s)) \<and> fields_ok 0 (schema_fields s) \<and>
     (let c = fields_cost (schema_fields s) in
        budget_fields c \<le> MAX_SCHEMA_FIELDS \<and>
        length (schema_metadata s) + metadata_entries c \<le> MAX_SCHEMA_METADATA_ENTRIES \<and>
        metadata_text (schema_metadata s) + text_bytes c \<le> MAX_SCHEMA_TEXT_BYTES)"

section \<open>The validator\<close>

definition fits :: "schema_budget \<Rightarrow> bool" where
  "fits b \<longleftrightarrow> budget_fields b \<le> MAX_SCHEMA_FIELDS \<and> metadata_entries b \<le> MAX_SCHEMA_METADATA_ENTRIES \<and> text_bytes b \<le> MAX_SCHEMA_TEXT_BYTES"

definition plus_budget :: "schema_budget \<Rightarrow> schema_budget \<Rightarrow> schema_budget" where
  "plus_budget a b =
     \<lparr>budget_fields = budget_fields a + budget_fields b, metadata_entries = metadata_entries a + metadata_entries b,
      text_bytes = text_bytes a + text_bytes b\<rparr>"

text \<open>
  \<open>checks m P c\<close>: from a budget within the limits, the check \<open>m\<close> succeeds exactly if \<open>P\<close> holds and the cost
  \<open>c\<close> still fits, it then adds the cost, and its error is no panic.
\<close>

definition checks :: "unit schema_check \<Rightarrow> bool \<Rightarrow> schema_budget \<Rightarrow> bool" where
  "checks m P c \<longleftrightarrow>
     (\<forall>b. fits b \<longrightarrow>
        (case m b of
           (Inr _, b') \<Rightarrow> P \<and> fits b' \<and> b' = plus_budget b c
         | (Inl e, _) \<Rightarrow> \<not> (P \<and> fits (plus_budget b c)) \<and> (\<forall>msg. e \<noteq> SchemaPanic msg)))"

named_theorems checks_intros \<open>checks of a schema and what they accept\<close>

abbreviation cost_of :: "nat \<Rightarrow> nat \<Rightarrow> nat \<Rightarrow> schema_budget" where
  "cost_of f m t \<equiv> \<lparr>budget_fields = f, metadata_entries = m, text_bytes = t\<rparr>"

lemma limits: "MAX_SCHEMA_FIELDS \<le> usize_max" "MAX_SCHEMA_METADATA_ENTRIES \<le> usize_max" "MAX_SCHEMA_TEXT_BYTES \<le> usize_max"
  by (simp_all add: MAX_SCHEMA_FIELDS_def MAX_SCHEMA_METADATA_ENTRIES_def MAX_SCHEMA_TEXT_BYTES_def usize_max_def)

lemma checks_charge_text: "checks (charge_text n path) True (cost_of 0 0 n)"
  using limits by (auto simp: checks_def charge_text_def fits_def plus_budget_def checked_add_usize_def)

lemma checks_count_field: "checks count_field True (cost_of 1 0 0)"
  using limits by (auto simp: checks_def count_field_def fits_def plus_budget_def checked_add_usize_def)

lemma checks_return: "checks (sem_return ()) True (cost_of 0 0 0)"
  by (simp add: checks_def sem_return_def plus_budget_def)

lemma checks_throw: "(\<And>msg. e \<noteq> SchemaPanic msg) \<Longrightarrow> \<not> P \<Longrightarrow> checks (sem_throw e) P c"
  by (simp add: checks_def sem_throw_def)

lemma fits_plus: "fits (plus_budget b (plus_budget c d)) \<Longrightarrow> fits (plus_budget b c)"
  by (simp add: fits_def plus_budget_def)

lemma plus_budget_assoc: "plus_budget (plus_budget a b) c = plus_budget a (plus_budget b c)"
  by (simp add: plus_budget_def add.assoc)

lemma checks_Inl:
  "checks m P c \<Longrightarrow> fits b \<Longrightarrow> m b = (Inl e, b') \<Longrightarrow> \<not> (P \<and> fits (plus_budget b c)) \<and> (\<forall>msg. e \<noteq> SchemaPanic msg)"
  unfolding checks_def by (drule spec [of _ b]) simp

lemma checks_Inr: "checks m P c \<Longrightarrow> fits b \<Longrightarrow> m b = (Inr u, b') \<Longrightarrow> P \<and> fits b' \<and> b' = plus_budget b c"
  unfolding checks_def by (drule spec [of _ b]) auto

lemma checks_bind:
  assumes "checks m P c" "P \<Longrightarrow> checks n Q d"
  shows "checks (sem_bind m (\<lambda>_. n)) (P \<and> Q) (plus_budget c d)"
  unfolding checks_def
proof (intro allI impI)
  fix b assume b: "fits b"
  obtain r b1 where m: "m b = (r, b1)" by fastforce
  show "case sem_bind m (\<lambda>_. n) b of (Inr _, b') \<Rightarrow> (P \<and> Q) \<and> fits b' \<and> b' = plus_budget b (plus_budget c d)
    | (Inl e, _) \<Rightarrow> \<not> ((P \<and> Q) \<and> fits (plus_budget b (plus_budget c d))) \<and> (\<forall>msg. e \<noteq> SchemaPanic msg)"
  proof (cases r)
    case (Inl e)
    then show ?thesis using checks_Inl [OF assms(1) b] m fits_plus [of b c d] by (auto simp: sem_bind_def)
  next
    case (Inr u)
    then have P: "P" "fits b1" "b1 = plus_budget b c" using checks_Inr [OF assms(1) b] m by auto
    obtain r2 b2 where n: "n b1 = (r2, b2)" by fastforce
    show ?thesis
      using checks_Inl [OF assms(2) P(2)] checks_Inr [OF assms(2) P(2)] m n Inr P
      by (cases r2) (auto simp: sem_bind_def plus_budget_assoc)
  qed
qed

lemma checks_cong: "checks m P c \<Longrightarrow> P = Q \<Longrightarrow> c = d \<Longrightarrow> checks m Q d"
  by simp

lemma checks_if_throw:
  "(\<And>msg. e \<noteq> SchemaPanic msg) \<Longrightarrow> checks n Q d \<Longrightarrow> checks (if c then sem_throw e else n) (\<not> c \<and> Q) d"
  by (cases c) (auto intro: checks_throw)

lemma metadata_text_simps [simp]:
  "metadata_text [] = 0" "metadata_text ((k, v) # md) = length k + length v + metadata_text md"
  by (simp_all add: metadata_text_def)

lemma checks_charge_metadata: "checks (charge_metadata md path) True (cost_of 0 0 (metadata_text md))"
proof (induction md)
  case (Cons kv md)
  obtain k v where [simp]: "kv = (k, v)" by fastforce
  show ?case
    unfolding \<open>kv = (k, v)\<close> charge_metadata.simps
    by (rule checks_cong [OF checks_bind [OF checks_charge_text checks_bind [OF checks_charge_text Cons.IH]]])
      (simp_all add: plus_budget_def)
qed (simp add: checks_return)

lemma metadata_ok_filter:
  "metadata_ok md \<longleftrightarrow> filter (\<lambda>key. starts_with key RESERVED_METADATA_PREFIX) (map fst md) = []"
  by (auto simp: metadata_ok_def filter_empty_conv)

lemma checks_reserved:
  "checks (case sort (filter (\<lambda>key. starts_with key RESERVED_METADATA_PREFIX) (map fst md)) of
       [] \<Rightarrow> sem_return () | key # _ \<Rightarrow> sem_throw (ReservedMetadataKey (owner path) key)) (metadata_ok md) (cost_of 0 0 0)"
proof (cases "sort (filter (\<lambda>key. starts_with key RESERVED_METADATA_PREFIX) (map fst md))")
  case Nil
  then have "metadata_ok md" unfolding metadata_ok_filter by (metis length_0_conv length_sort)
  then show ?thesis using Nil checks_return by simp
next
  case (Cons key ks)
  then have "\<not> metadata_ok md" unfolding metadata_ok_filter by fastforce
  then show ?thesis using Cons by (simp add: checks_throw)
qed

lemma checks_metadata_count:
  "checks (\<lambda>b. case checked_add_usize (metadata_entries b) n of
        None \<Rightarrow> (Inl (TooManyMetadataEntries (owner path) MAX_SCHEMA_METADATA_ENTRIES), b)
      | Some entries \<Rightarrow>
          if entries \<le> MAX_SCHEMA_METADATA_ENTRIES then (Inr (), b\<lparr>metadata_entries := entries\<rparr>)
          else (Inl (TooManyMetadataEntries (owner path) MAX_SCHEMA_METADATA_ENTRIES), b)) True (cost_of 0 n 0)"
  using limits by (auto simp: checks_def fits_def plus_budget_def checked_add_usize_def)

lemma checks_validate_metadata:
  "checks (validate_metadata md path) (metadata_ok md) (cost_of 0 (length md) (metadata_text md))"
  unfolding validate_metadata_def
  by (rule checks_cong [OF checks_bind [OF checks_metadata_count checks_bind [OF checks_charge_metadata checks_reserved]]])
    (simp_all add: plus_budget_def)

text \<open>What \<open>check_field\<close> requires of the type itself.\<close>

fun parameters_ok :: "data_type \<Rightarrow> bool" where
  "parameters_ok (Decimal128 precision scale) \<longleftrightarrow> valid_decimal128_parameters precision scale"
| "parameters_ok (Timestamp _ zone) \<longleftrightarrow> zone \<noteq> Some []"
| "parameters_ok ty \<longleftrightarrow> True"

lemma checks_parameters:
  "checks (case ty of
         Decimal128 precision scale \<Rightarrow>
           if valid_decimal128_parameters precision scale then sem_return ()
           else sem_throw (InvalidDecimal128 (join_path path) precision scale)
       | Timestamp _ (Some timezone) \<Rightarrow>
           sem_bind (charge_text (length timezone) path) (\<lambda>_.
           if timezone = [] then sem_throw (EmptyTimestampTimezone (join_path path)) else sem_return ())
       | _ \<Rightarrow> sem_return ()) (parameters_ok ty) (cost_of 0 0 (zone_text ty))"
proof (cases ty)
  case (Timestamp u zone)
  show ?thesis
  proof (cases zone)
    case (Some z)
    show ?thesis
      unfolding Timestamp Some data_type.case option.case
      by (rule checks_cong [OF checks_bind [OF checks_charge_text checks_if_throw [OF _ checks_return]]])
        (auto simp: plus_budget_def)
  qed (simp add: Timestamp checks_return)
qed (auto simp: checks_return intro: checks_throw)

lemma checks_check_field:
  "checks (check_field (Field nm ty nl md) path) (\<not> starts_with nm RESERVED_FIELD_PREFIX \<and> metadata_ok md \<and> parameters_ok ty)
     (cost_of 1 (length md) (length nm + metadata_text md + zone_text ty))"
  unfolding check_field_def field.sel
  by (rule checks_cong [OF checks_bind [OF checks_count_field checks_bind [OF checks_charge_text
        checks_if_throw [OF _ checks_bind [OF checks_validate_metadata checks_parameters]]]]])
    (auto simp: plus_budget_def)

lemma checks_room: "checks m P c \<Longrightarrow> n \<le> budget_fields c \<Longrightarrow> checks (sem_bind (room_for_fields n) (\<lambda>_. m)) P c"
proof -
  assume m: "checks m P c" and n: "n \<le> budget_fields c"
  have "sem_bind (room_for_fields n) (\<lambda>_. m) b =
      (if budget_fields b + n \<le> MAX_SCHEMA_FIELDS then m b else (Inl (TooManyFields MAX_SCHEMA_FIELDS), b))" for b
    using limits(1) by (auto simp: sem_bind_def room_for_fields_def checked_add_usize_def)
  then show ?thesis using m n by (auto simp: checks_def fits_def plus_budget_def)
qed

lemma enter_container_eq:
  "enter_container depth = (if depth < MAX_NESTING_DEPTH then Inr (Suc depth) else Inl (NestingTooDeep MAX_NESTING_DEPTH))"
  by (auto simp: enter_container_def checked_add_usize_def MAX_NESTING_DEPTH_def usize_max_def)

lemma checks_enter:
  assumes "depth < MAX_NESTING_DEPTH \<Longrightarrow> checks (f (Suc depth)) P c"
  shows "checks (case enter_container depth of Inl e \<Rightarrow> sem_throw e | Inr nested \<Rightarrow> f nested) (depth < MAX_NESTING_DEPTH \<and> P) c"
  using assms by (cases "depth < MAX_NESTING_DEPTH") (auto simp: enter_container_eq intro: checks_throw)

lemma fields_cost_length: "length fs \<le> budget_fields (fields_cost fs)"
proof (induction fs)
  case (Cons f fs)
  have "1 \<le> budget_fields (field_cost f)" by (cases f) (simp add: Let_def)
  then show ?case using Cons by simp
qed simp

lemma checks_plain:
  "checks (case classify ty of Some _ \<Rightarrow> sem_return () | None \<Rightarrow>
     (case unsupported_type_name ty of Inl e \<Rightarrow> sem_throw e | Inr kind \<Rightarrow> sem_throw (UnsupportedType (join_path path) kind)))
     (classify ty \<noteq> None) (cost_of 0 0 0)"
  by (cases ty) (auto simp: checks_return intro: checks_throw)

lemma plain_type_ok_split: "plain_type_ok ty \<longleftrightarrow> parameters_ok ty \<and> classify ty \<noteq> None"
  by (cases ty) auto

text \<open>The part of a field's check that descends into its type.\<close>

fun children_ok :: "nat \<Rightarrow> data_type \<Rightarrow> bool" where
  "children_ok depth (List_Type child) \<longleftrightarrow> depth < MAX_NESTING_DEPTH \<and> field_ok (Suc depth) child"
| "children_ok depth (Struct_Type children) \<longleftrightarrow>
     depth < MAX_NESTING_DEPTH \<and> distinct (map field_name children) \<and> fields_ok (Suc depth) children"
| "children_ok depth ty \<longleftrightarrow> classify ty \<noteq> None"

fun children_cost :: "data_type \<Rightarrow> schema_budget" where
  "children_cost (List_Type child) = field_cost child"
| "children_cost (Struct_Type children) = fields_cost children"
| "children_cost ty = cost_of 0 0 0"

lemma field_ok_split:
  "field_ok depth (Field nm ty nl md) \<longleftrightarrow>
     (\<not> starts_with nm RESERVED_FIELD_PREFIX \<and> metadata_ok md \<and> parameters_ok ty) \<and> children_ok depth ty"
  by (cases ty) (auto simp: plain_type_ok_split)

lemma field_cost_split:
  "field_cost (Field nm ty nl md) =
     plus_budget (cost_of 1 (length md) (length nm + metadata_text md + zone_text ty)) (children_cost ty)"
  by (cases ty) (auto simp: plus_budget_def Let_def)

lemma checks_validate:
  "checks (validate_field f path depth) (field_ok depth f) (field_cost f)"
  "checks (validate_each fs names path depth)
     (distinct (map field_name fs) \<and> set names \<inter> field_name ` set fs = {} \<and> fields_ok depth fs) (fields_cost fs)"
proof (induction f path depth and fs names path depth rule: validate_field_validate_each.induct)
  case (1 nm ty nl md path depth)
  have "checks (case ty of
       List_Type child \<Rightarrow>
         (case enter_container depth of
            Inl e \<Rightarrow> sem_throw e
          | Inr nested \<Rightarrow> validate_field child (path @ [field_name child]) nested)
     | Struct_Type children \<Rightarrow>
         (case enter_container depth of
            Inl e \<Rightarrow> sem_throw e
          | Inr nested \<Rightarrow>
              sem_bind (room_for_fields (length children)) (\<lambda>_. validate_each children [] path nested))
     | _ \<Rightarrow>
         (case classify ty of
            Some _ \<Rightarrow> sem_return ()
          | None \<Rightarrow>
              (case unsupported_type_name ty of
                 Inl e \<Rightarrow> sem_throw e
               | Inr kind \<Rightarrow> sem_throw (UnsupportedType (join_path path) kind)))) (children_ok depth ty) (children_cost ty)"
  proof (cases ty)
    case (List_Type child)
    then show ?thesis
      using 1(1) [OF List_Type] by (auto simp: enter_container_eq intro!: checks_throw)
  next
    case (Struct_Type children)
    then have "checks (validate_each children [] path (Suc depth)) (distinct (map field_name children) \<and> fields_ok (Suc depth) children)
        (fields_cost children)" if "depth < MAX_NESTING_DEPTH"
      using 1(2) [OF Struct_Type] that by (simp add: enter_container_eq)
    then show ?thesis
      unfolding Struct_Type data_type.case children_ok.simps children_cost.simps
      by (intro checks_enter checks_room fields_cost_length)
  qed (use checks_plain [where ty = ty and path = path] in simp_all)
  then show ?case
    unfolding validate_field.simps field_ok_split field_cost_split
    by (intro checks_bind checks_check_field)
next
  case (2 names path depth)
  then show ?case by (simp add: checks_return)
next
  case (3 f fs names path depth)
  show ?case
  proof (cases "field_name f \<in> set names")
    case True
    then show ?thesis by (auto intro: checks_throw)
  next
    case False
    have "checks (sem_bind (validate_field f (path @ [field_name f]) depth) (\<lambda>_. validate_each fs (field_name f # names) path depth))
        (field_ok depth f \<and> distinct (map field_name fs) \<and> set (field_name f # names) \<inter> field_name ` set fs = {} \<and> fields_ok depth fs)
        (plus_budget (field_cost f) (fields_cost fs))"
      by (intro checks_bind 3 False)
    then show ?thesis
      using False by (auto simp: plus_budget_def elim!: checks_cong)
  qed
qed

lemma checks_schema:
  "checks (sem_bind (validate_metadata (schema_metadata s) []) (\<lambda>_. validate_fields (schema_fields s) [] 0))
     (metadata_ok (schema_metadata s) \<and> distinct (map field_name (schema_fields s)) \<and> fields_ok 0 (schema_fields s))
     (plus_budget (cost_of 0 (length (schema_metadata s)) (metadata_text (schema_metadata s))) (fields_cost (schema_fields s)))"
proof -
  have "checks (validate_each (schema_fields s) [] [] 0)
      (distinct (map field_name (schema_fields s)) \<and> fields_ok 0 (schema_fields s)) (fields_cost (schema_fields s))"
    using checks_validate(2) [of "schema_fields s" "[]" "[]" 0] by simp
  then show ?thesis
    unfolding validate_fields_def by (intro checks_bind checks_room checks_validate_metadata fields_cost_length)
qed

lemma validate_schema_accepts: "validate_schema s = Inr () \<longleftrightarrow> schema_ok s"
  and validate_schema_no_panic: "validate_schema s \<noteq> Inl (SchemaPanic msg)"
proof -
  let ?m = "sem_bind (validate_metadata (schema_metadata s) []) (\<lambda>_. validate_fields (schema_fields s) [] 0)"
  let ?b = "cost_of 0 0 0"
  have b: "fits ?b" by (simp add: fits_def)
  obtain r b' where run: "?m ?b = (r, b')" by fastforce
  have "schema_ok s \<longleftrightarrow> (metadata_ok (schema_metadata s) \<and> distinct (map field_name (schema_fields s)) \<and> fields_ok 0 (schema_fields s)) \<and>
      fits (plus_budget ?b (plus_budget (cost_of 0 (length (schema_metadata s)) (metadata_text (schema_metadata s))) (fields_cost (schema_fields s))))"
    by (auto simp: schema_ok_def fits_def plus_budget_def Let_def)
  then show "validate_schema s = Inr () \<longleftrightarrow> schema_ok s" "validate_schema s \<noteq> Inl (SchemaPanic msg)"
    using checks_Inl [OF checks_schema b, of s] checks_Inr [OF checks_schema b, of s] run
    by (cases r; auto simp: validate_schema_def)+
qed

text \<open>
  C29: the validator accepts exactly the schemas that \<open>schema_ok\<close> describes (names unique in each scope and not reserved,
  supported types with valid parameters, at most 60 nested containers, and total numbers of fields, metadata entries and
  bytes of text within the limits), and rejects any other schema with an error that is no panic.
\<close>

theorem validate_schema_iff:
  "(validate_schema s = Inr () \<longleftrightarrow> schema_ok s) \<and> (\<forall>msg. validate_schema s \<noteq> Inl (SchemaPanic msg))"
  using validate_schema_accepts validate_schema_no_panic by blast

end
