(* ===== verification/Change_Core.thy ===== *)
theory Change_Core
  imports Change_Schema
begin

text \<open>
  Change segments: the constructors and slices of \<^verbatim>\<open>crates/change/src/change.rs\<close>.

  A \<open>change\<close> pairs an Arrow record batch with one signed difference per row. Arrow is not part of the
  sources: \<open>'b arrow\<close> holds the operations on batches that the code uses, and \<open>arrow_laws\<close> what it
  relies on. A difference array is the list of its nullable values. \<open>change_ok\<close> is the invariant of the
  type (not empty, one difference per row, none null or zero); the constructor establishes it and a
  slice keeps it. The check of the decimals of a batch walks Arrow's arrays and is the field
  \<open>batch_decimals\<close>.
\<close>

datatype change_error =
    ChangeEmpty
  | LengthMismatch nat nat
  | NullDiff nat
  | ZeroDiff nat
  | InvalidDecimal128Value string nat int nat int
  | SliceOutOfBounds nat nat nat
  | ChangeSchema schema_error

record 'b arrow =
  batch_rows :: "'b \<Rightarrow> nat"
  batch_columns :: "'b \<Rightarrow> nat"
  batch_slice :: "'b \<Rightarrow> nat \<Rightarrow> nat \<Rightarrow> 'b"
  batch_schema :: "'b \<Rightarrow> schema"
  batch_decimals :: "'b \<Rightarrow> change_error + unit"

record 'b change =
  records :: 'b
  diffs :: "i64 option list"

text \<open>The loop over the differences, from a row index.\<close>

fun check_diffs :: "nat \<Rightarrow> i64 option list \<Rightarrow> change_error + unit" where
  "check_diffs index [] = Inr ()"
| "check_diffs index (None # ds) = Inl (NullDiff index)"
| "check_diffs index (Some d # ds) = (if d = 0 then Inl (ZeroDiff index) else check_diffs (Suc index) ds)"

definition try_new_shape :: "'b arrow \<Rightarrow> 'b \<Rightarrow> i64 option list \<Rightarrow> change_error + 'b change" where
  "try_new_shape A b ds =
     (if batch_rows A b = 0 then Inl ChangeEmpty
      else if batch_rows A b \<noteq> length ds then Inl (LengthMismatch (batch_rows A b) (length ds))
      else (case check_diffs 0 ds of Inl e \<Rightarrow> Inl e | Inr _ \<Rightarrow> Inr \<lparr>records = b, diffs = ds\<rparr>))"

definition change_try_new :: "'b arrow \<Rightarrow> 'b \<Rightarrow> i64 option list \<Rightarrow> change_error + 'b change" where
  "change_try_new A b ds =
     (case try_new_shape A b ds of
        Inl e \<Rightarrow> Inl e
      | Inr c \<Rightarrow>
          (case validate_schema (batch_schema A (records c)) of
             Inl e \<Rightarrow> Inl (ChangeSchema e)
           | Inr _ \<Rightarrow> (case batch_decimals A (records c) of Inl e \<Rightarrow> Inl e | Inr _ \<Rightarrow> Inr c)))"

definition num_rows :: "'b arrow \<Rightarrow> 'b change \<Rightarrow> nat" where
  "num_rows A c = batch_rows A (records c)"

definition try_slice :: "'b arrow \<Rightarrow> 'b change \<Rightarrow> nat \<Rightarrow> nat \<Rightarrow> change_error + 'b change" where
  "try_slice A c offset len =
     (if len = 0 then Inl ChangeEmpty
      else (case checked_add_usize offset len of
        None \<Rightarrow> Inl (SliceOutOfBounds offset len (num_rows A c))
      | Some end \<Rightarrow>
          if end \<le> num_rows A c
          then Inr \<lparr>records = batch_slice A (records c) offset len, diffs = take len (drop offset (diffs c))\<rparr>
          else Inl (SliceOutOfBounds offset len (num_rows A c))))"

section \<open>The invariant\<close>

definition arrow_laws :: "'b arrow \<Rightarrow> bool" where
  "arrow_laws A \<longleftrightarrow>
     (\<forall>b offset len. offset + len \<le> batch_rows A b \<longrightarrow>
        batch_rows A (batch_slice A b offset len) = len \<and>
        batch_columns A (batch_slice A b offset len) = batch_columns A b) \<and>
     (\<forall>b. batch_slice A b 0 (batch_rows A b) = b) \<and>
     (\<forall>b. batch_rows A b \<le> usize_max)"

definition change_ok :: "'b arrow \<Rightarrow> 'b change \<Rightarrow> bool" where
  "change_ok A c \<longleftrightarrow>
     0 < num_rows A c \<and> length (diffs c) = num_rows A c \<and> (\<forall>d \<in> set (diffs c). d \<noteq> None \<and> d \<noteq> Some 0)"

lemma check_diffs_Inr: "check_diffs k ds = Inr () \<longleftrightarrow> (\<forall>d \<in> set ds. d \<noteq> None \<and> d \<noteq> Some 0)"
  by (induction k ds rule: check_diffs.induct) auto

lemma try_new_shape_ok: "try_new_shape A b ds = Inr c \<Longrightarrow> change_ok A c \<and> records c = b \<and> diffs c = ds"
  by (auto simp: try_new_shape_def change_ok_def num_rows_def check_diffs_Inr split: if_splits sum.splits)

lemma change_try_new_ok:
  "change_try_new A b ds = Inr c \<Longrightarrow> change_ok A c \<and> records c = b \<and> diffs c = ds \<and> schema_ok (batch_schema A b)"
  using validate_schema_accepts by (auto simp: change_try_new_def dest!: try_new_shape_ok split: sum.splits)

lemma try_slice_in_bounds:
  assumes "arrow_laws A" "change_ok A c" "0 < len" "offset + len \<le> num_rows A c"
  obtains c' where "try_slice A c offset len = Inr c'" "change_ok A c'" "num_rows A c' = len"
    "diffs c' = take len (drop offset (diffs c))"
proof
  let ?c = "\<lparr>records = batch_slice A (records c) offset len, diffs = take len (drop offset (diffs c))\<rparr>"
  have "num_rows A c \<le> usize_max" using assms(1) by (simp add: arrow_laws_def num_rows_def)
  then show "try_slice A c offset len = Inr ?c"
    using assms(3,4) by (simp add: try_slice_def checked_add_usize_def)
  show rows: "num_rows A ?c = len" using assms(1,4) by (simp add: arrow_laws_def num_rows_def)
  show "change_ok A ?c"
    using rows assms(2-4) by (auto simp: change_ok_def dest!: in_set_takeD in_set_dropD)
qed simp

text \<open>Slicing a whole change gives the change itself, which is why the code can clone it instead.\<close>

lemma try_slice_all:
  assumes "arrow_laws A" "change_ok A c"
  shows "try_slice A c 0 (num_rows A c) = Inr c"
  using assms by (auto simp: try_slice_def checked_add_usize_def change_ok_def arrow_laws_def num_rows_def)

end
