(* ===== verification/Operation_Core.thy ===== *)
theory Operation_Core
  imports Change_Core Store_Collections
begin

text \<open>
  The interface of an operation: \<^verbatim>\<open>crates/operation/src/operation/mod.rs\<close>, \<^verbatim>\<open>compute.rs\<close> and
  \<^verbatim>\<open>boundary.rs\<close>.

  The traits \<^verbatim>\<open>AtomicOperation\<close>, \<^verbatim>\<open>PagedOperation\<close>, \<^verbatim>\<open>SourceOperation\<close> and \<^verbatim>\<open>SinkOperation\<close> are records
  of their methods. A computation runs in a transaction with a budget (\<open>'s work\<close>); a source or a sink
  also has state of its own, in memory and in the external system, of type \<open>'w\<close>, which no rollback
  undoes. \<open>op_step\<close> is \<^verbatim>\<open>Operation::step\<close>: the paging of a source page or an atomic head. The theorems
  show that a budget only ever shrinks, and that the pages computed from the initial position cover the
  input once, in order.

  Errors are boxed in the source. \<open>operation_error\<close> has the concrete errors that are inspected, and
  \<open>Other\<close> for any other error type with its \<^verbatim>\<open>source()\<close>. \<open>Unwind\<close> is a panic: it is no error value, and
  code that inspects errors does not see it.
\<close>

section \<open>Errors, budgets and positions\<close>

datatype change_codec_error =
    CodecSchema string
  | ChangeInvalid change_error
  | UnsupportedTargetEndianness
  | EncodedSizeLimitExceeded nat
  | SchemaMismatch
  | InvalidEncoding string
  | ArrowFailed string

datatype operation_error =
    OpStore store_error
  | OpCodec change_codec_error
  | OpChange change_error
  | BudgetExceeded
  | InvalidResume
  | Message string
  | Other string "operation_error option"
  | Unwind string

fun is_unwind :: "operation_error \<Rightarrow> bool" where
  "is_unwind (Unwind _) = True"
| "is_unwind _ = False"

fun unwinds :: "operation_error + 'a \<Rightarrow> bool" where
  "unwinds (Inl e) = is_unwind e"
| "unwinds (Inr _) = False"

record step_budget =
  head_remaining :: nat
  remaining_bytes :: nat

definition budget_new :: "nat \<Rightarrow> nat \<Rightarrow> step_budget" where
  "budget_new head_items bytes = \<lparr>head_remaining = head_items, remaining_bytes = bytes\<rparr>"

definition charge :: "nat \<Rightarrow> (step_budget, operation_error, unit) sem" where
  "charge n b = (if n \<le> remaining_bytes b then (Inr (), b\<lparr>remaining_bytes := remaining_bytes b - n\<rparr>)
                 else (Inl BudgetExceeded, b))"

definition consume_head :: "nat \<Rightarrow> (step_budget, operation_error, unit) sem" where
  "consume_head n b = (if n \<le> head_remaining b then (Inr (), b\<lparr>head_remaining := head_remaining b - n\<rparr>)
                       else (Inl BudgetExceeded, b))"

record join_cursor =
  found_match :: bool
  resume_after :: "bytes option"

record asof_cursor =
  left_resume_after :: "bytes option"

datatype op_cursor = Batch | EquiJoin join_cursor | AsOf asof_cursor

record resume =
  ordinal :: u64
  cursor :: op_cursor

definition resume_batch :: resume where
  "resume_batch = \<lparr>ordinal = 0, cursor = Batch\<rparr>"

datatype progress = More resume | Done

record 'b step =
  step_output :: "'b change option"
  step_progress :: progress

record 'b operation_input =
  in_port :: nat
  in_change :: "'b change"

text \<open>
  The codec of a position. Bincode is a parameter: \<open>bincode_encode\<close> of the pair \<^verbatim>\<open>(1_u8, resume)\<close>, and
  \<open>bincode_decode\<close>, which also gives the number of bytes read.
\<close>

record bincode =
  bincode_encode :: "resume \<Rightarrow> bytes option"
  bincode_decode :: "bytes \<Rightarrow> (resume \<times> nat) option"

definition RESUME_BYTES :: nat where
  "RESUME_BYTES = 64 * 1024"

definition encode_resume_value :: "bincode \<Rightarrow> resume \<Rightarrow> codec_error + bytes" where
  "encode_resume_value BC r =
     (case bincode_encode BC r of
        None \<Rightarrow> Inl (CodecError ''resume cannot be encoded'')
      | Some encoded \<Rightarrow>
          if length encoded > RESUME_BYTES then Inl (CodecError ''resume exceeds control byte limit'') else Inr encoded)"

definition decode_resume_value :: "bincode \<Rightarrow> bytes \<Rightarrow> codec_error + resume" where
  "decode_resume_value BC bs =
     (if length bs > RESUME_BYTES \<or> bs = [] \<or> hd bs \<noteq> 1 then Inl (CodecError ''invalid resume version or length'')
      else (case bincode_decode BC bs of
        None \<Rightarrow> Inl (CodecError ''invalid resume'')
      | Some (value, consumed) \<Rightarrow>
          if consumed \<noteq> length bs then Inl (CodecError ''non-canonical resume'')
          else (case encode_resume_value BC value of
            Inl e \<Rightarrow> Inl e
          | Inr encoded \<Rightarrow> if encoded \<noteq> bs then Inl (CodecError ''non-canonical resume'') else Inr value)))"

definition resume_value :: "bincode \<Rightarrow> resume store_value" where
  "resume_value BC = \<lparr>encode_value = encode_resume_value BC, decode_value = decode_resume_value BC\<rparr>"

section \<open>Operations\<close>

record 's work =
  work_txn :: "'s transaction"
  work_budget :: step_budget

type_synonym ('s, 'a) work_op = "('s work, operation_error, 'a) sem"

definition in_budget :: "(step_budget, operation_error, 'a) sem \<Rightarrow> ('s, 'a) work_op" where
  "in_budget m w = (case m (work_budget w) of (res, b) \<Rightarrow> (res, w\<lparr>work_budget := b\<rparr>))"

record ('s, 'b) atomic_operation =
  atomic_apply :: "'b operation_input \<Rightarrow> ('s, 'b change option) work_op"

record ('s, 'b) paged_operation =
  paged_initial_resume :: resume
  paged_validate_resume :: "'b operation_input \<Rightarrow> resume \<Rightarrow> operation_error + unit"
  paged_step :: "'b operation_input \<Rightarrow> resume \<Rightarrow> ('s, 'b step) work_op"

text \<open>A delivery of a source; \<open>'x\<close> is the connector's own delivery, which is acknowledged.\<close>

datatype 'x delivery_kind =
    BeginCapture
  | Reset
  | Cdc 'x "bytes option" bool bool
  | Sequence u64 bytes

record 'x source_delivery =
  delivery_kind :: "'x delivery_kind"
  finished :: bool

definition requires_ack_barrier :: "'x source_delivery \<Rightarrow> bool" where
  "requires_ack_barrier d = (case delivery_kind d of Cdc _ _ _ _ \<Rightarrow> True | _ \<Rightarrow> False)"

record ('s, 'w, 'x) source_operation =
  source_restore :: "('w \<times> 's transaction_ref, operation_error, unit) sem"
  source_poll :: "('w, operation_error, 'x source_delivery option) sem"
  source_record :: "'w \<Rightarrow> ('s transaction \<times> 'x source_delivery, operation_error, bool) sem"
  source_ack :: "'x source_delivery \<Rightarrow> ('w, operation_error, unit) sem"
  source_published :: "'w \<Rightarrow> ('s transaction_ref, operation_error, bytes option) sem"
  source_consume_published :: "'w \<Rightarrow> ('s transaction, operation_error, unit) sem"

record ('s, 'w, 'b, 'p) sink_operation =
  sink_try_enqueue :: "'b change \<Rightarrow> ('w \<times> 's transaction, operation_error, bool) sem"
  sink_load :: "('w \<times> 's transaction_ref, operation_error, 'p option) sem"
  sink_prepare_initialize :: "'p \<Rightarrow> ('w, operation_error, bool) sem"
  sink_persist_initialize :: "'p \<Rightarrow> 'w \<Rightarrow> ('s transaction, operation_error, unit) sem"
  sink_deliver :: "'p \<Rightarrow> ('w, operation_error, unit) sem"
  sink_settle :: "'p \<Rightarrow> ('w \<times> 's transaction, operation_error, unit) sem"

datatype ('s, 'w, 'b, 'x, 'p) operation =
    AtomicOp "('s, 'b) atomic_operation"
  | PagedOp "('s, 'b) paged_operation"
  | SourceOp "('s, 'w, 'x) source_operation"
  | SinkOp "('s, 'w, 'b, 'p) sink_operation"

fun initial_resume :: "('s, 'w, 'b, 'x, 'p) operation \<Rightarrow> resume" where
  "initial_resume (PagedOp p) = paged_initial_resume p"
| "initial_resume _ = resume_batch"

definition batch_position_ok :: "'b arrow \<Rightarrow> 'b operation_input \<Rightarrow> resume \<Rightarrow> bool" where
  "batch_position_ok A input r \<longleftrightarrow> cursor r = Batch \<and> unat (ordinal r) < num_rows A (in_change input)"

fun validate_resume :: "'b arrow \<Rightarrow> ('s, 'w, 'b, 'x, 'p) operation \<Rightarrow> 'b operation_input \<Rightarrow> resume \<Rightarrow> operation_error + unit" where
  "validate_resume A (PagedOp p) input r = paged_validate_resume p input r"
| "validate_resume A (AtomicOp _) input r = (if batch_position_ok A input r then Inr () else Inl InvalidResume)"
| "validate_resume A (SourceOp _) input r = (if batch_position_ok A input r then Inr () else Inl InvalidResume)"
| "validate_resume A (SinkOp _) input r = Inl InvalidResume"

text \<open>The page of the input that an atomic head or a source reads.\<close>

definition head_slice :: "'b arrow \<Rightarrow> 'b change \<Rightarrow> nat \<Rightarrow> nat \<Rightarrow> operation_error + 'b change" where
  "head_slice A c start len =
     (if start = 0 \<and> len = num_rows A c then Inr c else map_sum OpChange id (try_slice A c start len))"

definition batch_progress :: "'b arrow \<Rightarrow> 'b change \<Rightarrow> nat \<Rightarrow> progress" where
  "batch_progress A c next =
     (if next = num_rows A c then Done else More \<lparr>ordinal = word_of_nat next, cursor = Batch\<rparr>)"

definition op_page ::
  "'b arrow \<Rightarrow> ('s, 'w, 'b, 'x, 'p) operation \<Rightarrow> 'b operation_input \<Rightarrow> nat \<Rightarrow> nat \<Rightarrow> ('s, 'b step) work_op" where
  "op_page A op input start len =
     (if len = 0 then sem_throw BudgetExceeded
      else
        sem_bind (sem_lift (head_slice A (in_change input) start len)) (\<lambda>slice.
        sem_bind (in_budget (consume_head len)) (\<lambda>_.
        sem_bind
          (case op of
             AtomicOp a \<Rightarrow> atomic_apply a \<lparr>in_port = in_port input, in_change = slice\<rparr>
           | SourceOp _ \<Rightarrow> sem_return (Some slice)
           | _ \<Rightarrow> sem_throw InvalidResume) (\<lambda>output.
        sem_return \<lparr>step_output = output, step_progress = batch_progress A (in_change input) (start + len)\<rparr>))))"

definition op_step ::
  "'b arrow \<Rightarrow> ('s, 'w, 'b, 'x, 'p) operation \<Rightarrow> 'b operation_input \<Rightarrow> resume \<Rightarrow> ('s, 'b step) work_op" where
  "op_step A op input r =
     (case op of
        PagedOp p \<Rightarrow> paged_step p input r
      | _ \<Rightarrow>
          sem_bind (sem_lift (validate_resume A op input r)) (\<lambda>_ w.
            (let start = unat (ordinal r) in
             op_page A op input start
               (min (head_remaining (work_budget w)) (num_rows A (in_change input) - start)) w)))"

section \<open>Budgets\<close>

text \<open>
  \<^verbatim>\<open>StepBudget\<close> offers nothing but charging, so an operation can only spend: this is what a method
  promises by its types.
\<close>

definition spends :: "('s, 'a) work_op \<Rightarrow> bool" where
  "spends m \<longleftrightarrow> (\<forall>w. remaining_bytes (work_budget (snd (m w))) \<le> remaining_bytes (work_budget w) \<and>
     head_remaining (work_budget (snd (m w))) \<le> head_remaining (work_budget w))"

named_theorems spends_intros \<open>computations that only spend their budget\<close>

lemma spendsD:
  "spends m \<Longrightarrow> m w = (res, w') \<Longrightarrow>
     remaining_bytes (work_budget w') \<le> remaining_bytes (work_budget w) \<and>
     head_remaining (work_budget w') \<le> head_remaining (work_budget w)"
  unfolding spends_def by (metis snd_conv)

lemma spends_return [spends_intros]: "spends (sem_return a)"
  by (simp add: spends_def sem_return_def)

lemma spends_throw [spends_intros]: "spends (sem_throw e)"
  by (simp add: spends_def sem_throw_def)

lemma spends_lift [spends_intros]: "spends (sem_lift r)"
  by (simp add: spends_def sem_lift_def)

lemma spends_bind [spends_intros]:
  assumes "spends m" "\<And>a. spends (f a)"
  shows "spends (sem_bind m f)"
  unfolding spends_def
proof
  fix w
  obtain r u where m: "m w = (r, u)" by fastforce
  from spendsD [OF assms(1) m] spendsD [OF assms(2) prod.collapse [symmetric], of "projr r" u]
  show "remaining_bytes (work_budget (snd (sem_bind m f w))) \<le> remaining_bytes (work_budget w) \<and>
     head_remaining (work_budget (snd (sem_bind m f w))) \<le> head_remaining (work_budget w)"
    by (cases r) (auto simp: sem_bind_def m)
qed

lemma spends_if [spends_intros]: "spends m \<Longrightarrow> spends n \<Longrightarrow> spends (if c then m else n)"
  by simp

lemma spends_charge [spends_intros]: "spends (in_budget (charge n))"
  by (simp add: spends_def in_budget_def charge_def)

lemma spends_consume_head [spends_intros]: "spends (in_budget (consume_head n))"
  by (simp add: spends_def in_budget_def consume_head_def)

text \<open>The contract of the dynamic operations: they spend, whatever they compute.\<close>

fun operation_spends :: "('s, 'w, 'b, 'x, 'p) operation \<Rightarrow> bool" where
  "operation_spends (AtomicOp a) \<longleftrightarrow> (\<forall>i. spends (atomic_apply a i))"
| "operation_spends (PagedOp p) \<longleftrightarrow> (\<forall>i r. spends (paged_step p i r))"
| "operation_spends _ \<longleftrightarrow> True"

lemma spends_op_page:
  assumes "operation_spends op"
  shows "spends (op_page A op input start len)"
  using assms by (cases op) (auto simp: op_page_def intro!: spends_intros)

lemma spends_op_step [spends_intros]:
  assumes "operation_spends op"
  shows "spends (op_step A op input r)"
proof (cases op)
  case (PagedOp p)
  then show ?thesis using assms by (simp add: op_step_def)
qed (use spends_op_page [OF assms, of A input] in \<open>auto simp: op_step_def spends_def sem_bind_def sem_lift_def Let_def\<close>)

section \<open>Paging covers the input\<close>

abbreviation the_list :: "'a option \<Rightarrow> 'a list" where
  "the_list x \<equiv> (case x of None \<Rightarrow> [] | Some a \<Rightarrow> [a])"

text \<open>
  A head is stepped with a sequence of head allowances, one per committed page, each step starting from
  the position the page before it left. The result is the outputs and the progress of the last page.
\<close>

fun pages ::
  "'b arrow \<Rightarrow> ('s, 'w, 'b, 'x, 'p) operation \<Rightarrow> 'b operation_input \<Rightarrow> 's transaction \<Rightarrow> resume \<Rightarrow> nat list
   \<Rightarrow> operation_error + 'b change list \<times> progress" where
  "pages A op input t r [] = Inr ([], More r)"
| "pages A op input t r (n # ns) =
     (case op_step A op input r \<lparr>work_txn = t, work_budget = budget_new n 0\<rparr> of
        (Inl e, _) \<Rightarrow> Inl e
      | (Inr st, w) \<Rightarrow>
          (case step_progress st of
             Done \<Rightarrow> Inr (the_list (step_output st), Done)
           | More r' \<Rightarrow> map_sum id (apfst ((@) (the_list (step_output st)))) (pages A op input (work_txn w) r' ns)))"

lemma source_step:
  assumes "arrow_laws A" "change_ok A (in_change input)" "batch_position_ok A input r" "0 < n"
  defines "len \<equiv> min n (num_rows A (in_change input) - unat (ordinal r))"
  obtains c where "op_step A (SourceOp src) input r \<lparr>work_txn = t, work_budget = budget_new n b\<rparr> =
      (Inr \<lparr>step_output = Some c, step_progress = batch_progress A (in_change input) (unat (ordinal r) + len)\<rparr>,
       \<lparr>work_txn = t, work_budget = budget_new (n - len) b\<rparr>)"
    "diffs c = take len (drop (unat (ordinal r)) (diffs (in_change input)))" "0 < len"
    "unat (ordinal r) + len \<le> num_rows A (in_change input)"
proof -
  let ?c = "in_change input" and ?s = "unat (ordinal r)"
  have len: "0 < len" "?s + len \<le> num_rows A ?c" "len \<le> n" "min n (num_rows A ?c - ?s) = len"
    using assms(3,4) by (auto simp: len_def batch_position_ok_def)
  obtain c where c: "try_slice A ?c ?s len = Inr c" "diffs c = take len (drop ?s (diffs ?c))"
    using try_slice_in_bounds [OF assms(1,2) len(1,2)] by blast
  have "head_slice A ?c ?s len = Inr c"
    using c try_slice_all [OF assms(1,2)] by (auto simp: head_slice_def)
  then have "op_step A (SourceOp src) input r \<lparr>work_txn = t, work_budget = budget_new n b\<rparr> =
      (Inr \<lparr>step_output = Some c, step_progress = batch_progress A ?c (?s + len)\<rparr>,
       \<lparr>work_txn = t, work_budget = budget_new (n - len) b\<rparr>)"
    using assms(3) len
    by (simp add: op_step_def op_page_def sem_bind_def sem_lift_def sem_return_def in_budget_def consume_head_def
        budget_new_def Let_def)
  then show thesis using that c(2) len by blast
qed

lemma source_pages_cover_from:
  assumes op: "op = SourceOp src" and "arrow_laws A" "change_ok A (in_change input)"
  shows "batch_position_ok A input r \<Longrightarrow> \<forall>n \<in> set ns. 0 < n \<Longrightarrow>
    num_rows A (in_change input) - unat (ordinal r) \<le> length ns \<Longrightarrow>
    \<exists>cs. pages A op input t r ns = Inr (cs, Done) \<and>
      concat (map diffs cs) = drop (unat (ordinal r)) (diffs (in_change input))"
proof (induction ns arbitrary: r)
  case Nil
  then show ?case by (simp add: batch_position_ok_def)
next
  case (Cons n ns)
  let ?N = "num_rows A (in_change input)" and ?s = "unat (ordinal r)"
  let ?len = "min n (?N - ?s)"
  obtain c where step: "op_step A op input r \<lparr>work_txn = t, work_budget = budget_new n 0\<rparr> =
      (Inr \<lparr>step_output = Some c, step_progress = batch_progress A (in_change input) (?s + ?len)\<rparr>,
       \<lparr>work_txn = t, work_budget = budget_new (n - ?len) 0\<rparr>)"
    and c: "diffs c = take ?len (drop ?s (diffs (in_change input)))" "0 < ?len" "?s + ?len \<le> ?N"
    using source_step [of A input r n src t 0] op Cons.prems(1) assms(2,3) Cons.prems(2) by (metis list.set_intros(1))
  have dl: "length (diffs (in_change input)) = ?N" using assms(3) by (simp add: change_ok_def)
  show ?case
  proof (cases "?s + ?len = ?N")
    case True
    then have "take ?len (drop ?s (diffs (in_change input))) = drop ?s (diffs (in_change input))"
      using dl by (intro take_all) simp
    then show ?thesis using step c(1) True by (simp add: batch_progress_def)
  next
    case False
    let ?r = "\<lparr>ordinal = word_of_nat (?s + ?len), cursor = Batch\<rparr> :: resume"
    have r: "unat (ordinal ?r) = ?s + ?len"
    proof -
      have "?N \<le> usize_max" using assms(2) by (simp add: arrow_laws_def num_rows_def)
      then have "?s + ?len < 2 ^ 64" using c(3) by (simp add: usize_max_def)
      then show ?thesis by (simp only: resume.simps unat_of_nat) simp
    qed
    have "batch_position_ok A input ?r" using False c(3) r by (simp add: batch_position_ok_def)
    moreover have "?N - unat (ordinal ?r) \<le> length ns" using Cons.prems(3) c(2) unfolding r length_Cons by linarith
    ultimately obtain cs where "pages A op input t ?r ns = Inr (cs, Done)"
        "concat (map diffs cs) = drop (unat (ordinal ?r)) (diffs (in_change input))"
      using Cons.IH Cons.prems(2) by (meson list.set_intros(2))
    moreover have "take ?len (drop ?s (diffs (in_change input))) @ drop (?s + ?len) (diffs (in_change input)) =
        drop ?s (diffs (in_change input))"
      using append_take_drop_id [of ?len "drop ?s (diffs (in_change input))"] by (simp only: drop_drop add.commute [of ?len])
    ultimately show ?thesis
      using step c(1) r False by (simp add: batch_progress_def)
  qed
qed

section \<open>The codec of a position\<close>

text \<open>What bincode documents of its encoder and decoder; the encoded pair starts with the version byte.\<close>

definition bincode_laws :: "bincode \<Rightarrow> bool" where
  "bincode_laws BC \<longleftrightarrow>
     (\<forall>r bs. bincode_encode BC r = Some bs \<longrightarrow> bincode_decode BC bs = Some (r, length bs) \<and> bs \<noteq> [] \<and> hd bs = 1)"

lemma resume_value_roundtrip:
  "bincode_laws BC \<Longrightarrow> encode_resume_value BC r = Inr bs \<Longrightarrow> decode_resume_value BC bs = Inr r"
  unfolding bincode_laws_def
  by (cases "bincode_encode BC r") (auto simp: encode_resume_value_def decode_resume_value_def split: if_splits)

lemma resume_value_canonical:
  "decode_resume_value BC bs = Inr r \<Longrightarrow> encode_resume_value BC r = Inr bs"
  by (auto simp: decode_resume_value_def split: option.splits if_splits sum.splits)

lemma encode_resume_length: "encode_resume_value BC r = Inr bs \<Longrightarrow> length bs \<le> RESUME_BYTES"
  by (auto simp: encode_resume_value_def split: option.splits if_splits)

section \<open>Properties\<close>

text \<open>A concrete batch type: a batch is its number of rows.\<close>

definition count_arrow :: "32 word arrow" where
  "count_arrow = \<lparr>batch_rows = unat, batch_columns = (\<lambda>_. 1), batch_slice = (\<lambda>b offset len. word_of_nat len),
      batch_schema = (\<lambda>_. \<lparr>schema_fields = [], schema_metadata = []\<rparr>), batch_decimals = (\<lambda>_. Inr ())\<rparr>"

lemma count_arrow_laws: "arrow_laws count_arrow"
proof -
  have "len mod 2 ^ 32 = len" if "offset + len \<le> unat b" for b :: "32 word" and offset len
    using that unat_u32_less [of b] by (intro mod_less) (simp del: unat_u32_less)
  moreover have "unat b \<le> usize_max" for b :: "32 word"
    using unat_u32_less [of b] by (simp add: usize_max_def del: unat_u32_less)
  ultimately show ?thesis by (simp add: arrow_laws_def count_arrow_def unat_of_nat)
qed

text \<open>
  C14: whatever head allowances the committed pages of a source are given, as long as each is positive, the
  pages computed by \<^verbatim>\<open>Operation::step\<close> from the initial position end with \<open>Done\<close> after at most one
  page per row, and carry the differences of the captured change once each and in order.
\<close>

theorem source_pages_cover:
  assumes "arrow_laws A" and "change_ok A (in_change input)"
    and "\<forall>n \<in> set allowances. 0 < n" and "num_rows A (in_change input) \<le> length allowances"
  shows "\<exists>cs. pages A (SourceOp src) input t (initial_resume (SourceOp src)) allowances = Inr (cs, Done) \<and>
    concat (map diffs cs) = diffs (in_change input)"
proof -
  have "batch_position_ok A input resume_batch"
    using assms(2) by (simp add: batch_position_ok_def resume_batch_def change_ok_def)
  from source_pages_cover_from [OF refl assms(1,2) this assms(3), of src t] assms(4) show ?thesis
    by (simp add: resume_batch_def)
qed

definition sample_input :: "32 word operation_input" where
  "sample_input = \<lparr>in_port = 0, in_change = \<lparr>records = 3, diffs = [Some 1, Some (- 1), Some 5]\<rparr>\<rparr>"

definition sample_source :: "(unit, unit, unit) source_operation" where
  "sample_source =
     \<lparr>source_restore = sem_return (), source_poll = sem_return None, source_record = (\<lambda>_. sem_return True),
      source_ack = (\<lambda>_. sem_return ()), source_published = (\<lambda>_. sem_return None),
      source_consume_published = (\<lambda>_. sem_return ())\<rparr>"

definition sample_transaction :: "unit transaction" where
  "sample_transaction = \<lparr>inner = (), store_token = 1, poisoned = False, has_writes = False\<rparr>"

lemma source_pages_cover_witness:
  "\<exists>cs. pages count_arrow (SourceOp sample_source :: (unit, unit, 32 word, unit, unit) operation) sample_input
       sample_transaction resume_batch [2, 1, 7] = Inr (cs, Done) \<and>
     concat (map diffs cs) = [Some 1, Some (- 1), Some 5]"
  using source_pages_cover [OF count_arrow_laws, of sample_input "[2, 1, 7]" sample_source sample_transaction]
  by (simp add: change_ok_def num_rows_def count_arrow_def sample_input_def)

end
