(* ===== verification/Flow_Frame.thy ===== *)
theory Flow_Frame
  imports Operation_Core
begin

text \<open>
  The durable call stack's storage: \<^verbatim>\<open>crates/flow/src/flow/frame.rs\<close>.

  A \<open>frame\<close> is the durable position of one active chain; \<open>encode_frame\<close> and \<open>decode_frame\<close> are its
  \<^verbatim>\<open>StoreValue\<close> codec, over the codec of a position. The decoder consumes a slice, so it is a computation
  whose state is the remaining bytes. \<open>frames_top\<close>, \<open>frames_output\<close>, \<open>frames_put\<close> and \<open>frames_pop\<close> are
  the accesses to the two ordered maps, keyed by depth. The round trip and the canonicity of the codec
  are proved here; what the accesses do to the stack is shown in \<^theory_text>\<open>Flow_Stack\<close>.
\<close>

section \<open>Definitions\<close>

definition PAGE_BYTES :: nat where
  "PAGE_BYTES = 1024 * 1024"

definition ROOT_BYTES :: nat where
  "ROOT_BYTES = 8 * PAGE_BYTES"

definition CONTROL_BYTES :: nat where
  "CONTROL_BYTES = 64 * 1024 + 32"

definition STEP_BYTES :: nat where
  "STEP_BYTES = 4 * PAGE_BYTES"

datatype frame_phase = Run resume | Send nat progress

record frame =
  frame_head :: nat
  frame_port :: "nat option"
  frame_phase :: frame_phase

record frames =
  controls :: data_handle
  outputs :: data_handle

subsection \<open>Codec\<close>

definition write_index :: "nat \<Rightarrow> codec_error + bytes" where
  "write_index i = (if i < 2 ^ 32 then Inr (u32_to_be (word_of_nat i)) else Inl (CodecError ''frame index exceeds u32''))"

text \<open>\<^verbatim>\<open>?\<close> on the results of the encoder's parts, which are appended in order.\<close>

fun append_parts :: "(codec_error + bytes) list \<Rightarrow> codec_error + bytes" where
  "append_parts [] = Inr []"
| "append_parts (Inl e # ps) = Inl e"
| "append_parts (Inr bs # ps) = map_sum id ((@) bs) (append_parts ps)"

definition encode_frame :: "bincode \<Rightarrow> frame \<Rightarrow> codec_error + bytes" where
  "encode_frame BC f =
     (case append_parts
        ([Inr [1], write_index (frame_head f)] @
         (case frame_port f of None \<Rightarrow> [Inr [0]] | Some port \<Rightarrow> [Inr [1], write_index port]) @
         (case frame_phase f of
            Run r \<Rightarrow> [Inr [0], encode_resume_value BC r]
          | Send next_consumer aft \<Rightarrow>
              [Inr [1], write_index next_consumer] @
              (case aft of Done \<Rightarrow> [Inr [0]] | More r \<Rightarrow> [Inr [1], encode_resume_value BC r]))) of
        Inl e \<Rightarrow> Inl e
      | Inr encoded \<Rightarrow>
          if length encoded > CONTROL_BYTES then Inl (CodecError ''frame control is too large'') else Inr encoded)"

definition take_chunk :: "nat \<Rightarrow> (bytes, codec_error, bytes) sem" where
  "take_chunk n bs = (if length bs < n then (Inl (CodecError ''truncated frame''), bs) else (Inr (take n bs), drop n bs))"

definition read_index :: "(bytes, codec_error, nat) sem" where
  "read_index = sem_bind (take_chunk 4) (\<lambda>bs. sem_return (unat (u32_from_be bs)))"

definition read_resume :: "bincode \<Rightarrow> (bytes, codec_error, resume) sem" where
  "read_resume BC bs = (decode_resume_value BC bs, bs)"

definition read_port :: "(bytes, codec_error, nat option) sem" where
  "read_port =
     sem_bind (take_chunk 1) (\<lambda>tag.
       if tag = [0] then sem_return None
       else if tag = [1] then sem_bind read_index (\<lambda>port. sem_return (Some port))
       else sem_throw (CodecError ''invalid frame port tag''))"

definition read_progress :: "bincode \<Rightarrow> (bytes, codec_error, progress) sem" where
  "read_progress BC =
     sem_bind (take_chunk 1) (\<lambda>tag bs.
       if tag = [0] \<and> bs = [] then (Inr Done, bs)
       else if tag = [1] then sem_bind (read_resume BC) (\<lambda>r. sem_return (More r)) bs
       else (Inl (CodecError ''invalid frame progress''), bs))"

definition read_phase :: "bincode \<Rightarrow> (bytes, codec_error, frame_phase) sem" where
  "read_phase BC =
     sem_bind (take_chunk 1) (\<lambda>tag.
       if tag = [0] then sem_bind (read_resume BC) (\<lambda>r. sem_return (Run r))
       else if tag = [1] then
         sem_bind read_index (\<lambda>next_consumer.
         sem_bind (read_progress BC) (\<lambda>aft. sem_return (Send next_consumer aft)))
       else sem_throw (CodecError ''invalid frame phase''))"

definition read_frame :: "bincode \<Rightarrow> (bytes, codec_error, frame) sem" where
  "read_frame BC =
     sem_bind (take_chunk 1) (\<lambda>version.
       if version \<noteq> [1] then sem_throw (CodecError ''invalid frame version'')
       else
         sem_bind read_index (\<lambda>h.
         sem_bind read_port (\<lambda>port.
         sem_bind (read_phase BC) (\<lambda>phase.
         sem_return \<lparr>frame_head = h, frame_port = port, frame_phase = phase\<rparr>))))"

definition decode_frame :: "bincode \<Rightarrow> bytes \<Rightarrow> codec_error + frame" where
  "decode_frame BC bs =
     (if length bs > CONTROL_BYTES then Inl (CodecError ''frame control is too large'')
      else (case fst (read_frame BC bs) of
        Inl e \<Rightarrow> Inl e
      | Inr f \<Rightarrow>
          (case encode_frame BC f of
             Inl e \<Rightarrow> Inl e
           | Inr encoded \<Rightarrow> if encoded \<noteq> bs then Inl (CodecError ''noncanonical frame'') else Inr f)))"

definition frame_value :: "bincode \<Rightarrow> frame store_value" where
  "frame_value BC = \<lparr>encode_value = encode_frame BC, decode_value = decode_frame BC\<rparr>"

subsection \<open>Accesses\<close>

text \<open>A store computation used where errors are boxed; a panic of the store stays one.\<close>

definition boxed :: "store_error \<Rightarrow> operation_error" where
  "boxed e = (case e of Panicked m \<Rightarrow> Unwind m | _ \<Rightarrow> OpStore e)"

definition op_store :: "('t, store_error, 'a) sem \<Rightarrow> ('t, operation_error, 'a) sem" where
  "op_store m t = apfst (map_sum boxed id) (m t)"

definition frames_top :: "'s engine \<Rightarrow> bincode \<Rightarrow> frames \<Rightarrow> ('s, (u32 \<times> frame) option) read_op" where
  "frames_top E BC F =
     sem_bind (bind_read (controls F)) (\<lambda>p.
     sem_bind (sem_lift (scan_limit_new 1 (CONTROL_BYTES + 4))) (\<lambda>limit.
     sem_bind (map_scan E u32_key (frame_value BC) p Unbounded Unbounded Descending None limit) (\<lambda>page.
     sem_return (if page_entries page = [] then None else Some (last (page_entries page))))))"

definition frames_output :: "'s engine \<Rightarrow> frames \<Rightarrow> u32 \<Rightarrow> ('s transaction_ref, operation_error, bytes) sem" where
  "frames_output E F depth =
     sem_bind (op_store (sem_bind (bind_read (outputs F)) (\<lambda>p. map_get_bounded E u32_key vec_value p depth PAGE_BYTES))) (\<lambda>value.
     case value of None \<Rightarrow> sem_throw (Message ''frame output is missing'') | Some bs \<Rightarrow> sem_return bs)"

definition frames_put :: "'s engine \<Rightarrow> bincode \<Rightarrow> frames \<Rightarrow> u32 \<Rightarrow> frame \<Rightarrow> ('s transaction, operation_error, unit) sem" where
  "frames_put E BC F depth f =
     op_store (sem_bind (bind_access (controls F)) (\<lambda>p. map_put E u32_key (frame_value BC) p depth f))"

definition outputs_put :: "'s engine \<Rightarrow> frames \<Rightarrow> u32 \<Rightarrow> bytes \<Rightarrow> ('s transaction, operation_error, unit) sem" where
  "outputs_put E F depth bs =
     op_store (sem_bind (bind_access (outputs F)) (\<lambda>p. map_put E u32_key vec_value p depth bs))"

definition outputs_remove :: "'s engine \<Rightarrow> frames \<Rightarrow> u32 \<Rightarrow> ('s transaction, operation_error, bool) sem" where
  "outputs_remove E F depth = op_store (sem_bind (bind_access (outputs F)) (\<lambda>p. map_remove E u32_key p depth))"

definition frames_pop :: "'s engine \<Rightarrow> frames \<Rightarrow> u32 \<Rightarrow> ('s transaction, operation_error, unit) sem" where
  "frames_pop E F depth =
     sem_bind (op_store (sem_bind (bind_access (controls F)) (\<lambda>p. map_remove E u32_key p depth))) (\<lambda>_.
     sem_bind (outputs_remove E F depth) (\<lambda>_. sem_return ()))"

section \<open>The codec\<close>

lemma write_index_Inr: "write_index i = Inr bs \<longleftrightarrow> i < 2 ^ 32 \<and> bs = u32_to_be (word_of_nat i)"
  by (auto simp: write_index_def)

lemma take_chunk_append: "length xs = n \<Longrightarrow> take_chunk n (xs @ ys) = (Inr xs, ys)"
  by (auto simp: take_chunk_def)

lemma take_chunk_one: "take_chunk (Suc 0) (x # ys) = (Inr [x], ys)"
  using take_chunk_append [of "[x]" "Suc 0" ys] by simp

lemma read_index_append:
  assumes "i < 2 ^ 32"
  shows "read_index (u32_to_be (word_of_nat i) @ ys) = (Inr i, ys)"
proof -
  have "unat (word_of_nat i :: u32) = i" using assms by (simp add: unat_of_nat)
  then show ?thesis by (simp add: read_index_def sem_bind_def take_chunk_append sem_return_def)
qed

lemmas read_simps = sem_bind_def sem_return_def take_chunk_one read_index_append read_resume_def

lemma append_parts_Inr:
  "append_parts (p # ps) = Inr bs \<longleftrightarrow> (\<exists>a b. p = Inr a \<and> append_parts ps = Inr b \<and> bs = a @ b)"
  by (cases p; cases "append_parts ps") auto

declare append_parts.simps(2,3) [simp del]

lemma encode_frame_parts:
  "encode_frame BC f = Inr bs \<Longrightarrow> length bs \<le> CONTROL_BYTES \<and>
    (\<exists>port phase. frame_head f < 2 ^ 32 \<and> bs = 1 # u32_to_be (word_of_nat (frame_head f)) @ port @ phase \<and>
      append_parts (case frame_port f of None \<Rightarrow> [Inr [0]] | Some port \<Rightarrow> [Inr [1], write_index port]) = Inr port \<and>
      append_parts (case frame_phase f of
          Run r \<Rightarrow> [Inr [0], encode_resume_value BC r]
        | Send next_consumer aft \<Rightarrow> [Inr [1], write_index next_consumer] @
            (case aft of Done \<Rightarrow> [Inr [0]] | More r \<Rightarrow> [Inr [1], encode_resume_value BC r])) = Inr phase)"
  by (cases "frame_port f")
    (auto simp: encode_frame_def append_parts_Inr write_index_Inr split: sum.splits if_splits)

lemma read_port_encoded:
  "append_parts (case p of None \<Rightarrow> [Inr [0]] | Some port \<Rightarrow> [Inr [1], write_index port]) = Inr bs \<Longrightarrow>
   read_port (bs @ ys) = (Inr p, ys)"
  by (cases p) (auto simp: append_parts_Inr write_index_Inr read_port_def read_simps)

lemma read_phase_encoded:
  assumes "bincode_laws BC"
    "append_parts (case ph of
          Run r \<Rightarrow> [Inr [0], encode_resume_value BC r]
        | Send next_consumer aft \<Rightarrow> [Inr [1], write_index next_consumer] @
            (case aft of Done \<Rightarrow> [Inr [0]] | More r \<Rightarrow> [Inr [1], encode_resume_value BC r])) = Inr bs"
  shows "fst (read_phase BC bs) = Inr ph"
  using assms
  by (auto simp: append_parts_Inr write_index_Inr read_phase_def read_progress_def read_simps
      resume_value_roundtrip [OF assms(1)] split: frame_phase.splits progress.splits)

lemma frame_roundtrip:
  assumes "bincode_laws BC" "encode_frame BC f = Inr bs"
  shows "decode_frame BC bs = Inr f"
proof -
  obtain port phase where *: "length bs \<le> CONTROL_BYTES" "frame_head f < 2 ^ 32"
    "bs = 1 # u32_to_be (word_of_nat (frame_head f)) @ port @ phase"
    "read_port (port @ phase) = (Inr (frame_port f), phase)" "fst (read_phase BC phase) = Inr (frame_phase f)"
    using encode_frame_parts [OF assms(2)] read_port_encoded read_phase_encoded [OF assms(1)] by blast
  obtain rest where "read_phase BC phase = (Inr (frame_phase f), rest)" using *(5) by (cases "read_phase BC phase") auto
  then have "fst (read_frame BC bs) = Inr f"
    using *(2-4) by (simp add: read_frame_def read_simps)
  then show ?thesis using * assms(2) by (simp add: decode_frame_def)
qed

lemma decode_frame_canonical: "decode_frame BC bs = Inr f \<Longrightarrow> encode_frame BC f = Inr bs"
  by (auto simp: decode_frame_def split: if_splits sum.splits)

section \<open>Properties\<close>

text \<open>A concrete position codec, for positions without a cursor.\<close>

definition plain_bincode :: bincode where
  "plain_bincode =
     \<lparr>bincode_encode = (\<lambda>r. if cursor r = Batch then Some (1 # u64_to_be (ordinal r)) else None),
      bincode_decode = (\<lambda>bs. if length bs = 9 \<and> hd bs = 1
        then Some (\<lparr>ordinal = u64_from_be (tl bs), cursor = Batch\<rparr>, 9) else None)\<rparr>"

lemma plain_bincode_laws: "bincode_laws plain_bincode"
  by (auto simp: bincode_laws_def plain_bincode_def)

definition sample_frame :: frame where
  "sample_frame = \<lparr>frame_head = 3, frame_port = Some 1, frame_phase = Send 2 (More \<lparr>ordinal = 7, cursor = Batch\<rparr>)\<rparr>"

text \<open>
  C15: the codec of a frame is canonical: whatever the encoder accepts is decoded to the same frame, and
  the decoder accepts no other bytes for it. A durable call stack means the same after a reopen.
\<close>

theorem frame_codec_roundtrip:
  assumes "bincode_laws BC"
  shows "encode_frame BC f = Inr bs \<longleftrightarrow> decode_frame BC bs = Inr f"
  using frame_roundtrip [OF assms] decode_frame_canonical by blast

lemma frame_codec_roundtrip_witness:
  "decode_frame plain_bincode [1, 0, 0, 0, 3, 1, 0, 0, 0, 1, 1, 0, 0, 0, 2, 1, 1, 0, 0, 0, 0, 0, 0, 0, 7] = Inr sample_frame"
proof (rule frame_codec_roundtrip [OF plain_bincode_laws, THEN iffD1])
  have "u32_to_be 1 = [0, 0, 0, 1]" "u32_to_be 2 = [0, 0, 0, 2]" "u32_to_be 3 = [0, 0, 0, 3]"
      "u64_to_be 7 = [0, 0, 0, 0, 0, 0, 0, 7]"
    by code_simp+
  then show "encode_frame plain_bincode sample_frame =
      Inr [1, 0, 0, 0, 3, 1, 0, 0, 0, 1, 1, 0, 0, 0, 2, 1, 1, 0, 0, 0, 0, 0, 0, 0, 7]"
    by (simp add: encode_frame_def sample_frame_def write_index_def encode_resume_value_def plain_bincode_def
        CONTROL_BYTES_def RESUME_BYTES_def append_parts.simps(2,3))
qed

end
