(* ===== verification/Flow_Topology.thy ===== *)
theory Flow_Topology
  imports Prelude "HOL-Library.Multiset"
begin

text \<open>
  Validation and resolution of a flow's graph: \<^verbatim>\<open>crates/flow/src/build/validate.rs\<close>.

  \<open>finish_definition\<close> turns declarations into nodes and validates them; \<open>resolve\<close> derives the fused
  chains, the consumers of each chain and the bound on the depth of the durable call stack. The
  theorems show that the chains partition the operations, that the recorded consumers of a chain
  are exactly the edges leaving its last operation and lead to chain heads, and that no sequence
  of nested calls is longer than \<open>MAX_DEPTH\<close>. \<open>TopologyPanic\<close> stands for an index out of
  bounds; validated graphs do not reach it.
\<close>

section \<open>Definitions\<close>

definition MAX_OPERATIONS :: nat where
  "MAX_OPERATIONS = 1024"

definition MAX_DEPTH :: nat where
  "MAX_DEPTH = 64"

record consumer =
  consumer_operation :: nat
  consumer_port :: nat

record resolved_topology =
  tails :: "nat list list"
  consumers :: "consumer list list"
  heads :: "bool list"

datatype invalid_id_reason = Empty | ContainsNul | TooLong

record operation_ref =
  ref_factory_token :: u64
  ref_index :: nat

datatype topology_error =
    EmptyTopology
  | InvalidOperationId bytes invalid_id_reason
  | DuplicateOperationId bytes
  | ForeignOperationRef operation_ref
  | InputNotEarlier bytes nat
  | RootIsNotScan bytes
  | TerminalIsNotSink bytes
  | InputCount bytes nat nat
  | InputHasNoOutput bytes bytes
  | Limit string
  | TopologyPanic string

record 'def declared_operation =
  declared_id :: bytes
  declared_definition :: 'def
  declared_inputs :: "operation_ref list"

record 'def operation_node =
  op_id :: bytes
  op_definition :: 'def
  op_inputs :: "nat list"

record 'def flow_definition =
  owner_identity :: "bytes option"
  operations :: "'def operation_node list"

subsection \<open>Validation\<close>

fun check_refs :: "u64 \<Rightarrow> nat \<Rightarrow> operation_ref list \<Rightarrow> topology_error + nat list" where
  "check_refs token known [] = Inr []"
| "check_refs token known (r # rs) =
     (if ref_factory_token r \<noteq> token \<or> ref_index r \<ge> known then Inl (ForeignOperationRef r)
      else map_sum id ((#) (ref_index r)) (check_refs token known rs))"

fun declare_all :: "u64 \<Rightarrow> 'def declared_operation list \<Rightarrow> 'def operation_node list
    \<Rightarrow> topology_error + 'def operation_node list" where
  "declare_all token [] nodes = Inr nodes"
| "declare_all token (d # ds) nodes =
     (case check_refs token (length nodes) (declared_inputs d) of
        Inl e \<Rightarrow> Inl e
      | Inr inputs \<Rightarrow>
          declare_all token ds
            (nodes @ [\<lparr>op_id = declared_id d, op_definition = declared_definition d, op_inputs = inputs\<rparr>]))"

definition id_reason :: "bytes \<Rightarrow> invalid_id_reason option" where
  "id_reason i =
     (if i = [] then Some Empty else if 0 \<in> set i then Some ContainsNul
      else if length i > 1024 then Some TooLong else None)"

fun check_ids :: "'def operation_node list \<Rightarrow> bytes set \<Rightarrow> topology_error + unit" where
  "check_ids [] ids = Inr ()"
| "check_ids (n # ns) ids =
     (case id_reason (op_id n) of
        Some reason \<Rightarrow> Inl (InvalidOperationId (op_id n) reason)
      | None \<Rightarrow>
          if op_id n \<in> ids then Inl (DuplicateOperationId (op_id n))
          else check_ids ns (insert (op_id n) ids))"

fun first_late_input :: "nat \<Rightarrow> nat list \<Rightarrow> nat option" where
  "first_late_input index [] = None"
| "first_late_input index (i # is) = (if i \<ge> index then Some i else first_late_input index is)"

fun check_inputs :: "('def \<Rightarrow> nat) \<Rightarrow> nat \<Rightarrow> 'def operation_node list \<Rightarrow> topology_error + unit" where
  "check_inputs input_count index [] = Inr ()"
| "check_inputs input_count index (n # ns) =
     (if length (op_inputs n) > MAX_OPERATIONS then Inl (Limit ''1024 inputs per operation'')
      else if input_count (op_definition n) \<noteq> length (op_inputs n)
      then Inl (InputCount (op_id n) (input_count (op_definition n)) (length (op_inputs n)))
      else (case first_late_input index (op_inputs n) of
        Some i \<Rightarrow> Inl (InputNotEarlier (op_id n) i)
      | None \<Rightarrow> check_inputs input_count (Suc index) ns))"

definition validate_definition :: "('def \<Rightarrow> nat) \<Rightarrow> 'def flow_definition \<Rightarrow> topology_error + unit" where
  "validate_definition input_count def =
     (let nodes = operations def in
      if nodes = [] then Inl EmptyTopology
      else if length nodes > MAX_OPERATIONS then Inl (Limit ''1024 operations'')
      else (case check_ids nodes {} of Inl e \<Rightarrow> Inl e | Inr _ \<Rightarrow> check_inputs input_count 0 nodes))"

definition finish_definition ::
  "('def \<Rightarrow> nat) \<Rightarrow> bytes option \<Rightarrow> u64 \<Rightarrow> 'def declared_operation list \<Rightarrow> topology_error + 'def flow_definition" where
  "finish_definition input_count owner token declarations =
     (case declare_all token declarations [] of
        Inl e \<Rightarrow> Inl e
      | Inr nodes \<Rightarrow>
          (let def = \<lparr>owner_identity = owner, operations = nodes\<rparr> in
           case validate_definition input_count def of Inl e \<Rightarrow> Inl e | Inr _ \<Rightarrow> Inr def))"

subsection \<open>Resolution\<close>

text \<open>The execution capability of a constructed operation, and the node that owns it.\<close>

datatype op_kind = Atomic | Paged | Source | Sink

record node_shape =
  node_id :: bytes
  node_inputs :: "nat list"
  node_kind :: op_kind

fun add_ports :: "nat \<Rightarrow> nat \<Rightarrow> nat list \<Rightarrow> consumer list list \<Rightarrow> topology_error + consumer list list" where
  "add_ports index port [] cs = Inr cs"
| "add_ports index port (i # is) cs =
     (if i < length cs
      then add_ports index (Suc port) is
             (cs[i := cs ! i @ [\<lparr>consumer_operation = index, consumer_port = port\<rparr>]])
      else Inl (TopologyPanic ''index out of bounds''))"

fun add_consumers :: "nat \<Rightarrow> 'n node_shape_scheme list \<Rightarrow> consumer list list \<Rightarrow> topology_error + consumer list list" where
  "add_consumers index [] cs = Inr cs"
| "add_consumers index (n # ns) cs =
     (case add_ports index 0 (node_inputs n) cs of
        Inl e \<Rightarrow> Inl e
      | Inr cs' \<Rightarrow> add_consumers (Suc index) ns cs')"

fun check_roles :: "consumer list list \<Rightarrow> nat \<Rightarrow> 'n node_shape_scheme list \<Rightarrow> topology_error + unit" where
  "check_roles cs index [] = Inr ()"
| "check_roles cs index (n # ns) =
     (if node_inputs n = [] \<and> node_kind n \<noteq> Source then Inl (RootIsNotScan (node_id n))
      else if cs ! index = [] \<and> node_kind n \<noteq> Sink then Inl (TerminalIsNotSink (node_id n))
      else check_roles cs (Suc index) ns)"

definition fuses :: "consumer list list \<Rightarrow> 'n node_shape_scheme \<Rightarrow> bool" where
  "fuses cs n \<longleftrightarrow> node_kind n = Atomic \<and> length (node_inputs n) = 1 \<and> length (cs ! (node_inputs n ! 0)) = 1"

text \<open>The state of the fusion loop: the tails, the head flags, and the head of each operation.\<close>

type_synonym fusion = "nat list list \<times> bool list \<times> nat list"

fun fuse :: "consumer list list \<Rightarrow> nat \<Rightarrow> 'n node_shape_scheme list \<Rightarrow> fusion \<Rightarrow> fusion" where
  "fuse cs index [] st = st"
| "fuse cs index (n # ns) (ts, hs, head_of) =
     fuse cs (Suc index) ns
       (if fuses cs n then
          (let h = head_of ! (node_inputs n ! 0) in
           (ts[h := ts ! h @ [index]], hs[index := False], head_of[index := h]))
        else (ts, hs, head_of))"

definition max_depth_of :: "nat list \<Rightarrow> nat list \<Rightarrow> nat list \<Rightarrow> nat" where
  "max_depth_of depth head_of inputs = foldr max (map (\<lambda>i. depth ! (head_of ! i)) inputs) 0"

fun call_depths :: "bool list \<Rightarrow> nat list \<Rightarrow> nat \<Rightarrow> 'n node_shape_scheme list \<Rightarrow> nat list \<Rightarrow> topology_error + nat list" where
  "call_depths hs head_of index [] depth = Inr depth"
| "call_depths hs head_of index (n # ns) depth =
     (if \<not> hs ! index \<or> node_kind n = Sink then call_depths hs head_of (Suc index) ns depth
      else
        (let d = max_depth_of depth head_of (node_inputs n) + 1 in
         if d > MAX_DEPTH then Inl (Limit ''64 call frames'')
         else call_depths hs head_of (Suc index) ns (depth[index := d])))"

text \<open>The last operation of the chain that starts at an index.\<close>

definition chain_last :: "nat list list \<Rightarrow> nat \<Rightarrow> nat" where
  "chain_last ts i = (if ts ! i = [] then i else last (ts ! i))"

definition resolve :: "'n node_shape_scheme list \<Rightarrow> topology_error + resolved_topology" where
  "resolve nodes =
     (let n = length nodes in
      case add_consumers 0 nodes (replicate n []) of
        Inl e \<Rightarrow> Inl e
      | Inr cs \<Rightarrow>
          (case check_roles cs 0 nodes of
             Inl e \<Rightarrow> Inl e
           | Inr _ \<Rightarrow>
               (case fuse cs 0 nodes (replicate n [], replicate n True, [0..<n]) of
                  (ts, hs, head_of) \<Rightarrow>
                    (case call_depths hs head_of 0 nodes (replicate n 0) of
                       Inl e \<Rightarrow> Inl e
                     | Inr _ \<Rightarrow>
                         Inr \<lparr>tails = ts, consumers = map (\<lambda>i. cs ! chain_last ts i) [0..<n], heads = hs\<rparr>))))"

section \<open>Validated graphs\<close>

text \<open>Every input of an operation is declared before it.\<close>

definition graph_ok :: "'n node_shape_scheme list \<Rightarrow> bool" where
  "graph_ok nodes \<longleftrightarrow> (\<forall>i < length nodes. \<forall>j \<in> set (node_inputs (nodes ! i)). j < i)"

lemma first_late_input_None: "first_late_input index is = None \<longleftrightarrow> (\<forall>i \<in> set is. i < index)"
  by (induction "is") auto

lemma check_refs_Inr: "check_refs token known rs = Inr is \<Longrightarrow> is = map ref_index rs \<and> (\<forall>i \<in> set is. i < known)"
proof (induction rs arbitrary: "is")
  case (Cons r rs)
  then show ?case by (cases "check_refs token known rs") (auto split: if_splits)
qed simp

lemma check_ids_Inr:
  "check_ids ns ids = Inr () \<Longrightarrow> distinct (map op_id ns) \<and> set (map op_id ns) \<inter> ids = {} \<and> (\<forall>n \<in> set ns. id_reason (op_id n) = None)"
  by (induction ns arbitrary: ids) (auto split: option.splits if_splits)

lemma check_inputs_Inr:
  "check_inputs input_count k ns = Inr () \<Longrightarrow> i < length ns \<Longrightarrow>
     length (op_inputs (ns ! i)) = input_count (op_definition (ns ! i)) \<and> (\<forall>j \<in> set (op_inputs (ns ! i)). j < k + i)"
proof (induction ns arbitrary: k i)
  case (Cons n ns)
  then have ok: "check_inputs input_count (Suc k) ns = Inr ()"
      "length (op_inputs n) = input_count (op_definition n)" "\<forall>j \<in> set (op_inputs n). j < k"
    by (auto simp: first_late_input_None split: if_splits option.splits)
  show ?case
  proof (cases i)
    case (Suc i')
    then show ?thesis using Cons.IH [OF ok(1), of i'] Cons.prems(2) by simp
  qed (use ok in auto)
qed simp

lemma declare_all_Inr:
  "declare_all token ds nodes = Inr nodes' \<Longrightarrow> length nodes' = length nodes + length ds \<and> (\<exists>rest. nodes' = nodes @ rest)"
proof (induction ds arbitrary: nodes)
  case (Cons d ds)
  then show ?case by (auto split: sum.splits dest!: Cons.IH)
qed simp

section \<open>Edges\<close>

fun ports_from :: "nat \<Rightarrow> nat \<Rightarrow> nat list \<Rightarrow> nat \<Rightarrow> consumer list" where
  "ports_from index port [] p = []"
| "ports_from index port (i # is) p =
     (if i = p then [\<lparr>consumer_operation = index, consumer_port = port\<rparr>] else []) @ ports_from index (Suc port) is p"

fun edges_from :: "nat \<Rightarrow> 'n node_shape_scheme list \<Rightarrow> nat \<Rightarrow> consumer list" where
  "edges_from index [] p = []"
| "edges_from index (n # ns) p = ports_from index 0 (node_inputs n) p @ edges_from (Suc index) ns p"

text \<open>The edges that leave operation \<open>p\<close>, in declaration order of their consumers.\<close>

abbreviation edges :: "'n node_shape_scheme list \<Rightarrow> nat \<Rightarrow> consumer list" where
  "edges nodes p \<equiv> edges_from 0 nodes p"

lemma set_ports_from:
  "c \<in> set (ports_from index port is p) \<longleftrightarrow>
     consumer_operation c = index \<and> port \<le> consumer_port c \<and> consumer_port c < port + length is \<and>
     is ! (consumer_port c - port) = p"
proof (induction "is" arbitrary: port)
  case (Cons i "is")
  have "c = \<lparr>consumer_operation = index, consumer_port = port\<rparr> \<longleftrightarrow> consumer_operation c = index \<and> consumer_port c = port"
    by (cases c) auto
  then show ?case
    using Cons.IH [of "Suc port"] by (cases "consumer_port c = port") (auto simp: nth_Cons')
qed simp

lemma set_edges_from:
  "c \<in> set (edges_from k ns p) \<longleftrightarrow>
     k \<le> consumer_operation c \<and> consumer_operation c < k + length ns \<and>
     consumer_port c < length (node_inputs (ns ! (consumer_operation c - k))) \<and>
     node_inputs (ns ! (consumer_operation c - k)) ! consumer_port c = p"
proof (induction ns arbitrary: k)
  case (Cons n ns)
  then show ?case
    by (cases "consumer_operation c = k") (auto simp: set_ports_from nth_Cons')
qed simp

lemma add_ports_edges:
  "\<forall>i \<in> set is. i < length cs \<Longrightarrow>
   \<exists>cs'. add_ports index port is cs = Inr cs' \<and> length cs' = length cs \<and>
     (\<forall>p < length cs. cs' ! p = cs ! p @ ports_from index port is p)"
proof (induction "is" arbitrary: port cs)
  case (Cons i "is")
  let ?cs = "cs[i := cs ! i @ [\<lparr>consumer_operation = index, consumer_port = port\<rparr>]]"
  obtain cs' where cs': "add_ports index (Suc port) is ?cs = Inr cs'" "length cs' = length ?cs"
      "\<forall>p < length ?cs. cs' ! p = ?cs ! p @ ports_from index (Suc port) is p"
    using Cons.IH [of ?cs "Suc port"] Cons.prems by auto
  then show ?case using Cons.prems by (auto simp: nth_list_update)
qed simp

lemma add_consumers_edges:
  "\<forall>n \<in> set ns. \<forall>i \<in> set (node_inputs n). i < length cs \<Longrightarrow>
   \<exists>cs'. add_consumers index ns cs = Inr cs' \<and> length cs' = length cs \<and>
     (\<forall>p < length cs. cs' ! p = cs ! p @ edges_from index ns p)"
proof (induction ns arbitrary: index cs)
  case (Cons n ns)
  obtain cs1 where cs1: "add_ports index 0 (node_inputs n) cs = Inr cs1" "length cs1 = length cs"
      "\<forall>p < length cs. cs1 ! p = cs ! p @ ports_from index 0 (node_inputs n) p"
    using add_ports_edges [of "node_inputs n" cs index 0] Cons.prems by auto
  obtain cs' where "add_consumers (Suc index) ns cs1 = Inr cs'" "length cs' = length cs1"
      "\<forall>p < length cs1. cs' ! p = cs1 ! p @ edges_from (Suc index) ns p"
    using Cons.IH [of cs1 "Suc index"] Cons.prems cs1(2) by auto
  with cs1 show ?case by auto
qed simp

lemma add_consumers_graph:
  assumes "graph_ok nodes"
  shows "\<exists>cs. add_consumers 0 nodes (replicate (length nodes) []) = Inr cs \<and> length cs = length nodes \<and>
    (\<forall>p < length nodes. cs ! p = edges nodes p)"
proof -
  have "\<forall>n \<in> set nodes. \<forall>i \<in> set (node_inputs n). i < length nodes"
    using assms by (metis graph_ok_def in_set_conv_nth less_trans)
  then show ?thesis
    using add_consumers_edges [of nodes "replicate (length nodes) []" 0] by auto
qed

section \<open>Fused chains\<close>

text \<open>Operation \<open>y\<close> is fused behind its only producer \<open>x\<close>.\<close>

definition follows :: "consumer list list \<Rightarrow> 'n node_shape_scheme list \<Rightarrow> nat \<Rightarrow> nat \<Rightarrow> bool" where
  "follows cs nodes x y \<longleftrightarrow> y < length nodes \<and> fuses cs (nodes ! y) \<and> node_inputs (nodes ! y) = [x]"

abbreviation chain :: "nat list list \<Rightarrow> nat \<Rightarrow> nat list" where
  "chain ts h \<equiv> h # ts ! h"

definition fused_to :: "consumer list list \<Rightarrow> 'n node_shape_scheme list \<Rightarrow> nat \<Rightarrow> fusion \<Rightarrow> bool" where
  "fused_to cs nodes k st \<longleftrightarrow>
     (case st of (ts, hs, ho) \<Rightarrow>
        length ts = length nodes \<and> length hs = length nodes \<and> length ho = length nodes \<and>
        (\<forall>j < length nodes. hs ! j \<longleftrightarrow> \<not> (j < k \<and> fuses cs (nodes ! j))) \<and>
        (\<forall>j < length nodes. ho ! j \<le> j \<and> hs ! (ho ! j) \<and> (hs ! j \<longleftrightarrow> ho ! j = j)) \<and>
        (\<forall>h < length nodes. \<forall>j. j \<in> set (ts ! h) \<longleftrightarrow> j < length nodes \<and> ho ! j = h \<and> j \<noteq> h) \<and>
        (\<forall>h < length nodes. successively (follows cs nodes) (chain ts h)))"

lemma follows_edge:
  assumes "\<forall>p < length nodes. cs ! p = edges nodes p" "graph_ok nodes" "follows cs nodes x y"
  shows "x < y" "cs ! x = [\<lparr>consumer_operation = y, consumer_port = 0\<rparr>]"
proof -
  from assms show "x < y" by (auto simp: follows_def graph_ok_def)
  then have "\<lparr>consumer_operation = y, consumer_port = 0\<rparr> \<in> set (cs ! x)"
    using assms by (auto simp: follows_def set_edges_from)
  moreover have "length (cs ! x) = 1" using assms(3) by (auto simp: follows_def fuses_def)
  ultimately show "cs ! x = [\<lparr>consumer_operation = y, consumer_port = 0\<rparr>]"
    by (cases "cs ! x") auto
qed

lemma follows_unique:
  assumes "\<forall>p < length nodes. cs ! p = edges nodes p" "graph_ok nodes" "follows cs nodes x y" "follows cs nodes x z"
  shows "y = z"
  using follows_edge(2) [OF assms(1-3)] follows_edge(2) [OF assms(1,2,4)] by simp

lemma successively_next:
  "successively P xs \<Longrightarrow> x \<in> set xs \<Longrightarrow> x \<noteq> last xs \<Longrightarrow> \<exists>y \<in> set (tl xs). P x y"
  by (induction P xs rule: successively.induct) auto

lemma fused_to_init: "fused_to cs nodes 0 (replicate (length nodes) [], replicate (length nodes) True, [0..<length nodes])"
  by (auto simp: fused_to_def)

lemma fused_to_step:
  assumes edges: "\<forall>p < length nodes. cs ! p = edges nodes p" "graph_ok nodes"
    and st: "fused_to cs nodes k (ts, hs, ho)" and k: "k < length nodes" and fuse: "fuses cs (nodes ! k)"
    and h: "h = ho ! (node_inputs (nodes ! k) ! 0)"
  shows "fused_to cs nodes (Suc k) (ts[h := ts ! h @ [k]], hs[k := False], ho[k := h])"
proof -
  obtain p where p: "node_inputs (nodes ! k) = [p]"
    using fuse by (cases "node_inputs (nodes ! k)") (auto simp: fuses_def)
  have follows: "follows cs nodes p k" using p k fuse by (simp add: follows_def)
  then have pk: "p < k" by (rule follows_edge(1) [OF edges])
  have len: "length ts = length nodes" "length hs = length nodes" "length ho = length nodes"
    and hs: "\<And>j. j < length nodes \<Longrightarrow> hs ! j \<longleftrightarrow> \<not> (j < k \<and> fuses cs (nodes ! j))"
    and ho: "\<And>j. j < length nodes \<Longrightarrow> ho ! j \<le> j \<and> hs ! (ho ! j) \<and> (hs ! j \<longleftrightarrow> ho ! j = j)"
    and ts: "\<And>g j. g < length nodes \<Longrightarrow> j \<in> set (ts ! g) \<longleftrightarrow> j < length nodes \<and> ho ! j = g \<and> j \<noteq> g"
    and ch: "\<And>g. g < length nodes \<Longrightarrow> successively (follows cs nodes) (chain ts g)"
    using st by (auto simp: fused_to_def)
  have hk: "h = ho ! p" "h < k" "hs ! h" "ho ! k = k"
    using h p pk k ho [of p] ho [of k] hs [of k] by auto
  have last: "last (chain ts h) = p"
  proof (rule ccontr)
    assume "last (chain ts h) \<noteq> p"
    moreover have "p \<in> set (chain ts h)" using ts [of h p] hk pk k by auto
    ultimately obtain y where "y \<in> set (ts ! h)" "follows cs nodes p y"
      using successively_next [OF ch [of h]] hk k by fastforce
    then show False using ts [of h y] follows_unique [OF edges follows] hk k by fastforce
  qed
  have chain: "successively (follows cs nodes) (chain (ts[h := ts ! h @ [k]]) g)" if "g < length nodes" for g
  proof (cases "g = h")
    case True
    then have "successively (follows cs nodes) (chain ts h @ [k])"
      using ch [of h] that follows last by (simp only: successively_append_iff) simp
    then show ?thesis using True that len by simp
  qed (use ch [of g] that in simp)
  have set: "j \<in> set (ts[h := ts ! h @ [k]] ! g) \<longleftrightarrow> j < length nodes \<and> ho[k := h] ! j = g \<and> j \<noteq> g"
    if "g < length nodes" for g j
    using ts [of g j] that hk k len by (cases "j = k"; cases "g = h") auto
  have head: "ho[k := h] ! j \<le> j \<and> hs[k := False] ! (ho[k := h] ! j) \<and> (hs[k := False] ! j \<longleftrightarrow> ho[k := h] ! j = j)"
    if "j < length nodes" for j
  proof (cases "j = k")
    case False
    have "ho ! j \<noteq> k"
    proof
      assume "ho ! j = k"
      then have "j \<in> set (ts ! k)" using ts [OF k, of j] that False by simp
      moreover obtain z where "z \<in> set (ts ! k)" "follows cs nodes k z"
        using ch [OF k] calculation by (cases "ts ! k") auto
      ultimately show False using ho [of z] hs [of z] ts [OF k, of z] follows_edge(1) [OF edges] k
        by fastforce
    qed
    then show ?thesis using ho [OF that] False by simp
  qed (use hk k len in auto)
  have flag: "hs[k := False] ! j \<longleftrightarrow> \<not> (j < Suc k \<and> fuses cs (nodes ! j))" if "j < length nodes" for j
    using hs [OF that] that len fuse by (cases "j = k") (auto simp: less_Suc_eq)
  show ?thesis unfolding fused_to_def prod.case using chain set head flag len by (intro conjI allI impI) simp_all
qed

lemma fused_to_skip:
  "fused_to cs nodes k st \<Longrightarrow> \<not> fuses cs (nodes ! k) \<Longrightarrow> fused_to cs nodes (Suc k) st"
  by (auto simp: fused_to_def less_Suc_eq)

lemma fuse_fused_to:
  assumes edges: "\<forall>p < length nodes. cs ! p = edges nodes p" "graph_ok nodes"
  shows "ns = drop k nodes \<Longrightarrow> k \<le> length nodes \<Longrightarrow> fused_to cs nodes k st \<Longrightarrow>
    fused_to cs nodes (length nodes) (fuse cs k ns st)"
proof (induction ns arbitrary: k st)
  case (Cons n ns)
  obtain ts hs ho where st: "st = (ts, hs, ho)" by (cases st)
  have k: "k < length nodes" "n = nodes ! k" "ns = drop (Suc k) nodes"
    using Cons.prems by (metis drop_all list.distinct(1) not_le, metis nth_via_drop, metis drop_Suc list.sel(3) tl_drop)
  have "fused_to cs nodes (Suc k)
     (if fuses cs n then (let h = ho ! (node_inputs n ! 0) in (ts[h := ts ! h @ [k]], hs[k := False], ho[k := h]))
      else (ts, hs, ho))"
    using fused_to_step [OF edges _ k(1)] fused_to_skip [OF Cons.prems(3)] Cons.prems(3) k st by (auto simp: Let_def)
  from Cons.IH [OF k(3) _ this] k(1) show ?case by (simp add: st)
qed simp

lemma fused_chain_sorted:
  assumes "\<forall>p < length nodes. cs ! p = edges nodes p" "graph_ok nodes" "fused_to cs nodes k (ts, hs, ho)" "h < length nodes"
  shows "sorted_wrt (<) (chain ts h)"
proof -
  have "successively (<) (chain ts h)"
    using assms follows_edge(1) [OF assms(1,2)]
    by (auto simp: fused_to_def intro: successively_mono [of "follows cs nodes"])
  then show ?thesis by (subst (asm) successively_conv_sorted_wrt) (auto simp: transp_def)
qed

lemma fused_chains_partition:
  assumes "\<forall>p < length nodes. cs ! p = edges nodes p" "graph_ok nodes" "fused_to cs nodes k (ts, hs, ho)"
  shows "mset (concat (map (chain ts) (filter ((!) hs) [0..<length nodes]))) = mset [0..<length nodes]"
proof -
  have inv: "\<And>j. j < length nodes \<Longrightarrow> ho ! j \<le> j \<and> hs ! (ho ! j) \<and> (hs ! j \<longleftrightarrow> ho ! j = j)"
      "\<And>g j. g < length nodes \<Longrightarrow> j \<in> set (ts ! g) \<longleftrightarrow> j < length nodes \<and> ho ! j = g \<and> j \<noteq> g"
    using assms(3) by (auto simp: fused_to_def)
  have chain_set: "set (chain ts h) = {j. j < length nodes \<and> ho ! j = h}" if "h < length nodes" "hs ! h" for h
    using inv [of h] that by auto
  have "distinct (concat (map (chain ts) (filter ((!) hs) [0..<length nodes])))"
  proof (rule distinct_concat)
    show "distinct (map (chain ts) (filter ((!) hs) [0..<length nodes]))"
      by (auto simp: distinct_map inj_on_def)
    show "distinct ys" if "ys \<in> set (map (chain ts) (filter ((!) hs) [0..<length nodes]))" for ys
      using that fused_chain_sorted [OF assms] by (auto simp del: distinct.simps sorted_wrt.simps simp: strict_sorted_iff)
    show "set ys \<inter> set zs = {}"
      if "ys \<in> set (map (chain ts) (filter ((!) hs) [0..<length nodes]))"
        "zs \<in> set (map (chain ts) (filter ((!) hs) [0..<length nodes]))" "ys \<noteq> zs" for ys zs
    proof -
      obtain g h where g: "g < length nodes" "hs ! g" "ys = chain ts g" and h: "h < length nodes" "hs ! h" "zs = chain ts h"
        using \<open>ys \<in> _\<close> \<open>zs \<in> _\<close> by auto
      have "set ys = {j. j < length nodes \<and> ho ! j = g}" "set zs = {j. j < length nodes \<and> ho ! j = h}"
        using chain_set g h by blast+
      then show ?thesis using g h \<open>ys \<noteq> zs\<close> by auto
    qed
  qed
  moreover have "set (concat (map (chain ts) (filter ((!) hs) [0..<length nodes]))) = {0..<length nodes}"
  proof -
    have "set (concat (map (chain ts) (filter ((!) hs) [0..<length nodes]))) =
        (\<Union>h \<in> {h. h < length nodes \<and> hs ! h}. set (chain ts h))"
      by (auto simp: atLeast0LessThan)
    also have "\<dots> = (\<Union>h \<in> {h. h < length nodes \<and> hs ! h}. {j. j < length nodes \<and> ho ! j = h})"
      using chain_set by (intro SUP_cong) auto
    also have "\<dots> = {0..<length nodes}" using inv(1) by fastforce
    finally show ?thesis .
  qed
  ultimately show ?thesis by (intro set_eq_iff_mset_eq_distinct [THEN iffD1]) simp_all
qed

lemma successively_before:
  "successively P (x # xs) \<Longrightarrow> y \<in> set xs \<Longrightarrow> \<exists>z \<in> set (x # xs). P z y"
  by (induction xs arbitrary: x) auto

lemma sorted_wrt_last: "sorted_wrt (<) xs \<Longrightarrow> x \<in> set xs \<Longrightarrow> (x :: nat) \<le> last xs"
  by (induction xs) (auto intro: less_imp_le)

lemma chain_last_last: "chain_last ts h = last (chain ts h)"
  by (simp add: chain_last_def)

text \<open>The consumers of a chain are heads, and the operation they read is the end of that chain.\<close>

lemma chain_consumers:
  assumes edges: "\<forall>p < length nodes. cs ! p = edges nodes p" "graph_ok nodes"
    and st: "fused_to cs nodes (length nodes) (ts, hs, ho)" and h: "h < length nodes" "hs ! h"
    and c: "c \<in> set (cs ! chain_last ts h)"
  shows "chain_last ts h < length nodes" "ho ! chain_last ts h = h"
    "consumer_operation c < length nodes" "hs ! consumer_operation c"
    "consumer_port c < length (node_inputs (nodes ! consumer_operation c))"
    "node_inputs (nodes ! consumer_operation c) ! consumer_port c = chain_last ts h"
proof -
  have inv: "\<And>j. j < length nodes \<Longrightarrow> ho ! j \<le> j \<and> hs ! (ho ! j) \<and> (hs ! j \<longleftrightarrow> ho ! j = j)"
      "\<And>g j. g < length nodes \<Longrightarrow> j \<in> set (ts ! g) \<longleftrightarrow> j < length nodes \<and> ho ! j = g \<and> j \<noteq> g"
      "\<And>g. g < length nodes \<Longrightarrow> successively (follows cs nodes) (chain ts g)"
      "\<And>j. j < length nodes \<Longrightarrow> hs ! j \<longleftrightarrow> \<not> fuses cs (nodes ! j)"
    using st by (auto simp: fused_to_def)
  let ?l = "chain_last ts h" and ?b = "consumer_operation c"
  have "?l \<in> set (chain ts h)" unfolding chain_last_last by (rule last_in_set) simp
  then show l: "?l < length nodes" "ho ! ?l = h" using inv(1) [of h] inv(2) [of h ?l] h by auto
  have "c \<in> set (edges nodes ?l)" using c edges(1) l by simp
  then show b: "?b < length nodes" "consumer_port c < length (node_inputs (nodes ! ?b))"
      "node_inputs (nodes ! ?b) ! consumer_port c = ?l"
    by (auto simp: set_edges_from)
  show "hs ! ?b"
  proof (rule ccontr)
    assume non: "\<not> hs ! ?b"
    define g where "g = ho ! ?b"
    have g: "g < length nodes" "?b \<in> set (ts ! g)"
      using inv(1) [OF b(1)] inv(2) [of g ?b] b(1) non by (auto simp: g_def)
    then obtain x where x: "x \<in> set (chain ts g)" "follows cs nodes x ?b"
      using successively_before [OF inv(3)] by blast
    then have "x = ?l" using b by (auto simp: follows_def)
    moreover have "ho ! x = g" using x inv(1) [of g] inv(2) [of g x] g non inv(1) [OF b(1)] by (auto simp: g_def)
    ultimately have "g = h" using l by simp
    then have "?b \<le> ?l"
      using fused_chain_sorted [OF edges st h(1)] g(2) unfolding chain_last_last by (intro sorted_wrt_last) auto
    then show False using follows_edge(1) [OF edges x(2)] \<open>x = ?l\<close> by simp
  qed
qed

section \<open>Call depth\<close>

lemma max_depth_of_ge: "i \<in> set is \<Longrightarrow> depth ! (ho ! i) \<le> max_depth_of depth ho is"
  by (induction "is") (auto simp: max_depth_of_def)

definition depth_ok :: "'n node_shape_scheme list \<Rightarrow> bool list \<Rightarrow> nat list \<Rightarrow> nat list \<Rightarrow> nat \<Rightarrow> bool" where
  "depth_ok nodes hs ho depth j \<longleftrightarrow>
     (hs ! j \<and> node_kind (nodes ! j) \<noteq> Sink \<longrightarrow>
       0 < depth ! j \<and> depth ! j \<le> MAX_DEPTH \<and> (\<forall>i \<in> set (node_inputs (nodes ! j)). depth ! (ho ! i) < depth ! j))"

lemma from_next: "k < n \<Longrightarrow> (\<forall>j < n. k \<le> j \<longrightarrow> P j) \<longleftrightarrow> P k \<and> (\<forall>j < n. Suc k \<le> j \<longrightarrow> P j)"
  by (metis Suc_le_eq order.order_iff_strict)

lemma call_depths_increase:
  assumes ok: "graph_ok nodes" "\<forall>j < length nodes. ho ! j \<le> j"
  shows "ns = drop k nodes \<Longrightarrow> k \<le> length nodes \<Longrightarrow> length depth = length nodes \<Longrightarrow>
    call_depths hs ho k ns depth = Inr depth' \<Longrightarrow>
    (\<forall>j < k. depth' ! j = depth ! j) \<and> (\<forall>j < length nodes. k \<le> j \<longrightarrow> depth_ok nodes hs ho depth' j)"
proof (induction ns arbitrary: k depth)
  case (Cons n ns)
  have k: "k < length nodes" "n = nodes ! k" "ns = drop (Suc k) nodes"
    using Cons.prems by (metis drop_all list.distinct(1) not_le, metis nth_via_drop, metis drop_Suc list.sel(3) tl_drop)
  show ?case
  proof (cases "\<not> hs ! k \<or> node_kind n = Sink")
    case True
    then have "call_depths hs ho (Suc k) ns depth = Inr depth'" using Cons.prems(4) by simp
    from Cons.IH [OF k(3) _ Cons.prems(3) this] k(1)
    have "\<forall>j < Suc k. depth' ! j = depth ! j" "\<forall>j < length nodes. Suc k \<le> j \<longrightarrow> depth_ok nodes hs ho depth' j"
      by simp_all
    moreover have "depth_ok nodes hs ho depth' k" using True k by (auto simp: depth_ok_def)
    ultimately show ?thesis unfolding from_next [OF k(1)] by simp
  next
    case False
    let ?d = "max_depth_of depth ho (node_inputs n) + 1"
    have d: "?d \<le> MAX_DEPTH" and rec: "call_depths hs ho (Suc k) ns (depth[k := ?d]) = Inr depth'"
      using Cons.prems(4) False by (auto simp: Let_def split: if_splits)
    from Cons.IH [OF k(3) _ _ rec] k(1) Cons.prems(3)
    have IH: "\<forall>j < Suc k. depth' ! j = depth[k := ?d] ! j" "\<forall>j < length nodes. Suc k \<le> j \<longrightarrow> depth_ok nodes hs ho depth' j"
      by simp_all
    have dk: "depth' ! k = ?d" using IH(1) k Cons.prems(3) by simp
    have "depth' ! (ho ! i) < depth' ! k" if "i \<in> set (node_inputs n)" for i
    proof -
      have "i < k" using ok(1) that k by (auto simp: graph_ok_def)
      then have "ho ! i < k" using ok(2) k(1) by (meson le_less_trans less_trans)
      then have "depth' ! (ho ! i) = depth ! (ho ! i)" using IH(1) by simp
      then show ?thesis using max_depth_of_ge [OF that, of depth ho] dk by simp
    qed
    then have "depth_ok nodes hs ho depth' k" using d dk k by (simp add: depth_ok_def)
    then show ?thesis unfolding from_next [OF k(1)] using IH by simp
  qed
qed simp

lemma increasing_path_length:
  assumes "successively (\<lambda>a b. f a < f b) path" "\<forall>a \<in> set path. 0 < f a \<and> f a \<le> (m :: nat)"
  shows "length path \<le> m"
proof -
  have "sorted_wrt (<) (map f path)"
    using assms(1) by (subst successively_conv_sorted_wrt [symmetric]) (auto simp: transp_def successively_map)
  then have "distinct (map f path)" by (simp add: strict_sorted_iff)
  then have "length path = card (f ` set path)" by (metis distinct_card length_map list.set_map)
  also have "\<dots> \<le> card {1..m}" using assms(2) by (intro card_mono) auto
  finally show ?thesis by simp
qed

section \<open>Resolved topologies\<close>

lemma resolve_parts:
  assumes "graph_ok nodes" "resolve nodes = Inr r"
  obtains cs ho where "\<forall>p < length nodes. cs ! p = edges nodes p" "check_roles cs 0 nodes = Inr ()"
    "fused_to cs nodes (length nodes) (tails r, heads r, ho)"
    "consumers r = map (\<lambda>i. cs ! chain_last (tails r) i) [0..<length nodes]"
    "\<exists>depth. call_depths (heads r) ho 0 nodes (replicate (length nodes) 0) = Inr depth"
proof -
  obtain cs where cs: "add_consumers 0 nodes (replicate (length nodes) []) = Inr cs" "\<forall>p < length nodes. cs ! p = edges nodes p"
    using add_consumers_graph [OF assms(1)] by blast
  obtain ts hs ho where f: "fuse cs 0 nodes (replicate (length nodes) [], replicate (length nodes) True, [0..<length nodes]) = (ts, hs, ho)"
    by (metis prod_cases3)
  have "fused_to cs nodes (length nodes) (ts, hs, ho)"
    using fuse_fused_to [OF cs(2) assms(1) _ _ fused_to_init, of nodes] f by simp
  moreover have "check_roles cs 0 nodes = Inr ()" "\<exists>depth. call_depths hs ho 0 nodes (replicate (length nodes) 0) = Inr depth"
      "r = \<lparr>tails = ts, consumers = map (\<lambda>i. cs ! chain_last ts i) [0..<length nodes], heads = hs\<rparr>"
    using assms(2) cs(1) f by (auto simp: resolve_def Let_def split: sum.splits)
  ultimately show thesis using that cs(2) by simp
qed

lemma check_roles_Inr:
  "check_roles cs k ns = Inr () \<Longrightarrow> i < length ns \<Longrightarrow>
     (node_inputs (ns ! i) = [] \<longrightarrow> node_kind (ns ! i) = Source) \<and> (cs ! (k + i) = [] \<longrightarrow> node_kind (ns ! i) = Sink)"
proof (induction ns arbitrary: k i)
  case (Cons n ns)
  then show ?case using Cons.IH [of "Suc k" "i - 1"] by (cases i) (auto split: if_splits)
qed simp

text \<open>One call: the chain headed by \<open>a\<close> sends a page to the chain headed by \<open>b\<close>.\<close>

definition calls :: "resolved_topology \<Rightarrow> nat \<Rightarrow> nat \<Rightarrow> bool" where
  "calls r a b \<longleftrightarrow> (\<exists>c \<in> set (consumers r ! a). consumer_operation c = b)"

lemma calls_depth:
  assumes "graph_ok nodes" "resolve nodes = Inr r"
  obtains depth :: "nat list" where
    "\<And>a. a < length nodes \<Longrightarrow> heads r ! a \<Longrightarrow> node_kind (nodes ! a) \<noteq> Sink \<Longrightarrow> 0 < depth ! a \<and> depth ! a \<le> MAX_DEPTH"
    "\<And>a b. a < length nodes \<Longrightarrow> heads r ! a \<Longrightarrow> calls r a b \<Longrightarrow> node_kind (nodes ! b) \<noteq> Sink \<Longrightarrow> depth ! a < depth ! b"
proof -
  obtain cs ho depth where *: "\<forall>p < length nodes. cs ! p = edges nodes p"
    "fused_to cs nodes (length nodes) (tails r, heads r, ho)"
    "consumers r = map (\<lambda>i. cs ! chain_last (tails r) i) [0..<length nodes]"
    "call_depths (heads r) ho 0 nodes (replicate (length nodes) 0) = Inr depth"
    using resolve_parts [OF assms] by metis
  have "\<forall>j < length nodes. ho ! j \<le> j" using *(2) by (auto simp: fused_to_def)
  from call_depths_increase [OF assms(1) this, of nodes 0 "replicate (length nodes) 0" "heads r" depth] *(4)
  have depth: "\<And>j. j < length nodes \<Longrightarrow> depth_ok nodes (heads r) ho depth j"
    by simp
  have "depth ! a < depth ! b" if a: "a < length nodes" "heads r ! a" and "calls r a b" "node_kind (nodes ! b) \<noteq> Sink" for a b
  proof -
    obtain c where c: "c \<in> set (cs ! chain_last (tails r) a)" "b = consumer_operation c"
      using \<open>calls r a b\<close> a *(3) by (auto simp: calls_def)
    note cc = chain_consumers [OF *(1) assms(1) *(2) a c(1), folded c(2)]
    from depth [OF cc(3)] cc(2,4,5,6) that(4) show ?thesis unfolding depth_ok_def by (metis nth_mem)
  qed
  with depth that show thesis unfolding depth_ok_def by blast
qed

section \<open>Properties\<close>

text \<open>The graph of a definition, with the capability of each operation.\<close>

definition shape_of :: "('def \<Rightarrow> op_kind) \<Rightarrow> 'def flow_definition \<Rightarrow> node_shape list" where
  "shape_of kind def =
     map (\<lambda>n. \<lparr>node_id = op_id n, node_inputs = op_inputs n, node_kind = kind (op_definition n)\<rparr>) (operations def)"

lemma validate_definition_Inr:
  assumes "validate_definition input_count def = Inr ()"
  shows "operations def \<noteq> []" "length (operations def) \<le> MAX_OPERATIONS"
    "distinct (map op_id (operations def))" "\<forall>n \<in> set (operations def). id_reason (op_id n) = None"
    "\<And>i. i < length (operations def) \<Longrightarrow>
       length (op_inputs (operations def ! i)) = input_count (op_definition (operations def ! i)) \<and>
       (\<forall>j \<in> set (op_inputs (operations def ! i)). j < i)"
  using assms check_ids_Inr [of "operations def" "{}"] check_inputs_Inr [of input_count 0 "operations def"]
  by (simp_all add: validate_definition_def Let_def split: if_splits sum.splits)

lemma finish_definition_Inr:
  "finish_definition input_count owner token ds = Inr def \<Longrightarrow>
     validate_definition input_count def = Inr () \<and> owner_identity def = owner \<and> length (operations def) = length ds"
  by (auto simp: finish_definition_def Let_def split: sum.splits dest!: declare_all_Inr)

lemma finish_definition_graph_ok:
  "finish_definition input_count owner token ds = Inr def \<Longrightarrow> graph_ok (shape_of kind def)"
  using validate_definition_Inr(5) finish_definition_Inr by (fastforce simp: graph_ok_def shape_of_def)

text \<open>A concrete graph: a source, two fused operations, a branch to a paged operation and two sinks.\<close>

definition sample_declarations :: "op_kind declared_operation list" where
  "sample_declarations =
     [\<lparr>declared_id = [115], declared_definition = Source, declared_inputs = []\<rparr>,
      \<lparr>declared_id = [102], declared_definition = Atomic, declared_inputs = [\<lparr>ref_factory_token = 7, ref_index = 0\<rparr>]\<rparr>,
      \<lparr>declared_id = [103], declared_definition = Atomic, declared_inputs = [\<lparr>ref_factory_token = 7, ref_index = 1\<rparr>]\<rparr>,
      \<lparr>declared_id = [106], declared_definition = Paged, declared_inputs = [\<lparr>ref_factory_token = 7, ref_index = 2\<rparr>, \<lparr>ref_factory_token = 7, ref_index = 2\<rparr>]\<rparr>,
      \<lparr>declared_id = [107], declared_definition = Sink, declared_inputs = [\<lparr>ref_factory_token = 7, ref_index = 3\<rparr>]\<rparr>]"

definition kind_inputs :: "op_kind \<Rightarrow> nat" where
  "kind_inputs k = (case k of Source \<Rightarrow> 0 | Paged \<Rightarrow> 2 | _ \<Rightarrow> 1)"

definition sample_definition :: "op_kind flow_definition" where
  "sample_definition = \<lparr>owner_identity = None, operations =
     [\<lparr>op_id = [115], op_definition = Source, op_inputs = []\<rparr>, \<lparr>op_id = [102], op_definition = Atomic, op_inputs = [0]\<rparr>,
      \<lparr>op_id = [103], op_definition = Atomic, op_inputs = [1]\<rparr>, \<lparr>op_id = [106], op_definition = Paged, op_inputs = [2, 2]\<rparr>,
      \<lparr>op_id = [107], op_definition = Sink, op_inputs = [3]\<rparr>]\<rparr>"

definition sample_topology :: resolved_topology where
  "sample_topology = \<lparr>tails = [[1, 2], [], [], [], []], consumers =
     [[\<lparr>consumer_operation = 3, consumer_port = 0\<rparr>, \<lparr>consumer_operation = 3, consumer_port = 1\<rparr>],
      [\<lparr>consumer_operation = 2, consumer_port = 0\<rparr>],
      [\<lparr>consumer_operation = 3, consumer_port = 0\<rparr>, \<lparr>consumer_operation = 3, consumer_port = 1\<rparr>],
      [\<lparr>consumer_operation = 4, consumer_port = 0\<rparr>], []],
     heads = [True, False, False, True, True]\<rparr>"

lemma sample_finish: "finish_definition kind_inputs None 7 sample_declarations = Inr sample_definition"
  by code_simp

lemma sample_resolve: "resolve (shape_of id sample_definition) = Inr sample_topology"
  by code_simp

text \<open>
  C10: a definition that \<open>finish_definition\<close> accepts has valid and distinct operation ids, at most
  \<open>MAX_OPERATIONS\<close> operations, the declared number of inputs at each of them, and inputs that are all
  declared earlier: the graph is acyclic.
\<close>

theorem finish_definition_sound:
  assumes "finish_definition input_count owner token declarations = Inr def"
  shows "operations def \<noteq> [] \<and> length (operations def) = length declarations \<and> length (operations def) \<le> MAX_OPERATIONS \<and>
    distinct (map op_id (operations def)) \<and> (\<forall>n \<in> set (operations def). id_reason (op_id n) = None) \<and>
    (\<forall>i < length (operations def).
       length (op_inputs (operations def ! i)) = input_count (op_definition (operations def ! i)) \<and>
       (\<forall>j \<in> set (op_inputs (operations def ! i)). j < i))"
  using finish_definition_Inr [OF assms] validate_definition_Inr [of input_count def] by blast

lemma finish_definition_sound_witness: "length (operations sample_definition) = length sample_declarations"
  using finish_definition_sound [OF sample_finish] by blast

text \<open>
  C11: the fused chains of a resolved topology partition the operations: laid end to end they hold every
  operation exactly once, each operation of a tail reads only the operation before it in its chain, and an
  operation outside the tails heads its own chain.
\<close>

theorem chains_partition:
  assumes "finish_definition input_count owner token declarations = Inr def"
    and "resolve (shape_of kind def) = Inr r"
  shows "mset (concat (map (chain (tails r)) (filter ((!) (heads r)) [0..<length (operations def)]))) =
      mset [0..<length (operations def)] \<and>
    (\<forall>h < length (operations def). heads r ! h \<longrightarrow>
       successively (\<lambda>x y. op_inputs (operations def ! y) = [x] \<and> kind (op_definition (operations def ! y)) = Atomic) (chain (tails r) h))"
proof -
  let ?nodes = "shape_of kind def"
  note graph = finish_definition_graph_ok [OF assms(1), of kind]
  obtain cs ho where *: "\<forall>p < length ?nodes. cs ! p = edges ?nodes p" "fused_to cs ?nodes (length ?nodes) (tails r, heads r, ho)"
    using resolve_parts [OF graph assms(2)] by metis
  have len: "length ?nodes = length (operations def)" by (simp add: shape_of_def)
  have succ: "successively (follows cs ?nodes) (chain (tails r) h)" if "h < length (operations def)" for h
    using * that len by (auto simp: fused_to_def)
  have imp: "op_inputs (operations def ! y) = [x] \<and> kind (op_definition (operations def ! y)) = Atomic"
    if "follows cs ?nodes x y" for x y
    using that by (auto simp: follows_def fuses_def shape_of_def)
  have "successively (\<lambda>x y. op_inputs (operations def ! y) = [x] \<and> kind (op_definition (operations def ! y)) = Atomic) (chain (tails r) h)"
    if "h < length (operations def)" for h
    using succ [OF that] by (rule successively_mono) (use imp in blast)
  then show ?thesis using fused_chains_partition [OF *(1) graph *(2)] len by auto
qed

lemma chains_partition_witness:
  "mset (concat (map (chain (tails sample_topology)) (filter ((!) (heads sample_topology)) [0..<length (operations sample_definition)]))) =
     mset [0..<length (operations sample_definition)]"
  using chains_partition [OF sample_finish sample_resolve] by blast

text \<open>
  C12: the consumers recorded for a chain are exactly the edges that leave the last operation of the
  chain: a page is sent to every operation that reads the chain's output, once per port, and each of
  these operations heads a chain of its own.
\<close>

theorem consumers_are_edges:
  assumes "finish_definition input_count owner token declarations = Inr def"
    and "resolve (shape_of kind def) = Inr r"
    and "h < length (operations def)" and "heads r ! h"
  shows "c \<in> set (consumers r ! h) \<longleftrightarrow>
      consumer_operation c < length (operations def) \<and> heads r ! consumer_operation c \<and>
      consumer_port c < length (op_inputs (operations def ! consumer_operation c)) \<and>
      op_inputs (operations def ! consumer_operation c) ! consumer_port c = chain_last (tails r) h"
proof -
  let ?nodes = "shape_of kind def"
  note graph = finish_definition_graph_ok [OF assms(1), of kind]
  have len: "length ?nodes = length (operations def)" by (simp add: shape_of_def)
  have ins: "node_inputs (?nodes ! i) = op_inputs (operations def ! i)" if "i < length (operations def)" for i
    using that by (simp add: shape_of_def)
  obtain cs ho where *: "\<forall>p < length ?nodes. cs ! p = edges ?nodes p" "fused_to cs ?nodes (length ?nodes) (tails r, heads r, ho)"
    "consumers r = map (\<lambda>i. cs ! chain_last (tails r) i) [0..<length ?nodes]"
    using resolve_parts [OF graph assms(2)] by metis
  have cons: "consumers r ! h = cs ! chain_last (tails r) h" using *(3) assms(3) len by simp
  have "chain_last (tails r) h < length ?nodes"
    using *(2) assms(3) len last_in_set [of "tails r ! h"] by (auto simp: fused_to_def chain_last_def)
  then have "c \<in> set (consumers r ! h) \<longleftrightarrow> consumer_operation c < length (operations def) \<and>
      consumer_port c < length (op_inputs (operations def ! consumer_operation c)) \<and>
      op_inputs (operations def ! consumer_operation c) ! consumer_port c = chain_last (tails r) h"
    using *(1) cons len ins by (auto simp: set_edges_from)
  moreover have "heads r ! consumer_operation c" if "c \<in> set (consumers r ! h)"
    using chain_consumers(4) [OF *(1) graph *(2)] that assms(3,4) len cons by simp
  ultimately show ?thesis by blast
qed

lemma consumers_are_edges_witness:
  "heads sample_topology ! 3 \<and> chain_last (tails sample_topology) 0 = 2"
proof -
  have "heads sample_topology ! 0" "(0::nat) < length (operations sample_definition)"
    and c: "\<lparr>consumer_operation = 3, consumer_port = 0\<rparr> \<in> set (consumers sample_topology ! 0)"
    by (simp_all add: sample_topology_def sample_definition_def)
  from consumers_are_edges [OF sample_finish sample_resolve this(2,1), THEN iffD1, OF c] show ?thesis
    by (simp add: sample_topology_def chain_last_def)
qed

text \<open>
  C13: the durable call stack is bounded: whatever path of calls the pages of a flow take, from a chain
  to a consumer of that chain and so on, at most \<open>MAX_DEPTH\<close> operations on it other than sinks are
  active at once.
\<close>

theorem call_depth_bounded:
  assumes "finish_definition input_count owner token declarations = Inr def"
    and "resolve (shape_of kind def) = Inr r"
    and "successively (calls r) path"
    and "\<forall>a \<in> set path. a < length (operations def) \<and> heads r ! a \<and> kind (op_definition (operations def ! a)) \<noteq> Sink"
  shows "length path \<le> MAX_DEPTH"
proof -
  let ?nodes = "shape_of kind def"
  have path: "a < length ?nodes \<and> heads r ! a \<and> node_kind (?nodes ! a) \<noteq> Sink" if "a \<in> set path" for a
    using assms(4) that by (auto simp: shape_of_def)
  obtain depth :: "nat list" where
    d: "\<And>a. a < length ?nodes \<Longrightarrow> heads r ! a \<Longrightarrow> node_kind (?nodes ! a) \<noteq> Sink \<Longrightarrow> 0 < depth ! a \<and> depth ! a \<le> MAX_DEPTH"
      "\<And>a b. a < length ?nodes \<Longrightarrow> heads r ! a \<Longrightarrow> calls r a b \<Longrightarrow> node_kind (?nodes ! b) \<noteq> Sink \<Longrightarrow> depth ! a < depth ! b"
    using calls_depth [OF finish_definition_graph_ok [OF assms(1)] assms(2)] by blast
  have "successively (\<lambda>a b. depth ! a < depth ! b) path"
    using assms(3) by (rule successively_mono) (use path d(2) in blast)
  then show ?thesis by (rule increasing_path_length) (use path d(1) in blast)
qed

lemma call_depth_bounded_witness: "length [0, 3 :: nat] \<le> MAX_DEPTH"
  by (rule call_depth_bounded [OF sample_finish sample_resolve])
    (simp_all add: calls_def sample_topology_def sample_definition_def)

end
