(* ===== verification/Flow_Runtime.thy ===== *)
theory Flow_Runtime
  imports Flow_Frame Flow_Topology Store_Catalog
begin

text \<open>
  The runtime of a flow and its restoration: \<^verbatim>\<open>crates/flow/src/flow/runtime.rs\<close>, \<^verbatim>\<open>status.rs\<close> and
  the shape check shared with the scheduler.

  \<open>runtime\<close> has the fields of \<^verbatim>\<open>Runtime\<close>. The parameters of the whole flow are collected in an \<open>env\<close>: the
  storage engine and database, the Store token, Arrow and bincode. \<open>change_codec\<close> is the interface of
  \<^verbatim>\<open>SchemaBoundChangeCodec\<close>. \<open>validate_frames\<close> is the check of the durable call stack at open; the
  theory \<^theory_text>\<open>Flow_Stack\<close> shows that the scheduler keeps what it checks.
\<close>

section \<open>State\<close>

record 'b change_codec =
  encode_bounded :: "'b change \<Rightarrow> nat \<Rightarrow> change_codec_error + bytes"
  decode_change :: "bytes \<Rightarrow> change_codec_error + 'b change"
  decode_owned :: "bytes \<Rightarrow> change_codec_error + 'b change"

record ('s, 'w, 'b, 'x, 'p) runtime_node =
  rn_id :: bytes
  rn_inputs :: "nat list"
  rn_operation :: "('s, 'w, 'b, 'x, 'p) operation"
  rn_codec :: "'b change_codec option"
  rn_pending :: "'x source_delivery option"

record ('s, 'w, 'b, 'x, 'p) runtime =
  rt_topology :: resolved_topology
  rt_nodes :: "('s, 'w, 'b, 'x, 'p) runtime_node list"
  rt_frames :: frames
  rt_sources :: "nat list"
  rt_sinks :: "nat list"
  source_cursor :: nat
  sink_cursor :: nat
  root_cursor :: nat
  needs_reopen :: bool

record ('d, 's, 'b) env =
  env_database :: "('d, 's) database"
  env_engine :: "'s engine"
  env_token :: u64
  env_arrow :: "'b arrow"
  env_bincode :: bincode

text \<open>Indexing a vector, which panics out of bounds.\<close>

definition index_of :: "'a list \<Rightarrow> nat \<Rightarrow> operation_error + 'a" where
  "index_of xs i = (if i < length xs then Inr (xs ! i) else Inl (Unwind ''index out of bounds''))"

definition sum_bind :: "'e + 'a \<Rightarrow> ('a \<Rightarrow> 'e + 'b) \<Rightarrow> 'e + 'b" where
  "sum_bind x f = (case x of Inl e \<Rightarrow> Inl e | Inr a \<Rightarrow> f a)"

definition expect_codec :: "string \<Rightarrow> 'b change_codec option \<Rightarrow> operation_error + 'b change_codec" where
  "expect_codec m c = (case c of None \<Rightarrow> Inl (Unwind m) | Some k \<Rightarrow> Inr k)"

definition FRAMES_NAME :: bytes where
  "FRAMES_NAME = map (\<lambda>c. of_nat (of_char c)) ''flow/frames''"

definition OUTPUTS_NAME :: bytes where
  "OUTPUTS_NAME = map (\<lambda>c. of_nat (of_char c)) ''flow/outputs''"

definition frames_bind :: "('d data_scope, store_error, frames) sem" where
  "frames_bind =
     sem_bind (scope_data OrderedMap_Kind FRAMES_NAME) (\<lambda>c.
     sem_bind (scope_data OrderedMap_Kind OUTPUTS_NAME) (\<lambda>out.
     sem_return \<lparr>controls = c, outputs = out\<rparr>))"

section \<open>Inputs and codecs\<close>

definition check_shape :: "'b arrow \<Rightarrow> 'b change \<Rightarrow> nat \<Rightarrow> nat \<Rightarrow> operation_error + unit" where
  "check_shape A c max_rows max_slots =
     (let slots = num_rows A c * batch_columns A (records c) in
      if num_rows A c > max_rows \<or> slots > usize_max \<or> slots > max_slots then Inl BudgetExceeded else Inr ())"

definition rt_input ::
  "('d, 's, 'b) env \<Rightarrow> ('s, 'w, 'b, 'x, 'p) runtime \<Rightarrow> 'w \<Rightarrow> u32 \<Rightarrow> frame
   \<Rightarrow> ('s transaction_ref, operation_error, bytes) sem" where
  "rt_input env rt world depth f =
     (if depth \<noteq> 0 then frames_output (env_engine env) (rt_frames rt) (depth - 1)
      else
        sem_bind (sem_lift (index_of (rt_nodes rt) (frame_head f))) (\<lambda>node.
        case rn_operation node of
          SourceOp src \<Rightarrow>
            sem_bind (source_published src world) (\<lambda>value.
            case value of None \<Rightarrow> sem_throw (Message ''root source has no published input'') | Some bs \<Rightarrow> sem_return bs)
        | _ \<Rightarrow> sem_throw (Message ''root frame is not a source'')))"

definition input_codec :: "('s, 'w, 'b, 'x, 'p) runtime \<Rightarrow> frame \<Rightarrow> operation_error + 'b change_codec" where
  "input_codec rt f =
     sum_bind
       (case frame_port f of
          None \<Rightarrow> Inr (frame_head f)
        | Some port \<Rightarrow> sum_bind (index_of (rt_nodes rt) (frame_head f)) (\<lambda>node. index_of (rn_inputs node) port)) (\<lambda>producer.
     sum_bind (index_of (rt_nodes rt) producer) (\<lambda>node.
     expect_codec ''validated input has schema'' (rn_codec node)))"

definition output_codec :: "('s, 'w, 'b, 'x, 'p) runtime \<Rightarrow> nat \<Rightarrow> operation_error + 'b change_codec" where
  "output_codec rt h =
     sum_bind (index_of (tails (rt_topology rt)) h) (\<lambda>ts.
     sum_bind (index_of (rt_nodes rt) (if ts = [] then h else last ts)) (\<lambda>node.
     expect_codec ''computation has output schema'' (rn_codec node)))"

section \<open>Restoration\<close>

fun is_source :: "('s, 'w, 'b, 'x, 'p) operation \<Rightarrow> bool" where
  "is_source (SourceOp _) = True"
| "is_source _ = False"

fun is_sink :: "('s, 'w, 'b, 'x, 'p) operation \<Rightarrow> bool" where
  "is_sink (SinkOp _) = True"
| "is_sink _ = False"

definition port_ok :: "nat \<Rightarrow> ('s, 'w, 'b, 'x, 'p) runtime_node \<Rightarrow> nat option \<Rightarrow> bool" where
  "port_ok expected node port =
     (case port of
        None \<Rightarrow> expected = 0 \<and> is_source (rn_operation node)
      | Some p \<Rightarrow> expected > 0 \<and> \<not> is_source (rn_operation node) \<and> p < length (rn_inputs node))"

text \<open>The link between a frame and the pending call of its parent.\<close>

definition check_parent :: "resolved_topology \<Rightarrow> frame \<Rightarrow> frame \<Rightarrow> operation_error + unit" where
  "check_parent topo parent f =
     (case frame_phase parent of
        Run _ \<Rightarrow> Inl (Message ''a running parent has a child'')
      | Send next_consumer _ \<Rightarrow>
          sum_bind (index_of (consumers topo) (frame_head parent)) (\<lambda>cs.
          if next_consumer = 0 \<or> next_consumer - 1 \<ge> length cs then Inl (Message ''parent has invalid child ordinal'')
          else
            (let c = cs ! (next_consumer - 1) in
             if consumer_operation c \<noteq> frame_head f \<or> Some (consumer_port c) \<noteq> frame_port f
             then Inl (Message ''child does not match its parent's pending call'') else Inr ())))"

definition check_frame ::
  "('s, 'w, 'b, 'x, 'p) runtime \<Rightarrow> nat \<Rightarrow> u32 \<Rightarrow> frame \<Rightarrow> frame option \<Rightarrow> operation_error + ('s, 'w, 'b, 'x, 'p) runtime_node" where
  "check_frame rt expected depth f parent =
     (if unat depth \<noteq> expected then Inl (Message ''call stack depths are not continuous'')
      else if frame_head f \<ge> length (rt_nodes rt) then Inl (Message ''frame refers to unknown head'')
      else
        (let node = rt_nodes rt ! frame_head f in
         sum_bind (index_of (heads (rt_topology rt)) (frame_head f)) (\<lambda>is_head.
         if \<not> is_head \<or> is_sink (rn_operation node) then Inl (Message ''frame does not refer to a computation head'')
         else if \<not> port_ok expected node (frame_port f) then Inl (Message ''frame has invalid input port or source depth'')
         else
           (case parent of
              None \<Rightarrow> Inr node
            | Some pf \<Rightarrow> sum_bind (check_parent (rt_topology rt) pf f) (\<lambda>_. Inr node)))))"

text \<open>The input of a frame: the root's published page, or the decoded output of its parent.\<close>

definition frame_input ::
  "('d, 's, 'b) env \<Rightarrow> ('s, 'w, 'b, 'x, 'p) runtime \<Rightarrow> 'w \<Rightarrow> nat \<Rightarrow> u32 \<Rightarrow> frame \<Rightarrow> 'b change option
   \<Rightarrow> ('s transaction_ref, operation_error, 'b change) sem" where
  "frame_input env rt world expected depth f parent_output =
     sem_bind
       (if expected = 0 then
          sem_bind (rt_input env rt world depth f) (\<lambda>bs.
          sem_bind (sem_lift (input_codec rt f)) (\<lambda>codec.
          sem_lift (map_sum OpCodec id (decode_owned codec bs))))
        else (case parent_output of None \<Rightarrow> sem_throw (Message ''child has no parent output'') | Some c \<Rightarrow> sem_return c)) (\<lambda>c.
     sem_bind (sem_lift (check_shape (env_arrow env) c (if expected = 0 then 4096 else 256) (if expected = 0 then 65536 else 16384)))
       (\<lambda>_. sem_return c))"

definition check_phase ::
  "('d, 's, 'b) env \<Rightarrow> ('s, 'w, 'b, 'x, 'p) runtime \<Rightarrow> nat \<Rightarrow> nat \<Rightarrow> u32 \<Rightarrow> frame \<Rightarrow> ('s, 'w, 'b, 'x, 'p) operation
   \<Rightarrow> 'b operation_input \<Rightarrow> ('s transaction_ref, operation_error, 'b change option) sem" where
  "check_phase env rt n expected depth f op input =
     (case frame_phase f of
        Run r \<Rightarrow>
          sem_bind (sem_lift (validate_resume (env_arrow env) op input r)) (\<lambda>_.
          sem_bind (op_store (sem_bind (bind_read (outputs (rt_frames rt))) (\<lambda>p.
            map_get_bounded (env_engine env) u32_key vec_value p depth 0))) (\<lambda>retained.
          if retained \<noteq> None then sem_throw (Message ''running frame retains an output'')
          else if expected + 1 < n then sem_throw (Message ''running frame is not the top'')
          else sem_return None))
      | Send next_consumer aft \<Rightarrow>
          sem_bind (sem_lift (index_of (consumers (rt_topology rt)) (frame_head f))) (\<lambda>cs.
          if next_consumer > length cs then sem_throw (Message ''frame consumer ordinal exceeds fanout'')
          else
            sem_bind (case aft of Done \<Rightarrow> sem_return () | More r \<Rightarrow> sem_lift (validate_resume (env_arrow env) op input r)) (\<lambda>_.
            sem_bind (frames_output (env_engine env) (rt_frames rt) depth) (\<lambda>bs.
            sem_bind (sem_lift (output_codec rt (frame_head f))) (\<lambda>codec.
            sem_bind (sem_lift (map_sum OpCodec id (decode_owned codec bs))) (\<lambda>output.
            sem_bind (sem_lift (check_shape (env_arrow env) output 256 16384)) (\<lambda>_.
            sem_return (Some output))))))))"

fun check_stack ::
  "('d, 's, 'b) env \<Rightarrow> ('s, 'w, 'b, 'x, 'p) runtime \<Rightarrow> 'w \<Rightarrow> nat \<Rightarrow> nat \<Rightarrow> frame option \<Rightarrow> 'b change option
   \<Rightarrow> (u32 \<times> frame) list \<Rightarrow> ('s transaction_ref, operation_error, unit) sem" where
  "check_stack env rt world n expected parent parent_output [] = sem_return ()"
| "check_stack env rt world n expected parent parent_output ((depth, f) # rest) =
     sem_bind (sem_lift (check_frame rt expected depth f parent)) (\<lambda>node.
     sem_bind (frame_input env rt world expected depth f parent_output) (\<lambda>change.
     sem_bind (check_phase env rt n expected depth f (rn_operation node)
       \<lparr>in_port = (case frame_port f of None \<Rightarrow> 0 | Some p \<Rightarrow> p), in_change = change\<rparr>) (\<lambda>output.
     check_stack env rt world n (Suc expected) (Some f) output rest)))"

definition validate_frames ::
  "('d, 's, 'b) env \<Rightarrow> ('s, 'w, 'b, 'x, 'p) runtime \<Rightarrow> 'w \<Rightarrow> ('s transaction_ref, operation_error, unit) sem" where
  "validate_frames env rt world =
     (let E = env_engine env in
      sem_bind (op_store
        (sem_bind (bind_read (controls (rt_frames rt))) (\<lambda>p.
         sem_bind (sem_lift (scan_limit_new (MAX_DEPTH + 1) ((MAX_DEPTH + 1) * (CONTROL_BYTES + 4)))) (\<lambda>limit.
         map_scan E u32_key (frame_value (env_bincode env)) p Unbounded Unbounded Ascending None limit)))) (\<lambda>page.
      if continuation page \<noteq> None \<or> length (page_entries page) > MAX_DEPTH
      then sem_throw (Message ''call stack exceeds depth bound'')
      else
        (let n = length (page_entries page) in
         sem_bind (op_store
           (sem_bind (bind_read (outputs (rt_frames rt))) (\<lambda>p.
            sem_bind (sem_lift (scan_limit_new 1 (PAGE_BYTES + 4))) (\<lambda>limit.
            map_scan E u32_key vec_value p Unbounded Unbounded Descending None limit)))) (\<lambda>out_page.
         if page_entries out_page \<noteq> [] \<and> unat (fst (last (page_entries out_page))) \<ge> n
         then sem_throw (Message ''orphan frame output'')
         else check_stack env rt world n 0 None None (page_entries page)))))"

text \<open>\<^verbatim>\<open>Runtime::restore\<close>: every failure is reported as an invalid runtime state.\<close>

fun restore_nodes ::
  "('s, 'w, 'b, 'x, 'p) runtime_node list \<Rightarrow> ('w \<times> 's transaction_ref, operation_error, unit) sem" where
  "restore_nodes [] = sem_return ()"
| "restore_nodes (node # rest) =
     sem_bind
       (case rn_operation node of
          SourceOp src \<Rightarrow> source_restore src
        | SinkOp snk \<Rightarrow> sem_bind (sink_load snk) (\<lambda>_. sem_return ())
        | _ \<Rightarrow> sem_return ()) (\<lambda>_. restore_nodes rest)"

definition restore_runtime ::
  "('d, 's, 'b) env \<Rightarrow> ('s, 'w, 'b, 'x, 'p) runtime \<Rightarrow> ('w \<times> 's transaction_ref, operation_error, unit) sem" where
  "restore_runtime env rt =
     sem_bind (\<lambda>(world, r). case validate_frames env rt world r of (res, r') \<Rightarrow> (res, (world, r'))) (\<lambda>_.
     restore_nodes (rt_nodes rt))"

section \<open>Status\<close>

record flow_status =
  status_needs_reopen :: bool
  status_depth :: nat
  active_operation :: "bytes option"
  status_sending :: bool

definition flow_status_of ::
  "('d, 's, 'b) env \<Rightarrow> ('s, 'w, 'b, 'x, 'p) runtime \<Rightarrow> ('s, flow_status) read_op" where
  "flow_status_of env rt =
     sem_bind (frames_top (env_engine env) (env_bincode env) (rt_frames rt)) (\<lambda>top.
     sem_return
       (case top of
          None \<Rightarrow> \<lparr>status_needs_reopen = needs_reopen rt, status_depth = 0, active_operation = None, status_sending = False\<rparr>
        | Some (depth, f) \<Rightarrow>
            \<lparr>status_needs_reopen = needs_reopen rt, status_depth = unat depth + 1,
             active_operation = (if frame_head f < length (rt_nodes rt) then Some (rn_id (rt_nodes rt ! frame_head f)) else None),
             status_sending = (case frame_phase f of Send _ _ \<Rightarrow> True | Run _ \<Rightarrow> False)\<rparr>))"

end
