(* ===== verification/Flow_Advance.thy ===== *)
theory Flow_Advance
  imports Flow_Runtime
begin

text \<open>
  The scheduler of a flow: \<^verbatim>\<open>crates/flow/src/flow/advance.rs\<close>.

  A \<open>flow\<close> is the runtime, the durability batch of the round (which holds the database), the state of
  the sources and sinks, and the round's byte allowance \<open>remaining\<close>. Functions that run inside one
  transaction (\<open>run_page\<close>, \<open>route_page\<close>, \<open>finish_frame\<close>) work on a \<open>page_state\<close>: the transaction, the
  step budget and the state of the sinks. Dropping a transaction without committing it leaves the
  database as it was, so a failed page is simply not committed.

  A subtraction that would go below zero is a panic in the source's checked builds, and so is an index
  out of bounds; both are \<open>Unwind\<close> here, which no error handler intercepts and \<open>advance\<close> turns into
  a runtime that must be reopened.
\<close>

section \<open>Outcomes\<close>

datatype advance_outcome = Idle | Backpressured | Progressed

fun join :: "advance_outcome \<Rightarrow> advance_outcome \<Rightarrow> advance_outcome" where
  "join Progressed _ = Progressed"
| "join _ Progressed = Progressed"
| "join Backpressured _ = Backpressured"
| "join _ Backpressured = Backpressured"
| "join Idle Idle = Idle"

definition STACK_ACTIONS :: nat where
  "STACK_ACTIONS = 32"

definition STACK_ROUND_BYTES :: nat where
  "STACK_ROUND_BYTES = 80 * PAGE_BYTES"

section \<open>State\<close>

record ('d, 's, 'w, 'b, 'x, 'p) flow =
  flow_runtime :: "('s, 'w, 'b, 'x, 'p) runtime"
  flow_batch :: "'d durability_batch"
  flow_world :: 'w
  remaining :: nat

type_synonym ('d, 's, 'w, 'b, 'x, 'p, 'a) flow_op = "(('d, 's, 'w, 'b, 'x, 'p) flow, operation_error, 'a) sem"

record ('s, 'w) page_state =
  page_work :: "'s work"
  page_world :: 'w

type_synonym ('s, 'w, 'a) page_op = "(('s, 'w) page_state, operation_error, 'a) sem"

definition in_work :: "('s, 'a) work_op \<Rightarrow> ('s, 'w, 'a) page_op" where
  "in_work m ps = (case m (page_work ps) of (res, w) \<Rightarrow> (res, ps\<lparr>page_work := w\<rparr>))"

definition in_txn :: "('s transaction, operation_error, 'a) sem \<Rightarrow> ('s, 'a) work_op" where
  "in_txn m w = (case m (work_txn w) of (res, t) \<Rightarrow> (res, w\<lparr>work_txn := t\<rparr>))"

text \<open>A method of a sink, which changes the sink's own state and the transaction.\<close>

definition in_sink :: "('w \<times> 's transaction, operation_error, 'a) sem \<Rightarrow> ('s, 'w, 'a) page_op" where
  "in_sink m ps =
     (case m (page_world ps, work_txn (page_work ps)) of (res, (world, t)) \<Rightarrow>
        (res, ps\<lparr>page_work := (page_work ps)\<lparr>work_txn := t\<rparr>, page_world := world\<rparr>))"

definition page_charge :: "nat \<Rightarrow> ('s, 'w, unit) page_op" where
  "page_charge n = in_work (in_budget (charge n))"

definition saturating :: "nat \<Rightarrow> nat" where
  "saturating n = min n usize_max"

section \<open>Inside one transaction\<close>

definition finish_frame ::
  "('d, 's, 'b) env \<Rightarrow> ('s, 'w, 'b, 'x, 'p) runtime \<Rightarrow> u32 \<Rightarrow> frame \<Rightarrow> progress \<Rightarrow> ('s, 'w, unit) page_op" where
  "finish_frame env rt depth f aft =
     (case aft of
        Done \<Rightarrow>
          sem_bind
            (if depth = 0 then
               sem_bind (sem_lift (index_of (rt_nodes rt) (frame_head f))) (\<lambda>node.
               case rn_operation node of
                 SourceOp src \<Rightarrow> (\<lambda>ps. in_work (in_txn (source_consume_published src (page_world ps))) ps)
               | _ \<Rightarrow> sem_throw (Unwind ''root source role''))
             else sem_return ()) (\<lambda>_.
          in_work (in_txn (frames_pop (env_engine env) (rt_frames rt) depth)))
      | More r \<Rightarrow>
          sem_bind (in_work (in_txn (outputs_remove (env_engine env) (rt_frames rt) depth))) (\<lambda>_.
          in_work (in_txn (frames_put (env_engine env) (env_bincode env) (rt_frames rt) depth
            \<lparr>frame_head = frame_head f, frame_port = frame_port f, frame_phase = Run r\<rparr>))))"

text \<open>
  The loop of \<open>route_page\<close> over the consumers not yet served. It ends when all are served, or stops
  with the next ordinal, at a child to call, at a full sink, or when the allowance is spent.
\<close>

datatype route_end = AllRouted | Stopped "frame option" bool nat

fun route_loop ::
  "('s, 'w, 'b, 'x, 'p) runtime \<Rightarrow> nat \<Rightarrow> bytes \<Rightarrow> consumer list \<Rightarrow> nat \<Rightarrow> 'b change option \<Rightarrow> ('s, 'w, route_end) page_op" where
  "route_loop rt h encoded [] next_consumer output = sem_return AllRouted"
| "route_loop rt h encoded (c # cs) next_consumer output =
     sem_bind (sem_lift (index_of (rt_nodes rt) (consumer_operation c))) (\<lambda>node.
     case rn_operation node of
       SinkOp snk \<Rightarrow>
         (\<lambda>ps.
            (let n = saturating (saturating (length encoded * 2) + 128) in
             if n > remaining_bytes (work_budget (page_work ps)) then (Inr (Stopped None False next_consumer), ps)
             else
               sem_bind (page_charge n) (\<lambda>_.
               sem_bind
                 (case output of
                    Some page \<Rightarrow> sem_return page
                  | None \<Rightarrow>
                      sem_bind (sem_lift (output_codec rt h)) (\<lambda>codec.
                      sem_lift (map_sum OpCodec id (decode_change codec encoded)))) (\<lambda>page.
               sem_bind (in_sink (sink_try_enqueue snk page)) (\<lambda>accepted.
               if accepted then route_loop rt h encoded cs (Suc next_consumer) (Some page)
               else sem_return (Stopped None True next_consumer)))) ps))
     | op \<Rightarrow>
         sem_return (Stopped
           (Some \<lparr>frame_head = consumer_operation c, frame_port = Some (consumer_port c), frame_phase = Run (initial_resume op)\<rparr>)
           False (Suc next_consumer)))"

definition next_depth :: "u32 \<Rightarrow> operation_error + u32" where
  "next_depth depth = (if unat depth + 1 < 2 ^ 32 then Inr (depth + 1) else Inl (Unwind ''attempt to add with overflow''))"

definition store_route ::
  "('d, 's, 'b) env \<Rightarrow> ('s, 'w, 'b, 'x, 'p) runtime \<Rightarrow> u32 \<Rightarrow> frame \<Rightarrow> progress \<Rightarrow> bool \<Rightarrow> nat \<Rightarrow> bytes
   \<Rightarrow> frame option \<Rightarrow> bool \<Rightarrow> nat \<Rightarrow> ('s, 'w, advance_outcome) page_op" where
  "store_route env rt depth f aft fresh first_consumer encoded child blocked next_consumer =
     (let progressed = (fresh \<or> next_consumer \<noteq> first_consumer); E = env_engine env; BC = env_bincode env in
      sem_bind (if fresh then in_work (in_txn (outputs_put E (rt_frames rt) depth encoded)) else sem_return ()) (\<lambda>_.
      sem_bind
        (if progressed then
           in_work (in_txn (frames_put E BC (rt_frames rt) depth (f\<lparr>frame_phase := Send next_consumer aft\<rparr>)))
         else sem_return ()) (\<lambda>_.
      sem_bind
        (case child of
           None \<Rightarrow> sem_return ()
         | Some c \<Rightarrow>
             sem_bind (sem_lift (next_depth depth)) (\<lambda>d. in_work (in_txn (frames_put E BC (rt_frames rt) d c)))) (\<lambda>_.
      sem_return (if progressed then Progressed else if blocked then Backpressured else Idle)))))"

definition route_page ::
  "('d, 's, 'b) env \<Rightarrow> ('s, 'w, 'b, 'x, 'p) runtime \<Rightarrow> u32 \<Rightarrow> frame \<Rightarrow> 'b change option \<Rightarrow> bytes \<Rightarrow> ('s, 'w, advance_outcome) page_op" where
  "route_page env rt depth f output encoded =
     (case frame_phase f of
        Run _ \<Rightarrow> sem_throw (Unwind ''routing a computed page'')
      | Send first_consumer aft \<Rightarrow>
          sem_bind (sem_lift (index_of (consumers (rt_topology rt)) (frame_head f))) (\<lambda>cs.
          sem_bind (route_loop rt (frame_head f) encoded (drop first_consumer cs) first_consumer output) (\<lambda>end.
          case end of
            AllRouted \<Rightarrow> sem_bind (finish_frame env rt depth f aft) (\<lambda>_. sem_return Progressed)
          | Stopped child blocked next_consumer \<Rightarrow>
              store_route env rt depth f aft (output \<noteq> None) first_consumer encoded child blocked next_consumer)))"

fun run_tails ::
  "('s, 'w, 'b, 'x, 'p) runtime \<Rightarrow> nat list \<Rightarrow> 'b change option \<Rightarrow> ('s, 'w, 'b change option) page_op" where
  "run_tails rt [] output = sem_return output"
| "run_tails rt (t # ts) output =
     (case output of
        None \<Rightarrow> sem_return None
      | Some c \<Rightarrow>
          sem_bind (sem_lift (index_of (rt_nodes rt) t)) (\<lambda>node.
          case rn_operation node of
            AtomicOp a \<Rightarrow> sem_bind (in_work (atomic_apply a \<lparr>in_port = 0, in_change = c\<rparr>)) (\<lambda>out. run_tails rt ts out)
          | _ \<Rightarrow> sem_throw (Unwind ''validated atomic tail'')))"

text \<open>The encoding of a computed page, at most as long as the budget still allows.\<close>

definition encode_page :: "'b change_codec \<Rightarrow> 'b change \<Rightarrow> ('s, 'w, bytes) page_op" where
  "encode_page codec output ps =
     (let limit = min PAGE_BYTES (remaining_bytes (work_budget (page_work ps))) in
      case encode_bounded codec output limit of
        Inl (EncodedSizeLimitExceeded _) \<Rightarrow> sem_bind (page_charge limit) (\<lambda>_. sem_throw BudgetExceeded) ps
      | Inl e \<Rightarrow> (Inl (OpCodec e), ps)
      | Inr encoded \<Rightarrow> (Inr encoded, ps))"

definition run_page ::
  "('d, 's, 'b) env \<Rightarrow> ('s, 'w, 'b, 'x, 'p) runtime \<Rightarrow> u32 \<Rightarrow> frame \<Rightarrow> 'b change \<Rightarrow> ('s, 'w, advance_outcome) page_op" where
  "run_page env rt depth f input =
     (case frame_phase f of
        Send _ _ \<Rightarrow> sem_throw (Unwind ''running frame'')
      | Run r \<Rightarrow>
          sem_bind (page_charge CONTROL_BYTES) (\<lambda>_.
          sem_bind (sem_lift (index_of (rt_nodes rt) (frame_head f))) (\<lambda>node.
          sem_bind (in_work (op_step (env_arrow env) (rn_operation node)
            \<lparr>in_port = (case frame_port f of None \<Rightarrow> 0 | Some p \<Rightarrow> p), in_change = input\<rparr> r)) (\<lambda>st.
          if step_progress st = More r then sem_throw (Message ''computation returned an unchanged position'')
          else
            sem_bind (sem_lift (index_of (tails (rt_topology rt)) (frame_head f))) (\<lambda>ts.
            sem_bind (run_tails rt ts (step_output st)) (\<lambda>output.
            case output of
              Some page \<Rightarrow>
                sem_bind (sem_lift (check_shape (env_arrow env) page 256 16384)) (\<lambda>_.
                sem_bind (sem_lift (output_codec rt (frame_head f))) (\<lambda>codec.
                sem_bind (encode_page codec page) (\<lambda>encoded.
                sem_bind (page_charge (length encoded)) (\<lambda>_.
                sem_bind (page_charge (saturating (length encoded + (2 * CONTROL_BYTES + 12)))) (\<lambda>_.
                route_page env rt depth (f\<lparr>frame_phase := Send 0 (step_progress st)\<rparr>) (Some page) encoded)))))
            | None \<Rightarrow>
                sem_bind (page_charge (2 * CONTROL_BYTES + 12)) (\<lambda>_.
                sem_bind (finish_frame env rt depth f (step_progress st)) (\<lambda>_. sem_return Progressed))))))))"

section \<open>Transactions and barriers\<close>

definition flow_commit :: "('d, 's, 'b) env \<Rightarrow> 's transaction \<Rightarrow> ('d, 's, 'w, 'b, 'x, 'p, unit) flow_op" where
  "flow_commit env t fl =
     (case batched_commit (env_database env) t (flow_batch fl) of
        (Inl e, b) \<Rightarrow>
          (Inl (OpStore e), fl\<lparr>flow_batch := b, flow_runtime := (flow_runtime fl)\<lparr>needs_reopen := True\<rparr>\<rparr>)
      | (Inr _, b) \<Rightarrow> (Inr (), fl\<lparr>flow_batch := b\<rparr>))"

definition flow_sync :: "('d, 's, 'b) env \<Rightarrow> ('d, 's, 'w, 'b, 'x, 'p, unit) flow_op" where
  "flow_sync env fl =
     (case batch_sync (env_database env) (flow_batch fl) of
        (Inl e, b) \<Rightarrow>
          (Inl (OpStore e), fl\<lparr>flow_batch := b, flow_runtime := (flow_runtime fl)\<lparr>needs_reopen := True\<rparr>\<rparr>)
      | (Inr _, b) \<Rightarrow> (Inr (), fl\<lparr>flow_batch := b\<rparr>))"

text \<open>\<^verbatim>\<open>inspect_err(|_| self.needs_reopen = true)\<close>: it sees an error, not a panic.\<close>

definition or_reopen :: "('d, 's, 'w, 'b, 'x, 'p, 'a) flow_op \<Rightarrow> ('d, 's, 'w, 'b, 'x, 'p, 'a) flow_op" where
  "or_reopen m fl =
     (case m fl of
        (Inl e, fl') \<Rightarrow>
          (Inl e, if is_unwind e then fl' else fl'\<lparr>flow_runtime := (flow_runtime fl')\<lparr>needs_reopen := True\<rparr>\<rparr>)
      | res \<Rightarrow> res)"

definition in_world :: "('w, operation_error, 'a) sem \<Rightarrow> ('d, 's, 'w, 'b, 'x, 'p, 'a) flow_op" where
  "in_world m fl = (case m (flow_world fl) of (res, world) \<Rightarrow> (res, fl\<lparr>flow_world := world\<rparr>))"

text \<open>\<^verbatim>\<open>reads.begin().access()\<close>: a fresh snapshot of what is committed, used by one read.\<close>

definition snapshot_of :: "('d, 's, 'b) env \<Rightarrow> 'd durability_batch \<Rightarrow> 's transaction_ref" where
  "snapshot_of env b = Read (begin_read_transaction (env_database env) (env_token env) (batch_database b))"

definition with_read :: "('d, 's, 'b) env \<Rightarrow> ('w \<Rightarrow> ('s transaction_ref, operation_error, 'a) sem) \<Rightarrow> ('d, 's, 'w, 'b, 'x, 'p, 'a) flow_op" where
  "with_read env m fl = (fst (m (flow_world fl) (snapshot_of env (flow_batch fl))), fl)"

definition begin_txn :: "('d, 's, 'b) env \<Rightarrow> ('d, 's, 'w, 'b, 'x, 'p) flow \<Rightarrow> 's transaction" where
  "begin_txn env fl = batch_begin (env_database env) (env_token env) (flow_batch fl)"

text \<open>
  A computation in a fresh transaction: its result, the transaction and the unspent bytes. The caller
  commits the transaction or drops it.
\<close>

definition with_page ::
  "('d, 's, 'b) env \<Rightarrow> step_budget \<Rightarrow> (('s, 'w, 'b, 'x, 'p) runtime \<Rightarrow> ('s, 'w, 'a) page_op)
   \<Rightarrow> ('d, 's, 'w, 'b, 'x, 'p) flow \<Rightarrow> (operation_error + 'a) \<times> 's work \<times> ('d, 's, 'w, 'b, 'x, 'p) flow" where
  "with_page env budget m fl =
     (case m (flow_runtime fl) \<lparr>page_work = \<lparr>work_txn = begin_txn env fl, work_budget = budget\<rparr>, page_world = flow_world fl\<rparr> of
        (res, ps) \<Rightarrow> (res, page_work ps, fl\<lparr>flow_world := page_world ps\<rparr>))"

text \<open>Running a page and committing it when it succeeds.\<close>

definition commit_page ::
  "('d, 's, 'b) env \<Rightarrow> step_budget \<Rightarrow> (('s, 'w, 'b, 'x, 'p) runtime \<Rightarrow> ('s, 'w, 'a) page_op) \<Rightarrow> ('d, 's, 'w, 'b, 'x, 'p, 'a) flow_op" where
  "commit_page env budget m fl =
     (case with_page env budget m fl of
        (Inl e, w, fl') \<Rightarrow> (Inl e, fl')
      | (Inr a, w, fl') \<Rightarrow> sem_bind (flow_commit env (work_txn w)) (\<lambda>_. sem_return a) fl')"

definition spend :: "nat \<Rightarrow> ('d, 's, 'w, 'b, 'x, 'p, unit) flow_op" where
  "spend n fl =
     (if n \<le> remaining fl then (Inr (), fl\<lparr>remaining := remaining fl - n\<rparr>)
      else (Inl (Unwind ''attempt to subtract with overflow''), fl))"

fun is_budget_error :: "operation_error \<Rightarrow> bool" where
  "is_budget_error BudgetExceeded = True"
| "is_budget_error (Other _ (Some source)) = is_budget_error source"
| "is_budget_error _ = False"

section \<open>Stack actions\<close>

text \<open>One attempt: a page in a fresh transaction, and the charge for what it used of its allowance.\<close>

definition run_attempt ::
  "('d, 's, 'b) env \<Rightarrow> u32 \<Rightarrow> frame \<Rightarrow> 'b change \<Rightarrow> nat
   \<Rightarrow> ('d, 's, 'w, 'b, 'x, 'p, (operation_error + advance_outcome) \<times> 's transaction) flow_op" where
  "run_attempt env depth f input head_items fl =
     (case with_page env (budget_new head_items STEP_BYTES) (\<lambda>rt. run_page env rt depth f input) fl of
        (result, w, fl1) \<Rightarrow>
          if unwinds result then (Inl (projl result), fl1)
          else if remaining_bytes (work_budget w) > STEP_BYTES
          then (Inl (Unwind ''attempt to subtract with overflow''), fl1)
          else sem_bind (spend (STEP_BYTES - remaining_bytes (work_budget w))) (\<lambda>_. sem_return (result, work_txn w)) fl1)"

function run_frame_from ::
  "('d, 's, 'b) env \<Rightarrow> u32 \<Rightarrow> frame \<Rightarrow> 'b change \<Rightarrow> nat \<Rightarrow> ('d, 's, 'w, 'b, 'x, 'p, advance_outcome) flow_op" where
  "run_frame_from env depth f input head_items fl =
     (case run_attempt env depth f input head_items fl of
        (Inl e, fl1) \<Rightarrow> (Inl e, fl1)
      | (Inr (result, t), fl1) \<Rightarrow>
          (case result of
             Inr outcome \<Rightarrow> sem_bind (flow_commit env t) (\<lambda>_. sem_return outcome) fl1
           | Inl e \<Rightarrow>
               if is_budget_error e \<and> head_items > 1
               then run_frame_from env depth f input (head_items div 2) fl1
               else (Inl e, fl1)))"
  by pat_completeness auto
termination
  by (relation "measure (\<lambda>(env, depth, f, input, head_items, fl). head_items)") auto

declare run_frame_from.simps [simp del]

definition run_frame ::
  "('d, 's, 'b) env \<Rightarrow> u32 \<Rightarrow> frame \<Rightarrow> 'b change \<Rightarrow> ('d, 's, 'w, 'b, 'x, 'p, advance_outcome) flow_op" where
  "run_frame env depth f input = run_frame_from env depth f input 256"

definition send_page :: "('d, 's, 'b) env \<Rightarrow> u32 \<Rightarrow> frame \<Rightarrow> ('d, 's, 'w, 'b, 'x, 'p, advance_outcome) flow_op" where
  "send_page env depth f =
     (case frame_phase f of
        Run _ \<Rightarrow> sem_throw (Unwind ''sending frame'')
      | Send next_consumer aft \<Rightarrow>
          (case charge (2 * CONTROL_BYTES + 12) (budget_new 1 STEP_BYTES) of
             (Inl e, _) \<Rightarrow> sem_throw e
           | (Inr _, budget) \<Rightarrow>
               (\<lambda>fl.
                  (case index_of (consumers (rt_topology (flow_runtime fl))) (frame_head f) of
                     Inl e \<Rightarrow> (Inl e, fl)
                   | Inr cs \<Rightarrow>
                       if next_consumer = length cs then
                         commit_page env budget (\<lambda>rt. sem_bind (finish_frame env rt depth f aft) (\<lambda>_. sem_return Progressed)) fl
                       else
                         sem_bind (with_read env (\<lambda>_. frames_output (env_engine env) (rt_frames (flow_runtime fl)) depth)) (\<lambda>encoded.
                         case charge (length encoded) budget of
                           (Inl e, _) \<Rightarrow> sem_throw e
                         | (Inr _, budget') \<Rightarrow> commit_page env budget' (\<lambda>rt. route_page env rt depth f None encoded)) fl))))"

definition advance_frame :: "('d, 's, 'b) env \<Rightarrow> u32 \<Rightarrow> frame \<Rightarrow> ('d, 's, 'w, 'b, 'x, 'p, advance_outcome) flow_op" where
  "advance_frame env depth f =
     (case frame_phase f of
        Run _ \<Rightarrow>
          sem_bind (if depth = 0 then spend 64 else sem_return ()) (\<lambda>_ fl.
          sem_bind (with_read env (\<lambda>world. rt_input env (flow_runtime fl) world depth f)) (\<lambda>bs.
          sem_bind (spend (length bs)) (\<lambda>_.
          sem_bind (sem_lift (sum_bind (input_codec (flow_runtime fl) f) (\<lambda>codec. map_sum OpCodec id (decode_owned codec bs)))) (\<lambda>input.
          run_frame env depth f input))) fl)
      | Send _ _ \<Rightarrow> sem_bind (spend STEP_BYTES) (\<lambda>_. send_page env depth f))"

text \<open>Errors of a round carry the index of the responsible operation.\<close>

definition blame :: "nat \<Rightarrow> ('t, operation_error, 'a) sem \<Rightarrow> ('t, nat \<times> operation_error, 'a) sem" where
  "blame i m fl = apfst (map_sum (Pair i) id) (m fl)"

text \<open>The root whose page failed is pinned, so that reopening retries it first.\<close>

definition pin_root :: "('d, 's, 'b) env \<Rightarrow> frame \<Rightarrow> ('d, 's, 'w, 'b, 'x, 'p, unit) flow_op" where
  "pin_root env f =
     sem_bind (spend CONTROL_BYTES) (\<lambda>_.
     commit_page env (budget_new 0 0) (\<lambda>rt. in_work (in_txn (frames_put (env_engine env) (env_bincode env) (rt_frames rt) 0 f))))"

definition run_root :: "('d, 's, 'b) env \<Rightarrow> nat \<Rightarrow> bytes \<Rightarrow> ('d, 's, 'w, 'b, 'x, 'p, advance_outcome) flow_op" where
  "run_root env index bs =
     sem_bind (spend (length bs)) (\<lambda>_ fl.
     sem_bind (sem_lift (index_of (rt_nodes (flow_runtime fl)) index)) (\<lambda>node.
     (let f = \<lparr>frame_head = index, frame_port = None, frame_phase = Run (initial_resume (rn_operation node))\<rparr> in
      sem_bind (sem_lift (sum_bind (input_codec (flow_runtime fl) f) (\<lambda>codec. map_sum OpCodec id (decode_owned codec bs)))) (\<lambda>input.
      sem_bind (sem_lift (check_shape (env_arrow env) input 4096 65536)) (\<lambda>_.
      sem_try (run_frame env 0 f input) (\<lambda>result fl'.
        case result of
          Inr outcome \<Rightarrow> (Inr outcome, fl')
        | Inl e \<Rightarrow>
            if is_unwind e \<or> needs_reopen (flow_runtime fl') then (Inl e, fl')
            else sem_bind (pin_root env f) (\<lambda>_. sem_throw e) fl'))))) fl)"

fun next_root ::
  "('d, 's, 'b) env \<Rightarrow> nat \<Rightarrow> nat \<Rightarrow> (('d, 's, 'w, 'b, 'x, 'p) flow, nat \<times> operation_error, nat \<times> advance_outcome) sem" where
  "next_root env 0 index = sem_return (index, Idle)"
| "next_root env (Suc n) index =
     (\<lambda>fl.
        if remaining fl < ROOT_BYTES + 9 * STEP_BYTES + CONTROL_BYTES + 64 then (Inr (index, Idle), fl)
        else
          (let rt = flow_runtime fl in
           case index_of (rt_sources rt) (root_cursor rt) of
             Inl e \<Rightarrow> (Inl (index, e), fl)
           | Inr i \<Rightarrow>
               sem_bind (blame i (spend 64)) (\<lambda>_.
               sem_bind (blame i (sem_lift (index_of (rt_nodes rt) i))) (\<lambda>node.
               case rn_operation node of
                 SourceOp src \<Rightarrow>
                   sem_bind (blame i (with_read env (source_published src))) (\<lambda>value.
                   case value of
                     None \<Rightarrow> next_root env n i
                   | Some bs \<Rightarrow> sem_bind (blame i (run_root env i bs)) (\<lambda>outcome. sem_return (i, outcome)))
               | _ \<Rightarrow> sem_throw (i, Unwind ''source role'')))
               (fl\<lparr>flow_runtime := rt\<lparr>root_cursor := (root_cursor rt + 1) mod length (rt_sources rt)\<rparr>\<rparr>)))"

definition advance_next_root ::
  "('d, 's, 'b) env \<Rightarrow> (('d, 's, 'w, 'b, 'x, 'p) flow, nat \<times> operation_error, nat \<times> advance_outcome) sem" where
  "advance_next_root env fl =
     (let rt = flow_runtime fl in
      case index_of (rt_sources rt) (root_cursor rt) of
        Inl e \<Rightarrow> (Inl (0, e), fl)
      | Inr i \<Rightarrow> next_root env (length (rt_sources rt)) i fl)"

section \<open>Capture and delivery\<close>

definition set_pending ::
  "nat \<Rightarrow> 'x source_delivery option \<Rightarrow> ('s, 'w, 'b, 'x, 'p) runtime \<Rightarrow> ('s, 'w, 'b, 'x, 'p) runtime" where
  "set_pending i d rt = rt\<lparr>rt_nodes := (rt_nodes rt)[i := (rt_nodes rt ! i)\<lparr>rn_pending := d\<rparr>]\<rparr>"

text \<open>\<^verbatim>\<open>record\<close> may change the delivery it is given, also when it fails; the transaction is returned.\<close>

definition record_delivery ::
  "('d, 's, 'b) env \<Rightarrow> nat \<Rightarrow> ('s, 'w, 'x) source_operation \<Rightarrow> 'x source_delivery
   \<Rightarrow> ('d, 's, 'w, 'b, 'x, 'p, bool \<times> 's transaction \<times> 'x source_delivery) flow_op" where
  "record_delivery env i src d fl =
     (case source_record src (flow_world fl) (begin_txn env fl, d) of
        (res, (t, d')) \<Rightarrow>
          (map_sum id (\<lambda>accepted. (accepted, t, d')) res,
           fl\<lparr>flow_runtime := set_pending i (Some d') (flow_runtime fl)\<rparr>))"

definition poll_source :: "nat \<Rightarrow> ('s, 'w, 'x) source_operation \<Rightarrow> ('d, 's, 'w, 'b, 'x, 'p, 'x source_delivery option) flow_op" where
  "poll_source i src fl =
     (case rn_pending (rt_nodes (flow_runtime fl) ! i) of
        Some d \<Rightarrow> (Inr (Some d), fl)
      | None \<Rightarrow>
          sem_bind (or_reopen (in_world (source_poll src))) (\<lambda>d fl'.
          (Inr d, fl'\<lparr>flow_runtime := set_pending i d (flow_runtime fl')\<rparr>)) fl)"

text \<open>An accepted delivery is committed, made durable where the source needs it, and acknowledged.\<close>

definition acknowledge :: "nat \<Rightarrow> ('s, 'w, 'x) source_operation \<Rightarrow> 'x source_delivery \<Rightarrow> ('d, 's, 'w, 'b, 'x, 'p, advance_outcome) flow_op" where
  "acknowledge i src d fl =
     sem_bind (or_reopen (in_world (source_ack src d))) (\<lambda>_. sem_return Progressed)
       (fl\<lparr>flow_runtime := set_pending i None (flow_runtime fl)\<rparr>)"

definition accept_delivery ::
  "('d, 's, 'b) env \<Rightarrow> nat \<Rightarrow> ('s, 'w, 'x) source_operation \<Rightarrow> 's transaction \<Rightarrow> 'x source_delivery
   \<Rightarrow> ('d, 's, 'w, 'b, 'x, 'p, advance_outcome) flow_op" where
  "accept_delivery env i src t d =
     sem_bind (flow_commit env t) (\<lambda>_.
     sem_bind (if requires_ack_barrier d then flow_sync env else sem_return ()) (\<lambda>_.
     acknowledge i src d))"

definition capture :: "('d, 's, 'b) env \<Rightarrow> nat \<Rightarrow> ('d, 's, 'w, 'b, 'x, 'p, advance_outcome) flow_op" where
  "capture env i fl =
     (case index_of (rt_nodes (flow_runtime fl)) i of
        Inl e \<Rightarrow> (Inl e, fl)
      | Inr node \<Rightarrow>
          (case rn_operation node of
             SourceOp src \<Rightarrow>
               sem_bind (poll_source i src) (\<lambda>polled.
               case polled of
                 None \<Rightarrow> sem_return Idle
               | Some delivery \<Rightarrow>
                   sem_bind (record_delivery env i src delivery) (\<lambda>(accepted, t, d).
                   if \<not> accepted then sem_return Backpressured
                   else accept_delivery env i src t d)) fl
           | _ \<Rightarrow> (Inl (Unwind ''source role checked at construction''), fl)))"

text \<open>A sink's method on a transaction, which is then committed.\<close>

definition sink_transaction ::
  "('d, 's, 'b) env \<Rightarrow> ('w \<times> 's transaction, operation_error, unit) sem \<Rightarrow> ('d, 's, 'w, 'b, 'x, 'p, 's transaction) flow_op" where
  "sink_transaction env m fl =
     (case m (flow_world fl, begin_txn env fl) of
        (res, (world, t)) \<Rightarrow> (map_sum id (\<lambda>_. t) res, fl\<lparr>flow_world := world\<rparr>))"

text \<open>The steps of \<open>drain\<close> on a loaded batch: persist its plan, then deliver it and settle it.\<close>

definition initialize_sink :: "('d, 's, 'b) env \<Rightarrow> ('s, 'w, 'b, 'p) sink_operation \<Rightarrow> 'p \<Rightarrow> ('d, 's, 'w, 'b, 'x, 'p, unit) flow_op" where
  "initialize_sink env snk pend =
     sem_bind (or_reopen (in_world (sink_prepare_initialize snk pend))) (\<lambda>initialize.
     if initialize then
       sem_bind (sink_transaction env (\<lambda>(world, t).
           case sink_persist_initialize snk pend world t of (res, t') \<Rightarrow> (res, (world, t')))) (\<lambda>t.
       flow_commit env t)
     else sem_return ())"

definition deliver_pending ::
  "('d, 's, 'b) env \<Rightarrow> ('s, 'w, 'b, 'p) sink_operation \<Rightarrow> 'p \<Rightarrow> ('d, 's, 'w, 'b, 'x, 'p, advance_outcome) flow_op" where
  "deliver_pending env snk pend =
     sem_bind (flow_sync env) (\<lambda>_.
     sem_bind (or_reopen (in_world (sink_deliver snk pend))) (\<lambda>_.
     sem_bind (or_reopen (sink_transaction env (sink_settle snk pend))) (\<lambda>t.
     sem_bind (flow_commit env t) (\<lambda>_. sem_return Progressed))))"

definition drain :: "('d, 's, 'b) env \<Rightarrow> nat \<Rightarrow> ('d, 's, 'w, 'b, 'x, 'p, advance_outcome) flow_op" where
  "drain env i fl =
     (case index_of (rt_nodes (flow_runtime fl)) i of
        Inl e \<Rightarrow> (Inl e, fl)
      | Inr node \<Rightarrow>
          (case rn_operation node of
             SinkOp snk \<Rightarrow>
               sem_bind (\<lambda>fl. case sink_load snk (flow_world fl, snapshot_of env (flow_batch fl)) of
                   (res, (world, _)) \<Rightarrow> (res, fl\<lparr>flow_world := world\<rparr>)) (\<lambda>loaded.
               case loaded of
                 None \<Rightarrow> sem_return Idle
               | Some pend \<Rightarrow>
                   sem_bind (initialize_sink env snk pend) (\<lambda>_. deliver_pending env snk pend)) fl
           | _ \<Rightarrow> (Inl (Unwind ''sink role''), fl)))"

section \<open>One round\<close>

definition allowance :: "(u32 \<times> frame) option \<Rightarrow> nat" where
  "allowance topmost =
     (case topmost of
        None \<Rightarrow> ROOT_BYTES + 9 * STEP_BYTES + CONTROL_BYTES
      | Some (_, f) \<Rightarrow> (case frame_phase f of Run _ \<Rightarrow> ROOT_BYTES + 9 * STEP_BYTES + 64 | Send _ _ \<Rightarrow> STEP_BYTES))"

fun stack_actions ::
  "('d, 's, 'b) env \<Rightarrow> nat \<Rightarrow> nat \<Rightarrow> advance_outcome \<Rightarrow> (('d, 's, 'w, 'b, 'x, 'p) flow, nat \<times> operation_error, advance_outcome) sem" where
  "stack_actions env source 0 outcome = sem_return outcome"
| "stack_actions env source (Suc n) outcome =
     (\<lambda>fl.
        if remaining fl < CONTROL_BYTES then (Inr outcome, fl)
        else
          sem_bind (blame source (spend CONTROL_BYTES)) (\<lambda>_.
          sem_bind (blame source (with_read env (\<lambda>_. op_store (frames_top (env_engine env) (env_bincode env) (rt_frames (flow_runtime fl)))))) (\<lambda>top fl1.
          if remaining fl1 < allowance top then (Inr outcome, fl1)
          else
            sem_bind
              (case top of
                 Some (depth, f) \<Rightarrow> blame (frame_head f) (advance_frame env depth f)
               | None \<Rightarrow> sem_bind (advance_next_root env) (\<lambda>(_, action). sem_return action)) (\<lambda>action.
            if action \<noteq> Progressed then sem_return (join outcome action)
            else stack_actions env source n (join outcome action)) fl1)) fl)"

definition round ::
  "('d, 's, 'b) env \<Rightarrow> (('d, 's, 'w, 'b, 'x, 'p) flow, nat \<times> operation_error, advance_outcome) sem" where
  "round env fl =
     (let rt = flow_runtime fl in
      case index_of (rt_sources rt) (source_cursor rt) of
        Inl e \<Rightarrow> (Inl (0, e), fl)
      | Inr source \<Rightarrow>
          sem_bind (blame source (capture env source)) (\<lambda>outcome fl0.
          sem_bind (stack_actions env source STACK_ACTIONS outcome) (\<lambda>outcome fl2.
            (let rt2 = flow_runtime fl2 in
             case index_of (rt_sinks rt2) (sink_cursor rt2) of
               Inl e \<Rightarrow> (Inl (source, e), fl2)
             | Inr sink \<Rightarrow>
                 sem_bind (blame sink (drain env sink)) (\<lambda>drained. sem_return (join outcome drained))
                   (fl2\<lparr>flow_runtime := rt2\<lparr>sink_cursor := (sink_cursor rt2 + 1) mod length (rt_sinks rt2)\<rparr>\<rparr>)))
            (fl0\<lparr>remaining := STACK_ROUND_BYTES\<rparr>))
          (fl\<lparr>flow_runtime := rt\<lparr>source_cursor := (source_cursor rt + 1) mod length (rt_sources rt)\<rparr>\<rparr>))"

text \<open>An error of \<open>advance\<close>, or a panic that it lets through.\<close>

datatype run_failure = FlowRunError bytes operation_error bool | Panic string

definition FLOW_ID :: bytes where
  "FLOW_ID = map (\<lambda>c. of_nat (of_char c)) ''flow''"

definition set_reopen :: "('d, 's, 'w, 'b, 'x, 'p) flow \<Rightarrow> ('d, 's, 'w, 'b, 'x, 'p) flow" where
  "set_reopen fl = fl\<lparr>flow_runtime := (flow_runtime fl)\<lparr>needs_reopen := True\<rparr>\<rparr>"

definition advance ::
  "('d, 's, 'b) env \<Rightarrow> (('d, 's, 'w, 'b, 'x, 'p) flow, run_failure, advance_outcome) sem" where
  "advance env fl =
     (if needs_reopen (flow_runtime fl) then (Inl (FlowRunError FLOW_ID (Message ''flow must be reopened'') True), fl)
      else
        (case round env (fl\<lparr>flow_batch := durability_batch (batch_database (flow_batch fl))\<rparr>) of
           (Inl (_, Unwind m), fl1) \<Rightarrow> (Inl (Panic m), set_reopen fl1)
         | (result, fl1) \<Rightarrow>
             (case batch_finish (env_database env) (flow_batch fl1) of
                (Inl e, b) \<Rightarrow> (Inl (FlowRunError FLOW_ID (OpStore e) True), set_reopen (fl1\<lparr>flow_batch := b\<rparr>))
              | (Inr _, b) \<Rightarrow>
                  (case result of
                     Inr outcome \<Rightarrow> (Inr outcome, fl1\<lparr>flow_batch := b\<rparr>)
                   | Inl (i, e) \<Rightarrow>
                       (Inl (FlowRunError (rn_id (rt_nodes (flow_runtime fl1) ! i)) e (needs_reopen (flow_runtime fl1))),
                        fl1\<lparr>flow_batch := b\<rparr>)))))"

end
