(* ===== verification/Flow_Stack.thy ===== *)
theory Flow_Stack
  imports Flow_Advance
begin

text \<open>
  The durable call stack as a list. \<open>stack_rep\<close> relates the contents of the two maps of
  \<^verbatim>\<open>Frames\<close> to a list of frames, each with its pending output; \<open>stack_ok\<close> says that the list is a
  chain of calls of the resolved topology. The rules here say what each access does to the contents,
  and how a page changes the list: it pops the top, returns it to its computation, moves it along its
  consumers, or pushes the frame of a child.

  \<open>runtime_ok\<close> collects what the construction of a runtime establishes. From it and the theorems on
  the topology follow the facts that make the source's \<^verbatim>\<open>expect\<close> and \<^verbatim>\<open>unreachable!\<close> calls safe.
\<close>

section \<open>Contents of the frame maps\<close>

abbreviation control_key :: "frames \<Rightarrow> u32 \<Rightarrow> bytes" where
  "control_key F d \<equiv> data_prefix (data_id (controls F)) @ u32_to_be d"

abbreviation output_key :: "frames \<Rightarrow> u32 \<Rightarrow> bytes" where
  "output_key F d \<equiv> data_prefix (data_id (outputs F)) @ u32_to_be d"

definition flow_key :: "frames \<Rightarrow> bytes \<Rightarrow> bool" where
  "flow_key F k \<longleftrightarrow> (\<exists>r. k = data_prefix (data_id (controls F)) @ r \<or> k = data_prefix (data_id (outputs F)) @ r)"

definition stack_rep :: "bincode \<Rightarrow> frames \<Rightarrow> (bytes \<rightharpoonup> bytes) \<Rightarrow> (frame \<times> bytes option) list \<Rightarrow> bool" where
  "stack_rep BC F m stk \<longleftrightarrow>
     (\<forall>d :: u32. unat d < length stk \<longrightarrow>
        (\<exists>enc. encode_frame BC (fst (stk ! unat d)) = Inr enc \<and> m (control_key F d) = Some enc)) \<and>
     (\<forall>d :: u32. length stk \<le> unat d \<longrightarrow> m (control_key F d) = None) \<and>
     (\<forall>d :: u32. m (output_key F d) = (if unat d < length stk then snd (stk ! unat d) else None)) \<and>
     (\<forall>r. m (data_prefix (data_id (controls F)) @ r) \<noteq> None \<longrightarrow> length r = 4)"

lemma prefix_append_eq [simp]: "data_prefix i @ a = data_prefix j @ b \<longleftrightarrow> i = j \<and> a = b"
  using physical_key_inject by (simp add: physical_key_def)

lemma stack_rep_cong:
  assumes "\<And>k. flow_key F k \<Longrightarrow> m k = m' k"
  shows "stack_rep BC F m stk \<longleftrightarrow> stack_rep BC F m' stk"
proof -
  have "m (data_prefix (data_id (controls F)) @ r) = m' (data_prefix (data_id (controls F)) @ r)"
      "m (data_prefix (data_id (outputs F)) @ r) = m' (data_prefix (data_id (outputs F)) @ r)" for r
    by (rule assms, auto simp: flow_key_def)+
  then show ?thesis by (simp add: stack_rep_def)
qed

lemma stack_rep_control:
  assumes "stack_rep BC F m stk" "unat d < length stk"
  obtains enc where "encode_frame BC (fst (stk ! unat d)) = Inr enc" "m (control_key F d) = Some enc"
  using assms by (auto simp: stack_rep_def)

lemma unat_word_of_depth: "n < 2 ^ 32 \<Longrightarrow> unat (word_of_nat n :: u32) = n"
  by (simp add: unat_of_nat)

text \<open>Writing the slot above a prefix of the stack, or clearing it.\<close>

lemma stack_rep_set:
  assumes ids: "data_id (controls F) \<noteq> data_id (outputs F)" and rep: "stack_rep BC F m (pre @ x)" and x: "length x \<le> 1"
    and d: "unat d = length pre" and enc: "encode_frame BC f = Inr enc"
  shows "stack_rep BC F (m(output_key F d := out, control_key F d \<mapsto> enc)) (pre @ [(f, out)])"
proof -
  have other: "e \<noteq> d \<longleftrightarrow> unat e \<noteq> length pre" for e :: u32
    using d by (metis word_unat_eq_iff)
  have low: "unat e < length pre \<Longrightarrow> (pre @ x) ! unat e = pre ! unat e \<and> (pre @ [(f, out)]) ! unat e = pre ! unat e" for e :: u32
    by (simp add: nth_append)
  show ?thesis
    unfolding stack_rep_def
  proof (intro conjI allI impI)
    fix e :: u32
    assume e: "unat e < length (pre @ [(f, out)])"
    show "\<exists>enc'. encode_frame BC (fst ((pre @ [(f, out)]) ! unat e)) = Inr enc' \<and>
        (m(output_key F d := out, control_key F d \<mapsto> enc)) (control_key F e) = Some enc'"
    proof (cases "e = d")
      case False
      then have pre: "unat e < length pre" using e other [of e] by simp
      then obtain enc' where "encode_frame BC (fst (pre ! unat e)) = Inr enc'" "m (control_key F e) = Some enc'"
        using stack_rep_control [OF rep, of e] low by auto
      then show ?thesis using low [OF pre] False ids by simp
    qed (use enc d in simp)
  next
    fix e :: u32
    assume e: "length (pre @ [(f, out)]) \<le> unat e"
    then have "e \<noteq> d" "length (pre @ x) \<le> unat e" using d x by auto
    then show "(m(output_key F d := out, control_key F d \<mapsto> enc)) (control_key F e) = None"
      using rep ids by (auto simp: stack_rep_def)
  next
    fix e :: u32
    show "(m(output_key F d := out, control_key F d \<mapsto> enc)) (output_key F e) =
        (if unat e < length (pre @ [(f, out)]) then snd ((pre @ [(f, out)]) ! unat e) else None)"
    proof (cases "e = d")
      case False
      then have "unat e < length (pre @ [(f, out)]) \<longleftrightarrow> unat e < length pre" "length (pre @ x) \<le> unat e \<or> unat e < length pre"
        using other [of e] x by auto
      then show ?thesis using rep low [of e] False ids by (auto simp: stack_rep_def)
    qed (use d ids in simp)
  next
    fix r
    assume "(m(output_key F d := out, control_key F d \<mapsto> enc)) (data_prefix (data_id (controls F)) @ r) \<noteq> None"
    then show "length r = 4" using rep ids by (auto simp: stack_rep_def split: if_splits)
  qed
qed

lemma stack_rep_clear:
  assumes ids: "data_id (controls F) \<noteq> data_id (outputs F)" and rep: "stack_rep BC F m (pre @ x)" and x: "length x \<le> 1"
    and d: "unat d = length pre"
  shows "stack_rep BC F (m(control_key F d := None, output_key F d := None)) pre"
proof -
  have other: "e \<noteq> d \<longleftrightarrow> unat e \<noteq> length pre" for e :: u32
    using d by (metis word_unat_eq_iff)
  have low: "unat e < length pre \<Longrightarrow> (pre @ x) ! unat e = pre ! unat e" for e :: u32
    by (simp add: nth_append)
  have high: "length (pre @ x) \<le> unat e" if "length pre \<le> unat e" "e \<noteq> d" for e :: u32
    using that other [of e] x by simp
  show ?thesis
    unfolding stack_rep_def
  proof (intro conjI allI impI)
    fix e :: u32
    assume e: "unat e < length pre"
    then obtain enc where "encode_frame BC (fst (pre ! unat e)) = Inr enc" "m (control_key F e) = Some enc"
      using stack_rep_control [OF rep, of e] low by auto
    then show "\<exists>enc. encode_frame BC (fst (pre ! unat e)) = Inr enc \<and>
        (m(control_key F d := None, output_key F d := None)) (control_key F e) = Some enc"
      using e other [of e] ids by auto
  next
    fix e :: u32
    assume "length pre \<le> unat e"
    then show "(m(control_key F d := None, output_key F d := None)) (control_key F e) = None"
      using rep high [of e] ids by (cases "e = d") (auto simp: stack_rep_def)
  next
    fix e :: u32
    show "(m(control_key F d := None, output_key F d := None)) (output_key F e) =
        (if unat e < length pre then snd (pre ! unat e) else None)"
      using rep low [of e] high [of e] d ids by (cases "e = d") (auto simp: stack_rep_def)
  next
    fix r
    assume "(m(control_key F d := None, output_key F d := None)) (data_prefix (data_id (controls F)) @ r) \<noteq> None"
    then show "length r = 4" using rep ids by (auto simp: stack_rep_def split: if_splits)
  qed
qed

text \<open>A child is pushed with no output: the slot above the stack has none.\<close>

lemma stack_rep_push:
  assumes ids: "data_id (controls F) \<noteq> data_id (outputs F)" and rep: "stack_rep BC F m stk"
    and d: "unat d = length stk" and enc: "encode_frame BC f = Inr enc"
  shows "stack_rep BC F (m(control_key F d \<mapsto> enc)) (stk @ [(f, None)])"
proof -
  have "m (output_key F d) = None" using rep d by (simp add: stack_rep_def)
  then have "m(control_key F d \<mapsto> enc) = m(output_key F d := None, control_key F d \<mapsto> enc)"
    by (auto simp: fun_upd_idem)
  then show ?thesis using stack_rep_set [OF ids, of BC m stk "[]" d f enc None] rep d enc by simp
qed

section \<open>Accesses\<close>

text \<open>
  \<open>txn_at V F base t m\<close>: the transaction \<open>t\<close> sees the contents \<open>m\<close> under the flow's own keys, and still
  sees the contents \<open>base\<close> it began with if it has written nothing.
\<close>

definition txn_at :: "('s \<Rightarrow> (bytes \<rightharpoonup> bytes)) \<Rightarrow> frames \<Rightarrow> (bytes \<rightharpoonup> bytes) \<Rightarrow> 's transaction \<Rightarrow> (bytes \<rightharpoonup> bytes) \<Rightarrow> bool" where
  "txn_at V F base t m \<longleftrightarrow>
     (\<forall>k. flow_key F k \<longrightarrow> V (inner t) k = m k) \<and> (\<not> has_writes t \<longrightarrow> V (inner t) = base)"

text \<open>What a computation of an operation promises: its writes are recorded, and are not the flow's.\<close>

definition txn_keeps :: "('s \<Rightarrow> (bytes \<rightharpoonup> bytes)) \<Rightarrow> frames \<Rightarrow> 's transaction \<Rightarrow> 's transaction \<Rightarrow> bool" where
  "txn_keeps V F t t' \<longleftrightarrow>
     (has_writes t \<longrightarrow> has_writes t') \<and> (\<not> has_writes t' \<longrightarrow> inner t' = inner t) \<and>
     (\<forall>k. flow_key F k \<longrightarrow> V (inner t') k = V (inner t) k)"

lemma txn_at_keeps: "txn_at V F base t m \<Longrightarrow> txn_keeps V F t t' \<Longrightarrow> txn_at V F base t' m"
  by (auto simp: txn_at_def txn_keeps_def)

lemma txn_at_write:
  assumes "txn_at V F base t m" "V s = (V (inner t))(k := v)"
  shows "txn_at V F base (t\<lparr>inner := s, has_writes := True\<rparr>) (m(k := v))"
  using assms by (auto simp: txn_at_def)

lemma is_unwind_boxed [simp]: "is_unwind (boxed e) \<longleftrightarrow> (\<exists>m. e = Panicked m)"
  by (cases e) (auto simp: boxed_def)

lemma wp_op_store [simp]: "wp (op_store m) Q R t = wp m Q (\<lambda>e. R (boxed e)) t"
  by (simp add: wp_def op_store_def split: prod.split sum.split)

lemmas access_simps = bind_access_def bind_read_def ref_ensure_access_def as_read_def sem_bind_def
  ref_ensure_healthy_def sem_return_def u32_key_def physical_key_def

abbreviation calm :: "operation_error \<Rightarrow> 't \<Rightarrow> bool" where
  "calm e t \<equiv> \<not> is_unwind e"

lemma wp_bind_access:
  assumes "Q (data_prefix (data_id h)) t" "\<And>e t'. \<not> is_unwind (boxed e) \<Longrightarrow> R e t'"
  shows "wp (bind_access h) Q R t"
  using assms by (auto simp: wp_def access_simps)

lemma wp_bind_read:
  assumes "Q (data_prefix (data_id h)) r" "\<And>e r'. \<not> is_unwind (boxed e) \<Longrightarrow> R e r'"
  shows "wp (bind_read h) Q R r"
  using assms by (auto simp: wp_def access_simps)

lemma wp_data_put_any:
  assumes "engine_laws E V" "\<And>s. V s = (V (inner t))(p @ k \<mapsto> v) \<Longrightarrow> Q () (t\<lparr>inner := s, has_writes := True\<rparr>)"
    and "\<And>e t'. \<not> is_unwind (boxed e) \<Longrightarrow> R e t'"
  shows "wp (data_put E p k v) Q R t"
proof (cases "poisoned t")
  case True
  then show ?thesis using assms(3) by (simp add: data_put_def)
next
  case False
  then show ?thesis by (rule wp_data_put [OF assms(1)]) (use assms(2,3) in auto)
qed

lemma wp_map_put_any:
  assumes "engine_laws E V"
    and "\<And>bs s. encode_value CV v = Inr bs \<Longrightarrow> V s = (V (inner t))(p @ u32_to_be d \<mapsto> bs) \<Longrightarrow> Q () (t\<lparr>inner := s, has_writes := True\<rparr>)"
    and "\<And>e t'. \<not> is_unwind (boxed e) \<Longrightarrow> R e t'"
  shows "wp (map_put E u32_key CV p d v) Q R t"
  by (cases "encode_value CV v")
    (auto simp: map_put_def u32_key_def intro!: wp_data_put_any [OF assms(1)] assms(2,3))

lemma wp_map_remove_any:
  assumes "engine_laws E V"
    and "V (inner t) (p @ u32_to_be d) = None \<Longrightarrow> Q False t"
    and "\<And>s. V s = (V (inner t))(p @ u32_to_be d := None) \<Longrightarrow> Q True (t\<lparr>inner := s, has_writes := True\<rparr>)"
    and "\<And>e t'. \<not> is_unwind (boxed e) \<Longrightarrow> R e t'"
  shows "wp (map_remove E u32_key p d) Q R t"
proof (cases "poisoned t")
  case True
  then show ?thesis
    using assms(4) by (simp add: map_remove_def u32_key_def data_delete_def contains_key_def value_len_def ref_value_len_def)
next
  case False
  then show ?thesis
    by (rule wp_map_remove [OF assms(1)]) (use assms(2-4) in \<open>auto simp: u32_key_def\<close>)
qed

lemma wp_frames_put [wp_intros]:
  assumes "engine_laws E V" "txn_at V F base t m"
    and "\<And>enc t'. encode_frame BC f = Inr enc \<Longrightarrow> txn_at V F base t' (m(control_key F d \<mapsto> enc)) \<Longrightarrow> Q () t'"
    and "\<And>e t'. \<not> is_unwind e \<Longrightarrow> R e t'"
  shows "wp (frames_put E BC F d f) Q R t"
  unfolding frames_put_def wp_op_store wp_bind
  by (intro wp_bind_access wp_map_put_any [OF assms(1)])
    (auto simp: frame_value_def intro!: assms(3,4) txn_at_write [OF assms(2)])

lemma wp_outputs_put [wp_intros]:
  assumes "engine_laws E V" "txn_at V F base t m"
    and "\<And>t'. txn_at V F base t' (m(output_key F d \<mapsto> bs)) \<Longrightarrow> Q () t'"
    and "\<And>e t'. \<not> is_unwind e \<Longrightarrow> R e t'"
  shows "wp (outputs_put E F d bs) Q R t"
  unfolding outputs_put_def wp_op_store wp_bind
  by (intro wp_bind_access wp_map_put_any [OF assms(1)])
    (auto simp: vec_value_def intro!: assms(3,4) txn_at_write [OF assms(2)])

lemma txn_at_idem: "txn_at V F base t m \<Longrightarrow> flow_key F k \<Longrightarrow> V (inner t) k = v \<Longrightarrow> txn_at V F base t (m(k := v))"
  by (auto simp: txn_at_def)

lemma flow_key_simps [simp]: "flow_key F (control_key F d)" "flow_key F (output_key F d)"
  by (auto simp: flow_key_def)

lemma wp_outputs_remove [wp_intros]:
  assumes "engine_laws E V" "txn_at V F base t m"
    and "\<And>b t'. txn_at V F base t' (m(output_key F d := None)) \<Longrightarrow> Q b t'"
    and "\<And>e t'. \<not> is_unwind e \<Longrightarrow> R e t'"
  shows "wp (outputs_remove E F d) Q R t"
  unfolding outputs_remove_def wp_op_store wp_bind
  by (intro wp_bind_access wp_map_remove_any [OF assms(1)])
    (auto intro!: assms(3,4) txn_at_write [OF assms(2)] txn_at_idem [OF assms(2)])

lemma wp_frames_pop [wp_intros]:
  assumes "engine_laws E V" "txn_at V F base t m"
    and "\<And>t'. txn_at V F base t' (m(control_key F d := None, output_key F d := None)) \<Longrightarrow> Q () t'"
    and "\<And>e t'. \<not> is_unwind e \<Longrightarrow> R e t'"
  shows "wp (frames_pop E F d) Q R t"
  unfolding frames_pop_def wp_op_store wp_bind wp_return
  by (intro wp_bind_access wp_map_remove_any [OF assms(1)])
    (auto intro!: assms(3,4) txn_at_write [OF assms(2)] txn_at_idem [OF assms(2)] wp_outputs_remove [OF assms(1), where base = base])

section \<open>A constructed runtime\<close>

fun kind_of :: "('s, 'w, 'b, 'x, 'p) operation \<Rightarrow> op_kind" where
  "kind_of (AtomicOp _) = Atomic"
| "kind_of (PagedOp _) = Paged"
| "kind_of (SourceOp _) = Source"
| "kind_of (SinkOp _) = Sink"

text \<open>The graph that \<open>resolve\<close> sees.\<close>

definition rt_shape :: "('s, 'w, 'b, 'x, 'p) runtime \<Rightarrow> node_shape list" where
  "rt_shape rt =
     map (\<lambda>n. \<lparr>node_id = rn_id n, node_inputs = rn_inputs n, node_kind = kind_of (rn_operation n)\<rparr>) (rt_nodes rt)"

definition runtime_ok :: "('s, 'w, 'b, 'x, 'p) runtime \<Rightarrow> bool" where
  "runtime_ok rt \<longleftrightarrow>
     graph_ok (rt_shape rt) \<and> resolve (rt_shape rt) = Inr (rt_topology rt) \<and>
     (\<forall>node \<in> set (rt_nodes rt). is_source (rn_operation node) \<longrightarrow> rn_inputs node = [] \<and> rn_codec node \<noteq> None) \<and>
     (\<forall>h < length (rt_nodes rt). heads (rt_topology rt) ! h \<and> \<not> is_sink (rn_operation (rt_nodes rt ! h)) \<longrightarrow>
        rn_codec (rt_nodes rt ! chain_last (tails (rt_topology rt)) h) \<noteq> None) \<and>
     (\<forall>i \<in> set (rt_sources rt). i < length (rt_nodes rt) \<and> is_source (rn_operation (rt_nodes rt ! i))) \<and>
     (\<forall>i \<in> set (rt_sinks rt). i < length (rt_nodes rt) \<and> is_sink (rn_operation (rt_nodes rt ! i))) \<and>
     source_cursor rt < length (rt_sources rt) \<and> root_cursor rt < length (rt_sources rt) \<and>
     sink_cursor rt < length (rt_sinks rt) \<and>
     data_id (controls (rt_frames rt)) \<noteq> data_id (outputs (rt_frames rt))"

lemma kind_of_iff [simp]:
  "kind_of op = Source \<longleftrightarrow> is_source op" "kind_of op = Sink \<longleftrightarrow> is_sink op" "kind_of op = Atomic \<longleftrightarrow> (\<exists>a. op = AtomicOp a)"
  by (cases op; simp)+

lemma is_source_iff: "is_source op \<longleftrightarrow> (\<exists>src. op = SourceOp src)"
  by (cases op) auto

lemma is_sink_iff: "is_sink op \<longleftrightarrow> (\<exists>snk. op = SinkOp snk)"
  by (cases op) auto

lemma rt_shape_simps [simp]:
  "length (rt_shape rt) = length (rt_nodes rt)"
  "i < length (rt_nodes rt) \<Longrightarrow> node_inputs (rt_shape rt ! i) = rn_inputs (rt_nodes rt ! i)"
  "i < length (rt_nodes rt) \<Longrightarrow> node_kind (rt_shape rt ! i) = kind_of (rn_operation (rt_nodes rt ! i))"
  by (simp_all add: rt_shape_def)

text \<open>What resolution gives the scheduler.\<close>

lemma runtime_resolved:
  assumes "runtime_ok rt"
  obtains cs ho where "\<forall>p < length (rt_nodes rt). cs ! p = edges (rt_shape rt) p"
    "fused_to cs (rt_shape rt) (length (rt_nodes rt)) (tails (rt_topology rt), heads (rt_topology rt), ho)"
    "consumers (rt_topology rt) = map (\<lambda>i. cs ! chain_last (tails (rt_topology rt)) i) [0..<length (rt_nodes rt)]"
  using assms resolve_parts [of "rt_shape rt" "rt_topology rt"] unfolding runtime_ok_def by (metis rt_shape_simps(1))

lemma runtime_lengths:
  assumes "runtime_ok rt"
  shows "length (tails (rt_topology rt)) = length (rt_nodes rt)" "length (heads (rt_topology rt)) = length (rt_nodes rt)"
    "length (consumers (rt_topology rt)) = length (rt_nodes rt)"
  by (rule runtime_resolved [OF assms]; simp add: fused_to_def)+

lemma runtime_consumer:
  assumes ok: "runtime_ok rt" and h: "h < length (rt_nodes rt)" "heads (rt_topology rt) ! h"
    and c: "c \<in> set (consumers (rt_topology rt) ! h)"
  shows "consumer_operation c < length (rt_nodes rt)" "heads (rt_topology rt) ! consumer_operation c"
    "consumer_port c < length (rn_inputs (rt_nodes rt ! consumer_operation c))"
    "rn_inputs (rt_nodes rt ! consumer_operation c) ! consumer_port c = chain_last (tails (rt_topology rt)) h"
    "\<not> is_source (rn_operation (rt_nodes rt ! consumer_operation c))"
proof -
  obtain cs ho where *: "\<forall>p < length (rt_nodes rt). cs ! p = edges (rt_shape rt) p"
    "fused_to cs (rt_shape rt) (length (rt_nodes rt)) (tails (rt_topology rt), heads (rt_topology rt), ho)"
    "consumers (rt_topology rt) = map (\<lambda>i. cs ! chain_last (tails (rt_topology rt)) i) [0..<length (rt_nodes rt)]"
    by (rule runtime_resolved [OF ok])
  have graph: "graph_ok (rt_shape rt)" using ok by (simp add: runtime_ok_def)
  have "c \<in> set (cs ! chain_last (tails (rt_topology rt)) h)" using c h *(3) by simp
  note cc = chain_consumers [of "rt_shape rt" cs "tails (rt_topology rt)" "heads (rt_topology rt)" ho h, simplified, OF *(1) graph *(2) h this]
  show 1: "consumer_operation c < length (rt_nodes rt)" "heads (rt_topology rt) ! consumer_operation c"
    using cc(3,4) by simp_all
  show 2: "consumer_port c < length (rn_inputs (rt_nodes rt ! consumer_operation c))"
    "rn_inputs (rt_nodes rt ! consumer_operation c) ! consumer_port c = chain_last (tails (rt_topology rt)) h"
    using cc(5,6) 1 by simp_all
  show "\<not> is_source (rn_operation (rt_nodes rt ! consumer_operation c))"
    using ok 1 2 by (auto simp: runtime_ok_def dest: nth_mem)
qed

lemma runtime_tail:
  assumes ok: "runtime_ok rt" and "h < length (rt_nodes rt)" "t \<in> set (tails (rt_topology rt) ! h)"
  shows "t < length (rt_nodes rt)" "\<exists>a. rn_operation (rt_nodes rt ! t) = AtomicOp a"
proof -
  obtain cs ho where *: "fused_to cs (rt_shape rt) (length (rt_nodes rt)) (tails (rt_topology rt), heads (rt_topology rt), ho)"
    by (rule runtime_resolved [OF ok])
  then show t: "t < length (rt_nodes rt)" using assms by (auto simp: fused_to_def)
  have "ho ! t \<noteq> t" using * assms by (auto simp: fused_to_def)
  then have "fuses cs (rt_shape rt ! t)" using * t by (auto simp: fused_to_def)
  then show "\<exists>a. rn_operation (rt_nodes rt ! t) = AtomicOp a" using t by (simp add: fuses_def)
qed

lemma runtime_source_head:
  assumes ok: "runtime_ok rt" and "i < length (rt_nodes rt)" "is_source (rn_operation (rt_nodes rt ! i))"
  shows "heads (rt_topology rt) ! i"
proof -
  obtain cs ho where *: "fused_to cs (rt_shape rt) (length (rt_nodes rt)) (tails (rt_topology rt), heads (rt_topology rt), ho)"
    by (rule runtime_resolved [OF ok])
  have "\<not> fuses cs (rt_shape rt ! i)" using assms by (auto simp: fuses_def is_source_iff)
  then show ?thesis using * assms(2) by (auto simp: fused_to_def)
qed

lemma chain_last_in_nodes:
  assumes ok: "runtime_ok rt" and "h < length (rt_nodes rt)"
  shows "chain_last (tails (rt_topology rt)) h < length (rt_nodes rt)"
  using runtime_tail(1) [OF ok assms(2)] assms(2) by (simp add: chain_last_def)

lemma output_codec_ok:
  assumes ok: "runtime_ok rt" and h: "h < length (rt_nodes rt)" "heads (rt_topology rt) ! h" "\<not> is_sink (rn_operation (rt_nodes rt ! h))"
  obtains codec where "output_codec rt h = Inr codec"
    "rn_codec (rt_nodes rt ! chain_last (tails (rt_topology rt)) h) = Some codec"
proof -
  obtain codec where "rn_codec (rt_nodes rt ! chain_last (tails (rt_topology rt)) h) = Some codec"
    using ok h by (auto simp: runtime_ok_def)
  then show thesis
    using that chain_last_in_nodes [OF ok h(1)] runtime_lengths [OF ok] h(1)
    by (simp add: output_codec_def index_of_def sum_bind_def expect_codec_def chain_last_def)
qed

section \<open>Well-formed call stacks\<close>

definition frame_ok :: "('s, 'w, 'b, 'x, 'p) runtime \<Rightarrow> nat \<Rightarrow> frame \<times> bytes option \<Rightarrow> bool" where
  "frame_ok rt i e \<longleftrightarrow>
     (case e of (f, out) \<Rightarrow>
        frame_head f < length (rt_nodes rt) \<and> heads (rt_topology rt) ! frame_head f \<and>
        \<not> is_sink (rn_operation (rt_nodes rt ! frame_head f)) \<and>
        port_ok i (rt_nodes rt ! frame_head f) (frame_port f) \<and>
        (case frame_phase f of
           Run _ \<Rightarrow> out = None
         | Send n _ \<Rightarrow> n \<le> length (consumers (rt_topology rt) ! frame_head f) \<and> out \<noteq> None))"

definition stack_ok :: "('s, 'w, 'b, 'x, 'p) runtime \<Rightarrow> (frame \<times> bytes option) list \<Rightarrow> bool" where
  "stack_ok rt stk \<longleftrightarrow>
     (\<forall>i < length stk. frame_ok rt i (stk ! i)) \<and>
     successively (\<lambda>a b. check_parent (rt_topology rt) (fst a) (fst b) = Inr ()) stk"

lemma stack_ok_Nil [simp]: "stack_ok rt []"
  by (simp add: stack_ok_def)

lemma stack_ok_snoc:
  "stack_ok rt (pre @ [e]) \<longleftrightarrow> stack_ok rt pre \<and> frame_ok rt (length pre) e \<and>
     (pre \<noteq> [] \<longrightarrow> check_parent (rt_topology rt) (fst (last pre)) (fst e) = Inr ())"
  by (auto simp: stack_ok_def successively_append_iff nth_append less_Suc_eq split: if_splits)

lemma check_parent_iff:
  assumes "frame_head a < length (consumers topo)"
  shows "check_parent topo a b = Inr () \<longleftrightarrow>
    (\<exists>n aft. frame_phase a = Send (Suc n) aft \<and> n < length (consumers topo ! frame_head a) \<and>
       consumer_operation (consumers topo ! frame_head a ! n) = frame_head b \<and>
       frame_port b = Some (consumer_port (consumers topo ! frame_head a ! n)))"
proof (cases "frame_phase a")
  case (Send n aft)
  then show ?thesis
    using assms by (cases n) (auto simp: check_parent_def index_of_def sum_bind_def Let_def)
qed (simp add: check_parent_def)

text \<open>The phase of the top frame may change without touching its link to its parent.\<close>

lemma check_parent_same:
  "frame_head b' = frame_head b \<Longrightarrow> frame_port b' = frame_port b \<Longrightarrow> check_parent topo a b' = check_parent topo a b"
  unfolding check_parent_def by (simp only:)

lemma stack_ok_member: "stack_ok rt stk \<Longrightarrow> e \<in> set stk \<Longrightarrow> \<exists>i. frame_ok rt i e"
  by (auto simp: stack_ok_def in_set_conv_nth)

lemma stack_ok_head:
  assumes "stack_ok rt stk" "e \<in> set stk"
  shows "frame_head (fst e) < length (rt_nodes rt)" "heads (rt_topology rt) ! frame_head (fst e)"
    "\<not> is_sink (rn_operation (rt_nodes rt ! frame_head (fst e)))"
  using stack_ok_member [OF assms] by (cases e; auto simp: frame_ok_def)+

lemma stack_calls:
  assumes ok: "runtime_ok rt" and stk: "stack_ok rt stk"
  shows "successively (calls (rt_topology rt)) (map (frame_head \<circ> fst) stk)"
proof -
  have "successively (\<lambda>a b. calls (rt_topology rt) (frame_head (fst a)) (frame_head (fst b))) stk"
  proof (rule successively_mono)
    show "successively (\<lambda>a b. check_parent (rt_topology rt) (fst a) (fst b) = Inr ()) stk"
      using stk by (simp add: stack_ok_def)
    fix a b
    assume "a \<in> set stk" "b \<in> set stk" and parent: "check_parent (rt_topology rt) (fst a) (fst b) = Inr ()"
    then have h: "frame_head (fst a) < length (consumers (rt_topology rt))"
      using stack_ok_head(1) [OF stk] runtime_lengths [OF ok] by simp
    with parent show "calls (rt_topology rt) (frame_head (fst a)) (frame_head (fst b))"
      unfolding check_parent_iff [OF h] calls_def by (auto dest: nth_mem)
  qed
  then show ?thesis by (simp add: successively_map)
qed

lemma stack_depth:
  assumes ok: "runtime_ok rt" and stk: "stack_ok rt stk"
  shows "length stk \<le> MAX_DEPTH"
proof -
  let ?path = "map (frame_head \<circ> fst) stk"
  have node: "a < length (rt_shape rt) \<and> heads (rt_topology rt) ! a \<and> node_kind (rt_shape rt ! a) \<noteq> Sink" if "a \<in> set ?path" for a
    using that stack_ok_head [OF stk] by auto
  obtain depth :: "nat list" where
    d: "\<And>a. a < length (rt_shape rt) \<Longrightarrow> heads (rt_topology rt) ! a \<Longrightarrow> node_kind (rt_shape rt ! a) \<noteq> Sink \<Longrightarrow>
         0 < depth ! a \<and> depth ! a \<le> MAX_DEPTH"
      "\<And>a b. a < length (rt_shape rt) \<Longrightarrow> heads (rt_topology rt) ! a \<Longrightarrow> calls (rt_topology rt) a b \<Longrightarrow>
         node_kind (rt_shape rt ! b) \<noteq> Sink \<Longrightarrow> depth ! a < depth ! b"
    using calls_depth [of "rt_shape rt" "rt_topology rt"] ok by (auto simp: runtime_ok_def)
  have "successively (\<lambda>a b. depth ! a < depth ! b) ?path"
    by (rule successively_mono [OF stack_calls [OF ok stk]]) (use node d(2) in blast)
  then have "length ?path \<le> MAX_DEPTH" by (rule increasing_path_length) (use node d(1) in blast)
  then show ?thesis by simp
qed

lemma input_codec_ok:
  assumes ok: "runtime_ok rt" and stk: "stack_ok rt (pre @ [(f, out)])"
  obtains codec where "input_codec rt f = Inr codec"
proof (cases pre rule: rev_cases)
  case Nil
  then have "frame_port f = None" "frame_head f < length (rt_nodes rt)" "is_source (rn_operation (rt_nodes rt ! frame_head f))"
    using stk by (auto simp: stack_ok_def frame_ok_def port_ok_def split: option.splits)
  moreover from this obtain codec where "rn_codec (rt_nodes rt ! frame_head f) = Some codec"
    using ok by (auto simp: runtime_ok_def)
  ultimately show thesis
    using that by (simp add: input_codec_def sum_bind_def index_of_def expect_codec_def)
next
  case (snoc ys parent)
  obtain pf pout where parent: "parent = (pf, pout)" by (cases parent)
  have fs: "frame_ok rt (length ys) (pf, pout)" "frame_ok rt (Suc (length ys)) (f, out)"
      "check_parent (rt_topology rt) pf f = Inr ()"
    using stk snoc parent stack_ok_snoc [of rt "ys @ [parent]" "(f, out)"] stack_ok_snoc [of rt ys parent] by auto
  let ?h = "frame_head pf"
  have h: "?h < length (rt_nodes rt)" "heads (rt_topology rt) ! ?h" "\<not> is_sink (rn_operation (rt_nodes rt ! ?h))"
    using fs(1) by (auto simp: frame_ok_def)
  then obtain n aft where n: "n < length (consumers (rt_topology rt) ! ?h)"
      "consumer_operation (consumers (rt_topology rt) ! ?h ! n) = frame_head f"
      "frame_port f = Some (consumer_port (consumers (rt_topology rt) ! ?h ! n))"
    using fs(3) check_parent_iff [of pf "rt_topology rt" f] runtime_lengths [OF ok] by auto
  note c = runtime_consumer [OF ok h(1,2) nth_mem [OF n(1)], unfolded n(2)]
  obtain codec where "rn_codec (rt_nodes rt ! chain_last (tails (rt_topology rt)) ?h) = Some codec"
    using output_codec_ok [OF ok h] by blast
  then have "input_codec rt f = Inr codec"
    using n(3) c chain_last_in_nodes [OF ok h(1)]
    by (simp add: input_codec_def sum_bind_def index_of_def expect_codec_def)
  then show thesis by (rule that)
qed

section \<open>Reading the top\<close>

lemma sorted_last_ge: "sorted xs \<Longrightarrow> x \<in> set xs \<Longrightarrow> x \<le> last xs"
  by (induction xs) auto

lemma encode_frame_length: "encode_frame BC f = Inr enc \<Longrightarrow> length enc \<le> CONTROL_BYTES"
  by (auto simp: encode_frame_def split: sum.splits if_splits)

lemma stack_control_keys:
  assumes "stack_rep BC F m stk"
  shows "{k. data_prefix (data_id (controls F)) @ k \<in> dom m} = u32_to_be ` {d. unat d < length stk}"
proof (intro set_eqI iffI; simp only: mem_Collect_eq)
  fix k
  assume "data_prefix (data_id (controls F)) @ k \<in> dom m"
  then have "length k = 4" "m (data_prefix (data_id (controls F)) @ k) \<noteq> None"
    using assms by (auto simp: stack_rep_def)
  moreover from this have "k = u32_to_be (u32_from_be k)" by (simp add: u32_to_from_be)
  ultimately show "k \<in> u32_to_be ` {d. unat d < length stk}"
    using assms unfolding stack_rep_def by (metis (mono_tags, lifting) image_eqI mem_Collect_eq not_le)
next
  fix k
  assume "k \<in> u32_to_be ` {d. unat d < length stk}"
  then show "data_prefix (data_id (controls F)) @ k \<in> dom m"
    using assms by (auto elim: stack_rep_control)
qed

lemma stack_controls:
  assumes rep: "stack_rep BC F m stk" and laws: "bincode_laws BC"
    and L: "L = range_entries m (data_prefix (data_id (controls F))) dir None None"
  shows "\<forall>e \<in> set L. \<exists>d. unat d < length stk \<and> fst e = u32_to_be d \<and> encode_frame BC (fst (stk ! unat d)) = Inr (snd e)"
proof
  fix e
  assume "e \<in> set L"
  have fin: "finite {k. data_prefix (data_id (controls F)) @ k \<in> dom m}" unfolding stack_control_keys [OF rep] by simp
  obtain k where k: "data_prefix (data_id (controls F)) @ k \<in> dom m" "e = (k, the (m (data_prefix (data_id (controls F)) @ k)))"
    using \<open>e \<in> set L\<close> fin unfolding L range_entries_def in_range_def
    by (auto simp: set_ordered_keys within_lower_def within_upper_def)
  then obtain d :: u32 where d: "unat d < length stk" "k = u32_to_be d"
    using stack_control_keys [OF rep] by blast
  then obtain enc where "encode_frame BC (fst (stk ! unat d)) = Inr enc" "m (control_key F d) = Some enc"
    using stack_rep_control [OF rep] by blast
  then show "\<exists>d. unat d < length stk \<and> fst e = u32_to_be d \<and> encode_frame BC (fst (stk ! unat d)) = Inr (snd e)"
    using d k by auto
qed

text \<open>The frame on top of a stack, with its depth.\<close>

definition stack_top :: "(frame \<times> bytes option) list \<Rightarrow> (u32 \<times> frame) option" where
  "stack_top stk = (if stk = [] then None else Some (word_of_nat (length stk - 1), fst (last stk)))"

lemma first_descending:
  assumes rep: "stack_rep BC F m stk" and laws: "bincode_laws BC" and small: "length stk < 2 ^ 32"
    and L: "L = range_entries m (data_prefix (data_id (controls F))) Descending None None"
  shows "L = [] \<longleftrightarrow> stk = []"
    "stk \<noteq> [] \<Longrightarrow> \<exists>enc es. L = (u32_to_be (word_of_nat (length stk - 1)), enc) # es \<and> encode_frame BC (fst (last stk)) = Inr enc"
proof -
  let ?K = "{k. data_prefix (data_id (controls F)) @ k \<in> dom m}"
  have K: "?K = u32_to_be ` {d. unat d < length stk}" by (rule stack_control_keys [OF rep])
  have fin: "finite ?K" unfolding K by simp
  have L_eq: "L = map (\<lambda>k. (k, the (m (data_prefix (data_id (controls F)) @ k)))) (rev (sorted_list_of_set ?K))"
    unfolding L range_entries_def in_range_def by (simp add: within_lower_def within_upper_def ordered_keys_def)
  have zero: "unat (0 :: u32) < length stk" if "stk \<noteq> []" using that by simp
  then have "{d. unat (d :: u32) < length stk} = {} \<longleftrightarrow> stk = []" by fastforce
  then show empty: "L = [] \<longleftrightarrow> stk = []" using fin unfolding L_eq K by simp
  assume ne: "stk \<noteq> []"
  let ?top = "word_of_nat (length stk - 1) :: u32"
  have top: "unat ?top = length stk - 1" using small by (intro unat_word_of_depth) simp
  have "?K \<noteq> {}" using ne zero unfolding K by blast
  then have nonempty: "sorted_list_of_set ?K \<noteq> []" using fin by simp
  have "u32_to_be ?top \<in> ?K" unfolding K using ne top by (intro imageI) simp
  then have ge: "u32_to_be ?top \<le> last (sorted_list_of_set ?K)" using fin by (intro sorted_last_ge) auto
  have "last (sorted_list_of_set ?K) \<in> ?K" using nonempty last_in_set [of "sorted_list_of_set ?K"] fin by simp
  then obtain d :: u32 where d: "unat d < length stk" "last (sorted_list_of_set ?K) = u32_to_be d" unfolding K by blast
  then have "d \<le> ?top" using top by (simp add: word_le_nat_alt)
  moreover have "\<not> d < ?top" using leD [OF ge] unfolding d(2) u32_to_be_less_iff .
  ultimately have last: "last (sorted_list_of_set ?K) = u32_to_be ?top" using d(2) by simp
  obtain enc where enc: "encode_frame BC (fst (stk ! unat ?top)) = Inr enc" "m (control_key F ?top) = Some enc"
    by (rule stack_rep_control [OF rep, of ?top]) (use top ne in simp)
  have "rev (sorted_list_of_set ?K) = u32_to_be ?top # tl (rev (sorted_list_of_set ?K))"
    using nonempty last by (metis hd_Cons_tl hd_rev rev_is_Nil_conv)
  then obtain es where es: "rev (sorted_list_of_set ?K) = u32_to_be ?top # es" by blast
  show "\<exists>enc es. L = (u32_to_be ?top, enc) # es \<and> encode_frame BC (fst (last stk)) = Inr enc"
  proof (intro exI conjI)
    show "L = (u32_to_be ?top, enc) # map (\<lambda>k. (k, the (m (data_prefix (data_id (controls F)) @ k)))) es"
      unfolding L_eq es using enc(2) by simp
    have "last stk = stk ! unat ?top" unfolding top by (rule last_conv_nth [OF ne])
    then show "encode_frame BC (fst (last stk)) = Inr enc" using enc(1) by simp
  qed
qed

lemma wp_frames_top [wp_intros]:
  assumes laws: "engine_laws E V" and bc: "bincode_laws BC" and rep: "stack_rep BC F (V (ref_view r)) stk"
    and small: "length stk < 2 ^ 32" and ok: "\<And>r'. Q (stack_top stk) r'"
    and err: "\<And>e r'. \<not> is_unwind (boxed e) \<Longrightarrow> R e r'"
  shows "wp (frames_top E BC F) Q R r"
proof (cases "ref_poisoned r")
  case True
  then show ?thesis using err by (auto simp: frames_top_def wp_def access_simps)
next
  case healthy: False
  let ?p = "data_prefix (data_id (controls F))" and ?limit = "\<lparr>max_items = 1, max_bytes = CONTROL_BYTES + 4\<rparr>"
  let ?L = "range_entries (V (ref_view r)) ?p Descending None None"
  obtain u where u: "prefix_successor ?p = Some u" using prefix_successor_data_prefix by blast
  have item: "decodes u32_key (frame_value BC) [] e \<and> item_size e \<le> CONTROL_BYTES + 4" if "e \<in> set ?L" for e
    using stack_controls [OF rep bc refl] that encode_frame_length frame_roundtrip [OF bc]
    by (fastforce simp: decodes_def u32_key_def frame_value_def item_size_def)
  have size: "CONTROL_BYTES + 4 \<le> usize_max" by (simp add: CONTROL_BYTES_def usize_max_def)
  have item_max: "decodes u32_key (frame_value BC) [] e \<and> item_size e \<le> usize_max" if "e \<in> set ?L" for e
    using item [OF that] size by simp
  have page: "scan_result u32_key (frame_value BC) [] ?limit ?L = Inr page \<Longrightarrow>
      (if page_entries page = [] then None else Some (last (page_entries page))) = stack_top stk" for page
  proof (cases "stk = []")
    case True
    assume "scan_result u32_key (frame_value BC) [] ?limit ?L = Inr page"
    then show ?thesis using True first_descending(1) [OF rep bc small refl] by (auto simp: scan_result_def stack_top_def Let_def)
  next
    case False
    assume run: "scan_result u32_key (frame_value BC) [] ?limit ?L = Inr page"
    obtain enc es where L: "?L = (u32_to_be (word_of_nat (length stk - 1)), enc) # es" "encode_frame BC (fst (last stk)) = Inr enc"
      using first_descending(2) [OF rep bc small refl False] by blast
    have "admit 1 (CONTROL_BYTES + 4) ?L = 1"
      unfolding L(1) admit_one using item [of "(u32_to_be (word_of_nat (length stk - 1)), enc)"] L(1) by simp
    then show ?thesis
      using run L(2) False frame_roundtrip [OF bc L(2)]
      by (auto simp: scan_result_def Let_def L(1) decoded_def u32_key_def frame_value_def stack_top_def)
  qed
  show ?thesis
    unfolding frames_top_def wp_bind
  proof (rule wp_bind_read)
    show "wp (sem_lift (scan_limit_new 1 (CONTROL_BYTES + 4)))
        (\<lambda>limit. wp (map_scan E u32_key (frame_value BC) ?p Unbounded Unbounded Descending None limit)
          (\<lambda>page. wp (sem_return (if page_entries page = [] then None else Some (last (page_entries page)))) Q R) R) R r"
      unfolding scan_limit_new_def map_scan_def
      by (simp add: CONTROL_BYTES_def [symmetric] data_scan_def)
        (rule wp_scan_key_suffix [OF laws u healthy _ refl];
         use item_max size page ok err in \<open>auto simp: limit_ok_def resumed_lower_def resumed_upper_def earlier_bound_def
            u32_key_def u32_to_from_be split: if_splits\<close>)
  qed (rule err)
qed

end
