(* ===== verification/Flow_Safety.thy ===== *)
theory Flow_Safety
  imports Flow_Stack
begin

text \<open>
  One page of computation keeps the call stack well formed and does not panic.

  The operations are reached through their interfaces only. \<open>operation_ok\<close> is what their methods
  promise: they write their own data, record their writes, do not write through a read, only spend
  the budget, do not panic, and a source publishes at most \<open>ROOT_BYTES\<close> bytes. Every rule here is partial in the error exit: an error
  that is not a panic may leave any transaction, which is then dropped.
\<close>

section \<open>The contract of the operations\<close>

definition txn_behaved :: "('s \<Rightarrow> (bytes \<rightharpoonup> bytes)) \<Rightarrow> frames \<Rightarrow> ('s transaction, operation_error, 'a) sem \<Rightarrow> bool" where
  "txn_behaved V F m \<longleftrightarrow> (\<forall>t. txn_keeps V F t (snd (m t)) \<and> \<not> unwinds (fst (m t)))"

definition work_behaved :: "('s \<Rightarrow> (bytes \<rightharpoonup> bytes)) \<Rightarrow> frames \<Rightarrow> ('s, 'a) work_op \<Rightarrow> bool" where
  "work_behaved V F m \<longleftrightarrow> (\<forall>w. txn_keeps V F (work_txn w) (work_txn (snd (m w))) \<and> \<not> unwinds (fst (m w)))"

text \<open>A method on a pair of a transaction and some other state.\<close>

definition pair_behaved ::
  "('s \<Rightarrow> (bytes \<rightharpoonup> bytes)) \<Rightarrow> frames \<Rightarrow> ('q \<Rightarrow> 's transaction) \<Rightarrow> ('q, operation_error, 'a) sem \<Rightarrow> bool" where
  "pair_behaved V F get m \<longleftrightarrow> (\<forall>q. txn_keeps V F (get q) (get (snd (m q))) \<and> \<not> unwinds (fst (m q)))"

definition never_unwinds :: "('t, operation_error, 'a) sem \<Rightarrow> bool" where
  "never_unwinds m \<longleftrightarrow> (\<forall>t. \<not> unwinds (fst (m t)))"

definition source_ok :: "('s \<Rightarrow> (bytes \<rightharpoonup> bytes)) \<Rightarrow> frames \<Rightarrow> ('s, 'w, 'x) source_operation \<Rightarrow> bool" where
  "source_ok V F src \<longleftrightarrow>
     never_unwinds (source_poll src) \<and> (\<forall>d. never_unwinds (source_ack src d)) \<and>
     (\<forall>world. pair_behaved V F fst (source_record src world)) \<and>
     (\<forall>world. txn_behaved V F (source_consume_published src world)) \<and>
     (\<forall>world. never_unwinds (source_published src world)) \<and>
     (\<forall>world r. ref_view (snd (source_published src world r)) = ref_view r) \<and>
     (\<forall>world r bs. fst (source_published src world r) = Inr (Some bs) \<longrightarrow> length bs \<le> ROOT_BYTES)"

definition sink_ok :: "('s \<Rightarrow> (bytes \<rightharpoonup> bytes)) \<Rightarrow> frames \<Rightarrow> ('s, 'w, 'b, 'p) sink_operation \<Rightarrow> bool" where
  "sink_ok V F snk \<longleftrightarrow>
     (\<forall>page. pair_behaved V F snd (sink_try_enqueue snk page)) \<and> never_unwinds (sink_load snk) \<and>
     (\<forall>pend. never_unwinds (sink_prepare_initialize snk pend)) \<and>
     (\<forall>pend world. txn_behaved V F (sink_persist_initialize snk pend world)) \<and>
     (\<forall>pend. never_unwinds (sink_deliver snk pend)) \<and> (\<forall>pend. pair_behaved V F snd (sink_settle snk pend))"

fun operation_ok :: "('s \<Rightarrow> (bytes \<rightharpoonup> bytes)) \<Rightarrow> frames \<Rightarrow> ('s, 'w, 'b, 'x, 'p) operation \<Rightarrow> bool" where
  "operation_ok V F (AtomicOp a) \<longleftrightarrow> (\<forall>i. work_behaved V F (atomic_apply a i) \<and> spends (atomic_apply a i))"
| "operation_ok V F (PagedOp p) \<longleftrightarrow> (\<forall>i r. work_behaved V F (paged_step p i r) \<and> spends (paged_step p i r))"
| "operation_ok V F (SourceOp src) \<longleftrightarrow> source_ok V F src"
| "operation_ok V F (SinkOp snk) \<longleftrightarrow> sink_ok V F snk"

definition operations_ok :: "('s \<Rightarrow> (bytes \<rightharpoonup> bytes)) \<Rightarrow> ('s, 'w, 'b, 'x, 'p) runtime \<Rightarrow> bool" where
  "operations_ok V rt \<longleftrightarrow> (\<forall>node \<in> set (rt_nodes rt). operation_ok V (rt_frames rt) (rn_operation node))"

lemma operation_ok_spends: "operation_ok V F op \<Longrightarrow> operation_spends op"
  by (cases op) auto

section \<open>Spending on a page\<close>

definition page_spends :: "('s, 'w, 'a) page_op \<Rightarrow> bool" where
  "page_spends m \<longleftrightarrow>
     (\<forall>ps. remaining_bytes (work_budget (page_work (snd (m ps)))) \<le> remaining_bytes (work_budget (page_work ps)))"

lemma page_spendsD:
  "page_spends m \<Longrightarrow> m ps = (res, ps') \<Longrightarrow>
     remaining_bytes (work_budget (page_work ps')) \<le> remaining_bytes (work_budget (page_work ps))"
  unfolding page_spends_def by (metis snd_conv)

lemma page_spends_return [spends_intros]: "page_spends (sem_return a)"
  by (simp add: page_spends_def sem_return_def)

lemma page_spends_throw [spends_intros]: "page_spends (sem_throw e)"
  by (simp add: page_spends_def sem_throw_def)

lemma page_spends_lift [spends_intros]: "page_spends (sem_lift r)"
  by (simp add: page_spends_def sem_lift_def)

lemma page_spends_bind [spends_intros]:
  assumes "page_spends m" "\<And>a. page_spends (f a)"
  shows "page_spends (sem_bind m f)"
  unfolding page_spends_def
proof
  fix ps
  obtain r u where m: "m ps = (r, u)" by fastforce
  from page_spendsD [OF assms(1) m] page_spendsD [OF assms(2) prod.collapse [symmetric], of "projr r" u]
  show "remaining_bytes (work_budget (page_work (snd (sem_bind m f ps)))) \<le> remaining_bytes (work_budget (page_work ps))"
    by (cases r) (auto simp: sem_bind_def m)
qed

lemma page_spends_state: "(\<And>v. page_spends (f v)) \<Longrightarrow> page_spends (\<lambda>ps. f (g ps) ps)"
  by (auto simp: page_spends_def)

lemma page_spends_in_work [spends_intros]: "spends m \<Longrightarrow> page_spends (in_work m)"
  by (auto simp: page_spends_def in_work_def spends_def split: prod.split) (metis snd_conv)

lemma spends_in_txn [spends_intros]: "spends (in_txn m)"
  by (simp add: spends_def in_txn_def split: prod.split)

lemma wp_in_txn [simp]:
  "wp (in_txn m) Q R w = wp m (\<lambda>a t. Q a (w\<lparr>work_txn := t\<rparr>)) (\<lambda>e t. R e (w\<lparr>work_txn := t\<rparr>)) (work_txn w)"
  by (simp add: wp_def in_txn_def split: prod.split sum.split)

lemma page_spends_in_sink [spends_intros]: "page_spends (in_sink m)"
  by (simp add: page_spends_def in_sink_def split: prod.split)

lemma page_spends_charge [spends_intros]: "page_spends (page_charge n)"
  unfolding page_charge_def by (intro spends_intros)

lemma page_spends_consume [spends_intros]:
  "page_spends (\<lambda>ps. in_work (in_txn (source_consume_published src (page_world ps))) ps)"
  by (rule page_spends_state) (intro spends_intros)

lemma page_spends_finish_frame [spends_intros]: "page_spends (finish_frame env rt depth f aft)"
  by (cases aft) (auto simp: finish_frame_def intro!: spends_intros split: operation.split)

lemma page_spends_guard:
  "page_spends m \<Longrightarrow> page_spends (\<lambda>ps. if P ps then (Inr a, ps) else m ps)"
  by (auto simp: page_spends_def)

lemma page_spends_route_loop [spends_intros]: "page_spends (route_loop rt h encoded cs n out)"
proof (induction cs arbitrary: n out)
  case (Cons c cs)
  show ?case
    by (auto intro!: spends_intros page_spends_guard Cons.IH split: operation.split option.split simp: Let_def)
qed (auto intro: spends_intros)

lemma page_spends_store_route [spends_intros]:
  "page_spends (store_route env rt depth f aft fresh first encoded child blocked next)"
  unfolding store_route_def Let_def by (cases child) (auto intro!: spends_intros)

lemma page_spends_route_page [spends_intros]: "page_spends (route_page env rt depth f output encoded)"
  unfolding route_page_def
  by (auto intro!: spends_intros split: frame_phase.split route_end.split)

lemma bind_index: "i < length xs \<Longrightarrow> sem_bind (sem_lift (index_of xs i)) f = f (xs ! i)"
  by (simp add: fun_eq_iff sem_bind_def sem_lift_def index_of_def)

lemma page_spends_run_tails [spends_intros]:
  assumes spends: "\<forall>node \<in> set (rt_nodes rt). operation_spends (rn_operation node)"
  shows "page_spends (run_tails rt ts out)"
proof (induction ts arbitrary: out)
  case (Cons t ts)
  show ?case
  proof (cases "t < length (rt_nodes rt)")
    case True
    then have "operation_spends (rn_operation (rt_nodes rt ! t))" using spends by simp
    with Cons.IH True show ?thesis
      by (cases out; cases "rn_operation (rt_nodes rt ! t)")
        (auto intro!: spends_intros simp: bind_index)
  qed (cases out; auto simp: index_of_def sem_bind_def sem_lift_def sem_return_def page_spends_def)
qed (auto intro: spends_intros)

lemma page_spends_encode_page [spends_intros]: "page_spends (encode_page codec page)"
proof -
  have charged: "page_spends (sem_bind (page_charge n) (\<lambda>_. sem_throw e))" for n e by (intro spends_intros)
  show ?thesis
    unfolding page_spends_def encode_page_def Let_def
    using page_spendsD [OF charged prod.collapse [symmetric]] by (auto split: sum.split change_codec_error.split)
qed

lemma page_spends_run_page:
  assumes "\<forall>node \<in> set (rt_nodes rt). operation_spends (rn_operation node)" "frame_head f < length (rt_nodes rt)"
  shows "page_spends (run_page env rt depth f input)"
proof (cases "frame_phase f")
  case (Run r)
  have "operation_spends (rn_operation (rt_nodes rt ! frame_head f))" using assms by simp
  then show ?thesis
    using assms unfolding run_page_def Run frame_phase.case
    by (auto simp: bind_index intro!: spends_intros split: option.split)
qed (simp add: run_page_def page_spends_throw)

end
