(* ===== verification/Flow_Page.thy ===== *)
theory Flow_Page
  imports Flow_Safety
begin

text \<open>
  One page of computation keeps the call stack well formed and does not panic: the preservation
  lemmas of \<open>finish_frame\<close>, \<open>route_page\<close> and \<open>run_page\<close>, one per function, over the list of frames that
  the contents of the transaction represent.
\<close>

section \<open>Rules for pages\<close>

lemma operations_okD:
  "operations_ok V rt \<Longrightarrow> i < length (rt_nodes rt) \<Longrightarrow> operation_ok V (rt_frames rt) (rn_operation (rt_nodes rt ! i))"
  by (simp add: operations_ok_def)

lemma wp_in_work [simp]:
  "wp (in_work m) Q R ps = wp m (\<lambda>a w. Q a (ps\<lparr>page_work := w\<rparr>)) (\<lambda>e w. R e (ps\<lparr>page_work := w\<rparr>)) (page_work ps)"
  by (simp add: wp_def in_work_def split: prod.split sum.split)

lemma wp_in_sink [simp]:
  "wp (in_sink m) Q R ps =
     wp m (\<lambda>a q. Q a (ps\<lparr>page_work := (page_work ps)\<lparr>work_txn := snd q\<rparr>, page_world := fst q\<rparr>))
          (\<lambda>e q. R e (ps\<lparr>page_work := (page_work ps)\<lparr>work_txn := snd q\<rparr>, page_world := fst q\<rparr>))
       (page_world ps, work_txn (page_work ps))"
  by (simp add: wp_def in_sink_def split: prod.split sum.split)

lemma bind_lift_Inr [simp]: "sem_bind (sem_lift (Inr a)) f = f a"
  by (simp add: fun_eq_iff sem_bind_def sem_lift_def)

lemma index_of_in [simp]: "i < length xs \<Longrightarrow> index_of xs i = Inr (xs ! i)"
  by (simp add: index_of_def)

definition page_at :: "('s \<Rightarrow> (bytes \<rightharpoonup> bytes)) \<Rightarrow> frames \<Rightarrow> (bytes \<rightharpoonup> bytes) \<Rightarrow> (bytes \<rightharpoonup> bytes) \<Rightarrow> ('s, 'w) page_state \<Rightarrow> bool" where
  "page_at V F base m ps \<longleftrightarrow> txn_at V F base (work_txn (page_work ps)) m"

text \<open>A computation of an operation leaves the flow's own data alone.\<close>

lemma wp_page_behaved:
  assumes "work_behaved V F m" "page_at V F base c ps" "\<And>a ps'. page_at V F base c ps' \<Longrightarrow> Q a ps'" "\<And>e ps'. \<not> is_unwind e \<Longrightarrow> R e ps'"
  shows "wp (in_work m) Q R ps"
proof -
  obtain res w where run: "m (page_work ps) = (res, w)" by fastforce
  then have "txn_keeps V F (work_txn (page_work ps)) (work_txn w)" "\<not> unwinds res"
    using assms(1) unfolding work_behaved_def by (metis fst_conv snd_conv)+
  moreover from this have "page_at V F base c (ps\<lparr>page_work := w\<rparr>)"
    using assms(2) by (auto simp: page_at_def intro: txn_at_keeps)
  ultimately show ?thesis
    using assms(3,4) run by (cases res) (auto simp: wp_def in_work_def)
qed

lemma work_behaved_txn: "txn_behaved V F m \<Longrightarrow> work_behaved V F (in_txn m)"
  by (simp add: txn_behaved_def work_behaved_def in_txn_def split: prod.split) (metis fst_conv snd_conv)

lemma txn_keeps_refl [simp]: "txn_keeps V F t t"
  by (simp add: txn_keeps_def)

lemma txn_keeps_trans: "txn_keeps V F t u \<Longrightarrow> txn_keeps V F u v \<Longrightarrow> txn_keeps V F t v"
  by (auto simp: txn_keeps_def)

lemma work_behaved_bind:
  assumes "work_behaved V F m" "\<And>a. work_behaved V F (f a)"
  shows "work_behaved V F (sem_bind m f)"
  unfolding work_behaved_def
proof
  fix w
  obtain r u where m: "m w = (r, u)" by fastforce
  have "txn_keeps V F (work_txn w) (work_txn u) \<and> \<not> unwinds r"
    using assms(1) m unfolding work_behaved_def by (metis fst_conv snd_conv)
  moreover have "txn_keeps V F (work_txn u) (work_txn (snd (f a u))) \<and> \<not> unwinds (fst (f a u))" for a
    using assms(2) unfolding work_behaved_def by blast
  ultimately show "txn_keeps V F (work_txn w) (work_txn (snd (sem_bind m f w))) \<and> \<not> unwinds (fst (sem_bind m f w))"
    by (cases r) (auto simp: sem_bind_def m intro: txn_keeps_trans)
qed

lemma work_behaved_pure:
  "work_behaved V F (sem_return a)" "\<not> is_unwind e \<Longrightarrow> work_behaved V F (sem_throw e)"
  "\<not> unwinds r \<Longrightarrow> work_behaved V F (sem_lift r)" "work_behaved V F (in_budget (charge n))"
  "work_behaved V F (in_budget (consume_head n))"
  by (simp_all add: work_behaved_def sem_return_def sem_throw_def sem_lift_def in_budget_def charge_def consume_head_def)

lemma head_slice_calm: "\<not> unwinds (head_slice A c start len)"
  by (cases "try_slice A c start len") (simp_all add: head_slice_def)

lemma work_behaved_op_step:
  assumes "operation_ok V F op"
  shows "work_behaved V F (op_step A op input r)"
proof -
  have page: "work_behaved V F (op_page A op input start len)" for start len
    using assms unfolding op_page_def
    by (cases op) (auto intro!: work_behaved_bind work_behaved_pure head_slice_calm split: if_split)
  have sized: "work_behaved V F (\<lambda>w. op_page A op input start (g w) w)" for start g
    using page unfolding work_behaved_def by blast
  have valid: "\<not> unwinds (validate_resume A op input r)" if "\<And>p. op \<noteq> PagedOp p"
    using that by (cases op) auto
  show ?thesis
    using assms sized valid by (cases op) (auto simp: op_step_def Let_def intro!: work_behaved_bind work_behaved_pure)
qed

lemma wp_page_charge:
  assumes "page_at V F base c ps" "\<And>ps'. page_at V F base c ps' \<Longrightarrow> Q () ps'" "\<And>e ps'. \<not> is_unwind e \<Longrightarrow> R e ps'"
  shows "wp (page_charge n) Q R ps"
  unfolding page_charge_def by (rule wp_page_behaved [OF work_behaved_pure(4) assms(1)]) (use assms in auto)

section \<open>The slot of the top frame\<close>

text \<open>
  \<open>slot_ok rt pre f\<close>: a frame with the head and port of \<open>f\<close> may stand on the stack \<open>pre\<close>, whatever its
  phase.
\<close>

definition slot_ok :: "('s, 'w, 'b, 'x, 'p) runtime \<Rightarrow> (frame \<times> bytes option) list \<Rightarrow> frame \<Rightarrow> bool" where
  "slot_ok rt pre f \<longleftrightarrow>
     stack_ok rt pre \<and> frame_head f < length (rt_nodes rt) \<and> heads (rt_topology rt) ! frame_head f \<and>
     \<not> is_sink (rn_operation (rt_nodes rt ! frame_head f)) \<and>
     port_ok (length pre) (rt_nodes rt ! frame_head f) (frame_port f) \<and>
     (pre \<noteq> [] \<longrightarrow> check_parent (rt_topology rt) (fst (last pre)) f = Inr ())"

definition phase_ok :: "('s, 'w, 'b, 'x, 'p) runtime \<Rightarrow> frame \<Rightarrow> bytes option \<Rightarrow> bool" where
  "phase_ok rt f out \<longleftrightarrow>
     (case frame_phase f of
        Run _ \<Rightarrow> out = None
      | Send n _ \<Rightarrow> n \<le> length (consumers (rt_topology rt) ! frame_head f) \<and> out \<noteq> None)"

lemma stack_ok_slot: "stack_ok rt (pre @ [(f, out)]) \<longleftrightarrow> slot_ok rt pre f \<and> phase_ok rt f out"
  by (auto simp: stack_ok_snoc slot_ok_def phase_ok_def frame_ok_def)

lemma slot_ok_same:
  "frame_head g = frame_head f \<Longrightarrow> frame_port g = frame_port f \<Longrightarrow> slot_ok rt pre g \<longleftrightarrow> slot_ok rt pre f"
  by (simp add: slot_ok_def check_parent_same [of g f])

lemma slot_ok_depth: "runtime_ok rt \<Longrightarrow> slot_ok rt pre f \<Longrightarrow> length pre \<le> MAX_DEPTH"
  using stack_depth unfolding slot_ok_def by blast

lemma slot_ok_root: "slot_ok rt [] f \<Longrightarrow> \<exists>src. rn_operation (rt_nodes rt ! frame_head f) = SourceOp src"
  by (auto simp: slot_ok_def port_ok_def is_source_iff split: option.splits)

text \<open>The contents a finished page leaves in its transaction: a well-formed call stack.\<close>

definition stack_inv :: "bincode \<Rightarrow> ('s, 'w, 'b, 'x, 'p) runtime \<Rightarrow> (bytes \<rightharpoonup> bytes) \<Rightarrow> bool" where
  "stack_inv BC rt m \<longleftrightarrow> (\<exists>stk. stack_rep BC (rt_frames rt) m stk \<and> stack_ok rt stk)"

definition page_inv :: "bincode \<Rightarrow> ('s \<Rightarrow> (bytes \<rightharpoonup> bytes)) \<Rightarrow> ('s, 'w, 'b, 'x, 'p) runtime \<Rightarrow> (bytes \<rightharpoonup> bytes) \<Rightarrow> ('s, 'w) page_state \<Rightarrow> bool" where
  "page_inv BC V rt base ps \<longleftrightarrow>
     stack_inv BC rt (V (inner (work_txn (page_work ps)))) \<and>
     (\<not> has_writes (work_txn (page_work ps)) \<longrightarrow> V (inner (work_txn (page_work ps))) = base)"

lemma page_invI:
  assumes "page_at V (rt_frames rt) base m ps" "stack_rep BC (rt_frames rt) m stk" "stack_ok rt stk"
  shows "page_inv BC V rt base ps"
proof -
  have "stack_rep BC (rt_frames rt) (V (inner (work_txn (page_work ps)))) stk"
    using assms(1,2) stack_rep_cong [of "rt_frames rt" "V (inner (work_txn (page_work ps)))" m]
    by (simp add: page_at_def txn_at_def)
  then show ?thesis using assms by (auto simp: page_inv_def stack_inv_def page_at_def txn_at_def)
qed

section \<open>Finishing a frame\<close>

lemma wp_consume:
  "wp (\<lambda>ps. in_work (in_txn (source_consume_published src (page_world ps))) ps) Q R ps =
   wp (in_work (in_txn (source_consume_published src (page_world ps)))) Q R ps"
  by (simp add: wp_def)

lemma wp_finish_frame:
  assumes laws: "engine_laws (env_engine env) V" and rt: "runtime_ok rt" and ops: "operations_ok V rt"
    and slot: "slot_ok rt pre f" and rep: "stack_rep (env_bincode env) (rt_frames rt) m (pre @ x)" "length x \<le> 1"
    and depth: "unat depth = length pre" and at: "page_at V (rt_frames rt) base m ps"
  shows "wp (finish_frame env rt depth f aft) (\<lambda>_. page_inv (env_bincode env) V rt base) calm ps"
proof -
  let ?F = "rt_frames rt" and ?BC = "env_bincode env"
  have ids: "data_id (controls ?F) \<noteq> data_id (outputs ?F)" using rt by (simp add: runtime_ok_def)
  have pop: "wp (in_work (in_txn (frames_pop (env_engine env) ?F depth))) (\<lambda>_. page_inv ?BC V rt base) calm ps'"
    if "page_at V ?F base m ps'" for ps'
    using that slot stack_rep_clear [OF ids rep depth]
    by (auto simp: page_at_def slot_ok_def intro!: wp_frames_pop [OF laws] page_invI [where m = "m(control_key ?F depth := None, output_key ?F depth := None)"])
  show ?thesis
  proof (cases aft)
    case Done
    show ?thesis
    proof (cases "depth = 0")
      case True
      then have "pre = []" using depth by simp
      then obtain src where src: "rn_operation (rt_nodes rt ! frame_head f) = SourceOp src" "frame_head f < length (rt_nodes rt)"
        using slot_ok_root [of rt f] slot by (auto simp: slot_ok_def)
      then have "source_ok V ?F src" using operations_okD [OF ops src(2)] by simp
      then have "work_behaved V ?F (in_txn (source_consume_published src world))" for world
        by (simp add: source_ok_def work_behaved_txn)
      with src True show ?thesis
        by (auto simp: finish_frame_def Done wp_consume simp del: wp_in_work intro!: pop [unfolded True] wp_page_behaved [OF _ at])
    qed (use pop [OF at] in \<open>simp add: finish_frame_def Done\<close>)
  next
    case (More r)
    let ?f = "\<lparr>frame_head = frame_head f, frame_port = frame_port f, frame_phase = Run r\<rparr>"
    have ok: "stack_ok rt (pre @ [(?f, None)])" using slot slot_ok_same [of ?f f rt pre] by (simp add: stack_ok_slot phase_ok_def)
    show ?thesis
      unfolding finish_frame_def More progress.case wp_bind wp_in_work wp_in_txn
      by (intro wp_outputs_remove [OF laws at [unfolded page_at_def]] wp_frames_put [OF laws])
        (auto simp: page_at_def intro!: page_invI ok dest: stack_rep_set [OF ids rep depth])
  qed
qed

section \<open>Routing a page\<close>

text \<open>Where the loop over the consumers stops: at a child to call, the child of the ordinal before.\<close>

definition route_end_ok :: "('s, 'w, 'b, 'x, 'p) runtime \<Rightarrow> nat \<Rightarrow> nat \<Rightarrow> route_end \<Rightarrow> bool" where
  "route_end_ok rt h first_consumer e \<longleftrightarrow>
     (case e of
        AllRouted \<Rightarrow> True
      | Stopped child blocked n \<Rightarrow>
          first_consumer \<le> n \<and> n \<le> length (consumers (rt_topology rt) ! h) \<and>
          (\<forall>g. child = Some g \<longrightarrow> first_consumer < n \<and>
             (case consumers (rt_topology rt) ! h ! (n - 1) of c \<Rightarrow>
                frame_head g = consumer_operation c \<and> frame_port g = Some (consumer_port c) \<and>
                \<not> is_sink (rn_operation (rt_nodes rt ! consumer_operation c)) \<and> (\<exists>r. frame_phase g = Run r))))"

lemma route_end_ok_mono: "route_end_ok rt h (Suc n) e \<Longrightarrow> route_end_ok rt h n e"
  by (auto simp: route_end_ok_def split: route_end.splits)

lemma wp_sink_behaved:
  assumes "pair_behaved V F snd m" "page_at V F base c ps" "\<And>a ps'. page_at V F base c ps' \<Longrightarrow> Q a ps'" "\<And>e ps'. \<not> is_unwind e \<Longrightarrow> R e ps'"
  shows "wp (in_sink m) Q R ps"
proof -
  obtain res world t where run: "m (page_world ps, work_txn (page_work ps)) = (res, (world, t))" by (metis prod_cases3)
  then have "txn_keeps V F (work_txn (page_work ps)) t" "\<not> unwinds res"
    using assms(1) unfolding pair_behaved_def by (metis fst_conv snd_conv)+
  moreover from this have "page_at V F base c (ps\<lparr>page_work := (page_work ps)\<lparr>work_txn := t\<rparr>, page_world := world\<rparr>)"
    using assms(2) by (auto simp: page_at_def intro: txn_at_keeps)
  ultimately show ?thesis using assms(3,4) run by (cases res) (auto simp: wp_def in_sink_def)
qed

lemma codec_error_calm: "map_sum OpCodec id r = Inl e \<Longrightarrow> \<not> is_unwind e"
  by (cases r) auto

lemma wp_guard: "wp (\<lambda>ps. if P ps then (Inr a, ps) else m ps) Q R ps = (if P ps then Q a ps else wp m Q R ps)"
  by (simp add: wp_def)

lemma wp_route_loop:
  assumes rt: "runtime_ok rt" and ops: "operations_ok V rt"
    and h: "h < length (rt_nodes rt)" "heads (rt_topology rt) ! h" "\<not> is_sink (rn_operation (rt_nodes rt ! h))"
  shows "n \<le> length (consumers (rt_topology rt) ! h) \<Longrightarrow> page_at V (rt_frames rt) base m ps \<Longrightarrow>
    wp (route_loop rt h encoded (drop n (consumers (rt_topology rt) ! h)) n out)
      (\<lambda>e ps'. route_end_ok rt h n e \<and> page_at V (rt_frames rt) base m ps') calm ps"
proof (induction "drop n (consumers (rt_topology rt) ! h)" arbitrary: n out ps)
  case Nil
  then show ?case by (simp add: Nil.hyps [symmetric] route_end_ok_def)
next
  case (Cons c cs)
  let ?cs = "consumers (rt_topology rt) ! h"
  have n: "n < length ?cs" "c = ?cs ! n" "cs = drop (Suc n) ?cs"
    using Cons.hyps(2) by (metis Cons.hyps(2) drop_eq_Nil linorder_not_le list.distinct(1), metis Cons.hyps(2) nth_via_drop, metis Cons.hyps(2) drop_Suc list.sel(3) tl_drop)
  note c = runtime_consumer [OF rt h(1,2) nth_mem [OF n(1)], folded n(2)]
  let ?node = "rt_nodes rt ! consumer_operation c"
  obtain codec where codec: "output_codec rt h = Inr codec" using output_codec_ok [OF rt h] by blast
  show ?case
  proof (cases "rn_operation ?node")
    case (SinkOp snk)
    then have snk: "pair_behaved V (rt_frames rt) snd (sink_try_enqueue snk page)" for page
      using operations_okD [OF ops c(1)] by (simp add: sink_ok_def)
    have IH: "wp (route_loop rt h encoded cs (Suc n) o') (\<lambda>e ps'. route_end_ok rt h n e \<and> page_at V (rt_frames rt) base m ps') calm ps'"
      if "page_at V (rt_frames rt) base m ps'" for o' ps'
      using Cons.hyps(1) [OF n(3) _ that, of o'] n(1,3) by (auto elim!: wp_mono intro: route_end_ok_mono)
    have stop: "route_end_ok rt h n (Stopped None b n)" for b using n(1) by (simp add: route_end_ok_def)
    show ?thesis
      unfolding Cons.hyps(2) [symmetric] route_loop.simps wp_bind wp_lift
      using c(1) SinkOp Cons.prems(2)
      by (auto simp: Let_def wp_guard codec stop simp del: wp_in_sink intro!: wp_page_charge wp_sink_behaved [OF snk] IH dest: codec_error_calm split: option.split sum.split)
  qed (use c(1) n in \<open>auto simp: Cons.hyps(2) [symmetric] route_end_ok_def Cons.prems\<close>)
qed

text \<open>A consumer of the head may be called from a frame that has just passed it.\<close>

lemma stack_ok_child:
  assumes rt: "runtime_ok rt" and stk: "stack_ok rt (pre @ [(f, out)])" and f: "frame_phase f = Send n aft"
    and e: "route_end_ok rt (frame_head f) first_consumer (Stopped (Some g) blocked n)"
  shows "stack_ok rt (pre @ [(f, out), (g, None)])"
proof -
  let ?cs = "consumers (rt_topology rt) ! frame_head f"
  have h: "frame_head f < length (rt_nodes rt)" "heads (rt_topology rt) ! frame_head f"
    using stk by (auto simp: stack_ok_slot slot_ok_def)
  obtain k r where n: "n = Suc k" "k < length ?cs" and g: "frame_head g = consumer_operation (?cs ! k)"
      "frame_port g = Some (consumer_port (?cs ! k))" "\<not> is_sink (rn_operation (rt_nodes rt ! consumer_operation (?cs ! k)))"
      "frame_phase g = Run r"
    using e by (cases n) (auto simp: route_end_ok_def)
  note c = runtime_consumer [OF rt h nth_mem [OF n(2)]]
  have "check_parent (rt_topology rt) f g = Inr ()"
    using check_parent_iff [of f "rt_topology rt" g] h(1) runtime_lengths [OF rt] n f g by auto
  then have "slot_ok rt (pre @ [(f, out)]) g"
    using stk c g by (simp add: slot_ok_def port_ok_def)
  then have "stack_ok rt ((pre @ [(f, out)]) @ [(g, None)])"
    using g(4) unfolding stack_ok_slot by (simp add: phase_ok_def)
  then show ?thesis by simp
qed

lemma next_depth_ok:
  assumes "unat depth \<le> MAX_DEPTH"
  shows "\<exists>d. next_depth depth = Inr d \<and> unat d = Suc (unat depth)"
proof -
  have "unat depth + 1 < 2 ^ 32" using assms by (simp add: MAX_DEPTH_def)
  then show ?thesis by (auto simp: next_depth_def unat_word_ariths)
qed

lemma wp_push_child:
  assumes laws: "engine_laws (env_engine env) V" and rt: "runtime_ok rt"
    and stk: "stack_ok rt (pre @ [(f, out)])" "frame_phase f = Send n aft"
    and e: "route_end_ok rt (frame_head f) first_consumer (Stopped child blocked n)"
    and rep: "stack_rep (env_bincode env) (rt_frames rt) m (pre @ [(f, out)])"
    and depth: "unat depth = length pre" and at: "page_at V (rt_frames rt) base m ps"
  shows "wp (case child of
           None \<Rightarrow> sem_return ()
         | Some g \<Rightarrow>
             sem_bind (sem_lift (next_depth depth)) (\<lambda>d.
             in_work (in_txn (frames_put (env_engine env) (env_bincode env) (rt_frames rt) d g))))
       (\<lambda>_. page_inv (env_bincode env) V rt base) calm ps"
proof (cases child)
  case None
  then show ?thesis using page_invI [OF at rep stk(1)] by simp
next
  case (Some g)
  have ids: "data_id (controls (rt_frames rt)) \<noteq> data_id (outputs (rt_frames rt))" using rt by (simp add: runtime_ok_def)
  have "length (pre @ [(f, out)]) \<le> MAX_DEPTH" by (rule stack_depth [OF rt stk(1)])
  then obtain d where d: "next_depth depth = Inr d" "unat d = length (pre @ [(f, out)])"
    using next_depth_ok [of depth] depth by auto
  have ok: "stack_ok rt (pre @ [(f, out), (g, None)])" using stack_ok_child [OF rt stk] e Some by blast
  show ?thesis
    using at ok
    by (auto simp: Some d(1) page_at_def intro!: wp_frames_put [OF laws] page_invI dest: stack_rep_push [OF ids rep d(2)])
qed

text \<open>
  The frame to be routed: with its page just computed, over whatever its slot held, or as it stands on
  the stack with the output it has been sending.
\<close>

definition routing :: "('s, 'w, 'b, 'x, 'p) runtime \<Rightarrow> (frame \<times> bytes option) list \<Rightarrow> (frame \<times> bytes option) list \<Rightarrow> frame \<Rightarrow> bool \<Rightarrow> bool" where
  "routing rt pre x f fresh \<longleftrightarrow>
     slot_ok rt pre f \<and> length x \<le> 1 \<and> (\<exists>n aft. frame_phase f = Send n aft \<and> n \<le> length (consumers (rt_topology rt) ! frame_head f)) \<and>
     (\<not> fresh \<longrightarrow> (\<exists>out. x = [(f, Some out)]))"

lemma wp_store_route:
  assumes laws: "engine_laws (env_engine env) V" and rt: "runtime_ok rt"
    and routing: "routing rt pre x f fresh" and rep: "stack_rep (env_bincode env) (rt_frames rt) m (pre @ x)"
    and e: "route_end_ok rt (frame_head f) first_consumer (Stopped child blocked n)" "\<exists>aft. frame_phase f = Send first_consumer aft"
    and depth: "unat depth = length pre" and at: "page_at V (rt_frames rt) base m ps"
  shows "wp (store_route env rt depth f aft fresh first_consumer encoded child blocked n)
       (\<lambda>_. page_inv (env_bincode env) V rt base) calm ps"
proof -
  let ?F = "rt_frames rt" and ?BC = "env_bincode env" and ?f = "f\<lparr>frame_phase := Send n aft\<rparr>"
  have ids: "data_id (controls ?F) \<noteq> data_id (outputs ?F)" using rt by (simp add: runtime_ok_def)
  obtain out where out: "(\<not> fresh \<and> x = [(f, Some out)]) \<or> (fresh \<and> out = encoded)"
    using routing by (auto simp: routing_def)
  have x: "length x \<le> 1" and slot: "slot_ok rt pre ?f"
    using routing slot_ok_same [of ?f f rt pre] by (simp_all add: routing_def)
  have e': "route_end_ok rt (frame_head ?f) first_consumer (Stopped child blocked n)" using e by simp
  have ok: "stack_ok rt (pre @ [(?f, Some out)])" using slot e(1) by (simp add: stack_ok_slot phase_ok_def route_end_ok_def)
  have set: "stack_rep ?BC ?F (m(output_key ?F depth \<mapsto> out, control_key ?F depth \<mapsto> enc)) (pre @ [(?f, Some out)])"
    if "encode_frame ?BC ?f = Inr enc" for enc
    by (rule stack_rep_set [OF ids rep x depth that])
  have put: "wp (in_work (in_txn (frames_put (env_engine env) ?BC ?F depth ?f)))
      (\<lambda>_. wp (case child of None \<Rightarrow> sem_return () | Some g \<Rightarrow>
             sem_bind (sem_lift (next_depth depth)) (\<lambda>d. in_work (in_txn (frames_put (env_engine env) ?BC ?F d g))))
         (\<lambda>_. page_inv ?BC V rt base) calm) calm ps'"
    if "page_at V ?F base (m(output_key ?F depth \<mapsto> out)) ps'" for ps'
    unfolding wp_in_work wp_in_txn
    by (rule wp_frames_put [OF laws that [unfolded page_at_def]])
      (auto simp: page_at_def intro!: wp_push_child [OF laws rt ok _ e' set depth])
  show ?thesis
  proof (cases "fresh \<or> n \<noteq> first_consumer")
    case True
    then show ?thesis
    proof (cases fresh)
      case True
      then have enc: "out = encoded" using out by simp
      have "wp (in_work (in_txn (outputs_put (env_engine env) ?F depth encoded)))
          (\<lambda>_. wp (in_work (in_txn (frames_put (env_engine env) ?BC ?F depth ?f)))
             (\<lambda>_. wp (case child of None \<Rightarrow> sem_return () | Some g \<Rightarrow>
                  sem_bind (sem_lift (next_depth depth)) (\<lambda>d. in_work (in_txn (frames_put (env_engine env) ?BC ?F d g))))
               (\<lambda>_. page_inv ?BC V rt base) calm) calm) calm ps"
        unfolding wp_in_work [of "in_txn (outputs_put _ _ _ _)"] wp_in_txn [of "outputs_put _ _ _ _"]
        by (rule wp_outputs_put [OF laws at [unfolded page_at_def]], rule put) (auto simp: enc page_at_def)
      then show ?thesis by (simp add: store_route_def True wp_return_fun Let_def)
    next
      case False
      have "m (output_key ?F depth) = Some out"
        using rep depth out False unfolding stack_rep_def by auto
      then have "m(output_key ?F depth \<mapsto> out) = m" by (rule fun_upd_idem)
      then show ?thesis using put [of ps] at True False by (simp add: store_route_def wp_return_fun Let_def)
    qed
  next
    case False
    then have "child = None" "x = [(f, Some out)]" using e out by (cases child; auto simp: route_end_ok_def)+
    moreover have "stack_ok rt (pre @ [(f, Some out)])"
      using routing by (auto simp: stack_ok_slot routing_def phase_ok_def)
    ultimately show ?thesis using False page_invI [OF at rep] by (simp add: store_route_def Let_def)
  qed
qed

lemma wp_route_page:
  assumes laws: "engine_laws (env_engine env) V" and rt: "runtime_ok rt" and ops: "operations_ok V rt"
    and routing: "routing rt pre x f (out \<noteq> None)" and rep: "stack_rep (env_bincode env) (rt_frames rt) m (pre @ x)"
    and depth: "unat depth = length pre" and at: "page_at V (rt_frames rt) base m ps"
  shows "wp (route_page env rt depth f out encoded) (\<lambda>_. page_inv (env_bincode env) V rt base) calm ps"
proof -
  obtain n aft where f: "frame_phase f = Send n aft" "n \<le> length (consumers (rt_topology rt) ! frame_head f)"
      and slot: "slot_ok rt pre f" and x: "length x \<le> 1"
    using routing by (auto simp: routing_def)
  then have h: "frame_head f < length (rt_nodes rt)" "heads (rt_topology rt) ! frame_head f"
      "\<not> is_sink (rn_operation (rt_nodes rt ! frame_head f))" "frame_head f < length (consumers (rt_topology rt))"
    using runtime_lengths [OF rt] by (simp_all add: slot_ok_def)
  have cont: "wp (case e of
        AllRouted \<Rightarrow> sem_bind (finish_frame env rt depth f aft) (\<lambda>_. sem_return Progressed)
      | Stopped child blocked next_consumer \<Rightarrow>
          store_route env rt depth f aft (out \<noteq> None) n encoded child blocked next_consumer)
       (\<lambda>_. page_inv (env_bincode env) V rt base) calm ps'"
    if "route_end_ok rt (frame_head f) n e" "page_at V (rt_frames rt) base m ps'" for e ps'
    using that wp_finish_frame [OF laws rt ops slot rep x depth that(2)] f(1)
    by (cases e) (auto simp: wp_return_fun simp del: not_None_eq intro: wp_store_route [OF laws rt routing rep _ _ depth])
  show ?thesis
    unfolding route_page_def f(1) frame_phase.case wp_bind wp_lift index_of_in [OF h(4)] sum.case
    by (rule wp_mono [OF wp_route_loop [OF rt ops h(1-3) f(2) at]]) (use cont in auto)
qed

section \<open>Running a page\<close>

lemma wp_run_tails:
  assumes rt: "runtime_ok rt" and ops: "operations_ok V rt"
    and q: "\<And>o' ps'. page_at V (rt_frames rt) base m ps' \<Longrightarrow> Q o' ps'" "\<And>e ps'. \<not> is_unwind e \<Longrightarrow> R e ps'"
  shows "\<forall>t \<in> set ts. t < length (rt_nodes rt) \<and> (\<exists>a. rn_operation (rt_nodes rt ! t) = AtomicOp a) \<Longrightarrow>
    page_at V (rt_frames rt) base m ps \<Longrightarrow> wp (run_tails rt ts out) Q R ps"
proof (induction ts arbitrary: out ps)
  case (Cons t ts)
  then obtain a where a: "t < length (rt_nodes rt)" "rn_operation (rt_nodes rt ! t) = AtomicOp a" by auto
  then have "work_behaved V (rt_frames rt) (atomic_apply a i)" for i using operations_okD [OF ops a(1)] by simp
  then show ?case
    using a Cons q by (cases out) (auto simp: bind_index simp del: wp_in_work intro!: wp_page_behaved)
qed (use q in simp)

lemma wp_encode_page:
  assumes "page_at V F base m ps" "\<And>bs ps'. page_at V F base m ps' \<Longrightarrow> Q bs ps'" "\<And>e ps'. \<not> is_unwind e \<Longrightarrow> R e ps'"
  shows "wp (encode_page codec page) Q R ps"
proof -
  let ?limit = "min PAGE_BYTES (remaining_bytes (work_budget (page_work ps)))"
  have "wp (page_charge ?limit) (\<lambda>_. wp (sem_throw BudgetExceeded) Q R) R ps"
    by (rule wp_page_charge [OF assms(1)]) (use assms(3) in auto)
  then have "wp (sem_bind (page_charge ?limit) (\<lambda>_. sem_throw BudgetExceeded)) Q R ps" by simp
  then show ?thesis
    using assms by (auto simp: wp_def encode_page_def Let_def split: sum.splits change_codec_error.splits)
qed

lemma check_shape_calm: "check_shape A c r s = Inl e \<Longrightarrow> e = BudgetExceeded"
  by (auto simp: check_shape_def Let_def split: if_splits)

text \<open>
  A page of the frame on top of the stack, or of a root that has no frame yet. The old contents of the
  slot do not matter: a successful page overwrites them.
\<close>

lemma wp_run_page:
  assumes laws: "engine_laws (env_engine env) V" and rt: "runtime_ok rt" and ops: "operations_ok V rt"
    and slot: "slot_ok rt pre f" "frame_phase f = Run r"
    and rep: "stack_rep (env_bincode env) (rt_frames rt) m (pre @ x)" "length x \<le> 1"
    and depth: "unat depth = length pre" and at: "page_at V (rt_frames rt) base m ps"
  shows "wp (run_page env rt depth f input) (\<lambda>_. page_inv (env_bincode env) V rt base) calm ps"
proof -
  have h: "frame_head f < length (rt_nodes rt)" "heads (rt_topology rt) ! frame_head f"
      "\<not> is_sink (rn_operation (rt_nodes rt ! frame_head f))" "frame_head f < length (tails (rt_topology rt))"
    using slot(1) runtime_lengths [OF rt] by (simp_all add: slot_ok_def)
  obtain codec where codec: "output_codec rt (frame_head f) = Inr codec" using output_codec_ok [OF rt h(1-3)] by blast
  have tails: "\<forall>t \<in> set (tails (rt_topology rt) ! frame_head f).
      t < length (rt_nodes rt) \<and> (\<exists>a. rn_operation (rt_nodes rt ! t) = AtomicOp a)"
    using runtime_tail [OF rt h(1)] by blast
  note step = work_behaved_op_step [OF operations_okD [OF ops h(1)], of "env_arrow env"]
  have routing: "routing rt pre x (f\<lparr>frame_phase := Send 0 p\<rparr>) True" for p
    using slot(1) rep(2) slot_ok_same [of "f\<lparr>frame_phase := Send 0 p\<rparr>" f rt pre] by (simp add: routing_def)
  have route: "wp (route_page env rt depth (f\<lparr>frame_phase := Send 0 p\<rparr>) (Some page) encoded)
      (\<lambda>_. page_inv (env_bincode env) V rt base) calm ps'" if "page_at V (rt_frames rt) base m ps'" for p page encoded ps'
    by (rule wp_route_page [OF laws rt ops _ rep(1) depth that]) (simp add: routing)
  note fin = wp_finish_frame [OF laws rt ops slot(1) rep depth]
  show ?thesis
    using at h
    by (auto simp: run_page_def slot(2) bind_index wp_if codec wp_return_fun simp del: wp_in_work
        intro!: wp_page_charge wp_page_behaved [OF step] wp_run_tails [OF rt ops _ _ tails] wp_encode_page route fin
        dest!: check_shape_calm split: option.split sum.split)
qed

end
