(* ===== verification/Flow_Round.thy ===== *)
theory Flow_Round
  imports Flow_Page
begin

text \<open>
  A scheduling round keeps the flow's invariant and does not panic.

  \<open>flow_inv\<close> says that the runtime is a constructed one, that the committed call stack is well formed, and
  that the durability batch knows about every commit since its last barrier. Each function of the
  scheduler has one preservation lemma; each also bounds the bytes it takes from the round's
  allowance, since going below zero is a panic.
\<close>

section \<open>The invariant of a flow\<close>

definition flow_env ::
  "('d, 's, 'b) env \<Rightarrow> ('s \<Rightarrow> (bytes \<rightharpoonup> bytes)) \<Rightarrow> ('d \<Rightarrow> (bytes \<rightharpoonup> bytes)) \<Rightarrow> ('d \<Rightarrow> (bytes \<rightharpoonup> bytes)) \<Rightarrow> bool" where
  "flow_env env V committed durable \<longleftrightarrow>
     engine_laws (env_engine env) V \<and> bincode_laws (env_bincode env) \<and>
     (\<exists>synced. database_laws (env_database env) V synced committed durable)"

abbreviation flow_contents :: "('d \<Rightarrow> (bytes \<rightharpoonup> bytes)) \<Rightarrow> ('d, 's, 'w, 'b, 'x, 'p) flow \<Rightarrow> (bytes \<rightharpoonup> bytes)" where
  "flow_contents committed fl \<equiv> committed (batch_database (flow_batch fl))"

definition flow_inv ::
  "('d, 's, 'b) env \<Rightarrow> ('s \<Rightarrow> (bytes \<rightharpoonup> bytes)) \<Rightarrow> ('d \<Rightarrow> (bytes \<rightharpoonup> bytes)) \<Rightarrow> ('d \<Rightarrow> (bytes \<rightharpoonup> bytes))
   \<Rightarrow> ('d, 's, 'w, 'b, 'x, 'p) flow \<Rightarrow> bool" where
  "flow_inv env V committed durable fl \<longleftrightarrow>
     runtime_ok (flow_runtime fl) \<and> operations_ok V (flow_runtime fl) \<and>
     stack_inv (env_bincode env) (flow_runtime fl) (flow_contents committed fl) \<and>
     batch_inv committed durable (flow_batch fl)"

text \<open>The invariant does not depend on the flags, the cursors within range, or the pending deliveries.\<close>

definition same_graph :: "('s, 'w, 'b, 'x, 'p) runtime \<Rightarrow> ('s, 'w, 'b, 'x, 'p) runtime \<Rightarrow> bool" where
  "same_graph rt rt' \<longleftrightarrow>
     rt_topology rt' = rt_topology rt \<and> rt_frames rt' = rt_frames rt \<and> rt_sources rt' = rt_sources rt \<and>
     rt_sinks rt' = rt_sinks rt \<and>
     map (rn_pending_update (\<lambda>_. None)) (rt_nodes rt') = map (rn_pending_update (\<lambda>_. None)) (rt_nodes rt)"

lemma same_graph_refl [simp]: "same_graph rt rt"
  by (simp add: same_graph_def)

lemma same_graph_trans: "same_graph a b \<Longrightarrow> same_graph b c \<Longrightarrow> same_graph a c"
  by (simp add: same_graph_def)

lemma same_graph_simps [simp]:
  "same_graph rt (rt\<lparr>needs_reopen := b\<rparr>)" "same_graph rt (rt\<lparr>root_cursor := c\<rparr>)" "same_graph rt (rt\<lparr>source_cursor := c\<rparr>)"
  "same_graph rt (rt\<lparr>sink_cursor := c\<rparr>)"
  by (simp_all add: same_graph_def)

lemma same_graph_pending [simp]: "same_graph rt (set_pending i d rt)"
  by (cases "i < length (rt_nodes rt)") (simp_all add: same_graph_def set_pending_def map_update list_update_beyond list_update_same_conv)

lemma same_graph_nodes:
  assumes "same_graph rt rt'"
  shows "length (rt_nodes rt') = length (rt_nodes rt)"
    "i < length (rt_nodes rt) \<Longrightarrow> rn_operation (rt_nodes rt' ! i) = rn_operation (rt_nodes rt ! i)"
    "i < length (rt_nodes rt) \<Longrightarrow> rn_inputs (rt_nodes rt' ! i) = rn_inputs (rt_nodes rt ! i)"
    "i < length (rt_nodes rt) \<Longrightarrow> rn_codec (rt_nodes rt' ! i) = rn_codec (rt_nodes rt ! i)"
    "i < length (rt_nodes rt) \<Longrightarrow> rn_id (rt_nodes rt' ! i) = rn_id (rt_nodes rt ! i)"
proof -
  have eq: "map (rn_pending_update (\<lambda>_. None)) (rt_nodes rt') = map (rn_pending_update (\<lambda>_. None)) (rt_nodes rt)"
    using assms by (simp add: same_graph_def)
  show len: "length (rt_nodes rt') = length (rt_nodes rt)" using map_eq_imp_length_eq [OF eq] .
  assume i: "i < length (rt_nodes rt)"
  have "rn_pending_update (\<lambda>_. None) (rt_nodes rt' ! i) = rn_pending_update (\<lambda>_. None) (rt_nodes rt ! i)"
    using arg_cong [OF eq, of "\<lambda>ns. ns ! i"] i len by simp
  then show "rn_operation (rt_nodes rt' ! i) = rn_operation (rt_nodes rt ! i)" "rn_inputs (rt_nodes rt' ! i) = rn_inputs (rt_nodes rt ! i)"
    "rn_codec (rt_nodes rt' ! i) = rn_codec (rt_nodes rt ! i)" "rn_id (rt_nodes rt' ! i) = rn_id (rt_nodes rt ! i)"
    by (cases "rt_nodes rt' ! i"; cases "rt_nodes rt ! i"; simp)+
qed

lemma same_graph_ok:
  assumes "same_graph rt rt'"
  shows "rt_shape rt' = rt_shape rt" "operations_ok V rt' \<longleftrightarrow> operations_ok V rt"
    "stack_inv BC rt' m \<longleftrightarrow> stack_inv BC rt m"
    "source_cursor rt' < length (rt_sources rt) \<Longrightarrow> root_cursor rt' < length (rt_sources rt) \<Longrightarrow>
     sink_cursor rt' < length (rt_sinks rt) \<Longrightarrow> runtime_ok rt \<Longrightarrow> runtime_ok rt'"
proof -
  note nodes = same_graph_nodes [OF assms]
  have static: "rt_topology rt' = rt_topology rt" "rt_frames rt' = rt_frames rt" "rt_sources rt' = rt_sources rt" "rt_sinks rt' = rt_sinks rt"
    using assms by (simp_all add: same_graph_def)
  show shape: "rt_shape rt' = rt_shape rt"
    using nodes by (auto simp: rt_shape_def intro!: nth_equalityI)
  show "operations_ok V rt' \<longleftrightarrow> operations_ok V rt"
    using nodes by (auto simp: operations_ok_def all_set_conv_all_nth static)
  have "frame_ok rt' i e \<longleftrightarrow> frame_ok rt i e" for i e
    using nodes unfolding frame_ok_def static by (auto simp: port_ok_def split: prod.splits option.splits)
  then show "stack_inv BC rt' m \<longleftrightarrow> stack_inv BC rt m"
    by (simp add: stack_inv_def stack_ok_def static)
  assume cursors: "source_cursor rt' < length (rt_sources rt)" "root_cursor rt' < length (rt_sources rt)"
    "sink_cursor rt' < length (rt_sinks rt)"
    and ok: "runtime_ok rt"
  have inputs: "chain_last (tails (rt_topology rt)) h < length (rt_nodes rt)" if "h < length (rt_nodes rt)" for h
    by (rule chain_last_in_nodes [OF ok that])
  show "runtime_ok rt'"
    using ok cursors nodes inputs unfolding runtime_ok_def shape static all_set_conv_all_nth [of "rt_nodes _"] by auto
qed

text \<open>What every function of the scheduler keeps of the flow it starts from, spending at most \<open>n\<close> bytes.\<close>

definition cursors_ok :: "('s, 'w, 'b, 'x, 'p) runtime \<Rightarrow> bool" where
  "cursors_ok rt \<longleftrightarrow> source_cursor rt < length (rt_sources rt) \<and> root_cursor rt < length (rt_sources rt) \<and> sink_cursor rt < length (rt_sinks rt)"

definition flow_kept ::
  "('d, 's, 'b) env \<Rightarrow> ('s \<Rightarrow> (bytes \<rightharpoonup> bytes)) \<Rightarrow> ('d \<Rightarrow> (bytes \<rightharpoonup> bytes)) \<Rightarrow> ('d \<Rightarrow> (bytes \<rightharpoonup> bytes))
   \<Rightarrow> nat \<Rightarrow> ('d, 's, 'w, 'b, 'x, 'p) flow \<Rightarrow> ('d, 's, 'w, 'b, 'x, 'p) flow \<Rightarrow> bool" where
  "flow_kept env V committed durable n fl fl' \<longleftrightarrow>
     flow_inv env V committed durable fl' \<and> same_graph (flow_runtime fl) (flow_runtime fl') \<and>
     remaining fl \<le> remaining fl' + n"

lemma flow_inv_cong:
  assumes "flow_inv env V committed durable fl" "same_graph (flow_runtime fl) rt" "cursors_ok rt" "flow_batch fl' = flow_batch fl"
    "flow_runtime fl' = rt"
  shows "flow_inv env V committed durable fl'"
proof -
  have "rt_sources rt = rt_sources (flow_runtime fl)" "rt_sinks rt = rt_sinks (flow_runtime fl)"
    using assms(2) by (simp_all add: same_graph_def)
  then show ?thesis
    using assms same_graph_ok [OF assms(2)] by (auto simp: flow_inv_def cursors_ok_def)
qed

lemma flow_inv_cursors: "flow_inv env V committed durable fl \<Longrightarrow> cursors_ok (flow_runtime fl)"
  by (simp add: flow_inv_def runtime_ok_def cursors_ok_def)

lemma flow_inv_updates [simp]:
  "flow_inv env V committed durable (fl\<lparr>remaining := n\<rparr>) = flow_inv env V committed durable fl"
  "flow_inv env V committed durable (fl\<lparr>flow_world := w\<rparr>) = flow_inv env V committed durable fl"
  by (simp_all add: flow_inv_def)

lemma flow_inv_reopen: "flow_inv env V committed durable fl \<Longrightarrow> flow_inv env V committed durable (set_reopen fl)"
  by (rule flow_inv_cong [where rt = "(flow_runtime fl)\<lparr>needs_reopen := True\<rparr>"])
    (auto simp: set_reopen_def cursors_ok_def dest: flow_inv_cursors)

lemma flow_kept_refl: "flow_inv env V committed durable fl \<Longrightarrow> flow_kept env V committed durable n fl fl"
  by (simp add: flow_kept_def)

lemma flow_kept_trans:
  assumes "flow_kept env V committed durable n fl fl1" "flow_kept env V committed durable k fl1 fl2" "n + k \<le> j"
  shows "flow_kept env V committed durable j fl fl2"
  using assms by (auto simp: flow_kept_def intro: same_graph_trans)

section \<open>Commits, barriers and reads\<close>

lemma wp_flow_commit:
  assumes env: "flow_env env V committed durable" and inv: "flow_inv env V committed durable fl"
    and stk: "stack_inv (env_bincode env) (flow_runtime fl) (V (inner t))"
    and ok: "\<And>fl'. flow_kept env V committed durable 0 fl fl' \<Longrightarrow> Q () fl'"
    and err: "\<And>e fl'. \<not> is_unwind e \<Longrightarrow> needs_reopen (flow_runtime fl') \<Longrightarrow> flow_kept env V committed durable 0 fl fl' \<Longrightarrow> R e fl'"
  shows "wp (flow_commit env t) Q R fl"
proof -
  obtain synced where laws: "database_laws (env_database env) V synced committed durable" using env by (auto simp: flow_env_def)
  obtain res b where run: "batched_commit (env_database env) t (flow_batch fl) = (res, b)" by fastforce
  have inv_b: "batch_inv committed durable b" using batched_commit_inv [OF _ run] inv by (auto simp: flow_inv_def)
  have "committed (batch_database b) = V (inner t) \<or> committed (batch_database b) = flow_contents committed fl"
  proof -
    obtain m d' where c: "db_commit (env_database env) (batch_database (flow_batch fl)) (inner t) = (m, d')" by fastforce
    then have "committed d' = V (inner t) \<or> committed d' = flow_contents committed fl"
      using laws unfolding database_laws_def by blast
    then show ?thesis
      using run c by (cases m) (auto simp: batched_commit_def transaction_commit_def commit_transaction_def Let_def
          sem_throw_def sem_return_def split: if_splits)
  qed
  then have inv1: "flow_inv env V committed durable (fl\<lparr>flow_batch := b\<rparr>)"
    using inv stk inv_b by (auto simp: flow_inv_def)
  show ?thesis
    using run inv1 flow_inv_reopen [OF inv1] ok [of "fl\<lparr>flow_batch := b\<rparr>"]
      err [of "OpStore e" "set_reopen (fl\<lparr>flow_batch := b\<rparr>)" for e]
    by (cases res) (auto simp: wp_def flow_commit_def flow_kept_def set_reopen_def)
qed

lemma wp_flow_sync:
  assumes env: "flow_env env V committed durable" and inv: "flow_inv env V committed durable fl"
    and ok: "\<And>fl'. flow_kept env V committed durable 0 fl fl' \<Longrightarrow> flow_contents durable fl' = flow_contents committed fl' \<Longrightarrow> Q () fl'"
    and err: "\<And>e fl'. \<not> is_unwind e \<Longrightarrow> flow_kept env V committed durable 0 fl fl' \<Longrightarrow> R e fl'"
  shows "wp (flow_sync env) Q R fl"
proof -
  obtain synced where laws: "database_laws (env_database env) V synced committed durable" using env by (auto simp: flow_env_def)
  obtain res b where run: "batch_sync (env_database env) (flow_batch fl) = (res, b)" by fastforce
  note sync = batch_sync_inv [OF laws _ run]
  have same: "committed (batch_database b) = flow_contents committed fl"
    using run by (auto simp: batch_sync_def split: if_splits prod.splits option.splits dest: database_flush [OF laws])
  have inv1: "flow_inv env V committed durable (fl\<lparr>flow_batch := b\<rparr>)"
    using inv sync(1) same by (simp add: flow_inv_def)
  show ?thesis
    using run inv1 flow_inv_reopen [OF inv1] sync(2) inv ok [of "fl\<lparr>flow_batch := b\<rparr>"]
      err [of "OpStore e" "set_reopen (fl\<lparr>flow_batch := b\<rparr>)" for e]
    by (cases res) (auto simp: wp_def flow_sync_def flow_kept_def set_reopen_def flow_inv_def)
qed

lemma wp_with_read [simp]:
  "wp (with_read env m) Q R fl =
     wp (m (flow_world fl)) (\<lambda>a _. Q a fl) (\<lambda>e _. R e fl) (snapshot_of env (flow_batch fl))"
  by (simp add: wp_def with_read_def split: prod.split sum.split)

lemma snapshot_contents:
  "flow_env env V committed durable \<Longrightarrow> V (ref_view (snapshot_of env b)) = committed (batch_database b)"
  by (auto simp: flow_env_def snapshot_of_def begin_read_transaction_def dest: database_begin(2))

lemma begin_contents:
  "flow_env env V committed durable \<Longrightarrow> V (inner (begin_txn env fl)) = flow_contents committed fl"
  "\<not> has_writes (begin_txn env fl)"
  by (auto simp: flow_env_def begin_txn_def batch_begin_def begin_write_transaction_def dest: database_begin(1))

lemma wp_spend [simp]:
  "wp (spend n) Q R fl =
     (if n \<le> remaining fl then Q () (fl\<lparr>remaining := remaining fl - n\<rparr>)
      else R (Unwind ''attempt to subtract with overflow'') fl)"
  by (simp add: wp_def spend_def)

section \<open>Pages\<close>

text \<open>A page that keeps the stack, in a fresh transaction.\<close>

definition good_page ::
  "('d, 's, 'b) env \<Rightarrow> ('s \<Rightarrow> (bytes \<rightharpoonup> bytes)) \<Rightarrow> (bytes \<rightharpoonup> bytes) \<Rightarrow> ('s, 'w, 'b, 'x, 'p) runtime \<Rightarrow> ('s, 'w, 'a) page_op \<Rightarrow> bool" where
  "good_page env V base rt m \<longleftrightarrow>
     (\<forall>ps. page_at V (rt_frames rt) base base ps \<longrightarrow> wp m (\<lambda>_. page_inv (env_bincode env) V rt base) calm ps)"

lemma with_page_good:
  assumes env: "flow_env env V committed durable"
    and page: "good_page env V (flow_contents committed fl) (flow_runtime fl) (m (flow_runtime fl))"
    and run: "with_page env budget m fl = (res, w, fl')"
  shows "flow_runtime fl' = flow_runtime fl" "flow_batch fl' = flow_batch fl" "remaining fl' = remaining fl" "\<not> unwinds res"
    "res = Inr a \<Longrightarrow> stack_inv (env_bincode env) (flow_runtime fl) (V (inner (work_txn w)))"
    "\<exists>ps ps'. m (flow_runtime fl) ps = (res, ps') \<and> work_budget (page_work ps) = budget \<and> page_work ps' = w"
proof -
  let ?ps = "\<lparr>page_work = \<lparr>work_txn = begin_txn env fl, work_budget = budget\<rparr>, page_world = flow_world fl\<rparr>"
  obtain ps' where ps': "m (flow_runtime fl) ?ps = (res, ps')" "w = page_work ps'" "fl' = fl\<lparr>flow_world := page_world ps'\<rparr>"
    using run by (auto simp: with_page_def split: prod.splits)
  have "page_at V (rt_frames (flow_runtime fl)) (flow_contents committed fl) (flow_contents committed fl) ?ps"
    by (simp add: page_at_def txn_at_def begin_contents(1) [OF env] begin_contents(2))
  then have wp: "wp (m (flow_runtime fl)) (\<lambda>_. page_inv (env_bincode env) V (flow_runtime fl) (flow_contents committed fl)) calm ?ps"
    using page by (simp add: good_page_def)
  show "flow_runtime fl' = flow_runtime fl" "flow_batch fl' = flow_batch fl" "remaining fl' = remaining fl" using ps' by simp_all
  show "\<not> unwinds res" using wp ps' by (cases res) (auto simp: wp_def)
  show "stack_inv (env_bincode env) (flow_runtime fl) (V (inner (work_txn w)))" if "res = Inr a"
    using wp ps' that by (auto simp: wp_def page_inv_def)
  show "\<exists>ps ps'. m (flow_runtime fl) ps = (res, ps') \<and> work_budget (page_work ps) = budget \<and> page_work ps' = w"
    using ps' by (intro exI [of _ ?ps] exI [of _ ps']) simp
qed

lemma wp_commit_page:
  assumes env: "flow_env env V committed durable" and inv: "flow_inv env V committed durable fl"
    and page: "good_page env V (flow_contents committed fl) (flow_runtime fl) (m (flow_runtime fl))"
    and ok: "\<And>a fl'. flow_kept env V committed durable 0 fl fl' \<Longrightarrow> Q a fl'"
    and err: "\<And>e fl'. \<not> is_unwind e \<Longrightarrow> flow_kept env V committed durable 0 fl fl' \<Longrightarrow> R e fl'"
  shows "wp (commit_page env budget m) Q R fl"
proof -
  obtain res w fl' where run: "with_page env budget m fl = (res, w, fl')" by (metis prod_cases3)
  note p = with_page_good [OF env page run]
  have inv': "flow_inv env V committed durable fl'" using inv p(1,2) by (simp add: flow_inv_def)
  have kept: "flow_kept env V committed durable 0 fl fl1" if "flow_kept env V committed durable 0 fl' fl1" for fl1
    using that p by (simp add: flow_kept_def)
  show ?thesis
  proof (cases res)
    case (Inl e)
    then show ?thesis using run p(4) err [of e fl'] inv' kept [OF flow_kept_refl [OF inv']] by (simp add: wp_def commit_page_def)
  next
    case (Inr a)
    have "wp (flow_commit env (work_txn w)) (\<lambda>_. wp (sem_return a) Q R) R fl'"
      by (rule wp_flow_commit [OF env inv']) (use p(1) p(5) [OF Inr] ok err kept in auto)
    then have "wp (sem_bind (flow_commit env (work_txn w)) (\<lambda>_. sem_return a)) Q R fl'" by simp
    then show ?thesis using run Inr by (simp add: wp_def commit_page_def)
  qed
qed

section \<open>Attempts\<close>

text \<open>The number of attempts at a page that starts with \<open>h\<close> head items.\<close>

fun attempts :: "nat \<Rightarrow> nat" where
  "attempts h = (if h \<le> 1 then 1 else Suc (attempts (h div 2)))"

declare attempts.simps [simp del]

lemma attempts_256: "attempts 256 = 9"
  by (simp add: attempts.simps)

lemma operations_ok_spends: "operations_ok V rt \<Longrightarrow> \<forall>node \<in> set (rt_nodes rt). operation_spends (rn_operation node)"
  by (auto simp: operations_ok_def intro: operation_ok_spends)

lemma wp_run_attempt:
  assumes env: "flow_env env V committed durable"
    and page: "good_page env V (flow_contents committed fl) (flow_runtime fl) (run_page env (flow_runtime fl) depth f input)"
    and ops: "operations_ok V (flow_runtime fl)" and h: "frame_head f < length (rt_nodes (flow_runtime fl))"
    and rem: "STEP_BYTES \<le> remaining fl"
  shows "wp (run_attempt env depth f input k)
     (\<lambda>(result, t) fl'. flow_runtime fl' = flow_runtime fl \<and> flow_batch fl' = flow_batch fl \<and>
        remaining fl \<le> remaining fl' + STEP_BYTES \<and> remaining fl' \<le> remaining fl \<and> \<not> unwinds result \<and>
        (\<forall>a. result = Inr a \<longrightarrow> stack_inv (env_bincode env) (flow_runtime fl) (V (inner t))))
     (\<lambda>_ _. False) fl"
proof -
  obtain res w fl' where run: "with_page env (budget_new k STEP_BYTES) (\<lambda>rt. run_page env rt depth f input) fl = (res, w, fl')"
    by (metis prod_cases3)
  note p = with_page_good [OF env page run]
  obtain ps ps' where ps: "run_page env (flow_runtime fl) depth f input ps = (res, ps')"
      "work_budget (page_work ps) = budget_new k STEP_BYTES" "page_work ps' = w"
    using p(6) by blast
  have "remaining_bytes (work_budget w) \<le> STEP_BYTES"
    using page_spendsD [OF page_spends_run_page [OF operations_ok_spends [OF ops] h] ps(1)] ps(2,3) by (simp add: budget_new_def)
  then show ?thesis
    using run p(1-5) rem by (auto simp: wp_def run_attempt_def sem_bind_def spend_def sem_return_def)
qed

lemma wp_run_frame_from:
  assumes env: "flow_env env V committed durable"
    and page: "good_page env V (flow_contents committed fl) (flow_runtime fl) (run_page env (flow_runtime fl) depth f input)"
    and h: "frame_head f < length (rt_nodes (flow_runtime fl))"
  shows "flow_runtime fl1 = flow_runtime fl \<Longrightarrow> flow_batch fl1 = flow_batch fl \<Longrightarrow> flow_inv env V committed durable fl1 \<Longrightarrow>
    attempts k * STEP_BYTES \<le> remaining fl1 \<Longrightarrow>
    wp (run_frame_from env depth f input k)
      (\<lambda>_. flow_kept env V committed durable (attempts k * STEP_BYTES) fl1)
      (\<lambda>e fl'. \<not> is_unwind e \<and> flow_kept env V committed durable (attempts k * STEP_BYTES) fl1 fl' \<and>
         (needs_reopen (flow_runtime fl') \<or> flow_runtime fl' = flow_runtime fl \<and> flow_batch fl' = flow_batch fl)) fl1"
proof (induction k arbitrary: fl1 rule: attempts.induct)
  case (1 k)
  have ops: "operations_ok V (flow_runtime fl1)" using 1 by (simp add: flow_inv_def)
  have step: "STEP_BYTES \<le> remaining fl1" using 1(5) by (simp add: attempts.simps [of k] split: if_splits)
  have "good_page env V (flow_contents committed fl1) (flow_runtime fl1) (run_page env (flow_runtime fl1) depth f input)"
    using page 1(2,3) by simp
  from wp_run_attempt [OF env this ops _ step, of k]
  have att: "wp (run_attempt env depth f input k)
     (\<lambda>(result, t) fl'. flow_runtime fl' = flow_runtime fl1 \<and> flow_batch fl' = flow_batch fl1 \<and>
        remaining fl1 \<le> remaining fl' + STEP_BYTES \<and> remaining fl' \<le> remaining fl1 \<and> \<not> unwinds result \<and>
        (\<forall>a. result = Inr a \<longrightarrow> stack_inv (env_bincode env) (flow_runtime fl1) (V (inner t))))
     (\<lambda>_ _. False) fl1" using h 1(2) by simp
  then obtain result t fl2 where run: "run_attempt env depth f input k fl1 = (Inr (result, t), fl2)"
      and fl2: "flow_runtime fl2 = flow_runtime fl" "flow_batch fl2 = flow_batch fl" "remaining fl1 \<le> remaining fl2 + STEP_BYTES"
        "\<not> unwinds result" "\<And>a. result = Inr a \<Longrightarrow> stack_inv (env_bincode env) (flow_runtime fl) (V (inner t))"
    using 1(2,3) by (auto elim!: wp_cases)
  have inv2: "flow_inv env V committed durable fl2" using 1(2-4) fl2(1,2) by (simp add: flow_inv_def)
  have kept: "flow_kept env V committed durable STEP_BYTES fl1 fl2" using inv2 fl2 1(2) by (simp add: flow_kept_def)
  have one: "STEP_BYTES \<le> attempts k * STEP_BYTES" by (simp add: attempts.simps [of k])
  show ?case
  proof (cases result)
    case (Inr a)
    let ?R = "(\<lambda>e fl'. \<not> is_unwind e \<and> flow_kept env V committed durable (attempts k * STEP_BYTES) fl1 fl' \<and>
         (needs_reopen (flow_runtime fl') \<or> flow_runtime fl' = flow_runtime fl \<and> flow_batch fl' = flow_batch fl))"
    have "wp (flow_commit env t) (\<lambda>_. wp (sem_return a) (\<lambda>_. flow_kept env V committed durable (attempts k * STEP_BYTES) fl1) ?R) ?R fl2"
      by (rule wp_flow_commit [OF env inv2])
        (use fl2(1) fl2(5) [OF Inr] flow_kept_trans [OF kept _] one in auto)
    then show ?thesis
      using run Inr by (simp add: wp_def [of "run_frame_from _ _ _ _ _"] run_frame_from.simps) (simp add: wp_def sem_bind_def split: prod.splits sum.splits)
  next
    case (Inl e)
    show ?thesis
    proof (cases "is_budget_error e \<and> k > 1")
      case True
      then have "attempts k = Suc (attempts (k div 2))" by (simp add: attempts.simps [of k])
      then show ?thesis
        using 1(1) [OF _ fl2(1,2) inv2] True 1(5) fl2(3) run Inl flow_kept_trans [OF kept]
        by (auto simp: wp_def run_frame_from.simps [of env depth f input k] split: prod.splits sum.splits)
    next
      case False
      then show ?thesis
        using run Inl fl2(1,2,4) flow_kept_trans [OF kept flow_kept_refl [OF inv2, of 0]] one
        by (auto simp: wp_def run_frame_from.simps [of env depth f input k])
    qed
  qed
qed

section \<open>Stack actions\<close>

text \<open>The state of the call stack when the scheduler reads its top.\<close>

definition top_at :: "('d, 's, 'b) env \<Rightarrow> ('d \<Rightarrow> (bytes \<rightharpoonup> bytes)) \<Rightarrow> ('d, 's, 'w, 'b, 'x, 'p) flow \<Rightarrow> u32 \<Rightarrow> frame \<Rightarrow> bool" where
  "top_at env committed fl depth f \<longleftrightarrow>
     (\<exists>pre out. stack_rep (env_bincode env) (rt_frames (flow_runtime fl)) (flow_contents committed fl) (pre @ [(f, out)]) \<and>
        stack_ok (flow_runtime fl) (pre @ [(f, out)]) \<and> unat depth = length pre)"

lemma top_at_updates [simp]:
  "top_at env committed (fl\<lparr>remaining := n\<rparr>) depth f = top_at env committed fl depth f"
  by (simp add: top_at_def)

lemma good_page_run:
  assumes env: "flow_env env V committed durable" and rt: "runtime_ok rt" and ops: "operations_ok V rt"
    and slot: "slot_ok rt pre f" "frame_phase f = Run r" "stack_rep (env_bincode env) (rt_frames rt) base (pre @ x)" "length x \<le> 1"
    and depth: "unat depth = length pre"
  shows "good_page env V base rt (run_page env rt depth f input)"
  unfolding good_page_def
  using wp_run_page [OF _ rt ops slot depth] env by (auto simp: flow_env_def)

lemma good_page_finish:
  assumes env: "flow_env env V committed durable" and rt: "runtime_ok rt" and ops: "operations_ok V rt"
    and slot: "slot_ok rt pre f" "stack_rep (env_bincode env) (rt_frames rt) base (pre @ x)" "length x \<le> 1"
    and depth: "unat depth = length pre"
  shows "good_page env V base rt (sem_bind (finish_frame env rt depth f aft) (\<lambda>_. sem_return a))"
  unfolding good_page_def
  using wp_finish_frame [OF _ rt ops slot depth] env by (auto simp: flow_env_def wp_return_fun)

lemma good_page_route:
  assumes env: "flow_env env V committed durable" and rt: "runtime_ok rt" and ops: "operations_ok V rt"
    and routing: "routing rt pre x f False" "stack_rep (env_bincode env) (rt_frames rt) base (pre @ x)"
    and depth: "unat depth = length pre"
  shows "good_page env V base rt (route_page env rt depth f None encoded)"
  unfolding good_page_def
  using wp_route_page [OF _ rt ops _ routing(2) depth, where f = f and out = None] routing(1) env by (auto simp: flow_env_def)

lemma wp_frames_output:
  assumes "engine_laws E V" "\<And>bs r'. length bs \<le> PAGE_BYTES \<Longrightarrow> Q bs r'" "\<And>e r'. \<not> is_unwind e \<Longrightarrow> R e r'"
  shows "wp (frames_output E F d) Q R r"
proof (cases "ref_poisoned r")
  case True
  then show ?thesis using assms(3) by (auto simp: frames_output_def wp_def access_simps op_store_def)
next
  case False
  have decoded: "length bs \<le> PAGE_BYTES" if "decode_bounded_value vec_value v PAGE_BYTES = Inr (Some bs)" for v bs
    using that by (auto simp: decode_bounded_value_def vec_value_def split: option.splits if_splits sum.splits)
  have calm: "\<not> is_unwind (boxed e)" if "decode_bounded_value vec_value v PAGE_BYTES = Inl e" for v e
    using that by (auto simp: decode_bounded_value_def vec_value_def split: option.splits if_splits sum.splits)
  show ?thesis
    unfolding frames_output_def wp_bind wp_op_store
    by (intro wp_bind_read wp_map_get_bounded [OF assms(1) False])
      (use assms(2,3) decoded calm in \<open>auto simp: u32_key_def split: option.split\<close>)
qed

lemma wp_same: "wp m' Q R s \<Longrightarrow> m s = m' s \<Longrightarrow> wp m Q R s"
  by (simp add: wp_def)

lemma top_at_slot:
  assumes "top_at env committed fl depth f"
  obtains pre out where "stack_rep (env_bincode env) (rt_frames (flow_runtime fl)) (flow_contents committed fl) (pre @ [(f, out)])"
    "slot_ok (flow_runtime fl) pre f" "phase_ok (flow_runtime fl) f out" "unat depth = length pre"
    "frame_head f < length (rt_nodes (flow_runtime fl))"
  using assms unfolding top_at_def by (auto simp: stack_ok_slot slot_ok_def)

lemma wp_send_page:
  assumes env: "flow_env env V committed durable" and inv: "flow_inv env V committed durable fl"
    and f: "top_at env committed fl depth f" "frame_phase f = Send n aft"
  shows "wp (send_page env depth f) (\<lambda>_. flow_kept env V committed durable 0 fl)
    (\<lambda>e fl'. \<not> is_unwind e \<and> flow_kept env V committed durable 0 fl fl') fl"
proof -
  let ?rt = "flow_runtime fl" and ?Q = "\<lambda>_. flow_kept env V committed durable 0 fl"
  let ?R = "\<lambda>e fl'. \<not> is_unwind e \<and> flow_kept env V committed durable 0 fl fl'"
  have ok: "runtime_ok ?rt" "operations_ok V ?rt" using inv by (simp_all add: flow_inv_def)
  obtain pre out where s: "stack_rep (env_bincode env) (rt_frames ?rt) (flow_contents committed fl) (pre @ [(f, out)])"
      "slot_ok ?rt pre f" "phase_ok ?rt f out" "unat depth = length pre" "frame_head f < length (rt_nodes ?rt)"
    by (rule top_at_slot [OF f(1)])
  have routing: "routing ?rt pre [(f, out)] f False" using s(2,3) f(2) by (auto simp: routing_def phase_ok_def)
  define budget where "budget = snd (charge (2 * CONTROL_BYTES + 12) (budget_new 1 STEP_BYTES))"
  have charge: "charge (2 * CONTROL_BYTES + 12) (budget_new 1 STEP_BYTES) = (Inr (), budget)"
    by (simp add: budget_def charge_def budget_new_def CONTROL_BYTES_def STEP_BYTES_def PAGE_BYTES_def)
  have cs: "frame_head f < length (consumers (rt_topology ?rt))" using s(5) runtime_lengths [OF ok(1)] by simp
  have finish: "wp (commit_page env budget (\<lambda>rt. sem_bind (finish_frame env rt depth f aft) (\<lambda>_. sem_return Progressed))) ?Q ?R fl"
    by (rule wp_commit_page [OF env inv]) (auto intro: good_page_finish [OF env ok s(2,1) _ s(4)])
  have route: "wp (commit_page env b (\<lambda>rt. route_page env rt depth f None encoded)) ?Q ?R fl" for b encoded
    by (rule wp_commit_page [OF env inv]) (auto intro: good_page_route [OF env ok routing s(1,4)])
  have charged: "charge k b = (Inl e, b') \<Longrightarrow> \<not> is_unwind e" for k b e b' by (auto simp: charge_def split: if_splits)
  let ?send = "sem_bind (with_read env (\<lambda>_. frames_output (env_engine env) (rt_frames ?rt) depth)) (\<lambda>encoded.
      case charge (length encoded) budget of (Inl e, _) \<Rightarrow> sem_throw e
         | (Inr _, budget') \<Rightarrow> commit_page env budget' (\<lambda>rt. route_page env rt depth f None encoded))"
  have send: "wp ?send ?Q ?R fl"
    unfolding wp_bind wp_with_read
    by (rule wp_frames_output)
      (use env route charged flow_kept_refl [OF inv] in \<open>auto simp: flow_env_def split: prod.split sum.split\<close>)
  show ?thesis
  proof (cases "n = length (consumers (rt_topology ?rt) ! frame_head f)")
    case True
    then have "send_page env depth f fl =
        commit_page env budget (\<lambda>rt. sem_bind (finish_frame env rt depth f aft) (\<lambda>_. sem_return Progressed)) fl"
      unfolding send_page_def f(2) frame_phase.case charge by (simp add: cs)
    with finish show ?thesis by (rule wp_same)
  next
    case False
    then have "send_page env depth f fl = ?send fl"
      unfolding send_page_def f(2) frame_phase.case charge by (simp add: cs)
    with send show ?thesis by (rule wp_same)
  qed
qed

text \<open>A running frame may be computed on the stack: it is the top, or the root of an empty stack.\<close>

definition runnable :: "('d, 's, 'b) env \<Rightarrow> ('d \<Rightarrow> (bytes \<rightharpoonup> bytes)) \<Rightarrow> ('d, 's, 'w, 'b, 'x, 'p) flow \<Rightarrow> u32 \<Rightarrow> frame \<Rightarrow> bool" where
  "runnable env committed fl depth f \<longleftrightarrow>
     (\<exists>pre x. stack_rep (env_bincode env) (rt_frames (flow_runtime fl)) (flow_contents committed fl) (pre @ x) \<and> length x \<le> 1 \<and>
        stack_ok (flow_runtime fl) (pre @ [(f, None)]) \<and> unat depth = length pre)"

lemma runnable_cong:
  "flow_runtime fl' = flow_runtime fl \<Longrightarrow> flow_batch fl' = flow_batch fl \<Longrightarrow>
   runnable env committed fl' depth f = runnable env committed fl depth f"
  by (simp add: runnable_def)

lemma top_runnable:
  assumes "top_at env committed fl depth f" "frame_phase f = Run r"
  shows "runnable env committed fl depth f"
proof -
  obtain pre out where "stack_rep (env_bincode env) (rt_frames (flow_runtime fl)) (flow_contents committed fl) (pre @ [(f, out)])"
    "stack_ok (flow_runtime fl) (pre @ [(f, out)])" "unat depth = length pre"
    using assms(1) by (auto simp: top_at_def)
  then show ?thesis
    using assms(2) unfolding runnable_def
    by (intro exI [of _ pre] exI [of _ "[(f, out)]"]) (auto simp: stack_ok_slot phase_ok_def)
qed

lemma runnable_input:
  assumes "runtime_ok (flow_runtime fl)" "runnable env committed fl depth f"
  obtains codec where "input_codec (flow_runtime fl) f = Inr codec"
  using assms input_codec_ok unfolding runnable_def by metis

lemma wp_run_frame:
  assumes env: "flow_env env V committed durable" and inv: "flow_inv env V committed durable fl"
    and f: "runnable env committed fl depth f" and rem: "9 * STEP_BYTES \<le> remaining fl"
  shows "wp (run_frame env depth f input) (\<lambda>_. flow_kept env V committed durable (9 * STEP_BYTES) fl)
      (\<lambda>e fl'. \<not> is_unwind e \<and> flow_kept env V committed durable (9 * STEP_BYTES) fl fl' \<and>
         (needs_reopen (flow_runtime fl') \<or> flow_runtime fl' = flow_runtime fl \<and> flow_batch fl' = flow_batch fl)) fl"
proof -
  have ok: "runtime_ok (flow_runtime fl)" "operations_ok V (flow_runtime fl)" using inv by (simp_all add: flow_inv_def)
  obtain pre x where s: "stack_rep (env_bincode env) (rt_frames (flow_runtime fl)) (flow_contents committed fl) (pre @ x)" "length x \<le> 1"
      "slot_ok (flow_runtime fl) pre f" "phase_ok (flow_runtime fl) f None" "unat depth = length pre"
    using f by (auto simp: runnable_def stack_ok_slot)
  then obtain r where r: "frame_phase f = Run r" by (auto simp: phase_ok_def split: frame_phase.splits)
  note page = good_page_run [OF env ok s(3) r s(1,2,5), of input]
  have "frame_head f < length (rt_nodes (flow_runtime fl))" using s(3) by (simp add: slot_ok_def)
  from wp_run_frame_from [OF env page this refl refl inv, of 256] rem show ?thesis
    by (simp add: run_frame_def attempts_256)
qed

lemma wp_never_unwinds:
  assumes "never_unwinds m" "\<And>a s'. m s = (Inr a, s') \<Longrightarrow> Q a s'" "\<And>e s'. \<not> is_unwind e \<Longrightarrow> m s = (Inl e, s') \<Longrightarrow> R e s'"
  shows "wp m Q R s"
proof -
  obtain res s' where run: "m s = (res, s')" by fastforce
  then have "\<not> unwinds res" using assms(1) unfolding never_unwinds_def by (metis fst_conv)
  then show ?thesis using run assms(2,3) by (cases res) (auto simp: wp_def)
qed

lemma wp_published:
  assumes "source_ok V F src" "Q None" "\<And>bs. length bs \<le> ROOT_BYTES \<Longrightarrow> Q (Some bs)" "\<And>e. \<not> is_unwind e \<Longrightarrow> R e"
  shows "wp (source_published src world) (\<lambda>v _. Q v) (\<lambda>e _. R e) r"
proof (rule wp_never_unwinds)
  show "never_unwinds (source_published src world)" using assms(1) by (simp add: source_ok_def)
  fix v r'
  assume "source_published src world r = (Inr v, r')"
  then have "length bs \<le> ROOT_BYTES" if "v = Some bs" for bs
    using assms(1) that unfolding source_ok_def by (metis fst_conv)
  then show "Q v" using assms(2,3) by (cases v) auto
qed (use assms(4) in simp)

lemma wp_rt_input:
  assumes laws: "engine_laws (env_engine env) V" and ops: "operations_ok V rt" and h: "frame_head f < length (rt_nodes rt)"
    and q: "\<And>bs. length bs \<le> ROOT_BYTES \<Longrightarrow> Q bs" "\<And>e. \<not> is_unwind e \<Longrightarrow> R e"
  shows "wp (rt_input env rt world depth f) (\<lambda>bs _. Q bs) (\<lambda>e _. R e) r"
proof (cases "depth = 0")
  case False
  have "wp (frames_output (env_engine env) (rt_frames rt) (depth - 1)) (\<lambda>bs _. Q bs) (\<lambda>e _. R e) r"
    by (rule wp_frames_output [OF laws]) (use q in \<open>auto simp: ROOT_BYTES_def\<close>)
  then show ?thesis using False by (simp add: rt_input_def)
next
  case True
  show ?thesis
  proof (cases "rn_operation (rt_nodes rt ! frame_head f)")
    case (SourceOp src)
    then have "source_ok V (rt_frames rt) src" using operations_okD [OF ops h] by simp
    then have "wp (source_published src world)
        (\<lambda>v _. case v of None \<Rightarrow> R (Message ''root source has no published input'') | Some bs \<Rightarrow> Q bs) (\<lambda>e _. R e) r"
      by (rule wp_published) (use q in auto)
    then show ?thesis
      using True SourceOp h by (auto simp: rt_input_def elim!: wp_mono split: option.splits)
  qed (use True h q(2) in \<open>auto simp: rt_input_def\<close>)
qed

text \<open>The contract of a scheduler function: the invariant is kept, and no panic.\<close>

definition flow_step ::
  "('d, 's, 'b) env \<Rightarrow> ('s \<Rightarrow> (bytes \<rightharpoonup> bytes)) \<Rightarrow> ('d \<Rightarrow> (bytes \<rightharpoonup> bytes)) \<Rightarrow> ('d \<Rightarrow> (bytes \<rightharpoonup> bytes))
   \<Rightarrow> nat \<Rightarrow> ('d, 's, 'w, 'b, 'x, 'p, 'a) flow_op \<Rightarrow> ('d, 's, 'w, 'b, 'x, 'p) flow \<Rightarrow> bool" where
  "flow_step env V committed durable n m fl \<longleftrightarrow>
     wp m (\<lambda>_. flow_kept env V committed durable n fl)
       (\<lambda>e fl'. \<not> is_unwind e \<and> flow_kept env V committed durable n fl fl') fl"

lemma bind_spend:
  "n \<le> remaining fl \<Longrightarrow> sem_bind (spend n) g fl = g () (fl\<lparr>remaining := remaining fl - n\<rparr>)"
  by (simp add: sem_bind_def spend_def)

lemma spend_kept: "flow_inv env V committed durable fl \<Longrightarrow> flow_kept env V committed durable n fl (fl\<lparr>remaining := remaining fl - n\<rparr>)"
  by (simp add: flow_kept_def)

lemma flow_step_same:
  assumes "flow_step env V committed durable n m' fl'" "m fl = m' fl'" "flow_kept env V committed durable k fl fl'" "k + n \<le> j"
  shows "flow_step env V committed durable j m fl"
proof -
  have "wp m' (\<lambda>_. flow_kept env V committed durable j fl) (\<lambda>e fl1. \<not> is_unwind e \<and> flow_kept env V committed durable j fl fl1) fl'"
    using assms(1) unfolding flow_step_def by (rule wp_mono) (use flow_kept_trans [OF assms(3) _ assms(4)] in auto)
  then show ?thesis using assms(2) by (simp add: flow_step_def wp_def)
qed

lemma decode_input_calm:
  assumes "input_codec rt f = Inr codec"
    "sum_bind (input_codec rt f) (\<lambda>codec. map_sum OpCodec id (decode_owned codec bs)) = Inl e"
  shows "\<not> is_unwind e"
  using assms by (auto simp: sum_bind_def dest: codec_error_calm)

lemma flow_step_run_frame:
  "flow_env env V committed durable \<Longrightarrow> flow_inv env V committed durable fl \<Longrightarrow> runnable env committed fl depth f \<Longrightarrow>
   9 * STEP_BYTES \<le> remaining fl \<Longrightarrow> flow_step env V committed durable (9 * STEP_BYTES) (run_frame env depth f input) fl"
  unfolding flow_step_def by (rule wp_mono [OF wp_run_frame]) auto

lemma flow_step_advance_run:
  assumes env: "flow_env env V committed durable" and inv: "flow_inv env V committed durable fl"
    and f: "runnable env committed fl depth f" and rem: "ROOT_BYTES + 9 * STEP_BYTES \<le> remaining fl"
  shows "flow_step env V committed durable (ROOT_BYTES + 9 * STEP_BYTES)
    (sem_bind (with_read env (\<lambda>world. rt_input env (flow_runtime fl) world depth f)) (\<lambda>bs.
     sem_bind (spend (length bs)) (\<lambda>_.
     sem_bind (sem_lift (sum_bind (input_codec (flow_runtime fl) f) (\<lambda>codec. map_sum OpCodec id (decode_owned codec bs)))) (\<lambda>input.
     run_frame env depth f input)))) fl"
proof -
  have ok: "runtime_ok (flow_runtime fl)" "operations_ok V (flow_runtime fl)" using inv by (simp_all add: flow_inv_def)
  have h: "frame_head f < length (rt_nodes (flow_runtime fl))" using f by (auto simp: runnable_def stack_ok_slot slot_ok_def)
  obtain codec where codec: "input_codec (flow_runtime fl) f = Inr codec" by (rule runnable_input [OF ok(1) f])
  have run: "wp (run_frame env depth f input) (\<lambda>_. flow_kept env V committed durable (ROOT_BYTES + 9 * STEP_BYTES) fl)
      (\<lambda>e fl'. \<not> is_unwind e \<and> flow_kept env V committed durable (ROOT_BYTES + 9 * STEP_BYTES) fl fl')
      (fl\<lparr>remaining := remaining fl - n\<rparr>)" if "n \<le> ROOT_BYTES" for n input
  proof -
    have "runnable env committed (fl\<lparr>remaining := remaining fl - n\<rparr>) depth f" using f by (simp add: runnable_def)
    then have "flow_step env V committed durable (9 * STEP_BYTES) (run_frame env depth f input) (fl\<lparr>remaining := remaining fl - n\<rparr>)"
      by (intro flow_step_run_frame [OF env]) (use inv that rem in auto)
    then show ?thesis
      unfolding flow_step_def by (rule wp_mono) (use flow_kept_trans [OF spend_kept [OF inv]] that in auto)
  qed
  have kept: "flow_kept env V committed durable (ROOT_BYTES + 9 * STEP_BYTES) fl (fl\<lparr>remaining := remaining fl - n\<rparr>)"
    if "n \<le> ROOT_BYTES" for n
    using flow_kept_trans [OF spend_kept [OF inv, of n] flow_kept_refl, of 0] inv that by simp
  have laws: "engine_laws (env_engine env) V" using env by (simp add: flow_env_def)
  show ?thesis
    unfolding flow_step_def wp_bind wp_with_read
    using rem run kept
    by (intro wp_rt_input [OF laws ok(2) h])
      (auto simp: flow_kept_refl [OF inv]
        dest: decode_input_calm [OF codec] split: sum.split)
qed

lemma flow_step_advance_frame:
  assumes env: "flow_env env V committed durable" and inv: "flow_inv env V committed durable fl"
    and f: "top_at env committed fl depth f" and rem: "allowance (Some (depth, f)) \<le> remaining fl"
  shows "flow_step env V committed durable (allowance (Some (depth, f))) (advance_frame env depth f) fl"
proof (cases "frame_phase f")
  case (Run r)
  let ?n = "if depth = 0 then 64 else 0" and ?fl = "fl\<lparr>remaining := remaining fl - (if depth = 0 then 64 else 0)\<rparr>"
  have rem': "64 + (ROOT_BYTES + 9 * STEP_BYTES) \<le> remaining fl" using rem Run by (simp add: allowance_def)
  have "runnable env committed ?fl depth f" using top_runnable [OF f Run] by (simp add: runnable_def)
  then have "flow_step env V committed durable (ROOT_BYTES + 9 * STEP_BYTES)
    (sem_bind (with_read env (\<lambda>world. rt_input env (flow_runtime ?fl) world depth f)) (\<lambda>bs.
     sem_bind (spend (length bs)) (\<lambda>_.
     sem_bind (sem_lift (sum_bind (input_codec (flow_runtime ?fl) f) (\<lambda>codec. map_sum OpCodec id (decode_owned codec bs)))) (\<lambda>input.
     run_frame env depth f input)))) ?fl"
    by (intro flow_step_advance_run [OF env]) (use inv rem' in auto)
  then show ?thesis
  proof (rule flow_step_same)
    show "advance_frame env depth f fl =
      (sem_bind (with_read env (\<lambda>world. rt_input env (flow_runtime ?fl) world depth f)) (\<lambda>bs.
       sem_bind (spend (length bs)) (\<lambda>_.
       sem_bind (sem_lift (sum_bind (input_codec (flow_runtime ?fl) f) (\<lambda>codec. map_sum OpCodec id (decode_owned codec bs)))) (\<lambda>input.
       run_frame env depth f input)))) ?fl"
      using rem' by (simp add: advance_frame_def Run bind_spend) (simp add: sem_bind_def sem_return_def)
    show "flow_kept env V committed durable ?n fl ?fl" by (rule spend_kept [OF inv])
  qed (use Run in \<open>simp add: allowance_def\<close>)
next
  case (Send n aft)
  have rem': "STEP_BYTES \<le> remaining fl" using rem Send by (simp add: allowance_def)
  let ?fl = "fl\<lparr>remaining := remaining fl - STEP_BYTES\<rparr>"
  have "flow_step env V committed durable 0 (send_page env depth f) ?fl"
    unfolding flow_step_def by (rule wp_send_page [OF env]) (use inv f Send in auto)
  then show ?thesis
    by (rule flow_step_same [OF _ _ spend_kept [OF inv]])
      (use rem' Send in \<open>auto simp: advance_frame_def bind_spend allowance_def\<close>)
qed

end
