(* ===== verification/Flow_Actions.thy ===== *)
theory Flow_Actions
  imports Flow_Round
begin

text \<open>
  The parts of a scheduling round above the stack actions: roots, capture, delivery, and the round
  itself. Each has a preservation lemma like those of \<^theory_text>\<open>Flow_Round\<close>; \<open>round_step\<close> adds that an
  error names an operation of the runtime.
\<close>

section \<open>Roots\<close>

lemma wp_blame [simp]: "wp (blame i m) Q R s = wp m Q (\<lambda>e. R (i, e)) s"
  by (simp add: wp_def blame_def split: prod.split sum.split)

text \<open>What an action leaves: the invariant, for any number of bytes spent.\<close>

definition flow_left ::
  "('d, 's, 'b) env \<Rightarrow> ('s \<Rightarrow> (bytes \<rightharpoonup> bytes)) \<Rightarrow> ('d \<Rightarrow> (bytes \<rightharpoonup> bytes)) \<Rightarrow> ('d \<Rightarrow> (bytes \<rightharpoonup> bytes))
   \<Rightarrow> ('d, 's, 'w, 'b, 'x, 'p) flow \<Rightarrow> ('d, 's, 'w, 'b, 'x, 'p) flow \<Rightarrow> bool" where
  "flow_left env V committed durable fl fl' \<longleftrightarrow>
     flow_inv env V committed durable fl' \<and> same_graph (flow_runtime fl) (flow_runtime fl')"

lemma flow_kept_left: "flow_kept env V committed durable n fl fl' \<Longrightarrow> flow_left env V committed durable fl fl'"
  by (simp add: flow_kept_def flow_left_def)

lemma flow_left_refl: "flow_inv env V committed durable fl \<Longrightarrow> flow_left env V committed durable fl fl"
  by (simp add: flow_left_def)

lemma flow_left_trans:
  "flow_left env V committed durable a b \<Longrightarrow> flow_left env V committed durable b c \<Longrightarrow> flow_left env V committed durable a c"
  by (auto simp: flow_left_def intro: same_graph_trans)

definition empty_stack :: "('d, 's, 'b) env \<Rightarrow> ('d \<Rightarrow> (bytes \<rightharpoonup> bytes)) \<Rightarrow> ('d, 's, 'w, 'b, 'x, 'p) flow \<Rightarrow> bool" where
  "empty_stack env committed fl \<longleftrightarrow>
     stack_rep (env_bincode env) (rt_frames (flow_runtime fl)) (flow_contents committed fl) []"

lemma root_frame_ok:
  assumes ok: "runtime_ok rt" and i: "i \<in> set (rt_sources rt)"
  shows "stack_ok rt [(\<lparr>frame_head = i, frame_port = None, frame_phase = Run r\<rparr>, None)]"
proof -
  have s: "i < length (rt_nodes rt)" "is_source (rn_operation (rt_nodes rt ! i))"
    using ok i by (auto simp: runtime_ok_def)
  then have "heads (rt_topology rt) ! i" "\<not> is_sink (rn_operation (rt_nodes rt ! i))"
    using runtime_source_head [OF ok] by (auto simp: is_source_iff)
  then show ?thesis
    using s stack_ok_slot [of rt "[]"] by (simp add: slot_ok_def phase_ok_def port_ok_def)
qed

lemma flow_step_pin_root:
  assumes env: "flow_env env V committed durable" and inv: "flow_inv env V committed durable fl"
    and empty: "empty_stack env committed fl" and f: "stack_ok (flow_runtime fl) [(f, None)]" and rem: "CONTROL_BYTES \<le> remaining fl"
  shows "flow_step env V committed durable CONTROL_BYTES (pin_root env f) fl"
proof -
  let ?fl = "fl\<lparr>remaining := remaining fl - CONTROL_BYTES\<rparr>" and ?rt = "flow_runtime fl"
  have ids: "data_id (controls (rt_frames ?rt)) \<noteq> data_id (outputs (rt_frames ?rt))"
    using inv by (simp add: flow_inv_def runtime_ok_def)
  have laws: "engine_laws (env_engine env) V" using env by (simp add: flow_env_def)
  have "good_page env V (flow_contents committed fl) ?rt
      (in_work (in_txn (frames_put (env_engine env) (env_bincode env) (rt_frames ?rt) 0 f)))"
    unfolding good_page_def
    using f stack_rep_push [OF ids empty [unfolded empty_stack_def], of 0 f]
    by (auto simp: page_at_def intro!: wp_frames_put [OF laws] page_invI)
  then have "flow_step env V committed durable 0
      (commit_page env (budget_new 0 0) (\<lambda>rt. in_work (in_txn (frames_put (env_engine env) (env_bincode env) (rt_frames rt) 0 f)))) ?fl"
    unfolding flow_step_def by (intro wp_commit_page [OF env]) (use inv in auto)
  then show ?thesis
    by (rule flow_step_same [OF _ _ spend_kept [OF inv]]) (use rem in \<open>auto simp: pin_root_def bind_spend\<close>)
qed

lemma wp_run_root:
  assumes env: "flow_env env V committed durable" and inv: "flow_inv env V committed durable fl"
    and empty: "empty_stack env committed fl" and i: "i \<in> set (rt_sources (flow_runtime fl))"
    and bs: "length bs \<le> ROOT_BYTES" and rem: "ROOT_BYTES + 9 * STEP_BYTES + CONTROL_BYTES \<le> remaining fl"
  shows "wp (run_root env i bs) (\<lambda>_. flow_left env V committed durable fl)
    (\<lambda>e fl'. \<not> is_unwind e \<and> flow_left env V committed durable fl fl') fl"
proof -
  let ?fl = "fl\<lparr>remaining := remaining fl - length bs\<rparr>" and ?rt = "flow_runtime fl"
  let ?f = "\<lparr>frame_head = i, frame_port = None, frame_phase = Run (initial_resume (rn_operation (rt_nodes ?rt ! i)))\<rparr>"
  let ?Q = "\<lambda>_. flow_left env V committed durable fl" and ?R = "\<lambda>e fl'. \<not> is_unwind e \<and> flow_left env V committed durable fl fl'"
  have ok: "runtime_ok ?rt" "i < length (rt_nodes ?rt)" using inv i by (auto simp: flow_inv_def runtime_ok_def)
  have f: "stack_ok ?rt [(?f, None)]" by (rule root_frame_ok [OF ok(1) i])
  have runnable: "runnable env committed ?fl 0 ?f"
    using empty f unfolding runnable_def empty_stack_def by (intro exI [of _ "[]"]) simp
  obtain codec where codec: "input_codec ?rt ?f = Inr codec" using runnable_input [OF _ runnable] ok by auto
  have inv1: "flow_inv env V committed durable ?fl" using inv by simp
  have left: "flow_left env V committed durable fl ?fl" using inv by (simp add: flow_left_def)
  let ?attempt = "\<lambda>input. sem_try (run_frame env 0 ?f input) (\<lambda>result fl'.
        case result of
          Inr outcome \<Rightarrow> (Inr outcome, fl')
        | Inl e \<Rightarrow>
            if is_unwind e \<or> needs_reopen (flow_runtime fl') then (Inl e, fl')
            else sem_bind (pin_root env ?f) (\<lambda>_. sem_throw e) fl')"
  have run: "wp (?attempt input) ?Q ?R ?fl" for input
    unfolding wp_try
  proof (rule wp_mono [OF wp_run_frame [OF env inv1 runnable]])
    fix e fl'
    assume e: "\<not> is_unwind e \<and> flow_kept env V committed durable (9 * STEP_BYTES) ?fl fl' \<and>
      (needs_reopen (flow_runtime fl') \<or> flow_runtime fl' = flow_runtime ?fl \<and> flow_batch fl' = flow_batch ?fl)"
    have left': "flow_left env V committed durable fl fl'"
      using e left flow_left_trans flow_kept_left by blast
    show "wp (\<lambda>fl'. case Inl e of
          Inr outcome \<Rightarrow> (Inr outcome, fl')
        | Inl e \<Rightarrow>
            if is_unwind e \<or> needs_reopen (flow_runtime fl') then (Inl e, fl')
            else sem_bind (pin_root env ?f) (\<lambda>_. sem_throw e) fl') ?Q ?R fl'"
    proof (cases "needs_reopen (flow_runtime fl')")
      case True
      then show ?thesis using e left' by (simp add: wp_def)
    next
      case False
      have "flow_step env V committed durable CONTROL_BYTES (pin_root env ?f) fl'"
        by (rule flow_step_pin_root [OF env])
          (use e False empty f rem bs in \<open>auto simp: flow_kept_def empty_stack_def\<close>)
      then have "wp (sem_bind (pin_root env ?f) (\<lambda>_. sem_throw e)) ?Q ?R fl'"
        unfolding flow_step_def wp_bind using e left'
        by (elim wp_mono) (auto dest!: flow_kept_left intro: flow_left_trans)
      then show ?thesis using False e by (simp add: wp_def)
    qed
  qed (use rem bs left in \<open>auto simp: wp_def dest!: flow_kept_left intro: flow_left_trans\<close>)
  let ?root = "sem_bind (sem_lift (sum_bind (input_codec ?rt ?f) (\<lambda>codec. map_sum OpCodec id (decode_owned codec bs)))) (\<lambda>input.
      sem_bind (sem_lift (check_shape (env_arrow env) input 4096 65536)) (\<lambda>_. ?attempt input))"
  have "run_root env i bs fl = ?root ?fl"
    using rem bs ok by (simp add: run_root_def bind_spend Let_def)
  moreover have "wp ?root ?Q ?R ?fl"
    using run left unfolding wp_bind wp_lift
    by (auto dest: decode_input_calm [OF codec] dest!: check_shape_calm split: sum.split)
  ultimately show ?thesis by (simp add: wp_def)
qed

text \<open>
  The loop over the sources. The bytes it may spend are checked before each root, so only the
  invariant is carried from one root to the next.
\<close>

definition round_step ::
  "('d, 's, 'b) env \<Rightarrow> ('s \<Rightarrow> (bytes \<rightharpoonup> bytes)) \<Rightarrow> ('d \<Rightarrow> (bytes \<rightharpoonup> bytes)) \<Rightarrow> ('d \<Rightarrow> (bytes \<rightharpoonup> bytes))
   \<Rightarrow> (('d, 's, 'w, 'b, 'x, 'p) flow, nat \<times> operation_error, 'a) sem \<Rightarrow> ('d, 's, 'w, 'b, 'x, 'p) flow \<Rightarrow> bool" where
  "round_step env V committed durable m fl \<longleftrightarrow>
     wp m (\<lambda>_. flow_left env V committed durable fl)
       (\<lambda>(i, e) fl'. \<not> is_unwind e \<and> i < length (rt_nodes (flow_runtime fl)) \<and> flow_left env V committed durable fl fl') fl"

lemma round_step_same:
  assumes "round_step env V committed durable m' fl'" "m fl = m' fl'" "flow_left env V committed durable fl fl'"
  shows "round_step env V committed durable m fl"
proof -
  have "length (rt_nodes (flow_runtime fl')) = length (rt_nodes (flow_runtime fl))"
    using assms(3) by (auto simp: flow_left_def dest: same_graph_nodes(1))
  then have "wp m' (\<lambda>_. flow_left env V committed durable fl)
       (\<lambda>(i, e) fl1. \<not> is_unwind e \<and> i < length (rt_nodes (flow_runtime fl)) \<and> flow_left env V committed durable fl fl1) fl'"
    using assms(1) unfolding round_step_def by (elim wp_mono) (auto intro: flow_left_trans [OF assms(3)])
  then show ?thesis using assms(2) by (simp add: round_step_def wp_def)
qed

lemma round_step_blame:
  "wp m (\<lambda>_. flow_left env V committed durable fl) (\<lambda>e fl'. \<not> is_unwind e \<and> flow_left env V committed durable fl fl') fl \<Longrightarrow>
   i < length (rt_nodes (flow_runtime fl)) \<Longrightarrow> round_step env V committed durable (blame i m) fl"
  unfolding round_step_def wp_blame by (rule wp_mono) auto

lemma round_step_return: "flow_inv env V committed durable fl \<Longrightarrow> round_step env V committed durable (sem_return a) fl"
  by (simp add: round_step_def flow_left_refl)

lemma bind_blame_spend:
  "n \<le> remaining fl \<Longrightarrow> sem_bind (blame i (spend n)) g fl = g () (fl\<lparr>remaining := remaining fl - n\<rparr>)"
  by (simp add: sem_bind_def blame_def spend_def)

lemma bind_blame_lift [simp]: "sem_bind (blame i (sem_lift (Inr a))) f = f a"
  by (simp add: fun_eq_iff sem_bind_def blame_def sem_lift_def)

text \<open>Moving a cursor around its list.\<close>

lemma flow_left_cursor:
  assumes inv: "flow_inv env V committed durable fl"
    and rt: "rt = (flow_runtime fl)\<lparr>root_cursor := c mod length (rt_sources (flow_runtime fl))\<rparr> \<or>
      rt = (flow_runtime fl)\<lparr>source_cursor := c mod length (rt_sources (flow_runtime fl))\<rparr> \<or>
      rt = (flow_runtime fl)\<lparr>sink_cursor := c mod length (rt_sinks (flow_runtime fl))\<rparr>"
  shows "flow_left env V committed durable fl (fl\<lparr>flow_runtime := rt\<rparr>)"
proof -
  have cursors: "cursors_ok (flow_runtime fl)" by (rule flow_inv_cursors [OF inv])
  then have "rt_sources (flow_runtime fl) \<noteq> []" "rt_sinks (flow_runtime fl) \<noteq> []" by (auto simp: cursors_ok_def)
  then have "same_graph (flow_runtime fl) rt" "cursors_ok rt"
    using rt cursors by (auto simp: cursors_ok_def)
  then show ?thesis using flow_inv_cong [OF inv] by (auto simp: flow_left_def)
qed

lemma source_at:
  assumes "runtime_ok rt" "i \<in> set (rt_sources rt)"
  obtains src where "i < length (rt_nodes rt)" "rn_operation (rt_nodes rt ! i) = SourceOp src"
  using assms by (auto simp: runtime_ok_def is_source_iff)

lemma round_step_next_root:
  assumes env: "flow_env env V committed durable"
  shows "flow_inv env V committed durable fl \<Longrightarrow> empty_stack env committed fl \<Longrightarrow>
    round_step env V committed durable (next_root env n index) fl"
proof (induction n arbitrary: fl index)
  case (Suc n)
  let ?rt = "flow_runtime fl" and ?c = "root_cursor (flow_runtime fl)"
  let ?need = "ROOT_BYTES + 9 * STEP_BYTES + CONTROL_BYTES + 64"
  show ?case
  proof (cases "remaining fl < ?need")
    case True
    then have "next_root env (Suc n) index fl = sem_return (index, Idle) fl" by (simp add: sem_return_def)
    from round_step_same [where m = "next_root env (Suc n) index" and fl = fl and fl' = fl,
        OF round_step_return [OF Suc.prems(1)] this flow_left_refl [OF Suc.prems(1)]] show ?thesis .
  next
    case False
    let ?i = "rt_sources ?rt ! ?c"
    let ?fl = "fl\<lparr>flow_runtime := ?rt\<lparr>root_cursor := (?c + 1) mod length (rt_sources ?rt)\<rparr>, remaining := remaining fl - 64\<rparr>"
    have ok: "runtime_ok ?rt" "operations_ok V ?rt" using Suc.prems by (simp_all add: flow_inv_def)
    then have c: "?c < length (rt_sources ?rt)" by (simp add: runtime_ok_def)
    obtain src where src: "?i < length (rt_nodes ?rt)" "rn_operation (rt_nodes ?rt ! ?i) = SourceOp src"
      by (rule source_at [OF ok(1) nth_mem [OF c]])
    have src_ok: "source_ok V (rt_frames ?rt) src" using operations_okD [OF ok(2) src(1)] src(2) by simp
    have left: "flow_left env V committed durable fl ?fl"
      using flow_left_cursor [OF Suc.prems(1), of "?rt\<lparr>root_cursor := (?c + 1) mod length (rt_sources ?rt)\<rparr>" "?c + 1"]
      by (simp add: flow_left_def)
    have empty: "empty_stack env committed ?fl" using Suc.prems(2) by (simp add: empty_stack_def)
    let ?body = "sem_bind (blame ?i (with_read env (source_published src))) (\<lambda>value.
        case value of None \<Rightarrow> next_root env n ?i
        | Some bs \<Rightarrow> sem_bind (blame ?i (run_root env ?i bs)) (\<lambda>outcome. sem_return (?i, outcome)))"
    have eq: "next_root env (Suc n) index fl = ?body ?fl"
      using False c src by (simp add: bind_blame_spend Let_def)
    have "round_step env V committed durable ?body ?fl"
      unfolding round_step_def wp_bind wp_blame wp_with_read
    proof (rule wp_published [OF src_ok])
      have "round_step env V committed durable (next_root env n ?i) ?fl"
        by (rule Suc.IH) (use left empty in \<open>auto simp: flow_left_def\<close>)
      then show "wp (case None of None \<Rightarrow> next_root env n ?i
          | Some bs \<Rightarrow> sem_bind (blame ?i (run_root env ?i bs)) (\<lambda>outcome. sem_return (?i, outcome)))
          (\<lambda>_. flow_left env V committed durable ?fl)
          (\<lambda>(i, e) fl'. \<not> is_unwind e \<and> i < length (rt_nodes (flow_runtime ?fl)) \<and> flow_left env V committed durable ?fl fl') ?fl"
        by (simp add: round_step_def)
    next
      fix bs :: bytes
      assume "length bs \<le> ROOT_BYTES"
      then have "wp (run_root env ?i bs) (\<lambda>_. flow_left env V committed durable ?fl)
          (\<lambda>e fl'. \<not> is_unwind e \<and> flow_left env V committed durable ?fl fl') ?fl"
        using False c left by (intro wp_run_root [OF env _ empty]) (auto simp: flow_left_def)
      then show "wp (case Some bs of None \<Rightarrow> next_root env n ?i
          | Some bs \<Rightarrow> sem_bind (blame ?i (run_root env ?i bs)) (\<lambda>outcome. sem_return (?i, outcome)))
          (\<lambda>_. flow_left env V committed durable ?fl)
          (\<lambda>(i, e) fl'. \<not> is_unwind e \<and> i < length (rt_nodes (flow_runtime ?fl)) \<and> flow_left env V committed durable ?fl fl') ?fl"
        using src(1) by (auto simp: wp_return_fun elim: wp_mono)
    qed (use src(1) left in \<open>auto simp: flow_left_def\<close>)
    from round_step_same [where m = "next_root env (Suc n) index" and fl = fl and fl' = ?fl, OF this eq left] show ?thesis .
  qed
qed (simp add: round_step_return)

lemma round_step_advance_next_root:
  assumes env: "flow_env env V committed durable" and inv: "flow_inv env V committed durable fl" and empty: "empty_stack env committed fl"
  shows "round_step env V committed durable (advance_next_root env) fl"
proof -
  have "root_cursor (flow_runtime fl) < length (rt_sources (flow_runtime fl))" using inv by (simp add: flow_inv_def runtime_ok_def)
  then show ?thesis
    by (intro round_step_same [OF round_step_next_root [OF env inv empty] _ flow_left_refl [OF inv]])
      (simp add: advance_next_root_def Let_def)
qed

section \<open>Capture\<close>

lemma wp_or_reopen [simp]:
  "wp (or_reopen m) Q R fl = wp m Q (\<lambda>e fl'. R e (if is_unwind e then fl' else set_reopen fl')) fl"
  by (simp add: wp_def or_reopen_def set_reopen_def split: prod.split sum.split)

lemma wp_in_world [simp]:
  "wp (in_world m) Q R fl = wp m (\<lambda>a w. Q a (fl\<lparr>flow_world := w\<rparr>)) (\<lambda>e w. R e (fl\<lparr>flow_world := w\<rparr>)) (flow_world fl)"
  by (simp add: wp_def in_world_def split: prod.split sum.split)

lemma flow_left_updates:
  assumes "flow_left env V committed durable fl fl'"
  shows "flow_left env V committed durable fl (fl'\<lparr>flow_world := w\<rparr>)" "flow_left env V committed durable fl (set_reopen fl')"
    "flow_left env V committed durable fl (fl'\<lparr>flow_runtime := set_pending i d (flow_runtime fl')\<rparr>)"
proof -
  have inv: "flow_inv env V committed durable fl'" and graph: "same_graph (flow_runtime fl) (flow_runtime fl')"
    using assms by (simp_all add: flow_left_def)
  show "flow_left env V committed durable fl (fl'\<lparr>flow_world := w\<rparr>)" using inv graph by (simp add: flow_left_def)
  show "flow_left env V committed durable fl (set_reopen fl')"
    using flow_inv_reopen [OF inv] graph by (auto simp: flow_left_def set_reopen_def intro: same_graph_trans)
  have "cursors_ok (set_pending i d (flow_runtime fl'))"
    using flow_inv_cursors [OF inv] by (simp add: cursors_ok_def set_pending_def)
  then show "flow_left env V committed durable fl (fl'\<lparr>flow_runtime := set_pending i d (flow_runtime fl')\<rparr>)"
    using flow_inv_cong [OF inv same_graph_pending] graph by (auto simp: flow_left_def intro: same_graph_trans)
qed

lemma txn_keeps_stack:
  assumes env: "flow_env env V committed durable" and inv: "flow_inv env V committed durable fl"
    and keeps: "txn_keeps V (rt_frames (flow_runtime fl)) (begin_txn env fl) t"
  shows "stack_inv (env_bincode env) (flow_runtime fl) (V (inner t))"
proof -
  have "V (inner t) k = flow_contents committed fl k" if "flow_key (rt_frames (flow_runtime fl)) k" for k
    using keeps that begin_contents(1) [OF env, of fl] by (simp add: txn_keeps_def)
  then show ?thesis
    using inv stack_rep_cong [of "rt_frames (flow_runtime fl)" "V (inner t)"] by (auto simp: flow_inv_def stack_inv_def)
qed

lemma wp_poll_source:
  assumes inv: "flow_inv env V committed durable fl" and src: "source_ok V F src"
    and q: "\<And>d fl'. flow_left env V committed durable fl fl' \<Longrightarrow> Q d fl'"
    "\<And>e fl'. \<not> is_unwind e \<Longrightarrow> flow_left env V committed durable fl fl' \<Longrightarrow> R e fl'"
  shows "wp (poll_source i src) Q R fl"
proof (cases "rn_pending (rt_nodes (flow_runtime fl) ! i)")
  case (Some d)
  then show ?thesis using q(1) [OF flow_left_refl [OF inv]] by (simp add: wp_def poll_source_def)
next
  case None
  note left = flow_left_refl [OF inv]
  have poll: "never_unwinds (source_poll src)" using src by (simp add: source_ok_def)
  have put: "flow_left env V committed durable fl (fl\<lparr>flow_world := w, flow_runtime := set_pending i d (flow_runtime fl)\<rparr>)" for d w
    using flow_left_updates(3) [OF flow_left_updates(1) [OF left], of i d w] by simp
  have err: "flow_left env V committed durable fl (set_reopen (fl\<lparr>flow_world := w\<rparr>))" for w
    by (intro flow_left_updates left)
  have "wp (sem_bind (or_reopen (in_world (source_poll src))) (\<lambda>d fl'.
          (Inr d, fl'\<lparr>flow_runtime := set_pending i d (flow_runtime fl')\<rparr>))) Q R fl"
    unfolding wp_bind wp_or_reopen wp_in_world
    by (rule wp_never_unwinds [OF poll]) (use q put err in \<open>auto simp: wp_def\<close>)
  then show ?thesis by (rule wp_same) (simp add: poll_source_def None)
qed

lemma wp_record_delivery:
  assumes env: "flow_env env V committed durable" and inv: "flow_inv env V committed durable fl"
    and src: "source_ok V (rt_frames (flow_runtime fl)) src"
    and q: "\<And>accepted t d' fl'. flow_left env V committed durable fl fl' \<Longrightarrow> stack_inv (env_bincode env) (flow_runtime fl') (V (inner t)) \<Longrightarrow> Q (accepted, t, d') fl'"
    "\<And>e fl'. \<not> is_unwind e \<Longrightarrow> flow_left env V committed durable fl fl' \<Longrightarrow> R e fl'"
  shows "wp (record_delivery env i src d) Q R fl"
proof -
  obtain res t d' where run: "source_record src (flow_world fl) (begin_txn env fl, d) = (res, (t, d'))" by (metis prod_cases3)
  have rec: "pair_behaved V (rt_frames (flow_runtime fl)) fst (source_record src (flow_world fl))" using src by (simp add: source_ok_def)
  have "txn_keeps V (rt_frames (flow_runtime fl)) (begin_txn env fl) t" "\<not> unwinds res"
    using rec run unfolding pair_behaved_def by (metis fst_conv snd_conv)+
  moreover note left = flow_left_updates(3) [OF flow_left_refl [OF inv], of i "Some d'"]
  ultimately show ?thesis
    using run q left txn_keeps_stack [OF env inv] same_graph_ok(3) [OF same_graph_pending, of "env_bincode env" i "Some d'" "flow_runtime fl"]
    by (cases res) (auto simp: wp_def record_delivery_def)
qed

lemma wp_acknowledge:
  assumes src: "source_ok V F src" and left: "flow_left env V committed durable fl fl1"
  shows "wp (acknowledge i src d) (\<lambda>_. flow_left env V committed durable fl)
    (\<lambda>e fl'. \<not> is_unwind e \<and> flow_left env V committed durable fl fl') fl1"
proof -
  have calm: "never_unwinds (source_ack src d)" using src by (simp add: source_ok_def)
  have "wp (sem_bind (or_reopen (in_world (source_ack src d))) (\<lambda>_. sem_return Progressed)) (\<lambda>_. flow_left env V committed durable fl)
    (\<lambda>e fl'. \<not> is_unwind e \<and> flow_left env V committed durable fl fl') (fl1\<lparr>flow_runtime := set_pending i None (flow_runtime fl1)\<rparr>)"
    unfolding wp_bind wp_or_reopen wp_in_world
    by (rule wp_never_unwinds [OF calm]) (auto intro!: flow_left_updates left)
  then show ?thesis by (simp add: wp_def acknowledge_def)
qed

lemma wp_accept_delivery:
  assumes env: "flow_env env V committed durable" and src: "source_ok V F src" and left: "flow_left env V committed durable fl fl1"
    and stk: "stack_inv (env_bincode env) (flow_runtime fl1) (V (inner t))"
  shows "wp (accept_delivery env i src t d) (\<lambda>_. flow_left env V committed durable fl)
    (\<lambda>e fl'. \<not> is_unwind e \<and> flow_left env V committed durable fl fl') fl1"
proof -
  let ?Q = "\<lambda>_. flow_left env V committed durable fl" and ?R = "\<lambda>e fl'. \<not> is_unwind e \<and> flow_left env V committed durable fl fl'"
  have inv: "flow_inv env V committed durable fl1" using left by (simp add: flow_left_def)
  have next1: "flow_left env V committed durable fl fl3" if "flow_kept env V committed durable 0 fl2 fl3" "flow_left env V committed durable fl fl2" for fl2 fl3
    by (rule flow_left_trans [OF that(2) flow_kept_left [OF that(1)]])
  have barrier: "wp (if requires_ack_barrier d then flow_sync env else sem_return ()) (\<lambda>_. wp (acknowledge i src d) ?Q ?R) ?R fl2"
    if "flow_left env V committed durable fl fl2" for fl2
  proof -
    have "flow_inv env V committed durable fl2" using that by (simp add: flow_left_def)
    then have "wp (flow_sync env) (\<lambda>_. wp (acknowledge i src d) ?Q ?R) ?R fl2"
      by (rule wp_flow_sync [OF env]) (auto intro!: wp_acknowledge [OF src] next1 [OF _ that])
    then show ?thesis using wp_acknowledge [OF src that] by simp
  qed
  show ?thesis
    unfolding accept_delivery_def wp_bind
    by (rule wp_flow_commit [OF env inv stk]) (use barrier next1 [OF _ left] in auto)
qed

lemma wp_capture:
  assumes env: "flow_env env V committed durable" and inv: "flow_inv env V committed durable fl"
    and i: "i \<in> set (rt_sources (flow_runtime fl))"
  shows "wp (capture env i) (\<lambda>_. flow_left env V committed durable fl)
    (\<lambda>e fl'. \<not> is_unwind e \<and> flow_left env V committed durable fl fl') fl"
proof -
  let ?Q = "\<lambda>_. flow_left env V committed durable fl" and ?R = "\<lambda>e fl'. \<not> is_unwind e \<and> flow_left env V committed durable fl fl'"
  have ok: "runtime_ok (flow_runtime fl)" "operations_ok V (flow_runtime fl)" using inv by (simp_all add: flow_inv_def)
  obtain src where src: "i < length (rt_nodes (flow_runtime fl))" "rn_operation (rt_nodes (flow_runtime fl) ! i) = SourceOp src"
    by (rule source_at [OF ok(1) i])
  have src_ok: "source_ok V (rt_frames (flow_runtime fl)) src" using operations_okD [OF ok(2) src(1)] src(2) by simp
  let ?accept = "\<lambda>(accepted, t, d). if \<not> accepted then sem_return Backpressured else accept_delivery env i src t d"
  have recorded: "wp (record_delivery env i src delivery) (\<lambda>a. wp (?accept a) ?Q ?R) ?R fl1"
    if fl1: "flow_left env V committed durable fl fl1" for delivery fl1
  proof (rule wp_record_delivery [OF env])
    show "source_ok V (rt_frames (flow_runtime fl1)) src" using src_ok fl1 by (simp add: flow_left_def same_graph_def)
    fix accepted and t :: "'b transaction" and d' fl2
    assume fl2: "flow_left env V committed durable fl1 fl2" "stack_inv (env_bincode env) (flow_runtime fl2) (V (inner t))"
    note left = flow_left_trans [OF fl1 fl2(1)]
    show "wp (?accept (accepted, t, d')) ?Q ?R fl2"
      using left wp_accept_delivery [OF env src_ok left fl2(2)] by simp
  qed (use fl1 in \<open>auto simp: flow_left_def intro: same_graph_trans\<close>)
  have "wp (sem_bind (poll_source i src) (\<lambda>polled.
      case polled of None \<Rightarrow> sem_return Idle | Some delivery \<Rightarrow> sem_bind (record_delivery env i src delivery) ?accept)) ?Q ?R fl"
    unfolding wp_bind by (rule wp_poll_source [OF inv src_ok]) (use recorded in \<open>auto split: option.split\<close>)
  then show ?thesis by (rule wp_same) (simp add: capture_def src)
qed

section \<open>Delivery\<close>

lemma wp_sink_transaction:
  assumes env: "flow_env env V committed durable" and left: "flow_left env V committed durable fl fl1"
    and m: "pair_behaved V (rt_frames (flow_runtime fl1)) snd m"
    and q: "\<And>t fl'. flow_left env V committed durable fl fl' \<Longrightarrow> stack_inv (env_bincode env) (flow_runtime fl') (V (inner t)) \<Longrightarrow> Q t fl'"
    "\<And>e fl'. \<not> is_unwind e \<Longrightarrow> flow_left env V committed durable fl fl' \<Longrightarrow> R e fl'"
  shows "wp (sink_transaction env m) Q R fl1"
proof -
  obtain res world t where run: "m (flow_world fl1, begin_txn env fl1) = (res, (world, t))" by (metis prod_cases3)
  have "txn_keeps V (rt_frames (flow_runtime fl1)) (begin_txn env fl1) t" "\<not> unwinds res"
    using m run unfolding pair_behaved_def by (metis fst_conv snd_conv)+
  moreover from this left have "stack_inv (env_bincode env) (flow_runtime fl1) (V (inner t))"
    by (intro txn_keeps_stack [OF env]) (simp_all add: flow_left_def)
  ultimately show ?thesis
    using run q(1) [of "fl1\<lparr>flow_world := world\<rparr>" t] q(2) flow_left_updates(1) [OF left, of world]
    by (cases res) (auto simp: wp_def sink_transaction_def)
qed

lemma sink_okD:
  assumes "sink_ok V F snk"
  shows "never_unwinds (sink_load snk)" "never_unwinds (sink_prepare_initialize snk pend)" "never_unwinds (sink_deliver snk pend)"
    "pair_behaved V F snd (sink_settle snk pend)"
    "pair_behaved V F snd (\<lambda>(world, t). case sink_persist_initialize snk pend world t of (res, t') \<Rightarrow> (res, (world, t')))"
  using assms by (auto simp: sink_ok_def pair_behaved_def txn_behaved_def split: prod.splits) (metis fst_conv snd_conv)+

lemma flow_left_commit:
  assumes env: "flow_env env V committed durable" and left: "flow_left env V committed durable fl fl1"
    and stk: "stack_inv (env_bincode env) (flow_runtime fl1) (V (inner t))" and q: "\<And>fl'. flow_left env V committed durable fl fl' \<Longrightarrow> Q () fl'"
    and r: "\<And>e fl'. \<not> is_unwind e \<Longrightarrow> flow_left env V committed durable fl fl' \<Longrightarrow> R e fl'"
  shows "wp (flow_commit env t) Q R fl1"
  by (rule wp_flow_commit [OF env _ stk]) (use left q r flow_left_trans [OF left flow_kept_left] in \<open>auto simp: flow_left_def\<close>)

lemma flow_left_sync:
  assumes env: "flow_env env V committed durable" and left: "flow_left env V committed durable fl fl1"
    and q: "\<And>fl'. flow_left env V committed durable fl fl' \<Longrightarrow> Q () fl'"
    and r: "\<And>e fl'. \<not> is_unwind e \<Longrightarrow> flow_left env V committed durable fl fl' \<Longrightarrow> R e fl'"
  shows "wp (flow_sync env) Q R fl1"
  by (rule wp_flow_sync [OF env]) (use left q r flow_left_trans [OF left flow_kept_left] in \<open>auto simp: flow_left_def\<close>)

lemma wp_initialize_sink:
  assumes env: "flow_env env V committed durable" and snk: "sink_ok V (rt_frames (flow_runtime fl)) snk" and left: "flow_left env V committed durable fl fl1"
    and q: "\<And>fl'. flow_left env V committed durable fl fl' \<Longrightarrow> Q () fl'"
    and r: "\<And>e fl'. \<not> is_unwind e \<Longrightarrow> flow_left env V committed durable fl fl' \<Longrightarrow> R e fl'"
  shows "wp (initialize_sink env snk pend) Q R fl1"
proof -
  have frames: "rt_frames (flow_runtime fl1) = rt_frames (flow_runtime fl)" using left by (simp add: flow_left_def same_graph_def)
  show ?thesis
    unfolding initialize_sink_def wp_bind wp_or_reopen wp_in_world
  proof (rule wp_never_unwinds [OF sink_okD(2) [OF snk]])
    fix initialize w
    show "wp (if initialize then sem_bind (sink_transaction env (\<lambda>(world, t).
           case sink_persist_initialize snk pend world t of (res, t') \<Rightarrow> (res, (world, t')))) (\<lambda>t. flow_commit env t)
        else sem_return ()) Q R (fl1\<lparr>flow_world := w\<rparr>)"
      using q r flow_left_updates(1) [OF left, of w]
      by (auto intro!: wp_sink_transaction [OF env] flow_left_commit [OF env] sink_okD(5) snk simp: frames)
  qed (use r flow_left_updates(1,2) [OF left] flow_left_updates(2) [OF flow_left_updates(1) [OF left]] in auto)
qed

lemma wp_deliver_pending:
  assumes env: "flow_env env V committed durable" and snk: "sink_ok V (rt_frames (flow_runtime fl)) snk" and left: "flow_left env V committed durable fl fl1"
  shows "wp (deliver_pending env snk pend) (\<lambda>_. flow_left env V committed durable fl)
    (\<lambda>e fl'. \<not> is_unwind e \<and> flow_left env V committed durable fl fl') fl1"
proof -
  let ?Q = "\<lambda>_. flow_left env V committed durable fl" and ?R = "\<lambda>e fl'. \<not> is_unwind e \<and> flow_left env V committed durable fl fl'"
  have frames: "rt_frames (flow_runtime fl2) = rt_frames (flow_runtime fl)" if "flow_left env V committed durable fl fl2" for fl2
    using that by (simp add: flow_left_def same_graph_def)
  have settle: "wp (or_reopen (sink_transaction env (sink_settle snk pend))) (\<lambda>t. wp (flow_commit env t) (\<lambda>_. wp (sem_return Progressed) ?Q ?R) ?R) ?R fl2"
    if "flow_left env V committed durable fl fl2" for fl2
    unfolding wp_or_reopen
    by (rule wp_sink_transaction [OF env that])
      (auto intro!: flow_left_commit [OF env] sink_okD(4) snk flow_left_updates simp: frames [OF that])
  have deliver: "wp (or_reopen (in_world (sink_deliver snk pend))) (\<lambda>_. wp (or_reopen (sink_transaction env (sink_settle snk pend)))
      (\<lambda>t. wp (flow_commit env t) (\<lambda>_. wp (sem_return Progressed) ?Q ?R) ?R) ?R) ?R fl2"
    if "flow_left env V committed durable fl fl2" for fl2
    unfolding wp_or_reopen [of "in_world _"] wp_in_world
    by (rule wp_never_unwinds [OF sink_okD(3) [OF snk]]) (auto intro!: settle flow_left_updates that simp del: wp_or_reopen)
  show ?thesis
    unfolding deliver_pending_def wp_bind
    by (rule flow_left_sync [OF env left]) (use deliver in auto)
qed

lemma wp_drain:
  assumes env: "flow_env env V committed durable" and inv: "flow_inv env V committed durable fl"
    and i: "i \<in> set (rt_sinks (flow_runtime fl))"
  shows "wp (drain env i) (\<lambda>_. flow_left env V committed durable fl)
    (\<lambda>e fl'. \<not> is_unwind e \<and> flow_left env V committed durable fl fl') fl"
proof -
  let ?Q = "\<lambda>_. flow_left env V committed durable fl" and ?R = "\<lambda>e fl'. \<not> is_unwind e \<and> flow_left env V committed durable fl fl'"
  have ok: "runtime_ok (flow_runtime fl)" "operations_ok V (flow_runtime fl)" using inv by (simp_all add: flow_inv_def)
  then obtain snk where snk: "i < length (rt_nodes (flow_runtime fl))" "rn_operation (rt_nodes (flow_runtime fl) ! i) = SinkOp snk"
    using i by (auto simp: runtime_ok_def is_sink_iff)
  have snk_ok: "sink_ok V (rt_frames (flow_runtime fl)) snk" using operations_okD [OF ok(2) snk(1)] snk(2) by simp
  let ?load = "\<lambda>fl. case sink_load snk (flow_world fl, snapshot_of env (flow_batch fl)) of (res, (world, _)) \<Rightarrow> (res, fl\<lparr>flow_world := world\<rparr>)"
  let ?rest = "\<lambda>loaded. case loaded of None \<Rightarrow> sem_return Idle
      | Some pend \<Rightarrow> sem_bind (initialize_sink env snk pend) (\<lambda>_. deliver_pending env snk pend)"
  obtain res world r where run: "sink_load snk (flow_world fl, snapshot_of env (flow_batch fl)) = (res, (world, r))" by (metis prod_cases3)
  have calm: "\<not> unwinds res" using sink_okD(1) [OF snk_ok] run unfolding never_unwinds_def by (metis fst_conv)
  note left = flow_left_updates(1) [OF flow_left_refl [OF inv], of world]
  have rest: "wp (?rest loaded) ?Q ?R (fl\<lparr>flow_world := world\<rparr>)" for loaded
    using left by (cases loaded) (auto intro!: wp_initialize_sink [OF env snk_ok] wp_deliver_pending [OF env snk_ok])
  have "wp (sem_bind ?load ?rest) ?Q ?R fl"
    using run calm left rest by (cases res) (auto simp: wp_def [of ?load])
  then show ?thesis by (rule wp_same) (simp add: drain_def snk)
qed

section \<open>One round\<close>

lemma top_read:
  assumes env: "flow_env env V committed durable" and inv: "flow_inv env V committed durable fl"
    and q: "empty_stack env committed fl \<Longrightarrow> Q None" "\<And>depth f. top_at env committed fl depth f \<Longrightarrow> Q (Some (depth, f))"
      "\<And>e. \<not> is_unwind e \<Longrightarrow> R e"
  shows "wp (op_store (frames_top (env_engine env) (env_bincode env) (rt_frames (flow_runtime fl)))) (\<lambda>a _. Q a) (\<lambda>e _. R e)
    (snapshot_of env (flow_batch fl))"
proof -
  obtain stk where stk: "stack_rep (env_bincode env) (rt_frames (flow_runtime fl)) (flow_contents committed fl) stk" "stack_ok (flow_runtime fl) stk"
    using inv by (auto simp: flow_inv_def stack_inv_def)
  have "length stk \<le> MAX_DEPTH" using stack_depth [OF _ stk(2)] inv by (simp add: flow_inv_def)
  then have small: "length stk < 2 ^ 32" by (simp add: MAX_DEPTH_def)
  have "Q (stack_top stk)"
  proof (cases stk rule: rev_cases)
    case Nil
    then show ?thesis using q(1) stk by (simp add: stack_top_def empty_stack_def)
  next
    case (snoc pre e)
    then have "top_at env committed fl (word_of_nat (length pre)) (fst e)"
      using stk small unat_word_of_depth [of "length pre"] unfolding top_at_def by (intro exI [of _ pre] exI [of _ "snd e"]) simp
    then show ?thesis using q(2) snoc by (simp add: stack_top_def)
  qed
  moreover have "engine_laws (env_engine env) V" "bincode_laws (env_bincode env)" using env by (simp_all add: flow_env_def)
  moreover have "stack_rep (env_bincode env) (rt_frames (flow_runtime fl)) (V (ref_view (snapshot_of env (flow_batch fl)))) stk"
    using stk(1) snapshot_contents [OF env] by simp
  ultimately show ?thesis
    unfolding wp_op_store by (intro wp_frames_top [where stk = stk and V = V]) (use small q(3) in auto)
qed

lemma flow_left_spend: "flow_inv env V committed durable fl \<Longrightarrow> flow_left env V committed durable fl (fl\<lparr>remaining := n\<rparr>)"
  by (simp add: flow_left_def)

lemma round_step_bind:
  assumes "round_step env V committed durable m fl"
    and "\<And>a fl'. flow_left env V committed durable fl fl' \<Longrightarrow> round_step env V committed durable (f a) fl'"
  shows "round_step env V committed durable (sem_bind m f) fl"
  unfolding round_step_def wp_bind
proof (rule wp_mono [OF assms(1) [unfolded round_step_def]])
  fix a fl'
  assume left: "flow_left env V committed durable fl fl'"
  have "length (rt_nodes (flow_runtime fl')) = length (rt_nodes (flow_runtime fl))"
    using left by (auto simp: flow_left_def dest: same_graph_nodes(1))
  then show "wp (f a) (\<lambda>_. flow_left env V committed durable fl)
      (\<lambda>(i, e) fl'. \<not> is_unwind e \<and> i < length (rt_nodes (flow_runtime fl)) \<and> flow_left env V committed durable fl fl') fl'"
    using assms(2) [OF left, of a] unfolding round_step_def by (elim wp_mono) (auto intro: flow_left_trans [OF left])
qed

lemma round_step_action:
  assumes env: "flow_env env V committed durable" and inv: "flow_inv env V committed durable fl"
    and top: "case act of None \<Rightarrow> empty_stack env committed fl | Some (depth, f) \<Rightarrow> top_at env committed fl depth f"
    and rem: "allowance act \<le> remaining fl"
  shows "round_step env V committed durable
     (case act of
        Some (depth, f) \<Rightarrow> blame (frame_head f) (advance_frame env depth f)
      | None \<Rightarrow> sem_bind (advance_next_root env) (\<lambda>(_, action). sem_return action)) fl"
proof (cases act)
  case None
  then show ?thesis
    using round_step_advance_next_root [OF env inv] top by (auto intro!: round_step_bind round_step_return simp: flow_left_def)
next
  case (Some p)
  obtain depth f where p: "p = (depth, f)" by (cases p)
  have f: "top_at env committed fl depth f" using top Some p by simp
  have "frame_head f < length (rt_nodes (flow_runtime fl))" by (rule top_at_slot [OF f])
  moreover have "wp (advance_frame env depth f) (\<lambda>_. flow_left env V committed durable fl)
      (\<lambda>e fl'. \<not> is_unwind e \<and> flow_left env V committed durable fl fl') fl"
    using flow_step_advance_frame [OF env inv f] rem Some p unfolding flow_step_def by (auto elim: wp_mono dest: flow_kept_left)
  ultimately show ?thesis using Some p by (simp add: round_step_blame)
qed

lemma round_step_stack_actions:
  assumes env: "flow_env env V committed durable"
  shows "flow_inv env V committed durable fl \<Longrightarrow> source < length (rt_nodes (flow_runtime fl)) \<Longrightarrow>
    round_step env V committed durable (stack_actions env source n outcome) fl"
proof (induction n arbitrary: fl outcome)
  case (Suc n)
  show ?case
  proof (cases "remaining fl < CONTROL_BYTES")
    case True
    then have "stack_actions env source (Suc n) outcome fl = sem_return outcome fl" by (simp add: sem_return_def)
    from round_step_same [where m = "stack_actions env source (Suc n) outcome" and fl = fl and fl' = fl,
        OF round_step_return [OF Suc.prems(1)] this flow_left_refl [OF Suc.prems(1)]] show ?thesis .
  next
    case False
    let ?fl = "fl\<lparr>remaining := remaining fl - CONTROL_BYTES\<rparr>"
    have inv: "flow_inv env V committed durable ?fl" using Suc.prems(1) by simp
    let ?act = "\<lambda>act. sem_bind
        (case act of
           Some (depth, f) \<Rightarrow> blame (frame_head f) (advance_frame env depth f)
         | None \<Rightarrow> sem_bind (advance_next_root env) (\<lambda>(_, action). sem_return action)) (\<lambda>action.
        if action \<noteq> Progressed then sem_return (join outcome action)
        else stack_actions env source n (join outcome action))"
    let ?body = "sem_bind (blame source (with_read env (\<lambda>_. op_store (frames_top (env_engine env) (env_bincode env) (rt_frames (flow_runtime fl)))))) (\<lambda>act fl1.
        if remaining fl1 < allowance act then (Inr outcome, fl1) else ?act act fl1)"
    have eq: "stack_actions env source (Suc n) outcome fl = ?body ?fl" using False by (simp add: bind_blame_spend)
    have act: "wp (\<lambda>fl1. if remaining fl1 < allowance act then (Inr outcome, fl1) else ?act act fl1) (\<lambda>_. flow_left env V committed durable ?fl)
        (\<lambda>(i, e) fl'. \<not> is_unwind e \<and> i < length (rt_nodes (flow_runtime ?fl)) \<and> flow_left env V committed durable ?fl fl') ?fl"
      if top: "case act of None \<Rightarrow> empty_stack env committed ?fl | Some (depth, f) \<Rightarrow> top_at env committed ?fl depth f" for act
    proof (cases "remaining ?fl < allowance act")
      case True
      then show ?thesis using flow_left_refl [OF inv] by (simp add: wp_def)
    next
      case False
      have "round_step env V committed durable (?act act) ?fl"
      proof (rule round_step_bind)
        show "round_step env V committed durable (if action \<noteq> Progressed then sem_return (join outcome action)
            else stack_actions env source n (join outcome action)) fl'" if left: "flow_left env V committed durable ?fl fl'" for action fl'
        proof -
          have "flow_inv env V committed durable fl'" "source < length (rt_nodes (flow_runtime fl'))"
            using left Suc.prems(2) same_graph_nodes(1) [of "flow_runtime ?fl" "flow_runtime fl'"] by (auto simp: flow_left_def)
          then show ?thesis using Suc.IH by (auto intro: round_step_return)
        qed
      qed (rule round_step_action [OF env inv top], use False in auto)
      then show ?thesis using False by (simp add: round_step_def wp_def)
    qed
    have read: "wp (op_store (frames_top (env_engine env) (env_bincode env) (rt_frames (flow_runtime ?fl))))
        (\<lambda>a _. wp (\<lambda>fl1. if remaining fl1 < allowance a then (Inr outcome, fl1) else ?act a fl1) (\<lambda>_. flow_left env V committed durable ?fl)
          (\<lambda>(i, e) fl'. \<not> is_unwind e \<and> i < length (rt_nodes (flow_runtime ?fl)) \<and> flow_left env V committed durable ?fl fl') ?fl)
        (\<lambda>e _. \<not> is_unwind e \<and> source < length (rt_nodes (flow_runtime ?fl)) \<and> flow_left env V committed durable ?fl ?fl)
        (snapshot_of env (flow_batch ?fl))"
      by (rule top_read [OF env inv]; (rule act)?) (use Suc.prems(2) flow_left_refl [OF inv] in auto)
    have "round_step env V committed durable ?body ?fl"
      using read unfolding round_step_def wp_bind wp_blame wp_with_read by simp
    from round_step_same [where m = "stack_actions env source (Suc n) outcome" and fl = fl and fl' = ?fl, OF this eq flow_left_spend [OF Suc.prems(1)]]
    show ?thesis .
  qed
qed (simp add: round_step_return)

lemma round_step_drain_next:
  assumes env: "flow_env env V committed durable" and inv: "flow_inv env V committed durable fl"
  shows "round_step env V committed durable (\<lambda>fl2.
      (let rt2 = flow_runtime fl2 in
       case index_of (rt_sinks rt2) (sink_cursor rt2) of
         Inl e \<Rightarrow> (Inl (source, e), fl2)
       | Inr sink \<Rightarrow>
           sem_bind (blame sink (drain env sink)) (\<lambda>drained. sem_return (join outcome drained))
             (fl2\<lparr>flow_runtime := rt2\<lparr>sink_cursor := (sink_cursor rt2 + 1) mod length (rt_sinks rt2)\<rparr>\<rparr>))) fl" (is "round_step _ _ _ _ ?m fl")
proof -
  let ?rt = "flow_runtime fl"
  let ?sink = "rt_sinks ?rt ! sink_cursor ?rt"
  let ?fl = "fl\<lparr>flow_runtime := ?rt\<lparr>sink_cursor := (sink_cursor ?rt + 1) mod length (rt_sinks ?rt)\<rparr>\<rparr>"
  have ok: "runtime_ok ?rt" using inv by (simp add: flow_inv_def)
  have c: "sink_cursor ?rt < length (rt_sinks ?rt)" using ok by (simp add: runtime_ok_def)
  then have sink: "?sink \<in> set (rt_sinks ?rt)" "?sink < length (rt_nodes ?rt)" using ok by (auto simp: runtime_ok_def)
  have left: "flow_left env V committed durable fl ?fl" using flow_left_cursor [OF inv] by blast
  then have inv': "flow_inv env V committed durable ?fl" by (simp add: flow_left_def)
  have "round_step env V committed durable (blame ?sink (drain env ?sink)) ?fl"
    by (rule round_step_blame [OF wp_drain [OF env inv']]) (use sink in simp_all)
  then have "round_step env V committed durable (sem_bind (blame ?sink (drain env ?sink)) (\<lambda>drained. sem_return (join outcome drained))) ?fl"
    by (rule round_step_bind) (simp add: flow_left_def round_step_return)
  from round_step_same [where m = ?m and fl = fl and fl' = ?fl, OF this _ left] c show ?thesis by (simp add: Let_def)
qed

lemma round_step_reset:
  assumes "flow_inv env V committed durable fl" "round_step env V committed durable m (fl\<lparr>remaining := n\<rparr>)"
  shows "round_step env V committed durable (\<lambda>fl0. m (fl0\<lparr>remaining := n\<rparr>)) fl"
  by (rule round_step_same [where m = "\<lambda>fl0. m (fl0\<lparr>remaining := n\<rparr>)", OF assms(2) refl flow_left_spend [OF assms(1)]])

lemma round_step_round:
  assumes env: "flow_env env V committed durable" and inv: "flow_inv env V committed durable fl"
  shows "round_step env V committed durable (round env) fl"
proof -
  let ?rt = "flow_runtime fl"
  let ?source = "rt_sources ?rt ! source_cursor ?rt"
  let ?fl = "fl\<lparr>flow_runtime := ?rt\<lparr>source_cursor := (source_cursor ?rt + 1) mod length (rt_sources ?rt)\<rparr>\<rparr>"
  let ?drain = "\<lambda>outcome fl2.
      (let rt2 = flow_runtime fl2 in
       case index_of (rt_sinks rt2) (sink_cursor rt2) of
         Inl e \<Rightarrow> (Inl (?source, e), fl2)
       | Inr sink \<Rightarrow>
           sem_bind (blame sink (drain env sink)) (\<lambda>drained. sem_return (join outcome drained))
             (fl2\<lparr>flow_runtime := rt2\<lparr>sink_cursor := (sink_cursor rt2 + 1) mod length (rt_sinks rt2)\<rparr>\<rparr>))"
  have ok: "runtime_ok ?rt" using inv by (simp add: flow_inv_def)
  have c: "source_cursor ?rt < length (rt_sources ?rt)" using ok by (simp add: runtime_ok_def)
  then have source: "?source \<in> set (rt_sources ?rt)" "?source < length (rt_nodes ?rt)" using ok by (auto simp: runtime_ok_def)
  have left: "flow_left env V committed durable fl ?fl" using flow_left_cursor [OF inv] by blast
  then have inv': "flow_inv env V committed durable ?fl" by (simp add: flow_left_def)
  have rest: "round_step env V committed durable (\<lambda>fl0. sem_bind (stack_actions env ?source STACK_ACTIONS outcome) ?drain (fl0\<lparr>remaining := STACK_ROUND_BYTES\<rparr>)) fl1"
    if fl1: "flow_left env V committed durable ?fl fl1" for outcome fl1
  proof -
    have "?source < length (rt_nodes (flow_runtime fl1))" "flow_inv env V committed durable fl1"
      using fl1 source(2) same_graph_nodes(1) [of "flow_runtime ?fl" "flow_runtime fl1"] by (auto simp: flow_left_def)
    then show ?thesis
      by (intro round_step_reset round_step_bind round_step_stack_actions [OF env] round_step_drain_next [OF env]) (auto simp: flow_left_def)
  qed
  have "round_step env V committed durable (blame ?source (capture env ?source)) ?fl"
    by (rule round_step_blame [OF wp_capture [OF env inv']]) (use source in simp_all)
  then have "round_step env V committed durable (sem_bind (blame ?source (capture env ?source)) (\<lambda>outcome fl0.
      sem_bind (stack_actions env ?source STACK_ACTIONS outcome) ?drain (fl0\<lparr>remaining := STACK_ROUND_BYTES\<rparr>))) ?fl"
    by (rule round_step_bind) (rule rest)
  from round_step_same [where m = "round env" and fl = fl and fl' = ?fl, OF this _ left] c show ?thesis
    by (simp add: round_def Let_def)
qed

end
