(* ===== verification/Store_Confined.thy ===== *)
theory Store_Confined
  imports Store_Queue
begin

text \<open>
  What the collections promise to whoever shares a transaction with them, however corrupt the stored
  bytes and however often the engine fails: their writes are recorded, stay below the namespace they
  were given, and no call panics.

  \<open>confined V W pan get m\<close> says so of a computation \<open>m\<close> whose state holds a transaction (\<open>get\<close>), may write
  the physical keys \<open>W\<close>, and whose errors are panics if \<open>pan\<close>. \<open>panic_free\<close> is the absence of panics of
  computations without a transaction to write. The rules follow the structure of a computation, so that
  a method built from collection calls is confined to the union of its namespaces by one \<open>intro\<close>.
\<close>

section \<open>Definitions\<close>

fun is_panicked :: "store_error \<Rightarrow> bool" where
  "is_panicked (Panicked _) = True"
| "is_panicked _ = False"

definition panic_free :: "('e \<Rightarrow> bool) \<Rightarrow> ('t, 'e, 'a) sem \<Rightarrow> bool" where
  "panic_free pan m \<longleftrightarrow> (\<forall>s e. fst (m s) = Inl e \<longrightarrow> \<not> pan e)"

definition confined_step ::
  "('s \<Rightarrow> (bytes \<rightharpoonup> bytes)) \<Rightarrow> bytes set \<Rightarrow> 's transaction \<Rightarrow> 's transaction \<Rightarrow> bool" where
  "confined_step V W t t' \<longleftrightarrow>
     (has_writes t \<longrightarrow> has_writes t') \<and> (\<not> has_writes t' \<longrightarrow> inner t' = inner t) \<and>
     (\<forall>k. k \<notin> W \<longrightarrow> V (inner t') k = V (inner t) k)"

definition confined ::
  "('s \<Rightarrow> (bytes \<rightharpoonup> bytes)) \<Rightarrow> bytes set \<Rightarrow> ('e \<Rightarrow> bool) \<Rightarrow> ('q \<Rightarrow> 's transaction) \<Rightarrow> ('q, 'e, 'a) sem \<Rightarrow> bool" where
  "confined V W pan get m \<longleftrightarrow> (\<forall>q. confined_step V W (get q) (get (snd (m q)))) \<and> panic_free pan m"

text \<open>The physical keys of a namespace.\<close>

definition below :: "bytes \<Rightarrow> bytes set" where
  "below p = {k. \<exists>r. k = p @ r}"

section \<open>Composition\<close>

named_theorems panic_free_intros \<open>computations that do not panic\<close>
named_theorems confined_intros \<open>computations that write inside a set of keys\<close>

lemma panic_freeD: "panic_free pan m \<Longrightarrow> m s = (Inl e, t) \<Longrightarrow> \<not> pan e"
  unfolding panic_free_def by (metis fst_conv)

lemma panic_free_return [panic_free_intros]: "panic_free pan (sem_return a)"
  by (simp add: panic_free_def sem_return_def)

lemma panic_free_throw [panic_free_intros]: "\<not> pan e \<Longrightarrow> panic_free pan (sem_throw e)"
  by (simp add: panic_free_def sem_throw_def)

lemma panic_free_lift [panic_free_intros]: "(\<And>e. r = Inl e \<Longrightarrow> \<not> pan e) \<Longrightarrow> panic_free pan (sem_lift r)"
  by (simp add: panic_free_def sem_lift_def)

lemma panic_free_bind [panic_free_intros]: "panic_free pan m \<Longrightarrow> (\<And>a. panic_free pan (f a)) \<Longrightarrow> panic_free pan (sem_bind m f)"
  by (auto simp: panic_free_def sem_bind_def split: prod.splits sum.splits) (metis fst_conv)+

lemma panic_free_try [panic_free_intros]: "(\<And>r. (\<And>e. r = Inl e \<Longrightarrow> \<not> pan e) \<Longrightarrow> panic_free pan (h r)) \<Longrightarrow> panic_free pan m \<Longrightarrow> panic_free pan (sem_try m h)"
  by (auto simp: panic_free_def sem_try_def split: prod.splits) (metis fst_conv)

lemma panic_free_if [panic_free_intros]: "(c \<Longrightarrow> panic_free pan m) \<Longrightarrow> (\<not> c \<Longrightarrow> panic_free pan n) \<Longrightarrow> panic_free pan (if c then m else n)"
  by simp

lemma panic_free_option [panic_free_intros]:
  "panic_free pan m \<Longrightarrow> (\<And>a. panic_free pan (f a)) \<Longrightarrow> panic_free pan (case x of None \<Rightarrow> m | Some a \<Rightarrow> f a)"
  by (cases x) auto

lemma panic_free_sum [panic_free_intros]:
  "(\<And>e. x = Inl e \<Longrightarrow> panic_free pan (f e)) \<Longrightarrow> (\<And>a. panic_free pan (g a)) \<Longrightarrow> panic_free pan (case x of Inl e \<Rightarrow> f e | Inr a \<Rightarrow> g a)"
  by (cases x) auto

lemma panic_free_prod [panic_free_intros]: "(\<And>a b. panic_free pan (f a b)) \<Longrightarrow> panic_free pan (case x of (a, b) \<Rightarrow> f a b)"
  by (cases x) auto

lemma panic_free_state: "(\<And>a. panic_free pan (f a)) \<Longrightarrow> panic_free pan (\<lambda>s. f (g s) s)"
  by (auto simp: panic_free_def)

lemma confined_step_refl [simp]: "confined_step V W t t"
  by (simp add: confined_step_def)

lemma confined_step_trans: "confined_step V W t u \<Longrightarrow> confined_step V W u v \<Longrightarrow> confined_step V W t v"
  by (auto simp: confined_step_def)

lemma confined_panic_free: "confined V W pan get m \<Longrightarrow> panic_free pan m"
  by (simp add: confined_def)

lemma confinedD: "confined V W pan get m \<Longrightarrow> m q = (r, q') \<Longrightarrow> confined_step V W (get q) (get q')"
  unfolding confined_def by (metis snd_conv)

lemma confined_mono: "confined V W pan get m \<Longrightarrow> W \<subseteq> W' \<Longrightarrow> confined V W' pan get m"
  by (auto simp: confined_def confined_step_def)

lemma confined_pure: "(\<And>q. get (snd (m q)) = get q) \<Longrightarrow> panic_free pan m \<Longrightarrow> confined V W pan get m"
  by (simp add: confined_def)

lemma confined_return [confined_intros]: "confined V W pan get (sem_return a)"
  by (intro confined_pure panic_free_intros) (simp add: sem_return_def)

lemma confined_throw [confined_intros]: "\<not> pan e \<Longrightarrow> confined V W pan get (sem_throw e)"
  by (intro confined_pure panic_free_intros) (simp_all add: sem_throw_def)

lemma confined_lift [confined_intros]: "(\<And>e. r = Inl e \<Longrightarrow> \<not> pan e) \<Longrightarrow> confined V W pan get (sem_lift r)"
  by (cases r) (auto simp: sem_lift_simps intro: confined_intros)

lemma confined_bind [confined_intros]:
  assumes "confined V W pan get m" "\<And>a. confined V W pan get (f a)"
  shows "confined V W pan get (sem_bind m f)"
  unfolding confined_def
proof (intro conjI allI)
  fix q
  obtain r u where m: "m q = (r, u)" by fastforce
  from confinedD [OF assms(1) m] confinedD [OF assms(2) prod.collapse [symmetric], of u "projr r"]
  show "confined_step V W (get q) (get (snd (sem_bind m f q)))"
    by (cases r) (auto simp: sem_bind_def m intro: confined_step_trans)
qed (intro panic_free_intros confined_panic_free [OF assms(1)] confined_panic_free [OF assms(2)])

lemma confined_if [confined_intros]:
  "(c \<Longrightarrow> confined V W pan get m) \<Longrightarrow> (\<not> c \<Longrightarrow> confined V W pan get n) \<Longrightarrow> confined V W pan get (if c then m else n)"
  by simp

lemma confined_option [confined_intros]:
  "confined V W pan get m \<Longrightarrow> (\<And>a. confined V W pan get (f a)) \<Longrightarrow>
   confined V W pan get (case x of None \<Rightarrow> m | Some a \<Rightarrow> f a)"
  by (cases x) auto

lemma confined_sum [confined_intros]:
  "(\<And>e. x = Inl e \<Longrightarrow> confined V W pan get (f e)) \<Longrightarrow> (\<And>a. confined V W pan get (g a)) \<Longrightarrow>
   confined V W pan get (case x of Inl e \<Rightarrow> f e | Inr a \<Rightarrow> g a)"
  by (cases x) auto

lemma confined_prod [confined_intros]:
  "(\<And>a b. confined V W pan get (f a b)) \<Longrightarrow> confined V W pan get (case x of (a, b) \<Rightarrow> f a b)"
  by (cases x) auto

section \<open>Store calls\<close>

lemma panic_free_record_result [panic_free_intros]:
  "(\<And>s e. res s = Inl e \<Longrightarrow> \<not> is_panicked e) \<Longrightarrow> panic_free is_panicked (\<lambda>r. ref_record_result (res r) r)"
  by (auto simp: panic_free_def ref_record_result_def split: sum.splits)

lemma panic_free_poison:
  "(\<And>e. res = Inl e \<Longrightarrow> \<not> is_panicked (f e)) \<Longrightarrow> panic_free is_panicked (ref_poison_on_error f res)"
  by (auto simp: panic_free_def ref_poison_on_error_def split: sum.splits)

lemma panic_free_poison_on_error [panic_free_intros]: "panic_free is_panicked (ref_poison_on_error Codec res)"
  by (rule panic_free_poison) simp

lemma panic_free_ensure_healthy [panic_free_intros]: "panic_free is_panicked ref_ensure_healthy"
  by (auto simp: panic_free_def ref_ensure_healthy_def)

lemma panic_free_ensure_access [panic_free_intros]: "panic_free is_panicked (ref_ensure_access h)"
  unfolding ref_ensure_access_def
  by (intro panic_free_intros) (auto simp: panic_free_def ref_record_result_def)

lemma storage_result_panic: "storage_result op res = Inl e \<Longrightarrow> \<not> is_panicked e"
  by (auto simp: storage_result_def split: sum.splits)

lemma decode_bounded_panic: "decode_bounded_value C v n = Inl e \<Longrightarrow> \<not> is_panicked e"
  by (auto simp: decode_bounded_value_def split: option.splits if_splits sum.splits)

lemma panic_free_bind_read [panic_free_intros]: "panic_free is_panicked (bind_read h)"
  unfolding bind_read_def by (intro panic_free_intros)

lemma panic_free_value_len [panic_free_intros]: "panic_free is_panicked (value_len E p k)"
  unfolding value_len_def ref_value_len_def
  by (intro panic_free_intros) (auto simp: map_sum_def dest: storage_result_panic split: sum.splits)

lemma panic_free_contains_key [panic_free_intros]: "panic_free is_panicked (contains_key E p k)"
  unfolding contains_key_def by (intro panic_free_intros)

lemma panic_free_get_bounded [panic_free_intros]: "panic_free is_panicked (get_bounded E C p k n)"
  unfolding get_bounded_def ref_get_bounded_def
  by (intro panic_free_intros) (auto dest: storage_result_panic decode_bounded_panic split: sum.splits)

lemma confined_as_read [confined_intros]:
  assumes "keeps_ref m" "panic_free is_panicked m"
  shows "confined V W is_panicked id (as_read m)"
proof -
  have "confined_step V W t (snd (as_read m t))" for t
    using as_read_cases [OF assms(1), of t] by (auto simp: confined_step_def)
  moreover have "panic_free is_panicked (as_read m)"
    using assms(2) by (simp add: panic_free_def as_read_def split: prod.split transaction_ref.split) (metis fst_conv)
  ultimately show ?thesis by (simp add: confined_def)
qed

text \<open>A handle is bound to its own namespace.\<close>

lemma bind_access_result: "bind_access h t = (Inr p, t') \<Longrightarrow> p = data_prefix (data_id h)"
  by (auto simp: bind_access_def as_read_def bind_read_def sem_bind_def sem_return_def
      split: prod.splits sum.splits transaction_ref.splits)

lemma confined_bind_known:
  assumes "confined V W pan get m" "\<And>q a q'. m q = (Inr a, q') \<Longrightarrow> a = b" "confined V W pan get (f b)"
  shows "confined V W pan get (sem_bind m f)"
proof -
  have eq: "sem_bind m f = sem_bind m (\<lambda>_. f b)"
    by (rule ext) (auto simp: sem_bind_def split: prod.splits sum.splits dest: assms(2))
  show ?thesis unfolding eq by (intro confined_intros assms(1,3))
qed

lemma confined_bound: "confined V W is_panicked id (bind_access h)"
  unfolding bind_access_def by (intro confined_intros poison_intros panic_free_intros)

lemma confined_bind_access [confined_intros]:
  "confined V W is_panicked id (f (data_prefix (data_id h))) \<Longrightarrow> confined V W is_panicked id (sem_bind (bind_access h) f)"
  by (rule confined_bind_known [OF confined_bound bind_access_result])

lemma confined_write [confined_intros]:
  assumes "\<And>t s. res t = Inr s \<Longrightarrow> \<forall>k. k \<notin> W \<longrightarrow> V s k = V (inner t) k" "\<And>t e. res t = Inl e \<Longrightarrow> \<not> is_panicked e"
  shows "confined V W is_panicked id (\<lambda>t. record_write_result (res t) t)"
  using assms by (auto simp: confined_def confined_step_def panic_free_def record_write_result_def record_result_def split: sum.splits)

lemma confined_ensure_healthy [confined_intros]: "confined V W is_panicked id ensure_healthy"
  by (auto simp: confined_def panic_free_def ensure_healthy_def)

lemma storage_result_Inr: "storage_result op res = Inr a \<longleftrightarrow> res = Inr a"
  by (auto simp: storage_result_def split: sum.splits)

lemma confined_data_put [confined_intros]:
  assumes "engine_laws E V" "below p \<subseteq> W"
  shows "confined V W is_panicked id (data_put E p k v)"
  unfolding data_put_def
proof (intro confined_intros storage_result_panic, goal_cases)
  case (1 _ t s)
  then have "V s = (V (inner t))(physical_key p k \<mapsto> v)"
    using assms(1) by (simp add: engine_laws_def storage_result_Inr)
  then show ?case using assms(2) by (auto simp: below_def physical_key_def)
qed

lemma confined_data_erase [confined_intros]:
  assumes "engine_laws E V" "below p \<subseteq> W"
  shows "confined V W is_panicked id (data_erase E p k)"
  unfolding data_erase_def
proof (intro confined_intros storage_result_panic, goal_cases)
  case (1 _ t s)
  then have "V s = (V (inner t))(physical_key p k := None)"
    using assms(1) by (simp add: engine_laws_def storage_result_Inr)
  then show ?case using assms(2) by (auto simp: below_def physical_key_def)
qed

lemma confined_data_delete [confined_intros]:
  "engine_laws E V \<Longrightarrow> below p \<subseteq> W \<Longrightarrow> confined V W is_panicked id (data_delete E p k)"
  unfolding data_delete_def by (intro confined_intros poison_intros panic_free_intros)

section \<open>Collections\<close>

lemma panic_free_cell_get_bounded [panic_free_intros]: "panic_free is_panicked (cell_get_bounded E CV p n)"
  unfolding cell_get_bounded_def by (intro panic_free_intros)

lemma confined_cell_set [confined_intros]:
  "engine_laws E V \<Longrightarrow> below p \<subseteq> W \<Longrightarrow> confined V W is_panicked id (cell_set E CV p v)"
  unfolding cell_set_def by (intro confined_intros poison_intros panic_free_intros)

lemma confined_cell_clear [confined_intros]:
  "engine_laws E V \<Longrightarrow> below p \<subseteq> W \<Longrightarrow> confined V W is_panicked id (cell_clear E p)"
  unfolding cell_clear_def by (intro confined_intros poison_intros panic_free_intros)

lemma panic_free_map_get_bounded [panic_free_intros]: "panic_free is_panicked (map_get_bounded E CK CV p k n)"
  unfolding map_get_bounded_def by (intro panic_free_intros)

lemma confined_map_put [confined_intros]:
  "engine_laws E V \<Longrightarrow> below p \<subseteq> W \<Longrightarrow> confined V W is_panicked id (map_put E CK CV p k v)"
  unfolding map_put_def by (intro confined_intros poison_intros panic_free_intros)

lemma confined_map_remove [confined_intros]:
  "engine_laws E V \<Longrightarrow> below p \<subseteq> W \<Longrightarrow> confined V W is_panicked id (map_remove E CK p k)"
  unfolding map_remove_def by (intro confined_intros poison_intros panic_free_intros)

subsection \<open>Weights\<close>

lemma checked_weight_panic: "checked_weight w d = Inl e \<Longrightarrow> \<not> is_panicked e"
  by (auto simp: checked_weight_def split: if_splits option.splits)

lemma panic_free_read_weight [panic_free_intros]: "panic_free is_panicked (read_weight E p k)"
  unfolding read_weight_def
proof (rule panic_free_try, goal_cases)
  case (1 r)
  then show ?case by (auto intro!: panic_free_intros panic_free_poison split: sum.split store_error.split)
qed (rule panic_free_intros)

lemma confined_set_encoded [confined_intros]:
  "engine_laws E V \<Longrightarrow> below p \<subseteq> W \<Longrightarrow> confined V W is_panicked id (set_encoded E p k w)"
  unfolding set_encoded_def by (intro confined_intros)

lemma confined_adjust_encoded [confined_intros]:
  "engine_laws E V \<Longrightarrow> below p \<subseteq> W \<Longrightarrow> confined V W is_panicked id (adjust_encoded E p k d)"
  unfolding adjust_encoded_def by (intro confined_intros poison_intros panic_free_intros panic_free_poison) (simp add: checked_weight_panic)

lemma panic_free_map_multiplicity [panic_free_intros]: "panic_free is_panicked (map_multiplicity E CK p k)"
  unfolding map_multiplicity_def by (intro panic_free_intros)

lemma confined_map_adjust [confined_intros]:
  "engine_laws E V \<Longrightarrow> below p \<subseteq> W \<Longrightarrow> confined V W is_panicked id (map_adjust E CK p k d)"
  unfolding map_adjust_def by (intro confined_intros poison_intros panic_free_intros)

lemma confined_map_set_multiplicity [confined_intros]:
  "engine_laws E V \<Longrightarrow> below p \<subseteq> W \<Longrightarrow> confined V W is_panicked id (map_set_multiplicity E CK p k w)"
  unfolding map_set_multiplicity_def by (intro confined_intros poison_intros panic_free_intros)

subsection \<open>Queues\<close>

lemma encoded_item_bytes_panic: "encoded_item_bytes n = Inl e \<Longrightarrow> \<not> is_panicked e"
  by (auto simp: encoded_item_bytes_def Let_def split: if_splits option.splits)

lemma namespace_is_empty_panic: "namespace_is_empty E s p x y = Inl e \<Longrightarrow> \<not> is_panicked e"
  by (auto simp: namespace_is_empty_def Let_def split: prod.splits list.splits option.splits if_splits)

lemma panic_free_is_physically_empty [panic_free_intros]: "panic_free is_panicked (is_physically_empty E p)"
  unfolding is_physically_empty_def partition_is_empty_def by (intro panic_free_intros namespace_is_empty_panic)

lemma panic_free_read_metadata [panic_free_intros]: "panic_free is_panicked (read_metadata E p)"
proof -
  have "panic_free is_panicked (case e of ItemTooLarge _ _ \<Rightarrow>
       (\<lambda>r. ref_record_result (Inl (CorruptQueue m)) r) | _ \<Rightarrow> (sem_lift (Inl e) :: ('s, bytes option) read_op))"
    if "\<not> is_panicked e" for e m
    using that by (cases e) (auto intro!: panic_free_intros)
  then show ?thesis
    unfolding read_metadata_def by (intro panic_free_intros) (auto split: option.splits)
qed

lemma panic_free_read_front [panic_free_intros]: "panic_free is_panicked (read_front E CV p m n)"
  unfolding read_front_def
  by (intro panic_free_intros) (auto dest: encoded_item_bytes_panic split: option.splits)

lemma panic_free_front_bounded [panic_free_intros]: "panic_free is_panicked (front_bounded E CV p n)"
  unfolding front_bounded_def by (intro panic_free_intros)

lemma panic_free_queue_is_empty [panic_free_intros]: "panic_free is_panicked (queue_is_empty E p)"
  unfolding queue_is_empty_def by (intro panic_free_intros)

lemma panic_free_queue_queued_bytes [panic_free_intros]: "panic_free is_panicked (queue_queued_bytes E p)"
  unfolding queue_queued_bytes_def by (intro panic_free_intros)

lemma confined_queue_fail [confined_intros]: "\<not> is_panicked e \<Longrightarrow> confined V W is_panicked id (queue_fail e)"
  unfolding queue_fail_def by (intro confined_intros poison_intros panic_free_intros) auto

lemma confined_write_metadata [confined_intros]:
  "engine_laws E V \<Longrightarrow> below p \<subseteq> W \<Longrightarrow> confined V W is_panicked id (write_metadata E p m)"
  unfolding write_metadata_def by (intro confined_intros) auto

lemma confined_try_push [confined_intros]:
  "engine_laws E V \<Longrightarrow> below p \<subseteq> W \<Longrightarrow> confined V W is_panicked id (try_push E CV p v c)"
  unfolding try_push_def Let_def
  by (intro confined_intros poison_intros panic_free_intros) (auto dest: encoded_item_bytes_panic)

lemma confined_finish_front_removal [confined_intros]:
  "engine_laws E V \<Longrightarrow> below p \<subseteq> W \<Longrightarrow> confined V W is_panicked id (finish_front_removal E p a b c)"
  unfolding finish_front_removal_def
  by (intro confined_intros poison_intros panic_free_intros) auto

lemma confined_pop_front_bounded [confined_intros]:
  "engine_laws E V \<Longrightarrow> below p \<subseteq> W \<Longrightarrow> confined V W is_panicked id (pop_front_bounded E CV p n)"
  unfolding pop_front_bounded_def by (intro confined_intros poison_intros panic_free_intros)

lemma confined_discard_loop [confined_intros]:
  assumes "engine_laws E V" "below p \<subseteq> W"
  shows "confined V W is_panicked id (discard_loop E p tl' n hd' c)"
proof (induction n arbitrary: hd' c)
  case (Suc n)
  show ?case
    unfolding discard_loop.simps
    by (intro confined_intros poison_intros panic_free_intros assms Suc.IH) (auto dest: encoded_item_bytes_panic)
qed (auto intro: confined_intros)

lemma confined_discard_front [confined_intros]:
  "engine_laws E V \<Longrightarrow> below p \<subseteq> W \<Longrightarrow> confined V W is_panicked id (discard_front E p n)"
  unfolding discard_front_def by (intro confined_intros poison_intros panic_free_intros)

end
