(* ===== verification/Source_Contract.thy ===== *)
theory Source_Contract
  imports Flow_Safety Store_Confined
begin

text \<open>
  The contract between the sources and the flow that runs them.

  \<open>source_storage\<close> is what a source does with the transaction it is lent: it writes below its own data
  objects, records its writes, reads without writing, publishes at most one root page, and does not panic,
  whatever bytes the store holds. \<open>source_contract\<close> adds that the calls outside transactions do not panic
  either. The client's lemma of the second is \<open>source_ok\<close>, the hypothesis of the scheduler's theorems, for every flow
  whose own data objects are other than the source's.
\<close>

section \<open>Calls with boxed errors\<close>

lemma is_panicked_iff: "is_panicked e \<longleftrightarrow> (\<exists>m. e = Panicked m)"
  by (cases e) auto

lemma panic_free_op_store [panic_free_intros]: "panic_free is_panicked m \<Longrightarrow> panic_free is_unwind (op_store m)"
  by (auto simp: panic_free_def op_store_def is_panicked_iff map_sum_def split: sum.splits)

lemma confined_op_store [confined_intros]:
  "confined V W is_panicked id m \<Longrightarrow> confined V W is_unwind id (op_store m)"
  by (auto simp: confined_def op_store_def intro: panic_free_op_store)

lemma op_store_view: "keeps_ref m \<Longrightarrow> ref_view (snd (op_store m r)) = ref_view r"
  unfolding keeps_ref_def op_store_def by (metis ref_view_poison snd_apfst)

lemma unwinds_iff: "unwinds r \<longleftrightarrow> (\<exists>e. r = Inl e \<and> is_unwind e)"
  by (cases r) auto

lemma never_unwinds_panic_free: "never_unwinds m \<longleftrightarrow> panic_free is_unwind m"
  by (auto simp: never_unwinds_def panic_free_def unwinds_iff)

section \<open>Namespaces apart from the flow's\<close>

definition owned :: "data_handle list \<Rightarrow> bytes set" where
  "owned own = (\<Union>h \<in> set own. below (data_prefix (data_id h)))"

definition apart :: "frames \<Rightarrow> data_handle list \<Rightarrow> bool" where
  "apart F own \<longleftrightarrow> (\<forall>h \<in> set own. data_id h \<noteq> data_id (controls F) \<and> data_id h \<noteq> data_id (outputs F))"

lemma below_owned [confined_intros]: "h \<in> set own \<Longrightarrow> below (data_prefix (data_id h)) \<subseteq> owned own"
  by (auto simp: owned_def)

lemma apart_owned: "apart F own \<Longrightarrow> flow_key F k \<Longrightarrow> k \<notin> owned own"
  by (auto simp: apart_def owned_def below_def flow_key_def)

lemma confined_keeps: "apart F own \<Longrightarrow> confined_step V (owned own) t t' \<Longrightarrow> txn_keeps V F t t'"
  by (auto simp: txn_keeps_def confined_step_def dest: apart_owned)

lemma pair_behaved_confined:
  "apart F own \<Longrightarrow> confined V (owned own) is_unwind get m \<Longrightarrow> pair_behaved V F get m"
  by (auto simp: pair_behaved_def confined_def panic_free_def unwinds_iff intro: confined_keeps)

lemma txn_behaved_confined:
  "apart F own \<Longrightarrow> confined V (owned own) is_unwind id m \<Longrightarrow> txn_behaved V F m"
  using pair_behaved_confined [of F own V id m] by (simp add: pair_behaved_def txn_behaved_def)

section \<open>Shared rules\<close>

text \<open>A computation on the transaction, next to a delivery that it does not change.\<close>

definition beside :: "('t, 'e, 'a) sem \<Rightarrow> ('t \<times> 'x, 'e, 'a) sem" where
  "beside m = (\<lambda>(t, x). case m t of (res, t') \<Rightarrow> (res, (t', x)))"

lemma confined_beside [confined_intros]:
  "confined V W pan id m \<Longrightarrow> confined V W pan fst (beside m)"
  by (simp add: confined_def panic_free_def beside_def split: prod.splits) (metis fst_conv snd_conv)

text \<open>A method that looks at its arguments before it touches the transaction.\<close>

lemma confined_dispatch: "(\<And>k. confined V W pan get (f k)) \<Longrightarrow> (\<And>q. m q = f (g q) q) \<Longrightarrow> confined V W pan get m"
  by (simp add: confined_def panic_free_def)

lemma wp_any: "(\<And>a s'. Q a s') \<Longrightarrow> (\<And>e s'. R e s') \<Longrightarrow> wp m Q R s"
  by (auto simp: wp_def split: prod.split sum.split)

text \<open>A bounded read returns a value within its bound, whatever is stored.\<close>

lemma front_bounded_length:
  assumes "fst (front_bounded E vec_value p n r) = Inr (Some bs)"
  shows "length bs \<le> n"
proof -
  let ?Q = "\<lambda>v (_ :: 'a transaction_ref). \<forall>bs. v = Some bs \<longrightarrow> length bs \<le> n"
  have get: "wp (get_bounded E vec_value q k n) ?Q (\<lambda>_ _. True) r" for q k r
    by (simp add: get_bounded_def ref_get_bounded_def decode_bounded_vec split: sum.split option.split)
  have front: "wp (read_front E vec_value p m n) (\<lambda>(v, _) r. ?Q (Some v) r) (\<lambda>_ _. True) r" for m r
    unfolding read_front_def wp_bind
    by (rule wp_mono [OF get]) (auto intro!: wp_any simp: vec_value_def split: option.split sum.split)
  have "wp (front_bounded E vec_value p n) ?Q (\<lambda>_ _. True) r"
    unfolding front_bounded_def wp_bind
    by (rule wp_any) (auto simp: wp_if intro!: wp_mono [OF front])
  then show ?thesis using assms by (auto simp: wp_def split: prod.splits)
qed

lemma published_length:
  assumes "fst (op_store (sem_bind (bind_read h) (\<lambda>p. front_bounded E vec_value p n)) r) = Inr (Some bs)"
  shows "length bs \<le> n"
proof -
  have boxed: "x = Inr y" if "map_sum boxed id x = Inr y" for x and y :: "bytes option"
    using that by (cases x) auto
  show ?thesis
    using assms
    by (auto simp: op_store_def sem_bind_def split: prod.splits sum.splits intro!: front_bounded_length dest!: boxed)
qed

lemma boxed_storage: "is_storage e \<Longrightarrow> \<not> is_unwind (boxed e)"
  by (cases e) (simp_all add: boxed_def)

lemma wp_bind_access_ok:
  assumes "\<not> poisoned t" "handle_token h = store_token t" "Q (data_prefix (data_id h)) t"
  shows "wp (bind_access h) Q R t"
  using assms by (auto simp: wp_def access_simps)

lemma wp_bind_read_ok:
  assumes "\<not> ref_poisoned r" "handle_token h = ref_token r" "Q (data_prefix (data_id h)) r"
  shows "wp (bind_read h) Q R r"
  using assms by (auto simp: wp_def access_simps)

lemma wp_tracked:
  assumes "tracks_writes m" "wp m (\<lambda>a t'. store_token t' = store_token t \<longrightarrow> Q a t') R t"
  shows "wp m Q R t"
  using assms by (auto simp: wp_def tracks_writes_def Let_def split: prod.splits sum.splits) (metis snd_conv)

lemma wp_cell_set:
  assumes "engine_laws E V" "\<not> poisoned t" "encode_value CV v = Inr bs"
    and "\<And>t'. V (inner t') = (V (inner t))(p \<mapsto> bs) \<Longrightarrow> \<not> poisoned t' \<Longrightarrow> store_token t' = store_token t \<Longrightarrow> Q () t'"
    and "\<And>e t'. fault E e t' \<Longrightarrow> R e t'"
  shows "wp (cell_set E CV p v) Q R t"
  using assms by (auto simp: cell_set_def CELL_KEY_def fault_def intro!: wp_data_put [OF assms(1)])

lemma wp_cell_clear:
  assumes "engine_laws E V" "\<not> poisoned t"
    and "\<And>a t'. V (inner t') = (V (inner t))(p := None) \<Longrightarrow> \<not> poisoned t' \<Longrightarrow> store_token t' = store_token t \<Longrightarrow> Q a t'"
    and "\<And>e t'. fault E e t' \<Longrightarrow> R e t'"
  shows "wp (cell_clear E p) Q R t"
  using assms by (auto simp: cell_clear_def CELL_KEY_def fault_def fun_upd_idem intro!: wp_data_delete [OF assms(1)])

lemma wp_cell_get_bounded:
  assumes "engine_laws E V" "\<not> ref_poisoned r"
    and "\<And>v. decode_bounded_value CV (V (ref_view r) p) n = Inr v \<Longrightarrow> Q v r"
    and "\<And>e. decode_bounded_value CV (V (ref_view r) p) n = Inl e \<Longrightarrow> R e (if poisons_transaction e then ref_poison r else r)"
    and "\<And>e r'. ref_fault E e r' \<Longrightarrow> R e r'"
  shows "wp (cell_get_bounded E CV p n) Q R r"
  unfolding cell_get_bounded_def CELL_KEY_def
  by (rule wp_get_bounded [OF assms(1,2)]) (use assms in \<open>auto simp: ref_fault_def\<close>)

lemma data_prefix_append [simp]: "data_prefix i @ a = data_prefix j @ b \<longleftrightarrow> i = j \<and> a = b"
  by (auto simp: append_eq_append_conv)

text \<open>A queue does not depend on the keys of other data objects.\<close>

lemma queue_rep_other:
  assumes "i \<noteq> j"
  shows "queue_rep (m(data_prefix i := x)) (data_prefix j) vs \<longleftrightarrow> queue_rep m (data_prefix j) vs"
proof -
  have "namespace (m(data_prefix i := x)) (data_prefix j) = namespace m (data_prefix j)"
    using assms data_prefix_append [of j _ i "[]"] by (auto simp: namespace_def)
  then show ?thesis by (simp add: queue_rep_def queue_at_def)
qed

lemma outside_other:
  assumes "outside (data_prefix j) m m'" "i \<noteq> j"
  shows "m' (data_prefix i) = m (data_prefix i)"
  using assms data_prefix_append [of i "[]" j] by (auto simp: outside_def)

section \<open>The contract\<close>

locale source_storage =
  fixes src :: "'s engine \<Rightarrow> ('s, 'w, 'x) source_operation" and own :: "data_handle list"
  assumes record_confined: "engine_laws E V \<Longrightarrow> confined V (owned own) is_unwind fst (source_record (src E) world)"
    and consume_confined: "engine_laws E V \<Longrightarrow> confined V (owned own) is_unwind id (source_consume_published (src E) world)"
    and published_panic_free: "panic_free is_unwind (source_published (src E) world)"
    and published_view: "ref_view (snd (source_published (src E) world r)) = ref_view r"
    and published_bounded: "fst (source_published (src E) world r) = Inr (Some bs) \<Longrightarrow> length bs \<le> ROOT_BYTES"

locale source_contract = source_storage +
  assumes poll_panic_free: "panic_free is_unwind (source_poll (src E))"
    and ack_panic_free: "panic_free is_unwind (source_ack (src E) d)"
begin

lemma source_ok_src:
  assumes "engine_laws E V" "apart F own"
  shows "source_ok V F (src E)"
  using assms published_bounded
  by (auto simp: source_ok_def never_unwinds_panic_free poll_panic_free ack_panic_free published_panic_free published_view
      intro: pair_behaved_confined record_confined txn_behaved_confined consume_confined)

end

end
