(* ===== verification/Flow_Example.thy ===== *)
theory Flow_Example
  imports Flow_Round Source_Contract Memory_Engine
begin

text \<open>
  Two-operation flows on the in-memory engine: one with an idle source and a sink that always has a batch,
  and one whose source always has a delivery to record and whose sink has a plan to persist. They satisfy the
  hypotheses that the theorems on flows make, and are the flows of their witnesses. They model no file of the repository.
\<close>

section \<open>A small flow\<close>

definition idle_source :: "(mem_view, unit, unit) source_operation" where
  "idle_source =
     \<lparr>source_restore = sem_return (), source_poll = sem_return None, source_record = (\<lambda>_. sem_return True),
      source_ack = (\<lambda>_. sem_return ()), source_published = (\<lambda>_. sem_return None), source_consume_published = (\<lambda>_. sem_return ())\<rparr>"

definition eager_sink :: "(mem_view, unit, 32 word, unit) sink_operation" where
  "eager_sink =
     \<lparr>sink_try_enqueue = (\<lambda>_. sem_return True), sink_load = sem_return (Some ()), sink_prepare_initialize = (\<lambda>_. sem_return False),
      sink_persist_initialize = (\<lambda>_ _. sem_return ()), sink_deliver = (\<lambda>_. sem_return ()), sink_settle = (\<lambda>_. sem_return ())\<rparr>"

definition row_codec :: "32 word change_codec" where
  "row_codec =
     \<lparr>encode_bounded = (\<lambda>c n. if n < 1 then Inl (EncodedSizeLimitExceeded n) else Inr [0]),
      decode_change = (\<lambda>_. Inr \<lparr>records = 1, diffs = [Some 1]\<rparr>), decode_owned = (\<lambda>_. Inr \<lparr>records = 1, diffs = [Some 1]\<rparr>)\<rparr>"

definition small_topology :: resolved_topology where
  "small_topology =
     \<lparr>tails = [[], []], consumers = [[\<lparr>consumer_operation = 1, consumer_port = 0\<rparr>], []], heads = [True, True]\<rparr>"

definition small_runtime :: "(mem_view, unit, 32 word, unit, unit) runtime" where
  "small_runtime =
     \<lparr>rt_topology = small_topology,
      rt_nodes =
        [\<lparr>rn_id = [97], rn_inputs = [], rn_operation = SourceOp idle_source, rn_codec = Some row_codec, rn_pending = None\<rparr>,
         \<lparr>rn_id = [98], rn_inputs = [0], rn_operation = SinkOp eager_sink, rn_codec = None, rn_pending = None\<rparr>],
      rt_frames = \<lparr>controls = \<lparr>handle_token = 1, data_id = 2\<rparr>, outputs = \<lparr>handle_token = 1, data_id = 3\<rparr>\<rparr>,
      rt_sources = [0], rt_sinks = [1], source_cursor = 0, sink_cursor = 0, root_cursor = 0, needs_reopen = False\<rparr>"

definition small_env :: "(mem_database, mem_view, 32 word) env" where
  "small_env =
     \<lparr>env_database = mem_db, env_engine = mem_engine, env_token = 1, env_arrow = count_arrow, env_bincode = plain_bincode\<rparr>"

definition small_flow :: "(mem_database, mem_view, unit, 32 word, unit, unit) flow" where
  "small_flow =
     \<lparr>flow_runtime = small_runtime, flow_batch = durability_batch \<lparr>mem_committed = [], mem_durable = []\<rparr>,
      flow_world = (), remaining = 0\<rparr>"

abbreviation mem_committed_map :: "mem_database \<Rightarrow> (bytes \<rightharpoonup> bytes)" where
  "mem_committed_map d \<equiv> map_of (mem_committed d)"

abbreviation mem_durable_map :: "mem_database \<Rightarrow> (bytes \<rightharpoonup> bytes)" where
  "mem_durable_map d \<equiv> map_of (mem_durable d)"

lemma small_flow_env: "flow_env small_env mem_contents mem_committed_map mem_durable_map"
  using mem_db_laws mem_engine_laws plain_bincode_laws by (auto simp: flow_env_def small_env_def)

lemma small_simps [simp]: "env_bincode small_env = plain_bincode" "flow_runtime small_flow = small_runtime"
  by (simp_all add: small_env_def small_flow_def)

lemma small_operations_ok: "operations_ok mem_contents small_runtime"
  by (auto simp: operations_ok_def small_runtime_def source_ok_def sink_ok_def idle_source_def eager_sink_def never_unwinds_def
      pair_behaved_def txn_behaved_def sem_return_def)

lemma small_resolve: "resolve (rt_shape small_runtime) = Inr small_topology"
  by code_simp

lemma small_runtime_ok: "runtime_ok small_runtime"
proof -
  have "graph_ok (rt_shape small_runtime)"
    by (auto simp: graph_ok_def rt_shape_def small_runtime_def nth_Cons less_Suc_eq)
  then show ?thesis
    using small_resolve
    by (auto simp: runtime_ok_def small_runtime_def small_topology_def chain_last_def less_Suc_eq)
qed

lemma small_flow_inv: "flow_inv small_env mem_contents mem_committed_map mem_durable_map small_flow"
proof -
  have "stack_inv plain_bincode small_runtime Map.empty" by (auto simp: stack_inv_def stack_rep_def intro!: exI [of _ "[]"])
  then show ?thesis
    using small_runtime_ok small_operations_ok
    by (simp add: flow_inv_def small_flow_def small_env_def durability_batch_def batch_inv_def)
qed

section \<open>A busy flow\<close>

text \<open>
  Here every step writes: the source records its delivery in a cell, the sink persists its plan in a second and settles in a
  third. The world outside is the list of what it was told, an acknowledgement or a delivery.
\<close>

datatype notice = Acknowledged | Delivered

definition write_cell :: "u32 \<Rightarrow> bytes \<Rightarrow> (mem_view transaction, operation_error, unit) sem" where
  "write_cell i v =
     op_store (sem_bind (bind_access \<lparr>handle_token = 1, data_id = i\<rparr>) (\<lambda>p. cell_set mem_engine vec_value p v))"

definition busy_source :: "(mem_view, notice list, unit) source_operation" where
  "busy_source =
     \<lparr>source_restore = sem_return (), source_poll = sem_return (Some \<lparr>delivery_kind = Cdc () (Some [7]) False False, finished = False\<rparr>),
      source_record = (\<lambda>_. beside (sem_bind (write_cell 4 [7]) (\<lambda>_. sem_return True))),
      source_ack = (\<lambda>_ told. (Inr (), told @ [Acknowledged])), source_published = (\<lambda>_. sem_return None),
      source_consume_published = (\<lambda>_. sem_return ())\<rparr>"

definition busy_sink :: "(mem_view, notice list, 32 word, unit) sink_operation" where
  "busy_sink =
     \<lparr>sink_try_enqueue = (\<lambda>_. sem_return True), sink_load = sem_return (Some ()), sink_prepare_initialize = (\<lambda>_. sem_return True),
      sink_persist_initialize = (\<lambda>_ _. write_cell 5 [1]), sink_deliver = (\<lambda>_ told. (Inr (), told @ [Delivered])),
      sink_settle = (\<lambda>_ (told, t). case write_cell 6 [9] t of (res, t') \<Rightarrow> (res, (told, t')))\<rparr>"

definition busy_runtime :: "(mem_view, notice list, 32 word, unit, unit) runtime" where
  "busy_runtime =
     \<lparr>rt_topology = small_topology,
      rt_nodes =
        [\<lparr>rn_id = [97], rn_inputs = [], rn_operation = SourceOp busy_source, rn_codec = Some row_codec, rn_pending = None\<rparr>,
         \<lparr>rn_id = [98], rn_inputs = [0], rn_operation = SinkOp busy_sink, rn_codec = None, rn_pending = None\<rparr>],
      rt_frames = \<lparr>controls = \<lparr>handle_token = 1, data_id = 2\<rparr>, outputs = \<lparr>handle_token = 1, data_id = 3\<rparr>\<rparr>,
      rt_sources = [0], rt_sinks = [1], source_cursor = 0, sink_cursor = 0, root_cursor = 0, needs_reopen = False\<rparr>"

definition busy_flow :: "(mem_database, mem_view, notice list, 32 word, unit, unit) flow" where
  "busy_flow =
     \<lparr>flow_runtime = busy_runtime, flow_batch = durability_batch \<lparr>mem_committed = [], mem_durable = []\<rparr>,
      flow_world = [], remaining = 0\<rparr>"

lemma write_cell_run:
  "\<not> poisoned t \<Longrightarrow> store_token t = 1 \<Longrightarrow>
   write_cell i v t = (Inr (), t\<lparr>inner := (AList.update (data_prefix i) v (fst (inner t)), snd (inner t)), has_writes := True\<rparr>)"
  by (simp add: write_cell_def op_store_def sem_bind_def access_simps cell_set_def vec_value_def sem_lift_def data_put_def mem_engine_def
      CELL_KEY_def physical_key_def storage_result_def record_write_result_def ensure_healthy_def record_result_def
      ref_poison_on_error_def)

definition busy_data :: "data_handle list" where
  "busy_data = map (\<lambda>i. \<lparr>handle_token = 1, data_id = i\<rparr>) [4, 5, 6]"

lemma write_cell_confined: "i \<in> {4, 5, 6} \<Longrightarrow> confined mem_contents (owned busy_data) is_unwind id (write_cell i v)"
  unfolding write_cell_def
  by (intro confined_op_store confined_bind_access confined_intros mem_engine_laws) (auto simp: owned_def busy_data_def)

lemma busy_apart: "apart (rt_frames busy_runtime) busy_data"
  by (simp add: apart_def busy_data_def busy_runtime_def)

lemma busy_source_ok: "source_ok mem_contents (rt_frames busy_runtime) busy_source"
proof -
  have "confined mem_contents (owned busy_data) is_unwind fst (beside (sem_bind (write_cell 4 [7]) (\<lambda>_. sem_return True)) :: (_ \<times> unit source_delivery, _, _) sem)"
    by (intro confined_beside confined_bind write_cell_confined confined_return) simp
  from pair_behaved_confined [OF busy_apart this] show ?thesis
    by (simp add: source_ok_def busy_source_def never_unwinds_def txn_behaved_def sem_return_def)
qed

lemma busy_sink_ok: "sink_ok mem_contents (rt_frames busy_runtime) busy_sink"
proof -
  have "txn_behaved mem_contents (rt_frames busy_runtime) (write_cell i v)" if "i \<in> {4, 5, 6}" for i v
    by (rule txn_behaved_confined [OF busy_apart write_cell_confined [OF that]])
  then have "txn_behaved mem_contents (rt_frames busy_runtime) (write_cell 5 [1])"
    "txn_behaved mem_contents (rt_frames busy_runtime) (write_cell 6 [9])" by simp_all
  then show ?thesis
    by (auto simp: sink_ok_def busy_sink_def never_unwinds_def txn_behaved_def pair_behaved_def sem_return_def split: prod.splits)
      (metis fst_conv snd_conv)+
qed

lemma busy_runtime_ok: "runtime_ok busy_runtime"
proof -
  have "rt_shape busy_runtime = rt_shape small_runtime" by (simp add: rt_shape_def small_runtime_def busy_runtime_def)
  then show ?thesis
    using small_runtime_ok small_resolve
    by (auto simp: runtime_ok_def small_runtime_def busy_runtime_def small_topology_def chain_last_def less_Suc_eq)
qed

lemma busy_flow_inv: "flow_inv small_env mem_contents mem_committed_map mem_durable_map busy_flow"
proof -
  have "stack_inv plain_bincode busy_runtime Map.empty" by (auto simp: stack_inv_def stack_rep_def intro!: exI [of _ "[]"])
  moreover have "operations_ok mem_contents busy_runtime"
    using busy_source_ok busy_sink_ok by (simp add: operations_ok_def) (simp add: busy_runtime_def)
  ultimately show ?thesis
    using busy_runtime_ok by (simp add: flow_inv_def busy_flow_def small_env_def durability_batch_def batch_inv_def)
qed

section \<open>A round of the busy flow\<close>

definition mem_batch :: "(bytes \<times> bytes) list \<Rightarrow> (bytes \<times> bytes) list \<Rightarrow> bool \<Rightarrow> mem_database durability_batch" where
  "mem_batch c d p = \<lparr>batch_database = \<lparr>mem_committed = c, mem_durable = d\<rparr>, pending = p\<rparr>"

abbreviation busy_at where
  "busy_at rt c d p told n \<equiv> \<lparr>flow_runtime = rt, flow_batch = mem_batch c d p, flow_world = told, remaining = n\<rparr>"

lemma mem_batch_sel [simp]:
  "mem_committed (batch_database (mem_batch c d p)) = c" "mem_durable (batch_database (mem_batch c d p)) = d"
  by (simp_all add: mem_batch_def)

lemma busy_commit:
  "flow_commit small_env \<lparr>inner = (c', b), store_token = 1, poisoned = False, has_writes = True\<rparr> (busy_at rt c d p told n) =
     (Inr (), busy_at rt c' (if b then c' else d) True told n)"
  by (simp add: flow_commit_def batched_commit_def transaction_commit_def commit_transaction_def small_env_def mem_db_def mem_batch_def Let_def)

lemma busy_sync: "flow_sync small_env (busy_at rt c d True told n) = (Inr (), busy_at rt c c False told n)"
  by (simp add: flow_sync_def batch_sync_def small_env_def mem_db_def mem_batch_def)

lemma busy_begin:
  "begin_txn small_env fl = \<lparr>inner = (mem_committed (batch_database (flow_batch fl)), False), store_token = 1, poisoned = False, has_writes = False\<rparr>"
  by (simp add: begin_txn_def batch_begin_def begin_write_transaction_def small_env_def mem_db_def)

lemmas busy_steps = sem_bind_def sem_return_def or_reopen_def in_world_def busy_begin write_cell_run busy_commit busy_sync

lemma busy_capture:
  "capture small_env 0 (busy_at busy_runtime [] [] False [] n) =
     (Inr Progressed, busy_at busy_runtime [(data_prefix 4, [7])] [(data_prefix 4, [7])] False [Acknowledged] n)"
  by (simp add: capture_def busy_runtime_def index_of_def poll_source_def set_pending_def record_delivery_def busy_source_def beside_def
      accept_delivery_def acknowledge_def requires_ack_barrier_def busy_steps)

lemma busy_drain:
  "drain small_env 1 (busy_at busy_runtime [(data_prefix 4, [7])] [(data_prefix 4, [7])] False told n) =
     (Inr Progressed, busy_at busy_runtime [(data_prefix 4, [7]), (data_prefix 5, [1]), (data_prefix 6, [9])]
        [(data_prefix 4, [7]), (data_prefix 5, [1])] True (told @ [Delivered]) n)"
proof -
  have ne: "data_prefix 4 \<noteq> data_prefix 5" "data_prefix 4 \<noteq> data_prefix 6" "data_prefix 5 \<noteq> data_prefix 6"
    using data_prefix_append [of _ "[]" _ "[]"] by simp_all
  show ?thesis
    by (simp add: drain_def busy_runtime_def index_of_def busy_sink_def initialize_sink_def sink_transaction_def deliver_pending_def ne busy_steps)
qed

lemma busy_top:
  "frames_top mem_engine plain_bincode (rt_frames busy_runtime) (snapshot_of small_env (mem_batch [(data_prefix 4, [7])] d p)) =
     (Inr None, snapshot_of small_env (mem_batch [(data_prefix 4, [7])] d p))"
proof -
  let ?P = "within_iterate (Some (data_prefix 2)) None Descending (case prefix_successor (data_prefix 2) of None \<Rightarrow> [] | Some u \<Rightarrow> u)"
  have "\<not> ?P (data_prefix 4)" by code_simp
  then have none: "{x. x = data_prefix 4 \<and> ?P x} = {}" by auto
  show ?thesis
    by (simp add: frames_top_def busy_runtime_def snapshot_of_def small_env_def sem_bind_def bind_read_def mem_batch_def
        ref_ensure_access_def ref_ensure_healthy_def begin_read_transaction_def mem_db_def sem_return_def sem_lift_def
        scan_limit_new_def map_scan_def data_scan_def scan_key_suffix_def scan_data_def ref_poison_on_error_def
        Let_def ref_record_result_def mem_engine_def entries_of_def ordered_keys_def finish_scan_def none)
qed

lemma busy_next_root:
  assumes "ROOT_BYTES + 9 * STEP_BYTES + CONTROL_BYTES + 64 \<le> n"
  shows "advance_next_root small_env (busy_at busy_runtime c d p told n) = (Inr (0, Idle), busy_at busy_runtime c d p told (n - 64))"
  using assms
  by (simp add: advance_next_root_def busy_runtime_def index_of_def Let_def busy_source_def blame_def spend_def sem_lift_def with_read_def
      sem_bind_def sem_return_def)

lemma busy_stack_actions:
  "stack_actions small_env 0 STACK_ACTIONS Progressed (busy_at busy_runtime [(data_prefix 4, [7])] d p told STACK_ROUND_BYTES) =
     (Inr Progressed, busy_at busy_runtime [(data_prefix 4, [7])] d p told (STACK_ROUND_BYTES - CONTROL_BYTES - 64))"
proof -
  let ?n = "STACK_ROUND_BYTES - CONTROL_BYTES"
  have env: "env_engine small_env = mem_engine" by (simp add: small_env_def)
  obtain k where n: "STACK_ACTIONS = Suc k" by (cases STACK_ACTIONS) (simp_all add: STACK_ACTIONS_def)
  have bytes: "CONTROL_BYTES \<le> STACK_ROUND_BYTES" "ROOT_BYTES + 9 * STEP_BYTES + CONTROL_BYTES + 64 \<le> ?n"
    by (simp_all add: STACK_ROUND_BYTES_def CONTROL_BYTES_def ROOT_BYTES_def STEP_BYTES_def PAGE_BYTES_def)
  show ?thesis
    unfolding n using bytes
    by (simp add: sem_bind_def blame_def spend_def with_read_def op_store_def env busy_top allowance_def busy_next_root sem_return_def)
qed

lemma busy_advance:
  "advance small_env busy_flow =
     (Inr Progressed, busy_at busy_runtime [(data_prefix 4, [7]), (data_prefix 5, [1]), (data_prefix 6, [9])]
        [(data_prefix 4, [7]), (data_prefix 5, [1]), (data_prefix 6, [9])] False [Acknowledged, Delivered]
        (STACK_ROUND_BYTES - CONTROL_BYTES - 64))"
proof -
  have rt: "rt_sources busy_runtime = [0]" "source_cursor busy_runtime = 0" "rt_sinks busy_runtime = [1]" "sink_cursor busy_runtime = 0"
    "busy_runtime\<lparr>source_cursor := 0\<rparr> = busy_runtime" "busy_runtime\<lparr>sink_cursor := 0\<rparr> = busy_runtime" "\<not> needs_reopen busy_runtime"
    by (simp_all add: busy_runtime_def)
  have "busy_flow\<lparr>flow_batch := durability_batch (batch_database (flow_batch busy_flow))\<rparr> = busy_at busy_runtime [] [] False [] 0"
    "flow_runtime busy_flow = busy_runtime"
    by (simp_all add: busy_flow_def durability_batch_def mem_batch_def)
  moreover have "round small_env (busy_at busy_runtime [] [] False [] 0) =
      (Inr Progressed, busy_at busy_runtime [(data_prefix 4, [7]), (data_prefix 5, [1]), (data_prefix 6, [9])]
        [(data_prefix 4, [7]), (data_prefix 5, [1])] True [Acknowledged, Delivered] (STACK_ROUND_BYTES - CONTROL_BYTES - 64))"
    by (simp add: round_def Let_def index_of_def rt sem_bind_def blame_def busy_capture busy_stack_actions busy_drain [unfolded One_nat_def] sem_return_def)
  ultimately show ?thesis
    by (simp add: advance_def rt batch_finish_def batch_sync_def) (simp add: mem_batch_def small_env_def mem_db_def)
qed

end
