(* ===== verification/Flow_Restore.thy ===== *)
theory Flow_Restore
  imports Flow_Example
begin

text \<open>
  Opening a flow checks its durable call stack before anything runs. Here the checks of
  \<open>validate_frames\<close> are shown to be enough: whatever bytes the two maps hold, when the checks pass the
  contents represent a well-formed call stack, the invariant from which every round starts.
\<close>

section \<open>Successful reads\<close>

lemma bind_Inr:
  assumes "sem_bind m f s = (Inr b, s')"
  obtains a s1 where "m s = (Inr a, s1)" "f a s1 = (Inr b, s')"
  using assms by (auto simp: sem_bind_def split: prod.splits sum.splits)

lemma lift_Inr: "sem_lift r s = (Inr a, s') \<longleftrightarrow> r = Inr a \<and> s' = s"
  by (auto simp: sem_lift_def)

lemma return_Inr: "sem_return a s = (Inr b, s') \<longleftrightarrow> b = a \<and> s' = s"
  by (auto simp: sem_return_def)

lemma op_store_Inr: "op_store m r = (Inr a, r') \<Longrightarrow> m r = (Inr a, r')"
  by (cases "m r") (auto simp: op_store_def map_sum_Inr_iff)

lemma bind_read_Inr: "bind_read h r = (Inr p, r') \<Longrightarrow> p = data_prefix (data_id h) \<and> r' = r"
  by (auto simp: access_simps split: if_splits)

lemma map_scan_all_Inr:
  assumes "map_scan E u32_key CV p Unbounded Unbounded dir None limit r = (Inr page, r')"
  shows "r' = r \<and> scan_data E u32_key CV (ref_view r) p dir None None limit [] = Inr page"
  using assms
  by (auto simp: map_scan_def data_scan_def scan_key_suffix_def Let_def sem_bind_def ref_poison_on_error_def ref_ensure_healthy_def
      ref_record_result_def split: if_splits sum.splits scan_direction.splits)

lemma limited_scan_Inr:
  assumes "op_store (sem_bind (bind_read h) (\<lambda>p. sem_bind (sem_lift (scan_limit_new a b)) (\<lambda>limit.
      map_scan E u32_key CV p Unbounded Unbounded dir None limit))) r = (Inr page, r')"
  shows "r' = r \<and> (\<exists>limit. max_items limit = a \<and> 0 < a \<and> scan_data E u32_key CV (ref_view r) (data_prefix (data_id h)) dir None None limit [] = Inr page)"
proof -
  obtain limit where "scan_limit_new a b = Inr limit"
    and scan: "map_scan E u32_key CV (data_prefix (data_id h)) Unbounded Unbounded dir None limit r = (Inr page, r')"
    using op_store_Inr [OF assms] by (auto simp: lift_Inr elim!: bind_Inr dest!: bind_read_Inr)
  then have "max_items limit = a" "0 < a" by (auto simp: scan_limit_new_def split: if_splits)
  with map_scan_all_Inr [OF scan] show ?thesis by blast
qed

lemma output_read_Inr:
  assumes "engine_laws E V" "map_get_bounded E u32_key vec_value p d n r = (Inr v, r')"
  shows "r' = r \<and> v = V (ref_view r) (p @ u32_to_be d)"
  using assms(2) engine_get [OF assms(1)]
  by (auto simp: map_get_bounded_def get_bounded_def ref_get_bounded_def sem_bind_def ref_poison_on_error_def ref_ensure_healthy_def u32_key_def
      ref_record_result_def storage_result_def decode_bounded_value_def vec_value_def physical_key_def split: if_splits sum.splits option.splits)

lemma frames_output_Inr:
  assumes "engine_laws E V" "frames_output E F d r = (Inr bs, r')"
  shows "r' = r \<and> V (ref_view r) (output_key F d) = Some bs"
proof -
  obtain v r1 where v: "op_store (sem_bind (bind_read (outputs F)) (\<lambda>p. map_get_bounded E u32_key vec_value p d PAGE_BYTES)) r = (Inr v, r1)"
    and bs: "(case v of None \<Rightarrow> sem_throw (Message ''frame output is missing'') | Some bs \<Rightarrow> sem_return bs) r1 = (Inr bs, r')"
    using assms(2) unfolding frames_output_def by (rule bind_Inr)
  obtain p r2 where "bind_read (outputs F) r = (Inr p, r2)" "map_get_bounded E u32_key vec_value p d PAGE_BYTES r2 = (Inr v, r1)"
    by (rule bind_Inr [OF op_store_Inr [OF v]])
  then have "r1 = r" "v = V (ref_view r) (output_key F d)"
    using output_read_Inr [OF assms(1)] by (auto dest!: bind_read_Inr)
  then show ?thesis using bs by (auto simp: sem_throw_def return_Inr split: option.splits)
qed

section \<open>The loop over the frames\<close>

text \<open>What one iteration establishes.\<close>

lemma check_frame_Inr:
  assumes "check_frame rt expected depth f parent = Inr node"
  shows "unat depth = expected" "frame_head f < length (rt_nodes rt)" "node = rt_nodes rt ! frame_head f" "heads (rt_topology rt) ! frame_head f"
    "\<not> is_sink (rn_operation node)" "port_ok expected node (frame_port f)" "parent = Some pf \<Longrightarrow> check_parent (rt_topology rt) pf f = Inr ()"
  using assms by (auto simp: check_frame_def sum_bind_def index_of_def Let_def split: if_splits sum.splits option.splits)

lemma frame_input_view:
  assumes laws: "engine_laws (env_engine env) V" and ops: "operations_ok V rt" and h: "frame_head f < length (rt_nodes rt)"
    and run: "frame_input env rt world expected depth f parent_output r = (Inr c, r')"
  shows "ref_view r' = ref_view r"
proof -
  have input: "ref_view r1 = ref_view r" if "rt_input env rt world depth f r = (Inr bs, r1)" for bs r1
  proof (cases "depth = 0")
    case False
    then show ?thesis using that by (auto simp: rt_input_def dest!: frames_output_Inr [OF laws])
  next
    case True
    show ?thesis
    proof (cases "rn_operation (rt_nodes rt ! frame_head f)")
      case (SourceOp src)
      then have "source_ok V (rt_frames rt) src" using operations_okD [OF ops h] by simp
      then have view: "ref_view (snd (source_published src world r)) = ref_view r" by (simp add: source_ok_def)
      have "snd (source_published src world r) = r1"
        using that True SourceOp h
        by (auto simp: rt_input_def bind_index sem_throw_def sem_return_def elim!: bind_Inr split: option.splits)
      with view show ?thesis by simp
    qed (use that True h in \<open>auto simp: rt_input_def bind_index sem_throw_def\<close>)
  qed
  then show ?thesis
    using run by (auto simp: frame_input_def lift_Inr return_Inr sem_throw_def elim!: bind_Inr split: if_splits option.splits)
qed

lemma check_phase_Inr:
  assumes laws: "engine_laws (env_engine env) V" and rt: "runtime_ok rt" and h: "frame_head f < length (rt_nodes rt)"
    and run: "check_phase env rt n expected depth f op input r = (Inr out, r')"
  shows "r' = r" "phase_ok rt f (V (ref_view r) (output_key (rt_frames rt) depth))"
proof -
  have cs: "frame_head f < length (consumers (rt_topology rt))" using h runtime_lengths [OF rt] by simp
  have "r' = r \<and> phase_ok rt f (V (ref_view r) (output_key (rt_frames rt) depth))"
  proof (cases "frame_phase f")
    case (Run res)
    then show ?thesis
      using run
      by (auto simp: check_phase_def phase_ok_def lift_Inr return_Inr sem_throw_def elim!: bind_Inr dest!: op_store_Inr bind_read_Inr
          dest!: output_read_Inr [OF laws] split: if_splits)
  next
    case (Send k aft)
    then show ?thesis
      using run cs
      by (auto simp: check_phase_def phase_ok_def lift_Inr return_Inr sem_throw_def bind_index elim!: bind_Inr
          dest!: frames_output_Inr [OF laws] split: if_splits progress.splits)
  qed
  then show "r' = r" "phase_ok rt f (V (ref_view r) (output_key (rt_frames rt) depth))" by blast+
qed

fun frames_checked ::
  "('s, 'w, 'b, 'x, 'p) runtime \<Rightarrow> (bytes \<rightharpoonup> bytes) \<Rightarrow> nat \<Rightarrow> frame option \<Rightarrow> (u32 \<times> frame) list \<Rightarrow> bool" where
  "frames_checked rt m expected parent [] \<longleftrightarrow> True"
| "frames_checked rt m expected parent ((d, f) # rest) \<longleftrightarrow>
     unat d = expected \<and> frame_ok rt expected (f, m (output_key (rt_frames rt) d)) \<and>
     (\<forall>pf. parent = Some pf \<longrightarrow> check_parent (rt_topology rt) pf f = Inr ()) \<and>
     frames_checked rt m (Suc expected) (Some f) rest"

lemma check_stack_Inr:
  assumes laws: "engine_laws (env_engine env) V" and rt: "runtime_ok rt" and ops: "operations_ok V rt"
  shows "check_stack env rt world n expected parent parent_output es r = (Inr (), r') \<Longrightarrow>
    frames_checked rt (V (ref_view r)) expected parent es"
proof (induction es arbitrary: expected parent parent_output r)
  case (Cons e es)
  obtain d f where e: "e = (d, f)" by fastforce
  let ?input = "\<lambda>change. \<lparr>in_port = (case frame_port f of None \<Rightarrow> 0 | Some p \<Rightarrow> p), in_change = change\<rparr>"
  obtain node change out r1 r2 where c: "check_frame rt expected d f parent = Inr node"
    and i: "frame_input env rt world expected d f parent_output r = (Inr change, r1)"
    and p: "check_phase env rt n expected d f (rn_operation node) (?input change) r1 = (Inr out, r2)"
    and rest: "check_stack env rt world n (Suc expected) (Some f) out es r2 = (Inr (), r')"
    using Cons.prems by (auto simp: e lift_Inr elim!: bind_Inr)
  note c' = check_frame_Inr [OF c]
  have view: "ref_view r1 = ref_view r" by (rule frame_input_view [OF laws ops c'(2) i])
  note p' = check_phase_Inr [OF laws rt c'(2) p]
  show ?case
    using Cons.IH [OF rest] c' p' view by (auto simp: e frame_ok_def phase_ok_def)
qed simp

lemma frames_checked_stack:
  "frames_checked rt m expected parent es \<Longrightarrow>
   (\<forall>i < length es. unat (fst (es ! i)) = expected + i \<and>
      frame_ok rt (expected + i) (snd (es ! i), m (output_key (rt_frames rt) (fst (es ! i))))) \<and>
   successively (\<lambda>a b. check_parent (rt_topology rt) (fst a) (fst b) = Inr ()) (map (\<lambda>(d, f). (f, m (output_key (rt_frames rt) d))) es) \<and>
   (\<forall>pf. parent = Some pf \<longrightarrow> es \<noteq> [] \<longrightarrow> check_parent (rt_topology rt) pf (snd (hd es)) = Inr ())"
proof (induction es arbitrary: expected parent)
  case (Cons e es)
  obtain d f where e: "e = (d, f)" by fastforce
  note IH = Cons.IH [of "Suc expected" "Some f"]
  have here: "unat d = expected" "frame_ok rt expected (f, m (output_key (rt_frames rt) d))" "frames_checked rt m (Suc expected) (Some f) es"
    using Cons.prems by (simp_all add: e)
  have nth: "unat (fst ((e # es) ! i)) = expected + i \<and>
      frame_ok rt (expected + i) (snd ((e # es) ! i), m (output_key (rt_frames rt) (fst ((e # es) ! i))))" if "i < length (e # es)" for i
    using that IH [OF here(3)] here(1,2) by (cases i) (auto simp: e)
  then show ?case
    using IH [OF here(3)] Cons.prems by (cases es) (auto simp: e)
qed simp

section \<open>Restored stacks\<close>

lemma range_entries_all:
  assumes "finite (dom m)"
  shows "(k, v) \<in> set (range_entries m p dir None None) \<longleftrightarrow> m (p @ k) = Some v"
proof -
  have "finite {k. p @ k \<in> dom m}"
  proof (rule finite_subset)
    show "{k. p @ k \<in> dom m} \<subseteq> (\<lambda>k. drop (length p) k) ` dom m"
      by (auto simp: image_iff) (metis append_eq_conv_conj domI)
  qed (use assms in simp)
  then show ?thesis
    by (auto simp: range_entries_def in_range_def within_lower_def within_upper_def domIff)
qed

lemma decoded_control:
  assumes "bincode_laws BC" "decodes u32_key (frame_value BC) [] e" "decoded u32_key (frame_value BC) [] e = (d, f)"
  shows "fst e = u32_to_be d" "encode_frame BC f = Inr (snd e)"
  using assms decode_frame_canonical
  by (auto simp: decodes_def decoded_def u32_key_def frame_value_def u32_to_from_be split: if_splits)

lemma validate_frames_Inr:
  assumes run: "validate_frames env rt world r = (Inr (), r')"
  obtains limit1 limit2 controls_page outputs_page where
    "scan_data (env_engine env) u32_key (frame_value (env_bincode env)) (ref_view r) (data_prefix (data_id (controls (rt_frames rt)))) Ascending None None limit1 [] = Inr controls_page"
    "scan_data (env_engine env) u32_key vec_value (ref_view r) (data_prefix (data_id (outputs (rt_frames rt)))) Descending None None limit2 [] = Inr outputs_page"
    "0 < max_items limit1" "max_items limit2 = 1" "continuation controls_page = None" "length (page_entries controls_page) \<le> MAX_DEPTH"
    "\<not> (page_entries outputs_page \<noteq> [] \<and> length (page_entries controls_page) \<le> unat (fst (last (page_entries outputs_page))))"
    "check_stack env rt world (length (page_entries controls_page)) 0 None None (page_entries controls_page) r = (Inr (), r')"
proof -
  obtain page r1 where scan: "op_store (sem_bind (bind_read (controls (rt_frames rt))) (\<lambda>p.
         sem_bind (sem_lift (scan_limit_new (MAX_DEPTH + 1) ((MAX_DEPTH + 1) * (CONTROL_BYTES + 4)))) (\<lambda>limit.
         map_scan (env_engine env) u32_key (frame_value (env_bincode env)) p Unbounded Unbounded Ascending None limit))) r = (Inr page, r1)"
    and rest: "(if continuation page \<noteq> None \<or> length (page_entries page) > MAX_DEPTH
      then sem_throw (Message ''call stack exceeds depth bound'')
      else
        (let n = length (page_entries page) in
         sem_bind (op_store
           (sem_bind (bind_read (outputs (rt_frames rt))) (\<lambda>p.
            sem_bind (sem_lift (scan_limit_new 1 (PAGE_BYTES + 4))) (\<lambda>limit.
            map_scan (env_engine env) u32_key vec_value p Unbounded Unbounded Descending None limit)))) (\<lambda>out_page.
         if page_entries out_page \<noteq> [] \<and> unat (fst (last (page_entries out_page))) \<ge> n
         then sem_throw (Message ''orphan frame output'')
         else check_stack env rt world n 0 None None (page_entries page)))) r1 = (Inr (), r')"
    using run unfolding validate_frames_def Let_def [of "env_engine env"] by (rule bind_Inr)
  obtain limit1 where 1: "r1 = r" "max_items limit1 = MAX_DEPTH + 1"
    "scan_data (env_engine env) u32_key (frame_value (env_bincode env)) (ref_view r) (data_prefix (data_id (controls (rt_frames rt)))) Ascending None None limit1 [] = Inr page"
    using limited_scan_Inr [OF scan] by blast
  obtain out_page limit2 where 2: "max_items limit2 = 1"
    "scan_data (env_engine env) u32_key vec_value (ref_view r) (data_prefix (data_id (outputs (rt_frames rt)))) Descending None None limit2 [] = Inr out_page"
    "\<not> (page_entries out_page \<noteq> [] \<and> length (page_entries page) \<le> unat (fst (last (page_entries out_page))))"
    "check_stack env rt world (length (page_entries page)) 0 None None (page_entries page) r = (Inr (), r')"
    using rest 1(1) by (auto simp: sem_throw_def Let_def elim!: bind_Inr dest!: limited_scan_Inr split: if_splits)
  show thesis
    by (rule that [OF 1(3) 2(2) _ 2(1) _ _ 2(3,4)]) (use rest 1(2) in \<open>auto simp: sem_throw_def split: if_splits\<close>)
qed

text \<open>The control entries are exactly the encodings of the frames, at consecutive depths.\<close>

lemma controls_represent:
  assumes laws: "engine_laws E V" and bc: "bincode_laws BC" and es: "es = map (decoded u32_key (frame_value BC) []) L"
    and L: "L = range_entries (V s) (data_prefix (data_id (controls F))) Ascending None None"
    and dec: "\<forall>e \<in> set L. decodes u32_key (frame_value BC) [] e" and depths: "\<forall>i < length es. unat (fst (es ! i)) = i"
  shows "unat d < length es \<Longrightarrow> fst (es ! unat d) = d \<and> (\<exists>enc. encode_frame BC (snd (es ! unat d)) = Inr enc \<and> V s (control_key F d) = Some enc)"
    "length es \<le> unat d \<Longrightarrow> V s (control_key F d) = None"
    "V s (data_prefix (data_id (controls F)) @ k) \<noteq> None \<Longrightarrow> length k = 4"
proof -
  have entry: "L ! i = (u32_to_be (fst (es ! i)), snd (L ! i)) \<and> encode_frame BC (snd (es ! i)) = Inr (snd (L ! i)) \<and>
      V s (data_prefix (data_id (controls F)) @ fst (L ! i)) = Some (snd (L ! i))" if "i < length L" for i
  proof -
    have "decodes u32_key (frame_value BC) [] (L ! i)" using dec that by simp
    moreover have "decoded u32_key (frame_value BC) [] (L ! i) = (fst (es ! i), snd (es ! i))" using that by (simp add: es)
    moreover have "L ! i \<in> set L" using that by simp
    moreover from this have "V s (data_prefix (data_id (controls F)) @ fst (L ! i)) = Some (snd (L ! i))"
      using range_entries_all [OF engine_finite [OF laws], where k = "fst (L ! i)" and v = "snd (L ! i)"] by (simp add: L)
    ultimately show ?thesis
      using decoded_control [OF bc, of "L ! i"] by (simp add: prod_eq_iff)
  qed
  have mem: "\<exists>i < length L. k = u32_to_be (fst (es ! i))" if some: "V s (data_prefix (data_id (controls F)) @ k) \<noteq> None" for k
  proof -
    obtain v where "V s (data_prefix (data_id (controls F)) @ k) = Some v" using some by blast
    then have "(k, v) \<in> set L" using range_entries_all [OF engine_finite [OF laws]] by (simp add: L)
    then obtain i where "i < length L" "L ! i = (k, v)" by (auto simp: in_set_conv_nth)
    then show ?thesis using entry [of i] by auto
  qed
  have len: "length es = length L" by (simp add: es)
  show "fst (es ! unat d) = d \<and> (\<exists>enc. encode_frame BC (snd (es ! unat d)) = Inr enc \<and> V s (control_key F d) = Some enc)"
    if d: "unat d < length es"
  proof -
    have "fst (es ! unat d) = d" using depths d by (metis word_unat_eq_iff)
    then show ?thesis using entry [of "unat d"] d len by (metis fst_conv)
  qed
  show "V s (control_key F d) = None" if d: "length es \<le> unat d"
  proof (rule ccontr)
    assume "V s (control_key F d) \<noteq> None"
    then obtain i where i: "i < length L" "u32_to_be d = u32_to_be (fst (es ! i))" using mem by blast
    then have "d = fst (es ! i)" by (metis u32_from_to_be)
    then show False using depths i(1) d len by auto
  qed
  show "length k = 4" if "V s (data_prefix (data_id (controls F)) @ k) \<noteq> None" using mem [OF that] by auto
qed

text \<open>No output lies above the stack: the greatest key of the outputs is checked.\<close>

lemma outputs_below:
  assumes laws: "engine_laws E V" and L: "L = range_entries (V s) p Descending None None"
    and dec: "\<forall>e \<in> set (take c L). decodes u32_key vec_value [] e" "L \<noteq> [] \<Longrightarrow> 0 < c"
    and page: "es = map (decoded u32_key vec_value []) (take c L)" "\<not> (es \<noteq> [] \<and> n \<le> unat (fst (last es)))" "length es \<le> 1"
    and d: "n \<le> unat (d :: u32)"
  shows "V s (p @ u32_to_be d) = None"
proof (rule ccontr)
  assume "V s (p @ u32_to_be d) \<noteq> None"
  then obtain v where v: "(u32_to_be d, v) \<in> set L" using range_entries_all [OF engine_finite [OF laws]] by (auto simp: L)
  then obtain e L' where e: "L = e # L'" by (cases L) auto
  have "0 < c" using dec(2) e by simp
  then obtain c' where c: "c = Suc c'" by (cases c) auto
  have decodes: "decodes u32_key vec_value [] e" using dec(1) e c by simp
  have es: "es = [decoded u32_key vec_value [] e]" using page(1,3) e c by (cases "take c' L'") auto
  then have lt: "unat (fst (decoded u32_key vec_value [] e)) < n" using page(2) by simp
  have key: "fst e = u32_to_be (fst (decoded u32_key vec_value [] e))"
    using decodes by (auto simp: decodes_def decoded_def u32_key_def u32_to_from_be split: if_splits)
  have "scan_sorted Descending (map fst L)" unfolding L range_entries_def by (simp add: o_def)
  then have "u32_to_be d \<le> fst e" using v e by (auto simp: scan_sorted_def less_imp_le)
  then have "d \<le> fst (decoded u32_key vec_value [] e)" unfolding key by (metis linorder_not_le u32_to_be_less_iff)
  then show False using lt d by (simp add: word_le_nat_alt)
qed

text \<open>
  C32: the checks that opening a flow makes of its durable call stack are sufficient: whatever bytes the two
  maps hold, if \<open>validate_frames\<close> accepts them then they represent a well-formed call stack.
\<close>

theorem validate_frames_sound:
  assumes "engine_laws (env_engine env) V" and "bincode_laws (env_bincode env)" and "runtime_ok rt" and "operations_ok V rt"
    and "validate_frames env rt world r = (Inr (), r')"
  shows "\<exists>stk. stack_rep (env_bincode env) (rt_frames rt) (V (ref_view r)) stk \<and> stack_ok rt stk"
proof -
  let ?m = "V (ref_view r)" and ?F = "rt_frames rt" and ?BC = "env_bincode env"
  let ?pc = "data_prefix (data_id (controls ?F))" and ?po = "data_prefix (data_id (outputs ?F))"
  obtain limit1 limit2 page out_page where scans: "scan_data (env_engine env) u32_key (frame_value ?BC) (ref_view r) ?pc Ascending None None limit1 [] = Inr page"
      "scan_data (env_engine env) u32_key vec_value (ref_view r) ?po Descending None None limit2 [] = Inr out_page"
      "0 < max_items limit1" "max_items limit2 = 1" "continuation page = None"
    and orphan: "\<not> (page_entries out_page \<noteq> [] \<and> length (page_entries page) \<le> unat (fst (last (page_entries out_page))))"
    and checked: "check_stack env rt world (length (page_entries page)) 0 None None (page_entries page) r = (Inr (), r')"
    by (rule validate_frames_Inr [OF assms(5)])
  obtain uc uo where uc: "prefix_successor ?pc = Some uc" and uo: "prefix_successor ?po = Some uo"
    using prefix_successor_data_prefix by metis
  obtain c where c: "page_entries page = map (decoded u32_key (frame_value ?BC) []) (take c (range_entries ?m ?pc Ascending None None))"
      "\<forall>e \<in> set (take c (range_entries ?m ?pc Ascending None None)). decodes u32_key (frame_value ?BC) [] e"
      "length (range_entries ?m ?pc Ascending None None) \<le> c"
    using scan_data_Inr [OF assms(1) uc scans(3,1) refl] scans(5) by metis
  obtain k where k: "page_entries out_page = map (decoded u32_key vec_value []) (take k (range_entries ?m ?po Descending None None))"
      "\<forall>e \<in> set (take k (range_entries ?m ?po Descending None None)). decodes u32_key vec_value [] e"
      "range_entries ?m ?po Descending None None \<noteq> [] \<Longrightarrow> 0 < k" "length (page_entries out_page) \<le> 1"
    using scan_data_Inr [OF assms(1) uo _ scans(2) refl] scans(4) by (metis zero_less_one)
  let ?es = "page_entries page"
  let ?stk = "map (\<lambda>(d, f). (f, ?m (output_key ?F d))) ?es"
  note chain = frames_checked_stack [OF check_stack_Inr [OF assms(1,3,4) checked]]
  have depths: "\<forall>i < length ?es. unat (fst (?es ! i)) = i" using chain by simp
  note represent = controls_represent [OF assms(1,2) _ refl _ depths]
  have es: "?es = map (decoded u32_key (frame_value ?BC) []) (range_entries ?m ?pc Ascending None None)"
      "\<forall>e \<in> set (range_entries ?m ?pc Ascending None None). decodes u32_key (frame_value ?BC) [] e"
    using c by simp_all
  have below: "?m (output_key ?F d) = None" if "length ?es \<le> unat d" for d
    by (rule outputs_below [OF assms(1) refl k(2,3,1) orphan k(4) that])
  have "stack_ok rt ?stk" using chain by (auto simp: stack_ok_def case_prod_unfold)
  moreover have "stack_rep ?BC ?F ?m ?stk"
    unfolding stack_rep_def using represent [OF es] below by (auto simp: case_prod_unfold)
  ultimately show ?thesis by blast
qed

lemma validate_frames_sound_witness:
  "\<exists>stk. stack_rep plain_bincode (rt_frames small_runtime) (mem_contents (ref_view (snapshot_of small_env (flow_batch small_flow)))) stk \<and>
    stack_ok small_runtime stk"
proof -
  have laws: "engine_laws (env_engine small_env) mem_contents" "bincode_laws (env_bincode small_env)"
    using small_flow_env by (simp_all add: flow_env_def)
  have "validate_frames small_env small_runtime () (snapshot_of small_env (flow_batch small_flow)) =
      (Inr (), snapshot_of small_env (flow_batch small_flow))"
    by (simp add: validate_frames_def small_runtime_def small_flow_def snapshot_of_def small_env_def sem_bind_def bind_read_def op_store_def
        ref_ensure_access_def ref_ensure_healthy_def begin_read_transaction_def mem_db_def durability_batch_def sem_return_def sem_lift_def
        scan_limit_new_def map_scan_def data_scan_def scan_key_suffix_def scan_data_def ref_poison_on_error_def Let_def
        ref_record_result_def mem_engine_def entries_of_def ordered_keys_def finish_scan_def)
  from validate_frames_sound [OF laws small_runtime_ok small_operations_ok this] show ?thesis by simp
qed

end
