(* ===== verification/Flow_Properties.thy ===== *)
theory Flow_Properties
  imports Flow_Actions Flow_Restore
begin

text \<open>
  The properties of the scheduler: what \<open>advance\<close>, \<open>run_frame\<close>, \<open>capture\<close> and \<open>drain\<close> guarantee for
  a constructed runtime whose operations keep their contract.
\<close>

section \<open>Rounds\<close>

text \<open>
  The invariant of a flow between rounds: besides \<open>flow_inv\<close>, everything committed is durable, unless the
  flow has to be reopened.
\<close>

definition flow_ready ::
  "('d, 's, 'b) env \<Rightarrow> ('s \<Rightarrow> (bytes \<rightharpoonup> bytes)) \<Rightarrow> ('d \<Rightarrow> (bytes \<rightharpoonup> bytes)) \<Rightarrow> ('d \<Rightarrow> (bytes \<rightharpoonup> bytes))
   \<Rightarrow> ('d, 's, 'w, 'b, 'x, 'p) flow \<Rightarrow> bool" where
  "flow_ready env V committed durable fl \<longleftrightarrow>
     flow_inv env V committed durable fl \<and>
     (\<not> needs_reopen (flow_runtime fl) \<longrightarrow> flow_contents durable fl = flow_contents committed fl)"

definition advance_ok ::
  "('d, 's, 'b) env \<Rightarrow> ('s \<Rightarrow> (bytes \<rightharpoonup> bytes)) \<Rightarrow> ('d \<Rightarrow> (bytes \<rightharpoonup> bytes)) \<Rightarrow> ('d \<Rightarrow> (bytes \<rightharpoonup> bytes))
   \<Rightarrow> ('d, 's, 'w, 'b, 'x, 'p) flow \<Rightarrow> run_failure + advance_outcome \<Rightarrow> ('d, 's, 'w, 'b, 'x, 'p) flow \<Rightarrow> bool" where
  "advance_ok env V committed durable fl res fl' \<longleftrightarrow>
     flow_ready env V committed durable fl' \<and> same_graph (flow_runtime fl) (flow_runtime fl') \<and>
     (case res of
        Inr _ \<Rightarrow> flow_contents durable fl' = flow_contents committed fl'
      | Inl (Panic _) \<Rightarrow> False
      | Inl (FlowRunError i _ reopen) \<Rightarrow>
          (i = FLOW_ID \<or> i \<in> rn_id ` set (rt_nodes (flow_runtime fl))) \<and> reopen = needs_reopen (flow_runtime fl'))"

lemma advance_round:
  assumes env: "flow_env env V committed durable" and ready: "flow_ready env V committed durable fl"
    and run: "advance env fl = (res, fl')"
  shows "advance_ok env V committed durable fl res fl'"
proof (cases "needs_reopen (flow_runtime fl)")
  case True
  then show ?thesis using ready run by (auto simp: advance_def advance_ok_def)
next
  case False
  obtain synced where laws: "database_laws (env_database env) V synced committed durable" using env by (auto simp: flow_env_def)
  let ?fl = "fl\<lparr>flow_batch := durability_batch (batch_database (flow_batch fl))\<rparr>"
  have "flow_inv env V committed durable ?fl"
    using ready False by (simp add: flow_ready_def flow_inv_def durability_batch_def batch_inv_def)
  from round_step_round [OF env this] obtain result fl1 where round: "round env ?fl = (result, fl1)"
    and left: "flow_left env V committed durable ?fl fl1"
    and blame: "\<And>i e. result = Inl (i, e) \<Longrightarrow> \<not> is_unwind e \<and> i < length (rt_nodes (flow_runtime fl))"
    by (auto simp: round_step_def elim!: wp_cases)
  obtain fin b where finish: "batch_finish (env_database env) (flow_batch fl1) = (fin, b)" by fastforce
  have inv1: "flow_inv env V committed durable fl1" and graph: "same_graph (flow_runtime fl) (flow_runtime fl1)"
    using left by (simp_all add: flow_left_def)
  have batch: "batch_inv committed durable b" "fin = Inr () \<Longrightarrow> durable (batch_database b) = committed (batch_database b)"
    using batch_sync_inv [OF laws _ finish [unfolded batch_finish_def]] inv1 by (auto simp: flow_inv_def)
  have same: "committed (batch_database b) = flow_contents committed fl1"
    using finish by (auto simp: batch_finish_def batch_sync_def split: if_splits prod.splits option.splits dest: database_flush [OF laws])
  have inv2: "flow_inv env V committed durable (fl1\<lparr>flow_batch := b\<rparr>)" using inv1 batch(1) same by (simp add: flow_inv_def)
  have ids: "rn_id (rt_nodes (flow_runtime fl1) ! i) \<in> rn_id ` set (rt_nodes (flow_runtime fl))" if "i < length (rt_nodes (flow_runtime fl))" for i
    using same_graph_nodes(5) [OF graph that] that by simp
  show ?thesis
  proof (cases fin)
    case (Inl e)
    have "advance env fl = (Inl (FlowRunError FLOW_ID (OpStore e) True), set_reopen (fl1\<lparr>flow_batch := b\<rparr>))"
      using False round finish Inl blame
      by (cases result) (auto simp: advance_def split: operation_error.split prod.splits)
    then show ?thesis
      using run flow_inv_reopen [OF inv2] graph
      by (auto simp: advance_ok_def flow_ready_def set_reopen_def intro: same_graph_trans)
  next
    case (Inr u)
    then have durable: "flow_ready env V committed durable (fl1\<lparr>flow_batch := b\<rparr>)" using inv2 batch(2) by (simp add: flow_ready_def)
    show ?thesis
    proof (cases result)
      case (Inl ie)
      obtain i e where ie: "ie = (i, e)" by (cases ie)
      then have "\<not> is_unwind e" "i < length (rt_nodes (flow_runtime fl))" using blame Inl by auto
      then show ?thesis
        using run False round finish Inr Inl ie durable graph ids
        by (cases e) (auto simp: advance_def advance_ok_def)
    qed (use run False round finish Inr durable graph batch(2) in \<open>auto simp: advance_def advance_ok_def\<close>)
  qed
qed

text \<open>The flow after a number of calls of \<open>advance\<close>, whatever they returned.\<close>

definition rounds :: "('d, 's, 'b) env \<Rightarrow> nat \<Rightarrow> ('d, 's, 'w, 'b, 'x, 'p) flow \<Rightarrow> ('d, 's, 'w, 'b, 'x, 'p) flow" where
  "rounds env n = (\<lambda>fl. snd (advance env fl)) ^^ n"

lemma rounds_ready:
  assumes env: "flow_env env V committed durable" and ready: "flow_ready env V committed durable fl"
  shows "flow_ready env V committed durable (rounds env n fl)" "same_graph (flow_runtime fl) (flow_runtime (rounds env n fl))"
proof -
  have "flow_ready env V committed durable (rounds env n fl) \<and> same_graph (flow_runtime fl) (flow_runtime (rounds env n fl))"
  proof (induction n)
    case (Suc n)
    have "advance_ok env V committed durable (rounds env n fl) (fst (advance env (rounds env n fl))) (rounds env (Suc n) fl)"
      by (rule advance_round [OF env]) (use Suc in \<open>simp_all add: rounds_def\<close>)
    then show ?case using Suc by (auto simp: advance_ok_def intro: same_graph_trans)
  qed (use ready in \<open>simp add: rounds_def\<close>)
  then show "flow_ready env V committed durable (rounds env n fl)" "same_graph (flow_runtime fl) (flow_runtime (rounds env n fl))" by blast+
qed

lemma busy_flow_ready: "flow_ready small_env mem_contents mem_committed_map mem_durable_map busy_flow"
  using busy_flow_inv by (simp add: flow_ready_def busy_flow_def durability_batch_def)

lemma small_flow_ready: "flow_ready small_env mem_contents mem_committed_map mem_durable_map small_flow"
  using small_flow_inv by (simp add: flow_ready_def small_flow_def durability_batch_def)

text \<open>
  C16: after any number of rounds, successful or not, the committed call stack is a chain of calls of
  the resolved topology: every frame stands on the one that called it, no frame is a sink or an operation inside a
  chain, exactly the frames that are sending have an output, and there are at most \<open>MAX_DEPTH\<close> frames.
\<close>

theorem advance_keeps_stack:
  assumes "flow_env env V committed durable" and "flow_ready env V committed durable fl"
  shows "\<exists>stk. stack_rep (env_bincode env) (rt_frames (flow_runtime fl)) (flow_contents committed (rounds env n fl)) stk \<and>
    stack_ok (flow_runtime fl) stk \<and> length stk \<le> MAX_DEPTH"
proof -
  note r = rounds_ready [OF assms, of n]
  have "stack_inv (env_bincode env) (flow_runtime fl) (flow_contents committed (rounds env n fl))"
    using r(1) same_graph_ok(3) [OF r(2)] by (simp add: flow_ready_def flow_inv_def)
  moreover have "runtime_ok (flow_runtime fl)" using assms(2) by (simp add: flow_ready_def flow_inv_def)
  ultimately show ?thesis using stack_depth unfolding stack_inv_def by blast
qed

lemma advance_keeps_stack_witness:
  "\<exists>stk. stack_rep plain_bincode (rt_frames small_runtime) (mem_committed_map (batch_database (flow_batch (rounds small_env 5 small_flow)))) stk \<and>
    stack_ok small_runtime stk \<and> length stk \<le> MAX_DEPTH"
  using advance_keeps_stack [OF small_flow_env small_flow_ready, of 5]
  by simp

text \<open>
  C17: \<open>advance\<close> does not panic, in any state that rounds lead to: no index is out of bounds, no
  \<^verbatim>\<open>expect\<close> or \<^verbatim>\<open>unreachable!\<close> is reached, and the byte allowance of a round never goes below zero,
  provided that the operations themselves do not panic.
\<close>

theorem advance_never_panics:
  assumes "flow_env env V committed durable" and "flow_ready env V committed durable fl"
  shows "fst (advance env (rounds env n fl)) \<noteq> Inl (Panic m)"
proof -
  have "advance_ok env V committed durable (rounds env n fl) (fst (advance env (rounds env n fl))) (snd (advance env (rounds env n fl)))"
    by (rule advance_round [OF assms(1) rounds_ready(1) [OF assms]]) simp
  then show ?thesis by (auto simp: advance_ok_def split: sum.splits)
qed

lemma advance_never_panics_witness: "fst (advance small_env (rounds small_env 3 small_flow)) \<noteq> Inl (Panic ''index out of bounds'')"
  by (rule advance_never_panics [OF small_flow_env small_flow_ready])

text \<open>
  C18: when \<open>advance\<close> returns, with an outcome or with an error that does not ask for reopening, everything
  committed so far is durable.
\<close>

theorem advance_durable:
  assumes "flow_env env V committed durable" and "flow_ready env V committed durable fl"
    and "advance env (rounds env n fl) = (res, fl')"
    and "case res of Inr _ \<Rightarrow> True | Inl (FlowRunError _ _ reopen) \<Rightarrow> \<not> reopen | Inl (Panic _) \<Rightarrow> False"
  shows "flow_contents durable fl' = flow_contents committed fl'"
proof -
  have "advance_ok env V committed durable (rounds env n fl) res fl'"
    by (rule advance_round [OF assms(1) rounds_ready(1) [OF assms(1,2)] assms(3)])
  then show ?thesis using assms(4) by (auto simp: advance_ok_def flow_ready_def split: sum.splits run_failure.splits)
qed

lemma advance_durable_witness:
  "fst (advance small_env (rounds small_env 0 busy_flow)) = Inr Progressed \<and>
   (let d = batch_database (flow_batch (snd (advance small_env (rounds small_env 0 busy_flow))))
    in mem_durable_map d = mem_committed_map d \<and>
       mem_committed d = [(data_prefix 4, [7]), (data_prefix 5, [1]), (data_prefix 6, [9])])"
proof -
  have run: "advance small_env (rounds small_env 0 busy_flow) = (Inr Progressed, snd (advance small_env busy_flow))"
    by (simp add: rounds_def busy_advance)
  have "flow_contents mem_durable_map (snd (advance small_env busy_flow)) = flow_contents mem_committed_map (snd (advance small_env busy_flow))"
    by (rule advance_durable [OF small_flow_env busy_flow_ready run]) simp
  then show ?thesis using run by (simp add: busy_advance)
qed

text \<open>
  C19: an error of \<open>advance\<close> names the flow or one of its operations, and says truly whether the flow has
  to be reopened; once it has to be, every further call returns the same refusal and changes nothing.
\<close>

theorem advance_fail_stop:
  assumes "flow_env env V committed durable" and "flow_ready env V committed durable fl"
    and "advance env (rounds env n fl) = (Inl (FlowRunError i e reopen), fl')"
  shows "(i = FLOW_ID \<or> i \<in> rn_id ` set (rt_nodes (flow_runtime (rounds env n fl)))) \<and> reopen = needs_reopen (flow_runtime fl') \<and>
    (reopen \<longrightarrow> rounds env k fl' = fl' \<and>
       fst (advance env (rounds env k fl')) = Inl (FlowRunError FLOW_ID (Message ''flow must be reopened'') True))"
proof -
  have ok: "advance_ok env V committed durable (rounds env n fl) (Inl (FlowRunError i e reopen)) fl'"
    by (rule advance_round [OF assms(1) rounds_ready(1) [OF assms(1,2)] assms(3)])
  have stop: "rounds env k fl' = fl'" if "needs_reopen (flow_runtime fl')"
    using that by (induction k) (simp_all add: rounds_def advance_def)
  show ?thesis using ok stop by (auto simp: advance_ok_def advance_def)
qed

lemma advance_fail_stop_witness:
  "fst (advance small_env (rounds small_env 2 (set_reopen small_flow))) = Inl (FlowRunError FLOW_ID (Message ''flow must be reopened'') True)"
proof -
  have ready: "flow_ready small_env mem_contents mem_committed_map mem_durable_map (set_reopen small_flow)"
    using flow_inv_reopen [OF small_flow_inv] by (simp add: flow_ready_def set_reopen_def)
  have "advance small_env (rounds small_env 0 (set_reopen small_flow)) =
      (Inl (FlowRunError FLOW_ID (Message ''flow must be reopened'') True), set_reopen small_flow)"
    by (simp add: rounds_def advance_def set_reopen_def)
  from advance_fail_stop [OF small_flow_env ready this, of 2] show ?thesis by blast
qed

text \<open>
  C20: a computation makes at most nine attempts at its page, within nine step allowances, and when it
  fails for another reason than an uncertain commit it leaves the database, the durability batch and the runtime as they were.
\<close>

theorem run_frame_rolls_back:
  assumes "flow_env env V committed durable" and "flow_inv env V committed durable fl"
    and "runnable env committed fl depth f" and "9 * STEP_BYTES \<le> remaining fl"
    and "run_frame env depth f input fl = (res, fl')"
  shows "remaining fl \<le> remaining fl' + 9 * STEP_BYTES \<and>
    (\<forall>e. res = Inl e \<longrightarrow> needs_reopen (flow_runtime fl') \<or> flow_batch fl' = flow_batch fl \<and> flow_runtime fl' = flow_runtime fl)"
  using wp_run_frame [OF assms(1-4), of input] assms(5) by (auto simp: wp_def flow_kept_def split: sum.splits)

lemma run_frame_rolls_back_witness:
  "9 * STEP_BYTES \<le> remaining (snd (run_frame small_env 0 \<lparr>frame_head = 0, frame_port = None, frame_phase = Run resume_batch\<rparr>
      \<lparr>records = 1, diffs = [Some 1]\<rparr> (small_flow\<lparr>remaining := 18 * STEP_BYTES\<rparr>)))"
proof -
  let ?f = "\<lparr>frame_head = 0, frame_port = None, frame_phase = Run resume_batch\<rparr>" and ?fl = "small_flow\<lparr>remaining := 18 * STEP_BYTES\<rparr>"
  have "stack_ok small_runtime [(?f, None)]" by (rule root_frame_ok [OF small_runtime_ok]) (simp add: small_runtime_def)
  then have "runnable small_env mem_committed_map ?fl 0 ?f"
    unfolding runnable_def
    by (intro exI [of _ "[]"] exI [of _ "[]"]) (simp add: small_flow_def durability_batch_def stack_rep_def)
  from run_frame_rolls_back [OF small_flow_env _ this _ prod.collapse [symmetric]] show ?thesis
    using small_flow_inv by fastforce
qed

section \<open>Capture, delivery and status\<close>

lemma flow_commit_contents:
  assumes laws: "database_laws (env_database env) V synced committed durable" and run: "flow_commit env t fl = (Inr u, fl')"
  shows "flow_contents committed fl' = (if has_writes t then V (inner t) else flow_contents committed fl)"
    "flow_world fl' = flow_world fl" "flow_runtime fl' = flow_runtime fl"
  using run
  by (auto simp: flow_commit_def batched_commit_def transaction_commit_def commit_transaction_def Let_def sem_throw_def sem_return_def
      split: prod.splits sum.splits if_splits option.splits dest: database_commit_ok [OF laws])

lemma flow_sync_contents:
  assumes laws: "database_laws (env_database env) V synced committed durable" and inv: "batch_inv committed durable (flow_batch fl)"
    and run: "flow_sync env fl = (Inr u, fl')"
  shows "flow_contents committed fl' = flow_contents committed fl" "flow_contents durable fl' = flow_contents committed fl'"
    "flow_world fl' = flow_world fl" "flow_runtime fl' = flow_runtime fl"
  using run inv
  by (auto simp: flow_sync_def batch_sync_def batch_inv_def split: prod.splits sum.splits if_splits option.splits
      dest: database_flush [OF laws])

text \<open>
  An accepted delivery: either the commit or the barrier failed, and the source was not told anything, or the source was told
  when the transaction was committed and, for a delivery with a barrier, everything was durable.
\<close>

lemma flow_commit_result:
  assumes "flow_commit env t fl = (res, fl')"
  shows "flow_world fl' = flow_world fl" "rt_nodes (flow_runtime fl') = rt_nodes (flow_runtime fl)" "res = Inr () \<or> (\<exists>e. res = Inl e)"
  using assms by (auto simp: flow_commit_def split: prod.splits sum.splits)

lemma flow_sync_result:
  assumes "flow_sync env fl = (res, fl')"
  shows "flow_world fl' = flow_world fl" "rt_nodes (flow_runtime fl') = rt_nodes (flow_runtime fl)" "res = Inr () \<or> (\<exists>e. res = Inl e)"
  using assms by (auto simp: flow_sync_def split: prod.splits sum.splits)

lemma flow_commit_batch_inv:
  assumes "batch_inv committed durable (flow_batch fl)" "flow_commit env t fl = (res, fl')"
  shows "batch_inv committed durable (flow_batch fl')"
  using assms(2) batched_commit_inv [OF assms(1)] by (auto simp: flow_commit_def split: prod.splits sum.splits)

lemma acknowledge_result:
  assumes "acknowledge i src d fl = (res, fl')"
  shows "res = map_sum id (\<lambda>_. Progressed) (fst (source_ack src d (flow_world fl)))" "flow_world fl' = snd (source_ack src d (flow_world fl))"
    "flow_batch fl' = flow_batch fl" "rt_nodes (flow_runtime fl') = rt_nodes (set_pending i None (flow_runtime fl))"
proof -
  obtain r w where "source_ack src d (flow_world fl) = (r, w)" by fastforce
  then show "res = map_sum id (\<lambda>_. Progressed) (fst (source_ack src d (flow_world fl)))" "flow_world fl' = snd (source_ack src d (flow_world fl))"
    "flow_batch fl' = flow_batch fl" "rt_nodes (flow_runtime fl') = rt_nodes (set_pending i None (flow_runtime fl))"
    using assms by (cases r; auto simp: acknowledge_def sem_bind_def or_reopen_def in_world_def sem_return_def)+
qed

lemma set_pending_again: "set_pending i x (set_pending i y rt) = set_pending i x rt"
  by (cases "i < length (rt_nodes rt)") (simp_all add: set_pending_def list_update_beyond)

definition told_durable ::
  "('s \<Rightarrow> (bytes \<rightharpoonup> bytes)) \<Rightarrow> ('d \<Rightarrow> (bytes \<rightharpoonup> bytes)) \<Rightarrow> ('d \<Rightarrow> (bytes \<rightharpoonup> bytes)) \<Rightarrow> nat \<Rightarrow> ('s, 'w, 'x) source_operation
   \<Rightarrow> 's transaction \<Rightarrow> 'x source_delivery \<Rightarrow> 'w \<Rightarrow> (bytes \<rightharpoonup> bytes) \<Rightarrow> operation_error + advance_outcome
   \<Rightarrow> ('d, 's, 'w, 'b, 'x, 'p) flow \<Rightarrow> bool" where
  "told_durable V committed durable i src t d w c res fl' \<longleftrightarrow>
     flow_contents committed fl' = (if has_writes t then V (inner t) else c) \<and>
     (requires_ack_barrier d \<longrightarrow> flow_contents durable fl' = flow_contents committed fl') \<and>
     (res, flow_world fl') = (map_sum id (\<lambda>_. Progressed) (fst (source_ack src d w)), snd (source_ack src d w)) \<and>
     rn_pending (rt_nodes (flow_runtime fl') ! i) = None"

lemma accept_delivery_order:
  assumes laws: "database_laws (env_database env) V synced committed durable" and inv: "batch_inv committed durable (flow_batch fl)"
    and i: "i < length (rt_nodes (flow_runtime fl))" and run: "accept_delivery env i src t d fl = (res, fl')"
  shows "(\<exists>e. res = Inl e) \<and> flow_world fl' = flow_world fl \<and> rt_nodes (flow_runtime fl') = rt_nodes (flow_runtime fl) \<or>
    told_durable V committed durable i src t d (flow_world fl) (flow_contents committed fl) res fl'"
proof -
  obtain rc fl1 where c: "flow_commit env t fl = (rc, fl1)" by fastforce
  show ?thesis
  proof (cases rc)
    case (Inl e)
    then show ?thesis using run c flow_commit_result [OF c] by (auto simp: accept_delivery_def sem_bind_def)
  next
    case (Inr u)
    let ?sync = "if requires_ack_barrier d then flow_sync env else sem_return ()"
    obtain rs fl2 where s: "?sync fl1 = (rs, fl2)" by fastforce
    have s': "flow_world fl2 = flow_world fl1" "rt_nodes (flow_runtime fl2) = rt_nodes (flow_runtime fl1)"
      using s flow_sync_result [of env fl1] by (auto simp: sem_return_def split: if_splits)
    show ?thesis
    proof (cases rs)
      case (Inl e)
      then show ?thesis using run c s Inr s' flow_commit_result [OF c] by (auto simp: accept_delivery_def sem_bind_def)
    next
      case synced: (Inr u')
      have contents: "flow_contents committed fl2 = (if has_writes t then V (inner t) else flow_contents committed fl) \<and>
          (requires_ack_barrier d \<longrightarrow> flow_contents durable fl2 = flow_contents committed fl2)"
      proof (cases "requires_ack_barrier d")
        case True
        then have "flow_sync env fl1 = (Inr u', fl2)" using s synced by simp
        from flow_sync_contents(1,2) [OF laws flow_commit_batch_inv [OF inv c] this] show ?thesis
          using flow_commit_contents(1) [OF laws c [unfolded Inr]] by simp
      qed (use s flow_commit_contents(1) [OF laws c [unfolded Inr]] in \<open>simp add: sem_return_def\<close>)
      have ack: "acknowledge i src d fl2 = (res, fl')" using run c s Inr synced by (simp add: accept_delivery_def sem_bind_def)
      have "i < length (rt_nodes (flow_runtime fl2))" using i s'(2) flow_commit_result(2) [OF c] by simp
      then show ?thesis
        using contents acknowledge_result [OF ack] s' flow_commit_result(1) [OF c] by (simp add: told_durable_def set_pending_def)
    qed
  qed
qed

text \<open>
  C21: a source is told of a delivery, taken from memory or freshly polled, only when it is recorded in one transaction, that
  is committed, and, for a delivery with a barrier, everything committed is durable. Whatever \<open>capture\<close> returns, either the world
  is as polling left it and the delivery is still pending, or it is as the acknowledgement of the recorded delivery left it, and then
  the transaction is committed, durable where that is needed, and the delivery is no longer pending.
\<close>

theorem capture_durable_before_ack:
  assumes "flow_env env V committed durable" and "flow_inv env V committed durable fl"
    and "i < length (rt_nodes (flow_runtime fl))" and "rn_operation (rt_nodes (flow_runtime fl) ! i) = SourceOp src"
    and "case rn_pending (rt_nodes (flow_runtime fl) ! i) of
        Some held \<Rightarrow> d = held \<and> w = flow_world fl | None \<Rightarrow> source_poll src (flow_world fl) = (Inr (Some d), w)"
    and "source_record src w (begin_txn env fl, d) = (accepted, (t, d'))" and "capture env i fl = (res, fl')"
  shows "flow_world fl' = w \<and> rn_pending (rt_nodes (flow_runtime fl') ! i) = Some d' \<and>
      (case accepted of
         Inl e \<Rightarrow> res = Inl e \<and> flow_batch fl' = flow_batch fl
       | Inr False \<Rightarrow> res = Inr Backpressured \<and> flow_batch fl' = flow_batch fl
       | Inr True \<Rightarrow> (\<exists>e. res = Inl e)) \<or>
    accepted = Inr True \<and> told_durable V committed durable i src t d' w (flow_contents committed fl) res fl'"
proof -
  obtain synced where laws: "database_laws (env_database env) V synced committed durable" using assms(1) by (auto simp: flow_env_def)
  let ?polled = "fl\<lparr>flow_world := w, flow_runtime := set_pending i (Some d) (flow_runtime fl)\<rparr>"
  let ?fl = "fl\<lparr>flow_world := w, flow_runtime := set_pending i (Some d') (flow_runtime fl)\<rparr>"
  have held: "set_pending i (Some held) (flow_runtime fl) = flow_runtime fl" if "rn_pending (rt_nodes (flow_runtime fl) ! i) = Some held" for held
  proof -
    have "(rt_nodes (flow_runtime fl) ! i)\<lparr>rn_pending := Some held\<rparr> = rt_nodes (flow_runtime fl) ! i"
      using that by (cases "rt_nodes (flow_runtime fl) ! i") simp
    then show ?thesis by (cases "flow_runtime fl") (simp add: set_pending_def)
  qed
  have poll: "poll_source i src fl = (Inr (Some d), ?polled)"
    using assms(5) held by (auto simp: poll_source_def sem_bind_def or_reopen_def in_world_def split: option.splits)
  have "record_delivery env i src d ?polled = (map_sum id (\<lambda>accepted. (accepted, t, d')) accepted, ?fl)"
    using assms(6) by (simp add: record_delivery_def set_pending_again begin_txn_def)
  then have body: "capture env i fl =
      (case accepted of Inl e \<Rightarrow> (Inl e, ?fl)
       | Inr taken \<Rightarrow> if \<not> taken then (Inr Backpressured, ?fl) else accept_delivery env i src t d' ?fl)"
    using poll by (cases accepted) (simp_all add: capture_def index_of_def assms(3,4) sem_bind_def sem_return_def)
  have pend: "rn_pending (rt_nodes (flow_runtime ?fl) ! i) = Some d'" "i < length (rt_nodes (flow_runtime ?fl))"
    using assms(3) by (simp_all add: set_pending_def)
  have inv: "batch_inv committed durable (flow_batch ?fl)" using assms(2) by (simp add: flow_inv_def)
  show ?thesis
  proof (cases "accepted = Inr True")
    case True
    then have "accept_delivery env i src t d' ?fl = (res, fl')" using assms(7) unfolding body by simp
    from accept_delivery_order [OF laws inv pend(2) this] show ?thesis using True pend(1) by auto
  next
    case False
    then have "fl' = ?fl" "case accepted of Inl e \<Rightarrow> res = Inl e | Inr _ \<Rightarrow> res = Inr Backpressured"
      using assms(7) unfolding body by (auto split: sum.splits if_splits)
    then show ?thesis using False pend(1) by (cases accepted) auto
  qed
qed

lemma capture_durable_before_ack_witness:
  "\<exists>d t. source_record busy_source [] (begin_txn small_env busy_flow, d) = (Inr True, (t, d)) \<and> requires_ack_barrier d \<and>
     told_durable mem_contents mem_committed_map mem_durable_map 0 busy_source t d [] Map.empty (Inr Progressed)
       (snd (capture small_env 0 busy_flow)) \<and>
     flow_world (snd (capture small_env 0 busy_flow)) = [Acknowledged]"
proof -
  let ?d = "\<lparr>delivery_kind = Cdc () (Some [7]) False False, finished = False\<rparr> :: unit source_delivery"
  let ?t = "\<lparr>inner = ([(data_prefix 4, [7])], False), store_token = 1, poisoned = False, has_writes = True\<rparr> :: mem_view transaction"
  have flow: "busy_flow = busy_at busy_runtime [] [] False [] 0" by (simp add: busy_flow_def durability_batch_def mem_batch_def)
  have node: "0 < length (rt_nodes (flow_runtime busy_flow))" "rn_operation (rt_nodes (flow_runtime busy_flow) ! 0) = SourceOp busy_source"
      "rn_pending (rt_nodes (flow_runtime busy_flow) ! 0) = None"
    by (simp_all add: busy_flow_def busy_runtime_def)
  have rec: "source_record busy_source [] (begin_txn small_env busy_flow, ?d) = (Inr True, (?t, ?d))"
    by (simp add: flow busy_source_def beside_def busy_steps)
  have run: "capture small_env 0 busy_flow = (Inr Progressed, snd (capture small_env 0 busy_flow))"
    using busy_capture [of 0] by (simp add: flow)
  have poll: "source_poll busy_source (flow_world busy_flow) = (Inr (Some ?d), [])" by (simp add: flow busy_source_def sem_return_def)
  from capture_durable_before_ack [where w = "[]", OF small_flow_env busy_flow_inv node(1,2) _ rec run] node(3) poll
  have "told_durable mem_contents mem_committed_map mem_durable_map 0 busy_source ?t ?d [] Map.empty (Inr Progressed)
       (snd (capture small_env 0 busy_flow))"
    by (auto simp: flow)
  moreover have "requires_ack_barrier ?d" by (simp add: requires_ack_barrier_def)
  moreover have "flow_world (snd (capture small_env 0 busy_flow)) = [Acknowledged]" by (simp add: flow busy_capture)
  ultimately show ?thesis using rec by blast
qed

text \<open>
  What a delivery leaves, from the world \<open>w\<close> and a durable state with the contents \<open>c\<close>: the batch is settled in a fresh transaction
  only after its delivery succeeded.
\<close>

definition settled_after ::
  "('s \<Rightarrow> (bytes \<rightharpoonup> bytes)) \<Rightarrow> ('d \<Rightarrow> (bytes \<rightharpoonup> bytes)) \<Rightarrow> ('d \<Rightarrow> (bytes \<rightharpoonup> bytes)) \<Rightarrow> ('s, 'w, 'b, 'p) sink_operation
   \<Rightarrow> 'p \<Rightarrow> 'w \<Rightarrow> (bytes \<rightharpoonup> bytes) \<Rightarrow> operation_error + advance_outcome \<Rightarrow> ('d, 's, 'w, 'b, 'x, 'p) flow \<Rightarrow> bool" where
  "settled_after V committed durable snk pend w c res fl' \<longleftrightarrow>
     (case sink_deliver snk pend w of
        (Inl e, w1) \<Rightarrow> res = Inl e \<and> flow_world fl' = w1 \<and> flow_contents committed fl' = c \<and> flow_contents durable fl' = c
      | (Inr _, w1) \<Rightarrow>
          (\<exists>t0. V (inner t0) = c \<and> \<not> poisoned t0 \<and> \<not> has_writes t0 \<and>
             (case sink_settle snk pend (w1, t0) of
                (Inl e, (w2, t)) \<Rightarrow>
                  res = Inl e \<and> flow_world fl' = w2 \<and> flow_contents committed fl' = c \<and> flow_contents durable fl' = c
              | (Inr _, (w2, t)) \<Rightarrow>
                  flow_world fl' = w2 \<and>
                  (res = Inr Progressed \<and> flow_contents committed fl' = (if has_writes t then V (inner t) else c) \<or>
                   (\<exists>e. res = Inl e) \<and> (flow_contents committed fl' = c \<or> flow_contents committed fl' = V (inner t))))))"

lemma flow_commit_uncertain:
  assumes laws: "database_laws (env_database env) V synced committed durable" and run: "flow_commit env t fl = (Inl e, fl')"
  shows "flow_contents committed fl' = flow_contents committed fl \<or> flow_contents committed fl' = V (inner t)"
proof -
  obtain m d' where commit: "db_commit (env_database env) (batch_database (flow_batch fl)) (inner t) = (m, d')" by fastforce
  have "m \<noteq> None \<longrightarrow> committed d' = V (inner t) \<or> committed d' = flow_contents committed fl"
    using laws commit unfolding database_laws_def by blast
  then show ?thesis
    using run commit
    by (cases m) (auto simp: flow_commit_def batched_commit_def transaction_commit_def commit_transaction_def Let_def sem_throw_def sem_return_def
        split: if_splits)
qed

lemma deliver_pending_order:
  assumes laws: "database_laws (env_database env) V synced committed durable" and inv: "batch_inv committed durable (flow_batch fl)"
    and run: "deliver_pending env snk pend fl = (res, fl')"
  shows "(\<exists>e. res = Inl e) \<and> flow_world fl' = flow_world fl \<or>
    settled_after V committed durable snk pend (flow_world fl) (flow_contents committed fl) res fl'"
proof -
  obtain rs fl2 where s: "flow_sync env fl = (rs, fl2)" by fastforce
  show ?thesis
  proof (cases rs)
    case (Inl e)
    then show ?thesis using run s flow_sync_result [OF s] by (auto simp: deliver_pending_def sem_bind_def)
  next
    case (Inr u)
    note s' = flow_sync_contents [OF laws inv s [unfolded Inr]]
    obtain rd w1 where d: "sink_deliver snk pend (flow_world fl2) = (rd, w1)" by fastforce
    show ?thesis
    proof (cases rd)
      case (Inl e)
      then show ?thesis
        using run s s' d Inr
        by (cases "is_unwind e") (auto simp: deliver_pending_def settled_after_def sem_bind_def or_reopen_def in_world_def)
    next
      case delivered: (Inr u')
      let ?t0 = "begin_txn env fl2"
      obtain rt w2 t where t: "sink_settle snk pend (w1, ?t0) = (rt, (w2, t))" by (metis prod_cases3)
      have fresh: "begin_txn env (fl2\<lparr>flow_world := w1\<rparr>) = ?t0" "V (inner ?t0) = flow_contents committed fl" "\<not> poisoned ?t0" "\<not> has_writes ?t0"
        using s' database_begin(1) [OF laws] by (simp_all add: begin_txn_def batch_begin_def begin_write_transaction_def)
      show ?thesis
      proof (cases rt)
        case (Inl e)
        then have "res = Inl e" "flow_world fl' = w2" "flow_batch fl' = flow_batch fl2"
          using run s d t Inr delivered fresh(1)
          by (auto simp: deliver_pending_def sem_bind_def or_reopen_def in_world_def sink_transaction_def)
        then show ?thesis using s' d t delivered Inl fresh unfolding settled_after_def by auto
      next
        case settled: (Inr u'')
        obtain rc where c: "flow_commit env t (fl2\<lparr>flow_world := w2\<rparr>) = (rc, fl')" and res: "res = map_sum id (\<lambda>_. Progressed) rc"
          using run s d t Inr delivered settled fresh(1)
          by (cases "flow_commit env t (fl2\<lparr>flow_world := w2\<rparr>)")
            (auto simp: deliver_pending_def sem_bind_def or_reopen_def in_world_def sink_transaction_def sem_return_def split: sum.splits)
        have "res = Inr Progressed \<and> flow_contents committed fl' = (if has_writes t then V (inner t) else flow_contents committed fl) \<or>
           (\<exists>e. res = Inl e) \<and> (flow_contents committed fl' = flow_contents committed fl \<or> flow_contents committed fl' = V (inner t))"
          using c res s'(1) flow_commit_contents(1) [OF laws, of t "fl2\<lparr>flow_world := w2\<rparr>"]
            flow_commit_uncertain [OF laws, of t "fl2\<lparr>flow_world := w2\<rparr>"]
          by (cases rc) auto
        then show ?thesis
          using flow_commit_result(1) [OF c] s'(3) d t delivered settled fresh unfolding settled_after_def by auto
      qed
    qed
  qed
qed

text \<open>
  The contents \<open>c\<close> that a batch is delivered from: those before, or those with its plan when the sink asks for one to be persisted.
\<close>

definition planned ::
  "('s \<Rightarrow> (bytes \<rightharpoonup> bytes)) \<Rightarrow> ('s, 'w, 'b, 'p) sink_operation \<Rightarrow> 'p \<Rightarrow> operation_error + bool \<Rightarrow> 'w \<Rightarrow> 's transaction
   \<Rightarrow> (bytes \<rightharpoonup> bytes) \<Rightarrow> (bytes \<rightharpoonup> bytes) \<Rightarrow> bool" where
  "planned V snk pend init w t0 c0 c \<longleftrightarrow>
     (case init of
        Inl _ \<Rightarrow> False
      | Inr False \<Rightarrow> c = c0
      | Inr True \<Rightarrow> (\<exists>t. sink_persist_initialize snk pend w t0 = (Inr (), t) \<and> c = (if has_writes t then V (inner t) else c0)))"

lemma initialize_sink_result:
  assumes laws: "database_laws (env_database env) V synced committed durable" and inv: "batch_inv committed durable (flow_batch fl)"
    and prepare: "sink_prepare_initialize snk pend (flow_world fl) = (init, w)" and run: "initialize_sink env snk pend fl = (res, fl')"
  shows "flow_world fl' = w" "batch_inv committed durable (flow_batch fl')"
    "res = Inr () \<Longrightarrow> planned V snk pend init w (begin_txn env fl) (flow_contents committed fl) (flow_contents committed fl')"
proof -
  obtain rp t where p: "sink_persist_initialize snk pend w (begin_txn env (fl\<lparr>flow_world := w\<rparr>)) = (rp, t)" by fastforce
  have fresh: "begin_txn env (fl\<lparr>flow_world := w\<rparr>) = begin_txn env fl" by (simp add: begin_txn_def)
  obtain rc fl1 where c: "flow_commit env t (fl\<lparr>flow_world := w\<rparr>) = (rc, fl1)" by fastforce
  note c' = flow_commit_result [OF c] and inv1 = flow_commit_batch_inv [OF _ c, of committed durable]
  have body: "initialize_sink env snk pend fl =
      (case init of
         Inl e \<Rightarrow> (Inl e, if is_unwind e then fl\<lparr>flow_world := w\<rparr> else fl\<lparr>flow_world := w, flow_runtime := (flow_runtime fl)\<lparr>needs_reopen := True\<rparr>\<rparr>)
       | Inr False \<Rightarrow> (Inr (), fl\<lparr>flow_world := w\<rparr>)
       | Inr True \<Rightarrow> (case rp of Inl e \<Rightarrow> (Inl e, fl\<lparr>flow_world := w\<rparr>) | Inr _ \<Rightarrow> (rc, fl1)))"
    using prepare p c
    by (cases init; cases rp) (auto simp: initialize_sink_def sem_bind_def or_reopen_def in_world_def sink_transaction_def sem_return_def split: sum.split bool.split)
  show "flow_world fl' = w" "batch_inv committed durable (flow_batch fl')"
    using run c' inv1 inv unfolding body by (auto split: sum.splits bool.splits if_splits)
  show "planned V snk pend init w (begin_txn env fl) (flow_contents committed fl) (flow_contents committed fl')" if "res = Inr ()"
    using run that p fresh flow_commit_contents(1) [OF laws, of t "fl\<lparr>flow_world := w\<rparr>"] c unfolding body planned_def
    by (auto split: sum.splits bool.splits)
qed

text \<open>
  C22: a batch is delivered only when everything committed, the plan of its delivery included, is durable, and settled only after
  its delivery succeeded. Whatever \<open>drain\<close> returns for a loaded batch, either the world is as the preparation left it, and the target was
  not called, or the delivery started from durable contents: a failure of it, or of the settlement, leaves exactly those contents,
  and a settlement is committed, or reported as failed with the old contents or the settled ones. So a crash at any point leaves the
  batch to be delivered again, never lost.
\<close>

theorem drain_settles_after_delivery:
  assumes "flow_env env V committed durable" and "flow_inv env V committed durable fl"
    and "i < length (rt_nodes (flow_runtime fl))" and "rn_operation (rt_nodes (flow_runtime fl) ! i) = SinkOp snk"
    and "sink_load snk (flow_world fl, snapshot_of env (flow_batch fl)) = (Inr (Some pend), (w0, r))"
    and "sink_prepare_initialize snk pend w0 = (init, w)" and "drain env i fl = (res, fl')"
  shows "(\<exists>e. res = Inl e) \<and> flow_world fl' = w \<or>
    (\<exists>c. planned V snk pend init w (begin_txn env fl) (flow_contents committed fl) c \<and>
      settled_after V committed durable snk pend w c res fl')"
proof -
  obtain synced where laws: "database_laws (env_database env) V synced committed durable" using assms(1) by (auto simp: flow_env_def)
  let ?fl = "fl\<lparr>flow_world := w0\<rparr>"
  have fresh: "begin_txn env ?fl = begin_txn env fl" by (simp add: begin_txn_def)
  have inv: "batch_inv committed durable (flow_batch ?fl)" using assms(2) by (simp add: flow_inv_def)
  obtain ri fl1 where init: "initialize_sink env snk pend ?fl = (ri, fl1)" by fastforce
  note init' = initialize_sink_result [OF laws inv _ init, of init w]
  have "drain env i fl = sem_bind (initialize_sink env snk pend) (\<lambda>_. deliver_pending env snk pend) ?fl"
    by (simp add: drain_def index_of_def assms(3-5) sem_bind_def)
  then have body: "drain env i fl = (case ri of Inl e \<Rightarrow> (Inl e, fl1) | Inr _ \<Rightarrow> deliver_pending env snk pend fl1)"
    by (simp add: sem_bind_def init split: sum.split)
  show ?thesis
  proof (cases ri)
    case (Inl e)
    then show ?thesis using assms(6,7) init'(1) unfolding body by auto
  next
    case (Inr u)
    then have "deliver_pending env snk pend fl1 = (res, fl')" using assms(7) unfolding body by simp
    from deliver_pending_order [OF laws init'(2) this] show ?thesis
      using assms(6) init'(1,3) Inr fresh by fastforce
  qed
qed

lemma drain_settles_after_delivery_witness:
  "let fl = busy_at busy_runtime [(data_prefix 4, [7])] [(data_prefix 4, [7])] False [] 0; fl' = snd (drain small_env 1 fl) in
   settled_after mem_contents mem_committed_map mem_durable_map busy_sink () [] [data_prefix 5 \<mapsto> [1], data_prefix 4 \<mapsto> [7]] (Inr Progressed) fl' \<and>
   flow_world fl' = [Delivered]"
proof -
  let ?fl = "busy_at busy_runtime [(data_prefix 4, [7])] [(data_prefix 4, [7])] False [] 0"
  let ?t = "\<lparr>inner = ([(data_prefix 4, [7]), (data_prefix 5, [1])], False), store_token = 1, poisoned = False, has_writes = True\<rparr> :: mem_view transaction"
  have ne: "data_prefix 4 \<noteq> data_prefix 5" using data_prefix_append [of _ "[]" _ "[]"] by simp
  have "data_prefix i @ r = data_prefix 4 \<longleftrightarrow> i = 4 \<and> r = []" for i r using data_prefix_append [of i r 4 "[]"] by simp
  then have "stack_inv plain_bincode busy_runtime [data_prefix 4 \<mapsto> [7]]"
    by (auto simp: stack_inv_def stack_rep_def busy_runtime_def intro!: exI [of _ "[]"])
  then have inv: "flow_inv small_env mem_contents mem_committed_map mem_durable_map ?fl"
    using busy_flow_inv by (simp add: flow_inv_def busy_flow_def batch_inv_def)
  have node: "1 < length (rt_nodes (flow_runtime ?fl))" "rn_operation (rt_nodes (flow_runtime ?fl) ! 1) = SinkOp busy_sink"
    by (simp_all add: busy_runtime_def)
  have load: "sink_load busy_sink (flow_world ?fl, snapshot_of small_env (flow_batch ?fl)) = (Inr (Some ()), ([], snapshot_of small_env (flow_batch ?fl)))"
    and prepare: "sink_prepare_initialize busy_sink () [] = (Inr True, [])"
    by (simp_all add: busy_sink_def sem_return_def)
  have persist: "sink_persist_initialize busy_sink () [] (begin_txn small_env ?fl) = (Inr (), ?t)"
    by (simp add: busy_sink_def busy_steps ne)
  have run: "drain small_env 1 ?fl = (Inr Progressed, snd (drain small_env 1 ?fl))" by (simp add: busy_drain [unfolded One_nat_def])
  have "settled_after mem_contents mem_committed_map mem_durable_map busy_sink () [] [data_prefix 5 \<mapsto> [1], data_prefix 4 \<mapsto> [7]] (Inr Progressed)
      (snd (drain small_env 1 ?fl))"
    using drain_settles_after_delivery [OF small_flow_env inv node load prepare run] persist
    by (auto simp: planned_def mem_contents_def)
  then show ?thesis by (simp add: Let_def busy_drain [unfolded One_nat_def])
qed

text \<open>
  the status reports the depth of the committed call stack, which is at most \<open>MAX_DEPTH\<close>, and names the
  operation on its top; it reports no operation exactly when no call is active.
\<close>

theorem status_reports_stack:
  assumes "flow_env env V committed durable" and "flow_inv env V committed durable fl"
    and "flow_status_of env (flow_runtime fl) (snapshot_of env (flow_batch fl)) = (Inr st, r)"
  shows "\<exists>stk. stack_rep (env_bincode env) (rt_frames (flow_runtime fl)) (flow_contents committed fl) stk \<and>
    status_depth st = length stk \<and> length stk \<le> MAX_DEPTH \<and>
    active_operation st = (if stk = [] then None else Some (rn_id (rt_nodes (flow_runtime fl) ! frame_head (fst (last stk)))))"
proof -
  let ?rt = "flow_runtime fl"
  obtain stk where stk: "stack_rep (env_bincode env) (rt_frames ?rt) (flow_contents committed fl) stk" "stack_ok ?rt stk"
    using assms(2) by (auto simp: flow_inv_def stack_inv_def)
  have depth: "length stk \<le> MAX_DEPTH" using stack_depth [OF _ stk(2)] assms(2) by (simp add: flow_inv_def)
  then have small: "length stk < 2 ^ 32" by (simp add: MAX_DEPTH_def)
  have laws: "engine_laws (env_engine env) V" "bincode_laws (env_bincode env)" using assms(1) by (simp_all add: flow_env_def)
  have rep: "stack_rep (env_bincode env) (rt_frames ?rt) (V (ref_view (snapshot_of env (flow_batch fl)))) stk"
    using stk(1) snapshot_contents [OF assms(1)] by simp
  have "wp (frames_top (env_engine env) (env_bincode env) (rt_frames ?rt)) (\<lambda>a _. a = stack_top stk) (\<lambda>_ _. True) (snapshot_of env (flow_batch fl))"
    by (rule wp_frames_top [OF laws rep small]) auto
  then have st: "st = (case stack_top stk of
          None \<Rightarrow> \<lparr>status_needs_reopen = needs_reopen ?rt, status_depth = 0, active_operation = None, status_sending = False\<rparr>
        | Some (depth, f) \<Rightarrow>
            \<lparr>status_needs_reopen = needs_reopen ?rt, status_depth = unat depth + 1,
             active_operation = (if frame_head f < length (rt_nodes ?rt) then Some (rn_id (rt_nodes ?rt ! frame_head f)) else None),
             status_sending = (case frame_phase f of Send _ _ \<Rightarrow> True | Run _ \<Rightarrow> False)\<rparr>)"
    using assms(3) by (auto simp: flow_status_of_def wp_def sem_bind_Inr sem_return_def)
  have "status_depth st = length stk \<and> active_operation st = (if stk = [] then None else Some (rn_id (rt_nodes ?rt ! frame_head (fst (last stk)))))"
  proof (cases "stk = []")
    case False
    then have "frame_head (fst (last stk)) < length (rt_nodes ?rt)" using stack_ok_head(1) [OF stk(2)] by simp
    moreover have "unat (word_of_nat (length stk - 1) :: u32) = length stk - 1" using small by (intro unat_word_of_depth) simp
    ultimately show ?thesis using False by (simp add: st stack_top_def)
  qed (simp add: st stack_top_def)
  then show ?thesis using stk(1) depth by blast
qed

lemma status_reports_stack_witness:
  "\<exists>st r. flow_status_of small_env small_runtime (snapshot_of small_env (flow_batch small_flow)) = (Inr st, r) \<and> status_depth st \<le> MAX_DEPTH"
proof -
  have "\<exists>st r. flow_status_of small_env (flow_runtime small_flow) (snapshot_of small_env (flow_batch small_flow)) = (Inr st, r)"
    by (simp add: flow_status_of_def frames_top_def small_runtime_def small_flow_def snapshot_of_def small_env_def sem_bind_def bind_read_def
        ref_ensure_access_def ref_ensure_healthy_def begin_read_transaction_def mem_db_def durability_batch_def sem_return_def sem_lift_def
        scan_limit_new_def map_scan_def data_scan_def scan_key_suffix_def scan_data_def ref_poison_on_error_def
        Let_def ref_record_result_def mem_engine_def entries_of_def ordered_keys_def finish_scan_def)
  then obtain st r where run: "flow_status_of small_env (flow_runtime small_flow) (snapshot_of small_env (flow_batch small_flow)) = (Inr st, r)" by blast
  from status_reports_stack [OF small_flow_env small_flow_inv run] run show ?thesis by auto
qed

end
