(* ===== verification/Source_Sequence.thy ===== *)
theory Source_Sequence
  imports Source_Contract Memory_Engine
begin

text \<open>
  The sequence source, \<^verbatim>\<open>crates/operation/src/operation/scan/sequence.rs\<close>, which emits consecutive numbers.

  Its durable state is the last committed number (\<open>scan_position\<close>) and the queue of encoded rows
  (\<open>scan_published\<close>); the field \<^verbatim>\<open>next\<close> is the source's own state \<open>'w\<close>. Arrow's construction of a one-row
  batch and the encoding of a change are the fields \<open>scan_batch\<close> and \<open>scan_encode\<close>.
  The source meets the contract of sources, and however its captures are spread over restarts it emits the
  numbers from the first one on, each once, up to the largest.
\<close>

section \<open>Definitions\<close>

definition PUBLISHED_BYTES :: u64 where
  "PUBLISHED_BYTES = 64 * 1024 * 1024"

record 'b sequence_scan =
  scan_start :: u64
  scan_arrow :: "'b arrow"
  scan_batch :: "u64 \<Rightarrow> string + 'b"
  scan_encode :: "'b change \<Rightarrow> change_codec_error + bytes"
  scan_position :: data_handle
  scan_published :: data_handle

definition UnexpectedDelivery :: operation_error where
  "UnexpectedDelivery = Other ''sequence scan received another source kind'' None"

definition InvalidState :: operation_error where
  "InvalidState = Other ''sequence scan durable position or published capacity is invalid'' None"

definition sequence_after :: "u64 \<Rightarrow> u64 option \<Rightarrow> u64 option" where
  "sequence_after start position = (case position of None \<Rightarrow> Some start | Some v \<Rightarrow> checked_add_u64 v 1)"

definition sequence_restore ::
  "'s engine \<Rightarrow> 'b sequence_scan \<Rightarrow> (u64 option \<times> 's transaction_ref, operation_error, unit) sem" where
  "sequence_restore E S = (\<lambda>(next, r).
     case
       sem_bind (op_store (sem_bind (bind_read (scan_position S)) (\<lambda>p. cell_get_bounded E u64_value p 8))) (\<lambda>position.
       if (case position of None \<Rightarrow> False | Some v \<Rightarrow> v < scan_start S) then sem_throw InvalidState
       else sem_bind (op_store (sem_bind (bind_read (scan_published S)) (\<lambda>p. queue_queued_bytes E p))) (\<lambda>queued.
         if queued > PUBLISHED_BYTES then sem_throw InvalidState
         else sem_return (sequence_after (scan_start S) position))) r of
       (Inl e, r') \<Rightarrow> (Inl e, (next, r'))
     | (Inr next', r') \<Rightarrow> (Inr (), (next', r')))"

definition sequence_row :: "'b sequence_scan \<Rightarrow> u64 \<Rightarrow> operation_error + bytes" where
  "sequence_row S v =
     (case scan_batch S v of
        Inl m \<Rightarrow> Inl (Other m None)
      | Inr b \<Rightarrow>
          (case change_try_new (scan_arrow S) b [Some 1] of
             Inl e \<Rightarrow> Inl (OpChange e)
           | Inr c \<Rightarrow> map_sum OpCodec id (scan_encode S c)))"

definition sequence_poll :: "'b sequence_scan \<Rightarrow> (u64 option, operation_error, 'x source_delivery option) sem" where
  "sequence_poll S next =
     (case next of
        None \<Rightarrow> (Inr None, next)
      | Some v \<Rightarrow>
          (case sequence_row S v of
             Inl e \<Rightarrow> (Inl e, next)
           | Inr encoded \<Rightarrow> (Inr (Some \<lparr>delivery_kind = Sequence v encoded, finished = False\<rparr>), next)))"

definition sequence_record_value :: "'s engine \<Rightarrow> 'b sequence_scan \<Rightarrow> u64 \<Rightarrow> bytes \<Rightarrow> ('s, bool) write_op" where
  "sequence_record_value E S next encoded =
     sem_bind (sem_bind (bind_access (scan_published S)) (\<lambda>p. try_push E vec_value p encoded PUBLISHED_BYTES)) (\<lambda>pushed.
       if \<not> pushed then sem_return False
       else sem_bind (sem_bind (bind_access (scan_position S)) (\<lambda>p. cell_set E u64_value p next)) (\<lambda>_. sem_return True))"

definition sequence_record_kind ::
  "'s engine \<Rightarrow> 'b sequence_scan \<Rightarrow> 'x delivery_kind \<Rightarrow> ('s transaction \<times> 'x source_delivery, operation_error, bool) sem" where
  "sequence_record_kind E S kind =
     (case kind of
        Sequence next encoded \<Rightarrow> beside (op_store (sequence_record_value E S next encoded))
      | _ \<Rightarrow> sem_throw UnexpectedDelivery)"

definition sequence_record ::
  "'s engine \<Rightarrow> 'b sequence_scan \<Rightarrow> u64 option \<Rightarrow> ('s transaction \<times> 'x source_delivery, operation_error, bool) sem" where
  "sequence_record E S world q = sequence_record_kind E S (delivery_kind (snd q)) q"

definition sequence_ack :: "'x source_delivery \<Rightarrow> (u64 option, operation_error, unit) sem" where
  "sequence_ack d world =
     (case delivery_kind d of
        Sequence next _ \<Rightarrow> (Inr (), checked_add_u64 next 1)
      | _ \<Rightarrow> (Inl UnexpectedDelivery, world))"

definition sequence_scan_operation :: "'b sequence_scan \<Rightarrow> 's engine \<Rightarrow> ('s, u64 option, 'x) source_operation" where
  "sequence_scan_operation S E =
     \<lparr>source_restore = sequence_restore E S, source_poll = sequence_poll S, source_record = sequence_record E S,
      source_ack = sequence_ack,
      source_published = (\<lambda>world. op_store (sem_bind (bind_read (scan_published S)) (\<lambda>p. front_bounded E vec_value p (8 * 1024 * 1024)))),
      source_consume_published = (\<lambda>world.
        sem_bind (op_store (sem_bind (bind_access (scan_published S)) (\<lambda>p. discard_front E p 1))) (\<lambda>_. sem_return ()))\<rparr>"

section \<open>The contract of sources\<close>

interpretation sequence_source: source_contract "sequence_scan_operation S" "[scan_position S, scan_published S]"
  for S :: "'b sequence_scan"
proof (unfold_locales, goal_cases)
  case (1 E V world)
  then have "confined V (owned [scan_position S, scan_published S]) is_panicked id (sequence_record_value E S v bs)" for v bs
    unfolding sequence_record_value_def by (intro confined_intros) simp_all
  then have "confined V (owned [scan_position S, scan_published S]) is_unwind fst
      (sequence_record_kind E S k)" for k
    by (cases k) (auto simp: sequence_record_kind_def UnexpectedDelivery_def intro!: confined_intros)
  then show ?case
    unfolding sequence_scan_operation_def source_operation.select_convs
    by (rule confined_dispatch [where g = "\<lambda>q. delivery_kind (snd q)"]) (auto simp: sequence_record_def)
next
  case (2 E V world)
  then show ?case
    unfolding sequence_scan_operation_def source_operation.select_convs by (intro confined_intros) simp_all
next
  case (3 E world)
  then show ?case
    by (simp add: sequence_scan_operation_def) (intro panic_free_intros)
next
  case (4 E world r)
  then show ?case
    by (simp add: sequence_scan_operation_def) (intro op_store_view poison_intros)
next
  case (5 E world r bs)
  then show ?case
    using published_length [of "scan_published S" E "8 * 1024 * 1024" r bs]
    by (simp add: sequence_scan_operation_def ROOT_BYTES_def PAGE_BYTES_def)
next
  case (6 E)
  then show ?case
    by (auto simp: sequence_scan_operation_def panic_free_def sequence_poll_def sequence_row_def map_sum_def
        split: option.splits sum.splits)
next
  case (7 E d)
  then show ?case
    by (auto simp: sequence_scan_operation_def panic_free_def sequence_ack_def UnexpectedDelivery_def split: delivery_kind.splits)
qed

section \<open>Captures and restarts\<close>

text \<open>
  A store with the position \<open>pos\<close> and the encoded rows \<open>items\<close>, as seen by a healthy transaction of the store.
\<close>

definition sequence_at :: "('s \<Rightarrow> (bytes \<rightharpoonup> bytes)) \<Rightarrow> 'b sequence_scan \<Rightarrow> u64 option \<Rightarrow> bytes list \<Rightarrow> 's transaction \<Rightarrow> bool" where
  "sequence_at V S pos items t \<longleftrightarrow>
     \<not> poisoned t \<and> handle_token (scan_position S) = store_token t \<and> handle_token (scan_published S) = store_token t \<and>
     data_id (scan_position S) \<noteq> data_id (scan_published S) \<and>
     (\<forall>v. pos = Some v \<longrightarrow> scan_start S \<le> v) \<and> total_bytes items \<le> unat PUBLISHED_BYTES \<and>
     V (inner t) (data_prefix (data_id (scan_position S))) = map_option u64_to_be pos \<and>
     queue_rep (V (inner t)) (data_prefix (data_id (scan_published S))) items"

text \<open>
  What the flow does with a source, here in one transaction: poll, record, and on success acknowledge, at most
  \<open>n\<close> times. The result is the number of recorded deliveries.
\<close>

fun sequence_captures ::
  "'s engine \<Rightarrow> 'b sequence_scan \<Rightarrow> nat \<Rightarrow> (u64 option \<times> 's transaction, operation_error, nat) sem" where
  "sequence_captures E S 0 (next, t) = (Inr 0, (next, t))"
| "sequence_captures E S (Suc n) (next, t) =
     (case sequence_poll S next of
        (Inl e, next1) \<Rightarrow> (Inl e, (next1, t))
      | (Inr None, next1) \<Rightarrow> (Inr 0, (next1, t))
      | (Inr (Some d), next1) \<Rightarrow>
          (case sequence_record E S next1 (t, d :: unit source_delivery) of
             (Inl e, (t1, _)) \<Rightarrow> (Inl e, (next1, t1))
           | (Inr False, (t1, _)) \<Rightarrow> (Inr 0, (next1, t1))
           | (Inr True, (t1, d1)) \<Rightarrow>
               (case sequence_ack d1 next1 of
                  (Inl e, next2) \<Rightarrow> (Inl e, (next2, t1))
                | (Inr _, next2) \<Rightarrow> apfst (map_sum id Suc) (sequence_captures E S n (next2, t1)))))"

text \<open>The numbers emitted by \<open>k\<close> captures.\<close>

fun numbers :: "u64 option \<Rightarrow> nat \<Rightarrow> u64 list" where
  "numbers next 0 = []"
| "numbers None (Suc k) = []"
| "numbers (Some v) (Suc k) = v # numbers (checked_add_u64 v 1) k"

lemma wp_sequence_record_value:
  assumes laws: "engine_laws E V" and "sequence_at V S pos items (t :: 's transaction)" and size: "length bs + 8 < 2 ^ 64"
    and start: "scan_start S \<le> v" and full: "unat PUBLISHED_BYTES < total_bytes items + (length bs + 8) \<Longrightarrow> Q False t"
    and pushed: "\<And>t'. sequence_at V S (Some v) (items @ [bs]) t' \<Longrightarrow> Q True t'"
    and R: "\<And>e t'. queue_failed E e t' \<Longrightarrow> R e t'"
  shows "wp (sequence_record_value E S v bs) Q R t"
proof -
  let ?p = "data_prefix (data_id (scan_position S))" and ?q = "data_prefix (data_id (scan_published S))"
  note at = assms(2) [unfolded sequence_at_def]
  obtain u where u: "prefix_successor ?q = Some u" using prefix_successor_data_prefix by blast
  have enc: "encode_value vec_value bs = Inr bs" by (simp add: vec_value_def)
  have "wp (try_push E vec_value ?q bs PUBLISHED_BYTES) (\<lambda>pushed. wp (if \<not> pushed then sem_return False
      else sem_bind (sem_bind (bind_access (scan_position S)) (\<lambda>p. cell_set E u64_value p v)) (\<lambda>_. sem_return True)) Q R) R t"
  proof (rule wp_tracked, intro poison_intros, rule wp_try_push [OF laws u _ _ enc size])
    fix t' :: "'s transaction"
    assume rep: "queue_rep (V (inner t')) ?q (items @ [bs])" and out: "outside ?q (V (inner t)) (V (inner t'))"
      and ok: "\<not> poisoned t'" and room: "total_bytes items + (length bs + 8) \<le> unat PUBLISHED_BYTES"
    have "wp (cell_set E u64_value ?p v) (\<lambda>_. Q True) R t'" if "store_token t' = store_token t"
    proof (rule wp_cell_set [OF laws ok])
      fix t2 :: "'s transaction" assume t2: "V (inner t2) = (V (inner t'))(?p \<mapsto> u64_to_be v)" "\<not> poisoned t2" "store_token t2 = store_token t'"
      then have "queue_rep (V (inner t2)) ?q (items @ [bs])" using rep at by (simp add: queue_rep_other)
      then show "Q True t2" using at t2 that room start by (intro pushed) (auto simp: sequence_at_def)
    qed (use R in \<open>auto simp: u64_value_def queue_failed_def\<close>)
    then show "store_token t' = store_token t \<longrightarrow> wp (if \<not> True then sem_return False
      else sem_bind (sem_bind (bind_access (scan_position S)) (\<lambda>p. cell_set E u64_value p v)) (\<lambda>_. sem_return True)) Q R t'"
      using at ok by (auto simp: wp_return_fun intro!: wp_bind_access_ok)
  qed (use at full R in \<open>auto simp: queue_failed_def\<close>)
  then show ?thesis
    unfolding sequence_record_value_def wp_bind by (intro wp_bind_access_ok) (use at in auto)
qed

lemma sequence_record_step:
  assumes "engine_laws E V" "engine_reliable E" "sequence_at V S pos items t" "scan_start S \<le> v" "length bs + 8 < 2 ^ 64"
  obtains (full) "unat PUBLISHED_BYTES < total_bytes items + (length bs + 8)"
      "sequence_record E S w (t, \<lparr>delivery_kind = Sequence v bs, finished = b\<rparr>) = (Inr False, (t, \<lparr>delivery_kind = Sequence v bs, finished = b\<rparr>))"
    | (pushed) t' where "sequence_at V S (Some v) (items @ [bs]) t'"
      "sequence_record E S w (t, \<lparr>delivery_kind = Sequence v bs, finished = b\<rparr>) = (Inr True, (t', \<lparr>delivery_kind = Sequence v bs, finished = b\<rparr>))"
    | (exhausted) t' where
      "sequence_record E S w (t, \<lparr>delivery_kind = Sequence v bs, finished = b\<rparr>) = (Inl (OpStore QueueSequenceExhausted), (t', \<lparr>delivery_kind = Sequence v bs, finished = b\<rparr>))"
proof -
  have "wp (sequence_record_value E S v bs)
     (\<lambda>a t'. (a \<longrightarrow> sequence_at V S (Some v) (items @ [bs]) t') \<and> (\<not> a \<longrightarrow> t' = t \<and> unat PUBLISHED_BYTES < total_bytes items + (length bs + 8)))
     (queue_failed E) t"
    by (rule wp_sequence_record_value [OF assms(1,3,5,4)]) simp_all
  then show thesis
  proof (cases rule: wp_cases)
    case (ok a t')
    then show thesis
      by (cases a) (auto simp: sequence_record_def sequence_record_kind_def beside_def op_store_def intro: full pushed)
  next
    case (err e t')
    then show thesis
      using assms(2)
      by (intro exhausted [of t'])
        (auto simp: queue_failed_def fault_def sequence_record_def sequence_record_kind_def beside_def op_store_def boxed_def)
  qed
qed

lemma sequence_after_ge: "(\<forall>v. pos = Some v \<longrightarrow> start \<le> v) \<Longrightarrow> sequence_after start pos = Some v \<Longrightarrow> start \<le> v"
  by (auto simp: sequence_after_def word_le_nat_alt checked_add_u64_Some split: option.splits)

lemma sequence_captures_run:
  assumes "engine_laws E V" "engine_reliable E" and row: "\<And>v. sequence_row S v = Inr (row v)" "\<And>v. length (row v) + 8 < 2 ^ 64"
  shows "sequence_at V S pos items t \<Longrightarrow> sequence_captures E S n (sequence_after (scan_start S) pos, t) = (res, (next', t')) \<Longrightarrow>
    (\<exists>k pos'. let vs = numbers (sequence_after (scan_start S) pos) k in
       res = Inr k \<and> k = length vs \<and> next' = sequence_after (scan_start S) pos' \<and> sequence_at V S pos' (items @ map row vs) t' \<and>
       (k < n \<longrightarrow> (\<forall>v. next' = Some v \<longrightarrow> unat PUBLISHED_BYTES < total_bytes (items @ map row vs) + (length (row v) + 8)))) \<or>
    res = Inl (OpStore QueueSequenceExhausted)"
proof (induction n arbitrary: pos items t res)
  case 0
  then show ?case by (intro disjI1 exI [of _ 0] exI [of _ pos]) simp
next
  case (Suc n)
  show ?case
  proof (cases "sequence_after (scan_start S) pos")
    case None
    then show ?thesis
      using Suc.prems by (intro disjI1 exI [of _ 0] exI [of _ pos]) (auto simp: sequence_poll_def)
  next
    case (Some v)
    have start: "scan_start S \<le> v" using sequence_after_ge [OF _ Some] Suc.prems(1) by (simp add: sequence_at_def)
    have step: "checked_add_u64 v 1 = sequence_after (scan_start S) (Some v)" by (simp add: sequence_after_def)
    let ?d = "\<lparr>delivery_kind = Sequence v (row v), finished = False\<rparr> :: unit source_delivery"
    consider (full) "unat PUBLISHED_BYTES < total_bytes items + (length (row v) + 8)"
        "sequence_record E S (Some v) (t, ?d) = (Inr False, (t, ?d))"
      | (pushed) t1 where "sequence_at V S (Some v) (items @ [row v]) t1" "sequence_record E S (Some v) (t, ?d) = (Inr True, (t1, ?d))"
      | (exhausted) t1 where "sequence_record E S (Some v) (t, ?d) = (Inl (OpStore QueueSequenceExhausted), (t1, ?d))"
      by (rule sequence_record_step [OF assms(1,2) Suc.prems(1) start row(2)])
    then show ?thesis
    proof cases
      case full
      then show ?thesis
        using Suc.prems Some row by (intro disjI1 exI [of _ 0] exI [of _ pos]) (auto simp: sequence_poll_def)
    next
      case (pushed t1)
      obtain r where rec: "sequence_captures E S n (sequence_after (scan_start S) (Some v), t1) = (r, (next', t'))"
          "res = map_sum id Suc r"
        using Suc.prems(2) Some row pushed(2) step
        by (cases "sequence_captures E S n (sequence_after (scan_start S) (Some v), t1)")
          (auto simp: sequence_poll_def sequence_ack_def apfst_def map_prod_def)
      from Suc.IH [OF pushed(1) rec(1)] show ?thesis
      proof
        assume "r = Inl (OpStore QueueSequenceExhausted)"
        then show ?thesis using rec(2) by simp
      next
        assume "\<exists>k pos'. let vs = numbers (sequence_after (scan_start S) (Some v)) k in
          r = Inr k \<and> k = length vs \<and> next' = sequence_after (scan_start S) pos' \<and> sequence_at V S pos' ((items @ [row v]) @ map row vs) t' \<and>
          (k < n \<longrightarrow> (\<forall>x. next' = Some x \<longrightarrow> unat PUBLISHED_BYTES < total_bytes ((items @ [row v]) @ map row vs) + (length (row x) + 8)))"
        then obtain k pos' where "r = Inr k" "k = length (numbers (checked_add_u64 v 1) k)" "next' = sequence_after (scan_start S) pos'"
            "sequence_at V S pos' (items @ row v # map row (numbers (checked_add_u64 v 1) k)) t'"
            "k < n \<longrightarrow> (\<forall>x. next' = Some x \<longrightarrow> unat PUBLISHED_BYTES <
              total_bytes (items @ row v # map row (numbers (checked_add_u64 v 1) k)) + (length (row x) + 8))"
          unfolding step Let_def by auto
        then show ?thesis
          using rec(2) Some by (intro disjI1 exI [of _ "Suc k"] exI [of _ pos']) (simp add: Let_def)
      qed
    next
      case (exhausted t1)
      then show ?thesis using Suc.prems(2) Some row by (auto simp: sequence_poll_def)
    qed
  qed
qed

lemma sequence_restore_at:
  assumes laws: "engine_laws E V" "engine_reliable E" and "sequence_at V S pos items t"
  shows "sequence_restore E S (w, Write t) = (Inr (), (sequence_after (scan_start S) pos, Write t))"
proof -
  let ?p = "data_prefix (data_id (scan_position S))" and ?q = "data_prefix (data_id (scan_published S))"
  note at = assms(3) [unfolded sequence_at_def]
  obtain u where u: "prefix_successor ?q = Some u" using prefix_successor_data_prefix by blast
  have stored: "decode_bounded_value u64_value (V (inner t) ?p) 8 = Inr pos"
    using at by (cases pos) (simp_all add: decode_bounded_value_def u64_value_def)
  have small: "\<not> PUBLISHED_BYTES < of_nat (total_bytes items)"
    using at by (simp add: PUBLISHED_BYTES_def word_less_nat_alt unat_of_nat)
  let ?m = "sem_bind (op_store (sem_bind (bind_read (scan_position S)) (\<lambda>p. cell_get_bounded E u64_value p 8))) (\<lambda>position.
       if (case position of None \<Rightarrow> False | Some v \<Rightarrow> v < scan_start S) then sem_throw InvalidState
       else sem_bind (op_store (sem_bind (bind_read (scan_published S)) (\<lambda>p. queue_queued_bytes E p))) (\<lambda>queued.
         if queued > PUBLISHED_BYTES then sem_throw InvalidState
         else sem_return (sequence_after (scan_start S) position)))"
  have "wp ?m (\<lambda>next r. next = sequence_after (scan_start S) pos \<and> r = Write t) (\<lambda>_ _. False) (Write t)"
    unfolding wp_bind wp_op_store
    by (intro wp_bind_read_ok wp_cell_get_bounded [OF laws(1)])
      (use at stored small laws u in \<open>auto simp: wp_if ref_fault_def split: option.split
        intro!: wp_bind_read_ok wp_queue_queued_bytes [OF laws(1)]\<close>)
  then obtain nx r where "?m (Write t) = (Inr nx, r)" "nx = sequence_after (scan_start S) pos" "r = Write t"
    by (elim wp_cases) auto
  then show ?thesis unfolding sequence_restore_def by simp
qed

lemma numbers_nth: "i < length (numbers nx k) \<Longrightarrow> Some (unat (numbers nx k ! i)) = map_option (\<lambda>v. unat v + i) nx"
proof (induction nx k arbitrary: i rule: numbers.induct)
  case (3 v k)
  show ?case
  proof (cases i)
    case (Suc j)
    then obtain a where a: "checked_add_u64 v 1 = Some a"
      using 3(2) by (cases "checked_add_u64 v 1"; cases k) auto
    then have "unat a = Suc (unat v)" by (simp add: checked_add_u64_Some)
    then show ?thesis using 3 Suc a by simp
  qed simp
qed auto

section \<open>Properties\<close>

text \<open>
  C27: the sequence source meets the contract that the scheduler relies on, in every flow whose own data objects are
  others: it writes its two data objects only, never panics, and publishes at most one root page, even on corrupt
  bytes or a failing engine.
\<close>

theorem sequence_source_ok:
  assumes "engine_laws E V" and "apart F [scan_position S, scan_published S]"
  shows "source_ok V F (sequence_scan_operation S E :: ('s, u64 option, 'x) source_operation)"
  using assms by (rule sequence_source.source_ok_src)

text \<open>A sequence from \<open>2 ^ 64 - 2\<close> on the in-memory engine, with a row encoded as its number.\<close>

definition sample_sequence :: "u64 sequence_scan" where
  "sample_sequence =
     \<lparr>scan_start = 0xFFFFFFFFFFFFFFFE,
      scan_arrow = \<lparr>batch_rows = (\<lambda>_. 1), batch_columns = (\<lambda>_. 1), batch_slice = (\<lambda>b _ _. b),
        batch_schema = (\<lambda>_. \<lparr>schema_fields = [Field ''value'' UInt64 False []], schema_metadata = []\<rparr>), batch_decimals = (\<lambda>_. Inr ())\<rparr>,
      scan_batch = Inr, scan_encode = (\<lambda>c. Inr (u64_to_be (records c))),
      scan_position = \<lparr>handle_token = 1, data_id = 3\<rparr>, scan_published = \<lparr>handle_token = 1, data_id = 4\<rparr>\<rparr>"

definition sample_frames :: frames where
  "sample_frames = \<lparr>controls = \<lparr>handle_token = 1, data_id = 1\<rparr>, outputs = \<lparr>handle_token = 1, data_id = 2\<rparr>\<rparr>"

definition sample_store :: "mem_view transaction" where
  "sample_store = \<lparr>inner = ([], True), store_token = 1, poisoned = False, has_writes = False\<rparr>"

lemma sequence_source_ok_witness:
  "source_ok mem_contents sample_frames (sequence_scan_operation sample_sequence mem_engine :: (mem_view, u64 option, unit) source_operation)"
  by (rule sequence_source_ok [OF mem_engine_laws]) (simp add: apart_def sample_frames_def sample_sequence_def)

text \<open>
  C28: restoring the source and capturing any number of times emits consecutive numbers, from the one after the stored
  position (or the first number) on; what has been captured is what a restart finds, so that a restored source continues
  with exactly the next number. Captures stop short only after the largest number or when the queue is full.
\<close>

theorem sequence_resumes:
  assumes "engine_laws E V" "engine_reliable E" and "\<And>v. sequence_row S v = Inr (row v)" "\<And>v. length (row v) + 8 < 2 ^ 64"
    and "sequence_at V S pos items t"
  shows "sequence_restore E S (w, Write t) = (Inr (), (sequence_after (scan_start S) pos, Write t)) \<and>
    (case sequence_captures E S n (sequence_after (scan_start S) pos, t) of
       (Inr k, (nx, t')) \<Rightarrow>
         (\<exists>vs pos'. length vs = k \<and>
            (\<forall>i < k. Some (unat (vs ! i)) = map_option (\<lambda>v. unat v + i) (sequence_after (scan_start S) pos)) \<and>
            sequence_at V S pos' (items @ map row vs) t' \<and> sequence_restore E S (w, Write t') = (Inr (), (nx, Write t')) \<and>
            (k < n \<longrightarrow> (\<forall>v. nx = Some v \<longrightarrow>
               unat PUBLISHED_BYTES < total_bytes (items @ map row vs) + (length (row v) + 8))))
     | (Inl e, _) \<Rightarrow> e = OpStore QueueSequenceExhausted)"
proof -
  obtain res nx t' where run: "sequence_captures E S n (sequence_after (scan_start S) pos, t) = (res, (nx, t'))"
    by (metis prod_cases3)
  have restored: "sequence_restore E S (w, Write u) = (Inr (), (sequence_after (scan_start S) p, Write u))"
    if "sequence_at V S p its u" for p its u
    by (rule sequence_restore_at [OF assms(1,2) that])
  from sequence_captures_run [where row = row, OF assms(1-5) run] show ?thesis
  proof
    assume "\<exists>k pos'. let vs = numbers (sequence_after (scan_start S) pos) k in
       res = Inr k \<and> k = length vs \<and> nx = sequence_after (scan_start S) pos' \<and> sequence_at V S pos' (items @ map row vs) t' \<and>
       (k < n \<longrightarrow> (\<forall>v. nx = Some v \<longrightarrow> unat PUBLISHED_BYTES < total_bytes (items @ map row vs) + (length (row v) + 8)))"
    then obtain k pos' vs where vs: "vs = numbers (sequence_after (scan_start S) pos) k" "res = Inr k" "length vs = k"
        "nx = sequence_after (scan_start S) pos'" "sequence_at V S pos' (items @ map row vs) t'"
        "k < n \<longrightarrow> (\<forall>v. nx = Some v \<longrightarrow> unat PUBLISHED_BYTES < total_bytes (items @ map row vs) + (length (row v) + 8))"
      unfolding Let_def by metis
    then show ?thesis
      using run restored assms(5) numbers_nth [of _ "sequence_after (scan_start S) pos" k]
      by (simp add: exI [of _ vs] exI [of _ pos'])
  next
    assume "res = Inl (OpStore QueueSequenceExhausted)"
    then show ?thesis using run restored [OF assms(5)] by simp
  qed
qed

lemma sequence_resumes_witness:
  "sequence_at mem_contents sample_sequence None [] sample_store \<and>
   (case sequence_captures mem_engine sample_sequence 5 (Some 0xFFFFFFFFFFFFFFFE, sample_store) of
      (Inr k, (nx, t')) \<Rightarrow> sequence_restore mem_engine sample_sequence (None, Write t') = (Inr (), (nx, Write t'))
    | (Inl e, _) \<Rightarrow> e = OpStore QueueSequenceExhausted)"
proof -
  have at: "sequence_at mem_contents sample_sequence None [] sample_store"
    by (simp add: sequence_at_def sample_sequence_def sample_store_def queue_rep_def queue_at_def queue_cells_simps queue_fits_def
        mem_contents_def namespace_def fun_eq_iff)
  have "validate_schema \<lparr>schema_fields = [Field ''value'' UInt64 False []], schema_metadata = []\<rparr> = Inr ()"
    unfolding validate_schema_accepts
    by (simp add: schema_ok_def metadata_ok_def starts_with_def RESERVED_FIELD_PREFIX_def MAX_SCHEMA_FIELDS_def
        MAX_SCHEMA_METADATA_ENTRIES_def MAX_SCHEMA_TEXT_BYTES_def)
  then have row: "sequence_row sample_sequence v = Inr (u64_to_be v)" for v
    by (simp add: sequence_row_def sample_sequence_def change_try_new_def try_new_shape_def)
  have "sequence_after (scan_start sample_sequence) None = Some 0xFFFFFFFFFFFFFFFE"
    by (simp add: sequence_after_def sample_sequence_def)
  then show ?thesis
    using sequence_resumes [OF mem_engine_laws mem_engine_reliable row _ at, of None 5] at
    by (auto split: prod.splits sum.splits)
qed

end
