(* ===== verification/Cdc_Convert.thy ===== *)
theory Cdc_Convert
  imports Change_Core "HOL-Library.AList"
begin

text \<open>
  The conversion of change-data-capture records to changes: \<^verbatim>\<open>crates/operation/src/operation/scan/cdc_convert.rs\<close>.

  A record is a topic and a Connect JSON document. JSON values are a datatype; the parsers the code takes from
  other packages (JSON, Base64, RFC 3339, floating-point conversion, Arrow arrays) are the record \<open>connect\<close> and the
  arguments of \<open>build_change\<close>. Floating-point numbers are their bit patterns. The loop over the records is \<open>convert_loop\<close>; its
  state is the snapshot progress, the seal, and the rows and differences so far.
\<close>

section \<open>JSON\<close>

type_synonym f64 = "64 word"
type_synonym f32 = "32 word"

datatype json =
    JNull | JBool bool | JInt int | JFloat f64 | JString string | JArray "json list" | JObject "(string \<times> json) list"

type_synonym row = "(string \<times> json) list"

fun as_i64 :: "json \<Rightarrow> int option" where
  "as_i64 (JInt i) = (if - (2 ^ 63) \<le> i \<and> i < 2 ^ 63 then Some i else None)"
| "as_i64 _ = None"

fun as_str :: "json \<Rightarrow> string option" where
  "as_str (JString s) = Some s"
| "as_str _ = None"

fun as_bool :: "json \<Rightarrow> bool option" where
  "as_bool (JBool b) = Some b"
| "as_bool _ = None"

fun as_array :: "json \<Rightarrow> json list option" where
  "as_array (JArray xs) = Some xs"
| "as_array _ = None"

fun as_object :: "json \<Rightarrow> row option" where
  "as_object (JObject m) = Some m"
| "as_object _ = None"

fun json_get :: "json \<Rightarrow> string \<Rightarrow> json option" where
  "json_get (JObject m) k = map_of m k"
| "json_get _ _ = None"

abbreviation get_str :: "row \<Rightarrow> string \<Rightarrow> string option" where
  "get_str m k \<equiv> Option.bind (map_of m k) as_str"

record connect =
  parse_json :: "bytes \<Rightarrow> json option"
  base64_decode :: "string \<Rightarrow> bytes option"
  base64_reads :: "string \<Rightarrow> bool"
  base64_decode_slice :: "string \<Rightarrow> nat \<Rightarrow> bytes option"
  parse_rfc3339 :: "string \<Rightarrow> (int \<times> nat) option"
  number_as_f64 :: "int \<Rightarrow> f64"
  f64_nan :: f64
  f64_infinity :: f64
  f64_neg_infinity :: f64
  as_f32 :: "f64 \<Rightarrow> f32"
  f64_finite :: "f64 \<Rightarrow> bool"
  f32_finite :: "f32 \<Rightarrow> bool"

section \<open>Definitions\<close>

record snapshot_progress =
  saw_snapshot_row :: bool
  snapshot_complete :: bool

definition default_progress :: snapshot_progress where
  "default_progress = \<lparr>saw_snapshot_row = False, snapshot_complete = False\<rparr>"

datatype snapshot_marker = Snapshot | Last | Streaming_Marker

datatype convert_error = Invalid string | IncompleteImage | ConvertArrow string | ConvertChange change_error | ConvertPanic string

definition valid_decimal :: "nat \<Rightarrow> int \<Rightarrow> bool" where
  "valid_decimal precision scale \<longleftrightarrow> 1 \<le> precision \<and> precision \<le> 38 \<and> scale \<ge> 0 \<and> scale \<le> int precision"

text \<open>The errors of \<open>source_schema\<close> are texts; a rejected schema is rendered by the error's display.\<close>

datatype source_schema_error = SchemaText string | SchemaDisplay schema_error

fun check_columns :: "(data_type \<Rightarrow> bool) \<Rightarrow> string list \<Rightarrow> field list \<Rightarrow> source_schema_error + unit" where
  "check_columns supported names [] = Inr ()"
| "check_columns supported names (field # rest) =
     (if \<not> supported (field_type field) then Inl (SchemaText ''unsupported source column type'')
      else if field_name field = [] \<or> CHR 0x00 \<in> set (field_name field) \<or> field_name field \<in> set names
      then Inl (SchemaText ''column names must be nonempty, NUL-free, and unique'')
      else if field_metadata field \<noteq> [] then Inl (SchemaText ''source column metadata must be empty'')
      else check_columns supported (field_name field # names) rest)"

definition source_schema :: "(data_type \<Rightarrow> bool) \<Rightarrow> field list \<Rightarrow> source_schema_error + schema" where
  "source_schema supported columns =
     (if columns = [] \<or> length columns > 1600 then Inl (SchemaText ''table must have between 1 and 1600 columns'')
      else (case check_columns supported [] columns of
        Inl e \<Rightarrow> Inl e
      | Inr _ \<Rightarrow>
          (let s = \<lparr>schema_fields = columns, schema_metadata = []\<rparr> in
           case validate_schema s of Inl e \<Rightarrow> Inl (SchemaDisplay e) | Inr _ \<Rightarrow> Inr s)))"

fun connect_type :: "data_type \<Rightarrow> convert_error + string \<times> string option" where
  "connect_type Boolean = Inr (''boolean'', None)"
| "connect_type Int16 = Inr (''int16'', None)"
| "connect_type Int32 = Inr (''int32'', None)"
| "connect_type Int64 = Inr (''int64'', None)"
| "connect_type Float32 = Inr (''float'', None)"
| "connect_type Float64 = Inr (''double'', None)"
| "connect_type Utf8 = Inr (''string'', None)"
| "connect_type Binary = Inr (''bytes'', None)"
| "connect_type Date32 = Inr (''int32'', Some ''io.debezium.time.Date'')"
| "connect_type (Timestamp u zone) =
     (if u = Microsecond \<and> zone = None then Inr (''int64'', Some ''io.debezium.time.MicroTimestamp'')
      else if u = Microsecond \<and> zone = Some ''UTC'' then Inr (''string'', Some ''io.debezium.time.ZonedTimestamp'')
      else Inl (Invalid ''unsupported source column type''))"
| "connect_type (Decimal128 precision scale) =
     (if valid_decimal precision scale then Inr (''bytes'', Some ''org.apache.kafka.connect.data.Decimal'')
      else Inl (Invalid ''unsupported source column type''))"
| "connect_type _ = Inl (Invalid ''unsupported source column type'')"

definition object_field :: "json \<Rightarrow> string \<Rightarrow> convert_error + row" where
  "object_field v field =
     (case Option.bind (json_get v field) as_object of
        None \<Rightarrow> Inl (Invalid (''missing object field '' @ field))
      | Some m \<Rightarrow> Inr m)"

definition validate_snapshot_notification :: "row \<Rightarrow> convert_error + bool" where
  "validate_snapshot_notification payload =
     (if get_str payload ''aggregate_type'' \<noteq> Some ''Initial Snapshot''
      then Inl (Invalid ''unexpected Debezium notification aggregate'')
      else (case get_str payload ''type'' of
        Some kind \<Rightarrow>
          if kind = ''STARTED'' \<or> kind = ''IN_PROGRESS'' \<or> kind = ''TABLE_SCAN_COMPLETED'' then Inr False
          else if kind = ''COMPLETED'' then Inr True
          else if kind = ''ABORTED'' \<or> kind = ''SKIPPED''
            then Inl (Invalid ''Debezium initial snapshot did not complete successfully'')
          else Inl (Invalid ''unexpected Debezium initial snapshot notification'')
      | None \<Rightarrow> Inl (Invalid ''unexpected Debezium initial snapshot notification'')))"

definition sum_then :: "'e + 'a \<Rightarrow> ('a \<Rightarrow> 'e + 'b) \<Rightarrow> 'e + 'b" where
  "sum_then x f = (case x of Inl e \<Rightarrow> Inl e | Inr a \<Rightarrow> f a)"

text \<open>The decimal spelling of an integer, as \<^verbatim>\<open>to_string\<close> gives it.\<close>

fun nat_digits :: "nat \<Rightarrow> string" where
  "nat_digits n = (if n < 10 then [char_of (48 + n)] else nat_digits (n div 10) @ [char_of (48 + n mod 10)])"

declare nat_digits.simps [simp del]

definition int_digits :: "int \<Rightarrow> string" where
  "int_digits i = (if i < 0 then ''-'' @ nat_digits (nat (- i)) else nat_digits (nat i))"

definition validate_column :: "field \<Rightarrow> json \<Rightarrow> convert_error + unit" where
  "validate_column column field =
     sum_then (connect_type (field_type column)) (\<lambda>(literal, logical).
       let logical_matches =
         (case (logical, json_get field ''name'') of
            (None, None) \<Rightarrow> True
          | (Some expected, Some (JString actual)) \<Rightarrow> actual = expected
          | _ \<Rightarrow> False)
       in if Option.bind (json_get field ''field'') as_str \<noteq> Some (field_name column)
            \<or> Option.bind (json_get field ''type'') as_str \<noteq> Some literal \<or> \<not> logical_matches
            \<or> Option.bind (json_get field ''optional'') as_bool \<noteq> Some (nullable column)
          then Inl (Invalid (''schema changed at column '' @ field_name column))
          else (case field_type column of
            Decimal128 precision scale \<Rightarrow>
              sum_then (object_field field ''parameters'') (\<lambda>parameters.
                if get_str parameters ''scale'' \<noteq> Some (int_digits scale)
                  \<or> get_str parameters ''connect.decimal.precision'' \<noteq> Some (nat_digits precision)
                then Inl (Invalid (''decimal schema changed at column '' @ field_name column))
                else Inr ())
          | _ \<Rightarrow> Inr ()))"

fun check_all :: "('a \<Rightarrow> 'e + unit) \<Rightarrow> 'a list \<Rightarrow> 'e + unit" where
  "check_all f [] = Inr ()"
| "check_all f (x # xs) = sum_then (f x) (\<lambda>_. check_all f xs)"

definition validate_row_schema :: "field list \<Rightarrow> json list \<Rightarrow> string \<Rightarrow> convert_error + unit" where
  "validate_row_schema columns envelope_fields row_name =
     (case filter (\<lambda>field. Option.bind (json_get field ''field'') as_str = Some row_name) envelope_fields of
        [] \<Rightarrow> Inl (Invalid ''missing row schema'')
      | row # others \<Rightarrow>
          if others \<noteq> [] \<or> Option.bind (json_get row ''type'') as_str \<noteq> Some ''struct''
            \<or> Option.bind (json_get row ''optional'') as_bool \<noteq> Some True
          then Inl (Invalid ''row schema must be one optional struct'')
          else (case Option.bind (json_get row ''fields'') as_array of
            None \<Rightarrow> Inl (Invalid ''row schema has no fields'')
          | Some row_fields \<Rightarrow>
              if length row_fields \<noteq> length columns then Inl (Invalid ''table schema changed its column count'')
              else check_all (\<lambda>(column, field). validate_column column field) (zip columns row_fields)))"

definition validate_envelope :: "field list \<Rightarrow> row \<Rightarrow> convert_error + unit" where
  "validate_envelope columns schema =
     (if get_str schema ''type'' \<noteq> Some ''struct'' then Inl (Invalid ''envelope schema must be a struct'')
      else (case Option.bind (map_of schema ''fields'') as_array of
        None \<Rightarrow> Inl (Invalid ''envelope schema has no fields'')
      | Some envelope_fields \<Rightarrow> check_all (validate_row_schema columns envelope_fields) [''before'', ''after'']))"

definition validate_heartbeat :: "row \<Rightarrow> row \<Rightarrow> convert_error + unit" where
  "validate_heartbeat schema payload =
     (case Option.bind (map_of schema ''fields'') as_array of
        Some [timestamp] \<Rightarrow>
          if get_str schema ''type'' \<noteq> Some ''struct''
            \<or> get_str schema ''name'' \<noteq> Some ''io.debezium.connector.common.Heartbeat''
            \<or> Option.bind (json_get timestamp ''field'') as_str \<noteq> Some ''ts_ms''
            \<or> Option.bind (json_get timestamp ''type'') as_str \<noteq> Some ''int64''
            \<or> Option.bind (json_get timestamp ''optional'') as_bool \<noteq> Some False
            \<or> json_get timestamp ''name'' \<noteq> None \<or> length payload \<noteq> 1
            \<or> Option.bind (map_of payload ''ts_ms'') as_i64 = None
          then Inl (Invalid ''unexpected heartbeat record'') else Inr ()
      | _ \<Rightarrow> Inl (Invalid ''unexpected heartbeat schema''))"

subsection \<open>Values\<close>

datatype cell = BoolCell bool | IntCell int | F32Cell f32 | F64Cell f64 | TextCell string | BinaryCell bytes

definition parse_int16 :: "json \<Rightarrow> int option" where
  "parse_int16 v = Option.bind (as_i64 v) (\<lambda>i. if - (2 ^ 15) \<le> i \<and> i < 2 ^ 15 then Some i else None)"

definition parse_int32 :: "json \<Rightarrow> int option" where
  "parse_int32 v = Option.bind (as_i64 v) (\<lambda>i. if - (2 ^ 31) \<le> i \<and> i < 2 ^ 31 then Some i else None)"

definition parse_binary :: "connect \<Rightarrow> json \<Rightarrow> bytes option" where
  "parse_binary C v = Option.bind (as_str v) (base64_decode C)"

definition valid_binary :: "connect \<Rightarrow> json \<Rightarrow> bool" where
  "valid_binary C v = (case as_str v of None \<Rightarrow> False | Some encoded \<Rightarrow> base64_reads C encoded)"

definition parse_date :: "json \<Rightarrow> int option" where
  "parse_date v = Option.bind (parse_int32 v) (\<lambda>days. if days \<ge> - 2440588 then Some days else None)"

definition parse_timestamp :: "json \<Rightarrow> int option" where
  "parse_timestamp v =
     Option.bind (as_i64 v) (\<lambda>micros.
       if micros = 9223372036825200000 \<or> micros = - 9223372036832400000 then None else Some micros)"

definition parse_timestamp_tz :: "connect \<Rightarrow> json \<Rightarrow> int option" where
  "parse_timestamp_tz C v =
     Option.bind (as_str v) (\<lambda>text. Option.bind (parse_rfc3339 C text) (\<lambda>(micros, subsec_nanos).
       if subsec_nanos < 1000000000 \<and> subsec_nanos mod 1000 = 0 then Some micros else None))"

fun as_f64 :: "connect \<Rightarrow> json \<Rightarrow> f64 option" where
  "as_f64 C (JInt i) = Some (number_as_f64 C i)"
| "as_f64 C (JFloat f) = Some f"
| "as_f64 C _ = None"

definition parse_float64 :: "connect \<Rightarrow> json \<Rightarrow> f64 option" where
  "parse_float64 C v =
     (case as_f64 C v of
        Some f \<Rightarrow> Some f
      | None \<Rightarrow> Option.bind (as_str v) (\<lambda>text.
          if text = ''NaN'' then Some (f64_nan C)
          else if text = ''Infinity'' then Some (f64_infinity C)
          else if text = ''-Infinity'' then Some (f64_neg_infinity C)
          else None))"

definition parse_float32 :: "connect \<Rightarrow> json \<Rightarrow> f32 option" where
  "parse_float32 C v =
     Option.bind (parse_float64 C v) (\<lambda>parsed.
       let narrowed = as_f32 C parsed in
       if \<not> f64_finite C parsed \<or> f32_finite C narrowed then Some narrowed else None)"

definition i128_from_be :: "bytes \<Rightarrow> int" where
  "i128_from_be bs = (let n = nat_of_be bs in if n \<ge> 2 ^ 127 then int n - 2 ^ 128 else int n)"

definition parse_decimal :: "connect \<Rightarrow> json \<Rightarrow> nat \<Rightarrow> int option" where
  "parse_decimal C v precision =
     (if \<not> (1 \<le> precision \<and> precision \<le> 38) then None
      else Option.bind (as_str v) (\<lambda>encoded_value.
        if length encoded_value > 24 then None
        else Option.bind (base64_decode_slice C encoded_value 18) (\<lambda>bs.
          case bs of
            [] \<Rightarrow> None
          | first # _ \<Rightarrow>
              if length bs > 16 then None
              else
                (let unscaled = i128_from_be (replicate (16 - length bs) (if first < 0x80 then 0 else 0xFF) @ bs)
                 in if nat \<bar>unscaled\<bar> < 10 ^ precision then Some unscaled else None))))"

text \<open>The value of a column: what \<open>column_array\<close> puts into the array, and \<open>validate_column_value\<close> checks only.\<close>

definition parse_cell :: "connect \<Rightarrow> data_type \<Rightarrow> json \<Rightarrow> cell option" where
  "parse_cell C ty v =
     (case ty of
        Boolean \<Rightarrow> map_option BoolCell (as_bool v)
      | Int16 \<Rightarrow> map_option IntCell (parse_int16 v)
      | Int32 \<Rightarrow> map_option IntCell (parse_int32 v)
      | Int64 \<Rightarrow> map_option IntCell (as_i64 v)
      | Float32 \<Rightarrow> map_option F32Cell (parse_float32 C v)
      | Float64 \<Rightarrow> map_option F64Cell (parse_float64 C v)
      | Utf8 \<Rightarrow> map_option TextCell (as_str v)
      | Binary \<Rightarrow> map_option BinaryCell (parse_binary C v)
      | Date32 \<Rightarrow> map_option IntCell (parse_date v)
      | Timestamp u zone \<Rightarrow>
          if u = Microsecond \<and> zone = None then map_option IntCell (parse_timestamp v)
          else if u = Microsecond \<and> zone = Some ''UTC'' then map_option IntCell (parse_timestamp_tz C v)
          else None
      | Decimal128 precision _ \<Rightarrow> map_option IntCell (parse_decimal C v precision)
      | _ \<Rightarrow> None)"

definition invalid_column_value :: "field \<Rightarrow> convert_error" where
  "invalid_column_value column = Invalid (''invalid or unsupported value in column '' @ field_name column)"

definition validate_column_value :: "connect \<Rightarrow> field \<Rightarrow> json \<Rightarrow> convert_error + unit" where
  "validate_column_value C column v =
     (if v = JNull \<or> (if field_type column = Binary then valid_binary C v else parse_cell C (field_type column) v \<noteq> None)
      then Inr () else Inl (invalid_column_value column))"

text \<open>Indexing a row by a missing key panics.\<close>

fun column_values :: "connect \<Rightarrow> field \<Rightarrow> row list \<Rightarrow> convert_error + cell option list" where
  "column_values C column [] = Inr []"
| "column_values C column (r # rs) =
     (case map_of r (field_name column) of
        None \<Rightarrow> Inl (ConvertPanic ''no entry found for key'')
      | Some v \<Rightarrow>
          if v = JNull then map_sum id ((#) None) (column_values C column rs)
          else (case parse_cell C (field_type column) v of
            None \<Rightarrow> Inl (invalid_column_value column)
          | Some c \<Rightarrow> map_sum id ((#) (Some c)) (column_values C column rs)))"

text \<open>
  Arrow's part of building a batch: the precision and scale of a decimal array, and the batch itself from its columns and
  the number of rows.
\<close>

record 'b batch_builder =
  builder_arrow :: "'b arrow"
  with_precision_and_scale :: "nat \<Rightarrow> int \<Rightarrow> string + unit"
  make_batch :: "schema \<Rightarrow> cell option list list \<Rightarrow> nat \<Rightarrow> string + 'b"

definition column_array :: "connect \<Rightarrow> 'b batch_builder \<Rightarrow> field \<Rightarrow> row list \<Rightarrow> convert_error + cell option list" where
  "column_array C B column rs =
     (case field_type column of
        Decimal128 precision scale \<Rightarrow>
          sum_then (column_values C column rs) (\<lambda>cells.
            case with_precision_and_scale B precision scale of Inl m \<Rightarrow> Inl (ConvertArrow m) | Inr _ \<Rightarrow> Inr cells)
      | Timestamp u zone \<Rightarrow>
          if u = Microsecond \<and> (zone = None \<or> zone = Some ''UTC'') then column_values C column rs
          else Inl (Invalid ''unsupported source column type'')
      | ty \<Rightarrow>
          if ty \<in> {Boolean, Int16, Int32, Int64, Float32, Float64, Utf8, Binary, Date32} then column_values C column rs
          else Inl (Invalid ''unsupported source column type''))"

subsection \<open>Rows\<close>

text \<open>
  The loop of \<open>complete_row\<close> from a column index on; \<open>projection\<close> is what is left of the projection, whose first element
  is \<^verbatim>\<open>next\<close>.
\<close>

fun complete_loop :: "connect \<Rightarrow> nat \<Rightarrow> field list \<Rightarrow> nat list \<Rightarrow> row \<Rightarrow> convert_error + row" where
  "complete_loop C index [] projection r = Inr r"
| "complete_loop C index (column # columns) projection r =
     (case map_of r (field_name column) of
        None \<Rightarrow> Inl (Invalid (''row image is missing column '' @ field_name column))
      | Some v \<Rightarrow>
          if v = JNull \<and> \<not> nullable column
          then Inl (Invalid (''non-null column '' @ field_name column @ '' contains null''))
          else if projection \<noteq> [] \<and> hd projection = index mod 2 ^ 32
          then complete_loop C (Suc index) columns (tl projection) r
          else
            sum_then (validate_column_value C column v) (\<lambda>_.
              complete_loop C (Suc index) columns projection (AList.delete (field_name column) r)))"

definition complete_row :: "connect \<Rightarrow> field list \<Rightarrow> nat list \<Rightarrow> json \<Rightarrow> convert_error + row" where
  "complete_row C columns output_projection v =
     (case as_object v of
        None \<Rightarrow> Inl IncompleteImage
      | Some r \<Rightarrow>
          if length r \<noteq> length columns then Inl (Invalid ''row image does not contain exactly the declared columns'')
          else complete_loop C 0 columns output_projection r)"

fun project_arrays :: "connect \<Rightarrow> 'b batch_builder \<Rightarrow> field list \<Rightarrow> row list \<Rightarrow> nat list \<Rightarrow> convert_error + cell option list list" where
  "project_arrays C B columns rs [] = Inr []"
| "project_arrays C B columns rs (i # is) =
     (if i < length columns
      then sum_then (column_array C B (columns ! i) rs) (\<lambda>a. map_sum id ((#) a) (project_arrays C B columns rs is))
      else Inl (Invalid ''output projection is outside the source schema''))"

definition build_change ::
  "connect \<Rightarrow> 'b batch_builder \<Rightarrow> field list \<Rightarrow> nat list \<Rightarrow> schema \<Rightarrow> row list \<Rightarrow> int list \<Rightarrow> convert_error + 'b change option" where
  "build_change C B columns output_projection schema rs ds =
     (if rs = [] then Inr None
      else
        sum_then (project_arrays C B columns rs output_projection) (\<lambda>arrays.
          case make_batch B schema arrays (length rs) of
            Inl m \<Rightarrow> Inl (ConvertArrow m)
          | Inr b \<Rightarrow>
              map_sum ConvertChange Some (change_try_new (builder_arrow B) b (map (\<lambda>d. Some (word_of_int d)) ds))))"

subsection \<open>Records\<close>

text \<open>The constants and pure methods of the trait \<^verbatim>\<open>Source\<close>.\<close>

record source_shape =
  RESET_REQUIRES_SOURCE_CLEANUP :: bool
  CAPTURE_ACCEPTS_STREAMING :: bool
  STREAMING_TOMBSTONES :: bool
  columns :: "field list"
  output_projection :: "nat list"
  engine_name :: string
  table_topic :: string
  snapshot_marker :: "row \<Rightarrow> bool \<Rightarrow> convert_error + snapshot_marker"

record convert_state =
  cv_progress :: snapshot_progress
  cv_sealed :: bool
  cv_rows :: "row list"
  cv_diffs :: "int list"

definition apply_snapshot_notification ::
  "('z source_shape_scheme) \<Rightarrow> row \<Rightarrow> convert_state \<Rightarrow> convert_error + convert_state" where
  "apply_snapshot_notification S payload st =
     sum_then (validate_snapshot_notification payload) (\<lambda>completed.
       if \<not> completed then Inr st
       else if cv_sealed st then Inl (Invalid ''snapshot completion notification is duplicated'')
       else if saw_snapshot_row (cv_progress st) \<and> \<not> snapshot_complete (cv_progress st)
       then Inl (Invalid ''snapshot completed before Debezium marked the last snapshot row'')
       else Inr (st\<lparr>cv_sealed := True,
         cv_progress := (if CAPTURE_ACCEPTS_STREAMING S then (cv_progress st)\<lparr>snapshot_complete := True\<rparr> else cv_progress st)\<rparr>))"

definition push_row ::
  "connect \<Rightarrow> ('z source_shape_scheme) \<Rightarrow> json \<Rightarrow> int \<Rightarrow> convert_state \<Rightarrow> convert_error + convert_state" where
  "push_row C S img diff st =
     map_sum id (\<lambda>r. st\<lparr>cv_rows := cv_rows st @ [r], cv_diffs := cv_diffs st @ [diff]\<rparr>)
       (complete_row C (columns S) (output_projection S) img)"

definition apply_row_event ::
  "connect \<Rightarrow> ('z source_shape_scheme) \<Rightarrow> bool \<Rightarrow> string option \<Rightarrow> snapshot_marker \<Rightarrow> json \<Rightarrow> json \<Rightarrow> convert_state \<Rightarrow> convert_error + convert_state" where
  "apply_row_event C S capturing op marker before after st =
     (let streaming = (\<not> capturing \<or> CAPTURE_ACCEPTS_STREAMING S \<and> snapshot_complete (cv_progress st)) in
      if op = Some ''r'' \<and> marker \<noteq> Streaming_Marker \<and> before = JNull then
        (if \<not> capturing then Inl (Invalid ''snapshot record arrived while streaming'')
         else if cv_sealed st \<or> snapshot_complete (cv_progress st)
         then Inl (Invalid ''snapshot record arrived after snapshot completion'')
         else map_sum id (\<lambda>st1. st1\<lparr>cv_progress :=
             \<lparr>saw_snapshot_row = True, snapshot_complete = snapshot_complete (cv_progress st1) \<or> marker = Last\<rparr>\<rparr>)
           (push_row C S after 1 st))
      else if op = Some ''c'' \<and> marker = Streaming_Marker \<and> streaming \<and> before = JNull then push_row C S after 1 st
      else if op = Some ''u'' \<and> marker = Streaming_Marker \<and> streaming then
        sum_then (push_row C S before (- 1) st) (push_row C S after 1)
      else if op = Some ''d'' \<and> marker = Streaming_Marker \<and> streaming \<and> after = JNull then push_row C S before (- 1) st
      else Inl (Invalid ''record operation or snapshot marker is invalid for the current CDC phase''))"

definition convert_data ::
  "connect \<Rightarrow> ('z source_shape_scheme) \<Rightarrow> bool \<Rightarrow> json \<Rightarrow> row \<Rightarrow> convert_state \<Rightarrow> convert_error + convert_state" where
  "convert_data C S capturing v schema st =
     (if capturing \<and> \<not> CAPTURE_ACCEPTS_STREAMING S \<and> (cv_sealed st \<or> snapshot_complete (cv_progress st))
      then Inl (Invalid ''snapshot record arrived after snapshot completion'')
      else
        sum_then (validate_envelope (columns S) schema) (\<lambda>_.
        case Option.bind (json_get v ''payload'') as_object of
          None \<Rightarrow> Inl (Invalid ''missing object field payload'')
        | Some payload \<Rightarrow>
            sum_then (snapshot_marker S payload capturing) (\<lambda>marker.
            case map_of payload ''before'' of
              None \<Rightarrow> Inl (Invalid ''missing before'')
            | Some before \<Rightarrow>
                (case map_of payload ''after'' of
                   None \<Rightarrow> Inl (Invalid ''missing after'')
                 | Some after \<Rightarrow> apply_row_event C S capturing (get_str payload ''op'') marker before after st))))"

definition convert_record ::
  "connect \<Rightarrow> ('z source_shape_scheme) \<Rightarrow> bool \<Rightarrow> string option \<times> bytes option \<Rightarrow> convert_state \<Rightarrow> convert_error + convert_state" where
  "convert_record C S capturing rec st =
     (let topic = fst rec; heartbeat_topic = ''__debezium-heartbeat.'' @ engine_name S;
          notification = (capturing \<and> topic = Some (''__dogpaddle-notification.'' @ engine_name S))
      in if topic \<noteq> Some (table_topic S) \<and> topic \<noteq> Some heartbeat_topic \<and> \<not> notification
         then Inl (Invalid ''record has an unexpected topic'')
         else (case snd rec of
           None \<Rightarrow>
             if \<not> capturing \<and> STREAMING_TOMBSTONES S \<and> topic = Some (table_topic S) then Inr st
             else Inl (Invalid ''CDC records cannot be tombstones'')
         | Some bs \<Rightarrow>
             (case parse_json C bs of
                None \<Rightarrow> Inl (Invalid ''record is not valid schemas-enabled Connect JSON'')
              | Some v \<Rightarrow>
                  sum_then (object_field v ''schema'') (\<lambda>schema.
                  if notification then sum_then (object_field v ''payload'') (\<lambda>payload. apply_snapshot_notification S payload st)
                  else if topic = Some heartbeat_topic
                  then sum_then (object_field v ''payload'') (\<lambda>payload. map_sum id (\<lambda>_. st) (validate_heartbeat schema payload))
                  else convert_data C S capturing v schema st))))"

fun convert_loop ::
  "connect \<Rightarrow> ('z source_shape_scheme) \<Rightarrow> bool \<Rightarrow> (string option \<times> bytes option) list \<Rightarrow> convert_state \<Rightarrow> convert_error + convert_state" where
  "convert_loop C S capturing [] st = Inr st"
| "convert_loop C S capturing (rec # recs) st =
     sum_then (convert_record C S capturing rec st) (convert_loop C S capturing recs)"

record 'b captured =
  captured_change :: "'b change option"
  captured_sealed :: bool
  captured_progress :: snapshot_progress

definition convert_values ::
  "connect \<Rightarrow> 'b batch_builder \<Rightarrow> ('z source_shape_scheme) \<Rightarrow> schema \<Rightarrow> (string option \<times> bytes option) list \<Rightarrow> snapshot_progress option
   \<Rightarrow> convert_error + 'b captured" where
  "convert_values C B S output_schema recs progress =
     sum_then (convert_loop C S (progress \<noteq> None) recs
        \<lparr>cv_progress = (case progress of None \<Rightarrow> default_progress | Some p \<Rightarrow> p), cv_sealed = False, cv_rows = [], cv_diffs = []\<rparr>) (\<lambda>st.
       map_sum id (\<lambda>change. \<lparr>captured_change = change, captured_sealed = cv_sealed st, captured_progress = cv_progress st\<rparr>)
         (build_change C B (columns S) (output_projection S) output_schema (cv_rows st) (cv_diffs st)))"

section \<open>The absence of panics\<close>

lemma sum_then_Inr: "sum_then x f = Inr b \<longleftrightarrow> (\<exists>a. x = Inr a \<and> f a = Inr b)"
  by (cases x) (auto simp: sum_then_def)

lemma sum_then_Inl: "sum_then x f = Inl e \<longleftrightarrow> x = Inl e \<or> (\<exists>a. x = Inr a \<and> f a = Inl e)"
  by (cases x) (auto simp: sum_then_def)

lemma map_sum_Inr: "map_sum f g x = Inr b \<longleftrightarrow> (\<exists>a. x = Inr a \<and> b = g a)"
  by (cases x) auto

lemma map_sum_Inl: "map_sum f g x = Inl e \<longleftrightarrow> (\<exists>a. x = Inl a \<and> e = f a)"
  by (cases x) auto

lemmas result_simps = sum_then_Inr sum_then_Inl map_sum_Inr map_sum_Inl

definition panics :: "convert_error + 'a \<Rightarrow> bool" where
  "panics r \<longleftrightarrow> (\<exists>m. r = Inl (ConvertPanic m))"

lemma panics_sum_then: "\<not> panics x \<Longrightarrow> (\<And>a. x = Inr a \<Longrightarrow> \<not> panics (f a)) \<Longrightarrow> \<not> panics (sum_then x f)"
  by (auto simp: panics_def result_simps)

lemma panics_map_sum: "\<not> panics x \<Longrightarrow> \<not> panics (map_sum id g x)"
  by (auto simp: panics_def result_simps)

text \<open>
  A row that is complete has a value for every projected column, provided that the projection is increasing and the names
  are distinct: the loop removes the columns that are not projected, and meets the projected ones in order.
\<close>

lemma complete_loop_keeps:
  assumes "complete_loop C k cols proj r = Inr r'" "sorted_wrt (<) proj" "\<forall>i \<in> set proj. k \<le> i \<and> i < k + length cols"
    "distinct (map field_name cols)" "k + length cols \<le> 2 ^ 32"
  shows "(\<forall>i \<in> set proj. map_of r' (field_name (cols ! (i - k))) \<noteq> None) \<and>
     (\<forall>n. n \<notin> field_name ` set cols \<longrightarrow> map_of r' n = map_of r n)"
  using assms
proof (induction C k cols proj r rule: complete_loop.induct)
  case (2 C k col cols proj r)
  obtain v where v: "map_of r (field_name col) = Some v" "\<not> (v = JNull \<and> \<not> nullable col)"
    using 2(3) by (auto split: option.splits if_splits)
  have k: "k mod 2 ^ 32 = k" using 2(7) by simp
  show ?case
  proof (cases "proj \<noteq> [] \<and> hd proj = k")
    case True
    then obtain rest where proj: "proj = k # rest" by (cases proj) auto
    have IH: "(\<forall>i \<in> set rest. map_of r' (field_name (cols ! (i - Suc k))) \<noteq> None) \<and>
        (\<forall>n. n \<notin> field_name ` set cols \<longrightarrow> map_of r' n = map_of r n)"
      using 2(1) [OF v(1,2)] 2(3-7) True proj k v by fastforce
    have "map_of r' (field_name col) \<noteq> None" using IH v(1) 2(6) by auto
    moreover have "map_of r' (field_name ((col # cols) ! (i - k))) \<noteq> None" if "i \<in> set rest" for i
    proof -
      have "i - k = Suc (i - Suc k)" using that 2(4) proj by (simp add: Suc_diff_Suc)
      then show ?thesis using IH that by simp
    qed
    ultimately show ?thesis using IH proj by auto
  next
    case False
    have rec: "complete_loop C (Suc k) cols proj (AList.delete (field_name col) r) = Inr r'"
      using 2(3) v False k by (auto simp: result_simps split: if_splits)
    have above: "Suc k \<le> i" if "i \<in> set proj" for i
    proof -
      have "k \<le> i" using that 2(5) by auto
      moreover have "i \<noteq> k"
      proof
        assume "i = k"
        then show False using that False 2(4,5) by (cases proj) force+
      qed
      ultimately show ?thesis by simp
    qed
    have IH: "(\<forall>i \<in> set proj. map_of r' (field_name (cols ! (i - Suc k))) \<noteq> None) \<and>
        (\<forall>n. n \<notin> field_name ` set cols \<longrightarrow> map_of r' n = map_of (AList.delete (field_name col) r) n)"
      using 2(2) [OF v(1,2)] rec 2(3-7) False k v above by (fastforce simp: result_simps)
    have "map_of r' (field_name ((col # cols) ! (i - k))) \<noteq> None" if "i \<in> set proj" for i
    proof -
      have "i - k = Suc (i - Suc k)" using above [OF that] by simp
      then show ?thesis using IH that by simp
    qed
    then show ?thesis using IH by (auto simp: delete_conv')
  qed
qed auto

text \<open>The configuration that construction has checked: distinct column names and an increasing projection.\<close>

definition shape_ok :: "('z source_shape_scheme) \<Rightarrow> bool" where
  "shape_ok S \<longleftrightarrow>
     length (columns S) \<le> 1600 \<and> distinct (map field_name (columns S)) \<and> sorted_wrt (<) (output_projection S) \<and>
     (\<forall>i \<in> set (output_projection S). i < length (columns S)) \<and> (\<forall>payload capturing. \<not> panics (snapshot_marker S payload capturing))"

definition rows_complete :: "('z source_shape_scheme) \<Rightarrow> row list \<Rightarrow> bool" where
  "rows_complete S rs \<longleftrightarrow> (\<forall>r \<in> set rs. \<forall>i \<in> set (output_projection S). map_of r (field_name (columns S ! i)) \<noteq> None)"

lemma complete_row_projected:
  assumes "shape_ok S" "complete_row C (columns S) (output_projection S) v = Inr r"
  shows "\<forall>i \<in> set (output_projection S). map_of r (field_name (columns S ! i)) \<noteq> None"
proof -
  obtain r0 where "complete_loop C 0 (columns S) (output_projection S) r0 = Inr r"
    using assms(2) by (auto simp: complete_row_def split: option.splits if_splits)
  from complete_loop_keeps [OF this] assms(1) show ?thesis by (auto simp: shape_ok_def)
qed

lemma complete_loop_panics: "\<not> panics (complete_loop C k cols proj r)"
proof (induction C k cols proj r rule: complete_loop.induct)
  case (2 C k col cols proj r)
  have "\<not> panics (validate_column_value C col v)" for v
    by (simp add: panics_def validate_column_value_def invalid_column_value_def)
  then show ?case
    using 2 by (auto simp: panics_def result_simps split: option.splits)
qed (simp add: panics_def)

lemma complete_row_panics: "\<not> panics (complete_row C cols proj v)"
  using complete_loop_panics by (simp add: complete_row_def panics_def split: option.splits)

lemma column_values_panics:
  "\<forall>r \<in> set rs. map_of r (field_name col) \<noteq> None \<Longrightarrow> \<not> panics (column_values C col rs)"
  by (induction rs) (auto simp: panics_def result_simps invalid_column_value_def split: option.splits)

lemma column_array_panics:
  "\<forall>r \<in> set rs. map_of r (field_name col) \<noteq> None \<Longrightarrow> \<not> panics (column_array C B col rs)"
  using column_values_panics [of rs col C]
  by (cases "field_type col") (auto simp: column_array_def panics_def result_simps split: sum.splits if_splits)

lemma project_arrays_panics:
  "\<forall>r \<in> set rs. \<forall>i \<in> set is. map_of r (field_name (cols ! i)) \<noteq> None \<Longrightarrow> \<not> panics (project_arrays C B cols rs is)"
proof (induction "is")
  case (Cons i "is")
  then show ?case
    using column_array_panics [of rs "cols ! i" C B] by (auto simp: panics_def result_simps)
qed (simp add: panics_def)

lemma build_change_panics:
  assumes "rows_complete S rs"
  shows "\<not> panics (build_change C B (columns S) (output_projection S) schema rs ds)"
proof -
  have "\<not> panics (project_arrays C B (columns S) rs (output_projection S))"
    by (rule project_arrays_panics) (use assms in \<open>auto simp: rows_complete_def\<close>)
  then show ?thesis
    by (auto simp: build_change_def panics_def result_simps split: sum.splits)
qed

lemma push_row_Inr:
  "push_row C S img d st = Inr st' \<longleftrightarrow>
     (\<exists>r. complete_row C (columns S) (output_projection S) img = Inr r \<and> st' = st\<lparr>cv_rows := cv_rows st @ [r], cv_diffs := cv_diffs st @ [d]\<rparr>)"
  by (auto simp: push_row_def result_simps)

lemma push_row_panics: "\<not> panics (push_row C S img d st)"
  unfolding push_row_def by (intro panics_map_sum complete_row_panics)

lemma check_all_panics: "(\<And>x. \<not> panics (f x)) \<Longrightarrow> \<not> panics (check_all f xs)"
  by (induction xs) (auto simp: panics_def result_simps)

lemma validate_envelope_panics: "\<not> panics (validate_envelope cols schema)"
proof -
  have conn: "\<not> panics (connect_type ty)" for ty by (cases ty) (auto simp: panics_def)
  have obj: "\<not> panics (object_field v k)" for v k by (simp add: panics_def object_field_def split: option.split)
  have "\<not> panics (validate_column col f)" for col f
  proof -
    have body: "\<not> panics (if c then Inl (Invalid m) else (case ty of Decimal128 precision scale \<Rightarrow>
        sum_then (object_field f k) (\<lambda>parameters. if d parameters precision scale then Inl (Invalid n) else Inr ()) | _ \<Rightarrow> Inr ()))"
      for c m ty k d n
      using obj [of f k] by (cases ty) (auto simp: panics_def result_simps)
    show ?thesis
      unfolding validate_column_def Let_def
      by (intro panics_sum_then conn) (auto simp only: prod.case split: prod.split intro!: body)
  qed
  then have "\<not> panics (validate_row_schema cols fs n)" for fs n
    unfolding validate_row_schema_def
    using check_all_panics [of "\<lambda>(column, field). validate_column column field"]
    by (auto simp: panics_def split: list.split option.split)
  then show ?thesis
    unfolding validate_envelope_def using check_all_panics [of "validate_row_schema cols fs" for fs]
    by (auto simp: panics_def result_simps split: option.split)
qed

lemma apply_row_event_step:
  assumes "shape_ok S" "rows_complete S (cv_rows st)"
  shows "\<not> panics (apply_row_event C S capturing op marker before after st)"
    and "apply_row_event C S capturing op marker before after st = Inr st' \<Longrightarrow> rows_complete S (cv_rows st')"
proof -
  show "\<not> panics (apply_row_event C S capturing op marker before after st)"
    using push_row_panics [of C S]
    by (auto simp: apply_row_event_def Let_def panics_def result_simps)
  show "rows_complete S (cv_rows st')" if "apply_row_event C S capturing op marker before after st = Inr st'"
    using that assms complete_row_projected [OF assms(1), of C]
    by (auto simp: apply_row_event_def Let_def result_simps push_row_Inr rows_complete_def split: if_splits)
qed

lemma apply_snapshot_notification_step:
  "\<not> panics (apply_snapshot_notification S payload st)"
  "apply_snapshot_notification S payload st = Inr st' \<Longrightarrow> cv_rows st' = cv_rows st"
  by (auto simp: apply_snapshot_notification_def validate_snapshot_notification_def panics_def result_simps split: option.splits if_splits)

lemma convert_data_Inr:
  assumes "convert_data C S capturing v schema st = Inr st'"
  obtains op marker before after where "apply_row_event C S capturing op marker before after st = Inr st'"
    "capturing \<and> \<not> CAPTURE_ACCEPTS_STREAMING S \<longrightarrow> \<not> cv_sealed st \<and> \<not> snapshot_complete (cv_progress st)"
  using assms by (auto simp: convert_data_def sum_then_def split: sum.split_asm option.split_asm if_split_asm)

lemma convert_record_Inr:
  assumes "convert_record C S capturing rec st = Inr st'"
  shows "st' = st \<or> (\<exists>payload. apply_snapshot_notification S payload st = Inr st') \<or> (\<exists>v schema. convert_data C S capturing v schema st = Inr st')"
proof (cases "snd rec")
  case None
  then show ?thesis using assms by (auto simp: convert_record_def Let_def split: if_splits)
next
  case (Some bs)
  then obtain v where v: "parse_json C bs = Some v"
    using assms by (cases "parse_json C bs") (auto simp: convert_record_def Let_def split: if_splits)
  then obtain schema where schema: "object_field v ''schema'' = Inr schema"
    using assms Some by (cases "object_field v ''schema''") (auto simp: convert_record_def Let_def sum_then_def split: if_splits)
  show ?thesis
    using assms Some v schema by (fastforce simp: convert_record_def Let_def result_simps split: if_splits)
qed

text \<open>One record: it does not panic, and leaves complete rows.\<close>

lemma convert_record_step:
  assumes "shape_ok S" "rows_complete S (cv_rows st)"
  shows "\<not> panics (convert_record C S capturing rec st)"
    and "convert_record C S capturing rec st = Inr st' \<Longrightarrow> rows_complete S (cv_rows st')"
proof -
  note row = apply_row_event_step [OF assms, of C capturing]
  have marker: "\<not> panics (snapshot_marker S payload capturing)" for payload using assms(1) by (simp add: shape_ok_def)
  have data: "\<not> panics (convert_data C S capturing v schema st)" for v schema
    unfolding convert_data_def
    using validate_envelope_panics [of "columns S" schema] marker row(1)
    by (auto simp: panics_def result_simps split: option.splits)
  have data_rows: "rows_complete S (cv_rows st')" if "convert_data C S capturing v schema st = Inr st'" for v schema
    using that row(2) by (auto elim!: convert_data_Inr)
  have beat: "\<not> panics (validate_heartbeat schema payload)" for schema payload
    by (auto simp: validate_heartbeat_def panics_def split: option.splits list.splits)
  have obj: "\<not> panics (object_field v k)" for v k by (simp add: panics_def object_field_def split: option.split)
  show "\<not> panics (convert_record C S capturing rec st)"
    unfolding convert_record_def Let_def
    using data beat obj apply_snapshot_notification_step(1) [of S _ st]
    by (auto simp: panics_def result_simps split: option.splits)
  show "rows_complete S (cv_rows st')" if "convert_record C S capturing rec st = Inr st'"
    using that assms(2) data_rows apply_snapshot_notification_step(2) [of S _ st st'] by (auto dest!: convert_record_Inr)
qed

lemma convert_loop_step:
  assumes "shape_ok S" "rows_complete S (cv_rows st)"
  shows "\<not> panics (convert_loop C S capturing recs st) \<and>
    (\<forall>st'. convert_loop C S capturing recs st = Inr st' \<longrightarrow> rows_complete S (cv_rows st'))"
  using assms(2)
proof (induction recs arbitrary: st)
  case (Cons rec recs)
  then show ?case
    using convert_record_step [OF assms(1) Cons.prems, of C capturing rec] by (auto simp: panics_def result_simps)
qed (simp add: panics_def)

lemma convert_values_panics:
  assumes "shape_ok S"
  shows "\<not> panics (convert_values C B S schema recs progress)"
proof -
  have "rows_complete S (cv_rows \<lparr>cv_progress = p, cv_sealed = False, cv_rows = [], cv_diffs = []\<rparr>)" for p
    by (simp add: rows_complete_def)
  from convert_loop_step [OF assms this] show ?thesis
    unfolding convert_values_def
    by (intro panics_sum_then panics_map_sum build_change_panics) auto
qed

text \<open>
  C30: with the configuration that construction checks, the conversion of a delivery never panics, whatever the records
  hold: every row it completes has the columns that it later indexes.
\<close>

theorem convert_values_no_panic:
  assumes "shape_ok S"
  shows "convert_values C B S schema recs progress \<noteq> Inl (ConvertPanic m)"
  using convert_values_panics [OF assms, of C B schema recs progress] by (auto simp: panics_def)

text \<open>A table of one column, whose only record is the notification that the snapshot is complete.\<close>

definition sample_shape :: source_shape where
  "sample_shape =
     \<lparr>RESET_REQUIRES_SOURCE_CLEANUP = True, CAPTURE_ACCEPTS_STREAMING = False, STREAMING_TOMBSTONES = False,
      columns = [Field ''id'' Int64 False []], output_projection = [0], engine_name = ''e'', table_topic = ''e.t'',
      snapshot_marker = (\<lambda>_ _. Inr Snapshot)\<rparr>"

definition sample_connect :: connect where
  "sample_connect =
     \<lparr>parse_json = (\<lambda>_. Some (JObject [(''schema'', JObject []), (''payload'',
        JObject [(''aggregate_type'', JString ''Initial Snapshot''), (''type'', JString ''COMPLETED'')])])),
      base64_decode = (\<lambda>_. None), base64_reads = (\<lambda>_. False), base64_decode_slice = (\<lambda>_ _. None), parse_rfc3339 = (\<lambda>_. None),
      number_as_f64 = word_of_int, f64_nan = 0, f64_infinity = 0, f64_neg_infinity = 0, as_f32 = ucast, f64_finite = (\<lambda>_. True),
      f32_finite = (\<lambda>_. True)\<rparr>"

definition sample_builder :: "nat batch_builder" where
  "sample_builder =
     \<lparr>builder_arrow = \<lparr>batch_rows = id, batch_columns = (\<lambda>_. 1), batch_slice = (\<lambda>b offset len. len),
        batch_schema = (\<lambda>_. \<lparr>schema_fields = [], schema_metadata = []\<rparr>), batch_decimals = (\<lambda>_. Inr ())\<rparr>,
      with_precision_and_scale = (\<lambda>_ _. Inr ()), make_batch = (\<lambda>_ _ n. Inr n)\<rparr>"

definition sample_schema :: schema where
  "sample_schema = \<lparr>schema_fields = [], schema_metadata = []\<rparr>"

lemma convert_values_no_panic_witness:
  "convert_values sample_connect sample_builder sample_shape sample_schema [(Some ''e.t'', Some [])] None \<noteq> Inl (ConvertPanic ''panic'')"
  by (rule convert_values_no_panic) (simp add: shape_ok_def sample_shape_def panics_def)

section \<open>The snapshot protocol\<close>

text \<open>What the records of a delivery establish while capturing, from the progress \<open>p\<close> on.\<close>

definition capture_inv :: "('z source_shape_scheme) \<Rightarrow> snapshot_progress \<Rightarrow> convert_state \<Rightarrow> bool" where
  "capture_inv S p st \<longleftrightarrow>
     length (cv_rows st) = length (cv_diffs st) \<and>
     (cv_sealed st \<and> saw_snapshot_row (cv_progress st) \<longrightarrow> snapshot_complete (cv_progress st)) \<and>
     (saw_snapshot_row p \<longrightarrow> saw_snapshot_row (cv_progress st)) \<and> (snapshot_complete p \<longrightarrow> snapshot_complete (cv_progress st)) \<and>
     (CAPTURE_ACCEPTS_STREAMING S \<and> cv_sealed st \<longrightarrow> snapshot_complete (cv_progress st)) \<and>
     (\<not> CAPTURE_ACCEPTS_STREAMING S \<longrightarrow> set (cv_diffs st) \<subseteq> {1} \<and> (snapshot_complete p \<longrightarrow> cv_diffs st = []))"

lemma capture_inv_row:
  assumes "capture_inv S p st" "apply_row_event C S True op marker before after st = Inr st'"
    "\<not> CAPTURE_ACCEPTS_STREAMING S \<longrightarrow> \<not> cv_sealed st \<and> \<not> snapshot_complete (cv_progress st)"
  shows "capture_inv S p st'"
  using assms by (auto simp: apply_row_event_def Let_def capture_inv_def result_simps push_row_Inr split: if_splits)

lemma capture_inv_notification:
  assumes "capture_inv S p st" "apply_snapshot_notification S payload st = Inr st'"
  shows "capture_inv S p st'"
  using assms by (auto simp: apply_snapshot_notification_def capture_inv_def result_simps split: if_splits)

lemma capture_inv_record:
  assumes "capture_inv S p st" "convert_record C S True rec st = Inr st'"
  shows "capture_inv S p st'"
proof -
  have "capture_inv S p st'" if "convert_data C S True v schema st = Inr st'" for v schema
    using that by (rule convert_data_Inr) (use capture_inv_row [OF assms(1)] in auto)
  then show ?thesis using convert_record_Inr [OF assms(2)] capture_inv_notification [OF assms(1)] assms(1) by blast
qed

lemma capture_inv_loop:
  "capture_inv S p st \<Longrightarrow> convert_loop C S True recs st = Inr st' \<Longrightarrow> capture_inv S p st'"
  by (induction recs arbitrary: st) (auto simp: result_simps dest: capture_inv_record)

lemma build_change_diffs:
  "build_change C B cols proj schema rs ds = Inr (Some c) \<Longrightarrow> rs \<noteq> [] \<and> diffs c = map (\<lambda>d. Some (word_of_int d)) ds"
  by (auto simp: build_change_def sum_then_def map_sum_Inr dest!: change_try_new_ok split: if_splits sum.split_asm)

text \<open>
  C31: while a snapshot is captured, the delivery that seals it is one that completes it: every snapshot row seen so far was
  followed by the last one. Progress is never lost. A source that does not stream while capturing only ever inserts, and
  emits nothing once its snapshot is complete.
\<close>

theorem snapshot_seals_when_complete:
  assumes "convert_values C B S schema recs (Some p) = Inr c"
  shows "(captured_sealed c \<and> saw_snapshot_row (captured_progress c) \<longrightarrow> snapshot_complete (captured_progress c)) \<and>
    (saw_snapshot_row p \<longrightarrow> saw_snapshot_row (captured_progress c)) \<and>
    (snapshot_complete p \<longrightarrow> snapshot_complete (captured_progress c)) \<and>
    (\<not> CAPTURE_ACCEPTS_STREAMING S \<longrightarrow>
       (\<forall>change. captured_change c = Some change \<longrightarrow> set (diffs change) = {Some 1} \<and> \<not> snapshot_complete p))"
proof -
  let ?st = "\<lparr>cv_progress = p, cv_sealed = False, cv_rows = [], cv_diffs = []\<rparr>"
  obtain st change where loop: "convert_loop C S True recs ?st = Inr st"
    and build: "build_change C B (columns S) (output_projection S) schema (cv_rows st) (cv_diffs st) = Inr change"
    and c: "c = \<lparr>captured_change = change, captured_sealed = cv_sealed st, captured_progress = cv_progress st\<rparr>"
    using assms by (auto simp: convert_values_def result_simps)
  have inv: "capture_inv S p st"
    by (rule capture_inv_loop [OF _ loop]) (auto simp: capture_inv_def)
  have "set (diffs ch) = {Some 1} \<and> \<not> snapshot_complete p" if "\<not> CAPTURE_ACCEPTS_STREAMING S" "change = Some ch" for ch
  proof -
    have rs: "cv_rows st \<noteq> []" "diffs ch = map (\<lambda>d. Some (word_of_int d)) (cv_diffs st)"
      using build_change_diffs [OF build [unfolded that(2)]] by auto
    then have "cv_diffs st \<noteq> []" using inv by (auto simp: capture_inv_def)
    then have "set (cv_diffs st) = {1}" using inv that(1) by (cases "cv_diffs st") (auto simp: capture_inv_def)
    then show ?thesis using rs inv that(1) \<open>cv_diffs st \<noteq> []\<close> by (auto simp: capture_inv_def)
  qed
  then show ?thesis using inv c by (auto simp: capture_inv_def)
qed

lemma snapshot_seals_when_complete_witness:
  "\<exists>c. convert_values sample_connect sample_builder sample_shape sample_schema [(Some ''__dogpaddle-notification.e'', Some [])]
     (Some \<lparr>saw_snapshot_row = True, snapshot_complete = True\<rparr>) = Inr c \<and> captured_sealed c \<and> snapshot_complete (captured_progress c)"
proof -
  let ?c = "\<lparr>captured_change = None, captured_sealed = True, captured_progress = \<lparr>saw_snapshot_row = True, snapshot_complete = True\<rparr>\<rparr> :: nat captured"
  have "convert_values sample_connect sample_builder sample_shape sample_schema [(Some ''__dogpaddle-notification.e'', Some [])]
     (Some \<lparr>saw_snapshot_row = True, snapshot_complete = True\<rparr>) = Inr ?c"
    by (simp add: convert_values_def convert_record_def sum_then_def object_field_def apply_snapshot_notification_def
        validate_snapshot_notification_def build_change_def sample_connect_def sample_shape_def)
  from this snapshot_seals_when_complete [OF this] show ?thesis by auto
qed

end
