(* ===== verification/Cdc_Runtime.thy ===== *)
theory Cdc_Runtime
  imports Source_Contract Cdc_Convert Memory_Engine
begin

text \<open>
  The change-data-capture source: \<^verbatim>\<open>crates/operation/src/operation/scan/cdc_runtime.rs\<close>.

  The durable state is the phase, the checkpoint and the queue of encoded changes. What the source keeps in memory is the record
  \<open>cdc_state\<close>: the next step, the checkpoint to resume from, the running connector, and the progress of the snapshot. The trait
  \<^verbatim>\<open>Source\<close> is the record \<open>cdc_source\<close>, and the Debezium connector the record \<open>connector_ops\<close>; the external systems are the
  component \<open>'e\<close> of the state. The queue is hidden until the snapshot is sealed, and an abandoned capture is erased in batches.
\<close>

section \<open>Definitions\<close>

definition MAX_CAPTURE_BYTES :: nat where
  "MAX_CAPTURE_BYTES = 8 * 1024 * 1024"

definition STREAMING_BYTES :: u64 where
  "STREAMING_BYTES = 64 * 1024 * 1024"

definition CAPTURING :: u32 where
  "CAPTURING = 1"

definition SEALED :: u32 where
  "SEALED = 2"

definition STREAMING :: u32 where
  "STREAMING = 3"

definition RESETTING :: u32 where
  "RESETTING = 4"

definition RESET_BATCH_ENTRIES :: nat where
  "RESET_BATCH_ENTRIES = 256"

datatype phase = Fresh | Capturing | Sealed | Streaming | Resetting

datatype next_step = Restore | BeginCaptureStep | CaptureStep | PrepareReset | ResetStep | StreamStep

record cdc_record =
  record_topic :: "string option"
  record_value :: "bytes option"

text \<open>The connector: its calls change it and the external systems. Errors are their kinds.\<close>

record ('c, 'e, 'k, 'd) connector_ops =
  connector_poll :: "('c \<times> 'e, string, 'd option) sem"
  connector_ack :: "'d \<Rightarrow> ('c \<times> 'e, string, 'k) sem"
  connector_stop :: "('c \<times> 'e, string, unit) sem"
  take_records :: "'d \<Rightarrow> cdc_record list \<times> 'd"
  delivery_checkpoint :: "'d \<Rightarrow> bytes"

record ('c, 'e, 'k) cdc_source = source_shape +
  conversion_error :: "convert_error \<Rightarrow> operation_error"
  start_snapshot :: "('e, operation_error, 'c) sem"
  start_streaming :: "'k \<Rightarrow> ('e, operation_error, 'c) sem"
  cleanup_snapshot :: "('e, operation_error, unit) sem"
  restore_checkpoint :: "phase \<Rightarrow> bytes option \<Rightarrow> bool \<Rightarrow> operation_error + 'k option"
  invalid_state_text :: "string \<Rightarrow> string"
  runtime_error_text :: "string \<Rightarrow> string"
  spool_full_text :: string
  source_codec_error :: "change_codec_error \<Rightarrow> operation_error"

record ('c, 'e, 'k, 'd, 'b) cdc_runtime =
  cdc_source :: "('c, 'e, 'k) cdc_source"
  cdc_connector :: "('c, 'e, 'k, 'd) connector_ops"
  cdc_connect :: connect
  cdc_builder :: "'b batch_builder"
  cdc_schema :: schema
  cdc_encode_bounded :: "'b change \<Rightarrow> nat \<Rightarrow> change_codec_error + bytes"
  phase_cell :: data_handle
  checkpoint_cell :: data_handle
  input_queue :: data_handle
  spool_capacity :: u64

record ('c, 'e, 'k) cdc_state =
  next_step :: next_step
  resume_point :: "'k option"
  connector :: "'c option"
  progress :: snapshot_progress
  pending_progress :: "snapshot_progress option"
  outside_world :: 'e

text \<open>The error values of a source without a cause of their own.\<close>

definition invalid_state :: "('c, 'e, 'k) cdc_source \<Rightarrow> string \<Rightarrow> operation_error" where
  "invalid_state S m = Other (invalid_state_text S m) None"

definition runtime_error :: "('c, 'e, 'k) cdc_source \<Rightarrow> string \<Rightarrow> operation_error" where
  "runtime_error S m = Other (runtime_error_text S m) None"

definition spool_full :: "('c, 'e, 'k) cdc_source \<Rightarrow> operation_error" where
  "spool_full S = Other (spool_full_text S) None"

definition decode_phase :: "('c, 'e, 'k) cdc_source \<Rightarrow> u32 option \<Rightarrow> operation_error + phase" where
  "decode_phase S v =
     (case v of
        None \<Rightarrow> Inr Fresh
      | Some w \<Rightarrow>
          if w = CAPTURING then Inr Capturing
          else if w = SEALED then Inr Sealed
          else if w = STREAMING then Inr Streaming
          else if w = RESETTING then Inr Resetting
          else Inl (invalid_state S ''CDC scan phase is invalid''))"

definition data_envelopes :: "('z source_shape_scheme) \<Rightarrow> cdc_record list \<Rightarrow> nat" where
  "data_envelopes S recs = length (filter (\<lambda>r. record_topic r = Some (table_topic S)) recs)"

text \<open>A call of the connector, if there is one.\<close>

definition with_connector ::
  "(string \<Rightarrow> operation_error) \<Rightarrow> 'c \<Rightarrow> ('c \<times> 'e, string, 'a) sem \<Rightarrow> (('c, 'e, 'k) cdc_state, operation_error, 'a) sem" where
  "with_connector err c m st =
     (case m (c, outside_world st) of (res, (c', e')) \<Rightarrow>
        (map_sum err id res, st\<lparr>connector := Some c', outside_world := e'\<rparr>))"

definition in_outside :: "('e, operation_error, 'a) sem \<Rightarrow> (('c, 'e, 'k) cdc_state, operation_error, 'a) sem" where
  "in_outside m st = (case m (outside_world st) of (res, e') \<Rightarrow> (res, st\<lparr>outside_world := e'\<rparr>))"

definition modify_state :: "('t \<Rightarrow> 't) \<Rightarrow> ('t, 'e, unit) sem" where
  "modify_state f t = (Inr (), f t)"

definition stop_connector ::
  "('c, 'e, 'k, 'd, 'b) cdc_runtime \<Rightarrow> string \<Rightarrow> (('c, 'e, 'k) cdc_state, operation_error, unit) sem" where
  "stop_connector R stage st =
     sem_bind
       (case connector st of
          None \<Rightarrow> sem_return ()
        | Some c \<Rightarrow>
            with_connector (\<lambda>kind. runtime_error (cdc_source R) (''Debezium '' @ stage @ '' stop failed ('' @ kind @ '')''))
              c (connector_stop (cdc_connector R)))
       (\<lambda>_. modify_state (\<lambda>st. st\<lparr>connector := None\<rparr>)) st"

definition record_capture ::
  "'s engine \<Rightarrow> ('c, 'e, 'k, 'd, 'b) cdc_runtime \<Rightarrow> bytes option \<Rightarrow> bytes \<Rightarrow> bool \<Rightarrow> bool \<Rightarrow> ('s transaction, operation_error, bool) sem" where
  "record_capture E R encoded checkpoint sealed streaming =
     sem_bind (op_store (bind_access (input_queue R))) (\<lambda>input.
     sem_bind
       (if streaming \<and> encoded = None
        then op_store (sem_bind (as_read (queue_queued_bytes E input)) (\<lambda>queued. sem_return (queued > STREAMING_BYTES)))
        else sem_return False) (\<lambda>wait.
     if wait then sem_return False
     else
       sem_bind
         (case encoded of
            None \<Rightarrow> sem_return True
          | Some bs \<Rightarrow> op_store (try_push E vec_value input bs (if streaming then STREAMING_BYTES else spool_capacity R))) (\<lambda>pushed.
       if \<not> pushed then (if streaming then sem_return False else sem_throw (spool_full (cdc_source R)))
       else
         sem_bind (op_store (sem_bind (bind_access (checkpoint_cell R)) (\<lambda>p. cell_set E vec_value p checkpoint))) (\<lambda>_.
         sem_bind
           (if streaming then op_store (sem_bind (bind_access (phase_cell R)) (\<lambda>p. cell_set E u32_value p STREAMING))
            else if sealed then op_store (sem_bind (bind_access (phase_cell R)) (\<lambda>p. cell_set E u32_value p SEALED))
            else sem_return ()) (\<lambda>_.
         sem_return True)))))"

text \<open>The checks and conversion of a polled delivery; \<open>pending_progress\<close> is what a later acknowledgement accepts.\<close>

definition convert_delivery ::
  "('c, 'e, 'k, 'd, 'b) cdc_runtime \<Rightarrow> bool \<Rightarrow> 'd \<Rightarrow> (('c, 'e, 'k) cdc_state, operation_error, 'd source_delivery option) sem" where
  "convert_delivery R streaming delivery0 st =
     (let S = cdc_source R; (recs, delivery) = take_records (cdc_connector R) delivery0; envelopes = data_envelopes S recs;
          checkpoint_bytes = length (delivery_checkpoint (cdc_connector R) delivery)
      in if envelopes > 2048 \<or> min usize_max (min usize_max (envelopes * 2) * length (columns S)) > 65536
         then (Inl (invalid_state S ''source delivery exceeds envelope or scalar-slot admission''), st)
         else if checkpoint_bytes > MAX_CAPTURE_BYTES
         then (Inl (invalid_state S ''source checkpoint exceeds capture admission''), st)
         else (case convert_values (cdc_connect R) (cdc_builder R) S (cdc_schema R)
                 (map (\<lambda>r. (record_topic r, record_value r)) recs) (if streaming then None else Some (progress st)) of
           Inl (ConvertPanic m) \<Rightarrow> (Inl (Unwind m), st)
         | Inl e \<Rightarrow> (Inl (conversion_error S e), st)
         | Inr captured \<Rightarrow>
             (let st1 = (if streaming then st else st\<lparr>pending_progress := Some (captured_progress captured)\<rparr>);
                  rows = (case captured_change captured of None \<Rightarrow> 0 | Some c \<Rightarrow> num_rows (builder_arrow (cdc_builder R)) c)
              in if rows > 4096 then (Inl (invalid_state S ''source delivery exceeds physical-row admission''), st1)
                 else (case (case captured_change captured of None \<Rightarrow> Inr None
                         | Some c \<Rightarrow> map_sum (source_codec_error S) Some (cdc_encode_bounded R c (MAX_CAPTURE_BYTES - checkpoint_bytes))) of
                   Inl e \<Rightarrow> (Inl e, st1)
                 | Inr encoded \<Rightarrow>
                     (Inr (Some \<lparr>delivery_kind = Cdc delivery encoded (captured_sealed captured) streaming, finished = False\<rparr>), st1)))))"

definition start_connector ::
  "('c, 'e, 'k, 'd, 'b) cdc_runtime \<Rightarrow> bool \<Rightarrow> (('c, 'e, 'k) cdc_state, operation_error, unit) sem" where
  "start_connector R streaming st =
     (case connector st of
        Some _ \<Rightarrow> (Inr (), st)
      | None \<Rightarrow>
          sem_bind
            (if streaming then
               (case resume_point st of
                  None \<Rightarrow> sem_throw (invalid_state (cdc_source R) ''streaming source has no checkpoint'')
                | Some k \<Rightarrow> in_outside (start_streaming (cdc_source R) k))
             else in_outside (start_snapshot (cdc_source R)))
            (\<lambda>c. modify_state (\<lambda>st. st\<lparr>connector := Some c\<rparr>)) st)"

definition poll_delivery ::
  "('c, 'e, 'k, 'd, 'b) cdc_runtime \<Rightarrow> bool \<Rightarrow> (('c, 'e, 'k) cdc_state, operation_error, 'd source_delivery option) sem" where
  "poll_delivery R streaming =
     sem_bind (start_connector R streaming) (\<lambda>_ st.
       case connector st of
         None \<Rightarrow> (Inl (Unwind ''connector started''), st)
       | Some c \<Rightarrow>
           sem_bind
             (with_connector (\<lambda>kind. runtime_error (cdc_source R) (''Debezium poll failed ('' @ kind @ '')'')) c
               (connector_poll (cdc_connector R)))
             (\<lambda>polled. case polled of None \<Rightarrow> sem_return None | Some d \<Rightarrow> convert_delivery R streaming d) st)"

text \<open>The state in memory of a source that was just built.\<close>

definition cdc_new :: "'e \<Rightarrow> ('c, 'e, 'k) cdc_state" where
  "cdc_new world =
     \<lparr>next_step = Restore, resume_point = None, connector = None, progress = default_progress, pending_progress = None,
      outside_world = world\<rparr>"

subsection \<open>The source operation\<close>

text \<open>The reads of \<^verbatim>\<open>restore\<close>: the phase and the checkpoint to resume from.\<close>

definition read_capture ::
  "'s engine \<Rightarrow> ('c, 'e, 'k, 'd, 'b) cdc_runtime \<Rightarrow> ('s transaction_ref, operation_error, phase \<times> 'k option) sem" where
  "read_capture E R =
     (let S = cdc_source R in
      sem_bind (op_store (sem_bind (bind_read (phase_cell R)) (\<lambda>p. cell_get_bounded E u32_value p 4))) (\<lambda>stored.
      sem_bind (sem_lift (decode_phase S stored)) (\<lambda>phase.
      sem_bind (op_store (sem_bind (bind_read (checkpoint_cell R)) (\<lambda>p. cell_get_bounded E vec_value p MAX_CAPTURE_BYTES))) (\<lambda>checkpoint.
      sem_bind (op_store (sem_bind (bind_read (input_queue R)) (\<lambda>p.
        sem_bind (queue_queued_bytes E p) (\<lambda>queued. sem_return (p, queued))))) (\<lambda>(p, queued).
      if queued > (if phase = Streaming then STREAMING_BYTES else spool_capacity R)
      then sem_throw (invalid_state S ''source queue accounting exceeds capacity'')
      else
        sem_bind (op_store (queue_is_empty E p)) (\<lambda>empty.
        if phase = Fresh \<and> (checkpoint \<noteq> None \<or> \<not> empty) \<or> phase = Capturing \<and> \<not> empty \<and> checkpoint = None
        then sem_throw (invalid_state S ''CDC phase and bootstrap data disagree'')
        else sem_bind (sem_lift (restore_checkpoint S phase checkpoint empty)) (\<lambda>resumed. sem_return (phase, resumed))))))))"

fun step_of_phase :: "phase \<Rightarrow> next_step" where
  "step_of_phase Fresh = BeginCaptureStep"
| "step_of_phase Capturing = PrepareReset"
| "step_of_phase Resetting = ResetStep"
| "step_of_phase Sealed = StreamStep"
| "step_of_phase Streaming = StreamStep"

definition cdc_restore ::
  "'s engine \<Rightarrow> ('c, 'e, 'k, 'd, 'b) cdc_runtime \<Rightarrow> (('c, 'e, 'k) cdc_state \<times> 's transaction_ref, operation_error, unit) sem" where
  "cdc_restore E R = (\<lambda>(st, r).
     if next_step st \<noteq> Restore then (Inr (), (st, r))
     else (case read_capture E R r of
       (Inl e, r') \<Rightarrow> (Inl e, (st, r'))
     | (Inr (phase, resumed), r') \<Rightarrow>
         (Inr (), (st\<lparr>resume_point := resumed, next_step := step_of_phase phase\<rparr>, r'))))"

definition plain_delivery :: "'d delivery_kind \<Rightarrow> 'd source_delivery" where
  "plain_delivery kind = \<lparr>delivery_kind = kind, finished = False\<rparr>"

definition cdc_poll ::
  "('c, 'e, 'k, 'd, 'b) cdc_runtime \<Rightarrow> (('c, 'e, 'k) cdc_state, operation_error, 'd source_delivery option) sem" where
  "cdc_poll R st =
     (case next_step st of
        Restore \<Rightarrow> sem_throw (invalid_state (cdc_source R) ''source restore must precede polling'')
      | BeginCaptureStep \<Rightarrow> sem_return (Some (plain_delivery BeginCapture))
      | PrepareReset \<Rightarrow>
          sem_bind (stop_connector R ''snapshot'') (\<lambda>_.
          sem_bind (if RESET_REQUIRES_SOURCE_CLEANUP (cdc_source R) then in_outside (cleanup_snapshot (cdc_source R)) else sem_return ()) (\<lambda>_.
          sem_return (Some (plain_delivery Reset))))
      | ResetStep \<Rightarrow> sem_return (Some (plain_delivery Reset))
      | CaptureStep \<Rightarrow> poll_delivery R False
      | StreamStep \<Rightarrow> poll_delivery R True) st"

text \<open>A reset clears a batch of the queue; the last batch also clears the checkpoint and the phase.\<close>

definition reset_batch :: "'s engine \<Rightarrow> ('c, 'e, 'k, 'd, 'b) cdc_runtime \<Rightarrow> ('s transaction, operation_error, bool) sem" where
  "reset_batch E R =
     op_store
       (sem_bind (sem_bind (bind_access (phase_cell R)) (\<lambda>p. cell_set E u32_value p RESETTING)) (\<lambda>_.
        sem_bind (bind_access (input_queue R)) (\<lambda>p. discard_front E p RESET_BATCH_ENTRIES)))"

definition reset_clear :: "'s engine \<Rightarrow> ('c, 'e, 'k, 'd, 'b) cdc_runtime \<Rightarrow> ('s transaction, operation_error, unit) sem" where
  "reset_clear E R =
     op_store
       (sem_bind (sem_bind (bind_access (checkpoint_cell R)) (\<lambda>p. cell_clear E p)) (\<lambda>_.
        sem_bind (sem_bind (bind_access (phase_cell R)) (\<lambda>p. cell_clear E p)) (\<lambda>_.
        sem_return ())))"

definition set_finished :: "bool \<Rightarrow> ('t \<times> 'd source_delivery, operation_error, unit) sem" where
  "set_finished b = (\<lambda>(t, d). (Inr (), (t, d\<lparr>finished := b\<rparr>)))"

definition record_kind ::
  "'s engine \<Rightarrow> ('c, 'e, 'k, 'd, 'b) cdc_runtime \<Rightarrow> 'd delivery_kind \<Rightarrow> ('s transaction \<times> 'd source_delivery, operation_error, bool) sem" where
  "record_kind E R kind =
     (case kind of
        BeginCapture \<Rightarrow>
          sem_bind (beside (op_store (sem_bind (bind_access (phase_cell R)) (\<lambda>p. cell_set E u32_value p CAPTURING)))) (\<lambda>_. sem_return True)
      | Reset \<Rightarrow>
          sem_bind (beside (reset_batch E R)) (\<lambda>emptied.
          sem_bind (set_finished emptied) (\<lambda>_.
          sem_bind (if emptied then beside (reset_clear E R) else sem_return ()) (\<lambda>_.
          sem_return True)))
      | Cdc delivery encoded sealed streaming \<Rightarrow>
          beside (record_capture E R encoded (delivery_checkpoint (cdc_connector R) delivery) sealed streaming)
      | Sequence _ _ \<Rightarrow> sem_throw (invalid_state (cdc_source R) ''sequence delivery supplied to CDC source''))"

definition cdc_record_delivery ::
  "'s engine \<Rightarrow> ('c, 'e, 'k, 'd, 'b) cdc_runtime \<Rightarrow> ('c, 'e, 'k) cdc_state \<Rightarrow> ('s transaction \<times> 'd source_delivery, operation_error, bool) sem" where
  "cdc_record_delivery E R st q = record_kind E R (delivery_kind (snd q)) q"

definition cdc_ack ::
  "('c, 'e, 'k, 'd, 'b) cdc_runtime \<Rightarrow> 'd source_delivery \<Rightarrow> (('c, 'e, 'k) cdc_state, operation_error, unit) sem" where
  "cdc_ack R d st =
     (case delivery_kind d of
        BeginCapture \<Rightarrow> modify_state (\<lambda>st. st\<lparr>next_step := CaptureStep, progress := default_progress\<rparr>)
      | Reset \<Rightarrow>
          modify_state (\<lambda>st. st\<lparr>next_step := (if finished d then BeginCaptureStep else ResetStep), resume_point := None,
            progress := default_progress\<rparr>)
      | Cdc delivery _ sealed streaming \<Rightarrow>
          sem_bind
            (case connector st of
               None \<Rightarrow> sem_throw (invalid_state (cdc_source R) ''delivery connector is absent'')
             | Some c \<Rightarrow>
                 with_connector (\<lambda>kind. runtime_error (cdc_source R) (''Debezium ACK failed ('' @ kind @ '')'')) c
                   (connector_ack (cdc_connector R) delivery)) (\<lambda>resumed.
          sem_bind (modify_state (\<lambda>st. st\<lparr>resume_point := Some resumed\<rparr>)) (\<lambda>_.
          if sealed then
            sem_bind (stop_connector R ''snapshot'') (\<lambda>_. modify_state (\<lambda>st. st\<lparr>next_step := StreamStep\<rparr>))
          else if \<not> streaming then
            (\<lambda>st. case pending_progress st of
               None \<Rightarrow> (Inl (Unwind ''capture progress prepared''), st)
             | Some p \<Rightarrow> (Inr (), st\<lparr>progress := p, pending_progress := None\<rparr>))
          else sem_return ()))
      | Sequence _ _ \<Rightarrow> sem_throw (invalid_state (cdc_source R) ''sequence delivery supplied to CDC source'')) st"

definition visible_phase :: "phase \<Rightarrow> bool" where
  "visible_phase phase \<longleftrightarrow> phase = Sealed \<or> phase = Streaming"

definition cdc_published ::
  "'s engine \<Rightarrow> ('c, 'e, 'k, 'd, 'b) cdc_runtime \<Rightarrow> ('s transaction_ref, operation_error, bytes option) sem" where
  "cdc_published E R =
     sem_bind (op_store (sem_bind (bind_read (phase_cell R)) (\<lambda>p. cell_get_bounded E u32_value p 4))) (\<lambda>stored.
     sem_bind (sem_lift (decode_phase (cdc_source R) stored)) (\<lambda>phase.
     if \<not> visible_phase phase then sem_return None
     else op_store (sem_bind (bind_read (input_queue R)) (\<lambda>p. front_bounded E vec_value p MAX_CAPTURE_BYTES))))"

definition cdc_consume_published ::
  "'s engine \<Rightarrow> ('c, 'e, 'k, 'd, 'b) cdc_runtime \<Rightarrow> ('s transaction, operation_error, unit) sem" where
  "cdc_consume_published E R =
     sem_bind (op_store (sem_bind (bind_access (phase_cell R)) (\<lambda>p. as_read (cell_get_bounded E u32_value p 4)))) (\<lambda>stored.
     sem_bind (sem_lift (decode_phase (cdc_source R) stored)) (\<lambda>phase.
     if \<not> visible_phase phase then sem_throw (invalid_state (cdc_source R) ''unsealed source input cannot be consumed'')
     else sem_bind (op_store (sem_bind (bind_access (input_queue R)) (\<lambda>p. discard_front E p 1))) (\<lambda>_. sem_return ())))"

definition cdc_operation ::
  "('c, 'e, 'k, 'd, 'b) cdc_runtime \<Rightarrow> 's engine \<Rightarrow> ('s, ('c, 'e, 'k) cdc_state, 'd) source_operation" where
  "cdc_operation R E =
     \<lparr>source_restore = cdc_restore E R, source_poll = cdc_poll R, source_record = cdc_record_delivery E R, source_ack = cdc_ack R,
      source_published = (\<lambda>_. cdc_published E R), source_consume_published = (\<lambda>_. cdc_consume_published E R)\<rparr>"

section \<open>The contract of a source's storage\<close>

lemma not_unwind_errors [simp]:
  "\<not> is_unwind (invalid_state S m)" "\<not> is_unwind (runtime_error S m)" "\<not> is_unwind (spool_full S)"
  by (simp_all add: invalid_state_def runtime_error_def spool_full_def)

lemma decode_phase_error: "decode_phase S v = Inl e \<Longrightarrow> \<not> is_unwind e"
  by (auto simp: decode_phase_def split: option.splits if_splits)

definition cdc_data :: "('c, 'e, 'k, 'd, 'b) cdc_runtime \<Rightarrow> data_handle list" where
  "cdc_data R = [phase_cell R, checkpoint_cell R, input_queue R]"

lemma below_cdc_data [confined_intros]:
  "below (data_prefix (data_id (phase_cell R))) \<subseteq> owned (cdc_data R)"
  "below (data_prefix (data_id (checkpoint_cell R))) \<subseteq> owned (cdc_data R)"
  "below (data_prefix (data_id (input_queue R))) \<subseteq> owned (cdc_data R)"
  by (auto simp: owned_def cdc_data_def)

text \<open>A handle that is bound once and used by several calls.\<close>

lemma confined_op_bind_access [confined_intros]:
  assumes "confined V W is_unwind id (f (data_prefix (data_id h)))"
  shows "confined V W is_unwind id (sem_bind (op_store (bind_access h)) f)"
proof (rule confined_bind_known [where b = "data_prefix (data_id h)"])
  show "confined V W is_unwind id (op_store (bind_access h))" by (intro confined_op_store confined_bound)
  show "p = data_prefix (data_id h)" if "op_store (bind_access h) t = (Inr p, t')" for t p t'
    using that by (auto simp: op_store_def apfst_def map_prod_def map_sum_Inr_iff split: prod.splits dest: bind_access_result)
qed (rule assms)

lemma confined_record_capture:
  "engine_laws E V \<Longrightarrow> confined V (owned (cdc_data R)) is_unwind id (record_capture E R encoded ck sealed streaming)"
  unfolding record_capture_def by (intro confined_intros poison_intros panic_free_intros) simp_all

lemma confined_reset:
  assumes "engine_laws E V"
  shows "confined V (owned (cdc_data R)) is_unwind id (reset_batch E R)" "confined V (owned (cdc_data R)) is_unwind id (reset_clear E R)"
  unfolding reset_batch_def reset_clear_def by (intro confined_intros assms)+

lemma confined_finished: "confined V W pan fst (set_finished b)"
  by (simp add: confined_def panic_free_def set_finished_def split: prod.split)

lemma confined_record_kind:
  assumes "engine_laws E V"
  shows "confined V (owned (cdc_data R)) is_unwind fst (record_kind E R kind)"
proof (cases kind)
  case BeginCapture
  then show ?thesis
    unfolding record_kind_def BeginCapture delivery_kind.case by (intro confined_intros assms)
next
  case Reset
  then show ?thesis
    unfolding record_kind_def Reset delivery_kind.case
    by (intro confined_intros confined_finished confined_reset assms)
next
  case (Cdc d encoded sealed streaming)
  then show ?thesis
    unfolding record_kind_def Cdc delivery_kind.case by (intro confined_intros confined_record_capture assms)
next
  case (Sequence v bs)
  then show ?thesis
    unfolding record_kind_def Sequence delivery_kind.case by (intro confined_intros) simp
qed

text \<open>A computation that reads through a transaction leaves its view.\<close>

definition keeps_view :: "('s transaction_ref, 'e, 'a) sem \<Rightarrow> bool" where
  "keeps_view m \<longleftrightarrow> (\<forall>r. ref_view (snd (m r)) = ref_view r)"

lemma keeps_view_bind: "keeps_view m \<Longrightarrow> (\<And>a. keeps_view (f a)) \<Longrightarrow> keeps_view (sem_bind m f)"
  by (auto simp: keeps_view_def sem_bind_def split: prod.splits sum.splits) (metis snd_conv)+

lemma keeps_view_simps: "keeps_view (sem_return a)" "keeps_view (sem_throw e)" "keeps_view (sem_lift x)"
  by (simp_all add: keeps_view_def sem_return_def sem_throw_def sem_lift_def)

lemma keeps_view_op_store: "keeps_ref m \<Longrightarrow> keeps_view (op_store m)"
  by (simp add: keeps_view_def op_store_view)

lemma keeps_view_if: "keeps_view m \<Longrightarrow> keeps_view n \<Longrightarrow> keeps_view (if c then m else n)"
  by simp

lemmas keeps_view_intros = keeps_view_bind keeps_view_simps keeps_view_op_store keeps_view_if

lemma keeps_view_published: "keeps_view (cdc_published E R)"
  unfolding cdc_published_def by (intro keeps_view_intros poison_intros)

lemma cdc_published_bounded:
  assumes "fst (cdc_published E R r) = Inr (Some bs)"
  shows "length bs \<le> MAX_CAPTURE_BYTES"
proof -
  let ?Q = "\<lambda>v (_ :: 'a transaction_ref). \<forall>bs. v = Some bs \<longrightarrow> length bs \<le> MAX_CAPTURE_BYTES"
  have "wp (op_store (sem_bind (bind_read (input_queue R)) (\<lambda>p. front_bounded E vec_value p MAX_CAPTURE_BYTES))) ?Q (\<lambda>_ _. True) r" for r
    using published_length [of "input_queue R" E MAX_CAPTURE_BYTES r]
    by (simp only: wp_def) (auto split: prod.splits sum.splits)
  then have "wp (cdc_published E R) ?Q (\<lambda>_ _. True) r"
    unfolding cdc_published_def wp_bind [of "op_store m" for m] wp_bind [of "sem_lift m" for m]
    by (rule_tac wp_any, rule_tac wp_any) (simp_all only: wp_if wp_return if_split option.distinct simp_thms if_cancel)
  then show ?thesis using assms by (simp add: wp_def split: prod.splits sum.splits)
qed

interpretation cdc_source_storage: source_storage "cdc_operation R" "cdc_data R"
  for R :: "('c, 'e, 'k, 'd, 'b) cdc_runtime"
proof (unfold_locales, goal_cases)
  case (1 E V st)
  show ?case
    unfolding cdc_operation_def source_operation.select_convs
    by (rule confined_dispatch [where f = "record_kind E R" and g = "\<lambda>q. delivery_kind (snd q)"])
      (simp_all add: cdc_record_delivery_def confined_record_kind 1)
next
  case (2 E V st)
  then show ?case
    unfolding cdc_operation_def source_operation.select_convs cdc_consume_published_def
    by (intro confined_bind_access confined_intros poison_intros panic_free_intros) (auto dest: decode_phase_error)
next
  case (3 E st)
  then show ?case
    unfolding cdc_operation_def source_operation.select_convs cdc_published_def
    by (intro panic_free_intros decode_phase_error)
next
  case (4 E st r)
  then show ?case
    using keeps_view_published [of E R] by (simp add: cdc_operation_def keeps_view_def)
next
  case (5 E st r bs)
  then show ?case
    using cdc_published_bounded [of E R r bs]
    by (simp add: cdc_operation_def MAX_CAPTURE_BYTES_def ROOT_BYTES_def PAGE_BYTES_def)
qed

section \<open>The durable state machine\<close>

text \<open>
  The durable state as its client sees it: the phase, the checkpoint and the encoded changes in the queue.
\<close>

type_synonym capture_state = "phase \<times> bytes option \<times> bytes list"

fun phase_code :: "phase \<Rightarrow> u32 option" where
  "phase_code Fresh = None"
| "phase_code Capturing = Some CAPTURING"
| "phase_code Sealed = Some SEALED"
| "phase_code Streaming = Some STREAMING"
| "phase_code Resetting = Some RESETTING"

lemma decode_phase_code [simp]: "decode_phase S (phase_code ph) = Inr ph"
  by (cases ph) (simp_all add: decode_phase_def CAPTURING_def SEALED_def STREAMING_def RESETTING_def)

definition cdc_at :: "('s \<Rightarrow> (bytes \<rightharpoonup> bytes)) \<Rightarrow> ('c, 'e, 'k, 'd, 'b) cdc_runtime \<Rightarrow> capture_state \<Rightarrow> 's transaction \<Rightarrow> bool" where
  "cdc_at V R a t \<longleftrightarrow>
     (case a of (ph, ck, items) \<Rightarrow>
        \<not> poisoned t \<and> (\<forall>h \<in> set (cdc_data R). handle_token h = store_token t) \<and> distinct (map data_id (cdc_data R)) \<and>
        V (inner t) (data_prefix (data_id (phase_cell R))) = map_option u32_to_be (phase_code ph) \<and>
        V (inner t) (data_prefix (data_id (checkpoint_cell R))) = ck \<and>
        queue_rep (V (inner t)) (data_prefix (data_id (input_queue R))) items)"

text \<open>What recording a delivery does to that state, and what it reports; \<open>None\<close> is an error.\<close>

definition abstract_capture :: "('c, 'e, 'k, 'd, 'b) cdc_runtime \<Rightarrow> bytes option \<Rightarrow> bytes \<Rightarrow> bool \<Rightarrow> bool \<Rightarrow> capture_state \<Rightarrow> (bool \<times> capture_state) option" where
  "abstract_capture R encoded checkpoint sealed streaming a =
     (case a of (ph, ck, items) \<Rightarrow>
        let ph' = (if streaming then Streaming else if sealed then Sealed else ph) in
        case encoded of
          None \<Rightarrow>
            if streaming \<and> unat STREAMING_BYTES < total_bytes items then Some (False, a)
            else Some (True, (ph', Some checkpoint, items))
        | Some bs \<Rightarrow>
            if unat (if streaming then STREAMING_BYTES else spool_capacity R) < total_bytes items + (length bs + 8)
            then (if streaming then Some (False, a) else None)
            else Some (True, (ph', Some checkpoint, items @ [bs])))"

definition abstract_reset :: "capture_state \<Rightarrow> bool \<times> capture_state" where
  "abstract_reset a =
     (case a of (ph, ck, items) \<Rightarrow>
        if length items \<le> RESET_BATCH_ENTRIES then (True, (Fresh, None, [])) else (False, (Resetting, ck, drop RESET_BATCH_ENTRIES items)))"

lemma cdc_atD:
  assumes "cdc_at V R (ph, ck, items) t"
  shows "\<not> poisoned t" "handle_token (phase_cell R) = store_token t" "handle_token (checkpoint_cell R) = store_token t"
    "handle_token (input_queue R) = store_token t" "data_id (phase_cell R) \<noteq> data_id (checkpoint_cell R)"
    "data_id (phase_cell R) \<noteq> data_id (input_queue R)" "data_id (checkpoint_cell R) \<noteq> data_id (input_queue R)"
    "queue_rep (V (inner t)) (data_prefix (data_id (input_queue R))) items"
  using assms by (auto simp: cdc_at_def cdc_data_def)

lemma wp_set_phase:
  assumes "engine_laws E V" "cdc_at V R (ph, ck, items) t" "phase_code ph' = Some w"
    and "\<And>t'. cdc_at V R (ph', ck, items) t' \<Longrightarrow> Q () t'" "\<And>e t'. fault E e t' \<Longrightarrow> X e t'"
  shows "wp (sem_bind (bind_access (phase_cell R)) (\<lambda>p. cell_set E u32_value p w)) Q X t"
  unfolding wp_bind
proof (intro wp_bind_access_ok wp_cell_set [OF assms(1)])
  fix t' :: "'a transaction"
  assume "V (inner t') = (V (inner t))(data_prefix (data_id (phase_cell R)) \<mapsto> u32_to_be w)" "\<not> poisoned t'" "store_token t' = store_token t"
  then show "Q () t'"
    using assms(2,3) by (intro assms(4)) (auto simp: cdc_at_def cdc_data_def queue_rep_other)
qed (use cdc_atD [OF assms(2)] assms(5) in \<open>auto simp: u32_value_def\<close>)

lemma wp_clear_phase:
  assumes "engine_laws E V" "cdc_at V R (ph, ck, items) t"
    and "\<And>b t'. cdc_at V R (Fresh, ck, items) t' \<Longrightarrow> Q b t'" "\<And>e t'. fault E e t' \<Longrightarrow> X e t'"
  shows "wp (sem_bind (bind_access (phase_cell R)) (\<lambda>p. cell_clear E p)) Q X t"
  unfolding wp_bind
proof (intro wp_bind_access_ok wp_cell_clear [OF assms(1)])
  fix b and t' :: "'a transaction"
  assume "V (inner t') = (V (inner t))(data_prefix (data_id (phase_cell R)) := None)" "\<not> poisoned t'" "store_token t' = store_token t"
  then show "Q b t'"
    using assms(2) by (intro assms(3)) (auto simp: cdc_at_def cdc_data_def queue_rep_other)
qed (use cdc_atD [OF assms(2)] assms(4) in auto)

lemma wp_set_checkpoint:
  assumes "engine_laws E V" "cdc_at V R (ph, ck, items) t"
    and "\<And>t'. cdc_at V R (ph, Some bs, items) t' \<Longrightarrow> Q () t'" "\<And>e t'. fault E e t' \<Longrightarrow> X e t'"
  shows "wp (sem_bind (bind_access (checkpoint_cell R)) (\<lambda>p. cell_set E vec_value p bs)) Q X t"
  unfolding wp_bind
proof (intro wp_bind_access_ok wp_cell_set [OF assms(1)])
  fix t' :: "'a transaction"
  assume "V (inner t') = (V (inner t))(data_prefix (data_id (checkpoint_cell R)) \<mapsto> bs)" "\<not> poisoned t'" "store_token t' = store_token t"
  then show "Q () t'"
    using assms(2) by (intro assms(3)) (auto simp: cdc_at_def cdc_data_def queue_rep_other)
qed (use cdc_atD [OF assms(2)] assms(4) in \<open>auto simp: vec_value_def\<close>)

lemma wp_clear_checkpoint:
  assumes "engine_laws E V" "cdc_at V R (ph, ck, items) t"
    and "\<And>b t'. cdc_at V R (ph, None, items) t' \<Longrightarrow> Q b t'" "\<And>e t'. fault E e t' \<Longrightarrow> X e t'"
  shows "wp (sem_bind (bind_access (checkpoint_cell R)) (\<lambda>p. cell_clear E p)) Q X t"
  unfolding wp_bind
proof (intro wp_bind_access_ok wp_cell_clear [OF assms(1)])
  fix b and t' :: "'a transaction"
  assume "V (inner t') = (V (inner t))(data_prefix (data_id (checkpoint_cell R)) := None)" "\<not> poisoned t'" "store_token t' = store_token t"
  then show "Q b t'"
    using assms(2) by (intro assms(3)) (auto simp: cdc_at_def cdc_data_def queue_rep_other)
qed (use cdc_atD [OF assms(2)] assms(4) in auto)

text \<open>A change of the queue alone.\<close>

lemma cdc_at_queue:
  assumes "cdc_at V R (ph, ck, items) t" "queue_rep (V (inner t')) (data_prefix (data_id (input_queue R))) items'"
    "outside (data_prefix (data_id (input_queue R))) (V (inner t)) (V (inner t'))" "\<not> poisoned t'" "store_token t' = store_token t"
  shows "cdc_at V R (ph, ck, items') t'"
  using assms outside_other [OF assms(3)] by (auto simp: cdc_at_def cdc_data_def)

lemma wp_discard_input:
  assumes laws: "engine_laws E V" and at: "cdc_at V R (ph, ck, items) t"
    and Q: "\<And>t'. cdc_at V R (ph, ck, drop n items) t' \<Longrightarrow> Q (drop n items = []) t'" and X: "\<And>e t'. fault E e t' \<Longrightarrow> X e t'"
  shows "wp (sem_bind (bind_access (input_queue R)) (\<lambda>p. discard_front E p n)) Q X t"
proof -
  obtain u where u: "prefix_successor (data_prefix (data_id (input_queue R))) = Some u" using prefix_successor_data_prefix by blast
  have "wp (discard_front E (data_prefix (data_id (input_queue R))) n) Q X t"
    by (rule wp_tracked, intro poison_intros, rule wp_discard_front [OF laws u _ cdc_atD(8) [OF at]])
      (use cdc_atD(1) [OF at] X in \<open>auto simp del: drop_eq_Nil intro: Q cdc_at_queue [OF at]\<close>)
  then show ?thesis
    unfolding wp_bind by (intro wp_bind_access_ok) (use cdc_atD [OF at] in auto)
qed

lemma wp_reset_batch:
  assumes laws: "engine_laws E V" and at: "cdc_at V R (ph, ck, items) t"
    and Q: "\<And>t'. cdc_at V R (Resetting, ck, drop RESET_BATCH_ENTRIES items) t' \<Longrightarrow> Q (drop RESET_BATCH_ENTRIES items = []) t'"
    and X: "\<And>e t'. fault E e t' \<Longrightarrow> X (boxed e) t'"
  shows "wp (reset_batch E R) Q X t"
  unfolding reset_batch_def wp_op_store wp_bind [of "sem_bind m f" for m f]
  by (rule wp_set_phase [where ph' = Resetting, OF laws at], simp, rule wp_discard_input [OF laws], assumption) (use Q X in auto)

lemma wp_reset_clear:
  assumes laws: "engine_laws E V" and at: "cdc_at V R (ph, ck, items) t"
    and Q: "\<And>t'. cdc_at V R (Fresh, None, items) t' \<Longrightarrow> Q () t'" and X: "\<And>e t'. fault E e t' \<Longrightarrow> X (boxed e) t'"
  shows "wp (reset_clear E R) Q X t"
  unfolding reset_clear_def wp_op_store wp_bind [of "sem_bind m f" for m f]
  by (rule wp_clear_checkpoint [OF laws at], rule wp_clear_phase [OF laws]) (use Q X in auto)

lemma wp_beside: "wp m (\<lambda>a t'. Q a (t', d)) (\<lambda>e t'. X e (t', d)) t \<Longrightarrow> wp (beside m) Q X (t, d)"
  by (auto simp: wp_def beside_def split: prod.splits sum.splits)

lemma wp_set_finished: "Q () (t, d\<lparr>finished := b\<rparr>) \<Longrightarrow> wp (set_finished b) Q X (t, d)"
  by (simp add: wp_def set_finished_def)

lemma wp_record_reset:
  assumes laws: "engine_laws E V" and at: "cdc_at V R a t"
    and Q: "\<And>t'. cdc_at V R (snd (abstract_reset a)) t' \<Longrightarrow> Q True (t', d\<lparr>finished := fst (abstract_reset a)\<rparr>)"
    and X: "\<And>e t' d'. fault E e t' \<Longrightarrow> X (boxed e) (t', d')"
  shows "wp (record_kind E R Reset) Q X (t, d)"
proof -
  obtain ph ck items where a: "a = (ph, ck, items)" by (metis prod_cases3)
  show ?thesis
    unfolding record_kind_def delivery_kind.case wp_bind
  proof (rule wp_beside, rule wp_reset_batch [OF laws at [unfolded a]], rule wp_set_finished)
    fix t' assume at': "cdc_at V R (Resetting, ck, drop RESET_BATCH_ENTRIES items) t'"
    show "wp (if drop RESET_BATCH_ENTRIES items = [] then beside (reset_clear E R) else sem_return ())
       (\<lambda>_. wp (sem_return True) Q X) X (t', d\<lparr>finished := drop RESET_BATCH_ENTRIES items = []\<rparr>)"
    proof (cases "drop RESET_BATCH_ENTRIES items = []")
      case True
      have "wp (beside (reset_clear E R)) (\<lambda>_. wp (sem_return True) Q X) X (t', d\<lparr>finished := True\<rparr>)"
        by (rule wp_beside, rule wp_reset_clear [OF laws at']) (use True a X Q in \<open>auto simp: abstract_reset_def\<close>)
      then show ?thesis using True by simp
    next
      case False
      then show ?thesis using Q [of t'] at' a by (auto simp: abstract_reset_def)
    qed
  qed (rule X)
qed

lemma queue_rep_total: "queue_rep m p items \<Longrightarrow> total_bytes items < 2 ^ 64"
  by (auto simp: queue_rep_def queue_at_def queue_fits_def)

lemma wp_queued_input:
  assumes "engine_laws E V" "cdc_at V R (ph, ck, items) t"
    and "Q (unat STREAMING_BYTES < total_bytes items) t" "\<And>e t'. fault E e t' \<Longrightarrow> X e t'"
  shows "wp (sem_bind (as_read (queue_queued_bytes E (data_prefix (data_id (input_queue R))))) (\<lambda>queued. sem_return (queued > STREAMING_BYTES))) Q X t"
proof -
  obtain u where u: "prefix_successor (data_prefix (data_id (input_queue R))) = Some u" using prefix_successor_data_prefix by blast
  have "unat (of_nat (total_bytes items) :: u64) = total_bytes items"
    using queue_rep_total [OF cdc_atD(8) [OF assms(2)]] by (simp add: unat_of_nat)
  then show ?thesis
    unfolding wp_bind wp_as_read
    by (intro wp_queue_queued_bytes [OF assms(1) u])
      (use cdc_atD [OF assms(2)] assms(3,4) in \<open>auto simp: word_less_nat_alt fault_def\<close>)
qed

lemma wp_push_input:
  assumes laws: "engine_laws E V" and at: "cdc_at V R (ph, ck, items) t" and size: "length bs + 8 < 2 ^ 64"
    and full: "unat capacity < total_bytes items + (length bs + 8) \<Longrightarrow> Q False t"
    and pushed: "\<And>t'. total_bytes items + (length bs + 8) \<le> unat capacity \<Longrightarrow> cdc_at V R (ph, ck, items @ [bs]) t' \<Longrightarrow> Q True t'"
    and X: "\<And>e t'. queue_failed E e t' \<Longrightarrow> X e t'"
  shows "wp (try_push E vec_value (data_prefix (data_id (input_queue R))) bs capacity) Q X t"
proof -
  obtain u where u: "prefix_successor (data_prefix (data_id (input_queue R))) = Some u" using prefix_successor_data_prefix by blast
  have enc: "encode_value vec_value bs = Inr bs" by (simp add: vec_value_def)
  show ?thesis
    by (rule wp_tracked, intro poison_intros, rule wp_try_push [OF laws u _ cdc_atD(8) [OF at] enc size])
      (use cdc_atD(1) [OF at] full X in \<open>auto simp: queue_failed_def intro: pushed cdc_at_queue [OF at]\<close>)
qed

lemma wp_record_capture:
  assumes laws: "engine_laws E V" and at: "cdc_at V R a t" and size: "\<And>bs. encoded = Some bs \<Longrightarrow> length bs + 8 < 2 ^ 64"
    and Q: "\<And>b a' t'. abstract_capture R encoded checkpoint sealed streaming a = Some (b, a') \<Longrightarrow> cdc_at V R a' t' \<Longrightarrow> Q b t'"
    and full: "\<And>t'. abstract_capture R encoded checkpoint sealed streaming a = None \<Longrightarrow> X (spool_full (cdc_source R)) t'"
    and X: "\<And>e t'. queue_failed E e t' \<Longrightarrow> X (boxed e) t'"
  shows "wp (record_capture E R encoded checkpoint sealed streaming) Q X t"
proof -
  obtain ph ck items where a: "a = (ph, ck, items)" by (metis prod_cases3)
  let ?ph = "if streaming then Streaming else if sealed then Sealed else ph"
  have fault: "X (boxed e) t'" if "fault E e t'" for e t' using X that by (simp add: queue_failed_def)
  have commit: "wp (sem_bind (op_store (sem_bind (bind_access (checkpoint_cell R)) (\<lambda>p. cell_set E vec_value p checkpoint))) (\<lambda>_.
         sem_bind
           (if streaming then op_store (sem_bind (bind_access (phase_cell R)) (\<lambda>p. cell_set E u32_value p STREAMING))
            else if sealed then op_store (sem_bind (bind_access (phase_cell R)) (\<lambda>p. cell_set E u32_value p SEALED))
            else sem_return ()) (\<lambda>_. sem_return True))) Q X t'"
    if ok: "cdc_at V R (ph, ck, its) t'" and fin: "\<And>t'. cdc_at V R (?ph, Some checkpoint, its) t' \<Longrightarrow> Q True t'" for its t'
  proof -
    have phase: "wp (if streaming then op_store (sem_bind (bind_access (phase_cell R)) (\<lambda>p. cell_set E u32_value p STREAMING))
            else if sealed then op_store (sem_bind (bind_access (phase_cell R)) (\<lambda>p. cell_set E u32_value p SEALED))
            else sem_return ()) (\<lambda>_. Q True) X t''" if "cdc_at V R (ph, Some checkpoint, its) t''" for t''
    proof (cases streaming)
      case True
      then show ?thesis
        by (simp only: if_True wp_op_store) (rule wp_set_phase [where ph' = Streaming, OF laws that], use fin fault True in auto)
    next
      case False
      then show ?thesis
        by (cases sealed; simp only: if_True if_False wp_op_store wp_return)
          (rule wp_set_phase [where ph' = Sealed, OF laws that], use fin fault that in auto)
    qed
    show ?thesis
      unfolding wp_bind [of "op_store m" for m] wp_bind [of "if c then m else n" for c m n] wp_op_store wp_return_fun
      by (rule wp_set_checkpoint [OF laws ok]) (use phase fault in auto)
  qed
  let ?p = "data_prefix (data_id (input_queue R))"
  let ?rest = "\<lambda>pushed. if \<not> pushed then (if streaming then sem_return False else sem_throw (spool_full (cdc_source R)))
       else sem_bind (op_store (sem_bind (bind_access (checkpoint_cell R)) (\<lambda>p. cell_set E vec_value p checkpoint))) (\<lambda>_.
         sem_bind
           (if streaming then op_store (sem_bind (bind_access (phase_cell R)) (\<lambda>p. cell_set E u32_value p STREAMING))
            else if sealed then op_store (sem_bind (bind_access (phase_cell R)) (\<lambda>p. cell_set E u32_value p SEALED))
            else sem_return ()) (\<lambda>_. sem_return True))"
  have "wp (sem_bind
       (if streaming \<and> encoded = None
        then op_store (sem_bind (as_read (queue_queued_bytes E ?p)) (\<lambda>queued. sem_return (queued > STREAMING_BYTES)))
        else sem_return False) (\<lambda>wait. if wait then sem_return False
     else sem_bind (case encoded of None \<Rightarrow> sem_return True
          | Some bs \<Rightarrow> op_store (try_push E vec_value ?p bs (if streaming then STREAMING_BYTES else spool_capacity R))) ?rest)) Q X t"
  proof (cases encoded)
    case None
    have settled: "wp (sem_bind (sem_return True) ?rest) Q X t" if "\<not> (streaming \<and> unat STREAMING_BYTES < total_bytes items)"
      unfolding wp_bind wp_return
      by (simp only: simp_thms if_False if_True) (rule commit [OF at [unfolded a]], rule Q, use None a that in \<open>auto simp: abstract_capture_def\<close>)
    show ?thesis
    proof (cases streaming)
      case True
      have "wp (op_store (sem_bind (as_read (queue_queued_bytes E ?p)) (\<lambda>queued. sem_return (queued > STREAMING_BYTES))))
          (\<lambda>wait. wp (if wait then sem_return False else sem_bind (sem_return True) ?rest) Q X) X t"
        unfolding wp_op_store
        by (rule wp_queued_input [OF laws at [unfolded a]])
          (use None True a settled fault at in \<open>auto simp: abstract_capture_def wp_if intro!: Q\<close>)
      then show ?thesis using None True by (simp only: wp_bind simp_thms if_True option.case)
    next
      case False
      then show ?thesis using None settled by (simp add: wp_return_fun)
    qed
  next
    case (Some bs)
    have "wp (try_push E vec_value ?p bs (if streaming then STREAMING_BYTES else spool_capacity R)) (\<lambda>pushed. wp (?rest pushed) Q X) (\<lambda>e. X (boxed e)) t"
    proof (rule wp_push_input [OF laws at [unfolded a] size [OF Some]])
      assume "unat (if streaming then STREAMING_BYTES else spool_capacity R) < total_bytes items + (length bs + 8)"
      then show "wp (?rest False) Q X t"
        using Some a at by (auto simp: abstract_capture_def intro!: Q full)
    next
      fix t' assume "total_bytes items + (length bs + 8) \<le> unat (if streaming then STREAMING_BYTES else spool_capacity R)"
        and "cdc_at V R (ph, ck, items @ [bs]) t'"
      then show "wp (?rest True) Q X t'"
        by (simp only: simp_thms if_False if_True)
          (rule commit, assumption, rule Q, use Some a in \<open>auto simp: abstract_capture_def\<close>)
    qed (rule X)
    then show ?thesis using Some by (simp add: wp_return_fun)
  qed
  then show ?thesis
    unfolding record_capture_def wp_bind [of "op_store (bind_access h)" for h] wp_op_store
    by (intro wp_bind_access_ok) (use cdc_atD [OF at [unfolded a]] in auto)
qed

end
