(* ===== verification/Cdc_Properties.thy ===== *)
theory Cdc_Properties
  imports Cdc_Runtime
begin

text \<open>
  Properties of the change-data-capture source of \<open>Cdc_Runtime\<close>: recording a delivery is a step of an abstract state
  machine over the phase, the checkpoint and the queue; what is captured stays hidden until the snapshot is sealed; an
  abandoned capture is erased in a known number of rounds; and a polled delivery can be acknowledged without a panic.
\<close>

section \<open>Recording\<close>

text \<open>A delivery and its effect on the durable state; \<open>None\<close> is an error that is not the store's.\<close>

definition abstract_record ::
  "('c, 'e, 'k, 'd, 'b) cdc_runtime \<Rightarrow> 'd source_delivery \<Rightarrow> capture_state \<Rightarrow> (bool \<times> 'd source_delivery \<times> capture_state) option" where
  "abstract_record R d a =
     (case delivery_kind d of
        BeginCapture \<Rightarrow> Some (True, d, (Capturing, snd a))
      | Reset \<Rightarrow> Some (True, d\<lparr>finished := fst (abstract_reset a)\<rparr>, snd (abstract_reset a))
      | Cdc delivery encoded sealed streaming \<Rightarrow>
          map_option (\<lambda>(b, a'). (b, d, a'))
            (abstract_capture R encoded (delivery_checkpoint (cdc_connector R) delivery) sealed streaming a)
      | Sequence _ _ \<Rightarrow> None)"

fun delivery_fits :: "'d delivery_kind \<Rightarrow> bool" where
  "delivery_fits (Cdc _ (Some bs) _ _) = (length bs + 8 < 2 ^ 64)"
| "delivery_fits _ = True"

lemma wp_cdc_record:
  assumes laws: "engine_laws E V" and at: "cdc_at V R a t" and fits: "delivery_fits (delivery_kind d)"
    and Q: "\<And>b d' a' t'. abstract_record R d a = Some (b, d', a') \<Longrightarrow> cdc_at V R a' t' \<Longrightarrow> Q b (t', d')"
    and refused: "\<And>e t'. abstract_record R d a = None \<Longrightarrow> \<not> is_unwind e \<Longrightarrow> X e (t', d)"
    and X: "\<And>e t' d'. queue_failed E e t' \<Longrightarrow> X (boxed e) (t', d')"
  shows "wp (cdc_record_delivery E R st) Q X (t, d)"
proof -
  obtain ph ck items where a: "a = (ph, ck, items)" by (metis prod_cases3)
  have fault: "X (boxed e) (t', d')" if "fault E e t'" for e t' d' using X that by (simp add: queue_failed_def)
  have "wp (record_kind E R (delivery_kind d)) Q X (t, d)"
  proof (cases "delivery_kind d")
    case BeginCapture
    show ?thesis
      unfolding record_kind_def BeginCapture delivery_kind.case wp_bind [of "beside m" for m]
      by (rule wp_beside, unfold wp_op_store, rule wp_set_phase [where ph' = Capturing, OF laws at [unfolded a]])
        (use BeginCapture fault a in \<open>auto simp: abstract_record_def intro!: Q\<close>)
  next
    case Reset
    show ?thesis
      unfolding Reset by (rule wp_record_reset [OF laws at]) (use Reset fault in \<open>auto simp: abstract_record_def intro!: Q\<close>)
  next
    case (Cdc del encoded sealed streaming)
    show ?thesis
      unfolding record_kind_def Cdc delivery_kind.case
      by (rule wp_beside, rule wp_record_capture [OF laws at])
        (use Cdc fits refused X in \<open>auto simp: abstract_record_def intro!: Q\<close>)
  next
    case (Sequence v bs)
    then have "abstract_record R d a = None" by (simp add: abstract_record_def)
    then show ?thesis
      unfolding record_kind_def Sequence delivery_kind.case by (auto intro!: refused)
  qed
  then show ?thesis by (simp add: cdc_record_delivery_def wp_def)
qed

section \<open>Reading and consuming\<close>

lemma decode_stored_phase:
  "cdc_at V R (ph, ck, items) t \<Longrightarrow>
   decode_bounded_value u32_value (V (inner t) (data_prefix (data_id (phase_cell R)))) 4 = Inr (phase_code ph)"
  by (cases "phase_code ph") (simp_all add: cdc_at_def decode_bounded_value_def u32_value_def)

lemma wp_cdc_published:
  assumes laws: "engine_laws E V" and at: "cdc_at V R (ph, ck, items) t"
    and none: "\<not> visible_phase ph \<or> items = [] \<Longrightarrow> Q None (Write t)"
    and some: "\<And>bs rest. visible_phase ph \<Longrightarrow> items = bs # rest \<Longrightarrow> length bs \<le> MAX_CAPTURE_BYTES \<Longrightarrow> Q (Some bs) (Write t)"
    and large: "\<And>bs rest. visible_phase ph \<Longrightarrow> items = bs # rest \<Longrightarrow> MAX_CAPTURE_BYTES < length bs \<Longrightarrow>
      X (boxed (ItemTooLarge (length bs) MAX_CAPTURE_BYTES)) (Write t)"
    and X: "\<And>e r. ref_fault E e r \<Longrightarrow> X (boxed e) r"
  shows "wp (cdc_published E R) Q X (Write t)"
proof -
  let ?q = "data_prefix (data_id (input_queue R))"
  obtain u where u: "prefix_successor ?q = Some u" using prefix_successor_data_prefix by blast
  note facts = cdc_atD [OF at] decode_stored_phase [OF at]
  have front: "wp (op_store (sem_bind (bind_read (input_queue R)) (\<lambda>p. front_bounded E vec_value p MAX_CAPTURE_BYTES))) Q X (Write t)"
    if "visible_phase ph"
    unfolding wp_op_store wp_bind
    by (rule wp_bind_read_ok, use facts in simp, use facts in simp, rule wp_front_bounded [OF laws u, where vs = items])
      (use that facts none some large X in \<open>auto simp: vec_value_def ref_fault_def\<close>)
  show ?thesis
    unfolding cdc_published_def wp_bind [of "op_store m" for m] wp_bind [of "sem_lift m" for m] wp_op_store wp_bind [of "bind_read m" for m]
    by (rule wp_bind_read_ok, use facts in simp, use facts in simp, rule wp_cell_get_bounded [OF laws])
      (use facts front none X in \<open>auto simp: wp_def sem_lift_def sem_return_def\<close>)
qed

lemma wp_cdc_consume:
  assumes laws: "engine_laws E V" and at: "cdc_at V R (ph, ck, items) t"
    and Q: "\<And>t'. visible_phase ph \<Longrightarrow> cdc_at V R (ph, ck, drop 1 items) t' \<Longrightarrow> Q () t'"
    and hidden: "\<And>e. \<not> visible_phase ph \<Longrightarrow> \<not> is_unwind e \<Longrightarrow> X e t"
    and X: "\<And>e t'. \<not> engine_reliable E \<Longrightarrow> is_storage e \<Longrightarrow> X (boxed e) t'"
  shows "wp (cdc_consume_published E R) Q X t"
proof -
  note facts = cdc_atD [OF at] decode_stored_phase [OF at]
  have discard: "wp (op_store (sem_bind (bind_access (input_queue R)) (\<lambda>p. discard_front E p 1))) (\<lambda>_. Q ()) X t" if "visible_phase ph"
    unfolding wp_op_store by (rule wp_discard_input [OF laws at]) (use Q X that in \<open>auto simp: fault_def\<close>)
  have rest: "wp (sem_bind (sem_lift (decode_phase (cdc_source R) (phase_code ph))) (\<lambda>phase.
     if \<not> visible_phase phase then sem_throw (invalid_state (cdc_source R) ''unsealed source input cannot be consumed'')
     else sem_bind (op_store (sem_bind (bind_access (input_queue R)) (\<lambda>p. discard_front E p 1))) (\<lambda>_. sem_return ()))) Q X t"
    using discard hidden by (cases "visible_phase ph") (simp_all add: wp_return_fun)
  show ?thesis
    unfolding cdc_consume_published_def wp_bind [of "op_store m" for m] wp_op_store wp_bind [of "bind_access m" for m]
  proof (rule wp_bind_access_ok, use facts in simp, use facts in simp, unfold wp_as_read, rule wp_cell_get_bounded [OF laws])
    fix v assume "decode_bounded_value u32_value (V (ref_view (Write t)) (data_prefix (data_id (phase_cell R)))) 4 = Inr v"
    then have "v = phase_code ph" using facts by simp
    then show "wp (sem_bind (sem_lift (decode_phase (cdc_source R) v)) (\<lambda>phase.
     if \<not> visible_phase phase then sem_throw (invalid_state (cdc_source R) ''unsealed source input cannot be consumed'')
     else sem_bind (op_store (sem_bind (bind_access (input_queue R)) (\<lambda>p. discard_front E p 1))) (\<lambda>_. sem_return ()))) Q X (write_of t (Write t))"
      using rest by (simp only: write_of_Write)
  qed (use facts X in \<open>auto simp: fault_def ref_fault_def\<close>)
qed

section \<open>Rounds of poll, record and acknowledgement\<close>

text \<open>
  What the scheduler does with a source: it polls unless a delivery is pending, records the delivery, keeps it
  pending when it is refused, and acknowledges it otherwise.
\<close>

type_synonym ('c, 'e, 'k, 'd, 's) cdc_session = "('c, 'e, 'k) cdc_state \<times> 'd source_delivery option \<times> 's transaction"

definition cdc_deliver ::
  "'s engine \<Rightarrow> ('c, 'e, 'k, 'd, 'b) cdc_runtime \<Rightarrow> 'd source_delivery \<Rightarrow> ('c, 'e, 'k) cdc_state \<Rightarrow> 's transaction \<Rightarrow>
   (operation_error + unit) \<times> ('c, 'e, 'k, 'd, 's) cdc_session" where
  "cdc_deliver E R d st t =
     (case cdc_record_delivery E R st (t, d) of
        (Inl e, (t1, d1)) \<Rightarrow> (Inl e, (st, Some d1, t1))
      | (Inr False, (t1, d1)) \<Rightarrow> (Inr (), (st, Some d1, t1))
      | (Inr True, (t1, d1)) \<Rightarrow> (case cdc_ack R d1 st of (res, st1) \<Rightarrow> (res, (st1, None, t1))))"

definition cdc_round ::
  "'s engine \<Rightarrow> ('c, 'e, 'k, 'd, 'b) cdc_runtime \<Rightarrow> (('c, 'e, 'k, 'd, 's) cdc_session, operation_error, unit) sem" where
  "cdc_round E R = (\<lambda>(st, held, t).
     case held of
       Some d \<Rightarrow> cdc_deliver E R d st t
     | None \<Rightarrow>
         (case cdc_poll R st of
            (Inl e, st1) \<Rightarrow> (Inl e, (st1, None, t))
          | (Inr None, st1) \<Rightarrow> (Inr (), (st1, None, t))
          | (Inr (Some d), st1) \<Rightarrow> cdc_deliver E R d st1 t))"

fun cdc_rounds ::
  "'s engine \<Rightarrow> ('c, 'e, 'k, 'd, 'b) cdc_runtime \<Rightarrow> nat \<Rightarrow> (('c, 'e, 'k, 'd, 's) cdc_session, operation_error, unit) sem" where
  "cdc_rounds E R 0 = sem_return ()"
| "cdc_rounds E R (Suc n) = sem_bind (cdc_round E R) (\<lambda>_. cdc_rounds E R n)"

subsection \<open>The invariant of a session\<close>

text \<open>The step kept in memory agrees with the stored phase.\<close>

fun in_step :: "phase \<Rightarrow> next_step \<Rightarrow> bool" where
  "in_step Fresh s \<longleftrightarrow> s = BeginCaptureStep"
| "in_step Capturing s \<longleftrightarrow> s = CaptureStep \<or> s = PrepareReset"
| "in_step Resetting s \<longleftrightarrow> s = ResetStep"
| "in_step Sealed s \<longleftrightarrow> s = StreamStep"
| "in_step Streaming s \<longleftrightarrow> s = StreamStep"

text \<open>The checks that a restart makes of the stored state.\<close>

definition capture_ok :: "('c, 'e, 'k, 'd, 'b) cdc_runtime \<Rightarrow> capture_state \<Rightarrow> bool" where
  "capture_ok R a \<longleftrightarrow>
     (case a of (ph, ck, items) \<Rightarrow>
        total_bytes items \<le> unat (if ph = Streaming then STREAMING_BYTES else spool_capacity R) \<and>
        (\<forall>bs. ck = Some bs \<longrightarrow> length bs \<le> MAX_CAPTURE_BYTES) \<and> (ph = Fresh \<longrightarrow> ck = None \<and> items = []) \<and>
        (ph = Capturing \<and> items \<noteq> [] \<longrightarrow> ck \<noteq> None))"

text \<open>A delivery that was polled in the state it is recorded and acknowledged in.\<close>

definition delivery_ready :: "('c, 'e, 'k, 'd, 'b) cdc_runtime \<Rightarrow> ('c, 'e, 'k) cdc_state \<Rightarrow> 'd source_delivery \<Rightarrow> bool" where
  "delivery_ready R st d \<longleftrightarrow>
     (case delivery_kind d of
        BeginCapture \<Rightarrow> next_step st = BeginCaptureStep
      | Reset \<Rightarrow> next_step st = PrepareReset \<or> next_step st = ResetStep
      | Cdc delivery encoded sealed streaming \<Rightarrow>
          connector st \<noteq> None \<and> next_step st = (if streaming then StreamStep else CaptureStep) \<and>
          (streaming \<or> pending_progress st \<noteq> None) \<and>
          length (delivery_checkpoint (cdc_connector R) delivery) \<le> MAX_CAPTURE_BYTES \<and>
          (\<forall>bs. encoded = Some bs \<longrightarrow> length bs \<le> MAX_CAPTURE_BYTES)
      | Sequence _ _ \<Rightarrow> False)"

definition session_ok :: "('s \<Rightarrow> (bytes \<rightharpoonup> bytes)) \<Rightarrow> ('c, 'e, 'k, 'd, 'b) cdc_runtime \<Rightarrow> ('c, 'e, 'k, 'd, 's) cdc_session \<Rightarrow> bool" where
  "session_ok V R q \<longleftrightarrow>
     (case q of (st, held, t) \<Rightarrow>
        (\<exists>ph ck items. cdc_at V R (ph, ck, items) t \<and> capture_ok R (ph, ck, items) \<and> in_step ph (next_step st)) \<and>
        (\<forall>d. held = Some d \<longrightarrow> delivery_ready R st d))"

text \<open>What is relied on of the external systems: they return, and the encoder keeps to the limit it is given.\<close>

definition capture_env_ok :: "('c, 'e, 'k, 'd, 'b) cdc_runtime \<Rightarrow> bool" where
  "capture_env_ok R \<longleftrightarrow>
     shape_ok (cdc_source R) \<and> (\<forall>e. \<not> is_unwind (conversion_error (cdc_source R) e)) \<and>
     (\<forall>e. \<not> is_unwind (source_codec_error (cdc_source R) e)) \<and> panic_free is_unwind (start_snapshot (cdc_source R)) \<and>
     (\<forall>k. panic_free is_unwind (start_streaming (cdc_source R) k)) \<and> panic_free is_unwind (cleanup_snapshot (cdc_source R)) \<and>
     (\<forall>ph ck b e. restore_checkpoint (cdc_source R) ph ck b = Inl e \<longrightarrow> \<not> is_unwind e) \<and>
     (\<forall>c n bs. cdc_encode_bounded R c n = Inr bs \<longrightarrow> length bs \<le> n)"

subsection \<open>Polling\<close>

lemma wp_in_outside:
  assumes "panic_free is_unwind m" "\<And>a st'. next_step st' = next_step st \<Longrightarrow> connector st' = connector st \<Longrightarrow> Q a st'"
    and "\<And>e st'. \<not> is_unwind e \<Longrightarrow> X e st'"
  shows "wp (in_outside m) Q X st"
  using assms by (auto simp: wp_def in_outside_def panic_free_def split: prod.splits sum.splits) (metis fst_conv)

lemma wp_with_connector:
  assumes "\<And>a st' c'. next_step st' = next_step st \<Longrightarrow> connector st' = Some c' \<Longrightarrow> pending_progress st' = pending_progress st \<Longrightarrow> Q a st'"
    and "\<And>kind st'. X (err kind) st'"
  shows "wp (with_connector err c m) Q X st"
  using assms by (auto simp: wp_def with_connector_def map_sum_Inl split: prod.splits sum.splits)

lemma wp_start_connector:
  assumes "capture_env_ok R" "\<And>st' c. next_step st' = next_step st \<Longrightarrow> connector st' = Some c \<Longrightarrow> Q () st'"
    and "\<And>e st'. \<not> is_unwind e \<Longrightarrow> X e st'"
  shows "wp (start_connector R streaming) Q X st"
proof (cases "connector st")
  case None
  let ?start = "if streaming then
               (case resume_point st of
                  None \<Rightarrow> sem_throw (invalid_state (cdc_source R) ''streaming source has no checkpoint'')
                | Some k \<Rightarrow> in_outside (start_streaming (cdc_source R) k))
             else in_outside (start_snapshot (cdc_source R))"
  have "wp ?start (\<lambda>_ st'. next_step st' = next_step st) (\<lambda>e _. \<not> is_unwind e) st"
    using assms(1)
    by (cases streaming; cases "resume_point st") (auto simp: capture_env_ok_def intro!: wp_in_outside)
  then have "wp (sem_bind ?start (\<lambda>c. modify_state (\<lambda>st. st\<lparr>connector := Some c\<rparr>))) Q X st"
    unfolding wp_bind by (rule wp_mono) (auto simp: wp_def modify_state_def intro: assms)
  then show ?thesis using None by (simp add: start_connector_def wp_def)
qed (auto simp: start_connector_def wp_def intro: assms)

lemma wp_convert_delivery:
  assumes env: "capture_env_ok R" and st: "connector st \<noteq> None" "next_step st = (if streaming then StreamStep else CaptureStep)"
  shows "wp (convert_delivery R streaming d)
    (\<lambda>polled st'. next_step st' = next_step st \<and> (\<forall>d. polled = Some d \<longrightarrow> delivery_ready R st' d)) (\<lambda>e _. \<not> is_unwind e) st"
proof -
  have conv: "convert_values (cdc_connect R) (cdc_builder R) (cdc_source R) (cdc_schema R) recs p \<noteq> Inl (ConvertPanic m)" for recs p m
    using env convert_values_panics [of "cdc_source R" "cdc_connect R" "cdc_builder R" "cdc_schema R" recs p] by (auto simp: capture_env_ok_def panics_def)
  have enc: "length bs \<le> MAX_CAPTURE_BYTES" if "cdc_encode_bounded R c (MAX_CAPTURE_BYTES - n) = Inr bs" for c n bs
    using env that unfolding capture_env_ok_def by (metis diff_le_self le_trans)
  have errs: "\<not> is_unwind (conversion_error (cdc_source R) e)" "\<not> is_unwind (source_codec_error (cdc_source R) c)" for e c
    using env by (simp_all add: capture_env_ok_def)
  obtain recs d' where d: "take_records (cdc_connector R) d = (recs, d')" by fastforce
  define cv where "cv = convert_values (cdc_connect R) (cdc_builder R) (cdc_source R) (cdc_schema R)
      (map (\<lambda>r. (record_topic r, record_value r)) recs) (if streaming then None else Some (progress st))"
  show ?thesis
  proof (cases cv)
    case (Inl e)
    then show ?thesis
      using errs conv unfolding convert_delivery_def Let_def wp_def d prod.case cv_def [symmetric]
      by (cases e) (auto simp: cv_def)
  next
    case (Inr captured)
    then show ?thesis
      using st errs enc unfolding convert_delivery_def Let_def wp_def d prod.case cv_def [symmetric] Inr sum.case
      by (cases "captured_change captured")
        (auto simp: delivery_ready_def result_simps split: sum.split)
  qed
qed

lemma wp_cdc_poll:
  assumes env: "capture_env_ok R" and "next_step st \<noteq> Restore"
  shows "wp (cdc_poll R)
    (\<lambda>polled st'. next_step st' = next_step st \<and> (\<forall>d. polled = Some d \<longrightarrow> delivery_ready R st' d)) (\<lambda>e _. \<not> is_unwind e) st"
    (is "wp _ ?Q ?X st")
proof -
  have deliver: "wp (poll_delivery R streaming) ?Q ?X st" if "next_step st = (if streaming then StreamStep else CaptureStep)" for streaming
    unfolding poll_delivery_def wp_bind [of "start_connector R s" for s]
  proof (rule wp_start_connector [OF env])
    fix st' :: "('a, 'b, 'c) cdc_state" and c assume st': "next_step st' = next_step st" "connector st' = Some c"
    have "wp (sem_bind
             (with_connector (\<lambda>kind. runtime_error (cdc_source R) (''Debezium poll failed ('' @ kind @ '')'')) c
               (connector_poll (cdc_connector R)))
             (\<lambda>polled. case polled of None \<Rightarrow> sem_return None | Some d \<Rightarrow> convert_delivery R streaming d)) ?Q ?X st'"
      unfolding wp_bind
      by (rule wp_with_connector)
        (use st' that in \<open>auto split: option.split intro!: wp_mono [OF wp_convert_delivery [OF env]]\<close>)
    then show "wp (\<lambda>st. case connector st of
         None \<Rightarrow> (Inl (Unwind ''connector started''), st)
       | Some c \<Rightarrow>
           sem_bind
             (with_connector (\<lambda>kind. runtime_error (cdc_source R) (''Debezium poll failed ('' @ kind @ '')'')) c
               (connector_poll (cdc_connector R)))
             (\<lambda>polled. case polled of None \<Rightarrow> sem_return None | Some d \<Rightarrow> convert_delivery R streaming d) st) ?Q ?X st'"
      using st'(2) by (simp add: wp_def)
  qed simp
  show ?thesis
  proof (cases "next_step st")
    case PrepareReset
    have "wp (stop_connector R ''snapshot'') (\<lambda>_ st'. next_step st' = next_step st) ?X st"
      unfolding stop_connector_def
      by (cases "connector st") (auto simp: wp_def sem_bind_def modify_state_def with_connector_def sem_return_def result_simps
          split: prod.splits sum.splits)
    then have "wp (sem_bind (stop_connector R ''snapshot'') (\<lambda>_.
          sem_bind (if RESET_REQUIRES_SOURCE_CLEANUP (cdc_source R) then in_outside (cleanup_snapshot (cdc_source R)) else sem_return ()) (\<lambda>_.
          sem_return (Some (plain_delivery Reset))))) ?Q ?X st"
      unfolding wp_bind [of "stop_connector R s" for s]
      by (rule wp_mono) (use env PrepareReset in \<open>auto simp: wp_if capture_env_ok_def delivery_ready_def plain_delivery_def intro!: wp_in_outside\<close>)
    then show ?thesis using PrepareReset by (simp add: cdc_poll_def wp_def)
  qed (use assms(2) deliver [of True] deliver [of False] in
    \<open>simp_all add: cdc_poll_def wp_def sem_return_def plain_delivery_def delivery_ready_def\<close>)
qed

subsection \<open>Recording and acknowledging\<close>

lemma delivery_ready_fits: "delivery_ready R st d \<Longrightarrow> delivery_fits (delivery_kind d)"
proof (cases "delivery_kind d")
  case (Cdc del encoded sealed streaming)
  then show "delivery_ready R st d \<Longrightarrow> delivery_fits (delivery_kind d)"
    by (cases encoded) (auto simp: delivery_ready_def MAX_CAPTURE_BYTES_def)
qed simp_all

lemma total_bytes_drop: "total_bytes (drop n items) \<le> total_bytes items"
  by (metis append_take_drop_id le_add2 total_bytes_simps(3))

definition acknowledged_step :: "'d source_delivery \<Rightarrow> next_step \<Rightarrow> next_step" where
  "acknowledged_step d s =
     (case delivery_kind d of
        BeginCapture \<Rightarrow> CaptureStep
      | Reset \<Rightarrow> if finished d then BeginCaptureStep else ResetStep
      | Cdc _ _ sealed _ \<Rightarrow> if sealed then StreamStep else s
      | Sequence _ _ \<Rightarrow> s)"

lemma abstract_record_ok:
  assumes ready: "delivery_ready R st d" and ok: "capture_ok R a" and step: "in_step (fst a) (next_step st)"
    and rec: "abstract_record R d a = Some (b, d', a')"
  shows "capture_ok R a' \<and> delivery_kind d' = delivery_kind d \<and>
    (if b then in_step (fst a') (acknowledged_step d' (next_step st)) else a' = a \<and> d' = d)"
proof -
  obtain ph ck items where a: "a = (ph, ck, items)" by (metis prod_cases3)
  show ?thesis
  proof (cases "delivery_kind d")
    case BeginCapture
    then show ?thesis
      using assms a by (cases ph) (auto simp: abstract_record_def delivery_ready_def acknowledged_step_def capture_ok_def)
  next
    case Reset
    have ph: "ph \<noteq> Streaming" using ready step Reset a by (auto simp: delivery_ready_def)
    have eq: "b" "d' = d\<lparr>finished := fst (abstract_reset a)\<rparr>" "a' = snd (abstract_reset a)"
      using rec Reset by (simp_all add: abstract_record_def)
    show ?thesis
    proof (cases "length items \<le> RESET_BATCH_ENTRIES")
      case True
      then show ?thesis using Reset a eq by (simp add: abstract_reset_def acknowledged_step_def capture_ok_def)
    next
      case False
      then show ?thesis
        using Reset a eq ph ok le_trans [OF total_bytes_drop [of RESET_BATCH_ENTRIES items], of "unat (spool_capacity R)"]
        by (simp add: abstract_reset_def acknowledged_step_def capture_ok_def)
    qed
  next
    case (Cdc del encoded sealed streaming)
    then show ?thesis
      using assms a
      by (cases ph; cases encoded)
        (auto simp: abstract_record_def abstract_capture_def delivery_ready_def acknowledged_step_def capture_ok_def Let_def
          split: if_splits)
  qed (use ready in \<open>simp add: delivery_ready_def\<close>)
qed

lemma wp_cdc_ack:
  assumes "delivery_ready R st d" "delivery_kind d' = delivery_kind d"
  shows "wp (cdc_ack R d') (\<lambda>_ st'. next_step st' = acknowledged_step d' (next_step st)) (\<lambda>e _. \<not> is_unwind e) st"
    (is "wp _ ?Q ?X st")
proof (cases "delivery_kind d")
  case (Cdc del encoded sealed streaming)
  then obtain c where c: "connector st = Some c" and pending: "streaming \<or> pending_progress st \<noteq> None"
    using assms(1) by (auto simp: delivery_ready_def)
  have "wp (sem_bind (with_connector (\<lambda>kind. runtime_error (cdc_source R) (''Debezium ACK failed ('' @ kind @ '')'')) c
      (connector_ack (cdc_connector R) del)) (\<lambda>resumed.
          sem_bind (modify_state (\<lambda>st. st\<lparr>resume_point := Some resumed\<rparr>)) (\<lambda>_.
          if sealed then
            sem_bind (stop_connector R ''snapshot'') (\<lambda>_. modify_state (\<lambda>st. st\<lparr>next_step := StreamStep\<rparr>))
          else if \<not> streaming then
            (\<lambda>st. case pending_progress st of
               None \<Rightarrow> (Inl (Unwind ''capture progress prepared''), st)
             | Some p \<Rightarrow> (Inr (), st\<lparr>progress := p, pending_progress := None\<rparr>))
          else sem_return ()))) ?Q ?X st"
    unfolding wp_bind [of "with_connector err c m" for err c m]
    by (rule wp_with_connector)
      (use Cdc assms(2) pending in \<open>auto simp: wp_def sem_bind_def modify_state_def stop_connector_def with_connector_def sem_return_def
        result_simps acknowledged_step_def split: prod.splits sum.splits option.splits\<close>)
  then show ?thesis using Cdc c assms(2) by (simp add: cdc_ack_def wp_def)
qed (use assms in \<open>simp_all add: cdc_ack_def wp_def modify_state_def acknowledged_step_def delivery_ready_def\<close>)

lemma boxed_queue_failed: "queue_failed E e t \<Longrightarrow> \<not> is_unwind (boxed e)"
  by (auto simp: queue_failed_def fault_def boxed_def boxed_storage [unfolded boxed_def])

lemma wp_cdc_deliver:
  assumes laws: "engine_laws E V" and ready: "delivery_ready R st d" and ok: "session_ok V R (st, None, t)"
  shows "case cdc_deliver E R d st t of (Inr _, q) \<Rightarrow> session_ok V R q | (Inl e, q) \<Rightarrow> \<not> is_unwind e"
proof -
  obtain ph ck items where at: "cdc_at V R (ph, ck, items) t" "capture_ok R (ph, ck, items)" "in_step ph (next_step st)"
    using ok by (auto simp: session_ok_def)
  have "wp (cdc_record_delivery E R st)
     (\<lambda>b (t', d'). (\<exists>a'. cdc_at V R a' t' \<and> capture_ok R a' \<and> delivery_kind d' = delivery_kind d \<and>
        (if b then in_step (fst a') (acknowledged_step d' (next_step st)) else a' = (ph, ck, items) \<and> d' = d)))
     (\<lambda>e _. \<not> is_unwind e) (t, d)"
  proof (rule wp_cdc_record [OF laws at(1) delivery_ready_fits [OF ready]])
    fix b d' a' t' assume "abstract_record R d (ph, ck, items) = Some (b, d', a')" "cdc_at V R a' t'"
    then show "case (t', d') of (t', d') \<Rightarrow> \<exists>a'. cdc_at V R a' t' \<and> capture_ok R a' \<and> delivery_kind d' = delivery_kind d \<and>
        (if b then in_step (fst a') (acknowledged_step d' (next_step st)) else a' = (ph, ck, items) \<and> d' = d)"
      using abstract_record_ok [OF ready at(2)] at(3) by (simp only: prod.case fst_conv) blast
  qed (auto dest: boxed_queue_failed)
  then show ?thesis
  proof (cases rule: wp_cases)
    case (ok b q)
    obtain t' d' where q: "q = (t', d')" by fastforce
    show ?thesis
    proof (cases b)
      case True
      then obtain a' where a': "cdc_at V R a' t'" "capture_ok R a'" "delivery_kind d' = delivery_kind d"
          "in_step (fst a') (acknowledged_step d' (next_step st))" using ok q by auto
      from wp_cdc_ack [OF ready a'(3)] show ?thesis
      proof (cases rule: wp_cases)
        case ok': (ok u st')
        then show ?thesis
          using ok q True a' by (cases a') (auto simp: cdc_deliver_def session_ok_def)
      next
        case (err e st')
        then show ?thesis using ok q True by (simp add: cdc_deliver_def)
      qed
    next
      case False
      then show ?thesis using ok q ready at by (auto simp: cdc_deliver_def session_ok_def)
    qed
  next
    case (err e q)
    then show ?thesis by (cases q) (simp add: cdc_deliver_def)
  qed
qed

lemma wp_cdc_round:
  assumes "engine_laws E V" "capture_env_ok R" "session_ok V R q"
  shows "wp (cdc_round E R) (\<lambda>_. session_ok V R) (\<lambda>e _. \<not> is_unwind e) q"
proof -
  obtain st held t where q: "q = (st, held, t)" by (metis prod_cases3)
  have deliver: "wp (\<lambda>_. cdc_deliver E R d s t) (\<lambda>_. session_ok V R) (\<lambda>e _. \<not> is_unwind e) x"
    if "delivery_ready R s d" "session_ok V R (s, None, t)" for d s x
    using wp_cdc_deliver [OF assms(1) that] by (auto simp: wp_def split: prod.splits sum.splits)
  show ?thesis
  proof (cases held)
    case None
    have "next_step st \<noteq> Restore" using assms(3) q by (auto simp: session_ok_def elim!: in_step.elims)
    from wp_cdc_poll [OF assms(2) this] show ?thesis
    proof (cases rule: wp_cases)
      case (ok polled st')
      then have kept: "session_ok V R (st', None, t)" using assms(3) q by (auto simp: session_ok_def)
      show ?thesis
        using ok kept deliver [OF _ kept] q None by (cases polled) (auto simp: cdc_round_def wp_def)
    next
      case (err e st')
      then show ?thesis using q None by (simp add: cdc_round_def wp_def)
    qed
  next
    case (Some d)
    then have "delivery_ready R st d" "session_ok V R (st, None, t)" using assms(3) q by (auto simp: session_ok_def)
    then show ?thesis using deliver q Some by (simp add: cdc_round_def wp_def)
  qed
qed

lemma wp_cdc_rounds:
  assumes "engine_laws E V" "capture_env_ok R" "session_ok V R q"
  shows "wp (cdc_rounds E R n) (\<lambda>_. session_ok V R) (\<lambda>e _. \<not> is_unwind e) q"
  using assms(3)
proof (induction n arbitrary: q)
  case (Suc n)
  show ?case
    unfolding cdc_rounds.simps wp_bind by (rule wp_mono [OF wp_cdc_round [OF assms(1,2) Suc.prems]]) (use Suc.IH in auto)
qed simp

subsection \<open>Restarting\<close>

lemma wp_read_capture:
  assumes laws: "engine_laws E V" and at: "cdc_at V R (ph, ck, items) t" and ok: "capture_ok R (ph, ck, items)"
    and Q: "\<And>k. restore_checkpoint (cdc_source R) ph ck (items = []) = Inr k \<Longrightarrow> Q (ph, k) (Write t)"
    and refused: "\<And>e. restore_checkpoint (cdc_source R) ph ck (items = []) = Inl e \<Longrightarrow> X e (Write t)"
    and X: "\<And>e r. ref_fault E e r \<Longrightarrow> X (boxed e) r"
  shows "wp (read_capture E R) Q X (Write t)"
proof -
  let ?q = "data_prefix (data_id (input_queue R))" and ?c = "data_prefix (data_id (checkpoint_cell R))"
  obtain u where u: "prefix_successor ?q = Some u" using prefix_successor_data_prefix by blast
  note facts = cdc_atD [OF at] decode_stored_phase [OF at]
  have stored: "decode_bounded_value vec_value (V (inner t) ?c) MAX_CAPTURE_BYTES = Inr ck"
    using at ok by (cases ck) (simp_all add: cdc_at_def capture_ok_def decode_bounded_value_def vec_value_def)
  have "unat (of_nat (total_bytes items) :: u64) = total_bytes items"
    using queue_rep_total [OF cdc_atD(8) [OF at]] by (simp add: unat_of_nat)
  then have small: "\<not> (if ph = Streaming then STREAMING_BYTES else spool_capacity R) < of_nat (total_bytes items)"
    using ok by (simp add: capture_ok_def word_less_nat_alt)
  have fine: "\<not> (ph = Fresh \<and> (ck \<noteq> None \<or> items \<noteq> []) \<or> ph = Capturing \<and> items \<noteq> [] \<and> ck = None)"
    using ok by (auto simp: capture_ok_def)
  have fault: "X (boxed e) r" if "\<not> engine_reliable E" "is_storage e" "ref_poisoned r" for e r
    using X that by (simp add: ref_fault_def)
  have rest: "wp (sem_bind (op_store (sem_bind (bind_read (input_queue R)) (\<lambda>p.
        sem_bind (queue_queued_bytes E p) (\<lambda>queued. sem_return (p, queued))))) (\<lambda>(p, queued).
      if queued > (if ph = Streaming then STREAMING_BYTES else spool_capacity R)
      then sem_throw (invalid_state (cdc_source R) ''source queue accounting exceeds capacity'')
      else
        sem_bind (op_store (queue_is_empty E p)) (\<lambda>empty.
        if ph = Fresh \<and> (ck \<noteq> None \<or> \<not> empty) \<or> ph = Capturing \<and> \<not> empty \<and> ck = None
        then sem_throw (invalid_state (cdc_source R) ''CDC phase and bootstrap data disagree'')
        else sem_bind (sem_lift (restore_checkpoint (cdc_source R) ph ck empty)) (\<lambda>resumed. sem_return (ph, resumed))))) Q X (Write t)"
    unfolding wp_bind wp_op_store
    by (rule wp_bind_read_ok, use facts in simp, use facts in simp, rule wp_queue_queued_bytes [OF laws u, where vs = items])
      (use facts small fine Q refused fault in \<open>auto intro!: wp_queue_is_empty [OF laws u, where vs = items] split: sum.split\<close>)
  have "wp (op_store (sem_bind (bind_read (checkpoint_cell R)) (\<lambda>p. cell_get_bounded E vec_value p MAX_CAPTURE_BYTES)))
     (\<lambda>v r. v = ck \<and> r = Write t) X (Write t)"
    unfolding wp_bind wp_op_store
    by (rule wp_bind_read_ok, use facts in simp, use facts in simp, rule wp_cell_get_bounded [OF laws])
      (use facts stored X in auto)
  moreover have "wp (op_store (sem_bind (bind_read (phase_cell R)) (\<lambda>p. cell_get_bounded E u32_value p 4)))
     (\<lambda>v r. v = phase_code ph \<and> r = Write t) X (Write t)"
    unfolding wp_bind wp_op_store
    by (rule wp_bind_read_ok, use facts in simp, use facts in simp, rule wp_cell_get_bounded [OF laws])
      (use facts X in auto)
  ultimately show ?thesis
    unfolding read_capture_def Let_def wp_bind [of "op_store m" for m] wp_bind [of "sem_lift m" for m]
    by (elim wp_mono) (use rest in \<open>auto elim!: wp_mono simp: wp_bind [of "op_store m" for m]\<close>)
qed

subsection \<open>Erasing an abandoned capture\<close>

lemma cdc_reset_record:
  fixes R :: "('c, 'e, 'k, 'd, 'b) cdc_runtime"
  assumes "engine_laws E V" "engine_reliable E" and at: "cdc_at V R a t"
  obtains t' where "cdc_at V R (snd (abstract_reset a)) t'"
    "\<And>st st1. cdc_poll R st = (Inr (Some (plain_delivery Reset)), st1) \<Longrightarrow> cdc_round E R (st, None, t) =
       (Inr (), (st1\<lparr>next_step := (if fst (abstract_reset a) then BeginCaptureStep else ResetStep), resume_point := None,
          progress := default_progress\<rparr>, None, t'))"
proof -
  let ?d = "plain_delivery Reset :: 'd source_delivery"
  have kind: "delivery_kind ?d = Reset" by (simp add: plain_delivery_def)
  have "wp (record_kind E R Reset)
     (\<lambda>b q. b \<and> snd q = ?d\<lparr>finished := fst (abstract_reset a)\<rparr> \<and> cdc_at V R (snd (abstract_reset a)) (fst q)) (\<lambda>_ _. False) (t, ?d)"
    by (rule wp_record_reset [OF assms(1) at]) (use assms(2) in \<open>auto simp: fault_def\<close>)
  then show thesis
    by (elim wp_cases) (auto simp: cdc_round_def cdc_deliver_def cdc_record_delivery_def cdc_ack_def kind modify_state_def intro!: that)
qed

lemma poll_reset: "next_step st = ResetStep \<Longrightarrow> cdc_poll R st = (Inr (Some (plain_delivery Reset)), st)"
  by (simp add: cdc_poll_def sem_return_def)

lemma cdc_reset_round:
  assumes "engine_laws E V" "engine_reliable E" "cdc_at V R a t" "next_step st = ResetStep"
  obtains t' where "cdc_at V R (snd (abstract_reset a)) t'"
    "cdc_round E R (st, None, t) =
       (Inr (), (st\<lparr>next_step := (if fst (abstract_reset a) then BeginCaptureStep else ResetStep), resume_point := None,
          progress := default_progress\<rparr>, None, t'))"
  by (rule cdc_reset_record [OF assms(1-3)], rule that, assumption) (simp add: poll_reset [OF assms(4)])

lemma cdc_resets:
  fixes R :: "('c, 'e, 'k, 'd, 'b) cdc_runtime"
  assumes "engine_laws E V" "engine_reliable E"
  shows "cdc_at V R (ph, ck, items) t \<Longrightarrow> next_step st = ResetStep \<Longrightarrow> n = (length items - 1) div RESET_BATCH_ENTRIES \<Longrightarrow>
    \<exists>t'. cdc_rounds E R (Suc n) (st, None, t) =
        (Inr (), (st\<lparr>next_step := BeginCaptureStep, resume_point := None, progress := default_progress\<rparr>, None, t')) \<and>
      cdc_at V R (Fresh, None, []) t'"
proof (induction n arbitrary: ph items t st)
  case 0
  then have few: "length items \<le> RESET_BATCH_ENTRIES" by (auto simp: RESET_BATCH_ENTRIES_def)
  obtain t1 where "cdc_at V R (Fresh, None, []) t1"
      "cdc_round E R (st, None, t) = (Inr (), (st\<lparr>next_step := BeginCaptureStep, resume_point := None, progress := default_progress\<rparr>, None, t1))"
    by (rule cdc_reset_round [OF assms 0(1,2)]) (use few in \<open>simp add: abstract_reset_def\<close>)
  then show ?case by (auto simp: sem_bind_def sem_return_def)
next
  case (Suc n)
  then have many: "RESET_BATCH_ENTRIES < length items" "n = (length (drop RESET_BATCH_ENTRIES items) - 1) div RESET_BATCH_ENTRIES"
    by (simp_all add: RESET_BATCH_ENTRIES_def)
  obtain t1 where t1: "cdc_at V R (Resetting, ck, drop RESET_BATCH_ENTRIES items) t1"
      "cdc_round E R (st, None, t) = (Inr (), (st\<lparr>next_step := ResetStep, resume_point := None, progress := default_progress\<rparr>, None, t1))"
    by (rule cdc_reset_round [OF assms Suc.prems(1,2)]) (use many in \<open>simp add: abstract_reset_def\<close>)
  from Suc.IH [OF t1(1) _ many(2), of "st\<lparr>next_step := ResetStep, resume_point := None, progress := default_progress\<rparr>"]
  show ?case
    using t1(2) by (auto simp: sem_bind_def simp del: cdc_rounds.simps(2) simp: cdc_rounds.simps(2) [of E R "Suc n"])
qed

subsection \<open>Sealing\<close>

fun record_all ::
  "'s engine \<Rightarrow> ('c, 'e, 'k, 'd, 'b) cdc_runtime \<Rightarrow> ('c, 'e, 'k) cdc_state \<Rightarrow> 'd source_delivery list \<Rightarrow> ('s transaction, operation_error, unit) sem" where
  "record_all E R st [] t = (Inr (), t)"
| "record_all E R st (d # ds) t =
     (case cdc_record_delivery E R st (t, d) of
        (Inl e, (t1, _)) \<Rightarrow> (Inl e, t1)
      | (Inr _, (t1, _)) \<Rightarrow> record_all E R st ds t1)"

fun publishes :: "'d delivery_kind \<Rightarrow> bool" where
  "publishes (Cdc _ _ sealed streaming) = (sealed \<or> streaming)"
| "publishes _ = False"

lemma abstract_record_hidden:
  assumes "abstract_record R d (ph, ck, items) = Some (b, d', (ph', ck', items'))" "\<not> visible_phase ph" "\<not> publishes (delivery_kind d)"
  shows "\<not> visible_phase ph'"
  using assms
  by (cases "delivery_kind d")
    (auto simp: abstract_record_def abstract_reset_def abstract_capture_def visible_phase_def Let_def split: if_splits option.splits)

text \<open>What the conversion guarantees of a captured page: its encoding keeps to the limit.\<close>

fun delivery_small :: "'d delivery_kind \<Rightarrow> bool" where
  "delivery_small (Cdc _ (Some bs) _ _) = (length bs \<le> MAX_CAPTURE_BYTES)"
| "delivery_small _ = True"

definition items_small :: "bytes list \<Rightarrow> bool" where
  "items_small items \<longleftrightarrow> (\<forall>bs \<in> set items. length bs \<le> MAX_CAPTURE_BYTES)"

lemma delivery_small_fits: "delivery_small k \<Longrightarrow> delivery_fits k"
  by (cases k rule: delivery_small.cases) (simp_all add: MAX_CAPTURE_BYTES_def)

lemma abstract_record_small:
  assumes "abstract_record R d (ph, ck, items) = Some (b, d', (ph', ck', items'))" "delivery_small (delivery_kind d)" "items_small items"
  shows "items_small items'"
  using assms
  by (cases "delivery_kind d" rule: delivery_small.cases)
    (auto simp: abstract_record_def abstract_reset_def abstract_capture_def items_small_def Let_def dest: in_set_dropD split: if_splits option.splits)

lemma cdc_record_hidden:
  assumes laws: "engine_laws E V" and at: "cdc_at V R (ph, ck, items) t" and hidden: "\<not> visible_phase ph" "items_small items"
    and d: "delivery_small (delivery_kind d)" "\<not> publishes (delivery_kind d)" and run: "cdc_record_delivery E R st (t, d) = (Inr b, (t', d'))"
  shows "\<exists>b ph' ck' items'. abstract_record R d (ph, ck, items) = Some (b, d', (ph', ck', items')) \<and> cdc_at V R (ph', ck', items') t' \<and>
    \<not> visible_phase ph' \<and> items_small items'"
proof -
  have "wp (cdc_record_delivery E R st) (\<lambda>b q. \<exists>ph' ck' items'. abstract_record R d (ph, ck, items) = Some (b, snd q, (ph', ck', items')) \<and>
      cdc_at V R (ph', ck', items') (fst q) \<and> \<not> visible_phase ph' \<and> items_small items') (\<lambda>_ _. True) (t, d)"
    by (rule wp_cdc_record [OF laws at delivery_small_fits [OF d(1)]])
      (auto dest: abstract_record_hidden [OF _ hidden(1) d(2)] abstract_record_small [OF _ d(1) hidden(2)])
  then show ?thesis using run by (auto simp: wp_def)
qed

text \<open>The state after a sequence of recorded deliveries.\<close>

fun abstract_all :: "('c, 'e, 'k, 'd, 'b) cdc_runtime \<Rightarrow> 'd source_delivery list \<Rightarrow> capture_state \<Rightarrow> capture_state option" where
  "abstract_all R [] a = Some a"
| "abstract_all R (d # ds) a = (case abstract_record R d a of None \<Rightarrow> None | Some (_, _, a') \<Rightarrow> abstract_all R ds a')"

lemma record_all_hidden:
  assumes laws: "engine_laws E V"
  shows "cdc_at V R (ph, ck, items) t \<Longrightarrow> \<not> visible_phase ph \<Longrightarrow> items_small items \<Longrightarrow>
    \<forall>d \<in> set ds. delivery_small (delivery_kind d) \<and> \<not> publishes (delivery_kind d) \<Longrightarrow> record_all E R st ds t = (Inr (), t') \<Longrightarrow>
    \<exists>ph' ck' items'. abstract_all R ds (ph, ck, items) = Some (ph', ck', items') \<and> cdc_at V R (ph', ck', items') t' \<and>
      \<not> visible_phase ph' \<and> items_small items'"
proof (induction ds arbitrary: ph ck items t)
  case (Cons d ds)
  then obtain b t1 d1 where run: "cdc_record_delivery E R st (t, d) = (Inr b, (t1, d1))" "record_all E R st ds t1 = (Inr (), t')"
    by (auto split: prod.splits sum.splits)
  from Cons.prems have d: "delivery_small (delivery_kind d)" "\<not> publishes (delivery_kind d)" by auto
  obtain b' ph' ck' items' where "abstract_record R d (ph, ck, items) = Some (b', d1, (ph', ck', items'))" "cdc_at V R (ph', ck', items') t1"
      "\<not> visible_phase ph'" "items_small items'"
    using cdc_record_hidden [OF laws Cons.prems(1,2,3) d run(1)] by blast
  then show ?case using Cons.IH [OF _ _ _ _ run(2)] Cons.prems(4) by auto
qed auto

text \<open>Taking what is published, page by page, until nothing is left or \<open>n\<close> pages are taken.\<close>

fun take_published ::
  "'s engine \<Rightarrow> ('c, 'e, 'k, 'd, 'b) cdc_runtime \<Rightarrow> nat \<Rightarrow> ('s transaction, operation_error, bytes list) sem" where
  "take_published E R 0 t = (Inr [], t)"
| "take_published E R (Suc n) t =
     (case fst (cdc_published E R (Write t)) of
        Inl e \<Rightarrow> (Inl e, t)
      | Inr None \<Rightarrow> (Inr [], t)
      | Inr (Some bs) \<Rightarrow>
          (case cdc_consume_published E R t of
             (Inl e, t1) \<Rightarrow> (Inl e, t1)
           | (Inr _, t1) \<Rightarrow> apfst (map_sum id (Cons bs)) (take_published E R n t1)))"

lemma take_published_all:
  assumes laws: "engine_laws E V" "engine_reliable E" and visible: "visible_phase ph"
  shows "cdc_at V R (ph, ck, items) t \<Longrightarrow> items_small items \<Longrightarrow>
    \<exists>t'. take_published E R (Suc (length items)) t = (Inr items, t') \<and> cdc_at V R (ph, ck, []) t'"
proof (induction items arbitrary: t)
  case Nil
  have "wp (cdc_published E R) (\<lambda>v _. v = None) (\<lambda>_ _. False) (Write t)"
    by (rule wp_cdc_published [OF laws(1) Nil(1)]) (use laws(2) in \<open>auto simp: ref_fault_def\<close>)
  then show ?case using Nil by (auto simp: wp_from_result)
next
  case (Cons bs items)
  have small: "length bs \<le> MAX_CAPTURE_BYTES" "items_small items" using Cons.prems(2) by (simp_all add: items_small_def)
  have "wp (cdc_published E R) (\<lambda>v _. v = Some bs) (\<lambda>_ _. False) (Write t)"
    by (rule wp_cdc_published [OF laws(1) Cons.prems(1)]) (use laws(2) visible small in \<open>auto simp: ref_fault_def\<close>)
  moreover have "wp (cdc_consume_published E R) (\<lambda>_ t1. cdc_at V R (ph, ck, items) t1) (\<lambda>_ _. False) t"
    by (rule wp_cdc_consume [OF laws(1) Cons.prems(1)]) (use laws(2) visible in auto)
  ultimately obtain r t1 where "cdc_published E R (Write t) = (Inr (Some bs), r)" "cdc_consume_published E R t = (Inr (), t1)"
      "cdc_at V R (ph, ck, items) t1"
    by (auto simp: wp_from_result)
  then show ?case using Cons.IH [OF _ small(2), of t1] by auto
qed

section \<open>Properties\<close>

text \<open>
  C37: recording a delivery is a step of the abstract state machine: the phase, the checkpoint and the queue change
  together as \<open>abstract_record\<close> says, or the source refuses or fails where the machine does; a failure of the store poisons the
  transaction, so that it leaves nothing behind.
\<close>

theorem cdc_record_refines:
  assumes "engine_laws E V" and "cdc_at V R a t" and "delivery_fits (delivery_kind d)"
  shows "case cdc_record_delivery E R st (t, d) of
      (Inr b, (t', d')) \<Rightarrow> (\<exists>a'. abstract_record R d a = Some (b, d', a') \<and> cdc_at V R a' t')
    | (Inl e, (t', d')) \<Rightarrow> \<not> is_unwind e \<and> (abstract_record R d a = None \<or> poisoned t')"
proof -
  have "wp (cdc_record_delivery E R st) (\<lambda>b q. \<exists>a'. abstract_record R d a = Some (b, snd q, a') \<and> cdc_at V R a' (fst q))
     (\<lambda>e q. \<not> is_unwind e \<and> (abstract_record R d a = None \<or> poisoned (fst q))) (t, d)"
    by (rule wp_cdc_record [OF assms]) (auto simp: queue_failed_def fault_def dest: boxed_queue_failed [unfolded queue_failed_def fault_def])
  then show ?thesis by (auto simp: wp_def split: prod.splits sum.splits)
qed

text \<open>A source on the in-memory engine, with a connector that has nothing to deliver.\<close>

definition sample_cdc :: "(unit, unit, unit, bytes, nat) cdc_runtime" where
  "sample_cdc =
     \<lparr>cdc_source = \<lparr>RESET_REQUIRES_SOURCE_CLEANUP = True, CAPTURE_ACCEPTS_STREAMING = False, STREAMING_TOMBSTONES = False,
        columns = [Field ''id'' Int64 False []], output_projection = [0], engine_name = ''e'', table_topic = ''e.t'',
        snapshot_marker = (\<lambda>_ _. Inr Snapshot), conversion_error = (\<lambda>_. Other ''invalid'' None), start_snapshot = (\<lambda>e. (Inr (), e)),
        start_streaming = (\<lambda>_ e. (Inr (), e)), cleanup_snapshot = (\<lambda>e. (Inr (), e)), restore_checkpoint = (\<lambda>_ _ _. Inr None),
        invalid_state_text = id, runtime_error_text = id, spool_full_text = ''full'', source_codec_error = (\<lambda>_. Other ''invalid'' None)\<rparr>,
      cdc_connector = \<lparr>connector_poll = (\<lambda>q. (Inr None, q)), connector_ack = (\<lambda>_ q. (Inr (), q)), connector_stop = (\<lambda>q. (Inr (), q)),
        take_records = (\<lambda>d. ([], d)), delivery_checkpoint = id\<rparr>,
      cdc_connect = sample_connect, cdc_builder = sample_builder, cdc_schema = sample_schema, cdc_encode_bounded = (\<lambda>_ _. Inr []),
      phase_cell = \<lparr>handle_token = 1, data_id = 3\<rparr>, checkpoint_cell = \<lparr>handle_token = 1, data_id = 4\<rparr>,
      input_queue = \<lparr>handle_token = 1, data_id = 5\<rparr>, spool_capacity = 10000\<rparr>"

definition empty_store :: "mem_view transaction" where
  "empty_store = \<lparr>inner = ([], True), store_token = 1, poisoned = False, has_writes = False\<rparr>"

definition fresh_cdc :: "(unit, unit, unit) cdc_state" where
  "fresh_cdc = \<lparr>next_step = BeginCaptureStep, resume_point = None, connector = None, progress = default_progress,
     pending_progress = None, outside_world = ()\<rparr>"

lemma sample_at: "cdc_at mem_contents sample_cdc (Fresh, None, []) empty_store"
  by (simp add: cdc_at_def cdc_data_def sample_cdc_def empty_store_def queue_rep_def queue_at_def queue_cells_simps queue_fits_def
      mem_contents_def namespace_def fun_eq_iff)

text \<open>An in-memory store that holds a given state of the capture.\<close>

lemma mem_represents: "finite (dom m) \<Longrightarrow> \<exists>xs. map_of xs = m" for m :: "bytes \<rightharpoonup> bytes"
  by (rule exI [of _ "map (\<lambda>k. (k, the (m k))) (sorted_list_of_set (dom m))"])
    (auto simp: map_of_map_restrict restrict_map_def fun_eq_iff dom_def split: if_splits)

lemma finite_queue_cells: "finite (dom (queue_cells h items))"
proof (rule finite_subset)
  show "dom (queue_cells h items) \<subseteq> insert [] {k. set k \<subseteq> UNIV \<and> length k = 8}"
    by (auto simp: queue_cells_def entry_cells_def split: if_splits)
  show "finite (insert [] {k :: bytes. set k \<subseteq> UNIV \<and> length k = 8})" by (simp only: finite_insert) (rule finite_lists_length_eq, simp)
qed

lemma sample_store:
  assumes "total_bytes items < 2 ^ 64" "length items < 2 ^ 64"
  shows "\<exists>t. cdc_at mem_contents sample_cdc (ph, ck, items) t"
proof -
  let ?p = "\<lambda>i. data_prefix i" and ?n = "length (data_prefix 5)"
  define m where "m k = (if k = ?p 3 then map_option u32_to_be (phase_code ph) else if k = ?p 4 then ck
      else if k = ?p 5 @ drop ?n k then queue_cells 0 items (drop ?n k) else None)" for k
  have apart: "?p 5 @ r \<noteq> ?p 3" "?p 5 @ r \<noteq> ?p 4" "?p 4 \<noteq> ?p 3" for r
    using data_prefix_append [of 5 r 3 "[]"] data_prefix_append [of 5 r 4 "[]"] data_prefix_append [of 4 "[]" 3 "[]"] by simp_all
  have "dom m \<subseteq> {?p 3, ?p 4} \<union> (@) (?p 5) ` dom (queue_cells 0 items)"
    by (auto simp: m_def image_iff split: if_splits)
  then have "finite (dom m)" using finite_queue_cells finite_subset by blast
  then obtain xs where xs: "map_of xs = m" using mem_represents by blast
  have "namespace m (?p 5) = queue_cells 0 items" using apart by (simp add: namespace_def m_def fun_eq_iff)
  then have "queue_rep m (?p 5) items" using assms by (auto simp: queue_rep_def queue_at_def queue_fits_def intro!: exI [of _ 0])
  then have "cdc_at mem_contents sample_cdc (ph, ck, items) \<lparr>inner = (xs, True), store_token = 1, poisoned = False, has_writes = False\<rparr>"
    using apart by (simp add: cdc_at_def cdc_data_def sample_cdc_def mem_contents_def xs) (simp add: m_def)
  then show ?thesis by blast
qed

lemma cdc_record_refines_witness:
  "case cdc_record_delivery mem_engine sample_cdc fresh_cdc (empty_store, plain_delivery (Cdc [7] (Some [1, 2]) True False)) of
      (Inr b, (t', d')) \<Rightarrow> b \<and> cdc_at mem_contents sample_cdc (Sealed, Some [7], [[1, 2]]) t'
    | (Inl e, (t', d')) \<Rightarrow> poisoned t'"
proof -
  let ?d = "plain_delivery (Cdc [7] (Some [1, 2]) True False) :: bytes source_delivery"
  have "abstract_record sample_cdc ?d (Fresh, None, []) = Some (True, ?d, (Sealed, Some [7], [[1, 2]]))"
    by (simp add: abstract_record_def abstract_capture_def plain_delivery_def sample_cdc_def)
  moreover have "delivery_fits (delivery_kind ?d)" by (simp add: plain_delivery_def)
  ultimately show ?thesis
    using cdc_record_refines [OF mem_engine_laws sample_at, of ?d fresh_cdc] by (auto split: prod.splits sum.splits)
qed

text \<open>
  C38: what is captured stays hidden until the snapshot is sealed: after any recorded deliveries of which none seals or
  streams, nothing is published and nothing can be consumed. The delivery that seals makes the whole queue visible at once: taking what is
  published yields every page that the state machine has captured so far and its own, in order. It fails only when its page does not fit the spool or in a way
  that poisons the transaction.
\<close>

theorem cdc_hidden_until_sealed:
  assumes "engine_laws E V" "engine_reliable E" and "cdc_at V R (ph, ck, items) t" "\<not> visible_phase ph" "items_small items"
    and "\<forall>d \<in> set ds. delivery_small (delivery_kind d) \<and> \<not> publishes (delivery_kind d)" and "record_all E R st ds t = (Inr (), t')"
    and "delivery_small (Cdc del encoded True False)"
  shows "cdc_published E R (Write t') = (Inr None, Write t') \<and> (\<exists>e. cdc_consume_published E R t' = (Inl e, t')) \<and>
    (\<exists>ph' ck' items'. abstract_all R ds (ph, ck, items) = Some (ph', ck', items') \<and> cdc_at V R (ph', ck', items') t' \<and>
       (let pages = items' @ (case encoded of None \<Rightarrow> [] | Some bs \<Rightarrow> [bs]); ck'' = Some (delivery_checkpoint (cdc_connector R) del) in
        case cdc_record_delivery E R st (t', plain_delivery (Cdc del encoded True False)) of
          (Inr taken, (t'', _)) \<Rightarrow>
            taken \<and> cdc_at V R (Sealed, ck'', pages) t'' \<and>
            (\<exists>t3. take_published E R (Suc (length pages)) t'' = (Inr pages, t3) \<and> cdc_at V R (Sealed, ck'', []) t3)
        | (Inl e, (t'', _)) \<Rightarrow> encoded \<noteq> None \<and> unat (spool_capacity R) < total_bytes pages \<or> poisoned t''))"
proof -
  let ?d = "plain_delivery (Cdc del encoded True False)" and ?ck = "Some (delivery_checkpoint (cdc_connector R) del)"
  obtain ph' ck' items' where all: "abstract_all R ds (ph, ck, items) = Some (ph', ck', items')" and at: "cdc_at V R (ph', ck', items') t'"
      and hidden: "\<not> visible_phase ph'" "items_small items'"
    using record_all_hidden [OF assms(1,3-7)] by blast
  let ?pages = "items' @ (case encoded of None \<Rightarrow> [] | Some bs \<Rightarrow> [bs])"
  have "wp (cdc_published E R) (\<lambda>v r. v = None \<and> r = Write t') (\<lambda>_ _. False) (Write t')"
    by (rule wp_cdc_published [OF assms(1) at]) (use hidden assms(2) in \<open>auto simp: ref_fault_def\<close>)
  then have published: "cdc_published E R (Write t') = (Inr None, Write t')" by (auto simp: wp_from_result)
  have "wp (cdc_consume_published E R) (\<lambda>_ _. False) (\<lambda>_ t''. t'' = t') t'"
    by (rule wp_cdc_consume [OF assms(1) at]) (use hidden assms(2) in auto)
  then have consumed: "\<exists>e. cdc_consume_published E R t' = (Inl e, t')" by (auto simp: wp_from_result)
  have step: "abstract_record R ?d (ph', ck', items') =
      (if encoded \<noteq> None \<and> unat (spool_capacity R) < total_bytes ?pages then None else Some (True, ?d, (Sealed, ?ck, ?pages)))"
    by (auto simp: plain_delivery_def abstract_record_def abstract_capture_def split: option.splits)
  have "wp (cdc_record_delivery E R st) (\<lambda>b q. b \<and> cdc_at V R (Sealed, ?ck, ?pages) (fst q))
      (\<lambda>_ q. encoded \<noteq> None \<and> unat (spool_capacity R) < total_bytes ?pages \<or> poisoned (fst q)) (t', ?d)"
    by (rule wp_cdc_record [OF assms(1) at])
      (use assms(2) delivery_small_fits [OF assms(8)] step in \<open>auto simp: plain_delivery_def queue_failed_def fault_def split: if_splits\<close>)
  moreover have "items_small ?pages" using hidden(2) assms(8) by (auto simp: items_small_def split: option.splits)
  then have "\<exists>t3. take_published E R (Suc (length ?pages)) t'' = (Inr ?pages, t3) \<and> cdc_at V R (Sealed, ?ck, []) t3"
    if "cdc_at V R (Sealed, ?ck, ?pages) t''" for t''
    using take_published_all [OF assms(1,2) _ that] by (simp add: visible_phase_def)
  ultimately show ?thesis
    using all at published consumed unfolding Let_def
    by (intro conjI exI [of _ ph'] exI [of _ ck'] exI [of _ items'])
      (auto simp: wp_def simp del: take_published.simps split: prod.splits sum.splits)
qed

text \<open>A delivery without rows only moves the checkpoint, and the phase when it seals.\<close>

lemma sample_record:
  assumes "cdc_at mem_contents sample_cdc a t"
  shows "\<exists>t'. cdc_record_delivery mem_engine sample_cdc st (t, plain_delivery (Cdc del None sealed False)) =
    (Inr True, (t', plain_delivery (Cdc del None sealed False)))"
proof -
  obtain ph ck items where a: "a = (ph, ck, items)" by (metis prod_cases3)
  have healthy: "\<not> poisoned t" "store_token t = 1" using cdc_atD(1,2) [OF assms [unfolded a]] by (simp_all add: sample_cdc_def)
  show ?thesis
    using healthy
    by (simp add: cdc_record_delivery_def record_kind_def plain_delivery_def beside_def record_capture_def sample_cdc_def sem_bind_def op_store_def
        access_simps cell_set_def vec_value_def u32_value_def sem_lift_def data_put_def mem_engine_def CELL_KEY_def physical_key_def storage_result_def
        record_write_result_def ensure_healthy_def record_result_def ref_poison_on_error_def sem_return_def)
qed

lemma cdc_hidden_until_sealed_witness:
  "\<exists>t t' t''. cdc_at mem_contents sample_cdc (Capturing, Some [7], [[1, 2], [3]]) t \<and>
     record_all mem_engine sample_cdc fresh_cdc [plain_delivery (Cdc [8] None False False)] t = (Inr (), t') \<and>
     cdc_published mem_engine sample_cdc (Write t') = (Inr None, Write t') \<and>
     cdc_record_delivery mem_engine sample_cdc fresh_cdc (t', plain_delivery (Cdc [9] None True False)) =
       (Inr True, (t'', plain_delivery (Cdc [9] None True False))) \<and>
     (\<exists>t3. take_published mem_engine sample_cdc 3 t'' = (Inr [[1, 2], [3]], t3))"
proof -
  let ?d = "plain_delivery (Cdc [8] None False False) :: bytes source_delivery" and ?seal = "plain_delivery (Cdc [9] None True False) :: bytes source_delivery"
  obtain t where t: "cdc_at mem_contents sample_cdc (Capturing, Some [7], [[1, 2], [3]]) t"
    using sample_store [of "[[1, 2], [3]]"] by (auto simp: total_bytes_def)
  obtain t' where t': "cdc_record_delivery mem_engine sample_cdc fresh_cdc (t, ?d) = (Inr True, (t', ?d))" using sample_record [OF t] by blast
  then have run: "record_all mem_engine sample_cdc fresh_cdc [?d] t = (Inr (), t')" by simp
  have hidden: "\<not> visible_phase Capturing" "items_small [[1, 2], [3]]" by (simp_all add: visible_phase_def items_small_def MAX_CAPTURE_BYTES_def)
  have ds: "\<forall>d \<in> set [?d]. delivery_small (delivery_kind d) \<and> \<not> publishes (delivery_kind d)" by (simp add: plain_delivery_def)
  have seal: "delivery_small (Cdc [9] None True False)" by simp
  note sealed = cdc_hidden_until_sealed [OF mem_engine_laws mem_engine_reliable t hidden ds run seal]
  moreover have all: "abstract_all sample_cdc [?d] (Capturing, Some [7], [[1, 2], [3]]) = Some (Capturing, Some [8], [[1, 2], [3]])"
    by (simp add: plain_delivery_def abstract_record_def abstract_capture_def sample_cdc_def)
  ultimately have "cdc_at mem_contents sample_cdc (Capturing, Some [8], [[1, 2], [3]]) t'" by auto
  then obtain t'' where t'': "cdc_record_delivery mem_engine sample_cdc fresh_cdc (t', ?seal) = (Inr True, (t'', ?seal))" using sample_record by blast
  have "cdc_published mem_engine sample_cdc (Write t') = (Inr None, Write t') \<and>
     (\<exists>t3. take_published mem_engine sample_cdc 3 t'' = (Inr [[1, 2], [3]], t3))"
    using sealed by (auto simp: t'' all Let_def eval_nat_numeral simp del: take_published.simps record_all.simps abstract_all.simps)
  then show ?thesis using t run t'' by blast
qed

text \<open>
  C39: any number of rounds of polling, recording and acknowledging keeps the step in memory in agreement with the stored
  phase and never panics; and the stored state always passes the checks of a restart, which continues with the same step,
  except that an unfinished capture is abandoned and reset.
\<close>

theorem cdc_restart_agrees:
  assumes "engine_laws E V" "engine_reliable E" "capture_env_ok R" "session_ok V R q"
  shows "case cdc_rounds E R n q of
      (Inl e, _) \<Rightarrow> \<not> is_unwind e
    | (Inr _, (st, held, t)) \<Rightarrow>
        (\<exists>ph ck items. cdc_at V R (ph, ck, items) t \<and>
           (next_step st = step_of_phase ph \<or> ph = Capturing \<and> next_step st = CaptureStep) \<and>
           (\<forall>st0 k. next_step st0 = Restore \<longrightarrow> restore_checkpoint (cdc_source R) ph ck (items = []) = Inr k \<longrightarrow>
              cdc_restore E R (st0, Write t) = (Inr (), (st0\<lparr>resume_point := k, next_step := step_of_phase ph\<rparr>, Write t))))"
proof -
  have restored: "cdc_restore E R (st0, Write t) = (Inr (), (st0\<lparr>resume_point := k, next_step := step_of_phase ph\<rparr>, Write t))"
    if "cdc_at V R (ph, ck, items) t" "capture_ok R (ph, ck, items)" "next_step st0 = Restore"
      "restore_checkpoint (cdc_source R) ph ck (items = []) = Inr k" for ph ck items t st0 k
  proof -
    have "wp (read_capture E R) (\<lambda>x r. x = (ph, k) \<and> r = Write t) (\<lambda>_ _. False) (Write t)"
      by (rule wp_read_capture [OF assms(1) that(1,2)]) (use that(4) assms(2) in \<open>auto simp: ref_fault_def\<close>)
    then show ?thesis using that(3) by (auto simp: cdc_restore_def wp_from_result)
  qed
  have step: "next_step st = step_of_phase ph \<or> ph = Capturing \<and> next_step st = CaptureStep" if "in_step ph (next_step st)" for ph st
    using that by (cases ph) auto
  show ?thesis
    using wp_cdc_rounds [OF assms(1,3,4), of n] step restored
    by (simp add: wp_def session_ok_def split: prod.splits sum.splits) blast
qed

lemma cdc_restart_agrees_witness:
  "capture_env_ok sample_cdc \<and> session_ok mem_contents sample_cdc (fresh_cdc, None, empty_store) \<and>
   (case cdc_rounds mem_engine sample_cdc 3 (fresh_cdc, None, empty_store) of
      (Inl e, _) \<Rightarrow> \<not> is_unwind e
    | (Inr _, (st, held, t)) \<Rightarrow> next_step st \<noteq> Restore)"
proof -
  have env: "capture_env_ok sample_cdc"
    by (simp add: capture_env_ok_def sample_cdc_def shape_ok_def panics_def panic_free_def)
  have ok: "session_ok mem_contents sample_cdc (fresh_cdc, None, empty_store)"
    using sample_at by (auto simp: session_ok_def capture_ok_def fresh_cdc_def intro!: exI [of _ Fresh] exI [of _ None] exI [of _ "[]"])
  have "step_of_phase ph \<noteq> Restore" for ph by (cases ph) simp_all
  then show ?thesis
    using cdc_restart_agrees [OF mem_engine_laws mem_engine_reliable env ok, of 3] env ok
    by (auto split: prod.splits sum.splits)
qed

text \<open>
  C40: an abandoned capture of any length is erased. A source that restarts on a stored capture or reset passes the checks; where the
  capture had begun, its first poll cleans up the snapshot at the source if that is required, and a failure to do so is reported and
  leaves the store and the step, so that it is tried again. Otherwise a batch of entries is removed in each round, and after exactly as many
  rounds as there are batches (at least one) the queue, the checkpoint and the phase are gone and the source is ready to begin anew.
\<close>

theorem cdc_reset_ends:
  assumes "engine_laws E V" "engine_reliable E" and "cdc_at V R (ph, ck, items) t" "capture_ok R (ph, ck, items)" "ph = Capturing \<or> ph = Resetting"
    and "restore_checkpoint (cdc_source R) ph ck (items = []) = Inr k" "next_step st = Restore" "connector st = None"
    and "cleanup = (if ph = Capturing \<and> RESET_REQUIRES_SOURCE_CLEANUP (cdc_source R)
      then cleanup_snapshot (cdc_source R) (outside_world st) else (Inr (), outside_world st))"
  shows "\<exists>st1. cdc_restore E R (st, Write t) = (Inr (), (st1, Write t)) \<and>
    (case cleanup of
       (Inl e, w) \<Rightarrow> cdc_round E R (st1, None, t) = (Inl e, (st1\<lparr>outside_world := w\<rparr>, None, t))
     | (Inr _, w) \<Rightarrow>
         (\<exists>t'. cdc_rounds E R (Suc ((length items - 1) div RESET_BATCH_ENTRIES)) (st1, None, t) =
            (Inr (), (st\<lparr>next_step := BeginCaptureStep, resume_point := None, progress := default_progress, outside_world := w\<rparr>, None, t')) \<and>
          cdc_at V R (Fresh, None, []) t'))"
proof -
  let ?st = "st\<lparr>resume_point := k, next_step := step_of_phase ph\<rparr>"
  have "wp (read_capture E R) (\<lambda>x r. x = (ph, k) \<and> r = Write t) (\<lambda>_ _. False) (Write t)"
    by (rule wp_read_capture [OF assms(1,3,4)]) (use assms(2,6) in \<open>auto simp: ref_fault_def\<close>)
  then have restored: "cdc_restore E R (st, Write t) = (Inr (), (?st, Write t))"
    using assms(7) by (auto simp: cdc_restore_def wp_from_result)
  obtain res w where cleanup: "cleanup = (res, w)" by fastforce
  then have clean: "ph = Capturing \<Longrightarrow> RESET_REQUIRES_SOURCE_CLEANUP (cdc_source R) \<Longrightarrow> cleanup_snapshot (cdc_source R) (outside_world st) = (res, w)"
      "ph \<noteq> Capturing \<or> \<not> RESET_REQUIRES_SOURCE_CLEANUP (cdc_source R) \<Longrightarrow> res = Inr () \<and> w = outside_world st"
    using assms(9) by auto
  show ?thesis
  proof (cases res)
    case (Inl e)
    then have poll: "cdc_poll R ?st = (Inl e, ?st\<lparr>outside_world := w\<rparr>)"
      using assms(8) clean
      by (cases st; cases "ph = Capturing"; cases "RESET_REQUIRES_SOURCE_CLEANUP (cdc_source R)") (auto simp: cdc_poll_def stop_connector_def sem_bind_def sem_return_def modify_state_def in_outside_def split: if_splits)
    show ?thesis using restored Inl cleanup by (auto simp: cdc_round_def poll)
  next
    case (Inr u)
    have poll: "cdc_poll R ?st = (Inr (Some (plain_delivery Reset)), ?st\<lparr>outside_world := w\<rparr>)"
      using assms(5,8) clean Inr
      by (cases st; cases "RESET_REQUIRES_SOURCE_CLEANUP (cdc_source R)") (auto simp: cdc_poll_def stop_connector_def sem_bind_def sem_return_def modify_state_def in_outside_def split: if_splits)
    obtain t1 where round: "\<And>st st1. cdc_poll R st = (Inr (Some (plain_delivery Reset)), st1) \<Longrightarrow> cdc_round E R (st, None, t) =
       (Inr (), (st1\<lparr>next_step := (if fst (abstract_reset (ph, ck, items)) then BeginCaptureStep else ResetStep), resume_point := None,
          progress := default_progress\<rparr>, None, t1))"
      using cdc_reset_record [OF assms(1-3)] by metis
    have same: "cdc_round E R (?st, None, t) = cdc_round E R (?st\<lparr>next_step := ResetStep, outside_world := w\<rparr>, None, t)"
      using round [OF poll] round [OF poll_reset, of "?st\<lparr>next_step := ResetStep, outside_world := w\<rparr>"] by simp
    obtain t' where "cdc_rounds E R (Suc ((length items - 1) div RESET_BATCH_ENTRIES)) (?st\<lparr>next_step := ResetStep, outside_world := w\<rparr>, None, t) =
        (Inr (), (?st\<lparr>outside_world := w, next_step := BeginCaptureStep, resume_point := None, progress := default_progress\<rparr>, None, t'))"
      "cdc_at V R (Fresh, None, []) t'"
      using cdc_resets [OF assms(1-3) _ refl, of "?st\<lparr>next_step := ResetStep, outside_world := w\<rparr>"] by auto
    then show ?thesis using restored Inr cleanup same by (auto simp: sem_bind_def)
  qed
qed

lemma cdc_reset_ends_witness:
  "\<exists>t st1 t'. cdc_at mem_contents sample_cdc (Capturing, Some [7], replicate 300 [1]) t \<and>
     cdc_restore mem_engine sample_cdc (fresh_cdc\<lparr>next_step := Restore\<rparr>, Write t) = (Inr (), (st1, Write t)) \<and>
     cdc_rounds mem_engine sample_cdc 2 (st1, None, t) = (Inr (), (fresh_cdc, None, t')) \<and> cdc_at mem_contents sample_cdc (Fresh, None, []) t'"
proof -
  have bytes: "total_bytes (replicate 300 [1]) = 2700" by (simp add: total_bytes_def sum_list_replicate)
  then obtain t where t: "cdc_at mem_contents sample_cdc (Capturing, Some [7], replicate 300 [1]) t"
    using sample_store [of "replicate 300 [1]"] by auto
  have ok: "capture_ok sample_cdc (Capturing, Some [7], replicate 300 [1])"
    using bytes by (simp add: capture_ok_def sample_cdc_def MAX_CAPTURE_BYTES_def)
  have restore: "restore_checkpoint (cdc_source sample_cdc) Capturing (Some [7]) (replicate 300 ([1] :: bytes) = []) = Inr None"
    by (simp add: sample_cdc_def)
  have two: "Suc ((length (replicate 300 ([1] :: bytes)) - 1) div RESET_BATCH_ENTRIES) = 2" by (simp add: RESET_BATCH_ENTRIES_def)
  show ?thesis
    using cdc_reset_ends [where cleanup = "(Inr (), ())" and st = "fresh_cdc\<lparr>next_step := Restore\<rparr>",
        OF mem_engine_laws mem_engine_reliable t ok _ restore, unfolded two] t
    by (auto simp: fresh_cdc_def sample_cdc_def simp del: cdc_rounds.simps)
qed

end
