(* ===== verification/Change_Projection.thy ===== *)
theory Change_Projection
  imports Change_Core
begin

text \<open>
  Projections of changes to some of their columns: \<^verbatim>\<open>crates/change/src/projection.rs\<close> and \<^verbatim>\<open>Change::try_project\<close>.
  Strictly increasing indices, as many as there are fields, are all of them, which justifies the shortcut that clones.
\<close>

text \<open>
  \<^verbatim>\<open>Schema::project\<close> and \<^verbatim>\<open>RecordBatch::project\<close> are Arrow's: the arguments \<open>project_schema\<close> and \<open>project_batch\<close>.
\<close>

record change_projection =
  input_schema :: schema
  output_schema :: schema
  field_indices :: "nat list"

datatype projection_error =
    ProjectionSchema schema_error
  | FieldOutOfBounds nat nat
  | FieldsNotStrictlyIncreasing nat nat
  | ProjectionSchemaMismatch
  | ProjectionArrow string

fun check_indices :: "nat \<Rightarrow> nat option \<Rightarrow> nat list \<Rightarrow> projection_error + unit" where
  "check_indices field_count previous [] = Inr ()"
| "check_indices field_count previous (current # rest) =
     (if current \<ge> field_count then Inl (FieldOutOfBounds current field_count)
      else (case previous of
        Some p \<Rightarrow> if current \<le> p then Inl (FieldsNotStrictlyIncreasing p current) else check_indices field_count (Some current) rest
      | None \<Rightarrow> check_indices field_count (Some current) rest))"

definition projection_try_new ::
  "(schema \<Rightarrow> nat list \<Rightarrow> string + schema) \<Rightarrow> schema \<Rightarrow> nat list \<Rightarrow> projection_error + change_projection" where
  "projection_try_new project_schema s indices =
     (case validate_schema s of
        Inl e \<Rightarrow> Inl (ProjectionSchema e)
      | Inr _ \<Rightarrow>
          (case check_indices (length (schema_fields s)) None indices of
             Inl e \<Rightarrow> Inl e
           | Inr _ \<Rightarrow>
               (case project_schema s indices of
                  Inl m \<Rightarrow> Inl (ProjectionArrow m)
                | Inr out \<Rightarrow> Inr \<lparr>input_schema = s, output_schema = out, field_indices = indices\<rparr>)))"

definition require_schema :: "change_projection \<Rightarrow> schema \<Rightarrow> projection_error + unit" where
  "require_schema p actual = (if input_schema p = actual then Inr () else Inl ProjectionSchemaMismatch)"

definition is_identity :: "change_projection \<Rightarrow> bool" where
  "is_identity p \<longleftrightarrow> length (field_indices p) = length (schema_fields (input_schema p))"

definition try_project ::
  "('b \<Rightarrow> schema) \<Rightarrow> ('b \<Rightarrow> nat list \<Rightarrow> string + 'b) \<Rightarrow> change_projection \<Rightarrow> 'b change \<Rightarrow> projection_error + 'b change" where
  "try_project schema_of project_batch p c =
     (case require_schema p (schema_of (records c)) of
        Inl e \<Rightarrow> Inl e
      | Inr _ \<Rightarrow>
          if is_identity p then Inr c
          else map_sum ProjectionArrow (\<lambda>b. \<lparr>records = b, diffs = diffs c\<rparr>) (project_batch (records c) (field_indices p)))"

text \<open>A strictly increasing list of as many indices as there are fields is all of them, so that cloning is projecting.\<close>

lemma check_indices_sorted:
  "check_indices n prev is = Inr () \<longleftrightarrow>
     sorted_wrt (<) is \<and> (\<forall>i \<in> set is. i < n) \<and> (\<forall>p. prev = Some p \<longrightarrow> (\<forall>i \<in> set is. p < i))"
  by (induction n prev "is" rule: check_indices.induct) (auto split: option.splits)

lemma identity_indices:
  assumes "projection_try_new project_schema s indices = Inr p" "is_identity p"
  shows "field_indices p = [0..<length (schema_fields s)]"
proof -
  let ?n = "length (schema_fields s)"
  have p: "field_indices p = indices" "input_schema p = s" and idx: "check_indices ?n None indices = Inr ()"
    using assms(1) by (auto simp: projection_try_new_def split: sum.splits)
  then have sorted: "sorted_wrt (<) indices" "set indices \<subseteq> {0..<?n}" by (auto simp: check_indices_sorted)
  then have "card (set indices) = ?n"
    using assms(2) p by (simp add: is_identity_def strict_sorted_iff distinct_card)
  then have "set indices = {0..<?n}" using sorted(2) by (intro card_subset_eq) auto
  then show ?thesis using sorted(1) p(1) by (intro strict_sorted_equal) auto
qed

end
