(* ===== verification/Relation_Row.thy ===== *)
theory Relation_Row
  imports Operation_Core
begin

text \<open>
  The identity of a row: \<^verbatim>\<open>crates/operation/src/operation/relation/row.rs\<close>.

  Stateful operations identify a row by its canonical bytes. The encoder walks Arrow arrays along the fields of a schema, under a
  limit on the bytes; a second walk computes the size in advance and takes a shortcut for lists whose items have one size; the
  decoder checks every byte and accounts for the memory before it appends to Arrow builders.

  Arrow is a parameter: \<open>'a arrays\<close> are the accessors of an array that the code calls, and \<open>arrays_laws\<close> what Arrow documents of
  them. A primitive value is the number of its bit pattern. A builder is the tree of what was appended to it. The arms of the code's
  matches on \<^verbatim>\<open>DataType\<close> fall into the groups of \<open>classify\<close>: null, Boolean, fixed width, variable width, list and struct.
\<close>

section \<open>Definitions\<close>

datatype row_error =
    RowSchemaMismatch
  | RowOutOfBounds nat nat
  | ArrayTypeMismatch string data_type data_type
  | UnexpectedNull string
  | LengthOverflow
  | SizeLimit nat
  | Truncated
  | InvalidNullMarker
  | InvalidBoolean
  | InvalidUtf8
  | TrailingBytes
  | InvalidValue
  | RowPanic string

record 'a arrays =
  array_type :: "'a \<Rightarrow> data_type"
  array_len :: "'a \<Rightarrow> nat"
  array_is_null :: "'a \<Rightarrow> nat \<Rightarrow> bool"
  null_count :: "'a \<Rightarrow> nat"
  bool_at :: "'a \<Rightarrow> nat \<Rightarrow> bool"
  bits_at :: "'a \<Rightarrow> nat \<Rightarrow> nat"
  bytes_at :: "'a \<Rightarrow> nat \<Rightarrow> bytes"
  list_at :: "'a \<Rightarrow> nat \<Rightarrow> 'a"
  struct_columns :: "'a \<Rightarrow> 'a list"
  primitive_width :: "data_type \<Rightarrow> nat option"
  from_utf8 :: "bytes \<Rightarrow> bool"

record ('a, 'b) columnar =
  columnar_arrow :: "'b arrow"
  batch_arrays :: "'b \<Rightarrow> 'a list"
  arrays :: "'a arrays"

type_synonym 't row_op = "('t, row_error, unit) sem"

primrec for_each :: "('x \<Rightarrow> ('t, 'e, unit) sem) \<Rightarrow> 'x list \<Rightarrow> ('t, 'e, unit) sem" where
  "for_each f [] = sem_return ()"
| "for_each f (x # xs) = sem_bind (f x) (\<lambda>_. for_each f xs)"

primrec repeat :: "nat \<Rightarrow> ('t, 'e, unit) sem \<Rightarrow> ('t, 'e, unit) sem" where
  "repeat 0 m = sem_return ()"
| "repeat (Suc n) m = sem_bind m (\<lambda>_. repeat n m)"

subsection \<open>Encoding\<close>

definition require_capacity :: "bytes \<Rightarrow> nat \<Rightarrow> nat option \<Rightarrow> row_error + unit" where
  "require_capacity out additional limit =
     (case checked_add_usize (length out) additional of
        None \<Rightarrow> Inl LengthOverflow
      | Some reached \<Rightarrow>
          (case limit of
             None \<Rightarrow> Inr ()
           | Some m \<Rightarrow> if reached > m then Inl (SizeLimit m) else Inr ()))"

definition append_bytes :: "bytes \<Rightarrow> nat option \<Rightarrow> bytes row_op" where
  "append_bytes bs limit out =
     (case require_capacity out (length bs) limit of Inl e \<Rightarrow> (Inl e, out) | Inr _ \<Rightarrow> (Inr (), out @ bs))"

definition push_byte :: "byte \<Rightarrow> nat option \<Rightarrow> bytes row_op" where
  "push_byte b limit out =
     (case require_capacity out 1 limit of Inl e \<Rightarrow> (Inl e, out) | Inr _ \<Rightarrow> (Inr (), out @ [b]))"

definition encode_length :: "nat \<Rightarrow> nat option \<Rightarrow> bytes row_op" where
  "encode_length n limit = (if n > u64_max then sem_throw LengthOverflow else append_bytes (be_of_nat 8 n) limit)"

definition encode_bytes :: "bytes \<Rightarrow> nat option \<Rightarrow> bytes row_op" where
  "encode_bytes bs limit = sem_bind (encode_length (length bs) limit) (\<lambda>_. append_bytes bs limit)"

lemma classify_size:
  "classify dt = Some (ListLayout child) \<Longrightarrow> dt = List_Type child"
  "classify dt = Some (StructLayout children) \<Longrightarrow> dt = Struct_Type children"
  by (cases dt; simp)+

text \<open>\<open>encode_children\<close> is the loop over the columns of a struct.\<close>

function (sequential) encode_canonical_inner ::
    "'a arrays \<Rightarrow> nat option \<Rightarrow> field \<Rightarrow> 'a \<Rightarrow> nat \<Rightarrow> string list \<Rightarrow> bytes row_op"
  and encode_children :: "'a arrays \<Rightarrow> nat option \<Rightarrow> field list \<Rightarrow> 'a list \<Rightarrow> nat \<Rightarrow> string list \<Rightarrow> bytes row_op" where
  "encode_canonical_inner A limit (Field name dt nl md) a i path =
     (if array_type A a \<noteq> dt then sem_throw (ArrayTypeMismatch (join_path path) dt (array_type A a))
      else if i \<ge> array_len A a then sem_throw (RowOutOfBounds i (array_len A a))
      else if dt = Null \<or> array_is_null A a i then
        (if \<not> nl \<and> dt \<noteq> Null then sem_throw (UnexpectedNull (join_path path)) else push_byte 0 limit)
      else
        sem_bind (push_byte 1 limit) (\<lambda>_.
          case classify dt of
            None \<Rightarrow> sem_throw (ArrayTypeMismatch (join_path path) dt (array_type A a))
          | Some NullLayout \<Rightarrow> sem_throw (RowPanic ''null values are handled above'')
          | Some Bitmap \<Rightarrow> push_byte (if bool_at A a i then 1 else 0) limit
          | Some (FixedWidth w) \<Rightarrow> append_bytes (be_of_nat w (bits_at A a i)) limit
          | Some VariableWidth \<Rightarrow> encode_bytes (bytes_at A a i) limit
          | Some (ListLayout child) \<Rightarrow>
              (let vs = list_at A a i in
               sem_bind (encode_length (array_len A vs) limit) (\<lambda>_.
               sem_bind (\<lambda>out. (require_capacity out (array_len A vs) limit, out)) (\<lambda>_.
               for_each (\<lambda>j. encode_canonical_inner A limit child vs j (path @ [field_name child])) [0..<array_len A vs])))
          | Some (StructLayout children) \<Rightarrow> encode_children A limit children (struct_columns A a) i path))"
| "encode_children A limit (f # fs) (c # cs) i path =
     sem_bind (encode_canonical_inner A limit f c i (path @ [field_name f])) (\<lambda>_. encode_children A limit fs cs i path)"
| "encode_children A limit _ _ i path = sem_return ()"
  by pat_completeness auto

termination
  by (relation "measure (\<lambda>x. case x of Inl (_, _, f, _) \<Rightarrow> 2 * size f | Inr (_, _, fs, _) \<Rightarrow> Suc (2 * size_list size fs))")
    (auto dest!: classify_size)

definition encode_canonical :: "'a arrays \<Rightarrow> field \<Rightarrow> 'a \<Rightarrow> nat \<Rightarrow> string \<Rightarrow> bytes row_op" where
  "encode_canonical A f a i path = encode_canonical_inner A None f a i [path]"

definition encode_canonical_bounded :: "'a arrays \<Rightarrow> field \<Rightarrow> 'a \<Rightarrow> nat \<Rightarrow> string \<Rightarrow> nat \<Rightarrow> bytes row_op" where
  "encode_canonical_bounded A f a i path limit = encode_canonical_inner A (Some limit) f a i [path]"

definition canonical_row_bounded :: "('a, 'b) columnar \<Rightarrow> 'b \<Rightarrow> nat \<Rightarrow> nat \<Rightarrow> row_error + bytes" where
  "canonical_row_bounded T b i limit =
     (if i \<ge> batch_rows (columnar_arrow T) b then Inl (RowOutOfBounds i (batch_rows (columnar_arrow T) b))
      else (case for_each (\<lambda>(f, a). encode_canonical_inner (arrays T) (Some limit) f a i [field_name f])
          (zip (schema_fields (batch_schema (columnar_arrow T) b)) (batch_arrays T b)) [] of
        (Inl e, _) \<Rightarrow> Inl e
      | (Inr _, out) \<Rightarrow> Inr out))"

subsection \<open>Sizes\<close>

definition add_size :: "nat \<Rightarrow> nat \<Rightarrow> nat row_op" where
  "add_size additional limit sz =
     (case checked_add_usize sz additional of
        None \<Rightarrow> (Inl LengthOverflow, sz)
      | Some reached \<Rightarrow> if reached > limit then (Inl (SizeLimit limit), sz) else (Inr (), reached))"

fun fixed_canonical_width :: "data_type \<Rightarrow> nat option" where
  "fixed_canonical_width dt =
     (case classify dt of Some Bitmap \<Rightarrow> Some 1 | Some (FixedWidth w) \<Rightarrow> Some w | _ \<Rightarrow> None)"

text \<open>The common size of the values of an array, if they have one; \<open>constant_children\<close> is the fold over the columns of a struct.\<close>

function (sequential) constant_canonical_size :: "'a arrays \<Rightarrow> field \<Rightarrow> 'a \<Rightarrow> nat option"
  and constant_children :: "'a arrays \<Rightarrow> field list \<Rightarrow> 'a list \<Rightarrow> nat \<Rightarrow> nat option" where
  "constant_canonical_size A (Field name dt nl md) a =
     (if array_type A a \<noteq> dt then None
      else if dt = Null then Some 1
      else
        (case (case fixed_canonical_width dt of
            Some w \<Rightarrow> Some (w + 1)
          | None \<Rightarrow>
              (case classify dt of
                 Some (StructLayout children) \<Rightarrow> constant_children A children (struct_columns A a) 1
               | _ \<Rightarrow> None)) of
           None \<Rightarrow> None
         | Some value_size \<Rightarrow> if null_count A a = 0 \<or> value_size = 1 then Some value_size else None))"
| "constant_children A (f # fs) (c # cs) sz =
     (case constant_canonical_size A f c of
        None \<Rightarrow> None
      | Some k \<Rightarrow> (case checked_add_usize sz k of None \<Rightarrow> None | Some total' \<Rightarrow> constant_children A fs cs total'))"
| "constant_children A _ _ sz = Some sz"
  by pat_completeness auto

termination
  by (relation "measure (\<lambda>x. case x of Inl (_, f, _) \<Rightarrow> 2 * size f | Inr (_, fs, _) \<Rightarrow> Suc (2 * size_list size fs))")
    (auto dest!: classify_size)

function (sequential) canonical_size_inner ::
    "'a arrays \<Rightarrow> nat \<Rightarrow> field \<Rightarrow> 'a \<Rightarrow> nat \<Rightarrow> string list \<Rightarrow> nat row_op"
  and canonical_size_children :: "'a arrays \<Rightarrow> nat \<Rightarrow> field list \<Rightarrow> 'a list \<Rightarrow> nat \<Rightarrow> string list \<Rightarrow> nat row_op" where
  "canonical_size_inner A limit (Field name dt nl md) a i path =
     (if array_type A a \<noteq> dt then sem_throw (ArrayTypeMismatch (join_path path) dt (array_type A a))
      else if i \<ge> array_len A a then sem_throw (RowOutOfBounds i (array_len A a))
      else if dt = Null \<or> array_is_null A a i then
        (if \<not> nl \<and> dt \<noteq> Null then sem_throw (UnexpectedNull (join_path path)) else add_size 1 limit)
      else
        sem_bind (add_size 1 limit) (\<lambda>_.
          case fixed_canonical_width dt of
            Some w \<Rightarrow> add_size w limit
          | None \<Rightarrow>
              (case classify dt of
                 Some NullLayout \<Rightarrow> sem_throw (RowPanic ''null values are handled above'')
               | Some VariableWidth \<Rightarrow>
                   sem_bind (add_size 8 limit) (\<lambda>_. add_size (length (bytes_at A a i)) limit)
               | Some (ListLayout child) \<Rightarrow>
                   (let vs = list_at A a i in
                    sem_bind (add_size 8 limit) (\<lambda>_ sz.
                      if sz > limit then (Inl (RowPanic ''attempt to subtract with overflow''), sz)
                      else if array_len A vs > limit - sz then (Inl (SizeLimit limit), sz)
                      else
                        (case constant_canonical_size A child vs of
                           Some k \<Rightarrow>
                             if array_len A vs * k > usize_max then (Inl LengthOverflow, sz)
                             else add_size (array_len A vs * k) limit sz
                         | None \<Rightarrow>
                             for_each (\<lambda>j. canonical_size_inner A limit child vs j (path @ [field_name child])) [0..<array_len A vs] sz)))
               | Some (StructLayout children) \<Rightarrow> canonical_size_children A limit children (struct_columns A a) i path
               | _ \<Rightarrow> sem_throw (ArrayTypeMismatch (join_path path) dt (array_type A a)))))"
| "canonical_size_children A limit (f # fs) (c # cs) i path =
     sem_bind (canonical_size_inner A limit f c i (path @ [field_name f])) (\<lambda>_. canonical_size_children A limit fs cs i path)"
| "canonical_size_children A limit _ _ i path = sem_return ()"
  by pat_completeness auto

termination
  by (relation "measure (\<lambda>x. case x of Inl (_, _, f, _) \<Rightarrow> 2 * size f | Inr (_, _, fs, _) \<Rightarrow> Suc (2 * size_list size fs))")
    (auto dest!: classify_size)

definition canonical_row_size_bounded :: "('a, 'b) columnar \<Rightarrow> 'b \<Rightarrow> nat \<Rightarrow> nat \<Rightarrow> row_error + nat" where
  "canonical_row_size_bounded T b i limit =
     (if i \<ge> batch_rows (columnar_arrow T) b then Inl (RowOutOfBounds i (batch_rows (columnar_arrow T) b))
      else (case for_each (\<lambda>(f, a). canonical_size_inner (arrays T) limit f a i [field_name f])
          (zip (schema_fields (batch_schema (columnar_arrow T) b)) (batch_arrays T b)) 0 of
        (Inl e, _) \<Rightarrow> Inl e
      | (Inr _, sz) \<Rightarrow> Inr sz))"

section \<open>The values of a row\<close>

datatype cell_value =
    VNull
  | VBool bool
  | VBits nat nat
  | VBytes bytes
  | VList "cell_value list"
  | VStruct "cell_value list"

text \<open>The canonical bytes of a value.\<close>

fun value_bytes :: "cell_value \<Rightarrow> bytes" where
  "value_bytes VNull = [0]"
| "value_bytes (VBool b) = [1, if b then 1 else 0]"
| "value_bytes (VBits w n) = 1 # be_of_nat w n"
| "value_bytes (VBytes bs) = 1 # be_of_nat 8 (length bs) @ bs"
| "value_bytes (VList vs) = 1 # be_of_nat 8 (length vs) @ concat (map value_bytes vs)"
| "value_bytes (VStruct vs) = 1 # concat (map value_bytes vs)"

text \<open>The value at a position of an array.\<close>

function (sequential) value_at :: "'a arrays \<Rightarrow> field \<Rightarrow> 'a \<Rightarrow> nat \<Rightarrow> cell_value"
  and values_at :: "'a arrays \<Rightarrow> field list \<Rightarrow> 'a list \<Rightarrow> nat \<Rightarrow> cell_value list" where
  "value_at A (Field name dt nl md) a i =
     (if dt = Null \<or> array_is_null A a i then VNull
      else
        (case classify dt of
           Some Bitmap \<Rightarrow> VBool (bool_at A a i)
         | Some (FixedWidth w) \<Rightarrow> VBits w (bits_at A a i)
         | Some VariableWidth \<Rightarrow> VBytes (bytes_at A a i)
         | Some (ListLayout child) \<Rightarrow> VList (map (value_at A child (list_at A a i)) [0..<array_len A (list_at A a i)])
         | Some (StructLayout children) \<Rightarrow> VStruct (values_at A children (struct_columns A a) i)
         | _ \<Rightarrow> VNull))"
| "values_at A (f # fs) (c # cs) i = value_at A f c i # values_at A fs cs i"
| "values_at A _ _ i = []"
  by pat_completeness auto

termination
  by (relation "measure (\<lambda>x. case x of Inl (_, f, _) \<Rightarrow> 2 * size f | Inr (_, fs, _) \<Rightarrow> Suc (2 * size_list size fs))")
    (auto dest!: classify_size)

text \<open>What Arrow documents of its arrays: \<open>ok\<close> are the arrays that its constructors admit.\<close>

definition no_nulls :: "'a arrays \<Rightarrow> 'a \<Rightarrow> bool" where
  "no_nulls A a \<longleftrightarrow> (\<forall>i < array_len A a. \<not> array_is_null A a i)"

definition list_law :: "'a arrays \<Rightarrow> ('a \<Rightarrow> bool) \<Rightarrow> 'a \<Rightarrow> field \<Rightarrow> bool" where
  "list_law A ok a child \<longleftrightarrow>
     (\<forall>i < array_len A a. ok (list_at A a i) \<and> array_type A (list_at A a i) = field_type child \<and>
        (nullable child \<or> no_nulls A (list_at A a i)))"

definition struct_law :: "'a arrays \<Rightarrow> ('a \<Rightarrow> bool) \<Rightarrow> 'a \<Rightarrow> field list \<Rightarrow> bool" where
  "struct_law A ok a children \<longleftrightarrow>
     list_all2 (\<lambda>f c. ok c \<and> array_type A c = field_type f \<and> array_len A c = array_len A a \<and>
       (nullable f \<or> (\<forall>i < array_len A a. array_is_null A a i \<or> \<not> array_is_null A c i))) children (struct_columns A a)"

definition arrays_laws :: "'a arrays \<Rightarrow> ('a \<Rightarrow> bool) \<Rightarrow> bool" where
  "arrays_laws A ok \<longleftrightarrow>
     (\<forall>a. ok a \<longrightarrow>
        array_len A a \<le> u64_max \<and> (null_count A a = 0 \<longleftrightarrow> no_nulls A a) \<and>
        (\<forall>i. length (bytes_at A a i) \<le> u64_max) \<and> (array_type A a = Utf8 \<longrightarrow> (\<forall>i. from_utf8 A (bytes_at A a i))) \<and>
        (\<forall>w i. classify (array_type A a) = Some (FixedWidth w) \<longrightarrow> bits_at A a i < 256 ^ w) \<and>
        (\<forall>child. array_type A a = List_Type child \<longrightarrow> list_law A ok a child) \<and>
        (\<forall>children. array_type A a = Struct_Type children \<longrightarrow> struct_law A ok a children)) \<and>
     (\<forall>dt w. classify dt = Some (FixedWidth w) \<longrightarrow> primitive_width A dt = Some w)"

section \<open>Encoding and sizing under a limit\<close>

definition within :: "nat option \<Rightarrow> nat \<Rightarrow> bool" where
  "within limit n \<longleftrightarrow> n \<le> usize_max \<and> (case limit of None \<Rightarrow> True | Some m \<Rightarrow> n \<le> m)"

fun is_limit :: "row_error \<Rightarrow> bool" where
  "is_limit (SizeLimit _) = True"
| "is_limit LengthOverflow = True"
| "is_limit _ = False"

text \<open>
  A computation that appends bytes to an output, or fails because the limit does not admit them. The output is either the bytes
  themselves or their number.
\<close>

definition appends ::
  "('t \<Rightarrow> bytes \<Rightarrow> 't) \<Rightarrow> ('t \<Rightarrow> nat) \<Rightarrow> nat option \<Rightarrow> 't row_op \<Rightarrow> bytes \<Rightarrow> bool" where
  "appends put len limit m bs \<longleftrightarrow>
     (\<forall>t. within limit (len t) \<longrightarrow>
        wp m (\<lambda>_ t'. t' = put t bs \<and> within limit (len t + length bs))
          (\<lambda>e _. \<not> within limit (len t + length bs) \<and> is_limit e) t)"

lemma within_mono: "within limit n \<Longrightarrow> m \<le> n \<Longrightarrow> within limit m"
  by (auto simp: within_def split: option.splits)

locale row_output =
  fixes put :: "'t \<Rightarrow> bytes \<Rightarrow> 't" and len :: "'t \<Rightarrow> nat"
  assumes put_Nil: "put t [] = t" and put_append: "put (put t a) b = put t (a @ b)" and len_put: "len (put t a) = len t + length a"
begin

lemma appends_return: "appends put len limit (sem_return ()) []"
  by (simp add: appends_def put_Nil)

lemma appends_bind:
  assumes "appends put len limit m a" "appends put len limit n b"
  shows "appends put len limit (sem_bind m (\<lambda>_. n)) (a @ b)"
  unfolding appends_def wp_bind
proof (intro allI impI)
  fix t assume "within limit (len t)"
  then have "wp m (\<lambda>_ t'. t' = put t a \<and> within limit (len t + length a)) (\<lambda>e _. \<not> within limit (len t + length a) \<and> is_limit e) t"
    using assms(1) by (simp add: appends_def)
  then show "wp m (\<lambda>_. wp n (\<lambda>_ t'. t' = put t (a @ b) \<and> within limit (len t + length (a @ b)))
       (\<lambda>e _. \<not> within limit (len t + length (a @ b)) \<and> is_limit e))
     (\<lambda>e _. \<not> within limit (len t + length (a @ b)) \<and> is_limit e) t"
    using assms(2) [unfolded appends_def, rule_format, of "put t a"]
    by (elim wp_mono) (auto simp: len_put put_append add.assoc dest: within_mono [where m = "len t + length a"])
qed

lemma appends_for_each:
  "(\<And>x. x \<in> set xs \<Longrightarrow> appends put len limit (f x) (g x)) \<Longrightarrow> appends put len limit (for_each f xs) (concat (map g xs))"
  by (induction xs) (auto intro: appends_return appends_bind)

end

interpretation encoded: row_output "(@)" "length :: bytes \<Rightarrow> nat"
  by unfold_locales auto

interpretation sized: row_output "\<lambda>n bs. n + length bs" "\<lambda>n :: nat. n"
  by unfold_locales auto

lemma appends_bytes: "appends (@) length limit (append_bytes bs limit) bs"
  by (auto simp: appends_def append_bytes_def require_capacity_def checked_add_usize_def within_def wp_def split: option.splits if_splits)

lemma appends_byte: "appends (@) length limit (push_byte b limit) [b]"
  by (auto simp: appends_def push_byte_def require_capacity_def checked_add_usize_def within_def wp_def split: option.splits if_splits)

lemma appends_length: "n \<le> u64_max \<Longrightarrow> appends (@) length limit (encode_length n limit) (be_of_nat 8 n)"
  by (simp add: encode_length_def appends_bytes)

lemma appends_required:
  assumes "appends (@) length limit m bs" "n \<le> length bs"
  shows "appends (@) length limit (sem_bind (\<lambda>out. (require_capacity out n limit, out)) (\<lambda>_. m)) bs"
  unfolding appends_def
proof (intro allI impI)
  fix t :: bytes assume t: "within limit (length t)"
  note m = assms(1) [unfolded appends_def, rule_format, OF t]
  show "wp (sem_bind (\<lambda>out. (require_capacity out n limit, out)) (\<lambda>_. m))
     (\<lambda>_ t'. t' = t @ bs \<and> within limit (length t + length bs)) (\<lambda>e _. \<not> within limit (length t + length bs) \<and> is_limit e) t"
  proof (cases "require_capacity t n limit")
    case (Inl e)
    then show ?thesis
      using assms(2) by (auto simp: wp_def sem_bind_def require_capacity_def checked_add_usize_def within_def split: option.splits if_splits)
  next
    case (Inr u)
    then show ?thesis using m by (simp add: wp_def sem_bind_def)
  qed
qed

lemma value_bytes_length: "0 < length (value_bytes v)"
  by (cases v) auto

lemma length_values: "length vs \<le> length (concat (map value_bytes vs))"
proof (induction vs)
  case (Cons v vs)
  then show ?case using value_bytes_length [of v] by (simp del: length_greater_0_conv)
qed simp

text \<open>A position of an array that a row of a field refers to.\<close>

definition cell_ok :: "'a arrays \<Rightarrow> ('a \<Rightarrow> bool) \<Rightarrow> field \<Rightarrow> 'a \<Rightarrow> nat \<Rightarrow> bool" where
  "cell_ok A ok f a i \<longleftrightarrow>
     ok a \<and> array_type A a = field_type f \<and> i < array_len A a \<and> (nullable f \<or> field_type f = Null \<or> \<not> array_is_null A a i)"

lemma cell_ok_list:
  assumes "arrays_laws A ok" "cell_ok A ok (Field name dt nl md) a i" "classify dt = Some (ListLayout child)" "j < array_len A (list_at A a i)"
  shows "cell_ok A ok child (list_at A a i) j" "array_len A (list_at A a i) \<le> u64_max"
  using assms by (auto simp: arrays_laws_def cell_ok_def list_law_def no_nulls_def dest!: classify_size)

lemma cell_ok_struct:
  assumes "arrays_laws A ok" "cell_ok A ok (Field name dt nl md) a i" "classify dt = Some (StructLayout children)" "\<not> array_is_null A a i"
  shows "list_all2 (\<lambda>f c. cell_ok A ok f c i) children (struct_columns A a)"
proof -
  have "struct_law A ok a children" "i < array_len A a"
    using assms by (auto simp: arrays_laws_def cell_ok_def dest!: classify_size)
  then show ?thesis using assms(4) unfolding struct_law_def by (auto simp: cell_ok_def elim!: list_all2_mono)
qed

lemma field_ok_children:
  assumes "field_ok d (Field name dt nl md)"
  shows "classify dt \<noteq> None" "classify dt = Some (ListLayout child) \<Longrightarrow> field_ok (Suc d) child"
    "classify dt = Some (StructLayout children) \<Longrightarrow> fields_ok (Suc d) children"
  using assms unfolding field_ok_split by (auto dest!: classify_size) (cases dt; simp)

lemma classify_Null: "classify dt = Some NullLayout \<longleftrightarrow> dt = Null"
  by (cases dt) auto

lemma encode_appends:
  assumes laws: "arrays_laws A ok"
  shows "field_ok d f \<Longrightarrow> cell_ok A ok f a i \<Longrightarrow>
      appends (@) length limit (encode_canonical_inner A limit f a i path) (value_bytes (value_at A f a i))"
    and "fields_ok d fs \<Longrightarrow> list_all2 (\<lambda>f c. cell_ok A ok f c i) fs cs \<Longrightarrow>
      appends (@) length limit (encode_children A limit fs cs i path) (concat (map value_bytes (values_at A fs cs i)))"
  using laws
proof (induction A limit f a i path and A limit fs cs i path arbitrary: d and d
    rule: encode_canonical_inner_encode_children.induct)
  case (1 A limit name dt nl md a i path)
  note kids = field_ok_children [OF 1(3)]
  have cell: "array_type A a = dt" "i < array_len A a" "nl \<or> dt = Null \<or> \<not> array_is_null A a i" "ok a"
    using 1(4) by (simp_all add: cell_ok_def)
  show ?case
  proof (cases "dt = Null \<or> array_is_null A a i")
    case True
    then show ?thesis using cell by (auto simp: appends_byte)
  next
    case False
    let ?body = "\<lambda>bs m. appends (@) length limit (sem_bind (push_byte 1 limit) (\<lambda>_. m)) (1 # bs)"
    have body: "?body bs m" if "appends (@) length limit m bs" for bs m
      using encoded.appends_bind [OF appends_byte that, of 1] by simp
    obtain layout where layout: "classify dt = Some layout" using kids(1) by auto
    show ?thesis
    proof (cases layout)
      case (ListLayout child)
      let ?vs = "list_at A a i"
      have item: "cell_ok A ok child ?vs j" if "j < array_len A ?vs" for j
        using cell_ok_list(1) [OF 1(5,4)] layout ListLayout that by simp
      have short: "array_len A ?vs \<le> u64_max"
        using cell_ok_list(2) [OF 1(5,4)] layout ListLayout by (cases "array_len A ?vs") (auto simp: u64_max_def)
      have "appends (@) length limit (for_each (\<lambda>j. encode_canonical_inner A limit child ?vs j (path @ [field_name child])) [0..<array_len A ?vs])
          (concat (map (\<lambda>j. value_bytes (value_at A child ?vs j)) [0..<array_len A ?vs]))"
        using 1(1) layout ListLayout False cell kids item 1(5) by (intro encoded.appends_for_each) auto
      from appends_required [OF this, of "array_len A ?vs"] length_values [of "map (value_at A child ?vs) [0..<array_len A ?vs]"]
      show ?thesis
        using False cell layout ListLayout short
        by (auto simp: Let_def comp_def intro!: body encoded.appends_bind appends_length)
    next
      case (StructLayout children)
      have "appends (@) length limit (encode_children A limit children (struct_columns A a) i path)
          (concat (map value_bytes (values_at A children (struct_columns A a) i)))"
        using 1(2) layout StructLayout False cell kids 1(5) cell_ok_struct [OF 1(5,4)] by auto
      then show ?thesis using False cell layout StructLayout by (auto intro!: body)
    qed (use False cell layout laws 1(5) in \<open>auto simp: encode_bytes_def classify_Null arrays_laws_def
        intro!: body appends_bytes appends_byte encoded.appends_bind appends_length\<close>)
  qed
next
  case (2 A limit f fs c cs i path)
  then show ?case by (auto intro!: encoded.appends_bind)
qed (auto simp: encoded.appends_return)

subsection \<open>Sizes\<close>

lemma appends_size:
  "length bs = k \<Longrightarrow> appends (\<lambda>n bs. n + length bs) (\<lambda>n. n) (Some limit) (add_size k limit) bs"
  by (auto simp: appends_def add_size_def checked_add_usize_def within_def wp_def split: option.splits if_splits)

lemma constant_size:
  assumes "arrays_laws A ok"
  shows "constant_canonical_size A f a = Some k \<Longrightarrow> field_ok d f \<Longrightarrow> cell_ok A ok f a i \<Longrightarrow> length (value_bytes (value_at A f a i)) = k"
    and "constant_children A fs cs s = Some k \<Longrightarrow> fields_ok d fs \<Longrightarrow> list_all2 (\<lambda>f c. cell_ok A ok f c i) fs cs \<Longrightarrow>
      s + length (concat (map value_bytes (values_at A fs cs i))) = k"
  using assms
proof (induction A f a and A fs cs s arbitrary: d k i and d k i rule: constant_canonical_size_constant_children.induct)
  case (1 A name dt nl md a)
  note kids = field_ok_children [OF 1(3)]
  have cell: "array_type A a = dt" "i < array_len A a" "ok a" using 1(4) by (simp_all add: cell_ok_def)
  show ?case
  proof (cases "dt = Null \<or> array_is_null A a i")
    case True
    then show ?thesis
      using 1(2,5) cell by (auto simp: arrays_laws_def no_nulls_def split: if_splits option.splits)
  next
    case False
    obtain layout where layout: "classify dt = Some layout" using kids(1) by auto
    show ?thesis
    proof (cases layout)
      case (StructLayout children)
      then obtain t where t: "constant_children A children (struct_columns A a) 1 = Some t" "k = t"
        using 1(2) False cell layout by (auto split: option.splits if_splits)
      have "1 + length (concat (map value_bytes (values_at A children (struct_columns A a) i))) = t"
        using 1(1) [OF _ _ _ _ _ t(1)] layout StructLayout False cell kids(3) cell_ok_struct [OF 1(5,4)] 1(5) by auto
      then show ?thesis using False layout StructLayout t(2) by simp
    qed (use 1(2) False cell layout in \<open>auto split: if_splits\<close>)
  qed
next
  case (2 A f fs c cs s)
  then obtain k1 where k1: "constant_canonical_size A f c = Some k1" "constant_children A fs cs (s + k1) = Some k"
    by (auto simp: checked_add_usize_def split: option.splits if_splits)
  have "length (value_bytes (value_at A f c i)) = k1" using 2(1,4-6) k1 by auto
  moreover have "(s + k1) + length (concat (map value_bytes (values_at A fs cs i))) = k"
    using 2(2) [OF k1(1) _ k1(2)] 2(4-6) k1 2(3) by (auto simp: checked_add_usize_def split: option.splits if_splits)
  ultimately show ?case by simp
qed auto

abbreviation counts :: "nat \<Rightarrow> nat row_op \<Rightarrow> bytes \<Rightarrow> bool" where
  "counts limit \<equiv> appends (\<lambda>n bs. n + length bs) (\<lambda>n. n) (Some limit)"

lemma length_concat_const: "(\<And>x. x \<in> set xs \<Longrightarrow> length (g x) = k) \<Longrightarrow> length (concat (map g xs)) = length xs * k"
  by (induction xs) auto

lemma counts_list:
  assumes "\<And>n. within (Some limit) n \<Longrightarrow> n + m \<le> limit \<Longrightarrow>
      wp (f n) (\<lambda>_ t'. t' = n + length bs \<and> within (Some limit) (n + length bs))
        (\<lambda>e _. \<not> within (Some limit) (n + length bs) \<and> is_limit e) n"
    and "m \<le> length bs"
  shows "counts limit (\<lambda>sz. if sz > limit then (Inl (RowPanic p), sz) else if m > limit - sz then (Inl (SizeLimit limit), sz) else f sz sz) bs"
  unfolding appends_def
proof (intro allI impI)
  fix n assume n: "within (Some limit) n"
  show "wp (\<lambda>sz. if sz > limit then (Inl (RowPanic p), sz) else if m > limit - sz then (Inl (SizeLimit limit), sz) else f sz sz)
      (\<lambda>_ t'. t' = n + length bs \<and> within (Some limit) (n + length bs))
      (\<lambda>e _. \<not> within (Some limit) (n + length bs) \<and> is_limit e) n"
  proof (cases "n + m \<le> limit")
    case True
    then show ?thesis using assms(1) [OF n True] by (auto simp: wp_def)
  next
    case False
    then show ?thesis using n assms(2) by (auto simp: wp_def within_def)
  qed
qed

lemma size_appends:
  assumes laws: "arrays_laws A ok"
  shows "field_ok d f \<Longrightarrow> cell_ok A ok f a i \<Longrightarrow> counts limit (canonical_size_inner A limit f a i path) (value_bytes (value_at A f a i))"
    and "fields_ok d fs \<Longrightarrow> list_all2 (\<lambda>f c. cell_ok A ok f c i) fs cs \<Longrightarrow>
      counts limit (canonical_size_children A limit fs cs i path) (concat (map value_bytes (values_at A fs cs i)))"
  using laws
proof (induction A limit f a i path and A limit fs cs i path arbitrary: d and d
    rule: canonical_size_inner_canonical_size_children.induct)
  case (1 A limit name dt nl md a i path)
  note kids = field_ok_children [OF 1(3)]
  have cell: "array_type A a = dt" "i < array_len A a" "nl \<or> dt = Null \<or> \<not> array_is_null A a i" "ok a"
    using 1(4) by (simp_all add: cell_ok_def)
  show ?case
  proof (cases "dt = Null \<or> array_is_null A a i")
    case True
    then show ?thesis using cell by (auto simp: appends_size)
  next
    case False
    have body: "counts limit (sem_bind (add_size (Suc 0) limit) (\<lambda>_. m)) (1 # bs)" if "counts limit m bs" for bs m
      using sized.appends_bind [OF appends_size [of "[1]" "Suc 0" limit] that] by simp
    obtain layout where layout: "classify dt = Some layout" using kids(1) by auto
    show ?thesis
    proof (cases layout)
      case (ListLayout child)
      let ?vs = "list_at A a i"
      let ?bs = "concat (map (\<lambda>j. value_bytes (value_at A child ?vs j)) [0..<array_len A ?vs])"
      have item: "cell_ok A ok child ?vs j" if "j < array_len A ?vs" for j
        using cell_ok_list(1) [OF 1(5,4)] layout ListLayout that by simp
      have loop: "counts limit (for_each (\<lambda>j. canonical_size_inner A limit child ?vs j (path @ [field_name child])) [0..<array_len A ?vs]) ?bs"
        if "constant_canonical_size A child ?vs = None" "n + array_len A ?vs \<le> limit" for n
      proof (intro sized.appends_for_each)
        fix j assume "j \<in> set [0..<array_len A ?vs]"
        then show "counts limit (canonical_size_inner A limit child ?vs j (path @ [field_name child])) (value_bytes (value_at A child ?vs j))"
          using that by (intro 1(1) [where xc = n and d = "Suc d"]) (use layout ListLayout False cell kids item 1(5) in auto)
      qed
      have const: "length ?bs = array_len A ?vs * k" if "constant_canonical_size A child ?vs = Some k" for k
        using length_concat_const [of "[0..<array_len A ?vs]" "\<lambda>j. value_bytes (value_at A child ?vs j)" k] constant_size(1) [OF 1(5) that kids(2)] layout ListLayout item by auto
      have m: "array_len A ?vs \<le> length ?bs"
        using length_values [of "map (value_at A child ?vs) [0..<array_len A ?vs]"] by (simp add: comp_def)
      have "counts limit (\<lambda>sz. if sz > limit then (Inl (RowPanic ''attempt to subtract with overflow''), sz)
          else if array_len A ?vs > limit - sz then (Inl (SizeLimit limit), sz)
          else (case constant_canonical_size A child ?vs of
             Some k \<Rightarrow> if array_len A ?vs * k > usize_max then (Inl LengthOverflow, sz) else add_size (array_len A ?vs * k) limit sz
           | None \<Rightarrow> for_each (\<lambda>j. canonical_size_inner A limit child ?vs j (path @ [field_name child])) [0..<array_len A ?vs] sz)) ?bs"
        (is "counts limit ?m ?bs")
      proof (cases "constant_canonical_size A child ?vs")
        case None
        have "counts limit (\<lambda>sz. if sz > limit then (Inl (RowPanic ''attempt to subtract with overflow''), sz)
          else if array_len A ?vs > limit - sz then (Inl (SizeLimit limit), sz)
          else for_each (\<lambda>j. canonical_size_inner A limit child ?vs j (path @ [field_name child])) [0..<array_len A ?vs] sz) ?bs"
          by (rule counts_list [where f = "\<lambda>_. for_each (\<lambda>j. canonical_size_inner A limit child ?vs j (path @ [field_name child]))
                [0..<array_len A ?vs]", OF _ m]) (use loop [OF None, unfolded appends_def] in blast)
        then show ?thesis by (simp only: None option.case)
      next
        case (Some k)
        have "counts limit (\<lambda>sz. if sz > limit then (Inl (RowPanic ''attempt to subtract with overflow''), sz)
          else if array_len A ?vs > limit - sz then (Inl (SizeLimit limit), sz)
          else (if array_len A ?vs * k > usize_max then sem_throw LengthOverflow else add_size (array_len A ?vs * k) limit) sz) ?bs"
          by (rule counts_list [where f = "\<lambda>_. if array_len A ?vs * k > usize_max then sem_throw LengthOverflow
                else add_size (array_len A ?vs * k) limit", OF _ m])
            (use const [OF Some] appends_size [of ?bs "array_len A ?vs * k" limit] in \<open>auto simp: appends_def within_def\<close>)
        moreover have "(if c then sem_throw LengthOverflow else g) sz = (if c then (Inl LengthOverflow, sz) else g sz)"
          for c and g :: "nat row_op" and sz by (simp add: sem_throw_def)
        ultimately show ?thesis by (simp only: Some option.case)
      qed
      then have "counts limit (sem_bind (add_size 8 limit) (\<lambda>_. ?m)) (be_of_nat 8 (array_len A ?vs) @ ?bs)"
        by (intro sized.appends_bind appends_size) simp_all
      then show ?thesis using False cell layout ListLayout by (auto simp: Let_def comp_def intro!: body)
    next
      case (StructLayout children)
      have "counts limit (canonical_size_children A limit children (struct_columns A a) i path)
          (concat (map value_bytes (values_at A children (struct_columns A a) i)))"
        using 1(2) layout StructLayout False cell kids 1(5) cell_ok_struct [OF 1(5,4)] by auto
      then show ?thesis using False cell layout StructLayout by (auto intro!: body)
    qed (use False cell layout in \<open>auto simp: classify_Null intro!: body appends_size sized.appends_bind\<close>)
  qed
next
  case (2 A limit f fs c cs i path)
  then show ?case by (auto intro!: sized.appends_bind)
qed (auto simp: sized.appends_return)

section \<open>Rows of a batch\<close>

definition row_values :: "('a, 'b) columnar \<Rightarrow> 'b \<Rightarrow> nat \<Rightarrow> cell_value list" where
  "row_values T b i = values_at (arrays T) (schema_fields (batch_schema (columnar_arrow T) b)) (batch_arrays T b) i"

text \<open>A batch that \<^verbatim>\<open>RecordBatch::try_new\<close> and the validation of schemas admit.\<close>

definition batch_ok :: "('a, 'b) columnar \<Rightarrow> ('a \<Rightarrow> bool) \<Rightarrow> 'b \<Rightarrow> bool" where
  "batch_ok T ok b \<longleftrightarrow>
     fields_ok 0 (schema_fields (batch_schema (columnar_arrow T) b)) \<and>
     (\<forall>i < batch_rows (columnar_arrow T) b.
        list_all2 (\<lambda>f c. cell_ok (arrays T) ok f c i) (schema_fields (batch_schema (columnar_arrow T) b)) (batch_arrays T b))"

lemma values_at_zip: "values_at A fs cs i = map (\<lambda>(f, c). value_at A f c i) (zip fs cs)"
  by (induction A fs cs i rule: value_at_values_at.induct(2) [where P = "\<lambda>_ _ _ _. True"]) auto

lemma zip_cells:
  assumes "fields_ok d fs" "list_all2 (\<lambda>f c. cell_ok A ok f c i) fs cs" "(f, c) \<in> set (zip fs cs)"
  shows "field_ok d f" "cell_ok A ok f c i"
  using assms by (induction fs arbitrary: cs) (auto simp: list_all2_Cons1)

lemma row_appends:
  assumes laws: "arrays_laws (arrays T) ok" and batch: "batch_ok T ok b" and i: "i < batch_rows (columnar_arrow T) b"
  shows "appends (@) length (Some limit) (for_each (\<lambda>(f, a). encode_canonical_inner (arrays T) (Some limit) f a i [field_name f])
      (zip (schema_fields (batch_schema (columnar_arrow T) b)) (batch_arrays T b))) (concat (map value_bytes (row_values T b i)))"
    and "counts limit (for_each (\<lambda>(f, a). canonical_size_inner (arrays T) limit f a i [field_name f])
      (zip (schema_fields (batch_schema (columnar_arrow T) b)) (batch_arrays T b))) (concat (map value_bytes (row_values T b i)))"
proof -
  let ?z = "zip (schema_fields (batch_schema (columnar_arrow T) b)) (batch_arrays T b)"
  have cells: "field_ok 0 f" "cell_ok (arrays T) ok f c i" if "(f, c) \<in> set ?z" for f c
    using batch i zip_cells [OF _ _ that] by (auto simp: batch_ok_def)
  have eq: "concat (map value_bytes (row_values T b i)) = concat (map (\<lambda>(f, c). value_bytes (value_at (arrays T) f c i)) ?z)"
    by (simp add: row_values_def values_at_zip comp_def case_prod_unfold)
  show "appends (@) length (Some limit) (for_each (\<lambda>(f, a). encode_canonical_inner (arrays T) (Some limit) f a i [field_name f]) ?z)
     (concat (map value_bytes (row_values T b i)))"
    unfolding eq by (rule encoded.appends_for_each) (auto intro!: encode_appends(1) [OF laws] dest: cells)
  show "counts limit (for_each (\<lambda>(f, a). canonical_size_inner (arrays T) limit f a i [field_name f]) ?z)
     (concat (map value_bytes (row_values T b i)))"
    unfolding eq by (rule sized.appends_for_each) (auto intro!: size_appends(1) [OF laws] dest: cells)
qed

lemma canonical_row:
  assumes "arrays_laws (arrays T) ok" "batch_ok T ok b" "i < batch_rows (columnar_arrow T) b"
    and "bs = concat (map value_bytes (row_values T b i))"
  shows "if within (Some limit) (length bs)
    then canonical_row_bounded T b i limit = Inr bs \<and> canonical_row_size_bounded T b i limit = Inr (length bs)
    else (\<exists>e. canonical_row_bounded T b i limit = Inl e \<and> is_limit e) \<and> (\<exists>e. canonical_row_size_bounded T b i limit = Inl e \<and> is_limit e)"
proof -
  have zero: "within (Some limit) (length ([] :: bytes))" "within (Some limit) 0" by (simp_all add: within_def)
  note enc = row_appends(1) [OF assms(1-3), of limit, unfolded appends_def, rule_format, OF zero(1), folded assms(4)]
  note sz = row_appends(2) [OF assms(1-3), of limit, unfolded appends_def, rule_format, OF zero(2), folded assms(4)]
  show ?thesis
    using enc sz assms(3) unfolding wp_from_result canonical_row_bounded_def canonical_row_size_bounded_def by auto
qed

text \<open>Two values of one type with the same bytes are equal, whatever follows them.\<close>

inductive typed :: "(bytes \<Rightarrow> bool) \<Rightarrow> field \<Rightarrow> cell_value \<Rightarrow> bool" for utf8 where
  typed_null: "nullable f \<or> field_type f = Null \<Longrightarrow> typed utf8 f VNull"
| typed_bool: "classify (field_type f) = Some Bitmap \<Longrightarrow> typed utf8 f (VBool b)"
| typed_bits: "classify (field_type f) = Some (FixedWidth w) \<Longrightarrow> n < 256 ^ w \<Longrightarrow> typed utf8 f (VBits w n)"
| typed_bytes: "classify (field_type f) = Some VariableWidth \<Longrightarrow> length bs \<le> u64_max \<Longrightarrow> field_type f = Utf8 \<longrightarrow> utf8 bs \<Longrightarrow>
    typed utf8 f (VBytes bs)"
| typed_list: "classify (field_type f) = Some (ListLayout child) \<Longrightarrow> \<forall>v \<in> set vs. typed utf8 child v \<Longrightarrow> length vs \<le> u64_max \<Longrightarrow>
    typed utf8 f (VList vs)"
| typed_struct: "classify (field_type f) = Some (StructLayout children) \<Longrightarrow> list_all2 (typed utf8) children vs \<Longrightarrow>
    typed utf8 f (VStruct vs)"

inductive_cases typed_boolE: "typed u f (VBool b)"
inductive_cases typed_bitsE: "typed u f (VBits w n)"
inductive_cases typed_bytesE: "typed u f (VBytes bs)"
inductive_cases typed_listE: "typed u f (VList vs)"
inductive_cases typed_structE: "typed u f (VStruct vs)"
lemmas typed_cases = typed_boolE typed_bitsE typed_bytesE typed_listE typed_structE

lemma be_of_nat_inject:
  assumes "m < 256 ^ w" "n < 256 ^ w"
  shows "be_of_nat w m = be_of_nat w n \<longleftrightarrow> m = n"
  using assms by (metis nat_of_be_be_of_nat mod_less)

lemma values_prefix:
  assumes "list_all2 (\<lambda>v w. \<forall>r r'. value_bytes v @ r = value_bytes w @ r' \<longrightarrow> v = w \<and> r = r') vs ws"
    "concat (map value_bytes vs) @ r = concat (map value_bytes ws) @ r'"
  shows "vs = ws \<and> r = r'"
  using assms
proof (induction vs ws arbitrary: r r' rule: list_all2_induct)
  case (Cons v vs w ws)
  have "value_bytes v @ (concat (map value_bytes vs) @ r) = value_bytes w @ (concat (map value_bytes ws) @ r')"
    using Cons.prems by simp
  with Cons(1) have "v = w \<and> concat (map value_bytes vs) @ r = concat (map value_bytes ws) @ r'" by blast
  with Cons.IH show ?case by blast
qed simp

lemma be8_append:
  assumes "m \<le> u64_max" "n \<le> u64_max" "be_of_nat 8 m @ x = be_of_nat 8 n @ y"
  shows "m = n \<and> x = y"
proof -
  have "m < 256 ^ 8" "n < 256 ^ 8" using assms(1,2) by (simp_all add: u64_max_def)
  then show ?thesis using assms(3) be_of_nat_inject [of m 8 n] by simp
qed

lemma typed_prefix:
  "typed u f v \<Longrightarrow> typed u f v' \<Longrightarrow> value_bytes v @ r = value_bytes v' @ r' \<Longrightarrow> v = v' \<and> r = r'"
proof (induction f v arbitrary: v' r r' rule: typed.induct)
  case (typed_null f)
  then show ?case by (cases v') auto
next
  case (typed_bool f b)
  then show ?case by (cases v') (auto elim!: typed_cases split: if_splits)
next
  case (typed_bits f w n)
  then show ?case by (cases v') (auto elim!: typed_cases simp: be_of_nat_inject)
next
  case (typed_bytes f bs)
  from typed_bytes.prems typed_bytes(1) obtain cs where v': "v' = VBytes cs" "length cs \<le> u64_max" by (cases v') (auto elim!: typed_cases)
  with typed_bytes.prems typed_bytes(2) have "length bs = length cs \<and> bs @ r = cs @ r'" by (intro be8_append) auto
  then show ?case using v'(1) by auto
next
  case (typed_list f child vs)
  from typed_list(4,5,1) obtain ws where v': "v' = VList ws" "\<forall>w \<in> set ws. typed u child w" "length ws \<le> u64_max"
    by (cases v') (auto elim!: typed_cases)
  with typed_list have eq: "length vs = length ws \<and> concat (map value_bytes vs) @ r = concat (map value_bytes ws) @ r'"
    by (intro be8_append) auto
  have "list_all2 (\<lambda>v w. \<forall>r r'. value_bytes v @ r = value_bytes w @ r' \<longrightarrow> v = w \<and> r = r') vs ws"
    using typed_list.IH v'(2) eq by (simp add: list_all2_conv_all_nth) (metis nth_mem)
  with values_prefix [of vs ws r r'] eq v'(1) show ?case by simp
next
  case (typed_struct f children vs)
  from typed_struct(3,4,1) obtain ws where v': "v' = VStruct ws" "list_all2 (typed u) children ws"
    by (cases v') (auto elim!: typed_cases)
  have "list_all2 (\<lambda>v w. \<forall>r r'. value_bytes v @ r = value_bytes w @ r' \<longrightarrow> v = w \<and> r = r') vs ws"
    using typed_struct(2) v'(2) by (auto simp: list_all2_conv_all_nth)
  moreover have "concat (map value_bytes vs) @ r = concat (map value_bytes ws) @ r'" using typed_struct(4) v'(1) by simp
  ultimately show ?case using values_prefix v'(1) by blast
qed

lemma typed_value:
  assumes "arrays_laws A ok"
  shows "field_ok d f \<Longrightarrow> cell_ok A ok f a i \<Longrightarrow> typed (from_utf8 A) f (value_at A f a i)"
    and "fields_ok d fs \<Longrightarrow> list_all2 (\<lambda>f c. cell_ok A ok f c i) fs cs \<Longrightarrow> list_all2 (typed (from_utf8 A)) fs (values_at A fs cs i)"
  using assms
proof (induction A f a i and A fs cs i arbitrary: d and d rule: value_at_values_at.induct)
  case (1 A name dt nl md a i)
  note kids = field_ok_children [OF 1(3)]
  have cell: "array_type A a = dt" "i < array_len A a" "nl \<or> dt = Null \<or> \<not> array_is_null A a i" "ok a" using 1(4) by (simp_all add: cell_ok_def)
  show ?case
  proof (cases "dt = Null \<or> array_is_null A a i")
    case True
    then show ?thesis using cell by (auto intro: typed_null)
  next
    case False
    show ?thesis
    proof (cases "classify dt")
      case (Some layout)
      then show ?thesis
      proof (cases layout)
        case (ListLayout child)
        then show ?thesis
          using False Some 1(1) 1(5) kids(2) cell_ok_list [OF 1(5,4)]
          by (auto simp: u64_max_def intro!: typed_list [where child = child]) (metis gr0I le0)
      next
        case (StructLayout children)
        then show ?thesis
          using False Some 1(2) 1(5) kids(3) cell_ok_struct [OF 1(5,4)] by (auto intro!: typed_struct [where children = children])
      qed (use False cell 1(5) in \<open>auto simp: arrays_laws_def classify_Null intro: typed.intros\<close>)
    qed (use kids(1) in simp)
  qed
qed auto

text \<open>The bytes of a row identify its values.\<close>

lemma row_bytes_inject:
  assumes "list_all2 (typed u) fs vs" "list_all2 (typed u) fs ws" "concat (map value_bytes vs) = concat (map value_bytes ws)"
  shows "vs = ws"
proof -
  have "list_all2 (\<lambda>v w. \<forall>r r'. value_bytes v @ r = value_bytes w @ r' \<longrightarrow> v = w \<and> r = r') vs ws"
    using assms(1,2) by (simp add: list_all2_conv_all_nth) (metis typed_prefix)
  from values_prefix [OF this, of "[]" "[]"] assms(3) show ?thesis by simp
qed

lemma row_values_typed:
  assumes "arrays_laws (arrays T) ok" "batch_ok T ok b" "i < batch_rows (columnar_arrow T) b"
  shows "list_all2 (typed (from_utf8 (arrays T))) (schema_fields (batch_schema (columnar_arrow T) b)) (row_values T b i)"
  unfolding row_values_def using assms(2,3) by (intro typed_value(2) [OF assms(1), where d = 0]) (simp_all add: batch_ok_def)

end
