(* ===== verification/Relation_Decode.thy ===== *)
theory Relation_Decode
  imports Relation_Row
begin

text \<open>
  The decoder of canonical rows, also in \<^verbatim>\<open>crates/operation/src/operation/relation/row.rs\<close>.

  A row is first admitted: \<open>check_value\<close> walks its bytes, checks the framing and adds up the memory its Arrow values will need. Then
  \<open>append_value\<close> reads the same bytes again and appends to Arrow builders. A builder is the tree of what was appended to it; making an
  array of it is Arrow's and a parameter of \<open>arrow_output\<close>.
\<close>

section \<open>Definitions\<close>

subsection \<open>The cursor\<close>

text \<open>The remaining bytes are the state.\<close>

definition cursor_take :: "nat \<Rightarrow> (bytes, row_error, bytes) sem" where
  "cursor_take n bs = (if n \<le> length bs then (Inr (take n bs), drop n bs) else (Inl Truncated, bs))"

definition cursor_u8 :: "(bytes, row_error, byte) sem" where
  "cursor_u8 = sem_bind (cursor_take 1) (\<lambda>v. sem_return (hd v))"

definition cursor_length :: "(bytes, row_error, nat) sem" where
  "cursor_length = sem_bind (cursor_take 8) (\<lambda>v. if nat_of_be v > usize_max then sem_throw LengthOverflow else sem_return (nat_of_be v))"

definition cursor_bytes :: "(bytes, row_error, bytes) sem" where
  "cursor_bytes = sem_bind cursor_length (\<lambda>n. cursor_take n)"

definition cursor_skip :: "nat \<Rightarrow> (bytes, row_error, unit) sem" where
  "cursor_skip n = sem_bind (cursor_take n) (\<lambda>_. sem_return ())"

definition cursor_finish :: "bytes \<Rightarrow> row_error + unit" where
  "cursor_finish bs = (if bs = [] then Inr () else Inl TrailingBytes)"

text \<open>A step of the cursor next to another state, and a step of that state.\<close>

definition reading :: "(bytes, 'e, 'x) sem \<Rightarrow> (bytes \<times> 't, 'e, 'x) sem" where
  "reading m = (\<lambda>(bs, t). case m bs of (res, bs') \<Rightarrow> (res, (bs', t)))"

definition counting :: "('t, 'e, 'x) sem \<Rightarrow> (bytes \<times> 't, 'e, 'x) sem" where
  "counting m = (\<lambda>(bs, t). case m t of (res, t') \<Rightarrow> (res, (bs, t')))"

subsection \<open>Admission\<close>

definition i32_max :: nat where
  "i32_max = 2 ^ 31 - 1"

text \<open>\<^verbatim>\<open>size_of::<ArrayRef>()\<close>: a pointer with its table.\<close>

definition ARRAY_REF_BYTES :: nat where
  "ARRAY_REF_BYTES = 16"

definition saturating_mul :: "nat \<Rightarrow> nat \<Rightarrow> nat" where
  "saturating_mul a b = min usize_max (a * b)"

definition saturating_add :: "nat \<Rightarrow> nat \<Rightarrow> nat" where
  "saturating_add a b = min usize_max (a + b)"

function (sequential) decoded_array_shape :: "'a arrays \<Rightarrow> nat \<Rightarrow> field \<Rightarrow> nat \<Rightarrow> nat row_op"
  and decoded_children_shape :: "'a arrays \<Rightarrow> nat \<Rightarrow> field list \<Rightarrow> nat \<Rightarrow> nat row_op" where
  "decoded_array_shape A limit (Field name dt nl md) rows =
     (if dt = Null then sem_return ()
      else
        sem_bind
          (case classify dt of
             Some (ListLayout child) \<Rightarrow>
               sem_bind (add_size (saturating_mul (max rows 1) 4) limit) (\<lambda>_.
               if rows = 0
               then sem_bind (add_size (2 * ARRAY_REF_BYTES) limit) (\<lambda>_. decoded_array_shape A limit child 0)
               else sem_return ())
           | Some (StructLayout children) \<Rightarrow>
               sem_bind (if rows = 0 then add_size (saturating_mul (length children) (2 * ARRAY_REF_BYTES)) limit else sem_return ()) (\<lambda>_.
               decoded_children_shape A limit children rows)
           | Some VariableWidth \<Rightarrow> add_size (saturating_mul (max rows 1) 4) limit
           | Some Bitmap \<Rightarrow> add_size rows limit
           | _ \<Rightarrow>
               (case primitive_width A dt of
                  None \<Rightarrow> sem_throw InvalidValue
                | Some w \<Rightarrow> add_size (saturating_mul rows w) limit)) (\<lambda>_.
        add_size ((rows + 7) div 8) limit))"
| "decoded_children_shape A limit (f # fs) rows =
     sem_bind (decoded_array_shape A limit f rows) (\<lambda>_. decoded_children_shape A limit fs rows)"
| "decoded_children_shape A limit [] rows = sem_return ()"
  by pat_completeness auto

termination
  by (relation "measure (\<lambda>x. case x of Inl (_, _, f, _) \<Rightarrow> 2 * size f | Inr (_, _, fs, _) \<Rightarrow> Suc (2 * size_list size fs))")
    (auto dest!: classify_size)

text \<open>The state is the cursor and the size.\<close>

function (sequential) check_value :: "'a arrays \<Rightarrow> nat \<Rightarrow> field \<Rightarrow> (bytes \<times> nat) row_op"
  and check_children :: "'a arrays \<Rightarrow> nat \<Rightarrow> field list \<Rightarrow> (bytes \<times> nat) row_op" where
  "check_value A limit (Field name dt nl md) =
     sem_bind (reading cursor_u8) (\<lambda>marker.
       if marker = 0 then
         (if \<not> nl \<and> dt \<noteq> Null then sem_throw (UnexpectedNull name)
          else counting (decoded_array_shape A limit (Field name dt nl md) 1))
       else if marker = 1 then
         (case classify dt of
            Some NullLayout \<Rightarrow> sem_throw InvalidNullMarker
          | Some Bitmap \<Rightarrow>
              sem_bind (reading cursor_u8) (\<lambda>b.
              if b > 1 then sem_throw InvalidBoolean else counting (add_size 2 limit))
          | Some VariableWidth \<Rightarrow>
              sem_bind (reading cursor_bytes) (\<lambda>value.
              if length value > i32_max then sem_throw LengthOverflow
              else if dt = Utf8 \<and> \<not> from_utf8 A value then sem_throw InvalidUtf8
              else counting (add_size (saturating_add (length value) 5) limit))
          | Some (ListLayout child) \<Rightarrow>
              sem_bind (reading cursor_length) (\<lambda>n.
              if n > i32_max then sem_throw LengthOverflow
              else
                (\<lambda>(bs, sz).
                   if n > length bs then (Inl Truncated, (bs, sz))
                   else sem_bind (counting (add_size 5 limit)) (\<lambda>_. repeat n (check_value A limit child)) (bs, sz)))
          | Some (StructLayout children) \<Rightarrow>
              sem_bind (counting (add_size 1 limit)) (\<lambda>_. check_children A limit children)
          | _ \<Rightarrow>
              (case primitive_width A dt of
                 None \<Rightarrow> sem_throw InvalidValue
               | Some w \<Rightarrow> sem_bind (reading (cursor_skip w)) (\<lambda>_. counting (add_size (w + 1) limit))))
       else sem_throw InvalidNullMarker)"
| "check_children A limit (f # fs) = sem_bind (check_value A limit f) (\<lambda>_. check_children A limit fs)"
| "check_children A limit [] = sem_return ()"
  by pat_completeness auto

termination
  by (relation "measure (\<lambda>x. case x of Inl (_, _, f) \<Rightarrow> 2 * size f | Inr (_, _, fs) \<Rightarrow> Suc (2 * size_list size fs))")
    (auto dest!: classify_size)

definition decoded_size :: "'a arrays \<Rightarrow> field list \<Rightarrow> bytes \<Rightarrow> nat \<Rightarrow> row_error + nat" where
  "decoded_size A fs encoded limit =
     (case check_children A limit fs (encoded, 0) of
        (Inl e, _) \<Rightarrow> Inl e
      | (Inr _, (bs, sz)) \<Rightarrow> (case cursor_finish bs of Inl e \<Rightarrow> Inl e | Inr _ \<Rightarrow> Inr sz))"

text \<open>The boxed errors; an exceeded limit is the budget's.\<close>

fun row_boxed :: "row_error \<Rightarrow> operation_error" where
  "row_boxed (RowPanic m) = Unwind m"
| "row_boxed e = Other ''canonical row'' None"

definition decode_error :: "row_error \<Rightarrow> operation_error" where
  "decode_error e = (case e of SizeLimit _ \<Rightarrow> BudgetExceeded | _ \<Rightarrow> row_boxed e)"

definition admit_row :: "'a arrays \<Rightarrow> schema \<Rightarrow> bytes \<Rightarrow> (step_budget, operation_error, unit) sem" where
  "admit_row A schema encoded b =
     (case decoded_size A (schema_fields schema) encoded (remaining_bytes b) of
        Inl e \<Rightarrow> (Inl (decode_error e), b)
      | Inr sz \<Rightarrow> charge sz b)"

definition admit_shape :: "'a arrays \<Rightarrow> nat \<Rightarrow> field \<Rightarrow> (step_budget, operation_error, unit) sem" where
  "admit_shape A rows f b =
     (case decoded_array_shape A (remaining_bytes b) f rows 0 of
        (Inl e, _) \<Rightarrow> (Inl (decode_error e), b)
      | (Inr _, sz) \<Rightarrow> charge sz b)"

definition admit_batch_shape :: "'a arrays \<Rightarrow> schema \<Rightarrow> (step_budget, operation_error, unit) sem" where
  "admit_batch_shape A schema =
     sem_bind (charge (saturating_mul (length (schema_fields schema)) (2 * ARRAY_REF_BYTES))) (\<lambda>_.
     for_each (admit_shape A 0) (schema_fields schema))"

subsection \<open>Appending to builders\<close>

datatype builder =
    NullBuilder nat
  | BooleanBuilder "bool option list"
  | PrimitiveBuilder nat "nat option list"
  | BytesBuilder "bytes option list"
  | ListBuilder builder "nat option list"
  | StructBuilder "builder list" "bool list"

lemma field_type_size: "size (field_type f) < size f"
  by (cases f) simp

function (sequential) row_builder :: "data_type \<Rightarrow> row_error + builder"
  and row_builders :: "field list \<Rightarrow> row_error + builder list" where
  "row_builder dt =
     (case classify dt of
        None \<Rightarrow> Inl InvalidValue
      | Some NullLayout \<Rightarrow> Inr (NullBuilder 0)
      | Some Bitmap \<Rightarrow> Inr (BooleanBuilder [])
      | Some (FixedWidth w) \<Rightarrow> Inr (PrimitiveBuilder w [])
      | Some VariableWidth \<Rightarrow> Inr (BytesBuilder [])
      | Some (ListLayout child) \<Rightarrow> map_sum id (\<lambda>b. ListBuilder b []) (row_builder (field_type child))
      | Some (StructLayout children) \<Rightarrow> map_sum id (\<lambda>bs. StructBuilder bs []) (row_builders children))"
| "row_builders [] = Inr []"
| "row_builders (f # fs) =
     (case row_builder (field_type f) of
        Inl e \<Rightarrow> Inl e
      | Inr b \<Rightarrow> map_sum id ((#) b) (row_builders fs))"
  by pat_completeness auto

termination
  by (relation "measure (\<lambda>x. case x of Inl dt \<Rightarrow> 2 * size dt | Inr fs \<Rightarrow> Suc (2 * size_list size fs))")
    (use field_type_size in \<open>auto dest!: classify_size intro: less_SucI less_le_trans simp: less_Suc_eq_le less_imp_le trans_le_add1\<close>)

text \<open>A step in the builder of the items of a list, and one in the builders of the columns of a struct.\<close>

definition in_items :: "(bytes \<times> builder) row_op \<Rightarrow> (bytes \<times> builder) row_op" where
  "in_items m = (\<lambda>(bs, B). case B of
     ListBuilder items lens \<Rightarrow> (case m (bs, items) of (res, (bs', items')) \<Rightarrow> (res, (bs', ListBuilder items' lens)))
   | _ \<Rightarrow> (Inl InvalidValue, (bs, B)))"

definition in_columns :: "(bytes \<times> builder list) row_op \<Rightarrow> (bytes \<times> builder) row_op" where
  "in_columns m = (\<lambda>(bs, B). case B of
     StructBuilder cols valid \<Rightarrow> (case m (bs, cols) of (res, (bs', cols')) \<Rightarrow> (res, (bs', StructBuilder cols' valid)))
   | _ \<Rightarrow> (Inl InvalidValue, (bs, B)))"

text \<open>\<^verbatim>\<open>append_option\<close> and \<^verbatim>\<open>append\<close> of the builders; another kind of builder is the failed downcast.\<close>

definition update_builder :: "(builder \<Rightarrow> builder option) \<Rightarrow> (bytes \<times> builder) row_op" where
  "update_builder f = (\<lambda>(bs, B). case f B of None \<Rightarrow> (Inl InvalidValue, (bs, B)) | Some B' \<Rightarrow> (Inr (), (bs, B')))"

fun append_null :: "builder \<Rightarrow> builder option" where
  "append_null (NullBuilder n) = Some (NullBuilder (Suc n))"
| "append_null _ = None"

fun append_boolean :: "bool option \<Rightarrow> builder \<Rightarrow> builder option" where
  "append_boolean v (BooleanBuilder vs) = Some (BooleanBuilder (vs @ [v]))"
| "append_boolean _ _ = None"

fun append_primitive :: "nat \<Rightarrow> nat option \<Rightarrow> builder \<Rightarrow> builder option" where
  "append_primitive w v (PrimitiveBuilder w' vs) = (if w = w' then Some (PrimitiveBuilder w (vs @ [v])) else None)"
| "append_primitive _ _ _ = None"

fun append_bytes_value :: "bytes option \<Rightarrow> builder \<Rightarrow> builder option" where
  "append_bytes_value v (BytesBuilder vs) = Some (BytesBuilder (vs @ [v]))"
| "append_bytes_value _ _ = None"

fun append_list :: "nat option \<Rightarrow> builder \<Rightarrow> builder option" where
  "append_list v (ListBuilder items lens) = Some (ListBuilder items (lens @ [v]))"
| "append_list _ _ = None"

fun append_struct :: "bool \<Rightarrow> builder \<Rightarrow> builder option" where
  "append_struct v (StructBuilder cols valid) = Some (StructBuilder cols (valid @ [v]))"
| "append_struct _ _ = None"

text \<open>The number of values of a builder, and the bytes in a builder of byte strings.\<close>

fun builder_len :: "builder \<Rightarrow> nat" where
  "builder_len (NullBuilder n) = n"
| "builder_len (BooleanBuilder vs) = length vs"
| "builder_len (PrimitiveBuilder _ vs) = length vs"
| "builder_len (BytesBuilder vs) = length vs"
| "builder_len (ListBuilder _ lens) = length lens"
| "builder_len (StructBuilder _ valid) = length valid"

fun values_slice_len :: "builder \<Rightarrow> nat option" where
  "values_slice_len (BytesBuilder vs) = Some (\<Sum>v \<leftarrow> vs. length (case v of None \<Rightarrow> [] | Some bs \<Rightarrow> bs))"
| "values_slice_len _ = None"

fun items_len :: "builder \<Rightarrow> nat option" where
  "items_len (ListBuilder items _) = Some (builder_len items)"
| "items_len _ = None"

definition check_offsets :: "(builder \<Rightarrow> nat option) \<Rightarrow> nat \<Rightarrow> (bytes \<times> builder) row_op" where
  "check_offsets f n = (\<lambda>(bs, B). case f B of
     None \<Rightarrow> (Inl InvalidValue, (bs, B))
   | Some k \<Rightarrow> (if k + n > usize_max \<or> k + n > i32_max then Inl LengthOverflow else Inr (), (bs, B)))"

definition marker_read :: "bool \<Rightarrow> (bytes \<times> builder, row_error, bool) sem" where
  "marker_read parent_null = (if parent_null then sem_return False else sem_bind (reading cursor_u8) (\<lambda>m. sem_return (m = 1)))"

function (sequential) append_value :: "'a arrays \<Rightarrow> bool \<Rightarrow> field \<Rightarrow> (bytes \<times> builder) row_op"
  and append_children :: "'a arrays \<Rightarrow> bool \<Rightarrow> field list \<Rightarrow> (bytes \<times> builder list) row_op" where
  "append_value A parent_null (Field name dt nl md) =
     sem_bind (marker_read parent_null) (\<lambda>present.
       case classify dt of
         None \<Rightarrow> sem_throw InvalidValue
       | Some NullLayout \<Rightarrow> update_builder append_null
       | Some Bitmap \<Rightarrow>
           if present then sem_bind (reading cursor_u8) (\<lambda>b. update_builder (append_boolean (Some (b \<noteq> 0))))
           else update_builder (append_boolean None)
       | Some (FixedWidth w) \<Rightarrow>
           if present then sem_bind (reading (cursor_take w)) (\<lambda>v. update_builder (append_primitive w (Some (nat_of_be v))))
           else update_builder (append_primitive w None)
       | Some VariableWidth \<Rightarrow>
           if present then
             sem_bind (reading cursor_bytes) (\<lambda>v.
             sem_bind (check_offsets values_slice_len (length v)) (\<lambda>_.
             if dt = Utf8 \<and> \<not> from_utf8 A v then sem_throw InvalidUtf8
             else update_builder (append_bytes_value (Some v))))
           else update_builder (append_bytes_value None)
       | Some (ListLayout child) \<Rightarrow>
           if present then
             sem_bind (reading cursor_length) (\<lambda>n.
             sem_bind (check_offsets items_len n) (\<lambda>_.
             sem_bind (in_items (repeat n (append_value A False child))) (\<lambda>_.
             update_builder (append_list (Some n)))))
           else update_builder (append_list None)
       | Some (StructLayout children) \<Rightarrow>
           sem_bind (in_columns (append_children A (\<not> present) children)) (\<lambda>_. update_builder (append_struct present)))"
| "append_children A parent_null (f # fs) (bs, col # cols) =
     (case append_value A parent_null f (bs, col) of
        (Inl e, (bs', col')) \<Rightarrow> (Inl e, (bs', col' # cols))
      | (Inr _, (bs', col')) \<Rightarrow> (case append_children A parent_null fs (bs', cols) of (res, (bs'', cols')) \<Rightarrow> (res, (bs'', col' # cols'))))"
| "append_children A parent_null _ q = (Inr (), q)"
  by pat_completeness auto

termination
  by (relation "measure (\<lambda>x. case x of Inl (_, _, f) \<Rightarrow> 2 * size f | Inr (_, _, fs, _) \<Rightarrow> Suc (2 * size_list size fs))")
    (auto dest!: classify_size)

fun append_fields ::
  "'a arrays \<Rightarrow> bool \<Rightarrow> field list \<Rightarrow> bytes \<Rightarrow> builder list \<Rightarrow> row_error + bytes \<times> builder list \<times> builder list" where
  "append_fields A parent_null [] bs builders = Inr (bs, [], builders)"
| "append_fields A parent_null (f # fs) bs [] = Inl InvalidValue"
| "append_fields A parent_null (f # fs) bs (B # builders) =
     (case append_value A parent_null f (bs, B) of
        (Inl e, _) \<Rightarrow> Inl e
      | (Inr _, (bs', B')) \<Rightarrow> map_sum id (\<lambda>(r, used, rest). (r, B' # used, rest)) (append_fields A parent_null fs bs' builders))"

text \<open>One row of the output, from a fragment for each schema; a missing fragment is a row of nulls.\<close>

fun append_row :: "'a arrays \<Rightarrow> schema list \<Rightarrow> bytes option list \<Rightarrow> builder list \<Rightarrow> row_error + builder list" where
  "append_row A (schema # schemas) (fragment # fragments) builders =
     (case append_fields A (fragment = None) (schema_fields schema) (case fragment of None \<Rightarrow> [] | Some bs \<Rightarrow> bs) builders of
        Inl e \<Rightarrow> Inl e
      | Inr (r, used, rest) \<Rightarrow>
          (case cursor_finish r of
             Inl e \<Rightarrow> Inl e
           | Inr _ \<Rightarrow> map_sum id ((@) used) (append_row A schemas fragments rest)))"
| "append_row A _ _ builders = (if builders \<noteq> [] then Inl InvalidValue else Inr [])"

fun append_rows :: "'a arrays \<Rightarrow> schema \<Rightarrow> bytes list \<Rightarrow> builder list \<Rightarrow> row_error + builder list" where
  "append_rows A schema [] builders = Inr builders"
| "append_rows A schema (row # rows) builders =
     (case append_row A [schema] [Some row, None] builders of Inl e \<Rightarrow> Inl e | Inr bs \<Rightarrow> append_rows A schema rows bs)"

text \<open>\<open>finish\<close> makes a batch of the builders.\<close>

type_synonym 'b finish = "schema \<Rightarrow> builder list \<Rightarrow> nat \<Rightarrow> operation_error + 'b"

definition decode_rows :: "'a arrays \<Rightarrow> 'b finish \<Rightarrow> schema \<Rightarrow> bytes list \<Rightarrow> operation_error + 'b" where
  "decode_rows A finish schema rows =
     (case row_builders (schema_fields schema) of
        Inl e \<Rightarrow> Inl (row_boxed e)
      | Inr builders \<Rightarrow>
          (case append_rows A schema rows builders of
             Inl e \<Rightarrow> Inl (row_boxed e)
           | Inr bs \<Rightarrow> finish schema bs (length rows)))"

definition decode_canonical_rows_bounded ::
  "'a arrays \<Rightarrow> 'b finish \<Rightarrow> schema \<Rightarrow> bytes list \<Rightarrow> (step_budget, operation_error, 'b) sem" where
  "decode_canonical_rows_bounded A finish schema rows =
     sem_bind (admit_batch_shape A schema) (\<lambda>_.
     sem_bind (for_each (admit_row A schema) rows) (\<lambda>_.
     sem_lift (decode_rows A finish schema rows)))"

subsection \<open>The output of a step\<close>

record arrow_output =
  out_builders :: "builder list"
  out_diffs :: "i64 list"

type_synonym output_row = "operation_error + bytes option list \<times> i64"

fun admit_fragment :: "'a arrays \<Rightarrow> schema \<times> bytes option \<Rightarrow> (step_budget, operation_error, unit) sem" where
  "admit_fragment A (schema, Some encoded) = admit_row A schema encoded"
| "admit_fragment A (schema, None) = for_each (admit_shape A 1) (schema_fields schema)"

fun admit_rows :: "'a arrays \<Rightarrow> schema list \<Rightarrow> bool \<Rightarrow> output_row list \<Rightarrow> (step_budget, operation_error, unit) sem" where
  "admit_rows A schemas first [] = sem_return ()"
| "admit_rows A schemas first (Inl e # rows) = sem_throw e"
| "admit_rows A schemas first (Inr (fragments, d) # rows) =
     sem_bind (if first then for_each (admit_batch_shape A) schemas else sem_return ()) (\<lambda>_.
     sem_bind (for_each (admit_fragment A) (zip schemas fragments)) (\<lambda>_.
     sem_bind (charge 8) (\<lambda>_.
     admit_rows A schemas False rows)))"

fun push_rows :: "'a arrays \<Rightarrow> schema list \<Rightarrow> output_row list \<Rightarrow> (arrow_output, operation_error, unit) sem" where
  "push_rows A schemas [] out = (Inr (), out)"
| "push_rows A schemas (Inl e # rows) out = (Inl e, out)"
| "push_rows A schemas (Inr (fragments, d) # rows) out =
     (case append_row A schemas fragments (out_builders out) of
        Inl e \<Rightarrow> (Inl (row_boxed e), out)
      | Inr bs \<Rightarrow> push_rows A schemas rows \<lparr>out_builders = bs, out_diffs = out_diffs out @ [d]\<rparr>)"

text \<open>A page of rows is admitted as a whole before any of its values is appended.\<close>

definition output_extend :: "'a arrays \<Rightarrow> schema list \<Rightarrow> output_row list \<Rightarrow> (arrow_output \<times> step_budget, operation_error, unit) sem" where
  "output_extend A schemas rows = (\<lambda>(out, b).
     case admit_rows A schemas (out_diffs out = []) rows b of
       (Inl e, b') \<Rightarrow> (Inl e, (out, b'))
     | (Inr _, b') \<Rightarrow>
         (case (if out_diffs out = [] \<and> rows \<noteq> []
            then map_sum row_boxed (\<lambda>bs. out\<lparr>out_builders := bs\<rparr>) (row_builders (concat (map schema_fields schemas)))
            else Inr out) of
            Inl e \<Rightarrow> (Inl e, (out, b'))
          | Inr out1 \<Rightarrow> (case push_rows A schemas rows out1 of (res, out2) \<Rightarrow> (res, (out2, b')))))"

definition output_push ::
  "'a arrays \<Rightarrow> schema list \<Rightarrow> bytes option list \<Rightarrow> i64 \<Rightarrow> (arrow_output \<times> step_budget, operation_error, unit) sem" where
  "output_push A schemas fragments d = output_extend A schemas [Inr (fragments, d)]"

definition output_finish :: "'b arrow \<Rightarrow> 'b finish \<Rightarrow> schema \<Rightarrow> arrow_output \<Rightarrow> operation_error + 'b change option" where
  "output_finish W finish schema out =
     (if out_diffs out = [] then Inr None
      else (case finish schema (out_builders out) (length (out_diffs out)) of
        Inl e \<Rightarrow> Inl e
      | Inr batch \<Rightarrow> map_sum OpChange Some (change_try_new W batch (map Some (out_diffs out)))))"

section \<open>The values in a builder\<close>

fun chunks :: "nat option list \<Rightarrow> cell_value list \<Rightarrow> cell_value list" where
  "chunks [] vs = []"
| "chunks (None # ls) vs = VNull # chunks ls vs"
| "chunks (Some n # ls) vs = VList (take n vs) # chunks ls (drop n vs)"

fun builder_values :: "builder \<Rightarrow> cell_value list" where
  "builder_values (NullBuilder n) = replicate n VNull"
| "builder_values (BooleanBuilder vs) = map (case_option VNull VBool) vs"
| "builder_values (PrimitiveBuilder w vs) = map (case_option VNull (VBits w)) vs"
| "builder_values (BytesBuilder vs) = map (case_option VNull VBytes) vs"
| "builder_values (ListBuilder items lens) = chunks lens (builder_values items)"
| "builder_values (StructBuilder cols valid) =
     map (\<lambda>i. if valid ! i then VStruct (map (\<lambda>c. builder_values c ! i) cols) else VNull) [0..<length valid]"

definition list_total :: "nat option list \<Rightarrow> nat" where
  "list_total lens = (\<Sum>l \<leftarrow> lens. case l of None \<Rightarrow> 0 | Some n \<Rightarrow> n)"

text \<open>The builders that \<open>row_builder\<close> makes and appending keeps.\<close>

inductive builder_for :: "field \<Rightarrow> builder \<Rightarrow> bool" where
  for_null: "classify (field_type f) = Some NullLayout \<Longrightarrow> builder_for f (NullBuilder n)"
| for_bool: "classify (field_type f) = Some Bitmap \<Longrightarrow> builder_for f (BooleanBuilder vs)"
| for_bits: "classify (field_type f) = Some (FixedWidth w) \<Longrightarrow> builder_for f (PrimitiveBuilder w vs)"
| for_bytes: "classify (field_type f) = Some VariableWidth \<Longrightarrow> builder_for f (BytesBuilder vs)"
| for_list: "classify (field_type f) = Some (ListLayout child) \<Longrightarrow> builder_for child items \<Longrightarrow> list_total lens = builder_len items \<Longrightarrow>
    builder_for f (ListBuilder items lens)"
| for_struct: "classify (field_type f) = Some (StructLayout children) \<Longrightarrow> list_all2 builder_for children cols \<Longrightarrow>
    \<forall>c \<in> set cols. builder_len c = length valid \<and> (\<forall>i < length valid. valid ! i \<or> builder_values c ! i = VNull) \<Longrightarrow>
    builder_for f (StructBuilder cols valid)"

inductive_cases for_listE: "builder_for f (ListBuilder items lens)"
inductive_cases for_structE: "builder_for f (StructBuilder cols valid)"

lemma length_chunks [simp]: "length (chunks lens vs) = length lens"
  by (induction lens vs rule: chunks.induct) auto

lemma length_builder_values [simp]: "length (builder_values B) = builder_len B"
  by (induction B) auto

definition load :: "builder \<Rightarrow> nat" where
  "load B = length (concat (map value_bytes (builder_values B)))"

lemma chunks_append:
  "list_total lens = length vs \<Longrightarrow> chunks (lens @ ls) (vs @ ws) = chunks lens vs @ chunks ls ws"
  by (induction lens vs rule: chunks.induct) (auto simp: list_total_def)

lemma load_chunks: "list_total lens = length vs \<Longrightarrow> length (concat (map value_bytes vs)) \<le> length (concat (map value_bytes (chunks lens vs)))"
proof (induction lens vs rule: chunks.induct)
  case (3 n ls vs)
  then have "list_total ls = length (drop n vs)" by (simp add: list_total_def)
  moreover have "concat (map value_bytes vs) = concat (map value_bytes (take n vs)) @ concat (map value_bytes (drop n vs))"
    by (simp flip: concat_append map_append)
  ultimately show ?case using 3(1) by simp
qed (auto simp: list_total_def)

lemma load_items: "builder_for f (ListBuilder items lens) \<Longrightarrow> load items \<le> load (ListBuilder items lens)"
  by (elim for_listE) (simp add: load_def load_chunks)

lemma length_concat_sum: "length (concat (map g xs)) = (\<Sum>i < length xs. length (g (xs ! i)))"
  by (simp add: length_concat sum_list_sum_nth atLeast0LessThan comp_def)

lemma load_column:
  assumes "builder_for f (StructBuilder cols valid)" "c \<in> set cols"
  shows "load c \<le> load (StructBuilder cols valid)"
proof -
  have c: "builder_len c = length valid" "\<forall>i < length valid. valid ! i \<or> builder_values c ! i = VNull"
    using assms by (auto elim!: for_structE)
  have "length (value_bytes (builder_values c ! i)) \<le> length (value_bytes (builder_values (StructBuilder cols valid) ! i))" if "i < length valid" for i
  proof (cases "valid ! i")
    case True
    have "length (value_bytes (builder_values c ! i)) \<le> (\<Sum>x \<leftarrow> map (\<lambda>c. value_bytes (builder_values c ! i)) cols. length x)"
      using assms(2) by (intro member_le_sum_list) auto
    then show ?thesis using that True by (simp add: length_concat comp_def)
  next
    case False
    then show ?thesis using that c(2) [rule_format, OF that] by simp
  qed
  then show ?thesis
    unfolding load_def length_concat_sum using c(1) by (auto intro!: sum_mono)
qed

lemma load_bytes: "k = sum_list (map (\<lambda>v. length (case v of None \<Rightarrow> [] | Some bs \<Rightarrow> bs)) vs) \<Longrightarrow> k \<le> load (BytesBuilder vs)"
proof (induction vs arbitrary: k)
  case (Cons v vs)
  then show ?case by (cases v) (auto simp: load_def intro: order.trans)
qed (simp add: load_def)

lemma load_len: "builder_len B \<le> load B"
  using length_values [of "builder_values B"] by (simp add: load_def)

section \<open>Appending a value\<close>

lemma builder_len_values: "builder_values B' = builder_values B @ [v] \<Longrightarrow> builder_len B' = Suc (builder_len B)"
  by (metis length_append_singleton length_builder_values)

text \<open>Appending a value to every column of a struct appends a struct.\<close>

lemma struct_appended:
  assumes B: "builder_for f (StructBuilder cols valid)" and children: "classify (field_type f) = Some (StructLayout children)"
    and shape: "list_all2 builder_for children cols'" "length cols' = length cols" "length vs = length cols"
    and vals: "\<And>k. k < length cols \<Longrightarrow> builder_values (cols' ! k) = builder_values (cols ! k) @ [vs ! k]"
    and absent: "\<And>k. \<not> p \<Longrightarrow> k < length cols \<Longrightarrow> vs ! k = VNull"
  shows "builder_for f (StructBuilder cols' (valid @ [p])) \<and>
    builder_values (StructBuilder cols' (valid @ [p])) = builder_values (StructBuilder cols valid) @ [if p then VStruct vs else VNull]"
proof -
  have old: "builder_len (cols ! k) = length valid" "i < length valid \<Longrightarrow> valid ! i \<or> builder_values (cols ! k) ! i = VNull"
    if "k < length cols" for k i
    using B nth_mem [OF that] by (auto elim!: for_structE)
  have len: "length (builder_values (cols ! k)) = length valid" if "k < length cols" for k using old(1) [OF that] by simp
  have keep: "builder_values (cols' ! k) ! i = builder_values (cols ! k) ! i" if "k < length cols" "i < length valid" for k i
    using vals [OF that(1)] len [OF that(1)] that(2) by (simp add: nth_append)
  have last: "builder_values (cols' ! k) ! length valid = vs ! k" if "k < length cols" for k
    using vals [OF that] len [OF that] by (simp add: nth_append)
  have "map (\<lambda>c. builder_values c ! i) cols' = map (\<lambda>c. builder_values c ! i) cols" if "i < length valid" for i
    using shape keep that by (intro nth_equalityI) auto
  moreover have "map (\<lambda>c. builder_values c ! length valid) cols' = vs"
    using shape last by (intro nth_equalityI) auto
  ultimately have whole: "builder_values (StructBuilder cols' (valid @ [p])) = builder_values (StructBuilder cols valid) @ [if p then VStruct vs else VNull]"
    by (auto simp: nth_append)
  have "builder_len (cols' ! k) = Suc (length valid)" if "k < length cols" for k
    using builder_len_values [OF vals [OF that]] old(1) [OF that] by simp
  moreover have "(valid @ [p]) ! i \<or> builder_values (cols' ! k) ! i = VNull" if "k < length cols" "i < Suc (length valid)" for k i
    using that old(2) [OF that(1)] keep [OF that(1)] last [OF that(1)] absent shape(3)
    by (cases "i = length valid") (auto simp: nth_append less_Suc_eq)
  ultimately have "builder_for f (StructBuilder cols' (valid @ [p]))"
    using shape(2) by (intro for_struct [OF children shape(1)]) (force simp: in_set_conv_nth)
  with whole show ?thesis by simp
qed

definition appends_null :: "'a arrays \<Rightarrow> field \<Rightarrow> builder \<Rightarrow> bool" where
  "appends_null A f B \<longleftrightarrow>
     (\<forall>r. \<exists>B'. append_value A True f (r, B) = (Inr (), (r, B')) \<and> builder_for f B' \<and> builder_values B' = builder_values B @ [VNull])"

lemma append_children_null:
  assumes "list_all2 (appends_null A) children cols"
  shows "\<exists>cols'. append_children A True children (r, cols) = (Inr (), (r, cols')) \<and> list_all2 builder_for children cols' \<and>
    length cols' = length cols \<and> (\<forall>k < length cols. builder_values (cols' ! k) = builder_values (cols ! k) @ [VNull])"
  using assms
proof (induction children cols rule: list_all2_induct)
  case (Cons f fs c cs)
  then obtain cs' where cs': "append_children A True fs (r, cs) = (Inr (), (r, cs'))" "list_all2 builder_for fs cs'" "length cs' = length cs"
      "\<forall>k < length cs. builder_values (cs' ! k) = builder_values (cs ! k) @ [VNull]" by blast
  obtain c' where c': "append_value A True f (r, c) = (Inr (), (r, c'))" "builder_for f c'" "builder_values c' = builder_values c @ [VNull]"
    using Cons(1) unfolding appends_null_def by blast
  have "append_children A True (f # fs) (r, c # cs) = (Inr (), (r, c' # cs'))" using c'(1) cs'(1) by simp
  moreover have "\<forall>k < length (c # cs). builder_values ((c' # cs') ! k) = builder_values ((c # cs) ! k) @ [VNull]"
    using c'(3) cs'(4) by (auto simp: nth_Cons split: nat.splits)
  ultimately show ?case using c'(2) cs'(2,3) by (intro exI [of _ "c' # cs'"]) simp
qed simp

lemmas append_simps = marker_read_def update_builder_def sem_bind_def sem_return_def reading_def

lemma append_null_ok: "builder_for f B \<Longrightarrow> appends_null A f B"
proof (induction f B rule: builder_for.induct)
  case (for_null f n)
  then show ?case by (cases f) (auto simp: appends_null_def append_simps replicate_append_same intro!: builder_for.for_null)
next
  case (for_bool f vs)
  then show ?case by (cases f) (auto simp: appends_null_def append_simps intro!: builder_for.for_bool)
next
  case (for_bits f w vs)
  then show ?case by (cases f) (auto simp: appends_null_def append_simps intro!: builder_for.for_bits)
next
  case (for_bytes f vs)
  then show ?case by (cases f) (auto simp: appends_null_def append_simps intro!: builder_for.for_bytes)
next
  case (for_list f child items lens)
  then show ?case
    using chunks_append [of lens "builder_values items" "[None]" "[]"]
    by (cases f) (auto simp: appends_null_def append_simps list_total_def intro!: builder_for.for_list)
next
  case (for_struct f children cols valid)
  have B: "builder_for f (StructBuilder cols valid)"
    using for_struct.hyps list_all2_mono [OF for_struct.IH, of builder_for] by (intro builder_for.for_struct) auto
  show ?case
    unfolding appends_null_def
  proof (intro allI)
    fix r
    obtain cols' where cols': "append_children A True children (r, cols) = (Inr (), (r, cols'))" "list_all2 builder_for children cols'"
        "length cols' = length cols" "\<forall>k < length cols. builder_values (cols' ! k) = builder_values (cols ! k) @ [VNull]"
      using append_children_null [OF list_all2_mono [OF for_struct.IH, of "appends_null A"], of r] by blast
    have "append_value A True f (r, StructBuilder cols valid) = (Inr (), (r, StructBuilder cols' (valid @ [False])))"
      using for_struct(1) cols'(1)
      by (cases f) (simp add: append_simps in_columns_def)
    moreover have "builder_for f (StructBuilder cols' (valid @ [False])) \<and>
        builder_values (StructBuilder cols' (valid @ [False])) = builder_values (StructBuilder cols valid) @ [VNull]"
      using struct_appended [OF B for_struct(1) cols'(2,3), of "replicate (length cols) VNull" False] cols'(4) by simp
    ultimately show "\<exists>B'. append_value A True f (r, StructBuilder cols valid) = (Inr (), (r, B')) \<and> builder_for f B' \<and>
        builder_values B' = builder_values (StructBuilder cols valid) @ [VNull]" by blast
  qed
qed

definition appends_val :: "'a arrays \<Rightarrow> field \<Rightarrow> cell_value \<Rightarrow> bool" where
  "appends_val A f v \<longleftrightarrow>
     (\<forall>B r. builder_for f B \<longrightarrow> load B + length (value_bytes v) \<le> i32_max \<longrightarrow>
        (\<exists>B'. append_value A False f (value_bytes v @ r, B) = (Inr (), (r, B')) \<and> builder_for f B' \<and>
           builder_values B' = builder_values B @ [v]))"

lemma appends_valE:
  assumes "appends_val A f v" "builder_for f B" "load B + length (value_bytes v) \<le> i32_max"
  obtains B' where "append_value A False f (value_bytes v @ r, B) = (Inr (), (r, B'))" "builder_for f B'"
    "builder_values B' = builder_values B @ [v]" "load B' = load B + length (value_bytes v)"
  using assms unfolding appends_val_def load_def by (auto simp: load_def)

lemma repeat_append:
  assumes "\<forall>v \<in> set vs. appends_val A f v"
  shows "builder_for f B \<Longrightarrow> load B + length (concat (map value_bytes vs)) \<le> i32_max \<Longrightarrow>
    \<exists>B'. repeat (length vs) (append_value A False f) (concat (map value_bytes vs) @ r, B) = (Inr (), (r, B')) \<and> builder_for f B' \<and>
      builder_values B' = builder_values B @ vs"
  using assms
proof (induction vs arbitrary: B)
  case (Cons v vs)
  have "appends_val A f v" "load B + length (value_bytes v) \<le> i32_max" using Cons.prems by auto
  then obtain B1 where B1: "append_value A False f (value_bytes v @ (concat (map value_bytes vs) @ r), B) = (Inr (), (concat (map value_bytes vs) @ r, B1))"
      "builder_for f B1" "builder_values B1 = builder_values B @ [v]" "load B1 = load B + length (value_bytes v)"
    using Cons.prems(1) by (rule_tac appends_valE)
  then obtain B2 where B2: "repeat (length vs) (append_value A False f) (concat (map value_bytes vs) @ r, B1) = (Inr (), (r, B2))"
      "builder_for f B2" "builder_values B2 = builder_values B1 @ vs"
    using Cons.IH [of B1] Cons.prems by auto
  show ?case using B1 B2 by (intro exI [of _ B2]) (simp add: sem_bind_def)
qed (simp add: sem_return_def)

lemma append_children_ok:
  assumes "list_all2 (appends_val A) fs vs"
  shows "list_all2 builder_for fs cols \<Longrightarrow> \<forall>c \<in> set cols. load c + length (concat (map value_bytes vs)) \<le> i32_max \<Longrightarrow>
    \<exists>cols'. append_children A False fs (concat (map value_bytes vs) @ r, cols) = (Inr (), (r, cols')) \<and> list_all2 builder_for fs cols' \<and>
      length cols' = length cols \<and> (\<forall>k < length cols. builder_values (cols' ! k) = builder_values (cols ! k) @ [vs ! k])"
  using assms
proof (induction fs vs arbitrary: cols rule: list_all2_induct)
  case (Cons f fs v vs)
  then obtain c cs where cols: "cols = c # cs" "builder_for f c" "list_all2 builder_for fs cs" by (auto simp: list_all2_Cons1)
  have "load c + length (value_bytes v) \<le> i32_max" using Cons.prems cols by auto
  then obtain c' where c': "append_value A False f (value_bytes v @ (concat (map value_bytes vs) @ r), c) = (Inr (), (concat (map value_bytes vs) @ r, c'))"
      "builder_for f c'" "builder_values c' = builder_values c @ [v]"
    using Cons(1) cols(2) by (rule_tac appends_valE)
  have small: "\<forall>c \<in> set cs. load c + length (concat (map value_bytes vs)) \<le> i32_max"
  proof
    fix x assume "x \<in> set cs"
    then have "load x + length (concat (map value_bytes (v # vs))) \<le> i32_max" using Cons.prems(2) cols(1) by simp
    then show "load x + length (concat (map value_bytes vs)) \<le> i32_max" by simp
  qed
  obtain cs' where cs': "append_children A False fs (concat (map value_bytes vs) @ r, cs) = (Inr (), (r, cs'))" "list_all2 builder_for fs cs'"
      "length cs' = length cs" "\<forall>k < length cs. builder_values (cs' ! k) = builder_values (cs ! k) @ [vs ! k]"
    using Cons.IH [OF cols(3)] small by blast
  have "\<forall>k < length cols. builder_values ((c' # cs') ! k) = builder_values (cols ! k) @ [(v # vs) ! k]"
    using c'(3) cs'(4) cols(1) by (auto simp: nth_Cons split: nat.splits)
  then show ?case using c' cs' cols(1) by (intro exI [of _ "c' # cs'"]) simp
qed simp

lemma null_marker: "append_value A False f (0 # r, B) = append_value A True f (r, B)"
  by (cases f) (simp add: append_simps cursor_u8_def cursor_take_def)

lemma u64_length: "n \<le> u64_max \<Longrightarrow> nat_of_be (be_of_nat 8 n) = n \<and> \<not> usize_max < n"
  by (simp add: nat_of_be_be_of_nat u64_max_def usize_max_def)

lemmas cursor_simps = cursor_u8_def cursor_take_def cursor_length_def cursor_bytes_def

lemma builder_forms:
  assumes "builder_for f B"
  shows "classify (field_type f) = Some Bitmap \<Longrightarrow> \<exists>vs. B = BooleanBuilder vs"
    "classify (field_type f) = Some (FixedWidth w) \<Longrightarrow> \<exists>vs. B = PrimitiveBuilder w vs"
    "classify (field_type f) = Some VariableWidth \<Longrightarrow> \<exists>vs. B = BytesBuilder vs"
    "classify (field_type f) = Some (ListLayout child) \<Longrightarrow>
       \<exists>items lens. B = ListBuilder items lens \<and> builder_for child items \<and> list_total lens = builder_len items"
    "classify (field_type f) = Some (StructLayout children) \<Longrightarrow> \<exists>cols valid. B = StructBuilder cols valid \<and> list_all2 builder_for children cols"
  using assms by (auto elim: builder_for.cases)

lemma typed_appends: "typed (from_utf8 A) f v \<Longrightarrow> appends_val A f v"
proof (induction f v rule: typed.induct)
  case (typed_null f)
  then show ?case
    using append_null_ok [of f _ A] unfolding appends_val_def appends_null_def by (auto simp: null_marker)
next
  case (typed_bool f b)
  then show ?case
    by (cases f) (auto simp: appends_val_def append_simps cursor_simps intro!: for_bool dest!: builder_forms(1))
next
  case (typed_bits f w n)
  then show ?case
    by (cases f) (auto simp: appends_val_def append_simps cursor_simps nat_of_be_be_of_nat intro!: for_bits dest!: builder_forms(2))
next
  case (typed_bytes f bs)
  show ?case
    unfolding appends_val_def
  proof (intro allI impI)
    fix B r assume B: "builder_for f B" "load B + length (value_bytes (VBytes bs)) \<le> i32_max"
    then obtain vs where vs: "B = BytesBuilder vs" using builder_forms(3) typed_bytes(1) by blast
    have "sum_list (map (\<lambda>v. length (case v of None \<Rightarrow> [] | Some bs \<Rightarrow> bs)) vs) + length bs \<le> i32_max"
      using load_bytes [OF refl, of vs] B(2) vs by simp
    then show "\<exists>B'. append_value A False f (value_bytes (VBytes bs) @ r, B) = (Inr (), (r, B')) \<and> builder_for f B' \<and>
        builder_values B' = builder_values B @ [VBytes bs]"
      using typed_bytes vs u64_length [OF typed_bytes(2)]
      by (cases f) (auto simp: append_simps cursor_simps check_offsets_def i32_max_def usize_max_def intro!: for_bytes)
  qed
next
  case (typed_list f child vs)
  show ?case
    unfolding appends_val_def
  proof (intro allI impI)
    fix B r assume B: "builder_for f B" "load B + length (value_bytes (VList vs)) \<le> i32_max"
    then obtain items lens where items: "B = ListBuilder items lens" "builder_for child items" "list_total lens = builder_len items"
      using builder_forms(4) [OF _ typed_list(1)] by blast
    have small: "load items + length (concat (map value_bytes vs)) \<le> i32_max" using load_items B items(1) by fastforce
    obtain items' where items': "repeat (length vs) (append_value A False child) (concat (map value_bytes vs) @ r, items) = (Inr (), (r, items'))"
        "builder_for child items'" "builder_values items' = builder_values items @ vs"
      using repeat_append [OF _ items(2) small] typed_list.IH by blast
    have len: "builder_len items' = builder_len items + length vs" using arg_cong [OF items'(3), of length] by simp
    have "builder_len items + length vs \<le> i32_max"
      using load_len [of items] length_values [of vs] small by simp
    then have "append_value A False f (value_bytes (VList vs) @ r, B) = (Inr (), (r, ListBuilder items' (lens @ [Some (length vs)])))"
      using typed_list items items'(1) u64_length [of "length vs"]
      by (cases f) (auto simp: append_simps cursor_simps check_offsets_def in_items_def i32_max_def usize_max_def)
    moreover have "builder_for f (ListBuilder items' (lens @ [Some (length vs)]))"
      using typed_list(1) items'(2) items(3) len by (intro for_list) (auto simp: list_total_def)
    moreover have "builder_values (ListBuilder items' (lens @ [Some (length vs)])) = builder_values B @ [VList vs]"
      using chunks_append [of lens "builder_values items" "[Some (length vs)]" vs] items items'(3) by simp
    ultimately show "\<exists>B'. append_value A False f (value_bytes (VList vs) @ r, B) = (Inr (), (r, B')) \<and> builder_for f B' \<and>
        builder_values B' = builder_values B @ [VList vs]" by blast
  qed
next
  case (typed_struct f children vs)
  show ?case
    unfolding appends_val_def
  proof (intro allI impI)
    fix B r assume B: "builder_for f B" "load B + length (value_bytes (VStruct vs)) \<le> i32_max"
    then obtain cols valid where cols: "B = StructBuilder cols valid" "list_all2 builder_for children cols"
      using builder_forms(5) [OF _ typed_struct(1)] by blast
    have small: "\<forall>c \<in> set cols. load c + length (concat (map value_bytes vs)) \<le> i32_max"
      using load_column [OF B(1) [unfolded cols(1)]] B(2) cols(1) by fastforce
    have vals: "list_all2 (appends_val A) children vs" using typed_struct.IH by (rule list_all2_mono) simp
    obtain cols' where cols': "append_children A False children (concat (map value_bytes vs) @ r, cols) = (Inr (), (r, cols'))"
        "list_all2 builder_for children cols'" "length cols' = length cols"
        "\<forall>k < length cols. builder_values (cols' ! k) = builder_values (cols ! k) @ [vs ! k]"
      using append_children_ok [OF vals cols(2) small] by blast
    have len: "length vs = length cols" using vals cols(2) by (metis list_all2_lengthD)
    have "append_value A False f (value_bytes (VStruct vs) @ r, B) = (Inr (), (r, StructBuilder cols' (valid @ [True])))"
      using typed_struct(1) cols(1) cols'(1) by (cases f) (auto simp: append_simps cursor_simps in_columns_def)
    moreover have "builder_for f (StructBuilder cols' (valid @ [True])) \<and>
        builder_values (StructBuilder cols' (valid @ [True])) = builder_values B @ [VStruct vs]"
      using struct_appended [OF B(1) [unfolded cols(1)] typed_struct(1) cols'(2,3) len, of True] cols'(4) cols(1) by simp
    ultimately show "\<exists>B'. append_value A False f (value_bytes (VStruct vs) @ r, B) = (Inr (), (r, B')) \<and> builder_for f B' \<and>
        builder_values B' = builder_values B @ [VStruct vs]" by blast
  qed
qed

section \<open>Admission\<close>

text \<open>What is admitted is the canonical encoding of a value of the field's type.\<close>

definition reads_val :: "(bytes \<Rightarrow> bool) \<Rightarrow> field \<Rightarrow> (bytes \<times> nat) row_op \<Rightarrow> bool" where
  "reads_val u f m \<longleftrightarrow> (\<forall>bs sz r sz'. m (bs, sz) = (Inr (), (r, sz')) \<longrightarrow> (\<exists>v. typed u f v \<and> bs = value_bytes v @ r))"

lemma reading_Inr: "reading m (bs, t) = (Inr x, (bs', t')) \<longleftrightarrow> m bs = (Inr x, bs') \<and> t' = t"
  by (auto simp: reading_def split: prod.splits)

lemma counting_Inr: "counting m (bs, t) = (Inr x, (bs', t')) \<longleftrightarrow> m t = (Inr x, t') \<and> bs' = bs"
  by (auto simp: counting_def split: prod.splits)

lemma throw_Inr: "sem_throw e s \<noteq> (Inr b, t)"
  by (simp add: sem_throw_def)

lemma cursor_take_Inr: "cursor_take n bs = (Inr v, r) \<longleftrightarrow> bs = v @ r \<and> length v = n"
  by (auto simp: cursor_take_def)

lemma cursor_u8_Inr: "cursor_u8 bs = (Inr b, r) \<longleftrightarrow> bs = b # r"
  by (auto simp: cursor_u8_def sem_bind_Inr cursor_take_Inr sem_return_def length_Suc_conv)

lemma be8_of_length: "length v = 8 \<Longrightarrow> be_of_nat 8 (nat_of_be v) = v \<and> nat_of_be v \<le> u64_max"
  using be_of_nat_nat_of_be [of v] nat_of_be_less [of v] by (simp add: u64_max_def)

lemma cursor_length_Inr: "cursor_length bs = (Inr n, r) \<Longrightarrow> bs = be_of_nat 8 n @ r \<and> n \<le> u64_max"
  using be8_of_length by (auto simp: cursor_length_def sem_bind_Inr cursor_take_Inr sem_return_def throw_Inr split: if_splits)

lemma cursor_bytes_Inr: "cursor_bytes bs = (Inr v, r) \<Longrightarrow> bs = be_of_nat 8 (length v) @ v @ r \<and> length v \<le> u64_max"
  by (auto simp: cursor_bytes_def sem_bind_Inr cursor_take_Inr dest!: cursor_length_Inr)

lemmas run_simps = sem_bind_Inr reading_Inr counting_Inr throw_Inr cursor_u8_Inr cursor_take_Inr

lemma repeat_reads:
  assumes "reads_val u f m"
  shows "repeat n m (bs, sz) = (Inr (), (r, sz')) \<Longrightarrow> \<exists>vs. length vs = n \<and> (\<forall>v \<in> set vs. typed u f v) \<and> bs = concat (map value_bytes vs) @ r"
proof (induction n arbitrary: bs sz)
  case (Suc n)
  then obtain bs1 sz1 where step: "m (bs, sz) = (Inr (), (bs1, sz1))" "repeat n m (bs1, sz1) = (Inr (), (r, sz'))"
    by (auto simp: sem_bind_Inr)
  from Suc.IH [OF step(2)] obtain vs where "length vs = n" "\<forall>v \<in> set vs. typed u f v" "bs1 = concat (map value_bytes vs) @ r" by blast
  moreover obtain v where "typed u f v" "bs = value_bytes v @ bs1" using assms step(1) unfolding reads_val_def by blast
  ultimately show ?case by (intro exI [of _ "v # vs"]) simp
qed (simp add: sem_return_def)

lemma check_reads:
  assumes "\<And>dt w. classify dt = Some (FixedWidth w) \<Longrightarrow> primitive_width A dt = Some w"
  shows "field_ok d f \<Longrightarrow> reads_val (from_utf8 A) f (check_value A limit f)"
    and "fields_ok d fs \<Longrightarrow> check_children A limit fs (bs, sz) = (Inr (), (r, sz')) \<Longrightarrow>
      \<exists>vs. list_all2 (typed (from_utf8 A)) fs vs \<and> bs = concat (map value_bytes vs) @ r"
  using assms
proof (induction A limit f and A limit fs arbitrary: d and d bs sz r sz' rule: check_value_check_children.induct)
  case (1 A limit name dt nl md)
  let ?f = "Field name dt nl md" and ?u = "from_utf8 A"
  note kids = field_ok_children [OF 1(3)]
  obtain layout where layout: "classify dt = Some layout" using kids(1) by auto
  show ?case
    unfolding reads_val_def
  proof (intro allI impI)
    fix bs sz r sz' assume "check_value A limit ?f (bs, sz) = (Inr (), (r, sz'))"
    then obtain marker bs1 where bs: "bs = marker # bs1" and
      run: "(if marker = 0 then
         (if \<not> nl \<and> dt \<noteq> Null then sem_throw (UnexpectedNull name)
          else counting (decoded_array_shape A limit (Field name dt nl md) 1))
       else if marker = 1 then
         (case classify dt of
            Some NullLayout \<Rightarrow> sem_throw InvalidNullMarker
          | Some Bitmap \<Rightarrow>
              sem_bind (reading cursor_u8) (\<lambda>b.
              if b > 1 then sem_throw InvalidBoolean else counting (add_size 2 limit))
          | Some VariableWidth \<Rightarrow>
              sem_bind (reading cursor_bytes) (\<lambda>value.
              if length value > i32_max then sem_throw LengthOverflow
              else if dt = Utf8 \<and> \<not> from_utf8 A value then sem_throw InvalidUtf8
              else counting (add_size (saturating_add (length value) 5) limit))
          | Some (ListLayout child) \<Rightarrow>
              sem_bind (reading cursor_length) (\<lambda>n.
              if n > i32_max then sem_throw LengthOverflow
              else
                (\<lambda>(bs, sz).
                   if n > length bs then (Inl Truncated, (bs, sz))
                   else sem_bind (counting (add_size 5 limit)) (\<lambda>_. repeat n (check_value A limit child)) (bs, sz)))
          | Some (StructLayout children) \<Rightarrow>
              sem_bind (counting (add_size 1 limit)) (\<lambda>_. check_children A limit children)
          | _ \<Rightarrow>
              (case primitive_width A dt of
                 None \<Rightarrow> sem_throw InvalidValue
               | Some w \<Rightarrow> sem_bind (reading (cursor_skip w)) (\<lambda>_. counting (add_size (w + 1) limit))))
       else sem_throw InvalidNullMarker) (bs1, sz) = (Inr (), (r, sz'))"
      by (auto simp: run_simps)
    show "\<exists>v. typed ?u ?f v \<and> bs = value_bytes v @ r"
    proof (cases "marker = 0")
      case True
      then show ?thesis
        using run bs by (intro exI [of _ VNull]) (auto simp: run_simps intro: typed_null split: if_splits)
    next
      case False
      then have marker: "marker = 1" using run by (auto simp: run_simps split: if_splits)
      show ?thesis
      proof (cases layout)
        case NullLayout
        then show ?thesis using run marker layout by (simp add: run_simps)
      next
        case Bitmap
        then obtain b where b: "bs1 = b # r" "\<not> b > 1" using run marker layout by (auto simp: run_simps split: if_splits)
        then have "unat b = 0 \<or> unat b = 1" by (auto simp: word_less_nat_alt)
        then have "b = 0 \<or> b = 1" by (auto simp: word_unat_eq_iff)
        then show ?thesis using bs b marker Bitmap layout
          by (intro exI [of _ "VBool (b = 1)"]) (auto intro: typed_bool)
      next
        case (FixedWidth w)
        then obtain v where v: "bs1 = v @ r" "length v = w"
          using run marker layout 1(4) by (auto simp: run_simps cursor_skip_def sem_return_def)
        then show ?thesis using bs marker FixedWidth layout be_of_nat_nat_of_be [of v] nat_of_be_less [of v]
          by (intro exI [of _ "VBits w (nat_of_be v)"]) (auto intro: typed_bits)
      next
        case VariableWidth
        then obtain v where v: "bs1 = be_of_nat 8 (length v) @ v @ r" "length v \<le> u64_max" "dt = Utf8 \<longrightarrow> ?u v"
          using run marker layout by (auto simp: run_simps dest!: cursor_bytes_Inr split: if_splits)
        then show ?thesis using bs marker VariableWidth layout by (intro exI [of _ "VBytes v"]) (auto intro: typed_bytes)
      next
        case (ListLayout child)
        then obtain n bs2 sz1 where n: "bs1 = be_of_nat 8 n @ bs2" "n \<le> u64_max" "repeat n (check_value A limit child) (bs2, sz1) = (Inr (), (r, sz'))"
          using run marker layout by (auto simp: run_simps dest!: cursor_length_Inr split: if_splits)
        have "reads_val ?u child (check_value A limit child)"
          by (rule 1(1) [where x = 1 and xa = 0 and xb = "[]" and d = "Suc d"]) (use layout ListLayout kids(2) 1(4) in auto)
        from repeat_reads [OF this n(3)] obtain vs where "length vs = n" "\<forall>v \<in> set vs. typed ?u child v" "bs2 = concat (map value_bytes vs) @ r"
          by blast
        then show ?thesis using bs marker ListLayout layout n by (intro exI [of _ "VList vs"]) (auto intro: typed_list)
      next
        case (StructLayout children)
        then obtain sz1 where "check_children A limit children (bs1, sz1) = (Inr (), (r, sz'))"
          using run marker layout by (auto simp: run_simps)
        then obtain vs where "list_all2 (typed ?u) children vs" "bs1 = concat (map value_bytes vs) @ r"
          using 1(2) [of 1 layout children "Suc d" bs1 sz1 r sz'] layout StructLayout kids(3) 1(4) by auto
        then show ?thesis using bs marker StructLayout layout by (intro exI [of _ "VStruct vs"]) (auto intro: typed_struct)
      qed
    qed
  qed
next
  case (2 A limit f fs)
  then obtain bs1 sz1 where step: "check_value A limit f (bs, sz) = (Inr (), (bs1, sz1))" "check_children A limit fs (bs1, sz1) = (Inr (), (r, sz'))"
    by (auto simp: sem_bind_Inr)
  obtain v where "typed (from_utf8 A) f v" "bs = value_bytes v @ bs1"
    using 2(1,3,5) step(1) unfolding reads_val_def by (metis fields_ok.simps(2))
  moreover obtain vs where "list_all2 (typed (from_utf8 A)) fs vs" "bs1 = concat (map value_bytes vs) @ r"
    using 2(2,3,5) step(2) by (metis fields_ok.simps(2))
  ultimately show ?case by (intro exI [of _ "v # vs"]) simp
qed (auto simp: sem_return_def)

section \<open>Decoding rows\<close>

lemma append_fields_children:
  "length builders = length fs \<Longrightarrow>
   append_fields A p fs bs (builders @ rest) =
     (case append_children A p fs (bs, builders) of (Inl e, _) \<Rightarrow> Inl e | (Inr _, (bs', builders')) \<Rightarrow> Inr (bs', builders', rest))"
proof (induction fs arbitrary: bs builders)
  case (Cons f fs)
  then obtain B Bs where "builders = B # Bs" "length Bs = length fs" by (cases builders) auto
  then show ?case using Cons.IH by (auto split: prod.splits sum.splits)
qed simp

lemma builder_exists:
  "field_ok d f \<Longrightarrow> \<exists>B. row_builder (field_type f) = Inr B \<and> builder_for f B \<and> builder_values B = []"
  "fields_ok d fs \<Longrightarrow> \<exists>Bs. row_builders fs = Inr Bs \<and> list_all2 builder_for fs Bs \<and> (\<forall>B \<in> set Bs. builder_values B = [])"
proof (induction "field_type f" and fs arbitrary: d f and d rule: row_builder_row_builders.induct)
  case 1
  obtain name dt nl md where f: "f = Field name dt nl md" by (cases f)
  note kids = field_ok_children [OF 1(3) [unfolded f]]
  obtain layout where layout: "classify dt = Some layout" using kids(1) by auto
  show ?case
  proof (cases layout)
    case (ListLayout child)
    then obtain B where "row_builder (field_type child) = Inr B" "builder_for child B" "builder_values B = []"
      using 1(1) [of layout child child "Suc d"] kids(2) layout f by auto
    then show ?thesis
      using f layout ListLayout length_builder_values [of B] by (auto simp: list_total_def intro!: for_list)
  next
    case (StructLayout children)
    then obtain Bs where "row_builders children = Inr Bs" "list_all2 builder_for children Bs" "\<forall>B \<in> set Bs. builder_values B = []"
      using 1(2) [of layout children "Suc d"] kids(3) layout f by auto
    moreover from this have "\<forall>B \<in> set Bs. builder_len B = 0" by (metis length_builder_values list.size(3))
    ultimately show ?thesis using f layout StructLayout by (auto intro!: for_struct)
  qed (use f layout in \<open>auto intro: builder_for.intros\<close>)
next
  case (3 f fs)
  then obtain B Bs where "row_builder (field_type f) = Inr B" "builder_for f B" "builder_values B = []"
      "row_builders fs = Inr Bs" "list_all2 builder_for fs Bs" "\<forall>B \<in> set Bs. builder_values B = []"
    by (metis fields_ok.simps(2))
  then show ?case by simp
qed simp

definition row_bytes :: "cell_value list \<Rightarrow> bytes" where
  "row_bytes vs = concat (map value_bytes vs)"

lemma nth_row_bytes: "k < length vs \<Longrightarrow> length (value_bytes (vs ! k)) \<le> length (row_bytes vs)"
  unfolding row_bytes_def by (induction vs arbitrary: k) (auto simp: nth_Cons intro: trans_le_add2 split: nat.splits)

lemma append_row_ok:
  assumes "list_all2 (typed (from_utf8 A)) (schema_fields schema) vs" "list_all2 builder_for (schema_fields schema) cols"
    "\<forall>c \<in> set cols. load c + length (row_bytes vs) \<le> i32_max"
  shows "\<exists>cols'. append_row A [schema] [Some (row_bytes vs), None] cols = Inr cols' \<and> list_all2 builder_for (schema_fields schema) cols' \<and>
    (\<forall>k < length cols. builder_values (cols' ! k) = builder_values (cols ! k) @ [vs ! k])"
proof -
  have vals: "list_all2 (appends_val A) (schema_fields schema) vs" using assms(1) by (rule list_all2_mono) (rule typed_appends)
  obtain cols' where cols': "append_children A False (schema_fields schema) (row_bytes vs, cols) = (Inr (), ([], cols'))"
      "list_all2 builder_for (schema_fields schema) cols'" "\<forall>k < length cols. builder_values (cols' ! k) = builder_values (cols ! k) @ [vs ! k]"
    using append_children_ok [OF vals assms(2), of "[]"] assms(3) by (auto simp: row_bytes_def)
  have "length cols = length (schema_fields schema)" using assms(2) by (simp add: list_all2_lengthD)
  from append_fields_children [OF this, of A False "row_bytes vs" "[]"] cols' show ?thesis by (auto simp: cursor_finish_def)
qed

lemma append_rows_ok:
  assumes "\<forall>vs \<in> set vss. list_all2 (typed (from_utf8 A)) (schema_fields schema) vs"
  shows "list_all2 builder_for (schema_fields schema) cols \<Longrightarrow> \<forall>c \<in> set cols. load c + (\<Sum>vs \<leftarrow> vss. length (row_bytes vs)) \<le> i32_max \<Longrightarrow>
    \<exists>cols'. append_rows A schema (map row_bytes vss) cols = Inr cols' \<and> length cols' = length cols \<and>
      (\<forall>k < length cols. builder_values (cols' ! k) = builder_values (cols ! k) @ map (\<lambda>vs. vs ! k) vss)"
  using assms
proof (induction vss arbitrary: cols)
  case (Cons vs vss)
  have len: "length vs = length cols" using Cons.prems by (simp add: list_all2_lengthD [symmetric]) (metis list_all2_lengthD)
  have small: "\<forall>c \<in> set cols. load c + length (row_bytes vs) \<le> i32_max"
  proof
    fix c assume "c \<in> set cols"
    then have "load c + (\<Sum>vs \<leftarrow> vs # vss. length (row_bytes vs)) \<le> i32_max" using Cons.prems(2) by blast
    then show "load c + length (row_bytes vs) \<le> i32_max" by simp
  qed
  obtain cols1 where cols1: "append_row A [schema] [Some (row_bytes vs), None] cols = Inr cols1" "list_all2 builder_for (schema_fields schema) cols1"
      "\<forall>k < length cols. builder_values (cols1 ! k) = builder_values (cols ! k) @ [vs ! k]"
    using append_row_ok [of A, OF _ Cons.prems(1) small] Cons.prems(3) by (meson list.set_intros(1))
  have len1: "length cols1 = length cols" using cols1(2) Cons.prems(1) by (metis list_all2_lengthD)
  have "load (cols1 ! k) \<le> load (cols ! k) + length (row_bytes vs)" if "k < length cols" for k
    using cols1(3) that nth_row_bytes [of k vs] len by (simp add: load_def)
  moreover have "load (cols ! k) + length (row_bytes vs) + (\<Sum>vs \<leftarrow> vss. length (row_bytes vs)) \<le> i32_max" if "k < length cols" for k
    using Cons.prems(2) nth_mem [OF that] by (metis (no_types, lifting) add.assoc list.simps(9) sum_list.Cons)
  ultimately have small1: "load (cols1 ! k) + (\<Sum>vs \<leftarrow> vss. length (row_bytes vs)) \<le> i32_max" if "k < length cols" for k
    using that by (meson add_le_mono1 order.trans)
  then have "\<forall>c \<in> set cols1. load c + (\<Sum>vs \<leftarrow> vss. length (row_bytes vs)) \<le> i32_max"
    using len1 by (auto simp: in_set_conv_nth)
  then obtain cols' where "append_rows A schema (map row_bytes vss) cols1 = Inr cols'" "length cols' = length cols1"
      "\<forall>k < length cols1. builder_values (cols' ! k) = builder_values (cols1 ! k) @ map (\<lambda>vs. vs ! k) vss"
    using Cons.IH [OF cols1(2)] Cons.prems(3) by auto
  then show ?case using cols1 len1 by auto
qed auto

lemma decoded_sizeD:
  assumes "arrays_laws A ok" "fields_ok 0 fs" "decoded_size A fs row limit = Inr sz"
  shows "\<exists>vs. list_all2 (typed (from_utf8 A)) fs vs \<and> row = row_bytes vs"
proof -
  obtain sz' where "check_children A limit fs (row, 0) = (Inr (), ([], sz'))"
    using assms(3) by (auto simp: decoded_size_def cursor_finish_def split: prod.splits sum.splits if_splits)
  then show ?thesis
    using check_reads(2) [of A 0 fs limit row 0 "[]" sz'] assms(1,2) by (auto simp: arrays_laws_def row_bytes_def)
qed

section \<open>Properties\<close>

text \<open>
  C33: computing the size of a row agrees with encoding it: under any limit both succeed, with exactly that many bytes, or both fail
  because of the limit. The shortcut for lists of items of one size is sound.
\<close>

theorem row_size_agrees:
  assumes "arrays_laws (arrays T) ok" "batch_ok T ok b" "i < batch_rows (columnar_arrow T) b"
  shows "case canonical_row_bounded T b i limit of
      Inr bs \<Rightarrow> canonical_row_size_bounded T b i limit = Inr (length bs) \<and> canonical_row_bounded T b i (length bs) = Inr bs
    | Inl e \<Rightarrow> is_limit e \<and> (\<exists>e'. canonical_row_size_bounded T b i limit = Inl e' \<and> is_limit e')"
  using canonical_row [OF assms refl, of limit] canonical_row [OF assms refl, of "length (concat (map value_bytes (row_values T b i)))"]
  by (auto simp: within_def split: if_splits)

text \<open>Arrays of one column for the witnesses: values of one type, each null or the number of its bits.\<close>

definition sample_arrays :: "(data_type \<times> nat option list) arrays" where
  "sample_arrays =
     \<lparr>array_type = fst, array_len = (\<lambda>a. length (snd a)), array_is_null = (\<lambda>a i. i < length (snd a) \<and> snd a ! i = None),
      null_count = (\<lambda>a. length (filter (\<lambda>x. x = None) (snd a))), bool_at = (\<lambda>_ _. False),
      bits_at = (\<lambda>a i. if i < length (snd a) then (case snd a ! i of None \<Rightarrow> 0 | Some n \<Rightarrow> n) else 0), bytes_at = (\<lambda>_ _. []),
      list_at = (\<lambda>a _. a), struct_columns = (\<lambda>_. []),
      primitive_width = (\<lambda>dt. case classify dt of Some (FixedWidth w) \<Rightarrow> Some w | _ \<Rightarrow> None), from_utf8 = (\<lambda>_. True)\<rparr>"

definition sample_ok :: "data_type \<times> nat option list \<Rightarrow> bool" where
  "sample_ok a \<longleftrightarrow> fst a = Int64 \<and> length (snd a) \<le> u64_max \<and> (\<forall>n. Some n \<in> set (snd a) \<longrightarrow> n < 256 ^ 8)"

definition sample_table :: "(data_type \<times> nat option list, nat option list) columnar" where
  "sample_table =
     \<lparr>columnar_arrow = \<lparr>batch_rows = length, batch_columns = (\<lambda>_. 1), batch_slice = (\<lambda>b offset len. take len (drop offset b)),
        batch_schema = (\<lambda>_. \<lparr>schema_fields = [Field ''n'' Int64 True []], schema_metadata = []\<rparr>), batch_decimals = (\<lambda>_. Inr ())\<rparr>,
      batch_arrays = (\<lambda>b. [(Int64, b)]), arrays = sample_arrays\<rparr>"

lemma sample_arrays_laws: "arrays_laws sample_arrays sample_ok"
proof -
  have "(case classify dt of Some (FixedWidth w) \<Rightarrow> Some w | _ \<Rightarrow> None) = Some w" if "classify dt = Some (FixedWidth w)" for dt w
    using that by simp
  moreover have "(filter (\<lambda>x. x = None) xs = []) = (\<forall>i < length xs. xs ! i \<noteq> None)" for xs :: "nat option list"
    by (auto simp: filter_empty_conv in_set_conv_nth)
  moreover have "(if i < length xs then case xs ! i of None \<Rightarrow> 0 | Some n \<Rightarrow> n else 0) < 256 ^ 8"
    if "\<forall>n. Some n \<in> set xs \<longrightarrow> n < 256 ^ 8" for xs :: "nat option list" and i :: nat
    using that by (cases "i < length xs"; cases "xs ! i") (simp_all, metis nth_mem)
  ultimately show ?thesis
    unfolding arrays_laws_def sample_arrays_def sample_ok_def no_nulls_def by (auto simp: arrays.simps)
qed

lemma sample_batch_ok: "batch_ok sample_table sample_ok [Some 7, None]"
  by (auto simp: batch_ok_def sample_table_def sample_arrays_def sample_ok_def cell_ok_def metadata_ok_def starts_with_def
      RESERVED_FIELD_PREFIX_def u64_max_def)

lemma row_size_agrees_witness:
  "canonical_row_size_bounded sample_table [Some 7, None] 0 100 = Inr 9 \<and>
   (case canonical_row_bounded sample_table [Some 7, None] 0 100 of Inr bs \<Rightarrow> length bs = 9 | Inl e \<Rightarrow> False)"
proof -
  have "canonical_row_bounded sample_table [Some 7, None] 0 100 = Inr (1 # be_of_nat 8 7)"
    by (simp add: canonical_row_bounded_def sample_table_def sample_arrays_def append_bytes_def push_byte_def require_capacity_def
        checked_add_usize_def usize_max_def sem_bind_def sem_return_def)
  then show ?thesis
    using row_size_agrees [of sample_table sample_ok "[Some 7, None]" 0 100] sample_arrays_laws sample_batch_ok
    by (simp add: sample_table_def)
qed

text \<open>
  C34: the canonical bytes are the identity of a row: two rows of one schema have the same bytes exactly if they have the same values,
  nested values and nulls included.
\<close>

theorem row_identity:
  assumes "arrays_laws (arrays T) ok" "batch_ok T ok b" "batch_ok T ok b'"
    "schema_fields (batch_schema (columnar_arrow T) b) = schema_fields (batch_schema (columnar_arrow T) b')"
    and "canonical_row_bounded T b i limit = Inr bs" "canonical_row_bounded T b' j limit' = Inr bs'"
  shows "bs = bs' \<longleftrightarrow> row_values T b i = row_values T b' j"
proof -
  have i: "i < batch_rows (columnar_arrow T) b" "j < batch_rows (columnar_arrow T) b'"
    using assms(5,6) by (auto simp: canonical_row_bounded_def split: if_splits)
  have eqs: "bs = row_bytes (row_values T b i)" "bs' = row_bytes (row_values T b' j)"
    using canonical_row [OF assms(1,2) i(1) refl, of limit] canonical_row [OF assms(1,3) i(2) refl, of limit'] assms(5,6)
    by (auto simp: row_bytes_def split: if_splits)
  show ?thesis
    using row_bytes_inject [OF row_values_typed [OF assms(1,2) i(1)] row_values_typed [OF assms(1,3) i(2), folded assms(4)]]
    by (auto simp: eqs row_bytes_def)
qed

lemma row_identity_witness:
  "\<exists>x y. canonical_row_bounded sample_table [Some 7, None] 0 100 = Inr x \<and> canonical_row_bounded sample_table [Some 7, None] 1 100 = Inr y \<and> x \<noteq> y"
proof -
  have x: "canonical_row_bounded sample_table [Some 7, None] 0 100 = Inr (1 # be_of_nat 8 7)"
    and y: "canonical_row_bounded sample_table [Some 7, None] 1 100 = Inr [0]"
    by (simp_all add: canonical_row_bounded_def sample_table_def sample_arrays_def append_bytes_def push_byte_def require_capacity_def
        checked_add_usize_def usize_max_def sem_bind_def sem_return_def)
  have "row_values sample_table [Some 7, None] 0 \<noteq> row_values sample_table [Some 7, None] 1"
    by (simp add: row_values_def sample_table_def sample_arrays_def)
  then show ?thesis
    using row_identity [OF _ sample_batch_ok sample_batch_ok refl x y] sample_arrays_laws x y by (simp add: sample_table_def)
qed

text \<open>
  C35: bytes that were admitted are canonical encodings of typed rows, and appending them cannot fail while the batch fits Arrow's 32-bit
  offsets: the builders then hold exactly those values, column by column, and encoding them again gives the bytes.
\<close>

theorem admitted_rows_decode:
  assumes "arrays_laws A ok" "fields_ok 0 (schema_fields schema)"
    and "\<forall>row \<in> set rows. \<exists>limit sz. decoded_size A (schema_fields schema) row limit = Inr sz" "(\<Sum>row \<leftarrow> rows. length row) \<le> i32_max"
  shows "\<exists>vss builders cols.
    (\<forall>vs \<in> set vss. list_all2 (typed (from_utf8 A)) (schema_fields schema) vs) \<and> rows = map row_bytes vss \<and>
    row_builders (schema_fields schema) = Inr builders \<and> append_rows A schema rows builders = Inr cols \<and>
    length cols = length (schema_fields schema) \<and>
    (\<forall>k < length cols. builder_values (cols ! k) = map (\<lambda>vs. vs ! k) vss)"
proof -
  have "\<forall>row \<in> set rows. \<exists>vs. list_all2 (typed (from_utf8 A)) (schema_fields schema) vs \<and> row = row_bytes vs"
    using assms(3) decoded_sizeD [OF assms(1,2)] by blast
  then obtain g where g: "\<forall>row \<in> set rows. list_all2 (typed (from_utf8 A)) (schema_fields schema) (g row) \<and> row = row_bytes (g row)"
    by metis
  define vss where "vss = map g rows"
  have vss: "\<forall>vs \<in> set vss. list_all2 (typed (from_utf8 A)) (schema_fields schema) vs" "rows = map row_bytes vss"
    using g by (auto simp: vss_def map_idI comp_def)
  obtain Bs where Bs: "row_builders (schema_fields schema) = Inr Bs" "list_all2 builder_for (schema_fields schema) Bs"
      "\<forall>B \<in> set Bs. builder_values B = []" using builder_exists(2) [OF assms(2)] by blast
  have "\<forall>c \<in> set Bs. load c + (\<Sum>vs \<leftarrow> vss. length (row_bytes vs)) \<le> i32_max"
    using Bs(3) assms(4) vss(2) by (simp add: load_def comp_def)
  from append_rows_ok [OF vss(1) Bs(2) this] obtain cols where cols: "append_rows A schema (map row_bytes vss) Bs = Inr cols"
      "length cols = length Bs" "\<forall>k < length Bs. builder_values (cols ! k) = builder_values (Bs ! k) @ map (\<lambda>vs. vs ! k) vss" by blast
  have "length cols = length (schema_fields schema)" "\<forall>k < length cols. builder_values (cols ! k) = map (\<lambda>vs. vs ! k) vss"
    using cols(2,3) Bs(2,3) by (simp_all add: list_all2_lengthD)
  with vss Bs(1) cols(1) show ?thesis by blast
qed

lemma admitted_rows_decode_witness:
  "\<exists>cols. append_rows sample_arrays \<lparr>schema_fields = [Field ''n'' Int64 True []], schema_metadata = []\<rparr> [[0]] [PrimitiveBuilder 8 []] = Inr cols \<and>
     length cols = 1"
proof -
  let ?s = "\<lparr>schema_fields = [Field ''n'' Int64 True []], schema_metadata = []\<rparr> :: schema"
  have "decoded_size sample_arrays (schema_fields ?s) [0] 100 = Inr 9"
    by (simp add: decoded_size_def sem_bind_def reading_def cursor_u8_def cursor_take_def sem_return_def counting_def add_size_def
        checked_add_usize_def usize_max_def saturating_mul_def cursor_finish_def sample_arrays_def)
  then have "\<forall>row \<in> set [[0]]. \<exists>limit sz. decoded_size sample_arrays (schema_fields ?s) row limit = Inr sz" by auto
  moreover have "fields_ok 0 (schema_fields ?s)"
    by (simp add: metadata_ok_def starts_with_def RESERVED_FIELD_PREFIX_def)
  moreover have "row_builders (schema_fields ?s) = Inr [PrimitiveBuilder 8 []]" by simp
  ultimately show ?thesis
    using admitted_rows_decode [OF sample_arrays_laws, of ?s "[[0]]"] by (auto simp: i32_max_def)
qed

end
