(* ===== verification/Transform_Core.thy ===== *)
theory Transform_Core
  imports Source_Contract Relation_Decode
begin

text \<open>
  What the transforms of \<^verbatim>\<open>crates/operation/src/operation/transform\<close> share: the logical size of a change
  (\<^verbatim>\<open>logical_change_bytes\<close> of \<^verbatim>\<open>compute.rs\<close>), calls inside a step, and the contract of an atomic operation.

  Arrow is a parameter: \<open>tables\<close> adds to \<open>columnar\<close> the accessors that the size needs and the filter kernel, and
  \<open>tables_laws\<close> is what Arrow documents of them. A change is read as the list of its events, a row and its difference
  each. \<open>atomic_contract\<close> is the locale of what the scheduler relies on in an atomic operation: it writes its own data only,
  spends its budget, and does not panic on valid input, whatever the store holds.
\<close>

section \<open>Logical sizes\<close>

record ('a, 'b) tables =
  table_columns :: "('a, 'b) columnar"
  nulls_present :: "'a \<Rightarrow> bool"
  value_offset :: "'a \<Rightarrow> nat \<Rightarrow> int"
  list_values :: "'a \<Rightarrow> 'a"
  array_slice :: "'a \<Rightarrow> nat \<Rightarrow> nat \<Rightarrow> 'a"
  filter_batch :: "'b \<Rightarrow> bool list \<Rightarrow> string + 'b"

abbreviation table_arrays :: "('a, 'b) tables \<Rightarrow> 'a arrays" where
  "table_arrays T \<equiv> arrays (table_columns T)"

abbreviation table_arrow :: "('a, 'b) tables \<Rightarrow> 'b arrow" where
  "table_arrow T \<equiv> columnar_arrow (table_columns T)"

definition div_ceil :: "nat \<Rightarrow> nat \<Rightarrow> nat" where
  "div_ceil n d = (n + d - 1) div d"

text \<open>\<^verbatim>\<open>usize::try_from\<close> of the distance of two offsets of an array; \<open>None\<close> is the panic of its \<^verbatim>\<open>expect\<close>.\<close>

definition offset_span :: "('a, 'b) tables \<Rightarrow> 'a \<Rightarrow> nat option" where
  "offset_span T a =
     (let span = value_offset T a (array_len (table_arrays T) a) - value_offset T a 0
      in if span < 0 then None else Some (nat span))"

definition offset_bytes :: "('a, 'b) tables \<Rightarrow> 'a \<Rightarrow> nat \<Rightarrow> nat" where
  "offset_bytes T a payload = saturating_add (saturating_mul (saturating_add (array_len (table_arrays T) a) 1) 4) payload"

text \<open>
  The type of an array is passed beside it: the items of a list and the columns of a struct have the types of the
  fields of its type.
\<close>

function (sequential) logical_array_bytes :: "('a, 'b) tables \<Rightarrow> data_type \<Rightarrow> 'a \<Rightarrow> nat option"
  and logical_columns :: "('a, 'b) tables \<Rightarrow> field list \<Rightarrow> 'a list \<Rightarrow> nat \<Rightarrow> nat option" where
  "logical_array_bytes T dt a =
     (let n = array_len (table_arrays T) a;
          validity = (if nulls_present T a then div_ceil n 8 else 0)
      in map_option (saturating_add validity)
        (case dt of
           Null \<Rightarrow> Some 0
         | Boolean \<Rightarrow> Some (div_ceil n 8)
         | Utf8 \<Rightarrow> map_option (offset_bytes T a) (offset_span T a)
         | Binary \<Rightarrow> map_option (offset_bytes T a) (offset_span T a)
         | List_Type child \<Rightarrow>
             (case offset_span T a of
                None \<Rightarrow> None
              | Some len \<Rightarrow>
                  if value_offset T a 0 < 0 then None
                  else map_option (offset_bytes T a)
                    (logical_array_bytes T (field_type child) (array_slice T (list_values T a) (nat (value_offset T a 0)) len)))
         | Struct_Type children \<Rightarrow> logical_columns T children (struct_columns (table_arrays T) a) 0
         | _ \<Rightarrow> map_option (saturating_mul n) (primitive_width (table_arrays T) dt)))"
| "logical_columns T (f # fs) (c # cs) sum_bytes =
     (case logical_array_bytes T (field_type f) c of
        None \<Rightarrow> None
      | Some n \<Rightarrow> logical_columns T fs cs (saturating_add sum_bytes n))"
| "logical_columns T _ _ sum_bytes = Some sum_bytes"
  by pat_completeness auto

termination
  by (relation "measure (\<lambda>x. case x of Inl (_, dt, _) \<Rightarrow> 2 * size dt | Inr (_, fs, _) \<Rightarrow> Suc (2 * size_list size fs))")
    (use field_type_size in \<open>auto intro: less_SucI less_le_trans simp: less_Suc_eq_le less_imp_le trans_le_add1\<close>)

declare logical_array_bytes.simps [simp del]

definition logical_change_bytes :: "('a, 'b) tables \<Rightarrow> 'b change \<Rightarrow> nat option" where
  "logical_change_bytes T c =
     logical_columns T (schema_fields (batch_schema (table_arrow T) (records c))) (batch_arrays (table_columns T) (records c))
       (saturating_mul (num_rows (table_arrow T) c) 8)"

definition charge_change :: "('a, 'b) tables \<Rightarrow> 'b change \<Rightarrow> ('s, unit) work_op" where
  "charge_change T c =
     (case logical_change_bytes T c of
        None \<Rightarrow> sem_throw (Unwind ''validated offsets'')
      | Some n \<Rightarrow> in_budget (charge n))"

text \<open>\<^verbatim>\<open>budget.remaining_bytes()\<close>\<close>

definition budget_remaining :: "('s, nat) work_op" where
  "budget_remaining w = (Inr (remaining_bytes (work_budget w)), w)"

section \<open>What Arrow documents\<close>

definition offsets_law :: "('a, 'b) tables \<Rightarrow> 'a \<Rightarrow> bool" where
  "offsets_law T a \<longleftrightarrow> 0 \<le> value_offset T a 0 \<and> value_offset T a 0 \<le> value_offset T a (array_len (table_arrays T) a)"

definition values_law :: "('a, 'b) tables \<Rightarrow> ('a \<Rightarrow> bool) \<Rightarrow> 'a \<Rightarrow> bool" where
  "values_law T ok a \<longleftrightarrow>
     (\<forall>child. array_type (table_arrays T) a = List_Type child \<longrightarrow>
        (\<forall>start len. ok (array_slice T (list_values T a) start len) \<and>
           array_type (table_arrays T) (array_slice T (list_values T a) start len) = field_type child))"

text \<open>The rows of a batch, and what a filter keeps of them.\<close>

definition batch_values :: "('a, 'b) tables \<Rightarrow> 'b \<Rightarrow> cell_value list list" where
  "batch_values T b = map (row_values (table_columns T) b) [0..<batch_rows (table_arrow T) b]"

definition keep :: "bool list \<Rightarrow> 'x list \<Rightarrow> 'x list" where
  "keep sel xs = map fst (filter snd (zip xs sel))"

definition filter_law :: "('a, 'b) tables \<Rightarrow> bool" where
  "filter_law T \<longleftrightarrow>
     (\<forall>b sel b'. length sel = batch_rows (table_arrow T) b \<longrightarrow> filter_batch T b sel = Inr b' \<longrightarrow>
        batch_rows (table_arrow T) b' = length (filter id sel) \<and> batch_values T b' = keep sel (batch_values T b) \<and>
        batch_schema (table_arrow T) b' = batch_schema (table_arrow T) b)"

definition tables_laws :: "('a, 'b) tables \<Rightarrow> ('a \<Rightarrow> bool) \<Rightarrow> bool" where
  "tables_laws T ok \<longleftrightarrow>
     arrays_laws (table_arrays T) ok \<and> (\<forall>a. ok a \<longrightarrow> offsets_law T a \<and> values_law T ok a) \<and> filter_law T"

definition column_ok :: "('a, 'b) tables \<Rightarrow> ('a \<Rightarrow> bool) \<Rightarrow> nat \<Rightarrow> field \<Rightarrow> 'a \<Rightarrow> bool" where
  "column_ok T ok n f a \<longleftrightarrow>
     ok a \<and> array_type (table_arrays T) a = field_type f \<and> array_len (table_arrays T) a = n \<and>
     (nullable f \<or> field_type f = Null \<or> no_nulls (table_arrays T) a)"

definition table_ok :: "('a, 'b) tables \<Rightarrow> ('a \<Rightarrow> bool) \<Rightarrow> 'b \<Rightarrow> bool" where
  "table_ok T ok b \<longleftrightarrow>
     fields_ok 0 (schema_fields (batch_schema (table_arrow T) b)) \<and>
     list_all2 (column_ok T ok (batch_rows (table_arrow T) b)) (schema_fields (batch_schema (table_arrow T) b))
       (batch_arrays (table_columns T) b)"

lemma table_batch_ok: "table_ok T ok b \<Longrightarrow> batch_ok (table_columns T) ok b"
  by (auto simp: table_ok_def batch_ok_def column_ok_def cell_ok_def no_nulls_def elim!: list_all2_mono)

lemma offset_span_Some: "offsets_law T a \<Longrightarrow> \<exists>n. offset_span T a = Some n"
  by (simp add: offsets_law_def offset_span_def Let_def)

lemma field_type_cases:
  assumes "field_ok d f"
  obtains "field_type f \<in> {Null, Boolean, Utf8, Binary}"
  | child where "field_type f = List_Type child" "field_ok (Suc d) child"
  | children where "field_type f = Struct_Type children" "fields_ok (Suc d) children"
  | w where "classify (field_type f) = Some (FixedWidth w)"
  using assms by (cases f; cases "field_type f") auto

lemma logical_bytes_total:
  fixes T :: "('a, 'b) tables"
  shows "tables_laws T ok \<Longrightarrow> ok a \<Longrightarrow> array_type (table_arrays T) a = dt \<Longrightarrow> dt = field_type f \<Longrightarrow> field_ok d f \<Longrightarrow>
      \<exists>n. logical_array_bytes T dt a = Some n"
    and "tables_laws T ok \<Longrightarrow> list_all2 (\<lambda>f c. ok c \<and> array_type (table_arrays T) c = field_type f) fs cs \<Longrightarrow> fields_ok d fs \<Longrightarrow>
      \<exists>n. logical_columns T fs cs s = Some n"
proof (induction T dt a and T fs cs s arbitrary: d f and d rule: logical_array_bytes_logical_columns.induct)
  case (1 T dt a)
  have law: "offsets_law T a" "values_law T ok a" using 1(3,4) by (auto simp: tables_laws_def)
  show ?case
    using 1(7)
  proof (cases rule: field_type_cases)
    case 1
    then show ?thesis using offset_span_Some [OF law(1)] \<open>dt = field_type f\<close> by (auto simp: Let_def logical_array_bytes.simps)
  next
    case (2 child)
    obtain n where n: "offset_span T a = Some n" using offset_span_Some [OF law(1)] by blast
    have dt: "dt = List_Type child" and start: "\<not> value_offset T a 0 < 0" using 2 1(6) law(1) by (simp_all add: offsets_law_def)
    let ?items = "array_slice T (list_values T a) (nat (value_offset T a 0)) n"
    have items: "ok ?items" "array_type (table_arrays T) ?items = field_type child"
      using law(2) 1(5) by (auto simp: dt values_law_def)
    have "\<exists>m. logical_array_bytes T (field_type child) ?items = Some m"
      by (rule 1(1) [OF refl refl dt n start 1(3) items refl 2(2)])
    then show ?thesis using start by (auto simp: dt n Let_def logical_array_bytes.simps [of T "List_Type child"])
  next
    case (3 children)
    have dt: "dt = Struct_Type children" using 3 1(6) by simp
    have "struct_law (table_arrays T) ok a children"
      using 1(3-5) by (simp add: dt tables_laws_def arrays_laws_def)
    then have "list_all2 (\<lambda>f c. ok c \<and> array_type (table_arrays T) c = field_type f) children (struct_columns (table_arrays T) a)"
      unfolding struct_law_def by (rule list_all2_mono) simp
    then have "\<exists>m. logical_columns T children (struct_columns (table_arrays T) a) 0 = Some m"
      using 1(2) [OF refl refl dt 1(3)] 3(2) by blast
    then show ?thesis by (auto simp: dt Let_def logical_array_bytes.simps)
  next
    case (4 w)
    then have "classify dt = Some (FixedWidth w)" "primitive_width (table_arrays T) dt = Some w"
      using 1(3,6) by (simp_all add: tables_laws_def arrays_laws_def)
    then show ?thesis by (cases dt) (simp_all add: Let_def logical_array_bytes.simps)
  qed
next
  case (2 T f fs c cs s)
  obtain n where n: "logical_array_bytes T (field_type f) c = Some n" using 2(1) [OF 2(3)] 2(4,5) by auto
  with 2(2) [OF n 2(3), of d] 2(4,5) show ?case by simp
qed auto

lemma logical_change_bytes_total:
  assumes "tables_laws T ok" "table_ok T ok (records c)"
  shows "\<exists>n. logical_change_bytes T c = Some n"
  unfolding logical_change_bytes_def
  by (rule logical_bytes_total(2) [OF assms(1)]) (use assms(2) in \<open>auto simp: table_ok_def column_ok_def elim: list_all2_mono\<close>)

lemma charge_change_eq:
  assumes "tables_laws T ok" "table_ok T ok (records c)"
  shows "charge_change T c = in_budget (charge (the (logical_change_bytes T c)))"
  using logical_change_bytes_total [OF assms] by (auto simp: charge_change_def)

section \<open>Calls inside a step\<close>

lemma wp_in_budget [simp]:
  "wp (in_budget m) Q R w = wp m (\<lambda>a b. Q a (w\<lparr>work_budget := b\<rparr>)) (\<lambda>e b. R e (w\<lparr>work_budget := b\<rparr>)) (work_budget w)"
  by (simp add: wp_def in_budget_def split: prod.split sum.split)

lemma wp_charge [simp]:
  "wp (charge n) Q R b =
     (if n \<le> remaining_bytes b then Q () (b\<lparr>remaining_bytes := remaining_bytes b - n\<rparr>) else R BudgetExceeded b)"
  by (simp add: wp_def charge_def)

lemma wp_budget_remaining [simp]: "wp budget_remaining Q R w = Q (remaining_bytes (work_budget w)) w"
  by (simp add: wp_def budget_remaining_def)

lemma spends_budget_remaining [spends_intros]: "spends budget_remaining"
  by (simp add: spends_def budget_remaining_def)

lemma confined_budget_remaining [confined_intros]: "confined V W pan work_txn budget_remaining"
  by (simp add: confined_def panic_free_def budget_remaining_def)

lemma spends_charge_change [spends_intros]: "spends (charge_change T c)"
  unfolding charge_change_def by (auto intro!: spends_intros split: option.split)

lemma spends_option [spends_intros]:
  "spends m \<Longrightarrow> (\<And>a. spends (f a)) \<Longrightarrow> spends (case x of None \<Rightarrow> m | Some a \<Rightarrow> f a)"
  by (cases x) auto

lemma spends_sum [spends_intros]:
  "(\<And>e. spends (f e)) \<Longrightarrow> (\<And>a. spends (g a)) \<Longrightarrow> spends (case x of Inl e \<Rightarrow> f e | Inr a \<Rightarrow> g a)"
  by (cases x) auto

lemma spends_prod [spends_intros]: "(\<And>a b. spends (f a b)) \<Longrightarrow> spends (case x of (a, b) \<Rightarrow> f a b)"
  by (cases x) auto

lemma confined_in_txn [confined_intros]:
  "confined V W pan id m \<Longrightarrow> confined V W pan work_txn (in_txn m)"
  by (simp add: confined_def panic_free_def in_txn_def split: prod.splits) (metis fst_conv snd_conv)

lemma confined_in_budget [confined_intros]:
  "panic_free pan m \<Longrightarrow> confined V W pan work_txn (in_budget m)"
  by (auto simp: confined_def panic_free_def in_budget_def split: prod.splits) (metis fst_conv)

lemma panic_free_charge [panic_free_intros]: "\<not> pan BudgetExceeded \<Longrightarrow> panic_free pan (charge n)"
  by (simp add: panic_free_def charge_def)

lemma confined_weaken: "confined V W pan get m \<Longrightarrow> (\<And>e. pan' e \<Longrightarrow> pan e) \<Longrightarrow> confined V W pan' get m"
  by (auto simp: confined_def panic_free_def)

lemma confined_charge_change:
  "tables_laws T ok \<Longrightarrow> table_ok T ok (records c) \<Longrightarrow> confined V W is_unwind work_txn (charge_change T c)"
  by (simp add: charge_change_eq confined_intros panic_free_intros)

text \<open>Confinement of the writes and the absence of panics may be shown apart.\<close>

lemma confined_split:
  "confined V W (\<lambda>_. False) get m \<Longrightarrow> panic_free pan m \<Longrightarrow> confined V W pan get m"
  by (simp add: confined_def)

lemma panic_free_wp: "(\<And>s. wp m (\<lambda>_ _. True) (\<lambda>e _. \<not> pan e) s) \<Longrightarrow> panic_free pan m"
  unfolding panic_free_def wp_def by (metis (no_types, lifting) case_prod_conv eq_fst_iff old.sum.simps(5))

section \<open>The events of a change\<close>

text \<open>An event is the canonical bytes of a row and a signed difference; the bytes are the identity of the row.\<close>

type_synonym event = "bytes \<times> int"

definition diff_value :: "i64 option \<Rightarrow> i64" where
  "diff_value d = (case d of None \<Rightarrow> 0 | Some v \<Rightarrow> v)"

definition row_key :: "('a, 'b) tables \<Rightarrow> 'b \<Rightarrow> nat \<Rightarrow> bytes" where
  "row_key T b i = row_bytes (row_values (table_columns T) b i)"

definition row_keys :: "('a, 'b) tables \<Rightarrow> 'b \<Rightarrow> bytes list" where
  "row_keys T b = map row_bytes (batch_values T b)"

definition events :: "('a, 'b) tables \<Rightarrow> 'b change \<Rightarrow> event list" where
  "events T c = zip (row_keys T (records c)) (map (\<lambda>d. sint (diff_value d)) (diffs c))"

definition output_events :: "('a, 'b) tables \<Rightarrow> 'b change option \<Rightarrow> event list" where
  "output_events T out = (case out of None \<Rightarrow> [] | Some c \<Rightarrow> events T c)"

definition weight_of :: "event list \<Rightarrow> bytes \<Rightarrow> int" where
  "weight_of es k = (\<Sum>(l, d) \<leftarrow> es. if l = k then d else 0)"

lemma weight_of_simps [simp]:
  "weight_of [] k = 0"
  "weight_of ((l, d) # es) k = (if l = k then d else 0) + weight_of es k"
  "weight_of (es @ fs) k = weight_of es k + weight_of fs k"
  by (simp_all add: weight_of_def)

lemma row_keys_nth: "i < batch_rows (table_arrow T) b \<Longrightarrow> row_keys T b ! i = row_key T b i"
  by (simp add: row_keys_def batch_values_def row_key_def)

lemma length_row_keys [simp]: "length (row_keys T b) = batch_rows (table_arrow T) b"
  by (simp add: row_keys_def batch_values_def)

lemma keep_simps [simp]: "keep [] xs = []" "keep sel [] = []" "keep (s # sel) (x # xs) = (if s then [x] else []) @ keep sel xs"
  by (simp_all add: keep_def)

lemma map_keep: "map f (keep sel xs) = keep sel (map f xs)"
  by (simp add: keep_def zip_map1 filter_map comp_def case_prod_unfold)

lemma length_keep: "length sel = length xs \<Longrightarrow> length (keep sel xs) = length (filter id sel)"
  by (induction sel xs rule: list_induct2) auto

lemma keep_all: "length sel = length xs \<Longrightarrow> \<forall>s \<in> set sel. s \<Longrightarrow> keep sel xs = xs"
  by (induction sel xs rule: list_induct2) auto

section \<open>The contract of atomic operations\<close>

locale atomic_contract =
  fixes run :: "'s engine \<Rightarrow> 'b operation_input \<Rightarrow> ('s, 'b change option) work_op"
    and own :: "data_handle list" and valid :: "'b operation_input \<Rightarrow> bool"
  assumes run_confined: "engine_laws E V \<Longrightarrow> valid input \<Longrightarrow> confined V (owned own) is_unwind work_txn (run E input)"
    and run_spends: "spends (run E input)"
begin

lemma run_behaved:
  assumes "engine_laws E V" "apart F own" "valid input"
  shows "work_behaved V F (run E input)"
  using run_confined [OF assms(1,3)] assms(2)
  by (auto simp: work_behaved_def confined_def panic_free_def unwinds_iff intro: confined_keeps)

lemma run_ok:
  assumes "engine_laws E V" "apart F own" "\<And>input. valid input"
  shows "operation_ok V F (AtomicOp \<lparr>atomic_apply = run E\<rparr>)"
  using assms by (simp add: run_behaved run_spends)

end

definition valid_input :: "('a, 'b) tables \<Rightarrow> ('a \<Rightarrow> bool) \<Rightarrow> 'b operation_input \<Rightarrow> bool" where
  "valid_input T ok input \<longleftrightarrow> tables_laws T ok \<and> table_ok T ok (records (in_change input))"

section \<open>A sample\<close>

text \<open>One column of numbers with Arrow's filter, for the witnesses.\<close>

definition sample_tables :: "(data_type \<times> nat option list, nat option list) tables" where
  "sample_tables =
     \<lparr>table_columns = sample_table, nulls_present = (\<lambda>_. True), value_offset = (\<lambda>_ _. 0), list_values = id,
      array_slice = (\<lambda>a _ _. a), filter_batch = (\<lambda>b sel. Inr (keep sel b))\<rparr>"

lemma sample_simps [simp]:
  "table_columns sample_tables = sample_table" "filter_batch sample_tables b sel = Inr (keep sel b)"
  "batch_rows (columnar_arrow sample_table) b = length b" "batch_decimals (columnar_arrow sample_table) b = Inr ()"
  "batch_schema (columnar_arrow sample_table) b = \<lparr>schema_fields = [Field ''n'' Int64 True []], schema_metadata = []\<rparr>"
  "batch_arrays sample_table b = [(Int64, b)]" "arrays sample_table = sample_arrays"
  by (simp_all add: sample_tables_def sample_table_def)

lemma sample_schema_valid:
  "validate_schema \<lparr>schema_fields = [Field ''n'' Int64 True []], schema_metadata = []\<rparr> = Inr ()"
  unfolding validate_schema_accepts
  by (simp add: schema_ok_def metadata_ok_def starts_with_def RESERVED_FIELD_PREFIX_def MAX_SCHEMA_FIELDS_def
      MAX_SCHEMA_METADATA_ENTRIES_def MAX_SCHEMA_TEXT_BYTES_def)

lemma sample_row_values:
  "i < length b \<Longrightarrow> row_values sample_table b i = [case b ! i of None \<Rightarrow> VNull | Some n \<Rightarrow> VBits 8 n]"
  by (auto simp: row_values_def sample_table_def sample_arrays_def split: option.split)

lemma sample_batch_values:
  "batch_values sample_tables b = map (\<lambda>x. [case x of None \<Rightarrow> VNull | Some n \<Rightarrow> VBits 8 n]) b"
  by (rule nth_equalityI) (simp_all add: batch_values_def sample_row_values)

lemma sample_tables_laws: "tables_laws sample_tables sample_ok"
proof -
  have "filter_law sample_tables"
    by (auto simp: filter_law_def sample_batch_values map_keep length_keep)
  then show ?thesis
    using sample_arrays_laws
    by (auto simp: tables_laws_def offsets_law_def values_law_def sample_ok_def) (simp_all add: sample_tables_def sample_arrays_def)
qed

lemma sample_tables_ok:
  assumes "length b \<le> u64_max" "\<forall>n. Some n \<in> set b \<longrightarrow> n < 256 ^ 8"
  shows "table_ok sample_tables sample_ok b"
  using assms by (simp add: table_ok_def column_ok_def sample_arrays_def sample_ok_def metadata_ok_def
      starts_with_def RESERVED_FIELD_PREFIX_def)

end
