(* ===== verification/Transform_Distinct.thy ===== *)
theory Transform_Distinct
  imports Transform_Core Memory_Engine
begin

text \<open>
  The exact distinct operation, \<^verbatim>\<open>crates/operation/src/operation/transform/distinct.rs\<close>.

  Its durable state is a weight for each row with a positive multiplicity. A run of equal rows is cached: its weight is read
  once (\<open>pend_persisted\<close>), followed in memory (\<open>pend_current\<close>) and written when another row comes. The reference
  \<open>distinct_events\<close> has no cache, no budget and no store: it walks the events with a function of multiplicities and emits an
  insertion when a row appears and a retraction when it disappears. The operation computes exactly its output and
  multiplicities, rejects exactly the inputs it rejects, and with enough budget does not fail otherwise.
\<close>

section \<open>Definitions\<close>

record distinct_operation =
  distinct_schema :: schema
  distinct_weights :: data_handle

record pending_weight =
  pend_key :: bytes
  pend_persisted :: u64
  pend_current :: u64

datatype distinct_error =
    DistinctInvalidInputPort nat
  | DistinctInputSchemaMismatch
  | NegativeWeight
  | WeightOverflow
  | DistinctStore store_error
  | DistinctArrow string
  | DistinctChange change_error

fun distinct_boxed :: "distinct_error \<Rightarrow> operation_error" where
  "distinct_boxed (DistinctStore (Panicked m)) = Unwind m"
| "distinct_boxed (DistinctInvalidInputPort port) = Other ''distinct does not accept input port'' None"
| "distinct_boxed DistinctInputSchemaMismatch = Other ''distinct input Schema differs from its bound Schema'' None"
| "distinct_boxed NegativeWeight = Other ''distinct input would make a row weight negative'' None"
| "distinct_boxed WeightOverflow = Other ''distinct row weight overflow'' None"
| "distinct_boxed (DistinctStore e) = Other ''distinct store'' None"
| "distinct_boxed (DistinctArrow m) = Other m None"
| "distinct_boxed (DistinctChange e) = Other ''distinct change'' None"

fun map_weight_error :: "store_error \<Rightarrow> distinct_error" where
  "map_weight_error MultiplicityUnderflow = NegativeWeight"
| "map_weight_error MultiplicityOverflow = WeightOverflow"
| "map_weight_error e = DistinctStore e"

text \<open>A store call whose error is mapped and boxed.\<close>

definition weight_call :: "('s, 'x) write_op \<Rightarrow> ('s, 'x) work_op" where
  "weight_call m = in_txn (\<lambda>t. apfst (map_sum (\<lambda>e. distinct_boxed (map_weight_error e)) id) (m t))"

definition flush_weight :: "'s engine \<Rightarrow> bytes \<Rightarrow> pending_weight \<Rightarrow> ('s, unit) work_op" where
  "flush_weight E p pend =
     (if pend_current pend \<noteq> pend_persisted pend then
        sem_bind (in_budget (charge (saturating_add (length (pend_key pend)) 8))) (\<lambda>_.
          weight_call (map_set_multiplicity E vec_key p (pend_key pend) (pend_current pend)))
      else sem_return ())"

text \<open>The bytes of a row, charged before they are made.\<close>

definition distinct_row_bytes :: "('a, 'b) tables \<Rightarrow> 'b \<Rightarrow> nat \<Rightarrow> ('s, bytes) work_op" where
  "distinct_row_bytes T b i =
     sem_bind budget_remaining (\<lambda>limit.
     sem_bind (sem_lift (map_sum decode_error id (canonical_row_size_bounded (table_columns T) b i limit))) (\<lambda>row_bytes.
     sem_bind (in_budget (charge row_bytes)) (\<lambda>_.
       sem_lift (map_sum row_boxed id (canonical_row_bounded (table_columns T) b i row_bytes)))))"

text \<open>The cached weight of the row: another row is flushed and its own weight is read.\<close>

definition load_weight :: "'s engine \<Rightarrow> bytes \<Rightarrow> pending_weight option \<Rightarrow> bytes \<Rightarrow> ('s, pending_weight) work_op" where
  "load_weight E p pend row =
     (if (case pend of None \<Rightarrow> True | Some previous \<Rightarrow> pend_key previous \<noteq> row) then
        sem_bind (case pend of None \<Rightarrow> sem_return () | Some previous \<Rightarrow> flush_weight E p previous) (\<lambda>_.
        sem_bind (in_budget (charge (saturating_add (length row) 8))) (\<lambda>_.
        sem_bind (weight_call (as_read (map_multiplicity E vec_key p row))) (\<lambda>persisted.
          sem_return \<lparr>pend_key = row, pend_persisted = persisted, pend_current = persisted\<rparr>)))
      else sem_return (the pend))"

definition reject_difference :: "'s engine \<Rightarrow> bytes \<Rightarrow> pending_weight \<Rightarrow> i64 \<Rightarrow> ('s, 'x) work_op" where
  "reject_difference E p pend difference =
     sem_bind (flush_weight E p pend) (\<lambda>_.
     sem_bind (in_budget (charge (saturating_add (length (pend_key pend)) 8))) (\<lambda>_.
     sem_bind (weight_call (map_adjust E vec_key p (pend_key pend) difference)) (\<lambda>_.
       sem_throw (Unwind ''the checked prefix rejected this adjustment''))))"

definition output_difference :: "u64 \<Rightarrow> u64 \<Rightarrow> i64 option" where
  "output_difference bef aft =
     (if bef = 0 \<and> aft > 0 then Some 1 else if bef > 0 \<and> aft = 0 then Some (- 1) else None)"

type_synonym distinct_acc = "pending_weight option \<times> bool list \<times> i64 list"

fun distinct_row ::
  "'s engine \<Rightarrow> ('a, 'b) tables \<Rightarrow> bytes \<Rightarrow> 'b change \<Rightarrow> nat \<Rightarrow> distinct_acc \<Rightarrow> ('s, distinct_acc) work_op" where
  "distinct_row E T p c i (pend, selected, output_diffs) =
     sem_bind (distinct_row_bytes T (records c) i) (\<lambda>row.
     sem_bind (load_weight E p pend row) (\<lambda>pw.
       let difference = diff_value (diffs c ! i); bef = pend_current pw in
       case (if sint difference > 0 then checked_add_u64 bef (unsigned_abs difference)
             else checked_sub_u64 bef (unsigned_abs difference)) of
         None \<Rightarrow> reject_difference E p pw difference
       | Some aft \<Rightarrow>
           sem_return (Some (pw\<lparr>pend_current := aft\<rparr>),
             (case output_difference bef aft of
                Some d \<Rightarrow> (selected @ [True], output_diffs @ [d])
              | None \<Rightarrow> (selected @ [False], output_diffs)))))"

fun distinct_rows ::
  "'s engine \<Rightarrow> ('a, 'b) tables \<Rightarrow> bytes \<Rightarrow> 'b change \<Rightarrow> nat list \<Rightarrow> distinct_acc \<Rightarrow> ('s, distinct_acc) work_op" where
  "distinct_rows E T p c [] acc = sem_return acc"
| "distinct_rows E T p c (i # is) acc = sem_bind (distinct_row E T p c i acc) (\<lambda>acc'. distinct_rows E T p c is acc')"

definition distinct_output :: "('a, 'b) tables \<Rightarrow> 'b change \<Rightarrow> bool list \<Rightarrow> i64 list \<Rightarrow> ('s, 'b change option) work_op" where
  "distinct_output T c selected output_diffs =
     (if output_diffs = [] then sem_return None
      else
        sem_bind
          (if length output_diffs = num_rows (table_arrow T) c then sem_return (records c)
           else sem_bind (charge_change T c) (\<lambda>_.
             sem_lift (map_sum (\<lambda>m. distinct_boxed (DistinctArrow m)) id (filter_batch T (records c) selected)))) (\<lambda>b.
        sem_bind (sem_lift (map_sum (\<lambda>e. distinct_boxed (DistinctChange e)) id
            (change_try_new (table_arrow T) b (map Some output_diffs)))) (\<lambda>output.
          sem_return (Some output))))"

definition distinct_apply ::
  "('a, 'b) tables \<Rightarrow> distinct_operation \<Rightarrow> 's engine \<Rightarrow> 'b operation_input \<Rightarrow> ('s, 'b change option) work_op" where
  "distinct_apply T D E input =
     (if in_port input \<noteq> 0 then sem_throw (distinct_boxed (DistinctInvalidInputPort (in_port input)))
      else if batch_schema (table_arrow T) (records (in_change input)) \<noteq> distinct_schema D
        then sem_throw (distinct_boxed DistinctInputSchemaMismatch)
      else
        let c = in_change input in
        sem_bind (charge_change T c) (\<lambda>_.
        sem_bind (in_budget (charge (saturating_mul (num_rows (table_arrow T) c) 9))) (\<lambda>_.
        sem_bind (weight_call (bind_access (distinct_weights D))) (\<lambda>p.
        sem_bind (distinct_rows E T p c [0..<num_rows (table_arrow T) c] (None, [], [])) (\<lambda>(pend, selected, output_diffs).
        sem_bind (case pend of None \<Rightarrow> sem_return () | Some pw \<Rightarrow> flush_weight E p pw) (\<lambda>_.
          distinct_output T c selected output_diffs))))))"

section \<open>The reference\<close>

text \<open>The multiplicities are a function of the rows; \<open>Inl\<close> tells the first difference that leaves the range.\<close>

fun distinct_events :: "(bytes \<Rightarrow> int) \<Rightarrow> event list \<Rightarrow> distinct_error + event list" where
  "distinct_events m [] = Inr []"
| "distinct_events m ((r, d) # es) =
     (if m r + d < 0 then Inl NegativeWeight
      else if m r + d \<ge> 2 ^ 64 then Inl WeightOverflow
      else map_sum id (\<lambda>out.
        (if m r = 0 \<and> m r + d > 0 then [(r, 1)] else if m r > 0 \<and> m r + d = 0 then [(r, - 1)] else []) @ out)
        (distinct_events (m(r := m r + d)) es))"

definition present :: "int \<Rightarrow> int" where
  "present w = (if w > 0 then 1 else 0)"

lemma distinct_events_net:
  assumes "distinct_events m es = Inr out" "\<forall>r. 0 \<le> m r"
  shows "weight_of out r = present (m r + weight_of es r) - present (m r)" "0 \<le> m r + weight_of es r"
proof -
  have "weight_of out r = present (m r + weight_of es r) - present (m r) \<and> 0 \<le> m r + weight_of es r"
    using assms
  proof (induction m es arbitrary: out rule: distinct_events.induct)
    case (1 m)
    then show ?case by simp
  next
    case (2 m k d es)
    let ?e = "if m k = 0 \<and> m k + d > 0 then [(k, 1)] else if m k > 0 \<and> m k + d = 0 then [(k, - 1)] else []"
    from 2 obtain rest where rest: "distinct_events (m(k := m k + d)) es = Inr rest" "out = ?e @ rest"
      by (auto split: if_splits simp: map_sum_Inr_iff)
    have range: "\<not> m k + d < 0" "\<not> m k + d \<ge> 2 ^ 64" using 2(2) by (auto split: if_splits)
    have nonneg: "\<forall>r. 0 \<le> (m(k := m k + d)) r" using 2(3) range by simp
    have "weight_of ?e r = (if r = k then present (m k + d) - present (m k) else 0)"
      using 2(3) range by (auto simp: present_def dest!: spec [of _ k])
    with 2(1) [OF range rest(1) nonneg] show ?case by (auto simp: rest(2) algebra_simps split: if_split_asm)
  qed
  then show "weight_of out r = present (m r + weight_of es r) - present (m r)" "0 \<le> m r + weight_of es r" by simp_all
qed

section \<open>The cached weights\<close>

definition weight_view :: "('s \<Rightarrow> (bytes \<rightharpoonup> bytes)) \<Rightarrow> bytes \<Rightarrow> 's transaction \<Rightarrow> bytes \<Rightarrow> u64 option" where
  "weight_view V p t k = stored_weight (V (inner t) (p @ k))"

definition cached :: "('s \<Rightarrow> (bytes \<rightharpoonup> bytes)) \<Rightarrow> bytes \<Rightarrow> 's transaction \<Rightarrow> pending_weight option \<Rightarrow> bool" where
  "cached V p t pend \<longleftrightarrow>
     \<not> poisoned t \<and> (\<forall>pw. pend = Some pw \<longrightarrow> weight_view V p t (pend_key pw) = Some (pend_persisted pw))"

text \<open>The weights with the cached run on top of the stored ones.\<close>

definition effective :: "('s \<Rightarrow> (bytes \<rightharpoonup> bytes)) \<Rightarrow> bytes \<Rightarrow> 's transaction \<Rightarrow> pending_weight option \<Rightarrow> bytes \<Rightarrow> u64 option" where
  "effective V p t pend =
     (case pend of None \<Rightarrow> weight_view V p t | Some pw \<Rightarrow> (weight_view V p t)(pend_key pw := Some (pend_current pw)))"

definition holds ::
  "('s \<Rightarrow> (bytes \<rightharpoonup> bytes)) \<Rightarrow> bytes \<Rightarrow> (bytes \<Rightarrow> u64 option) \<Rightarrow> pending_weight option \<Rightarrow> 's work \<Rightarrow> bool" where
  "holds V p m pend w \<longleftrightarrow>
     cached V p (work_txn w) pend \<and> effective V p (work_txn w) pend = m"

text \<open>What flushing the cached run may still cost.\<close>

definition reserve :: "pending_weight option \<Rightarrow> nat" where
  "reserve pend = (case pend of None \<Rightarrow> 0 | Some pw \<Rightarrow> length (pend_key pw) + 8)"

definition step_fault :: "'s engine \<Rightarrow> nat \<Rightarrow> 's work \<Rightarrow> operation_error \<Rightarrow> bool" where
  "step_fault E n w e \<longleftrightarrow> \<not> is_unwind e \<and> (remaining_bytes (work_budget w) < n \<or> usize_max < n \<or> \<not> engine_reliable E)"

lemma saturating_add_le: "saturating_add a b \<le> a + b"
  by (simp add: saturating_add_def)

lemma wp_weight_call [simp]:
  "wp (weight_call m) Q R w =
     wp m (\<lambda>a t. Q a (w\<lparr>work_txn := t\<rparr>)) (\<lambda>e t. R (distinct_boxed (map_weight_error e)) (w\<lparr>work_txn := t\<rparr>)) (work_txn w)"
  by (simp add: weight_call_def) (simp add: wp_def split: prod.split sum.split)

lemma weight_view_put:
  assumes "V s = (V (inner t))(p @ k := weight_bytes a)"
  shows "weight_view V p (t\<lparr>inner := s, has_writes := h\<rparr>) = (weight_view V p t)(k := Some a)"
  using assms by (auto simp: weight_view_def stored_weight_Some_iff)

lemma wp_flush_weight:
  assumes laws: "engine_laws E V" and ready: "holds V p m (Some pw) w"
    and ok: "\<And>w'. holds V p m None w' \<Longrightarrow>
      remaining_bytes (work_budget w) \<le> remaining_bytes (work_budget w') + reserve (Some pw) \<Longrightarrow>
      weight_view V p (work_txn w') (pend_key pw) = Some (pend_current pw) \<Longrightarrow> Q () w'"
    and err: "\<And>e w'. step_fault E (reserve (Some pw)) w e \<Longrightarrow> R e w'"
  shows "wp (flush_weight E p pw) Q R w"
proof (cases "pend_current pw = pend_persisted pw")
  case True
  then have "holds V p m None w" "weight_view V p (work_txn w) (pend_key pw) = Some (pend_current pw)"
    using ready by (auto simp: holds_def cached_def effective_def fun_upd_idem)
  then have "Q () w" by (intro ok) simp_all
  with True show ?thesis by (simp add: flush_weight_def)
next
  case False
  let ?n = "saturating_add (length (pend_key pw)) 8"
  let ?b = "(work_budget w)\<lparr>remaining_bytes := remaining_bytes (work_budget w) - ?n\<rparr>"
  have n: "?n \<le> reserve (Some pw)" using saturating_add_le by (simp add: reserve_def)
  have healthy: "\<not> poisoned (work_txn w)" using ready by (simp add: holds_def cached_def)
  have "wp (map_set_multiplicity E vec_key p (pend_key pw) (pend_current pw))
      (\<lambda>a t. Q a (w\<lparr>work_budget := ?b, work_txn := t\<rparr>))
      (\<lambda>e t. R (distinct_boxed (map_weight_error e)) (w\<lparr>work_budget := ?b, work_txn := t\<rparr>)) (work_txn w)"
    if fits: "?n \<le> remaining_bytes (work_budget w)"
  proof -
    have "wp (set_encoded E p (pend_key pw) (pend_current pw))
      (\<lambda>a t. Q a (w\<lparr>work_budget := ?b, work_txn := t\<rparr>))
      (\<lambda>e t. R (distinct_boxed (map_weight_error e)) (w\<lparr>work_budget := ?b, work_txn := t\<rparr>)) (work_txn w)"
    proof (rule wp_set_encoded [OF laws healthy])
      fix s assume s: "V s = (V (inner (work_txn w)))(p @ pend_key pw := weight_bytes (pend_current pw))"
      let ?w = "w\<lparr>work_budget := ?b, work_txn := (work_txn w)\<lparr>inner := s, has_writes := True\<rparr>\<rparr>"
      have "weight_view V p (work_txn ?w) = m"
        using ready by (simp add: weight_view_put [OF s] holds_def effective_def)
      moreover have "m (pend_key pw) = Some (pend_current pw)" using ready by (auto simp: holds_def effective_def)
      ultimately show "Q () ?w"
        using ready n fits healthy by (intro ok) (auto simp: holds_def cached_def effective_def)
    next
      fix op msg assume "\<not> engine_reliable E"
      then show "R (distinct_boxed (map_weight_error (Storage op msg))) (w\<lparr>work_budget := ?b, work_txn := (work_txn w)\<lparr>poisoned := True\<rparr>\<rparr>)"
        by (intro err) (simp add: step_fault_def)
    qed
    then show ?thesis by (simp add: map_set_multiplicity_def vec_key_def)
  qed
  moreover have "R BudgetExceeded w" if "\<not> ?n \<le> remaining_bytes (work_budget w)"
    using that n by (intro err) (simp add: step_fault_def)
  ultimately show ?thesis
    using False by (simp add: flush_weight_def)
qed

lemma wp_row_bytes:
  assumes laws: "tables_laws T ok" and tab: "table_ok T ok b" and i: "i < batch_rows (table_arrow T) b"
    and ready: "holds V p m pend w" and len: "n = length (row_key T b i)"
    and ok: "\<And>w'. holds V p m pend w' \<Longrightarrow> remaining_bytes (work_budget w) = remaining_bytes (work_budget w') + n \<Longrightarrow> Q (row_key T b i) w'"
    and err: "\<And>e w'. \<not> is_unwind e \<Longrightarrow> remaining_bytes (work_budget w) < n \<or> usize_max < n \<Longrightarrow> R e w'"
  shows "wp (distinct_row_bytes T b i) Q R w"
proof -
  let ?r = "remaining_bytes (work_budget w)"
  have arr: "arrays_laws (arrays (table_columns T)) ok" using laws by (simp add: tables_laws_def)
  have key: "row_key T b i = concat (map value_bytes (row_values (table_columns T) b i))" by (simp add: row_key_def row_bytes_def)
  note row = canonical_row [OF arr table_batch_ok [OF tab] i key, folded len]
  have limit: "\<not> is_unwind (decode_error e)" if "is_limit e" for e using that by (cases e) (simp_all add: decode_error_def)
  show ?thesis
  proof (cases "n \<le> ?r \<and> n \<le> usize_max")
    case True
    then have "within (Some ?r) n" "within (Some n) n" by (simp_all add: within_def)
    with row [of ?r] row [of n] have "canonical_row_size_bounded (table_columns T) b i ?r = Inr n"
      "canonical_row_bounded (table_columns T) b i n = Inr (row_key T b i)" by simp_all
    moreover have "Q (row_key T b i) (w\<lparr>work_budget := (work_budget w)\<lparr>remaining_bytes := ?r - n\<rparr>\<rparr>)"
      using True ready by (intro ok) (auto simp: holds_def)
    ultimately show ?thesis using True
      by (simp add: distinct_row_bytes_def)
  next
    case False
    then have "\<not> within (Some ?r) n" by (auto simp: within_def)
    with row [of ?r] obtain e where "canonical_row_size_bounded (table_columns T) b i ?r = Inl e" "is_limit e" by auto
    with False limit show ?thesis
      by (auto simp: distinct_row_bytes_def intro!: err)
  qed
qed

lemma wp_read_multiplicity:
  assumes "engine_laws E V" "\<not> poisoned t"
    and "\<And>x. weight_view V p t k = Some x \<Longrightarrow> Q x t"
    and "\<And>c t'. weight_view V p t k = None \<Longrightarrow> R (Codec c) t'"
    and "\<And>op m t'. \<not> engine_reliable E \<Longrightarrow> R (Storage op m) t'"
  shows "wp (as_read (map_multiplicity E vec_key p k)) Q R t"
  using assms(2-)
  by (auto simp: weight_view_def vec_key_def intro!: wp_map_multiplicity [OF assms(1)])

lemma wp_load_weight:
  assumes laws: "engine_laws E V" and ready: "holds V p m pend w"
    and ok: "\<And>pw w'. holds V p m (Some pw) w' \<Longrightarrow> pend_key pw = row \<Longrightarrow> m row = Some (pend_current pw) \<Longrightarrow>
      remaining_bytes (work_budget w) + reserve (Some pw) \<le> remaining_bytes (work_budget w') + reserve pend + (2 * length row + 16) \<Longrightarrow>
      Q pw w'"
    and err: "\<And>e w'. step_fault E (reserve pend + length row + 8) w e \<or> m row = None \<and> \<not> is_unwind e \<Longrightarrow> R e w'"
  shows "wp (load_weight E p pend row) Q R w"
proof (cases "case pend of None \<Rightarrow> True | Some previous \<Rightarrow> pend_key previous \<noteq> row")
  case False
  then obtain pw where pw: "pend = Some pw" "pend_key pw = row" by (auto split: option.splits)
  with ready have "m row = Some (pend_current pw)" by (auto simp: holds_def effective_def)
  then have "Q pw w" using ready pw by (intro ok) simp_all
  then show ?thesis using pw by (simp add: load_weight_def)
next
  case True
  let ?n = "saturating_add (length row) 8"
  have n: "?n \<le> length row + 8" by (rule saturating_add_le)
  have read: "wp (sem_bind (in_budget (charge ?n)) (\<lambda>_. sem_bind (weight_call (as_read (map_multiplicity E vec_key p row)))
      (\<lambda>persisted. sem_return \<lparr>pend_key = row, pend_persisted = persisted, pend_current = persisted\<rparr>))) Q R w1"
    if w1: "holds V p m None w1" "remaining_bytes (work_budget w) \<le> remaining_bytes (work_budget w1) + reserve pend" for w1
  proof -
    let ?w1 = "w1\<lparr>work_budget := (work_budget w1)\<lparr>remaining_bytes := remaining_bytes (work_budget w1) - ?n\<rparr>\<rparr>"
    have healthy: "\<not> poisoned (work_txn w1)" and view: "weight_view V p (work_txn w1) = m"
      using w1(1) by (simp_all add: holds_def cached_def effective_def)
    have tight: "remaining_bytes (work_budget w) < reserve pend + length row + 8" if "\<not> ?n \<le> remaining_bytes (work_budget w1)"
      using that n w1(2) by simp
    have found: "Q \<lparr>pend_key = row, pend_persisted = x, pend_current = x\<rparr> ?w1"
      if "m row = Some x" "?n \<le> remaining_bytes (work_budget w1)" for x
      using that n w1 view healthy by (intro ok) (auto simp: holds_def cached_def effective_def reserve_def fun_upd_idem)
    have "wp (as_read (map_multiplicity E vec_key p row)) (\<lambda>x t. Q \<lparr>pend_key = row, pend_persisted = x, pend_current = x\<rparr> (?w1\<lparr>work_txn := t\<rparr>))
        (\<lambda>e t. R (distinct_boxed (map_weight_error e)) (?w1\<lparr>work_txn := t\<rparr>)) (work_txn w1)"
      if "?n \<le> remaining_bytes (work_budget w1)"
      by (rule wp_read_multiplicity [OF laws healthy]) (use that found view in \<open>auto simp: step_fault_def intro!: err\<close>)
    then show ?thesis
      using tight by (auto simp: step_fault_def intro!: err)
  qed
  show ?thesis
  proof (cases pend)
    case None
    then show ?thesis using True read [of w] ready by (simp add: load_weight_def)
  next
    case (Some previous)
    have "wp (flush_weight E p previous) (\<lambda>_. wp (sem_bind (in_budget (charge ?n)) (\<lambda>_. sem_bind (weight_call (as_read (map_multiplicity E vec_key p row)))
      (\<lambda>persisted. sem_return \<lparr>pend_key = row, pend_persisted = persisted, pend_current = persisted\<rparr>))) Q R) R w"
    proof (rule wp_flush_weight [OF laws ready [unfolded Some]])
      fix w' assume "holds V p m None w'" "remaining_bytes (work_budget w) \<le> remaining_bytes (work_budget w') + reserve (Some previous)"
      then show "wp (sem_bind (in_budget (charge ?n)) (\<lambda>_. sem_bind (weight_call (as_read (map_multiplicity E vec_key p row)))
          (\<lambda>persisted. sem_return \<lparr>pend_key = row, pend_persisted = persisted, pend_current = persisted\<rparr>))) Q R w'"
        by (intro read) (simp_all add: Some)
    qed (auto simp: Some step_fault_def intro: err)
    with Some True show ?thesis by (simp add: load_weight_def)
  qed
qed

lemma wp_reject_difference:
  assumes laws: "engine_laws E V" and ready: "holds V p m (Some pw) w"
    and range: "int (unat (pend_current pw)) + sint d < 0 \<or> 2 ^ 64 \<le> int (unat (pend_current pw)) + sint d"
    and neg: "\<And>w'. int (unat (pend_current pw)) + sint d < 0 \<Longrightarrow> poisoned (work_txn w') \<Longrightarrow> R (distinct_boxed NegativeWeight) w'"
    and over: "\<And>w'. 2 ^ 64 \<le> int (unat (pend_current pw)) + sint d \<Longrightarrow> poisoned (work_txn w') \<Longrightarrow> R (distinct_boxed WeightOverflow) w'"
    and err: "\<And>e w'. step_fault E (2 * length (pend_key pw) + 16) w e \<Longrightarrow> R e w'"
  shows "wp (reject_difference E p pw d) Q R w"
  unfolding reject_difference_def wp_bind
proof (rule wp_flush_weight [OF laws ready], goal_cases)
  case (1 w1)
  note w1 = 1(1,2) and stored = 1(3)
  let ?n = "saturating_add (length (pend_key pw)) 8"
  have n: "?n \<le> length (pend_key pw) + 8" by (rule saturating_add_le)
  have healthy: "\<not> poisoned (work_txn w1)" using w1 by (simp add: holds_def cached_def)
  have key: "encode_key vec_key (pend_key pw) = Inr (pend_key pw)" by (simp add: vec_key_def)
  have "wp (map_adjust E vec_key p (pend_key pw) d)
      (\<lambda>_ _. False) (\<lambda>e t. R (distinct_boxed (map_weight_error e)) (w1\<lparr>work_budget := b, work_txn := t\<rparr>)) (work_txn w1)" for b
  proof (rule wp_map_adjust [OF laws healthy key stored [unfolded weight_view_def]], goal_cases)
    case (1 a s)
    then show ?case using range unat_u64_less [of a] by (simp del: of_nat_unat unat_u64_less)
  next
    case 2
    then show ?case by (simp only: map_weight_error.simps) (rule over, simp_all)
  next
    case 3
    then show ?case by (simp only: map_weight_error.simps) (rule neg, simp_all)
  next
    case (4 op msg)
    then show ?case by (auto simp: step_fault_def intro!: err)
  qed
  then have adjust: "wp (map_adjust E vec_key p (pend_key pw) d) (\<lambda>_ t. R (Unwind u) (w1\<lparr>work_budget := b, work_txn := t\<rparr>))
      (\<lambda>e t. R (distinct_boxed (map_weight_error e)) (w1\<lparr>work_budget := b, work_txn := t\<rparr>)) (work_txn w1)" for b u
    by (rule wp_mono) auto
  show ?case
    using adjust n w1(2) by (auto simp: step_fault_def reserve_def intro!: err)
qed (auto simp: step_fault_def reserve_def intro: err)

lemma next_weight_split:
  obtains (ok) a where "(if sint d > 0 then checked_add_u64 w (unsigned_abs d) else checked_sub_u64 w (unsigned_abs d)) = Some a"
    "int (unat a) = int (unat w) + sint d" "0 \<le> int (unat w) + sint d" "int (unat w) + sint d < 2 ^ 64"
  | (out) "(if sint d > 0 then checked_add_u64 w (unsigned_abs d) else checked_sub_u64 w (unsigned_abs d)) = None"
    "int (unat w) + sint d < 0 \<or> 2 ^ 64 \<le> int (unat w) + sint d"
proof -
  have abs: "int (unat (unsigned_abs d)) = \<bar>sint d\<bar>" by (rule unat_unsigned_abs)
  have u: "unat a < 2 ^ 64" for a :: u64 using unat_u64_less [of a] by simp
  show thesis
  proof (cases "if sint d > 0 then checked_add_u64 w (unsigned_abs d) else checked_sub_u64 w (unsigned_abs d)")
    case None
    then have "int (unat w) + sint d < 0 \<or> 2 ^ 64 \<le> int (unat w) + sint d"
      using abs by (auto simp: checked_add_u64_None checked_sub_u64_None split: if_splits simp del: of_nat_unat)
    with None show thesis by (rule out)
  next
    case (Some a)
    then have "int (unat a) = int (unat w) + sint d"
      using abs by (auto simp: checked_add_u64_Some checked_sub_u64_Some split: if_splits simp del: of_nat_unat)
    with Some u [of a] show thesis by (intro ok [of a]) (simp_all del: of_nat_unat)
  qed
qed

text \<open>One event: what the row loop adds to its output.\<close>

definition flag_of :: "int \<Rightarrow> int \<Rightarrow> bool" where
  "flag_of bef aft \<longleftrightarrow> present bef \<noteq> present aft"

definition emitted :: "int \<Rightarrow> int \<Rightarrow> i64 list" where
  "emitted bef aft = (if flag_of bef aft then [if bef = 0 then 1 else - 1] else [])"

lemma present_unat: "present (int (unat w)) = (if w = 0 then 0 else 1)"
  by (simp add: present_def unat_gt_0 del: of_nat_unat)

lemma output_difference_cases:
  "(case output_difference bef aft of
      Some d \<Rightarrow> (sel @ [True], outs @ [d])
    | None \<Rightarrow> (sel @ [False], outs)) =
   (sel @ [flag_of (int (unat bef)) (int (unat aft))], outs @ emitted (int (unat bef)) (int (unat aft)))"
  by (simp add: output_difference_def flag_of_def emitted_def present_unat word_gt_0 unat_eq_zero del: of_nat_unat)

definition row_cost :: "bytes \<Rightarrow> nat" where
  "row_cost row = 4 * length row + 24"

text \<open>A rejected difference, with the transaction poisoned.\<close>

definition rejects :: "int \<Rightarrow> operation_error \<Rightarrow> 's work \<Rightarrow> bool" where
  "rejects z e w \<longleftrightarrow>
     poisoned (work_txn w) \<and> (z < 0 \<and> e = distinct_boxed NegativeWeight \<or> 2 ^ 64 \<le> z \<and> e = distinct_boxed WeightOverflow)"

lemma wp_distinct_row:
  assumes laws: "engine_laws E V" and tabs: "tables_laws T ok" "table_ok T ok (records c)" and i: "i < num_rows (table_arrow T) c"
    and ready: "holds V p m pend w" and row: "row = row_key T (records c) i" and d: "d = diff_value (diffs c ! i)"
    and ok: "\<And>x a pw w'. m row = Some x \<Longrightarrow> int (unat a) = int (unat x) + sint d \<Longrightarrow> holds V p (m(row := Some a)) (Some pw) w' \<Longrightarrow>
      remaining_bytes (work_budget w) + reserve (Some pw) \<le> remaining_bytes (work_budget w') + reserve pend + row_cost row \<Longrightarrow>
      reserve (Some pw) \<le> row_cost row \<Longrightarrow>
      Q (Some pw, sel @ [flag_of (int (unat x)) (int (unat a))], outs @ emitted (int (unat x)) (int (unat a))) w'"
    and bad: "\<And>e w'. step_fault E (reserve pend + row_cost row) w e \<or> m row = None \<and> \<not> is_unwind e \<or>
      (\<exists>x. m row = Some x \<and> rejects (int (unat x) + sint d) e w') \<Longrightarrow> R e w'"
  shows "wp (distinct_row E T p c i (pend, sel, outs)) Q R w"
  unfolding distinct_row.simps wp_bind
proof (rule wp_row_bytes [OF tabs _ ready refl], goal_cases)
  case 1
  show ?case using i by (simp add: num_rows_def)
next
  case (2 w1)
  note w1 = 2 [folded row]
  show ?case
    unfolding wp_bind row [symmetric]
  proof (rule wp_load_weight [OF laws w1(1)], goal_cases)
    case (1 pw w2)
    note w2 = this
    have fits: "remaining_bytes (work_budget w) + reserve (Some pw) \<le>
        remaining_bytes (work_budget w2) + reserve pend + (3 * length row + 16)"
      using w1(2) w2(4) by simp
    show ?case
      unfolding Let_def d [symmetric]
    proof (cases rule: next_weight_split [of d "pend_current pw"])
      case (ok a)
      have "holds V p (m(row := Some a)) (Some (pw\<lparr>pend_current := a\<rparr>)) w2"
        using w2(1,2) by (auto simp: holds_def cached_def effective_def)
      then show "wp (case if 0 < sint d then checked_add_u64 (pend_current pw) (unsigned_abs d)
             else checked_sub_u64 (pend_current pw) (unsigned_abs d) of
          None \<Rightarrow> reject_difference E p pw d
        | Some aft \<Rightarrow> sem_return (Some (pw\<lparr>pend_current := aft\<rparr>),
            case output_difference (pend_current pw) aft of None \<Rightarrow> (sel @ [False], outs) | Some da \<Rightarrow> (sel @ [True], outs @ [da]))) Q R w2"
        using assms(8) [OF w2(3) ok(2), of "pw\<lparr>pend_current := a\<rparr>" w2] ok(1) fits w2(2)
        by (simp add: output_difference_cases reserve_def row_cost_def)
    next
      case out
      have "wp (reject_difference E p pw d) Q R w2"
      proof (rule wp_reject_difference [OF laws w2(1) out(2)])
        fix e w' assume "step_fault E (2 * length (pend_key pw) + 16) w2 e"
        then show "R e w'"
          using fits w2(2) by (intro bad) (auto simp: step_fault_def row_cost_def reserve_def)
      qed (use w2(3) in \<open>auto simp: rejects_def intro!: bad\<close>)
      with out(1) show "wp (case if 0 < sint d then checked_add_u64 (pend_current pw) (unsigned_abs d)
             else checked_sub_u64 (pend_current pw) (unsigned_abs d) of
          None \<Rightarrow> reject_difference E p pw d
        | Some aft \<Rightarrow> sem_return (Some (pw\<lparr>pend_current := aft\<rparr>),
            case output_difference (pend_current pw) aft of None \<Rightarrow> (sel @ [False], outs) | Some da \<Rightarrow> (sel @ [True], outs @ [da]))) Q R w2"
        by simp
    qed
  next
    case (2 e w')
    then show ?case using w1(2) by (intro bad) (auto simp: step_fault_def row_cost_def)
  qed
next
  case (3 e w')
  then show ?case by (intro bad) (auto simp: step_fault_def row_cost_def row)
qed

section \<open>The row loop\<close>

definition total_of :: "(bytes \<Rightarrow> u64 option) \<Rightarrow> bytes \<Rightarrow> int" where
  "total_of m k = int (unat (the (m k)))"

definition event_at :: "('a, 'b) tables \<Rightarrow> 'b change \<Rightarrow> nat \<Rightarrow> event" where
  "event_at T c i = (row_key T (records c) i, sint (diff_value (diffs c ! i)))"

definition rows_cost :: "('a, 'b) tables \<Rightarrow> 'b change \<Rightarrow> nat list \<Rightarrow> nat" where
  "rows_cost T c is = (\<Sum>i \<leftarrow> is. row_cost (row_key T (records c) i))"

definition rows_result :: "(bytes \<Rightarrow> u64 option) \<Rightarrow> event list \<Rightarrow> (bytes \<Rightarrow> u64 option) \<Rightarrow> bool list \<Rightarrow> i64 list \<Rightarrow> bool" where
  "rows_result m es m' flags ds \<longleftrightarrow>
     (\<forall>k. total_of m' k = total_of m k + weight_of es k) \<and> (\<forall>k. m k \<noteq> None \<longrightarrow> m' k \<noteq> None) \<and>
     length flags = length es \<and> length ds = length (filter id flags) \<and> 0 \<notin> set ds \<and>
     distinct_events (total_of m) es = Inr (zip (keep flags (map fst es)) (map sint ds))"

definition rows_error :: "'s engine \<Rightarrow> nat \<Rightarrow> (bytes \<Rightarrow> u64 option) \<Rightarrow> event list \<Rightarrow> 's work \<Rightarrow> operation_error \<Rightarrow> 's work \<Rightarrow> bool" where
  "rows_error E n m es w e w' \<longleftrightarrow>
     step_fault E n w e \<or> (\<exists>k. m k = None) \<and> \<not> is_unwind e \<or>
     (\<exists>err. distinct_events (total_of m) es = Inl err \<and> e = distinct_boxed err \<and> \<not> is_unwind e \<and> poisoned (work_txn w'))"

lemma emitted_events:
  assumes "0 \<le> x" "0 \<le> y"
  shows "zip (keep [flag_of x y] [r]) (map sint (emitted x y)) =
    (if x = 0 \<and> y > 0 then [(r, 1)] else if x > 0 \<and> y = 0 then [(r, - 1)] else [])"
    "length (emitted x y) = length (filter id [flag_of x y])" "0 \<notin> set (emitted x y)"
  using assms by (auto simp: flag_of_def emitted_def present_def)

lemma rows_result_Cons:
  assumes x: "m row = Some x" and a: "int (unat a) = int (unat x) + sint d"
    and rest: "rows_result (m(row := Some a)) es m' flags ds"
  shows "rows_result m ((row, sint d) # es) m' (flag_of (int (unat x)) (int (unat a)) # flags) (emitted (int (unat x)) (int (unat a)) @ ds)"
proof -
  let ?x = "int (unat x)" and ?y = "int (unat a)"
  have upd: "total_of (m(row := Some a)) = (total_of m)(row := total_of m row + sint d)"
    using x a by (auto simp: total_of_def simp del: of_nat_unat)
  have mx: "total_of m row = ?x" using x by (simp add: total_of_def)
  have range: "\<not> ?x + sint d < 0" "\<not> ?x + sint d \<ge> 2 ^ 64"
    using a unat_u64_less [of a] by (simp_all del: of_nat_unat unat_u64_less)
  note em = emitted_events(1) [of ?x ?y row] emitted_events(2,3) [of ?x ?y]
  have ev: "distinct_events ((total_of m)(row := total_of m row + sint d)) es = Inr (zip (keep flags (map fst es)) (map sint ds))"
    and len: "length flags = length es" "length ds = length (filter id flags)" "0 \<notin> set ds"
    and tot: "total_of m' k = total_of (m(row := Some a)) k + weight_of es k" "m k \<noteq> None \<longrightarrow> m' k \<noteq> None" for k
    using rest by (auto simp: rows_result_def upd split: if_splits)
  have "zip (keep [flag_of ?x ?y] [row] @ keep flags (map fst es)) (map sint (emitted ?x ?y) @ map sint ds) =
      zip (keep [flag_of ?x ?y] [row]) (map sint (emitted ?x ?y)) @ zip (keep flags (map fst es)) (map sint ds)"
    using em(2) by (intro zip_append) (simp add: length_keep)
  then have "distinct_events (total_of m) ((row, sint d) # es) =
      Inr (zip (keep (flag_of ?x ?y # flags) (row # map fst es)) (map sint (emitted ?x ?y @ ds)))"
    using range em(1) a ev by (simp add: mx del: of_nat_unat)
  moreover have "total_of m' k = total_of m k + weight_of ((row, sint d) # es) k" for k
    using tot(1) [of k] a by (simp add: upd)
  ultimately show ?thesis
    using tot(2) len em(2,3) by (simp add: rows_result_def del: of_nat_unat)
qed

lemma rows_error_Cons:
  assumes x: "m row = Some x" and a: "int (unat a) = int (unat x) + sint d"
    and fits: "remaining_bytes (work_budget w) + r \<le> remaining_bytes (work_budget w1) + n" "r \<le> n"
    and rest: "rows_error E (r + k) (m(row := Some a)) es w1 e w'"
  shows "rows_error E (n + k) m ((row, sint d) # es) w e w'"
proof -
  have upd: "total_of (m(row := Some a)) = (total_of m)(row := total_of m row + sint d)"
    using x a by (auto simp: total_of_def simp del: of_nat_unat)
  have mx: "total_of m row = int (unat x)" using x by (simp add: total_of_def)
  have range: "\<not> int (unat x) + sint d < 0" "\<not> int (unat x) + sint d \<ge> 2 ^ 64"
    using a unat_u64_less [of a] by (simp_all del: of_nat_unat unat_u64_less)
  show ?thesis
    using rest fits range unfolding rows_error_def upd
    by (auto simp: step_fault_def mx simp del: of_nat_unat split: if_splits)
qed

lemma rows_error_head:
  assumes "step_fault E n w e \<or> m row = None \<and> \<not> is_unwind e \<or> (\<exists>x. m row = Some x \<and> rejects (int (unat x) + d) e w')"
  shows "rows_error E (n + k) m ((row, d) # es) w e w'"
  using assms
proof (elim disjE exE conjE)
  fix x assume x: "m row = Some x" and rej: "rejects (int (unat x) + d) e w'"
  define z where "z = total_of m row + d"
  have "rejects z e w'" using rej x by (simp add: z_def total_of_def)
  then consider "z < 0" "e = distinct_boxed NegativeWeight" "poisoned (work_txn w')"
    | "\<not> z < 0" "2 ^ 64 \<le> z" "e = distinct_boxed WeightOverflow" "poisoned (work_txn w')"
    by (cases "z < 0") (auto simp: rejects_def)
  then have "\<exists>err. distinct_events (total_of m) ((row, d) # es) = Inl err \<and> e = distinct_boxed err \<and> \<not> is_unwind e \<and> poisoned (work_txn w')"
    by cases (simp_all add: z_def)
  then show ?thesis unfolding rows_error_def by blast
qed (auto simp: rows_error_def step_fault_def)

lemma wp_distinct_rows:
  assumes laws: "engine_laws E V" and tabs: "tables_laws T ok" "table_ok T ok (records c)"
    and "\<forall>i \<in> set is. i < num_rows (table_arrow T) c" "holds V p m pend w"
    and "\<And>m' pend' flags ds w'. rows_result m (map (event_at T c) is) m' flags ds \<Longrightarrow> holds V p m' pend' w' \<Longrightarrow>
      remaining_bytes (work_budget w) + reserve pend' \<le> remaining_bytes (work_budget w') + reserve pend + rows_cost T c is \<Longrightarrow>
      reserve pend' \<le> reserve pend + rows_cost T c is \<Longrightarrow>
      Q (pend', sel @ flags, outs @ ds) w'"
    and "\<And>e w'. rows_error E (reserve pend + rows_cost T c is) m (map (event_at T c) is) w e w' \<Longrightarrow> R e w'"
  shows "wp (distinct_rows E T p c is (pend, sel, outs)) Q R w"
  using assms(4-)
proof (induction "is" arbitrary: m pend w sel outs Q R)
  case Nil
  have "Q (pend, sel @ [], outs @ []) w"
    by (rule Nil(3) [OF _ Nil(2)]) (simp_all add: rows_result_def)
  then show ?case by simp
next
  case (Cons i "is")
  let ?row = "row_key T (records c) i" and ?d = "diff_value (diffs c ! i)"
  have i: "i < num_rows (table_arrow T) c" using Cons.prems(1) by simp
  have ev: "event_at T c i = (?row, sint ?d)" by (simp add: event_at_def)
  have cost: "rows_cost T c (i # is) = row_cost ?row + rows_cost T c is" by (simp add: rows_cost_def)
  show ?case
    unfolding distinct_rows.simps wp_bind
  proof (rule wp_distinct_row [OF laws tabs i Cons.prems(2) refl refl], goal_cases)
    case (1 x a pw w1)
    note step = this
    show ?case
    proof (rule Cons.IH [OF _ step(3)], goal_cases)
      case (2 m' flags ds pend' w')
      note rest = this
      have "rows_result m (map (event_at T c) (i # is)) m' (flag_of (int (unat x)) (int (unat a)) # flags)
          (emitted (int (unat x)) (int (unat a)) @ ds)"
        unfolding list.map ev by (rule rows_result_Cons [OF step(1,2) rest(1)])
      moreover have "remaining_bytes (work_budget w) + reserve pend' \<le>
          remaining_bytes (work_budget w') + reserve pend + rows_cost T c (i # is)"
        using step(4) rest(3) by (simp add: cost)
      moreover have "reserve pend' \<le> reserve pend + rows_cost T c (i # is)"
        using step(5) rest(4) by (simp add: cost)
      ultimately have "Q (pend', sel @ flag_of (int (unat x)) (int (unat a)) # flags,
          outs @ emitted (int (unat x)) (int (unat a)) @ ds) w'"
        by (rule Cons.prems(3) [OF _ rest(2)])
      then show ?case by (simp only: append.assoc append_Cons append_Nil)
    next
      case (3 e w')
      have "rows_error E (reserve pend + row_cost ?row + rows_cost T c is) m ((?row, sint ?d) # map (event_at T c) is) w e w'"
        by (rule rows_error_Cons [OF step(1,2) _ _ 3]) (use step(4,5) in simp_all)
      then show ?case by (intro Cons.prems(4)) (simp only: list.map ev cost add.assoc)
    qed (use Cons.prems(1) step(3) in auto)
  next
    case (2 e w')
    then have "rows_error E (reserve pend + rows_cost T c (i # is)) m (map (event_at T c) (i # is)) w e w'"
      unfolding cost list.map ev add.assoc [symmetric] by (rule rows_error_head)
    then show ?case by (rule Cons.prems(4))
  qed
qed

section \<open>The whole operation\<close>

lemma events_eq:
  assumes "change_ok (table_arrow T) c"
  shows "events T c = map (event_at T c) [0..<num_rows (table_arrow T) c]"
proof (rule nth_equalityI)
  show "length (events T c) = length (map (event_at T c) [0..<num_rows (table_arrow T) c])"
    using assms by (simp add: events_def change_ok_def num_rows_def)
  fix i assume "i < length (events T c)"
  then show "events T c ! i = map (event_at T c) [0..<num_rows (table_arrow T) c] ! i"
    using assms by (simp add: events_def change_ok_def num_rows_def event_at_def row_keys_nth)
qed

text \<open>Arrow's kernel succeeds on the batch, and what it returns is valid as the batch is.\<close>

definition filterable :: "('a, 'b) tables \<Rightarrow> 'b \<Rightarrow> bool" where
  "filterable T b \<longleftrightarrow>
     validate_schema (batch_schema (table_arrow T) b) = Inr () \<and> batch_decimals (table_arrow T) b = Inr () \<and>
     (\<forall>sel. length sel = batch_rows (table_arrow T) b \<longrightarrow>
        (\<exists>b'. filter_batch T b sel = Inr b' \<and> batch_decimals (table_arrow T) b' = Inr ()))"

lemma change_try_new_eq:
  assumes "validate_schema (batch_schema A b) = Inr ()" "batch_decimals A b = Inr ()"
    and "batch_rows A b = length ds" "ds \<noteq> []" "0 \<notin> set ds"
  shows "change_try_new A b (map Some ds) = Inr \<lparr>records = b, diffs = map Some ds\<rparr>"
proof -
  have "check_diffs 0 (map Some ds) = Inr ()" using assms(5) by (auto simp: check_diffs_Inr)
  then show ?thesis using assms(1-4) by (simp add: change_try_new_def try_new_shape_def)
qed

lemma events_some: "events T \<lparr>records = b, diffs = map Some ds\<rparr> = zip (row_keys T b) (map sint ds)"
  by (simp add: events_def diff_value_def comp_def)

lemma distinct_output_ok:
  assumes laws: "tables_laws T ok" "table_ok T ok (records c)" and filt: "filterable T (records c)"
    and flags: "length flags = num_rows (table_arrow T) c" "length ds = length (filter id flags)" "0 \<notin> set ds"
    and fits: "the (logical_change_bytes T c) \<le> remaining_bytes (work_budget w)"
  obtains out w' where "distinct_output T c flags ds w = (Inr out, w')" "work_txn w' = work_txn w"
    "output_events T out = zip (keep flags (row_keys T (records c))) (map sint ds)"
proof (cases "ds = []")
  case True
  then show thesis using that [of None w] by (simp add: distinct_output_def sem_return_def output_events_def)
next
  case False
  show thesis
  proof (cases "length ds = num_rows (table_arrow T) c")
    case True
    have "\<forall>s \<in> set flags. s"
      using True flags(1,2) by (metis id_apply length_filter_less less_irrefl)
    then have all: "keep flags (row_keys T (records c)) = row_keys T (records c)"
      using flags(1) by (simp add: keep_all num_rows_def)
    have new: "change_try_new (table_arrow T) (records c) (map Some ds) = Inr \<lparr>records = records c, diffs = map Some ds\<rparr>"
      using filt True False flags(3) by (intro change_try_new_eq) (simp_all add: filterable_def num_rows_def)
    show thesis
      by (rule that [of "Some \<lparr>records = records c, diffs = map Some ds\<rparr>" w])
        (use True False new all in \<open>simp_all add: distinct_output_def sem_bind_def sem_return_def sem_lift_def output_events_def events_some\<close>)
  next
    case other: False
    obtain b where b: "filter_batch T (records c) flags = Inr b" "batch_decimals (table_arrow T) b = Inr ()"
      using filt flags(1) by (auto simp: filterable_def num_rows_def)
    have "filter_law T" using laws(1) by (simp add: tables_laws_def)
    then have kept: "batch_rows (table_arrow T) b = length ds" "row_keys T b = keep flags (row_keys T (records c))"
      "batch_schema (table_arrow T) b = batch_schema (table_arrow T) (records c)"
      using b(1) flags(1,2) unfolding filter_law_def by (auto simp: row_keys_def map_keep num_rows_def)
    have new: "change_try_new (table_arrow T) b (map Some ds) = Inr \<lparr>records = b, diffs = map Some ds\<rparr>"
      using filt b(2) kept False flags(3) by (intro change_try_new_eq) (simp_all add: filterable_def)
    let ?w = "w\<lparr>work_budget := (work_budget w)\<lparr>remaining_bytes := remaining_bytes (work_budget w) - the (logical_change_bytes T c)\<rparr>\<rparr>"
    show thesis
      by (rule that [of "Some \<lparr>records = b, diffs = map Some ds\<rparr>" ?w])
        (use other False new b fits kept in \<open>simp_all add: distinct_output_def charge_change_eq [OF laws] in_budget_def charge_def sem_bind_def
          sem_return_def sem_lift_def output_events_def events_some\<close>)
  qed
qed

definition distinct_cost :: "('a, 'b) tables \<Rightarrow> 'b change \<Rightarrow> nat" where
  "distinct_cost T c =
     2 * the (logical_change_bytes T c) + 9 * num_rows (table_arrow T) c + rows_cost T c [0..<num_rows (table_arrow T) c]"

lemma weight_call_bind_access:
  assumes "\<not> poisoned (work_txn w)" "handle_token h = store_token (work_txn w)"
  shows "weight_call (bind_access h) w = (Inr (data_prefix (data_id h)), w)"
proof -
  have "wp (bind_access h) (\<lambda>a t. a = data_prefix (data_id h) \<and> t = work_txn w) (\<lambda>_ _. False) (work_txn w)"
    by (rule wp_bind_access_ok) (use assms in simp_all)
  then have "bind_access h (work_txn w) = (Inr (data_prefix (data_id h)), work_txn w)" by (auto elim: wp_cases)
  then show ?thesis by (simp add: weight_call_def in_txn_def)
qed

lemma multiplicity_total: "multiplicity_of vec_key (V (inner t)) p k = total_of (weight_view V p t) k"
  by (simp add: multiplicity_of_def vec_key_def total_of_def weight_view_def)

lemma weights_ok_view: "weights_ok (V (inner t)) p \<longleftrightarrow> (\<forall>k. weight_view V p t k \<noteq> None)"
  by (simp add: weights_ok_def weight_view_def)

lemma distinct_apply_eq:
  assumes tabs: "tables_laws T ok" "table_ok T ok (records c)"
    and "in_port input = 0" "in_change input = c" "batch_schema (table_arrow T) (records c) = distinct_schema D"
    and h: "\<not> poisoned (work_txn w)" "handle_token (distinct_weights D) = store_token (work_txn w)"
    and fits: "distinct_cost T c \<le> remaining_bytes (work_budget w)"
  obtains w0 where "work_txn w0 = work_txn w"
    "remaining_bytes (work_budget w0) \<le> remaining_bytes (work_budget w)"
    "the (logical_change_bytes T c) + rows_cost T c [0..<num_rows (table_arrow T) c] \<le> remaining_bytes (work_budget w0)"
    "distinct_apply T D E input w =
      (let p = data_prefix (data_id (distinct_weights D)) in
       sem_bind (distinct_rows E T p c [0..<num_rows (table_arrow T) c] (None, [], [])) (\<lambda>(pend, selected, output_diffs).
       sem_bind (case pend of None \<Rightarrow> sem_return () | Some pw \<Rightarrow> flush_weight E p pw) (\<lambda>_.
         distinct_output T c selected output_diffs)) w0)"
proof -
  let ?r = "remaining_bytes (work_budget w)" and ?l = "the (logical_change_bytes T c)"
  let ?m = "saturating_mul (num_rows (table_arrow T) c) 9"
  let ?w = "w\<lparr>work_budget := (work_budget w)\<lparr>remaining_bytes := ?r - ?l - ?m\<rparr>\<rparr>"
  have m: "?m \<le> 9 * num_rows (table_arrow T) c" by (simp add: saturating_mul_def)
  with fits have enough: "?l \<le> ?r" "?m \<le> ?r - ?l" by (simp_all add: distinct_cost_def)
  have acc: "weight_call (bind_access (distinct_weights D)) ?w = (Inr (data_prefix (data_id (distinct_weights D))), ?w)"
    using h by (intro weight_call_bind_access) simp_all
  show thesis
  proof (rule that [of ?w])
    show "?l + rows_cost T c [0..<num_rows (table_arrow T) c] \<le> remaining_bytes (work_budget ?w)"
      using fits m by (simp add: distinct_cost_def)
    show "distinct_apply T D E input w =
      (let p = data_prefix (data_id (distinct_weights D)) in
       sem_bind (distinct_rows E T p c [0..<num_rows (table_arrow T) c] (None, [], [])) (\<lambda>(pend, selected, output_diffs).
       sem_bind (case pend of None \<Rightarrow> sem_return () | Some pw \<Rightarrow> flush_weight E p pw) (\<lambda>_.
         distinct_output T c selected output_diffs)) ?w)"
      using assms(3-5) enough acc unfolding distinct_apply_def Let_def charge_change_eq [OF tabs]
      by (simp add: charge_change_eq [OF tabs] sem_bind_def [of "in_budget _"] sem_bind_def [of "weight_call _"] in_budget_def charge_def)
  qed simp_all
qed

lemma distinct_tail:
  assumes laws: "engine_laws E V" "engine_reliable E" and tabs: "tables_laws T ok" "table_ok T ok (records c)"
    and filt: "filterable T (records c)" and ok: "change_ok (table_arrow T) c"
    and res: "rows_result m (map (event_at T c) [0..<num_rows (table_arrow T) c]) m' flags ds" "holds V p m' pend w"
    and fits: "the (logical_change_bytes T c) + reserve pend \<le> remaining_bytes (work_budget w)" "reserve pend \<le> usize_max"
  shows "wp (sem_bind (case pend of None \<Rightarrow> sem_return () | Some pw \<Rightarrow> flush_weight E p pw) (\<lambda>_. distinct_output T c flags ds))
    (\<lambda>out w'. weight_view V p (work_txn w') = m' \<and> distinct_events (total_of m) (events T c) = Inr (output_events T out)) (\<lambda>_ _. False) w"
proof -
  let ?Q = "\<lambda>out w'. weight_view V p (work_txn w') = m' \<and> distinct_events (total_of m) (events T c) = Inr (output_events T out)"
  have ev: "map fst (events T c) = row_keys T (records c)"
    using ok by (simp add: events_def change_ok_def num_rows_def)
  have tail: "wp (distinct_output T c flags ds) ?Q (\<lambda>_ _. False) w1"
    if w1: "holds V p m' None w1" "the (logical_change_bytes T c) \<le> remaining_bytes (work_budget w1)" for w1
  proof -
    obtain out w' where out: "distinct_output T c flags ds w1 = (Inr out, w')" "work_txn w' = work_txn w1"
      "output_events T out = zip (keep flags (row_keys T (records c))) (map sint ds)"
      using distinct_output_ok [OF tabs filt _ _ _ w1(2), of flags ds] res(1) by (auto simp: rows_result_def)
    with w1(1) res(1) show ?thesis
      by (simp add: wp_def holds_def effective_def rows_result_def events_eq [OF ok, symmetric] ev)
  qed
  show ?thesis
  proof (cases pend)
    case None
    then show ?thesis using tail res(2) fits by (simp add: reserve_def)
  next
    case (Some pw)
    have "wp (flush_weight E p pw) (\<lambda>_. wp (distinct_output T c flags ds) ?Q (\<lambda>_ _. False)) (\<lambda>_ _. False) w"
      by (rule wp_flush_weight [OF laws(1) res(2) [unfolded Some]])
        (use fits laws(2) in \<open>auto simp: Some step_fault_def intro!: tail\<close>)
    then show ?thesis by (simp add: Some)
  qed
qed

section \<open>The contract\<close>

lemma weight_error_unwind: "is_unwind (distinct_boxed (map_weight_error e)) \<longleftrightarrow> is_panicked e"
  by (cases e) auto

lemma confined_weight_call [confined_intros]:
  assumes "confined V W is_panicked id m"
  shows "confined V W is_unwind work_txn (weight_call m)"
  unfolding weight_call_def
proof (rule confined_in_txn)
  show "confined V W is_unwind id (\<lambda>t. apfst (map_sum (\<lambda>e. distinct_boxed (map_weight_error e)) id) (m t))"
    using assms by (auto simp: confined_def panic_free_def weight_error_unwind map_sum_def split: sum.splits)
qed

lemma spends_weight_call [spends_intros]: "spends (weight_call m)"
  unfolding weight_call_def by (rule spends_in_txn)

lemma spends_flush_weight [spends_intros]: "spends (flush_weight E p pw)"
  unfolding flush_weight_def by (intro spends_intros)

lemma spends_distinct_row_bytes [spends_intros]: "spends (distinct_row_bytes T b i)"
  unfolding distinct_row_bytes_def by (intro spends_intros)

lemma spends_load_weight [spends_intros]: "spends (load_weight E p pend row)"
  unfolding load_weight_def by (intro spends_intros)

lemma spends_distinct_rows [spends_intros]: "spends (distinct_rows E T p c is acc)"
proof (induction "is" arbitrary: acc)
  case (Cons i "is")
  have "spends (distinct_row E T p c i (pend, sel, outs))" for pend sel outs
    unfolding distinct_row.simps reject_difference_def Let_def by (intro spends_intros)
  with Cons show ?case by (cases acc) (auto intro: spends_intros)
qed (simp add: spends_intros)

lemma spends_distinct_apply: "spends (distinct_apply T D E input)"
  unfolding distinct_apply_def distinct_output_def Let_def by (intro spends_intros)

text \<open>The writes stay below the weights; that a panic is not reached follows from the row loop, which tracks the cache.\<close>

abbreviation writes :: "('s \<Rightarrow> (bytes \<rightharpoonup> bytes)) \<Rightarrow> bytes set \<Rightarrow> ('s, 'x) work_op \<Rightarrow> bool" where
  "writes V W m \<equiv> confined V W (\<lambda>_. False) work_txn m"

lemma panic_free_trivial [panic_free_intros]: "panic_free (\<lambda>_. False) m"
  by (simp add: panic_free_def)

lemma writes_confined: "confined V W pan work_txn m \<Longrightarrow> writes V W m"
  by (rule confined_weaken) simp_all

lemma writes_weight_call [confined_intros]: "confined V W is_panicked id m \<Longrightarrow> writes V W (weight_call m)"
  by (rule writes_confined [OF confined_weight_call])

lemma writes_flush_weight [confined_intros]: "engine_laws E V \<Longrightarrow> below p \<subseteq> W \<Longrightarrow> writes V W (flush_weight E p pw)"
  unfolding flush_weight_def by (intro confined_intros panic_free_intros)

lemma writes_distinct_rows [confined_intros]:
  assumes "engine_laws E V" "below p \<subseteq> W"
  shows "writes V W (distinct_rows E T p c is acc)"
proof (induction "is" arbitrary: acc)
  case (Cons i "is")
  have bytes: "writes V W (distinct_row_bytes T b i)" for b
    unfolding distinct_row_bytes_def by (intro confined_intros panic_free_intros) simp_all
  have "writes V W (distinct_row E T p c i (pend, sel, outs))" for pend sel outs
    unfolding distinct_row.simps reject_difference_def load_weight_def Let_def
    by (intro confined_intros poison_intros panic_free_intros bytes assms) simp_all
  with Cons show ?case by (cases acc) (auto intro: confined_intros)
qed (simp add: confined_intros)

lemma writes_charge_change [confined_intros]: "writes V W (charge_change T c)"
  unfolding charge_change_def by (intro confined_intros panic_free_intros) simp

lemma writes_bind_weights:
  assumes "writes V W (f (data_prefix (data_id h)))"
  shows "writes V W (sem_bind (weight_call (bind_access h)) f)"
proof (rule confined_bind_known [where b = "data_prefix (data_id h)"])
  show "writes V W (weight_call (bind_access h))" by (intro confined_intros confined_bound)
  show "p = data_prefix (data_id h)" if "weight_call (bind_access h) w = (Inr p, w')" for w p w'
    using that by (auto simp: weight_call_def in_txn_def apfst_def map_prod_def map_sum_Inr_iff split: prod.splits dest: bind_access_result)
qed (rule assms)

lemma writes_distinct_apply:
  assumes "engine_laws E V"
  shows "writes V (owned [distinct_weights D]) (distinct_apply T D E input)"
  unfolding distinct_apply_def distinct_output_def Let_def
  by (intro confined_intros panic_free_intros writes_bind_weights assms) (simp_all add: owned_def)

lemma wp_bind_access_any:
  assumes "\<not> poisoned t \<Longrightarrow> Q (data_prefix (data_id h)) t" "\<And>e t'. \<not> is_panicked e \<Longrightarrow> R e t'"
  shows "wp (bind_access h) Q R t"
proof (cases "poisoned t \<or> handle_token h \<noteq> store_token t")
  case True
  then have "\<nexists>p t'. bind_access h t = (Inr p, t')" by (auto simp: access_simps)
  moreover have "\<not> is_panicked e" if "bind_access h t = (Inl e, t')" for e t'
    using confined_panic_free [OF confined_bound] that by (rule panic_freeD)
  ultimately show ?thesis by (cases "bind_access h t"; cases "fst (bind_access h t)") (auto simp: wp_def assms(2))
next
  case False
  then show ?thesis by (intro wp_bind_access_ok) (auto intro: assms(1))
qed

lemma panic_free_distinct_apply:
  assumes laws: "engine_laws E V" and valid: "valid_input T ok input"
  shows "panic_free is_unwind (distinct_apply T D E input)"
proof (rule panic_free_wp)
  fix w :: "'a work"
  let ?c = "in_change input" and ?R = "\<lambda>e (_ :: 'a work). \<not> is_unwind e"
  have tabs: "tables_laws T ok" "table_ok T ok (records ?c)" using valid by (simp_all add: valid_input_def)
  have filtered: "wp (distinct_output T ?c flags ds) (\<lambda>_ _. True) ?R w" for flags ds w
    by (auto simp: distinct_output_def charge_change_eq [OF tabs] map_sum_def split: sum.split)
  have rows: "wp (sem_bind (distinct_rows E T p ?c [0..<num_rows (table_arrow T) ?c] (None, [], [])) (\<lambda>(pend, selected, output_diffs).
      sem_bind (case pend of None \<Rightarrow> sem_return () | Some pw \<Rightarrow> flush_weight E p pw) (\<lambda>_.
        distinct_output T ?c selected output_diffs))) (\<lambda>_ _. True) ?R w" if "\<not> poisoned (work_txn w)" for p w
    unfolding wp_bind
  proof (rule wp_distinct_rows [OF laws tabs, where m = "weight_view V p (work_txn w)"], goal_cases)
    case 2
    show ?case using that by (simp add: holds_def cached_def effective_def)
  next
    case (3 m' pend' flags ds w')
    then show ?case
      by (cases pend') (auto simp: filtered step_fault_def intro!: wp_flush_weight [OF laws])
  qed (auto simp: rows_error_def step_fault_def)
  have access: "wp (bind_access (distinct_weights D)) (\<lambda>a t. wp (sem_bind (distinct_rows E T a ?c [0..<num_rows (table_arrow T) ?c] (None, [], []))
      (\<lambda>(pend, selected, output_diffs). sem_bind (case pend of None \<Rightarrow> sem_return () | Some pw \<Rightarrow> flush_weight E a pw) (\<lambda>_.
        distinct_output T ?c selected output_diffs))) (\<lambda>_ _. True) ?R (w1\<lparr>work_txn := t\<rparr>))
      (\<lambda>e t. ?R (distinct_boxed (map_weight_error e)) w1) (work_txn w1)" for w1
  proof (rule wp_bind_access_any)
    assume "\<not> poisoned (work_txn w1)"
    then show "wp (sem_bind (distinct_rows E T (data_prefix (data_id (distinct_weights D))) ?c [0..<num_rows (table_arrow T) ?c] (None, [], []))
      (\<lambda>(pend, selected, output_diffs). sem_bind (case pend of None \<Rightarrow> sem_return () | Some pw \<Rightarrow>
        flush_weight E (data_prefix (data_id (distinct_weights D))) pw) (\<lambda>_. distinct_output T ?c selected output_diffs)))
      (\<lambda>_ _. True) ?R (w1\<lparr>work_txn := work_txn w1\<rparr>)"
      by (intro rows) simp
  qed (simp add: weight_error_unwind)
  show "wp (distinct_apply T D E input) (\<lambda>_ _. True) ?R w"
    using access [of "w\<lparr>work_budget := (work_budget w)\<lparr>remaining_bytes := remaining_bytes (work_budget w) -
      (the (logical_change_bytes T ?c) + saturating_mul (num_rows (table_arrow T) ?c) 9)\<rparr>\<rparr>"]
    by (simp add: distinct_apply_def Let_def charge_change_eq [OF tabs])
qed

interpretation distinct_operation: atomic_contract "distinct_apply T D" "[distinct_weights D]" "valid_input T ok"
  for T :: "('a, 'b) tables" and D ok
proof (unfold_locales, goal_cases)
  case (1 E V input)
  then show ?case
    by (intro confined_split [OF writes_distinct_apply panic_free_distinct_apply])
next
  case (2 E input)
  show ?case by (rule spends_distinct_apply)
qed

section \<open>Properties\<close>

text \<open>
  C36: with enough budget and a reliable store, distinct computes exactly its reference: an input whose differences would take a
  multiplicity out of the range of a \<^verbatim>\<open>u64\<close> is rejected with the reference's error and poisons the transaction; otherwise the
  output events are the reference's, in order, the stored multiplicity of every row changes by the sum of its
  differences, and the net output of every row is one exactly if it has become present, minus one if it has disappeared.
\<close>

theorem distinct_exact:
  assumes laws: "engine_laws E V" "engine_reliable E" and tabs: "tables_laws T ok" "table_ok T ok (records c)"
    and filt: "filterable T (records c)" and cok: "change_ok (table_arrow T) c"
    and input: "in_port input = 0" "in_change input = c" "batch_schema (table_arrow T) (records c) = distinct_schema D"
    and h: "\<not> poisoned (work_txn w)" "handle_token (distinct_weights D) = store_token (work_txn w)"
    and p: "p = data_prefix (data_id (distinct_weights D))" and wok: "weights_ok (V (inner (work_txn w))) p"
    and fits: "distinct_cost T c \<le> remaining_bytes (work_budget w)" "remaining_bytes (work_budget w) \<le> usize_max"
    and mult: "old = multiplicity_of vec_key (V (inner (work_txn w))) p"
  shows "case distinct_events old (events T c) of
      Inl err \<Rightarrow> \<exists>w'. distinct_apply T D E input w = (Inl (distinct_boxed err), w') \<and> poisoned (work_txn w')
    | Inr out \<Rightarrow> \<exists>output w'. distinct_apply T D E input w = (Inr output, w') \<and> output_events T output = out \<and>
        weights_ok (V (inner (work_txn w'))) p \<and>
        (\<forall>k. multiplicity_of vec_key (V (inner (work_txn w'))) p k = old k + weight_of (events T c) k) \<and>
        (\<forall>k. weight_of out k = present (old k + weight_of (events T c) k) - present (old k))"
proof -
  let ?m = "weight_view V p (work_txn w)" and ?is = "[0..<num_rows (table_arrow T) c]"
  have b: "old = total_of ?m" using mult by (intro ext) (simp add: multiplicity_total)
  obtain w0 where w0: "work_txn w0 = work_txn w" "remaining_bytes (work_budget w0) \<le> remaining_bytes (work_budget w)"
      "the (logical_change_bytes T c) + rows_cost T c ?is \<le> remaining_bytes (work_budget w0)"
    and run: "distinct_apply T D E input w =
      sem_bind (distinct_rows E T p c ?is (None, [], [])) (\<lambda>(pend, selected, output_diffs).
       sem_bind (case pend of None \<Rightarrow> sem_return () | Some pw \<Rightarrow> flush_weight E p pw) (\<lambda>_.
         distinct_output T c selected output_diffs)) w0"
    using distinct_apply_eq [OF tabs input h fits(1), of E] p by (auto simp: Let_def)
  let ?Q = "\<lambda>out w'. \<exists>m'. weight_view V p (work_txn w') = m' \<and> (\<forall>k. total_of m' k = old k + weight_of (events T c) k) \<and>
    (\<forall>k. m' k \<noteq> None) \<and> distinct_events old (events T c) = Inr (output_events T out)"
  let ?R = "\<lambda>e w'. \<exists>err. distinct_events old (events T c) = Inl err \<and> e = distinct_boxed err \<and> poisoned (work_txn w')"
  have total: "?m k \<noteq> None" for k using wok by (simp add: weights_ok_view)
  have "wp (sem_bind (distinct_rows E T p c ?is (None, [], [])) (\<lambda>(pend, selected, output_diffs).
       sem_bind (case pend of None \<Rightarrow> sem_return () | Some pw \<Rightarrow> flush_weight E p pw) (\<lambda>_.
         distinct_output T c selected output_diffs))) ?Q ?R w0"
    unfolding wp_bind
  proof (rule wp_distinct_rows [OF laws(1) tabs, where m = ?m], goal_cases)
    case 2
    show ?case using h w0(1) by (simp add: holds_def cached_def effective_def)
  next
    case (3 m' pend' flags ds w')
    have fit: "the (logical_change_bytes T c) + reserve pend' \<le> remaining_bytes (work_budget w')" "reserve pend' \<le> usize_max"
      using 3(3,4) w0(2,3) fits(2) by (simp_all add: reserve_def)
    have "\<forall>k. total_of m' k = old k + weight_of (events T c) k" "\<forall>k. m' k \<noteq> None"
      using 3(1) total by (auto simp: rows_result_def b events_eq [OF cok])
    then show ?case
      unfolding case_prod_conv append_Nil
      by (intro wp_mono [OF distinct_tail [OF laws tabs filt cok 3(1,2) fit]]) (auto simp: b)
  next
    case (4 e w')
    then show ?case
      using total w0(3) fits(2) w0(2) laws(2)
      by (auto simp: rows_error_def step_fault_def b events_eq [OF cok] reserve_def)
  qed simp
  then have "wp (distinct_apply T D E input) ?Q ?R w" by (simp only: wp_def run)
  then show ?thesis
  proof (cases rule: wp_cases)
    case (ok out w')
    have "\<forall>k. 0 \<le> old k" by (simp add: b total_of_def)
    then have "\<forall>k. weight_of (output_events T out) k = present (old k + weight_of (events T c) k) - present (old k)"
      using ok(2) distinct_events_net(1) by blast
    with ok show ?thesis by (auto simp: multiplicity_total weights_ok_view)
  next
    case (err e w')
    then show ?thesis by auto
  qed
qed

text \<open>Two insertions of a row, one retraction, and a null row: the row and the null appear once.\<close>

definition sample_distinct :: distinct_operation where
  "sample_distinct =
     \<lparr>distinct_schema = \<lparr>schema_fields = [Field ''n'' Int64 True []], schema_metadata = []\<rparr>,
      distinct_weights = \<lparr>handle_token = 1, data_id = 3\<rparr>\<rparr>"

definition sample_rows :: "nat option list operation_input" where
  "sample_rows = \<lparr>in_port = 0, in_change = \<lparr>records = [Some 7, Some 7, None], diffs = [Some 2, Some (- 1), Some 1]\<rparr>\<rparr>"

definition sample_work :: "mem_view work" where
  "sample_work =
     \<lparr>work_txn = \<lparr>inner = ([], True), store_token = 1, poisoned = False, has_writes = False\<rparr>,
      work_budget = \<lparr>head_remaining = 8, remaining_bytes = 1000\<rparr>\<rparr>"

lemma distinct_exact_witness:
  "\<exists>output w'. distinct_apply sample_tables sample_distinct mem_engine sample_rows sample_work = (Inr output, w') \<and>
    output_events sample_tables output = [(1 # be_of_nat 8 7, 1), ([0], 1)]"
proof -
  let ?b = "[Some 7, Some 7, None] :: nat option list" and ?c = "in_change sample_rows" and ?p = "data_prefix 3"
  have c: "?c = \<lparr>records = ?b, diffs = [Some 2, Some (- 1), Some 1]\<rparr>" by (simp add: sample_rows_def)
  have keys: "row_keys sample_tables ?b = [1 # be_of_nat 8 7, 1 # be_of_nat 8 7, [0]]"
    by (simp add: row_keys_def sample_batch_values row_bytes_def)
  have ev: "events sample_tables ?c = [(1 # be_of_nat 8 7, 2), (1 # be_of_nat 8 7, - 1), ([0], 1)]"
    by (simp add: events_def c keys diff_value_def)
  have tab: "table_ok sample_tables sample_ok (records ?c)" by (rule sample_tables_ok) (auto simp: c u64_max_def)
  have filt: "filterable sample_tables (records ?c)"
    by (simp add: filterable_def c sample_schema_valid)
  have cok: "change_ok (table_arrow sample_tables) ?c"
    by (simp add: change_ok_def num_rows_def c)
  have rows: "num_rows (table_arrow sample_tables) ?c = 3" by (simp add: num_rows_def c)
  have lens: "length (row_key sample_tables ?b i) \<le> 9" if "i < 3" for i
    using that keys row_keys_nth [of i sample_tables ?b, symmetric] by (auto simp: less_Suc_eq numeral_3_eq_3 length_be_of_nat)
  have bytes: "logical_change_bytes sample_tables ?c = Some 49"
    by (simp add: logical_change_bytes_def num_rows_def c logical_array_bytes.simps sample_arrays_def div_ceil_def saturating_mul_def
        saturating_add_def usize_max_def) (simp add: sample_tables_def)
  have upt: "[0..<3] = [0, 1, 2 :: nat]" by code_simp
  have cost: "distinct_cost sample_tables ?c \<le> 1000"
    unfolding distinct_cost_def rows bytes rows_cost_def row_cost_def upt
    using lens [of 0] lens [of 1] lens [of 2] by (simp add: c)
  have zero: "multiplicity_of vec_key (mem_contents (inner (work_txn sample_work))) ?p k = 0" for k
    by (simp add: multiplicity_of_def sample_work_def mem_contents_def stored_weight_def)
  have ref: "distinct_events (\<lambda>_. 0) (events sample_tables ?c) = Inr [(1 # be_of_nat 8 7, 1), ([0], 1)]"
    by (simp add: ev)
  have D: "batch_schema (table_arrow sample_tables) (records ?c) = distinct_schema sample_distinct" by (simp add: sample_distinct_def)
  have "weights_ok (mem_contents (inner (work_txn sample_work))) ?p"
    by (simp add: weights_ok_def sample_work_def mem_contents_def stored_weight_def)
  then show ?thesis
    using distinct_exact [OF mem_engine_laws mem_engine_reliable sample_tables_laws tab filt cok _ refl D, of sample_work ?p "\<lambda>_. 0"]
      cost zero ref
    by (auto simp: sample_work_def sample_rows_def sample_distinct_def usize_max_def fun_eq_iff)
qed

end
