(* ===== verification/Sink_State.thy ===== *)
theory Sink_State
  imports Source_Contract
begin

text \<open>
  The control state of an external sink: \<^verbatim>\<open>crates/operation/src/operation/sink/buffered/state.rs\<close> and the error value of
  \<^verbatim>\<open>buffered/mod.rs\<close>.

  A sink numbers the events of its input from one, for ever. Its outbox holds the encoded changes whose events lie from
  \<open>entry_start\<close> of the head up to \<open>tail\<close>; \<open>event_offset\<close> is the next event to deliver. The codec of the state round trips, and
  accepts only valid states in their only encoding.
\<close>

definition invalid :: "string \<Rightarrow> operation_error" where
  "invalid m = Other (''buffered sink: '' @ m) None"

record position =
  entry_start :: u64
  event_offset :: u64

definition position_at :: "u64 \<Rightarrow> position" where
  "position_at offset = \<lparr>entry_start = offset, event_offset = offset\<rparr>"

record buffer_state =
  head :: position
  tail :: u64
  retained_bytes :: u64

definition buffer_EMPTY :: buffer_state where
  "buffer_EMPTY = \<lparr>head = position_at 1, tail = 1, retained_bytes = 0\<rparr>"

definition buffer_is_empty :: "buffer_state \<Rightarrow> bool" where
  "buffer_is_empty s \<longleftrightarrow> event_offset (head s) = tail s"

definition pending_events :: "buffer_state \<Rightarrow> u64" where
  "pending_events s = tail s - event_offset (head s)"

definition buffer_valid :: "buffer_state \<Rightarrow> bool" where
  "buffer_valid s \<longleftrightarrow>
     \<not> (entry_start (head s) = 0 \<or> entry_start (head s) > event_offset (head s) \<or> event_offset (head s) > tail s \<or>
        (if buffer_is_empty s then entry_start (head s) \<noteq> tail s \<or> retained_bytes s \<noteq> 0 else retained_bytes s < 8))"

definition buffer_validate :: "buffer_state \<Rightarrow> operation_error + unit" where
  "buffer_validate s = (if buffer_valid s then Inr () else Inl (invalid ''invalid buffer control state''))"

datatype control_state = Initialize | Ready buffer_state

definition CONTROL_VERSION :: byte where
  "CONTROL_VERSION = 1"

definition MAX_CONTROL_BYTES :: nat where
  "MAX_CONTROL_BYTES = 2 + 4 * 8"

definition encode_buffer :: "buffer_state \<Rightarrow> bytes" where
  "encode_buffer s =
     u64_to_be (entry_start (head s)) @ u64_to_be (event_offset (head s)) @ u64_to_be (tail s) @ u64_to_be (retained_bytes s)"

fun encode_control :: "control_state \<Rightarrow> bytes" where
  "encode_control Initialize = [CONTROL_VERSION, 0]"
| "encode_control (Ready buffer) = [CONTROL_VERSION, 1] @ encode_buffer buffer"

text \<open>The remaining bytes are the state.\<close>

definition read_bytes :: "nat \<Rightarrow> (bytes, operation_error, bytes) sem" where
  "read_bytes n bs = (if n \<le> length bs then (Inr (take n bs), drop n bs) else (Inl (invalid ''truncated control state''), bs))"

definition read_u64 :: "(bytes, operation_error, u64) sem" where
  "read_u64 = sem_bind (read_bytes 8) (\<lambda>bs. sem_return (u64_from_be bs))"

definition decode_buffer :: "(bytes, operation_error, buffer_state) sem" where
  "decode_buffer =
     sem_bind read_u64 (\<lambda>start. sem_bind read_u64 (\<lambda>offset. sem_bind read_u64 (\<lambda>tl. sem_bind read_u64 (\<lambda>retained.
       let buffer = \<lparr>head = \<lparr>entry_start = start, event_offset = offset\<rparr>, tail = tl, retained_bytes = retained\<rparr> in
       sem_bind (sem_lift (buffer_validate buffer)) (\<lambda>_. sem_return buffer)))))"

definition require_end :: "(bytes, operation_error, unit) sem" where
  "require_end bs = (if bs = [] then (Inr (), bs) else (Inl (invalid ''trailing control-state bytes''), bs))"

definition decode_control :: "bytes \<Rightarrow> operation_error + control_state" where
  "decode_control input =
     fst (sem_bind (read_bytes 1) (\<lambda>version.
       if version \<noteq> [CONTROL_VERSION] then sem_throw (invalid ''unknown control-state version'')
       else sem_bind (read_bytes 1) (\<lambda>phase.
         if phase = [0] then sem_bind require_end (\<lambda>_. sem_return Initialize)
         else if phase = [1] then sem_bind decode_buffer (\<lambda>buffer. sem_bind require_end (\<lambda>_. sem_return (Ready buffer)))
         else sem_throw (invalid ''unknown control-state phase''))) input)"

section \<open>The codec\<close>

fun control_valid :: "control_state \<Rightarrow> bool" where
  "control_valid Initialize = True"
| "control_valid (Ready s) = buffer_valid s"

lemma read_bytes_append: "length a = n \<Longrightarrow> read_bytes n (a @ b) = (Inr a, b)"
  by (simp add: read_bytes_def)

lemma read_bytes_Inr: "read_bytes n bs = (Inr a, rest) \<longleftrightarrow> bs = a @ rest \<and> length a = n"
  by (auto simp: read_bytes_def)

lemma read_u64_append: "read_u64 (u64_to_be w @ b) = (Inr w, b)"
  by (simp add: read_u64_def sem_bind_def read_bytes_append sem_return_def)

lemma read_u64_Inr: "read_u64 bs = (Inr w, rest) \<longleftrightarrow> bs = u64_to_be w @ rest"
  by (auto simp: read_u64_def sem_bind_Inr read_bytes_Inr sem_return_def u64_to_from_be)

lemma decode_buffer_Inr: "decode_buffer bs = (Inr s, rest) \<longleftrightarrow> bs = encode_buffer s @ rest \<and> buffer_valid s"
proof -
  have "decode_buffer bs = (Inr s, rest) \<longleftrightarrow>
    (\<exists>a b c d. bs = u64_to_be a @ u64_to_be b @ u64_to_be c @ u64_to_be d @ rest \<and>
       s = \<lparr>head = \<lparr>entry_start = a, event_offset = b\<rparr>, tail = c, retained_bytes = d\<rparr> \<and> buffer_valid s)"
    by (auto simp: decode_buffer_def sem_bind_Inr read_u64_Inr Let_def sem_lift_def sem_return_def buffer_validate_def split: if_splits)
  also have "\<dots> \<longleftrightarrow> bs = encode_buffer s @ rest \<and> buffer_valid s"
    by (cases s; cases "head s") (auto simp: encode_buffer_def)
  finally show ?thesis .
qed

lemma length_encode_buffer [simp]: "length (encode_buffer s) = 32"
  by (simp add: encode_buffer_def)

lemma decode_control_iff: "decode_control bs = Inr s \<longleftrightarrow> bs = encode_control s \<and> control_valid s"
proof -
  have run: "fst (m q) = Inr s \<longleftrightarrow> (\<exists>q'. m q = (Inr s, q'))" for m :: "(bytes, operation_error, control_state) sem" and q
    by (cases "m q") simp
  have "decode_control bs = Inr s \<longleftrightarrow>
      bs = [CONTROL_VERSION, 0] \<and> s = Initialize \<or> (\<exists>b. bs = [CONTROL_VERSION, 1] @ encode_buffer b \<and> buffer_valid b \<and> s = Ready b)"
    unfolding decode_control_def run sem_bind_Inr
    by (auto simp: read_bytes_Inr sem_bind_Inr sem_throw_def sem_return_def require_end_def decode_buffer_Inr split: if_splits)
      (intro exI [of _ "[0]"] exI [of _ "[]"], simp)
  then show ?thesis by (cases s) auto
qed

lemma encode_control_length: "length (encode_control s) \<le> MAX_CONTROL_BYTES"
  by (cases s) (simp_all add: MAX_CONTROL_BYTES_def)

lemma decode_control_error: "decode_control bs = Inl e \<Longrightarrow> \<not> is_unwind e"
  by (auto simp: decode_control_def sem_bind_def read_bytes_def sem_throw_def sem_return_def require_end_def decode_buffer_def read_u64_def
      Let_def sem_lift_def buffer_validate_def invalid_def split: if_splits prod.splits sum.splits)

end
