(* ===== verification/Sink_Batch.thy ===== *)
theory Sink_Batch
  imports Sink_State Transform_Core
begin

text \<open>
  Loading a bounded prefix of a sink's outbox: \<^verbatim>\<open>crates/operation/src/operation/sink/buffered/batch.rs\<close>.

  A row with difference \<open>d\<close> stands for \<open>\<bar>d\<bar>\<close> unit events. The loader walks the entries from the head, takes as many events as the
  limits on events, target bytes and encoded bytes admit, splitting a row if need be, and computes the state after them.
  The fields of the \<^verbatim>\<open>Loader\<close> that change are the record \<open>loader\<close>, the others are \<open>load_context\<close>. The loop over the entries has
  fuel: every entry but the last takes at least one event of the limit, so one more than the limit is enough.

  The codec of changes and Arrow's concatenation are parameters.
\<close>

section \<open>Definitions\<close>

record 'b sink_codec =
  codec_schema :: schema
  codec_encode_bounded :: "'b change \<Rightarrow> nat \<Rightarrow> change_codec_error + bytes"
  codec_decode_owned :: "bytes \<Rightarrow> change_codec_error + 'b change"

record 'b delivery_batch =
  delivery_change :: "'b change"
  first_event_offset :: u64

record position_hint =
  hint_offset :: u64
  hint_row :: nat
  hint_remaining :: u64

record 'b entry_cache =
  cache_start :: u64
  cache_item_bytes :: u64
  cache_change :: "'b change"
  cache_end :: u64
  cache_hint :: "position_hint option"
  cache_event_bytes :: "(nat \<times> u64) option"

record 'b loaded_batch =
  loaded_delivery :: "'b delivery_batch"
  loaded_after :: buffer_state
  first_entry :: "'b change"
  consumed_keys :: "u64 list"

record load_limits =
  limit_events :: u64
  limit_encoded_bytes :: u64
  limit_item_bytes :: u64
  limit_target_bytes :: u64

definition limits_validate :: "load_limits \<Rightarrow> operation_error + unit" where
  "limits_validate limits =
     (if limit_events limits = 0 then Inl (invalid ''batch event limit must be nonzero'')
      else if limit_encoded_bytes limits = 0 then Inl (invalid ''batch encoded-byte limit must be nonzero'')
      else if limit_item_bytes limits = 0 then Inl (invalid ''buffer item byte limit must be nonzero'')
      else if limit_target_bytes limits = 0 then Inl (invalid ''target batch byte limit must be nonzero'')
      else Inr ())"

datatype load_progress = Continue | Stop position

definition MAP_KEY_BYTES :: u64 where
  "MAP_KEY_BYTES = 8"

definition item_bytes_of :: "bytes \<Rightarrow> operation_error + u64" where
  "item_bytes_of encoded =
     (case (if length encoded > u64_max then None else checked_add_u64 (word_of_nat (length encoded)) MAP_KEY_BYTES) of
        None \<Rightarrow> Inl (invalid ''encoded Change size exceeds u64'')
      | Some n \<Rightarrow> Inr n)"

fun sum_events :: "u64 \<Rightarrow> i64 list \<Rightarrow> operation_error + u64" where
  "sum_events n [] = Inr n"
| "sum_events n (d # ds) =
     (case checked_add_u64 n (unsigned_abs d) of
        None \<Rightarrow> Inl (invalid ''Change event count exceeds u64'')
      | Some n' \<Rightarrow> sum_events n' ds)"

definition diff_values :: "'b change \<Rightarrow> i64 list" where
  "diff_values c = map diff_value (diffs c)"

definition event_count :: "'b change \<Rightarrow> operation_error + u64" where
  "event_count c = sum_events 0 (diff_values c)"

definition entry_end :: "'b change \<Rightarrow> u64 \<Rightarrow> operation_error + u64" where
  "entry_end c start =
     (case event_count c of
        Inl e \<Rightarrow> Inl e
      | Inr n \<Rightarrow>
          if n = 0 then Inl (invalid ''buffer entry contains no events'')
          else (case checked_add_u64 start n of
            None \<Rightarrow> Inl (invalid ''buffer event offset is exhausted'')
          | Some n \<Rightarrow> Inr n))"

definition decode_entry :: "bytes \<Rightarrow> u64 \<Rightarrow> 'b sink_codec \<Rightarrow> operation_error + 'b change" where
  "decode_entry encoded byte_limit codec =
     (case item_bytes_of encoded of
        Inl e \<Rightarrow> Inl e
      | Inr n \<Rightarrow>
          if n > byte_limit then Inl (invalid ''buffer entry exceeds the delivery byte limit'')
          else map_sum OpCodec id (codec_decode_owned codec encoded))"

definition delivery_new :: "'b change \<Rightarrow> u64 \<Rightarrow> operation_error + 'b delivery_batch" where
  "delivery_new c first =
     (case event_count c of
        Inl e \<Rightarrow> Inl e
      | Inr n \<Rightarrow>
          if first = 0 \<or> n = 0 \<or> checked_add_u64 first n = None
          then Inl (invalid ''delivery interval exceeds the event domain'')
          else Inr \<lparr>delivery_change = c, first_event_offset = first\<rparr>)"

definition end_event_offset :: "'b delivery_batch \<Rightarrow> operation_error + u64" where
  "end_event_offset d =
     (case event_count (delivery_change d) of
        Inl e \<Rightarrow> Inl e
      | Inr n \<Rightarrow>
          (case checked_add_u64 (first_event_offset d) n of
             None \<Rightarrow> Inl (invalid ''delivery interval exceeds the event domain'')
           | Some n \<Rightarrow> Inr n))"

record 'b load_context =
  ctx_arrow :: "'b arrow"
  ctx_concat :: "schema \<Rightarrow> 'b list \<Rightarrow> string + 'b"
  ctx_codec :: "'b sink_codec"
  ctx_size_event :: "'b change \<Rightarrow> nat \<Rightarrow> operation_error + u64"
  ctx_before :: buffer_state
  ctx_limits :: load_limits

record 'b loader =
  ld_cache :: "'b entry_cache option"
  ld_start :: u64
  ld_row :: nat
  ld_remaining :: u64
  ld_offset :: u64
  ld_end :: u64
  ld_first :: "'b change option"
  ld_keys :: "u64 list"
  ld_event_budget :: u64
  ld_target_budget :: u64
  ld_encoded :: u64
  ld_delivered :: u64
  ld_retained :: u64
  ld_batches :: "'b list"
  ld_diffs :: "i64 list"

type_synonym ('b, 'x) load_op = "('b loader, operation_error, 'x) sem"

subsection \<open>One entry\<close>

text \<open>The entry at the current position, from the cache or the store.\<close>

definition loaded_entry :: "'b load_context \<Rightarrow> bytes \<Rightarrow> ('b, u64 \<times> 'b change) load_op" where
  "loaded_entry X encoded l =
     (case item_bytes_of encoded of
        Inl e \<Rightarrow> (Inl e, l)
      | Inr item_bytes \<Rightarrow>
          (case decode_entry encoded (limit_item_bytes (ctx_limits X)) (ctx_codec X) of
             Inl e \<Rightarrow> (Inl e, l)
           | Inr c \<Rightarrow>
               (case entry_end c (ld_start l) of
                  Inl e \<Rightarrow> (Inl e, l)
                | Inr stop \<Rightarrow>
                    if stop > tail (ctx_before X) then (Inl (invalid ''buffer entry exceeds its tail''), l\<lparr>ld_end := stop\<rparr>)
                    else (Inr (item_bytes, c),
                      l\<lparr>ld_end := stop,
                        ld_cache := Some \<lparr>cache_start = ld_start l, cache_item_bytes = item_bytes, cache_change = c, cache_end = stop,
                          cache_hint = None, cache_event_bytes = None\<rparr>\<rparr>))))"

definition load_entry ::
  "'s engine \<Rightarrow> bytes \<Rightarrow> 'b load_context \<Rightarrow> ('s transaction_ref \<times> 'b loader, operation_error, u64 \<times> 'b change) sem" where
  "load_entry E p X = (\<lambda>(r, l).
     case (case ld_cache l of Some cached \<Rightarrow> if cache_start cached = ld_start l then Some cached else None | None \<Rightarrow> None) of
       Some cached \<Rightarrow>
         if cache_end cached > tail (ctx_before X)
         then (Inl (invalid ''buffer entry exceeds its tail''), (r, l\<lparr>ld_end := cache_end cached\<rparr>))
         else (Inr (cache_item_bytes cached, cache_change cached), (r, l\<lparr>ld_end := cache_end cached\<rparr>))
     | None \<Rightarrow>
         (case map_get_bounded E u64_key vec_value p (ld_start l) (unat (limit_item_bytes (ctx_limits X))) r of
            (Inr (Some encoded), r') \<Rightarrow> (case loaded_entry X encoded l of (res, l') \<Rightarrow> (res, (r', l')))
          | (Inr None, r') \<Rightarrow> (Inl (invalid ''buffer entry is missing''), (r', l))
          | (Inl (ItemTooLarge _ _), r') \<Rightarrow> (Inl (invalid ''buffer entry exceeds the delivery byte limit''), (r', l))
          | (Inl e, r') \<Rightarrow> (Inl (boxed e), (r', l))))"

fun locate_row :: "u64 \<Rightarrow> u64 \<Rightarrow> nat \<Rightarrow> i64 list \<Rightarrow> operation_error + nat \<times> u64" where
  "locate_row target offset row [] = Inl (invalid ''buffer position does not match its Change'')"
| "locate_row target offset row (d # ds) =
     (case checked_add_u64 offset (unsigned_abs d) of
        None \<Rightarrow> Inl (invalid ''buffer event offset is exhausted'')
      | Some stop \<Rightarrow> if target < stop then Inr (row, stop - target) else locate_row target stop (Suc row) ds)"

definition locate_position :: "'b change \<Rightarrow> ('b, unit) load_op" where
  "locate_position c l =
     (if ld_offset l < ld_start l \<or> ld_offset l \<ge> ld_end l then (Inl (invalid ''buffer position does not match its Change''), l)
      else (case ld_cache l of
        None \<Rightarrow> (Inl (Unwind ''current entry is cached''), l)
      | Some cached \<Rightarrow>
          (case (case cache_hint cached of Some h \<Rightarrow> if hint_offset h = ld_offset l then Some h else None | None \<Rightarrow> None) of
             Some h \<Rightarrow> (Inr (), l\<lparr>ld_row := hint_row h, ld_remaining := hint_remaining h\<rparr>)
           | None \<Rightarrow>
               (case locate_row (ld_offset l) (ld_start l) 0 (diff_values c) of
                  Inl e \<Rightarrow> (Inl e, l)
                | Inr (row, rest) \<Rightarrow> (Inr (), l\<lparr>ld_row := row, ld_remaining := rest\<rparr>)))))"

subsection \<open>The rows of an entry\<close>

definition current_position :: "'b loader \<Rightarrow> position \<times> 'b loader" where
  "current_position l =
     (\<lparr>entry_start = ld_start l, event_offset = ld_offset l\<rparr>,
      (case ld_cache l of
         Some cached \<Rightarrow>
           if cache_start cached = ld_start l
           then l\<lparr>ld_cache := Some (cached\<lparr>cache_hint :=
             Some \<lparr>hint_offset = ld_offset l, hint_row = ld_row l, hint_remaining = ld_remaining l\<rparr>\<rparr>)\<rparr>
           else l
       | None \<Rightarrow> l))"

definition event_bytes :: "'b load_context \<Rightarrow> 'b change \<Rightarrow> ('b, u64) load_op" where
  "event_bytes X c l =
     (case ld_cache l of
        None \<Rightarrow> (Inl (Unwind ''the current entry was cached before slicing''), l)
      | Some cached \<Rightarrow>
          (case (case cache_event_bytes cached of Some (row, n) \<Rightarrow> if row = ld_row l then Some n else None | None \<Rightarrow> None) of
             Some n \<Rightarrow> (Inr n, l)
           | None \<Rightarrow>
               (case ctx_size_event X c (ld_row l) of
                  Inl e \<Rightarrow> (Inl e, l)
                | Inr n \<Rightarrow>
                    if n = 0 then (Inl (invalid ''target event byte charge must be nonzero''), l)
                    else (Inr n, l\<lparr>ld_cache := Some (cached\<lparr>cache_event_bytes := Some (ld_row l, n)\<rparr>)\<rparr>))))"

definition signed_count :: "i64 \<Rightarrow> u64 \<Rightarrow> operation_error + i64" where
  "signed_count original n =
     (if sint original > 0 then
        (if unat n < 2 ^ 63 then Inr n else Inl (invalid ''positive event count exceeds i64''))
      else if unat n = 2 ^ 63 then Inr (2 ^ 63)
      else if unat n < 2 ^ 63 then Inr (- n)
      else Inl (invalid ''negative event count exceeds i64''))"

definition charge_events :: "u64 \<Rightarrow> u64 \<Rightarrow> ('b, unit) load_op" where
  "charge_events n bytes_per_event l =
     (case checked_add_u64 (ld_delivered l) n of
        None \<Rightarrow> (Inl (invalid ''delivered event count exceeds u64''), l)
      | Some delivered \<Rightarrow>
          (case checked_add_u64 (ld_offset l) n of
             None \<Rightarrow> (Inl (invalid ''delivery event offset is exhausted''), l\<lparr>ld_delivered := delivered\<rparr>)
           | Some offset \<Rightarrow>
               (let l1 = l\<lparr>ld_delivered := delivered, ld_offset := offset, ld_event_budget := ld_event_budget l - n\<rparr> in
                case checked_mul_u64 n bytes_per_event of
                  None \<Rightarrow> (Inl (invalid ''target delivery byte count exceeds u64''), l1)
                | Some bytes \<Rightarrow>
                    (Inr (), l1\<lparr>ld_target_budget := ld_target_budget l - bytes, ld_remaining := ld_remaining l - n\<rparr>))))"

definition advance_row :: "'b load_context \<Rightarrow> u64 \<Rightarrow> 'b change \<Rightarrow> ('b, load_progress option) load_op" where
  "advance_row X item_bytes c l =
     (if Suc (ld_row l) = num_rows (ctx_arrow X) c then
        (case checked_sub_u64 (ld_retained l) item_bytes of
           None \<Rightarrow> (Inl (invalid ''buffer retained-byte count underflow''), l\<lparr>ld_row := Suc (ld_row l)\<rparr>)
         | Some retained \<Rightarrow>
             (let l1 = l\<lparr>ld_row := Suc (ld_row l), ld_retained := retained\<rparr> in
              if ld_offset l \<noteq> ld_end l then (Inl (invalid ''buffer entry span does not match its rows''), l1)
              else
                (let l2 = l1\<lparr>ld_keys := ld_keys l @ [ld_start l], ld_start := ld_end l\<rparr> in
                 if ld_end l = tail (ctx_before X) \<or> ld_event_budget l = 0
                 then (Inr (Some (Stop (position_at (ld_end l)))), l2)
                 else (Inr (Some Continue), l2\<lparr>ld_row := 0, ld_remaining := 0\<rparr>))))
      else if Suc (ld_row l) \<ge> length (diffs c) then (Inl (Unwind ''index out of bounds''), l\<lparr>ld_row := Suc (ld_row l)\<rparr>)
      else
        (let l1 = l\<lparr>ld_row := Suc (ld_row l), ld_remaining := unsigned_abs (diff_values c ! Suc (ld_row l))\<rparr> in
         if ld_event_budget l = 0 then (case current_position l1 of (pos, l2) \<Rightarrow> (Inr (Some (Stop pos)), l2))
         else (Inr None, l1)))"

text \<open>The events taken from the current row, or the stop before it.\<close>

datatype row_step = RowStop position | RowTaken i64 "load_progress option"

definition end_row :: "'b load_context \<Rightarrow> u64 \<Rightarrow> 'b change \<Rightarrow> i64 \<Rightarrow> ('b, row_step) load_op" where
  "end_row X item_bytes c d l =
     (if ld_remaining l \<noteq> 0 then (case current_position l of (pos, l') \<Rightarrow> (Inr (RowTaken d (Some (Stop pos))), l'))
      else sem_bind (advance_row X item_bytes c) (\<lambda>res. sem_return (RowTaken d res)) l)"

definition take_events :: "'b load_context \<Rightarrow> u64 \<Rightarrow> 'b change \<Rightarrow> u64 \<Rightarrow> ('b, row_step) load_op" where
  "take_events X item_bytes c bytes_per_event l =
     (if bytes_per_event = 0 then (Inl (Unwind ''attempt to divide by zero''), l)
      else
        (let target_events = ld_target_budget l div bytes_per_event in
         if target_events = 0 then
           (if ld_delivered l = 0 then (Inl (invalid ''one target mutation exceeds the target batch byte limit''), l)
            else (case current_position l of (pos, l') \<Rightarrow> (Inr (RowStop pos), l')))
         else
           (let n = min (min (ld_remaining l) (ld_event_budget l)) target_events in
            sem_bind (sem_lift (signed_count (diff_values c ! ld_row l) n)) (\<lambda>d.
            sem_bind (charge_events n bytes_per_event) (\<lambda>_. end_row X item_bytes c d)) l)))"

definition consume_row :: "'b load_context \<Rightarrow> u64 \<Rightarrow> 'b change \<Rightarrow> ('b, row_step) load_op" where
  "consume_row X item_bytes c l =
     (if ld_row l \<ge> length (diffs c) then (Inl (Unwind ''index out of bounds''), l)
      else sem_bind (event_bytes X c) (take_events X item_bytes c) l)"

lemma current_position_row [simp]: "ld_row (snd (current_position l)) = ld_row l"
  by (auto simp: current_position_def split: option.splits)

lemma consume_row_next:
  assumes "consume_row X n c l = (Inr (RowTaken d None), l')"
  shows "ld_row l < length (diffs c) \<and> ld_row l' = Suc (ld_row l)"
proof -
  have ev: "ld_row l1 = ld_row l" if "event_bytes X c l = (Inr b, l1)" for b l1
    using that by (auto simp: event_bytes_def split: option.splits sum.splits if_splits prod.splits)
  have ch: "ld_row l2 = ld_row l1" if "charge_events k b l1 = (Inr (), l2)" for k b l1 l2
    using that by (auto simp: charge_events_def Let_def split: option.splits)
  have adv: "ld_row l3 = Suc (ld_row l2)" if "advance_row X n c l2 = (Inr None, l3)" for l2 l3
    using that by (auto simp: advance_row_def Let_def split: option.splits if_splits prod.splits)
  show ?thesis
    using assms
    by (auto simp: consume_row_def take_events_def end_row_def sem_bind_Inr sem_lift_def sem_return_def Let_def split: if_splits prod.splits
        dest!: ev ch adv)
qed

function consume_rows :: "'b load_context \<Rightarrow> u64 \<Rightarrow> 'b change \<Rightarrow> i64 list \<Rightarrow> ('b, i64 list \<times> load_progress) load_op" where
  "consume_rows X item_bytes c local l =
     (case consume_row X item_bytes c l of
        (Inl e, l') \<Rightarrow> (Inl e, l')
      | (Inr (RowStop pos), l') \<Rightarrow> (Inr (local, Stop pos), l')
      | (Inr (RowTaken d (Some progress)), l') \<Rightarrow> (Inr (local @ [d], progress), l')
      | (Inr (RowTaken d None), l') \<Rightarrow> consume_rows X item_bytes c (local @ [d]) l')"
  by pat_completeness auto

termination
  by (relation "measure (\<lambda>(X, n, c, local, l). length (diffs c) - ld_row l)") (auto dest!: consume_row_next [OF sym])

declare consume_rows.simps [simp del]

text \<open>The part of \<^verbatim>\<open>consume_entry\<close> after the position is known.\<close>

definition take_rows :: "'b load_context \<Rightarrow> u64 \<Rightarrow> 'b change \<Rightarrow> ('b, load_progress) load_op" where
  "take_rows X item_bytes c l =
     sem_bind (consume_rows X item_bytes c []) (\<lambda>(local, progress) l'.
       if local = [] then (Inr progress, l')
       else (Inr progress,
         l'\<lparr>ld_batches := ld_batches l' @ [batch_slice (ctx_arrow X) (records c) (ld_row l) (length local)],
            ld_diffs := ld_diffs l' @ local\<rparr>))
       (l\<lparr>ld_first := (case ld_first l of None \<Rightarrow> Some c | Some f \<Rightarrow> Some f)\<rparr>)"

definition consume_entry :: "'b load_context \<Rightarrow> u64 \<Rightarrow> 'b change \<Rightarrow> ('b, load_progress) load_op" where
  "consume_entry X item_bytes c l =
     (if item_bytes > limit_encoded_bytes (ctx_limits X) then (Inl (invalid ''buffer entry exceeds the delivery byte limit''), l)
      else (case checked_add_u64 (ld_encoded l) item_bytes of
        None \<Rightarrow> (Inl (invalid ''delivery encoded-byte count exceeds u64''), l)
      | Some encoded \<Rightarrow>
          if ld_encoded l \<noteq> 0 \<and> encoded > limit_encoded_bytes (ctx_limits X) then (Inr (Stop (position_at (ld_start l))), l)
          else sem_bind (locate_position c) (\<lambda>_. take_rows X item_bytes c) (l\<lparr>ld_encoded := encoded\<rparr>)))"

subsection \<open>The loop over the entries\<close>

fun load_run ::
  "'s engine \<Rightarrow> bytes \<Rightarrow> 'b load_context \<Rightarrow> nat \<Rightarrow> ('s transaction_ref \<times> 'b loader, operation_error, position) sem" where
  "load_run E p X 0 = sem_throw (Unwind ''out of fuel'')"
| "load_run E p X (Suc fuel) =
     sem_bind (\<lambda>(r, l). if ld_start l \<ge> tail (ctx_before X)
         then (Inl (invalid ''buffer head reaches or exceeds its tail''), (r, l)) else (Inr (), (r, l))) (\<lambda>_.
     sem_bind (load_entry E p X) (\<lambda>(item_bytes, c).
     sem_bind (\<lambda>(r, l). case consume_entry X item_bytes c l of (res, l') \<Rightarrow> (res, (r, l'))) (\<lambda>progress.
       case progress of Stop after_head \<Rightarrow> sem_return after_head | Continue \<Rightarrow> load_run E p X fuel)))"

definition load_finish :: "'b load_context \<Rightarrow> 'b loader \<Rightarrow> position \<Rightarrow> operation_error + 'b loaded_batch" where
  "load_finish X l after_head =
     (case (case ld_batches l of [b] \<Rightarrow> Inr b
            | _ \<Rightarrow> map_sum (\<lambda>m. Other m None) id (ctx_concat X (codec_schema (ctx_codec X)) (ld_batches l))) of
        Inl e \<Rightarrow> Inl e
      | Inr b \<Rightarrow>
          (case change_try_new (ctx_arrow X) b (map Some (ld_diffs l)) of
             Inl e \<Rightarrow> Inl (OpChange e)
           | Inr c \<Rightarrow>
               (case delivery_new c (event_offset (head (ctx_before X))) of
                  Inl e \<Rightarrow> Inl e
                | Inr delivery \<Rightarrow>
                    (let after = \<lparr>head = after_head, tail = tail (ctx_before X), retained_bytes = ld_retained l\<rparr> in
                     case buffer_validate after of
                       Inl e \<Rightarrow> Inl e
                     | Inr _ \<Rightarrow>
                         (case ld_first l of
                            None \<Rightarrow> Inl (Unwind ''a delivery has an original head entry'')
                          | Some f \<Rightarrow>
                              Inr \<lparr>loaded_delivery = delivery, loaded_after = after, first_entry = f, consumed_keys = ld_keys l\<rparr>)))))"

definition loader_new :: "'b load_context \<Rightarrow> 'b entry_cache option \<Rightarrow> 'b loader" where
  "loader_new X cache =
     \<lparr>ld_cache = cache, ld_start = entry_start (head (ctx_before X)), ld_row = 0, ld_remaining = 0,
      ld_offset = event_offset (head (ctx_before X)), ld_end = 0, ld_first = None, ld_keys = [],
      ld_event_budget = limit_events (ctx_limits X), ld_target_budget = limit_target_bytes (ctx_limits X), ld_encoded = 0,
      ld_delivered = 0, ld_retained = retained_bytes (ctx_before X), ld_batches = [], ld_diffs = []\<rparr>"

text \<open>The cache is the sink's and outlives an error.\<close>

definition batch_load ::
  "'s engine \<Rightarrow> data_handle \<Rightarrow> 'b load_context \<Rightarrow> ('s transaction_ref \<times> 'b entry_cache option, operation_error, 'b loaded_batch) sem" where
  "batch_load E buffer X = (\<lambda>(r, cache).
     case (case buffer_validate (ctx_before X) of
        Inl e \<Rightarrow> Inl e
      | Inr _ \<Rightarrow>
          (case limits_validate (ctx_limits X) of
             Inl e \<Rightarrow> Inl e
           | Inr _ \<Rightarrow> if buffer_is_empty (ctx_before X) then Inl (invalid ''cannot load a batch from an empty buffer'') else Inr ())) of
       Inl e \<Rightarrow> (Inl e, (r, cache))
     | Inr _ \<Rightarrow>
         (case op_store (bind_read buffer) r of
            (Inl e, r') \<Rightarrow> (Inl e, (r', cache))
          | (Inr p, r') \<Rightarrow>
              (case load_run E p X (Suc (unat (limit_events (ctx_limits X)))) (r', loader_new X cache) of
                 (Inl e, (r'', l)) \<Rightarrow> (Inl e, (r'', ld_cache l))
               | (Inr after_head, (r'', l)) \<Rightarrow> (load_finish X l after_head, (r'', ld_cache l)))))"

section \<open>Unit events\<close>

text \<open>A row is the slice of length one that holds it.\<close>

definition batch_units :: "'b arrow \<Rightarrow> 'b \<Rightarrow> 'b list" where
  "batch_units A b = map (\<lambda>i. batch_slice A b i 1) [0..<batch_rows A b]"

definition row_events :: "'b \<Rightarrow> i64 \<Rightarrow> ('b \<times> bool) list" where
  "row_events r d = replicate (nat \<bar>sint d\<bar>) (r, 0 < sint d)"

fun rows_events :: "'b list \<Rightarrow> i64 list \<Rightarrow> ('b \<times> bool) list" where
  "rows_events (r # rs) (d # ds) = row_events r d @ rows_events rs ds"
| "rows_events _ _ = []"

definition change_events :: "'b arrow \<Rightarrow> 'b change \<Rightarrow> ('b \<times> bool) list" where
  "change_events A c = rows_events (batch_units A (records c)) (diff_values c)"

definition magnitude :: "i64 \<Rightarrow> nat" where
  "magnitude d = nat \<bar>sint d\<bar>"

lemma unat_abs: "unat (unsigned_abs d) = magnitude d"
  using unat_unsigned_abs [of d] by (simp add: magnitude_def nat_eq_iff del: of_nat_unat)

lemma length_row_events [simp]: "length (row_events r d) = magnitude d"
  by (simp add: row_events_def magnitude_def)

lemma length_batch_units [simp]: "length (batch_units A b) = batch_rows A b"
  by (simp add: batch_units_def)

lemma rows_events_Nil [simp]: "rows_events rs [] = []"
  by (cases rs) simp_all

lemma length_rows_events: "length rs = length ds \<Longrightarrow> length (rows_events rs ds) = sum_list (map magnitude ds)"
  by (induction rs ds rule: list_induct2) simp_all

lemma rows_events_append:
  "length rs = length ds \<Longrightarrow> rows_events (rs @ rs') (ds @ ds') = rows_events rs ds @ rows_events rs' ds'"
  by (induction rs ds rule: list_induct2) simp_all

lemma sum_events_eq:
  "sum_events n ds = (if unat n + sum_list (map magnitude ds) < 2 ^ 64
     then Inr (n + word_of_nat (sum_list (map magnitude ds))) else Inl (invalid ''Change event count exceeds u64''))"
proof (induction n ds rule: sum_events.induct)
  case (1 n)
  then show ?case using unat_u64_less [of n] by simp
next
  case (2 n d ds)
  show ?case
  proof (cases "checked_add_u64 n (unsigned_abs d)")
    case None
    moreover have "2 ^ 64 \<le> unat n + magnitude d" using None by (simp add: checked_add_u64_None unat_abs)
    ultimately show ?thesis by simp
  next
    case (Some n')
    then have n': "unat n' = unat n + magnitude d" by (simp add: checked_add_u64_Some unat_abs)
    then have "n' = n + word_of_nat (magnitude d)"
      by (metis of_nat_add of_nat_unat ucast_id)
    with 2 [OF Some] Some n' show ?thesis by (simp add: add.assoc)
  qed
qed

lemma event_count_eq:
  "event_count c = (if sum_list (map magnitude (diff_values c)) < 2 ^ 64
     then Inr (word_of_nat (sum_list (map magnitude (diff_values c)))) else Inl (invalid ''Change event count exceeds u64''))"
  by (simp add: event_count_def sum_events_eq)

abbreviation total_events :: "'b change \<Rightarrow> nat" where
  "total_events c \<equiv> sum_list (map magnitude (diff_values c))"

lemma entry_end_eq:
  assumes "0 < total_events c" "unat start + total_events c < 2 ^ 64"
  shows "entry_end c start = Inr (start + word_of_nat (total_events c))" "unat (start + word_of_nat (total_events c)) = unat start + total_events c"
proof -
  have u: "unat (word_of_nat (total_events c) :: u64) = total_events c" using assms(2) by (simp add: unat_of_nat)
  then have "unat (start + word_of_nat (total_events c)) = unat start + total_events c"
    using assms(2) by (simp add: unat_word_ariths)
  moreover have "(word_of_nat (total_events c) :: u64) \<noteq> 0" using u assms(1) by (metis less_irrefl unat_0)
  ultimately show "entry_end c start = Inr (start + word_of_nat (total_events c))"
    "unat (start + word_of_nat (total_events c)) = unat start + total_events c"
    using assms u by (simp_all add: entry_end_def event_count_eq checked_add_u64_def)
qed

lemma change_ok_magnitudes:
  assumes "change_ok A c"
  shows "\<forall>m \<in> set (map magnitude (diff_values c)). 0 < m" "0 < total_events c" "length (diff_values c) = num_rows A c"
proof -
  have "0 < magnitude (diff_value d)" if "d \<in> set (diffs c)" for d
  proof -
    obtain v where "d = Some v" "v \<noteq> 0" using assms \<open>d \<in> set (diffs c)\<close> by (auto simp: change_ok_def)
    then show ?thesis by (simp add: magnitude_def diff_value_def signed_eq_0_iff)
  qed
  then show pos: "\<forall>m \<in> set (map magnitude (diff_values c)). 0 < m" by (auto simp: diff_values_def)
  show "length (diff_values c) = num_rows A c" using assms by (simp add: change_ok_def diff_values_def)
  moreover have "0 < num_rows A c" using assms by (simp add: change_ok_def)
  ultimately show "0 < total_events c" using pos by (cases "diff_values c") auto
qed

section \<open>Positions inside an entry\<close>

text \<open>At an event of a row: \<open>rest\<close> events of the row are left, and the events before the row lie between the start and it.\<close>

definition before_row :: "i64 list \<Rightarrow> nat \<Rightarrow> nat" where
  "before_row ds row = sum_list (map magnitude (take row ds))"

definition at_event :: "nat \<Rightarrow> i64 list \<Rightarrow> nat \<Rightarrow> nat \<Rightarrow> nat \<Rightarrow> bool" where
  "at_event start ds offset row rest \<longleftrightarrow>
     row < length ds \<and> 0 < rest \<and> rest \<le> magnitude (ds ! row) \<and> offset + rest = start + before_row ds row + magnitude (ds ! row)"

lemma before_row_Suc: "row < length ds \<Longrightarrow> before_row ds (Suc row) = before_row ds row + magnitude (ds ! row)"
  by (simp add: before_row_def take_Suc_conv_app_nth)

lemma before_row_length: "before_row ds (length ds) = sum_list (map magnitude ds)"
  by (simp add: before_row_def)

lemma before_row_le: "before_row ds row \<le> sum_list (map magnitude ds)"
proof -
  have "sum_list (map magnitude ds) = before_row ds row + sum_list (map magnitude (drop row ds))"
    unfolding before_row_def by (metis append_take_drop_id map_append sum_list_append)
  then show ?thesis by simp
qed

lemma at_event_unique:
  assumes "at_event s ds off row rest" "at_event s ds off row' rest'"
  shows "row = row' \<and> rest = rest'"
proof -
  have less: False if "at_event s ds off a x" "at_event s ds off b y" "a < b" for a b x y
  proof -
    have "before_row ds (Suc a) \<le> before_row ds b"
      using that(3) unfolding before_row_def
      by (metis Suc_leI map_append sum_list_append le_add1 take_add le_Suc_ex)
    with that(1,2) show False by (simp add: at_event_def before_row_Suc)
  qed
  then have "row = row'" using assms by (metis nat_neq_iff)
  with assms show ?thesis by (auto simp: at_event_def)
qed

lemma locate_row_eq:
  assumes "unat offset + sum_list (map magnitude ds) < 2 ^ 64" "unat offset \<le> unat target" "unat target < unat offset + sum_list (map magnitude ds)"
  shows "\<exists>row rest. locate_row target offset k ds = Inr (k + row, rest) \<and> at_event (unat offset) ds (unat target) row (unat rest)"
  using assms
proof (induction target offset k ds rule: locate_row.induct)
  case (1 target offset row)
  then show ?case by simp
next
  case (2 target offset k d ds)
  have sum: "unat offset + magnitude d < 2 ^ 64" using 2(2) by simp
  then obtain e where e: "checked_add_u64 offset (unsigned_abs d) = Some e" "unat e = unat offset + magnitude d"
    by (cases "checked_add_u64 offset (unsigned_abs d)") (simp_all add: checked_add_u64_None checked_add_u64_Some unat_abs)
  show ?case
  proof (cases "target < e")
    case True
    then have "unat (e - target) = unat e - unat target" by (simp add: unat_sub less_imp_le)
    with True e 2(3) show ?thesis
      by (intro exI [of _ 0] exI [of _ "e - target"]) (auto simp: at_event_def before_row_def word_less_nat_alt)
  next
    case False
    then have "unat e \<le> unat target" by (simp add: word_le_nat_alt not_less)
    then obtain row rest where r: "locate_row target e (Suc k) ds = Inr (Suc k + row, rest)" "at_event (unat e) ds (unat target) row (unat rest)"
      using 2(1) [OF e(1) False] 2(2,4) e(2) by auto
    then show ?thesis
      using False e by (intro exI [of _ "Suc row"] exI [of _ rest]) (auto simp: at_event_def before_row_def)
  qed
qed

end
