(* ===== verification/Sink_Load.thy ===== *)
theory Sink_Load
  imports Sink_Batch
begin

text \<open>
  What loading a prefix of the outbox delivers.

  An outbox is a list of entries, the encoded change and the change each; entry \<open>i\<close> starts at the number of its first event.
  \<open>represents\<close> ties the control state to the entries. The loader takes a nonempty prefix of the pending unit events, in order
  and within its limits, and the state it computes represents exactly the entries and events that are left.
\<close>

section \<open>Events from a position\<close>

definition sign_of :: "i64 \<Rightarrow> bool" where
  "sign_of d \<longleftrightarrow> 0 < sint d"

lemma row_events_eq: "row_events r d = replicate (magnitude d) (r, sign_of d)"
  by (simp add: row_events_def magnitude_def sign_of_def)

definition rest_events :: "'b list \<Rightarrow> i64 list \<Rightarrow> nat \<Rightarrow> nat \<Rightarrow> ('b \<times> bool) list" where
  "rest_events us ds row rest = replicate rest (us ! row, sign_of (ds ! row)) @ rows_events (drop (Suc row) us) (drop (Suc row) ds)"

lemma rows_events_split:
  assumes "length us = length ds" "row \<le> length ds"
  shows "rows_events us ds = rows_events (take row us) (take row ds) @ rows_events (drop row us) (drop row ds)"
  using assms rows_events_append [of "take row us" "take row ds" "drop row us" "drop row ds"] by simp

lemma rest_events_full:
  assumes "length us = length ds" "row < length ds"
  shows "rest_events us ds row (magnitude (ds ! row)) = rows_events (drop row us) (drop row ds)"
  using assms by (simp add: rest_events_def Cons_nth_drop_Suc [symmetric] row_events_eq)

lemma drop_rows_events:
  assumes len: "length us = length ds" and at: "at_event s ds off row rest" and "s \<le> off"
  shows "drop (off - s) (rows_events us ds) = rest_events us ds row rest"
proof -
  have row: "row < length ds" and off: "off - s + rest = before_row ds row + magnitude (ds ! row)" and rest: "rest \<le> magnitude (ds ! row)"
    using at assms(3) by (auto simp: at_event_def)
  have pre: "length (rows_events (take row us) (take row ds)) = before_row ds row"
    using len row by (simp add: length_rows_events before_row_def)
  have "rows_events us ds = rows_events (take row us) (take row ds) @ rest_events us ds row (magnitude (ds ! row))"
    using rows_events_split [OF len, of row] row len by (simp add: rest_events_full)
  moreover have "off - s = before_row ds row + (magnitude (ds ! row) - rest)" using off rest by simp
  ultimately show ?thesis
    using rest by (simp add: pre rest_events_def drop_append flip: drop_drop)
qed

section \<open>Represented outboxes\<close>

type_synonym 'b outbox = "(bytes \<times> 'b change) list"

definition entry_size :: "bytes \<Rightarrow> nat" where
  "entry_size enc = length enc + 8"

fun located :: "nat \<Rightarrow> 'b outbox \<Rightarrow> (nat \<times> bytes \<times> 'b change) list" where
  "located s [] = []"
| "located s ((enc, c) # es) = (s, enc, c) # located (s + total_events c) es"

definition span :: "'b outbox \<Rightarrow> nat" where
  "span es = sum_list (map (\<lambda>(enc, c). total_events c) es)"

definition retained :: "'b outbox \<Rightarrow> nat" where
  "retained es = sum_list (map (\<lambda>(enc, c). entry_size enc) es)"

definition outbox_events :: "'b arrow \<Rightarrow> 'b outbox \<Rightarrow> ('b \<times> bool) list" where
  "outbox_events A es = concat (map (\<lambda>(enc, c). change_events A c) es)"

lemma outbox_simps [simp]:
  "span [] = 0" "span ((enc, c) # es) = total_events c + span es"
  "retained [] = 0" "retained ((enc, c) # es) = entry_size enc + retained es"
  "outbox_events A [] = []" "outbox_events A ((enc, c) # es) = change_events A c @ outbox_events A es"
  by (simp_all add: span_def retained_def outbox_events_def)

lemma outbox_append [simp]:
  "span (es @ es') = span es + span es'" "retained (es @ es') = retained es + retained es'"
  "outbox_events A (es @ es') = outbox_events A es @ outbox_events A es'"
  by (simp_all add: span_def retained_def outbox_events_def)

lemma located_append: "located s (es @ es') = located s es @ located (s + span es) es'"
  by (induction s es rule: located.induct) (simp_all add: add.assoc)

definition sizes_ok :: "'b load_context \<Rightarrow> 'b change \<Rightarrow> bool" where
  "sizes_ok X c \<longleftrightarrow>
     (\<forall>row < num_rows (ctx_arrow X) c. \<exists>n. ctx_size_event X c row = Inr n \<and> 0 < n \<and> n \<le> limit_target_bytes (ctx_limits X))"

definition entry_ok :: "'b load_context \<Rightarrow> bytes \<times> 'b change \<Rightarrow> bool" where
  "entry_ok X = (\<lambda>(enc, c).
     codec_decode_owned (ctx_codec X) enc = Inr c \<and> change_ok (ctx_arrow X) c \<and>
     batch_schema (ctx_arrow X) (records c) = codec_schema (ctx_codec X) \<and> batch_decimals (ctx_arrow X) (records c) = Inr () \<and>
     entry_size enc \<le> unat (limit_item_bytes (ctx_limits X)) \<and> entry_size enc \<le> unat (limit_encoded_bytes (ctx_limits X)) \<and>
     sizes_ok X c)"

definition head_within :: "nat \<Rightarrow> nat \<Rightarrow> 'b outbox \<Rightarrow> bool" where
  "head_within s off es \<longleftrightarrow> s \<le> off \<and> (case es of [] \<Rightarrow> off = s | (enc, c) # _ \<Rightarrow> off < s + total_events c)"

definition represents :: "'b load_context \<Rightarrow> buffer_state \<Rightarrow> 'b outbox \<Rightarrow> bool" where
  "represents X b es \<longleftrightarrow>
     0 < unat (entry_start (head b)) \<and> unat (tail b) = unat (entry_start (head b)) + span es \<and>
     head_within (unat (entry_start (head b))) (unat (event_offset (head b))) es \<and>
     unat (retained_bytes b) = retained es \<and> (\<forall>e \<in> set es. entry_ok X e)"

definition pending_from :: "'b arrow \<Rightarrow> nat \<Rightarrow> nat \<Rightarrow> 'b outbox \<Rightarrow> ('b \<times> bool) list" where
  "pending_from A s off es = drop (off - s) (outbox_events A es)"

definition cache_matches :: "'b load_context \<Rightarrow> nat \<Rightarrow> 'b outbox \<Rightarrow> 'b entry_cache \<Rightarrow> bool" where
  "cache_matches X s es k \<longleftrightarrow>
     (\<exists>enc. (unat (cache_start k), enc, cache_change k) \<in> set (located s es) \<and> unat (cache_item_bytes k) = entry_size enc) \<and>
     unat (cache_end k) = unat (cache_start k) + total_events (cache_change k) \<and>
     (\<forall>h. cache_hint k = Some h \<longrightarrow>
        at_event (unat (cache_start k)) (diff_values (cache_change k)) (unat (hint_offset h)) (hint_row h) (unat (hint_remaining h))) \<and>
     (\<forall>row n. cache_event_bytes k = Some (row, n) \<longrightarrow> ctx_size_event X (cache_change k) row = Inr n)"

definition context_ok :: "'b load_context \<Rightarrow> bool" where
  "context_ok X \<longleftrightarrow>
     limits_validate (ctx_limits X) = Inr () \<and> unat (limit_encoded_bytes (ctx_limits X)) < 2 ^ 63 \<and>
     schema_ok (codec_schema (ctx_codec X))"

lemma located_start:
  assumes "(s', enc, c) \<in> set (located s es)"
  shows "s \<le> s' \<and> s' + total_events c \<le> s + span es \<and> (enc, c) \<in> set es"
  using assms by (induction s es rule: located.induct) auto

lemma located_head:
  assumes "(s, enc', c') \<in> set (located s ((enc, c) # es))" "0 < total_events c"
  shows "enc' = enc \<and> c' = c"
  using assms by (auto dest: located_start)

lemma change_events_length: "change_ok A c \<Longrightarrow> length (change_events A c) = total_events c"
  by (simp add: change_events_def length_rows_events change_ok_magnitudes num_rows_def [symmetric])

lemma outbox_events_length: "(\<forall>(enc, c) \<in> set es. change_ok A c) \<Longrightarrow> length (outbox_events A es) = span es"
  by (induction es) (auto simp: change_events_length)

lemma head_within_total:
  assumes "head_within s off es" "\<forall>e \<in> set es. entry_ok X e"
  shows "s \<le> off \<and> off \<le> s + span es \<and> (off = s + span es \<longleftrightarrow> es = [])"
  using assms change_ok_magnitudes(2) by (cases es) (fastforce simp: head_within_def entry_ok_def)+

lemma represents_valid:
  assumes "represents X b es"
  shows "buffer_valid b" "buffer_is_empty b \<longleftrightarrow> es = []"
proof -
  note h = head_within_total [of "unat (entry_start (head b))" "unat (event_offset (head b))" es X]
  have eq: "buffer_is_empty b \<longleftrightarrow> unat (event_offset (head b)) = unat (tail b)"
    by (simp add: buffer_is_empty_def word_unat_eq_iff)
  with assms h show e: "buffer_is_empty b \<longleftrightarrow> es = []" by (simp add: represents_def)
  have "retained_bytes b = 0 \<longleftrightarrow> unat (retained_bytes b) = 0" "retained_bytes b < 8 \<longleftrightarrow> unat (retained_bytes b) < 8"
    by (simp_all add: unat_eq_0 word_less_nat_alt)
  moreover have "es \<noteq> [] \<Longrightarrow> 8 \<le> retained es" by (cases es) (auto simp: entry_size_def)
  ultimately show "buffer_valid b"
    using assms h e by (auto simp: buffer_valid_def represents_def word_less_nat_alt unat_eq_0 not_less word_unat_eq_iff [of _ "tail b"])
qed

section \<open>The rows of an entry\<close>

text \<open>The loader is inside entry \<open>c\<close>, which its cache holds.\<close>

definition entry_cached :: "'b load_context \<Rightarrow> nat \<Rightarrow> 'b outbox \<Rightarrow> 'b change \<Rightarrow> 'b loader \<Rightarrow> bool" where
  "entry_cached X s es c l \<longleftrightarrow>
     (\<exists>k. ld_cache l = Some k \<and> cache_matches X s es k \<and> cache_start k = ld_start l \<and> cache_change k = c)"

definition budgets_ok :: "'b load_context \<Rightarrow> 'b loader \<Rightarrow> bool" where
  "budgets_ok X l \<longleftrightarrow>
     unat (ld_delivered l) + unat (ld_event_budget l) = unat (limit_events (ctx_limits X)) \<and> 0 < ld_event_budget l \<and>
     (ld_delivered l = 0 \<longrightarrow> ld_target_budget l = limit_target_bytes (ctx_limits X))"

definition in_entry :: "'b load_context \<Rightarrow> nat \<Rightarrow> 'b outbox \<Rightarrow> u64 \<Rightarrow> 'b change \<Rightarrow> 'b loader \<Rightarrow> bool" where
  "in_entry X s es item c l \<longleftrightarrow>
     change_ok (ctx_arrow X) c \<and> sizes_ok X c \<and> unat (ld_end l) = unat (ld_start l) + total_events c \<and>
     at_event (unat (ld_start l)) (diff_values c) (unat (ld_offset l)) (ld_row l) (unat (ld_remaining l)) \<and>
     entry_cached X s es c l \<and> item \<le> ld_retained l \<and> budgets_ok X l"

lemma wp_event_bytes:
  assumes "entry_cached X s es c l" "ld_row l < num_rows (ctx_arrow X) c" "sizes_ok X c"
    and Q: "\<And>n k. ctx_size_event X c (ld_row l) = Inr n \<Longrightarrow> 0 < n \<Longrightarrow> n \<le> limit_target_bytes (ctx_limits X) \<Longrightarrow>
      entry_cached X s es c (l\<lparr>ld_cache := k\<rparr>) \<Longrightarrow> Q n (l\<lparr>ld_cache := k\<rparr>)"
  shows "wp (event_bytes X c) Q R l"
proof -
  obtain k where k: "ld_cache l = Some k" "cache_matches X s es k" "cache_start k = ld_start l" "cache_change k = c"
    using assms(1) by (auto simp: entry_cached_def)
  obtain n where n: "ctx_size_event X c (ld_row l) = Inr n" "0 < n" "n \<le> limit_target_bytes (ctx_limits X)"
    using assms(2,3) by (auto simp: sizes_ok_def)
  show ?thesis
  proof (cases "\<exists>m. cache_event_bytes k = Some (ld_row l, m)")
    case True
    then obtain m where "cache_event_bytes k = Some (ld_row l, m)" by blast
    then have "event_bytes X c l = (Inr n, l\<lparr>ld_cache := ld_cache l\<rparr>)" using k n by (simp add: event_bytes_def cache_matches_def)
    with Q [OF n, of "ld_cache l"] assms(1) show ?thesis by (simp add: wp_def)
  next
    case False
    let ?k = "Some (k\<lparr>cache_event_bytes := Some (ld_row l, n)\<rparr>)"
    have "event_bytes X c l = (Inr n, l\<lparr>ld_cache := ?k\<rparr>)"
      using False k(1) n by (auto simp: event_bytes_def split: option.splits prod.splits)
    moreover have "entry_cached X s es c (l\<lparr>ld_cache := ?k\<rparr>)" using k n by (simp add: entry_cached_def cache_matches_def)
    ultimately show ?thesis using Q [OF n, of ?k] by (simp add: wp_def)
  qed
qed

lemma wp_current_position:
  assumes "entry_cached X s es c l" "at_event (unat (ld_start l)) (diff_values c) (unat (ld_offset l)) (ld_row l) (unat (ld_remaining l))"
  obtains k where "current_position l = (\<lparr>entry_start = ld_start l, event_offset = ld_offset l\<rparr>, l\<lparr>ld_cache := k\<rparr>)"
    "entry_cached X s es c (l\<lparr>ld_cache := k\<rparr>)"
proof -
  obtain k where k: "ld_cache l = Some k" "cache_matches X s es k" "cache_start k = ld_start l" "cache_change k = c"
    using assms(1) by (auto simp: entry_cached_def)
  let ?k = "k\<lparr>cache_hint := Some \<lparr>hint_offset = ld_offset l, hint_row = ld_row l, hint_remaining = ld_remaining l\<rparr>\<rparr>"
  have "cache_matches X s es ?k" using k assms(2) by (simp add: cache_matches_def)
  then show ?thesis using k by (intro that [of "Some ?k"]) (simp_all add: current_position_def entry_cached_def)
qed

lemma signed_count_eq:
  assumes "0 < unat n" "unat n \<le> magnitude d"
  obtains d' where "signed_count d n = Inr d'" "magnitude d' = unat n" "sign_of d' = sign_of d"
proof (cases "0 < sint d")
  case True
  then have "unat n < 2 ^ 63" using assms(2) sint_u64_range(2) [of d] by (simp add: magnitude_def nat_le_iff)
  then show ?thesis using True assms(1) that [of n] by (simp add: signed_count_def magnitude_def sign_of_def sint_u64_unat del: of_nat_unat)
next
  case False
  then have le: "unat n \<le> 2 ^ 63" using assms(2) sint_u64_range(1) [of d] by (simp add: magnitude_def nat_le_iff del: of_nat_unat)
  let ?d = "if unat n = 2 ^ 63 then 2 ^ 63 else - n"
  have "unat (- n) = 2 ^ 64 - unat n" 
  proof -
    have "(unat (- n) + unat n) mod 2 ^ 64 = 0" using unat_word_ariths(1) [of "- n" n] by simp
    moreover have "unat (- n) + unat n < 2 * 2 ^ 64" using unat_u64_less [of n] unat_u64_less [of "- n"] by simp
    ultimately show ?thesis using assms(1) by (simp add: mod_if split: if_splits)
  qed
  then have s: "sint ?d = - int (unat n)" using le assms(1) by (auto simp: sint_u64_unat simp del: of_nat_unat)
  show ?thesis
    by (rule that [of ?d]) (use False le s assms(1) in \<open>auto simp: signed_count_def magnitude_def sign_of_def simp del: of_nat_unat\<close>)
qed

text \<open>The loader has taken \<open>n\<close> events.\<close>

definition moved :: "nat \<Rightarrow> 'b loader \<Rightarrow> 'b loader \<Rightarrow> bool" where
  "moved n l l' \<longleftrightarrow>
     unat (ld_offset l') = unat (ld_offset l) + n \<and> unat (ld_delivered l') = unat (ld_delivered l) + n \<and>
     unat (ld_event_budget l) = unat (ld_event_budget l') + n \<and>
     ld_first l' = ld_first l \<and> ld_encoded l' = ld_encoded l \<and> ld_batches l' = ld_batches l \<and> ld_diffs l' = ld_diffs l"

definition same_entry :: "'b loader \<Rightarrow> 'b loader \<Rightarrow> bool" where
  "same_entry l l' \<longleftrightarrow> ld_start l' = ld_start l \<and> ld_end l' = ld_end l \<and> ld_keys l' = ld_keys l \<and> ld_retained l' = ld_retained l"

definition left_entry :: "u64 \<Rightarrow> 'b loader \<Rightarrow> 'b loader \<Rightarrow> bool" where
  "left_entry item l l' \<longleftrightarrow>
     ld_offset l' = ld_end l \<and> ld_start l' = ld_end l \<and> ld_keys l' = ld_keys l @ [ld_start l] \<and>
     unat (ld_retained l) = unat (ld_retained l') + unat item"

definition after_rows :: "'b load_context \<Rightarrow> u64 \<Rightarrow> 'b loader \<Rightarrow> load_progress \<Rightarrow> 'b loader \<Rightarrow> bool" where
  "after_rows X item l prog l' \<longleftrightarrow>
     (case prog of
        Continue \<Rightarrow> left_entry item l l' \<and> ld_event_budget l' \<noteq> 0 \<and> ld_end l \<noteq> tail (ctx_before X)
      | Stop pos \<Rightarrow>
          left_entry item l l' \<and> pos = position_at (ld_end l) \<or>
          same_entry l l' \<and> pos = \<lparr>entry_start = ld_start l, event_offset = ld_offset l'\<rparr> \<and> ld_offset l' < ld_end l)"

lemma wp_charge_events:
  assumes "n \<le> ld_remaining l" "n \<le> ld_event_budget l" "unat n * unat b \<le> unat (ld_target_budget l)"
    "unat (ld_delivered l) + unat n < 2 ^ 64" "unat (ld_offset l) + unat n < 2 ^ 64"
    and Q: "\<And>l'. l' = l\<lparr>ld_delivered := ld_delivered l', ld_offset := ld_offset l', ld_event_budget := ld_event_budget l',
        ld_target_budget := ld_target_budget l', ld_remaining := ld_remaining l'\<rparr> \<Longrightarrow>
      unat (ld_delivered l') = unat (ld_delivered l) + unat n \<Longrightarrow> unat (ld_offset l') = unat (ld_offset l) + unat n \<Longrightarrow>
      unat (ld_event_budget l') + unat n = unat (ld_event_budget l) \<Longrightarrow> unat (ld_remaining l') + unat n = unat (ld_remaining l) \<Longrightarrow>
      unat (ld_target_budget l') + unat n * unat b = unat (ld_target_budget l) \<Longrightarrow> Q () l'"
  shows "wp (charge_events n b) Q R l"
proof -
  have small: "unat n * unat b < 2 ^ 64" using assms(3) unat_u64_less [of "ld_target_budget l"] by linarith
  let ?l = "l\<lparr>ld_delivered := ld_delivered l + n, ld_offset := ld_offset l + n, ld_event_budget := ld_event_budget l - n,
      ld_target_budget := ld_target_budget l - n * b, ld_remaining := ld_remaining l - n\<rparr>"
  have run: "charge_events n b l = (Inr (), ?l)"
    using assms(4,5) small by (simp add: charge_events_def checked_add_u64_def checked_mul_u64_def)
  have prod: "unat (n * b) = unat n * unat b" using small by (simp add: unat_word_ariths)
  have le: "n * b \<le> ld_target_budget l" using assms(3) prod by (simp add: word_le_nat_alt)
  have sums: "unat (ld_delivered l + n) = unat (ld_delivered l) + unat n" "unat (ld_offset l + n) = unat (ld_offset l) + unat n"
    using assms(4,5) by (simp_all add: unat_word_ariths)
  have "Q () ?l"
    by (rule Q) (use assms(1-3) le prod sums in \<open>simp_all add: unat_sub word_le_nat_alt\<close>)
  then show ?thesis by (simp add: wp_def run)
qed

definition cache_kept :: "'b load_context \<Rightarrow> nat \<Rightarrow> 'b outbox \<Rightarrow> 'b loader \<Rightarrow> bool" where
  "cache_kept X s es l \<longleftrightarrow> (\<forall>k. ld_cache l = Some k \<longrightarrow> cache_matches X s es k)"

lemma entry_cached_kept: "entry_cached X s es c l \<Longrightarrow> cache_kept X s es l"
  by (auto simp: entry_cached_def cache_kept_def)

lemma moved_0_cache [simp]: "moved 0 l (l\<lparr>ld_cache := k\<rparr>)" "moved 0 l l"
  by (simp_all add: moved_def)

text \<open>After the last event of a row.\<close>

lemma wp_advance_row:
  assumes ok: "change_ok (ctx_arrow X) c" and stop: "unat (ld_end l) = unat (ld_start l) + total_events c"
    and row: "ld_row l < num_rows (ctx_arrow X) c" "unat (ld_offset l) = unat (ld_start l) + before_row (diff_values c) (Suc (ld_row l))"
    and cached: "entry_cached X s es c l" and item: "item \<le> ld_retained l"
    and more: "\<And>l'. l' = l\<lparr>ld_row := Suc (ld_row l), ld_remaining := ld_remaining l'\<rparr> \<Longrightarrow>
      at_event (unat (ld_start l)) (diff_values c) (unat (ld_offset l)) (Suc (ld_row l)) (unat (ld_remaining l')) \<Longrightarrow>
      unat (ld_remaining l') = magnitude (diff_values c ! Suc (ld_row l)) \<Longrightarrow> ld_event_budget l \<noteq> 0 \<Longrightarrow> Q None l'"
    and over: "\<And>prog l'. after_rows X item l prog l' \<Longrightarrow> moved 0 l l' \<Longrightarrow> cache_kept X s es l' \<Longrightarrow> Q (Some prog) l'"
  shows "wp (advance_row X item c) Q R l"
proof (cases "Suc (ld_row l) = num_rows (ctx_arrow X) c")
  case True
  then have end_off: "ld_offset l = ld_end l"
    using row(2) stop by (simp add: change_ok_magnitudes(3) [OF ok, symmetric] before_row_length word_unat_eq_iff)
  have sub: "checked_sub_u64 (ld_retained l) item = Some (ld_retained l - item)" using item by (simp add: checked_sub_u64_def)
  have ret: "unat (ld_retained l) = unat (ld_retained l - item) + unat item" using item by (simp add: unat_sub word_le_nat_alt)
  show ?thesis
    using over end_off ret entry_cached_kept [OF cached]
    by (simp add: wp_def advance_row_def True sub Let_def after_rows_def left_entry_def moved_def cache_kept_def)
next
  case False
  let ?l = "l\<lparr>ld_row := Suc (ld_row l), ld_remaining := unsigned_abs (diff_values c ! Suc (ld_row l))\<rparr>"
  have len: "length (diff_values c) = num_rows (ctx_arrow X) c" "length (diffs c) = num_rows (ctx_arrow X) c"
    using change_ok_magnitudes(3) [OF ok] by (simp_all add: diff_values_def)
  have lt: "Suc (ld_row l) < length (diff_values c)" using False row(1) len by simp
  then have pos: "0 < magnitude (diff_values c ! Suc (ld_row l))" using change_ok_magnitudes(1) [OF ok] by simp
  have at: "at_event (unat (ld_start ?l)) (diff_values c) (unat (ld_offset ?l)) (ld_row ?l) (unat (ld_remaining ?l))"
    using lt pos row(2) by (simp add: at_event_def unat_abs)
  have "entry_cached X s es c ?l" using cached by (simp add: entry_cached_def)
  then obtain k where k: "current_position ?l = (\<lparr>entry_start = ld_start ?l, event_offset = ld_offset ?l\<rparr>, ?l\<lparr>ld_cache := k\<rparr>)"
    "entry_cached X s es c (?l\<lparr>ld_cache := k\<rparr>)"
    using at by (rule wp_current_position)
  have "before_row (diff_values c) (Suc (Suc (ld_row l))) \<le> total_events c" by (rule before_row_le)
  then have "unat (ld_offset l) < unat (ld_end l)" using stop row(2) pos lt by (simp add: before_row_Suc)
  then have off: "ld_offset l < ld_end l" by (simp add: word_less_nat_alt)
  show ?thesis
  proof (cases "ld_event_budget l = 0")
    case True
    have "Q (Some (Stop \<lparr>entry_start = ld_start l, event_offset = ld_offset l\<rparr>)) (?l\<lparr>ld_cache := k\<rparr>)"
      by (rule over) (use off entry_cached_kept [OF k(2)] in \<open>simp_all add: after_rows_def same_entry_def moved_def\<close>)
    then show ?thesis using True False lt len k(1) by (simp add: wp_def advance_row_def Let_def)
  next
    case nz: False
    have "Q None ?l" by (rule more) (use at nz in \<open>simp_all add: unat_abs\<close>)
    then show ?thesis using False nz lt len by (simp add: wp_def advance_row_def Let_def)
  qed
qed

lemma moved_trans: "moved a l l1 \<Longrightarrow> moved b l1 l2 \<Longrightarrow> moved (a + b) l l2"
  by (simp add: moved_def)

lemma after_rows_moved:
  assumes "after_rows X item l1 prog l'" "same_entry l l1"
  shows "after_rows X item l prog l'"
  using assms by (auto simp: after_rows_def same_entry_def left_entry_def split: load_progress.splits)

lemma same_entry_refl [simp]: "same_entry l l" "same_entry l (l\<lparr>ld_cache := k\<rparr>)"
  by (simp_all add: same_entry_def)

lemma event_quota:
  fixes b t r e :: u64
  assumes "0 < b" "b \<le> t" "0 < r" "0 < e"
  defines "n \<equiv> min (min r e) (t div b)"
  shows "0 < n" "n \<le> r" "n \<le> e" "unat n * unat b \<le> unat t" "t div b \<noteq> 0"
proof -
  have div: "unat (t div b) = unat t div unat b" by (simp add: unat_div)
  have "0 < unat b" "unat b \<le> unat t" using assms(1,2) by (simp_all add: word_less_nat_alt word_le_nat_alt)
  then have "0 < unat (t div b)" by (simp add: div div_greater_zero_iff)
  then show q: "t div b \<noteq> 0" by (metis less_irrefl unat_0)
  then show "0 < n" using assms(3,4) by (simp add: n_def word_neq_0_conv)
  show "n \<le> r" "n \<le> e" by (simp_all add: n_def min.coboundedI1)
  have "unat n \<le> unat t div unat b" by (simp add: n_def div [symmetric] word_le_nat_alt [symmetric])
  then have "unat n * unat b \<le> (unat t div unat b) * unat b" by (rule mult_le_mono1)
  also have "\<dots> \<le> unat t" by simp
  finally show "unat n * unat b \<le> unat t" .
qed

text \<open>One turn of the loop over the rows.\<close>

definition row_taken ::
  "'b load_context \<Rightarrow> nat \<Rightarrow> 'b outbox \<Rightarrow> u64 \<Rightarrow> 'b change \<Rightarrow> 'b loader \<Rightarrow> i64 \<Rightarrow> load_progress option \<Rightarrow> 'b loader \<Rightarrow> bool" where
  "row_taken X s es item c l d res l' \<longleftrightarrow>
     0 < magnitude d \<and> magnitude d \<le> unat (ld_remaining l) \<and> sign_of d = sign_of (diff_values c ! ld_row l) \<and>
     moved (magnitude d) l l' \<and> cache_kept X s es l' \<and>
     (case res of
        None \<Rightarrow>
          in_entry X s es item c l' \<and> same_entry l l' \<and> ld_row l' = Suc (ld_row l) \<and> magnitude d = unat (ld_remaining l) \<and>
          unat (ld_remaining l') = magnitude (diff_values c ! Suc (ld_row l))
      | Some prog \<Rightarrow> after_rows X item l prog l')"

lemma in_entryD:
  assumes "in_entry X s es item c l"
  shows "change_ok (ctx_arrow X) c" "entry_cached X s es c l" "budgets_ok X l" "sizes_ok X c" "item \<le> ld_retained l"
    "at_event (unat (ld_start l)) (diff_values c) (unat (ld_offset l)) (ld_row l) (unat (ld_remaining l))"
    "unat (ld_end l) = unat (ld_start l) + total_events c" "ld_row l < num_rows (ctx_arrow X) c" "length (diffs c) = num_rows (ctx_arrow X) c"
    "unat (ld_offset l) + unat (ld_remaining l) = unat (ld_start l) + before_row (diff_values c) (Suc (ld_row l))"
    "0 < unat (ld_remaining l)" "unat (ld_remaining l) \<le> magnitude (diff_values c ! ld_row l)"
    "unat (ld_offset l) + unat (ld_remaining l) \<le> unat (ld_end l)"
proof -
  show all: "change_ok (ctx_arrow X) c" "entry_cached X s es c l" "budgets_ok X l" "sizes_ok X c" "item \<le> ld_retained l"
    "at_event (unat (ld_start l)) (diff_values c) (unat (ld_offset l)) (ld_row l) (unat (ld_remaining l))"
    "unat (ld_end l) = unat (ld_start l) + total_events c"
    using assms by (simp_all add: in_entry_def)
  have len: "length (diff_values c) = num_rows (ctx_arrow X) c" by (rule change_ok_magnitudes(3) [OF all(1)])
  then show "ld_row l < num_rows (ctx_arrow X) c" "length (diffs c) = num_rows (ctx_arrow X) c"
    using all(6) by (simp_all add: at_event_def diff_values_def)
  show "unat (ld_offset l) + unat (ld_remaining l) = unat (ld_start l) + before_row (diff_values c) (Suc (ld_row l))"
    "0 < unat (ld_remaining l)" "unat (ld_remaining l) \<le> magnitude (diff_values c ! ld_row l)"
    using all(6) by (simp_all add: at_event_def before_row_Suc)
  then show "unat (ld_offset l) + unat (ld_remaining l) \<le> unat (ld_end l)"
    using all(7) before_row_le [of "diff_values c" "Suc (ld_row l)"] by simp
qed

text \<open>The events are charged: the row is left open, or the next row or entry is entered.\<close>

lemma wp_end_row:
  assumes inside: "in_entry X s es item c l" and d: "0 < magnitude d" "sign_of d = sign_of (diff_values c ! ld_row l)"
    and l': "l' = l\<lparr>ld_cache := ld_cache l', ld_delivered := ld_delivered l', ld_offset := ld_offset l', ld_event_budget := ld_event_budget l',
        ld_target_budget := ld_target_budget l', ld_remaining := ld_remaining l'\<rparr>"
    and sums: "unat (ld_delivered l') = unat (ld_delivered l) + magnitude d" "unat (ld_offset l') = unat (ld_offset l) + magnitude d"
      "unat (ld_event_budget l') + magnitude d = unat (ld_event_budget l)" "unat (ld_remaining l') + magnitude d = unat (ld_remaining l)"
    and cached: "entry_cached X s es c l'"
    and taken: "\<And>res l''. row_taken X s es item c l d res l'' \<Longrightarrow> Q (RowTaken d res) l''"
  shows "wp (end_row X item c d) Q R l'"
proof -
  note facts = in_entryD [OF inside]
  have same: "same_entry l l'" "ld_row l' = ld_row l" "moved (magnitude d) l l'"
    using sums by (subst l', simp_all add: same_entry_def moved_def)+
  have le: "magnitude d \<le> unat (ld_remaining l)" using sums(4) by simp
  have seen: "ld_delivered l' \<noteq> 0" using sums(1) d(1) by (auto simp: unat_eq_0 [symmetric])
  show ?thesis
  proof (cases "ld_remaining l' = 0")
    case True
    then have rest: "magnitude d = unat (ld_remaining l)" using sums(4) by simp
    have "wp (advance_row X item c) (\<lambda>res. Q (RowTaken d res)) R l'"
    proof (rule wp_advance_row [OF facts(1)])
      show "unat (ld_end l') = unat (ld_start l') + total_events c" "item \<le> ld_retained l'" "ld_row l' < num_rows (ctx_arrow X) c"
        "entry_cached X s es c l'"
        using same facts cached by (simp_all add: same_entry_def)
      show "unat (ld_offset l') = unat (ld_start l') + before_row (diff_values c) (Suc (ld_row l'))"
        using sums(2) facts(10) rest same by (simp add: same_entry_def)
    next
      fix l2
      assume l2: "l2 = l'\<lparr>ld_row := Suc (ld_row l'), ld_remaining := ld_remaining l2\<rparr>"
        and at: "at_event (unat (ld_start l')) (diff_values c) (unat (ld_offset l')) (Suc (ld_row l')) (unat (ld_remaining l2))"
        and r: "unat (ld_remaining l2) = magnitude (diff_values c ! Suc (ld_row l'))" and nz: "ld_event_budget l' \<noteq> 0"
      have l2s: "ld_row l2 = Suc (ld_row l)" "ld_start l2 = ld_start l" "ld_end l2 = ld_end l" "ld_offset l2 = ld_offset l'"
        "ld_retained l2 = ld_retained l" "ld_cache l2 = ld_cache l'" "ld_delivered l2 = ld_delivered l'" "ld_event_budget l2 = ld_event_budget l'"
        "same_entry l l2" "moved (magnitude d) l l2"
        using same by (subst l2, simp add: same_entry_def moved_def)+
      have "entry_cached X s es c l2" using cached same(1) l2s by (simp add: entry_cached_def same_entry_def)
      moreover have "budgets_ok X l2"
        using facts(3) sums(1,3) seen nz l2s by (auto simp: budgets_ok_def word_neq_0_conv)
      moreover have "at_event (unat (ld_start l2)) (diff_values c) (unat (ld_offset l2)) (ld_row l2) (unat (ld_remaining l2))"
        using at same l2s by (simp add: same_entry_def)
      ultimately have "in_entry X s es item c l2" using facts l2s by (simp add: in_entry_def)
      then have "row_taken X s es item c l d None l2"
        using d le rest r same l2s entry_cached_kept [OF in_entryD(2)] by (simp add: row_taken_def)
      then show "Q (RowTaken d None) l2" by (rule taken)
    next
      fix prog l2
      assume "after_rows X item l' prog l2" "moved 0 l' l2" "cache_kept X s es l2"
      then have "row_taken X s es item c l d (Some prog) l2"
        using d le same moved_trans [OF same(3), of 0 l2] after_rows_moved [of X item l' prog l2 l] by (simp add: row_taken_def)
      then show "Q (RowTaken d (Some prog)) l2" by (rule taken)
    qed
    then show ?thesis using True by (simp add: wp_def end_row_def sem_bind_def sem_return_def split: prod.splits sum.splits)
  next
    case False
    then have rem: "0 < unat (ld_remaining l')" by (simp add: unat_gt_0)
    have at: "at_event (unat (ld_start l')) (diff_values c) (unat (ld_offset l')) (ld_row l') (unat (ld_remaining l'))"
      using facts(6) sums same rem by (simp add: at_event_def same_entry_def)
    obtain k where k: "current_position l' = (\<lparr>entry_start = ld_start l', event_offset = ld_offset l'\<rparr>, l'\<lparr>ld_cache := k\<rparr>)"
      "entry_cached X s es c (l'\<lparr>ld_cache := k\<rparr>)"
      by (rule wp_current_position [OF cached at])
    have "unat (ld_offset l') < unat (ld_end l)" using facts(13) sums rem by simp
    then have "row_taken X s es item c l d (Some (Stop \<lparr>entry_start = ld_start l', event_offset = ld_offset l'\<rparr>)) (l'\<lparr>ld_cache := k\<rparr>)"
      using d le same entry_cached_kept [OF k(2)]
      by (simp add: row_taken_def after_rows_def same_entry_def moved_def word_less_nat_alt)
    then show ?thesis using False k(1) taken by (simp add: wp_def end_row_def)
  qed
qed

lemma wp_take_events:
  assumes inside: "in_entry X s es item c l" and b: "0 < b" "b \<le> limit_target_bytes (ctx_limits X)"
    and stop: "\<And>k. ld_delivered l \<noteq> 0 \<Longrightarrow> cache_kept X s es (l\<lparr>ld_cache := k\<rparr>) \<Longrightarrow>
      Q (RowStop \<lparr>entry_start = ld_start l, event_offset = ld_offset l\<rparr>) (l\<lparr>ld_cache := k\<rparr>)"
    and taken: "\<And>d res l'. row_taken X s es item c l d res l' \<Longrightarrow> Q (RowTaken d res) l'"
  shows "wp (take_events X item c b) Q R l"
proof (cases "b \<le> ld_target_budget l")
  case False
  note facts = in_entryD [OF inside]
  have zero: "ld_target_budget l div b = 0" using False by (simp add: div_word_less)
  have d: "ld_delivered l \<noteq> 0" using False b(2) facts(3) by (auto simp: budgets_ok_def)
  obtain k where k: "current_position l = (\<lparr>entry_start = ld_start l, event_offset = ld_offset l\<rparr>, l\<lparr>ld_cache := k\<rparr>)"
    "entry_cached X s es c (l\<lparr>ld_cache := k\<rparr>)"
    by (rule wp_current_position [OF facts(2,6)])
  show ?thesis using stop [OF d entry_cached_kept [OF k(2)]] zero d b(1) k(1) by (auto simp: wp_def take_events_def)
next
  case True
  note facts = in_entryD [OF inside]
  let ?n = "min (min (ld_remaining l) (ld_event_budget l)) (ld_target_budget l div b)"
  have "0 < ld_remaining l" "0 < ld_event_budget l" using facts(3,11) by (simp_all add: word_less_nat_alt budgets_ok_def)
  note q = event_quota [OF b(1) True this]
  have n: "0 < unat ?n" "unat ?n \<le> unat (ld_remaining l)" "unat ?n \<le> unat (ld_event_budget l)"
    using q(1) [THEN word_less_nat_alt [THEN iffD1]] q(2,3) [THEN word_le_nat_alt [THEN iffD1]] by (simp_all only: unat_0)
  obtain d where d: "signed_count (diff_values c ! ld_row l) ?n = Inr d" "magnitude d = unat ?n" "sign_of d = sign_of (diff_values c ! ld_row l)"
    by (rule signed_count_eq [OF n(1) le_trans [OF n(2) facts(12)]])
  have "wp (charge_events ?n b) (\<lambda>_. wp (end_row X item c d) Q R) R l"
  proof (rule wp_charge_events [OF q(2-4)])
    show "unat (ld_delivered l) + unat ?n < 2 ^ 64"
      using facts(3) n(3) unat_u64_less [of "limit_events (ctx_limits X)"] unfolding budgets_ok_def by linarith
    show "unat (ld_offset l) + unat ?n < 2 ^ 64"
      using facts(13) n(2) unat_u64_less [of "ld_end l"] by linarith
  next
    fix l'
    assume l': "l' = l\<lparr>ld_delivered := ld_delivered l', ld_offset := ld_offset l', ld_event_budget := ld_event_budget l',
        ld_target_budget := ld_target_budget l', ld_remaining := ld_remaining l'\<rparr>"
      and sums: "unat (ld_delivered l') = unat (ld_delivered l) + unat ?n" "unat (ld_offset l') = unat (ld_offset l) + unat ?n"
        "unat (ld_event_budget l') + unat ?n = unat (ld_event_budget l)" "unat (ld_remaining l') + unat ?n = unat (ld_remaining l)"
    have same: "ld_cache l' = ld_cache l" "ld_start l' = ld_start l" by (subst l', simp)+
    have cached: "entry_cached X s es c l'" using facts(2) same by (simp add: entry_cached_def)
    have "l' = l\<lparr>ld_cache := ld_cache l', ld_delivered := ld_delivered l', ld_offset := ld_offset l', ld_event_budget := ld_event_budget l',
        ld_target_budget := ld_target_budget l', ld_remaining := ld_remaining l'\<rparr>"
      unfolding same by (subst l') simp
    then show "wp (end_row X item c d) Q R l'"
      by (rule wp_end_row [OF inside _ d(3) _ sums [folded d(2)] cached, rotated]) (use n(1) d(2) taken in simp_all)
  qed
  moreover have "b \<noteq> 0" using b(1) by auto
  ultimately show ?thesis using q(5) d(1) by (simp add: take_events_def wp_def sem_bind_def sem_lift_def Let_def split: prod.splits sum.splits)
qed

lemma in_entry_cache:
  "in_entry X s es item c l \<Longrightarrow> entry_cached X s es c (l\<lparr>ld_cache := k\<rparr>) \<Longrightarrow> in_entry X s es item c (l\<lparr>ld_cache := k\<rparr>)"
  by (simp add: in_entry_def budgets_ok_def)

lemma row_taken_cache: "row_taken X s es item c (l\<lparr>ld_cache := k\<rparr>) d res l' = row_taken X s es item c l d res l'"
  by (simp add: row_taken_def moved_def same_entry_def after_rows_def left_entry_def cong: option.case_cong load_progress.case_cong)

lemma wp_consume_row:
  assumes inside: "in_entry X s es item c l"
    and stop: "\<And>k. ld_delivered l \<noteq> 0 \<Longrightarrow> cache_kept X s es (l\<lparr>ld_cache := k\<rparr>) \<Longrightarrow>
      Q (RowStop \<lparr>entry_start = ld_start l, event_offset = ld_offset l\<rparr>) (l\<lparr>ld_cache := k\<rparr>)"
    and taken: "\<And>d res l'. row_taken X s es item c l d res l' \<Longrightarrow> Q (RowTaken d res) l'"
  shows "wp (consume_row X item c) Q R l"
proof -
  note facts = in_entryD [OF inside]
  have "wp (event_bytes X c) (\<lambda>b. wp (take_events X item c b) Q R) R l"
  proof (rule wp_event_bytes [OF facts(2,8,4)])
    fix n k
    assume n: "0 < n" "n \<le> limit_target_bytes (ctx_limits X)" and k: "entry_cached X s es c (l\<lparr>ld_cache := k\<rparr>)"
    show "wp (take_events X item c n) Q R (l\<lparr>ld_cache := k\<rparr>)"
      by (rule wp_take_events [OF in_entry_cache [OF inside k] n]) (use stop taken in \<open>simp_all add: row_taken_cache\<close>)
  qed
  then show ?thesis using facts(8,9) by (simp add: consume_row_def wp_def sem_bind_def split: prod.splits sum.splits)
qed

text \<open>The rows of the entry up to a stop or its end.\<close>

definition rows_taken ::
  "'b load_context \<Rightarrow> nat \<Rightarrow> 'b outbox \<Rightarrow> u64 \<Rightarrow> 'b change \<Rightarrow> 'b loader \<Rightarrow> i64 list \<Rightarrow> load_progress \<Rightarrow> 'b loader \<Rightarrow> bool" where
  "rows_taken X s es item c l new prog l' \<longleftrightarrow>
     (\<exists>n. moved n l l' \<and> (n = 0 \<longleftrightarrow> new = []) \<and> (n = 0 \<longrightarrow> ld_delivered l \<noteq> 0) \<and> cache_kept X s es l' \<and> after_rows X item l prog l' \<and>
       ld_row l + length new \<le> num_rows (ctx_arrow X) c \<and> (\<forall>d \<in> set new. d \<noteq> 0) \<and>
       rows_events (take (length new) (drop (ld_row l) (batch_units (ctx_arrow X) (records c)))) new =
         take n (rest_events (batch_units (ctx_arrow X) (records c)) (diff_values c) (ld_row l) (unat (ld_remaining l))))"

lemma magnitude_0 [simp]: "magnitude 0 = 0"
  by (simp add: magnitude_def)

lemma take_rest_events:
  assumes "n \<le> rest"
  shows "take n (rest_events us ds row rest) = replicate n (us ! row, sign_of (ds ! row))"
  using assms by (simp add: rest_events_def)

lemma take_rest_events_next:
  assumes "length us = length ds" "Suc row < length ds"
  shows "take (rest + n) (rest_events us ds row rest) =
    replicate rest (us ! row, sign_of (ds ! row)) @ take n (rest_events us ds (Suc row) (magnitude (ds ! Suc row)))"
  using assms rest_events_full [of us ds "Suc row"] by (simp add: rest_events_def)

lemma rows_taken_stop:
  assumes "in_entry X s es item c l" "ld_delivered l \<noteq> 0" "cache_kept X s es (l\<lparr>ld_cache := k\<rparr>)"
  shows "rows_taken X s es item c l [] (Stop \<lparr>entry_start = ld_start l, event_offset = ld_offset l\<rparr>) (l\<lparr>ld_cache := k\<rparr>)"
proof -
  note facts = in_entryD [OF assms(1)]
  have "ld_offset l < ld_end l" using facts(11,13) by (simp add: word_less_nat_alt)
  then show ?thesis
    using assms facts(8) unfolding rows_taken_def by (intro exI [of _ 0]) (simp add: after_rows_def less_imp_le)
qed

lemma rows_taken_last:
  assumes "in_entry X s es item c l" "row_taken X s es item c l d (Some prog) l'"
  shows "rows_taken X s es item c l [d] prog l'"
proof -
  note facts = in_entryD [OF assms(1)]
  have "drop (ld_row l) (batch_units (ctx_arrow X) (records c)) \<noteq> []" using facts(8) by (simp add: num_rows_def)
  then have "take 1 (drop (ld_row l) (batch_units (ctx_arrow X) (records c))) = [batch_units (ctx_arrow X) (records c) ! ld_row l]"
    using facts(8) by (simp add: take_Suc hd_drop_conv_nth num_rows_def)
  then show ?thesis
    using assms(2) facts(8) unfolding rows_taken_def
    by (intro exI [of _ "magnitude d"]) (auto simp: row_taken_def take_rest_events row_events_eq)
qed

lemma rows_taken_step:
  assumes "in_entry X s es item c l" "row_taken X s es item c l d None l1" "rows_taken X s es item c l1 new prog l'"
  shows "rows_taken X s es item c l (d # new) prog l'"
proof -
  note facts = in_entryD [OF assms(1)]
  let ?us = "batch_units (ctx_arrow X) (records c)" and ?ds = "diff_values c"
  have len: "length ?us = length ?ds" using change_ok_magnitudes(3) [OF facts(1)] by (simp add: num_rows_def)
  have t: "0 < magnitude d" "magnitude d = unat (ld_remaining l)" "sign_of d = sign_of (?ds ! ld_row l)" "moved (magnitude d) l l1"
    "in_entry X s es item c l1" "same_entry l l1" "ld_row l1 = Suc (ld_row l)" "unat (ld_remaining l1) = magnitude (?ds ! Suc (ld_row l))"
    using assms(2) by (auto simp: row_taken_def)
  obtain n where n: "moved n l1 l'" "n = 0 \<longleftrightarrow> new = []" "cache_kept X s es l'" "after_rows X item l1 prog l'"
    "ld_row l1 + length new \<le> num_rows (ctx_arrow X) c" "\<forall>d \<in> set new. d \<noteq> 0"
    "rows_events (take (length new) (drop (ld_row l1) ?us)) new = take n (rest_events ?us ?ds (ld_row l1) (unat (ld_remaining l1)))"
    using assms(3) by (auto simp: rows_taken_def)
  have row: "Suc (ld_row l) < length ?ds" using in_entryD(8) [OF t(5)] t(7) change_ok_magnitudes(3) [OF facts(1)] by simp
  have "drop (ld_row l) ?us = ?us ! ld_row l # drop (Suc (ld_row l)) ?us" using row len by (simp add: Cons_nth_drop_Suc)
  then have "rows_events (take (length (d # new)) (drop (ld_row l) ?us)) (d # new) =
      take (magnitude d + n) (rest_events ?us ?ds (ld_row l) (unat (ld_remaining l)))"
    using take_rest_events_next [OF len row, of "unat (ld_remaining l)" n] t n(7) by (simp add: row_events_eq)
  then show ?thesis
    using t n moved_trans [OF t(4) n(1)] after_rows_moved [OF n(4) t(6)] unfolding rows_taken_def
    by (intro exI [of _ "magnitude d + n"]) auto
qed

lemma wp_consume_rows:
  assumes "in_entry X s es item c l"
    and "\<And>new prog l'. rows_taken X s es item c l new prog l' \<Longrightarrow> Q (local @ new, prog) l'"
  shows "wp (consume_rows X item c local) Q R l"
  using assms
proof (induction X item c local l rule: consume_rows.induct)
  case (1 X item c local l)
  let ?Q = "\<lambda>st l'. case st of RowStop pos \<Rightarrow> Q (local, Stop pos) l'
      | RowTaken d res \<Rightarrow> (case res of Some prog \<Rightarrow> Q (local @ [d], prog) l' | None \<Rightarrow> wp (consume_rows X item c (local @ [d])) Q R l')"
  obtain r l' where run: "consume_row X item c l = (r, l')" by fastforce
  have "wp (consume_row X item c) (\<lambda>st l1. (r, l') = (Inr st, l1) \<longrightarrow> ?Q st l1) R l"
  proof (rule wp_consume_row [OF 1(2)])
    fix k
    assume "ld_delivered l \<noteq> 0" "cache_kept X s es (l\<lparr>ld_cache := k\<rparr>)"
    then show "(r, l') = (Inr (RowStop \<lparr>entry_start = ld_start l, event_offset = ld_offset l\<rparr>), l\<lparr>ld_cache := k\<rparr>) \<longrightarrow>
        ?Q (RowStop \<lparr>entry_start = ld_start l, event_offset = ld_offset l\<rparr>) (l\<lparr>ld_cache := k\<rparr>)"
      using 1(3) [OF rows_taken_stop [OF 1(2)]] by simp
  next
    fix d res l2
    assume t: "row_taken X s es item c l d res l2"
    show "(r, l') = (Inr (RowTaken d res), l2) \<longrightarrow> ?Q (RowTaken d res) l2"
    proof (cases res)
      case None
      have "wp (consume_rows X item c (local @ [d])) Q R l2" if r: "r = Inr (RowTaken d None)" "l' = l2"
      proof (rule 1(1) [OF run [unfolded r, symmetric] refl refl refl])
        show "in_entry X s es item c l2" using t None by (simp add: row_taken_def)
      next
        fix new prog l3
        assume "rows_taken X s es item c l2 new prog l3"
        then show "Q ((local @ [d]) @ new, prog) l3"
          using 1(3) [OF rows_taken_step [OF 1(2) t [unfolded None]]] by simp
      qed
      then show ?thesis by (simp add: None)
    next
      case (Some prog)
      then show ?thesis using 1(3) [OF rows_taken_last [OF 1(2) t [unfolded Some]]] by simp
    qed
  qed
  then show ?case
    by (subst (asm) wp_def, subst wp_def, subst consume_rows.simps)
      (auto simp: run wp_def split: sum.splits row_step.splits option.splits prod.splits)
qed

section \<open>One entry\<close>

text \<open>The loader is at entry \<open>(enc, c)\<close>, with the entries \<open>es\<close> behind it.\<close>

definition at_head :: "'b load_context \<Rightarrow> nat \<Rightarrow> 'b outbox \<Rightarrow> 'b outbox \<Rightarrow> 'b loader \<Rightarrow> bool" where
  "at_head X s all es l \<longleftrightarrow>
     es \<noteq> [] \<and> (\<exists>pre. all = pre @ es \<and> unat (ld_start l) = s + span pre) \<and> unat (tail (ctx_before X)) = s + span all \<and>
     (\<forall>e \<in> set all. entry_ok X e) \<and> head_within (unat (ld_start l)) (unat (ld_offset l)) es \<and>
     unat (ld_retained l) = retained es \<and> cache_kept X s all l \<and> budgets_ok X l \<and>
     (ld_encoded l = 0 \<longleftrightarrow> ld_delivered l = 0) \<and> (ld_first l = None \<longleftrightarrow> ld_delivered l = 0) \<and>
     (ld_delivered l \<noteq> 0 \<longrightarrow> ld_offset l = ld_start l) \<and> unat (ld_encoded l) \<le> unat (limit_encoded_bytes (ctx_limits X))"

definition item_word :: "bytes \<Rightarrow> u64" where
  "item_word enc = word_of_nat (entry_size enc)"

lemma entry_item:
  assumes "entry_ok X (enc, c)"
  shows "item_bytes_of enc = Inr (item_word enc)" "unat (item_word enc) = entry_size enc"
    "decode_entry enc (limit_item_bytes (ctx_limits X)) (ctx_codec X) = Inr c" "item_word enc \<le> limit_encoded_bytes (ctx_limits X)"
    "item_word enc \<noteq> 0"
proof -
  have le: "entry_size enc \<le> unat (limit_item_bytes (ctx_limits X))" "entry_size enc \<le> unat (limit_encoded_bytes (ctx_limits X))"
    and dec: "codec_decode_owned (ctx_codec X) enc = Inr c"
    using assms by (simp_all add: entry_ok_def)
  have small: "entry_size enc < 2 ^ 64" using le(1) unat_u64_less [of "limit_item_bytes (ctx_limits X)"] by linarith
  then show u: "unat (item_word enc) = entry_size enc" by (simp add: item_word_def unat_of_nat)
  have len: "unat (word_of_nat (length enc) :: u64) = length enc" using small by (simp add: unat_of_nat entry_size_def)
  have "checked_add_u64 (word_of_nat (length enc)) MAP_KEY_BYTES = Some (item_word enc)"
    unfolding checked_add_u64_Some u by (simp add: len MAP_KEY_BYTES_def entry_size_def)
  then show item: "item_bytes_of enc = Inr (item_word enc)"
    using small by (simp add: item_bytes_of_def entry_size_def u64_max_def)
  show "decode_entry enc (limit_item_bytes (ctx_limits X)) (ctx_codec X) = Inr c"
    using le(1) dec u by (simp add: decode_entry_def item word_less_nat_alt not_less)
  show "item_word enc \<le> limit_encoded_bytes (ctx_limits X)" using le(2) u by (simp add: word_le_nat_alt)
  show "item_word enc \<noteq> 0" using u by (auto simp: entry_size_def)
qed

lemma located_prefix: "(unat w, enc, c) \<in> set (located s (pre @ (enc, c) # es))" if "unat w = s + span pre"
  using that by (simp add: located_append)

lemma at_headD:
  assumes "at_head X s all ((enc, c) # es) l"
  shows "entry_ok X (enc, c)" "change_ok (ctx_arrow X) c" "sizes_ok X c" "(unat (ld_start l), enc, c) \<in> set (located s all)"
    "unat (ld_start l) + total_events c \<le> unat (tail (ctx_before X))" "ld_start l < tail (ctx_before X)"
    "unat (ld_start l) \<le> unat (ld_offset l)" "unat (ld_offset l) < unat (ld_start l) + total_events c"
    "cache_kept X s all l" "budgets_ok X l" "item_word enc \<le> ld_retained l"
proof -
  obtain pre where pre: "all = pre @ (enc, c) # es" "unat (ld_start l) = s + span pre" using assms by (auto simp: at_head_def)
  show ok: "entry_ok X (enc, c)" using assms pre by (simp add: at_head_def)
  then show c: "change_ok (ctx_arrow X) c" "sizes_ok X c" by (simp_all add: entry_ok_def)
  show "(unat (ld_start l), enc, c) \<in> set (located s all)" using pre by (simp add: located_append)
  show t: "unat (ld_start l) + total_events c \<le> unat (tail (ctx_before X))" using assms pre by (simp add: at_head_def)
  show "ld_start l < tail (ctx_before X)" using t change_ok_magnitudes(2) [OF c(1)] by (simp add: word_less_nat_alt)
  show "unat (ld_start l) \<le> unat (ld_offset l)" "unat (ld_offset l) < unat (ld_start l) + total_events c" "cache_kept X s all l" "budgets_ok X l"
    using assms by (simp_all add: at_head_def head_within_def)
  show "item_word enc \<le> ld_retained l" using assms entry_item(2) [OF ok] by (simp add: at_head_def word_le_nat_alt)
qed

lemma located_unique:
  assumes "(a, enc, c) \<in> set (located s es)" "(a, enc', c') \<in> set (located s es)" "\<forall>e \<in> set es. entry_ok X e"
  shows "enc = enc' \<and> c = c'"
  using assms
proof (induction s es rule: located.induct)
  case (2 s e0 c0 es)
  have "0 < total_events c0" using 2(4) change_ok_magnitudes(2) by (auto simp: entry_ok_def)
  then have "\<not> (s, x) \<in> set (located (s + total_events c0) es)" for x by (cases x) (auto dest: located_start)
  with 2 show ?case by auto
qed simp

text \<open>Reading the entry leaves it in the cache.\<close>

lemma wp_load_entry:
  assumes laws: "engine_laws E V" and healthy: "\<not> ref_poisoned r" and head: "at_head X s all ((enc, c) # es) l"
    and stored: "V (ref_view r) (p @ u64_to_be (ld_start l)) = Some enc"
    and ok: "\<And>l'. l' = l\<lparr>ld_cache := ld_cache l', ld_end := ld_end l'\<rparr> \<Longrightarrow> entry_cached X s all c l' \<Longrightarrow>
      unat (ld_end l') = unat (ld_start l) + total_events c \<Longrightarrow> Q (item_word enc, c) (r, l')"
    and err: "\<And>e r'. \<not> engine_reliable E \<Longrightarrow> \<not> is_unwind e \<Longrightarrow> R e (r', l)"
  shows "wp (load_entry E p X) Q R (r, l)"
proof -
  note facts = at_headD [OF head]
  have all: "\<forall>e \<in> set all. entry_ok X e" using head by (simp add: at_head_def)
  show ?thesis
  proof (cases "\<exists>k. ld_cache l = Some k \<and> cache_start k = ld_start l")
    case True
    then obtain k where k: "ld_cache l = Some k" "cache_start k = ld_start l" by blast
    then have m: "cache_matches X s all k" using facts(9) by (simp add: cache_kept_def)
    then obtain enc' where "(unat (ld_start l), enc', cache_change k) \<in> set (located s all)" "unat (cache_item_bytes k) = entry_size enc'"
      using k(2) by (auto simp: cache_matches_def)
    then have same: "cache_change k = c" "unat (cache_item_bytes k) = entry_size enc"
      using located_unique [OF facts(4) _ all] by auto
    then have item: "cache_item_bytes k = item_word enc" using entry_item(2) [OF facts(1)] by (simp add: word_unat_eq_iff)
    have stop: "unat (cache_end k) = unat (ld_start l) + total_events c" using m k(2) same(1) by (simp add: cache_matches_def)
    then have le: "\<not> cache_end k > tail (ctx_before X)" using facts(5) by (simp add: word_less_nat_alt)
    have "Q (item_word enc, c) (r, l\<lparr>ld_end := cache_end k\<rparr>)"
      by (rule ok) (use k m same stop in \<open>simp_all add: entry_cached_def\<close>)
    then show ?thesis using k le same item by (simp add: wp_def load_entry_def)
  next
    case False
    let ?stop = "ld_start l + word_of_nat (total_events c)"
    let ?k = "\<lparr>cache_start = ld_start l, cache_item_bytes = item_word enc, cache_change = c, cache_end = ?stop, cache_hint = None, cache_event_bytes = None\<rparr>"
    have small: "unat (ld_start l) + total_events c < 2 ^ 64" using facts(5) unat_u64_less [of "tail (ctx_before X)"] by linarith
    note stop = entry_end_eq [OF change_ok_magnitudes(2) [OF facts(2)] small]
    have le: "\<not> ?stop > tail (ctx_before X)" using stop(2) facts(5) by (simp add: word_less_nat_alt)
    have loaded: "loaded_entry X enc l = (Inr (item_word enc, c), l\<lparr>ld_end := ?stop, ld_cache := Some ?k\<rparr>)"
      using entry_item [OF facts(1)] stop(1) le by (simp add: loaded_entry_def)
    have "Q (item_word enc, c) (r, l\<lparr>ld_end := ?stop, ld_cache := Some ?k\<rparr>)"
      by (rule ok) (use facts(4) entry_item(2) [OF facts(1)] stop(2) in \<open>auto simp: entry_cached_def cache_matches_def\<close>)
    moreover have "wp (map_get_bounded E u64_key vec_value p (ld_start l) (unat (limit_item_bytes (ctx_limits X))))
        (\<lambda>v r'. v = Some enc \<and> r' = r) (\<lambda>e r'. \<not> engine_reliable E \<and> is_storage e) r"
      by (rule wp_map_get_bounded [OF laws healthy])
        (use facts(1) in \<open>auto simp: u64_key_def vec_value_def decode_bounded_value_def stored entry_ok_def entry_size_def\<close>)
    ultimately show ?thesis
      using False err unfolding load_entry_def
      by (auto simp: wp_def loaded split: option.splits prod.splits sum.splits store_error.splits)
  qed
qed

definition slice_laws :: "'b arrow \<Rightarrow> bool" where
  "slice_laws A \<longleftrightarrow>
     (\<forall>b i n. i + n \<le> batch_rows A b \<longrightarrow>
        batch_rows A (batch_slice A b i n) = n \<and> batch_schema A (batch_slice A b i n) = batch_schema A b \<and>
        (batch_decimals A b = Inr () \<longrightarrow> batch_decimals A (batch_slice A b i n) = Inr ()) \<and>
        (\<forall>j < n. batch_slice A (batch_slice A b i n) j 1 = batch_slice A b (i + j) 1))"

lemma batch_units_slice:
  assumes "slice_laws A" "i + n \<le> batch_rows A b"
  shows "batch_units A (batch_slice A b i n) = take n (drop i (batch_units A b))"
  by (rule nth_equalityI) (use assms in \<open>auto simp: slice_laws_def batch_units_def\<close>)

definition pieces_ok :: "'b load_context \<Rightarrow> 'b list \<Rightarrow> i64 list \<Rightarrow> bool" where
  "pieces_ok X bs ds \<longleftrightarrow>
     length (concat (map (batch_units (ctx_arrow X)) bs)) = length ds \<and> (\<forall>d \<in> set ds. d \<noteq> 0) \<and>
     (\<forall>b \<in> set bs. batch_schema (ctx_arrow X) b = codec_schema (ctx_codec X) \<and> batch_decimals (ctx_arrow X) b = Inr ())"

definition pieces_events :: "'b load_context \<Rightarrow> 'b list \<Rightarrow> i64 list \<Rightarrow> ('b \<times> bool) list" where
  "pieces_events X bs ds = rows_events (concat (map (batch_units (ctx_arrow X)) bs)) ds"

lemma pieces_append:
  assumes "pieces_ok X bs ds" "pieces_ok X bs' ds'"
  shows "pieces_ok X (bs @ bs') (ds @ ds')" "pieces_events X (bs @ bs') (ds @ ds') = pieces_events X bs ds @ pieces_events X bs' ds'"
  using assms by (auto simp: pieces_ok_def pieces_events_def rows_events_append)

lemma pieces_Nil [simp]: "pieces_ok X [] []" "pieces_events X [] [] = []"
  by (simp_all add: pieces_ok_def pieces_events_def)

text \<open>What the loop has done since \<open>l\<close>: \<open>n\<close> events, as the batches \<open>bs\<close> with the differences \<open>ds\<close>.\<close>

definition took :: "'b load_context \<Rightarrow> nat \<Rightarrow> 'b list \<Rightarrow> i64 list \<Rightarrow> 'b loader \<Rightarrow> 'b loader \<Rightarrow> bool" where
  "took X n bs ds l l' \<longleftrightarrow>
     unat (ld_offset l') = unat (ld_offset l) + n \<and> unat (ld_delivered l') = unat (ld_delivered l) + n \<and>
     unat (ld_event_budget l) = unat (ld_event_budget l') + n \<and> ld_delivered l' \<noteq> 0 \<and>
     ld_batches l' = ld_batches l @ bs \<and> ld_diffs l' = ld_diffs l @ ds \<and> (n = 0 \<longrightarrow> bs = []) \<and> pieces_ok X bs ds \<and>
     ld_encoded l' \<noteq> 0 \<and> unat (ld_encoded l') \<le> unat (limit_encoded_bytes (ctx_limits X))"

lemma wp_locate_position:
  assumes within: "unat (ld_start l) \<le> unat (ld_offset l)" "unat (ld_offset l) < unat (ld_start l) + total_events c"
    and cached: "entry_cached X s all c l" and stop: "unat (ld_end l) = unat (ld_start l) + total_events c"
    and Q: "\<And>row rest. at_event (unat (ld_start l)) (diff_values c) (unat (ld_offset l)) row (unat rest) \<Longrightarrow>
      Q () (l\<lparr>ld_row := row, ld_remaining := rest\<rparr>)"
  shows "wp (locate_position c) Q R l"
proof -
  obtain k where k: "ld_cache l = Some k" "cache_matches X s all k" "cache_start k = ld_start l" "cache_change k = c"
    using cached by (auto simp: entry_cached_def)
  have inside: "\<not> (ld_offset l < ld_start l \<or> ld_offset l \<ge> ld_end l)"
    using within stop by (simp add: word_less_nat_alt not_le)
  show ?thesis
  proof (cases "\<exists>h. cache_hint k = Some h \<and> hint_offset h = ld_offset l")
    case True
    then obtain h where h: "cache_hint k = Some h" "hint_offset h = ld_offset l" by blast
    then have "at_event (unat (ld_start l)) (diff_values c) (unat (ld_offset l)) (hint_row h) (unat (hint_remaining h))"
      using k by (auto simp: cache_matches_def)
    then show ?thesis using Q inside k(1) h by (simp add: wp_def locate_position_def)
  next
    case False
    have "unat (ld_start l) + total_events c < 2 ^ 64" using stop unat_u64_less [of "ld_end l"] by simp
    then obtain row rest where r: "locate_row (ld_offset l) (ld_start l) 0 (diff_values c) = Inr (row, rest)"
      "at_event (unat (ld_start l)) (diff_values c) (unat (ld_offset l)) row (unat rest)"
      using locate_row_eq [of "ld_start l" "diff_values c" "ld_offset l" 0] within by auto
    then show ?thesis using Q [OF r(2)] False inside k(1) by (simp add: wp_def locate_position_def split: option.splits)
  qed
qed

lemma after_rows_position:
  "after_rows X item (l\<lparr>ld_encoded := e, ld_row := r, ld_remaining := q\<rparr>) prog l' = after_rows X item l prog l'"
  by (cases prog) (simp_all add: after_rows_def left_entry_def same_entry_def)

lemma took_position: "took X n bs ds (l\<lparr>ld_encoded := e, ld_row := r, ld_remaining := q\<rparr>) l' = took X n bs ds l l'"
  by (simp add: took_def)

lemma wp_take_rows:
  assumes laws: "slice_laws (ctx_arrow X)" and ok: "entry_ok X (enc, c)" and inside: "in_entry X s all (item_word enc) c l"
    and "unat (ld_start l) \<le> unat (ld_offset l)" "ld_encoded l \<noteq> 0" "unat (ld_encoded l) \<le> unat (limit_encoded_bytes (ctx_limits X))"
    and Q: "\<And>n bs ds prog l'. took X n bs ds l l' \<Longrightarrow>
      pieces_events X bs ds = take n (drop (unat (ld_offset l) - unat (ld_start l)) (change_events (ctx_arrow X) c)) \<Longrightarrow>
      cache_kept X s all l' \<Longrightarrow> after_rows X (item_word enc) l prog l' \<Longrightarrow>
      ld_first l' = (case ld_first l of None \<Rightarrow> Some c | Some f \<Rightarrow> Some f) \<Longrightarrow> Q prog l'"
  shows "wp (take_rows X (item_word enc) c) Q R l"
proof -
  let ?l = "l\<lparr>ld_first := (case ld_first l of None \<Rightarrow> Some c | Some f \<Rightarrow> Some f)\<rparr>"
  let ?us = "batch_units (ctx_arrow X) (records c)"
  note facts = in_entryD [OF inside]
  have inside': "in_entry X s all (item_word enc) c ?l" using inside by (simp add: in_entry_def entry_cached_def budgets_ok_def)
  have len: "length ?us = length (diff_values c)" using change_ok_magnitudes(3) [OF facts(1)] by (simp add: num_rows_def)
  have drop: "drop (unat (ld_offset l) - unat (ld_start l)) (change_events (ctx_arrow X) c) =
      rest_events ?us (diff_values c) (ld_row l) (unat (ld_remaining l))"
    unfolding change_events_def by (rule drop_rows_events [OF len facts(6) assms(4)])
  have "wp (consume_rows X (item_word enc) c []) (\<lambda>(local, prog) l'.
      Q prog (if local = [] then l' else l'\<lparr>ld_batches := ld_batches l' @ [batch_slice (ctx_arrow X) (records c) (ld_row l) (length local)],
        ld_diffs := ld_diffs l' @ local\<rparr>)) R ?l"
  proof (rule wp_consume_rows [OF inside'])
    fix new prog l'
    assume taken: "rows_taken X s all (item_word enc) c ?l new prog l'"
    let ?bs = "if new = [] then [] else [batch_slice (ctx_arrow X) (records c) (ld_row l) (length new)]"
    let ?l' = "if new = [] then l' else l'\<lparr>ld_batches := ld_batches l' @ [batch_slice (ctx_arrow X) (records c) (ld_row l) (length new)],
        ld_diffs := ld_diffs l' @ new\<rparr>"
    from taken obtain n where n: "moved n ?l l'" "n = 0 \<longleftrightarrow> new = []" "n = 0 \<longrightarrow> ld_delivered l \<noteq> 0" "cache_kept X s all l'"
      "after_rows X (item_word enc) ?l prog l'" "ld_row l + length new \<le> batch_rows (ctx_arrow X) (records c)" "\<forall>d \<in> set new. d \<noteq> 0"
      "rows_events (take (length new) (drop (ld_row l) ?us)) new = take n (rest_events ?us (diff_values c) (ld_row l) (unat (ld_remaining l)))"
      by (auto simp: rows_taken_def num_rows_def)
    have us: "concat (map (batch_units (ctx_arrow X)) ?bs) = take (length new) (drop (ld_row l) ?us)"
      using batch_units_slice [OF laws n(6)] by simp
    have pieces: "pieces_ok X ?bs new"
      unfolding pieces_ok_def us
      using n(6,7) laws ok by (auto simp: slice_laws_def entry_ok_def)
    have took: "took X n ?bs new l ?l'"
      using n(1-3) pieces assms(5,6) by (auto simp: took_def moved_def unat_eq_0 [symmetric])
    have "Q prog ?l'"
    proof (rule Q [OF took])
      show "pieces_events X ?bs new = take n (drop (unat (ld_offset l) - unat (ld_start l)) (change_events (ctx_arrow X) c))"
        unfolding pieces_events_def us drop by (rule n(8))
      show "cache_kept X s all ?l'" using n(4) by (simp add: cache_kept_def)
      show "after_rows X (item_word enc) l prog ?l'"
        using n(5) by (auto simp: after_rows_def left_entry_def same_entry_def split: load_progress.splits)
      show "ld_first ?l' = (case ld_first l of None \<Rightarrow> Some c | Some f \<Rightarrow> Some f)" using n(1) by (simp add: moved_def)
    qed
    then show "(case ([] @ new, prog) of (local, prog) \<Rightarrow> \<lambda>l'.
      Q prog (if local = [] then l' else l'\<lparr>ld_batches := ld_batches l' @ [batch_slice (ctx_arrow X) (records c) (ld_row l) (length local)],
        ld_diffs := ld_diffs l' @ local\<rparr>)) l'"
      by simp
  qed
  then show ?thesis
    by (auto simp: take_rows_def wp_def sem_bind_def split: prod.splits sum.splits if_splits)
qed

lemma wp_consume_entry:
  assumes laws: "slice_laws (ctx_arrow X)" and ctx: "context_ok X" and head: "at_head X s all ((enc, c) # es) l"
    and cached: "entry_cached X s all c l" and stop: "unat (ld_end l) = unat (ld_start l) + total_events c"
    and Q: "\<And>n bs ds prog l'. took X n bs ds l l' \<Longrightarrow>
      pieces_events X bs ds = take n (drop (unat (ld_offset l) - unat (ld_start l)) (change_events (ctx_arrow X) c)) \<Longrightarrow>
      cache_kept X s all l' \<Longrightarrow> after_rows X (item_word enc) l prog l' \<Longrightarrow>
      ld_first l' = (case ld_first l of None \<Rightarrow> Some c | Some f \<Rightarrow> Some f) \<Longrightarrow> Q prog l'"
  shows "wp (consume_entry X (item_word enc) c) Q R l"
proof -
  note facts = at_headD [OF head] and item = entry_item [OF at_headD(1) [OF head]]
  have enc_le: "unat (ld_encoded l) \<le> unat (limit_encoded_bytes (ctx_limits X))" and limit: "unat (limit_encoded_bytes (ctx_limits X)) < 2 ^ 63"
    using head ctx by (simp_all add: at_head_def context_ok_def)
  have item_le: "unat (item_word enc) \<le> unat (limit_encoded_bytes (ctx_limits X))" using item(4) by (simp add: word_le_nat_alt)
  have sum: "checked_add_u64 (ld_encoded l) (item_word enc) = Some (ld_encoded l + item_word enc)"
    "unat (ld_encoded l + item_word enc) = unat (ld_encoded l) + unat (item_word enc)"
    using enc_le item_le limit by (simp_all add: checked_add_u64_def unat_word_ariths)
  have not_big: "\<not> item_word enc > limit_encoded_bytes (ctx_limits X)" using item(4) by simp
  show ?thesis
  proof (cases "ld_encoded l \<noteq> 0 \<and> ld_encoded l + item_word enc > limit_encoded_bytes (ctx_limits X)")
    case True
    then have d: "ld_delivered l \<noteq> 0" "ld_first l \<noteq> None" "ld_offset l = ld_start l" using head by (auto simp: at_head_def)
    have "ld_offset l < ld_end l" using d(3) stop change_ok_magnitudes(2) [OF facts(2)] by (simp add: word_less_nat_alt)
    then have "Q (Stop (position_at (ld_start l))) l"
      using True d enc_le facts(9)
      by (intro Q [of 0 "[]" "[]"]) (auto simp: took_def after_rows_def position_at_def)
    then show ?thesis using True not_big sum(1) by (simp add: wp_def consume_entry_def)
  next
    case False
    let ?e = "ld_encoded l + item_word enc"
    have fits: "?e \<noteq> 0" "unat ?e \<le> unat (limit_encoded_bytes (ctx_limits X))"
    proof -
      show "?e \<noteq> 0" using sum(2) item(2) by (auto simp: entry_size_def)
      show "unat ?e \<le> unat (limit_encoded_bytes (ctx_limits X))"
        using False item_le sum(2) by (cases "ld_encoded l = 0") (simp_all add: word_less_nat_alt not_less)
    qed
    let ?l = "l\<lparr>ld_encoded := ?e\<rparr>"
    have "wp (locate_position c) (\<lambda>_. wp (take_rows X (item_word enc) c) Q R) R ?l"
    proof (rule wp_locate_position)
      show "entry_cached X s all c ?l" using cached by (simp add: entry_cached_def)
      fix row rest
      let ?l2 = "?l\<lparr>ld_row := row, ld_remaining := rest\<rparr>"
      assume "at_event (unat (ld_start ?l)) (diff_values c) (unat (ld_offset ?l)) row (unat rest)"
      then have inside: "in_entry X s all (item_word enc) c ?l2"
        using facts stop cached by (simp add: in_entry_def entry_cached_def budgets_ok_def)
      show "wp (take_rows X (item_word enc) c) Q R ?l2"
      proof (rule wp_take_rows [OF laws facts(1) inside])
        fix n bs ds prog l'
        assume "took X n bs ds ?l2 l'" "cache_kept X s all l'" "after_rows X (item_word enc) ?l2 prog l'"
          "pieces_events X bs ds = take n (drop (unat (ld_offset ?l2) - unat (ld_start ?l2)) (change_events (ctx_arrow X) c))"
          "ld_first l' = (case ld_first ?l2 of None \<Rightarrow> Some c | Some f \<Rightarrow> Some f)"
        then show "Q prog l'" by (intro Q [of n bs ds]) (simp_all add: took_position after_rows_position)
      qed (use facts(7) fits in simp_all)
    qed (use facts(7,8) stop in simp_all)
    then show ?thesis using False not_big sum(1) by (auto simp: wp_def consume_entry_def sem_bind_def split: prod.splits sum.splits)
  qed
qed

section \<open>The loop over the entries\<close>

definition stored_at :: "('s \<Rightarrow> (bytes \<rightharpoonup> bytes)) \<Rightarrow> bytes \<Rightarrow> nat \<Rightarrow> 'b outbox \<Rightarrow> 's \<Rightarrow> bool" where
  "stored_at V p s es q \<longleftrightarrow> (\<forall>(a, enc, c) \<in> set (located s es). V q (p @ u64_to_be (word_of_nat a)) = Some enc)"

definition keys_of :: "nat \<Rightarrow> 'b outbox \<Rightarrow> u64 list" where
  "keys_of s es = map (\<lambda>(a, enc, c). word_of_nat a) (located s es)"

definition run_done ::
  "'b load_context \<Rightarrow> nat \<Rightarrow> 'b outbox \<Rightarrow> 'b outbox \<Rightarrow> 'b loader \<Rightarrow> nat \<Rightarrow> 'b outbox \<Rightarrow> 'b outbox \<Rightarrow> 'b list \<Rightarrow> i64 list \<Rightarrow> position \<Rightarrow>
   'b loader \<Rightarrow> bool" where
  "run_done X s all es l n gone rest bs ds pos l' \<longleftrightarrow>
     es = gone @ rest \<and> took X n bs ds l l' \<and>
     pieces_events X bs ds = take n (drop (unat (ld_offset l) - unat (ld_start l)) (outbox_events (ctx_arrow X) es)) \<and>
     ld_keys l' = ld_keys l @ keys_of (unat (ld_start l)) gone \<and> unat (entry_start pos) = unat (ld_start l) + span gone \<and>
     event_offset pos = ld_offset l' \<and> head_within (unat (entry_start pos)) (unat (event_offset pos)) rest \<and>
     unat (ld_retained l') = retained rest \<and> cache_kept X s all l' \<and>
     ld_first l' = (case ld_first l of None \<Rightarrow> Some (snd (hd es)) | Some f \<Rightarrow> Some f)"

lemma head_within_start:
  assumes "\<forall>e \<in> set es. entry_ok X e"
  shows "head_within a a es"
proof (cases es)
  case (Cons e es')
  moreover obtain enc c where "e = (enc, c)" by fastforce
  ultimately show ?thesis using assms change_ok_magnitudes(2) [of "ctx_arrow X" c] by (simp add: head_within_def entry_ok_def)
qed (simp add: head_within_def)

lemma at_head_entries: "at_head X s all es l \<Longrightarrow> \<forall>e \<in> set es. entry_ok X e"
  by (auto simp: at_head_def)

lemma run_done_left:
  assumes head: "at_head X s all ((enc, c) # es) l" and took: "took X n bs ds l l'"
    and pieces: "pieces_events X bs ds = take n (drop (unat (ld_offset l) - unat (ld_start l)) (change_events (ctx_arrow X) c))"
    and stop: "unat (ld_end l) = unat (ld_start l) + total_events c" and left: "left_entry (item_word enc) l l'"
    and kept: "cache_kept X s all l'" and first: "ld_first l' = (case ld_first l of None \<Rightarrow> Some c | Some f \<Rightarrow> Some f)"
  shows "run_done X s all ((enc, c) # es) l n [(enc, c)] es bs ds (position_at (ld_end l)) l'"
    "length (pieces_events X bs ds) = n" "n = total_events c - (unat (ld_offset l) - unat (ld_start l))"
proof -
  note facts = at_headD [OF head]
  show n: "n = total_events c - (unat (ld_offset l) - unat (ld_start l))"
    using took left stop facts(7,8) by (auto simp: took_def left_entry_def)
  then have whole: "take n (drop (unat (ld_offset l) - unat (ld_start l)) (change_events (ctx_arrow X) c)) =
      drop (unat (ld_offset l) - unat (ld_start l)) (change_events (ctx_arrow X) c)"
    by (simp add: change_events_length [OF facts(2)])
  show "length (pieces_events X bs ds) = n" using pieces n by (simp add: change_events_length [OF facts(2)])
  have "head_within (unat (ld_end l)) (unat (ld_end l)) es"
    by (rule head_within_start [of _ X]) (use at_head_entries [OF head] in simp)
  moreover have "unat (ld_retained l') = retained es"
    using head left entry_item(2) [OF facts(1)] by (simp add: at_head_def left_entry_def)
  ultimately show "run_done X s all ((enc, c) # es) l n [(enc, c)] es bs ds (position_at (ld_end l)) l'"
    using took pieces whole left kept first stop facts(7,8) n
    by (cases "ld_first l") (simp_all add: run_done_def left_entry_def keys_of_def position_at_def change_events_length [OF facts(2)])
qed

lemma run_done_same:
  assumes head: "at_head X s all ((enc, c) # es) l" and took: "took X n bs ds l l'"
    and pieces: "pieces_events X bs ds = take n (drop (unat (ld_offset l) - unat (ld_start l)) (change_events (ctx_arrow X) c))"
    and stop: "unat (ld_end l) = unat (ld_start l) + total_events c" and same: "same_entry l l'" "ld_offset l' < ld_end l"
    and kept: "cache_kept X s all l'" and first: "ld_first l' = (case ld_first l of None \<Rightarrow> Some c | Some f \<Rightarrow> Some f)"
  shows "run_done X s all ((enc, c) # es) l n [] ((enc, c) # es) bs ds \<lparr>entry_start = ld_start l, event_offset = ld_offset l'\<rparr> l'"
proof -
  note facts = at_headD [OF head]
  have lt: "unat (ld_offset l) + n < unat (ld_start l) + total_events c"
    using took same(2) stop by (simp add: took_def word_less_nat_alt)
  then have "n \<le> length (drop (unat (ld_offset l) - unat (ld_start l)) (change_events (ctx_arrow X) c))"
    using facts(7,8) by (simp add: change_events_length [OF facts(2)])
  then have "take n (drop (unat (ld_offset l) - unat (ld_start l)) (change_events (ctx_arrow X) c @ outbox_events (ctx_arrow X) es)) =
      take n (drop (unat (ld_offset l) - unat (ld_start l)) (change_events (ctx_arrow X) c))"
    by simp
  then show ?thesis
    using took pieces same head kept first lt facts(7)
    by (cases "ld_first l") (simp_all add: run_done_def same_entry_def keys_of_def at_head_def head_within_def took_def)
qed

lemma at_head_next:
  assumes head: "at_head X s all ((enc, c) # es) l" and took: "took X n bs ds l l'"
    and stop: "unat (ld_end l) = unat (ld_start l) + total_events c" and left: "left_entry (item_word enc) l l'"
    and more: "ld_event_budget l' \<noteq> 0" "ld_end l \<noteq> tail (ctx_before X)" and kept: "cache_kept X s all l'" and first: "ld_first l' \<noteq> None"
  shows "at_head X s all es l'"
proof -
  obtain pre where pre: "all = pre @ (enc, c) # es" "unat (ld_start l) = s + span pre" using head by (auto simp: at_head_def)
  have "es \<noteq> []" using more(2) stop pre head by (auto simp: at_head_def word_unat_eq_iff)
  moreover have "all = (pre @ [(enc, c)]) @ es" "unat (ld_start l') = s + span (pre @ [(enc, c)])"
    using pre left stop by (simp_all add: left_entry_def)
  moreover have "head_within (unat (ld_start l')) (unat (ld_offset l')) es"
    using head_within_start [of es X "unat (ld_end l)"] at_head_entries [OF head] left by (simp add: left_entry_def)
  moreover have "unat (ld_retained l') = retained es"
    using head left entry_item(2) [OF at_headD(1) [OF head]] by (simp add: at_head_def left_entry_def)
  moreover have "budgets_ok X l'"
    using took more(1) at_headD(10) [OF head] by (auto simp: took_def budgets_ok_def word_neq_0_conv)
  ultimately show ?thesis
    using head took left kept first unfolding at_head_def took_def left_entry_def by (intro conjI) auto
qed

lemma run_done_next:
  assumes one: "run_done X s all ((enc, c) # es) l n [(enc, c)] es bs ds (position_at (ld_end l)) l1"
    and whole: "length (pieces_events X bs ds) = n" "n = total_events c - (unat (ld_offset l) - unat (ld_start l))"
    and within: "unat (ld_start l) \<le> unat (ld_offset l)" "unat (ld_offset l) < unat (ld_start l) + total_events c" "change_ok (ctx_arrow X) c"
    and left: "left_entry (item_word enc) l l1" "unat (ld_end l) = unat (ld_start l) + total_events c"
    and rest: "run_done X s all es l1 m gone others bs' ds' pos l'"
  shows "run_done X s all ((enc, c) # es) l (n + m) ((enc, c) # gone) others (bs @ bs') (ds @ ds') pos l'"
proof -
  let ?k = "unat (ld_offset l) - unat (ld_start l)" and ?es = "outbox_events (ctx_arrow X)"
  have first: "ld_first l1 = (case ld_first l of None \<Rightarrow> Some c | Some f \<Rightarrow> Some f)" using one by (cases "ld_first l") (simp_all add: run_done_def)
  have took: "took X n bs ds l l1" "took X m bs' ds' l1 l'" using one rest by (simp_all add: run_done_def)
  then have pieces: "pieces_ok X bs ds" "pieces_ok X bs' ds'" by (simp_all add: took_def)
  have len: "length (change_events (ctx_arrow X) c) = total_events c" by (rule change_events_length [OF within(3)])
  have start: "ld_offset l1 = ld_start l1" "unat (ld_start l1) = unat (ld_start l) + total_events c" using left by (simp_all add: left_entry_def)
  have p1: "pieces_events X bs ds = drop ?k (change_events (ctx_arrow X) c)"
    using one whole(2) within len by (simp add: run_done_def)
  have p2: "pieces_events X bs' ds' = take m (?es es)" using rest start(1) by (simp add: run_done_def)
  have "pieces_events X (bs @ bs') (ds @ ds') = take (n + m) (drop ?k (?es ((enc, c) # es)))"
    using whole within len by (simp add: pieces_append(2) [OF pieces] p1 p2)
  moreover have "took X (n + m) (bs @ bs') (ds @ ds') l l'"
    using took pieces_append(1) [OF pieces] by (auto simp: took_def)
  moreover have "ld_first l' = (case ld_first l of None \<Rightarrow> Some (snd (hd ((enc, c) # es))) | Some f \<Rightarrow> Some f)"
    using rest first by (cases "ld_first l") (simp_all add: run_done_def)
  ultimately show ?thesis
    using rest left(1) start(2) unfolding run_done_def by (intro conjI) (auto simp: keys_of_def left_entry_def)
qed

lemma run_done_cache: "run_done X s all es (l\<lparr>ld_cache := k, ld_end := e\<rparr>) = run_done X s all es l"
  by (intro ext) (simp add: run_done_def took_def)

lemma wp_bind_fun: "wp (sem_bind m f) Q R = wp m (\<lambda>a. wp (f a) Q R) R"
  by (rule ext) simp

lemma wp_second:
  "wp m (\<lambda>a l'. Q a (r, l')) (\<lambda>e l'. R e (r, l')) l \<Longrightarrow> wp (\<lambda>(r, l). case m l of (res, l') \<Rightarrow> (res, (r, l'))) Q R (r, l)"
  by (simp add: wp_def split: prod.splits sum.splits)

text \<open>After one entry: the loop stops, or goes on with the entries behind it.\<close>

lemma wp_after_entry:
  assumes head: "at_head X s all ((enc, c) # es) l" and took: "took X n bs ds l l'"
    and pieces: "pieces_events X bs ds = take n (drop (unat (ld_offset l) - unat (ld_start l)) (change_events (ctx_arrow X) c))"
    and stop: "unat (ld_end l) = unat (ld_start l) + total_events c" and prog: "after_rows X (item_word enc) l prog l'"
    and kept: "cache_kept X s all l'" and first: "ld_first l' = (case ld_first l of None \<Rightarrow> Some c | Some f \<Rightarrow> Some f)"
    and Q: "\<And>n gone rest bs ds pos l'. run_done X s all ((enc, c) # es) l n gone rest bs ds pos l' \<Longrightarrow> Q pos (r, l')"
    and IH: "at_head X s all es l' \<Longrightarrow> unat (ld_event_budget l') < unat (ld_event_budget l) \<Longrightarrow>
      (\<And>n gone rest bs ds pos l''. run_done X s all es l' n gone rest bs ds pos l'' \<Longrightarrow> Q pos (r, l'')) \<Longrightarrow> wp m Q R (r, l')"
  shows "wp (case prog of Stop pos \<Rightarrow> sem_return pos | Continue \<Rightarrow> m) Q R (r, l')"
proof -
  note facts = at_headD [OF head]
  consider (left) "left_entry (item_word enc) l l'" "prog = Stop (position_at (ld_end l))"
    | (same) "same_entry l l'" "prog = Stop \<lparr>entry_start = ld_start l, event_offset = ld_offset l'\<rparr>" "ld_offset l' < ld_end l"
    | (on) "left_entry (item_word enc) l l'" "prog = Continue" "ld_event_budget l' \<noteq> 0" "ld_end l \<noteq> tail (ctx_before X)"
    using prog by (cases prog) (auto simp: after_rows_def)
  then show ?thesis
  proof cases
    case left
    then show ?thesis using Q [OF run_done_left(1) [OF head took pieces stop left(1) kept first]] by simp
  next
    case same
    then show ?thesis using Q [OF run_done_same [OF head took pieces stop same(1,3) kept first]] by simp
  next
    case on
    note one = run_done_left [OF head took pieces stop on(1) kept first]
    have "ld_first l' \<noteq> None" using first by (cases "ld_first l") simp_all
    note next_head = at_head_next [OF head took stop on(1,3,4) kept this]
    have "unat (ld_event_budget l') < unat (ld_event_budget l)" using took one(3) facts(7,8) by (simp add: took_def)
    then have "wp m Q R (r, l')"
      by (rule IH [OF next_head]) (rule Q, rule run_done_next [OF one facts(7,8,2) on(1) stop])
    then show ?thesis using on(2) by simp
  qed
qed

lemma wp_load_run:
  assumes laws: "engine_laws E V" "slice_laws (ctx_arrow X)" "context_ok X" and healthy: "\<not> ref_poisoned r"
    and stored: "stored_at V p s all (ref_view r)"
    and err: "\<And>e r' l'. \<not> engine_reliable E \<Longrightarrow> \<not> is_unwind e \<Longrightarrow> cache_kept X s all l' \<Longrightarrow> R e (r', l')"
  shows "at_head X s all es l \<Longrightarrow> unat (ld_event_budget l) < fuel \<Longrightarrow>
    (\<And>n gone rest bs ds pos l'. run_done X s all es l n gone rest bs ds pos l' \<Longrightarrow> Q pos (r, l')) \<Longrightarrow> wp (load_run E p X fuel) Q R (r, l)"
proof (induction es arbitrary: l fuel)
  case Nil
  then show ?case by (simp add: at_head_def)
next
  case (Cons e es)
  obtain enc c where e: "e = (enc, c)" by fastforce
  obtain f where f: "fuel = Suc f" using Cons.prems(2) by (cases fuel) auto
  note head = Cons.prems(1) [unfolded e] and post = Cons.prems(3) [unfolded e]
  note facts = at_headD [OF head]
  have val: "V (ref_view r) (p @ u64_to_be (ld_start l)) = Some enc"
    using stored facts(4) by (auto simp: stored_at_def)
  have "wp (load_entry E p X) (\<lambda>(item, c). wp (\<lambda>(r, l). case consume_entry X item c l of (res, l') \<Rightarrow> (res, (r, l')))
      (\<lambda>prog. wp (case prog of Stop pos \<Rightarrow> sem_return pos | Continue \<Rightarrow> load_run E p X f) Q R) R) R (r, l)"
  proof (rule wp_load_entry [OF laws(1) healthy head val])
    fix l1
    assume l1: "l1 = l\<lparr>ld_cache := ld_cache l1, ld_end := ld_end l1\<rparr>" and cached: "entry_cached X s all c l1"
      and stop: "unat (ld_end l1) = unat (ld_start l) + total_events c"
    have at1: "at_head X s all ((enc, c) # es) l1"
      using head entry_cached_kept [OF cached] by (subst l1) (auto simp: at_head_def budgets_ok_def cache_kept_def)
    have done1: "run_done X s all ((enc, c) # es) l1 = run_done X s all ((enc, c) # es) l" by (subst l1) (rule run_done_cache)
    have stop1: "unat (ld_end l1) = unat (ld_start l1) + total_events c" "ld_event_budget l1 = ld_event_budget l"
      using stop by (subst (2) l1, simp, subst l1, simp)
    have "wp (consume_entry X (item_word enc) c) (\<lambda>prog l'. wp (case prog of Stop pos \<Rightarrow> sem_return pos | Continue \<Rightarrow> load_run E p X f) Q R (r, l'))
        (\<lambda>e l'. R e (r, l')) l1"
    proof (rule wp_consume_entry [OF laws(2,3) at1 cached stop1(1)])
      fix n bs ds prog l'
      assume a: "took X n bs ds l1 l'"
        "pieces_events X bs ds = take n (drop (unat (ld_offset l1) - unat (ld_start l1)) (change_events (ctx_arrow X) c))"
        "cache_kept X s all l'" "after_rows X (item_word enc) l1 prog l'" "ld_first l' = (case ld_first l1 of None \<Rightarrow> Some c | Some f \<Rightarrow> Some f)"
      show "wp (case prog of Stop pos \<Rightarrow> sem_return pos | Continue \<Rightarrow> load_run E p X f) Q R (r, l')"
      proof (rule wp_after_entry [OF at1 a(1,2) stop1(1) a(4,3,5)])
        show "Q pos (r, l'')" if "run_done X s all ((enc, c) # es) l1 n gone rest bs ds pos l''" for n gone rest bs ds pos l''
          using that post by (simp add: done1)
        show "wp (load_run E p X f) Q R (r, l')" if "at_head X s all es l'" "unat (ld_event_budget l') < unat (ld_event_budget l1)"
          "\<And>n gone rest bs ds pos l''. run_done X s all es l' n gone rest bs ds pos l'' \<Longrightarrow> Q pos (r, l'')"
          by (rule Cons.IH [OF that(1) _ that(3)]) (use that(2) Cons.prems(2) stop1(2) f in simp_all)
      qed
    qed
    then show "(case (item_word enc, c) of (item, c) \<Rightarrow> wp (\<lambda>(r, l). case consume_entry X item c l of (res, l') \<Rightarrow> (res, (r, l')))
      (\<lambda>prog. wp (case prog of Stop pos \<Rightarrow> sem_return pos | Continue \<Rightarrow> load_run E p X f) Q R) R) (r, l1)"
      by (simp add: wp_second)
  qed (use err facts(9) in blast)
  then have "wp (sem_bind (load_entry E p X) (\<lambda>(item_bytes, c).
      sem_bind (\<lambda>(r, l). case consume_entry X item_bytes c l of (res, l') \<Rightarrow> (res, (r, l'))) (\<lambda>progress.
        case progress of Stop after_head \<Rightarrow> sem_return after_head | Continue \<Rightarrow> load_run E p X f))) Q R (r, l)"
    by (simp add: wp_bind_fun case_prod_unfold)
  moreover have "load_run E p X fuel (r, l) = sem_bind (load_entry E p X) (\<lambda>(item_bytes, c).
      sem_bind (\<lambda>(r, l). case consume_entry X item_bytes c l of (res, l') \<Rightarrow> (res, (r, l'))) (\<lambda>progress.
        case progress of Stop after_head \<Rightarrow> sem_return after_head | Continue \<Rightarrow> load_run E p X f)) (r, l)"
    using facts(6) by (subst f, subst load_run.simps, subst sem_bind_def) (auto simp: not_le)
  ultimately show ?case by (simp only: wp_def)
qed

section \<open>The loaded batch\<close>

definition concat_laws :: "'b load_context \<Rightarrow> bool" where
  "concat_laws X \<longleftrightarrow>
     (\<forall>bs b. ctx_concat X (codec_schema (ctx_codec X)) bs = Inr b \<longrightarrow>
        (\<forall>x \<in> set bs. batch_schema (ctx_arrow X) x = codec_schema (ctx_codec X) \<and> batch_decimals (ctx_arrow X) x = Inr ()) \<longrightarrow>
        batch_units (ctx_arrow X) b = concat (map (batch_units (ctx_arrow X)) bs) \<and>
        batch_schema (ctx_arrow X) b = codec_schema (ctx_codec X) \<and> batch_decimals (ctx_arrow X) b = Inr ())"

definition pending_of :: "'b load_context \<Rightarrow> buffer_state \<Rightarrow> 'b outbox \<Rightarrow> ('b \<times> bool) list" where
  "pending_of X b es =
     drop (unat (event_offset (head b)) - unat (entry_start (head b))) (outbox_events (ctx_arrow X) es)"

text \<open>
  The batch holds the next \<open>n\<close> events; \<open>gone\<close> are the entries it ends and \<open>rest\<close> the ones the state after it represents.
\<close>

definition delivers :: "'b load_context \<Rightarrow> 'b outbox \<Rightarrow> 'b loaded_batch \<Rightarrow> nat \<Rightarrow> 'b outbox \<Rightarrow> 'b outbox \<Rightarrow> bool" where
  "delivers X es b n gone rest \<longleftrightarrow>
     0 < n \<and> n \<le> unat (limit_events (ctx_limits X)) \<and> es = gone @ rest \<and>
     change_ok (ctx_arrow X) (delivery_change (loaded_delivery b)) \<and>
     change_events (ctx_arrow X) (delivery_change (loaded_delivery b)) = take n (pending_of X (ctx_before X) es) \<and>
     first_event_offset (loaded_delivery b) = event_offset (head (ctx_before X)) \<and>
     represents X (loaded_after b) rest \<and> tail (loaded_after b) = tail (ctx_before X) \<and>
     unat (event_offset (head (loaded_after b))) = unat (event_offset (head (ctx_before X))) + n \<and>
     unat (entry_start (head (loaded_after b))) = unat (entry_start (head (ctx_before X))) + span gone \<and>
     consumed_keys b = keys_of (unat (entry_start (head (ctx_before X)))) gone \<and> first_entry b = snd (hd es)"

lemma entries_change_ok: "\<forall>e \<in> set es. entry_ok X e \<Longrightarrow> \<forall>(enc, c) \<in> set es. change_ok (ctx_arrow X) c"
  by (auto simp: entry_ok_def)

lemma pending_length:
  assumes "represents X b es"
  shows "length (pending_of X b es) = unat (tail b) - unat (event_offset (head b))"
  using assms outbox_events_length [OF entries_change_ok, of es X]
  by (auto simp: pending_of_def represents_def head_within_def)

text \<open>The pending events of the state after a batch are the ones behind it.\<close>

lemma delivers_rest:
  assumes "represents X (ctx_before X) es" "delivers X es b n gone rest"
  shows "pending_of X (loaded_after b) rest = drop n (pending_of X (ctx_before X) es)"
proof -
  have span: "length (outbox_events (ctx_arrow X) gone) = span gone"
    using assms by (intro outbox_events_length) (auto simp: represents_def delivers_def entry_ok_def)
  have "unat (entry_start (head (loaded_after b))) \<le> unat (event_offset (head (loaded_after b)))"
    "unat (entry_start (head (ctx_before X))) \<le> unat (event_offset (head (ctx_before X)))"
    using assms by (auto simp: represents_def delivers_def head_within_def)
  then have "n + (unat (event_offset (head (ctx_before X))) - unat (entry_start (head (ctx_before X)))) =
      span gone + (unat (event_offset (head (loaded_after b))) - unat (entry_start (head (loaded_after b))))"
    and es: "es = gone @ rest"
    using assms(2) by (auto simp: delivers_def)
  then show ?thesis unfolding pending_of_def es drop_drop by (simp add: span)
qed

lemma pieces_change:
  assumes "context_ok X" "pieces_ok X bs ds" "ds \<noteq> []" "batch_units (ctx_arrow X) b = concat (map (batch_units (ctx_arrow X)) bs)"
    "batch_schema (ctx_arrow X) b = codec_schema (ctx_codec X)" "batch_decimals (ctx_arrow X) b = Inr ()"
  obtains c where "change_try_new (ctx_arrow X) b (map Some ds) = Inr c" "change_ok (ctx_arrow X) c"
    "change_events (ctx_arrow X) c = pieces_events X bs ds"
proof -
  have rows: "batch_rows (ctx_arrow X) b = length ds"
    using assms(2,4) length_batch_units [of "ctx_arrow X" b] by (simp add: pieces_ok_def)
  have "check_diffs 0 (map Some ds) = Inr ()" using assms(2) by (auto simp: check_diffs_Inr pieces_ok_def)
  moreover have "validate_schema (batch_schema (ctx_arrow X) b) = Inr ()"
    using assms(1,5) by (simp add: context_ok_def validate_schema_accepts)
  ultimately have new: "change_try_new (ctx_arrow X) b (map Some ds) = Inr \<lparr>records = b, diffs = map Some ds\<rparr>"
    using rows assms(3,6) by (simp add: change_try_new_def try_new_shape_def)
  show thesis
    by (rule that [OF new]) (use change_try_new_ok [OF new] assms(4) in
      \<open>simp_all add: change_events_def pieces_events_def diff_values_def diff_value_def comp_def\<close>)
qed

lemma event_count_ok:
  assumes "change_ok A c" "length (change_events A c) < 2 ^ 64"
  obtains w where "event_count c = Inr w" "unat w = length (change_events A c)"
  using assms change_events_length [OF assms(1)] by (auto simp: event_count_eq unat_of_nat)

lemma delivery_new_eq:
  assumes "change_ok A c" "0 < unat first" "unat first + length (change_events A c) < 2 ^ 64"
  shows "delivery_new c first = Inr \<lparr>delivery_change = c, first_event_offset = first\<rparr>"
proof -
  obtain w where w: "event_count c = Inr w" "unat w = length (change_events A c)"
    by (rule event_count_ok [OF assms(1)]) (use assms(3) in simp)
  have "0 < length (change_events A c)" unfolding change_events_length [OF assms(1)] by (rule change_ok_magnitudes(2) [OF assms(1)])
  then have "w \<noteq> 0" "first \<noteq> 0" using w(2) assms(2) by auto
  then show ?thesis using assms(3) w by (simp add: delivery_new_def checked_add_u64_None)
qed

lemma load_finish_ok:
  assumes ctx: "context_ok X" "concat_laws X" and rep: "represents X (ctx_before X) es" and es: "es \<noteq> []"
    and run: "run_done X s es es (loader_new X cache) n gone rest bs ds pos l"
    and joined: "\<And>m. ctx_concat X (codec_schema (ctx_codec X)) bs = Inl m \<Longrightarrow> length bs = 1"
  obtains b where "load_finish X l pos = Inr b" "delivers X es b n gone rest"
proof -
  let ?l = "loader_new X cache" and ?A = "ctx_arrow X" and ?b = "ctx_before X"
  have took: "took X n bs ds ?l l" using run by (simp add: run_done_def)
  have fields: "ld_offset ?l = event_offset (head ?b)" "ld_start ?l = entry_start (head ?b)" "ld_batches ?l = []" "ld_diffs ?l = []"
    "ld_delivered ?l = 0" "ld_keys ?l = []" "ld_first ?l = None" "ld_event_budget ?l = limit_events (ctx_limits X)"
    by (simp_all add: loader_new_def)
  have n: "0 < n" "n \<le> unat (limit_events (ctx_limits X))" using took fields by (auto simp: took_def unat_eq_0 [symmetric])
  have b: "ld_batches l = bs" "ld_diffs l = ds" "pieces_ok X bs ds" using took fields by (simp_all add: took_def)
  have ev: "pieces_events X bs ds = take n (pending_of X ?b es)" using run fields by (simp add: run_done_def pending_of_def)
  have off: "unat (ld_offset l) = unat (event_offset (head ?b)) + n" using took fields by (simp add: took_def)
  let ?after = "\<lparr>head = pos, tail = tail ?b, retained_bytes = ld_retained l\<rparr>"
  have split: "es = gone @ rest" using run by (simp add: run_done_def)
  have after: "represents X ?after rest"
    using run rep fields by (auto simp: run_done_def represents_def)
  have "unat (ld_offset l) \<le> unat (tail ?b)"
    using head_within_total [of "unat (entry_start pos)" "unat (event_offset pos)" rest X] after run
    by (simp add: represents_def run_done_def)
  then have len: "length (take n (pending_of X ?b es)) = n" using pending_length [OF rep] off by simp
  then have "pieces_events X bs ds \<noteq> []" using ev n by auto
  then have nonempty: "ds \<noteq> []" by (auto simp: pieces_events_def)
  then have "bs \<noteq> []" using b(3) by (auto simp: pieces_ok_def)
  have schemas: "\<forall>x \<in> set bs. batch_schema ?A x = codec_schema (ctx_codec X) \<and> batch_decimals ?A x = Inr ()" using b(3) by (simp add: pieces_ok_def)
  obtain batch where batch: "(case bs of [b] \<Rightarrow> Inr b
            | _ \<Rightarrow> map_sum (\<lambda>m. Other m None) id (ctx_concat X (codec_schema (ctx_codec X)) bs)) = Inr batch"
    "batch_units ?A batch = concat (map (batch_units ?A) bs)" "batch_schema ?A batch = codec_schema (ctx_codec X)" "batch_decimals ?A batch = Inr ()"
  proof (cases "length bs = 1")
    case True
    then obtain x where "bs = [x]" by (auto simp: length_Suc_conv)
    with schemas show thesis by (intro that [of x]) simp_all
  next
    case False
    then obtain x where x: "ctx_concat X (codec_schema (ctx_codec X)) bs = Inr x" using joined
      by (cases "ctx_concat X (codec_schema (ctx_codec X)) bs") auto
    have "(case bs of [b] \<Rightarrow> Inr b | _ \<Rightarrow> map_sum (\<lambda>m. Other m None) id (ctx_concat X (codec_schema (ctx_codec X)) bs)) = Inr x"
      using False x by (cases bs; cases "tl bs") auto
    then show thesis using ctx(2) x schemas by (intro that [of x]) (auto simp: concat_laws_def)
  qed
  obtain c where c: "change_try_new ?A batch (map Some ds) = Inr c" "change_ok ?A c" "change_events ?A c = pieces_events X bs ds"
    by (rule pieces_change [OF ctx(1) b(3) nonempty batch(2-4)])
  have first: "0 < unat (event_offset (head ?b))" using rep by (auto simp: represents_def head_within_def)
  have "delivery_new c (event_offset (head ?b)) = Inr \<lparr>delivery_change = c, first_event_offset = event_offset (head ?b)\<rparr>"
    by (rule delivery_new_eq [OF c(2) first]) (use c(3) ev len off unat_u64_less [of "ld_offset l"] in simp)
  moreover have "buffer_validate ?after = Inr ()" using represents_valid(1) [OF after] by (simp add: buffer_validate_def)
  moreover have "ld_first l = Some (snd (hd es))" using run fields by (simp add: run_done_def)
  ultimately have "load_finish X l pos =
      Inr \<lparr>loaded_delivery = \<lparr>delivery_change = c, first_event_offset = event_offset (head ?b)\<rparr>, loaded_after = ?after,
        first_entry = snd (hd es), consumed_keys = ld_keys l\<rparr>"
    using c(1) unfolding load_finish_def b(1,2) batch(1) by simp
  then show thesis
    by (rule that) (use n split c ev after off run fields in \<open>simp add: delivers_def run_done_def\<close>)
qed

definition cache_fits :: "'b load_context \<Rightarrow> nat \<Rightarrow> 'b outbox \<Rightarrow> 'b entry_cache option \<Rightarrow> bool" where
  "cache_fits X s es cache \<longleftrightarrow> (\<forall>k. cache = Some k \<longrightarrow> cache_matches X s es k)"

definition joins :: "'b load_context \<Rightarrow> bool" where
  "joins X \<longleftrightarrow> (\<forall>bs. \<exists>b. ctx_concat X (codec_schema (ctx_codec X)) bs = Inr b)"

lemma loader_new_at_head:
  assumes "context_ok X" "represents X (ctx_before X) es" "es \<noteq> []" "cache_fits X (unat (entry_start (head (ctx_before X)))) es cache"
  shows "at_head X (unat (entry_start (head (ctx_before X)))) es es (loader_new X cache)"
proof -
  have "0 < limit_events (ctx_limits X)"
    using assms(1) by (auto simp: context_ok_def limits_validate_def word_neq_0_conv split: if_splits)
  then show ?thesis
    using assms by (auto simp: at_head_def represents_def loader_new_def cache_kept_def cache_fits_def budgets_ok_def intro: exI [of _ "[]"])
qed

lemma wp_batch_load:
  fixes E :: "'s engine"
  assumes laws: "engine_laws E V" "slice_laws (ctx_arrow X)" "concat_laws X" "context_ok X"
    and healthy: "\<not> ref_poisoned r" "handle_token buffer = ref_token r"
    and rep: "represents X (ctx_before X) es" "es \<noteq> []"
    and stored: "stored_at V (data_prefix (data_id buffer)) (unat (entry_start (head (ctx_before X)))) es (ref_view r)"
    and cache: "cache_fits X (unat (entry_start (head (ctx_before X)))) es cache"
    and ok: "\<And>b n gone rest cache'. delivers X es b n gone rest \<Longrightarrow>
      cache_fits X (unat (entry_start (head (ctx_before X)))) es cache' \<Longrightarrow> Q b (r, cache')"
    and err: "\<And>e r' cache'. \<not> engine_reliable E \<or> \<not> joins X \<Longrightarrow> \<not> is_unwind e \<Longrightarrow>
      cache_fits X (unat (entry_start (head (ctx_before X)))) es cache' \<Longrightarrow> R e (r', cache')"
  shows "wp (batch_load E buffer X) Q R (r, cache)"
proof -
  let ?s = "unat (entry_start (head (ctx_before X)))" and ?p = "data_prefix (data_id buffer)"
  have bound: "bind_read buffer r = (Inr ?p, r)"
    using healthy by (simp add: bind_read_def ref_ensure_access_def sem_bind_def ref_ensure_healthy_def sem_return_def)
  have valid: "buffer_validate (ctx_before X) = Inr ()" "\<not> buffer_is_empty (ctx_before X)" "limits_validate (ctx_limits X) = Inr ()"
    using represents_valid [OF rep(1)] rep(2) laws(4) by (simp_all add: buffer_validate_def context_ok_def)
  let ?Q = "\<lambda>pos (r', l). (case load_finish X l pos of Inl e \<Rightarrow> R e (r', ld_cache l) | Inr b \<Rightarrow> Q b (r', ld_cache l))"
  have "wp (load_run E ?p X (Suc (unat (limit_events (ctx_limits X))))) ?Q (\<lambda>e (r', l). R e (r', ld_cache l)) (r, loader_new X cache)"
  proof (rule wp_load_run [OF laws(1,2,4) healthy(1) stored _ loader_new_at_head [OF laws(4) rep cache]])
    show "unat (ld_event_budget (loader_new X cache)) < Suc (unat (limit_events (ctx_limits X)))" by (simp add: loader_new_def)
  next
    fix n gone rest bs ds pos l
    assume run: "run_done X ?s es es (loader_new X cache) n gone rest bs ds pos l"
    then have kept: "cache_fits X ?s es (ld_cache l)" by (auto simp: run_done_def cache_kept_def cache_fits_def)
    have "?Q pos (r, l)"
    proof (cases "length bs \<noteq> 1 \<and> (\<exists>m. ctx_concat X (codec_schema (ctx_codec X)) bs = Inl m)")
      case True
      then obtain m where m: "ctx_concat X (codec_schema (ctx_codec X)) bs = Inl m" "length bs \<noteq> 1" by blast
      then have "\<not> joins X" unfolding joins_def by (metis sum.distinct(1))
      moreover have "ld_batches l = bs" using run by (simp add: run_done_def took_def loader_new_def)
      then have "load_finish X l pos = Inl (Other m None)" using m by (cases bs; cases "tl bs") (auto simp: load_finish_def)
      ultimately show ?thesis using err [of "Other m None" "ld_cache l" r] kept by simp
    next
      case False
      then obtain b where "load_finish X l pos = Inr b" "delivers X es b n gone rest"
        using load_finish_ok [OF laws(4,3) rep run] by blast
      then show ?thesis using ok kept by simp
    qed
    then show "(case (r, l) of (r', l) \<Rightarrow> case load_finish X l pos of Inl e \<Rightarrow> R e (r', ld_cache l) | Inr b \<Rightarrow> Q b (r', ld_cache l))"
      by simp
  qed (use err in \<open>auto simp: cache_kept_def cache_fits_def\<close>)
  then show ?thesis
    by (auto simp: wp_def batch_load_def valid op_store_def bound split: prod.splits sum.splits)
qed

end
