(* ===== verification/Sink_Buffered.thy ===== *)
theory Sink_Buffered
  imports Sink_Load Memory_Engine
begin

text \<open>
  The buffered sink shared by the external sinks: \<^verbatim>\<open>crates/operation/src/operation/sink/buffered/runtime.rs\<close>.

  The sink accepts changes into a durable outbox, loads bounded prefixes of it, hands them to its target and settles them. The
  trait \<^verbatim>\<open>RelationTarget\<close> is the record \<open>relation_target\<close>, its external system the component \<open>outside\<close> of the world. What the
  sink keeps in memory, the cached head entry and whether the outbox was validated since the sink was opened, is the rest of the
  world. The loop over the pages of the validation has fuel: every page but the last moves the expected start
  towards the tail, so one more than the tail is enough.
\<close>

section \<open>Definitions\<close>

definition MAX_BUFFERED_EVENTS :: u64 where
  "MAX_BUFFERED_EVENTS = 1048576"

definition MAX_RETAINED_BYTES :: u64 where
  "MAX_RETAINED_BYTES = 64 * 1024 * 1024"

definition MAX_DELIVERY_BYTES :: u64 where
  "MAX_DELIVERY_BYTES = 8 * 1024 * 1024"

definition BUFFER_VALIDATION_ITEMS :: nat where
  "BUFFER_VALIDATION_ITEMS = 256"

definition MAX_TARGET_BATCH_BYTES :: u64 where
  "MAX_TARGET_BATCH_BYTES = 8 * 1024 * 1024"

definition MAX_MUTATIONS_PER_BATCH :: u64 where
  "MAX_MUTATIONS_PER_BATCH = 1024"

record ('b, 'x) relation_target =
  target_event_bytes :: "'b change \<Rightarrow> nat \<Rightarrow> operation_error + u64"
  target_require_absent :: "('x, operation_error, unit) sem"
  target_initialize :: "('x, operation_error, unit) sem"
  target_deliver_prefix :: "'b delivery_batch \<Rightarrow> u64 \<Rightarrow> u64 \<times> 'b change \<Rightarrow> ('x, operation_error, unit) sem"

record ('b, 'x) buffered_sink =
  sink_arrow :: "'b arrow"
  sink_concat :: "schema \<Rightarrow> 'b list \<Rightarrow> string + 'b"
  sink_codec :: "'b sink_codec"
  sink_target :: "('b, 'x) relation_target"
  sink_control :: data_handle
  sink_buffer :: data_handle

record ('b, 'x) sink_world =
  head_cache :: "'b entry_cache option"
  recovered :: bool
  outside :: 'x

definition buffered_new :: "'x \<Rightarrow> ('b, 'x) sink_world" where
  "buffered_new x = \<lparr>head_cache = None, recovered = False, outside = x\<rparr>"

datatype 'b sink_pending =
    PendingInitialize bool
  | PendingLoaded buffer_state "'b loaded_batch"

fun fresh_initialization :: "'b sink_pending \<Rightarrow> bool" where
  "fresh_initialization (PendingInitialize fresh) = fresh"
| "fresh_initialization (PendingLoaded bef batch) = False"

record admission =
  admitted_change :: bytes
  admitted_item_bytes :: u64
  admitted_events :: u64

definition validate_capacity :: "buffer_state \<Rightarrow> operation_error + unit" where
  "validate_capacity b =
     (if pending_events b > MAX_BUFFERED_EVENTS \<or> retained_bytes b > MAX_RETAINED_BYTES
      then Inl (invalid ''buffer control state exceeds its capacity'') else Inr ())"

definition delivery_limits :: "u64 \<Rightarrow> load_limits" where
  "delivery_limits n =
     \<lparr>limit_events = n, limit_encoded_bytes = MAX_DELIVERY_BYTES, limit_item_bytes = MAX_DELIVERY_BYTES,
      limit_target_bytes = MAX_TARGET_BATCH_BYTES\<rparr>"

definition delivery_event_limit :: u64 where
  "delivery_event_limit = MAX_MUTATIONS_PER_BATCH"

definition fits_buffer :: "buffer_state \<Rightarrow> admission \<Rightarrow> bool" where
  "fits_buffer ready adm =
     (case checked_add_u64 (pending_events ready) (admitted_events adm) of
        None \<Rightarrow> False
      | Some waiting \<Rightarrow>
          (case checked_add_u64 (retained_bytes ready) (admitted_item_bytes adm) of
             None \<Rightarrow> False
           | Some bytes \<Rightarrow> bytes \<le> MAX_RETAINED_BYTES) \<and> waiting \<le> MAX_BUFFERED_EVENTS)"

fun validate_rows :: "('b, 'x) relation_target \<Rightarrow> 'b change \<Rightarrow> nat list \<Rightarrow> operation_error + unit" where
  "validate_rows T c [] = Inr ()"
| "validate_rows T c (row # rows) =
     (case target_event_bytes T c row of
        Inl e \<Rightarrow> Inl e
      | Inr n \<Rightarrow>
          if n = 0 then Inl (invalid ''target event byte charge must be nonzero'')
          else if n > MAX_TARGET_BATCH_BYTES then Inl (invalid ''one target mutation exceeds the target batch byte limit'')
          else validate_rows T c rows)"

definition validate_event_sizes :: "('b, 'x) buffered_sink \<Rightarrow> 'b change \<Rightarrow> operation_error + unit" where
  "validate_event_sizes S c = validate_rows (sink_target S) c [0..<num_rows (sink_arrow S) c]"

definition prepare_admission :: "('b, 'x) buffered_sink \<Rightarrow> 'b change \<Rightarrow> u64 \<Rightarrow> operation_error + admission" where
  "prepare_admission S c n =
     (if n = 0 then Inl (invalid ''Change contains no events'')
      else if n > MAX_BUFFERED_EVENTS then Inl (invalid ''Change exceeds the buffered-event capacity'')
      else (case validate_event_sizes S c of
        Inl e \<Rightarrow> Inl e
      | Inr _ \<Rightarrow>
          (case codec_encode_bounded (sink_codec S) c (unat MAX_DELIVERY_BYTES) of
             Inl e \<Rightarrow> Inl (OpCodec e)
           | Inr encoded \<Rightarrow>
               (case item_bytes_of encoded of
                  Inl e \<Rightarrow> Inl e
                | Inr item_bytes \<Rightarrow>
                    if item_bytes > MAX_DELIVERY_BYTES then Inl (invalid ''encoded Change exceeds the single-item byte capacity'')
                    else Inr \<lparr>admitted_change = encoded, admitted_item_bytes = item_bytes, admitted_events = n\<rparr>))))"

subsection \<open>Validation of the outbox\<close>

definition require_empty_range ::
  "'s engine \<Rightarrow> ('b, 'x) buffered_sink \<Rightarrow> u64 bound \<Rightarrow> u64 bound \<Rightarrow> ('s transaction_ref, operation_error, unit) sem" where
  "require_empty_range E S lo up =
     sem_bind (op_store (bind_read (sink_buffer S))) (\<lambda>p r.
       case map_scan E u64_key vec_value p lo up Ascending None \<lparr>max_items = 1, max_bytes = unat MAX_DELIVERY_BYTES\<rparr> r of
         (Inr page, r') \<Rightarrow>
           if page_entries page = [] then (Inr (), r')
           else (Inl (invalid ''buffer contains an entry outside its control-state range''), r')
       | (Inl (ItemTooLarge _ _), r') \<Rightarrow> (Inl (invalid ''buffer contains an entry outside its control-state range''), r')
       | (Inl e, r') \<Rightarrow> (Inl (boxed e), r'))"

definition require_empty_buffer :: "'s engine \<Rightarrow> ('b, 'x) buffered_sink \<Rightarrow> ('s transaction_ref, operation_error, unit) sem" where
  "require_empty_buffer E S = require_empty_range E S Unbounded Unbounded"

text \<open>One entry of a page: the expected start and the bytes so far, before and after it.\<close>

definition validate_entry ::
  "('b, 'x) buffered_sink \<Rightarrow> buffer_state \<Rightarrow> u64 \<times> bytes \<Rightarrow> u64 \<times> u64 \<Rightarrow> operation_error + u64 \<times> u64" where
  "validate_entry S st = (\<lambda>(start, encoded) (expected, bytes).
     if start \<noteq> expected then Inl (invalid ''buffer entry is missing'')
     else (case item_bytes_of encoded of
       Inl e \<Rightarrow> Inl e
     | Inr item_bytes \<Rightarrow>
         (case decode_entry encoded MAX_DELIVERY_BYTES (sink_codec S) of
            Inl e \<Rightarrow> Inl e
          | Inr c \<Rightarrow>
              (case validate_event_sizes S c of
                 Inl e \<Rightarrow> Inl e
               | Inr _ \<Rightarrow>
                   (case entry_end c start of
                      Inl e \<Rightarrow> Inl e
                    | Inr stop \<Rightarrow>
                        if stop - start > MAX_BUFFERED_EVENTS then Inl (invalid ''buffer entry exceeds the buffered-event capacity'')
                        else if stop > tail st \<or> start = entry_start (head st) \<and> event_offset (head st) \<ge> stop
                        then Inl (invalid ''buffer head or entry span does not match its Change'')
                        else (case checked_add_u64 bytes item_bytes of
                          None \<Rightarrow> Inl (invalid ''buffer retained-byte count exceeds u64'')
                        | Some summed \<Rightarrow>
                            if summed > retained_bytes st then Inl (invalid ''buffer contents exceed their control-state accounting'')
                            else Inr (stop, summed)))))))"

fun validate_entries ::
  "('b, 'x) buffered_sink \<Rightarrow> buffer_state \<Rightarrow> (u64 \<times> bytes) list \<Rightarrow> u64 \<times> u64 \<Rightarrow> operation_error + u64 \<times> u64" where
  "validate_entries S st [] acc = Inr acc"
| "validate_entries S st (e # es) acc =
     (case validate_entry S st e acc of Inl err \<Rightarrow> Inl err | Inr acc' \<Rightarrow> validate_entries S st es acc')"

fun validate_pages ::
  "'s engine \<Rightarrow> ('b, 'x) buffered_sink \<Rightarrow> bytes \<Rightarrow> buffer_state \<Rightarrow> nat \<Rightarrow> u64 option \<Rightarrow> u64 \<times> u64 \<Rightarrow>
   ('s transaction_ref, operation_error, u64 \<times> u64) sem" where
  "validate_pages E S p st 0 resume acc = sem_throw (Unwind ''out of fuel'')"
| "validate_pages E S p st (Suc fuel) resume acc = (\<lambda>r.
     case map_scan E u64_key vec_value p (Included (entry_start (head st))) (Excluded (tail st)) Ascending resume
         \<lparr>max_items = BUFFER_VALIDATION_ITEMS, max_bytes = unat MAX_DELIVERY_BYTES\<rparr> r of
       (Inl (ItemTooLarge _ _), r') \<Rightarrow> (Inl (invalid ''buffer entry exceeds the delivery byte limit''), r')
     | (Inl e, r') \<Rightarrow> (Inl (boxed e), r')
     | (Inr page, r') \<Rightarrow>
         if page_entries page = [] then (Inr acc, r')
         else (case validate_entries S st (page_entries page) acc of
           Inl e \<Rightarrow> (Inl e, r')
         | Inr acc' \<Rightarrow>
             (case continuation page of
                None \<Rightarrow> (Inr acc', r')
              | Some k \<Rightarrow> validate_pages E S p st fuel (Some k) acc' r')))"

declare validate_pages.simps [simp del]

definition validate_buffer :: "'s engine \<Rightarrow> ('b, 'x) buffered_sink \<Rightarrow> buffer_state \<Rightarrow> ('s transaction_ref, operation_error, unit) sem" where
  "validate_buffer E S st =
     (if buffer_is_empty st then require_empty_buffer E S
      else
        sem_bind (require_empty_range E S Unbounded (Excluded (entry_start (head st)))) (\<lambda>_.
        sem_bind (require_empty_range E S (Included (tail st)) Unbounded) (\<lambda>_.
        sem_bind (op_store (bind_read (sink_buffer S))) (\<lambda>p.
        sem_bind (validate_pages E S p st (Suc (unat (tail st))) None (entry_start (head st), 0)) (\<lambda>(expected, bytes).
          if expected \<noteq> tail st then sem_throw (invalid ''buffer entry is missing'')
          else if bytes \<noteq> retained_bytes st then sem_throw (invalid ''buffer contents do not match their control-state accounting'')
          else sem_return ())))))"

definition decode_restored ::
  "'s engine \<Rightarrow> ('b, 'x) buffered_sink \<Rightarrow> bool \<Rightarrow> bytes option \<Rightarrow> ('s transaction_ref, operation_error, control_state option) sem" where
  "decode_restored E S seen encoded =
     (case encoded of
        None \<Rightarrow> sem_bind (require_empty_buffer E S) (\<lambda>_. sem_return None)
      | Some bs \<Rightarrow>
          sem_bind (sem_lift (decode_control bs)) (\<lambda>st.
          sem_bind (case st of
              Initialize \<Rightarrow> require_empty_buffer E S
            | Ready ready \<Rightarrow>
                sem_bind (sem_lift (validate_capacity ready)) (\<lambda>_. if seen then sem_return () else validate_buffer E S ready)) (\<lambda>_.
            sem_return (Some st))))"

subsection \<open>The sink operation\<close>

definition read_control :: "'s engine \<Rightarrow> ('b, 'x) buffered_sink \<Rightarrow> ('s transaction, operation_error, bytes option) sem" where
  "read_control E S =
     op_store (sem_bind (bind_access (sink_control S)) (\<lambda>p. as_read (cell_get_bounded E vec_value p MAX_CONTROL_BYTES)))"

definition write_control :: "'s engine \<Rightarrow> ('b, 'x) buffered_sink \<Rightarrow> control_state \<Rightarrow> ('s transaction, operation_error, unit) sem" where
  "write_control E S st = op_store (sem_bind (bind_access (sink_control S)) (\<lambda>p. cell_set E vec_value p (encode_control st)))"

definition enqueue_ready ::
  "'s engine \<Rightarrow> ('b, 'x) buffered_sink \<Rightarrow> 'b change \<Rightarrow> buffer_state \<Rightarrow> ('s transaction, operation_error, bool) sem" where
  "enqueue_ready E S page ready =
     sem_bind (sem_lift (validate_capacity ready)) (\<lambda>_.
     sem_bind (sem_lift (event_count page)) (\<lambda>n.
       case checked_add_u64 (tail ready) n of
         None \<Rightarrow> sem_throw (invalid ''buffer event offset is exhausted'')
       | Some tl' \<Rightarrow>
           sem_bind (sem_lift (prepare_admission S page n)) (\<lambda>adm.
             if \<not> fits_buffer ready adm then sem_return False
             else
               let nxt = \<lparr>head = head ready, tail = tl', retained_bytes = retained_bytes ready + admitted_item_bytes adm\<rparr> in
               sem_bind (sem_lift (buffer_validate nxt)) (\<lambda>_.
               sem_bind (op_store (bind_access (sink_buffer S))) (\<lambda>p.
               sem_bind (op_store (as_read (map_get_bounded E u64_key vec_value p (tail ready) 0))) (\<lambda>old.
                 if old \<noteq> None then sem_throw (invalid ''outbox entry_start already exists'')
                 else
                   sem_bind (op_store (map_put E u64_key vec_value p (tail ready) (admitted_change adm))) (\<lambda>_.
                   sem_bind (write_control E S (Ready nxt)) (\<lambda>_. sem_return True))))))))"

definition buffered_enqueue ::
  "'s engine \<Rightarrow> ('b, 'x) buffered_sink \<Rightarrow> 'b change \<Rightarrow> ('s transaction, operation_error, bool) sem" where
  "buffered_enqueue E S page =
     (if codec_schema (sink_codec S) \<noteq> batch_schema (sink_arrow S) (records page)
      then sem_throw (invalid ''input Schema differs from the bound Schema'')
      else
        sem_bind (read_control E S) (\<lambda>encoded.
          case encoded of
            None \<Rightarrow> sem_return False
          | Some bs \<Rightarrow>
              sem_bind (sem_lift (decode_control bs)) (\<lambda>st.
                case st of Initialize \<Rightarrow> sem_return False | Ready ready \<Rightarrow> enqueue_ready E S page ready)))"

definition load_context_of :: "('b, 'x) buffered_sink \<Rightarrow> buffer_state \<Rightarrow> 'b load_context" where
  "load_context_of S ready =
     \<lparr>ctx_arrow = sink_arrow S, ctx_concat = sink_concat S, ctx_codec = sink_codec S,
      ctx_size_event = target_event_bytes (sink_target S), ctx_before = ready, ctx_limits = delivery_limits delivery_event_limit\<rparr>"

definition restored_state ::
  "'s engine \<Rightarrow> ('b, 'x) buffered_sink \<Rightarrow> bool \<Rightarrow> ('s transaction_ref, operation_error, control_state option) sem" where
  "restored_state E S seen =
     sem_bind (op_store (sem_bind (bind_read (sink_control S)) (\<lambda>p. cell_get_bounded E vec_value p MAX_CONTROL_BYTES)))
       (decode_restored E S seen)"

definition buffered_load ::
  "'s engine \<Rightarrow> ('b, 'x) buffered_sink \<Rightarrow> (('b, 'x) sink_world \<times> 's transaction_ref, operation_error, 'b sink_pending option) sem" where
  "buffered_load E S = (\<lambda>(w, r).
     case restored_state E S (recovered w) r of
       (Inl e, r') \<Rightarrow> (Inl e, (w, r'))
     | (Inr restored, r') \<Rightarrow>
         (let w' = w\<lparr>recovered := True\<rparr> in
          case restored of
            None \<Rightarrow> (Inr (Some (PendingInitialize True)), (w', r'))
          | Some Initialize \<Rightarrow> (Inr (Some (PendingInitialize False)), (w', r'))
          | Some (Ready ready) \<Rightarrow>
              if buffer_is_empty ready then (Inr None, (w', r'))
              else (case batch_load E (sink_buffer S) (load_context_of S ready) (r', head_cache w') of
                (res, (r'', cache)) \<Rightarrow> (map_sum id (\<lambda>batch. Some (PendingLoaded ready batch)) res, (w'\<lparr>head_cache := cache\<rparr>, r'')))))"

text \<open>A call of the target.\<close>

definition at_target :: "('x, operation_error, 'a) sem \<Rightarrow> (('b, 'x) sink_world, operation_error, 'a) sem" where
  "at_target m w = (case m (outside w) of (res, x) \<Rightarrow> (res, w\<lparr>outside := x\<rparr>))"

definition buffered_prepare ::
  "('b, 'x) buffered_sink \<Rightarrow> 'b sink_pending \<Rightarrow> (('b, 'x) sink_world, operation_error, bool) sem" where
  "buffered_prepare S pend =
     (if fresh_initialization pend then sem_bind (at_target (target_require_absent (sink_target S))) (\<lambda>_. sem_return True)
      else sem_return False)"

definition buffered_persist ::
  "'s engine \<Rightarrow> ('b, 'x) buffered_sink \<Rightarrow> 'b sink_pending \<Rightarrow> ('s transaction, operation_error, unit) sem" where
  "buffered_persist E S pend =
     (if \<not> fresh_initialization pend then sem_throw (invalid ''only fresh initialization requires persistence'')
      else
        sem_bind (read_control E S) (\<lambda>current.
          case current of
            Some bs \<Rightarrow>
              sem_bind (sem_lift (decode_control bs)) (\<lambda>st.
                case st of
                  Initialize \<Rightarrow> sem_return ()
                | Ready _ \<Rightarrow> sem_throw (invalid ''outbox front changed during initialization''))
          | None \<Rightarrow> write_control E S Initialize))"

definition buffered_deliver ::
  "('b, 'x) buffered_sink \<Rightarrow> 'b sink_pending \<Rightarrow> (('b, 'x) sink_world, operation_error, unit) sem" where
  "buffered_deliver S pend =
     at_target (case pend of
         PendingInitialize _ \<Rightarrow> target_initialize (sink_target S)
       | PendingLoaded bef batch \<Rightarrow>
           target_deliver_prefix (sink_target S) (loaded_delivery batch) (tail bef) (entry_start (head bef), first_entry batch))"

fun remove_entries :: "'s engine \<Rightarrow> bytes \<Rightarrow> u64 list \<Rightarrow> ('s transaction, operation_error, unit) sem" where
  "remove_entries E p [] = sem_return ()"
| "remove_entries E p (k # ks) =
     sem_bind (op_store (map_remove E u64_key p k)) (\<lambda>present.
       if present then remove_entries E p ks else sem_throw (invalid ''settled outbox entry is missing''))"

definition settle_loaded ::
  "'s engine \<Rightarrow> ('b, 'x) buffered_sink \<Rightarrow> buffer_state \<Rightarrow> 'b loaded_batch \<Rightarrow> buffer_state \<Rightarrow> ('s transaction, operation_error, buffer_state) sem" where
  "settle_loaded E S bef batch cur =
     sem_bind (sem_lift (validate_capacity cur)) (\<lambda>_.
       if head cur \<noteq> head bef \<or> tail cur < tail bef \<or> retained_bytes cur < retained_bytes bef
       then sem_throw (invalid ''outbox front changed during settlement'')
       else (case checked_sub_u64 (retained_bytes bef) (retained_bytes (loaded_after batch)) of
         None \<Rightarrow> sem_throw (invalid ''settlement retained-byte count underflow'')
       | Some consumed \<Rightarrow>
           (case checked_sub_u64 (retained_bytes cur) consumed of
              None \<Rightarrow> sem_throw (invalid ''settlement retained-byte count underflow'')
            | Some left \<Rightarrow>
                let nxt = \<lparr>head = head (loaded_after batch), tail = tail cur, retained_bytes = left\<rparr> in
                sem_bind (sem_lift (buffer_validate nxt)) (\<lambda>_.
                sem_bind (op_store (bind_access (sink_buffer S))) (\<lambda>p.
                sem_bind (remove_entries E p (consumed_keys batch)) (\<lambda>_. sem_return nxt))))))"

definition settle_state ::
  "'s engine \<Rightarrow> ('b, 'x) buffered_sink \<Rightarrow> 'b sink_pending \<Rightarrow> ('s transaction, operation_error, buffer_state) sem" where
  "settle_state E S pend =
     sem_bind (read_control E S) (\<lambda>encoded.
       case encoded of
         None \<Rightarrow> sem_throw (invalid ''outbox control is missing during settlement'')
       | Some bs \<Rightarrow>
           sem_bind (sem_lift (decode_control bs)) (\<lambda>cur.
           sem_bind (case (pend, cur) of
               (PendingInitialize _, Initialize) \<Rightarrow> sem_return buffer_EMPTY
             | (PendingLoaded bef batch, Ready ready) \<Rightarrow> settle_loaded E S bef batch ready
             | _ \<Rightarrow> sem_throw (invalid ''outbox front differs during settlement'')) (\<lambda>ready.
           sem_bind (write_control E S (Ready ready)) (\<lambda>_. sem_return ready))))"

definition keep_cache :: "buffer_state \<Rightarrow> 'b entry_cache option \<Rightarrow> 'b entry_cache option" where
  "keep_cache ready cache =
     (case cache of
        Some k \<Rightarrow> if cache_start k \<noteq> entry_start (head ready) \<or> buffer_is_empty ready then None else cache
      | None \<Rightarrow> None)"

definition buffered_settle ::
  "'s engine \<Rightarrow> ('b, 'x) buffered_sink \<Rightarrow> 'b sink_pending \<Rightarrow> (('b, 'x) sink_world \<times> 's transaction, operation_error, unit) sem" where
  "buffered_settle E S pend = (\<lambda>(w, t).
     case settle_state E S pend t of
       (Inl e, t') \<Rightarrow> (Inl e, (w, t'))
     | (Inr ready, t') \<Rightarrow> (Inr (), (w\<lparr>head_cache := keep_cache ready (head_cache w)\<rparr>, t')))"

definition buffered_operation ::
  "'s engine \<Rightarrow> ('b, 'x) buffered_sink \<Rightarrow> ('s, ('b, 'x) sink_world, 'b, 'b sink_pending) sink_operation" where
  "buffered_operation E S =
     \<lparr>sink_try_enqueue = (\<lambda>page (w, t). case buffered_enqueue E S page t of (res, t') \<Rightarrow> (res, (w, t'))),
      sink_load = buffered_load E S,
      sink_prepare_initialize = buffered_prepare S,
      sink_persist_initialize = (\<lambda>pend _. buffered_persist E S pend),
      sink_deliver = buffered_deliver S,
      sink_settle = buffered_settle E S\<rparr>"

section \<open>The outbox in the store\<close>

definition entry_key :: "nat \<Rightarrow> bytes" where
  "entry_key a = u64_to_be (word_of_nat a)"

definition buffer_map :: "nat \<Rightarrow> 'b outbox \<Rightarrow> bytes \<rightharpoonup> bytes" where
  "buffer_map s es = map_of (map (\<lambda>(a, enc, c). (entry_key a, enc)) (located s es))"

lemma entry_key_inject: "a < 2 ^ 64 \<Longrightarrow> b < 2 ^ 64 \<Longrightarrow> entry_key a = entry_key b \<longleftrightarrow> a = b"
  by (auto simp: entry_key_def word_of_nat_eq_iff take_bit_nat_eq_self_iff take_bit_nat_def)

lemma entry_key_unat [simp]: "entry_key (unat w) = u64_to_be w"
  by (simp add: entry_key_def)

definition totals_ok :: "'b outbox \<Rightarrow> bool" where
  "totals_ok es \<longleftrightarrow> (\<forall>(enc, c) \<in> set es. 0 < total_events c)"

lemma entries_totals: "\<forall>e \<in> set es. entry_ok X e \<Longrightarrow> totals_ok es"
  using change_ok_magnitudes(2) by (fastforce simp: totals_ok_def entry_ok_def)

lemma located_before:
  assumes "totals_ok es" "(a, enc, c) \<in> set (located s es)"
  shows "s \<le> a \<and> a < s + span es"
  using assms located_start [OF assms(2)] by (fastforce simp: totals_ok_def)

lemma buffer_map_None:
  assumes "totals_ok es" "s + span es < 2 ^ 64" "a < 2 ^ 64" "a < s \<or> s + span es \<le> a"
  shows "buffer_map s es (entry_key a) = None"
proof -
  have "entry_key a \<noteq> entry_key b" if "(b, enc, c) \<in> set (located s es)" for b enc c
    using located_before [OF assms(1) that] assms by (auto simp: entry_key_inject)
  then show ?thesis unfolding buffer_map_def map_of_eq_None_iff by fastforce
qed

lemma buffer_map_Cons:
  "buffer_map s ((enc, c) # es) = (buffer_map (s + total_events c) es)(entry_key s \<mapsto> enc)"
  by (simp add: buffer_map_def)

lemma buffer_map_Nil [simp]: "buffer_map s [] = Map.empty"
  by (simp add: buffer_map_def)

lemma buffer_map_append: "buffer_map s (es @ es') = buffer_map (s + span es) es' ++ buffer_map s es"
  by (simp add: buffer_map_def located_append)

lemma buffer_map_lookup:
  assumes "totals_ok es" "s + span es < 2 ^ 64" "(a, enc, c) \<in> set (located s es)"
  shows "buffer_map s es (entry_key a) = Some enc"
  using assms
proof (induction s es rule: located.induct)
  case (2 s e0 c0 es)
  have tot: "totals_ok es" "0 < total_events c0" using 2(2) by (auto simp: totals_ok_def)
  show ?case
  proof (cases "(a, enc, c) = (s, e0, c0)")
    case False
    then have mem: "(a, enc, c) \<in> set (located (s + total_events c0) es)" using 2(4) by auto
    with located_before [OF tot(1)] tot(2) 2(3) have "entry_key a \<noteq> entry_key s" by (fastforce simp: entry_key_inject)
    with 2(1) [OF tot(1) _ mem] 2(3) show ?thesis by (simp add: buffer_map_Cons)
  qed (simp add: buffer_map_Cons)
qed simp

lemma buffer_map_snoc:
  assumes "totals_ok es" "s + span es < 2 ^ 64"
  shows "buffer_map s (es @ [(enc, c)]) = (buffer_map s es)(entry_key (s + span es) \<mapsto> enc)"
  using buffer_map_None [OF assms(1,2,2)] by (auto simp: buffer_map_append buffer_map_Cons map_add_def fun_eq_iff split: option.splits)

lemma buffer_map_drop:
  assumes "totals_ok ((enc, c) # es)" "s + total_events c + span es < 2 ^ 64"
  shows "(buffer_map s ((enc, c) # es))(entry_key s := None) = buffer_map (s + total_events c) es"
proof -
  have "totals_ok es" "0 < total_events c" using assms(1) by (auto simp: totals_ok_def)
  then have "buffer_map (s + total_events c) es (entry_key s) = None" using assms(2) by (intro buffer_map_None) auto
  then show ?thesis by (auto simp: buffer_map_Cons)
qed

section \<open>The state of the sink\<close>

definition sink_start :: "control_state option \<Rightarrow> nat" where
  "sink_start cst = (case cst of Some (Ready st) \<Rightarrow> unat (entry_start (head st)) | _ \<Rightarrow> 1)"

definition within_capacity :: "buffer_state \<Rightarrow> bool" where
  "within_capacity st \<longleftrightarrow> pending_events st \<le> MAX_BUFFERED_EVENTS \<and> retained_bytes st \<le> MAX_RETAINED_BYTES"

text \<open>The contents \<open>m\<close> of the store hold the control state \<open>cst\<close> and the outbox \<open>es\<close>.\<close>

definition sink_holds :: "('b, 'x) buffered_sink \<Rightarrow> control_state option \<Rightarrow> 'b outbox \<Rightarrow> (bytes \<rightharpoonup> bytes) \<Rightarrow> bool" where
  "sink_holds S cst es m \<longleftrightarrow>
     m (data_prefix (data_id (sink_control S))) = map_option encode_control cst \<and>
     (\<forall>k. m (data_prefix (data_id (sink_buffer S)) @ k) = buffer_map (sink_start cst) es k) \<and>
     (case cst of
        Some (Ready st) \<Rightarrow>
          represents (load_context_of S st) st es \<and> within_capacity st \<and>
          (\<forall>(enc, c) \<in> set es. total_events c \<le> unat MAX_BUFFERED_EVENTS)
      | _ \<Rightarrow> es = [])"

definition sink_usable :: "('b, 'x) buffered_sink \<Rightarrow> 's transaction_ref \<Rightarrow> bool" where
  "sink_usable S r \<longleftrightarrow>
     \<not> ref_poisoned r \<and> handle_token (sink_control S) = ref_token r \<and> handle_token (sink_buffer S) = ref_token r \<and>
     data_id (sink_control S) \<noteq> data_id (sink_buffer S)"

lemma sink_usable_write: "sink_usable S (Write t) \<longleftrightarrow>
     \<not> poisoned t \<and> handle_token (sink_control S) = store_token t \<and> handle_token (sink_buffer S) = store_token t \<and>
     data_id (sink_control S) \<noteq> data_id (sink_buffer S)"
  by (simp add: sink_usable_def)

lemma control_apart:
  assumes "data_id (sink_control S) \<noteq> data_id (sink_buffer S)"
  shows "data_prefix (data_id (sink_buffer S)) @ k \<noteq> data_prefix (data_id (sink_control S))"
  using data_prefix_append [of "data_id (sink_buffer S)" k "data_id (sink_control S)" "[]"] assms by auto

lemma sink_control_decodes:
  assumes "sink_holds S (Some st) es m"
  shows "decode_control (encode_control st) = Inr st"
  using assms represents_valid(1) unfolding decode_control_iff by (cases st) (auto simp: sink_holds_def)

lemma wp_read_control:
  assumes "engine_laws E V" "sink_usable S (Write t)" "sink_holds S cst es (V (inner t))"
    and "Q (map_option encode_control cst) t" "\<And>e t'. \<not> engine_reliable E \<Longrightarrow> \<not> is_unwind e \<Longrightarrow> R e t'"
  shows "wp (read_control E S) Q R t"
proof -
  have dec: "decode_bounded_value vec_value (map_option encode_control cst) MAX_CONTROL_BYTES = Inr (map_option encode_control cst)"
    using encode_control_length by (cases cst) (simp_all add: decode_bounded_value_def vec_value_def not_less)
  have fault: "R (boxed e) t'" if "\<not> engine_reliable E" "is_storage e" for e t' by (rule assms(5) [OF that(1) boxed_storage [OF that(2)]])
  show ?thesis
    unfolding read_control_def wp_op_store wp_bind
    by (rule wp_bind_access_ok, use assms(2) in \<open>simp add: sink_usable_write\<close>, use assms(2) in \<open>simp add: sink_usable_write\<close>,
        unfold wp_as_read, rule wp_cell_get_bounded [OF assms(1)])
      (use assms(1-4) fault dec in \<open>auto simp: sink_holds_def sink_usable_write ref_fault_def\<close>)
qed

lemma wp_write_control:
  assumes "engine_laws E V" "sink_usable S (Write t)"
    and "\<And>t'. V (inner t') = (V (inner t))(data_prefix (data_id (sink_control S)) \<mapsto> encode_control cst) \<Longrightarrow> sink_usable S (Write t') \<Longrightarrow> Q () t'"
    and "\<And>e t'. \<not> engine_reliable E \<Longrightarrow> \<not> is_unwind e \<Longrightarrow> R e t'"
  shows "wp (write_control E S cst) Q R t"
proof -
  have fault: "R (boxed e) t'" if "\<not> engine_reliable E" "is_storage e" for e t' by (rule assms(4) [OF that(1) boxed_storage [OF that(2)]])
  show ?thesis
    unfolding write_control_def wp_op_store wp_bind
    by (rule wp_bind_access_ok, use assms(2) in \<open>simp add: sink_usable_write\<close>, use assms(2) in \<open>simp add: sink_usable_write\<close>,
        rule wp_cell_set [OF assms(1)])
      (use assms(2,3) fault in \<open>auto simp: sink_usable_write vec_value_def fault_def\<close>)
qed

section \<open>Accepting a change\<close>

text \<open>What the codec of changes promises: it decodes what it encoded.\<close>

definition codec_laws :: "'b sink_codec \<Rightarrow> bool" where
  "codec_laws C \<longleftrightarrow> (\<forall>c n bs. codec_encode_bounded C c n = Inr bs \<longrightarrow> length bs \<le> n \<and> codec_decode_owned C bs = Inr c)"

definition page_ok :: "('b, 'x) buffered_sink \<Rightarrow> 'b change \<Rightarrow> bool" where
  "page_ok S c \<longleftrightarrow> change_ok (sink_arrow S) c \<and> batch_decimals (sink_arrow S) (records c) = Inr ()"

lemma validate_rows_ok:
  "validate_rows T c rows = Inr () \<longleftrightarrow>
     (\<forall>row \<in> set rows. \<exists>n. target_event_bytes T c row = Inr n \<and> 0 < n \<and> n \<le> MAX_TARGET_BATCH_BYTES)"
  by (induction T c rows rule: validate_rows.induct) (auto simp: word_neq_0_conv split: sum.splits)

lemma validate_event_sizes_ok: "validate_event_sizes S c = Inr () \<longleftrightarrow> sizes_ok (load_context_of S st) c"
  unfolding validate_event_sizes_def validate_rows_ok
  by (auto simp: sizes_ok_def load_context_of_def delivery_limits_def)

lemma unat_pending: "represents X st es \<Longrightarrow> unat (pending_events st) = unat (tail st) - unat (event_offset (head st))"
  using head_within_total [of "unat (entry_start (head st))" "unat (event_offset (head st))" es X]
  by (simp add: pending_events_def represents_def unat_sub word_le_nat_alt)

lemma item_bytes_of_Inr: "item_bytes_of enc = Inr n \<Longrightarrow> unat n = entry_size enc"
  by (auto simp: item_bytes_of_def checked_add_u64_Some entry_size_def MAP_KEY_BYTES_def unat_of_nat u64_max_def split: if_splits option.splits)

lemma prepare_admission_Inr:
  assumes "prepare_admission S c n = Inr adm" "codec_laws (sink_codec S)" "page_ok S c"
    and "batch_schema (sink_arrow S) (records c) = codec_schema (sink_codec S)"
  shows "0 < n" "n \<le> MAX_BUFFERED_EVENTS" "admitted_events adm = n" "unat (admitted_item_bytes adm) = entry_size (admitted_change adm)"
    "entry_ok (load_context_of S st) (admitted_change adm, c)"
proof -
  obtain encoded item where a: "n \<noteq> 0" "\<not> n > MAX_BUFFERED_EVENTS" "validate_event_sizes S c = Inr ()"
    "codec_encode_bounded (sink_codec S) c (unat MAX_DELIVERY_BYTES) = Inr encoded" "item_bytes_of encoded = Inr item"
    "\<not> item > MAX_DELIVERY_BYTES" "adm = \<lparr>admitted_change = encoded, admitted_item_bytes = item, admitted_events = n\<rparr>"
    using assms(1) by (auto simp: prepare_admission_def split: if_splits sum.splits)
  have item: "unat item = entry_size encoded" by (rule item_bytes_of_Inr [OF a(5)])
  show "0 < n" "n \<le> MAX_BUFFERED_EVENTS" "admitted_events adm = n" "unat (admitted_item_bytes adm) = entry_size (admitted_change adm)"
    using a item by (simp_all add: word_neq_0_conv not_less)
  show "entry_ok (load_context_of S st) (admitted_change adm, c)"
    using a(3,4,6,7) assms(2-4) item validate_event_sizes_ok [of S c st]
    by (auto simp: entry_ok_def load_context_of_def delivery_limits_def codec_laws_def page_ok_def word_less_nat_alt not_less)
qed

lemma represents_context: "represents (load_context_of S st) b es = represents (load_context_of S st') b es"
  by (simp add: represents_def entry_ok_def sizes_ok_def load_context_of_def)

lemma entry_ok_context: "entry_ok (load_context_of S st) e = entry_ok (load_context_of S st') e"
  by (simp add: entry_ok_def sizes_ok_def load_context_of_def)

text \<open>Appending an entry to a represented outbox.\<close>

lemma represents_snoc:
  assumes rep: "represents X st es" and ok: "entry_ok X (enc, c)" and n: "unat tl' = unat (tail st) + total_events c"
    and bytes: "unat b' = unat (retained_bytes st) + entry_size enc"
  shows "represents X \<lparr>head = head st, tail = tl', retained_bytes = b'\<rparr> (es @ [(enc, c)])"
proof -
  have "0 < total_events c" using ok change_ok_magnitudes(2) by (auto simp: entry_ok_def)
  then have "head_within (unat (entry_start (head st))) (unat (event_offset (head st))) (es @ [(enc, c)])"
    using rep by (cases es) (auto simp: represents_def head_within_def)
  then show ?thesis using assms by (auto simp: represents_def)
qed

lemma fits_capacity:
  assumes "fits_buffer st adm" "represents X st es" "unat tl' = unat (tail st) + unat (admitted_events adm)"
  shows "within_capacity \<lparr>head = head st, tail = tl', retained_bytes = retained_bytes st + admitted_item_bytes adm\<rparr>"
    "unat (retained_bytes st + admitted_item_bytes adm) = unat (retained_bytes st) + unat (admitted_item_bytes adm)"
proof -
  obtain w b where w: "checked_add_u64 (pending_events st) (admitted_events adm) = Some w" "w \<le> MAX_BUFFERED_EVENTS"
    and b: "checked_add_u64 (retained_bytes st) (admitted_item_bytes adm) = Some b" "b \<le> MAX_RETAINED_BYTES"
    using assms(1) by (auto simp: fits_buffer_def split: option.splits)
  have eq: "b = retained_bytes st + admitted_item_bytes adm" using b(1) by (auto simp: checked_add_u64_def split: if_splits)
  then show "unat (retained_bytes st + admitted_item_bytes adm) = unat (retained_bytes st) + unat (admitted_item_bytes adm)"
    using b(1) by (simp add: checked_add_u64_Some)
  have le: "unat (event_offset (head st)) \<le> unat (tail st)"
    using head_within_total [of "unat (entry_start (head st))" "unat (event_offset (head st))" es X] assms(2) by (simp add: represents_def)
  have "unat w = unat tl' - unat (event_offset (head st))"
    using w(1) unat_pending [OF assms(2)] assms(3) le by (simp add: checked_add_u64_Some)
  then have "tl' - event_offset (head st) = w"
    using assms(3) le by (simp add: word_unat_eq_iff unat_sub word_le_nat_alt)
  then show "within_capacity \<lparr>head = head st, tail = tl', retained_bytes = retained_bytes st + admitted_item_bytes adm\<rparr>"
    using w(2) b(2) eq by (simp add: within_capacity_def pending_events_def)
qed

lemma invalid_calm [simp]: "\<not> is_unwind (invalid m)"
  by (simp add: invalid_def)

lemma event_count_calm: "event_count c = Inl e \<Longrightarrow> \<not> is_unwind e"
  by (auto simp: event_count_eq split: if_splits)

definition sizes_calm :: "('b, 'x) relation_target \<Rightarrow> bool" where
  "sizes_calm T \<longleftrightarrow> (\<forall>c row e. target_event_bytes T c row = Inl e \<longrightarrow> \<not> is_unwind e)"

lemma validate_rows_calm: "sizes_calm T \<Longrightarrow> validate_rows T c rows = Inl e \<Longrightarrow> \<not> is_unwind e"
  by (induction T c rows rule: validate_rows.induct) (auto simp: sizes_calm_def split: sum.splits if_splits)

lemma item_bytes_calm: "item_bytes_of enc = Inl e \<Longrightarrow> \<not> is_unwind e"
  by (auto simp: item_bytes_of_def split: option.splits if_splits)

lemma prepare_admission_calm: "sizes_calm (sink_target S) \<Longrightarrow> prepare_admission S c n = Inl e \<Longrightarrow> \<not> is_unwind e"
  by (auto simp: prepare_admission_def validate_event_sizes_def split: if_splits sum.splits dest: validate_rows_calm item_bytes_calm)

text \<open>The entry and the state after an accepted change.\<close>

definition accepts ::
  "('b, 'x) buffered_sink \<Rightarrow> 'b change \<Rightarrow> buffer_state \<Rightarrow> bytes \<Rightarrow> buffer_state \<Rightarrow> bool" where
  "accepts S page st enc st' \<longleftrightarrow>
     (\<exists>n tl' adm. event_count page = Inr n \<and> checked_add_u64 (tail st) n = Some tl' \<and> prepare_admission S page n = Inr adm \<and>
        fits_buffer st adm \<and> enc = admitted_change adm \<and>
        st' = \<lparr>head = head st, tail = tl', retained_bytes = retained_bytes st + admitted_item_bytes adm\<rparr>)"

lemma sink_holds_accept:
  assumes holds: "sink_holds S (Some (Ready st)) es m" and acc: "accepts S page st enc st'"
    and laws: "codec_laws (sink_codec S)" "page_ok S page" "batch_schema (sink_arrow S) (records page) = codec_schema (sink_codec S)"
    and ids: "data_id (sink_control S) \<noteq> data_id (sink_buffer S)"
  shows "sink_holds S (Some (Ready st')) (es @ [(enc, page)])
      (m(data_prefix (data_id (sink_buffer S)) @ u64_to_be (tail st) \<mapsto> enc,
         data_prefix (data_id (sink_control S)) \<mapsto> encode_control (Ready st')))"
    "m (data_prefix (data_id (sink_buffer S)) @ u64_to_be (tail st)) = None" "buffer_valid st'" "head st' = head st"
    "unat (tail st') = unat (tail st) + total_events page" "unat (retained_bytes st') = unat (retained_bytes st) + entry_size enc"
proof -
  obtain n tl' adm where a: "event_count page = Inr n" "checked_add_u64 (tail st) n = Some tl'" "prepare_admission S page n = Inr adm" "fits_buffer st adm"
    "enc = admitted_change adm" "st' = \<lparr>head = head st, tail = tl', retained_bytes = retained_bytes st + admitted_item_bytes adm\<rparr>"
    using acc by (auto simp: accepts_def)
  note adm = prepare_admission_Inr [OF a(3) laws]
  have rep: "represents (load_context_of S st) st es" and cap: "\<forall>(enc, c) \<in> set es. total_events c \<le> unat MAX_BUFFERED_EVENTS"
    using holds by (simp_all add: sink_holds_def)
  have n: "unat n = total_events page" using a(1) by (auto simp: event_count_eq unat_of_nat split: if_splits)
  have tl': "unat tl' = unat (tail st) + total_events page" using a(2) n by (simp add: checked_add_u64_Some)
  note fit = fits_capacity [OF a(4) rep, of tl']
  have bytes: "unat (retained_bytes st + admitted_item_bytes adm) = unat (retained_bytes st) + entry_size enc"
    using fit(2) tl' n adm(3,4) a(5) by simp
  have rep': "represents (load_context_of S st') st' (es @ [(enc, page)])"
    unfolding represents_context [of S st' _ _ st] unfolding a(6)
    by (rule represents_snoc [OF rep]) (use adm(5) [of st] a(5) tl' bytes in simp_all)
  then show "buffer_valid st'" by (rule represents_valid(1))
  show "head st' = head st" "unat (tail st') = unat (tail st) + total_events page"
    "unat (retained_bytes st') = unat (retained_bytes st) + entry_size enc"
    using tl' bytes by (simp_all add: a(6))
  let ?s = "unat (entry_start (head st))"
  have tail: "unat (tail st) = ?s + span es" and tot: "totals_ok es" using rep entries_totals by (auto simp: represents_def)
  have small: "?s + span es < 2 ^ 64" using tail unat_u64_less [of "tail st"] by simp
  have key: "u64_to_be (tail st) = entry_key (?s + span es)" using tail by (metis entry_key_unat)
  have buf: "m (data_prefix (data_id (sink_buffer S)) @ k) = buffer_map ?s es k" for k
    using holds by (simp add: sink_holds_def sink_start_def)
  show "m (data_prefix (data_id (sink_buffer S)) @ u64_to_be (tail st)) = None"
    unfolding buf key by (rule buffer_map_None [OF tot small small]) simp
  have "total_events page \<le> unat MAX_BUFFERED_EVENTS" using adm(2) n by (simp add: word_le_nat_alt)
  moreover have "within_capacity st'" using fit(1) tl' n adm(3) by (simp add: a(6))
  moreover have "data_prefix (data_id (sink_buffer S)) @ k \<noteq> data_prefix (data_id (sink_control S))" for k
    by (rule control_apart [OF ids])
  moreover have "sink_start (Some (Ready st')) = ?s" by (simp add: sink_start_def a(6))
  ultimately show "sink_holds S (Some (Ready st')) (es @ [(enc, page)])
      (m(data_prefix (data_id (sink_buffer S)) @ u64_to_be (tail st) \<mapsto> enc,
         data_prefix (data_id (sink_control S)) \<mapsto> encode_control (Ready st')))"
    using rep' cap buf by (auto simp: sink_holds_def buffer_map_snoc [OF tot small] key)
qed

lemma capacity_Inr: "within_capacity st \<Longrightarrow> validate_capacity st = Inr ()"
  by (simp add: within_capacity_def validate_capacity_def not_less)

lemma wp_enqueue_ready:
  assumes laws: "engine_laws E V" "codec_laws (sink_codec S)" "sizes_calm (sink_target S)" and usable: "sink_usable S (Write t)"
    and holds: "sink_holds S (Some (Ready st)) es (V (inner t))"
    and page: "page_ok S page" "batch_schema (sink_arrow S) (records page) = codec_schema (sink_codec S)"
    and accepted: "\<And>enc st' t'. accepts S page st enc st' \<Longrightarrow> sink_usable S (Write t') \<Longrightarrow>
      sink_holds S (Some (Ready st')) (es @ [(enc, page)]) (V (inner t')) \<Longrightarrow> Q True t'"
    and full: "\<forall>enc st'. \<not> accepts S page st enc st' \<Longrightarrow> Q False t"
    and err: "\<And>e t'. \<not> engine_reliable E \<or> (\<forall>enc st'. \<not> accepts S page st enc st') \<Longrightarrow> \<not> is_unwind e \<Longrightarrow> R e t'"
  shows "wp (enqueue_ready E S page st) Q R t"
proof -
  have cap: "validate_capacity st = Inr ()" using holds by (simp add: sink_holds_def capacity_Inr)
  have fault: "R (boxed e) t'" if "\<not> engine_reliable E" "is_storage e" for e t'
    by (rule err [OF _ boxed_storage [OF that(2)]]) (simp add: that(1))
  have facts: "\<not> poisoned t" "handle_token (sink_buffer S) = store_token t" and ids: "data_id (sink_control S) \<noteq> data_id (sink_buffer S)"
    using usable by (simp_all add: sink_usable_write)
  let ?p = "data_prefix (data_id (sink_buffer S))"
  have put: "wp (op_store (map_put E u64_key vec_value ?p (tail st) enc)) (\<lambda>_. wp (sem_bind (write_control E S (Ready st')) (\<lambda>_. sem_return True)) Q R) R t"
    if acc: "accepts S page st enc st'" for enc st'
  proof -
    note new = sink_holds_accept [OF holds acc laws(2) page ids]
    show ?thesis
      unfolding wp_op_store
    proof (rule wp_map_put [OF laws(1) facts(1)])
      fix q
      assume q: "V q = (V (inner t))(?p @ u64_to_be (tail st) \<mapsto> enc)"
      let ?t = "t\<lparr>inner := q, has_writes := True\<rparr>"
      have "wp (write_control E S (Ready st')) (\<lambda>_. Q True) R ?t"
        by (rule wp_write_control [OF laws(1)]) (use usable new q err accepted [OF acc] in \<open>auto simp: sink_usable_write\<close>)
      then show "wp (sem_bind (write_control E S (Ready st')) (\<lambda>_. sem_return True)) Q R ?t" by (simp add: wp_return_fun)
    qed (use fault in \<open>auto simp: u64_key_def vec_value_def\<close>)
  qed
  have checked: "wp (sem_bind (op_store (bind_access (sink_buffer S))) (\<lambda>p.
         sem_bind (op_store (as_read (map_get_bounded E u64_key vec_value p (tail st) 0))) (\<lambda>old.
           if old \<noteq> None then sem_throw (invalid ''outbox entry_start already exists'')
           else sem_bind (op_store (map_put E u64_key vec_value p (tail st) enc)) (\<lambda>_.
                sem_bind (write_control E S (Ready st')) (\<lambda>_. sem_return True))))) Q R t"
    if acc: "accepts S page st enc st'" for enc st'
  proof -
    note new = sink_holds_accept [OF holds acc laws(2) page ids]
    have "wp (as_read (map_get_bounded E u64_key vec_value ?p (tail st) 0)) (\<lambda>old t'. old = None \<and> t' = t) (\<lambda>e t'. \<not> engine_reliable E \<and> is_storage e) t"
      unfolding wp_as_read by (rule wp_map_get_bounded [OF laws(1)])
        (use facts new(2) in \<open>auto simp: u64_key_def decode_bounded_value_def\<close>)
    then show ?thesis
      unfolding wp_bind [of "op_store (bind_access h)" for h] wp_op_store
      by (intro wp_bind_access_ok facts) (use put [OF acc] fault in \<open>auto elim!: wp_mono\<close>)
  qed
  show ?thesis
  proof (cases "event_count page")
    case (Inr n)
    show ?thesis
    proof (cases "checked_add_u64 (tail st) n")
      case None
      then show ?thesis using err Inr by (simp add: enqueue_ready_def cap sem_lift_simps accepts_def)
    next
      case (Some tl')
      show ?thesis
      proof (cases "prepare_admission S page n")
        case (Inl e)
        then show ?thesis using err prepare_admission_calm [OF laws(3) Inl] Inr Some by (simp add: enqueue_ready_def cap sem_lift_simps accepts_def)
      next
        case adm: (Inr adm)
        show ?thesis
        proof (cases "fits_buffer st adm")
          case False
          then show ?thesis using full Inr Some adm by (simp add: enqueue_ready_def cap sem_lift_simps accepts_def)
        next
          case True
          let ?st' = "\<lparr>head = head st, tail = tl', retained_bytes = retained_bytes st + admitted_item_bytes adm\<rparr>"
          have acc: "accepts S page st (admitted_change adm) ?st'" using Inr Some adm True by (simp add: accepts_def)
          have "buffer_validate ?st' = Inr ()"
            using sink_holds_accept(3) [OF holds acc laws(2) page ids] by (simp add: buffer_validate_def)
          then show ?thesis
            using True Inr Some adm checked [OF acc] by (simp add: enqueue_ready_def cap sem_lift_simps)
        qed
      qed
    qed
  next
    case (Inl e)
    then show ?thesis using err event_count_calm [OF Inl] by (simp add: enqueue_ready_def cap sem_lift_simps accepts_def)
  qed
qed

definition acceptable :: "('b, 'x) buffered_sink \<Rightarrow> 'b change \<Rightarrow> control_state option \<Rightarrow> bool" where
  "acceptable S page cst \<longleftrightarrow>
     batch_schema (sink_arrow S) (records page) = codec_schema (sink_codec S) \<and>
     (\<exists>st enc st'. cst = Some (Ready st) \<and> accepts S page st enc st')"

lemma wp_buffered_enqueue:
  assumes laws: "engine_laws E V" "codec_laws (sink_codec S)" "sizes_calm (sink_target S)" and usable: "sink_usable S (Write t)"
    and holds: "sink_holds S cst es (V (inner t))" and page: "page_ok S page"
    and accepted: "\<And>st enc st' t'. cst = Some (Ready st) \<Longrightarrow> accepts S page st enc st' \<Longrightarrow> sink_usable S (Write t') \<Longrightarrow>
      sink_holds S (Some (Ready st')) (es @ [(enc, page)]) (V (inner t')) \<Longrightarrow> Q True t'"
    and full: "\<not> acceptable S page cst \<Longrightarrow> Q False t"
    and err: "\<And>e t'. \<not> engine_reliable E \<or> \<not> acceptable S page cst \<Longrightarrow> \<not> is_unwind e \<Longrightarrow> R e t'"
  shows "wp (buffered_enqueue E S page) Q R t"
proof (cases "batch_schema (sink_arrow S) (records page) = codec_schema (sink_codec S)")
  case True
  have "wp (read_control E S) (\<lambda>encoded. wp (case encoded of None \<Rightarrow> sem_return False
      | Some bs \<Rightarrow> sem_bind (sem_lift (decode_control bs)) (\<lambda>st.
          case st of Initialize \<Rightarrow> sem_return False | Ready ready \<Rightarrow> enqueue_ready E S page ready)) Q R) R t"
  proof (rule wp_read_control [OF laws(1) usable holds])
    have "wp (case st of Initialize \<Rightarrow> sem_return False | Ready ready \<Rightarrow> enqueue_ready E S page ready) Q R t" if "cst = Some st" for st
    proof (cases st)
      case (Ready ready)
      have "wp (enqueue_ready E S page ready) Q R t"
        by (rule wp_enqueue_ready [OF laws usable _ page True, where es = es]) (use Ready that holds accepted full err True in \<open>auto simp: acceptable_def\<close>)
      then show ?thesis by (simp add: Ready)
    qed (use full that in \<open>simp add: acceptable_def\<close>)
    then show "wp (case map_option encode_control cst of None \<Rightarrow> sem_return False
      | Some bs \<Rightarrow> sem_bind (sem_lift (decode_control bs)) (\<lambda>st.
          case st of Initialize \<Rightarrow> sem_return False | Ready ready \<Rightarrow> enqueue_ready E S page ready)) Q R t"
      using full sink_control_decodes [of S _ es] holds by (cases cst) (simp_all add: sem_lift_simps acceptable_def)
  qed (use err in auto)
  then show ?thesis using True by (simp add: buffered_enqueue_def)
next
  case False
  then show ?thesis using err by (simp add: buffered_enqueue_def acceptable_def)
qed

section \<open>Settling a delivery\<close>

lemma totals_Cons [simp]: "totals_ok ((enc, c) # es) \<longleftrightarrow> 0 < total_events c \<and> totals_ok es"
  by (auto simp: totals_ok_def)

lemma wp_remove_entries:
  assumes "engine_laws E V" and err: "\<And>e t'. \<not> engine_reliable E \<Longrightarrow> \<not> is_unwind e \<Longrightarrow> R e t'"
  shows "sink_usable S (Write t) \<Longrightarrow> \<forall>k. V (inner t) (p @ k) = buffer_map s (gone @ rest) k \<Longrightarrow> totals_ok (gone @ rest) \<Longrightarrow>
    s + span (gone @ rest) < 2 ^ 64 \<Longrightarrow>
    (\<And>t'. sink_usable S (Write t') \<Longrightarrow> \<forall>k. V (inner t') (p @ k) = buffer_map (s + span gone) rest k \<Longrightarrow>
      (\<And>k. (\<forall>j. k \<noteq> p @ j) \<Longrightarrow> V (inner t') k = V (inner t) k) \<Longrightarrow> Q () t') \<Longrightarrow>
    wp (remove_entries E p (keys_of s gone)) Q R t"
proof (induction s gone arbitrary: t rule: located.induct)
  case (1 s)
  then show ?case by (simp add: keys_of_def)
next
  case (2 s enc c gone)
  have keys: "keys_of s ((enc, c) # gone) = word_of_nat s # keys_of (s + total_events c) gone" by (simp add: keys_of_def)
  have key: "encode_key u64_key (word_of_nat s) = Inr (entry_key s)" by (simp add: u64_key_def entry_key_def)
  have present: "V (inner t) (p @ entry_key s) \<noteq> None" using 2(3) by (simp add: buffer_map_Cons)
  have tot: "totals_ok ((enc, c) # (gone @ rest))" "s + total_events c + span (gone @ rest) < 2 ^ 64" using 2(4,5) by (simp_all add: add.assoc)
  have "wp (map_remove E u64_key p (word_of_nat s)) (\<lambda>present. wp (if present then remove_entries E p (keys_of (s + total_events c) gone)
      else sem_throw (invalid ''settled outbox entry is missing'')) Q R) (\<lambda>e. R (boxed e)) t"
  proof (rule wp_map_remove [OF assms(1) _ key])
    show "\<not> poisoned t" using 2(2) by (simp add: sink_usable_write)
  next
    fix q
    assume q: "V q = (V (inner t))(p @ entry_key s := None)"
    let ?t = "t\<lparr>inner := q, has_writes := True\<rparr>"
    have "wp (remove_entries E p (keys_of (s + total_events c) gone)) Q R ?t"
    proof (rule 2(1))
      show "sink_usable S (Write ?t)" using 2(2) by (simp add: sink_usable_write)
      show "\<forall>k. V (inner ?t) (p @ k) = buffer_map (s + total_events c) (gone @ rest) k"
        using 2(3) by (simp add: q buffer_map_drop [OF tot, symmetric])
    qed (use tot 2(6) in \<open>auto simp: q add.assoc\<close>)
    then show "wp (if True then remove_entries E p (keys_of (s + total_events c) gone)
      else sem_throw (invalid ''settled outbox entry is missing'')) Q R ?t" by simp
  qed (use present err in \<open>auto simp: boxed_storage\<close>)
  then show ?case by (simp add: keys)
qed

lemma settled_state:
  assumes bef: "represents X bef es" "X = load_context_of S bef" and del: "delivers X es b n gone rest"
    and cur: "represents X cur (es @ new)" "head cur = head bef" "within_capacity cur"
  obtains left where "checked_sub_u64 (retained_bytes bef) (retained_bytes (loaded_after b)) = Some (retained_bytes bef - retained_bytes (loaded_after b))"
    "checked_sub_u64 (retained_bytes cur) (retained_bytes bef - retained_bytes (loaded_after b)) = Some left"
    "\<not> (head cur \<noteq> head bef \<or> tail cur < tail bef \<or> retained_bytes cur < retained_bytes bef)"
    "represents X \<lparr>head = head (loaded_after b), tail = tail cur, retained_bytes = left\<rparr> (rest @ new)"
    "within_capacity \<lparr>head = head (loaded_after b), tail = tail cur, retained_bytes = left\<rparr>"
    "unat left = retained (rest @ new)"
proof -
  have es: "es = gone @ rest" and after: "represents X (loaded_after b) rest"
    and start: "unat (entry_start (head (loaded_after b))) = unat (entry_start (head bef)) + span gone"
    and off: "unat (event_offset (head (loaded_after b))) = unat (event_offset (head bef)) + n"
    using del by (simp_all add: delivers_def bef(2) load_context_of_def)
  have r: "unat (retained_bytes bef) = retained gone + retained rest" "unat (retained_bytes (loaded_after b)) = retained rest"
    "unat (retained_bytes cur) = retained gone + retained rest + retained new"
    using bef(1) after cur(1) by (simp_all add: represents_def es)
  let ?used = "retained_bytes bef - retained_bytes (loaded_after b)"
  have used: "unat ?used = retained gone" using r by (simp add: unat_sub word_le_nat_alt)
  let ?left = "retained_bytes cur - ?used"
  have left: "unat ?left = retained (rest @ new)" using r used by (simp add: unat_sub word_le_nat_alt)
  let ?st = "\<lparr>head = head (loaded_after b), tail = tail cur, retained_bytes = ?left\<rparr>"
  have "head_within (unat (entry_start (head (loaded_after b)))) (unat (event_offset (head (loaded_after b)))) (rest @ new)"
  proof (cases rest)
    case Nil
    then have "event_offset (head (loaded_after b)) = entry_start (head (loaded_after b))"
      using after by (simp add: represents_def head_within_def word_unat_eq_iff)
    then show ?thesis using head_within_start [of new X] cur(1) Nil by (auto simp: represents_def)
  next
    case (Cons e rest')
    then show ?thesis using after by (simp add: represents_def head_within_def)
  qed
  then have rep: "represents X ?st (rest @ new)"
    using cur(1,2) start left after by (auto simp: represents_def es)
  have "unat (pending_events ?st) \<le> unat (pending_events cur)"
    unfolding unat_pending [OF rep] unat_pending [OF cur(1)] using off cur(2) by simp
  then have cap: "within_capacity ?st"
    using cur(3) left r by (simp add: within_capacity_def word_le_nat_alt)
  have tails: "unat (tail bef) \<le> unat (tail cur)" using bef(1) cur(1,2) by (simp add: represents_def)
  show thesis
    by (rule that [of ?left]) (use rep cap left r used tails cur(2) in \<open>auto simp: checked_sub_u64_def word_le_nat_alt word_less_nat_alt\<close>)
qed

definition loaded_from ::
  "('b, 'x) buffered_sink \<Rightarrow> buffer_state \<Rightarrow> 'b loaded_batch \<Rightarrow> 'b outbox \<Rightarrow> nat \<Rightarrow> 'b outbox \<Rightarrow> 'b outbox \<Rightarrow> bool" where
  "loaded_from S bef batch es n gone rest \<longleftrightarrow>
     represents (load_context_of S bef) bef es \<and> delivers (load_context_of S bef) es batch n gone rest"

lemma wp_settle_loaded:
  assumes laws: "engine_laws E V" and usable: "sink_usable S (Write t)" and from_bef: "loaded_from S bef batch es n gone rest"
    and holds: "sink_holds S (Some (Ready cur)) (es @ new) (V (inner t))" and front: "head cur = head bef"
    and ok: "\<And>left t'. sink_usable S (Write t') \<Longrightarrow>
      (\<And>m. m = (V (inner t'))(data_prefix (data_id (sink_control S)) \<mapsto>
          encode_control (Ready \<lparr>head = head (loaded_after batch), tail = tail cur, retained_bytes = left\<rparr>)) \<Longrightarrow>
        sink_holds S (Some (Ready \<lparr>head = head (loaded_after batch), tail = tail cur, retained_bytes = left\<rparr>)) (rest @ new) m) \<Longrightarrow>
      Q \<lparr>head = head (loaded_after batch), tail = tail cur, retained_bytes = left\<rparr> t'"
    and err: "\<And>e t'. \<not> engine_reliable E \<Longrightarrow> \<not> is_unwind e \<Longrightarrow> R e t'"
  shows "wp (settle_loaded E S bef batch cur) Q R t"
proof -
  let ?X = "load_context_of S bef" and ?p = "data_prefix (data_id (sink_buffer S))"
  have bef: "represents ?X bef es" and del: "delivers ?X es batch n gone rest" using from_bef by (simp_all add: loaded_from_def)
  have cur: "represents ?X cur (es @ new)" "within_capacity cur" "\<forall>(enc, c) \<in> set (es @ new). total_events c \<le> unat MAX_BUFFERED_EVENTS"
    and buf: "\<forall>k. V (inner t) (?p @ k) = buffer_map (unat (entry_start (head cur))) (es @ new) k"
    using holds by (auto simp: sink_holds_def sink_start_def represents_context [of S cur _ _ bef])
  have es: "es = gone @ rest" and start: "unat (entry_start (head (loaded_after batch))) = unat (entry_start (head bef)) + span gone"
    and keys: "consumed_keys batch = keys_of (unat (entry_start (head bef))) gone"
    using del by (simp_all add: delivers_def load_context_of_def)
  obtain left where left: "checked_sub_u64 (retained_bytes bef) (retained_bytes (loaded_after batch)) = Some (retained_bytes bef - retained_bytes (loaded_after batch))"
    "checked_sub_u64 (retained_bytes cur) (retained_bytes bef - retained_bytes (loaded_after batch)) = Some left"
    "\<not> (head cur \<noteq> head bef \<or> tail cur < tail bef \<or> retained_bytes cur < retained_bytes bef)"
    "represents ?X \<lparr>head = head (loaded_after batch), tail = tail cur, retained_bytes = left\<rparr> (rest @ new)"
    "within_capacity \<lparr>head = head (loaded_after batch), tail = tail cur, retained_bytes = left\<rparr>"
    by (rule settled_state [OF bef refl del cur(1) front cur(2)])
  let ?st = "\<lparr>head = head (loaded_after batch), tail = tail cur, retained_bytes = left\<rparr>"
  have valid: "buffer_validate ?st = Inr ()" using represents_valid(1) [OF left(4)] by (simp add: buffer_validate_def)
  have tot: "totals_ok (gone @ (rest @ new))" using cur(1) entries_totals [of "es @ new" ?X] by (simp add: represents_def es)
  have small: "unat (entry_start (head bef)) + span (gone @ (rest @ new)) < 2 ^ 64"
    using cur(1) unat_u64_less [of "tail cur"] front by (simp add: represents_def es add.assoc)
  have apart: "?p @ k \<noteq> data_prefix (data_id (sink_control S))" for k
    by (rule control_apart) (use usable in \<open>simp add: sink_usable_write\<close>)
  have "wp (remove_entries E ?p (consumed_keys batch)) (\<lambda>_. Q ?st) R t"
    unfolding keys
  proof (rule wp_remove_entries [OF laws err usable, where rest = "rest @ new"])
    fix t'
    assume u: "sink_usable S (Write t')"
      and b: "\<forall>k. V (inner t') (?p @ k) = buffer_map (unat (entry_start (head bef)) + span gone) (rest @ new) k"
    show "Q ?st t'"
    proof (rule ok [OF u])
      fix m
      assume "m = (V (inner t'))(data_prefix (data_id (sink_control S)) \<mapsto> encode_control (Ready ?st))"
      then show "sink_holds S (Some (Ready ?st)) (rest @ new) m"
        using b left(4,5) cur(3) apart start
        by (auto simp: sink_holds_def sink_start_def represents_context [of S ?st _ _ bef] es)
    qed
  qed (use buf front tot small in \<open>auto simp: es\<close>)
  then have "wp (sem_bind (op_store (bind_access (sink_buffer S))) (\<lambda>p.
      sem_bind (remove_entries E p (consumed_keys batch)) (\<lambda>_. sem_return ?st))) Q R t"
    unfolding wp_bind [of "op_store m" for m] wp_op_store
    by (intro wp_bind_access_ok) (use usable in \<open>auto simp: sink_usable_write wp_return_fun\<close>)
  then show ?thesis
    using left(1-3) valid capacity_Inr [OF cur(2)] by (simp add: settle_loaded_def sem_lift_simps)
qed

text \<open>What a settlement leaves: the pending delivery is the initialization, or a batch loaded from the same front.\<close>

definition settles ::
  "('b, 'x) buffered_sink \<Rightarrow> 'b sink_pending \<Rightarrow> control_state option \<Rightarrow> 'b outbox \<Rightarrow> control_state option \<Rightarrow> 'b outbox \<Rightarrow> nat \<Rightarrow> bool" where
  "settles S pend cst es cst' es' n \<longleftrightarrow>
     (case pend of
        PendingInitialize fresh \<Rightarrow> cst = Some Initialize \<and> es = [] \<and> cst' = Some (Ready buffer_EMPTY) \<and> es' = [] \<and> n = 0
      | PendingLoaded bef batch \<Rightarrow>
          (\<exists>cur st' old new gone rest. cst = Some (Ready cur) \<and> es = old @ new \<and> loaded_from S bef batch old n gone rest \<and>
             head cur = head bef \<and> cst' = Some (Ready st') \<and> es' = rest @ new \<and> head st' = head (loaded_after batch) \<and> tail st' = tail cur))"

definition pending_valid :: "('b, 'x) buffered_sink \<Rightarrow> 'b sink_pending \<Rightarrow> control_state option \<Rightarrow> 'b outbox \<Rightarrow> bool" where
  "pending_valid S pend cst es \<longleftrightarrow>
     (case pend of
        PendingInitialize fresh \<Rightarrow> cst = Some Initialize \<or> fresh \<and> cst = None
      | PendingLoaded bef batch \<Rightarrow>
          (\<exists>cur old new n gone rest. cst = Some (Ready cur) \<and> es = old @ new \<and> loaded_from S bef batch old n gone rest \<and> head cur = head bef))"

lemma sink_holds_empty:
  assumes "sink_holds S cst [] m" "cst = None \<or> cst = Some Initialize" "data_id (sink_control S) \<noteq> data_id (sink_buffer S)"
  shows "sink_holds S (Some (Ready buffer_EMPTY)) [] (m(data_prefix (data_id (sink_control S)) \<mapsto> encode_control (Ready buffer_EMPTY)))"
    "sink_holds S (Some Initialize) [] (m(data_prefix (data_id (sink_control S)) \<mapsto> encode_control Initialize))"
proof -
  have apart: "data_prefix (data_id (sink_buffer S)) @ k \<noteq> data_prefix (data_id (sink_control S))" for k
    by (rule control_apart [OF assms(3)])
  then show "sink_holds S (Some (Ready buffer_EMPTY)) [] (m(data_prefix (data_id (sink_control S)) \<mapsto> encode_control (Ready buffer_EMPTY)))"
    "sink_holds S (Some Initialize) [] (m(data_prefix (data_id (sink_control S)) \<mapsto> encode_control Initialize))"
    using assms(1) by (simp_all add: sink_holds_def represents_def buffer_EMPTY_def position_at_def head_within_def within_capacity_def
        pending_events_def)
qed

lemma wp_settle_state:
  assumes laws: "engine_laws E V" and usable: "sink_usable S (Write t)" and holds: "sink_holds S cst es (V (inner t))"
    and pend: "pending_valid S pend cst es"
    and ok: "\<And>st' es' n t'. settles S pend cst es (Some (Ready st')) es' n \<Longrightarrow> sink_usable S (Write t') \<Longrightarrow>
      sink_holds S (Some (Ready st')) es' (V (inner t')) \<Longrightarrow> Q st' t'"
    and err: "\<And>e t'. \<not> engine_reliable E \<or> cst = None \<Longrightarrow> \<not> is_unwind e \<Longrightarrow> R e t'"
  shows "wp (settle_state E S pend) Q R t"
proof -
  have fault: "R e t'" if "\<not> engine_reliable E" "\<not> is_unwind e" for e t' using err that by blast
  let ?rest = "\<lambda>cur. sem_bind (case (pend, cur) of
               (PendingInitialize _, Initialize) \<Rightarrow> sem_return buffer_EMPTY
             | (PendingLoaded bef batch, Ready ready) \<Rightarrow> settle_loaded E S bef batch ready
             | _ \<Rightarrow> sem_throw (invalid ''outbox front differs during settlement'')) (\<lambda>ready.
           sem_bind (write_control E S (Ready ready)) (\<lambda>_. sem_return ready))"
  have wr: "wp (sem_bind (write_control E S (Ready st')) (\<lambda>_. sem_return st')) Q R t1"
    if u: "sink_usable S (Write t1)" and s: "settles S pend cst es (Some (Ready st')) es' n"
      and h: "\<And>m. m = (V (inner t1))(data_prefix (data_id (sink_control S)) \<mapsto> encode_control (Ready st')) \<Longrightarrow> sink_holds S (Some (Ready st')) es' m"
    for st' t1 es' n
  proof -
    have "wp (write_control E S (Ready st')) (\<lambda>_. Q st') R t1"
      by (rule wp_write_control [OF laws u _ fault]) (use ok [OF s] h in auto)
    then show ?thesis by (simp add: wp_return_fun)
  qed
  have body: "wp (?rest cur) Q R t" if cur: "cst = Some cur" for cur
  proof (cases pend)
    case (PendingInitialize fresh)
    then have init: "cur = Initialize" "es = []" using pend holds cur by (auto simp: pending_valid_def sink_holds_def)
    have "wp (sem_bind (write_control E S (Ready buffer_EMPTY)) (\<lambda>_. sem_return buffer_EMPTY)) Q R t"
    proof (rule wr [OF usable])
      show "settles S pend cst es (Some (Ready buffer_EMPTY)) [] 0" by (simp add: settles_def PendingInitialize cur init)
      show "sink_holds S (Some (Ready buffer_EMPTY)) [] m"
        if "m = (V (inner t))(data_prefix (data_id (sink_control S)) \<mapsto> encode_control (Ready buffer_EMPTY))" for m
        unfolding that by (rule sink_holds_empty(1)) (use holds cur init usable in \<open>auto simp: sink_usable_write\<close>)
    qed
    then show ?thesis by (simp add: PendingInitialize init)
  next
    case (PendingLoaded bef batch)
    then obtain ready old new n gone rest where p: "cur = Ready ready" "es = old @ new" "loaded_from S bef batch old n gone rest" "head ready = head bef"
      using pend cur by (auto simp: pending_valid_def)
    have "wp (settle_loaded E S bef batch ready) (\<lambda>st'. wp (sem_bind (write_control E S (Ready st')) (\<lambda>_. sem_return st')) Q R) R t"
    proof (rule wp_settle_loaded [OF laws usable p(3) _ p(4) _ fault, where new = new])
      show "sink_holds S (Some (Ready ready)) (old @ new) (V (inner t))" using holds cur p by simp
      fix left t'
      let ?st = "\<lparr>head = head (loaded_after batch), tail = tail ready, retained_bytes = left\<rparr>"
      assume u: "sink_usable S (Write t')"
        and h: "\<And>m. m = (V (inner t'))(data_prefix (data_id (sink_control S)) \<mapsto> encode_control (Ready ?st)) \<Longrightarrow>
          sink_holds S (Some (Ready ?st)) (rest @ new) m"
      show "wp (sem_bind (write_control E S (Ready ?st)) (\<lambda>_. sem_return ?st)) Q R t'"
      proof (rule wr [OF u _ h])
        show "settles S pend cst es (Some (Ready ?st)) (rest @ new) n"
          using cur p unfolding settles_def PendingLoaded sink_pending.case by fastforce
      qed
    qed
    then show ?thesis by (simp add: PendingLoaded p(1))
  qed
  have "wp (read_control E S) (\<lambda>encoded. wp (case encoded of None \<Rightarrow> sem_throw (invalid ''outbox control is missing during settlement'')
       | Some bs \<Rightarrow> sem_bind (sem_lift (decode_control bs)) ?rest) Q R) R t"
  proof (rule wp_read_control [OF laws usable holds _ fault])
    show "wp (case map_option encode_control cst of None \<Rightarrow> sem_throw (invalid ''outbox control is missing during settlement'')
       | Some bs \<Rightarrow> sem_bind (sem_lift (decode_control bs)) ?rest) Q R t"
      using err body sink_control_decodes [of S _ es] holds by (cases cst) (simp_all add: sem_lift_simps)
  qed
  then show ?thesis by (simp add: settle_state_def)
qed

section \<open>Loading\<close>

text \<open>A read that succeeds leaves the transaction as it was.\<close>

definition reads :: "('s transaction_ref, 'e, 'a) sem \<Rightarrow> bool" where
  "reads m \<longleftrightarrow> (\<forall>r a r'. \<not> ref_poisoned r \<longrightarrow> m r = (Inr a, r') \<longrightarrow> r' = r)"

lemma readsD: "reads m \<Longrightarrow> \<not> ref_poisoned r \<Longrightarrow> m r = (Inr a, r') \<Longrightarrow> r' = r"
  by (simp add: reads_def)

named_theorems reads_intros \<open>operations that leave the transaction as it was\<close>

lemma reads_bind [reads_intros]: "reads m \<Longrightarrow> (\<And>a. reads (f a)) \<Longrightarrow> reads (sem_bind m f)"
  unfolding reads_def sem_bind_Inr by blast

lemma reads_pure [reads_intros]: "reads (sem_return a)" "reads (sem_throw e)" "reads (sem_lift res)"
  by (auto simp: reads_def sem_return_def sem_throw_def sem_lift_def)

lemma store_read_keeps:
  assumes "keeps_ref m" "poison_ok ref_poisoned m" "\<not> ref_poisoned r" "m r = (Inr a, r')"
  shows "r' = r"
proof -
  have "r' = r \<or> r' = ref_poison r" using assms(1,4) unfolding keeps_ref_def by (metis snd_conv)
  then show ?thesis using poison_okD [OF assms(2,4)] assms(3) by auto
qed

lemma reads_op_store [reads_intros]: "keeps_ref m \<Longrightarrow> poison_ok ref_poisoned m \<Longrightarrow> reads (op_store m)"
  unfolding reads_def op_store_def using store_read_keeps [of m]
  by (auto simp: apfst_def map_prod_def map_sum_Inr_iff split: prod.splits)

lemmas map_scan_keeps = store_read_keeps [OF keeps_ref_map_scan poison_ok_map_scan]

lemma reads_require_empty_range [reads_intros]: "reads (require_empty_range E S lo up)"
  unfolding require_empty_range_def
  by (intro reads_intros poison_intros) (auto simp: reads_def dest: map_scan_keeps split: prod.splits sum.splits store_error.splits if_splits)

lemma reads_validate_pages [reads_intros]: "reads (validate_pages E S p st fuel resume acc)"
proof (induction fuel arbitrary: resume acc)
  case (Suc fuel)
  show ?case
    unfolding reads_def
  proof (intro allI impI)
    fix r a r'
    assume healthy: "\<not> ref_poisoned r" and run: "validate_pages E S p st (Suc fuel) resume acc r = (Inr a, r')"
    then obtain page r1 where scan: "map_scan E u64_key vec_value p (Included (entry_start (head st))) (Excluded (tail st)) Ascending resume
         \<lparr>max_items = BUFFER_VALIDATION_ITEMS, max_bytes = unat MAX_DELIVERY_BYTES\<rparr> r = (Inr page, r1)"
      by (auto simp: validate_pages.simps split: prod.splits sum.splits store_error.splits)
    moreover have "r1 = r" by (rule map_scan_keeps [OF healthy scan])
    ultimately show "r' = r"
      using run healthy by (auto simp: validate_pages.simps dest: readsD [OF Suc] split: if_splits sum.splits option.splits)
  qed
qed (simp add: validate_pages.simps reads_intros)

lemma reads_validate_buffer [reads_intros]: "reads (validate_buffer E S st)"
  unfolding validate_buffer_def require_empty_buffer_def
  by (auto intro!: reads_intros poison_intros split: prod.split)

lemma reads_decode_restored [reads_intros]: "reads (decode_restored E S seen encoded)"
  unfolding decode_restored_def require_empty_buffer_def
  by (auto intro!: reads_intros poison_intros split: option.split control_state.split)

lemma decode_restored_result:
  assumes "decode_restored E S seen encoded r = (Inr c, r')"
  shows "c = (case encoded of None \<Rightarrow> None | Some bs \<Rightarrow> (case decode_control bs of Inr st \<Rightarrow> Some st | Inl e \<Rightarrow> None))"
  using assms by (auto simp: decode_restored_def sem_bind_Inr sem_return_def sem_lift_def split: option.splits sum.splits)

lemma restored_state_result:
  assumes "engine_laws E V" "sink_usable S r" "sink_holds S cst es (V (ref_view r))" "restored_state E S seen r = (Inr c, r')"
  shows "c = cst \<and> r' = r"
proof -
  have dec: "decode_bounded_value vec_value (map_option encode_control cst) MAX_CONTROL_BYTES = Inr (map_option encode_control cst)"
    using encode_control_length by (cases cst) (simp_all add: decode_bounded_value_def vec_value_def not_less)
  have "wp (op_store (sem_bind (bind_read (sink_control S)) (\<lambda>p. cell_get_bounded E vec_value p MAX_CONTROL_BYTES)))
      (\<lambda>v r1. v = map_option encode_control cst \<and> r1 = r) (\<lambda>_ _. True) r"
    unfolding wp_op_store wp_bind
    by (rule wp_bind_read_ok, use assms(2) in \<open>simp add: sink_usable_def\<close>, use assms(2) in \<open>simp add: sink_usable_def\<close>,
        rule wp_cell_get_bounded [OF assms(1)])
      (use assms(2,3) dec in \<open>auto simp: sink_holds_def sink_usable_def\<close>)
  then have run: "decode_restored E S seen (map_option encode_control cst) r = (Inr c, r')"
    using assms(4) by (auto simp: restored_state_def sem_bind_Inr wp_def)
  have "c = cst" using decode_restored_result [OF run] sink_control_decodes [of S _ es] assms(3) by (cases cst) auto
  moreover have "r' = r" using reads_decode_restored run assms(2) unfolding reads_def sink_usable_def by blast
  ultimately show ?thesis by simp
qed

end
