(* ===== verification/Sink_Session.thy ===== *)
theory Sink_Session
  imports Sink_Buffered
begin

text \<open>
  The life of a buffered sink: changes are accepted, prefixes of the outbox are loaded, delivered and settled, calls fail and are
  rolled back, and the sink is reopened, in any order that the runtime allows.

  \<open>sink_step\<close> is the step relation; a session also keeps the events accepted and settled since the sink was made, which no
  code reads. The invariant ties them to the store: the settled events are a prefix of the accepted ones, the outbox holds the
  rest, and a loaded batch is the next interval, numbered by its first event.
\<close>

section \<open>Loading\<close>

definition sink_env :: "('b, 'x) buffered_sink \<Rightarrow> bool" where
  "sink_env S \<longleftrightarrow>
     slice_laws (sink_arrow S) \<and> concat_laws (load_context_of S buffer_EMPTY) \<and> codec_laws (sink_codec S) \<and>
     schema_ok (codec_schema (sink_codec S)) \<and> sizes_calm (sink_target S)"

definition sink_cached :: "('b, 'x) buffered_sink \<Rightarrow> control_state option \<Rightarrow> 'b outbox \<Rightarrow> 'b entry_cache option \<Rightarrow> bool" where
  "sink_cached S cst es cache \<longleftrightarrow> cache_fits (load_context_of S buffer_EMPTY) (sink_start cst) es cache"

lemma cache_fits_context: "cache_fits (load_context_of S st) s es cache = cache_fits (load_context_of S st') s es cache"
  by (simp add: cache_fits_def cache_matches_def load_context_of_def)

lemma env_context:
  assumes "sink_env S"
  shows "slice_laws (ctx_arrow (load_context_of S st))" "concat_laws (load_context_of S st)" "context_ok (load_context_of S st)"
  using assms by (simp_all add: sink_env_def load_context_of_def concat_laws_def context_ok_def limits_validate_def delivery_limits_def
      delivery_event_limit_def MAX_MUTATIONS_PER_BATCH_def MAX_DELIVERY_BYTES_def MAX_TARGET_BATCH_BYTES_def)

lemma context_before [simp]: "ctx_before (load_context_of S st) = st" "ctx_arrow (load_context_of S st) = sink_arrow S"
  "limit_events (ctx_limits (load_context_of S st)) = 1024"
  by (simp_all add: load_context_of_def delivery_limits_def delivery_event_limit_def MAX_MUTATIONS_PER_BATCH_def)

lemma sink_holds_stored:
  assumes "sink_holds S (Some (Ready st)) es m"
  shows "stored_at (\<lambda>m. m) (data_prefix (data_id (sink_buffer S))) (unat (entry_start (head st))) es m"
proof -
  have rep: "represents (load_context_of S st) st es"
    and buf: "m (data_prefix (data_id (sink_buffer S)) @ k) = buffer_map (unat (entry_start (head st))) es k" for k
    using assms by (simp_all add: sink_holds_def sink_start_def)
  have "totals_ok es" "unat (entry_start (head st)) + span es < 2 ^ 64"
    using rep entries_totals unat_u64_less [of "tail st"] by (auto simp: represents_def)
  then show ?thesis
    using buffer_map_lookup [of es "unat (entry_start (head st))"] by (auto simp: stored_at_def buf entry_key_def [symmetric])
qed

definition load_outcome ::
  "('b, 'x) buffered_sink \<Rightarrow> control_state option \<Rightarrow> 'b outbox \<Rightarrow> 'b sink_pending option \<Rightarrow> bool" where
  "load_outcome S cst es out \<longleftrightarrow>
     (case out of
        None \<Rightarrow> es = [] \<and> (\<exists>st. cst = Some (Ready st))
      | Some (PendingInitialize fresh) \<Rightarrow> cst = (if fresh then None else Some Initialize)
      | Some (PendingLoaded bef batch) \<Rightarrow> cst = Some (Ready bef) \<and> (\<exists>n gone rest. loaded_from S bef batch es n gone rest))"

lemma buffered_load_ok:
  assumes laws: "engine_laws E V" "sink_env S" and usable: "sink_usable S r" and holds: "sink_holds S cst es (V (ref_view r))"
    and cached: "sink_cached S cst es (head_cache w)" and run: "buffered_load E S (w, r) = (res, (w', r'))"
  shows "outside w' = outside w" "sink_cached S cst es (head_cache w')" "res = Inr out \<Longrightarrow> load_outcome S cst es out"
proof -
  have "outside w' = outside w \<and> sink_cached S cst es (head_cache w') \<and> (\<forall>out. res = Inr out \<longrightarrow> load_outcome S cst es out)"
  proof (cases "restored_state E S (recovered w) r")
    case (Pair q r1)
    show ?thesis
    proof (cases q)
      case (Inl e)
      then show ?thesis using run cached Pair by (auto simp: buffered_load_def)
    next
      case (Inr c)
      then have c: "c = cst" "r1 = r" using restored_state_result [OF laws(1) usable holds] Pair by auto
      consider "cst = None" | "cst = Some Initialize" | st where "cst = Some (Ready st)" "buffer_is_empty st" |
        (full) st where "cst = Some (Ready st)" "\<not> buffer_is_empty st"
        by (metis control_state.exhaust option.exhaust)
      then show ?thesis
      proof cases
        case 1
        then show ?thesis using run cached Pair Inr c by (auto simp: buffered_load_def load_outcome_def)
      next
        case 2
        then show ?thesis using run cached Pair Inr c by (auto simp: buffered_load_def load_outcome_def)
      next
        case (3 st)
        then have "es = []" using holds represents_valid(2) by (auto simp: sink_holds_def)
        then show ?thesis using 3 run cached Pair Inr c by (auto simp: buffered_load_def load_outcome_def)
      next
        case (full st)
        let ?X = "load_context_of S st" and ?s = "unat (entry_start (head st))"
        have rep: "represents ?X st es" using holds full by (simp add: sink_holds_def)
        then have es: "es \<noteq> []" using represents_valid(2) full(2) by blast
        have stored: "stored_at V (data_prefix (data_id (sink_buffer S))) ?s es (ref_view r)"
          using sink_holds_stored [of S st es "V (ref_view r)"] holds full(1) by (simp add: stored_at_def)
        have fits_buffer: "cache_fits ?X ?s es (head_cache w)"
          using cached full(1) by (simp add: sink_cached_def sink_start_def cache_fits_context [of S st _ _ _ buffer_EMPTY])
        have "wp (batch_load E (sink_buffer S) ?X) (\<lambda>b (r2, k). (\<exists>n gone rest. loaded_from S st b es n gone rest) \<and> cache_fits ?X ?s es k)
            (\<lambda>e (r2, k). cache_fits ?X ?s es k) (r, head_cache w)"
          by (rule wp_batch_load [OF laws(1) env_context [OF laws(2)], where es = es])
            (use usable rep es stored fits_buffer in \<open>auto simp: sink_usable_def loaded_from_def\<close>)
        then have out: "case batch_load E (sink_buffer S) ?X (r, head_cache w) of
            (q, (r2, k)) \<Rightarrow> cache_fits ?X ?s es k \<and> (\<forall>b. q = Inr b \<longrightarrow> (\<exists>n gone rest. loaded_from S st b es n gone rest))"
          by (auto simp: wp_def split: prod.splits sum.splits)
        obtain q2 r2 k where b: "batch_load E (sink_buffer S) ?X (r, head_cache w) = (q2, (r2, k))" by (metis prod_cases3)
        then have "res = map_sum id (\<lambda>batch. Some (PendingLoaded st batch)) q2" "w' = w\<lparr>recovered := True, head_cache := k\<rparr>"
          using run Pair Inr c full by (auto simp: buffered_load_def)
        moreover have "cache_fits ?X ?s es k" "\<forall>b. q2 = Inr b \<longrightarrow> (\<exists>n gone rest. loaded_from S st b es n gone rest)"
          using out b by auto
        ultimately show ?thesis
          using full(1) by (auto simp: load_outcome_def sink_cached_def sink_start_def cache_fits_context [of S buffer_EMPTY _ _ _ st] map_sum_Inr_iff)
      qed
    qed
  qed
  then show "outside w' = outside w" "sink_cached S cst es (head_cache w')" "res = Inr out \<Longrightarrow> load_outcome S cst es out" by auto
qed

section \<open>Sessions\<close>

record ('s, 'b, 'x) sink_session =
  sess_world :: "('b, 'x) sink_world"
  sess_store :: "'s transaction"
  sess_pending :: "'b sink_pending option"
  sess_accepted :: "('b \<times> bool) list"
  sess_settled :: "('b \<times> bool) list"

definition batch_events :: "('b, 'x) buffered_sink \<Rightarrow> 'b sink_pending \<Rightarrow> ('b \<times> bool) list" where
  "batch_events S pend =
     (case pend of
        PendingInitialize fresh \<Rightarrow> []
      | PendingLoaded bef batch \<Rightarrow> change_events (sink_arrow S) (delivery_change (loaded_delivery batch)))"

text \<open>
  A step runs one operation against the contents of the store, which a read transaction \<open>r\<close> sees. A call that fails is rolled
  back: it leaves the store, and the runtime drops the pending delivery or keeps it. Reopening the sink loses what it has in memory.
\<close>

inductive sink_step ::
  "'s engine \<Rightarrow> ('s \<Rightarrow> (bytes \<rightharpoonup> bytes)) \<Rightarrow> ('b, 'x) buffered_sink \<Rightarrow> ('s, 'b, 'x) sink_session \<Rightarrow> ('s, 'b, 'x) sink_session \<Rightarrow> bool"
  for E V S where
  step_enqueue:
    "page_ok S page \<Longrightarrow> buffered_enqueue E S page (sess_store q) = (Inr taken, t) \<Longrightarrow>
     sink_step E V S q (q\<lparr>sess_store := t, sess_accepted := sess_accepted q @ (if taken then change_events (sink_arrow S) page else [])\<rparr>)"
| step_load:
    "sess_pending q = None \<Longrightarrow> \<not> ref_poisoned r \<Longrightarrow> ref_token r = store_token (sess_store q) \<Longrightarrow> V (ref_view r) = V (inner (sess_store q)) \<Longrightarrow>
     buffered_load E S (sess_world q, r) = (res, (w, r')) \<Longrightarrow>
     sink_step E V S q (q\<lparr>sess_world := w, sess_pending := (case res of Inl e \<Rightarrow> None | Inr out \<Rightarrow> out)\<rparr>)"
| step_prepare:
    "sess_pending q = Some pend \<Longrightarrow> buffered_prepare S pend (sess_world q) = (res, w) \<Longrightarrow> sink_step E V S q (q\<lparr>sess_world := w\<rparr>)"
| step_persist:
    "sess_pending q = Some pend \<Longrightarrow> buffered_persist E S pend (sess_store q) = (Inr (), t) \<Longrightarrow> sink_step E V S q (q\<lparr>sess_store := t\<rparr>)"
| step_deliver:
    "sess_pending q = Some pend \<Longrightarrow> buffered_deliver S pend (sess_world q) = (res, w) \<Longrightarrow> sink_step E V S q (q\<lparr>sess_world := w\<rparr>)"
| step_settle:
    "sess_pending q = Some pend \<Longrightarrow> buffered_settle E S pend (sess_world q, sess_store q) = (Inr (), (w, t)) \<Longrightarrow>
     sink_step E V S q (q\<lparr>sess_world := w, sess_store := t, sess_pending := None, sess_settled := sess_settled q @ batch_events S pend\<rparr>)"
| step_drop:
    "sink_step E V S q (q\<lparr>sess_pending := None\<rparr>)"
| step_reopen:
    "sink_step E V S q (q\<lparr>sess_world := buffered_new (outside (sess_world q)), sess_pending := None\<rparr>)"

definition session_start :: "('s \<Rightarrow> (bytes \<rightharpoonup> bytes)) \<Rightarrow> ('b, 'x) buffered_sink \<Rightarrow> ('s, 'b, 'x) sink_session \<Rightarrow> bool" where
  "session_start V S q \<longleftrightarrow>
     (\<exists>x. sess_world q = buffered_new x) \<and> sess_pending q = None \<and> sess_accepted q = [] \<and> sess_settled q = [] \<and>
     sink_usable S (Write (sess_store q)) \<and> V (inner (sess_store q)) (data_prefix (data_id (sink_control S))) = None \<and>
     (\<forall>k. V (inner (sess_store q)) (data_prefix (data_id (sink_buffer S)) @ k) = None)"

definition log_ok ::
  "('b, 'x) buffered_sink \<Rightarrow> control_state option \<Rightarrow> 'b outbox \<Rightarrow> ('b \<times> bool) list \<Rightarrow> ('b \<times> bool) list \<Rightarrow> bool" where
  "log_ok S cst es accepted settled \<longleftrightarrow>
     (case cst of
        Some (Ready st) \<Rightarrow>
          accepted = settled @ pending_of (load_context_of S st) st es \<and> unat (event_offset (head st)) = Suc (length settled)
      | _ \<Rightarrow> accepted = [] \<and> settled = [])"

definition sink_session_ok :: "('s \<Rightarrow> (bytes \<rightharpoonup> bytes)) \<Rightarrow> ('b, 'x) buffered_sink \<Rightarrow> ('s, 'b, 'x) sink_session \<Rightarrow> bool" where
  "sink_session_ok V S q \<longleftrightarrow>
     (\<exists>cst es. sink_usable S (Write (sess_store q)) \<and> sink_holds S cst es (V (inner (sess_store q))) \<and>
        sink_cached S cst es (head_cache (sess_world q)) \<and> (\<forall>pend. sess_pending q = Some pend \<longrightarrow> pending_valid S pend cst es) \<and>
        log_ok S cst es (sess_accepted q) (sess_settled q))"

lemma pending_context: "pending_of (load_context_of S st) b es = pending_of (load_context_of S st') b es"
  by (simp add: pending_of_def)

lemma pending_append:
  assumes "represents X b es" "head b' = head b"
  shows "pending_of X b' (es @ new) = pending_of X b es @ outbox_events (ctx_arrow X) new"
proof -
  have "length (outbox_events (ctx_arrow X) es) = span es"
    using assms(1) by (intro outbox_events_length entries_change_ok) (simp add: represents_def)
  then show ?thesis
    using head_within_total [of "unat (entry_start (head b))" "unat (event_offset (head b))" es X] assms
    by (simp add: pending_of_def represents_def)
qed

lemma delivers_count:
  assumes "represents X (ctx_before X) es" "delivers X es b n gone rest"
  shows "n \<le> length (pending_of X (ctx_before X) es)"
proof -
  have "represents X (loaded_after b) rest" using assms(2) by (simp add: delivers_def)
  then show ?thesis
    using head_within_total [of "unat (entry_start (head (loaded_after b)))" "unat (event_offset (head (loaded_after b)))" rest X] assms(2)
    unfolding pending_length [OF assms(1)] by (auto simp: represents_def delivers_def)
qed

lemma cache_fits_append: "cache_fits X s es cache \<Longrightarrow> cache_fits X s (es @ new) cache"
  by (auto simp: cache_fits_def cache_matches_def located_append)

lemma cache_fits_settled:
  assumes "cache_fits X s (gone @ rest) cache" "totals_ok (gone @ rest)" "unat (entry_start (head st)) = s + span gone"
  shows "cache_fits X (s + span gone) rest (keep_cache st cache)"
proof (cases "\<exists>k. cache = Some k \<and> cache_start k = entry_start (head st)")
  case True
  then obtain k where k: "cache = Some k" "cache_start k = entry_start (head st)" by blast
  have tot: "totals_ok gone" using assms(2) by (simp add: totals_ok_def)
  have "(unat (cache_start k), e, c) \<notin> set (located s gone)" for e c
    using located_before [OF tot, of "unat (cache_start k)" e c s] k(2) assms(3) by auto
  then have "cache_matches X (s + span gone) rest k"
    using assms(1) k(1) by (auto simp: cache_fits_def cache_matches_def located_append)
  then show ?thesis by (simp add: cache_fits_def keep_cache_def k(1))
next
  case False
  then show ?thesis by (cases cache) (auto simp: cache_fits_def keep_cache_def)
qed

text \<open>A pending batch holds the events behind the settled ones.\<close>

lemma pending_batch:
  assumes "log_ok S cst es accepted settled" "pending_valid S (PendingLoaded bef batch) cst es"
  obtains n where "0 < n" "n \<le> 1024" "first_event_offset (loaded_delivery batch) = event_offset (head bef)"
    "unat (event_offset (head bef)) = Suc (length settled)" "n + length settled \<le> length accepted"
    "change_events (sink_arrow S) (delivery_change (loaded_delivery batch)) = take n (drop (length settled) accepted)"
proof -
  obtain cur old new n gone rest where p: "cst = Some (Ready cur)" "es = old @ new" "loaded_from S bef batch old n gone rest" "head cur = head bef"
    using assms(2) by (auto simp: pending_valid_def)
  let ?X = "load_context_of S bef"
  have rep: "represents ?X (ctx_before ?X) old" and del: "delivers ?X old batch n gone rest" using p(3) by (simp_all add: loaded_from_def)
  have log: "accepted = settled @ pending_of ?X cur (old @ new)" "unat (event_offset (head cur)) = Suc (length settled)"
    using assms(1) p by (simp_all add: log_ok_def pending_context [of S cur _ _ bef])
  have split: "pending_of ?X cur (old @ new) = pending_of ?X bef old @ outbox_events (sink_arrow S) new"
    using pending_append [OF rep, of cur new] p(4) by simp
  have n: "n \<le> length (pending_of ?X bef old)" using delivers_count [OF rep del] by simp
  show thesis
    by (rule that [of n]) (use del log split n p(4) in \<open>simp_all add: delivers_def\<close>)
qed

section \<open>The invariant\<close>

lemma session_start_ok:
  assumes "session_start V S q"
  shows "sink_session_ok V S q"
  using assms unfolding sink_session_ok_def session_start_def
  by (intro exI [of _ None] exI [of _ "[]"])
    (auto simp: sink_holds_def sink_cached_def cache_fits_def buffered_new_def log_ok_def)

lemma enqueue_ok:
  assumes laws: "engine_laws E V" "sink_env S" and ok: "sink_session_ok V S q" and page: "page_ok S page"
    and run: "buffered_enqueue E S page (sess_store q) = (Inr taken, t)"
  shows "sink_session_ok V S (q\<lparr>sess_store := t, sess_accepted := sess_accepted q @ (if taken then change_events (sink_arrow S) page else [])\<rparr>)"
proof -
  obtain cst es where inv: "sink_usable S (Write (sess_store q))" "sink_holds S cst es (V (inner (sess_store q)))"
    "sink_cached S cst es (head_cache (sess_world q))" "\<forall>pend. sess_pending q = Some pend \<longrightarrow> pending_valid S pend cst es"
    "log_ok S cst es (sess_accepted q) (sess_settled q)"
    using ok by (auto simp: sink_session_ok_def)
  have env: "codec_laws (sink_codec S)" "sizes_calm (sink_target S)" using laws(2) by (simp_all add: sink_env_def)
  have "wp (buffered_enqueue E S page) (\<lambda>taken t. if taken
      then \<exists>st enc st'. cst = Some (Ready st) \<and> accepts S page st enc st' \<and> sink_usable S (Write t) \<and>
        sink_holds S (Some (Ready st')) (es @ [(enc, page)]) (V (inner t))
      else t = sess_store q) (\<lambda>_ _. True) (sess_store q)"
    by (rule wp_buffered_enqueue [OF laws(1) env inv(1,2) page]) auto
  then have out: "if taken then \<exists>st enc st'. cst = Some (Ready st) \<and> accepts S page st enc st' \<and> sink_usable S (Write t) \<and>
        sink_holds S (Some (Ready st')) (es @ [(enc, page)]) (V (inner t))
      else t = sess_store q"
    using run by (simp add: wp_def)
  show ?thesis
  proof (cases taken)
    case False
    then show ?thesis using out ok by (simp add: sink_session_ok_def)
  next
    case True
    then obtain st enc st' where n: "cst = Some (Ready st)" "accepts S page st enc st'" "sink_usable S (Write t)"
      "sink_holds S (Some (Ready st')) (es @ [(enc, page)]) (V (inner t))"
      using out by auto
    have front: "head st' = head st" using n(2) by (auto simp: accepts_def)
    have rep: "represents (load_context_of S st) st es" using inv(2) n(1) by (simp add: sink_holds_def)
    have "sink_cached S (Some (Ready st')) (es @ [(enc, page)]) (head_cache (sess_world q))"
      using inv(3) front by (simp add: sink_cached_def sink_start_def n(1) cache_fits_append)
    moreover have "log_ok S (Some (Ready st')) (es @ [(enc, page)]) (sess_accepted q @ change_events (sink_arrow S) page) (sess_settled q)"
      using inv(5) pending_append [OF rep front, of "[(enc, page)]"] front
      by (simp add: log_ok_def n(1) pending_context [of S st' _ _ st])
    moreover have "pending_valid S pend (Some (Ready st')) (es @ [(enc, page)])" if "sess_pending q = Some pend" for pend
    proof (cases pend)
      case (PendingInitialize fresh)
      then show ?thesis using inv(4) that n(1) by (auto simp: pending_valid_def)
    next
      case (PendingLoaded bef batch)
      have "pending_valid S pend cst es" using inv(4) that by blast
      then obtain old new m gone rest where "es = old @ new" "loaded_from S bef batch old m gone rest" "head st = head bef"
        by (auto simp: pending_valid_def PendingLoaded n(1))
      then show ?thesis unfolding pending_valid_def PendingLoaded sink_pending.case
        by (intro exI [of _ st'] exI [of _ old] exI [of _ "new @ [(enc, page)]"] exI [of _ m] exI [of _ gone] exI [of _ rest])
          (simp add: front)
    qed
    ultimately show ?thesis using n(3,4) True unfolding sink_session_ok_def
      by (intro exI [of _ "Some (Ready st')"] exI [of _ "es @ [(enc, page)]"]) simp
  qed
qed

lemma load_ok:
  assumes laws: "engine_laws E V" "sink_env S" and ok: "sink_session_ok V S q"
    and r: "\<not> ref_poisoned r" "ref_token r = store_token (sess_store q)" "V (ref_view r) = V (inner (sess_store q))"
    and run: "buffered_load E S (sess_world q, r) = (res, (w, r'))"
  shows "sink_session_ok V S (q\<lparr>sess_world := w, sess_pending := (case res of Inl e \<Rightarrow> None | Inr out \<Rightarrow> out)\<rparr>)"
proof -
  obtain cst es where inv: "sink_usable S (Write (sess_store q))" "sink_holds S cst es (V (inner (sess_store q)))"
    "sink_cached S cst es (head_cache (sess_world q))" "log_ok S cst es (sess_accepted q) (sess_settled q)"
    using ok by (auto simp: sink_session_ok_def)
  have usable: "sink_usable S r" using inv(1) r by (simp add: sink_usable_def)
  have holds: "sink_holds S cst es (V (ref_view r))" using inv(2) r by simp
  note out = buffered_load_ok [OF laws usable holds inv(3) run]
  have "pending_valid S pend cst es" if res: "res = Inr (Some pend)" for pend
  proof (cases pend)
    case (PendingInitialize fresh)
    then show ?thesis using out(3) [OF res] by (auto simp: load_outcome_def pending_valid_def split: if_splits)
  next
    case (PendingLoaded bef batch)
    then obtain n gone rest where "cst = Some (Ready bef)" "loaded_from S bef batch es n gone rest"
      using out(3) [OF res] by (auto simp: load_outcome_def)
    then show ?thesis unfolding pending_valid_def PendingLoaded sink_pending.case
      by (intro exI [of _ bef] exI [of _ es] exI [of _ "[]"] exI [of _ n] exI [of _ gone] exI [of _ rest]) simp
  qed
  then show ?thesis using inv out(2) unfolding sink_session_ok_def
    by (intro exI [of _ cst] exI [of _ es]) (auto split: sum.splits)
qed

lemma persist_ok:
  assumes laws: "engine_laws E V" and ok: "sink_session_ok V S q" and pend: "sess_pending q = Some pend"
    and run: "buffered_persist E S pend (sess_store q) = (Inr (), t)"
  shows "sink_session_ok V S (q\<lparr>sess_store := t\<rparr>)"
proof -
  obtain cst es where inv: "sink_usable S (Write (sess_store q))" "sink_holds S cst es (V (inner (sess_store q)))"
    "sink_cached S cst es (head_cache (sess_world q))" "\<forall>pend. sess_pending q = Some pend \<longrightarrow> pending_valid S pend cst es"
    "log_ok S cst es (sess_accepted q) (sess_settled q)"
    using ok by (auto simp: sink_session_ok_def)
  have fresh: "pend = PendingInitialize True" using run by (cases pend) (auto simp: buffered_persist_def sem_throw_def split: if_splits)
  then have cst: "cst = None \<or> cst = Some Initialize" using inv(4) pend by (auto simp: pending_valid_def)
  then have es: "es = []" using inv(2) by (auto simp: sink_holds_def)
  have ids: "data_id (sink_control S) \<noteq> data_id (sink_buffer S)" using inv(1) by (simp add: sink_usable_write)
  have "wp (read_control E S) (\<lambda>cur. wp (case cur of
            Some bs \<Rightarrow> sem_bind (sem_lift (decode_control bs)) (\<lambda>st.
                case st of Initialize \<Rightarrow> sem_return () | Ready _ \<Rightarrow> sem_throw (invalid ''outbox front changed during initialization''))
          | None \<Rightarrow> write_control E S Initialize)
      (\<lambda>_ t. sink_usable S (Write t) \<and> sink_holds S (Some Initialize) [] (V (inner t))) (\<lambda>_ _. True)) (\<lambda>_ _. True) (sess_store q)"
  proof (rule wp_read_control [OF laws inv(1,2)])
    show "wp (case map_option encode_control cst of
            Some bs \<Rightarrow> sem_bind (sem_lift (decode_control bs)) (\<lambda>st.
                case st of Initialize \<Rightarrow> sem_return () | Ready _ \<Rightarrow> sem_throw (invalid ''outbox front changed during initialization''))
          | None \<Rightarrow> write_control E S Initialize)
      (\<lambda>_ t. sink_usable S (Write t) \<and> sink_holds S (Some Initialize) [] (V (inner t))) (\<lambda>_ _. True) (sess_store q)"
    proof (cases cst)
      case None
      have "wp (write_control E S Initialize) (\<lambda>_ t. sink_usable S (Write t) \<and> sink_holds S (Some Initialize) [] (V (inner t))) (\<lambda>_ _. True) (sess_store q)"
        by (rule wp_write_control [OF laws inv(1)])
          (use sink_holds_empty(2) [of S cst "V (inner (sess_store q))"] inv(2) es cst ids in \<open>auto simp del: encode_control.simps\<close>)
      then show ?thesis by (simp add: None)
    next
      case (Some st)
      then show ?thesis using cst es inv(1,2) sink_control_decodes [of S Initialize es] by (simp add: sem_lift_simps del: encode_control.simps)
    qed
  qed auto
  then have "wp (buffered_persist E S pend) (\<lambda>_ t. sink_usable S (Write t) \<and> sink_holds S (Some Initialize) [] (V (inner t))) (\<lambda>_ _. True) (sess_store q)"
    by (simp add: buffered_persist_def fresh)
  then have "sink_usable S (Write t)" "sink_holds S (Some Initialize) [] (V (inner t))" using run by (simp_all add: wp_def)
  then show ?thesis
    using inv(3,5) cst pend fresh unfolding sink_session_ok_def
    by (intro exI [of _ "Some Initialize"] exI [of _ "[]"])
      (auto simp: es sink_cached_def sink_start_def pending_valid_def log_ok_def)
qed

lemma settle_ok:
  assumes laws: "engine_laws E V" and ok: "sink_session_ok V S q" and pend: "sess_pending q = Some pend"
    and run: "buffered_settle E S pend (sess_world q, sess_store q) = (Inr (), (w, t))"
  shows "sink_session_ok V S (q\<lparr>sess_world := w, sess_store := t, sess_pending := None, sess_settled := sess_settled q @ batch_events S pend\<rparr>)"
proof -
  obtain cst es where inv: "sink_usable S (Write (sess_store q))" "sink_holds S cst es (V (inner (sess_store q)))"
    "sink_cached S cst es (head_cache (sess_world q))" "pending_valid S pend cst es"
    "log_ok S cst es (sess_accepted q) (sess_settled q)"
    using ok pend by (auto simp: sink_session_ok_def)
  obtain st' where st: "settle_state E S pend (sess_store q) = (Inr st', t)" "w = (sess_world q)\<lparr>head_cache := keep_cache st' (head_cache (sess_world q))\<rparr>"
    using run by (auto simp: buffered_settle_def split: prod.splits sum.splits)
  have "wp (settle_state E S pend) (\<lambda>st' t. \<exists>es' n. settles S pend cst es (Some (Ready st')) es' n \<and> sink_usable S (Write t) \<and>
      sink_holds S (Some (Ready st')) es' (V (inner t))) (\<lambda>_ _. True) (sess_store q)"
    by (rule wp_settle_state [OF laws inv(1,2,4)]) auto
  then obtain es' n where out: "settles S pend cst es (Some (Ready st')) es' n" "sink_usable S (Write t)" "sink_holds S (Some (Ready st')) es' (V (inner t))"
    using st(1) by (auto simp: wp_def)
  have "sink_cached S (Some (Ready st')) es' (head_cache w) \<and> log_ok S (Some (Ready st')) es' (sess_accepted q) (sess_settled q @ batch_events S pend)"
  proof (cases pend)
    case (PendingInitialize fresh)
    then have "cst = Some Initialize" "es = []" "st' = buffer_EMPTY" "es' = []" using out(1) by (auto simp: settles_def)
    then show ?thesis
      using inv(3,5) st(2)
      by (auto simp: sink_cached_def cache_fits_def cache_matches_def keep_cache_def log_ok_def PendingInitialize batch_events_def
          pending_of_def buffer_EMPTY_def position_at_def split: option.splits)
  next
    case (PendingLoaded bef batch)
    then obtain cur old new gone rest where s: "cst = Some (Ready cur)" "es = old @ new" "loaded_from S bef batch old n gone rest" "head cur = head bef"
      "es' = rest @ new" "head st' = head (loaded_after batch)"
      using out(1) by (auto simp: settles_def)
    let ?X = "load_context_of S bef"
    have rep: "represents ?X (ctx_before ?X) old" and del: "delivers ?X old batch n gone rest" using s(3) by (simp_all add: loaded_from_def)
    have rep': "represents ?X (loaded_after batch) rest" and old: "old = gone @ rest"
      and start: "unat (entry_start (head (loaded_after batch))) = unat (entry_start (head cur)) + span gone"
      and off: "unat (event_offset (head (loaded_after batch))) = unat (event_offset (head cur)) + n"
      and ev: "batch_events S pend = take n (pending_of ?X bef old)"
      using del s(4) by (simp_all add: delivers_def PendingLoaded batch_events_def)
    have log: "sess_accepted q = sess_settled q @ pending_of ?X cur es" "unat (event_offset (head cur)) = Suc (length (sess_settled q))"
      using inv(5) by (simp_all add: log_ok_def s(1) pending_context [of S cur _ _ bef])
    have n: "n \<le> length (pending_of ?X bef old)" using delivers_count [OF rep del] by simp
    have "pending_of ?X cur es = pending_of ?X bef old @ outbox_events (sink_arrow S) new"
      using pending_append [OF rep, of cur new] s(2,4) by simp
    moreover have "pending_of ?X st' es' = drop n (pending_of ?X bef old) @ outbox_events (sink_arrow S) new"
      using pending_append [OF rep' s(6), of new] delivers_rest [OF rep del] s(5) by simp
    ultimately have "log_ok S (Some (Ready st')) es' (sess_accepted q) (sess_settled q @ batch_events S pend)"
      using log n off s(6) by (simp add: log_ok_def ev pending_context [of S st' _ _ bef])
    moreover have "totals_ok (gone @ rest @ new)"
      using inv(2) entries_totals [of es "load_context_of S cur"] by (simp add: sink_holds_def s(1,2) represents_def old)
    then have "cache_fits (load_context_of S buffer_EMPTY) (unat (entry_start (head cur)) + span gone) (rest @ new) (head_cache w)"
      using cache_fits_settled [of _ _ gone "rest @ new" _ st'] inv(3) start s(2,6)
      by (simp add: st(2) sink_cached_def sink_start_def s(1) old)
    then have "sink_cached S (Some (Ready st')) es' (head_cache w)"
      using start s(5,6) by (simp add: sink_cached_def sink_start_def)
    ultimately show ?thesis by simp
  qed
  then show ?thesis using out(2,3) unfolding sink_session_ok_def
    by (intro exI [of _ "Some (Ready st')"] exI [of _ es']) simp
qed

lemma target_keeps_cache:
  "buffered_prepare S pend w = (res, w') \<Longrightarrow> head_cache w' = head_cache w"
  "buffered_deliver S pend w = (res', w') \<Longrightarrow> head_cache w' = head_cache w"
  by (auto simp: buffered_prepare_def buffered_deliver_def at_target_def sem_bind_def sem_return_def split: if_splits prod.splits sum.splits)

lemma session_step:
  assumes "engine_laws E V" "sink_env S" "sink_step E V S q q'" "sink_session_ok V S q"
  shows "sink_session_ok V S q'"
  using assms(3,4)
proof (cases rule: sink_step.cases)
  case (step_enqueue page taken t)
  then show ?thesis using enqueue_ok [OF assms(1,2,4)] by simp
next
  case (step_load r res w r')
  then show ?thesis using load_ok [OF assms(1,2,4)] by simp
next
  case (step_prepare pend res w)
  then show ?thesis using assms(4) target_keeps_cache(1) unfolding sink_session_ok_def by fastforce
next
  case (step_persist pend t)
  then show ?thesis using persist_ok [OF assms(1,4)] by simp
next
  case (step_deliver pend res w)
  then show ?thesis using assms(4) target_keeps_cache(2) unfolding sink_session_ok_def by fastforce
next
  case (step_settle pend w t)
  then show ?thesis using settle_ok [OF assms(1,4)] by simp
next
  case step_drop
  then show ?thesis using assms(4) by (auto simp: sink_session_ok_def)
next
  case step_reopen
  then show ?thesis using assms(4) by (auto simp: sink_session_ok_def sink_cached_def cache_fits_def buffered_new_def)
qed

lemma session_reachable:
  assumes "engine_laws E V" "sink_env S" "session_start V S q" "(sink_step E V S)\<^sup>*\<^sup>* q q'"
  shows "sink_session_ok V S q'"
  using assms(4)
proof (induction rule: rtranclp_induct)
  case base
  show ?case by (rule session_start_ok [OF assms(3)])
next
  case (step y z)
  then show ?case by (blast intro: session_step [OF assms(1,2)])
qed

end
