(* ===== verification/Sink_Recovery.thy ===== *)
theory Sink_Recovery
  imports Sink_Session
begin

text \<open>
  Reopening a sink: the validation of the outbox accepts every outbox that the sink wrote, so that on a reliable engine a
  sink that has accepted events can always load and settle the next of them.
\<close>

section \<open>The outbox as a scan sees it\<close>

definition outbox_rows :: "nat \<Rightarrow> 'b outbox \<Rightarrow> (bytes \<times> bytes) list" where
  "outbox_rows s es = map (\<lambda>(a, enc, c). (entry_key a, enc)) (located s es)"

lemma entry_key_less: "a < 2 ^ 64 \<Longrightarrow> b < 2 ^ 64 \<Longrightarrow> entry_key a < entry_key b \<longleftrightarrow> a < b"
  by (simp add: entry_key_def u64_to_be_less_iff word_less_nat_alt unat_of_nat)

lemma located_sorted:
  assumes "totals_ok es" "s + span es < 2 ^ 64"
  shows "sorted_wrt (<) (map fst (outbox_rows s es))"
  using assms
proof (induction s es rule: located.induct)
  case (2 s enc c es)
  have tot: "totals_ok es" "0 < total_events c" "s + total_events c + span es < 2 ^ 64" using 2(2,3) by simp_all
  have "entry_key s < entry_key a" if "(a, e, d) \<in> set (located (s + total_events c) es)" for a e d
    using located_before [OF tot(1) that] tot(2,3) by (simp add: entry_key_less)
  then show ?case using 2(1) [OF tot(1,3)] by (auto simp: outbox_rows_def)
qed (simp add: outbox_rows_def)

lemma buffer_map_rows: "buffer_map s es = map_of (outbox_rows s es)"
  by (simp add: buffer_map_def outbox_rows_def)

lemma range_entries_outbox:
  assumes "totals_ok es" "s + span es < 2 ^ 64" "\<And>k. m (p @ k) = buffer_map s es k"
  shows "range_entries m p Ascending lo up = filter (\<lambda>(k, v). in_range lo up k) (outbox_rows s es)"
proof -
  let ?rows = "outbox_rows s es" and ?K = "{k. p @ k \<in> dom m \<and> in_range lo up k}"
  have sorted: "sorted_wrt (<) (map fst ?rows)" by (rule located_sorted [OF assms(1,2)])
  then have dist: "distinct (map fst ?rows)" by (simp add: strict_sorted_iff)
  have "p @ k \<in> dom m \<longleftrightarrow> k \<in> fst ` set ?rows" for k
    unfolding dom_map_of_conv_image_fst [symmetric] domIff assms(3) buffer_map_rows ..
  then have K: "?K = set (filter (in_range lo up) (map fst ?rows))" by auto
  have "ordered_keys Ascending ?K = filter (in_range lo up) (map fst ?rows)"
  proof (rule scan_sorted_unique [of Ascending])
    have fin: "finite ?K" unfolding K by (rule List.finite_set)
    show "scan_sorted Ascending (ordered_keys Ascending ?K)" by (rule scan_sorted_ordered_keys)
    show "scan_sorted Ascending (filter (in_range lo up) (map fst ?rows))"
      using sorted by (simp add: scan_sorted_def sorted_wrt_filter)
    show "set (ordered_keys Ascending ?K) = set (filter (in_range lo up) (map fst ?rows))"
      using fin K by (simp add: set_ordered_keys)
  qed
  moreover have "map (\<lambda>k. (k, the (m (p @ k)))) (filter (in_range lo up) (map fst ?rows)) = filter (\<lambda>(k, v). in_range lo up k) ?rows"
    using dist assms(3) by (auto simp: buffer_map_rows filter_map comp_def case_prod_unfold intro!: map_idI)
  ultimately show ?thesis by (simp add: range_entries_def)
qed

lemma u64_rows_decode:
  "decodes u64_key vec_value [] (entry_key a, enc)" "decoded u64_key vec_value [] (entry_key a, enc) = (word_of_nat a, enc)"
  by (simp_all add: decodes_def decoded_def u64_key_def vec_value_def entry_key_def)

lemma u64_key_canonical: "decode_key u64_key bs = Inr k \<Longrightarrow> encode_key u64_key k = Inr bs"
  by (auto simp: u64_key_def u64_to_from_be split: if_splits)

lemma rows_items:
  assumes "\<forall>e \<in> set es. entry_ok (load_context_of S st) e"
  shows "\<forall>e \<in> set (outbox_rows s es). decodes u64_key vec_value [] e \<and> item_size e \<le> unat MAX_DELIVERY_BYTES"
proof -
  have "item_size (entry_key a, enc) \<le> unat MAX_DELIVERY_BYTES" if "(a, enc, c) \<in> set (located s es)" for a enc c
    using located_start [OF that] assms
    by (auto simp: entry_ok_def load_context_of_def delivery_limits_def item_size_def entry_size_def entry_key_def)
  then show ?thesis by (auto simp: outbox_rows_def u64_rows_decode)
qed

section \<open>Validation\<close>

lemma limits_ok: "limit_ok \<lparr>max_items = 1, max_bytes = unat MAX_DELIVERY_BYTES\<rparr>"
  "limit_ok \<lparr>max_items = BUFFER_VALIDATION_ITEMS, max_bytes = unat MAX_DELIVERY_BYTES\<rparr>"
  by (simp_all add: limit_ok_def MAX_DELIVERY_BYTES_def BUFFER_VALIDATION_ITEMS_def usize_max_def)

lemma require_empty_range_ok:
  assumes "engine_laws E V" "engine_reliable E" "sink_usable S r" "encode_bound u64_key lo = Inr lo'" "encode_bound u64_key up = Inr up'"
    and "range_entries (V (ref_view r)) (data_prefix (data_id (sink_buffer S))) Ascending (encoded_bound_of lo') (encoded_bound_of up') = []"
  shows "require_empty_range E S lo up r = (Inr (), r)"
proof -
  let ?p = "data_prefix (data_id (sink_buffer S))"
  obtain u where u: "prefix_successor ?p = Some u" using prefix_successor_data_prefix by blast
  have healthy: "\<not> ref_poisoned r" "handle_token (sink_buffer S) = ref_token r" using assms(3) by (simp_all add: sink_usable_def)
  obtain c where "map_scan E u64_key vec_value ?p lo up Ascending None \<lparr>max_items = 1, max_bytes = unat MAX_DELIVERY_BYTES\<rparr> r =
      (Inr \<lparr>page_entries = map (decoded u64_key vec_value []) (take c (drop 0 [])),
        continuation = (if c < length (drop 0 ([] :: (bytes \<times> bytes) list)) then Some (fst (decoded u64_key vec_value [] (drop 0 [] ! (c - 1)))) else None)\<rparr>, r)"
    by (rule map_scan_page [OF assms(1,2) u healthy(1) limits_ok(1) assms(4,5) assms(6) [symmetric] _ u64_key_canonical, where c = 0 and CV = vec_value and resume = None])
      simp_all
  moreover have "bind_read (sink_buffer S) r = (Inr ?p, r)"
    using healthy by (simp add: bind_read_def ref_ensure_access_def sem_bind_def ref_ensure_healthy_def sem_return_def)
  ultimately show ?thesis by (simp add: require_empty_range_def sem_bind_def op_store_def)
qed

definition validation_rows :: "nat \<Rightarrow> 'b outbox \<Rightarrow> (u64 \<times> bytes) list" where
  "validation_rows s es = map (\<lambda>(a, enc, c). (word_of_nat a, enc)) (located s es)"

lemma validate_entry_ok:
  assumes ok: "entry_ok (load_context_of S st) (enc, c)" and cap: "total_events c \<le> unat MAX_BUFFERED_EVENTS"
    and fits_buffer: "unat a + total_events c \<le> unat (tail st)" "unat b + entry_size enc \<le> unat (retained_bytes st)"
    and front: "a = entry_start (head st) \<Longrightarrow> unat (event_offset (head st)) < unat a + total_events c"
  obtains a' b' where "validate_entry S st (a, enc) (a, b) = Inr (a', b')" "unat a' = unat a + total_events c" "unat b' = unat b + entry_size enc"
proof -
  have c: "change_ok (sink_arrow S) c" "sizes_ok (load_context_of S st) c" using ok by (simp_all add: entry_ok_def load_context_of_def)
  have small: "unat a + total_events c < 2 ^ 64" using fits_buffer(1) unat_u64_less [of "tail st"] by linarith
  note stop = entry_end_eq [OF change_ok_magnitudes(2) [OF c(1)] small]
  let ?a = "a + word_of_nat (total_events c)" and ?b = "b + item_word enc"
  have item: "item_bytes_of enc = Inr (item_word enc)" "unat (item_word enc) = entry_size enc"
    "decode_entry enc MAX_DELIVERY_BYTES (sink_codec S) = Inr c"
    using entry_item [OF ok] by (simp_all add: load_context_of_def delivery_limits_def)
  have "?a - a = word_of_nat (total_events c)" by simp
  then have "\<not> ?a - a > MAX_BUFFERED_EVENTS" using cap small by (simp add: word_less_nat_alt unat_of_nat)
  moreover have "\<not> (?a > tail st \<or> a = entry_start (head st) \<and> event_offset (head st) \<ge> ?a)"
    using stop(2) fits_buffer(1) front by (auto simp: word_less_nat_alt word_le_nat_alt)
  moreover have sum: "checked_add_u64 b (item_word enc) = Some ?b" "unat ?b = unat b + entry_size enc"
    using fits_buffer(2) item(2) unat_u64_less [of "retained_bytes st"] by (simp_all add: checked_add_u64_def unat_word_ariths)
  moreover have "\<not> ?b > retained_bytes st" using sum(2) fits_buffer(2) by (simp add: word_less_nat_alt)
  moreover have "validate_event_sizes S c = Inr ()" using validate_event_sizes_ok c(2) by blast
  ultimately have "validate_entry S st (a, enc) (a, b) = Inr (?a, ?b)"
    using item stop(1) unfolding validate_entry_def by simp
  then show thesis using that stop(2) sum(2) by blast
qed

lemma validate_entries_append:
  "validate_entries S st (xs @ ys) acc = (case validate_entries S st xs acc of Inl e \<Rightarrow> Inl e | Inr acc' \<Rightarrow> validate_entries S st ys acc')"
  by (induction S st xs acc rule: validate_entries.induct) (auto split: sum.splits)

lemma validate_entries_ok:
  assumes "\<forall>e \<in> set es. entry_ok (load_context_of S st) e" "\<forall>(enc, c) \<in> set es. total_events c \<le> unat MAX_BUFFERED_EVENTS"
    "unat a + span es \<le> unat (tail st)" "unat b + retained es \<le> unat (retained_bytes st)"
    "unat (entry_start (head st)) \<le> unat a" "a = entry_start (head st) \<Longrightarrow> head_within (unat a) (unat (event_offset (head st))) es"
  shows "\<exists>a' b'. validate_entries S st (validation_rows (unat a) es) (a, b) = Inr (a', b') \<and> unat a' = unat a + span es \<and> unat b' = unat b + retained es"
  using assms
proof (induction es arbitrary: a b)
  case Nil
  then show ?case by (simp add: validation_rows_def)
next
  case (Cons e es)
  obtain enc c where e: "e = (enc, c)" by fastforce
  have ok: "entry_ok (load_context_of S st) (enc, c)" using Cons.prems(1) e by simp
  have front: "unat (event_offset (head st)) < unat a + total_events c" if "a = entry_start (head st)"
    using Cons.prems(6) [OF that] by (simp add: head_within_def e)
  obtain a1 b1 where one: "validate_entry S st (a, enc) (a, b) = Inr (a1, b1)" "unat a1 = unat a + total_events c" "unat b1 = unat b + entry_size enc"
    by (rule validate_entry_ok [OF ok, of a b]) (use Cons.prems front in \<open>auto simp: e\<close>)
  have pos: "0 < total_events c" using ok change_ok_magnitudes(2) by (auto simp: entry_ok_def)
  have "\<exists>a' b'. validate_entries S st (validation_rows (unat a1) es) (a1, b1) = Inr (a', b') \<and> unat a' = unat a1 + span es \<and> unat b' = unat b1 + retained es"
    by (rule Cons.IH) (use Cons.prems one(2,3) pos in \<open>auto simp: e\<close>)
  then show ?case using one by (auto simp: e validation_rows_def)
qed

lemma map_decoded_rows: "map (decoded u64_key vec_value []) (outbox_rows s es) = validation_rows s es"
  by (auto simp: outbox_rows_def validation_rows_def u64_rows_decode)

text \<open>The pages of the validation, from entry \<open>c\<close> on.\<close>

lemma validate_pages_ok:
  assumes laws: "engine_laws E V" "engine_reliable E" and healthy: "\<not> ref_poisoned r" and u: "prefix_successor p = Some u"
    and L: "L = range_entries (V (ref_view r)) p Ascending (Some (u64_to_be (entry_start (head st)), True)) (Some (u64_to_be (tail st), False))"
    and items: "\<forall>e \<in> set L. decodes u64_key vec_value [] e \<and> item_size e \<le> unat MAX_DELIVERY_BYTES"
    and rest: "validate_entries S st (map (decoded u64_key vec_value []) (drop c L)) acc = Inr out"
    and fuel: "length L - c < fuel" "c \<le> length L"
    and resume: "resume = None \<and> c = 0 \<or> 0 < c \<and> resume = Some (fst (decoded u64_key vec_value [] (L ! (c - 1))))"
  shows "validate_pages E S p st fuel resume acc r = (Inr out, r)"
  using rest fuel resume
proof (induction fuel arbitrary: c resume acc)
  case (Suc fuel)
  let ?limit = "\<lparr>max_items = BUFFER_VALIDATION_ITEMS, max_bytes = unat MAX_DELIVERY_BYTES\<rparr>"
  let ?D = "decoded u64_key vec_value []"
  have items': "\<forall>e \<in> set L. decodes u64_key vec_value [] e \<and> item_size e \<le> max_bytes ?limit" using items by simp
  have bounds: "encode_bound u64_key (Included (entry_start (head st))) = Inr (Included (u64_to_be (entry_start (head st))))"
    "encode_bound u64_key (Excluded (tail st)) = Inr (Excluded (u64_to_be (tail st)))"
    by (simp_all add: u64_key_def)
  have L': "L = range_entries (V (ref_view r)) p Ascending (encoded_bound_of (Included (u64_to_be (entry_start (head st)))))
      (encoded_bound_of (Excluded (u64_to_be (tail st))))"
    by (simp add: L)
  obtain c' where c': "c' \<le> length (drop c L)" "drop c L \<noteq> [] \<Longrightarrow> 0 < c'"
    and scan: "map_scan E u64_key vec_value p (Included (entry_start (head st))) (Excluded (tail st)) Ascending resume ?limit r =
      (Inr \<lparr>page_entries = map ?D (take c' (drop c L)),
        continuation = (if c' < length (drop c L) then Some (fst (?D (drop c L ! (c' - 1)))) else None)\<rparr>, r)"
    by (rule map_scan_page [OF laws u healthy limits_ok(2) bounds L' items' u64_key_canonical Suc.prems(3,4)]) auto
  show ?case
  proof (cases "drop c L = []")
    case True
    then show ?thesis using Suc.prems(1) scan c'(1) by (simp add: validate_pages.simps)
  next
    case False
    then have pos: "0 < c'" by (rule c'(2))
    have "map ?D (drop c L) = map ?D (take c' (drop c L)) @ map ?D (drop c' (drop c L))"
      by (metis append_take_drop_id map_append)
    then obtain acc' where page: "validate_entries S st (map ?D (take c' (drop c L))) acc = Inr acc'"
      "validate_entries S st (map ?D (drop (c + c') L)) acc' = Inr out"
      using Suc.prems(1) by (auto simp: validate_entries_append add.commute split: sum.splits)
    have nonempty: "map ?D (take c' (drop c L)) \<noteq> []" using False pos by simp
    show ?thesis
    proof (cases "c' < length (drop c L)")
      case True
      have "validate_pages E S p st fuel (Some (fst (?D (L ! (c + c' - 1))))) acc' r = (Inr out, r)"
        by (rule Suc.IH [OF page(2)]) (use True pos Suc.prems(2,3) in auto)
      moreover have "drop c L ! (c' - 1) = L ! (c + c' - 1)" using True pos by simp
      ultimately show ?thesis using scan page(1) nonempty True by (simp add: validate_pages.simps)
    next
      case False
      then have "c + c' = length L" using c'(1) Suc.prems(3) by simp
      then have "acc' = out" using page(2) by simp
      then show ?thesis using scan page(1) nonempty False by (simp add: validate_pages.simps)
    qed
  qed
qed simp

lemma sink_ranges:
  assumes "sink_holds S (Some (Ready st)) es m"
  defines "p \<equiv> data_prefix (data_id (sink_buffer S))" and "s \<equiv> unat (entry_start (head st))"
  shows "range_entries m p Ascending (Some (u64_to_be (entry_start (head st)), True)) (Some (u64_to_be (tail st), False)) = outbox_rows s es"
    "range_entries m p Ascending None (Some (u64_to_be (entry_start (head st)), False)) = []"
    "range_entries m p Ascending (Some (u64_to_be (tail st), True)) None = []"
proof -
  have rep: "represents (load_context_of S st) st es" and buf: "\<And>k. m (p @ k) = buffer_map s es k"
    using assms by (simp_all add: sink_holds_def sink_start_def)
  have tail: "unat (tail st) = s + span es" and tot: "totals_ok es" using rep entries_totals by (auto simp: represents_def s_def)
  have small: "s + span es < 2 ^ 64" using tail unat_u64_less [of "tail st"] by simp
  note ranges = range_entries_outbox [OF tot small buf]
  have lo: "u64_to_be (entry_start (head st)) = entry_key s" "u64_to_be (tail st) = entry_key (s + span es)"
    using tail by (simp_all add: s_def flip: entry_key_unat)
  have row: "\<exists>a. k = entry_key a \<and> s \<le> a \<and> a < s + span es" if "(k, v) \<in> set (outbox_rows s es)" for k v
    using that located_before [OF tot] by (fastforce simp: outbox_rows_def)
  show "range_entries m p Ascending (Some (u64_to_be (entry_start (head st)), True)) (Some (u64_to_be (tail st), False)) = outbox_rows s es"
    unfolding ranges lo filter_id_conv using row small
    by (fastforce simp: in_range_def within_lower_iff within_upper_iff entry_key_less entry_key_inject)
  show "range_entries m p Ascending None (Some (u64_to_be (entry_start (head st)), False)) = []"
    unfolding ranges lo filter_empty_conv using row small
    by (fastforce simp: in_range_def within_lower_iff within_upper_iff entry_key_less entry_key_inject)
  show "range_entries m p Ascending (Some (u64_to_be (tail st), True)) None = []"
    unfolding ranges lo filter_empty_conv using row small
    by (fastforce simp: in_range_def within_lower_iff within_upper_iff entry_key_less entry_key_inject)
qed

lemma require_empty_buffer_ok:
  assumes "engine_laws E V" "engine_reliable E" "sink_usable S r" "sink_holds S cst [] (V (ref_view r))"
  shows "require_empty_buffer E S r = (Inr (), r)"
proof -
  have "range_entries (V (ref_view r)) (data_prefix (data_id (sink_buffer S))) Ascending None None = []"
    using range_entries_outbox [of "[]" 0 "V (ref_view r)" "data_prefix (data_id (sink_buffer S))"] assms(4)
    by (simp add: totals_ok_def sink_holds_def outbox_rows_def)
  then show ?thesis
    unfolding require_empty_buffer_def using require_empty_range_ok [OF assms(1-3), of Unbounded Unbounded Unbounded Unbounded] by simp
qed

lemma validate_buffer_ok:
  assumes laws: "engine_laws E V" "engine_reliable E" and usable: "sink_usable S r" and holds: "sink_holds S (Some (Ready st)) es (V (ref_view r))"
  shows "validate_buffer E S st r = (Inr (), r)"
proof (cases "buffer_is_empty st")
  case True
  then have "es = []" using holds represents_valid(2) by (auto simp: sink_holds_def)
  then show ?thesis using require_empty_buffer_ok [OF laws usable] holds True by (simp add: validate_buffer_def)
next
  case False
  let ?s = "unat (entry_start (head st))" and ?p = "data_prefix (data_id (sink_buffer S))"
  have rep: "represents (load_context_of S st) st es" and cap: "\<forall>(enc, c) \<in> set es. total_events c \<le> unat MAX_BUFFERED_EVENTS"
    using holds by (simp_all add: sink_holds_def)
  note ranges = sink_ranges [OF holds]
  obtain u where u: "prefix_successor ?p = Some u" using prefix_successor_data_prefix by blast
  have healthy: "\<not> ref_poisoned r" "handle_token (sink_buffer S) = ref_token r" using usable by (simp_all add: sink_usable_def)
  have bound: "bind_read (sink_buffer S) r = (Inr ?p, r)"
    using healthy by (simp add: bind_read_def ref_ensure_access_def sem_bind_def ref_ensure_healthy_def sem_return_def)
  have entries: "\<forall>e \<in> set es. entry_ok (load_context_of S st) e" using rep by (simp add: represents_def)
  obtain a b where v: "validate_entries S st (validation_rows ?s es) (entry_start (head st), 0) = Inr (a, b)" "unat a = ?s + span es" "unat b = retained es"
    using validate_entries_ok [OF entries cap, of "entry_start (head st)" 0] rep by (auto simp: represents_def)
  have ab: "a = tail st" "b = retained_bytes st" using v(2,3) rep by (simp_all add: represents_def word_unat_eq_iff)
  have len: "length (outbox_rows ?s es) \<le> span es"
  proof -
    have "length es \<le> span es" using entries
    proof (induction es)
      case (Cons e es)
      obtain enc c where "e = (enc, c)" by fastforce
      with Cons change_ok_magnitudes(2) [of "sink_arrow S" c] show ?case by (auto simp: entry_ok_def load_context_of_def)
    qed simp
    moreover have "length (located n es) = length es" for n by (induction n es rule: located.induct) simp_all
    ultimately show ?thesis by (simp add: outbox_rows_def)
  qed
  have "validate_pages E S ?p st (Suc (unat (tail st))) None (entry_start (head st), 0) r = (Inr (a, b), r)"
    by (rule validate_pages_ok [OF laws healthy(1) u ranges(1) [symmetric] rows_items [OF entries], where c = 0])
      (use v len rep in \<open>simp_all add: map_decoded_rows represents_def\<close>)
  moreover have "require_empty_range E S Unbounded (Excluded (entry_start (head st))) r = (Inr (), r)"
    by (rule require_empty_range_ok [OF laws usable, where lo' = Unbounded and up' = "Excluded (u64_to_be (entry_start (head st)))"])
      (use ranges(2) in \<open>simp_all add: u64_key_def\<close>)
  moreover have "require_empty_range E S (Included (tail st)) Unbounded r = (Inr (), r)"
    by (rule require_empty_range_ok [OF laws usable, where lo' = "Included (u64_to_be (tail st))" and up' = Unbounded])
      (use ranges(3) in \<open>simp_all add: u64_key_def\<close>)
  ultimately show ?thesis
    using False ab bound by (simp add: validate_buffer_def sem_bind_def op_store_def sem_return_def)
qed

lemma restored_state_ok:
  assumes laws: "engine_laws E V" "engine_reliable E" and usable: "sink_usable S r" and holds: "sink_holds S cst es (V (ref_view r))"
  shows "restored_state E S seen r = (Inr cst, r)"
proof -
  have dec: "decode_bounded_value vec_value (map_option encode_control cst) MAX_CONTROL_BYTES = Inr (map_option encode_control cst)"
    using encode_control_length by (cases cst) (simp_all add: decode_bounded_value_def vec_value_def not_less)
  have "wp (op_store (sem_bind (bind_read (sink_control S)) (\<lambda>p. cell_get_bounded E vec_value p MAX_CONTROL_BYTES)))
      (\<lambda>v r1. v = map_option encode_control cst \<and> r1 = r) (\<lambda>_ _. False) r"
    unfolding wp_op_store wp_bind
    by (rule wp_bind_read_ok, use usable in \<open>simp add: sink_usable_def\<close>, use usable in \<open>simp add: sink_usable_def\<close>,
        rule wp_cell_get_bounded [OF laws(1)])
      (use usable holds dec laws(2) in \<open>auto simp: sink_holds_def sink_usable_def ref_fault_def\<close>)
  then have read: "op_store (sem_bind (bind_read (sink_control S)) (\<lambda>p. cell_get_bounded E vec_value p MAX_CONTROL_BYTES)) r =
      (Inr (map_option encode_control cst), r)"
    unfolding wp_def by (auto split: prod.splits sum.splits simp del: map_option_eq_Some)
  have "decode_restored E S seen (map_option encode_control cst) r = (Inr cst, r)"
  proof (cases cst)
    case None
    then have "es = []" using holds by (simp add: sink_holds_def)
    then show ?thesis using None require_empty_buffer_ok [OF laws usable] holds by (simp add: decode_restored_def sem_bind_def sem_return_def)
  next
    case (Some st)
    have d: "decode_control (encode_control st) = Inr st" using sink_control_decodes [of S st es] holds Some by blast
    show ?thesis
    proof (cases st)
      case Initialize
      then have "es = []" using holds Some by (simp add: sink_holds_def)
      then show ?thesis
        using Some Initialize d require_empty_buffer_ok [OF laws usable] holds
        by (simp add: decode_restored_def sem_bind_def sem_return_def sem_lift_def del: encode_control.simps)
    next
      case (Ready ready)
      then have "validate_capacity ready = Inr ()" using holds Some by (simp add: sink_holds_def capacity_Inr)
      then show ?thesis
        using Some Ready d validate_buffer_ok [OF laws usable, of ready es] holds
        by (simp add: decode_restored_def sem_bind_def sem_return_def sem_lift_def del: encode_control.simps)
    qed
  qed
  then show ?thesis by (simp add: restored_state_def sem_bind_def read)
qed

section \<open>Progress\<close>

lemma buffered_load_total:
  assumes laws: "engine_laws E V" "engine_reliable E" "sink_env S" "joins (load_context_of S buffer_EMPTY)"
    and usable: "sink_usable S r" and holds: "sink_holds S cst es (V (ref_view r))" and cached: "sink_cached S cst es (head_cache w)"
  obtains out w' where "buffered_load E S (w, r) = (Inr out, (w', r))" "load_outcome S cst es out"
proof -
  note restored = restored_state_ok [OF laws(1,2) usable holds, of "recovered w"]
  have "\<exists>out w'. buffered_load E S (w, r) = (Inr out, (w', r))"
  proof (cases "\<exists>st. cst = Some (Ready st) \<and> \<not> buffer_is_empty st")
    case False
    then show ?thesis
      by (cases cst; cases "the cst") (auto simp: buffered_load_def restored Let_def)
  next
    case True
    then obtain st where st: "cst = Some (Ready st)" "\<not> buffer_is_empty st" by blast
    let ?X = "load_context_of S st" and ?s = "unat (entry_start (head st))"
    have rep: "represents ?X st es" using holds st by (simp add: sink_holds_def)
    then have es: "es \<noteq> []" using represents_valid(2) st(2) by blast
    have stored: "stored_at V (data_prefix (data_id (sink_buffer S))) ?s es (ref_view r)"
      using sink_holds_stored [of S st es "V (ref_view r)"] holds st(1) by (simp add: stored_at_def)
    have fits_buffer: "cache_fits ?X ?s es (head_cache w)"
      using cached st(1) by (simp add: sink_cached_def sink_start_def cache_fits_context [of S st _ _ _ buffer_EMPTY])
    have joined: "joins ?X" using laws(4) by (simp add: joins_def load_context_of_def)
    have "wp (batch_load E (sink_buffer S) ?X) (\<lambda>b (r2, k). r2 = r) (\<lambda>_ _. False) (r, head_cache w)"
      by (rule wp_batch_load [OF laws(1) env_context [OF laws(3)], where es = es])
        (use usable rep es stored fits_buffer joined laws(2) in \<open>auto simp: sink_usable_def\<close>)
    then obtain b k where "batch_load E (sink_buffer S) ?X (r, head_cache w) = (Inr b, (r, k))"
      by (auto simp: wp_def split: prod.splits sum.splits)
    then show ?thesis using st by (simp add: buffered_load_def restored Let_def)
  qed
  then obtain out w' where run: "buffered_load E S (w, r) = (Inr out, (w', r))" by blast
  show thesis using that [OF run] buffered_load_ok(3) [OF laws(1,3) usable holds cached run] by simp
qed

lemma buffered_settle_total:
  assumes laws: "engine_laws E V" "engine_reliable E" and usable: "sink_usable S (Write t)" and holds: "sink_holds S cst es (V (inner t))"
    and pend: "pending_valid S pend cst es" "cst \<noteq> None"
  obtains w' t' where "buffered_settle E S pend (w, t) = (Inr (), (w', t'))"
proof -
  have "wp (settle_state E S pend) (\<lambda>_ _. True) (\<lambda>_ _. False) t"
    by (rule wp_settle_state [OF laws(1) usable holds pend(1)]) (use laws(2) pend(2) in auto)
  then obtain st t' where "settle_state E S pend t = (Inr st, t')" by (auto simp: wp_def split: prod.splits sum.splits)
  then show thesis using that by (simp add: buffered_settle_def)
qed

lemma buffered_enqueue_total:
  assumes laws: "engine_laws E V" "engine_reliable E" "sink_env S" and usable: "sink_usable S (Write t)"
    and holds: "sink_holds S cst es (V (inner t))" and page: "page_ok S page" "acceptable S page cst"
  obtains enc st' t' where "buffered_enqueue E S page t = (Inr True, t')" "sink_usable S (Write t')"
    "sink_holds S (Some (Ready st')) (es @ [(enc, page)]) (V (inner t'))"
proof -
  have env: "codec_laws (sink_codec S)" "sizes_calm (sink_target S)" using laws(3) by (simp_all add: sink_env_def)
  have "wp (buffered_enqueue E S page) (\<lambda>taken t'. taken \<and> sink_usable S (Write t') \<and>
      (\<exists>enc st'. sink_holds S (Some (Ready st')) (es @ [(enc, page)]) (V (inner t')))) (\<lambda>_ _. False) t"
    by (rule wp_buffered_enqueue [OF laws(1) env usable holds page(1)]) (use laws(2) page(2) in auto)
  then show thesis by (auto simp: wp_def split: prod.splits sum.splits intro: that)
qed

section \<open>A sample\<close>

text \<open>Rows are bytes, every difference is one, and the encoding of a change is its rows.\<close>

definition sample_unit_schema :: schema where
  "sample_unit_schema = \<lparr>schema_fields = [Field ''n'' Int64 True []], schema_metadata = []\<rparr>"

definition unit_page :: "bytes \<Rightarrow> bytes change" where
  "unit_page bs = \<lparr>records = bs, diffs = replicate (length bs) (Some 1)\<rparr>"

definition sample_sink :: "(bytes, unit) buffered_sink" where
  "sample_sink =
     \<lparr>sink_arrow = \<lparr>batch_rows = length, batch_columns = (\<lambda>_. 1), batch_slice = (\<lambda>b i n. take n (drop i b)),
        batch_schema = (\<lambda>_. sample_unit_schema), batch_decimals = (\<lambda>_. Inr ())\<rparr>,
      sink_concat = (\<lambda>_ bs. Inr (concat bs)),
      sink_codec = \<lparr>codec_schema = sample_unit_schema,
        codec_encode_bounded = (\<lambda>c n. if c = unit_page (records c) \<and> length (records c) \<le> n then Inr (records c) else Inl SchemaMismatch),
        codec_decode_owned = (\<lambda>bs. Inr (unit_page bs))\<rparr>,
      sink_target = \<lparr>target_event_bytes = (\<lambda>_ _. Inr 40), target_require_absent = sem_return (), target_initialize = sem_return (),
        target_deliver_prefix = (\<lambda>_ _ _. sem_return ())\<rparr>,
      sink_control = \<lparr>handle_token = 1, data_id = 1\<rparr>, sink_buffer = \<lparr>handle_token = 1, data_id = 2\<rparr>\<rparr>"

definition sample_session :: "(mem_view, bytes, unit) sink_session" where
  "sample_session =
     \<lparr>sess_world = buffered_new (), sess_store = \<lparr>inner = ([], False), store_token = 1, poisoned = False, has_writes = False\<rparr>,
      sess_pending = None, sess_accepted = [], sess_settled = []\<rparr>"

lemma sample_sink_simps [simp]:
  "batch_rows (sink_arrow sample_sink) b = length b" "batch_slice (sink_arrow sample_sink) b i n = take n (drop i b)"
  "batch_schema (sink_arrow sample_sink) b = sample_unit_schema" "batch_decimals (sink_arrow sample_sink) b = Inr ()"
  "codec_schema (sink_codec sample_sink) = sample_unit_schema" "sink_concat sample_sink sch bs = Inr (concat bs)"
  "target_event_bytes (sink_target sample_sink) c row = Inr 40"
  "handle_token (sink_control sample_sink) = 1" "handle_token (sink_buffer sample_sink) = 1"
  "data_id (sink_control sample_sink) = 1" "data_id (sink_buffer sample_sink) = 2"
  by (simp_all add: sample_sink_def)

lemma sample_units: "batch_units (sink_arrow sample_sink) = map (\<lambda>x. [x])"
  by (intro ext nth_equalityI) (auto simp: batch_units_def take_Suc hd_drop_conv_nth)

lemma sample_sink_env: "sink_env sample_sink"
proof -
  have "schema_ok sample_unit_schema"
    using sample_schema_valid unfolding validate_schema_accepts sample_unit_schema_def .
  moreover have "slice_laws (sink_arrow sample_sink)" by (auto simp: slice_laws_def drop_take min_def add.commute)
  moreover have "codec_laws (sink_codec sample_sink)" by (auto simp: codec_laws_def sample_sink_def unit_page_def split: if_splits)
  moreover have "concat_laws (load_context_of sample_sink buffer_EMPTY)"
    by (simp add: concat_laws_def load_context_of_def sample_units map_concat)
  ultimately show ?thesis by (simp add: sink_env_def sizes_calm_def)
qed

lemma sample_joins: "joins (load_context_of sample_sink buffer_EMPTY)"
  by (simp add: joins_def load_context_of_def)

lemma sample_start: "session_start mem_contents sample_sink sample_session"
  by (simp add: session_start_def sample_session_def sink_usable_write mem_contents_def)

text \<open>The sink is initialized and accepts a change of three rows; a load then finds them.\<close>

definition initialized_store :: "control_state \<Rightarrow> mem_view transaction" where
  "initialized_store st =
     \<lparr>inner = ([(data_prefix 1, encode_control st)], False), store_token = 1, poisoned = False, has_writes = True\<rparr>"

lemma initialized_holds:
  "sink_usable sample_sink (Write (initialized_store st))"
  "st = Initialize \<or> st = Ready buffer_EMPTY \<Longrightarrow> sink_holds sample_sink (Some st) [] (mem_contents (inner (initialized_store st)))"
  using control_apart [of sample_sink]
  by (auto simp: initialized_store_def sink_usable_write sink_holds_def mem_contents_def sink_start_def represents_def buffer_EMPTY_def
      position_at_def head_within_def within_capacity_def pending_events_def simp del: encode_control.simps)

lemma sample_initialized:
  "\<exists>w. (sink_step mem_engine mem_contents sample_sink)\<^sup>*\<^sup>* sample_session
     (sample_session\<lparr>sess_world := w, sess_store := initialized_store (Ready buffer_EMPTY)\<rparr>) \<and> head_cache w = None"
proof -
  let ?step = "sink_step mem_engine mem_contents sample_sink" and ?q = sample_session
  have usable: "sink_usable sample_sink (Write (sess_store ?q))" and holds: "sink_holds sample_sink None [] (mem_contents (inner (sess_store ?q)))"
    by (simp_all add: sample_session_def sink_usable_write sink_holds_def mem_contents_def)
  have cached: "sink_cached sample_sink None [] (head_cache (sess_world ?q))"
    by (simp add: sample_session_def buffered_new_def sink_cached_def cache_fits_def)
  obtain out w where load: "buffered_load mem_engine sample_sink (sess_world ?q, Write (sess_store ?q)) = (Inr out, (w, Write (sess_store ?q)))"
    "load_outcome sample_sink None [] out"
    by (rule buffered_load_total [OF mem_engine_laws mem_engine_reliable sample_sink_env sample_joins usable _ cached]) (use holds in simp_all)
  then have out: "out = Some (PendingInitialize True)" by (auto simp: load_outcome_def split: option.splits sink_pending.splits if_splits)
  let ?p = "PendingInitialize True" and ?q1 = "?q\<lparr>sess_world := w, sess_pending := Some (PendingInitialize True)\<rparr>"
  have w: "head_cache w = None"
    using buffered_load_ok(2) [OF mem_engine_laws sample_sink_env usable _ cached load(1)] holds
    by (simp add: sink_cached_def cache_fits_def cache_matches_def)
  have "?step ?q ?q1" using step_load [of ?q "Write (sess_store ?q)" mem_contents, OF _ _ _ _ load(1)] out by (simp add: sample_session_def)
  moreover have "buffered_persist mem_engine sample_sink ?p (sess_store ?q) = (Inr (), initialized_store Initialize)"
    by code_simp
  then have "?step ?q1 (?q1\<lparr>sess_store := initialized_store Initialize\<rparr>)"
    by (intro step_persist [where pend = ?p]) simp_all
  moreover have "settle_state mem_engine sample_sink ?p (initialized_store Initialize) = (Inr buffer_EMPTY, initialized_store (Ready buffer_EMPTY))"
    by code_simp
  then have "buffered_settle mem_engine sample_sink ?p (w, initialized_store Initialize) =
      (Inr (), (w, initialized_store (Ready buffer_EMPTY)))"
    using w by (simp add: buffered_settle_def keep_cache_def)
  then have "?step (?q1\<lparr>sess_store := initialized_store Initialize\<rparr>) (?q\<lparr>sess_world := w, sess_store := initialized_store (Ready buffer_EMPTY)\<rparr>)"
    using step_settle [of "?q1\<lparr>sess_store := initialized_store Initialize\<rparr>" ?p mem_engine sample_sink w _ mem_contents]
    by (simp add: batch_events_def sample_session_def)
  ultimately show ?thesis using w by (meson converse_rtranclp_into_rtranclp r_into_rtranclp)
qed

lemma sample_acceptable: "acceptable sample_sink (unit_page [7, 8, 9]) (Some (Ready buffer_EMPTY))"
proof -
  let ?page = "unit_page [7, 8, 9]" and ?adm = "\<lparr>admitted_change = [7, 8, 9], admitted_item_bytes = 11, admitted_events = 3\<rparr>"
  have n: "event_count ?page = Inr 3"
    by (simp add: event_count_eq unit_page_def diff_values_def diff_value_def magnitude_def)
  have "validate_event_sizes sample_sink ?page = Inr ()"
    unfolding validate_event_sizes_def validate_rows_ok by (simp add: MAX_TARGET_BATCH_BYTES_def)
  moreover have "codec_encode_bounded (sink_codec sample_sink) ?page (unat MAX_DELIVERY_BYTES) = Inr [7, 8, 9]"
    by (simp add: sample_sink_def unit_page_def MAX_DELIVERY_BYTES_def)
  moreover have "item_bytes_of [7, 8, 9] = Inr 11"
    by (simp add: item_bytes_of_def u64_max_def checked_add_u64_def MAP_KEY_BYTES_def)
  ultimately have adm: "prepare_admission sample_sink ?page 3 = Inr ?adm"
    by (simp add: prepare_admission_def MAX_BUFFERED_EVENTS_def MAX_DELIVERY_BYTES_def)
  have "fits_buffer buffer_EMPTY ?adm"
    by (simp add: fits_buffer_def buffer_EMPTY_def position_at_def pending_events_def checked_add_u64_def MAX_RETAINED_BYTES_def MAX_BUFFERED_EVENTS_def)
  moreover have "checked_add_u64 (tail buffer_EMPTY) 3 = Some 4" by (simp add: buffer_EMPTY_def checked_add_u64_def)
  ultimately show ?thesis using n adm unfolding acceptable_def accepts_def by (simp add: unit_page_def)
qed

lemma sample_loaded:
  "\<exists>q bef batch. (sink_step mem_engine mem_contents sample_sink)\<^sup>*\<^sup>* sample_session q \<and> sess_pending q = Some (PendingLoaded bef batch) \<and>
     sess_accepted q = [([7], True), ([8], True), ([9], True)] \<and> sess_settled q = []"
proof -
  let ?step = "sink_step mem_engine mem_contents sample_sink" and ?page = "unit_page [7, 8, 9]"
  let ?t = "initialized_store (Ready buffer_EMPTY)"
  obtain w where w: "?step\<^sup>*\<^sup>* sample_session (sample_session\<lparr>sess_world := w, sess_store := ?t\<rparr>)" "head_cache w = None"
    using sample_initialized by blast
  let ?q = "sample_session\<lparr>sess_world := w, sess_store := ?t\<rparr>"
  have page: "page_ok sample_sink ?page" by (simp add: page_ok_def change_ok_def num_rows_def unit_page_def)
  obtain enc st t where e: "buffered_enqueue mem_engine sample_sink ?page ?t = (Inr True, t)" "sink_usable sample_sink (Write t)"
    "sink_holds sample_sink (Some (Ready st)) ([] @ [(enc, ?page)]) (mem_contents (inner t))"
    using buffered_enqueue_total [OF mem_engine_laws mem_engine_reliable sample_sink_env initialized_holds(1) initialized_holds(2) page sample_acceptable] by blast
  have ev: "change_events (sink_arrow sample_sink) ?page = [([7], True), ([8], True), ([9], True)]"
    by (simp add: change_events_def sample_units unit_page_def diff_values_def diff_value_def row_events_def)
  let ?q1 = "?q\<lparr>sess_store := t, sess_accepted := [([7], True), ([8], True), ([9], True)]\<rparr>"
  have s1: "?step ?q ?q1"
    using step_enqueue [of sample_sink ?page mem_engine ?q True t mem_contents, OF page] e(1) ev by (simp add: sample_session_def)
  have cached: "sink_cached sample_sink (Some (Ready st)) [(enc, ?page)] (head_cache w)" using w(2) by (simp add: sink_cached_def cache_fits_def)
  obtain out w2 where load: "buffered_load mem_engine sample_sink (w, Write t) = (Inr out, (w2, Write t))"
    "load_outcome sample_sink (Some (Ready st)) [(enc, ?page)] out"
    by (rule buffered_load_total [OF mem_engine_laws mem_engine_reliable sample_sink_env sample_joins e(2) _ cached]) (use e(3) in simp_all)
  then obtain bef batch where out: "out = Some (PendingLoaded bef batch)"
    by (auto simp: load_outcome_def split: option.splits sink_pending.splits if_splits)
  have "?step ?q1 (?q1\<lparr>sess_world := w2, sess_pending := Some (PendingLoaded bef batch)\<rparr>)"
    using step_load [of ?q1 "Write t" mem_contents mem_engine sample_sink "Inr out" w2 "Write t"] load(1) out e(2)
    by (simp add: sink_usable_write sample_session_def)
  then have "?step\<^sup>*\<^sup>* sample_session (?q1\<lparr>sess_world := w2, sess_pending := Some (PendingLoaded bef batch)\<rparr>)"
    using w(1) s1 by (meson rtranclp.rtrancl_into_rtrancl)
  then show ?thesis by (intro exI conjI) (assumption, simp_all add: sample_session_def)
qed

end
