(* ===== verification/Sink_Admission.thy ===== *)
theory Sink_Admission
  imports Sink_Recovery
begin

text \<open>
  What a buffered sink admits, stated without the code that decides it: \<open>page_enters\<close> is what a page has to satisfy on its own,
  \<open>outbox_room\<close> the capacity of the outbox, in events that wait and in bytes that are retained. Both count with natural numbers
  over the page and the outbox and write the limits out. The lemmas show that the checks of
  \<^verbatim>\<open>crates/operation/src/operation/sink/buffered/runtime.rs\<close>, in machine arithmetic over the control state, decide exactly them.
\<close>

section \<open>Specification\<close>

definition page_enters :: "('b, 'x) buffered_sink \<Rightarrow> 'b change \<Rightarrow> bytes \<Rightarrow> bool" where
  "page_enters S page enc \<longleftrightarrow>
     (\<forall>row < num_rows (sink_arrow S) page.
        \<exists>n. target_event_bytes (sink_target S) page row = Inr n \<and> 1 \<le> unat n \<and> unat n \<le> 8 * 1024 * 1024) \<and>
     codec_encode_bounded (sink_codec S) page (8 * 1024 * 1024) = Inr enc \<and> length enc + 8 \<le> 8 * 1024 * 1024 \<and>
     total_events page \<le> 1048576"

definition waiting_events :: "('b, 'x) buffered_sink \<Rightarrow> buffer_state \<Rightarrow> 'b outbox \<Rightarrow> nat" where
  "waiting_events S st es = length (pending_from (sink_arrow S) (unat (entry_start (head st))) (unat (event_offset (head st))) es)"

definition outbox_room :: "('b, 'x) buffered_sink \<Rightarrow> buffer_state \<Rightarrow> 'b outbox \<Rightarrow> 'b change \<Rightarrow> bytes \<Rightarrow> bool" where
  "outbox_room S st es page enc \<longleftrightarrow>
     waiting_events S st es + total_events page \<le> 1048576 \<and>
     sum_list (map (\<lambda>(e, c). length e + 8) es) + (length enc + 8) \<le> 64 * 1024 * 1024"

section \<open>The checks of the code\<close>

lemma item_bytes_of_total: "length enc + 8 < 2 ^ 64 \<Longrightarrow> item_bytes_of enc = Inr (word_of_nat (length enc + 8))"
  by (simp add: item_bytes_of_def u64_max_def checked_add_u64_def MAP_KEY_BYTES_def unat_of_nat)

lemma prepare_admission_iff:
  assumes "unat n = total_events page" "0 < total_events page" "codec_laws (sink_codec S)"
  shows "prepare_admission S page n = Inr adm \<longleftrightarrow>
    (\<exists>enc. page_enters S page enc \<and>
       adm = \<lparr>admitted_change = enc, admitted_item_bytes = word_of_nat (length enc + 8), admitted_events = n\<rparr>)"
  (is "_ \<longleftrightarrow> ?spec")
proof -
  have n: "n \<noteq> 0" using assms(1,2) by (metis less_irrefl unat_0)
  have few: "n > MAX_BUFFERED_EVENTS \<longleftrightarrow> \<not> total_events page \<le> 1048576"
    using assms(1) by (simp add: word_less_nat_alt MAX_BUFFERED_EVENTS_def not_le)
  have rows: "validate_event_sizes S page = Inr () \<longleftrightarrow> (\<forall>row < num_rows (sink_arrow S) page.
        \<exists>n. target_event_bytes (sink_target S) page row = Inr n \<and> 1 \<le> unat n \<and> unat n \<le> 8 * 1024 * 1024)"
    unfolding validate_event_sizes_def validate_rows_ok
    by (auto simp: MAX_TARGET_BATCH_BYTES_def word_less_nat_alt word_le_nat_alt Suc_le_eq)
  have limit: "unat MAX_DELIVERY_BYTES = 8 * 1024 * 1024" by (simp add: MAX_DELIVERY_BYTES_def)
  have item: "item_bytes_of enc = Inr (word_of_nat (length enc + 8))"
      "(word_of_nat (length enc + 8) :: u64) > MAX_DELIVERY_BYTES \<longleftrightarrow> \<not> length enc + 8 \<le> 8 * 1024 * 1024"
    if "codec_encode_bounded (sink_codec S) page (8 * 1024 * 1024) = Inr enc" for enc
  proof -
    have "length enc \<le> 8 * 1024 * 1024" using assms(3) that by (simp add: codec_laws_def)
    then show "item_bytes_of enc = Inr (word_of_nat (length enc + 8))"
      "(word_of_nat (length enc + 8) :: u64) > MAX_DELIVERY_BYTES \<longleftrightarrow> \<not> length enc + 8 \<le> 8 * 1024 * 1024"
      by (auto simp: item_bytes_of_total word_less_nat_alt unat_of_nat limit simp del: of_nat_add)
  qed
  show ?thesis
    using n few rows item limit
    by (auto simp: prepare_admission_def page_enters_def split: sum.splits if_splits)
qed

lemma fits_buffer_iff:
  assumes holds: "sink_holds S (Some (Ready st)) es m" and events: "unat (admitted_events adm) = total_events page"
    and bytes: "unat (admitted_item_bytes adm) = length enc + 8"
  shows "fits_buffer st adm \<longleftrightarrow> outbox_room S st es page enc"
proof -
  have rep: "represents (load_context_of S st) st es" using holds by (simp add: sink_holds_def)
  then have "\<forall>(e, c) \<in> set es. change_ok (sink_arrow S) c" by (auto simp: represents_def entry_ok_def load_context_of_def)
  then have "length (outbox_events (sink_arrow S) es) = span es" by (rule outbox_events_length)
  then have wait: "unat (pending_events st) = waiting_events S st es"
    using unat_pending [OF rep] rep by (simp add: waiting_events_def pending_from_def represents_def head_within_def)
  have held: "unat (retained_bytes st) = sum_list (map (\<lambda>(e, c). length e + 8) es)"
    using rep by (simp add: represents_def retained_def entry_size_def)
  have add: "(case checked_add_u64 a b of None \<Rightarrow> False | Some s \<Rightarrow> s \<le> l) \<longleftrightarrow> unat a + unat b \<le> unat l" for a b l :: u64
    using unat_u64_less [of l] by (auto simp: checked_add_u64_def word_le_nat_alt unat_word_ariths)
  have "fits_buffer st adm \<longleftrightarrow>
      (case checked_add_u64 (pending_events st) (admitted_events adm) of None \<Rightarrow> False | Some s \<Rightarrow> s \<le> MAX_BUFFERED_EVENTS) \<and>
      (case checked_add_u64 (retained_bytes st) (admitted_item_bytes adm) of None \<Rightarrow> False | Some s \<Rightarrow> s \<le> MAX_RETAINED_BYTES)"
    by (auto simp: fits_buffer_def split: option.splits)
  then show ?thesis
    unfolding add by (simp add: wait held events bytes outbox_room_def MAX_BUFFERED_EVENTS_def MAX_RETAINED_BYTES_def)
qed

text \<open>The call, over a working store, is the decision on the control state it reads.\<close>

lemma buffered_enqueue_ready:
  assumes laws: "engine_laws E V" "engine_reliable E" and usable: "sink_usable S (Write t)" and holds: "sink_holds S cst es (V (inner t))"
    and schema: "batch_schema (sink_arrow S) (records page) = codec_schema (sink_codec S)"
  shows "buffered_enqueue E S page t = (case cst of Some (Ready st) \<Rightarrow> enqueue_ready E S page st t | _ \<Rightarrow> (Inr False, t))"
proof -
  have "wp (read_control E S) (\<lambda>a t'. a = map_option encode_control cst \<and> t' = t) (\<lambda>_ _. False) t"
    by (rule wp_read_control [OF laws(1) usable holds]) (use laws(2) in simp_all)
  then have "read_control E S t = (Inr (map_option encode_control cst), t)" by (auto simp: wp_from_result)
  then show ?thesis
    using schema sink_control_decodes [of S _ es] holds
    by (cases cst) (auto simp: buffered_enqueue_def sem_bind_def sem_lift_def sem_return_def split: control_state.splits)
qed

lemma enqueue_ready_cases:
  assumes laws: "codec_laws (sink_codec S)" and holds: "sink_holds S (Some (Ready st)) es m" and page: "page_ok S page"
  shows "\<nexists>enc. page_enters S page enc \<and> unat (tail st) + total_events page < 2 ^ 64 \<Longrightarrow> \<exists>e. enqueue_ready E S page st t = (Inl e, t)"
    "page_enters S page enc \<Longrightarrow> unat (tail st) + total_events page < 2 ^ 64 \<Longrightarrow> \<not> outbox_room S st es page enc \<Longrightarrow>
       enqueue_ready E S page st t = (Inr False, t)"
    "page_enters S page enc \<Longrightarrow> unat (tail st) + total_events page < 2 ^ 64 \<Longrightarrow> outbox_room S st es page enc \<Longrightarrow>
       accepts S page st enc' st' \<longleftrightarrow> enc' = enc \<and> st' = \<lparr>head = head st, tail = tail st + word_of_nat (total_events page),
          retained_bytes = retained_bytes st + word_of_nat (length enc + 8)\<rparr>"
proof -
  have pos: "0 < total_events page" using page change_ok_magnitudes(2) by (auto simp: page_ok_def)
  have cap: "validate_capacity st = Inr ()" using holds by (simp add: sink_holds_def capacity_Inr)
  let ?n = "word_of_nat (total_events page) :: u64" and ?tl = "tail st + word_of_nat (total_events page)"
  have n: "event_count page = Inr ?n" "unat ?n = total_events page" if "total_events page < 2 ^ 64"
    using that by (simp_all add: event_count_eq unat_of_nat)
  have tl: "checked_add_u64 (tail st) ?n = (if unat (tail st) + total_events page < 2 ^ 64 then Some ?tl else None)" if "total_events page < 2 ^ 64"
    using n(2) [OF that] by (simp add: checked_add_u64_def)
  note adm = prepare_admission_iff [OF n(2) pos laws]
  {
    assume none: "\<nexists>enc. page_enters S page enc \<and> unat (tail st) + total_events page < 2 ^ 64"
    show "\<exists>e. enqueue_ready E S page st t = (Inl e, t)"
    proof (cases "unat (tail st) + total_events page < 2 ^ 64")
      case True
      then have small: "total_events page < 2 ^ 64" by simp
      have "prepare_admission S page ?n \<noteq> Inr a" for a using adm [OF small] none True by auto
      then obtain e where "prepare_admission S page ?n = Inl e" by (cases "prepare_admission S page ?n") auto
      then show ?thesis using n [OF small] tl [OF small] True by (simp add: enqueue_ready_def cap sem_lift_def sem_bind_def sem_throw_def)
    next
      case False
      then show ?thesis
        using n tl by (cases "total_events page < 2 ^ 64") (auto simp: enqueue_ready_def cap sem_lift_def sem_bind_def sem_throw_def event_count_eq)
    qed
  next
    assume enters: "page_enters S page enc" and off: "unat (tail st) + total_events page < 2 ^ 64"
    then have small: "total_events page < 2 ^ 64" "length enc + 8 < 2 ^ 64" by (simp_all add: page_enters_def)
    let ?adm = "\<lparr>admitted_change = enc, admitted_item_bytes = word_of_nat (length enc + 8), admitted_events = ?n\<rparr>"
    have prep: "prepare_admission S page ?n = Inr ?adm" using adm [OF small(1)] enters by blast
    have fit: "fits_buffer st ?adm \<longleftrightarrow> outbox_room S st es page enc"
      by (rule fits_buffer_iff [OF holds]) (use small n in \<open>simp_all add: unat_of_nat del: of_nat_add\<close>)
    show "enqueue_ready E S page st t = (Inr False, t)" if "\<not> outbox_room S st es page enc"
      using that fit prep n [OF small(1)] tl [OF small(1)] off by (simp add: enqueue_ready_def cap sem_lift_def sem_bind_def sem_return_def)
    show "accepts S page st enc' st' \<longleftrightarrow> enc' = enc \<and> st' = \<lparr>head = head st, tail = ?tl,
          retained_bytes = retained_bytes st + word_of_nat (length enc + 8)\<rparr>" if "outbox_room S st es page enc"
      using that fit prep n [OF small(1)] tl [OF small(1)] off by (auto simp: accepts_def)
  }
qed

end
