(* ===== verification/Sink_Properties.thy ===== *)
theory Sink_Properties
  imports Sink_Admission
begin

text \<open>What a buffered sink promises: its durable state has one encoding, admission is exact, and every accepted event is
  loaded and settled once, in order, across failures and restarts.\<close>

section \<open>Properties\<close>

lemma log_prefix:
  "log_ok S cst es accepted settled \<Longrightarrow> \<exists>rest. accepted = settled @ rest"
  by (auto simp: log_ok_def split: option.splits control_state.splits)

lemma log_empty_outbox:
  assumes "log_ok S cst [] accepted settled"
  shows "accepted = settled"
  using assms by (auto simp: log_ok_def pending_of_def outbox_events_def split: option.splits control_state.splits)

text \<open>
  C23: Take any history of a sink: changes are enqueued, prefixes of the outbox loaded, prepared, delivered and settled, calls
  fail and are rolled back, the sink is reopened, in any order the runtime allows. The settled events are always a prefix of the
  accepted ones. A batch that is loaded consists of the events that directly follow the settled ones, at least one and at most
  1024, and it is numbered by the position of its first event: a batch loaded again after a failure carries the same number,
  so nothing is lost, reordered or delivered under two positions.
\<close>
theorem sink_exactly_once:
  assumes "engine_laws E V" and "sink_env S" and "session_start V S q" and "(sink_step E V S)\<^sup>*\<^sup>* q q'"
  shows "(\<exists>rest. sess_accepted q' = sess_settled q' @ rest) \<and>
    (\<forall>bef batch. sess_pending q' = Some (PendingLoaded bef batch) \<longrightarrow>
       (\<exists>n. 0 < n \<and> n \<le> 1024 \<and> n + length (sess_settled q') \<le> length (sess_accepted q') \<and>
          batch_events S (PendingLoaded bef batch) = take n (drop (length (sess_settled q')) (sess_accepted q')) \<and>
          unat (first_event_offset (loaded_delivery batch)) = Suc (length (sess_settled q'))))"
proof -
  obtain cst es where inv: "log_ok S cst es (sess_accepted q') (sess_settled q')"
    "\<And>pend. sess_pending q' = Some pend \<Longrightarrow> pending_valid S pend cst es"
    using session_reachable [OF assms] by (auto simp: sink_session_ok_def)
  show ?thesis
  proof (intro conjI allI impI)
    show "\<exists>rest. sess_accepted q' = sess_settled q' @ rest" by (rule log_prefix [OF inv(1)])
  next
    fix bef batch assume "sess_pending q' = Some (PendingLoaded bef batch)"
    then have "pending_valid S (PendingLoaded bef batch) cst es" by (rule inv(2))
    then obtain n where n: "0 < n" "n \<le> 1024" "first_event_offset (loaded_delivery batch) = event_offset (head bef)"
      "unat (event_offset (head bef)) = Suc (length (sess_settled q'))" "n + length (sess_settled q') \<le> length (sess_accepted q')"
      "change_events (sink_arrow S) (delivery_change (loaded_delivery batch)) = take n (drop (length (sess_settled q')) (sess_accepted q'))"
      by (rule pending_batch [OF inv(1)])
    show "\<exists>n. 0 < n \<and> n \<le> 1024 \<and> n + length (sess_settled q') \<le> length (sess_accepted q') \<and>
          batch_events S (PendingLoaded bef batch) = take n (drop (length (sess_settled q')) (sess_accepted q')) \<and>
          unat (first_event_offset (loaded_delivery batch)) = Suc (length (sess_settled q'))"
      by (rule exI [of _ n]) (simp add: n batch_events_def)
  qed
qed

theorem sink_exactly_once_witness:
  "\<exists>q bef batch n. (sink_step mem_engine mem_contents sample_sink)\<^sup>*\<^sup>* sample_session q \<and> sess_pending q = Some (PendingLoaded bef batch) \<and>
     0 < n \<and> batch_events sample_sink (PendingLoaded bef batch) = take n [([7], True), ([8], True), ([9], True)] \<and>
     unat (first_event_offset (loaded_delivery batch)) = 1"
proof -
  obtain q bef batch where q: "(sink_step mem_engine mem_contents sample_sink)\<^sup>*\<^sup>* sample_session q"
    "sess_pending q = Some (PendingLoaded bef batch)" "sess_accepted q = [([7], True), ([8], True), ([9], True)]" "sess_settled q = []"
    using sample_loaded by blast
  show ?thesis
    using sink_exactly_once [OF mem_engine_laws sample_sink_env sample_start q(1)] q by fastforce
qed

text \<open>
  C24: While the store works, a sink with no delivery under way never gets stuck: loading succeeds; if an accepted event is not
  yet settled it yields a non-empty batch, and settling that batch succeeds; otherwise it yields no batch (the sink is
  idle or has to be initialized).
\<close>
theorem sink_settles_next:
  assumes "engine_laws E V" and "engine_reliable E" and "sink_env S" and "joins (load_context_of S buffer_EMPTY)"
    and "session_start V S q" and "(sink_step E V S)\<^sup>*\<^sup>* q q'"
  shows "\<exists>out w. buffered_load E S (sess_world q', Write (sess_store q')) = (Inr out, (w, Write (sess_store q'))) \<and>
    (sess_accepted q' \<noteq> sess_settled q' \<longrightarrow>
       (\<exists>bef batch w' t. out = Some (PendingLoaded bef batch) \<and> batch_events S (PendingLoaded bef batch) \<noteq> [] \<and>
          buffered_settle E S (PendingLoaded bef batch) (w, sess_store q') = (Inr (), (w', t)))) \<and>
    (sess_accepted q' = sess_settled q' \<longrightarrow> (\<forall>bef batch. out \<noteq> Some (PendingLoaded bef batch)))"
proof -
  obtain cst es where inv: "sink_usable S (Write (sess_store q'))" "sink_holds S cst es (V (inner (sess_store q')))"
    "sink_cached S cst es (head_cache (sess_world q'))" "log_ok S cst es (sess_accepted q') (sess_settled q')"
    using session_reachable [OF assms(1,3,5,6)] by (auto simp: sink_session_ok_def)
  obtain out w where load: "buffered_load E S (sess_world q', Write (sess_store q')) = (Inr out, (w, Write (sess_store q')))"
    "load_outcome S cst es out"
    by (rule buffered_load_total [OF assms(1-4) inv(1) _ inv(3)]) (use inv(2) in simp_all)
  have batch: "\<exists>w' t. batch_events S pend \<noteq> [] \<and> sess_accepted q' \<noteq> sess_settled q' \<and>
      buffered_settle E S pend (w, sess_store q') = (Inr (), (w', t))"
    if out: "out = Some pend" and pend: "pend = PendingLoaded bef batch" for pend bef batch
  proof -
    obtain n gone rest where "cst = Some (Ready bef)" "loaded_from S bef batch es n gone rest"
      using load(2) out pend by (auto simp: load_outcome_def)
    then have valid: "cst \<noteq> None" "pending_valid S pend cst es"
      unfolding pending_valid_def pend sink_pending.case by (auto intro: exI [of _ "[]"])
    obtain m where "0 < m" "m + length (sess_settled q') \<le> length (sess_accepted q')"
      "change_events (sink_arrow S) (delivery_change (loaded_delivery batch)) = take m (drop (length (sess_settled q')) (sess_accepted q'))"
      by (rule pending_batch [OF inv(4) valid(2) [unfolded pend]])
    then have "batch_events S pend \<noteq> []" "sess_accepted q' \<noteq> sess_settled q'" by (auto simp: pend batch_events_def)
    moreover obtain w' t where "buffered_settle E S pend (w, sess_store q') = (Inr (), (w', t))"
      by (rule buffered_settle_total [OF assms(1,2) inv(1,2) valid(2,1)])
    ultimately show ?thesis by blast
  qed
  have "sess_accepted q' = sess_settled q'" if "\<And>bef batch. out \<noteq> Some (PendingLoaded bef batch)"
  proof -
    have "es = []" using load(2) inv(2) that
      by (auto simp: load_outcome_def sink_holds_def split: option.splits sink_pending.splits if_splits)
    then show ?thesis using log_empty_outbox inv(4) by blast
  qed
  note idle = this
  show ?thesis
  proof (intro exI [of _ out] exI [of _ w] conjI impI allI notI)
    show "buffered_load E S (sess_world q', Write (sess_store q')) = (Inr out, (w, Write (sess_store q')))" by (rule load(1))
  next
    assume "sess_accepted q' \<noteq> sess_settled q'"
    then obtain bef batch where out: "out = Some (PendingLoaded bef batch)" using idle by blast
    with batch show "\<exists>bef batch w' t. out = Some (PendingLoaded bef batch) \<and> batch_events S (PendingLoaded bef batch) \<noteq> [] \<and>
        buffered_settle E S (PendingLoaded bef batch) (w, sess_store q') = (Inr (), (w', t))" by blast
  next
    fix bef batch assume "sess_accepted q' = sess_settled q'" "out = Some (PendingLoaded bef batch)"
    then show False using batch by blast
  qed
qed

theorem sink_settles_next_witness:
  "\<exists>q bef batch w w' t. (sink_step mem_engine mem_contents sample_sink)\<^sup>*\<^sup>* sample_session q \<and> sess_accepted q \<noteq> sess_settled q \<and>
     buffered_load mem_engine sample_sink (sess_world q, Write (sess_store q)) = (Inr (Some (PendingLoaded bef batch)), (w, Write (sess_store q))) \<and>
     buffered_settle mem_engine sample_sink (PendingLoaded bef batch) (w, sess_store q) = (Inr (), (w', t))"
proof -
  obtain q where q: "(sink_step mem_engine mem_contents sample_sink)\<^sup>*\<^sup>* sample_session q" "sess_accepted q \<noteq> sess_settled q"
    using sample_loaded by auto
  show ?thesis
    using sink_settles_next [OF mem_engine_laws mem_engine_reliable sample_sink_env sample_joins sample_start q(1)] q by blast
qed

text \<open>
  C25: Admission is exact. Over a working store a page with another schema is an error. A sink that is not initialized refuses every
  page. An initialized one fails, with the store unchanged, exactly for a page that cannot enter (an event without a charge between 1
  byte and 8 MiB, an encoding that fails or takes more than 8 MiB with its key, more than 1048576 events, or event offsets beyond 64
  bits); it refuses, with the store unchanged, a page for which the outbox has no room (1048576 events that wait, 64 MiB of entries with
  their keys); and it takes every other page, so that the outbox holds it after what it held before.
\<close>
theorem sink_enqueue_exact:
  assumes "engine_laws E V" and "engine_reliable E" and "sink_env S" and "sink_usable S (Write t)"
    and "sink_holds S cst es (V (inner t))" and "page_ok S page"
  shows "if batch_schema (sink_arrow S) (records page) \<noteq> codec_schema (sink_codec S) then \<exists>e. buffered_enqueue E S page t = (Inl e, t)
    else case cst of
      Some (Ready st) \<Rightarrow>
        if \<nexists>enc. page_enters S page enc \<and> unat (tail st) + total_events page < 2 ^ 64
        then \<exists>e. buffered_enqueue E S page t = (Inl e, t)
        else \<exists>enc. page_enters S page enc \<and>
          (if \<not> outbox_room S st es page enc then buffered_enqueue E S page t = (Inr False, t)
           else \<exists>st' t'. buffered_enqueue E S page t = (Inr True, t') \<and> head st' = head st \<and>
             sink_holds S (Some (Ready st')) (es @ [(enc, page)]) (V (inner t')))
    | _ \<Rightarrow> buffered_enqueue E S page t = (Inr False, t)"
proof (cases "batch_schema (sink_arrow S) (records page) = codec_schema (sink_codec S)")
  case True
  note ready = buffered_enqueue_ready [OF assms(1,2,4,5) True]
  have laws: "codec_laws (sink_codec S)" "sizes_calm (sink_target S)" using assms(3) by (simp_all add: sink_env_def)
  have "if \<nexists>enc. page_enters S page enc \<and> unat (tail st) + total_events page < 2 ^ 64
        then \<exists>e. buffered_enqueue E S page t = (Inl e, t)
        else \<exists>enc. page_enters S page enc \<and>
          (if \<not> outbox_room S st es page enc then buffered_enqueue E S page t = (Inr False, t)
           else \<exists>st' t'. buffered_enqueue E S page t = (Inr True, t') \<and> head st' = head st \<and>
             sink_holds S (Some (Ready st')) (es @ [(enc, page)]) (V (inner t')))" if cst: "cst = Some (Ready st)" for st
  proof -
    have run: "buffered_enqueue E S page t = enqueue_ready E S page st t" using ready by (simp add: cst)
    have holds: "sink_holds S (Some (Ready st)) es (V (inner t))" using assms(5) by (simp add: cst)
    note decide = enqueue_ready_cases [OF laws(1) holds assms(6)]
    have taken: "\<exists>st' t'. enqueue_ready E S page st t = (Inr True, t') \<and> head st' = head st \<and>
        sink_holds S (Some (Ready st')) (es @ [(enc, page)]) (V (inner t'))"
      if enc: "page_enters S page enc" "unat (tail st) + total_events page < 2 ^ 64" "outbox_room S st es page enc" for enc
    proof -
      note acc = decide(3) [OF enc]
      let ?st = "\<lparr>head = head st, tail = tail st + word_of_nat (total_events page), retained_bytes = retained_bytes st + word_of_nat (length enc + 8)\<rparr>"
      have "wp (enqueue_ready E S page st) (\<lambda>b t'. b \<and> (\<exists>st'. head st' = head st \<and>
          sink_holds S (Some (Ready st')) (es @ [(enc, page)]) (V (inner t')))) (\<lambda>_ _. False) t"
        by (rule wp_enqueue_ready [OF assms(1) laws assms(4) holds assms(6) True]) (use acc assms(2) in \<open>auto intro!: exI [of _ ?st]\<close>)
      then show ?thesis by (auto simp: wp_from_result)
    qed
    show ?thesis
    proof (cases "\<exists>enc. page_enters S page enc \<and> unat (tail st) + total_events page < 2 ^ 64")
      case True
      then obtain enc where enc: "page_enters S page enc" "unat (tail st) + total_events page < 2 ^ 64" by blast
      with True decide(2) [OF enc] taken [OF enc] show ?thesis
        unfolding run by (simp del: not_ex) (intro exI [of _ enc], auto)
    qed (use decide(1) run in simp)
  qed
  note decided = this
  show ?thesis
  proof (cases "\<exists>st. cst = Some (Ready st)")
    case ready: True
    then obtain st where "cst = Some (Ready st)" by blast
    with decided [OF this] True show ?thesis by simp
  next
    case False
    then have "buffered_enqueue E S page t = (Inr False, t)" using ready by (auto split: option.split control_state.split)
    then show ?thesis using True False by (auto split: option.split control_state.split)
  qed
qed (simp add: buffered_enqueue_def sem_throw_def)

theorem sink_enqueue_exact_witness:
  "(\<exists>st t. buffered_enqueue mem_engine sample_sink (unit_page [7, 8, 9]) (initialized_store (Ready buffer_EMPTY)) = (Inr True, t) \<and>
     sink_holds sample_sink (Some (Ready st)) ([] @ [([7, 8, 9], unit_page [7, 8, 9])]) (mem_contents (inner t)))"
proof -
  let ?page = "unit_page [7, 8, 9]"
  have page: "page_ok sample_sink ?page" by (simp add: page_ok_def change_ok_def num_rows_def unit_page_def)
  have schema: "batch_schema (sink_arrow sample_sink) (records ?page) = codec_schema (sink_codec sample_sink)"
    using sample_acceptable by (simp add: acceptable_def)
  have total: "total_events ?page = 3" by (simp add: unit_page_def diff_values_def diff_value_def magnitude_def)
  have enters: "page_enters sample_sink ?page enc \<longleftrightarrow> enc = [7, 8, 9]" for enc
    using total by (auto simp: page_enters_def sample_sink_def unit_page_def)
  have tail: "unat (tail buffer_EMPTY) = 1" by (simp add: buffer_EMPTY_def)
  have room: "outbox_room sample_sink buffer_EMPTY [] ?page [7, 8, 9]"
    using total by (simp add: outbox_room_def waiting_events_def pending_from_def)
  show ?thesis
    using sink_enqueue_exact [OF mem_engine_laws mem_engine_reliable sample_sink_env initialized_holds(1)
        initialized_holds(2) [of "Ready buffer_EMPTY"] page] schema enters room total tail by auto
qed

text \<open>
  The durable control state of a sink has exactly one encoding: decoding accepts the encodings of the valid states and nothing
  else, so no truncated, extended or inconsistent bytes are taken for a state.
\<close>
theorem sink_control_roundtrip: "decode_control bs = Inr s \<longleftrightarrow> bs = encode_control s \<and> control_valid s"
  by (rule decode_control_iff)

end
