(* ===== verification/Sink_Plan.thy ===== *)
theory Sink_Plan
  imports Sink_Buffered
begin

text \<open>
  How a delivery becomes mutations of an external relation: \<^verbatim>\<open>crates/operation/src/operation/sink/relation/plan.rs\<close> and
  \<^verbatim>\<open>relation/mod.rs\<close>.

  A delivery is a run of unit events, each a row that is inserted or deleted, numbered by absolute event offsets. An inserted
  row gets its offset as identity; a deletion takes the oldest identity of an equal row. The planner asks the target for the
  identities of the rows it has to delete and for how far each of them has been applied, and plans what is missing.

  Rows are compared by their canonical bytes, single retained rows by Arrow's equality of batches, the parameter \<open>same\<close>. What
  the target answers is the parameter \<open>lookup\<close>. Event counts and positions in a batch are at most \<open>1024\<close> once
  the input is validated; sums of them that the source leaves unchecked wrap here.
\<close>

section \<open>Definitions\<close>

definition relation_invalid :: "string \<Rightarrow> operation_error" where
  "relation_invalid m = Other (''relation sink: '' @ m) None"

definition FIRST_TECHNICAL_ID :: u64 where
  "FIRST_TECHNICAL_ID = 1"

definition MAX_TECHNICAL_ID :: u64 where
  "MAX_TECHNICAL_ID = - 1 - 1"

record insert_mutation =
  insert_row :: u64
  insert_id :: u64

record delete_mutation =
  delete_row :: u64
  delete_id :: u64
  delete_event :: u64

record mutation_batch =
  batch_inserts :: "insert_mutation list"
  batch_deletes :: "delete_mutation list"

definition encode_signed_id :: "u64 \<Rightarrow> i64" where
  "encode_signed_id i = i XOR push_bit 63 1"

definition validate_technical_id :: "u64 \<Rightarrow> operation_error + unit" where
  "validate_technical_id i =
     (if FIRST_TECHNICAL_ID \<le> i \<and> i \<le> MAX_TECHNICAL_ID then Inr ()
      else Inl (relation_invalid ''technical ID is outside 1..u64::MAX''))"

definition decode_signed_id :: "i64 \<Rightarrow> operation_error + u64" where
  "decode_signed_id v =
     (let i = v XOR push_bit 63 1
      in case validate_technical_id i of Inl e \<Rightarrow> Inl e | Inr _ \<Rightarrow> Inr i)"

record terminal_mutation =
  terminal_row :: u64
  terminal_id :: u64
  terminal_version :: u64

text \<open>A \<^verbatim>\<open>BTreeMap\<close> is the list of its values in the order of their keys, which are the identities.\<close>

fun terminal_put :: "terminal_mutation \<Rightarrow> terminal_mutation list \<Rightarrow> terminal_mutation list" where
  "terminal_put m [] = [m]"
| "terminal_put m (x # xs) =
     (if terminal_id m < terminal_id x then m # x # xs
      else if terminal_id m = terminal_id x then m # xs
      else x # terminal_put m xs)"

definition terminal_insert :: "insert_mutation \<Rightarrow> terminal_mutation list \<Rightarrow> terminal_mutation list" where
  "terminal_insert i = terminal_put \<lparr>terminal_row = insert_row i, terminal_id = insert_id i, terminal_version = insert_id i\<rparr>"

definition terminal_delete :: "delete_mutation \<Rightarrow> terminal_mutation list \<Rightarrow> terminal_mutation list" where
  "terminal_delete d = terminal_put \<lparr>terminal_row = delete_row d, terminal_id = delete_id d, terminal_version = delete_event d\<rparr>"

definition terminal_mutations :: "mutation_batch \<Rightarrow> terminal_mutation list" where
  "terminal_mutations b = fold terminal_delete (batch_deletes b) (fold terminal_insert (batch_inserts b) [])"

record lookup_request =
  lookup_row :: nat
  lookup_take :: nat

record row_matches =
  match_through :: u64
  match_ids :: "u64 list"

subsection \<open>Charges and values\<close>

definition relation_event_bytes :: "('a, 'b) tables \<Rightarrow> 'b change \<Rightarrow> nat \<Rightarrow> operation_error + u64" where
  "relation_event_bytes T c row =
     (case canonical_row_size_bounded (table_columns T) (records c) row (unat MAX_TARGET_BATCH_BYTES) of
        Inl e \<Rightarrow> Inl (row_boxed e)
      | Inr canonical \<Rightarrow>
          (let columns = batch_columns (table_arrow T) (records c) + 2
           in if columns > usize_max then Inl (relation_invalid ''target mutation column count exceeds usize'')
              else if canonical + (8 + 16) > usize_max \<or> columns * 8 > usize_max \<or> canonical + (8 + 16) + columns * 8 > usize_max
              then Inl (relation_invalid ''target mutation byte charge exceeds u64'')
              else Inr (word_of_nat (canonical + (8 + 16) + columns * 8))))"

fun target_values ::
  "'a arrays \<Rightarrow> nat \<Rightarrow> (field \<Rightarrow> bytes \<Rightarrow> 'v) \<Rightarrow> (field \<times> 'a) list \<Rightarrow> bytes \<times> 'v list \<Rightarrow> row_error + bytes \<times> 'v list" where
  "target_values A row val [] acc = Inr acc"
| "target_values A row val ((f, a) # cols) (canonical, vals) =
     (case encode_canonical A f a row (field_name f) canonical of
        (Inl e, _) \<Rightarrow> Inl e
      | (Inr _, canonical') \<Rightarrow> target_values A row val cols (canonical', vals @ [val f (drop (length canonical) canonical')]))"

definition encode_target_values ::
  "('a, 'b) tables \<Rightarrow> schema \<Rightarrow> 'b \<Rightarrow> nat \<Rightarrow> (field \<Rightarrow> bytes \<Rightarrow> 'v) \<Rightarrow> row_error + bytes \<times> 'v list" where
  "encode_target_values T schema b row val =
     (if batch_schema (table_arrow T) b \<noteq> schema then Inl RowSchemaMismatch
      else if row \<ge> batch_rows (table_arrow T) b then Inl (RowOutOfBounds row (batch_rows (table_arrow T) b))
      else target_values (table_arrays T) row val (zip (schema_fields schema) (batch_arrays (table_columns T) b)) ([], []))"

subsection \<open>Admission of a delivery\<close>

definition MAX_CANONICAL_BATCH_BYTES :: nat where
  "MAX_CANONICAL_BATCH_BYTES = 8 * 1024 * 1024"

definition validate_input :: "'b delivery_batch \<Rightarrow> operation_error + nat" where
  "validate_input input =
     (case validate_technical_id (first_event_offset input) of
        Inl e \<Rightarrow> Inl e
      | Inr _ \<Rightarrow>
          (case sum_events 0 (diff_values (delivery_change input)) of
             Inl _ \<Rightarrow> Inl (relation_invalid ''relation batch event count exceeds u64'')
           | Inr n \<Rightarrow>
               if n = 0 \<or> n > MAX_MUTATIONS_PER_BATCH then Inl (relation_invalid ''relation batch exceeds its mutation limit'')
               else if checked_add_u64 (first_event_offset input) n = None
               then Inl (relation_invalid ''relation batch event range exceeds u64'')
               else Inr (unat n)))"

fun canonical_sizes :: "('a, 'b) tables \<Rightarrow> 'b \<Rightarrow> nat list \<Rightarrow> nat \<Rightarrow> operation_error + unit" where
  "canonical_sizes T b [] left = Inr ()"
| "canonical_sizes T b (row # rows) left =
     (case canonical_row_size_bounded (table_columns T) b row left of
        Inl e \<Rightarrow> Inl (row_boxed e)
      | Inr n \<Rightarrow> canonical_sizes T b rows (left - n))"

definition check_canonical_budget :: "('a, 'b) tables \<Rightarrow> 'b change \<Rightarrow> operation_error + unit" where
  "check_canonical_budget T c = canonical_sizes T (records c) [0..<num_rows (table_arrow T) c] MAX_CANONICAL_BATCH_BYTES"

fun canonical_rows :: "('a, 'b) tables \<Rightarrow> 'b \<Rightarrow> nat list \<Rightarrow> nat \<Rightarrow> operation_error + bytes list" where
  "canonical_rows T b [] left = Inr []"
| "canonical_rows T b (row # rows) left =
     (case canonical_row_bounded (table_columns T) b row left of
        Inl e \<Rightarrow> Inl (row_boxed e)
      | Inr encoded \<Rightarrow> map_sum id (Cons encoded) (canonical_rows T b rows (left - length encoded)))"

definition bounded_canonical_rows :: "('a, 'b) tables \<Rightarrow> 'b change \<Rightarrow> operation_error + bytes list" where
  "bounded_canonical_rows T c = canonical_rows T (records c) [0..<num_rows (table_arrow T) c] MAX_CANONICAL_BATCH_BYTES"

subsection \<open>Insertions only\<close>

primrec derive_row :: "u64 \<Rightarrow> nat \<Rightarrow> nat \<Rightarrow> u64 \<times> insert_mutation list \<Rightarrow> u64 \<times> insert_mutation list" where
  "derive_row from_event row 0 acc = acc"
| "derive_row from_event row (Suc n) acc =
     derive_row from_event row n
       (case acc of (offset, ins) \<Rightarrow>
          (offset + 1, if from_event \<le> offset then ins @ [\<lparr>insert_row = word_of_nat row, insert_id = offset\<rparr>] else ins))"

fun derive_rows :: "u64 \<Rightarrow> nat \<Rightarrow> i64 list \<Rightarrow> u64 \<times> insert_mutation list \<Rightarrow> u64 \<times> insert_mutation list" where
  "derive_rows from_event row [] acc = acc"
| "derive_rows from_event row (d # ds) acc = derive_rows from_event (Suc row) ds (derive_row from_event row (unat (unsigned_abs d)) acc)"

definition derive_inserts :: "'b delivery_batch \<Rightarrow> u64 \<Rightarrow> mutation_batch" where
  "derive_inserts input from_event =
     \<lparr>batch_inserts = snd (derive_rows from_event 0 (diff_values (delivery_change input)) (first_event_offset input, [])), batch_deletes = []\<rparr>"

subsection \<open>Groups of equal rows\<close>

record row_plan =
  plan_row :: nat
  plan_take :: nat
  plan_through :: u64
  plan_ids :: "u64 list"

definition saturating_sub_u64 :: "u64 \<Rightarrow> u64 \<Rightarrow> u64" where
  "saturating_sub_u64 a b = (if b \<le> a then a - b else 0)"

record grouping =
  grp_plans :: "row_plan list"
  grp_keys :: "bytes \<rightharpoonup> nat"
  grp_rows :: "nat list"
  grp_offset :: u64

definition group_row :: "u64 \<Rightarrow> nat \<times> bytes \<times> i64 \<Rightarrow> grouping \<Rightarrow> grouping" where
  "group_row from_event = (\<lambda>(row, canonical, d) G.
     let fresh = grp_keys G canonical = None;
         grp = (case grp_keys G canonical of Some g \<Rightarrow> g | None \<Rightarrow> length (grp_plans G));
         plans = (if fresh then grp_plans G @ [\<lparr>plan_row = row, plan_take = 0, plan_through = 0, plan_ids = []\<rparr>] else grp_plans G);
         row_end = grp_offset G + unsigned_abs d;
         wanted = unat (saturating_sub_u64 row_end (max from_event (grp_offset G)))
     in G\<lparr>grp_plans := (if sint d < 0 then plans[grp := (plans ! grp)\<lparr>plan_take := plan_take (plans ! grp) + wanted\<rparr>] else plans),
          grp_keys := (if fresh then (grp_keys G)(canonical \<mapsto> grp) else grp_keys G),
          grp_rows := grp_rows G @ [grp],
          grp_offset := row_end\<rparr>)"

definition group_all :: "u64 \<Rightarrow> u64 \<Rightarrow> bytes list \<Rightarrow> i64 list \<Rightarrow> grouping" where
  "group_all from_event first keys ds =
     fold (group_row from_event) (zip [0..<length keys] (zip keys ds))
       \<lparr>grp_plans = [], grp_keys = Map.empty, grp_rows = [], grp_offset = first\<rparr>"

fun strictly_ascending :: "u64 list \<Rightarrow> bool" where
  "strictly_ascending (x # y # xs) = (x < y \<and> strictly_ascending (y # xs))"
| "strictly_ascending _ = True"

definition validate_matches :: "nat \<Rightarrow> row_matches \<Rightarrow> u64 \<Rightarrow> operation_error + unit" where
  "validate_matches wanted found tl_event =
     (if match_through found \<ge> tl_event \<or> length (match_ids found) > wanted \<or>
         list_ex (\<lambda>i. i = 0 \<or> i > match_through found) (match_ids found) \<or> \<not> strictly_ascending (match_ids found)
      then Inl (relation_invalid ''target returned invalid matching row progress or IDs'') else Inr ())"

text \<open>Whether every identity is new, and the set of those seen.\<close>

fun insert_ids :: "u64 list \<Rightarrow> u64 list \<Rightarrow> u64 list option" where
  "insert_ids [] unique = Some unique"
| "insert_ids (i # is) unique = (if i \<in> set unique then None else insert_ids is (i # unique))"

fun install_matches :: "u64 \<Rightarrow> row_plan list \<Rightarrow> row_matches list \<Rightarrow> u64 list \<Rightarrow> operation_error + row_plan list" where
  "install_matches tl_event [] ms unique = Inr []"
| "install_matches tl_event (g # gs) ms unique =
     (if plan_take g = 0 then map_sum id (Cons g) (install_matches tl_event gs ms unique)
      else (case ms of
        [] \<Rightarrow> Inr (g # gs)
      | found # ms' \<Rightarrow>
          (case validate_matches (plan_take g) found tl_event of
             Inl e \<Rightarrow> Inl e
           | Inr _ \<Rightarrow>
               (case insert_ids (match_ids found) unique of
                  None \<Rightarrow> Inl (relation_invalid ''target returned an ID for multiple logical rows'')
                | Some unique' \<Rightarrow>
                    map_sum id (Cons (g\<lparr>plan_through := match_through found, plan_ids := match_ids found\<rparr>))
                      (install_matches tl_event gs ms' unique')))))"

definition lookup_groups ::
  "row_plan list \<Rightarrow> u64 \<Rightarrow> (lookup_request list \<Rightarrow> operation_error + row_matches list) \<Rightarrow> operation_error + row_plan list" where
  "lookup_groups groups tl_event lookup =
     (let requests = map (\<lambda>g. \<lparr>lookup_row = plan_row g, lookup_take = plan_take g\<rparr>) (filter (\<lambda>g. plan_take g \<noteq> 0) groups)
      in if requests = [] then Inr groups
         else (case lookup requests of
           Inl e \<Rightarrow> Inl e
         | Inr ms \<Rightarrow>
             if length ms \<noteq> length requests then Inl (relation_invalid ''target returned a different number of lookup results'')
             else install_matches tl_event groups ms []))"

subsection \<open>The mutations\<close>

record planning =
  pln_groups :: "row_plan list"
  pln_inserts :: "insert_mutation list"
  pln_deletes :: "delete_mutation list"
  pln_births :: "(u64 \<times> nat) list"
  pln_offset :: u64

text \<open>One unit event of a row.\<close>

definition plan_event :: "u64 \<Rightarrow> u64 \<Rightarrow> nat \<Rightarrow> nat \<Rightarrow> i64 \<Rightarrow> planning \<Rightarrow> operation_error + planning" where
  "plan_event from_event head_start row grp d P =
     (let g = pln_groups P ! grp; offset = pln_offset P; P' = P\<lparr>pln_offset := offset + 1\<rparr>
      in if from_event \<le> offset \<and> plan_through g < offset then
           (if sint d > 0 then
              Inr (P'\<lparr>pln_groups := (pln_groups P)[grp := g\<lparr>plan_ids := plan_ids g @ [offset]\<rparr>],
                      pln_inserts := pln_inserts P @ [\<lparr>insert_row = word_of_nat row, insert_id = offset\<rparr>]\<rparr>)
            else (case plan_ids g of
              [] \<Rightarrow> Inl (relation_invalid ''target returned too few IDs for the remaining row prefix'')
            | i # is \<Rightarrow>
                if i \<ge> offset then Inl (relation_invalid ''deletion cannot consume a later event'')
                else
                  Inr (P'\<lparr>pln_groups := (pln_groups P)[grp := g\<lparr>plan_ids := is\<rparr>],
                          pln_births := (if head_start \<le> i \<and> i \<le> plan_through g then pln_births P @ [(i, row)] else pln_births P),
                          pln_deletes := pln_deletes P @ [\<lparr>delete_row = word_of_nat row, delete_id = i, delete_event = offset\<rparr>]\<rparr>)))
         else Inr P')"

primrec plan_events :: "u64 \<Rightarrow> u64 \<Rightarrow> nat \<Rightarrow> nat \<Rightarrow> i64 \<Rightarrow> nat \<Rightarrow> planning \<Rightarrow> operation_error + planning" where
  "plan_events from_event head_start row grp d 0 P = Inr P"
| "plan_events from_event head_start row grp d (Suc n) P =
     (case plan_event from_event head_start row grp d P of
        Inl e \<Rightarrow> Inl e
      | Inr P' \<Rightarrow> plan_events from_event head_start row grp d n P')"

fun plan_rows :: "u64 \<Rightarrow> u64 \<Rightarrow> (nat \<times> nat \<times> i64) list \<Rightarrow> planning \<Rightarrow> operation_error + planning" where
  "plan_rows from_event head_start [] P = Inr P"
| "plan_rows from_event head_start ((row, grp, d) # rows) P =
     (case plan_events from_event head_start row grp d (unat (unsigned_abs d)) P of
        Inl e \<Rightarrow> Inl e
      | Inr P' \<Rightarrow> plan_rows from_event head_start rows P')"

subsection \<open>Evidence for retained births\<close>

text \<open>The scan of the retained differences, one per row, up to the row whose interval ends behind an identity.\<close>

function birth_row :: "i64 list \<Rightarrow> u64 \<Rightarrow> nat \<times> u64 \<Rightarrow> operation_error + nat \<times> u64" where
  "birth_row ds i (row, stop) =
     (if stop \<le> i then
        (if row \<ge> length ds then Inl (relation_invalid ''matching ID is outside the retained head entry'')
         else (case checked_add_u64 stop (unsigned_abs (ds ! row)) of
           None \<Rightarrow> Inl (relation_invalid ''retained head event range exceeds u64'')
         | Some stop' \<Rightarrow> birth_row ds i (Suc row, stop')))
      else Inr (row, stop))"
  by pat_completeness auto

termination
  by (relation "measure (\<lambda>(ds, i, row, stop). length ds - row)") auto

declare birth_row.simps [simp del]

definition check_birth ::
  "('a, 'b) tables \<Rightarrow> ('b \<Rightarrow> 'b \<Rightarrow> bool) \<Rightarrow> 'b change \<Rightarrow> 'b change \<Rightarrow> nat \<Rightarrow> nat \<Rightarrow> nat list \<Rightarrow> operation_error + unit" where
  "check_birth T same old_change current source current_row checked =
     (case (if source \<in> set checked then Inr 0
            else canonical_row_size_bounded (table_columns T) (records old_change) source MAX_CANONICAL_BATCH_BYTES) of
        Inl e \<Rightarrow> Inl (row_boxed e)
      | Inr _ \<Rightarrow>
          if same (batch_slice (table_arrow T) (records old_change) source 1) (batch_slice (table_arrow T) (records current) current_row 1)
          then Inr () else Inl (relation_invalid ''matching ID belongs to a different retained birth row''))"

fun validate_births ::
  "('a, 'b) tables \<Rightarrow> ('b \<Rightarrow> 'b \<Rightarrow> bool) \<Rightarrow> 'b change \<Rightarrow> 'b change \<Rightarrow> (u64 \<times> nat) list \<Rightarrow> nat \<times> u64 \<Rightarrow> nat list \<Rightarrow> (nat \<times> nat) list \<Rightarrow>
   operation_error + unit" where
  "validate_births T same old_change current [] pos checked compared = Inr ()"
| "validate_births T same old_change current ((i, current_row) # prior) pos checked compared =
     (case birth_row (diff_values old_change) i pos of
        Inl e \<Rightarrow> Inl e
      | Inr (row, stop) \<Rightarrow>
          if row = 0 then Inl (Unwind ''attempt to subtract with overflow'')
          else
            (let source = row - 1
             in if sint (diff_values old_change ! source) \<le> 0
                then Inl (relation_invalid ''matching ID was born in a retained negative event'')
                else if (source, current_row) \<in> set compared then validate_births T same old_change current prior (row, stop) checked compared
                else (case check_birth T same old_change current source current_row checked of
                  Inl e \<Rightarrow> Inl e
                | Inr _ \<Rightarrow>
                    validate_births T same old_change current prior (row, stop) (source # checked) ((source, current_row) # compared))))"

definition validate_retained_births ::
  "('a, 'b) tables \<Rightarrow> ('b \<Rightarrow> 'b \<Rightarrow> bool) \<Rightarrow> u64 \<Rightarrow> 'b change \<Rightarrow> (u64 \<times> nat) list \<Rightarrow> 'b change \<Rightarrow> operation_error + unit" where
  "validate_retained_births T same start old_change prior current = validate_births T same old_change current prior (0, start) [] []"

subsection \<open>The plan\<close>

definition plan_groups ::
  "('a, 'b) tables \<Rightarrow> 'b delivery_batch \<Rightarrow> u64 \<Rightarrow> u64 \<Rightarrow> u64 \<Rightarrow> nat \<Rightarrow>
   (lookup_request list \<Rightarrow> operation_error + row_matches list) \<Rightarrow> operation_error + planning" where
  "plan_groups T input from_event tl_event head_start left lookup =
     (case bounded_canonical_rows T (delivery_change input) of
        Inl e \<Rightarrow> Inl e
      | Inr keys \<Rightarrow>
          (let ds = diff_values (delivery_change input); G = group_all from_event (first_event_offset input) keys ds
           in case lookup_groups (grp_plans G) tl_event lookup of
                Inl e \<Rightarrow> Inl e
              | Inr groups \<Rightarrow>
                  if sum_list (map plan_take groups) > left then Inl (Unwind ''attempt to subtract with overflow'')
                  else plan_rows from_event head_start (zip [0..<length (grp_rows G)] (zip (grp_rows G) ds))
                    \<lparr>pln_groups = groups, pln_inserts = [], pln_deletes = [], pln_births = [], pln_offset = first_event_offset input\<rparr>))"

definition plan ::
  "('a, 'b) tables \<Rightarrow> ('b \<Rightarrow> 'b \<Rightarrow> bool) \<Rightarrow> 'b delivery_batch \<Rightarrow> u64 \<Rightarrow> u64 \<Rightarrow> u64 \<times> 'b change \<Rightarrow>
   (lookup_request list \<Rightarrow> operation_error + row_matches list) \<Rightarrow> operation_error + mutation_batch" where
  "plan T same input from_event tl_event original_head lookup =
     (case validate_input input of
        Inl e \<Rightarrow> Inl e
      | Inr _ \<Rightarrow>
          (case end_event_offset input of
             Inl e \<Rightarrow> Inl e
           | Inr stop \<Rightarrow>
               let first = first_event_offset input; c = delivery_change input
               in if from_event < first \<or> from_event > tl_event \<or> stop > tl_event \<or> fst original_head = 0 \<or> fst original_head > first
                  then Inl (relation_invalid ''invalid delivery prefix bounds'')
                  else if list_all (\<lambda>d. sint d > 0) (diff_values c) then
                    (case check_canonical_budget T c of Inl e \<Rightarrow> Inl e | Inr _ \<Rightarrow> Inr (derive_inserts input from_event))
                  else
                    (case plan_groups T input from_event tl_event (fst original_head) (unat (saturating_sub_u64 stop from_event)) lookup of
                       Inl e \<Rightarrow> Inl e
                     | Inr P \<Rightarrow>
                         let births = sort_key fst (pln_births P)
                         in case validate_retained_births T same (fst original_head) (snd original_head) (takeWhile (\<lambda>(i, _). i < first) births) c of
                              Inl e \<Rightarrow> Inl e
                            | Inr _ \<Rightarrow>
                                (case validate_retained_births T same first c (dropWhile (\<lambda>(i, _). i < first) births) c of
                                   Inl e \<Rightarrow> Inl e
                                 | Inr _ \<Rightarrow> Inr \<lparr>batch_inserts = pln_inserts P, batch_deletes = pln_deletes P\<rparr>))))"

end
