(* ===== verification/Sink_Identity.thy ===== *)
theory Sink_Identity
  imports Sink_Plan
begin

text \<open>
  The identities of rows as SQL integers, and the last mutation of each identity: facts on the parts of
  \<^verbatim>\<open>relation/mod.rs\<close> that the adapters of single databases use.
\<close>

section \<open>Signed identities\<close>

lemma top_bit_xor:
  fixes a :: u64
  assumes "unat a < 2 ^ 63"
  shows "a XOR push_bit 63 1 = a + 2 ^ 63" "unat (a + 2 ^ 63) = unat a + 2 ^ 63"
proof -
  have "\<not> bit (unat a) 63" using assms by (simp add: bit_iff_odd)
  then have "\<not> bit a 63" by (simp add: bit_unsigned_iff)
  moreover have "bit (push_bit 63 1 :: u64) n \<Longrightarrow> n = 63" for n by (auto simp only: bit_push_bit_iff bit_1_iff)
  ultimately have "\<not> (bit a n \<and> bit (push_bit 63 1 :: u64) n)" for n by blast
  then have "a AND push_bit 63 1 = 0" by (intro bit_eqI) (simp only: bit_and_iff bit_0_eq bot_apply bot_bool_def)
  then show "a XOR push_bit 63 1 = a + 2 ^ 63" by (simp add: disjunctive_add_eq_xor push_bit_eq_mult)
  show "unat (a + 2 ^ 63) = unat a + 2 ^ 63" using assms by (simp add: unat_word_ariths)
qed

lemma encode_signed_id_plus: "encode_signed_id i = i + 2 ^ 63"
proof (cases "unat i < 2 ^ 63")
  case True
  then show ?thesis using top_bit_xor(1) by (simp add: encode_signed_id_def)
next
  case False
  let ?j = "i + 2 ^ 63"
  have "(unat i + 2 ^ 63) mod 2 ^ 64 = unat i - 2 ^ 63"
    using False unat_u64_less [of i] by (intro mod_nat_eqI) auto
  then have j: "unat ?j < 2 ^ 63" using unat_u64_less [of i] by (simp add: unat_word_ariths)
  have "?j + 2 ^ 63 = i" by (simp add: add.assoc)
  then have "i = ?j XOR push_bit 63 1" using top_bit_xor(1) [OF j] by simp
  then show ?thesis unfolding encode_signed_id_def by (metis xor.assoc xor_self_eq xor.right_neutral)
qed

lemma signed_id_value: "sint (encode_signed_id i) = int (unat i) - 2 ^ 63"
proof (cases "unat i < 2 ^ 63")
  case True
  then show ?thesis using top_bit_xor(2) [of i] by (simp add: encode_signed_id_plus sint_u64_unat)
next
  case False
  have "(unat i + 2 ^ 63) mod 2 ^ 64 = unat i - 2 ^ 63"
    using False unat_u64_less [of i] by (intro mod_nat_eqI) auto
  then have "unat (i + 2 ^ 63) = unat i - 2 ^ 63" by (simp add: unat_word_ariths)
  then have "unat (encode_signed_id i) = unat i - 2 ^ 63" by (simp add: encode_signed_id_plus)
  moreover have "unat i - 2 ^ 63 < 2 ^ 63" "int (unat i - 2 ^ 63) = int (unat i) - 2 ^ 63"
    using False unat_u64_less [of i] by (simp_all add: of_nat_diff not_less less_diff_conv2)
  ultimately show ?thesis unfolding sint_u64_unat by (simp only: if_True)
qed

text \<open>The order of the signed values is that of the identities.\<close>

lemma signed_id_order: "sint (encode_signed_id i) < sint (encode_signed_id j) \<longleftrightarrow> i < j"
  by (simp add: signed_id_value word_less_def)

lemma signed_id_roundtrip: "decode_signed_id v = Inr i \<longleftrightarrow> v = encode_signed_id i \<and> validate_technical_id i = Inr ()"
proof -
  have undo: "(w XOR push_bit 63 1) XOR push_bit 63 1 = w" for w :: u64 by (simp only: xor.assoc xor_self_eq xor.right_neutral)
  have "v = encode_signed_id i \<longleftrightarrow> i = v XOR push_bit 63 1"
    unfolding encode_signed_id_def using undo [of i] undo [of v] by auto
  then show ?thesis by (auto simp: decode_signed_id_def Let_def split: sum.splits)
qed

section \<open>Last mutations\<close>

definition by_id :: "terminal_mutation list \<Rightarrow> u64 \<rightharpoonup> terminal_mutation" where
  "by_id xs = map_of (map (\<lambda>m. (terminal_id m, m)) xs)"

lemma terminal_put_set: "terminal_id ` set (terminal_put m xs) = insert (terminal_id m) (terminal_id ` set xs)"
  by (induction xs) auto

lemma terminal_put_sorted: "sorted_wrt (<) (map terminal_id xs) \<Longrightarrow> sorted_wrt (<) (map terminal_id (terminal_put m xs))"
proof (induction xs)
  case (Cons x xs)
  have "\<forall>y \<in> set (terminal_put m xs). terminal_id x < terminal_id y" if "terminal_id x < terminal_id m"
    using that Cons.prems terminal_put_set [of m xs] by (auto simp: image_iff) (metis (no_types, lifting) image_iff insertE)
  then show ?case using Cons by (fastforce simp: neq_iff)
qed simp

lemma terminal_put_by_id: "sorted_wrt (<) (map terminal_id xs) \<Longrightarrow> by_id (terminal_put m xs) = (by_id xs)(terminal_id m \<mapsto> m)"
proof (induction xs)
  case (Cons x xs)
  then show ?case by (auto simp: by_id_def fun_eq_iff)
qed (simp add: by_id_def)

definition update_by :: "('y \<Rightarrow> terminal_mutation) \<Rightarrow> 'y \<Rightarrow> (u64 \<rightharpoonup> terminal_mutation) \<Rightarrow> u64 \<rightharpoonup> terminal_mutation" where
  "update_by f y m = m(terminal_id (f y) \<mapsto> f y)"

lemma terminal_fold:
  assumes "sorted_wrt (<) (map terminal_id xs)"
  shows "sorted_wrt (<) (map terminal_id (fold (terminal_put \<circ> f) ys xs))"
    "by_id (fold (terminal_put \<circ> f) ys xs) = fold (update_by f) ys (by_id xs)"
  using assms by (induction ys arbitrary: xs) (simp_all add: terminal_put_sorted terminal_put_by_id update_by_def)

lemma fold_updates_other: "i \<notin> (terminal_id \<circ> f) ` set ys \<Longrightarrow> fold (update_by f) ys m i = m i"
  by (induction ys arbitrary: m) (auto simp: update_by_def)

lemma fold_updates_mem:
  "distinct (map (terminal_id \<circ> f) ys) \<Longrightarrow> y \<in> set ys \<Longrightarrow> fold (update_by f) ys m (terminal_id (f y)) = Some (f y)"
proof (induction ys arbitrary: m)
  case (Cons x ys)
  have "update_by f x m (terminal_id (f x)) = Some (f x)" by (simp add: update_by_def)
  then show ?case using Cons fold_updates_other [of "terminal_id (f x)" f ys] by (cases "y = x") (auto simp: image_iff)
qed simp

text \<open>
  The final mutations are in the order of their identities, one each: an identity that the plan deletes carries the row and the
  event of its deletion, one it only inserts carries its row and itself.
\<close>

lemma terminal_mutations_final:
  assumes "distinct (map insert_id (batch_inserts b))" "distinct (map delete_id (batch_deletes b))"
  shows "sorted_wrt (<) (map terminal_id (terminal_mutations b))"
    "\<And>d. d \<in> set (batch_deletes b) \<Longrightarrow>
       by_id (terminal_mutations b) (delete_id d) = Some \<lparr>terminal_row = delete_row d, terminal_id = delete_id d, terminal_version = delete_event d\<rparr>"
    "\<And>i. i \<in> set (batch_inserts b) \<Longrightarrow> insert_id i \<notin> delete_id ` set (batch_deletes b) \<Longrightarrow>
       by_id (terminal_mutations b) (insert_id i) = Some \<lparr>terminal_row = insert_row i, terminal_id = insert_id i, terminal_version = insert_id i\<rparr>"
proof -
  let ?i = "\<lambda>i. \<lparr>terminal_row = insert_row i, terminal_id = insert_id i, terminal_version = insert_id i\<rparr>"
  let ?d = "\<lambda>d. \<lparr>terminal_row = delete_row d, terminal_id = delete_id d, terminal_version = delete_event d\<rparr>"
  have folds: "terminal_mutations b = fold (terminal_put \<circ> ?d) (batch_deletes b) (fold (terminal_put \<circ> ?i) (batch_inserts b) [])"
    by (simp add: terminal_mutations_def terminal_insert_def [abs_def] terminal_delete_def [abs_def] comp_def)
  have mid: "sorted_wrt (<) (map terminal_id (fold (terminal_put \<circ> ?i) (batch_inserts b) []))" by (rule terminal_fold) simp
  show "sorted_wrt (<) (map terminal_id (terminal_mutations b))" unfolding folds by (rule terminal_fold [OF mid])
  have final: "by_id (terminal_mutations b) = fold (update_by ?d) (batch_deletes b) (fold (update_by ?i) (batch_inserts b) (by_id []))"
    unfolding folds by (simp only: terminal_fold(2) [OF mid] terminal_fold(2) [of "[]"] list.map sorted_wrt.simps)
  show "by_id (terminal_mutations b) (delete_id d) = Some (?d d)" if "d \<in> set (batch_deletes b)" for d
    using fold_updates_mem [of ?d "batch_deletes b" d] assms(2) that unfolding final by (simp add: comp_def)
  show "by_id (terminal_mutations b) (insert_id i) = Some (?i i)"
    if "i \<in> set (batch_inserts b)" "insert_id i \<notin> delete_id ` set (batch_deletes b)" for i
    using fold_updates_mem [of ?i "batch_inserts b" i] fold_updates_other [of "insert_id i" ?d "batch_deletes b"] assms(1) that
    unfolding final by (simp add: comp_def)
qed

end
