(* ===== verification/Sink_Replay.thy ===== *)
theory Sink_Replay
  imports Sink_Plan
begin

text \<open>
  What the planner of a relation sink computes. The reference is a replay of unit events on the live identities of each row,
  oldest first: an insertion appends its offset, a deletion takes the oldest. A plan carries exactly the events that the target
  has not applied, so that writing it to the target gives the state the replay ends in.
\<close>

section \<open>Unit events\<close>

text \<open>The offset of an event, the index and the key of its row, and whether it inserts.\<close>

type_synonym unit_event = "nat \<times> nat \<times> bytes \<times> bool"

fun units :: "nat \<Rightarrow> nat \<Rightarrow> (bytes \<times> i64) list \<Rightarrow> unit_event list" where
  "units s row [] = []"
| "units s row ((k, d) # rows) = map (\<lambda>e. (e, row, k, 0 < sint d)) [s..<s + magnitude d] @ units (s + magnitude d) (Suc row) rows"

definition unit_events :: "('a, 'b) tables \<Rightarrow> nat \<Rightarrow> 'b change \<Rightarrow> unit_event list" where
  "unit_events T s c = units s 0 (zip (row_keys T (records c)) (diff_values c))"

text \<open>The deletions with the identities they take, and the live identities at the end; \<open>None\<close> if a deletion finds none.\<close>

fun replay :: "unit_event list \<Rightarrow> (bytes \<Rightarrow> nat list) \<Rightarrow> ((nat \<times> unit_event) list \<times> (bytes \<Rightarrow> nat list)) option" where
  "replay [] live = Some ([], live)"
| "replay ((e, row, k, True) # us) live = replay us (live(k := live k @ [e]))"
| "replay ((e, row, k, False) # us) live =
     (case live k of
        [] \<Rightarrow> None
      | i # is \<Rightarrow> map_option (apfst (Cons (i, e, row, k, False))) (replay us (live(k := is))))"

definition wanted :: "nat \<Rightarrow> unit_event list \<Rightarrow> bytes \<Rightarrow> nat" where
  "wanted from_event us k = length (filter (\<lambda>(e, row, l, pos). l = k \<and> \<not> pos \<and> from_event \<le> e) us)"

text \<open>A row that has nothing to delete is not looked up.\<close>

definition floor_of :: "nat \<Rightarrow> unit_event list \<Rightarrow> (bytes \<Rightarrow> nat) \<Rightarrow> bytes \<Rightarrow> nat" where
  "floor_of from_event us through k = (if wanted from_event us k = 0 then 0 else through k)"

definition missing :: "nat \<Rightarrow> (bytes \<Rightarrow> nat) \<Rightarrow> unit_event list \<Rightarrow> unit_event list" where
  "missing from_event flr us = filter (\<lambda>(e, row, k, pos). from_event \<le> e \<and> flr k < e) us"

definition born :: "unit_event list \<Rightarrow> bytes \<Rightarrow> nat list" where
  "born us k = map fst (filter (\<lambda>(e, row, l, pos). l = k \<and> pos) us)"

definition taken :: "(nat \<times> unit_event) list \<Rightarrow> bytes \<Rightarrow> nat list" where
  "taken gone k = map fst (filter (\<lambda>(i, e, row, l, pos). l = k) gone)"

lemma born_simps [simp]:
  "born [] k = []" "born ((e, row, l, pos) # us) k = (if l = k \<and> pos then [e] else []) @ born us k"
  "born (us @ vs) k = born us k @ born vs k"
  by (simp_all add: born_def)

lemma taken_simps [simp]:
  "taken [] k = []" "taken ((i, e, row, l, pos) # gone) k = (if l = k then [i] else []) @ taken gone k"
  by (simp_all add: taken_def)

lemma missing_simps [simp]:
  "missing f flr [] = []"
  "missing f flr ((e, row, k, pos) # us) = (if f \<le> e \<and> flr k < e then [(e, row, k, pos)] else []) @ missing f flr us"
  "missing f flr (us @ vs) = missing f flr us @ missing f flr vs"
  by (simp_all add: missing_def)

lemma missing_Cons: "missing f flr (u # us) = missing f flr [u] @ missing f flr us"
  by (simp add: missing_def)

lemma wanted_simps [simp]:
  "wanted f [] k = 0" "wanted f ((e, row, l, pos) # us) k = (if l = k \<and> \<not> pos \<and> f \<le> e then 1 else 0) + wanted f us k"
  "wanted f (us @ vs) k = wanted f us k + wanted f vs k"
  by (simp_all add: wanted_def)

lemma replay_Cons:
  "replay ((e, row, k, pos) # us) live =
     (if pos then replay us (live(k := live k @ [e]))
      else (case live k of [] \<Rightarrow> None | i # is \<Rightarrow> map_option (apfst (Cons (i, e, row, k, False))) (replay us (live(k := is)))))"
  by (cases pos) simp_all

declare replay.simps(2,3) [simp del]

lemma replay_fifo:
  assumes "replay us live = Some (gone, live')"
  shows "live k @ born us k = taken gone k @ live' k"
  using assms
proof (induction us arbitrary: live gone)
  case (Cons u us)
  obtain e row l pos where u: "u = (e, row, l, pos)" by (metis prod_cases4)
  show ?case
  proof (cases pos)
    case True
    then have "replay us (live(l := live l @ [e])) = Some (gone, live')" using Cons.prems by (simp add: u replay_Cons)
    then show ?thesis using Cons.IH True by (fastforce simp: u)
  next
    case False
    then obtain i "is" gone1 where i: "live l = i # is" "replay us (live(l := is)) = Some (gone1, live')" "gone = (i, e, row, l, False) # gone1"
      using Cons.prems by (auto simp: u replay_Cons split: list.splits)
    then show ?thesis using Cons.IH [OF i(2)] False by (auto simp: u)
  qed
qed simp

text \<open>A replay needs no more identities of a row than it has deletions of it.\<close>

lemma replay_prefix:
  assumes "replay us (\<lambda>k. a k @ x k @ b k) = Some (gone, live')"
    and "\<And>k. x k \<noteq> [] \<Longrightarrow> wanted 0 us k \<le> length (a k)"
  shows "\<exists>live''. replay us (\<lambda>k. a k @ b k) = Some (gone, live'')"
  using assms
proof (induction us arbitrary: a b gone)
  case (Cons u us)
  obtain e row l pos where u: "u = (e, row, l, pos)" by (metis prod_cases4)
  show ?case
  proof (cases pos)
    case True
    have eq: "(\<lambda>k. a k @ x k @ b k)(l := (a l @ x l @ b l) @ [e]) = (\<lambda>k. a k @ x k @ (b(l := b l @ [e])) k)"
      and eq': "(\<lambda>k. a k @ b k)(l := (a l @ b l) @ [e]) = (\<lambda>k. a k @ (b(l := b l @ [e])) k)" by auto
    have "replay us (\<lambda>k. a k @ x k @ (b(l := b l @ [e])) k) = Some (gone, live')"
      using Cons.prems(1) True unfolding eq [symmetric] by (simp add: u replay_Cons)
    then have "\<exists>live''. replay us (\<lambda>k. a k @ (b(l := b l @ [e])) k) = Some (gone, live'')"
      using Cons.prems(2) True by (intro Cons.IH) (simp_all add: u)
    then show ?thesis unfolding eq' [symmetric] using True by (simp add: u replay_Cons)
  next
    case False
    obtain i "is" gone1 where i: "a l @ x l @ b l = i # is" and rest: "replay us ((\<lambda>k. a k @ x k @ b k)(l := is)) = Some (gone1, live')"
      and gone: "gone = (i, e, row, l, False) # gone1"
      using Cons.prems(1) False by (auto simp: u replay_Cons split: list.splits)
    have some: "wanted 0 us k + (if k = l then 1 else 0) \<le> length (a k)" if "x k \<noteq> []" for k
      using Cons.prems(2) [OF that] False by (auto simp: u split: if_splits)
    consider a' where "a l = i # a'" "is = a' @ x l @ b l" | b' where "a l = []" "x l = []" "b l = i # b'" "is = b'"
      using i some [of l] by (cases "a l"; cases "x l") auto
    then show ?thesis
    proof cases
      case 1
      have eq: "(\<lambda>k. a k @ x k @ b k)(l := is) = (\<lambda>k. (a(l := a')) k @ x k @ b k)"
        and eq': "(\<lambda>k. a k @ b k)(l := a' @ b l) = (\<lambda>k. (a(l := a')) k @ b k)" using 1 by auto
      have "wanted 0 us k \<le> length ((a(l := a')) k)" if "x k \<noteq> []" for k
        using some [OF that] 1(1) by (auto split: if_splits)
      then have "\<exists>live''. replay us (\<lambda>k. (a(l := a')) k @ b k) = Some (gone1, live'')"
        by (rule Cons.IH [OF rest [unfolded eq]])
      then show ?thesis unfolding eq' [symmetric] using False 1(1) gone by (auto simp: u replay_Cons)
    next
      case 2
      have eq: "(\<lambda>k. a k @ x k @ b k)(l := is) = (\<lambda>k. a k @ x k @ (b(l := b')) k)"
        and eq': "(\<lambda>k. a k @ b k)(l := b') = (\<lambda>k. a k @ (b(l := b')) k)" using 2 by auto
      have "wanted 0 us k \<le> length (a k)" if "x k \<noteq> []" for k using some [OF that] by simp
      then have "\<exists>live''. replay us (\<lambda>k. a k @ (b(l := b')) k) = Some (gone1, live'')"
        by (rule Cons.IH [OF rest [unfolded eq]])
      then show ?thesis unfolding eq' [symmetric] using False 2(1,3) gone by (auto simp: u replay_Cons)
    qed
  qed
qed simp

definition rows_total :: "(bytes \<times> i64) list \<Rightarrow> nat" where
  "rows_total rows = sum_list (map (\<lambda>(k, d). magnitude d) rows)"

lemma rows_total_simps [simp]:
  "rows_total [] = 0" "rows_total ((k, d) # rows) = magnitude d + rows_total rows" "rows_total (rows @ rows') = rows_total rows + rows_total rows'"
  by (simp_all add: rows_total_def)

lemma units_fst: "map fst (units s row rows) = [s..<s + rows_total rows]"
proof (induction s row rows rule: units.induct)
  case (2 s row k d rows)
  have "[s..<s + magnitude d + n] = [s..<s + magnitude d] @ [s + magnitude d..<s + magnitude d + n]" for n
    by (rule upt_add_eq_append) simp
  with 2 show ?case by (simp add: comp_def add.assoc)
qed simp

lemma units_mem:
  "(e, r, k, pos) \<in> set (units s row rows) \<longleftrightarrow>
     (\<exists>j < length rows. r = row + j \<and> k = fst (rows ! j) \<and> pos = (0 < sint (snd (rows ! j))) \<and>
        s + before_row (map snd rows) j \<le> e \<and> e < s + before_row (map snd rows) (Suc j))"
proof (induction s row rows rule: units.induct)
  case (2 s row l d rows)
  have step: "before_row (d # ds) (Suc j) = magnitude d + before_row ds j" "before_row (d # ds) 0 = 0" for ds j
    by (simp_all add: before_row_def)
  show ?case
    unfolding units.simps set_append Un_iff 2
    by (auto simp: Ex_less_Suc2 step before_row_def add.assoc)
qed simp

section \<open>Planning the events\<close>

definition plan_unit :: "u64 \<Rightarrow> u64 \<Rightarrow> (bytes \<Rightarrow> nat) \<Rightarrow> unit_event \<Rightarrow> planning \<Rightarrow> operation_error + planning" where
  "plan_unit from_event head_start gk = (\<lambda>(e, row, k, pos). plan_event from_event head_start row (gk k) (if pos then 1 else - 1))"

fun run_units :: "u64 \<Rightarrow> u64 \<Rightarrow> (bytes \<Rightarrow> nat) \<Rightarrow> unit_event list \<Rightarrow> planning \<Rightarrow> operation_error + planning" where
  "run_units from_event head_start gk [] P = Inr P"
| "run_units from_event head_start gk (u # us) P =
     (case plan_unit from_event head_start gk u P of Inl e \<Rightarrow> Inl e | Inr P' \<Rightarrow> run_units from_event head_start gk us P')"

lemma run_units_append:
  "run_units f h gk (us @ vs) P = (case run_units f h gk us P of Inl e \<Rightarrow> Inl e | Inr P' \<Rightarrow> run_units f h gk vs P')"
  by (induction us arbitrary: P) (simp_all split: sum.splits)

lemma plan_event_sign: "0 < sint d \<longleftrightarrow> 0 < sint d' \<Longrightarrow> plan_event f h row g d P = plan_event f h row g d' P"
  unfolding plan_event_def by (simp only:)

lemma plan_events_units:
  "plan_events f h row (gk k) d n P = run_units f h gk (map (\<lambda>e. (e, row, k, 0 < sint d)) [s..<s + n]) P"
proof (induction n arbitrary: s P)
  case (Suc n)
  have "plan_unit f h gk (s, row, k, 0 < sint d) P = plan_event f h row (gk k) d P"
    unfolding plan_unit_def prod.case by (rule plan_event_sign) simp
  moreover have "[s..<s + Suc n] = s # [Suc s..<Suc s + n]" by (simp add: upt_rec)
  ultimately show ?case using Suc [of _ "Suc s"] by (simp split: sum.splits)
qed simp

lemma plan_rows_units:
  "plan_rows f h (zip [row..<row + length rows] (zip (map (gk \<circ> fst) rows) (map snd rows))) P = run_units f h gk (units s row rows) P"
proof (induction s row rows arbitrary: P rule: units.induct)
  case (2 s row k d rows)
  have rows: "[row..<row + length ((k, d) # rows)] = row # [Suc row..<Suc row + length rows]" by (simp add: upt_conv_Cons del: upt_Suc)
  show ?case
    unfolding rows using 2 by (simp add: run_units_append unat_abs plan_events_units [of f h row gk k d _ _ s] comp_def del: upt_Suc split: sum.splits)
qed simp

text \<open>The groups of the rows in \<open>K\<close> hold the identities \<open>live\<close>.\<close>

definition plan_holds :: "(bytes \<Rightarrow> nat) \<Rightarrow> bytes set \<Rightarrow> (bytes \<Rightarrow> nat) \<Rightarrow> (bytes \<Rightarrow> nat list) \<Rightarrow> planning \<Rightarrow> bool" where
  "plan_holds gk K flr live P \<longleftrightarrow>
     inj_on gk K \<and>
     (\<forall>k \<in> K. gk k < length (pln_groups P) \<and> unat (plan_through (pln_groups P ! gk k)) = flr k \<and>
        map unat (plan_ids (pln_groups P ! gk k)) = live k \<and> (\<forall>i \<in> set (live k). i \<le> flr k \<or> i < unat (pln_offset P)))"

definition insert_of :: "unit_event \<Rightarrow> insert_mutation" where
  "insert_of = (\<lambda>(e, row, k, pos). \<lparr>insert_row = word_of_nat row, insert_id = word_of_nat e\<rparr>)"

definition delete_of :: "nat \<times> unit_event \<Rightarrow> delete_mutation" where
  "delete_of = (\<lambda>(i, e, row, k, pos). \<lparr>delete_row = word_of_nat row, delete_id = word_of_nat i, delete_event = word_of_nat e\<rparr>)"

definition births_of :: "nat \<Rightarrow> (bytes \<Rightarrow> nat) \<Rightarrow> (nat \<times> unit_event) list \<Rightarrow> (u64 \<times> nat) list" where
  "births_of h flr gone = map (\<lambda>(i, e, row, k, pos). (word_of_nat i, row)) (filter (\<lambda>(i, e, row, k, pos). h \<le> i \<and> i \<le> flr k) gone)"

definition inserts_in :: "unit_event list \<Rightarrow> unit_event list" where
  "inserts_in us = filter (\<lambda>(e, row, k, pos). pos) us"

lemma plan_holds_next:
  assumes "plan_holds gk K flr live P" "pln_groups P' = pln_groups P" "unat (pln_offset P) \<le> unat (pln_offset P')"
  shows "plan_holds gk K flr live P'"
  using assms by (fastforce simp: plan_holds_def)

lemma plan_holds_update:
  assumes holds: "plan_holds gk K flr live P" and k: "k \<in> K" and off: "unat (pln_offset P) \<le> unat (pln_offset P')"
    and groups: "pln_groups P' = (pln_groups P)[gk k := (pln_groups P ! gk k)\<lparr>plan_ids := ids\<rparr>]"
    and below: "\<forall>i \<in> set ids. unat i \<le> flr k \<or> unat i < unat (pln_offset P')"
  shows "plan_holds gk K flr (live(k := map unat ids)) P'"
  unfolding plan_holds_def
proof (intro conjI ballI)
  show inj: "inj_on gk K" using holds by (simp add: plan_holds_def)
  fix l assume l: "l \<in> K"
  have old: "gk l < length (pln_groups P)" "unat (plan_through (pln_groups P ! gk l)) = flr l" "map unat (plan_ids (pln_groups P ! gk l)) = live l"
    "\<forall>i \<in> set (live l). i \<le> flr l \<or> i < unat (pln_offset P)"
    using holds l by (simp_all add: plan_holds_def)
  have "l = k" if "gk l = gk k" using that inj k l by (auto dest: inj_onD)
  then have at: "pln_groups P' ! gk l = (if l = k then (pln_groups P ! gk k)\<lparr>plan_ids := ids\<rparr> else pln_groups P ! gk l)"
    using old(1) unfolding groups by (metis nth_list_update_eq nth_list_update_neq)
  show "gk l < length (pln_groups P')" using old(1) by (simp add: groups)
  show "unat (plan_through (pln_groups P' ! gk l)) = flr l" "map unat (plan_ids (pln_groups P' ! gk l)) = (live(k := map unat ids)) l"
    using old by (auto simp: at)
  fix i assume i: "i \<in> set ((live(k := map unat ids)) l)"
  then show "i \<le> flr l \<or> i < unat (pln_offset P')" using old(4) below off by (cases "l = k") fastforce+
qed

lemma word_of_unat: "unat w = n \<Longrightarrow> w = (word_of_nat n :: u64)"
  by (metis of_nat_unat ucast_id)

lemma plan_unit_ok:
  assumes holds: "plan_holds gk K flr live P" and k: "k \<in> K" and off: "unat (pln_offset P) = e" "Suc e < 2 ^ 64"
    and run: "replay (missing (unat f) flr [(e, row, k, pos)]) live = Some (gone, live')"
  shows "\<exists>P'. plan_unit f h gk (e, row, k, pos) P = Inr P' \<and> plan_holds gk K flr live' P' \<and> unat (pln_offset P') = Suc e \<and>
    pln_inserts P' = pln_inserts P @ map insert_of (inserts_in (missing (unat f) flr [(e, row, k, pos)])) \<and>
    pln_deletes P' = pln_deletes P @ map delete_of gone \<and> pln_births P' = pln_births P @ births_of (unat h) flr gone"
proof -
  let ?g = "pln_groups P ! gk k" and ?P = "P\<lparr>pln_offset := pln_offset P + 1\<rparr>"
  have g: "unat (plan_through ?g) = flr k" "map unat (plan_ids ?g) = live k" and below: "\<forall>i \<in> set (live k). i \<le> flr k \<or> i < e"
    using holds k off(1) by (auto simp: plan_holds_def)
  have nxt: "unat (pln_offset P + 1) = Suc e" using off by (simp add: unat_word_ariths)
  note w = word_of_unat [OF off(1)]
  have active: "f \<le> pln_offset P \<and> plan_through ?g < pln_offset P \<longleftrightarrow> unat f \<le> e \<and> flr k < e"
    using off(1) g(1) by (simp add: word_le_nat_alt word_less_nat_alt)
  consider (skip) "\<not> (unat f \<le> e \<and> flr k < e)" | (ins) "unat f \<le> e \<and> flr k < e" "pos" | (del) "unat f \<le> e \<and> flr k < e" "\<not> pos" by blast
  then show ?thesis
  proof cases
    case skip
    then have idle: "(f \<le> pln_offset P \<and> plan_through ?g < pln_offset P) = False" using active by blast
    then have "plan_unit f h gk (e, row, k, pos) P = Inr ?P"
      by (simp only: plan_unit_def plan_event_def prod.case Let_def idle if_False)
    moreover have "plan_holds gk K flr live ?P" by (rule plan_holds_next [OF holds]) (simp_all add: nxt off(1))
    moreover have "live' = live" "gone = []" using run skip by auto
    ultimately show ?thesis using skip nxt by (auto simp: births_of_def inserts_in_def)
  next
    case ins
    let ?ids = "plan_ids ?g @ [pln_offset P]"
    let ?Q = "?P\<lparr>pln_groups := (pln_groups P)[gk k := ?g\<lparr>plan_ids := ?ids\<rparr>],
        pln_inserts := pln_inserts P @ [\<lparr>insert_row = word_of_nat row, insert_id = pln_offset P\<rparr>]\<rparr>"
    have "plan_unit f h gk (e, row, k, pos) P = Inr ?Q" using iffD2 [OF active ins(1)] ins(2) by (simp add: plan_unit_def plan_event_def Let_def)
    moreover have "live' = live(k := map unat ?ids)" "gone = []" using run ins g(2) off(1) by (simp_all add: replay_Cons)
    moreover have "plan_holds gk K flr (live(k := map unat ?ids)) ?Q"
    proof (rule plan_holds_update [OF holds k])
      have "unat i \<le> flr k \<or> unat i < e" if "i \<in> set (plan_ids ?g)" for i using that below g(2) [symmetric] by auto
      then show "\<forall>i \<in> set ?ids. unat i \<le> flr k \<or> unat i < unat (pln_offset ?Q)" using nxt off(1) by (fastforce simp: less_Suc_eq)
    qed (simp_all add: nxt off(1))
    ultimately show ?thesis using ins nxt by (simp add: births_of_def inserts_in_def insert_of_def w [symmetric])
  next
    case del
    obtain i "is" where i: "live k = i # is" "live' = live(k := is)" "gone = [(i, e, row, k, False)]"
      using run del by (auto simp: replay_Cons split: list.splits)
    obtain wi wis where ids: "plan_ids ?g = wi # wis" "unat wi = i" "map unat wis = is" using g(2) i(1) by auto
    have later: "\<not> wi \<ge> pln_offset P" using below i(1) del(1) ids(2) off(1) by (auto simp: word_le_nat_alt)
    let ?Q = "?P\<lparr>pln_groups := (pln_groups P)[gk k := ?g\<lparr>plan_ids := wis\<rparr>],
        pln_births := pln_births P @ births_of (unat h) flr gone, pln_deletes := pln_deletes P @ map delete_of gone\<rparr>"
    have "plan_unit f h gk (e, row, k, pos) P = Inr ?Q"
      using iffD2 [OF active del(1)] del(2) later ids(1,2) g(1) i(3)
      by (simp add: plan_unit_def plan_event_def Let_def births_of_def delete_of_def w [symmetric] word_of_unat [OF ids(2), symmetric] word_le_nat_alt)
    moreover have "plan_holds gk K flr (live(k := map unat wis)) ?Q"
      by (rule plan_holds_update [OF holds k]) (use below i(1) ids nxt off(1) in \<open>auto simp: less_Suc_eq\<close>)
    ultimately show ?thesis using del nxt i(2) ids(3) by (simp add: inserts_in_def)
  qed
qed

lemma replay_append:
  "replay (us @ vs) live =
     (case replay us live of
        None \<Rightarrow> None
      | Some (gone, mid) \<Rightarrow> map_option (apfst ((@) gone)) (replay vs mid))"
proof (induction us arbitrary: live)
  case Nil
  then show ?case by (cases "replay vs live") auto
next
  case (Cons u us)
  obtain e row k pos where u: "u = (e, row, k, pos)" by (metis prod_cases4)
  have comp: "map_option (apfst (Cons y)) (map_option (apfst ((@) ys)) x) = map_option (apfst ((@) (y # ys))) x" for y ys and x :: "('x list \<times> 'y) option"
    by (cases x) auto
  show ?case unfolding u append_Cons replay_Cons Cons.IH by (cases "live k") (simp_all add: comp split: option.splits)
qed

lemma run_units_ok:
  assumes "plan_holds gk K flr live P" "\<forall>(e, row, k, pos) \<in> set us. k \<in> K"
    and "map fst us = [unat (pln_offset P)..<unat (pln_offset P) + length us]" "unat (pln_offset P) + length us < 2 ^ 64"
    and "replay (missing (unat f) flr us) live = Some (gone, live')"
  shows "\<exists>P'. run_units f h gk us P = Inr P' \<and> plan_holds gk K flr live' P' \<and>
    pln_inserts P' = pln_inserts P @ map insert_of (inserts_in (missing (unat f) flr us)) \<and>
    pln_deletes P' = pln_deletes P @ map delete_of gone \<and> pln_births P' = pln_births P @ births_of (unat h) flr gone"
  using assms
proof (induction us arbitrary: live P gone)
  case Nil
  then show ?case by (simp add: births_of_def inserts_in_def)
next
  case (Cons u us)
  obtain e row k pos where u: "u = (e, row, k, pos)" by (metis prod_cases4)
  have e: "unat (pln_offset P) = e" and rest: "map fst us = [Suc e..<Suc e + length us]"
    using Cons.prems(3) by (simp_all add: u upt_conv_Cons del: upt_Suc)
  obtain gone1 mid gone2 where r: "replay (missing (unat f) flr [u]) live = Some (gone1, mid)" "replay (missing (unat f) flr us) mid = Some (gone2, live')"
    "gone = gone1 @ gone2"
    using Cons.prems(5) unfolding missing_Cons [of _ _ u us] replay_append by (auto split: option.splits)
  have len: "Suc e < 2 ^ 64" using Cons.prems(4) e by simp
  obtain P1 where P1: "plan_unit f h gk u P = Inr P1" "plan_holds gk K flr mid P1" "unat (pln_offset P1) = Suc e"
    "pln_inserts P1 = pln_inserts P @ map insert_of (inserts_in (missing (unat f) flr [u]))"
    "pln_deletes P1 = pln_deletes P @ map delete_of gone1" "pln_births P1 = pln_births P @ births_of (unat h) flr gone1"
    using plan_unit_ok [OF Cons.prems(1) _ e len r(1) [unfolded u], of h] Cons.prems(2) unfolding u by auto
  obtain P' where "run_units f h gk us P1 = Inr P'" "plan_holds gk K flr live' P'"
    "pln_inserts P' = pln_inserts P1 @ map insert_of (inserts_in (missing (unat f) flr us))"
    "pln_deletes P' = pln_deletes P1 @ map delete_of gone2" "pln_births P' = pln_births P1 @ births_of (unat h) flr gone2"
    using Cons.IH [OF P1(2) _ _ _ r(2)] Cons.prems(2,4) rest P1(3) e by auto
  then show ?case using P1 r(3) by (auto simp: u births_of_def inserts_in_def)
qed

end
