(* ===== verification/Sink_Groups.thy ===== *)
theory Sink_Groups
  imports Sink_Replay
begin

text \<open>
  The groups of equal rows and the evidence for retained births: what the planner asks a target, what it makes of a truthful
  answer, and that its checks accept such an answer.
\<close>

section \<open>Groups\<close>

lemma units_append:
  "units s row (rows @ rows') = units s row rows @ units (s + rows_total rows) (row + length rows) rows'"
  by (induction s row rows rule: units.induct) (simp_all add: add.assoc)

definition first_row :: "(bytes \<times> i64) list \<Rightarrow> bytes \<Rightarrow> nat" where
  "first_row rows k = length (takeWhile (\<lambda>(l, d). l \<noteq> k) rows)"

lemma first_row_nth:
  assumes "k \<in> fst ` set rows"
  shows "first_row rows k < length rows" "fst (rows ! first_row rows k) = k"
proof -
  have "takeWhile (\<lambda>(l, d). l \<noteq> k) rows \<noteq> rows" using assms by (force simp: takeWhile_eq_all_conv)
  then have "length (takeWhile (\<lambda>(l, d). l \<noteq> k) rows) \<noteq> length rows" by (metis takeWhile_eq_take take_all order_refl)
  then show less: "first_row rows k < length rows"
    using length_takeWhile_le [of "\<lambda>(l, d). l \<noteq> k" rows] by (simp add: first_row_def)
  then show "fst (rows ! first_row rows k) = k"
    using nth_length_takeWhile [of "\<lambda>(l, d). l \<noteq> k" rows] by (auto simp: first_row_def split: prod.splits)
qed

lemma first_row_append:
  "first_row (rows @ rows') k = (if k \<in> fst ` set rows then first_row rows k else length rows + first_row rows' k)"
proof (cases "k \<in> fst ` set rows")
  case True
  then obtain d where "(k, d) \<in> set rows" by force
  then show ?thesis using True by (simp add: first_row_def takeWhile_append1 [of "(k, d)"])
next
  case False
  then have "\<forall>x \<in> set rows. case x of (l, d) \<Rightarrow> l \<noteq> k" by force
  then show ?thesis using False by (simp add: first_row_def takeWhile_append2)
qed

definition plan_of :: "nat \<Rightarrow> nat \<Rightarrow> (bytes \<times> i64) list \<Rightarrow> bytes \<Rightarrow> row_plan" where
  "plan_of f s rows k = \<lparr>plan_row = first_row rows k, plan_take = wanted f (units s 0 rows) k, plan_through = 0, plan_ids = []\<rparr>"

definition grouped :: "nat \<Rightarrow> nat \<Rightarrow> (bytes \<times> i64) list \<Rightarrow> bytes list \<Rightarrow> grouping \<Rightarrow> bool" where
  "grouped f s rows ks G \<longleftrightarrow>
     distinct ks \<and> set ks = fst ` set rows \<and> dom (grp_keys G) = set ks \<and> (\<forall>j < length ks. grp_keys G (ks ! j) = Some j) \<and>
     grp_plans G = map (plan_of f s rows) ks \<and> grp_rows G = map (the \<circ> grp_keys G \<circ> fst) rows \<and>
     unat (grp_offset G) = s + rows_total rows"

lemma wanted_row:
  "wanted f (units s row [(l, d)]) k = (if l = k \<and> \<not> 0 < sint d then s + magnitude d - max f s else 0)"
proof -
  have "length (filter (\<lambda>e. f \<le> e) [s..<s + n]) = s + n - max f s" for n
    by (induction n) (auto simp: max_def)
  then show ?thesis by (simp add: wanted_def filter_map comp_def)
qed

lemma group_row_wanted:
  assumes "unat off = s" "s + magnitude d < 2 ^ 64"
  shows "unat (off + unsigned_abs d) = s + magnitude d"
    "unat (saturating_sub_u64 (off + unsigned_abs d) (max f off)) = s + magnitude d - max (unat f) s"
proof -
  show sum: "unat (off + unsigned_abs d) = s + magnitude d" using assms by (simp add: unat_word_ariths unat_abs)
  have "unat (max f off) = max (unat f) s" using assms(1) by (simp add: max_def word_le_nat_alt)
  then show "unat (saturating_sub_u64 (off + unsigned_abs d) (max f off)) = s + magnitude d - max (unat f) s"
    using sum by (simp add: saturating_sub_u64_def word_le_nat_alt unat_sub)
qed

lemma group_row_grouped:
  assumes "grouped (unat f) s rows ks G" "s + rows_total (rows @ [(k, d)]) < 2 ^ 64"
  shows "\<exists>ks'. grouped (unat f) s (rows @ [(k, d)]) ks' (group_row f (length rows, k, d) G)"
proof -
  let ?t = "s + rows_total rows" and ?G = "group_row f (length rows, k, d) G"
  have G: "distinct ks" "set ks = fst ` set rows" "dom (grp_keys G) = set ks" "\<And>j. j < length ks \<Longrightarrow> grp_keys G (ks ! j) = Some j"
    "grp_plans G = map (plan_of (unat f) s rows) ks" "grp_rows G = map (the \<circ> grp_keys G \<circ> fst) rows" "unat (grp_offset G) = ?t"
    using assms(1) by (auto simp: grouped_def)
  have len: "?t + magnitude d < 2 ^ 64" using assms(2) by (simp add: add.assoc)
  note word = group_row_wanted [OF G(7) len]
  have want: "wanted (unat f) (units s 0 (rows @ [(k, d)])) l =
      wanted (unat f) (units s 0 rows) l + (if k = l \<and> \<not> 0 < sint d then ?t + magnitude d - max (unat f) ?t else 0)" for l
    by (simp only: units_append wanted_simps wanted_row)
  have zero: "?t + magnitude d - max (unat f) ?t = 0" if "\<not> sint d < 0" "\<not> 0 < sint d" using that by (simp add: magnitude_def)
  show ?thesis
  proof (cases "k \<in> set ks")
    case True
    then obtain j where j: "j < length ks" "ks ! j = k" by (auto simp: in_set_conv_nth)
    then have at: "grp_keys G k = Some j" using G(4) by blast
    have "first_row (rows @ [(k, d)]) l = first_row rows l" if "l \<in> set ks" for l using that G(2) by (simp add: first_row_append)
    then have "map (plan_of (unat f) s (rows @ [(k, d)])) ks = (map (plan_of (unat f) s rows) ks)
        [j := (plan_of (unat f) s rows k)\<lparr>plan_take := wanted (unat f) (units s 0 rows) k + (if \<not> 0 < sint d then ?t + magnitude d - max (unat f) ?t else 0)\<rparr>]"
      using j G(1) by (intro nth_equalityI) (auto simp: nth_list_update plan_of_def want nth_eq_iff_index_eq)
    moreover have "grp_plans ?G = (map (plan_of (unat f) s rows) ks)
        [j := (plan_of (unat f) s rows k)\<lparr>plan_take := wanted (unat f) (units s 0 rows) k + (if \<not> 0 < sint d then ?t + magnitude d - max (unat f) ?t else 0)\<rparr>]"
    proof (cases "sint d < 0")
      case True
      then show ?thesis using j by (simp add: group_row_def Let_def at G(5) word) (simp add: plan_of_def)
    next
      case False
      have "(plan_of (unat f) s rows k)\<lparr>plan_take := wanted (unat f) (units s 0 rows) k\<rparr> = (map (plan_of (unat f) s rows) ks) ! j"
        using j by (simp add: plan_of_def)
      moreover have "(if \<not> 0 < sint d then ?t + magnitude d - max (unat f) ?t else 0) = 0" using False zero by simp
      ultimately show ?thesis using False by (simp only: add_0_right list_update_id) (simp add: group_row_def Let_def at G(5))
    qed
    ultimately have "grouped (unat f) s (rows @ [(k, d)]) ks ?G"
      using G True word(1) by (auto simp: grouped_def group_row_def Let_def at)
    then show ?thesis by blast
  next
    case False
    then have none: "grp_keys G k = None" using G(3) by blast
    have "first_row (rows @ [(k, d)]) l = first_row rows l" if "l \<in> set ks" for l using that G(2) by (simp add: first_row_append)
    moreover have "first_row (rows @ [(k, d)]) k = length rows" using False G(2) by (subst first_row_append) (simp add: first_row_def)
    moreover have "wanted (unat f) (units s 0 rows) k = 0"
    proof -
      have "l \<noteq> k" if "(e, r, l, p) \<in> set (units s 0 rows)" for e r l p using that False G(2) by (auto simp: units_mem)
      then show ?thesis unfolding wanted_def by (auto simp: filter_empty_conv)
    qed
    ultimately have plans: "map (plan_of (unat f) s (rows @ [(k, d)])) (ks @ [k]) = map (plan_of (unat f) s rows) ks @
        [\<lparr>plan_row = length rows, plan_take = (if \<not> 0 < sint d then ?t + magnitude d - max (unat f) ?t else 0), plan_through = 0, plan_ids = []\<rparr>]"
      using False by (auto simp: plan_of_def want)
    have "grp_plans ?G = map (plan_of (unat f) s (rows @ [(k, d)])) (ks @ [k])"
      unfolding plans using zero by (auto simp: group_row_def Let_def none G(5) word nth_append list_update_append)
    moreover have "grp_rows ?G = map (the \<circ> grp_keys ?G \<circ> fst) (rows @ [(k, d)])"
      using False G(2,6) by (auto simp: group_row_def Let_def none)
    ultimately have "grouped (unat f) s (rows @ [(k, d)]) (ks @ [k]) ?G"
      using G False word(1) by (auto simp: grouped_def group_row_def Let_def none nth_append less_Suc_eq)
    then show ?thesis by blast
  qed
qed

lemma group_all_grouped:
  assumes "unat first + rows_total rows < 2 ^ 64"
  shows "\<exists>ks. grouped (unat f) (unat first) rows ks (group_all f first (map fst rows) (map snd rows))"
  using assms
proof (induction rows rule: rev_induct)
  case Nil
  then show ?case by (auto simp: grouped_def group_all_def)
next
  case (snoc x rows)
  have "group_all f first (map fst (rows @ [x])) (map snd (rows @ [x])) =
      group_row f (length rows, fst x, snd x) (group_all f first (map fst rows) (map snd rows))"
    by (simp add: group_all_def zip_append zip_map_fst_snd)
  moreover obtain k d where x: "x = (k, d)" by fastforce
  moreover obtain ks where "grouped (unat f) (unat first) rows ks (group_all f first (map fst rows) (map snd rows))"
    using snoc by (auto simp: x)
  ultimately show ?case using group_row_grouped [of f "unat first" rows ks _ k d] snoc.prems by simp
qed

section \<open>A truthful target\<close>

text \<open>
  \<open>live\<close> are the live identities of a row on the target, oldest first, and \<open>through\<close> the last event applied to it. The answer
  to a request has as many of the identities as are asked for.
\<close>

definition answer :: "bytes list \<Rightarrow> (bytes \<Rightarrow> nat list) \<Rightarrow> (bytes \<Rightarrow> nat) \<Rightarrow> lookup_request list \<Rightarrow> row_matches list" where
  "answer keys live through = map (\<lambda>q.
     \<lparr>match_through = word_of_nat (through (keys ! lookup_row q)),
      match_ids = map word_of_nat (take (lookup_take q) (live (keys ! lookup_row q)))\<rparr>)"

definition matched :: "nat \<Rightarrow> nat \<Rightarrow> (bytes \<times> i64) list \<Rightarrow> (bytes \<Rightarrow> nat list) \<Rightarrow> (bytes \<Rightarrow> nat) \<Rightarrow> bytes \<Rightarrow> row_plan" where
  "matched f s rows live through k =
     \<lparr>plan_row = first_row rows k, plan_take = wanted f (units s 0 rows) k, plan_through = word_of_nat (floor_of f (units s 0 rows) through k),
      plan_ids = map word_of_nat (take (wanted f (units s 0 rows) k) (live k))\<rparr>"

definition ids_ok :: "nat \<Rightarrow> (bytes \<Rightarrow> nat list) \<Rightarrow> (bytes \<Rightarrow> nat) \<Rightarrow> bytes \<Rightarrow> bool" where
  "ids_ok tl_event live through k \<longleftrightarrow>
     through k < tl_event \<and> sorted_wrt (<) (live k) \<and> (\<forall>i \<in> set (live k). 0 < i \<and> i \<le> through k)"

lemma ascending_words: "sorted_wrt (<) ns \<Longrightarrow> \<forall>n \<in> set ns. n < 2 ^ 64 \<Longrightarrow> strictly_ascending (map word_of_nat ns)"
proof (induction ns rule: induct_list012)
  case (3 x y zs)
  then show ?case by (simp add: word_less_nat_alt unat_of_nat take_bit_nat_eq_self)
qed simp_all

lemma insert_ids_new: "distinct is \<Longrightarrow> set is \<inter> set unique = {} \<Longrightarrow> insert_ids is unique = Some (rev is @ unique)"
  by (induction "is" arbitrary: unique) auto

lemma word_of_nat_inj: "inj_on (word_of_nat :: nat \<Rightarrow> u64) {n. n < 2 ^ 64}"
  by (rule inj_on_inverseI [of _ unat]) (simp add: unat_of_nat take_bit_nat_eq_self)

lemma install_truthful:
  assumes "distinct ks" "unat tl_event = n" "\<forall>k \<in> set ks. take_of k \<noteq> 0 \<longrightarrow> ids_ok n live through k"
    and "\<forall>k \<in> set ks. \<forall>l \<in> set ks. k \<noteq> l \<longrightarrow> set (live k) \<inter> set (live l) = {}"
    and "\<forall>k \<in> set ks. take_of k \<noteq> 0 \<longrightarrow> set (map word_of_nat (live k)) \<inter> set unique = {}"
  shows "install_matches tl_event (map (\<lambda>k. \<lparr>plan_row = row_of k, plan_take = take_of k, plan_through = 0, plan_ids = []\<rparr>) ks)
      (map (\<lambda>k. \<lparr>match_through = word_of_nat (through k), match_ids = map word_of_nat (take (take_of k) (live k))\<rparr>) (filter (\<lambda>k. take_of k \<noteq> 0) ks))
      unique = Inr (map (\<lambda>k. \<lparr>plan_row = row_of k, plan_take = take_of k, plan_through = word_of_nat (if take_of k = 0 then 0 else through k),
        plan_ids = map word_of_nat (take (take_of k) (live k))\<rparr>) ks)"
  using assms
proof (induction ks arbitrary: unique)
  case (Cons k ks)
  show ?case
  proof (cases "take_of k = 0")
    case True
    then show ?thesis using Cons by simp
  next
    case False
    let ?ids = "map word_of_nat (take (take_of k) (live k)) :: u64 list"
    have ok: "ids_ok n live through k" using Cons.prems(3) False by simp
    have n: "n < 2 ^ 64" using Cons.prems(2) unat_u64_less by blast
    then have small: "through k < 2 ^ 64" "\<forall>i \<in> set (live k). 0 < i \<and> i < 2 ^ 64 \<and> i \<le> through k" "through k < n"
      using ok by (auto simp: ids_ok_def intro: le_less_trans)
    have pre: "i \<in> set (live k)" if "i \<in> set (take (take_of k) (live k))" for i using that by (rule in_set_takeD)
    have asc: "strictly_ascending ?ids"
      using ok small(2) pre by (intro ascending_words) (auto simp: ids_ok_def sorted_wrt_take)
    have dist: "distinct ?ids"
      using ok small(2) pre unfolding distinct_map
      by (auto simp: ids_ok_def strict_sorted_iff intro!: inj_on_subset [OF word_of_nat_inj])
    have bad: "\<not> list_ex (\<lambda>i. i = 0 \<or> i > word_of_nat (through k)) ?ids"
    proof -
      have "(word_of_nat i :: u64) \<noteq> 0 \<and> \<not> (word_of_nat i :: u64) > word_of_nat (through k)" if "i \<in> set (live k)" for i
        using small that by (auto simp: word_less_nat_alt unat_of_nat take_bit_nat_eq_self word_unat_eq_iff)
      then show ?thesis using pre by (fastforce simp: list_ex_iff)
    qed
    have valid: "validate_matches (take_of k) \<lparr>match_through = word_of_nat (through k), match_ids = ?ids\<rparr> tl_event = Inr ()"
      using asc bad small n Cons.prems(2) by (simp add: validate_matches_def word_le_nat_alt unat_of_nat take_bit_nat_eq_self)
    have "insert_ids ?ids unique = Some (rev ?ids @ unique)"
      using dist Cons.prems(5) False pre by (intro insert_ids_new) auto
    moreover have "set (map word_of_nat (live l)) \<inter> set (rev ?ids @ unique) = {}" if l: "l \<in> set ks" "take_of l \<noteq> 0" for l
    proof -
      have "ids_ok n live through l" using Cons.prems(3) l by simp
      then have "\<forall>i \<in> set (live l). i < 2 ^ 64" using n by (auto simp: ids_ok_def intro: le_less_trans)
      moreover have "set (live l) \<inter> set (live k) = {}" using Cons.prems(1,4) l by auto
      ultimately have "word_of_nat ` set (live l) \<inter> (word_of_nat :: nat \<Rightarrow> u64) ` set (live k) = {}"
        using small(2) by (subst inj_on_image_Int [OF word_of_nat_inj, symmetric]) auto
      moreover have "word_of_nat ` set (live l) \<inter> set unique = {}" using Cons.prems(5) l by simp
      moreover have "set ?ids \<subseteq> word_of_nat ` set (live k)" using pre by auto
      ultimately show ?thesis by (auto simp del: set_map simp: set_map [of word_of_nat "live l"])
    qed
    ultimately show ?thesis
      using Cons.IH [of "rev ?ids @ unique"] Cons.prems False valid by simp
  qed
qed simp

lemma lookup_truthful:
  assumes G: "grouped f s rows ks G" and reply: "\<And>qs. lookup qs = Inr (answer (map fst rows) live through qs)"
    and ok: "\<And>k. wanted f (units s 0 rows) k \<noteq> 0 \<Longrightarrow> ids_ok (unat tl_event) live through k"
    and apart: "\<And>k l. k \<noteq> l \<Longrightarrow> set (live k) \<inter> set (live l) = {}"
  shows "lookup_groups (grp_plans G) tl_event lookup = Inr (map (matched f s rows live through) ks)"
proof -
  let ?w = "wanted f (units s 0 rows)"
  have plans: "grp_plans G = map (\<lambda>k. \<lparr>plan_row = first_row rows k, plan_take = ?w k, plan_through = 0, plan_ids = []\<rparr>) ks"
    and ks: "distinct ks" "set ks = fst ` set rows"
    using G by (simp_all add: grouped_def plan_of_def comp_def)
  have result: "map (matched f s rows live through) ks = map (\<lambda>k. \<lparr>plan_row = first_row rows k, plan_take = ?w k,
      plan_through = word_of_nat (if ?w k = 0 then 0 else through k), plan_ids = map word_of_nat (take (?w k) (live k))\<rparr>) ks"
    by (simp add: matched_def floor_of_def)
  let ?asked = "filter (\<lambda>k. ?w k \<noteq> 0) ks"
  have requests: "map (\<lambda>g. \<lparr>lookup_row = plan_row g, lookup_take = plan_take g\<rparr>) (filter (\<lambda>g. plan_take g \<noteq> 0) (grp_plans G)) =
      map (\<lambda>k. \<lparr>lookup_row = first_row rows k, lookup_take = ?w k\<rparr>) ?asked"
    by (simp add: plans filter_map comp_def)
  have "fst (rows ! first_row rows k) = k \<and> first_row rows k < length rows" if "k \<in> set ks" for k
    using first_row_nth [of k rows] that ks(2) by simp
  then have answered: "answer (map fst rows) live through (map (\<lambda>k. \<lparr>lookup_row = first_row rows k, lookup_take = ?w k\<rparr>) ?asked) =
      map (\<lambda>k. \<lparr>match_through = word_of_nat (through k), match_ids = map word_of_nat (take (?w k) (live k))\<rparr>) ?asked"
    by (simp add: answer_def)
  show ?thesis
  proof (cases "?asked = []")
    case True
    then have "\<forall>k \<in> set ks. ?w k = 0" by (simp add: filter_empty_conv)
    then show ?thesis unfolding lookup_groups_def Let_def requests result by (auto simp: plans True)
  next
    case False
    then show ?thesis
      unfolding lookup_groups_def Let_def requests reply answered result unfolding plans
      using install_truthful [OF ks(1) refl, where take_of = ?w and unique = "[]" and row_of = "first_row rows" and live = live and through = through] ok apart by (simp add: answer_def)
  qed
qed

section \<open>Retained births\<close>

lemma birth_row_ok:
  assumes "s + sum_list (map magnitude ds) < 2 ^ 64" "row \<le> length ds" "unat stop = s + before_row ds row"
    and "s + before_row ds (row - 1) \<le> unat i" "unat i < s + sum_list (map magnitude ds)"
  shows "\<exists>row' stop'. birth_row ds i (row, stop) = Inr (row', stop') \<and> row' \<le> length ds \<and> unat stop' = s + before_row ds row' \<and>
    (row = 0 \<longrightarrow> s \<le> unat i) \<and> (0 < row' \<longrightarrow> s + before_row ds (row' - 1) \<le> unat i) \<and> unat i < unat stop'"
  using assms
proof (induction ds i row stop rule: birth_row.induct [split_format (complete)])
  case (1 ds i row stop)
  show ?case
  proof (cases "stop \<le> i")
    case False
    then show ?thesis using 1(2-) by (auto simp: birth_row.simps word_le_nat_alt before_row_def)
  next
    case True
    then have less: "row < length ds"
      using 1(2-) by (metis before_row_length le_neq_implies_less linorder_not_le word_le_nat_alt)
    have Suc: "before_row ds (Suc row) = before_row ds row + magnitude (ds ! row)" by (rule before_row_Suc [OF less])
    moreover have "before_row ds (Suc row) \<le> sum_list (map magnitude ds)" by (rule before_row_le)
    ultimately obtain stop' where stop': "checked_add_u64 stop (unsigned_abs (ds ! row)) = Some stop'" "unat stop' = s + before_row ds (Suc row)"
      using 1(2,4) by (cases "checked_add_u64 stop (unsigned_abs (ds ! row))") (simp_all add: checked_add_u64_None checked_add_u64_Some unat_abs)
    have "\<exists>row2 stop2. birth_row ds i (Suc row, stop') = Inr (row2, stop2) \<and> row2 \<le> length ds \<and> unat stop2 = s + before_row ds row2 \<and>
      (Suc row = 0 \<longrightarrow> s \<le> unat i) \<and> (0 < row2 \<longrightarrow> s + before_row ds (row2 - 1) \<le> unat i) \<and> unat i < unat stop2"
      by (rule 1(1) [OF True _ stop'(1)]) (use 1(2-) less stop' True in \<open>auto simp: word_le_nat_alt\<close>)
    then show ?thesis using True less stop'(1) 1(4) by (auto simp: birth_row.simps [of ds i row stop] word_le_nat_alt)
  qed
qed

text \<open>Arrow's equality of batches accepts slices of equal rows.\<close>

definition same_law :: "('a, 'b) tables \<Rightarrow> ('a \<Rightarrow> bool) \<Rightarrow> ('b \<Rightarrow> 'b \<Rightarrow> bool) \<Rightarrow> bool" where
  "same_law T ok same \<longleftrightarrow>
     (\<forall>b b' i j. table_ok T ok b \<longrightarrow> table_ok T ok b' \<longrightarrow> batch_schema (table_arrow T) b = batch_schema (table_arrow T) b' \<longrightarrow>
        i < batch_rows (table_arrow T) b \<longrightarrow> j < batch_rows (table_arrow T) b' \<longrightarrow> row_key T b i = row_key T b' j \<longrightarrow>
        same (batch_slice (table_arrow T) b i 1) (batch_slice (table_arrow T) b' j 1))"

lemma canonical_within:
  assumes "tables_laws T ok" "table_ok T ok b" "i < batch_rows (table_arrow T) b" "length (row_key T b i) \<le> limit" "limit \<le> usize_max"
  shows "canonical_row_bounded (table_columns T) b i limit = Inr (row_key T b i)"
    "canonical_row_size_bounded (table_columns T) b i limit = Inr (length (row_key T b i))"
proof -
  have arr: "arrays_laws (arrays (table_columns T)) ok" using assms(1) by (simp add: tables_laws_def)
  have key: "row_key T b i = concat (map value_bytes (row_values (table_columns T) b i))" by (simp add: row_key_def row_bytes_def)
  have "within (Some limit) (length (row_key T b i))" using assms(4,5) by (simp add: within_def)
  then show "canonical_row_bounded (table_columns T) b i limit = Inr (row_key T b i)"
    "canonical_row_size_bounded (table_columns T) b i limit = Inr (length (row_key T b i))"
    using canonical_row [OF arr table_batch_ok [OF assms(2)] assms(3) key, of limit] by simp_all
qed

lemma unit_events_mem:
  assumes "change_ok (table_arrow T) c"
  shows "(e, r, k, pos) \<in> set (unit_events T s c) \<longleftrightarrow>
     r < batch_rows (table_arrow T) (records c) \<and> k = row_key T (records c) r \<and> pos = (0 < sint (diff_values c ! r)) \<and>
     s + before_row (diff_values c) r \<le> e \<and> e < s + before_row (diff_values c) (Suc r)"
proof -
  have len: "length (diff_values c) = batch_rows (table_arrow T) (records c)"
    using change_ok_magnitudes(3) [OF assms] by (simp add: num_rows_def)
  then have "map snd (zip (row_keys T (records c)) (diff_values c)) = diff_values c" by simp
  then show ?thesis using len unfolding unit_events_def units_mem by (auto simp: row_keys_nth)
qed

definition born_in :: "('a, 'b) tables \<Rightarrow> nat \<Rightarrow> 'b change \<Rightarrow> nat \<Rightarrow> bytes \<Rightarrow> bool" where
  "born_in T s c i k \<longleftrightarrow> (\<exists>r. (i, r, k, True) \<in> set (unit_events T s c))"

lemma validate_births_ok:
  assumes laws: "tables_laws T ok" "same_law T ok same"
    and old: "change_ok (table_arrow T) old_change" "table_ok T ok (records old_change)" "s + total_events old_change < 2 ^ 64"
    and cur: "table_ok T ok (records current)" "batch_schema (table_arrow T) (records old_change) = batch_schema (table_arrow T) (records current)"
    and prior: "sorted (map (unat \<circ> fst) prior)"
      "\<And>i row. (i, row) \<in> set prior \<Longrightarrow> row < batch_rows (table_arrow T) (records current) \<and> born_in T s old_change (unat i) (row_key T (records current) row) \<and>
         length (row_key T (records current) row) \<le> MAX_CANONICAL_BATCH_BYTES"
    and pos: "row \<le> length (diff_values old_change)" "unat stop = s + before_row (diff_values old_change) row"
      "\<And>i r. (i, r) \<in> set prior \<Longrightarrow> s + before_row (diff_values old_change) (row - 1) \<le> unat i"
  shows "validate_births T same old_change current prior (row, stop) checked compared = Inr ()"
  using prior pos
proof (induction prior arbitrary: row stop checked compared)
  case Nil
  then show ?case by simp
next
  case (Cons p prior)
  obtain i r where p: "p = (i, r)" by fastforce
  let ?ds = "diff_values old_change"
  obtain q where row: "r < batch_rows (table_arrow T) (records current)" "length (row_key T (records current) r) \<le> MAX_CANONICAL_BATCH_BYTES"
    and q: "(unat i, q, row_key T (records current) r, True) \<in> set (unit_events T s old_change)"
    using Cons.prems(2) [of i r] by (auto simp: p born_in_def)
  note q = q [unfolded unit_events_mem [OF old(1)]]
  have top: "unat i < s + total_events old_change" using q before_row_le [of ?ds "Suc q"] by simp
  obtain row' stop' where b: "birth_row ?ds i (row, stop) = Inr (row', stop')" "row' \<le> length ?ds" "unat stop' = s + before_row ?ds row'"
    "0 < row' \<Longrightarrow> s + before_row ?ds (row' - 1) \<le> unat i" "unat i < unat stop'"
    using birth_row_ok [OF old(3) Cons.prems(3,4) _ top] Cons.prems(5) [of i r] by (auto simp: p)
  have row': "row' = Suc q"
  proof -
    have "0 < row'" using b(3,5) q by (cases row') (auto simp: before_row_def)
    moreover have "row' - 1 < length ?ds" using b(2) \<open>0 < row'\<close> by simp
    ultimately have "at_event s ?ds (unat i) (row' - 1) (unat stop' - unat i)"
      using b before_row_Suc [of "row' - 1" ?ds] by (auto simp: at_event_def le_diff_conv)
    moreover have "at_event s ?ds (unat i) q (s + before_row ?ds (Suc q) - unat i)"
      using q change_ok_magnitudes(3) [OF old(1)] before_row_Suc [of q ?ds] by (auto simp: at_event_def num_rows_def le_diff_conv)
    ultimately have "row' - 1 = q" using at_event_unique by blast
    then show ?thesis using \<open>0 < row'\<close> by simp
  qed
  have later: "s + before_row ?ds (row' - 1) \<le> unat j" if "(j, r') \<in> set prior" for j r'
  proof -
    have "unat i \<le> unat j" using Cons.prems(1) that by (force simp: p)
    then show ?thesis using q by (simp add: row')
  qed
  have rest: "validate_births T same old_change current prior (row', stop') ch co = Inr ()" for ch co
    using Cons.prems(1,2) b(2,3) later by (intro Cons.IH) (auto simp: p)
  have "canonical_row_size_bounded (table_columns T) (records old_change) q MAX_CANONICAL_BATCH_BYTES = Inr (length (row_key T (records old_change) q))"
    by (rule canonical_within(2) [OF laws(1) old(2)]) (use q row in \<open>auto simp: MAX_CANONICAL_BATCH_BYTES_def usize_max_def\<close>)
  moreover have "same (batch_slice (table_arrow T) (records old_change) q 1) (batch_slice (table_arrow T) (records current) r 1)"
    using laws(2) old(2) cur row(1) q by (auto simp: same_law_def)
  ultimately have "check_birth T same old_change current q r checked = Inr ()" by (simp add: check_birth_def)
  then show ?case using b(1) q rest by (simp add: p row' Let_def)
qed

end
