(* ===== verification/Sink_Mutations.thy ===== *)
theory Sink_Mutations
  imports Sink_Groups
begin

text \<open>
  The plan of a delivery, written to a truthful target, leaves the target as if the missing events had been replayed one by
  one. The hypotheses on the target are what the adapters promise: they answer with the oldest live identities of a row and
  the last event applied to it, and every identity was once inserted for its row.
\<close>

section \<open>Admission\<close>

definition delivery_ok :: "('a, 'b) tables \<Rightarrow> ('a \<Rightarrow> bool) \<Rightarrow> 'b delivery_batch \<Rightarrow> bool" where
  "delivery_ok T ok input \<longleftrightarrow>
     (let c = delivery_change input in
      change_ok (table_arrow T) c \<and> table_ok T ok (records c) \<and>
      sum_list (map length (row_keys T (records c))) \<le> MAX_CANONICAL_BATCH_BYTES \<and> total_events c \<le> 1024 \<and>
      0 < unat (first_event_offset input) \<and> unat (first_event_offset input) + total_events c < 2 ^ 64)"

definition head_ok :: "('a, 'b) tables \<Rightarrow> ('a \<Rightarrow> bool) \<Rightarrow> 'b delivery_batch \<Rightarrow> u64 \<times> 'b change \<Rightarrow> bool" where
  "head_ok T ok input = (\<lambda>(start, old_change).
     change_ok (table_arrow T) old_change \<and> table_ok T ok (records old_change) \<and>
     batch_schema (table_arrow T) (records old_change) = batch_schema (table_arrow T) (records (delivery_change input)) \<and>
     0 < unat start \<and> start \<le> first_event_offset input \<and> unat start + total_events old_change < 2 ^ 64)"

definition events_of :: "('a, 'b) tables \<Rightarrow> 'b delivery_batch \<Rightarrow> unit_event list" where
  "events_of T input = unit_events T (unat (first_event_offset input)) (delivery_change input)"

definition target_ok ::
  "('a, 'b) tables \<Rightarrow> 'b delivery_batch \<Rightarrow> nat \<Rightarrow> nat \<Rightarrow> u64 \<times> 'b change \<Rightarrow> (bytes \<Rightarrow> nat list) \<Rightarrow> (bytes \<Rightarrow> nat) \<Rightarrow> bool" where
  "target_ok T input f tl_event original_head live through \<longleftrightarrow>
     (\<forall>k. wanted f (events_of T input) k \<noteq> 0 \<longrightarrow> ids_ok tl_event live through k) \<and>
     (\<forall>k l. k \<noteq> l \<longrightarrow> set (live k) \<inter> set (live l) = {}) \<and>
     (\<forall>k. \<forall>i \<in> set (live k).
        let first = unat (first_event_offset input); start = unat (fst original_head) in
        (start \<le> i \<and> i < first \<longrightarrow> born_in T start (snd original_head) i k) \<and>
        (first \<le> i \<and> i < first + total_events (delivery_change input) \<longrightarrow> born_in T first (delivery_change input) i k))"

text \<open>Writing a plan: insert the identities, then delete the identities.\<close>

definition applied :: "('a, 'b) tables \<Rightarrow> 'b change \<Rightarrow> mutation_batch \<Rightarrow> (bytes \<Rightarrow> nat list) \<Rightarrow> bytes \<Rightarrow> nat list" where
  "applied T c batch live k =
     filter (\<lambda>i. i \<notin> (unat \<circ> delete_id) ` set (batch_deletes batch))
       (live k @ map (unat \<circ> insert_id) (filter (\<lambda>m. row_key T (records c) (unat (insert_row m)) = k) (batch_inserts batch)))"

lemma canonical_budget_ok:
  assumes "tables_laws T ok" "table_ok T ok b" "\<forall>i \<in> set rows. i < batch_rows (table_arrow T) b"
    and "sum_list (map (\<lambda>i. length (row_key T b i)) rows) \<le> left" "left \<le> usize_max"
  shows "canonical_rows T b rows left = Inr (map (row_key T b) rows)" "canonical_sizes T b rows left = Inr ()"
  using assms(3-5)
  by (induction rows arbitrary: left) (simp_all add: canonical_within [OF assms(1,2)])

lemma row_keys_map: "row_keys T b = map (row_key T b) [0..<batch_rows (table_arrow T) b]"
  by (rule nth_equalityI) (simp_all add: row_keys_nth)

lemma delivery_canonical:
  assumes "tables_laws T ok" "delivery_ok T ok input"
  shows "bounded_canonical_rows T (delivery_change input) = Inr (row_keys T (records (delivery_change input)))"
    "check_canonical_budget T (delivery_change input) = Inr ()"
  using assms canonical_budget_ok [OF assms(1), of "records (delivery_change input)" "[0..<num_rows (table_arrow T) (delivery_change input)]" MAX_CANONICAL_BATCH_BYTES]
  by (auto simp: delivery_ok_def Let_def bounded_canonical_rows_def check_canonical_budget_def row_keys_map num_rows_def comp_def
      MAX_CANONICAL_BATCH_BYTES_def usize_max_def)

lemma delivery_rows:
  assumes "delivery_ok T ok input"
  shows "length (diff_values (delivery_change input)) = batch_rows (table_arrow T) (records (delivery_change input))"
    "rows_total (zip (row_keys T (records (delivery_change input))) (diff_values (delivery_change input))) = total_events (delivery_change input)"
    "batch_rows (table_arrow T) (records (delivery_change input)) \<le> 1024" "0 < total_events (delivery_change input)"
proof -
  have ok: "change_ok (table_arrow T) (delivery_change input)" and total: "total_events (delivery_change input) \<le> 1024"
    using assms by (auto simp: delivery_ok_def Let_def)
  note m = change_ok_magnitudes [OF ok]
  show len: "length (diff_values (delivery_change input)) = batch_rows (table_arrow T) (records (delivery_change input))"
    using m(3) by (simp add: num_rows_def)
  have "map snd (zip (row_keys T (records (delivery_change input))) (diff_values (delivery_change input))) = diff_values (delivery_change input)"
    using len by simp
  then show "rows_total (zip (row_keys T (records (delivery_change input))) (diff_values (delivery_change input))) = total_events (delivery_change input)"
    unfolding rows_total_def by (metis (no_types, lifting) case_prod_unfold comp_apply list.map_comp map_cong)
  have "length ns \<le> sum_list ns" if "\<forall>n \<in> set ns. 0 < n" for ns :: "nat list" using that by (induction ns) auto
  from this [OF m(1)] total len show "batch_rows (table_arrow T) (records (delivery_change input)) \<le> 1024" by simp
  show "0 < total_events (delivery_change input)" by (rule m(2))
qed

lemma events_unit: "events_of T input = units (unat (first_event_offset input)) 0 (zip (row_keys T (records (delivery_change input))) (diff_values (delivery_change input)))"
  by (simp add: events_of_def unit_events_def)

lemma events_offsets:
  assumes "delivery_ok T ok input"
  shows "map fst (events_of T input) = [unat (first_event_offset input)..<unat (first_event_offset input) + total_events (delivery_change input)]"
  by (simp only: events_unit units_fst delivery_rows [OF assms])

lemma events_mem:
  assumes "delivery_ok T ok input" "(e, row, k, pos) \<in> set (events_of T input)"
  shows "unat (first_event_offset input) \<le> e" "e < unat (first_event_offset input) + total_events (delivery_change input)"
    "row < batch_rows (table_arrow T) (records (delivery_change input))" "k = row_key T (records (delivery_change input)) row"
proof -
  have "e \<in> set (map fst (events_of T input))" using assms(2) by force
  then show "unat (first_event_offset input) \<le> e" "e < unat (first_event_offset input) + total_events (delivery_change input)"
    unfolding events_offsets [OF assms(1)] by auto
  have "change_ok (table_arrow T) (delivery_change input)" using assms(1) by (simp add: delivery_ok_def Let_def)
  from assms(2) [unfolded events_of_def unit_events_mem [OF this]]
  show "row < batch_rows (table_arrow T) (records (delivery_change input))" "k = row_key T (records (delivery_change input)) row" by auto
qed

lemma event_unique:
  assumes "delivery_ok T ok input" "(e, x) \<in> set (events_of T input)" "(e, y) \<in> set (events_of T input)"
  shows "x = y"
proof -
  have "distinct (map fst (events_of T input))" unfolding events_offsets [OF assms(1)] by simp
  then show ?thesis using assms(2,3) by (metis eq_key_imp_eq_value)
qed

lemma unat_MAX_TECHNICAL_ID: "unat MAX_TECHNICAL_ID = 2 ^ 64 - 2"
  by (simp add: MAX_TECHNICAL_ID_def unat_word_ariths)

lemma validate_input_ok:
  assumes "delivery_ok T ok input"
  shows "\<exists>n. validate_input input = Inr n"
    "end_event_offset input = Inr (first_event_offset input + word_of_nat (total_events (delivery_change input)))"
    "unat (first_event_offset input + word_of_nat (total_events (delivery_change input))) = unat (first_event_offset input) + total_events (delivery_change input)"
proof -
  let ?n = "total_events (delivery_change input)" and ?f = "first_event_offset input"
  have n: "?n \<le> 1024" "0 < ?n" "0 < unat ?f" "unat ?f + ?n < 2 ^ 64" using assms delivery_rows(4) [OF assms] by (auto simp: delivery_ok_def Let_def)
  have u: "unat (word_of_nat ?n :: u64) = ?n" using n(1) by (simp add: unat_of_nat take_bit_nat_eq_self)
  show sum: "unat (?f + word_of_nat ?n) = unat ?f + ?n" using n u by (simp add: unat_word_ariths)
  have "FIRST_TECHNICAL_ID \<le> ?f" "?f \<le> MAX_TECHNICAL_ID"
    using n by (simp_all add: word_le_nat_alt FIRST_TECHNICAL_ID_def unat_MAX_TECHNICAL_ID)
  moreover have "\<not> (word_of_nat ?n :: u64) > MAX_MUTATIONS_PER_BATCH"
    using n u by (simp add: word_less_nat_alt MAX_MUTATIONS_PER_BATCH_def)
  moreover have "(word_of_nat ?n :: u64) \<noteq> 0" using n(2) u by (metis less_irrefl unat_0)
  ultimately show "\<exists>n. validate_input input = Inr n" "end_event_offset input = Inr (?f + word_of_nat ?n)"
    using n u by (simp_all add: validate_input_def validate_technical_id_def sum_events_eq end_event_offset_def event_count_eq checked_add_u64_def)
qed

section \<open>Writing the plan\<close>

lemma replay_gone:
  assumes "replay us live = Some (gone, live')" "(i, e, row, k, pos) \<in> set gone"
  shows "\<not> pos \<and> (e, row, k, False) \<in> set us \<and> i \<in> set (live k) \<union> set (born us k)"
proof -
  have "i \<in> set (taken gone k)" using assms(2) by (force simp: taken_def)
  then have "i \<in> set (live k) \<union> set (born us k)" using replay_fifo [OF assms(1), of k] by (metis Un_iff set_append)
  moreover have "\<not> pos \<and> (e, row, k, False) \<in> set us"
    using assms
  proof (induction us arbitrary: live gone)
    case (Cons u us)
    obtain e' row' l p where u: "u = (e', row', l, p)" by (metis prod_cases4)
    show ?case
    proof (cases p)
      case True
      then show ?thesis using Cons.IH [OF _ Cons.prems(2)] Cons.prems(1) by (auto simp: u replay_Cons)
    next
      case False
      then obtain j js gone1 where g: "live l = j # js" "replay us (live(l := js)) = Some (gone1, live')" "gone = (j, e', row', l, False) # gone1"
        using Cons.prems(1) by (auto simp: u replay_Cons split: list.splits)
      then show ?thesis using Cons.IH [OF g(2)] Cons.prems(2) False by (auto simp: u)
    qed
  qed simp
  ultimately show ?thesis by blast
qed

lemma born_missing: "i \<in> set (born (missing f flr us) k) \<longleftrightarrow> (\<exists>row. (i, row, k, True) \<in> set us \<and> f \<le> i \<and> flr k < i)"
  by (force simp: born_def missing_def)

lemma born_sorted: "sorted_wrt (<) (map fst us) \<Longrightarrow> sorted_wrt (<) (born (missing f flr us) k)"
proof (induction us)
  case (Cons u us)
  obtain e row l p where u: "u = (e, row, l, p)" by (metis prod_cases4)
  have "\<forall>x \<in> set (born (missing f flr us) k). e < x" using Cons.prems by (force simp: u born_missing)
  then show ?case using Cons by (auto simp: u)
qed simp

lemma map_filter_cong:
  "\<forall>x \<in> set xs. P (g x) = Q x \<and> f (g x) = h x \<Longrightarrow> map f (filter P (map g xs)) = map h (filter Q xs)"
  by (induction xs) auto

lemma applied_replay:
  assumes del: "delivery_ok T ok input" and tgt: "target_ok T input f n original_head live through" and n: "n < 2 ^ 64"
    and M: "M = missing f (floor_of f (events_of T input) through) (events_of T input)" and run: "replay M live = Some (gone, live')"
    and batch: "batch_inserts batch = map insert_of (inserts_in M)" "batch_deletes batch = map delete_of gone"
  shows "applied T (delivery_change input) batch live k = live' k"
proof -
  let ?us = "events_of T input" and ?c = "delivery_change input" and ?flr = "floor_of f (events_of T input) through"
  let ?s = "unat (first_event_offset input)"
  have big: "?s + total_events ?c < 2 ^ 64" "batch_rows (table_arrow T) (records ?c) \<le> 1024"
    using del delivery_rows(3) [OF del] by (auto simp: delivery_ok_def Let_def)
  have word: "unat (word_of_nat m :: u64) = m" if "m < 2 ^ 64" for m using that by (simp add: unat_of_nat take_bit_nat_eq_self)
  have inM: "u \<in> set ?us" if "u \<in> set M" for u using that by (auto simp: M missing_def)
  have ins: "map (unat \<circ> insert_id) (filter (\<lambda>m. row_key T (records ?c) (unat (insert_row m)) = k) (batch_inserts batch)) = born M k"
  proof -
    have "row_key T (records ?c) (unat (insert_row (insert_of u))) = (case u of (e, row, l, p) \<Rightarrow> l) \<and> (unat \<circ> insert_id) (insert_of u) = fst u"
      if "u \<in> set (inserts_in M)" for u
    proof -
      obtain e row l p where u: "u = (e, row, l, p)" by (metis prod_cases4)
      have "(e, row, l, p) \<in> set ?us" using that inM by (auto simp: inserts_in_def u)
      from events_mem [OF del this] big show ?thesis by (simp add: u insert_of_def word)
    qed
    then have "map (unat \<circ> insert_id) (filter (\<lambda>m. row_key T (records ?c) (unat (insert_row m)) = k) (map insert_of (inserts_in M))) =
        map fst (filter (\<lambda>(e, row, l, p). l = k) (inserts_in M))"
      by (intro map_filter_cong) (auto split: prod.splits)
    then show ?thesis unfolding batch by (simp add: born_def inserts_in_def case_prod_unfold conj_commute)
  qed
  have gone: "(e, row, l, False) \<in> set ?us" "i \<in> set (live l) \<union> set (born M l)" "wanted f ?us l \<noteq> 0" if "(i, e, row, l, p) \<in> set gone" for i e row l p
  proof -
    from replay_gone [OF run that] have g: "(e, row, l, False) \<in> set M" "i \<in> set (live l) \<union> set (born M l)" by auto
    then show "(e, row, l, False) \<in> set ?us" "i \<in> set (live l) \<union> set (born M l)" using inM by blast+
    have "(e, row, l, False) \<in> set (filter (\<lambda>(e, row, m, pos). m = l \<and> \<not> pos \<and> f \<le> e) ?us)" using g(1) by (auto simp: M missing_def)
    then show "wanted f ?us l \<noteq> 0" unfolding wanted_def by (metis length_0_conv list.set_cases list.distinct(1))
  qed
  have ids: "ids_ok n live through l" if "wanted f ?us l \<noteq> 0" for l using tgt that by (auto simp: target_ok_def)
  have bornM: "?s \<le> i \<and> i < ?s + total_events ?c \<and> (\<exists>row. (i, row, l, True) \<in> set ?us)" if "i \<in> set (born M l)" for i l
    using that events_mem [OF del] unfolding M born_missing by blast
  have small: "i < 2 ^ 64" if "(i, e, row, l, p) \<in> set gone" for i e row l p
    using gone(2,3) [OF that] ids [of l] n bornM [of i l] big(1) by (fastforce simp: ids_ok_def)
  have dels: "(unat \<circ> delete_id) ` set (batch_deletes batch) = fst ` set gone"
    unfolding batch using small by (force simp: delete_of_def word image_image)
  have alive: "l = m" if "i \<in> set (live l) \<union> set (born M l)" "i \<in> set (live m) \<union> set (born M m)" for i l m
  proof (rule ccontr)
    assume lm: "l \<noteq> m"
    have same: "a = b" if "(i, r, a, x) \<in> set ?us" "(i, r', b, y) \<in> set ?us" for a b r r' x y using event_unique [OF del that] by simp
    have old: "\<exists>r. (i, r, a, True) \<in> set ?us" if "i \<in> set (live a)" "?s \<le> i" "i < ?s + total_events ?c" for a
      using tgt that by (simp add: target_ok_def born_in_def events_of_def Let_def)
    have "set (live l) \<inter> set (live m) = {}" using tgt lm by (auto simp: target_ok_def)
    moreover have "\<exists>r. (i, r, a, True) \<in> set ?us" if "i \<in> set (live a) \<union> set (born M a)" "i \<in> set (born M b)" for a b
      using that old bornM [of i a] bornM [of i b] by blast
    ultimately show False using that lm same by (metis UnE disjoint_iff)
  qed
  have fifo: "live k @ born M k = taken gone k @ live' k" by (rule replay_fifo [OF run])
  have "i \<notin> set (live' k)" if mem: "i \<in> fst ` set gone" for i
  proof
    assume i: "i \<in> set (live' k)"
    obtain e row l p where g: "(i, e, row, l, p) \<in> set gone" using mem by auto
    have "i \<in> set (live k) \<union> set (born M k)" using fifo i by (metis Un_iff set_append)
    then have l: "l = k" using alive gone(2) [OF g] by blast
    have "ids_ok n live through k" using ids gone(3) [OF g] l by simp
    moreover have "sorted_wrt (<) (born M k)"
      unfolding M by (rule born_sorted) (simp add: events_offsets [OF del] sorted_wrt_upt)
    moreover have "?flr k = through k" using gone(3) [OF g] l by (simp add: floor_of_def)
    ultimately have "distinct (live k @ born M k)"
      by (auto simp: ids_ok_def strict_sorted_iff M born_missing)
    moreover have "i \<in> set (taken gone k)" using g l by (force simp: taken_def)
    ultimately show False using i by (simp add: fifo disjoint_iff)
  qed
  moreover have "i \<in> fst ` set gone" if "i \<in> set (taken gone k)" for i using that by (force simp: taken_def)
  ultimately have "filter (\<lambda>i. i \<notin> fst ` set gone) (taken gone k @ live' k) = live' k"
    by (auto simp: filter_empty_conv filter_id_conv)
  then show ?thesis unfolding applied_def dels ins fifo .
qed

section \<open>The plan\<close>

lemma insert_of_simps: "insert_of (e, row, k, p) = \<lparr>insert_row = word_of_nat row, insert_id = word_of_nat e\<rparr>"
  by (simp add: insert_of_def)

lemma derive_row_units:
  assumes "unat off = s" "s + n < 2 ^ 64"
  shows "\<exists>off'. unat off' = s + n \<and>
    derive_row f row n (off, ins) = (off', ins @ map insert_of (filter (\<lambda>u. unat f \<le> fst u) (map (\<lambda>e. (e, row, k, True)) [s..<s + n])))"
  using assms
proof (induction n arbitrary: s off ins)
  case (Suc n)
  have nxt: "unat (off + 1) = Suc s" using Suc.prems by (simp add: unat_word_ariths)
  have w: "off = word_of_nat s" by (rule word_of_unat [OF Suc.prems(1)])
  have "[s..<s + Suc n] = s # [Suc s..<Suc s + n]" by (simp add: upt_conv_Cons del: upt_Suc)
  moreover have "unat f \<le> s \<longleftrightarrow> f \<le> off" using Suc.prems(1) by (simp add: word_le_nat_alt)
  ultimately show ?case
    using Suc.IH [OF nxt, of "if f \<le> off then ins @ [\<lparr>insert_row = word_of_nat row, insert_id = off\<rparr>] else ins"] Suc.prems(2)
    by (cases "f \<le> off") (simp_all add: insert_of_simps w [symmetric] del: upt_Suc)
qed simp

lemma derive_rows_units:
  assumes "unat off = s" "s + rows_total rows < 2 ^ 64" "\<forall>(k, d) \<in> set rows. 0 < sint d"
  shows "snd (derive_rows f row (map snd rows) (off, ins)) = ins @ map insert_of (filter (\<lambda>u. unat f \<le> fst u) (units s row rows))"
  using assms
proof (induction s row rows arbitrary: off ins rule: units.induct)
  case (2 s row k d rows)
  have pos: "0 < sint d" using 2(4) by simp
  obtain off' where "unat off' = s + magnitude d" "derive_row f row (magnitude d) (off, ins) =
      (off', ins @ map insert_of (filter (\<lambda>u. unat f \<le> fst u) (map (\<lambda>e. (e, row, k, True)) [s..<s + magnitude d])))"
    using derive_row_units [OF 2(2), of "magnitude d" f row ins k] 2(3) by auto
  then show ?case using 2 pos by (simp add: unat_abs)
qed simp

lemma wanted_sum:
  assumes "distinct ks"
  shows "sum_list (map (wanted f us) ks) \<le> length (filter (\<lambda>u. f \<le> fst u) us)"
proof (induction us)
  case (Cons u us)
  obtain e row l p where u: "u = (e, row, l, p)" by (metis prod_cases4)
  have one: "sum_list (map (\<lambda>k. if l = k \<and> \<not> p \<and> f \<le> e then 1 else 0) ks) \<le> (if f \<le> e then 1 else (0 :: nat))"
  proof -
    have "(\<Sum>k \<in> set ks. if l = k \<and> \<not> p \<and> f \<le> e then 1 else 0) \<le> (\<Sum>k \<in> set ks. if l = k \<and> f \<le> e then 1 else (0 :: nat))"
      by (rule sum_mono) simp
    also have "\<dots> \<le> (if f \<le> e then 1 else 0)" by (simp add: sum.delta')
    finally show ?thesis using assms by (simp add: sum_list_distinct_conv_sum_set)
  qed
  have "sum_list (map (wanted f (u # us)) ks) = sum_list (map (\<lambda>k. if l = k \<and> \<not> p \<and> f \<le> e then 1 else 0) ks) + sum_list (map (wanted f us) ks)"
  proof -
    have "wanted f (u # us) = (\<lambda>k. (if l = k \<and> \<not> p \<and> f \<le> e then 1 else 0) + wanted f us k)" by (simp add: fun_eq_iff u)
    then show ?thesis by (simp only: sum_list_addf)
  qed
  also have "\<dots> \<le> (if f \<le> e then 1 else 0) + length (filter (\<lambda>u. f \<le> fst u) us)" by (rule add_mono [OF one Cons])
  also have "\<dots> = length (filter (\<lambda>u. f \<le> fst u) (u # us))" by (simp add: u)
  finally show ?case .
qed simp

lemma filter_fst: "length (filter (\<lambda>u. f \<le> fst u) us) = length (filter (\<lambda>e. f \<le> e) (map fst us))"
  by (simp add: filter_map comp_def)

lemma wanted_missing: "wanted 0 (missing f flr us) k \<le> wanted f us k"
  by (induction us) (auto simp: missing_def wanted_def)

lemma plan_groups_ok:
  fixes T :: "('a, 'b) tables"
  assumes laws: "tables_laws T ok" and del: "delivery_ok T ok input"
    and tgt: "target_ok T input (unat f) (unat tl_event) original_head live through"
    and reply: "\<And>qs. lookup qs = Inr (answer (row_keys T (records (delivery_change input))) live through qs)"
    and f: "first_event_offset input \<le> f"
    and left: "left = unat (first_event_offset input) + total_events (delivery_change input) - unat f"
    and M: "M = missing (unat f) (floor_of (unat f) (events_of T input) through) (events_of T input)"
    and run: "replay M live = Some (gone, live')"
  shows "\<exists>P. plan_groups T input f tl_event h left lookup = Inr P \<and> pln_inserts P = map insert_of (inserts_in M) \<and>
    pln_deletes P = map delete_of gone \<and> pln_births P = births_of (unat h) (floor_of (unat f) (events_of T input) through) gone"
proof -
  let ?us = "events_of T input" and ?s = "unat (first_event_offset input)" and ?c = "delivery_change input"
  let ?rows = "zip (row_keys T (records ?c)) (diff_values ?c)"
  let ?w = "wanted (unat f) ?us" and ?flr = "floor_of (unat f) ?us through"
  have rows: "map fst ?rows = row_keys T (records ?c)" "map snd ?rows = diff_values ?c" "length ?rows = length (row_keys T (records ?c))"
    using delivery_rows(1) [OF del] by simp_all
  have big: "?s + rows_total ?rows < 2 ^ 64" using del delivery_rows(2) [OF del] by (simp add: delivery_ok_def Let_def)
  obtain ks where G: "grouped (unat f) ?s ?rows ks (group_all f (first_event_offset input) (row_keys T (records ?c)) (diff_values ?c))"
    using group_all_grouped [of "first_event_offset input" ?rows f] big unfolding rows by blast
  let ?G = "group_all f (first_event_offset input) (row_keys T (records ?c)) (diff_values ?c)" and ?groups = "map (matched (unat f) ?s ?rows live through) ks"
  let ?gk = "\<lambda>k. the (grp_keys ?G k)"
  have looked: "lookup_groups (grp_plans ?G) tl_event lookup = Inr ?groups"
    by (rule lookup_truthful [OF G]) (use tgt reply rows in \<open>auto simp: target_ok_def events_unit\<close>)
  have ks: "distinct ks" "set ks = set (row_keys T (records ?c))" "\<And>j. j < length ks \<Longrightarrow> ?gk (ks ! j) = j"
    and grows: "grp_rows ?G = map (?gk \<circ> fst) ?rows"
    using G rows(1) unfolding grouped_def by (auto simp: comp_def simp flip: set_map)
  have takes: "sum_list (map plan_take ?groups) \<le> left"
  proof -
    have "length (filter (\<lambda>e. unat f \<le> e) [?s..<?s + m]) = ?s + m - unat f" for m
      using f by (induction m) (auto simp: word_le_nat_alt)
    then have "length (filter (\<lambda>u. unat f \<le> fst u) ?us) = left" unfolding filter_fst events_offsets [OF del] left by simp
    moreover have "map plan_take ?groups = map ?w ks" by (simp add: matched_def events_unit)
    ultimately show ?thesis using wanted_sum [OF ks(1), of "unat f" ?us] by (simp only:)
  qed
  let ?P = "\<lparr>pln_groups = ?groups, pln_inserts = [], pln_deletes = [], pln_births = [], pln_offset = first_event_offset input\<rparr>"
  have tl_small: "unat tl_event < 2 ^ 64" by (rule unat_u64_less)
  have live: "\<forall>i \<in> set (take (?w k) (live k)). i \<le> ?flr k \<and> i < 2 ^ 64" and flr: "?flr k < 2 ^ 64" for k
  proof -
    have "?w k \<noteq> 0 \<Longrightarrow> ids_ok (unat tl_event) live through k" using tgt by (auto simp: target_ok_def)
    then show "\<forall>i \<in> set (take (?w k) (live k)). i \<le> ?flr k \<and> i < 2 ^ 64" "?flr k < 2 ^ 64"
      using tl_small by (cases "?w k = 0"; fastforce simp: floor_of_def ids_ok_def dest: in_set_takeD)+
  qed
  have holds: "plan_holds ?gk (set ks) ?flr (\<lambda>k. take (?w k) (live k)) ?P"
    unfolding plan_holds_def
  proof (intro conjI ballI)
    show "inj_on ?gk (set ks)" using ks(3) by (auto simp: inj_on_def in_set_conv_nth)
    fix k assume "k \<in> set ks"
    then obtain j where j: "j < length ks" "k = ks ! j" by (auto simp: in_set_conv_nth)
    then have at: "?gk k = j" "pln_groups ?P ! ?gk k = matched (unat f) ?s ?rows live through k" using ks(3) by simp_all
    show "?gk k < length (pln_groups ?P)" using at(1) j by simp
    show "unat (plan_through (pln_groups ?P ! ?gk k)) = ?flr k"
      unfolding at(2) using flr [of k] by (simp add: matched_def events_unit unat_of_nat take_bit_nat_eq_self)
    have "map (unat \<circ> (word_of_nat :: nat \<Rightarrow> u64)) (take (?w k) (live k)) = take (?w k) (live k)"
      using live [of k] by (intro map_idI) (simp add: unat_of_nat take_bit_nat_eq_self)
    then show "map unat (plan_ids (pln_groups ?P ! ?gk k)) = take (?w k) (live k)"
      unfolding at(2) by (simp add: matched_def events_unit)
    fix i assume "i \<in> set (take (?w k) (live k))"
    then show "i \<le> ?flr k \<or> i < unat (pln_offset ?P)" using live by blast
  qed
  have "replay M (\<lambda>k. take (?w k) (live k) @ drop (?w k) (live k) @ []) = Some (gone, live')" using run by simp
  moreover have "wanted 0 M k \<le> length (take (?w k) (live k))" if "drop (?w k) (live k) \<noteq> []" for k
    using wanted_missing [of "unat f" ?flr ?us k] that by (simp add: M)
  ultimately obtain live'' where run': "replay (missing (unat f) ?flr ?us) (\<lambda>k. take (?w k) (live k)) = Some (gone, live'')"
    using replay_prefix [of M "\<lambda>k. take (?w k) (live k)" "\<lambda>k. drop (?w k) (live k)" "\<lambda>k. []" gone live'] by (auto simp: M)
  have "map fst ?us = [unat (pln_offset ?P)..<unat (pln_offset ?P) + length ?us]"
    using events_offsets [OF del] by (metis length_map length_upt add_diff_cancel_left' planning.select_convs(5))
  moreover have "unat (pln_offset ?P) + length ?us < 2 ^ 64"
    using big events_offsets [OF del] delivery_rows(2) [OF del] by (metis length_map length_upt add_diff_cancel_left' planning.select_convs(5))
  moreover have "k \<in> set ks" if "(e, row, k, pos) \<in> set ?us" for e row k pos
    using events_mem(3,4) [OF del that] by (simp add: ks(2) row_keys_map)
  then have "\<forall>(e, row, k, pos) \<in> set ?us. k \<in> set ks" by blast
  ultimately obtain P where P: "run_units f h ?gk ?us ?P = Inr P" "pln_inserts P = map insert_of (inserts_in M)"
    "pln_deletes P = map delete_of gone" "pln_births P = births_of (unat h) ?flr gone"
    using run_units_ok [OF holds _ _ _ run', of h] by (auto simp: M)
  have "plan_rows f h (zip [0..<length (grp_rows ?G)] (zip (grp_rows ?G) (diff_values ?c))) ?P = Inr P"
    using plan_rows_units [of f h 0 ?rows ?gk ?P ?s] P(1) rows(2) unfolding grows events_unit by simp
  then show ?thesis
    using P delivery_canonical(1) [OF laws del] looked takes by (simp add: plan_groups_def Let_def)
qed

lemma births_valid:
  fixes T :: "('a, 'b) tables"
  assumes laws: "tables_laws T ok" "same_law T ok same" and del: "delivery_ok T ok input" and hd: "head_ok T ok input (start, old_change)"
    and tgt: "target_ok T input (unat f) (unat tl_event) (start, old_change) live through"
    and M: "M = missing (unat f) (floor_of (unat f) (events_of T input) through) (events_of T input)"
    and run: "replay M live = Some (gone, live')"
    and births: "births = sort_key fst (births_of (unat start) (floor_of (unat f) (events_of T input) through) gone)"
  shows "validate_retained_births T same start old_change (takeWhile (\<lambda>(i, _). i < first_event_offset input) births) (delivery_change input) = Inr ()"
    "validate_retained_births T same (first_event_offset input) (delivery_change input)
       (dropWhile (\<lambda>(i, _). i < first_event_offset input) births) (delivery_change input) = Inr ()"
proof -
  let ?c = "delivery_change input" and ?s = "first_event_offset input" and ?flr = "floor_of (unat f) (events_of T input) through"
  let ?P = "\<lambda>(i, _). i < first_event_offset input"
  have c: "change_ok (table_arrow T) ?c" "table_ok T ok (records ?c)" "unat ?s + total_events ?c < 2 ^ 64"
    and old: "change_ok (table_arrow T) old_change" "table_ok T ok (records old_change)" "unat start + total_events old_change < 2 ^ 64"
      "batch_schema (table_arrow T) (records old_change) = batch_schema (table_arrow T) (records ?c)" "start \<le> ?s"
    using del hd by (simp_all add: delivery_ok_def head_ok_def Let_def)
  have key: "length (row_key T (records ?c) row) \<le> MAX_CANONICAL_BATCH_BYTES" if "row < batch_rows (table_arrow T) (records ?c)" for row
  proof -
    have "row_key T (records ?c) row \<in> set (row_keys T (records ?c))" using that by (simp add: row_keys_map)
    then have "length (row_key T (records ?c) row) \<le> sum_list (map length (row_keys T (records ?c)))"
      by (intro member_le_sum_list) simp_all
    then show ?thesis using del by (simp add: delivery_ok_def Let_def)
  qed
  have evidence: "row < batch_rows (table_arrow T) (records ?c) \<and> unat start \<le> unat i \<and>
      (if i < ?s then born_in T (unat start) old_change (unat i) (row_key T (records ?c) row) else born_in T (unat ?s) ?c (unat i) (row_key T (records ?c) row))"
    if mem: "(i, row) \<in> set births" for i row
  proof -
    obtain n e k p where g: "(n, e, row, k, p) \<in> set gone" "i = word_of_nat n" "unat start \<le> n" "n \<le> ?flr k"
      using mem by (auto simp: births births_of_def)
    from replay_gone [OF run g(1)] have r: "(e, row, k, False) \<in> set M" "n \<in> set (live k) \<union> set (born M k)" by auto
    have e: "(e, row, k, False) \<in> set (events_of T input)" "?flr k < e" using r(1) by (auto simp: M missing_def)
    note ev = events_mem [OF del e(1)]
    have small: "n < 2 ^ 64" and word: "unat i = n" using g(2,4) e(2) ev(2) c(3) by (auto simp: unat_of_nat take_bit_nat_eq_self)
    have "n \<in> set (live k)" using r(2) g(4) by (auto simp: M born_missing)
    then have b: "(unat start \<le> n \<and> n < unat ?s \<longrightarrow> born_in T (unat start) old_change n k) \<and>
        (unat ?s \<le> n \<and> n < unat ?s + total_events ?c \<longrightarrow> born_in T (unat ?s) ?c n k)"
      using tgt by (auto simp: target_ok_def Let_def)
    show ?thesis
    proof (intro conjI)
      show "row < batch_rows (table_arrow T) (records ?c)" by (rule ev(3))
      show "unat start \<le> unat i" using g(3) word by simp
      show "if i < ?s then born_in T (unat start) old_change (unat i) (row_key T (records ?c) row) else born_in T (unat ?s) ?c (unat i) (row_key T (records ?c) row)"
        using b g(3,4) e(2) ev(2,4) by (simp add: word word_less_nat_alt)
    qed
  qed
  have sorted: "sorted (map (unat \<circ> fst) births)"
  proof -
    have "sorted (map fst births)" by (simp add: births)
    then show ?thesis by (simp add: sorted_map word_le_nat_alt)
  qed
  have sort2: "sorted (map (unat \<circ> fst) (takeWhile ?P births))" "sorted (map (unat \<circ> fst) (dropWhile ?P births))"
  proof -
    have "sorted (map (unat \<circ> fst) (takeWhile ?P births @ dropWhile ?P births))" using sorted by simp
    then show "sorted (map (unat \<circ> fst) (takeWhile ?P births))" "sorted (map (unat \<circ> fst) (dropWhile ?P births))"
      unfolding map_append sorted_append by blast+
  qed
  have low: "(i, row) \<in> set births \<and> i < ?s" if "(i, row) \<in> set (takeWhile ?P births)" for i row using set_takeWhileD [OF that] by simp
  have high: "(i, row) \<in> set births \<and> \<not> i < ?s" if "(i, row) \<in> set (dropWhile ?P births)" for i row
  proof -
    have "dropWhile ?P births \<noteq> []" using that by (metis empty_iff list.set(1))
    then have h: "\<not> fst (hd (dropWhile ?P births)) < ?s" using hd_dropWhile [of ?P births] by (simp add: case_prod_unfold)
    have "unat (fst (hd (dropWhile ?P births))) \<le> unat i"
      using sort2(2) that by (cases "dropWhile ?P births") (auto simp: image_iff)
    then show ?thesis using h set_dropWhileD [OF that] by (simp add: word_less_nat_alt)
  qed
  have lower: "row < batch_rows (table_arrow T) (records ?c) \<and> born_in T (unat start) old_change (unat i) (row_key T (records ?c) row) \<and>
      length (row_key T (records ?c) row) \<le> MAX_CANONICAL_BATCH_BYTES" "unat start \<le> unat i"
    if "(i, row) \<in> set (takeWhile ?P births)" for i row
    using evidence [of i row] low [OF that] key [of row] by simp_all
  have upper: "row < batch_rows (table_arrow T) (records ?c) \<and> born_in T (unat ?s) ?c (unat i) (row_key T (records ?c) row) \<and>
      length (row_key T (records ?c) row) \<le> MAX_CANONICAL_BATCH_BYTES" "unat ?s \<le> unat i"
    if "(i, row) \<in> set (dropWhile ?P births)" for i row
    using evidence [of i row] high [OF that] key [of row] by (simp_all add: word_less_nat_alt)
  show "validate_retained_births T same start old_change (takeWhile ?P births) ?c = Inr ()"
    unfolding validate_retained_births_def
    by (rule validate_births_ok [OF laws old(1-3) c(2) old(4) sort2(1) lower(1)]) (use lower(2) in \<open>auto simp: before_row_def\<close>)
  show "validate_retained_births T same ?s ?c (dropWhile ?P births) ?c = Inr ()"
    unfolding validate_retained_births_def
    by (rule validate_births_ok [OF laws c c(2) refl sort2(2) upper(1)]) (use upper(2) in \<open>auto simp: before_row_def\<close>)
qed

text \<open>
  C26: Take an admissible delivery, a target that answers truthfully, and the events the target has not applied: those from the
  position \<open>from\<close> on that lie behind what it reports for their row. If replaying them one by one on the live identities of
  the target never deletes a row that is not there, the planner succeeds, and writing its plan, all insertions and then all
  deletions, leaves every row with exactly the identities the replay leaves: each deletion removes the oldest identity, also one
  inserted by the same delivery. The deletions carry the identities and offsets of the replay in order.
\<close>
theorem plan_replays:
  fixes T :: "('a, 'b) tables"
  assumes "tables_laws T ok" and "same_law T ok same" and "delivery_ok T ok input" and "head_ok T ok input original_head"
    and "first_event_offset input \<le> from_event" and "from_event \<le> tl_event"
    and "unat (first_event_offset input) + total_events (delivery_change input) \<le> unat tl_event"
    and "target_ok T input (unat from_event) (unat tl_event) original_head live through"
    and "\<And>qs. lookup qs = Inr (answer (row_keys T (records (delivery_change input))) live through qs)"
    and "replay (missing (unat from_event) (floor_of (unat from_event) (events_of T input) through) (events_of T input)) live = Some (gone, live')"
  shows "\<exists>batch. plan T same input from_event tl_event original_head lookup = Inr batch \<and>
    (\<forall>k. applied T (delivery_change input) batch live k = live' k) \<and>
    map (\<lambda>d. (unat (delete_id d), unat (delete_event d))) (batch_deletes batch) = map (\<lambda>(i, e, _). (i, e)) gone"
proof -
  obtain start old_change where oh: "original_head = (start, old_change)" by fastforce
  let ?us = "events_of T input" and ?c = "delivery_change input" and ?s = "first_event_offset input" and ?f = "unat from_event"
  let ?flr = "floor_of ?f ?us through"
  let ?M = "missing ?f ?flr ?us" and ?stop = "?s + word_of_nat (total_events ?c)"
  note del = assms(3)
  note valid = validate_input_ok [OF del]
  have stop: "\<not> ?stop > tl_event" using assms(7) valid(3) by (simp add: word_less_nat_alt)
  have bounds: "\<not> (from_event < ?s \<or> from_event > tl_event \<or> ?stop > tl_event \<or> fst original_head = 0 \<or> fst original_head > ?s)"
    using assms(4-6) stop by (auto simp: head_ok_def oh)
  have gone: "unat (delete_id (delete_of g)) = fst g \<and> unat (delete_event (delete_of g)) = fst (snd g)" if "g \<in> set gone" for g
  proof -
    obtain i e row k p where g: "g = (i, e, row, k, p)" by (metis prod_cases5)
    have r: "(e, row, k, False) \<in> set ?M" "i \<in> set (live k) \<union> set (born ?M k)" using replay_gone [OF assms(10) that [unfolded g]] by auto
    have e: "(e, row, k, False) \<in> set ?us" "?f \<le> e" using r(1) by (auto simp: missing_def)
    have w: "?f \<le> e \<and> (e, row, k, False) \<in> set ?us \<Longrightarrow> wanted ?f ?us k \<noteq> 0"
      unfolding wanted_def by (force simp: filter_empty_conv)
    have "ids_ok (unat tl_event) live through k" using assms(8) w e by (auto simp: target_ok_def)
    then have "i < 2 ^ 64"
      using r(2) events_mem(2) [OF del] unat_u64_less [of tl_event] assms(7) by (fastforce simp: ids_ok_def born_missing)
    moreover have "e < 2 ^ 64" using events_mem(2) [OF del e(1)] assms(7) unat_u64_less [of tl_event] by linarith
    ultimately show ?thesis by (simp add: g delete_of_def unat_of_nat take_bit_nat_eq_self)
  qed
  have finish: "?thesis" if plan: "plan T same input from_event tl_event original_head lookup = Inr batch"
    and ins: "batch_inserts batch = map insert_of (inserts_in ?M)" and dels: "batch_deletes batch = map delete_of gone" for batch
    using plan applied_replay [OF del assms(8) unat_u64_less refl assms(10) ins dels] gone
    by (intro exI [of _ batch]) (auto simp: dels case_prod_unfold)
  show ?thesis
  proof (cases "list_all (\<lambda>d. sint d > 0) (diff_values ?c)")
    case True
    let ?rows = "zip (row_keys T (records ?c)) (diff_values ?c)"
    have pos: "\<forall>(k, d) \<in> set ?rows. 0 < sint d" using True by (auto simp: list_all_iff dest: set_zip_rightD)
    have up: "p" if mem: "(e, row, k, p) \<in> set ?us" for e row k p
    proof -
      obtain j where "j < length ?rows" "p = (0 < sint (snd (?rows ! j)))" using mem unfolding events_unit units_mem by blast
      then show ?thesis using pos nth_mem [of j ?rows] by (metis case_prod_unfold)
    qed
    have none: "wanted ?f ?us k = 0" for k using up unfolding wanted_def by (auto simp: filter_empty_conv)
    have ends: "0 < unat ?s" "unat ?s + rows_total ?rows < 2 ^ 64" using del delivery_rows(2) [OF del] by (auto simp: delivery_ok_def Let_def)
    have "inserts_in ?M = filter (\<lambda>u. ?f \<le> fst u) ?us"
      using up events_mem(1) [OF del] ends(1) none by (auto simp: inserts_in_def missing_def floor_of_def intro!: filter_cong) fastforce+
    moreover have "gone = []" using replay_gone [OF assms(10)] up by (cases gone) (fastforce simp: missing_def)+
    moreover have "batch_inserts (derive_inserts input from_event) = map insert_of (filter (\<lambda>u. ?f \<le> fst u) ?us)"
      using derive_rows_units [OF refl ends(2) pos, of from_event 0 "[]"] delivery_rows(1) [OF del]
      by (simp add: derive_inserts_def events_unit)
    ultimately show ?thesis
      using finish [of "derive_inserts input from_event"] valid bounds True delivery_canonical(2) [OF assms(1) del]
      by (auto simp: plan_def Let_def derive_inserts_def)
  next
    case False
    have left: "unat (saturating_sub_u64 ?stop from_event) = unat ?s + total_events ?c - ?f"
      using valid(3) by (simp add: saturating_sub_u64_def word_le_nat_alt unat_sub)
    obtain P where P: "plan_groups T input from_event tl_event start (unat (saturating_sub_u64 ?stop from_event)) lookup = Inr P"
      "pln_inserts P = map insert_of (inserts_in ?M)" "pln_deletes P = map delete_of gone" "pln_births P = births_of (unat start) ?flr gone"
      using plan_groups_ok [OF assms(1) del assms(8,9,5) left refl assms(10), of start] by auto
    note births = births_valid [OF assms(1,2) del assms(4,8) [unfolded oh] refl assms(10) refl]
    show ?thesis
      using finish [of "\<lparr>batch_inserts = pln_inserts P, batch_deletes = pln_deletes P\<rparr>"] valid bounds False P births
      by (auto simp: plan_def Let_def oh)
  qed
qed

text \<open>The row 7 was inserted by event 1; the delivery inserts 8 by event 2 and deletes 7 by event 3.\<close>

definition sample_key :: "nat \<Rightarrow> bytes" where
  "sample_key n = 1 # be_of_nat 8 n"

definition sample_delivery :: "nat option list delivery_batch" where
  "sample_delivery = \<lparr>delivery_change = \<lparr>records = [Some 8, Some 7], diffs = [Some 1, Some (- 1)]\<rparr>, first_event_offset = 2\<rparr>"

definition sample_birth :: "nat option list change" where
  "sample_birth = \<lparr>records = [Some 7], diffs = [Some 1]\<rparr>"

definition sample_live :: "bytes \<Rightarrow> nat list" where
  "sample_live k = (if k = sample_key 7 then [1] else [])"

definition same_rows :: "nat option list \<Rightarrow> nat option list \<Rightarrow> bool" where
  "same_rows b b' \<longleftrightarrow> row_keys sample_tables b = row_keys sample_tables b'"

lemma sample_row_keys: "row_keys sample_tables b = map (\<lambda>x. case x of None \<Rightarrow> [0] | Some n \<Rightarrow> sample_key n) b"
  by (auto simp: row_keys_def sample_batch_values row_bytes_def sample_key_def split: option.splits)

lemma sample_same_law: "same_law sample_tables sample_ok same_rows"
proof -
  have key: "row_keys sample_tables (take 1 (drop i b)) = [row_key sample_tables b i]" if "i < length b" for i b
  proof -
    have "take 1 (drop i b) = [b ! i]" using that by (simp add: take_Suc hd_drop_conv_nth)
    moreover have "row_key sample_tables b i = row_keys sample_tables b ! i" using that by (simp add: row_keys_nth)
    ultimately show ?thesis using that by (simp add: sample_row_keys)
  qed
  have "batch_slice (table_arrow sample_tables) b i 1 = take 1 (drop i b)" for b i by (simp add: sample_table_def)
  then show ?thesis using key by (simp add: same_law_def same_rows_def)
qed

lemma sample_events: "events_of sample_tables sample_delivery = [(2, 0, sample_key 8, True), (3, 1, sample_key 7, False)]"
  by (simp add: events_of_def unit_events_def sample_row_keys sample_delivery_def diff_values_def diff_value_def magnitude_def)

lemma sample_keys_differ: "sample_key 7 \<noteq> sample_key 8" "sample_key 8 \<noteq> sample_key 7"
  using be_of_nat_inject [of 7 8 8] by (auto simp: sample_key_def)

theorem plan_replays_witness:
  "\<exists>batch. plan sample_tables same_rows sample_delivery 2 4 (1, sample_birth)
       (\<lambda>qs. Inr (answer [sample_key 8, sample_key 7] sample_live (\<lambda>_. 1) qs)) = Inr batch \<and>
     applied sample_tables (delivery_change sample_delivery) batch sample_live (sample_key 7) = [] \<and>
     applied sample_tables (delivery_change sample_delivery) batch sample_live (sample_key 8) = [2]"
proof -
  let ?T = sample_tables and ?D = sample_delivery and ?us = "events_of sample_tables sample_delivery"
  have tables: "table_ok ?T sample_ok [Some 8, Some 7]" "table_ok ?T sample_ok [Some 7]"
    by (rule sample_tables_ok; simp add: u64_max_def)+
  have ok: "change_ok (table_arrow ?T) (delivery_change ?D)" "change_ok (table_arrow ?T) sample_birth"
    by (simp_all add: change_ok_def num_rows_def sample_delivery_def sample_birth_def)
  have del: "delivery_ok ?T sample_ok ?D"
    using ok(1) tables(1) by (simp add: delivery_ok_def sample_delivery_def sample_row_keys sample_key_def diff_values_def diff_value_def
        magnitude_def MAX_CANONICAL_BATCH_BYTES_def)
  have hd: "head_ok ?T sample_ok ?D (1, sample_birth)"
    using ok(2) tables(2) by (simp add: head_ok_def sample_birth_def sample_delivery_def diff_values_def diff_value_def magnitude_def)
  have wanted: "wanted 2 ?us k = (if k = sample_key 7 then 1 else 0)" for k by (auto simp: sample_events)
  have born: "born_in ?T 1 sample_birth 1 (sample_key 7)"
    by (simp add: born_in_def unit_events_def sample_birth_def sample_row_keys diff_values_def diff_value_def magnitude_def)
  have tgt: "target_ok ?T ?D (unat (2 :: u64)) (unat (4 :: u64)) (1, sample_birth) sample_live (\<lambda>_. 1)"
    unfolding target_ok_def using born
    by (auto simp: wanted ids_ok_def sample_live_def Let_def sample_delivery_def split: if_splits)
  have run: "replay (missing (unat (2 :: u64)) (floor_of (unat (2 :: u64)) ?us (\<lambda>_. 1)) ?us) sample_live =
      Some ([(1, 3, 1, sample_key 7, False)], sample_live(sample_key 8 := [2], sample_key 7 := []))"
    using sample_keys_differ by (simp add: sample_events floor_of_def replay_Cons sample_live_def)
  have keys: "row_keys ?T (records (delivery_change ?D)) = [sample_key 8, sample_key 7]" by (simp add: sample_row_keys sample_delivery_def)
  have bounds: "first_event_offset ?D \<le> 2" "(2 :: u64) \<le> 4" "unat (first_event_offset ?D) + total_events (delivery_change ?D) \<le> unat (4 :: u64)"
    by (simp_all add: sample_delivery_def diff_values_def diff_value_def magnitude_def)
  show ?thesis
    using plan_replays [OF sample_tables_laws sample_same_law del hd bounds tgt _ run,
        where lookup = "\<lambda>qs. Inr (answer [sample_key 8, sample_key 7] sample_live (\<lambda>_. 1) qs)"] sample_keys_differ
    unfolding keys by fastforce
qed

end
