(* ===== verification/Spec2Isabelle.thy ===== *)
theory Spec2Isabelle
  imports Store_Properties Flow_Properties Source_Sequence Cdc_Properties Change_Projection Transform_Distinct Sink_Properties Sink_Identity Sink_Mutations
begin

text \<open>
  A verification development of DogPaddle, an incremental relational engine that keeps its whole
  execution state in a transactional store.

  \<^bold>\<open>The program.\<close> \<^verbatim>\<open>crates/store\<close> is a typed layer over RocksDB: transactions with poisoning and batched
  commits, a catalog of named data objects, and collections (cell, ordered map, weight map, partitioned map,
  queue) that share one key space through prefixes. \<^verbatim>\<open>crates/change\<close> is the unit of data, a batch of
  rows with signed differences. \<^verbatim>\<open>crates/operation\<close> defines what an operation is: a source, a transform
  (atomic or computing page by page from a resumable position) or a sink. \<^verbatim>\<open>crates/flow\<close> validates a graph
  of operations, fuses chains of atomic ones, and runs the graph by rounds of \<^verbatim>\<open>Flow::advance\<close>: capture
  from sources, a bounded number of stack actions, delivery to sinks. A call of an operation is a \<^emph>\<open>frame\<close>
  of a durable call stack kept in the store, so that a process that dies resumes where it committed.

  \<^bold>\<open>Theories\<close>, in import order (paths under \<^verbatim>\<open>src/crates\<close>).

  \<^item> \<open>Prelude\<close>: bytes, big-endian words, checked arithmetic, and the state-and-result computations \<open>sem\<close>
    (\<open>sem_bind\<close> is \<^verbatim>\<open>?\<close>) with their weakest-precondition rules.
  \<^item> \<open>Store_Codec\<close>: \<^verbatim>\<open>store/src/codec.rs\<close>. The traits \<^verbatim>\<open>StoreValue\<close> and \<^verbatim>\<open>StoreKey\<close> are records; their documented
    laws are the locales \<open>store_value_contract\<close> and \<open>store_key_contract\<close>, interpreted on every implementation.
  \<^item> \<open>Store_Transaction\<close>: \<^verbatim>\<open>error.rs\<close>, \<^verbatim>\<open>store/mod.rs\<close>, \<^verbatim>\<open>store/transaction.rs\<close>: a transaction is an engine view plus
    a poison flag; commit, batched commit, barrier, finish.
  \<^item> \<open>Store_Data\<close>: \<^verbatim>\<open>store/data.rs\<close>: prefixes, point reads and writes, bounded paged scans.
  \<^item> \<open>Store_Collections\<close>, \<open>Store_Queue\<close>: \<^verbatim>\<open>collections/*.rs\<close>. The queue is refined to a list of items with
    64-bit wrapping sequence numbers; the locale \<open>fifo_queue\<close> states its contract.
  \<^item> \<open>Store_Catalog\<close>: \<^verbatim>\<open>store/database.rs\<close> and the setup half of a store.
  \<^item> \<open>Memory_Engine\<close>: an association-list engine that meets the engine laws; used by witnesses only.
  \<^item> \<open>Store_Properties\<close>: the store's contract towards its clients.
  \<^item> \<open>Change_Core\<close>: \<^verbatim>\<open>change/src/change.rs\<close>. \<open>Operation_Core\<close>: \<^verbatim>\<open>operation/src/operation/mod.rs\<close>, \<^verbatim>\<open>compute.rs\<close>,
    \<^verbatim>\<open>boundary.rs\<close>: the records of methods of sources, transforms and sinks, the byte budget and the resumable
    position.
  \<^item> \<open>Flow_Topology\<close>: \<^verbatim>\<open>flow/src/build/validate.rs\<close>; \<open>Flow_Frame\<close>: \<^verbatim>\<open>flow/frame.rs\<close>; \<open>Flow_Runtime\<close>: \<^verbatim>\<open>flow/runtime.rs\<close> and
    \<^verbatim>\<open>status.rs\<close>; \<open>Flow_Advance\<close>: \<^verbatim>\<open>flow/advance.rs\<close>, every function of the round.
  \<^item> \<open>Flow_Stack\<close>, \<open>Flow_Safety\<close>, \<open>Flow_Page\<close>, \<open>Flow_Round\<close>, \<open>Flow_Actions\<close>: the invariant of a running flow, layer by
    layer: the list of frames that the two maps represent, the contract of the operations, one page, one frame,
    one round. \<open>Flow_Example\<close> holds two concrete flows that meet every hypothesis, with a committing round of one; \<open>Flow_Restore\<close> treats
    reopening, \<open>Flow_Properties\<close> states the scheduler's properties.
  \<^item> \<open>Change_Schema\<close>, \<open>Change_Projection\<close>: \<^verbatim>\<open>change/src/schema.rs\<close> (data types, fields, the validator of a record schema)
    and \<^verbatim>\<open>projection.rs\<close>.
  \<^item> \<open>Store_Confined\<close>: which collection operations touch only their own data. \<open>Source_Contract\<close>: the locale of what the
    scheduler relies on in a source. \<open>Source_Sequence\<close>: \<^verbatim>\<open>operation/src/operation/scan/sequence.rs\<close>, an interpretation of it.
  \<^item> \<open>Cdc_Convert\<close>: \<^verbatim>\<open>scan/cdc_convert.rs\<close>, records of a change stream to changes. \<open>Cdc_Runtime\<close>: \<^verbatim>\<open>scan/cdc_runtime.rs\<close>,
    the state machine of a source that captures a snapshot, seals it and then streams; \<open>Cdc_Properties\<close> refines it to an
    abstract machine over the phase, the checkpoint and the queue.
  \<^item> \<open>Relation_Row\<close>, \<open>Relation_Decode\<close>: \<^verbatim>\<open>relation/row.rs\<close>: the canonical bytes of a row, their size, the admission of
    stored bytes against a budget, and Arrow builders filled from them.
  \<^item> \<open>Transform_Core\<close>: the logical size of a change (\<^verbatim>\<open>compute.rs\<close>), the events of a change and the locale
    \<open>atomic_contract\<close>. \<open>Transform_Distinct\<close>: \<^verbatim>\<open>transform/distinct.rs\<close>, an interpretation of it, against a reference on events.
  \<^item> \<open>Sink_State\<close>, \<open>Sink_Batch\<close>, \<open>Sink_Buffered\<close>: \<^verbatim>\<open>sink/buffered/state.rs\<close>, \<^verbatim>\<open>batch.rs\<close> and \<^verbatim>\<open>runtime.rs\<close>: the durable outbox of an
    external sink, the loader of bounded prefixes and the sink operation. \<open>Sink_Load\<close> proves the loader against the list of
    unit events the outbox stands for, \<open>Sink_Session\<close> is the step relation of a sink that enqueues, loads, delivers, settles,
    fails and reopens, \<open>Sink_Recovery\<close> shows that the checks of reopening accept every reachable outbox,
    \<open>Sink_Admission\<close> specifies what an outbox admits in natural numbers, and \<open>Sink_Properties\<close> states the properties.
  \<^item> \<open>Sink_Plan\<close>: \<^verbatim>\<open>sink/relation/plan.rs\<close> and \<^verbatim>\<open>relation/mod.rs\<close>: how a delivery becomes insertions and deletions of identities.
    \<open>Sink_Replay\<close> and \<open>Sink_Groups\<close> relate its loops to a replay of unit events, \<open>Sink_Mutations\<close> states the result, \<open>Sink_Identity\<close>
    treats signed identities and the last mutation of each.

  \<^bold>\<open>How code becomes definitions.\<close> A method with \<^verbatim>\<open>&mut\<close> state is a function from the state to a result and the
  new state; \<^verbatim>\<open>Result\<close> is a sum, with \<open>Inl\<close> for the error; \<^verbatim>\<open>u64\<close> and \<^verbatim>\<open>i64\<close> are 64-bit words, \<^verbatim>\<open>usize\<close> is a natural
  number with its bound written out. A panic (\<^verbatim>\<open>expect\<close>, \<^verbatim>\<open>unreachable!\<close>, an index out of bounds) is the error value
  \<open>Panicked\<close> of the store or \<open>Unwind\<close> of a flow, so that the absence of panics is a theorem.

  \<^bold>\<open>Parameters.\<close> RocksDB is the record \<open>engine\<close> of operations on a view and the record \<open>database\<close>; its documented
  behaviour is \<open>engine_laws\<close> and \<open>database_laws\<close>, and every call may still fail. Arrow batches are an arbitrary type with
  a row count and slices; bincode is an encoder and a decoder that inverts it; a flow's operations are arbitrary
  records of methods that keep the flow's own data untouched and do not panic (\<open>operation_ok\<close>). The arrays of a batch
  are the record \<open>arrays\<close> of Arrow's accessors with the laws \<open>arrays_laws\<close>; a change-data-capture connector is a record of
  the calls the runtime makes. The encoding of a whole change is the record \<open>sink_codec\<close> with \<open>codec_laws\<close>, the kernels that slice,
  join, filter and compare batches have the laws \<open>slice_laws\<close>, \<open>concat_laws\<close>, \<open>filter_law\<close> and \<open>same_law\<close>, and a target
  database is the record \<open>relation_target\<close>; for the planner it is the answer to a lookup.

  \<^bold>\<open>What is shown.\<close> For the store: durability of batches, rollback of poisoned transactions, disjoint namespaces,
  order-preserving codecs, complete paged scans, collections and queue against their abstract maps and lists,
  and catalog round trips. For the flow: resolution of a valid graph is total, assigns consumers exactly, and
  fuses only chains; frames decode to what was encoded; any number of rounds keeps the call stack well formed,
  never panics, leaves nothing committed that is not durable unless a reopen is demanded, tells a source of a delivery
  only once it is committed and behind a barrier, calls a target only from durable contents and settles a batch only after its
  delivery, also when any of these steps fails; an attempt that exceeds its budget leaves no
  trace; and a stack that passes the checks of reopening is well formed. For sources: the sequence source meets the
  scheduler's contract and resumes with the next number; the change-data-capture runtime refines its abstract machine,
  shows nothing of a snapshot before it is sealed and all of it afterwards, agrees with its stored state after a restart, and
  erases an abandoned capture, from the restart on, in a fixed number of rounds. For rows: size and encoding agree, bytes are the identity of a row,
  and what was admitted decodes to the encoded values. For transforms: distinct computes its reference in outputs, errors and
  stored multiplicities. For sinks: over any history of failures and restarts every accepted event is settled once, in
  order and under one number; a working store never leaves the sink stuck; admission is exact; and a plan written to a
  truthful target is the replay of the events it has not applied.

  \<^bold>\<open>Bounds and fuel.\<close> The loops of the code that are bounded by constants have the same constants: nine attempts of a
  frame with head allowances halved from 256 down to 1, \<open>MAX_DEPTH\<close> = 64 frames, \<open>STACK_ACTIONS\<close> = 32 actions
  per round, and byte allowances per page. Unbounded loops over data are structural recursions; the page loop of a
  scan is bounded by the number of entries the iterator visits. The loader of a sink has fuel for one entry more than its
  limit of events, since every entry but the last takes an event, and the validation of an outbox for one page more than its
  tail, since every page but the last moves towards it; the theorems on them show that the fuel is never used up.

  \<^bold>\<open>Not modelled.\<close> The byte layout of Arrow IPC and of JSON definitions, SQL planning over DataFusion, expressions,
  the joins and aggregates, external databases and connectors (network and JVM I/O), and the command line.
\<close>

end
